(* ===== verification/MiaPrelude.thy ===== *)
theory MiaPrelude
  imports Main "HOL-Library.Word" "HOL-Library.Char_ord" "HOL-Library.List_Lexorder"
begin

text \<open>
  Vocabulary shared by every component of the camera algorithm engine
  (\<^verbatim>\<open>mivifwk/mialgoengine\<close>): machine integers, result codes, the faults a C++
  statement can raise, the process-wide environment, and the lemma collections the
  component theories extend.
\<close>

unbundle bit_operations_syntax

named_theorems std_map_simps \<open>rewrites for \<open>std::map\<close> operations\<close>
named_theorems queue_simps \<open>rewrites for \<open>ThreadSafeQueue\<close> operations\<close>
named_theorems outcome_simps \<open>rewrites for computations that may fault\<close>

type_synonym u8 = "8 word"
type_synonym u16 = "16 word"
type_synonym u32 = "32 word"
type_synonym u64 = "64 word"

text \<open>
  A computation either yields a value or stops at the first statement whose behaviour the
  language does not define or that throws: \<open>OutOfRange\<close> is \<open>std::map::at\<close> or
  \<open>std::vector::at\<close>, \<open>BadIndex\<close> an unchecked index past the end, \<open>BadErase\<close> an
  \<open>erase\<close> of the end iterator, \<open>NullDeref\<close> a null pointer used as an object,
  \<open>DivByZero\<close> an integer division by zero, \<open>SignedOverflow\<close> a signed result that does not
  fit its type, \<open>BadFree\<close> a heap object used or freed after it was freed,
  \<open>AssertFail\<close> a failed assertion, \<open>WouldBlock\<close> a wait whose condition does not hold, and
  \<open>NoReturn\<close> a computation that did not finish within the given bound.
\<close>

datatype fault =
    OutOfRange
  | BadIndex
  | BadErase
  | NullDeref
  | DivByZero
  | SignedOverflow
  | BadFree
  | AssertFail
  | WouldBlock
  | NoReturn

type_synonym 'a outcome = "fault + 'a"

definition bindE :: "'a outcome \<Rightarrow> ('a \<Rightarrow> 'b outcome) \<Rightarrow> 'b outcome" where
  "bindE m f = (case m of Inl e \<Rightarrow> Inl e | Inr x \<Rightarrow> f x)"

definition is_ok :: "'a outcome \<Rightarrow> bool" where
  "is_ok m = (case m of Inl _ \<Rightarrow> False | Inr _ \<Rightarrow> True)"

text \<open>The engine's result codes (\<^verbatim>\<open>MiaPostProcType.h\<close>).\<close>

datatype CDKResult =
    MIAS_OK
  | MIAS_UNKNOWN_ERROR
  | MIAS_INVALID_PARAM
  | MIAS_NO_MEM
  | MIAS_MAP_FAILED
  | MIAS_UNMAP_FAILED
  | MIAS_OPEN_FAILED
  | MIAS_INVALID_CALL
  | MIAS_UNABLE_LOAD
  | MIAS_ABNORMAL

definition vec_get :: "'a list \<Rightarrow> nat \<Rightarrow> 'a outcome" where
  "vec_get xs i = (if i < length xs then Inr (xs ! i) else Inl BadIndex)"

definition contains :: "string \<Rightarrow> string \<Rightarrow> bool" where
  "contains s pat = (\<exists>i \<in> set [0..<Suc (length s)]. take (length pat) (drop i s) = pat)"

subsection \<open>Lemmas on outcomes, lists and sub-strings\<close>

lemma bindE_simps [simp, outcome_simps]:
  "bindE (Inl e) f = Inl e"
  "bindE (Inr x) f = f x"
  by (simp_all add: bindE_def)

lemma bindE_assoc: "bindE (bindE m f) g = bindE m (\<lambda>x. bindE (f x) g)"
  by (cases m) simp_all

lemma bindE_eq_Inr [outcome_simps]:
  "bindE m f = Inr y \<longleftrightarrow> (\<exists>x. m = Inr x \<and> f x = Inr y)"
  by (cases m) auto

lemma bindE_eq_Inl: "bindE m f = Inl e \<longleftrightarrow> m = Inl e \<or> (\<exists>x. m = Inr x \<and> f x = Inl e)"
  by (cases m) auto

text \<open>A computation that comes back, with a value or with a fault other than \<open>NoReturn\<close>.\<close>

definition comes_back :: "'a outcome \<Rightarrow> bool" where
  "comes_back m \<longleftrightarrow> m \<noteq> Inl NoReturn"

lemma comes_back_Inr [simp]: "comes_back (Inr x)"
  by (simp add: comes_back_def)

lemma comes_back_bindE [intro]:
  "comes_back m \<Longrightarrow> (\<And>x. m = Inr x \<Longrightarrow> comes_back (f x)) \<Longrightarrow> comes_back (bindE m f)"
  by (auto simp: comes_back_def bindE_eq_Inl)

lemma is_ok_simps [simp]: "is_ok (Inl e) = False" "is_ok (Inr x) = True"
  by (simp_all add: is_ok_def)

lemma is_ok_iff: "is_ok m \<longleftrightarrow> (\<exists>x. m = Inr x)"
  by (cases m) auto

lemma vec_get_ok [simp]: "i < length xs \<Longrightarrow> vec_get xs i = Inr (xs ! i)"
  by (simp add: vec_get_def)

lemma vec_get_Inr [outcome_simps]: "vec_get xs i = Inr x \<longleftrightarrow> i < length xs \<and> x = xs ! i"
  by (auto simp: vec_get_def)

lemma comes_back_vec_get [simp]: "comes_back (vec_get xs i)"
  by (simp add: comes_back_def vec_get_def)

lemma contains_self [simp]: "contains s s"
  by (auto simp: contains_def intro!: bexI [of _ 0])

lemma fold_invariant_list:
  assumes "P s" and "\<And>x s. x \<in> set xs \<Longrightarrow> P s \<Longrightarrow> P (f x s)"
  shows "P (fold f xs s)"
  using assms by (induction xs arbitrary: s) auto

lemma filter_upt_nth: "filter (\<lambda>i. P (xs ! i)) [0..<length xs] = [] \<longleftrightarrow> (\<forall>x \<in> set xs. \<not> P x)"
  by (auto simp: filter_empty_conv all_set_conv_all_nth)

lemma findSomeD: "find P xs = Some x \<Longrightarrow> x \<in> set xs \<and> P x"
  by (induction xs) (auto split: if_splits)

lemma sint_small: "- (2 ^ 31) \<le> i \<Longrightarrow> i < 2 ^ 31 \<Longrightarrow> sint (word_of_int i :: u32) = i"
  by (simp add: signed_of_int signed_take_bit_int_eq_self_iff)

subsection \<open>Runs\<close>

text \<open>
  Threads of the engine interleave the member functions; a run is a sequence of them.  The
  interface a system offers to its invariants: what holds at the start and is kept by every
  step holds in every reachable state.
\<close>

locale invariant_system =
  fixes start :: "'s \<Rightarrow> bool"
    and step :: "'s \<Rightarrow> 's \<Rightarrow> bool"
    and inv :: "'s \<Rightarrow> bool"
  assumes start_inv: "start s \<Longrightarrow> inv s"
    and step_inv: "inv s \<Longrightarrow> step s t \<Longrightarrow> inv t"
begin

lemma steps_inv: "step\<^sup>*\<^sup>* s t \<Longrightarrow> inv s \<Longrightarrow> inv t"
  by (induction rule: rtranclp_induct) (auto intro: step_inv)

lemma reachable_inv: "start s \<Longrightarrow> step\<^sup>*\<^sup>* s t \<Longrightarrow> inv t"
  by (blast intro: steps_inv start_inv)

end

end
