(* ===== verification/StdMap.thy ===== *)
theory StdMap
  imports MiaPrelude
begin

text \<open>
  \<open>std::map\<close> as a list of entries sorted by strictly increasing key, so that the order a
  range-for loop visits entries in is the order of the list.  Keys of type \<open>string\<close> are
  compared byte by byte, as \<open>std::string\<close> is.  The contract the engine's code relies on
  (what a lookup returns after each update, that every update keeps the keys sorted) is the
  locale \<open>ordered_map\<close>; its lemmas about loops that index a sequence by a key serve every
  component that builds such an index.
\<close>

type_synonym ('k, 'v) std_map = "('k \<times> 'v) list"

fun sm_find :: "('k, 'v) std_map \<Rightarrow> 'k \<Rightarrow> 'v option" where
  "sm_find [] k = None"
| "sm_find ((a, v) # m) k = (if k = a then Some v else sm_find m k)"

text \<open>\<open>m[k] = v\<close>\<close>

fun sm_set :: "'k::linorder \<Rightarrow> 'v \<Rightarrow> ('k, 'v) std_map \<Rightarrow> ('k, 'v) std_map" where
  "sm_set k v [] = [(k, v)]"
| "sm_set k v ((a, w) # m) =
     (if k < a then (k, v) # (a, w) # m
      else if k = a then (k, v) # m
      else (a, w) # sm_set k v m)"

text \<open>\<open>m.insert({k, v})\<close>: an existing entry is kept.\<close>

definition sm_insert :: "'k::linorder \<Rightarrow> 'v \<Rightarrow> ('k, 'v) std_map \<Rightarrow> ('k, 'v) std_map" where
  "sm_insert k v m = (case sm_find m k of None \<Rightarrow> sm_set k v m | Some _ \<Rightarrow> m)"

fun sm_erase :: "'k \<Rightarrow> ('k, 'v) std_map \<Rightarrow> ('k, 'v) std_map" where
  "sm_erase k [] = []"
| "sm_erase k ((a, v) # m) = (if k = a then m else (a, v) # sm_erase k m)"

text \<open>\<open>m.at(k)\<close> throws where \<open>m[k]\<close> would create an entry.\<close>

definition sm_at :: "('k, 'v) std_map \<Rightarrow> 'k \<Rightarrow> 'v outcome" where
  "sm_at m k = (case sm_find m k of None \<Rightarrow> Inl OutOfRange | Some v \<Rightarrow> Inr v)"

text \<open>The value \<open>m[k]\<close> refers to; the entry it creates for a missing key holds \<open>d\<close>.\<close>

definition sm_index :: "'v \<Rightarrow> ('k, 'v) std_map \<Rightarrow> 'k \<Rightarrow> 'v" where
  "sm_index d m k = (case sm_find m k of None \<Rightarrow> d | Some v \<Rightarrow> v)"

text \<open>\<open>m[k].push_back(x)\<close>\<close>

definition sm_push :: "'k::linorder \<Rightarrow> 'v \<Rightarrow> ('k, 'v list) std_map \<Rightarrow> ('k, 'v list) std_map" where
  "sm_push k x m = sm_set k (sm_index [] m k @ [x]) m"

definition sm_wf :: "('k::linorder, 'v) std_map \<Rightarrow> bool" where
  "sm_wf m = sorted_wrt (<) (map fst m)"

subsection \<open>The contract\<close>

locale ordered_map =
  fixes empty :: "'m"
    and lookup :: "'m \<Rightarrow> 'k::linorder \<Rightarrow> 'v option"
    and assign :: "'k \<Rightarrow> 'v \<Rightarrow> 'm \<Rightarrow> 'm"
    and delete :: "'k \<Rightarrow> 'm \<Rightarrow> 'm"
    and entries :: "'m \<Rightarrow> ('k \<times> 'v) list"
    and invar :: "'m \<Rightarrow> bool"
  assumes lookup_empty: "lookup empty k = None"
    and lookup_assign: "invar m \<Longrightarrow> lookup (assign k v m) k' = (if k' = k then Some v else lookup m k')"
    and lookup_delete: "invar m \<Longrightarrow> lookup (delete k m) k' = (if k' = k then None else lookup m k')"
    and entries_lookup: "invar m \<Longrightarrow> (k, v) \<in> set (entries m) \<longleftrightarrow> lookup m k = Some v"
    and entries_sorted: "invar m \<Longrightarrow> sorted_wrt (<) (map fst (entries m))"
    and invar_empty: "invar empty"
    and invar_assign: "invar m \<Longrightarrow> invar (assign k v m)"
    and invar_delete: "invar m \<Longrightarrow> invar (delete k m)"
begin

lemma invar_fold_assign:
  "invar m \<Longrightarrow> invar (fold (\<lambda>x m. assign (key x) (val x m) m) xs m)"
  by (induction xs arbitrary: m) (auto intro: invar_assign)

lemma lookup_fold_other:
  assumes "invar m" and "\<forall>x \<in> set xs. key x \<noteq> k"
  shows "lookup (fold (\<lambda>x m. assign (key x) (val x m) m) xs m) k = lookup m k"
  using assms by (induction xs arbitrary: m) (auto simp: lookup_assign invar_assign)

lemma entries_unique:
  assumes "invar m" and "(k, v) \<in> set (entries m)" and "(k, w) \<in> set (entries m)"
  shows "v = w"
  using assms by (simp add: entries_lookup)

lemma distinct_keys: "invar m \<Longrightarrow> distinct (map fst (entries m))"
  using entries_sorted strict_sorted_iff by blast

end

text \<open>
  Maps whose values are sequences: the loop \<open>for (x : xs) m[key(x)].push_back(val(x))\<close>
  leaves under each key exactly the values of the elements with that key, in order.
\<close>

locale index_map = ordered_map empty lookup assign delete entries invar
  for empty :: "'m"
    and lookup :: "'m \<Rightarrow> 'k::linorder \<Rightarrow> 'v list option"
    and assign :: "'k \<Rightarrow> 'v list \<Rightarrow> 'm \<Rightarrow> 'm"
    and delete :: "'k \<Rightarrow> 'm \<Rightarrow> 'm"
    and entries :: "'m \<Rightarrow> ('k \<times> 'v list) list"
    and invar :: "'m \<Rightarrow> bool" +
  fixes push :: "'k \<Rightarrow> 'v \<Rightarrow> 'm \<Rightarrow> 'm"
  assumes push_assign: "push k x m = assign k ((case lookup m k of None \<Rightarrow> [] | Some l \<Rightarrow> l) @ [x]) m"
begin

lemma invar_push: "invar m \<Longrightarrow> invar (push k x m)"
  by (simp add: push_assign invar_assign)

lemma invar_fold_push: "invar m \<Longrightarrow> invar (fold (\<lambda>x. push (key x) (val x)) xs m)"
  by (induction xs arbitrary: m) (auto intro: invar_push)

lemma lookup_push:
  "invar m \<Longrightarrow> lookup (push k x m) k' =
     (if k' = k then Some ((case lookup m k of None \<Rightarrow> [] | Some l \<Rightarrow> l) @ [x]) else lookup m k')"
  by (simp add: push_assign lookup_assign)

lemma lookup_fold_push:
  assumes "invar m"
  shows "lookup (fold (\<lambda>x. push (key x) (val x)) xs m) k =
    (case lookup m k of
       None \<Rightarrow> (if filter (\<lambda>x. key x = k) xs = [] then None
               else Some (map val (filter (\<lambda>x. key x = k) xs)))
     | Some l \<Rightarrow> Some (l @ map val (filter (\<lambda>x. key x = k) xs)))"
  using assms
proof (induction xs arbitrary: m)
  case Nil
  then show ?case by (simp split: option.splits)
next
  case (Cons x xs)
  then have "invar (push (key x) (val x) m)" by (simp add: invar_push)
  then show ?case
    using Cons by (auto simp: lookup_push split: option.splits)
qed

lemma lookup_index:
  "lookup (fold (\<lambda>x. push (key x) (val x)) xs empty) k =
    (if filter (\<lambda>x. key x = k) xs = [] then None
     else Some (map val (filter (\<lambda>x. key x = k) xs)))"
  by (simp add: lookup_fold_push invar_empty lookup_empty)

end

subsection \<open>The sorted list implements it\<close>

lemma sm_wf_Nil [simp]: "sm_wf []"
  by (simp add: sm_wf_def)

lemma sm_wf_Cons: "sm_wf ((a, v) # m) \<longleftrightarrow> (\<forall>k \<in> fst ` set m. a < k) \<and> sm_wf m"
  by (simp add: sm_wf_def)

lemma sm_find_set [simp, std_map_simps]:
  "sm_find (sm_set k v m) k' = (if k' = k then Some v else sm_find m k')"
  by (induction k v m rule: sm_set.induct) auto

lemma sm_find_None_iff: "sm_find m k = None \<longleftrightarrow> k \<notin> fst ` set m"
  by (induction m k rule: sm_find.induct) auto

lemma fst_set_sm_set [simp]: "fst ` set (sm_set k v m) = insert k (fst ` set m)"
  by (induction k v m rule: sm_set.induct) auto

lemma sm_wf_set: "sm_wf m \<Longrightarrow> sm_wf (sm_set k v m)"
  by (induction k v m rule: sm_set.induct)
    (auto simp: sm_wf_Cons simp del: ball_simps dest: order.strict_trans)

lemma fst_set_sm_erase: "fst ` set (sm_erase k m) \<subseteq> fst ` set m"
  by (induction k m rule: sm_erase.induct) auto

lemma sm_wf_erase: "sm_wf m \<Longrightarrow> sm_wf (sm_erase k m)"
proof (induction k m rule: sm_erase.induct)
  case (1 k)
  then show ?case by simp
next
  case (2 k a v m)
  then show ?case using fst_set_sm_erase [of k m] by (auto simp only: sm_wf_Cons sm_erase.simps split: if_splits)
qed

lemma sm_find_erase [std_map_simps]:
  "sm_wf m \<Longrightarrow> sm_find (sm_erase k m) k' = (if k' = k then None else sm_find m k')"
proof (induction k m rule: sm_erase.induct)
  case (1 k)
  then show ?case by simp
next
  case (2 k a v m)
  have "k = a \<Longrightarrow> sm_find m k = None"
    using 2(2) by (auto simp: sm_wf_Cons sm_find_None_iff)
  then show ?case using 2 by (auto simp: sm_wf_Cons)
qed

lemma sm_entries_find: "sm_wf m \<Longrightarrow> (k, v) \<in> set m \<longleftrightarrow> sm_find m k = Some v"
proof (induction m)
  case Nil
  then show ?case by simp
next
  case (Cons e m)
  obtain a w where e: "e = (a, w)" by (cases e)
  have "k = a \<Longrightarrow> (k, v) \<notin> set m"
    using Cons(2) e by (force simp: sm_wf_Cons)
  then show ?case using Cons e by (auto simp: sm_wf_Cons)
qed

interpretation sm: ordered_map "[]" sm_find sm_set sm_erase "\<lambda>m. m" sm_wf
  by unfold_locales
    (auto simp: sm_find_erase sm_entries_find sm_wf_set sm_wf_erase, simp add: sm_wf_def)

interpretation smi: index_map "[]" sm_find sm_set sm_erase "\<lambda>m. m" sm_wf sm_push
  by unfold_locales (simp add: sm_push_def sm_index_def)

lemma sm_wf_push: "sm_wf m \<Longrightarrow> sm_wf (sm_push k x m)"
  by (rule smi.invar_push)

lemma sm_wf_insert: "sm_wf m \<Longrightarrow> sm_wf (sm_insert k v m)"
  by (simp add: sm_insert_def sm_wf_set split: option.splits)

lemma sm_find_insert [simp, std_map_simps]:
  "sm_find (sm_insert k v m) k' =
     (case sm_find m k' of None \<Rightarrow> (if k' = k then Some v else None) | Some w \<Rightarrow> Some w)"
  by (auto simp: sm_insert_def split: option.splits)

lemma sm_find_push [simp, std_map_simps]:
  "sm_find (sm_push k x m) k' = (if k' = k then Some (sm_index [] m k @ [x]) else sm_find m k')"
  by (simp add: sm_push_def)

lemma sm_index_set [simp]:
  "sm_index d (sm_set k v m) k' = (if k' = k then v else sm_index d m k')"
  by (simp add: sm_index_def)

lemma sm_at_Inr [outcome_simps]: "sm_at m k = Inr v \<longleftrightarrow> sm_find m k = Some v"
  by (simp add: sm_at_def split: option.splits)

lemma sm_at_Inl: "sm_at m k = Inl e \<longleftrightarrow> sm_find m k = None \<and> e = OutOfRange"
  by (auto simp: sm_at_def split: option.splits)

lemma comes_back_sm_at [simp]: "comes_back (sm_at m k)"
  by (simp add: comes_back_def sm_at_def split: option.splits)

subsection \<open>Sums over the entries\<close>

lemma sum_sm_set:
  fixes f :: "'k::linorder \<times> 'v \<Rightarrow> 'm::comm_monoid_add"
  assumes "sm_wf m" and "sm_find m k = Some v0"
  shows "(\<Sum>e\<leftarrow>sm_set k v m. f e) + f (k, v0) = (\<Sum>e\<leftarrow>m. f e) + f (k, v)"
  using assms
proof (induction k v m rule: sm_set.induct)
  case (2 k v a w m)
  have "\<not> k < a"
  proof
    assume "k < a"
    with 2(2,3) show False by (auto simp: sm_wf_Cons dest!: sm.entries_lookup [THEN iffD2, rotated] split: if_splits)
  qed
  then show ?case
  proof (cases "k = a")
    case False
    with \<open>\<not> k < a\<close> 2 have "(\<Sum>e\<leftarrow>sm_set k v m. f e) + f (k, v0) = (\<Sum>e\<leftarrow>m. f e) + f (k, v)"
      by (simp add: sm_wf_Cons)
    with False \<open>\<not> k < a\<close> show ?thesis by (simp add: add.assoc)
  qed (use 2 in \<open>simp add: ac_simps\<close>)
qed simp

lemma sum_sm_new:
  fixes f :: "'k::linorder \<times> 'v \<Rightarrow> 'm::comm_monoid_add"
  assumes "sm_find m k = None"
  shows "(\<Sum>e\<leftarrow>sm_set k v m. f e) = (\<Sum>e\<leftarrow>m. f e) + f (k, v)"
  using assms by (induction k v m rule: sm_set.induct) (auto simp: ac_simps split: if_splits)

lemma sum_sm_erase:
  fixes f :: "'k \<times> 'v \<Rightarrow> 'm::comm_monoid_add"
  shows "sm_find m k = Some v \<Longrightarrow> (\<Sum>e\<leftarrow>sm_erase k m. f e) + f (k, v) = (\<Sum>e\<leftarrow>m. f e)"
  by (induction k m rule: sm_erase.induct) (auto simp: add.assoc intro: add.commute split: if_splits)

end
