(* ===== verification/Metadata.thy ===== *)
theory Metadata
  imports MiaPrelude
begin

text \<open>
  Reading camera metadata (\<^verbatim>\<open>mivifwk/common/metautils/VendorMetadataParser.cpp\<close>) and the
  process-wide properties the engine consults.  The metadata buffer itself and the table
  that gives a vendor tag name its numeric id belong to the Android camera library: a
  buffer is what that library answers for each tag (its type, and its entry if there is
  one), and the name table is a field of the environment.  An entry's data is a pointer, so
  it is modelled as the memory it points to.
\<close>

type_synonym cmem = "nat \<Rightarrow> u8"

record meta_entry =
  e_count :: nat
  e_data :: cmem

record camera_metadata =
  tag_type :: "u32 \<Rightarrow> int"
  entry_of :: "u32 \<Rightarrow> meta_entry option"

text \<open>\<open>None\<close> is the null pointer.\<close>

type_synonym metadata_ptr = "camera_metadata option"

datatype verror = VOK | VERROR_INVALID_PARAM | VERROR_INVALID_TAG_TYPE | VERROR_NO_TAG_ENTRY
  | VERROR_TAG_ID int

datatype SocType = QCOM | MTK

record mia_env =
  getTagID :: "string \<Rightarrow> int + u32"
  Soc :: SocType
  OpenPrunerAbnormalDump :: bool
  sDisableMask :: u32

text \<open>
  The out parameter \<open>data\<close> is written on success only: on every error path the caller's
  pointer keeps its value.
\<close>

definition getTagValue :: "metadata_ptr \<Rightarrow> u32 \<Rightarrow> cmem option \<Rightarrow> verror \<times> cmem option" where
  "getTagValue mdata tagId data =
     (case mdata of
        None \<Rightarrow> (VERROR_INVALID_PARAM, data)
      | Some md \<Rightarrow>
          (if tag_type md tagId = -1 then (VERROR_INVALID_TAG_TYPE, data)
           else (case entry_of md tagId of
                   None \<Rightarrow> (VERROR_NO_TAG_ENTRY, data)
                 | Some entry \<Rightarrow>
                     (if e_count entry = 0 then (VERROR_NO_TAG_ENTRY, data)
                      else (VOK, Some (e_data entry))))))"

definition getVTagValue ::
  "mia_env \<Rightarrow> metadata_ptr \<Rightarrow> string \<Rightarrow> cmem option \<Rightarrow> verror \<times> cmem option" where
  "getVTagValue env mdata tagName data =
     (case mdata of
        None \<Rightarrow> (VERROR_INVALID_PARAM, data)
      | Some _ \<Rightarrow>
          (case getTagID env tagName of
             Inl status \<Rightarrow> (VERROR_TAG_ID status, data)
           | Inr tagId \<Rightarrow> getTagValue mdata tagId data))"

text \<open>The value of \<open>data\<close> after the call, which is all the engine's call sites look at.\<close>

abbreviation vtag :: "mia_env \<Rightarrow> metadata_ptr \<Rightarrow> string \<Rightarrow> cmem option \<Rightarrow> cmem option" where
  "vtag env md name data \<equiv> snd (getVTagValue env md name data)"

abbreviation tag :: "metadata_ptr \<Rightarrow> u32 \<Rightarrow> cmem option \<Rightarrow> cmem option" where
  "tag md tagId data \<equiv> snd (getTagValue md tagId data)"

text \<open>Little-endian reads through the pointer.\<close>

definition read_u8 :: "cmem \<Rightarrow> u8" where
  "read_u8 p = p 0"

definition read_u32 :: "cmem \<Rightarrow> u32" where
  "read_u32 p =
     ucast (p 0) OR push_bit 8 (ucast (p 1)) OR push_bit 16 (ucast (p 2)) OR push_bit 24 (ucast (p 3))"

definition read_i32 :: "cmem \<Rightarrow> int" where
  "read_i32 p = sint (read_u32 p)"

subsection \<open>What a lookup returns\<close>

lemma getTagValue_VOK:
  "fst (getTagValue md t data) = VOK \<longleftrightarrow>
     (\<exists>m e. md = Some m \<and> tag_type m t \<noteq> -1 \<and> entry_of m t = Some e \<and> e_count e \<noteq> 0)"
  by (auto simp: getTagValue_def split: option.splits)

lemma getTagValue_frame: "fst (getTagValue md t data) \<noteq> VOK \<Longrightarrow> tag md t data = data"
  by (auto simp: getTagValue_def split: option.splits if_splits)

lemma getVTagValue_frame: "fst (getVTagValue env md name data) \<noteq> VOK \<Longrightarrow> vtag env md name data = data"
  by (auto simp: getVTagValue_def getTagValue_frame split: sum.splits option.splits)

lemma getVTagValue_found_indep:
  "fst (getVTagValue env md name d1) = VOK \<Longrightarrow> getVTagValue env md name d1 = getVTagValue env md name d2"
  by (auto simp: getVTagValue_def getTagValue_def split: sum.splits if_splits option.splits)

lemma getVTagValue_null [simp]: "getVTagValue env None name data = (VERROR_INVALID_PARAM, data)"
  by (simp add: getVTagValue_def)

end
