(* ===== verification/PipelineTypes.thy ===== *)
theory PipelineTypes
  imports StdMap Metadata
begin

text \<open>
  The pipeline description read from the JSON configuration
  (\<^verbatim>\<open>mivifwk/mialgoengine/MiaJsonUtils.h\<close>): nodes, links between node ports, and the
  constants of pixel formats and node masks.  A pipeline is a multigraph whose edges are the
  links; \<open>acyclic_links\<close> is the property a data-flow configuration has.
\<close>

datatype LinkType = SourceLink | InternalLink | SinkLink

text \<open>An enumeration object may also hold a number that names none of its enumerators.\<close>

datatype OutputType = OneBuffer | FollowInput | Custom | OtherOutput int

record NodeItem =
  nodeName :: string
  nodeInstance :: string
  nodeMask :: u32
  outputBufferNeedCheck :: bool
  isEnable :: bool
  outputType :: OutputType

record LinkItem =
  srcNodePortId :: int
  srcNodeInstance :: string
  srcPortFormat :: u32
  dstNodePortId :: int
  dstNodeInstance :: string
  dstPortFormat :: "u32 list"
  linkType :: LinkType

record PipelineInfo =
  pipelineName :: string
  nodes :: "(string, NodeItem) std_map"
  links :: "LinkItem list"

text \<open>\<open>MiaPixelFormat\<close>\<close>

abbreviation CAM_FORMAT_UNDEFINED :: u32 where "CAM_FORMAT_UNDEFINED \<equiv> 0"
abbreviation CAM_FORMAT_YUV_420_NV21 :: u32 where "CAM_FORMAT_YUV_420_NV21 \<equiv> 17"
abbreviation CAM_FORMAT_RAW16 :: u32 where "CAM_FORMAT_RAW16 \<equiv> 32"
abbreviation CAM_FORMAT_BLOB :: u32 where "CAM_FORMAT_BLOB \<equiv> 33"
abbreviation CAM_FORMAT_IMPLEMENTATION_DEFINED :: u32 where
  "CAM_FORMAT_IMPLEMENTATION_DEFINED \<equiv> 34"
abbreviation CAM_FORMAT_YUV_420_NV12 :: u32 where "CAM_FORMAT_YUV_420_NV12 \<equiv> 35"
abbreviation CAM_FORMAT_RAW_OPAQUE :: u32 where "CAM_FORMAT_RAW_OPAQUE \<equiv> 36"
abbreviation CAM_FORMAT_RAW10 :: u32 where "CAM_FORMAT_RAW10 \<equiv> 37"
abbreviation CAM_FORMAT_RAW12 :: u32 where "CAM_FORMAT_RAW12 \<equiv> 38"
abbreviation CAM_FORMAT_Y16 :: u32 where "CAM_FORMAT_Y16 \<equiv> 540422489"
abbreviation CAM_FORMAT_YV12 :: u32 where "CAM_FORMAT_YV12 \<equiv> 842094169"
abbreviation CAM_FORMAT_P010 :: u32 where "CAM_FORMAT_P010 \<equiv> 54"

text \<open>Node masks (\<^verbatim>\<open>MiaNode.h\<close>)\<close>

abbreviation INPLACE_MODE :: u32 where "INPLACE_MODE \<equiv> 1"
abbreviation SCALE_MODE :: u32 where "SCALE_MODE \<equiv> 4"
abbreviation SIGGETOUTPUT_MODE :: u32 where "SIGGETOUTPUT_MODE \<equiv> 8"
abbreviation SIGFRAME_MODE :: u32 where "SIGFRAME_MODE \<equiv> 16"
abbreviation VIRTUAL_MODE :: u32 where "VIRTUAL_MODE \<equiv> 512"
abbreviation VIRTUAL_SINKNODE :: u32 where "VIRTUAL_SINKNODE \<equiv> 1024"

definition has_mode :: "u32 \<Rightarrow> u32 \<Rightarrow> bool" where
  "has_mode m b = (m AND b \<noteq> 0)"

text \<open>The nodes a link connects, and the edge relation of a list of links.\<close>

definition link_edges :: "LinkItem list \<Rightarrow> (string \<times> string) set" where
  "link_edges ls = (\<lambda>l. (srcNodeInstance l, dstNodeInstance l)) ` set ls"

definition acyclic_links :: "LinkItem list \<Rightarrow> bool" where
  "acyclic_links ls = acyclic (link_edges ls)"

text \<open>
  The two endpoints of a link, with everything that identifies a port: pruning may splice
  links together but must carry endpoints over unchanged.
\<close>

definition src_end :: "LinkItem \<Rightarrow> string \<times> int \<times> u32" where
  "src_end l = (srcNodeInstance l, srcNodePortId l, srcPortFormat l)"

definition dst_end :: "LinkItem \<Rightarrow> string \<times> int \<times> u32 list" where
  "dst_end l = (dstNodeInstance l, dstNodePortId l, dstPortFormat l)"

text \<open>Indices of the links into and out of a node, in link order.\<close>

definition in_links :: "LinkItem list \<Rightarrow> string \<Rightarrow> nat list" where
  "in_links ls n = filter (\<lambda>i. dstNodeInstance (ls ! i) = n) [0..<length ls]"

definition out_links :: "LinkItem list \<Rightarrow> string \<Rightarrow> nat list" where
  "out_links ls n = filter (\<lambda>i. srcNodeInstance (ls ! i) = n) [0..<length ls]"

lemma link_edgesI: "i < length ls \<Longrightarrow> (srcNodeInstance (ls ! i), dstNodeInstance (ls ! i)) \<in> link_edges ls"
  by (auto simp: link_edges_def intro!: image_eqI [of _ _ "ls ! i"])

lemma acyclic_links_step:
  assumes "acyclic_links ls" and "i < length ls"
    and "(dstNodeInstance (ls ! i), srcNodeInstance (ls ! i)) \<in> (link_edges ls)\<^sup>*"
  shows False
proof -
  have "(srcNodeInstance (ls ! i), srcNodeInstance (ls ! i)) \<in> (link_edges ls)\<^sup>+"
    using link_edgesI [OF assms(2)] assms(3) by (rule rtrancl_into_trancl2)
  then show False using assms(1) by (auto simp: acyclic_links_def acyclic_def)
qed

lemma mem_in_links [simp]: "i \<in> set (in_links ls n) \<longleftrightarrow> i < length ls \<and> dstNodeInstance (ls ! i) = n"
  by (auto simp: in_links_def)

lemma mem_out_links [simp]: "i \<in> set (out_links ls n) \<longleftrightarrow> i < length ls \<and> srcNodeInstance (ls ! i) = n"
  by (auto simp: out_links_def)

lemma distinct_in_links [simp]: "distinct (in_links ls n)"
  by (simp add: in_links_def)

lemma distinct_out_links [simp]: "distinct (out_links ls n)"
  by (simp add: out_links_def)

end
