(* ===== verification/PortPrune.thy ===== *)
theory PortPrune
  imports PipelineTypes
begin

text \<open>
  Removing disabled ports from a pipeline: \<open>PipelinePruner::pipelinePortPrune\<close>
  (\<^verbatim>\<open>mivifwk/mialgoengine/MiaPipelinePruner.cpp\<close>).  The link of a disabled input port is
  deleted and, whenever a producer has lost its last output link, so are the links that feed
  it; a disabled output port cascades the other way.  The specification is the least set of
  links closed under that rule (\<open>dead_up\<close>, \<open>dead_down\<close>); the theorems say that the
  worklist loops compute it.
\<close>

datatype portType = INPUT | OUTPUT

record disablePort =
  portId :: int
  ptype :: portType

text \<open>\<open>disablePort::operator<\<close> compares a weight, so ports of equal weight are one set element.\<close>

definition port_weight :: "disablePort \<Rightarrow> int" where
  "port_weight p = (case ptype p of INPUT \<Rightarrow> 0 | OUTPUT \<Rightarrow> 1) * 100 + portId p"

fun ps_insert :: "disablePort \<Rightarrow> disablePort list \<Rightarrow> disablePort list" where
  "ps_insert p [] = [p]"
| "ps_insert p (q # qs) =
     (if port_weight p < port_weight q then p # q # qs
      else if port_weight q < port_weight p then q # ps_insert p qs
      else q # qs)"

type_synonym port_sets = "(string, disablePort list) std_map"

text \<open>\<open>disablePorts[node].insert(p)\<close>\<close>

definition dp_insert :: "string \<Rightarrow> disablePort \<Rightarrow> port_sets \<Rightarrow> port_sets" where
  "dp_insert n p m = sm_set n (ps_insert p (sm_index [] m n)) m"

type_synonym link_map = "(string, nat list) std_map"

text \<open>The two index maps the function builds first.\<close>

definition build_inputLinkMap :: "LinkItem list \<Rightarrow> link_map" where
  "build_inputLinkMap ls = fold (\<lambda>i. sm_push (dstNodeInstance (ls ! i)) i) [0..<length ls] []"

definition build_outputLinkMap :: "LinkItem list \<Rightarrow> link_map" where
  "build_outputLinkMap ls = fold (\<lambda>i. sm_push (srcNodeInstance (ls ! i)) i) [0..<length ls] []"

text \<open>The state of the pruning loops: \<open>linkFlag\<close>, \<open>inputLinkMap\<close>, \<open>outputLinkMap\<close>.\<close>

record prune_st =
  linkFlag :: "bool list"
  inputLinkMap :: link_map
  outputLinkMap :: link_map

text \<open>
  The \<open>while (!runQueue.empty())\<close> loop of the input branch.  Each round takes one link out of
  its producer's output list, so the total length of the output lists bounds the rounds; the
  first argument is that bound.  \<open>erase\<close> of a link that is not in the list is undefined
  behaviour.
\<close>

fun pruneUp :: "nat \<Rightarrow> LinkItem list \<Rightarrow> nat list \<Rightarrow> prune_st \<Rightarrow> prune_st outcome" where
  "pruneUp fuel ls [] st = Inr st"
| "pruneUp 0 ls (l # q) st = Inl NoReturn"
| "pruneUp (Suc fuel) ls (l # q) st =
     (let parentNode = srcNodeInstance (ls ! l);
          outs = sm_index [] (outputLinkMap st) parentNode
      in if l \<notin> set outs then Inl BadErase
         else
           let outs' = remove1 l outs;
               st' = st\<lparr>linkFlag := (linkFlag st)[l := False],
                        outputLinkMap := sm_set parentNode outs' (outputLinkMap st)\<rparr>
           in if outs' = []
              then (let ins = sm_index [] (inputLinkMap st') parentNode
                    in pruneUp fuel ls (q @ ins)
                         (st'\<lparr>inputLinkMap := sm_set parentNode ins (inputLinkMap st')\<rparr>))
              else pruneUp fuel ls q st')"

text \<open>The same loop of the output branch, with the roles of the two maps exchanged.\<close>

fun pruneDown :: "nat \<Rightarrow> LinkItem list \<Rightarrow> nat list \<Rightarrow> prune_st \<Rightarrow> prune_st outcome" where
  "pruneDown fuel ls [] st = Inr st"
| "pruneDown 0 ls (l # q) st = Inl NoReturn"
| "pruneDown (Suc fuel) ls (l # q) st =
     (let childNode = dstNodeInstance (ls ! l);
          ins = sm_index [] (inputLinkMap st) childNode
      in if l \<notin> set ins then Inl BadErase
         else
           let ins' = remove1 l ins;
               st' = st\<lparr>linkFlag := (linkFlag st)[l := False],
                        inputLinkMap := sm_set childNode ins' (inputLinkMap st)\<rparr>
           in if ins' = []
              then (let outs = sm_index [] (outputLinkMap st') childNode
                    in pruneDown fuel ls (q @ outs)
                         (st'\<lparr>outputLinkMap := sm_set childNode outs (outputLinkMap st')\<rparr>))
              else pruneDown fuel ls q st')"

definition sm_total :: "link_map \<Rightarrow> nat" where
  "sm_total m = sum_list (map (\<lambda>(k, v). length v) m)"

text \<open>One disabled port: look its link up, then run the loop.\<close>

definition disableOnePort ::
  "LinkItem list \<Rightarrow> string \<Rightarrow> disablePort \<Rightarrow> prune_st \<Rightarrow> prune_st outcome" where
  "disableOnePort ls nodeInst p st =
     (case ptype p of
        INPUT \<Rightarrow>
          (case sm_find (inputLinkMap st) nodeInst of
             None \<Rightarrow> Inr st
           | Some inputLinks \<Rightarrow>
               (case find (\<lambda>i. dstNodePortId (ls ! i) = portId p) inputLinks of
                  None \<Rightarrow> Inr st
                | Some l \<Rightarrow> pruneUp (Suc (sm_total (outputLinkMap st))) ls [l] st))
      | OUTPUT \<Rightarrow>
          (case sm_find (outputLinkMap st) nodeInst of
             None \<Rightarrow> Inr st
           | Some outputLinks \<Rightarrow>
               (case find (\<lambda>i. srcNodePortId (ls ! i) = portId p) outputLinks of
                  None \<Rightarrow> Inr st
                | Some l \<Rightarrow> pruneDown (Suc (sm_total (inputLinkMap st))) ls [l] st)))"

fun disablePortsOf ::
  "LinkItem list \<Rightarrow> string \<Rightarrow> disablePort list \<Rightarrow> prune_st \<Rightarrow> prune_st outcome" where
  "disablePortsOf ls n [] st = Inr st"
| "disablePortsOf ls n (p # ps) st = bindE (disableOnePort ls n p st) (disablePortsOf ls n ps)"

fun disableAllPorts :: "LinkItem list \<Rightarrow> port_sets \<Rightarrow> prune_st \<Rightarrow> prune_st outcome" where
  "disableAllPorts ls [] st = Inr st"
| "disableAllPorts ls ((n, ps) # m) st = bindE (disablePortsOf ls n ps st) (disableAllPorts ls m)"

definition prune_init :: "LinkItem list \<Rightarrow> prune_st" where
  "prune_init ls =
     \<lparr>linkFlag = replicate (length ls) True,
      inputLinkMap = build_inputLinkMap ls,
      outputLinkMap = build_outputLinkMap ls\<rparr>"

definition kept_links :: "LinkItem list \<Rightarrow> bool list \<Rightarrow> LinkItem list" where
  "kept_links ls fl = map (\<lambda>i. ls ! i) (filter (\<lambda>i. fl ! i) [0..<length fl])"

definition pipelinePortPrune :: "port_sets \<Rightarrow> PipelineInfo \<Rightarrow> PipelineInfo outcome" where
  "pipelinePortPrune disablePorts pipeline =
     (if disablePorts = [] then Inr pipeline
      else bindE (disableAllPorts (links pipeline) disablePorts (prune_init (links pipeline)))
             (\<lambda>st. Inr (pipeline\<lparr>links := kept_links (links pipeline) (linkFlag st)\<rparr>)))"

subsection \<open>Specification: what a disabled port takes with it\<close>

inductive dead_up :: "LinkItem list \<Rightarrow> nat set \<Rightarrow> nat \<Rightarrow> bool" for ls S where
  seed: "i \<in> S \<Longrightarrow> dead_up ls S i"
| cascade: "out_links ls n \<noteq> [] \<Longrightarrow> (\<And>j. j \<in> set (out_links ls n) \<Longrightarrow> dead_up ls S j) \<Longrightarrow>
    i \<in> set (in_links ls n) \<Longrightarrow> dead_up ls S i"

inductive dead_down :: "LinkItem list \<Rightarrow> nat set \<Rightarrow> nat \<Rightarrow> bool" for ls S where
  seed: "i \<in> S \<Longrightarrow> dead_down ls S i"
| cascade: "in_links ls n \<noteq> [] \<Longrightarrow> (\<And>j. j \<in> set (in_links ls n) \<Longrightarrow> dead_down ls S j) \<Longrightarrow>
    i \<in> set (out_links ls n) \<Longrightarrow> dead_down ls S i"

definition survivors :: "LinkItem list \<Rightarrow> (nat \<Rightarrow> bool) \<Rightarrow> LinkItem list" where
  "survivors ls dead = map (\<lambda>i. ls ! i) (filter (\<lambda>i. \<not> dead i) [0..<length ls])"

text \<open>The links a node's disabled input (output) ports name: the first link of each port.\<close>

definition in_seeds :: "LinkItem list \<Rightarrow> string \<Rightarrow> disablePort list \<Rightarrow> nat set" where
  "in_seeds ls n ds =
     {l. \<exists>d \<in> set ds. find (\<lambda>i. dstNodePortId (ls ! i) = portId d) (in_links ls n) = Some l}"

definition out_seeds :: "LinkItem list \<Rightarrow> string \<Rightarrow> disablePort list \<Rightarrow> nat set" where
  "out_seeds ls n ds =
     {l. \<exists>d \<in> set ds. find (\<lambda>i. srcNodePortId (ls ! i) = portId d) (out_links ls n) = Some l}"

subsection \<open>The index maps\<close>

lemma build_inputLinkMap_index: "sm_index [] (build_inputLinkMap ls) n = in_links ls n"
  unfolding build_inputLinkMap_def in_links_def sm_index_def
  by (simp add: smi.lookup_index [where key = "\<lambda>i. dstNodeInstance (ls ! i)" and val = "\<lambda>i. i"])

lemma build_outputLinkMap_index: "sm_index [] (build_outputLinkMap ls) n = out_links ls n"
  unfolding build_outputLinkMap_def out_links_def sm_index_def
  by (simp add: smi.lookup_index [where key = "\<lambda>i. srcNodeInstance (ls ! i)" and val = "\<lambda>i. i"])

lemma build_maps_wf: "sm_wf (build_inputLinkMap ls)" "sm_wf (build_outputLinkMap ls)"
  unfolding build_inputLinkMap_def build_outputLinkMap_def
  by (auto intro: smi.invar_fold_push [where val = "\<lambda>i. i"])

lemma sm_total_set:
  "sm_wf m \<Longrightarrow> sm_total (sm_set k v m) + length (sm_index [] m k) = sm_total m + length v"
proof (induction k v m rule: sm_set.induct)
  case (1 k v)
  then show ?case by (simp add: sm_total_def sm_index_def)
next
  case (2 k v a w m)
  have "k < a \<Longrightarrow> sm_find m k = None"
    using 2(2) by (auto simp: sm_find_None_iff sm_wf_Cons)
  then show ?case
    using 2 by (auto simp: sm_total_def sm_index_def sm_wf_Cons)
qed

lemma sm_index_same [simp]: "sm_index [] (sm_set k (sm_index [] m k) m) = sm_index [] m"
  by (rule ext) simp

subsection \<open>The loop terminates\<close>

text \<open>
  Every round shortens an output list by one, so a bound above the total length is never
  used up: the only way not to return a state is the undefined \<open>erase\<close>.
\<close>

lemma pruneUp_returns:
  assumes "sm_wf (outputLinkMap st)" and "sm_total (outputLinkMap st) < fuel"
  shows "pruneUp fuel ls q st \<noteq> Inl NoReturn"
  using assms
proof (induction fuel arbitrary: q st)
  case 0
  then show ?case by simp
next
  case (Suc fuel)
  show ?case
  proof (cases q)
    case Nil
    then show ?thesis by simp
  next
    case (Cons l q')
    let ?p = "srcNodeInstance (ls ! l)"
    let ?o = "sm_index [] (outputLinkMap st) ?p"
    show ?thesis
    proof (cases "l \<in> set ?o")
      case True
      then have "length (remove1 l ?o) < length ?o"
        using length_pos_if_in_set [OF True] by (simp add: length_remove1)
      then have "sm_total (sm_set ?p (remove1 l ?o) (outputLinkMap st)) < fuel"
        using sm_total_set [OF Suc.prems(1), of ?p "remove1 l ?o"] Suc.prems(2) by linarith
      then have "outputLinkMap st' = sm_set ?p (remove1 l ?o) (outputLinkMap st) \<Longrightarrow>
          pruneUp fuel ls r st' \<noteq> Inl NoReturn" for r st'
        using Suc.IH [of st' r] Suc.prems(1) by (simp add: sm_wf_set)
      then show ?thesis using True Cons by (simp add: Let_def)
    qed (simp add: Cons)
  qed
qed

subsection \<open>Loop invariant\<close>

definition maps_ok :: "LinkItem list \<Rightarrow> nat set \<Rightarrow> prune_st \<Rightarrow> bool" where
  "maps_ok ls D st \<longleftrightarrow>
     sm_wf (outputLinkMap st) \<and>
     sm_index [] (outputLinkMap st) = (\<lambda>m. filter (\<lambda>i. i \<notin> D) (out_links ls m)) \<and>
     sm_index [] (inputLinkMap st) = in_links ls \<and>
     linkFlag st = map (\<lambda>i. i \<notin> D) [0..<length ls]"

definition emptied :: "LinkItem list \<Rightarrow> nat set \<Rightarrow> string \<Rightarrow> bool" where
  "emptied ls D m \<longleftrightarrow> out_links ls m \<noteq> [] \<and> set (out_links ls m) \<subseteq> D"

definition work_ok :: "LinkItem list \<Rightarrow> string \<Rightarrow> nat set \<Rightarrow> nat set \<Rightarrow> nat list \<Rightarrow> bool" where
  "work_ok ls n S D q \<longleftrightarrow>
     S \<subseteq> D \<union> set q \<and> distinct q \<and> D \<inter> set q = {} \<and>
     (\<forall>i \<in> S. dstNodeInstance (ls ! i) = n) \<and>
     (\<forall>i \<in> D \<union> set q. i < length ls \<and> dead_up ls S i \<and>
        (dstNodeInstance (ls ! i), n) \<in> (link_edges ls)\<^sup>* \<and>
        (i \<in> S \<or> emptied ls D (dstNodeInstance (ls ! i)))) \<and>
     (\<forall>m. emptied ls D m \<longrightarrow> set (in_links ls m) \<subseteq> D \<union> set q)"

lemma work_ok_fresh:
  assumes w: "work_ok ls n S D (l # q)" and a: "acyclic_links ls"
    and i: "i \<in> set (in_links ls (srcNodeInstance (ls ! l)))"
  shows "i \<notin> D \<union> set (l # q)"
proof
  assume mem: "i \<in> D \<union> set (l # q)"
  let ?m = "srcNodeInstance (ls ! l)"
  have dst: "dstNodeInstance (ls ! i) = ?m" using i by simp
  have l: "l < length ls" "l \<notin> D" "(dstNodeInstance (ls ! l), n) \<in> (link_edges ls)\<^sup>*"
    using w by (auto simp: work_ok_def)
  have "\<not> emptied ls D ?m" using l by (auto simp: emptied_def)
  then have "i \<in> S" using w mem dst by (auto simp: work_ok_def)
  then have "n = ?m" using w dst by (auto simp: work_ok_def)
  then show False using acyclic_links_step [OF a l(1)] l(3) by simp
qed

lemma work_ok_step:
  assumes w: "work_ok ls n S D (l # q)" and a: "acyclic_links ls"
  defines "m \<equiv> srcNodeInstance (ls ! l)"
  shows "emptied ls (insert l D) m \<Longrightarrow> work_ok ls n S (insert l D) (q @ in_links ls m)"
    and "\<not> emptied ls (insert l D) m \<Longrightarrow> work_ok ls n S (insert l D) q"
proof -
  have l: "l < length ls" "l \<notin> D" "(dstNodeInstance (ls ! l), n) \<in> (link_edges ls)\<^sup>*"
    using w by (auto simp: work_ok_def)
  have mono: "emptied ls D k \<Longrightarrow> emptied ls (insert l D) k" for k
    by (auto simp: emptied_def)
  have prev: "emptied ls (insert l D) k \<Longrightarrow> k \<noteq> m \<Longrightarrow> emptied ls D k" for k
    by (auto simp: emptied_def m_def)
  have mn: "(m, n) \<in> (link_edges ls)\<^sup>*"
    using link_edgesI [OF l(1)] l(3) unfolding m_def by (rule converse_rtrancl_into_rtrancl)
  have fresh: "\<And>i. i \<in> set (in_links ls m) \<Longrightarrow> i \<notin> D \<union> set (l # q)"
    using work_ok_fresh [OF w a] unfolding m_def by blast
  have base: "S \<subseteq> insert l D \<union> set q" "distinct q" "l \<notin> set q" "D \<inter> set q = {}"
    "\<forall>i \<in> S. dstNodeInstance (ls ! i) = n"
    using w by (simp_all add: work_ok_def)
  have closed: "set (in_links ls k) \<subseteq> insert l D \<union> set q"
    if "emptied ls (insert l D) k" "k \<noteq> m" for k
    using w prev [OF that] by (simp add: work_ok_def)
  { assume e: "emptied ls (insert l D) m"
    have old: "\<And>i. i \<in> D \<union> set (l # q) \<Longrightarrow> dead_up ls S i"
      using w unfolding work_ok_def by (meson)
    have "dead_up ls S j" if "j \<in> set (out_links ls m)" for j
      using that e old [of j] by (auto simp: emptied_def simp del: mem_out_links)
    then have dead: "\<And>i. i \<in> set (in_links ls m) \<Longrightarrow> dead_up ls S i"
      using e dead_up.cascade [of ls m S] unfolding emptied_def by blast
    show "work_ok ls n S (insert l D) (q @ in_links ls m)"
      unfolding work_ok_def
    proof (intro conjI)
      show "\<forall>i \<in> insert l D \<union> set (q @ in_links ls m). i < length ls \<and> dead_up ls S i \<and>
        (dstNodeInstance (ls ! i), n) \<in> (link_edges ls)\<^sup>* \<and>
        (i \<in> S \<or> emptied ls (insert l D) (dstNodeInstance (ls ! i)))"
        using w dead mn e mono by (auto simp: work_ok_def simp del: mem_out_links)
      show "\<forall>k. emptied ls (insert l D) k \<longrightarrow> set (in_links ls k) \<subseteq> insert l D \<union> set (q @ in_links ls m)"
        using closed by fastforce
      show "distinct (q @ in_links ls m)" "insert l D \<inter> set (q @ in_links ls m) = {}"
        using base fresh by (auto simp del: mem_in_links)
    qed (use base in auto) }
  { assume e: "\<not> emptied ls (insert l D) m"
    show "work_ok ls n S (insert l D) q"
      unfolding work_ok_def
    proof (intro conjI)
      show "\<forall>k. emptied ls (insert l D) k \<longrightarrow> set (in_links ls k) \<subseteq> insert l D \<union> set q"
        using closed e by fastforce
      show "\<forall>i \<in> insert l D \<union> set q. i < length ls \<and> dead_up ls S i \<and>
        (dstNodeInstance (ls ! i), n) \<in> (link_edges ls)\<^sup>* \<and>
        (i \<in> S \<or> emptied ls (insert l D) (dstNodeInstance (ls ! i)))"
        using w mono by (auto simp: work_ok_def)
    qed (use base in auto) }
qed

lemma maps_ok_step:
  assumes "maps_ok ls D st" and "l < length ls"
  defines "m \<equiv> srcNodeInstance (ls ! l)"
  shows "maps_ok ls (insert l D) (st\<lparr>linkFlag := (linkFlag st)[l := False],
           outputLinkMap := sm_set m (filter (\<lambda>i. i \<notin> insert l D) (out_links ls m)) (outputLinkMap st)\<rparr>)"
proof -
  have "filter (\<lambda>i. i \<notin> insert l D) (out_links ls k) = filter (\<lambda>i. i \<notin> D) (out_links ls k)"
    if "k \<noteq> m" for k
    by (rule filter_cong) (use that in \<open>auto simp: m_def\<close>)
  moreover have "(map (\<lambda>i. i \<notin> D) [0..<length ls])[l := False] = map (\<lambda>i. i \<notin> insert l D) [0..<length ls]"
    using assms(2) by (intro nth_equalityI) (auto simp: nth_list_update)
  ultimately show ?thesis
    using assms(1) by (auto simp: maps_ok_def sm_wf_set fun_eq_iff)
qed

text \<open>In an acyclic pipeline the loop returns, with every queued link deleted.\<close>

lemma pruneUp_correct:
  assumes "acyclic_links ls" and "maps_ok ls D st" and "work_ok ls n S D q"
    and "sm_total (outputLinkMap st) < fuel"
  shows "\<exists>D' st'. pruneUp fuel ls q st = Inr st' \<and> maps_ok ls D' st' \<and> work_ok ls n S D' []"
  using assms(2-)
proof (induction fuel arbitrary: D q st)
  case 0
  then show ?case by simp
next
  case (Suc fuel)
  show ?case
  proof (cases q)
    case Nil
    then show ?thesis using Suc.prems by auto
  next
    case (Cons l q')
    let ?m = "srcNodeInstance (ls ! l)"
    let ?o = "filter (\<lambda>i. i \<notin> D) (out_links ls ?m)"
    let ?o' = "filter (\<lambda>i. i \<notin> insert l D) (out_links ls ?m)"
    let ?st = "st\<lparr>linkFlag := (linkFlag st)[l := False],
      outputLinkMap := sm_set ?m ?o' (outputLinkMap st)\<rparr>"
    have l: "l < length ls" "l \<notin> D" using Suc.prems(2) Cons by (auto simp: work_ok_def)
    have idx: "sm_index [] (outputLinkMap st) ?m = ?o" "sm_index [] (inputLinkMap st) = in_links ls"
      and wf: "sm_wf (outputLinkMap st)"
      using Suc.prems(1) by (simp_all add: maps_ok_def)
    have rm: "remove1 l ?o = ?o'"
      by (simp add: distinct_remove1_removeAll removeAll_filter_not_eq) (rule filter_cong, auto)
    have ne: "out_links ls ?m \<noteq> []"
      using l by (metis empty_iff list.set(1) mem_out_links)
    have emp: "?o' = [] \<longleftrightarrow> emptied ls (insert l D) ?m"
      using ne by (auto simp: emptied_def filter_empty_conv simp del: mem_out_links)
    have "length ?o' < length ?o"
      unfolding rm [symmetric] using l length_pos_if_in_set [of l ?o] by (simp add: length_remove1)
    then have tot: "sm_total (outputLinkMap ?st) < fuel"
      using sm_total_set [OF wf, of ?m ?o'] Suc.prems(3) idx by simp
    have mo: "maps_ok ls (insert l D) ?st" by (rule maps_ok_step [OF Suc.prems(1) l(1)])
    show ?thesis
    proof (cases "emptied ls (insert l D) ?m")
      case True
      let ?st2 = "?st\<lparr>inputLinkMap := sm_set ?m (in_links ls ?m) (inputLinkMap st)\<rparr>"
      have "maps_ok ls (insert l D) ?st2"
        using mo idx by (auto simp: maps_ok_def fun_eq_iff)
      moreover have "work_ok ls n S (insert l D) (q' @ in_links ls ?m)"
        using work_ok_step(1) [OF _ assms(1) True] Suc.prems(2) Cons by simp
      moreover have "pruneUp (Suc fuel) ls q st = pruneUp fuel ls (q' @ in_links ls ?m) ?st2"
        using Cons idx l rm emp True by (simp add: Let_def)
      ultimately show ?thesis using Suc.IH tot by simp
    next
      case False
      moreover have "work_ok ls n S (insert l D) q'"
        using work_ok_step(2) [OF _ assms(1) False] Suc.prems(2) Cons by simp
      moreover have "pruneUp (Suc fuel) ls q st = pruneUp fuel ls q' ?st"
        using Cons idx l rm emp False by (simp add: Let_def)
      ultimately show ?thesis using Suc.IH mo tot by simp
    qed
  qed
qed

lemma work_ok_final: "work_ok ls n S D [] \<Longrightarrow> D = {i. dead_up ls S i}"
proof (rule antisym)
  assume w: "work_ok ls n S D []"
  then show "D \<subseteq> {i. dead_up ls S i}" by (auto simp: work_ok_def)
  have "dead_up ls S i \<Longrightarrow> i \<in> D" for i
  proof (induction rule: dead_up.induct)
    case (seed i)
    then show ?case using w by (auto simp: work_ok_def)
  next
    case (cascade m i)
    then have "emptied ls D m" by (auto simp: emptied_def simp del: mem_out_links)
    then have "set (in_links ls m) \<subseteq> D" using w by (simp add: work_ok_def)
    then show ?case using cascade.hyps by blast
  qed
  then show "{i. dead_up ls S i} \<subseteq> D" by auto
qed

lemma dead_up_mono: "dead_up ls S i \<Longrightarrow> S \<subseteq> T \<Longrightarrow> dead_up ls T i"
  by (induction rule: dead_up.induct) (auto intro: dead_up.intros)

lemma work_ok_new_seed:
  assumes w: "work_ok ls n S D []" and a: "acyclic_links ls"
    and l: "l \<in> set (in_links ls n)" and new: "l \<notin> S"
  shows "work_ok ls n (insert l S) D [l]"
proof -
  have "l \<notin> D"
  proof
    assume "l \<in> D"
    then have "emptied ls D n" using w l new by (auto simp: work_ok_def)
    then obtain j where j: "j \<in> set (out_links ls n)" "j \<in> D"
      by (metis emptied_def list.set_intros(1) neq_Nil_conv subsetD)
    then have "(dstNodeInstance (ls ! j), n) \<in> (link_edges ls)\<^sup>*" using w by (auto simp: work_ok_def)
    then show False using acyclic_links_step [OF a, of j] j by simp
  qed
  then show ?thesis
    using w l dead_up_mono [of ls S _ "insert l S"]
    by (auto simp: work_ok_def intro: dead_up.seed)
qed

lemma disableOnePort_INPUT:
  assumes "acyclic_links ls" and "maps_ok ls D st" and "work_ok ls n S D []" and "ptype d = INPUT"
    and "in_seeds ls n [d] \<inter> S = {}"
  shows "\<exists>D' st'. disableOnePort ls n d st = Inr st' \<and> maps_ok ls D' st' \<and>
           work_ok ls n (in_seeds ls n [d] \<union> S) D' []"
proof -
  let ?f = "find (\<lambda>i. dstNodePortId (ls ! i) = portId d)"
  have idx: "sm_index [] (inputLinkMap st) n = in_links ls n"
    using assms(2) by (simp add: maps_ok_def)
  show ?thesis
  proof (cases "?f (in_links ls n)")
    case None
    moreover have "disableOnePort ls n d st = Inr st"
      using None idx assms(4) by (auto simp: disableOnePort_def sm_index_def split: option.splits)
    ultimately show ?thesis using assms(2,3) by (auto simp: in_seeds_def)
  next
    case (Some l)
    then have mem: "l \<in> set (in_links ls n)" by (metis findSomeD)
    then have "in_links ls n \<noteq> []" by (metis empty_iff list.set(1))
    then have "sm_find (inputLinkMap st) n = Some (in_links ls n)"
      using idx by (auto simp: sm_index_def split: option.splits)
    then have "disableOnePort ls n d st = pruneUp (Suc (sm_total (outputLinkMap st))) ls [l] st"
      using Some assms(4) by (simp add: disableOnePort_def)
    moreover have "in_seeds ls n [d] = {l}" using Some by (auto simp: in_seeds_def)
    moreover have "work_ok ls n (insert l S) D [l]"
      using work_ok_new_seed [OF assms(3,1) mem] assms(5) calculation(2) by auto
    ultimately show ?thesis
      using pruneUp_correct [OF assms(1,2), of n "insert l S" "[l]" "Suc (sm_total (outputLinkMap st))"]
      by (simp del: pruneUp.simps)
  qed
qed

lemma in_seeds_port:
  assumes "l \<in> in_seeds ls n ds"
  shows "dstNodePortId (ls ! l) \<in> portId ` set ds"
proof -
  obtain d where "d \<in> set ds" "find (\<lambda>i. dstNodePortId (ls ! i) = portId d) (in_links ls n) = Some l"
    using assms by (auto simp: in_seeds_def)
  then show ?thesis by (auto dest!: findSomeD)
qed

lemma in_seeds_disjoint:
  assumes "portId d \<noteq> portId e"
  shows "in_seeds ls n [d] \<inter> in_seeds ls n [e] = {}"
  using assms in_seeds_port [of _ ls n "[d]"] in_seeds_port [of _ ls n "[e]"] by fastforce

lemma in_seeds_Cons: "in_seeds ls n (d # ds) = in_seeds ls n [d] \<union> in_seeds ls n ds"
  by (auto simp: in_seeds_def)

lemma disablePortsOf_INPUT:
  assumes "acyclic_links ls" and "maps_ok ls D st" and "work_ok ls n S D []"
    and "\<forall>d \<in> set ds. ptype d = INPUT \<and> in_seeds ls n [d] \<inter> S = {}"
    and "distinct (map portId ds)"
  shows "\<exists>D' st'. disablePortsOf ls n ds st = Inr st' \<and> maps_ok ls D' st' \<and>
           work_ok ls n (in_seeds ls n ds \<union> S) D' []"
  using assms(2-)
proof (induction ds arbitrary: D st S)
  case Nil
  then show ?case by (auto simp: in_seeds_def)
next
  case (Cons d ds)
  obtain D1 st1 where 1: "disableOnePort ls n d st = Inr st1" "maps_ok ls D1 st1"
    "work_ok ls n (in_seeds ls n [d] \<union> S) D1 []"
    using disableOnePort_INPUT [OF assms(1), of D st n S d] Cons.prems by auto
  have "\<forall>e \<in> set ds. in_seeds ls n [e] \<inter> (in_seeds ls n [d] \<union> S) = {}"
  proof
    fix e assume e: "e \<in> set ds"
    then have "portId e \<noteq> portId d" using Cons.prems(4) by (metis distinct.simps(2) imageI list.set_map list.simps(9))
    then show "in_seeds ls n [e] \<inter> (in_seeds ls n [d] \<union> S) = {}"
      using in_seeds_disjoint [of e d ls n] Cons.prems(3) e by auto
  qed
  then show ?case
    using Cons.IH [OF 1(2,3)] Cons.prems 1(1) in_seeds_Cons [of ls n d ds]
    by (simp add: Un_assoc Un_left_commute)
qed

lemma prune_init_ok: "maps_ok ls {} (prune_init ls)"
  by (auto simp: maps_ok_def prune_init_def build_inputLinkMap_index build_outputLinkMap_index
      build_maps_wf fun_eq_iff intro: nth_equalityI)

lemma kept_links_flags: "kept_links ls (map (\<lambda>i. \<not> dead i) [0..<length ls]) = survivors ls dead"
  unfolding kept_links_def survivors_def
  by (rule arg_cong [where f = "map ((!) ls)"]) (auto intro: filter_cong)

lemma pipelinePortPrune_inputs:
  assumes "acyclic_links (links p)" and "\<forall>d \<in> set ds. ptype d = INPUT" and "distinct (map portId ds)"
  shows "pipelinePortPrune [(n, ds)] p =
    Inr (p\<lparr>links := survivors (links p) (dead_up (links p) (in_seeds (links p) n ds))\<rparr>)"
proof -
  let ?ls = "links p"
  have w: "work_ok ?ls n {} {} []" by (auto simp: work_ok_def emptied_def)
  obtain D st where *: "disablePortsOf ?ls n ds (prune_init ?ls) = Inr st" "maps_ok ?ls D st"
    "work_ok ?ls n (in_seeds ?ls n ds) D []"
    using disablePortsOf_INPUT [OF assms(1) prune_init_ok w, of ds] assms(2,3) by auto
  have "linkFlag st = map (\<lambda>i. \<not> dead_up ?ls (in_seeds ?ls n ds) i) [0..<length ?ls]"
    using *(2) work_ok_final [OF *(3)] by (simp add: maps_ok_def)
  then show ?thesis using *(1) by (simp add: pipelinePortPrune_def kept_links_flags)
qed

subsection \<open>Output ports: the same loop on the reversed pipeline\<close>

definition flip_link :: "LinkItem \<Rightarrow> LinkItem" where
  "flip_link l = l\<lparr>srcNodePortId := dstNodePortId l, srcNodeInstance := dstNodeInstance l,
                   dstNodePortId := srcNodePortId l, dstNodeInstance := srcNodeInstance l\<rparr>"

definition flip_st :: "prune_st \<Rightarrow> prune_st" where
  "flip_st st = st\<lparr>inputLinkMap := outputLinkMap st, outputLinkMap := inputLinkMap st\<rparr>"

abbreviation flips :: "LinkItem list \<Rightarrow> LinkItem list" where
  "flips ls \<equiv> map flip_link ls"

lemma flip_link_simps [simp]:
  "srcNodeInstance (flip_link l) = dstNodeInstance l" "dstNodeInstance (flip_link l) = srcNodeInstance l"
  "srcNodePortId (flip_link l) = dstNodePortId l" "dstNodePortId (flip_link l) = srcNodePortId l"
  by (simp_all add: flip_link_def)

lemma flip_st_simps [simp]:
  "inputLinkMap (flip_st st) = outputLinkMap st" "outputLinkMap (flip_st st) = inputLinkMap st"
  "linkFlag (flip_st st) = linkFlag st" "flip_st (flip_st st) = st"
  by (simp_all add: flip_st_def)

lemma flip_st_updates [simp]:
  "flip_st (st\<lparr>linkFlag := a, inputLinkMap := b\<rparr>) = (flip_st st)\<lparr>linkFlag := a, outputLinkMap := b\<rparr>"
  "flip_st (st\<lparr>linkFlag := a, inputLinkMap := b, outputLinkMap := c\<rparr>) =
     (flip_st st)\<lparr>linkFlag := a, outputLinkMap := b, inputLinkMap := c\<rparr>"
  by (auto intro!: prune_st.equality)

lemma flip_links [simp]: "in_links (flips ls) = out_links ls" "out_links (flips ls) = in_links ls"
  by (auto simp: in_links_def out_links_def fun_eq_iff intro!: filter_cong)

lemma flip_edges: "link_edges (flips ls) = (link_edges ls)\<inverse>"
  by (auto simp: link_edges_def image_iff)

lemma flip_acyclic [simp]: "acyclic_links (flips ls) = acyclic_links ls"
  by (simp add: acyclic_links_def flip_edges acyclic_converse)

lemma dead_down_flip: "dead_down ls S = dead_up (flips ls) S"
proof (intro ext iffI)
  show "dead_down ls S i \<Longrightarrow> dead_up (flips ls) S i" for i
    by (induction rule: dead_down.induct) (auto intro: dead_up.seed dead_up.cascade [of "flips ls"])
  show "dead_up (flips ls) S i \<Longrightarrow> dead_down ls S i" for i
    by (induction rule: dead_up.induct) (auto intro: dead_down.seed dead_down.cascade)
qed

definition bounded_st :: "LinkItem list \<Rightarrow> prune_st \<Rightarrow> bool" where
  "bounded_st ls st \<longleftrightarrow> (\<forall>n. \<forall>i \<in> set (sm_index [] (outputLinkMap st) n). i < length ls)"

lemma pruneDown_flip:
  assumes "bounded_st ls st" and "\<forall>l \<in> set q. l < length ls"
  shows "pruneDown fuel ls q st = map_sum id flip_st (pruneUp fuel (flips ls) q (flip_st st))"
  using assms
proof (induction fuel arbitrary: q st)
  case 0
  then show ?case by (cases q) auto
next
  case (Suc fuel)
  show ?case
  proof (cases q)
    case Nil
    then show ?thesis by simp
  next
    case (Cons l q')
    let ?c = "dstNodeInstance (ls ! l)"
    let ?i' = "remove1 l (sm_index [] (inputLinkMap st) ?c)"
    let ?st = "st\<lparr>linkFlag := (linkFlag st)[l := False], inputLinkMap := sm_set ?c ?i' (inputLinkMap st)\<rparr>"
    let ?st2 = "?st\<lparr>outputLinkMap := sm_set ?c (sm_index [] (outputLinkMap st) ?c) (outputLinkMap st)\<rparr>"
    have "pruneDown fuel ls q' ?st = map_sum id flip_st (pruneUp fuel (flips ls) q' (flip_st ?st))"
      by (rule Suc.IH) (use Suc.prems Cons in \<open>auto simp: bounded_st_def\<close>)
    moreover have "pruneDown fuel ls (q' @ sm_index [] (outputLinkMap st) ?c) ?st2 =
      map_sum id flip_st (pruneUp fuel (flips ls) (q' @ sm_index [] (outputLinkMap st) ?c) (flip_st ?st2))"
      by (rule Suc.IH) (use Suc.prems Cons in \<open>auto simp: bounded_st_def\<close>)
    ultimately show ?thesis
      using Suc.prems Cons by (cases "?i' = []") (simp_all add: Let_def id_def)
  qed
qed

lemma disableOnePort_flip:
  assumes "maps_ok (flips ls) D (flip_st st)" and "ptype d = OUTPUT"
  shows "disableOnePort ls n d st =
    map_sum id flip_st (disableOnePort (flips ls) n (d\<lparr>ptype := INPUT\<rparr>) (flip_st st))"
proof (cases "sm_find (outputLinkMap st) n")
  case None
  then show ?thesis using assms(2) by (simp add: disableOnePort_def)
next
  case (Some outs)
  have idx: "sm_index [] (outputLinkMap st) = out_links ls" using assms(1) by (simp add: maps_ok_def)
  then have outs: "outs = out_links ls n" using Some by (metis option.simps(5) sm_index_def)
  have same: "find (\<lambda>i. dstNodePortId (flips ls ! i) = portId d) outs =
      find (\<lambda>i. srcNodePortId (ls ! i) = portId d) outs"
    unfolding outs by (rule find_cong) auto
  show ?thesis
  proof (cases "find (\<lambda>i. srcNodePortId (ls ! i) = portId d) outs")
    case None
    then show ?thesis using Some same assms(2) by (simp add: disableOnePort_def)
  next
    case (Some l)
    then have "l < length ls" using outs by (auto dest!: findSomeD)
    then show ?thesis
      using \<open>sm_find (outputLinkMap st) n = Some outs\<close> Some same assms(2) idx
        pruneDown_flip [of ls st "[l]" "Suc (sm_total (inputLinkMap st))"]
      by (simp add: disableOnePort_def bounded_st_def del: pruneDown.simps pruneUp.simps)
  qed
qed

lemma out_seeds_flip: "in_seeds (flips ls) n (map (ptype_update (\<lambda>_. INPUT)) ds) = out_seeds ls n ds"
proof -
  have "find (\<lambda>i. dstNodePortId (flips ls ! i) = portId d) (out_links ls n) =
      find (\<lambda>i. srcNodePortId (ls ! i) = portId d) (out_links ls n)" for d :: disablePort
    by (rule find_cong) auto
  then show ?thesis by (simp add: in_seeds_def out_seeds_def)
qed

lemma disablePortsOf_flip:
  assumes "acyclic_links ls" and "maps_ok (flips ls) D (flip_st st)" and "work_ok (flips ls) n S D []"
    and "\<forall>d \<in> set ds. ptype d = OUTPUT \<and> out_seeds ls n [d] \<inter> S = {}"
    and "distinct (map portId ds)"
  shows "disablePortsOf ls n ds st =
    map_sum id flip_st (disablePortsOf (flips ls) n (map (ptype_update (\<lambda>_. INPUT)) ds) (flip_st st))"
  using assms(2-)
proof (induction ds arbitrary: D st S)
  case Nil
  then show ?case by simp
next
  case (Cons d ds)
  let ?d = "d\<lparr>ptype := INPUT\<rparr>"
  have sd: "in_seeds (flips ls) n [e\<lparr>ptype := INPUT\<rparr>] = out_seeds ls n [e]" for e
    using out_seeds_flip [of ls n "[e]"] by simp
  have "in_seeds (flips ls) n [?d] \<inter> S = {}" using sd Cons.prems(3) by simp
  then obtain D1 st1 where 1: "disableOnePort (flips ls) n ?d (flip_st st) = Inr st1" "maps_ok (flips ls) D1 st1"
    "work_ok (flips ls) n (out_seeds ls n [d] \<union> S) D1 []"
    using disableOnePort_INPUT [OF _ Cons.prems(1,2), of ?d] assms(1) unfolding sd by fastforce
  have "\<forall>e \<in> set ds. ptype e = OUTPUT \<and> out_seeds ls n [e] \<inter> (out_seeds ls n [d] \<union> S) = {}"
  proof
    fix e assume e: "e \<in> set ds"
    then have "portId e \<noteq> portId d"
      using Cons.prems(4) by (metis distinct.simps(2) imageI list.set_map list.simps(9))
    then have "out_seeds ls n [e] \<inter> out_seeds ls n [d] = {}"
      using in_seeds_disjoint [of "e\<lparr>ptype := INPUT\<rparr>" ?d "flips ls" n] sd by simp
    then show "ptype e = OUTPUT \<and> out_seeds ls n [e] \<inter> (out_seeds ls n [d] \<union> S) = {}"
      using Cons.prems(3) e by (simp add: Int_Un_distrib)
  qed
  then show ?case
    using Cons.IH [of D1 "flip_st st1" "out_seeds ls n [d] \<union> S"] Cons.prems 1
      disableOnePort_flip [OF Cons.prems(1), of d n] by simp
qed

lemma prune_init_flip: "maps_ok (flips ls) {} (flip_st (prune_init ls))"
  by (auto simp: maps_ok_def prune_init_def build_inputLinkMap_index build_outputLinkMap_index
      build_maps_wf fun_eq_iff intro: nth_equalityI)

lemma pipelinePortPrune_outputs:
  assumes "acyclic_links (links p)" and "\<forall>d \<in> set ds. ptype d = OUTPUT" and "distinct (map portId ds)"
  shows "pipelinePortPrune [(n, ds)] p =
    Inr (p\<lparr>links := survivors (links p) (dead_down (links p) (out_seeds (links p) n ds))\<rparr>)"
proof -
  let ?ls = "links p"
  let ?ds = "map (ptype_update (\<lambda>_. INPUT)) ds"
  have w: "work_ok (flips ?ls) n {} {} []" by (auto simp: work_ok_def emptied_def)
  have ds: "\<forall>d \<in> set ?ds. ptype d = INPUT \<and> in_seeds (flips ?ls) n [d] \<inter> {} = {}"
    "distinct (map portId ?ds)"
    using assms(3) by (auto simp: comp_def)
  obtain D st where *: "disablePortsOf (flips ?ls) n ?ds (flip_st (prune_init ?ls)) = Inr st"
    "maps_ok (flips ?ls) D st" "work_ok (flips ?ls) n (in_seeds (flips ?ls) n ?ds) D []"
    using disablePortsOf_INPUT [OF _ prune_init_flip w ds] assms(1) by auto
  have "linkFlag st = map (\<lambda>i. \<not> dead_down ?ls (out_seeds ?ls n ds) i) [0..<length ?ls]"
    using *(2) work_ok_final [OF *(3)] by (simp add: maps_ok_def dead_down_flip out_seeds_flip)
  moreover have "disablePortsOf ?ls n ds (prune_init ?ls) = Inr (flip_st st)"
    using disablePortsOf_flip [OF assms(1) prune_init_flip w _ assms(3)] assms(2) *(1) by simp
  ultimately show ?thesis by (simp add: pipelinePortPrune_def kept_links_flags)
qed

end
