(* ===== verification/NodePrune.thy ===== *)
theory NodePrune
  imports PipelineTypes
begin

text \<open>
  Bypassing disabled nodes: \<open>PipelinePruner::pipelineNodePrune\<close>
  (\<^verbatim>\<open>mivifwk/mialgoengine/MiaPipelinePruner.cpp\<close>).  For every bypassed pair of an input
  and an output link a fused link is appended, and \<open>linkIndexTable\<close> forwards both old
  indices to it, like the parent array of a union-find structure; \<open>getRealLinkIndex\<close>
  follows the forwarding to a fixed point.  The theorems show that the forwarding never
  cycles, that the result splices the original links into chains through bypassed nodes
  without losing or duplicating one, and that a bypassed one-in one-out node is gone.
\<close>

record throughPath =
  inputPortId :: int
  outputPortId :: int

type_synonym port_link_map = "(string, (int, nat) std_map) std_map"

text \<open>\<open>inputPortAndLink[dst].insert({dstPortId, index})\<close>: the first link of a port is kept.\<close>

definition build_inputPortAndLink :: "LinkItem list \<Rightarrow> port_link_map" where
  "build_inputPortAndLink ls =
     fold (\<lambda>i m. sm_set (dstNodeInstance (ls ! i))
                   (sm_insert (dstNodePortId (ls ! i)) i (sm_index [] m (dstNodeInstance (ls ! i)))) m)
       [0..<length ls] []"

definition build_outputPortAndLink :: "LinkItem list \<Rightarrow> port_link_map" where
  "build_outputPortAndLink ls =
     fold (\<lambda>i m. sm_set (srcNodeInstance (ls ! i))
                   (sm_insert (srcNodePortId (ls ! i)) i (sm_index [] m (srcNodeInstance (ls ! i)))) m)
       [0..<length ls] []"

text \<open>The growing list of links and \<open>linkIndexTable\<close>.\<close>

record np_st =
  npLinks :: "LinkItem list"
  linkIndexTable :: "nat list"

text \<open>The lambda \<open>getRealLinkIndex\<close>; the first argument bounds the rounds of its loop.\<close>

fun realLoop :: "nat \<Rightarrow> nat list \<Rightarrow> nat \<Rightarrow> nat outcome" where
  "realLoop 0 t i = Inl NoReturn"
| "realLoop (Suc fuel) t i =
     bindE (vec_get t i) (\<lambda>r. if r = i then Inr r else realLoop fuel t r)"

definition getRealLinkIndex :: "nat list \<Rightarrow> nat \<Rightarrow> nat outcome" where
  "getRealLinkIndex t i = realLoop (Suc (length t)) t i"

text \<open>
  The statements both loops share: fuse the real input and output link.  The aggregate the
  code pushes leaves \<open>type\<close> out, so it is the enumerator of value 0, \<open>SourceLink\<close>.
\<close>

definition fuseLinks :: "nat \<Rightarrow> nat \<Rightarrow> np_st \<Rightarrow> np_st outcome" where
  "fuseLinks inputLink outputLink st =
     bindE (getRealLinkIndex (linkIndexTable st) inputLink) (\<lambda>i.
     bindE (getRealLinkIndex (linkIndexTable st) outputLink) (\<lambda>j.
     bindE (vec_get (npLinks st) i) (\<lambda>li.
     bindE (vec_get (npLinks st) j) (\<lambda>lo.
       let newLink = \<lparr>srcNodePortId = srcNodePortId li, srcNodeInstance = srcNodeInstance li,
                      srcPortFormat = srcPortFormat li, dstNodePortId = dstNodePortId lo,
                      dstNodeInstance = dstNodeInstance lo, dstPortFormat = dstPortFormat lo,
                      linkType = SourceLink\<rparr>;
           ls' = npLinks st @ [newLink];
           t' = linkIndexTable st @ [length ls' - 1]
       in Inr \<lparr>npLinks = ls', linkIndexTable = t'[j := length ls' - 1, i := length ls' - 1]\<rparr>))))"

text \<open>Disabled nodes without customisation: first input link with first output link.\<close>

fun normalPrune ::
  "port_link_map \<Rightarrow> port_link_map \<Rightarrow> string list \<Rightarrow> np_st \<Rightarrow> np_st outcome" where
  "normalPrune ins outs [] st = Inr st"
| "normalPrune ins outs (inst # rest) st =
     (case sm_find ins inst of
        Some (inp # inps) \<Rightarrow>
          (case sm_find outs inst of
             Some (outp # outps) \<Rightarrow>
               bindE (fuseLinks (snd inp) (snd outp) st) (normalPrune ins outs rest)
           | _ \<Rightarrow> normalPrune ins outs rest st)
      | _ \<Rightarrow> normalPrune ins outs rest st)"

text \<open>Disabled nodes with bypass rules: one fused link per through path.\<close>

fun pathPrune ::
  "(int, nat) std_map \<Rightarrow> (int, nat) std_map \<Rightarrow> throughPath list \<Rightarrow> np_st \<Rightarrow> np_st outcome" where
  "pathPrune inputs outputs [] st = Inr st"
| "pathPrune inputs outputs (path # rest) st =
     (case (sm_find inputs (inputPortId path), sm_find outputs (outputPortId path)) of
        (Some i, Some j) \<Rightarrow> bindE (fuseLinks i j st) (pathPrune inputs outputs rest)
      | _ \<Rightarrow> pathPrune inputs outputs rest st)"

fun rulePrune ::
  "port_link_map \<Rightarrow> port_link_map \<Rightarrow> (string, throughPath list) std_map \<Rightarrow> np_st \<Rightarrow> np_st outcome" where
  "rulePrune ins outs [] st = Inr st"
| "rulePrune ins outs ((inst, paths) # rest) st =
     (case (sm_find ins inst, sm_find outs inst) of
        (Some inputs, Some outputs) \<Rightarrow>
          bindE (pathPrune inputs outputs paths st) (rulePrune ins outs rest)
      | _ \<Rightarrow> rulePrune ins outs rest st)"

text \<open>The active links: the real index of every original link, without repetitions.\<close>

fun collectActive :: "nat list \<Rightarrow> nat list \<Rightarrow> bool list \<Rightarrow> nat list \<Rightarrow> nat list outcome" where
  "collectActive t [] linkTable active = Inr active"
| "collectActive t (i # is) linkTable active =
     bindE (getRealLinkIndex t i) (\<lambda>r.
     bindE (vec_get linkTable r) (\<lambda>seen.
       if seen then collectActive t is linkTable active
       else collectActive t is (linkTable[r := True]) (active @ [r])))"

definition np_init :: "LinkItem list \<Rightarrow> np_st" where
  "np_init ls = \<lparr>npLinks = ls, linkIndexTable = [0..<length ls]\<rparr>"

definition pipelineNodePrune ::
  "(string, throughPath list) std_map \<Rightarrow> string list \<Rightarrow> PipelineInfo \<Rightarrow> PipelineInfo outcome" where
  "pipelineNodePrune nodesBypassRule normalDisableNodes pipeline =
     (let ls = links pipeline;
          ins = build_inputPortAndLink ls;
          outs = build_outputPortAndLink ls
      in bindE (normalPrune ins outs normalDisableNodes (np_init ls)) (\<lambda>st1.
         bindE (rulePrune ins outs nodesBypassRule st1) (\<lambda>st2.
         bindE (collectActive (linkIndexTable st2) [0..<length ls]
                  (replicate (length (linkIndexTable st2)) False) []) (\<lambda>activeLinks.
           Inr (pipeline\<lparr>links := map (\<lambda>i. npLinks st2 ! i) activeLinks\<rparr>)))))"

subsection \<open>Following the index table\<close>

definition table_ok :: "nat list \<Rightarrow> bool" where
  "table_ok t \<longleftrightarrow> (\<forall>i < length t. i \<le> t ! i \<and> t ! i < length t)"

definition root :: "nat list \<Rightarrow> nat \<Rightarrow> nat" where
  "root t i = (case getRealLinkIndex t i of Inl _ \<Rightarrow> i | Inr r \<Rightarrow> r)"

lemma realLoop_root:
  assumes "table_ok t" and "i < length t" and "length t - i \<le> fuel"
  shows "\<exists>r. realLoop fuel t i = Inr r \<and> i \<le> r \<and> r < length t \<and> t ! r = r"
  using assms(2,3)
proof (induction fuel arbitrary: i)
  case 0
  then show ?case by simp
next
  case (Suc fuel)
  show ?case
  proof (cases "t ! i = i")
    case True
    then show ?thesis using Suc.prems by simp
  next
    case False
    then have *: "i < t ! i" "t ! i < length t"
      using assms(1) Suc.prems(1) unfolding table_ok_def by (metis le_neq_implies_less)+
    then have "length t - t ! i \<le> fuel" using Suc.prems(2) by linarith
    then obtain r where "realLoop fuel t (t ! i) = Inr r" "t ! i \<le> r" "r < length t" "t ! r = r"
      using Suc.IH [of "t ! i"] * by auto
    then show ?thesis using False Suc.prems(1) * by auto
  qed
qed

lemma realLoop_more: "realLoop fuel t i = Inr r \<Longrightarrow> realLoop (Suc fuel) t i = Inr r"
proof (induction fuel arbitrary: i)
  case 0
  then show ?case by simp
next
  case (Suc fuel)
  from Suc.prems obtain x where x: "vec_get t i = Inr x"
    and eq: "(if x = i then Inr x else realLoop fuel t x) = Inr r"
    by (auto simp: bindE_eq_Inr)
  show ?case
  proof (cases "x = i")
    case True
    then show ?thesis using x eq by simp
  next
    case False
    then have "realLoop (Suc fuel) t x = Inr r" using Suc.IH eq by simp
    then show ?thesis using x False by (simp del: realLoop.simps add: realLoop.simps(2) [of "Suc fuel"])
  qed
qed

lemma getRealLinkIndex_ok:
  assumes "table_ok t" and "i < length t"
  shows "getRealLinkIndex t i = Inr (root t i)" and "i \<le> root t i" and "root t i < length t"
    and "t ! root t i = root t i"
proof -
  obtain r where "getRealLinkIndex t i = Inr r" "i \<le> r" "r < length t" "t ! r = r"
    using realLoop_root [OF assms le_SucI [OF diff_le_self]] unfolding getRealLinkIndex_def by blast
  then show "getRealLinkIndex t i = Inr (root t i)" and "i \<le> root t i" and "root t i < length t"
    and "t ! root t i = root t i"
    by (simp_all add: root_def)
qed

lemma root_step:
  assumes "table_ok t" and "i < length t"
  shows "root t i = (if t ! i = i then i else root t (t ! i))"
proof (cases "t ! i = i")
  case True
  then show ?thesis using assms(2) by (simp add: root_def getRealLinkIndex_def)
next
  case False
  then have *: "i < t ! i" "t ! i < length t"
    using assms unfolding table_ok_def by (metis le_neq_implies_less)+
  then have "length t - t ! i \<le> length t" by simp
  then obtain r where r: "realLoop (length t) t (t ! i) = Inr r"
    using realLoop_root [OF assms(1) *(2)] by blast
  then have "getRealLinkIndex t i = Inr r" using False assms(2) by (simp add: getRealLinkIndex_def)
  moreover have "getRealLinkIndex t (t ! i) = Inr r"
    using realLoop_more [OF r] by (simp add: getRealLinkIndex_def del: realLoop.simps)
  ultimately show ?thesis using False by (simp add: root_def)
qed

lemma root_fixed: "table_ok t \<Longrightarrow> i < length t \<Longrightarrow> root t (root t i) = root t i"
  using getRealLinkIndex_ok(3,4) [of t i] by (simp add: root_step)

text \<open>Fusing redirects exactly the links whose real index is one of the two fused ones.\<close>

definition redirect :: "nat list \<Rightarrow> nat \<Rightarrow> nat \<Rightarrow> nat list" where
  "redirect t i j = (t @ [length t])[j := length t, i := length t]"

lemma redirect_nth:
  "k \<le> length t \<Longrightarrow> i < length t \<Longrightarrow> j < length t \<Longrightarrow>
     redirect t i j ! k = (if k = i \<or> k = j \<or> k = length t then length t else t ! k)"
  by (auto simp: redirect_def nth_list_update nth_append)

lemma length_redirect [simp]: "length (redirect t i j) = Suc (length t)"
  by (simp add: redirect_def)

lemma table_ok_redirect:
  assumes "table_ok t" and "i < length t" and "j < length t"
  shows "table_ok (redirect t i j)"
  using assms by (auto simp: table_ok_def redirect_nth less_Suc_eq less_Suc_eq_le)

lemma root_redirect:
  assumes "table_ok t" and "i < length t" and "j < length t" and "k < length t"
    and "t ! i = i" and "t ! j = j"
  shows "root (redirect t i j) k = (if root t k = i \<or> root t k = j then length t else root t k)"
  using assms(4)
proof (induction "length t - k" arbitrary: k rule: less_induct)
  case less
  let ?t = "redirect t i j"
  note ok = table_ok_redirect [OF assms(1-3)]
  have N: "root ?t (length t) = length t"
    using root_step [OF ok, of "length t"] redirect_nth [OF _ assms(2,3), of "length t"] by simp
  show ?case
  proof (cases "t ! k = k")
    case True
    then show ?thesis
      using less.prems N root_step [OF ok, of k] root_step [OF assms(1), of k]
        redirect_nth [OF _ assms(2,3), of k] by auto
  next
    case False
    then have *: "k < t ! k" "t ! k < length t" "k \<noteq> i" "k \<noteq> j"
      using assms(1,5,6) less.prems unfolding table_ok_def by (metis le_neq_implies_less)+
    then have "root ?t k = root ?t (t ! k)"
      using less.prems root_step [OF ok, of k] redirect_nth [OF _ assms(2,3), of k] False by auto
    moreover have "root t k = root t (t ! k)"
      using root_step [OF assms(1) less.prems] False by simp
    ultimately show ?thesis using less.hyps [of "t ! k"] * by simp
  qed
qed

lemma root_redirect_new:
  assumes "table_ok t" and "i < length t" and "j < length t"
  shows "root (redirect t i j) (length t) = length t"
  using root_step [OF table_ok_redirect [OF assms], of "length t"] redirect_nth [OF _ assms(2,3), of "length t"]
  by simp

subsection \<open>Pruning always returns\<close>

text \<open>No link has an end point that no original link had.\<close>

definition ends_in :: "LinkItem list \<Rightarrow> LinkItem list \<Rightarrow> bool" where
  "ends_in raw ls \<longleftrightarrow>
     (\<forall>l \<in> set ls. src_end l \<in> src_end ` set raw \<and> dst_end l \<in> dst_end ` set raw)"

definition np_ok :: "LinkItem list \<Rightarrow> np_st \<Rightarrow> bool" where
  "np_ok raw st \<longleftrightarrow> table_ok (linkIndexTable st) \<and> length (npLinks st) = length (linkIndexTable st) \<and>
     length raw \<le> length (npLinks st) \<and> ends_in raw (npLinks st)"

text \<open>The link pushed for a pair of real links.\<close>

definition fused :: "LinkItem \<Rightarrow> LinkItem \<Rightarrow> LinkItem" where
  "fused li lo = \<lparr>srcNodePortId = srcNodePortId li, srcNodeInstance = srcNodeInstance li,
     srcPortFormat = srcPortFormat li, dstNodePortId = dstNodePortId lo,
     dstNodeInstance = dstNodeInstance lo, dstPortFormat = dstPortFormat lo, linkType = SourceLink\<rparr>"

lemma fused_ends [simp]: "src_end (fused li lo) = src_end li" "dst_end (fused li lo) = dst_end lo"
  by (simp_all add: fused_def src_end_def dst_end_def)

lemma fuseLinks_eq:
  assumes "np_ok raw st" and "i < length (npLinks st)" and "j < length (npLinks st)"
  defines "ri \<equiv> root (linkIndexTable st) i" and "rj \<equiv> root (linkIndexTable st) j"
  shows "fuseLinks i j st = Inr \<lparr>npLinks = npLinks st @ [fused (npLinks st ! ri) (npLinks st ! rj)],
           linkIndexTable = redirect (linkIndexTable st) ri rj\<rparr>"
proof -
  have t: "table_ok (linkIndexTable st)" and len: "length (linkIndexTable st) = length (npLinks st)"
    using assms(1) by (simp_all add: np_ok_def)
  show ?thesis
    using getRealLinkIndex_ok [OF t, of i] getRealLinkIndex_ok [OF t, of j] assms(2,3) len
    by (simp add: fuseLinks_def ri_def rj_def Let_def fused_def redirect_def)
qed

lemma np_ok_fuse:
  assumes "np_ok raw st" and "i < length raw" and "j < length raw"
  shows "\<exists>st'. fuseLinks i j st = Inr st' \<and> np_ok raw st'"
proof -
  have t: "table_ok (linkIndexTable st)" and b: "i < length (npLinks st)" "j < length (npLinks st)"
    "i < length (linkIndexTable st)" "j < length (linkIndexTable st)"
    using assms by (simp_all add: np_ok_def)
  note r = getRealLinkIndex_ok(3) [OF t b(3)] getRealLinkIndex_ok(3) [OF t b(4)]
  have "ends_in raw (npLinks st @ [fused (npLinks st ! root (linkIndexTable st) i)
      (npLinks st ! root (linkIndexTable st) j)])"
    using assms(1) r by (simp add: np_ok_def ends_in_def)
  then show ?thesis
    using fuseLinks_eq [OF assms(1) b(1,2)] assms(1) table_ok_redirect [OF t r]
    by (auto simp: np_ok_def)
qed

definition ports_ok :: "nat \<Rightarrow> port_link_map \<Rightarrow> bool" where
  "ports_ok n m \<longleftrightarrow> (\<forall>inst ps p i. sm_find m inst = Some ps \<longrightarrow> (p, i) \<in> set ps \<longrightarrow> i < n)"

lemma sm_find_mem: "sm_find m k = Some v \<Longrightarrow> (k, v) \<in> set m"
  by (induction m k rule: sm_find.induct) (auto split: if_splits)

lemma normalPrune_ok:
  assumes "ports_ok (length raw) ins" and "ports_ok (length raw) outs" and "np_ok raw st"
  shows "\<exists>st'. normalPrune ins outs ds st = Inr st' \<and> np_ok raw st'"
  using assms(3)
proof (induction ds arbitrary: st)
  case Nil
  then show ?case by simp
next
  case (Cons d ds)
  show ?case
  proof (cases "\<exists>p i ps q j qs. sm_find ins d = Some ((p, i) # ps) \<and> sm_find outs d = Some ((q, j) # qs)")
    case True
    then obtain p i ps q j qs
      where f: "sm_find ins d = Some ((p, i) # ps)" "sm_find outs d = Some ((q, j) # qs)" by blast
    then have "i < length raw" "j < length raw"
      using assms(1,2) unfolding ports_ok_def by (meson list.set_intros(1))+
    then obtain st' where "fuseLinks i j st = Inr st'" "np_ok raw st'"
      using np_ok_fuse Cons.prems by blast
    then show ?thesis using Cons.IH f by simp
  next
    case False
    then have "normalPrune ins outs (d # ds) st = normalPrune ins outs ds st"
      by (auto split: option.splits list.splits)
    then show ?thesis using Cons by simp
  qed
qed

lemma pathPrune_ok:
  assumes "\<forall>(p, i) \<in> set inputs. i < length raw" and "\<forall>(p, i) \<in> set outputs. i < length raw"
    and "np_ok raw st"
  shows "\<exists>st'. pathPrune inputs outputs paths st = Inr st' \<and> np_ok raw st'"
  using assms(3)
proof (induction paths arbitrary: st)
  case Nil
  then show ?case by simp
next
  case (Cons path paths)
  show ?case
  proof (cases "\<exists>i j. sm_find inputs (inputPortId path) = Some i \<and> sm_find outputs (outputPortId path) = Some j")
    case True
    then obtain i j where f: "sm_find inputs (inputPortId path) = Some i"
      "sm_find outputs (outputPortId path) = Some j" by blast
    then have "i < length raw" "j < length raw"
      using assms(1,2) sm_find_mem by fastforce+
    then obtain st' where "fuseLinks i j st = Inr st'" "np_ok raw st'"
      using np_ok_fuse Cons.prems by blast
    then show ?thesis using Cons.IH f by simp
  next
    case False
    then have "pathPrune inputs outputs (path # paths) st = pathPrune inputs outputs paths st"
      by (auto split: option.splits)
    then show ?thesis using Cons by simp
  qed
qed

lemma rulePrune_ok:
  assumes "ports_ok (length raw) ins" and "ports_ok (length raw) outs" and "np_ok raw st"
  shows "\<exists>st'. rulePrune ins outs rules st = Inr st' \<and> np_ok raw st'"
  using assms(3)
proof (induction rules arbitrary: st)
  case Nil
  then show ?case by simp
next
  case (Cons r rules)
  obtain d paths where r: "r = (d, paths)" by (cases r)
  show ?case
  proof (cases "\<exists>i j. sm_find ins d = Some i \<and> sm_find outs d = Some j")
    case True
    then obtain inputs outputs where f: "sm_find ins d = Some inputs" "sm_find outs d = Some outputs"
      by blast
    then obtain st' where "pathPrune inputs outputs paths st = Inr st'" "np_ok raw st'"
      using pathPrune_ok [OF _ _ Cons.prems, of inputs outputs paths] assms(1,2)
      unfolding ports_ok_def by (metis (no_types, lifting) case_prodI2)
    then show ?thesis using Cons.IH f r by simp
  next
    case False
    then have "rulePrune ins outs (r # rules) st = rulePrune ins outs rules st"
      by (auto simp: r split: option.splits)
    then show ?thesis using Cons by simp
  qed
qed

lemma collectActive_spec:
  assumes "table_ok t" and "\<forall>i \<in> set is. i < length t" and "length lt = length t"
    and "\<forall>i < length t. lt ! i \<longleftrightarrow> i \<in> set act" and "distinct act"
  shows "\<exists>a. collectActive t is lt act = Inr a \<and> distinct a \<and> set a = set act \<union> root t ` set is"
  using assms(2-)
proof (induction "is" arbitrary: lt act)
  case Nil
  then show ?case by simp
next
  case (Cons i "is")
  have r: "getRealLinkIndex t i = Inr (root t i)" "root t i < length t"
    using getRealLinkIndex_ok [OF assms(1), of i] Cons.prems(1) by auto
  show ?case
  proof (cases "lt ! root t i")
    case True
    then show ?thesis using Cons.IH [of lt act] Cons.prems r by auto
  next
    case False
    then show ?thesis
      using Cons.IH [of "lt[root t i := True]" "act @ [root t i]"] Cons.prems r
      by (auto simp: nth_list_update)
  qed
qed

subsection \<open>The port maps\<close>

lemma set_sm_set: "set (sm_set k v m) \<subseteq> insert (k, v) (set m)"
  by (induction k v m rule: sm_set.induct) auto

lemma sm_set_nonempty [simp]: "sm_set k v m \<noteq> []"
  by (cases m) (auto split: if_splits)

lemma set_sm_insert: "set (sm_insert k v m) \<subseteq> insert (k, v) (set m)"
  using set_sm_set [of k v m] by (auto simp: sm_insert_def split: option.splits)

lemma sm_insert_nonempty [simp]: "sm_insert k v m \<noteq> []"
  by (cases m) (auto simp: sm_insert_def split: option.splits)

definition ports_of :: "(nat \<Rightarrow> string) \<Rightarrow> nat \<Rightarrow> port_link_map \<Rightarrow> bool" where
  "ports_of key n m \<longleftrightarrow>
     (\<forall>inst ps. sm_find m inst = Some ps \<longrightarrow> ps \<noteq> [] \<and> (\<forall>(p, i) \<in> set ps. i < n \<and> key i = inst)) \<and>
     (\<forall>i < n. sm_find m (key i) \<noteq> None)"

lemma ports_of_step:
  assumes "ports_of key n m"
  shows "ports_of key (Suc n) (sm_set (key n) (sm_insert p n (sm_index [] m (key n))) m)"
proof -
  let ?ps = "sm_insert p n (sm_index [] m (key n))"
  have old: "sm_find m inst = Some ps \<Longrightarrow> ps \<noteq> [] \<and> (\<forall>(q, i) \<in> set ps. i < Suc n \<and> key i = inst)" for inst ps
    using assms unfolding ports_of_def by (fastforce simp: less_Suc_eq)
  have "\<forall>(q, i) \<in> set (sm_index [] m (key n)). i < Suc n \<and> key i = key n"
    using old [of "key n"] by (cases "sm_find m (key n)") (simp_all add: sm_index_def)
  then have new: "\<forall>(q, i) \<in> set ?ps. i < Suc n \<and> key i = key n"
    using set_sm_insert [of p n "sm_index [] m (key n)"] by blast
  show ?thesis
    unfolding ports_of_def
  proof (intro conjI allI impI)
    fix inst ps
    assume f: "sm_find (sm_set (key n) ?ps m) inst = Some ps"
    show "ps \<noteq> []" using f old by (auto split: if_splits)
    show "\<forall>(q, i) \<in> set ps. i < Suc n \<and> key i = inst"
      using f old new by (cases "inst = key n") auto
  next
    fix i assume "i < Suc n"
    then show "sm_find (sm_set (key n) ?ps m) (key i) \<noteq> None"
      using assms by (auto simp: ports_of_def less_Suc_eq)
  qed
qed

lemma ports_of_build:
  "ports_of key n (fold (\<lambda>i m. sm_set (key i) (sm_insert (port i) i (sm_index [] m (key i))) m) [0..<n] [])"
proof (induction n)
  case 0
  then show ?case by (simp add: ports_of_def)
next
  case (Suc n)
  then show ?case using ports_of_step [of key n] by simp
qed

lemma build_ports_of:
  "ports_of (\<lambda>i. dstNodeInstance (ls ! i)) (length ls) (build_inputPortAndLink ls)"
  "ports_of (\<lambda>i. srcNodeInstance (ls ! i)) (length ls) (build_outputPortAndLink ls)"
  unfolding build_inputPortAndLink_def build_outputPortAndLink_def by (rule ports_of_build)+

lemma ports_of_ok: "ports_of key n m \<Longrightarrow> ports_ok n m"
  by (fastforce simp: ports_of_def ports_ok_def)

lemma np_ok_init: "np_ok ls (np_init ls)"
  by (simp add: np_ok_def np_init_def table_ok_def ends_in_def)

text \<open>
  The whole function returns, for any rules and any list of disabled nodes: the result's
  links are those stored at the real indices of the original links.
\<close>

lemma pipelineNodePrune_returns:
  "\<exists>ls. pipelineNodePrune rules ds p = Inr (p\<lparr>links := ls\<rparr>) \<and> ends_in (links p) ls"
proof -
  let ?ls = "links p"
  note po = build_ports_of [of ?ls, THEN ports_of_ok]
  obtain st1 where 1: "normalPrune (build_inputPortAndLink ?ls) (build_outputPortAndLink ?ls) ds (np_init ?ls) = Inr st1"
    "np_ok ?ls st1" using normalPrune_ok [OF po np_ok_init] by blast
  obtain st2 where 2: "rulePrune (build_inputPortAndLink ?ls) (build_outputPortAndLink ?ls) rules st1 = Inr st2"
    "np_ok ?ls st2" using rulePrune_ok [OF po 1(2)] by blast
  let ?t = "linkIndexTable st2"
  obtain a where a: "collectActive ?t [0..<length ?ls] (replicate (length ?t) False) [] = Inr a"
    and sa: "set a = root ?t ` {0..<length ?ls}"
    using collectActive_spec [of ?t "[0..<length ?ls]" "replicate (length ?t) False" "[]"] 2(2)
    by (auto simp: np_ok_def)
  have "\<forall>i \<in> set a. i < length (npLinks st2)"
    using sa getRealLinkIndex_ok(3) [of ?t] 2(2) by (auto simp: np_ok_def)
  then have "ends_in ?ls (map ((!) (npLinks st2)) a)"
    using 2(2) by (auto simp: np_ok_def ends_in_def)
  then show ?thesis using 1(1) 2(1) a by (auto simp: pipelineNodePrune_def Let_def)
qed

subsection \<open>Fused links are chains of original links\<close>

definition chain :: "LinkItem list \<Rightarrow> string set \<Rightarrow> nat list \<Rightarrow> bool" where
  "chain raw P c \<longleftrightarrow> c \<noteq> [] \<and> (\<forall>i \<in> set c. i < length raw) \<and>
     successively (\<lambda>i j. dstNodeInstance (raw ! i) = srcNodeInstance (raw ! j) \<and>
                         dstNodeInstance (raw ! i) \<in> P) c"

definition spliced :: "LinkItem list \<Rightarrow> string set \<Rightarrow> nat list \<Rightarrow> LinkItem \<Rightarrow> bool" where
  "spliced raw P c l \<longleftrightarrow> chain raw P c \<and>
     src_end l = src_end (raw ! hd c) \<and> dst_end l = dst_end (raw ! last c)"

lemma chain_mono: "chain raw P c \<Longrightarrow> P \<subseteq> Q \<Longrightarrow> chain raw Q c"
  unfolding chain_def by (auto elim!: successively_mono)

lemma spliced_mono: "spliced raw P c l \<Longrightarrow> P \<subseteq> Q \<Longrightarrow> spliced raw Q c l"
  unfolding spliced_def using chain_mono by blast

lemma chain_append:
  assumes "chain raw P c1" and "chain raw P c2" and "d \<in> P"
    and "dstNodeInstance (raw ! last c1) = d" and "srcNodeInstance (raw ! hd c2) = d"
  shows "chain raw P (c1 @ c2)"
  using assms by (auto simp: chain_def successively_append_iff)

lemma chain_path:
  "chain raw P c \<Longrightarrow> (srcNodeInstance (raw ! hd c), dstNodeInstance (raw ! last c)) \<in> (link_edges raw)\<^sup>+"
proof (induction c)
  case Nil
  then show ?case by (simp add: chain_def)
next
  case (Cons i c)
  have e: "(srcNodeInstance (raw ! i), dstNodeInstance (raw ! i)) \<in> link_edges raw"
    using Cons.prems by (auto simp: chain_def intro: link_edgesI)
  show ?case
  proof (cases "c = []")
    case True
    then show ?thesis using e by auto
  next
    case False
    then have "chain raw P c" "dstNodeInstance (raw ! i) = srcNodeInstance (raw ! hd c)"
      using Cons.prems by (auto simp: chain_def successively_Cons)
    then show ?thesis using Cons.IH False e by (auto intro: trancl_into_trancl2)
  qed
qed

lemma spliced_nodes:
  assumes "spliced raw P c l"
  shows "srcNodeInstance l = srcNodeInstance (raw ! hd c)" "dstNodeInstance l = dstNodeInstance (raw ! last c)"
    and "hd c < length raw" "last c < length raw"
  using assms by (auto simp: spliced_def chain_def src_end_def dst_end_def)

lemma spliced_fused:
  assumes "spliced raw P c1 l1" and "spliced raw P c2 l2" and "d \<in> P"
    and "dstNodeInstance l1 = d" and "srcNodeInstance l2 = d"
  shows "spliced raw P (c1 @ c2) (fused l1 l2)"
proof -
  have "chain raw P (c1 @ c2)"
    using assms spliced_nodes [OF assms(1)] spliced_nodes [OF assms(2)]
    by (intro chain_append [of _ _ _ _ d]) (auto simp: spliced_def)
  moreover have "c1 \<noteq> []" "c2 \<noteq> []" using assms(1,2) by (auto simp: spliced_def chain_def)
  ultimately show ?thesis using assms(1,2) by (simp add: spliced_def)
qed

text \<open>
  The invariant of the first loop.  \<open>cs\<close> records, for every link in the growing list, the
  chain of original links it stands for; \<open>P\<close> are the nodes processed so far.
\<close>

definition np_chains :: "LinkItem list \<Rightarrow> string set \<Rightarrow> nat list list \<Rightarrow> np_st \<Rightarrow> bool" where
  "np_chains raw P cs st \<longleftrightarrow>
     (let rt = root (linkIndexTable st) in
      np_ok raw st \<and> length cs = length (npLinks st) \<and>
      (\<forall>x < length cs. spliced raw P (cs ! x) (npLinks st ! x)) \<and>
      (\<forall>i < length raw. distinct (cs ! rt i) \<and>
         (\<forall>k. k \<in> set (cs ! rt i) \<longleftrightarrow> k < length raw \<and> rt k = rt i)) \<and>
      (\<forall>i < length raw.
         (dstNodeInstance (raw ! i) \<notin> P \<longrightarrow> dstNodeInstance (npLinks st ! rt i) = dstNodeInstance (raw ! i)) \<and>
         (srcNodeInstance (raw ! i) \<notin> P \<longrightarrow> srcNodeInstance (npLinks st ! rt i) = srcNodeInstance (raw ! i))) \<and>
      (\<forall>d \<in> P. \<forall>i j. in_links raw d = [i] \<longrightarrow> out_links raw d = [j] \<longrightarrow>
         (\<exists>ys zs. cs ! rt i = ys @ i # j # zs)))"

lemma np_chains_init: "np_chains raw {} (map (\<lambda>i. [i]) [0..<length raw]) (np_init raw)"
proof -
  have t: "table_ok [0..<length raw]" by (simp add: table_ok_def)
  have rt: "i < length raw \<Longrightarrow> root [0..<length raw] i = i" for i
    using root_step [OF t, of i] by simp
  show ?thesis
    using np_ok_init [of raw] rt
    by (auto simp: np_chains_def np_init_def spliced_def chain_def)
qed

lemma np_chains_skip:
  assumes "np_chains raw P cs st" and "in_links raw d = [] \<or> out_links raw d = []"
  shows "np_chains raw (insert d P) cs st"
  using assms spliced_mono [OF _ subset_insertI [of P d]]
  unfolding np_chains_def Let_def by auto

lemma np_chains_fuse:
  assumes inv: "np_chains raw P cs st" and ac: "acyclic_links raw" and d: "d \<notin> P"
    and i: "i \<in> set (in_links raw d)" and j: "j \<in> set (out_links raw d)"
    and st': "fuseLinks i j st = Inr st'"
  defines "rt \<equiv> root (linkIndexTable st)"
  shows "np_chains raw (insert d P) (cs @ [cs ! rt i @ cs ! rt j]) st'"
proof -
  let ?P = "insert d P" and ?c = "cs ! rt i @ cs ! rt j" and ?N = "length (npLinks st)"
  let ?cs = "cs @ [?c]" and ?t = "redirect (linkIndexTable st) (rt i) (rt j)"
  have ij: "i < length raw" "j < length raw" using i j by auto
  have ok: "np_ok raw st" "length cs = ?N" "\<And>x. x < ?N \<Longrightarrow> spliced raw P (cs ! x) (npLinks st ! x)"
    and part: "\<And>k. k < length raw \<Longrightarrow> distinct (cs ! rt k)"
      "\<And>k m. k < length raw \<Longrightarrow> m \<in> set (cs ! rt k) \<longleftrightarrow> m < length raw \<and> rt m = rt k"
    and keep: "\<And>k. k < length raw \<Longrightarrow> dstNodeInstance (raw ! k) \<notin> P \<Longrightarrow>
        dstNodeInstance (npLinks st ! rt k) = dstNodeInstance (raw ! k)"
      "\<And>k. k < length raw \<Longrightarrow> srcNodeInstance (raw ! k) \<notin> P \<Longrightarrow>
        srcNodeInstance (npLinks st ! rt k) = srcNodeInstance (raw ! k)"
    and fin: "\<And>e a b. e \<in> P \<Longrightarrow> in_links raw e = [a] \<Longrightarrow> out_links raw e = [b] \<Longrightarrow>
        \<exists>ys zs. cs ! rt a = ys @ a # b # zs"
    using inv unfolding np_chains_def rt_def Let_def by (auto 0 3)
  have t: "table_ok (linkIndexTable st)" and len: "length (linkIndexTable st) = ?N" "length raw \<le> ?N"
    using ok(1) by (simp_all add: np_ok_def)
  have b: "k < length raw \<Longrightarrow> rt k < ?N \<and> linkIndexTable st ! rt k = rt k" for k
    using getRealLinkIndex_ok [OF t, of k] len by (simp add: rt_def)
  have bn: "k < length raw \<Longrightarrow> rt k \<noteq> ?N" for k using b [of k] by simp
  have eq: "st' = \<lparr>npLinks = npLinks st @ [fused (npLinks st ! rt i) (npLinks st ! rt j)],
      linkIndexTable = ?t\<rparr>"
    using st' fuseLinks_eq [OF ok(1), of i j] ij len by (simp add: rt_def)
  have rt': "k < length raw \<Longrightarrow> root ?t k = (if rt k = rt i \<or> rt k = rt j then ?N else rt k)" for k
    using root_redirect [OF t, of "rt i" "rt j" k] b [OF ij(1)] b [OF ij(2)] len by (simp add: rt_def)
  have ends: "dstNodeInstance (npLinks st ! rt i) = d" "srcNodeInstance (npLinks st ! rt j) = d"
    using keep(1) [of i] keep(2) [of j] i j d by auto
  have spl: "spliced raw ?P (cs ! x) (npLinks st ! x)" if "x < ?N" for x
    using ok(3) [OF that] spliced_mono [of raw P _ _ ?P] by blast
  have neq: "rt i \<noteq> rt j"
  proof
    assume "rt i = rt j"
    then have "srcNodeInstance (npLinks st ! rt i) = dstNodeInstance (npLinks st ! rt i)" using ends by simp
    moreover have "spliced raw ?P (cs ! rt i) (npLinks st ! rt i)" using spl b ij by blast
    ultimately show False
      using chain_path [of raw ?P "cs ! rt i"] ac spliced_nodes [of raw ?P "cs ! rt i"]
      by (auto simp: spliced_def acyclic_links_def acyclic_def)
  qed
  have new: "spliced raw ?P ?c (fused (npLinks st ! rt i) (npLinks st ! rt j))"
    using spliced_fused [OF spl spl _ ends] b ij by blast
  have old_cs: "rt k \<noteq> rt i \<Longrightarrow> rt k \<noteq> rt j \<Longrightarrow> k < length raw \<Longrightarrow> ?cs ! root ?t k = cs ! rt k" for k
    using rt' b ok(2) by (simp add: nth_append)
  have new_cs: "rt k = rt i \<or> rt k = rt j \<Longrightarrow> k < length raw \<Longrightarrow> ?cs ! root ?t k = ?c" for k
    using rt' [of k] nth_append_length [of cs ?c "[]"] unfolding ok(2) by auto
  have part': "distinct (?cs ! root ?t k) \<and> (\<forall>m. m \<in> set (?cs ! root ?t k) \<longleftrightarrow> m < length raw \<and> root ?t m = root ?t k)"
    if k: "k < length raw" for k
  proof (cases "rt k = rt i \<or> rt k = rt j")
    case True
    then show ?thesis
      using new_cs [OF True k] part(1) [OF ij(1)] part(1) [OF ij(2)] part(2) [OF ij(1)] part(2) [OF ij(2)]
        neq rt' k bn by (auto split: if_splits)
  next
    case False
    then show ?thesis
      using old_cs [of k] part(1) [OF k] part(2) [OF k] rt' k bn [OF k] by (auto split: if_splits)
  qed
  have nodes': "npLinks st' ! root ?t k =
      (if rt k = rt i \<or> rt k = rt j then fused (npLinks st ! rt i) (npLinks st ! rt j) else npLinks st ! rt k)"
    if "k < length raw" for k
    using rt' [OF that] b [OF that] by (auto simp: eq nth_append)
  have keep': "dstNodeInstance (raw ! k) \<notin> ?P \<Longrightarrow> dstNodeInstance (npLinks st' ! root ?t k) = dstNodeInstance (raw ! k)"
    "srcNodeInstance (raw ! k) \<notin> ?P \<Longrightarrow> srcNodeInstance (npLinks st' ! root ?t k) = srcNodeInstance (raw ! k)"
    if "k < length raw" for k
    using nodes' [OF that] keep [OF that] ends by (auto simp: fused_def)
  have fin': "\<exists>ys zs. ?cs ! root ?t a = ys @ a # c # zs"
    if e: "e \<in> ?P" "in_links raw e = [a]" "out_links raw e = [c]" for e a c
  proof (cases "e = d")
    case True
    then have ac: "a = i" "c = j" using i j e by (auto simp del: mem_in_links mem_out_links)
    have "cs ! rt i \<noteq> []" "cs ! rt j \<noteq> []" using part(2) ij by force+
    moreover have "last (cs ! rt i) \<in> set (in_links raw d)" "hd (cs ! rt j) \<in> set (out_links raw d)"
      using spliced_nodes [OF spl, of "rt i"] spliced_nodes [OF spl, of "rt j"] b ij ends by auto
    then have "last (cs ! rt i) = i" "hd (cs ! rt j) = j"
      using e True ac by (auto simp del: mem_in_links mem_out_links)
    ultimately have "?c = butlast (cs ! rt i) @ i # j # tl (cs ! rt j)"
      by (metis append.assoc append_Cons append_Nil append_butlast_last_id list.collapse)
    then have "?cs ! root ?t a = butlast (cs ! rt i) @ a # c # tl (cs ! rt j)"
      using new_cs [of i] ij ac by simp
    then show ?thesis by blast
  next
    case False
    then obtain ys zs where yz: "cs ! rt a = ys @ a # c # zs" using fin e by blast
    have a: "a < length raw" using e(2) mem_in_links [of a raw e] by simp
    consider "rt a = rt i" | "rt a = rt j" | "rt a \<noteq> rt i" "rt a \<noteq> rt j" by blast
    then show ?thesis
    proof cases
      case 1
      then have "?cs ! root ?t a = ys @ a # c # (zs @ cs ! rt j)" using new_cs [OF _ a] yz by simp
      then show ?thesis by blast
    next
      case 2
      then have "?cs ! root ?t a = (cs ! rt i @ ys) @ a # c # zs" using new_cs [OF _ a] yz by simp
      then show ?thesis by blast
    next
      case 3
      then show ?thesis using old_cs [OF _ _ a] yz by auto
    qed
  qed
  have "np_ok raw st'" using np_ok_fuse [OF ok(1) ij] st' by auto
  moreover have "\<forall>x < length ?cs. spliced raw ?P (?cs ! x) (npLinks st' ! x)"
    using spl new ok(2) by (auto simp: eq nth_append less_Suc_eq)
  ultimately show ?thesis
    unfolding np_chains_def Let_def using part' keep' fin' ok(2) by (simp add: eq)
qed

lemma normalPrune_chains:
  assumes "acyclic_links raw" and "np_chains raw P cs st" and "distinct ds" and "set ds \<inter> P = {}"
  shows "\<exists>cs' st'. normalPrune (build_inputPortAndLink raw) (build_outputPortAndLink raw) ds st = Inr st' \<and>
           np_chains raw (P \<union> set ds) cs' st'"
  using assms(2-)
proof (induction ds arbitrary: P cs st)
  case Nil
  then show ?case by auto
next
  case (Cons d ds)
  let ?ins = "build_inputPortAndLink raw" and ?outs = "build_outputPortAndLink raw"
  have P: "P \<union> set (d # ds) = insert d P \<union> set ds" by auto
  have none: "in_links raw d = []" if "sm_find ?ins d = None"
    using build_ports_of(1) [of raw] that by (auto simp: ports_of_def in_links_def filter_empty_conv)
  have none': "out_links raw d = []" if "sm_find ?outs d = None"
    using build_ports_of(2) [of raw] that by (auto simp: ports_of_def out_links_def filter_empty_conv)
  show ?case
  proof (cases "sm_find ?ins d = None \<or> sm_find ?outs d = None")
    case True
    then have "np_chains raw (insert d P) cs st" using np_chains_skip Cons.prems(1) none none' by blast
    moreover have "normalPrune ?ins ?outs (d # ds) st = normalPrune ?ins ?outs ds st"
      using True by (auto split: option.splits list.splits)
    ultimately show ?thesis
      using Cons.IH [of "insert d P" cs st] Cons.prems unfolding P by (simp del: normalPrune.simps)
  next
    case False
    then obtain ips ops where f: "sm_find ?ins d = Some ips" "sm_find ?outs d = Some ops" by auto
    then obtain p i ips' q j ops' where l: "ips = (p, i) # ips'" "ops = (q, j) # ops'"
      using build_ports_of [of raw] unfolding ports_of_def by (metis list.exhaust surj_pair)
    then have ij: "i \<in> set (in_links raw d)" "j \<in> set (out_links raw d)"
      using build_ports_of [of raw] f unfolding ports_of_def by fastforce+
    then obtain st1 where st1: "fuseLinks i j st = Inr st1"
      using np_ok_fuse [of raw st i j] Cons.prems(1) by (auto simp: np_chains_def Let_def)
    have "d \<notin> P" using Cons.prems(3) by simp
    from np_chains_fuse [OF Cons.prems(1) assms(1) this ij st1]
    obtain cs1 where "np_chains raw (insert d P) cs1 st1" by blast
    then show ?thesis using Cons.IH [of "insert d P" cs1 st1] Cons.prems f l st1 unfolding P by simp
  qed
qed

text \<open>
  Every link of the result is spliced from a chain of original links through bypassed
  nodes, and the chains of the result partition the original links.
\<close>

lemma pipelineNodePrune_chains:
  assumes "acyclic_links (links p)" and "distinct ds"
  shows "\<exists>act cs. pipelineNodePrune [] ds p = Inr (p\<lparr>links := act\<rparr>) \<and>
    list_all2 (spliced (links p) (set ds)) cs act \<and>
    distinct (concat cs) \<and> set (concat cs) = {..<length (links p)} \<and>
    (\<forall>d \<in> set ds. \<forall>i j. in_links (links p) d = [i] \<longrightarrow> out_links (links p) d = [j] \<longrightarrow>
       (\<exists>c \<in> set cs. \<exists>ys zs. c = ys @ i # j # zs))"
proof -
  let ?raw = "links p"
  obtain st cs where st: "normalPrune (build_inputPortAndLink ?raw) (build_outputPortAndLink ?raw) ds
      (np_init ?raw) = Inr st" and inv: "np_chains ?raw (set ds) cs st"
    using normalPrune_chains [OF assms(1) np_chains_init assms(2)] by auto
  let ?t = "linkIndexTable st"
  let ?rt = "root ?t"
  have ok: "np_ok ?raw st" "length cs = length (npLinks st)"
    "\<And>x. x < length cs \<Longrightarrow> spliced ?raw (set ds) (cs ! x) (npLinks st ! x)"
    and part: "\<And>k. k < length ?raw \<Longrightarrow> distinct (cs ! ?rt k)"
      "\<And>k m. k < length ?raw \<Longrightarrow> m \<in> set (cs ! ?rt k) \<longleftrightarrow> m < length ?raw \<and> ?rt m = ?rt k"
    and fin: "\<And>e a b. e \<in> set ds \<Longrightarrow> in_links ?raw e = [a] \<Longrightarrow> out_links ?raw e = [b] \<Longrightarrow>
        \<exists>ys zs. cs ! ?rt a = ys @ a # b # zs"
    using inv unfolding np_chains_def Let_def by (auto 0 3)
  have t: "table_ok ?t" and len: "length ?t = length (npLinks st)" "length ?raw \<le> length (npLinks st)"
    using ok(1) by (simp_all add: np_ok_def)
  obtain a where a: "collectActive ?t [0..<length ?raw] (replicate (length ?t) False) [] = Inr a"
    "distinct a" "set a = ?rt ` {..<length ?raw}"
    using collectActive_spec [OF t, of "[0..<length ?raw]" "replicate (length ?t) False" "[]"] len
    by (auto simp: atLeast0LessThan)
  let ?cs = "map ((!) cs) a" and ?act = "map ((!) (npLinks st)) a"
  have bnd: "x \<in> set a \<Longrightarrow> x < length cs" for x
    using a(3) getRealLinkIndex_ok(3) [OF t] len ok(2) by fastforce
  have "list_all2 (spliced ?raw (set ds)) ?cs ?act"
    using bnd ok(3) by (auto simp: list_all2_conv_all_nth)
  moreover have "distinct (concat ?cs)"
  proof (rule distinct_concat)
    have "inj_on ((!) cs) (set a)"
    proof (rule inj_onI)
      fix x y assume "x \<in> set a" "y \<in> set a" "cs ! x = cs ! y"
      then obtain k m where "k < length ?raw" "x = ?rt k" "m < length ?raw" "y = ?rt m"
        using a(3) by auto
      then show "x = y" using \<open>cs ! x = cs ! y\<close> part(2) [of k k] part(2) [of m k] by simp
    qed
    then show "distinct ?cs" using a(2) by (simp add: distinct_map)
  next
    show "distinct ys" if "ys \<in> set ?cs" for ys using that a(3) part(1) by auto
    show "set ys \<inter> set zs = {}" if yz: "ys \<in> set ?cs" "zs \<in> set ?cs" "ys \<noteq> zs" for ys zs
    proof -
      obtain k m where "k < length ?raw" "ys = cs ! ?rt k" "m < length ?raw" "zs = cs ! ?rt m"
        using yz(1,2) a(3) by auto
      then show ?thesis using part(2) yz(3) by (metis disjoint_iff)
    qed
  qed
  moreover have "set (concat ?cs) = {..<length ?raw}"
    using a(3) part(2) by auto
  moreover have "\<exists>c \<in> set ?cs. \<exists>ys zs. c = ys @ i # j # zs"
    if "d \<in> set ds" "in_links ?raw d = [i]" "out_links ?raw d = [j]" for d i j
    using fin [OF that] a(3) mem_in_links [of i ?raw d] that(2) by auto
  moreover have "pipelineNodePrune [] ds p = Inr (p\<lparr>links := ?act\<rparr>)"
    using st a(1) by (simp add: pipelineNodePrune_def Let_def)
  ultimately show ?thesis by blast
qed

lemma distinct_split_unique:
  assumes "distinct (concat cs)" and "c \<in> set cs" and "c' \<in> set cs" and "x \<in> set c" and "x \<in> set c'"
  shows "c = c'"
  using assms by (metis disjoint_iff distinct_concat_iff)

lemma pipelineNodePrune_bypassed:
  assumes "acyclic_links (links p)" and "distinct ds" and "d \<in> set ds"
    and "in_links (links p) d = [i]" and "out_links (links p) d = [j]"
    and "pipelineNodePrune [] ds p = Inr p'" and "l \<in> set (links p')"
  shows "srcNodeInstance l \<noteq> d \<and> dstNodeInstance l \<noteq> d"
proof -
  let ?raw = "links p"
  obtain act cs where p': "p' = p\<lparr>links := act\<rparr>" and sp: "list_all2 (spliced ?raw (set ds)) cs act"
    and dis: "distinct (concat cs)" and ch: "\<exists>c \<in> set cs. \<exists>ys zs. c = ys @ i # j # zs"
    using pipelineNodePrune_chains [OF assms(1,2)] assms(3-6) by auto
  obtain c0 ys zs where c0: "c0 \<in> set cs" "c0 = ys @ i # j # zs" using ch by blast
  have "distinct c0" using dis c0(1) by (auto simp: distinct_concat_iff)
  then have ends: "last c0 \<noteq> i" "hd c0 \<noteq> j"
    using c0(2) by (auto simp: hd_append split: if_splits)
  obtain c where c: "c \<in> set cs" "spliced ?raw (set ds) c l"
    using sp assms(7) p' by (auto simp: in_set_conv_nth) (metis list_all2_conv_all_nth nth_mem)
  then have ne: "c \<noteq> []" by (simp add: spliced_def chain_def)
  note nd = spliced_nodes [OF c(2)]
  have "last c = i" if "dstNodeInstance l = d"
    using that nd mem_in_links [of "last c" ?raw d] assms(4) by simp
  moreover have "hd c = j" if "srcNodeInstance l = d"
    using that nd mem_out_links [of "hd c" ?raw d] assms(5) by simp
  moreover have "i \<in> set c0" "j \<in> set c0" using c0(2) by auto
  then have "last c \<noteq> i" "hd c \<noteq> j"
    using distinct_split_unique [OF dis c(1) c0(1)] ends last_in_set [OF ne] hd_in_set [OF ne] by metis+
  ultimately show ?thesis by blast
qed

end
