(* ===== verification/Pruner.thy ===== *)
theory Pruner
  imports PortPrune NodePrune
begin

text \<open>
  \<open>PipelinePruner\<close>: which nodes and ports a capture request disables, the per-platform
  customisation, the cache of pruned pipelines, the link checker and the whole
  \<open>rebuildLinks\<close> (\<^verbatim>\<open>mivifwk/mialgoengine/MiaPipelinePruner.cpp\<close> and
  \<^verbatim>\<open>MiaPipelinePrunerInfoMTK.cpp\<close>).  What a plugin answers to \<open>isEnabled\<close> is a
  parameter stored with its node.
\<close>

subsection \<open>Disable masks\<close>

definition gPluginNameToNodeMask :: "(string \<times> u32) list" where
  "gPluginNameToNodeMask =
    [(''com.xiaomi.plugin.hdr'', 0x2),
     (''com.xiaomi.plugin.depurple'', 0x4),
     (''com.xiaomi.plugin.skinbeautifier'', 0x8),
     (''com.xiaomi.plugin.bodyslim'', 0x10),
     (''com.xiaomi.plugin.sr'', 0x400),
     (''com.xiaomi.plugin.miaiportraitsupernight'', 0x20),
     (''com.xiaomi.plugin.supermoon'', 0x40),
     (''com.xiaomi.plugin.mialgoellc'', 0x20),
     (''com.xiaomi.plugin.miaiie'', 0x80),
     (''com.xiaomi.plugin.gpu'', 0x100),
     (''com.xiaomi.plugin.miaideblur'', 0x200),
     (''com.xiaomi.plugin.miaiportraitdeblur'', 0x20000),
     (''com.xiaomi.plugin.mifragment'', 0x80),
     (''com.xiaomi.plugin.misegment'', 0x80),
     (''com.xiaomi.plugin.fusion'', 0x800),
     (''com.xiaomi.plugin.mifusion'', 0x1000000),
     (''com.xiaomi.plugin.ldc'', 0x1000),
     (''com.xiaomi.plugin.dc'', 0x2000),
     (''com.xiaomi.plugin.offlinepostproc'', 0x4000),
     (''com.xiaomi.plugin.miflaw'', 0x8000),
     (''com.xiaomi.plugin.memcpy'', 0x10000),
     (''com.xiaomi.plugin.rearsupernight'', 0x40000),
     (''com.xiaomi.plugin.cupyuv'', 0x80000),
     (''com.xiaomi.plugin.cupraw'', 0x100000),
     (''com.xiaomi.plugin.capbokeh'', 0x200000),
     (''com.xiaomi.plugin.arcsoftsll'', 0x400000),
     (''com.xiaomi.plugin.miairawhdr'', 0x2000000),
     (''com.xiaomi.plugin.pureview'', 0x800000),
     (''com.xiaomi.plugin.mialgosnsc'', 0x4000000),
     (''com.xiaomi.plugin.anchor'', 0x8000000),
     (''com.xiaomi.plugin.hwproc'', 0x40000000),
     (''com.xiaomi.plugin.hwjpeg'', 0x80000000)]"

text \<open>A node of the session: its plugin's \<open>isEnabled\<close>, or no plugin at all.\<close>

type_synonym node_plugin = "(metadata_ptr \<Rightarrow> bool) option"

record PipelinePruner =
  mRawPipeline :: PipelineInfo
  mDisableNodeMask :: u32
  mNodes :: "(string, node_plugin) std_map"
  mPrunedResult :: "(string, PipelineInfo) std_map"

definition new_PipelinePruner ::
  "mia_env \<Rightarrow> (string, node_plugin) std_map \<Rightarrow> PipelineInfo \<Rightarrow> PipelinePruner" where
  "new_PipelinePruner env ns rawPipeline =
     \<lparr>mRawPipeline = rawPipeline, mDisableNodeMask = sDisableMask env, mNodes = ns, mPrunedResult = []\<rparr>"

definition needDisablePlugin :: "PipelinePruner \<Rightarrow> string \<Rightarrow> bool" where
  "needDisablePlugin pr pluginName =
     (if mDisableNodeMask pr = 0 then False
      else if mDisableNodeMask pr = 1 then True
      else (case map_of gPluginNameToNodeMask pluginName of
              None \<Rightarrow> False
            | Some m \<Rightarrow> m AND mDisableNodeMask pr \<noteq> 0))"

definition MiaNode_isEnable :: "node_plugin \<Rightarrow> metadata_ptr \<Rightarrow> bool" where
  "MiaNode_isEnable plugin settings = (case plugin of None \<Rightarrow> False | Some isEnabled \<Rightarrow> isEnabled settings)"

definition checkNodeEnable :: "PipelinePruner \<Rightarrow> string \<Rightarrow> metadata_ptr \<Rightarrow> bool" where
  "checkNodeEnable pr nodeInst settings =
     (case sm_find (mNodes pr) nodeInst of None \<Rightarrow> False | Some n \<Rightarrow> MiaNode_isEnable n settings)"

subsection \<open>Which nodes a request disables\<close>

definition flag_u8 :: "mia_env \<Rightarrow> metadata_ptr \<Rightarrow> string \<Rightarrow> u8" where
  "flag_u8 env md name = (case vtag env md name None of None \<Rightarrow> 0 | Some p \<Rightarrow> read_u8 p)"

definition offlinepostproc :: string where
  "offlinepostproc = ''com.xiaomi.plugin.offlinepostproc''"

definition rawMoveUpDisables :: "mia_env \<Rightarrow> metadata_ptr \<Rightarrow> NodeItem \<Rightarrow> bool" where
  "rawMoveUpDisables env md item =
     (let isMiviRawZsl = flag_u8 env md ''com.xiaomi.mivi2.rawzsl.enable'' \<noteq> 0;
          isMiviRawNonZsl = flag_u8 env md ''com.xiaomi.mivi2.rawnonzsl.enable'' \<noteq> 0;
          isOffline = (nodeName item = offlinepostproc)
      in if isMiviRawZsl \<or> isMiviRawNonZsl then
           (let isSrEnable = flag_u8 env md ''xiaomi.superResolution.enabled'' \<noteq> 0;
                isHdrSrEnable = flag_u8 env md ''xiaomi.hdr.sr.enabled'' \<noteq> 0;
                isMiviRawSr = isSrEnable \<and> isMiviRawZsl;
                isMiviRawHdrSr = isMiviRawSr \<and> isHdrSrEnable
            in (isMiviRawZsl \<and> isOffline \<and>
                nodeInstance item \<notin> {''BayerRaw2YuvInstance2'', ''BayerRaw2YuvInstance1'',
                  ''YuvReprocessInstance0'', ''MfnrInstance0'', ''BurstJpegInstance0''}) \<or>
               (\<not> isMiviRawHdrSr \<and> isOffline \<and> nodeInstance item = ''BayerRaw2YuvInstance2'') \<or>
               (\<not> isMiviRawZsl \<and> isOffline \<and>
                contains (nodeInstance item) ''BayerRaw2YuvInstance'' \<and>
                has_mode (nodeMask item) SIGFRAME_MODE))
         else isOffline \<and> has_mode (nodeMask item) SIGFRAME_MODE)"

definition lookForDisableNodesForRawMoveUp :: "mia_env \<Rightarrow> metadata_ptr \<Rightarrow> NodeItem \<Rightarrow> NodeItem" where
  "lookForDisableNodesForRawMoveUp env md item =
     (if rawMoveUpDisables env md item then item\<lparr>isEnable := False\<rparr> else item)"

text \<open>One round of the loop over \<open>mRawPipeline.nodes\<close>: the updated node and whether it is pushed.\<close>

definition lookForDisableNode ::
  "mia_env \<Rightarrow> PipelinePruner \<Rightarrow> metadata_ptr \<Rightarrow> NodeItem \<Rightarrow> NodeItem \<times> bool" where
  "lookForDisableNode env pr md item =
     (let item1 = item\<lparr>isEnable := checkNodeEnable pr (nodeInstance item) md\<rparr>
      in if \<not> isEnable item1 then (item1, True)
         else
           let captureHint = (case vtag env md ''xiaomi.burst.captureHint'' None of
                                None \<Rightarrow> 0 | Some p \<Rightarrow> read_i32 p);
               item2 = (if captureHint \<noteq> 0 \<and>
                           nodeName item1 \<noteq> ''com.xiaomi.plugin.ldc'' \<and>
                           nodeName item1 \<noteq> ''com.xiaomi.plugin.offlinepostproc'' \<and>
                           nodeName item1 \<noteq> ''com.xiaomi.plugin.swjpegencode''
                        then item1\<lparr>isEnable := False\<rparr> else item1);
               item3 = (if Soc env = QCOM then lookForDisableNodesForRawMoveUp env md item2 else item2)
           in if \<not> isEnable item3 then (item3, True)
              else
                let item4 = (if needDisablePlugin pr (nodeName item3)
                             then item3\<lparr>isEnable := False\<rparr> else item3)
                in (item4, \<not> isEnable item4))"

definition lookForDisableNodes ::
  "mia_env \<Rightarrow> metadata_ptr \<Rightarrow> PipelinePruner \<Rightarrow> PipelinePruner \<times> string list" where
  "lookForDisableNodes env md pr =
     (case md of
        None \<Rightarrow> (pr, [])
      | Some _ \<Rightarrow>
        let look = lookForDisableNode env pr md;
            ns = nodes (mRawPipeline pr);
            ns' = map (\<lambda>(k, item). (k, fst (look item))) ns;
            disableNodes = map (\<lambda>(k, item). nodeInstance item) (filter (\<lambda>(k, item). snd (look item)) ns)
        in (pr\<lparr>mRawPipeline := (mRawPipeline pr)\<lparr>nodes := ns'\<rparr>\<rparr>, disableNodes))"

subsection \<open>Customisation\<close>

definition sat_like :: "string \<Rightarrow> bool" where
  "sat_like name = (name = ''SatSnapshot'' \<or> name = ''SatSnapshotJpeg'' \<or>
     name = ''thirdpartyjpegsnapshot'' \<or> name = ''thirdpartysnapshot'')"

text \<open>\<open>NULL == data || 0 == *static_cast<uint8_t *>(data)\<close>\<close>

definition off_u8 :: "cmem option \<Rightarrow> bool" where
  "off_u8 data = (case data of None \<Rightarrow> True | Some p \<Rightarrow> read_u8 p = 0)"

definition disablePortSelect :: "mia_env \<Rightarrow> string \<Rightarrow> metadata_ptr \<Rightarrow> port_sets \<Rightarrow> port_sets" where
  "disablePortSelect env name md disablePorts =
     (if sat_like name \<and> off_u8 (vtag env md ''xiaomi.hdr.sr.enabled'' None)
      then dp_insert ''HDRInstance0'' \<lparr>portId = 1, ptype = INPUT\<rparr> disablePorts
      else disablePorts)"

type_synonym bypass_rules = "(string, throughPath list) std_map"

text \<open>
  In the fusion branch the pointer of the first lookup is still in \<open>data\<close> when the second
  one fails.
\<close>

definition nodeBypassRuleSelect ::
  "mia_env \<Rightarrow> string \<Rightarrow> metadata_ptr \<Rightarrow> string \<Rightarrow> bypass_rules \<Rightarrow> port_sets \<Rightarrow>
     bool \<times> bypass_rules \<times> port_sets" where
  "nodeBypassRuleSelect env name md nodeInst rules disablePorts =
     (if sat_like name then
        (if nodeInst = ''HDRInstance0'' then
           (if off_u8 (vtag env md ''xiaomi.hdr.sr.enabled'' None)
            then (True, sm_push ''HDRInstance0'' \<lparr>inputPortId = 0, outputPortId = 0\<rparr> rules,
                  dp_insert ''HDRInstance0'' \<lparr>portId = 1, ptype = INPUT\<rparr> disablePorts)
            else (False, rules, disablePorts))
         else if nodeInst = ''CaptureFusionInstance0'' then
           (let data = vtag env md ''xiaomi.burst.captureHint'' None;
                captureHint = (case data of None \<Rightarrow> 0 | Some p \<Rightarrow> read_i32 p);
                data' = vtag env md ''xiaomi.capturefusion.isFusionOn'' data
            in if off_u8 data' \<or> captureHint = 1
               then (True, sm_push ''CaptureFusionInstance0'' \<lparr>inputPortId = 0, outputPortId = 0\<rparr> rules,
                     dp_insert ''CaptureFusionInstance0'' \<lparr>portId = 1, ptype = INPUT\<rparr> disablePorts)
               else (False, rules, disablePorts))
         else (False, rules, disablePorts))
      else (False, rules, disablePorts))"

definition resetNodeMask :: "mia_env \<Rightarrow> metadata_ptr \<Rightarrow> string \<Rightarrow> PipelineInfo \<Rightarrow> PipelineInfo" where
  "resetNodeMask env md inst pipeline =
     (if contains inst ''SrInstance1'' then
        (case vtag env md ''xiaomi.capturefusion.isFusionOn'' None of
           None \<Rightarrow> pipeline
         | Some p \<Rightarrow>
             (if read_u8 p = 1 then
                (case sm_find (nodes pipeline) ''SrInstance1'' of
                   None \<Rightarrow> pipeline
                 | Some item \<Rightarrow>
                     pipeline\<lparr>nodes := sm_set ''SrInstance1'' (item\<lparr>nodeMask := nodeMask item XOR 4\<rparr>)
                                        (nodes pipeline)\<rparr>)
              else pipeline))
      else pipeline)"

definition disablePortSelect_MTK :: "mia_env \<Rightarrow> string \<Rightarrow> metadata_ptr \<Rightarrow> port_sets \<Rightarrow> port_sets" where
  "disablePortSelect_MTK env name md disablePorts =
     (let ainrEnable = (case tag md 0x800B000E None of
                          None \<Rightarrow> False
                        | Some p \<Rightarrow> read_i32 p = 2 \<or> read_i32 p = 5 \<or> read_i32 p = 6);
          hdrEnable = flag_u8 env md ''xiaomi.hdr.enabled'' \<noteq> 0;
          hdrSrEnable = flag_u8 env md ''xiaomi.hdr.sr.enabled'' \<noteq> 0;
          mfnr = (\<lambda>m. if ainrEnable then m else dp_insert ''MfnrInstance'' \<lparr>portId = 1, ptype = INPUT\<rparr> m)
      in if name = ''DualBokehSnapshot'' then
           (if hdrEnable then disablePorts
            else dp_insert ''CapbokehInstance'' \<lparr>portId = 3, ptype = INPUT\<rparr>
                   (dp_insert ''CapbokehInstance'' \<lparr>portId = 2, ptype = INPUT\<rparr> disablePorts))
         else if name = ''FrontBokehSnapshot'' then mfnr disablePorts
         else if name = ''ManualSnapshot'' \<or> name = ''FrontSuperNightSnapshot'' \<or> name = ''SuperHdSnapshot''
           then mfnr disablePorts
         else if name = ''SatSnapshot'' \<or> name = ''FrontSingleSnapshot'' then
           (let m = mfnr disablePorts
            in if \<not> hdrEnable \<and> \<not> hdrSrEnable
               then dp_insert ''HdrInstance'' \<lparr>portId = 2, ptype = INPUT\<rparr> m else m)
         else disablePorts)"

definition nodeBypassRuleSelect_MTK ::
  "mia_env \<Rightarrow> string \<Rightarrow> metadata_ptr \<Rightarrow> string \<Rightarrow> bypass_rules \<Rightarrow> port_sets \<Rightarrow>
     bool \<times> bypass_rules \<times> port_sets" where
  "nodeBypassRuleSelect_MTK env name md nodeInst rules disablePorts = (False, rules, disablePorts)"

text \<open>
  The loop over the disabled nodes: a node with a customised rule contributes to the rules,
  the others are collected as normally disabled.
\<close>

fun selectBypassRules ::
  "mia_env \<Rightarrow> string \<Rightarrow> metadata_ptr \<Rightarrow> string list \<Rightarrow> bypass_rules \<times> port_sets \<times> string list \<Rightarrow>
     bypass_rules \<times> port_sets \<times> string list" where
  "selectBypassRules env name md [] acc = acc"
| "selectBypassRules env name md (n # ns) (rules, ports, normal) =
     (let (haveMatch, rules', ports') =
            (if Soc env = QCOM then nodeBypassRuleSelect env name md n rules ports
             else nodeBypassRuleSelect_MTK env name md n rules ports)
      in selectBypassRules env name md ns (rules', ports', if haveMatch then normal else normal @ [n]))"

text \<open>The \<open>DualBokehSnapshot\<close> work-around; \<open>data\<close> is not reset between its two lookups.\<close>

definition dualBokehWorkaround ::
  "mia_env \<Rightarrow> string \<Rightarrow> metadata_ptr \<Rightarrow> bypass_rules \<times> port_sets \<Rightarrow> bypass_rules \<times> port_sets" where
  "dualBokehWorkaround env name md acc =
     (case acc of (rules, ports) \<Rightarrow>
       if Soc env = QCOM \<and> name = ''DualBokehSnapshot'' then
         (let data = vtag env md ''xiaomi.bokeh.MDMode'' None;
              mdmode = (case data of None \<Rightarrow> 0 | Some p \<Rightarrow> read_u32 p);
              data' = vtag env md ''xiaomi.bokeh.superNightEnabled'' data;
              superNightEnabled = (case data' of None \<Rightarrow> 0 | Some p \<Rightarrow> read_u8 p)
          in if mdmode \<noteq> 0 then
               (let rules1 = sm_push ''virtualSinkbuffer2'' \<lparr>inputPortId = 2, outputPortId = 0\<rparr> rules;
                    rules2 = (if superNightEnabled \<noteq> 0
                              then sm_push ''MemcpyInstance0'' \<lparr>inputPortId = 0, outputPortId = 0\<rparr> rules1
                              else sm_push ''BayerRaw2YuvInstance1'' \<lparr>inputPortId = 0, outputPortId = 0\<rparr> rules1)
                in (rules2, dp_insert ''CapbokehInstance0'' \<lparr>portId = 1, ptype = OUTPUT\<rparr> ports))
             else (rules, dp_insert ''SourceBuffer2'' \<lparr>portId = 2, ptype = OUTPUT\<rparr> ports))
       else (rules, ports))"

subsection \<open>The reuse key\<close>

fun nat_digits :: "nat \<Rightarrow> string" where
  "nat_digits n = (if n < 10 then [char_of (48 + n)]
                   else nat_digits (n div 10) @ [char_of (48 + n mod 10)])"

declare nat_digits.simps [simp del]

definition to_string :: "int \<Rightarrow> string" where
  "to_string i = (if i < 0 then CHR ''-'' # nat_digits (nat (- i)) else nat_digits (nat i))"

definition disablePort_toString :: "disablePort \<Rightarrow> string" where
  "disablePort_toString p = to_string (portId p) @ to_string (case ptype p of INPUT \<Rightarrow> 0 | OUTPUT \<Rightarrow> 1)"

definition throughPath_toString :: "throughPath \<Rightarrow> string" where
  "throughPath_toString t = to_string (inputPortId t) @ to_string (outputPortId t)"

definition pruneResultReuseKey :: "string \<Rightarrow> port_sets \<Rightarrow> bypass_rules \<Rightarrow> string list \<Rightarrow> string" where
  "pruneResultReuseKey name ports rules normal =
     name @ concat (map (\<lambda>(n, ps). n @ concat (map disablePort_toString ps)) ports)
          @ concat (map (\<lambda>(n, ts). n @ concat (map throughPath_toString ts)) rules)
          @ concat normal"

definition pipelineReuse :: "PipelinePruner \<Rightarrow> string \<Rightarrow> PipelineInfo option" where
  "pipelineReuse pr key = sm_find (mPrunedResult pr) key"

subsection \<open>Link types and bridges\<close>

definition linkTypeOf :: "LinkItem \<Rightarrow> LinkType" where
  "linkTypeOf l = (if contains (srcNodeInstance l) ''SourceBuffer'' then SourceLink
                   else if contains (dstNodeInstance l) ''SinkBuffer'' then SinkLink
                   else InternalLink)"

text \<open>The loop that sets \<open>link.type\<close> and calls \<open>resetNodeMask\<close> for the link's target.\<close>

definition setLinkType :: "mia_env \<Rightarrow> metadata_ptr \<Rightarrow> nat \<Rightarrow> PipelineInfo \<Rightarrow> PipelineInfo" where
  "setLinkType env md i pipeline =
     (let l = links pipeline ! i
      in resetNodeMask env md (dstNodeInstance l)
           (pipeline\<lparr>links := (links pipeline)[i := l\<lparr>linkType := linkTypeOf l\<rparr>]\<rparr>))"

definition setLinkTypes :: "mia_env \<Rightarrow> metadata_ptr \<Rightarrow> PipelineInfo \<Rightarrow> PipelineInfo" where
  "setLinkTypes env md pipeline = fold (setLinkType env md) [0..<length (links pipeline)] pipeline"

definition newMemcpyInstance :: string where
  "newMemcpyInstance = ''newMemcpyInstance''"

definition bridgeLink :: "LinkItem \<Rightarrow> LinkType \<Rightarrow> LinkItem \<times> LinkItem list" where
  "bridgeLink l ty =
     (l\<lparr>dstNodeInstance := newMemcpyInstance, dstNodePortId := 0\<rparr>,
      [\<lparr>srcNodePortId = 0, srcNodeInstance = newMemcpyInstance, srcPortFormat = CAM_FORMAT_UNDEFINED,
        dstNodePortId = dstNodePortId l, dstNodeInstance = dstNodeInstance l,
        dstPortFormat = [CAM_FORMAT_UNDEFINED], linkType = ty\<rparr>])"

definition is_virtual :: "(string, NodeItem) std_map \<Rightarrow> string \<Rightarrow> bool outcome" where
  "is_virtual ns n = bindE (sm_at ns n) (\<lambda>item. Inr (has_mode (nodeMask item) VIRTUAL_MODE))"

definition bridgeOne :: "(string, NodeItem) std_map \<Rightarrow> LinkItem \<Rightarrow> (LinkItem \<times> LinkItem list) outcome" where
  "bridgeOne ns l =
     (let fromSource = contains (srcNodeInstance l) ''SourceBuffer''
      in if contains (dstNodeInstance l) ''SinkBuffer'' then
           (if fromSource then Inr (bridgeLink l SinkLink)
            else bindE (is_virtual ns (srcNodeInstance l)) (\<lambda>v.
                   Inr (if v then bridgeLink l SinkLink else (l, []))))
         else
           bindE (is_virtual ns (dstNodeInstance l)) (\<lambda>dv.
             if dv \<and> \<not> fromSource
             then bindE (is_virtual ns (srcNodeInstance l)) (\<lambda>sv.
                    Inr (if sv then bridgeLink l (linkType l) else (l, [])))
             else Inr (l, [])))"

fun bridgeLinks :: "(string, NodeItem) std_map \<Rightarrow> LinkItem list \<Rightarrow> (LinkItem list \<times> LinkItem list) outcome" where
  "bridgeLinks ns [] = Inr ([], [])"
| "bridgeLinks ns (l # ls) =
     bindE (bridgeOne ns l) (\<lambda>(l', new).
     bindE (bridgeLinks ns ls) (\<lambda>(ls', news). Inr (l' # ls', new @ news)))"

text \<open>\<open>neededBridgeLinks\<close> is popped from its back, so the bridges are appended in reverse.\<close>

definition addBridges :: "PipelineInfo \<Rightarrow> PipelineInfo outcome" where
  "addBridges pipeline =
     bindE (bridgeLinks (nodes pipeline) (links pipeline)) (\<lambda>(ls, news).
       Inr (pipeline\<lparr>links := ls @ rev news\<rparr>))"

subsection \<open>The link checker\<close>

text \<open>
  \<open>checkLinkInformation\<close> recurses towards the sources.  The loop over the input links of one
  node is \<open>checkInputs\<close>, with the recursive call as its first argument; \<open>fuel\<close> bounds the
  depth.  \<open>sourcePortVisited\<close> is a set of which only the size is used.
\<close>

type_synonym visit = "bool \<times> string list"

definition formatMismatch :: "LinkItem \<Rightarrow> bool outcome" where
  "formatMismatch l =
     (if srcPortFormat l \<in> set (dstPortFormat l) then Inr False
      else if srcPortFormat l = CAM_FORMAT_UNDEFINED then Inr False
      else bindE (vec_get (dstPortFormat l) 0) (\<lambda>f. Inr (f \<noteq> CAM_FORMAT_UNDEFINED)))"

fun checkInputs ::
  "(string \<Rightarrow> string list \<Rightarrow> visit outcome) \<Rightarrow> LinkItem list \<Rightarrow> nat list \<Rightarrow> visit \<Rightarrow> visit outcome" where
  "checkInputs rec ls [] acc = Inr acc"
| "checkInputs rec ls (i # is) (findSourceLink, visited) =
     bindE (vec_get ls i) (\<lambda>l.
       if linkType l = SourceLink
       then checkInputs rec ls is
              (True, List.insert (srcNodeInstance l @ to_string (srcNodePortId l)) visited)
       else bindE (formatMismatch l) (\<lambda>bad.
              if bad then Inr (False, visited)
              else bindE (rec (srcNodeInstance l) visited) (checkInputs rec ls is)))"

fun checkLinkInformation ::
  "nat \<Rightarrow> link_map \<Rightarrow> LinkItem list \<Rightarrow> string \<Rightarrow> string list \<Rightarrow> visit outcome" where
  "checkLinkInformation 0 m ls dst visited = Inl NoReturn"
| "checkLinkInformation (Suc fuel) m ls dst visited =
     bindE (sm_at m dst) (\<lambda>idx.
       checkInputs (checkLinkInformation fuel m ls) ls idx (False, visited))"

text \<open>
  The first loop of \<open>checkPipelineLink\<close>.  The function works on its own copy of the
  pipeline; the nodes it adds to that copy are never read.
\<close>

record check_st =
  cLinks :: "LinkItem list"
  portConfigureFormat :: bool
  sourcePortNumber :: nat
  sinkPortNumber :: nat
  sinkLinks :: "(string, nat) std_map"
  allInputLinkMap :: link_map

definition checkScan :: "u32 list \<Rightarrow> nat \<Rightarrow> check_st \<Rightarrow> check_st outcome" where
  "checkScan sinkBufferFormat i st =
     (let l = cLinks st ! i in
      bindE (if portConfigureFormat st then Inr True
             else bindE (vec_get (dstPortFormat l) 0) (\<lambda>f.
                    Inr (f \<noteq> CAM_FORMAT_UNDEFINED \<or> srcPortFormat l \<noteq> CAM_FORMAT_UNDEFINED))) (\<lambda>conf.
      let st1 = st\<lparr>portConfigureFormat := conf,
                   sourcePortNumber := sourcePortNumber st + (if linkType l = SourceLink then 1 else 0)\<rparr> in
      bindE (if linkType l = SinkLink then
               bindE (vec_get sinkBufferFormat (sinkPortNumber st1)) (\<lambda>f.
               bindE (vec_get (dstPortFormat l) 0) (\<lambda>_.
                 Inr (st1\<lparr>sinkLinks := sm_set (dstNodeInstance l) i (sinkLinks st1),
                          cLinks := (cLinks st1)[i := l\<lparr>dstPortFormat := (dstPortFormat l)[0 := f]\<rparr>],
                          sinkPortNumber := Suc (sinkPortNumber st1)\<rparr>)))
             else Inr st1) (\<lambda>st2.
        Inr (st2\<lparr>allInputLinkMap := sm_push (dstNodeInstance l) i (allInputLinkMap st2)\<rparr>))))"

fun checkScanAll :: "u32 list \<Rightarrow> nat list \<Rightarrow> check_st \<Rightarrow> check_st outcome" where
  "checkScanAll fmts [] st = Inr st"
| "checkScanAll fmts (i # is) st = bindE (checkScan fmts i st) (checkScanAll fmts is)"

fun checkSinks :: "u32 \<Rightarrow> check_st \<Rightarrow> string list \<Rightarrow> bool outcome" where
  "checkSinks firstFormat st [] = Inr True"
| "checkSinks firstFormat st (inst # rest) =
     bindE (vec_get (sm_index [] (allInputLinkMap st) inst) 0) (\<lambda>idx.
     bindE (vec_get (cLinks st) idx) (\<lambda>pl.
     bindE (checkLinkInformation (Suc (length (cLinks st))) (allInputLinkMap st) (cLinks st)
              (dstNodeInstance pl) []) (\<lambda>(ok, visited).
       if \<not> ok then Inr False
       else bindE (if portConfigureFormat st then Inr False
                   else bindE (vec_get (dstPortFormat pl) 0) (\<lambda>f. Inr (firstFormat \<noteq> f))) (\<lambda>bad.
              if bad then Inr False
              else if length visited \<noteq> sourcePortNumber st then Inr False
              else checkSinks firstFormat st rest))))"

definition checkPipelineLink :: "PipelineInfo \<Rightarrow> u32 \<Rightarrow> u32 list \<Rightarrow> bool outcome" where
  "checkPipelineLink pipeline firstFrameInputFormat sinkBufferFormat =
     bindE (checkScanAll sinkBufferFormat [0..<length (links pipeline)]
              \<lparr>cLinks = links pipeline, portConfigureFormat = False, sourcePortNumber = 0,
               sinkPortNumber = 0, sinkLinks = [], allInputLinkMap = []\<rparr>) (\<lambda>st.
       checkSinks firstFrameInputFormat st (map fst (sinkLinks st)))"

subsection \<open>\<open>rebuildLinks\<close>\<close>

text \<open>What a request disables: the arguments of the two pruning functions and the reuse key.\<close>

definition pruneRequest ::
  "mia_env \<Rightarrow> metadata_ptr \<Rightarrow> PipelinePruner \<Rightarrow> port_sets \<times> bypass_rules \<times> string list" where
  "pruneRequest env md pr =
     (let disableNodes = snd (lookForDisableNodes env md pr);
          name = pipelineName (mRawPipeline pr);
          ports0 = (if Soc env = QCOM then disablePortSelect env name md []
                    else disablePortSelect_MTK env name md []);
          (rules1, ports1, normal) = selectBypassRules env name md disableNodes ([], ports0, []);
          (rules2, ports2) = dualBokehWorkaround env name md (rules1, ports1)
      in (ports2, rules2, normal))"

text \<open>
  The statements after a cache miss, up to the link check.  The format of a sink buffer is
  all the check reads of \<open>sinkBufferFormat\<close>.
\<close>

definition pruneNow ::
  "mia_env \<Rightarrow> metadata_ptr \<Rightarrow> PipelineInfo \<Rightarrow> port_sets \<times> bypass_rules \<times> string list \<Rightarrow>
     PipelineInfo outcome" where
  "pruneNow env md raw req =
     (case req of (ports, rules, normal) \<Rightarrow>
        bindE (pipelinePortPrune ports raw) (\<lambda>p1.
        bindE (pipelineNodePrune rules normal p1) (\<lambda>p2.
          addBridges (setLinkTypes env md p2))))"

definition rebuildLinks ::
  "mia_env \<Rightarrow> metadata_ptr \<Rightarrow> u32 \<Rightarrow> u32 list \<Rightarrow> PipelinePruner \<Rightarrow>
     (bool \<times> PipelineInfo \<times> PipelinePruner) outcome" where
  "rebuildLinks env md firstFrameInputFormat sinkBufferFormat pr =
     (let pr1 = fst (lookForDisableNodes env md pr);
          req = pruneRequest env md pr;
          key = (case req of (ports, rules, normal) \<Rightarrow>
                   pruneResultReuseKey (pipelineName (mRawPipeline pr)) ports rules normal)
      in case pipelineReuse pr1 key of
           Some pipeline \<Rightarrow> Inr (True, pipeline, pr1)
         | None \<Rightarrow>
             bindE (pruneNow env md (mRawPipeline pr1) req) (\<lambda>pipeline.
             bindE (if OpenPrunerAbnormalDump env
                    then checkPipelineLink pipeline firstFrameInputFormat sinkBufferFormat
                    else Inr True) (\<lambda>rebuildResult.
               Inr (rebuildResult, pipeline,
                    if rebuildResult
                    then pr1\<lparr>mPrunedResult := sm_set key pipeline (mPrunedResult pr1)\<rparr>
                    else pr1))))"

subsection \<open>Disabled nodes\<close>

lemma rawMoveUpDisables_isEnable [simp]:
  "rawMoveUpDisables env md (item\<lparr>isEnable := b\<rparr>) = rawMoveUpDisables env md item"
  by (simp add: rawMoveUpDisables_def)

text \<open>
  When a node survives: its plugin says so, no burst hint, no raw-move-up rule and no debug
  mask excludes it.  The previous \<open>isEnable\<close> plays no role.
\<close>

definition request_enables :: "mia_env \<Rightarrow> PipelinePruner \<Rightarrow> metadata_ptr \<Rightarrow> NodeItem \<Rightarrow> bool" where
  "request_enables env pr md item \<longleftrightarrow>
     checkNodeEnable pr (nodeInstance item) md \<and>
     ((case vtag env md ''xiaomi.burst.captureHint'' None of None \<Rightarrow> 0 | Some p \<Rightarrow> read_i32 p) \<noteq> 0
        \<longrightarrow> nodeName item \<in> {''com.xiaomi.plugin.ldc'', ''com.xiaomi.plugin.offlinepostproc'',
                             ''com.xiaomi.plugin.swjpegencode''}) \<and>
     (Soc env = QCOM \<longrightarrow> \<not> rawMoveUpDisables env md item) \<and>
     \<not> needDisablePlugin pr (nodeName item)"

lemma lookForDisableNode_eq:
  "lookForDisableNode env pr md item =
     (item\<lparr>isEnable := request_enables env pr md item\<rparr>, \<not> request_enables env pr md item)"
  by (simp add: lookForDisableNode_def lookForDisableNodesForRawMoveUp_def request_enables_def Let_def)

lemma request_enables_upd [simp]:
  "request_enables env (pr\<lparr>mRawPipeline := p\<rparr>) md item = request_enables env pr md item"
  "request_enables env (pr\<lparr>mPrunedResult := c\<rparr>) md item = request_enables env pr md item"
  "request_enables env pr md (item\<lparr>isEnable := b\<rparr>) = request_enables env pr md item"
  by (simp_all add: request_enables_def checkNodeEnable_def needDisablePlugin_def cong: option.case_cong)

definition mark_enabled :: "mia_env \<Rightarrow> PipelinePruner \<Rightarrow> metadata_ptr \<Rightarrow> string \<times> NodeItem \<Rightarrow> string \<times> NodeItem" where
  "mark_enabled env pr md kv = (fst kv, (snd kv)\<lparr>isEnable := request_enables env pr md (snd kv)\<rparr>)"

lemma lookForDisableNodes_eq:
  assumes "md \<noteq> None"
  shows "lookForDisableNodes env md pr =
    (pr\<lparr>mRawPipeline := (mRawPipeline pr)\<lparr>nodes := map (mark_enabled env pr md) (nodes (mRawPipeline pr))\<rparr>\<rparr>,
     map (\<lambda>kv. nodeInstance (snd kv))
       (filter (\<lambda>kv. \<not> request_enables env pr md (snd kv)) (nodes (mRawPipeline pr))))"
proof -
  have "(\<lambda>(k, item). (k, fst (lookForDisableNode env pr md item))) = mark_enabled env pr md"
    "(\<lambda>(k::string, item). snd (lookForDisableNode env pr md item)) = (\<lambda>kv. \<not> request_enables env pr md (snd kv))"
    "(\<lambda>(k::string, item::NodeItem). nodeInstance item) = (\<lambda>kv. nodeInstance (snd kv))"
    by (simp_all add: fun_eq_iff mark_enabled_def lookForDisableNode_eq)
  then show ?thesis using assms by (auto simp only: lookForDisableNodes_def Let_def not_None_eq option.case)
qed

lemma lookForDisableNodes_None: "lookForDisableNodes env None pr = (pr, [])"
  by (simp add: lookForDisableNodes_def)

lemma mark_enabled_upd [simp]:
  "mark_enabled env (pr\<lparr>mRawPipeline := p\<rparr>) md = mark_enabled env pr md"
  "mark_enabled env (pr\<lparr>mPrunedResult := c\<rparr>) md = mark_enabled env pr md"
  by (simp_all add: fun_eq_iff mark_enabled_def)

lemma mark_enabled_simps [simp]:
  "mark_enabled env pr md (mark_enabled env pr md kv) = mark_enabled env pr md kv"
  "request_enables env pr md (snd (mark_enabled env pr md kv)) = request_enables env pr md (snd kv)"
  "nodeInstance (snd (mark_enabled env pr md kv)) = nodeInstance (snd kv)"
  "isEnable (snd (mark_enabled env pr md kv)) = request_enables env pr md (snd kv)"
  by (simp_all add: mark_enabled_def)

lemma lookForDisableNodes_again:
  "lookForDisableNodes env md ((fst (lookForDisableNodes env md pr))\<lparr>mPrunedResult := c\<rparr>) =
     ((fst (lookForDisableNodes env md pr))\<lparr>mPrunedResult := c\<rparr>, snd (lookForDisableNodes env md pr))"
proof (cases "md = None")
  case True
  then show ?thesis by (simp add: lookForDisableNodes_def)
next
  case False
  then show ?thesis by (simp add: lookForDisableNodes_eq filter_map comp_def)
qed

lemma lookForDisableNodes_frame [simp]:
  "mPrunedResult (fst (lookForDisableNodes env md pr)) = mPrunedResult pr"
  "pipelineName (mRawPipeline (fst (lookForDisableNodes env md pr))) = pipelineName (mRawPipeline pr)"
  "links (mRawPipeline (fst (lookForDisableNodes env md pr))) = links (mRawPipeline pr)"
  by (cases "md = None"; simp add: lookForDisableNodes_None lookForDisableNodes_eq)+

lemma prunedResult_same: "mPrunedResult pr = c \<Longrightarrow> pr\<lparr>mPrunedResult := c\<rparr> = pr"
  by (cases pr) simp

lemmas lookForDisableNodes_self =
  lookForDisableNodes_again [where c = "mPrunedResult pr" and pr = pr for pr,
    unfolded prunedResult_same [OF lookForDisableNodes_frame(1)]]

subsection \<open>The cache\<close>

lemma pruneRequest_again:
  "pruneRequest env md ((fst (lookForDisableNodes env md pr))\<lparr>mPrunedResult := c\<rparr>) = pruneRequest env md pr"
  by (simp add: pruneRequest_def lookForDisableNodes_again)

definition requestKey :: "mia_env \<Rightarrow> metadata_ptr \<Rightarrow> PipelinePruner \<Rightarrow> string" where
  "requestKey env md pr = (case pruneRequest env md pr of (ports, rules, normal) \<Rightarrow>
     pruneResultReuseKey (pipelineName (mRawPipeline pr)) ports rules normal)"

text \<open>The three ways \<open>rebuildLinks\<close> can return.\<close>

lemma rebuildLinks_cases:
  assumes "rebuildLinks env md f s pr = Inr (ok, p, pr')"
  obtains (Reused) "sm_find (mPrunedResult pr) (requestKey env md pr) = Some p" "ok"
      "pr' = fst (lookForDisableNodes env md pr)"
  | (Pruned) "sm_find (mPrunedResult pr) (requestKey env md pr) = None" "ok"
      "pruneNow env md (mRawPipeline (fst (lookForDisableNodes env md pr))) (pruneRequest env md pr) = Inr p"
      "pr' = (fst (lookForDisableNodes env md pr))
               \<lparr>mPrunedResult := sm_set (requestKey env md pr) p (mPrunedResult pr)\<rparr>"
  | (Rejected) "\<not> ok" "pr' = fst (lookForDisableNodes env md pr)"
  using assms unfolding rebuildLinks_def requestKey_def [symmetric] Let_def pipelineReuse_def
  by (auto simp: bindE_eq_Inr split: option.splits if_splits)

lemma rebuildLinks_hit:
  assumes "sm_find (mPrunedResult pr) (requestKey env md pr) = Some p"
  shows "rebuildLinks env md f s pr = Inr (True, p, fst (lookForDisableNodes env md pr))"
  using assms unfolding rebuildLinks_def requestKey_def [symmetric] Let_def pipelineReuse_def by simp

lemma requestKey_again:
  "requestKey env md ((fst (lookForDisableNodes env md pr))\<lparr>mPrunedResult := c\<rparr>) = requestKey env md pr"
  by (simp add: requestKey_def pruneRequest_again)

lemma rebuildLinks_repeat:
  assumes "rebuildLinks env md f s pr = Inr (True, p, pr')"
  shows "rebuildLinks env md f' s' pr' = Inr (True, p, pr')"
  using assms
proof (cases rule: rebuildLinks_cases)
  case Reused
  note again = requestKey_again [where c = "mPrunedResult pr" and pr = pr, unfolded prunedResult_same [OF lookForDisableNodes_frame(1)]]
  show ?thesis using Reused by (simp add: rebuildLinks_hit again lookForDisableNodes_self)
next
  case Pruned
  then show ?thesis by (simp add: rebuildLinks_hit requestKey_again lookForDisableNodes_again)
qed simp

end
