(* ===== verification/Samples.thy ===== *)
theory Samples
  imports PipelineTypes
begin

text \<open>
  A small capture pipeline, on which the theorems are instantiated: two source ports feed
  the HDR node, a beautifier follows, and one sink takes the result.
\<close>

definition mk_link :: "string \<Rightarrow> int \<Rightarrow> string \<Rightarrow> int \<Rightarrow> LinkItem" where
  "mk_link s sp d dp =
     \<lparr>srcNodePortId = sp, srcNodeInstance = s, srcPortFormat = CAM_FORMAT_UNDEFINED,
      dstNodePortId = dp, dstNodeInstance = d, dstPortFormat = [CAM_FORMAT_UNDEFINED],
      linkType = SourceLink\<rparr>"

definition mk_node :: "string \<Rightarrow> string \<Rightarrow> u32 \<Rightarrow> NodeItem" where
  "mk_node name inst m =
     \<lparr>nodeName = name, nodeInstance = inst, nodeMask = m, outputBufferNeedCheck = True,
      isEnable = True, outputType = OneBuffer\<rparr>"

definition sample_links :: "LinkItem list" where
  "sample_links =
     [mk_link ''SourceBuffer0'' 0 ''HDRInstance0'' 0,
      mk_link ''SourceBuffer1'' 1 ''HDRInstance0'' 1,
      mk_link ''HDRInstance0'' 0 ''SkinInstance0'' 0,
      mk_link ''SkinInstance0'' 0 ''SinkBuffer0'' 0]"

definition sample_pipeline :: PipelineInfo where
  "sample_pipeline =
     \<lparr>pipelineName = ''SatSnapshot'',
      nodes = [(''HDRInstance0'', mk_node ''com.xiaomi.plugin.hdr'' ''HDRInstance0'' 0),
               (''SkinInstance0'', mk_node ''com.xiaomi.plugin.skinbeautifier'' ''SkinInstance0'' 0)],
      links = sample_links\<rparr>"

lemma acyclic_links_rank:
  fixes rank :: "string \<Rightarrow> nat"
  assumes "\<forall>l \<in> set ls. rank (srcNodeInstance l) < rank (dstNodeInstance l)"
  shows "acyclic_links ls"
proof -
  have "link_edges ls \<subseteq> measure rank" using assms by (auto simp: link_edges_def)
  then show ?thesis unfolding acyclic_links_def by (meson acyclic_subset wf_acyclic wf_measure)
qed

lemma sample_acyclic: "acyclic_links (links sample_pipeline)"
  by (rule acyclic_links_rank [where rank = "\<lambda>n. if n = ''HDRInstance0'' then 1 else if n = ''SkinInstance0'' then 2
        else if n = ''SinkBuffer0'' then 3 else 0"])
    (simp add: sample_pipeline_def sample_links_def mk_link_def)

end
