(* ===== verification/PrunerCorrect.thy ===== *)
theory PrunerCorrect
  imports Pruner Samples
begin

text \<open>
  What a rebuilt pipeline looks like: no buffer-to-buffer shortcut is left after the bridges,
  every link has the type its end points call for, \<open>rebuildLinks\<close> does not fault on an
  acyclic configuration, the link checker terminates, and the cache only ever hands out
  pipelines with these properties.
\<close>

subsection \<open>Bridges\<close>

definition node_virtual :: "(string, NodeItem) std_map \<Rightarrow> string \<Rightarrow> bool" where
  "node_virtual ns n = (case sm_find ns n of None \<Rightarrow> False | Some item \<Rightarrow> has_mode (nodeMask item) VIRTUAL_MODE)"

text \<open>A link that would hand a buffer through without any node copying it.\<close>

definition shortcut :: "(string, NodeItem) std_map \<Rightarrow> LinkItem \<Rightarrow> bool" where
  "shortcut ns l =
     (if contains (dstNodeInstance l) ''SinkBuffer''
      then contains (srcNodeInstance l) ''SourceBuffer'' \<or> node_virtual ns (srcNodeInstance l)
      else \<not> contains (srcNodeInstance l) ''SourceBuffer'' \<and>
           node_virtual ns (srcNodeInstance l) \<and> node_virtual ns (dstNodeInstance l))"

text \<open>Where a link ends that is not known to the map of nodes, \<open>at\<close> throws.\<close>

definition link_known :: "(string, NodeItem) std_map \<Rightarrow> LinkItem \<Rightarrow> bool" where
  "link_known ns l \<longleftrightarrow>
     (contains (srcNodeInstance l) ''SourceBuffer'' \<or> sm_find ns (srcNodeInstance l) \<noteq> None) \<and>
     (contains (dstNodeInstance l) ''SinkBuffer'' \<or> sm_find ns (dstNodeInstance l) \<noteq> None)"

lemma is_virtual_Inr:
  "is_virtual ns n = Inr v \<longleftrightarrow> sm_find ns n \<noteq> None \<and> v = node_virtual ns n"
  by (auto simp: is_virtual_def node_virtual_def bindE_eq_Inr sm_at_Inr)

lemma is_virtual_known: "sm_find ns n \<noteq> None \<Longrightarrow> is_virtual ns n = Inr (node_virtual ns n)"
  by (simp add: is_virtual_Inr)

lemma bridgeOne_known:
  assumes "link_known ns l"
  shows "bridgeOne ns l =
    Inr (if shortcut ns l
         then bridgeLink l (if contains (dstNodeInstance l) ''SinkBuffer'' then SinkLink else linkType l)
         else (l, []))"
  using assms by (auto simp: bridgeOne_def shortcut_def link_known_def is_virtual_known Let_def)

definition bridgedPair :: "(string, NodeItem) std_map \<Rightarrow> LinkItem \<Rightarrow> LinkItem \<times> LinkItem list" where
  "bridgedPair ns l =
     (if shortcut ns l
      then bridgeLink l (if contains (dstNodeInstance l) ''SinkBuffer'' then SinkLink else linkType l)
      else (l, []))"

lemma bridgeLinks_known:
  "\<forall>l \<in> set ls. link_known ns l \<Longrightarrow>
     bridgeLinks ns ls = Inr (map (fst \<circ> bridgedPair ns) ls, concat (map (snd \<circ> bridgedPair ns) ls))"
proof (induction ls)
  case (Cons l ls)
  then show ?case
    by (cases "bridgedPair ns l") (simp add: bridgeOne_known bridgedPair_def [symmetric])
qed simp

lemma addBridges_known:
  assumes "\<forall>l \<in> set (links p). link_known (nodes p) l"
  shows "addBridges p = Inr (p\<lparr>links := map (fst \<circ> bridgedPair (nodes p)) (links p) @
                                  rev (concat (map (snd \<circ> bridgedPair (nodes p)) (links p)))\<rparr>)"
  using assms by (simp add: addBridges_def bridgeLinks_known)

lemma newMemcpy_contains [simp]:
  "\<not> contains newMemcpyInstance ''SourceBuffer''" "\<not> contains newMemcpyInstance ''SinkBuffer''"
  by (code_simp)+

lemma bridgedPair_no_shortcut:
  assumes "\<not> node_virtual ns newMemcpyInstance"
  shows "\<not> shortcut ns (fst (bridgedPair ns l))" and "l' \<in> set (snd (bridgedPair ns l)) \<Longrightarrow> \<not> shortcut ns l'"
  using assms
  by (auto simp: bridgedPair_def bridgeLink_def shortcut_def split: if_splits)

text \<open>Every link into a sink buffer is typed as a sink link, unless it leaves a source buffer.\<close>

definition typed :: "LinkItem \<Rightarrow> bool" where
  "typed l \<longleftrightarrow> linkType l = linkTypeOf l"

lemma bridgedPair_typed:
  assumes "typed l" and "sm_find ns newMemcpyInstance = None"
  shows "typed (fst (bridgedPair ns l)) \<or> linkType l = SinkLink"
    and "l' \<in> set (snd (bridgedPair ns l)) \<Longrightarrow> typed l'"
  using assms
  by (auto simp: bridgedPair_def bridgeLink_def typed_def linkTypeOf_def shortcut_def split: if_splits)

subsection \<open>Link types and the scale mask of the fusion node\<close>

definition fusionOn :: "mia_env \<Rightarrow> metadata_ptr \<Rightarrow> bool" where
  "fusionOn env md = (case vtag env md ''xiaomi.capturefusion.isFusionOn'' None of
     None \<Rightarrow> False | Some p \<Rightarrow> read_u8 p = 1)"

definition into_sr :: "LinkItem \<Rightarrow> bool" where
  "into_sr l = contains (dstNodeInstance l) ''SrInstance1''"

definition retype :: "LinkItem \<Rightarrow> LinkItem" where
  "retype l = l\<lparr>linkType := linkTypeOf l\<rparr>"

lemma resetNodeMask_frame [simp]:
  "links (resetNodeMask env md n p) = links p" "pipelineName (resetNodeMask env md n p) = pipelineName p"
  by (simp_all add: resetNodeMask_def split: option.splits)

lemma resetNodeMask_find:
  "sm_find (nodes (resetNodeMask env md n p)) k =
     map_option (\<lambda>item. if k = ''SrInstance1'' \<and> fusionOn env md \<and> contains n ''SrInstance1''
                        then item\<lparr>nodeMask := nodeMask item XOR SCALE_MODE\<rparr> else item) (sm_find (nodes p) k)"
  by (cases "sm_find (nodes p) k") (auto simp: resetNodeMask_def fusionOn_def split: option.splits)

lemma setLinkType_links:
  assumes "i < length (links p)"
  shows "links (setLinkType env md i p) = (links p)[i := retype (links p ! i)]"
  by (simp add: setLinkType_def retype_def Let_def)

lemma setLinkType_find:
  "sm_find (nodes (setLinkType env md i p)) k =
     map_option (\<lambda>item. if k = ''SrInstance1'' \<and> fusionOn env md \<and> into_sr (links p ! i)
                        then item\<lparr>nodeMask := nodeMask item XOR SCALE_MODE\<rparr> else item) (sm_find (nodes p) k)"
  by (simp add: setLinkType_def Let_def resetNodeMask_find into_sr_def)

lemma into_sr_retype [simp]: "into_sr (retype l) = into_sr l"
  by (simp add: into_sr_def retype_def)

lemma setLinkTypes_prefix_links:
  assumes "n \<le> length (links p)"
  shows "links (fold (setLinkType env md) [0..<n] p) = map retype (take n (links p)) @ drop n (links p)"
  using assms
proof (induction n)
  case (Suc n)
  then have "take (Suc n) (links p) = take n (links p) @ [links p ! n]"
    "drop n (links p) = links p ! n # drop (Suc n) (links p)"
    by (simp_all add: take_Suc_conv_app_nth Cons_nth_drop_Suc)
  then show ?case using Suc by (simp add: setLinkType_links nth_append list_update_append)
qed simp

lemma xor_twice: "(x XOR m) XOR m = (x :: u32)"
  by (simp add: xor.assoc)

lemma setLinkTypes_prefix_find:
  assumes "n \<le> length (links p)"
  shows "sm_find (nodes (fold (setLinkType env md) [0..<n] p)) k =
     map_option (\<lambda>item. if k = ''SrInstance1'' \<and> fusionOn env md \<and> odd (length (filter into_sr (take n (links p))))
                        then item\<lparr>nodeMask := nodeMask item XOR SCALE_MODE\<rparr> else item) (sm_find (nodes p) k)"
  using assms
proof (induction n)
  case 0
  then show ?case by (simp add: option.map_ident)
next
  case (Suc n)
  then have "take (Suc n) (links p) = take n (links p) @ [links p ! n]"
    "links (fold (setLinkType env md) [0..<n] p) ! n = links p ! n"
    by (simp_all add: take_Suc_conv_app_nth setLinkTypes_prefix_links nth_append)
  then show ?case using Suc
    by (cases "sm_find (nodes p) k") (auto simp: setLinkType_find xor_twice)
qed

lemma setLinkTypes_links: "links (setLinkTypes env md p) = map retype (links p)"
  using setLinkTypes_prefix_links [of "length (links p)" p] by (simp add: setLinkTypes_def)

lemmas setLinkTypes_find =
  setLinkTypes_prefix_find [OF order_refl, simplified take_all order_refl, folded setLinkTypes_def]

lemma retype_typed [simp]: "typed (retype l)"
  by (simp add: typed_def retype_def linkTypeOf_def)

subsection \<open>Pruning an acyclic configuration returns\<close>

lemma link_known_ends:
  assumes "\<forall>l \<in> set raw. link_known ns l" and "ends_in raw ls" and "l \<in> set ls"
  shows "link_known ns l"
proof -
  obtain a b where "a \<in> set raw" "src_end l = src_end a" "b \<in> set raw" "dst_end l = dst_end b"
    using assms(2,3) unfolding ends_in_def by blast
  then show ?thesis using assms(1) by (auto simp: link_known_def src_end_def dst_end_def)
qed

lemma survivors_subset: "set (survivors ls dead) \<subseteq> set ls"
  by (auto simp: survivors_def)

lemma link_known_find:
  "(\<And>k. sm_find ns' k = None \<longleftrightarrow> sm_find ns k = None) \<Longrightarrow> link_known ns' l = link_known ns l"
  by (simp add: link_known_def)

lemma link_known_retype [simp]: "link_known ns (retype l) = link_known ns l"
  by (simp add: link_known_def retype_def)

lemma link_known_setLinkTypes [simp]: "link_known (nodes (setLinkTypes env md p)) l = link_known (nodes p) l"
  by (rule link_known_find) (simp add: setLinkTypes_find)

lemma addBridges_setLinkTypes:
  assumes "\<forall>l \<in> set (links p). link_known (nodes p) l"
  shows "\<exists>p'. addBridges (setLinkTypes env md p) = Inr p'"
  using addBridges_known [of "setLinkTypes env md p"] assms by (auto simp: setLinkTypes_links)

text \<open>The port sets a request can contain for which the cascade is proved free of faults.\<close>

definition simple_ports :: "port_sets \<Rightarrow> bool" where
  "simple_ports ports \<longleftrightarrow>
     (case ports of [] \<Rightarrow> True
      | [(n, ds)] \<Rightarrow> distinct (map portId ds) \<and>
          (list_all (\<lambda>d. ptype d = INPUT) ds \<or> list_all (\<lambda>d. ptype d = OUTPUT) ds)
      | _ \<Rightarrow> False)"

lemma pipelinePortPrune_simple:
  assumes "acyclic_links (links p)" and "simple_ports ports"
  shows "\<exists>ls. pipelinePortPrune ports p = Inr (p\<lparr>links := ls\<rparr>) \<and> set ls \<subseteq> set (links p)"
proof (cases ports)
  case Nil
  then show ?thesis by (intro exI [of _ "links p"]) (simp add: pipelinePortPrune_def)
next
  case (Cons nd rest)
  then obtain n ds where p: "ports = [(n, ds)]" "distinct (map portId ds)"
    "(\<forall>d \<in> set ds. ptype d = INPUT) \<or> (\<forall>d \<in> set ds. ptype d = OUTPUT)"
    using assms(2) by (cases nd; cases rest) (auto simp: simple_ports_def list_all_iff)
  from p(3) show ?thesis
  proof
    assume "\<forall>d \<in> set ds. ptype d = INPUT"
    then show ?thesis using pipelinePortPrune_inputs [OF assms(1) _ p(2)] p(1) survivors_subset by blast
  next
    assume "\<forall>d \<in> set ds. ptype d = OUTPUT"
    then show ?thesis using pipelinePortPrune_outputs [OF assms(1) _ p(2)] p(1) survivors_subset by blast
  qed
qed

lemma pruneNow_total:
  assumes "acyclic_links (links raw)" and "\<forall>l \<in> set (links raw). link_known (nodes raw) l"
    and "simple_ports ports"
  shows "\<exists>p. pruneNow env md raw (ports, rules, normal) = Inr p"
proof -
  obtain ls1 where 1: "pipelinePortPrune ports raw = Inr (raw\<lparr>links := ls1\<rparr>)" "set ls1 \<subseteq> set (links raw)"
    using pipelinePortPrune_simple [OF assms(1,3)] by blast
  obtain ls2 where 2: "pipelineNodePrune rules normal (raw\<lparr>links := ls1\<rparr>) = Inr (raw\<lparr>links := ls2\<rparr>)"
    "ends_in ls1 ls2"
    using pipelineNodePrune_returns [of rules normal "raw\<lparr>links := ls1\<rparr>"] by auto
  have "\<forall>l \<in> set ls2. link_known (nodes raw) l"
    using link_known_ends [OF _ 2(2)] 1(2) assms(2) by blast
  then show ?thesis
    using addBridges_setLinkTypes [of "raw\<lparr>links := ls2\<rparr>"] 1(1) 2(1) by (simp add: pruneNow_def)
qed

subsection \<open>The link checker terminates\<close>

text \<open>The links upstream of a node; following a link against its direction leaves it behind.\<close>

definition upstream :: "LinkItem list \<Rightarrow> string \<Rightarrow> nat set" where
  "upstream ls n = {i. i < length ls \<and> (dstNodeInstance (ls ! i), n) \<in> (link_edges ls)\<^sup>*}"

lemma finite_upstream [simp]: "finite (upstream ls n)"
  by (simp add: upstream_def)

lemma card_upstream_le: "card (upstream ls n) \<le> length ls"
  using card_mono [of "{..<length ls}" "upstream ls n"] by (auto simp: upstream_def)

lemma upstream_source:
  assumes "acyclic_links ls" and "i < length ls"
  shows "card (upstream ls (srcNodeInstance (ls ! i))) < card (upstream ls (dstNodeInstance (ls ! i)))"
proof (rule psubset_card_mono)
  let ?s = "srcNodeInstance (ls ! i)" and ?d = "dstNodeInstance (ls ! i)"
  have "upstream ls ?s \<subseteq> upstream ls ?d"
    using link_edgesI [OF assms(2)] by (auto simp: upstream_def intro: rtrancl_into_rtrancl)
  moreover have "i \<in> upstream ls ?d" using assms(2) by (simp add: upstream_def)
  moreover have "i \<notin> upstream ls ?s" using acyclic_links_step [OF assms] by (auto simp: upstream_def)
  ultimately show "upstream ls ?s \<subset> upstream ls ?d" by blast
qed simp

definition input_map_of :: "LinkItem list \<Rightarrow> link_map \<Rightarrow> bool" where
  "input_map_of ls m \<longleftrightarrow>
     (\<forall>n idx. sm_find m n = Some idx \<longrightarrow> (\<forall>i \<in> set idx. i < length ls \<and> dstNodeInstance (ls ! i) = n))"

lemma comes_back_formatMismatch [simp]: "comes_back (formatMismatch l)"
  by (auto simp: formatMismatch_def)

lemma checkInputs_comes_back:
  assumes "\<And>i vs. i \<in> set idx \<Longrightarrow> i < length ls \<Longrightarrow> comes_back (rec (srcNodeInstance (ls ! i)) vs)"
  shows "comes_back (checkInputs rec ls idx acc)"
  using assms
proof (induction idx arbitrary: acc)
  case (Cons i idx)
  obtain b vs where acc: "acc = (b, vs)" by (cases acc)
  have IH: "comes_back (checkInputs rec ls idx acc')" for acc' using Cons by simp
  show ?case
    unfolding acc checkInputs.simps
    by (intro comes_back_bindE) (auto simp: vec_get_Inr intro!: IH Cons.prems comes_back_bindE)
qed simp

lemma checkLinkInformation_comes_back:
  assumes "acyclic_links ls" and "input_map_of ls m" and "card (upstream ls dst) < fuel"
  shows "comes_back (checkLinkInformation fuel m ls dst visited)"
  using assms(3)
proof (induction fuel arbitrary: dst visited)
  case (Suc fuel)
  have "comes_back (checkInputs (checkLinkInformation fuel m ls) ls idx acc)"
    if "sm_find m dst = Some idx" for idx acc
  proof (rule checkInputs_comes_back)
    fix i vs assume i: "i \<in> set idx" "i < length ls"
    then have "dstNodeInstance (ls ! i) = dst" using assms(2) that by (auto simp: input_map_of_def)
    then show "comes_back (checkLinkInformation fuel m ls (srcNodeInstance (ls ! i)) vs)"
      using Suc upstream_source [OF assms(1) i(2)] by fastforce
  qed
  then show ?case by (auto simp: sm_at_Inr)
qed simp

text \<open>The scan keeps the graph and only records true input links.\<close>

definition scan_ok :: "LinkItem list \<Rightarrow> check_st \<Rightarrow> bool" where
  "scan_ok ls st \<longleftrightarrow>
     map (\<lambda>l. (srcNodeInstance l, dstNodeInstance l)) (cLinks st) =
       map (\<lambda>l. (srcNodeInstance l, dstNodeInstance l)) ls \<and>
     input_map_of (cLinks st) (allInputLinkMap st)"

lemma input_map_of_upd:
  assumes "input_map_of ls m" and "i < length ls" and "dstNodeInstance l = dstNodeInstance (ls ! i)"
  shows "input_map_of (ls[i := l]) m"
  using assms by (auto simp: input_map_of_def nth_list_update)

lemma input_map_of_push:
  assumes "input_map_of ls m" and "i < length ls"
  shows "input_map_of ls (sm_push (dstNodeInstance (ls ! i)) i m)"
  using assms unfolding input_map_of_def
  by (cases "sm_find m (dstNodeInstance (ls ! i))") (auto simp: sm_index_def split: if_splits)

lemma checkScan_ok:
  assumes "scan_ok ls st" and "i < length ls" and "checkScan fmts i st = Inr st'"
  shows "scan_ok ls st'"
proof -
  let ?l = "cLinks st ! i"
  have len: "length (cLinks st) = length ls" using assms(1) by (metis length_map scan_ok_def)
  have m: "allInputLinkMap st' = sm_push (dstNodeInstance ?l) i (allInputLinkMap st)"
    and c: "cLinks st' = cLinks st \<or> (\<exists>fs. cLinks st' = (cLinks st)[i := ?l\<lparr>dstPortFormat := fs\<rparr>])"
    using assms(3) by (auto simp: checkScan_def Let_def bindE_eq_Inr split: if_splits)
  have g: "map (\<lambda>l. (srcNodeInstance l, dstNodeInstance l)) (cLinks st') =
      map (\<lambda>l. (srcNodeInstance l, dstNodeInstance l)) (cLinks st)"
    using c assms(2) len by (auto simp: map_update intro!: nth_equalityI simp: nth_list_update)
  have "input_map_of (cLinks st') (allInputLinkMap st)" "dstNodeInstance (cLinks st' ! i) = dstNodeInstance ?l"
    "i < length (cLinks st')"
    using c assms(1,2) len by (auto simp: scan_ok_def intro!: input_map_of_upd)
  then show ?thesis
    using input_map_of_push [of "cLinks st'" "allInputLinkMap st" i] assms(1) g m
    by (simp add: scan_ok_def)
qed

lemma checkScanAll_ok:
  "scan_ok ls st \<Longrightarrow> \<forall>i \<in> set is. i < length ls \<Longrightarrow> checkScanAll fmts is st = Inr st' \<Longrightarrow> scan_ok ls st'"
  by (induction "is" arbitrary: st) (auto simp: bindE_eq_Inr dest: checkScan_ok)

lemma comes_back_checkScan: "comes_back (checkScan fmts i st)"
  unfolding checkScan_def Let_def by (auto intro!: comes_back_bindE)

lemma comes_back_checkScanAll: "comes_back (checkScanAll fmts is st)"
  by (induction "is" arbitrary: st) (auto intro!: comes_back_bindE comes_back_checkScan)

lemma scan_ok_acyclic: "scan_ok ls st \<Longrightarrow> acyclic_links (cLinks st) = acyclic_links ls"
  unfolding scan_ok_def acyclic_links_def link_edges_def by (metis list.set_map)

lemma comes_back_checkSinks:
  assumes "scan_ok ls st" and "acyclic_links ls"
  shows "comes_back (checkSinks f st insts)"
proof (induction insts)
  case (Cons inst rest)
  have info: "comes_back (checkLinkInformation (Suc (length (cLinks st))) (allInputLinkMap st) (cLinks st) n vs)"
    for n vs
    using checkLinkInformation_comes_back [of "cLinks st" "allInputLinkMap st" n] assms scan_ok_acyclic [OF assms(1)]
      card_upstream_le [of "cLinks st" n] by (simp add: scan_ok_def del: checkLinkInformation.simps)
  show ?case
    unfolding checkSinks.simps
    by (intro comes_back_bindE) (auto intro!: Cons.IH comes_back_bindE info simp del: checkLinkInformation.simps)
qed simp

lemma checkPipelineLink_comes_back:
  assumes "acyclic_links (links p)"
  shows "comes_back (checkPipelineLink p f fmts)"
  unfolding checkPipelineLink_def
proof (rule comes_back_bindE [OF comes_back_checkScanAll])
  fix st
  assume "checkScanAll fmts [0..<length (links p)] \<lparr>cLinks = links p, portConfigureFormat = False,
    sourcePortNumber = 0, sinkPortNumber = 0, sinkLinks = [], allInputLinkMap = []\<rparr> = Inr st"
  then have "scan_ok (links p) st"
    by (rule checkScanAll_ok [rotated 2]) (simp_all add: scan_ok_def input_map_of_def)
  then show "comes_back (checkSinks f st (map fst (sinkLinks st)))" using assms by (rule comes_back_checkSinks)
qed

subsection \<open>No request ever gets a pipeline with a shortcut\<close>

lemma bridgeOne_Inr:
  assumes "bridgeOne ns l = Inr x"
  shows "x = bridgedPair ns l"
proof (cases "contains (dstNodeInstance l) ''SinkBuffer''")
  case True
  then show ?thesis
    using assms unfolding bridgeOne_def bridgedPair_def shortcut_def Let_def
    by (cases "contains (srcNodeInstance l) ''SourceBuffer''") (auto simp: bindE_eq_Inr is_virtual_Inr)
next
  case False
  then obtain dv where "is_virtual ns (dstNodeInstance l) = Inr dv"
    using assms unfolding bridgeOne_def Let_def by (simp add: bindE_eq_Inr) blast
  then show ?thesis
    using assms False unfolding bridgeOne_def bridgedPair_def shortcut_def Let_def
    by (cases "contains (srcNodeInstance l) ''SourceBuffer''"; cases "node_virtual ns (dstNodeInstance l)")
      (auto simp: bindE_eq_Inr is_virtual_Inr)
qed

lemma bridgeLinks_Inr:
  "bridgeLinks ns ls = Inr (ls', news) \<Longrightarrow>
     ls' = map (fst \<circ> bridgedPair ns) ls \<and> news = concat (map (snd \<circ> bridgedPair ns) ls)"
proof (induction ls arbitrary: ls' news)
  case (Cons l ls)
  then obtain x y where x: "bridgeOne ns l = Inr x" and y: "bridgeLinks ns ls = Inr y"
    and eq: "ls' = fst x # fst y" "news = snd x @ snd y"
    by (auto simp: bindE_eq_Inr)
  show ?case using bridgeOne_Inr [OF x] Cons.IH [of "fst y" "snd y"] y eq by simp
qed simp

definition no_shortcuts :: "PipelineInfo \<Rightarrow> bool" where
  "no_shortcuts p \<longleftrightarrow> (\<forall>l \<in> set (links p). \<not> shortcut (nodes p) l)"

lemma addBridges_no_shortcuts:
  assumes "addBridges p = Inr p'" and "\<not> node_virtual (nodes p) newMemcpyInstance"
  shows "no_shortcuts p'"
proof -
  obtain ls news where b: "bridgeLinks (nodes p) (links p) = Inr (ls, news)" "p' = p\<lparr>links := ls @ rev news\<rparr>"
    using assms(1) by (auto simp: addBridges_def bindE_eq_Inr)
  then show ?thesis
    using bridgeLinks_Inr [OF b(1)] bridgedPair_no_shortcut [OF assms(2)] by (auto simp: no_shortcuts_def)
qed

lemma pipelinePortPrune_nodes: "pipelinePortPrune ports p = Inr p' \<Longrightarrow> nodes p' = nodes p"
  by (auto simp: pipelinePortPrune_def bindE_eq_Inr split: if_splits)

lemma pipelineNodePrune_nodes: "pipelineNodePrune rules ds p = Inr p' \<Longrightarrow> nodes p' = nodes p"
  using pipelineNodePrune_returns [of rules ds p] by auto

text \<open>Typing the links and asking the plugins leaves the virtual bit of the copy node alone.\<close>

lemma node_virtual_setLinkTypes:
  "k \<noteq> ''SrInstance1'' \<Longrightarrow> node_virtual (nodes (setLinkTypes env md p)) k = node_virtual (nodes p) k"
  by (cases "sm_find (nodes p) k") (simp_all add: node_virtual_def setLinkTypes_find)

lemma pruneNow_no_shortcuts:
  assumes "pruneNow env md raw req = Inr p" and "\<not> node_virtual (nodes raw) newMemcpyInstance"
  shows "no_shortcuts p"
proof -
  obtain ports rules normal where req: "req = (ports, rules, normal)" by (cases req)
  obtain p1 p2 where "pipelinePortPrune ports raw = Inr p1" "pipelineNodePrune rules normal p1 = Inr p2"
    and b: "addBridges (setLinkTypes env md p2) = Inr p"
    using assms(1) unfolding pruneNow_def req by (auto simp: bindE_eq_Inr)
  then have "nodes p2 = nodes raw" using pipelinePortPrune_nodes pipelineNodePrune_nodes by metis
  moreover have "node_virtual (nodes (setLinkTypes env md p2)) newMemcpyInstance = node_virtual (nodes p2) newMemcpyInstance"
    by (rule node_virtual_setLinkTypes) (simp add: newMemcpyInstance_def)
  ultimately show ?thesis using addBridges_no_shortcuts [OF b] assms(2) by simp
qed

definition cache_ok :: "PipelinePruner \<Rightarrow> bool" where
  "cache_ok pr \<longleftrightarrow> \<not> node_virtual (nodes (mRawPipeline pr)) newMemcpyInstance \<and>
     (\<forall>k p. sm_find (mPrunedResult pr) k = Some p \<longrightarrow> no_shortcuts p)"

lemma lookForDisableNodes_node_virtual:
  "node_virtual (nodes (mRawPipeline (fst (lookForDisableNodes env md pr)))) k = node_virtual (nodes (mRawPipeline pr)) k"
proof (cases "md = None")
  case False
  have "sm_find (map (mark_enabled env pr md) m) k = map_option (\<lambda>item. item\<lparr>isEnable := request_enables env pr md item\<rparr>) (sm_find m k)" for m
    by (induction m) (auto simp: mark_enabled_def)
  then show ?thesis using False by (simp add: lookForDisableNodes_eq node_virtual_def option.case_eq_if option.map_sel)
qed (simp add: lookForDisableNodes_None)

lemma rebuildLinks_cache_ok:
  assumes "cache_ok pr" and "rebuildLinks env md f s pr = Inr (ok, p, pr')"
  shows "cache_ok pr' \<and> (ok \<longrightarrow> no_shortcuts p)"
  using assms(2)
proof (cases rule: rebuildLinks_cases)
  case Pruned
  then have "no_shortcuts p"
    using pruneNow_no_shortcuts lookForDisableNodes_node_virtual assms(1) by (metis cache_ok_def)
  then show ?thesis using Pruned assms(1) by (auto simp: cache_ok_def lookForDisableNodes_node_virtual)
qed (use assms(1) in \<open>auto simp: cache_ok_def lookForDisableNodes_node_virtual\<close>)

text \<open>The states of a pruner: the constructor's, and those after any sequence of requests.\<close>

inductive pruner_state ::
  "mia_env \<Rightarrow> (string, node_plugin) std_map \<Rightarrow> PipelineInfo \<Rightarrow> PipelinePruner \<Rightarrow> bool" for env ns raw where
  new: "pruner_state env ns raw (new_PipelinePruner env ns raw)"
| request: "pruner_state env ns raw pr \<Longrightarrow> rebuildLinks env md f s pr = Inr (ok, p, pr') \<Longrightarrow>
    pruner_state env ns raw pr'"

lemma pruner_state_cache_ok:
  assumes "pruner_state env ns raw pr" and "\<not> node_virtual (nodes raw) newMemcpyInstance"
  shows "cache_ok pr"
  using assms(1)
proof induction
  case new
  then show ?case using assms(2) by (simp add: cache_ok_def new_PipelinePruner_def)
qed (use rebuildLinks_cache_ok in blast)

subsection \<open>Properties\<close>

text \<open>C2: disabling input ports of one node of an acyclic pipeline removes exactly the links of
  those ports and, transitively, the input links of every producer that has lost its last
  output link; all other links stay, in order and unchanged.\<close>

theorem disabled_inputs_exact:
  assumes "acyclic_links (links p)" and "\<forall>d \<in> set ds. ptype d = INPUT" and "distinct (map portId ds)"
  shows "pipelinePortPrune [(n, ds)] p =
    Inr (p\<lparr>links := survivors (links p) (dead_up (links p) (in_seeds (links p) n ds))\<rparr>)"
  using assms by (rule pipelinePortPrune_inputs)

theorem disabled_inputs_exact_witness:
  "pipelinePortPrune [(''HDRInstance0'', [\<lparr>portId = 1, ptype = INPUT\<rparr>])] sample_pipeline =
     Inr (sample_pipeline\<lparr>links := survivors (links sample_pipeline)
        (dead_up (links sample_pipeline) (in_seeds (links sample_pipeline) ''HDRInstance0''
          [\<lparr>portId = 1, ptype = INPUT\<rparr>]))\<rparr>)"
  by (rule disabled_inputs_exact [OF sample_acyclic]) simp_all

text \<open>C3: disabling output ports of one node removes exactly the links of those ports and,
  transitively, the output links of every consumer that has lost its last input link.\<close>

theorem disabled_outputs_exact:
  assumes "acyclic_links (links p)" and "\<forall>d \<in> set ds. ptype d = OUTPUT" and "distinct (map portId ds)"
  shows "pipelinePortPrune [(n, ds)] p =
    Inr (p\<lparr>links := survivors (links p) (dead_down (links p) (out_seeds (links p) n ds))\<rparr>)"
  using assms by (rule pipelinePortPrune_outputs)

theorem disabled_outputs_exact_witness:
  "pipelinePortPrune [(''SourceBuffer1'', [\<lparr>portId = 1, ptype = OUTPUT\<rparr>])] sample_pipeline =
     Inr (sample_pipeline\<lparr>links := survivors (links sample_pipeline)
        (dead_down (links sample_pipeline) (out_seeds (links sample_pipeline) ''SourceBuffer1''
          [\<lparr>portId = 1, ptype = OUTPUT\<rparr>]))\<rparr>)"
  by (rule disabled_outputs_exact [OF sample_acyclic]) simp_all

text \<open>C4: pruning distinct disabled nodes from an acyclic pipeline returns; its links are obtained
  by splicing chains of original links at disabled nodes only, carrying the outer end points
  over unchanged, and the chains partition the original links, so that no link is lost or used
  twice.\<close>

theorem node_prune_splices:
  assumes "acyclic_links (links p)" and "distinct ds"
  shows "\<exists>act cs. pipelineNodePrune [] ds p = Inr (p\<lparr>links := act\<rparr>) \<and>
    list_all2 (spliced (links p) (set ds)) cs act \<and>
    distinct (concat cs) \<and> set (concat cs) = {..<length (links p)}"
  using pipelineNodePrune_chains [OF assms] by blast

theorem node_prune_splices_witness:
  "\<exists>act cs. pipelineNodePrune [] [''SkinInstance0'', ''HDRInstance0''] sample_pipeline =
      Inr (sample_pipeline\<lparr>links := act\<rparr>) \<and>
    list_all2 (spliced (links sample_pipeline) (set [''SkinInstance0'', ''HDRInstance0''])) cs act \<and>
    distinct (concat cs) \<and> set (concat cs) = {..<length (links sample_pipeline)}"
  by (rule node_prune_splices [OF sample_acyclic]) simp

text \<open>A disabled node with one input and one output link does not occur in the pruned
  pipeline any more.\<close>

theorem bypassed_node_gone:
  assumes "acyclic_links (links p)" and "distinct ds" and "d \<in> set ds"
    and "in_links (links p) d = [i]" and "out_links (links p) d = [j]"
    and "pipelineNodePrune [] ds p = Inr p'" and "l \<in> set (links p')"
  shows "srcNodeInstance l \<noteq> d \<and> dstNodeInstance l \<noteq> d"
  using assms by (rule pipelineNodePrune_bypassed)

theorem bypassed_node_gone_witness:
  "srcNodeInstance (mk_link ''HDRInstance0'' 0 ''SinkBuffer0'' 0) \<noteq> ''SkinInstance0'' \<and>
   dstNodeInstance (mk_link ''HDRInstance0'' 0 ''SinkBuffer0'' 0) \<noteq> ''SkinInstance0''"
proof (rule bypassed_node_gone [OF sample_acyclic, where ds = "[''SkinInstance0'']" and i = 2 and j = 3])
  show "pipelineNodePrune [] [''SkinInstance0''] sample_pipeline =
    Inr (sample_pipeline\<lparr>links := [mk_link ''SourceBuffer0'' 0 ''HDRInstance0'' 0,
      mk_link ''SourceBuffer1'' 1 ''HDRInstance0'' 1, mk_link ''HDRInstance0'' 0 ''SinkBuffer0'' 0]\<rparr>)"
    by code_simp
  show "in_links (links sample_pipeline) ''SkinInstance0'' = [2]" by code_simp
  show "out_links (links sample_pipeline) ''SkinInstance0'' = [3]" by code_simp
qed simp_all

text \<open>With any bypass rules and any list of disabled nodes, on any pipeline, node pruning
  returns, and no resulting link has an end point that was not the same end point of an
  original link.\<close>

theorem node_prune_total:
  "\<exists>ls. pipelineNodePrune rules ds p = Inr (p\<lparr>links := ls\<rparr>) \<and> ends_in (links p) ls"
  by (rule pipelineNodePrune_returns)

definition sample_env :: mia_env where
  "sample_env = \<lparr>getTagID = (\<lambda>_. Inl (- 1)), Soc = QCOM, OpenPrunerAbnormalDump = True, sDisableMask = 0\<rparr>"

definition sample_pruner :: PipelinePruner where
  "sample_pruner = new_PipelinePruner sample_env
     [(''HDRInstance0'', Some (\<lambda>_. True)), (''SkinInstance0'', None)] sample_pipeline"

definition sample_md :: camera_metadata where
  "sample_md = \<lparr>tag_type = (\<lambda>_. 0), entry_of = (\<lambda>_. None)\<rparr>"

text \<open>The nodes reported as disabled are exactly those whose stored flag is now off, the flag
  is exactly what the plugin, the burst hint, the raw-move-up rules and the debug mask say, and
  asking again changes nothing.\<close>

theorem disabled_nodes_exact:
  assumes "lookForDisableNodes env (Some md) pr = (pr', ds)"
  shows "ds = map (\<lambda>kv. nodeInstance (snd kv))
                (filter (\<lambda>kv. \<not> isEnable (snd kv)) (nodes (mRawPipeline pr'))) \<and>
    (\<forall>kv \<in> set (nodes (mRawPipeline pr')). isEnable (snd kv) = request_enables env pr (Some md) (snd kv)) \<and>
    lookForDisableNodes env (Some md) pr' = (pr', ds)"
proof (intro conjI)
  have eq: "lookForDisableNodes env (Some md) pr =
    (pr\<lparr>mRawPipeline := (mRawPipeline pr)\<lparr>nodes := map (mark_enabled env pr (Some md)) (nodes (mRawPipeline pr))\<rparr>\<rparr>,
     map (\<lambda>kv. nodeInstance (snd kv))
       (filter (\<lambda>kv. \<not> request_enables env pr (Some md) (snd kv)) (nodes (mRawPipeline pr))))"
    by (rule lookForDisableNodes_eq) simp
  show "ds = map (\<lambda>kv. nodeInstance (snd kv))
               (filter (\<lambda>kv. \<not> isEnable (snd kv)) (nodes (mRawPipeline pr')))"
    using assms unfolding eq by (auto simp: filter_map comp_def)
  show "\<forall>kv \<in> set (nodes (mRawPipeline pr')). isEnable (snd kv) = request_enables env pr (Some md) (snd kv)"
    using assms unfolding eq by (auto simp: mark_enabled_def)
  show "lookForDisableNodes env (Some md) pr' = (pr', ds)"
    using assms lookForDisableNodes_self [of env "Some md" pr] by simp
qed

theorem disabled_nodes_exact_witness:
  "[''SkinInstance0''] = map (\<lambda>kv. nodeInstance (snd kv))
     (filter (\<lambda>kv. \<not> isEnable (snd kv))
       (nodes (mRawPipeline (fst (lookForDisableNodes sample_env (Some sample_md) sample_pruner)))))"
proof -
  have "snd (lookForDisableNodes sample_env (Some sample_md) sample_pruner) = [''SkinInstance0'']"
    by code_simp
  then have "lookForDisableNodes sample_env (Some sample_md) sample_pruner =
    (fst (lookForDisableNodes sample_env (Some sample_md) sample_pruner), [''SkinInstance0''])"
    by (metis prod.collapse)
  from disabled_nodes_exact [OF this] show ?thesis by blast
qed

text \<open>C15: pruning an acyclic pipeline whose links connect known nodes and buffers does not fault,
  whatever bypass rules and disabled nodes the request has, as long as it disables ports of at
  most one node and in one direction.\<close>

theorem prune_total:
  assumes "acyclic_links (links raw)" and "\<forall>l \<in> set (links raw). link_known (nodes raw) l"
    and "simple_ports ports"
  shows "\<exists>p. pruneNow env md raw (ports, rules, normal) = Inr p"
  using assms by (rule pruneNow_total)

theorem prune_total_witness:
  "\<exists>p. pruneNow sample_env (Some sample_md) sample_pipeline
     ([(''HDRInstance0'', [\<lparr>portId = 1, ptype = INPUT\<rparr>])], [], [''SkinInstance0'']) = Inr p"
proof (rule prune_total [OF sample_acyclic])
  show "\<forall>l \<in> set (links sample_pipeline). link_known (nodes sample_pipeline) l" by code_simp
  show "simple_ports [(''HDRInstance0'', [\<lparr>portId = 1, ptype = INPUT\<rparr>])]" by code_simp
qed

text \<open>C14: a request that was served once is served the same pipeline again, without pruning and
  without changing the pruner, whatever the buffer formats of the second request.\<close>

theorem rebuild_repeats:
  assumes "rebuildLinks env md f s pr = Inr (True, p, pr')"
  shows "rebuildLinks env md f' s' pr' = Inr (True, p, pr')"
  using assms by (rule rebuildLinks_repeat)

theorem rebuild_repeats_witness:
  "\<exists>p pr'. rebuildLinks sample_env (Some sample_md) 0 [0] sample_pruner = Inr (True, p, pr') \<and>
     rebuildLinks sample_env (Some sample_md) 35 [] pr' = Inr (True, p, pr')"
proof -
  have "(case rebuildLinks sample_env (Some sample_md) 0 [0] sample_pruner of
      Inl _ \<Rightarrow> False | Inr (ok, _) \<Rightarrow> ok)"
    by code_simp
  then obtain p pr' where "rebuildLinks sample_env (Some sample_md) 0 [0] sample_pruner = Inr (True, p, pr')"
    by (auto split: sum.splits prod.splits)
  then show ?thesis using rebuild_repeats by blast
qed

text \<open>A source buffer whose only node is disabled, in a pipeline with the copy node the session puts in.\<close>

definition bridge_pipeline :: PipelineInfo where
  "bridge_pipeline = \<lparr>pipelineName = ''SatSnapshot'',
     nodes = [(''SkinInstance0'', mk_node ''com.xiaomi.plugin.skinbeautifier'' ''SkinInstance0'' 0),
              (newMemcpyInstance, mk_node ''com.xiaomi.plugin.memcpy'' newMemcpyInstance 0)],
     links = [mk_link ''SourceBuffer0'' 0 ''SkinInstance0'' 0, mk_link ''SkinInstance0'' 0 ''SinkBuffer0'' 0]\<rparr>"

definition bridge_pruner :: PipelinePruner where
  "bridge_pruner = new_PipelinePruner sample_env [(''SkinInstance0'', None), (newMemcpyInstance, Some (\<lambda>_. True))] bridge_pipeline"

text \<open>C13: No request ever receives, freshly pruned or from the cache, a pipeline in which a source buffer or a virtual node is linked
  directly to a sink buffer, or a virtual node to a virtual node: the copy node stands between them.  The copy node, which the session
  puts into the pipeline before it creates the pruner, is not virtual.\<close>

theorem no_shortcut_served:
  assumes "pruner_state env ns raw pr" and "\<not> node_virtual (nodes raw) newMemcpyInstance"
    and "rebuildLinks env md f s pr = Inr (True, p, pr')"
  shows "\<forall>l \<in> set (links p). \<not> shortcut (nodes p) l"
  using rebuildLinks_cache_ok [OF pruner_state_cache_ok [OF assms(1,2)] assms(3)]
  by (simp add: no_shortcuts_def)

theorem no_shortcut_served_witness:
  "\<exists>p pr'. rebuildLinks sample_env (Some sample_md) 0 [0] bridge_pruner = Inr (True, p, pr') \<and>
     map srcNodeInstance (links p) = [''SourceBuffer0'', newMemcpyInstance] \<and> map dstNodeInstance (links p) = [newMemcpyInstance, ''SinkBuffer0''] \<and>
     (\<forall>l \<in> set (links p). \<not> shortcut (nodes p) l)"
proof -
  have ok: "(case rebuildLinks sample_env (Some sample_md) 0 [0] bridge_pruner of
      Inl _ \<Rightarrow> False
    | Inr (ok, p, _) \<Rightarrow> ok \<and> map srcNodeInstance (links p) = [''SourceBuffer0'', newMemcpyInstance] \<and>
        map dstNodeInstance (links p) = [newMemcpyInstance, ''SinkBuffer0''])"
    and copy: "\<not> node_virtual (nodes bridge_pipeline) newMemcpyInstance"
    by code_simp+
  obtain p pr' where r: "rebuildLinks sample_env (Some sample_md) 0 [0] bridge_pruner = Inr (True, p, pr')"
    and l: "map srcNodeInstance (links p) = [''SourceBuffer0'', newMemcpyInstance]" "map dstNodeInstance (links p) = [newMemcpyInstance, ''SinkBuffer0'']"
    using ok by (auto split: sum.splits prod.splits)
  have "pruner_state sample_env [(''SkinInstance0'', None), (newMemcpyInstance, Some (\<lambda>_. True))] bridge_pipeline bridge_pruner"
    unfolding bridge_pruner_def by (rule pruner_state.new)
  from no_shortcut_served [OF this copy r] r l show ?thesis by (intro exI [of _ p] exI [of _ pr'] conjI)
qed

text \<open>On an acyclic pipeline the recursive link check comes back, for any formats: the bound
  on its depth, one more than the number of links, is never reached.\<close>

theorem link_check_terminates:
  assumes "acyclic_links (links p)"
  shows "checkPipelineLink p f fmts \<noteq> Inl NoReturn"
  using checkPipelineLink_comes_back [OF assms] by (simp add: comes_back_def)

theorem link_check_terminates_witness:
  "checkPipelineLink sample_pipeline CAM_FORMAT_YUV_420_NV12 [CAM_FORMAT_YUV_420_NV12] \<noteq> Inl NoReturn"
  by (rule link_check_terminates [OF sample_acyclic])

text \<open>Typing the links gives every link the type of its end points, and the scale bit of
  \<open>SrInstance1\<close> is flipped once per link into it while fusion is on: the bit changes only if
  the number of those links is odd.\<close>

theorem link_types_and_scale_mask:
  "links (setLinkTypes env md p) = map (\<lambda>l. l\<lparr>linkType := linkTypeOf l\<rparr>) (links p) \<and>
   sm_find (nodes (setLinkTypes env md p)) k =
     map_option (\<lambda>item. if k = ''SrInstance1'' \<and> fusionOn env md \<and>
                           odd (length (filter (\<lambda>l. contains (dstNodeInstance l) ''SrInstance1'') (links p)))
                        then item\<lparr>nodeMask := nodeMask item XOR SCALE_MODE\<rparr> else item)
       (sm_find (nodes p) k)"
  by (simp add: setLinkTypes_links setLinkTypes_find retype_def [abs_def] into_sr_def [abs_def])

text \<open>A request with fusion on and one with fusion off, for a pipeline with one link into
  \<open>SrInstance1\<close>.\<close>

definition fusion_env :: mia_env where
  "fusion_env = \<lparr>getTagID = (\<lambda>n. if n = ''xiaomi.capturefusion.isFusionOn'' then Inr 1 else Inl (- 1)),
     Soc = QCOM, OpenPrunerAbnormalDump = False, sDisableMask = 0\<rparr>"

definition fusion_md :: "u8 \<Rightarrow> camera_metadata" where
  "fusion_md v = \<lparr>tag_type = (\<lambda>_. 0),
     entry_of = (\<lambda>t. if t = 1 then Some \<lparr>e_count = 1, e_data = (\<lambda>_. v)\<rparr> else None)\<rparr>"

definition fusion_pruner :: PipelinePruner where
  "fusion_pruner = new_PipelinePruner fusion_env [(''SrInstance1'', Some (\<lambda>_. True))]
     \<lparr>pipelineName = ''UltraPixel'',
      nodes = [(''SrInstance1'', mk_node ''com.xiaomi.plugin.sr'' ''SrInstance1'' 0)],
      links = [mk_link ''SourceBuffer0'' 0 ''SrInstance1'' 0, mk_link ''SrInstance1'' 0 ''SinkBuffer0'' 0]\<rparr>"

definition served_mask :: "(bool \<times> PipelineInfo \<times> PipelinePruner) outcome \<Rightarrow> u32 option" where
  "served_mask r = (case r of Inr (True, p, _) \<Rightarrow> map_option nodeMask (sm_find (nodes p) ''SrInstance1'') | _ \<Rightarrow> None)"

definition served_pruner :: "(bool \<times> PipelineInfo \<times> PipelinePruner) outcome \<Rightarrow> PipelinePruner \<Rightarrow> PipelinePruner" where
  "served_pruner r pr = (case r of Inr (_, _, pr') \<Rightarrow> pr' | _ \<Rightarrow> pr)"

text \<open>The reuse key leaves out the metadata that decides the scale bit of \<open>SrInstance1\<close>, so a
  request with fusion off that follows one with fusion on is served the bit of the earlier
  request, while a pruner that has not seen the earlier request serves it without the bit.\<close>

theorem reuse_serves_stale_scale_mask:
  "let on = rebuildLinks fusion_env (Some (fusion_md 1)) 0 [0] fusion_pruner;
       off_after_on = rebuildLinks fusion_env (Some (fusion_md 0)) 0 [0] (served_pruner on fusion_pruner);
       off_fresh = rebuildLinks fusion_env (Some (fusion_md 0)) 0 [0] fusion_pruner
   in served_mask on = Some SCALE_MODE \<and> served_mask off_after_on = Some SCALE_MODE \<and>
      served_mask off_fresh = Some 0"
  by code_simp

text \<open>A node with a good and a mismatched input, feeding a node that also has a source link.\<close>

definition mismatch_pipeline :: PipelineInfo where
  "mismatch_pipeline =
     \<lparr>pipelineName = ''P'', nodes = [],
      links = map (\<lambda>l. l\<lparr>linkType := linkTypeOf l\<rparr>)
        [mk_link ''SourceBuffer0'' 0 ''Z'' 0, mk_link ''Z'' 0 ''A'' 0, mk_link ''Z'' 0 ''X'' 0,
         (mk_link ''X'' 0 ''A'' 1)\<lparr>srcPortFormat := CAM_FORMAT_RAW10, dstPortFormat := [CAM_FORMAT_YUV_420_NV12]\<rparr>,
         mk_link ''A'' 0 ''B'' 0, mk_link ''SourceBuffer1'' 0 ''B'' 1, mk_link ''B'' 0 ''SinkBuffer0'' 0]\<rparr>"

text \<open>The result of the check of one input of a node is overwritten by the check of the next
  one: a pipeline with a link whose formats do not match passes the link check.\<close>

theorem mismatch_overwritten:
  "(\<exists>l \<in> set (links mismatch_pipeline). formatMismatch l = Inr True) \<and>
   checkPipelineLink mismatch_pipeline CAM_FORMAT_YUV_420_NV12 [CAM_FORMAT_YUV_420_NV12] = Inr True"
  by code_simp

end
