(* ===== verification/FrameUtil.thy ===== *)
theory FrameUtil
  imports PipelineTypes "HOL-Library.Signed_Division"
begin

text \<open>
  Frame layout and small utilities (\<^verbatim>\<open>mivifwk/mialgoengine/MiaUtil.cpp\<close>, \<^verbatim>\<open>MiaFmt.h\<close>): plane
  sizes and strides of an image format, the plane-by-plane frame copy, the conversion of
  single to half precision and the parser of \<^verbatim>\<open>/proc/meminfo\<close>.  Unsigned 32 bit arithmetic
  is on words; \<open>int32_t\<close> values are integers, with a signed product that does not fit as a
  fault.
\<close>

record FrameInfo =
  fformat :: u32
  fwidth :: u32
  fheight :: u32
  planeStride :: u32
  sliceheight :: u32
  cameraId :: u32

record LenOffset =
  llen :: u32
  loffset :: u32
  offset_x :: int
  offset_y :: int
  lstride :: int
  stride_in_bytes :: int
  lscanline :: int
  lwidth :: int
  lheight :: int

record PaddingInfo =
  width_padding :: u32
  height_padding :: u32
  plane_padding :: u32

record LenOffsetInfo =
  num_planes :: u32
  mp :: "LenOffset list"
  frame_len :: u32

abbreviation MI_PAD_TO_16 :: u32 where "MI_PAD_TO_16 \<equiv> 16"
abbreviation MI_PAD_TO_32 :: u32 where "MI_PAD_TO_32 \<equiv> 32"
abbreviation MI_PAD_TO_64 :: u32 where "MI_PAD_TO_64 \<equiv> 64"
abbreviation MI_PAD_TO_256 :: u32 where "MI_PAD_TO_256 \<equiv> 256"
abbreviation MI_PAD_TO_4K :: u32 where "MI_PAD_TO_4K \<equiv> 4096"

subsection \<open>\<open>calcOffset\<close>\<close>

definition PAD_TO_SIZE :: "u32 \<Rightarrow> u32 \<Rightarrow> u32 outcome" where
  "PAD_TO_SIZE sz padding =
     (if padding = 0 then Inl DivByZero else Inr ((sz + padding - 1) div padding * padding))"

definition mul_i32 :: "int \<Rightarrow> int \<Rightarrow> int outcome" where
  "mul_i32 a b = (if - (2 ^ 31) \<le> a * b \<and> a * b < 2 ^ 31 then Inr (a * b) else Inl SignedOverflow)"

text \<open>The assignments that fill one plane.\<close>

definition plane :: "u32 \<Rightarrow> int \<Rightarrow> int \<Rightarrow> u32 \<Rightarrow> u32 \<Rightarrow> LenOffset" where
  "plane l stride scanline w h =
     \<lparr>llen = l, loffset = 0, offset_x = 0, offset_y = 0, lstride = stride, stride_in_bytes = stride,
      lscanline = scanline, lwidth = sint w, lheight = sint h\<rparr>"

text \<open>\<open>PAD_TO_SIZE((uint32_t)(stride * scanline), padding)\<close>\<close>

definition plane_len :: "int \<Rightarrow> int \<Rightarrow> u32 \<Rightarrow> u32 outcome" where
  "plane_len stride scanline padding =
     bindE (mul_i32 stride scanline) (\<lambda>p. PAD_TO_SIZE (word_of_int p) padding)"

definition two_planes ::
  "FrameInfo \<Rightarrow> PaddingInfo \<Rightarrow> int \<Rightarrow> int \<Rightarrow> int \<Rightarrow> LenOffsetInfo \<Rightarrow> LenOffsetInfo outcome" where
  "two_planes format padding stride scanline scanline1 bufPlanes =
     bindE (plane_len stride scanline (plane_padding padding)) (\<lambda>len0.
     bindE (plane_len stride scanline1 (plane_padding padding)) (\<lambda>len1.
     bindE (PAD_TO_SIZE (len0 + len1) MI_PAD_TO_4K) (\<lambda>fl.
       Inr (bufPlanes\<lparr>num_planes := 2,
              mp := (mp bufPlanes)[0 := plane len0 stride scanline (fwidth format) (fheight format),
                                   1 := plane len1 stride scanline1 (fwidth format) (fheight format div 2)],
              frame_len := fl\<rparr>))))"

definition one_plane ::
  "FrameInfo \<Rightarrow> int \<Rightarrow> int \<Rightarrow> u32 \<Rightarrow> u32 \<Rightarrow> LenOffsetInfo \<Rightarrow> LenOffsetInfo" where
  "one_plane format stride scanline l fl bufPlanes =
     bufPlanes\<lparr>num_planes := 1,
       mp := (mp bufPlanes)[0 := plane l stride scanline (fwidth format) (fheight format)],
       frame_len := fl\<rparr>"

definition calcOffset ::
  "FrameInfo \<Rightarrow> PaddingInfo option \<Rightarrow> LenOffsetInfo option \<Rightarrow> (CDKResult \<times> LenOffsetInfo option) outcome" where
  "calcOffset format padding' bufPlanes' =
     (case (padding', bufPlanes') of
        (Some padding, Some bufPlanes) \<Rightarrow>
          bindE (PAD_TO_SIZE (fwidth format) (width_padding padding)) (\<lambda>ustride.
          bindE (PAD_TO_SIZE (fheight format) (height_padding padding)) (\<lambda>uscanline.
          let stride = sint ustride; scanline = sint uscanline; f = fformat format
          in if f \<in> {CAM_FORMAT_YUV_420_NV21, CAM_FORMAT_YUV_420_NV12, CAM_FORMAT_IMPLEMENTATION_DEFINED,
                     CAM_FORMAT_BLOB} then
               bindE (PAD_TO_SIZE (word_of_int (scanline sdiv 2)) (plane_padding padding)) (\<lambda>s1.
               bindE (two_planes format padding stride scanline (sint s1) bufPlanes) (\<lambda>b.
                 Inr (MIAS_OK, Some b)))
             else if f = CAM_FORMAT_RAW10 then
               bindE (PAD_TO_SIZE ((fwidth format * 10) div 8) 80) (\<lambda>st.
               bindE (plane_len (sint st) (sint (fheight format)) MI_PAD_TO_4K) (\<lambda>l.
                 Inr (MIAS_OK, Some (one_plane format (sint st) (sint (fheight format)) l l bufPlanes))))
             else if f = CAM_FORMAT_RAW16 then
               bindE (PAD_TO_SIZE (fwidth format * 2) MI_PAD_TO_32) (\<lambda>st.
               bindE (plane_len (sint st) (sint (fheight format)) MI_PAD_TO_4K) (\<lambda>l.
                 Inr (MIAS_OK, Some (one_plane format (sint st) (sint (fheight format)) l l bufPlanes))))
             else if f = CAM_FORMAT_RAW_OPAQUE then
               (let l = fwidth format * fheight format * 1
                in Inr (MIAS_OK, Some (one_plane format stride scanline l l bufPlanes)))
             else if f = CAM_FORMAT_Y16 then
               bindE (plane_len stride scanline (plane_padding padding)) (\<lambda>l.
                 Inr (MIAS_OK, Some (one_plane format stride scanline l (frame_len bufPlanes) bufPlanes)))
             else if f = CAM_FORMAT_P010 then
               bindE (PAD_TO_SIZE (fwidth format * 2) MI_PAD_TO_256) (\<lambda>st.
               bindE (PAD_TO_SIZE (fheight format) MI_PAD_TO_32) (\<lambda>sc.
               bindE (PAD_TO_SIZE (fheight format div 2) MI_PAD_TO_16) (\<lambda>s1.
               bindE (two_planes format padding (sint st) (sint sc) (sint s1) bufPlanes) (\<lambda>b.
                 Inr (MIAS_OK, Some b)))))
             else Inr (MIAS_INVALID_PARAM, Some bufPlanes)))
      | _ \<Rightarrow> Inr (MIAS_INVALID_PARAM, bufPlanes'))"

subsection \<open>Padding without wrap-around\<close>

definition ceil_to :: "nat \<Rightarrow> nat \<Rightarrow> nat" where
  "ceil_to a n = (n + a - 1) div a * a"

lemma ceil_to_bounds:
  assumes "0 < a"
  shows "n \<le> ceil_to a n" and "ceil_to a n < n + a"
proof -
  have "(n + a - 1) div a * a + (n + a - 1) mod a = n + a - 1" by simp
  moreover have "(n + a - 1) mod a < a" using assms by simp
  ultimately show "n \<le> ceil_to a n" and "ceil_to a n < n + a" using assms unfolding ceil_to_def by linarith+
qed

lemma ceil_to_dvd [simp]: "a dvd ceil_to a n"
  by (simp add: ceil_to_def)

lemma ceil_to_mult [simp]:
  assumes "0 < a" and "a dvd n"
  shows "ceil_to a n = n"
proof -
  obtain k where k: "n = a * k" using assms(2) by (rule dvdE)
  have "(a * k + a - 1) div a = k" using assms(1) by (intro div_nat_eqI) simp_all
  then show ?thesis by (simp add: ceil_to_def k)
qed

lemma word_div_nat:
  "m < 2 ^ 32 \<Longrightarrow> a < 2 ^ 32 \<Longrightarrow> (of_nat m :: u32) div of_nat a = of_nat (m div a)"
  by (simp add: word_arith_nat_div unat_of_nat)

lemma PAD_TO_SIZE_nat:
  assumes "0 < a" and "a < 2 ^ 32" and "n + a \<le> 2 ^ 32"
  shows "PAD_TO_SIZE (of_nat n) (of_nat a) = Inr (of_nat (ceil_to a n))"
proof -
  have nz: "(of_nat a :: u32) \<noteq> 0" using assms(1,2) by (simp add: word_of_nat_eq_0_iff nat_dvd_not_less)
  have "(of_nat n + of_nat a - 1 :: u32) = of_nat (n + a - 1)" using assms(1) by (simp add: of_nat_diff)
  then show ?thesis using nz word_div_nat [of "n + a - 1" a] assms by (simp add: PAD_TO_SIZE_def ceil_to_def)
qed

lemma sint_of_nat: "n < 2 ^ 31 \<Longrightarrow> sint (of_nat n :: u32) = int n"
  by (simp add: signed_of_nat signed_take_bit_int_eq_self)

lemma mul_i32_nat: "m * n < 2 ^ 31 \<Longrightarrow> mul_i32 (int m) (int n) = Inr (int (m * n))"
  unfolding mul_i32_def by (simp flip: of_nat_mult)

lemma plane_len_nat:
  assumes "m * n < 2 ^ 31" and "0 < a" and "a \<le> 2 ^ 31"
  shows "plane_len (int m) (int n) (of_nat a) = Inr (of_nat (ceil_to a (m * n)))"
  using PAD_TO_SIZE_nat [of a "m * n"] assms by (simp add: plane_len_def mul_i32_nat del: of_nat_mult)

text \<open>The two planes of a frame whose strides and scanlines are known and fit.\<close>

lemma two_planes_nat:
  assumes "S * L < 2 ^ 30" and "S * M < 2 ^ 30" and "0 < pp" and "pp \<le> 4096" and "plane_padding pad = of_nat pp"
  shows "two_planes fmt pad (int S) (int L) (int M) b = Inr (b\<lparr>num_planes := 2,
      mp := (mp b)[0 := plane (of_nat (ceil_to pp (S * L))) (int S) (int L) (fwidth fmt) (fheight fmt),
                   1 := plane (of_nat (ceil_to pp (S * M))) (int S) (int M) (fwidth fmt) (fheight fmt div 2)],
      frame_len := of_nat (ceil_to 4096 (ceil_to pp (S * L) + ceil_to pp (S * M)))\<rparr>)"
proof -
  have "ceil_to pp (S * L) < S * L + 4096" "ceil_to pp (S * M) < S * M + 4096"
    using ceil_to_bounds(2) [of pp] assms(3,4) by (meson add_left_mono less_le_trans)+
  then have "ceil_to pp (S * L) + ceil_to pp (S * M) + 4096 \<le> 2 ^ 32" using assms(1,2) by simp
  then have "PAD_TO_SIZE (of_nat (ceil_to pp (S * L)) + of_nat (ceil_to pp (S * M))) 4096 =
      Inr (of_nat (ceil_to 4096 (ceil_to pp (S * L) + ceil_to pp (S * M))) :: u32)"
    using PAD_TO_SIZE_nat [of 4096 "ceil_to pp (S * L) + ceil_to pp (S * M)"] by simp
  then show ?thesis
    using plane_len_nat [of S L pp] plane_len_nat [of S M pp] assms
    by (simp add: two_planes_def del: of_nat_mult)
qed

definition is_yuv :: "u32 \<Rightarrow> bool" where
  "is_yuv f \<longleftrightarrow> f \<in> {CAM_FORMAT_YUV_420_NV21, CAM_FORMAT_YUV_420_NV12, CAM_FORMAT_IMPLEMENTATION_DEFINED,
     CAM_FORMAT_BLOB}"

text \<open>
  Stride and scanlines of the two planes, in natural numbers.  P010 has two bytes a sample and
  paddings of its own.
\<close>

definition yuv_stride :: "u32 \<Rightarrow> nat \<Rightarrow> nat \<Rightarrow> nat" where
  "yuv_stride f pw w = (if f = CAM_FORMAT_P010 then ceil_to 256 (2 * w) else ceil_to pw w)"

definition yuv_scanline :: "u32 \<Rightarrow> nat \<Rightarrow> nat \<Rightarrow> nat" where
  "yuv_scanline f ph h = (if f = CAM_FORMAT_P010 then ceil_to 32 h else ceil_to ph h)"

definition yuv_scanline1 :: "u32 \<Rightarrow> nat \<Rightarrow> nat \<Rightarrow> nat \<Rightarrow> nat" where
  "yuv_scanline1 f ph pp h = (if f = CAM_FORMAT_P010 then ceil_to 16 (h div 2) else ceil_to pp (ceil_to ph h div 2))"

lemma yuv_dims:
  assumes "w \<le> 16384" and "h \<le> 16384" and "0 < pw" "pw \<le> 4096" and "0 < ph" "ph \<le> 4096" and "0 < pp" "pp \<le> 4096"
  shows "yuv_stride f pw w < 33024" "yuv_scanline f ph h < 20480" "yuv_scanline1 f ph pp h < 20480"
    and "yuv_stride f pw w * yuv_scanline f ph h < 2 ^ 30" "yuv_stride f pw w * yuv_scanline1 f ph pp h < 2 ^ 30"
proof -
  have a: "ceil_to pw w < 20480" "ceil_to 256 (2 * w) < 33024" "ceil_to ph h < 20480" "ceil_to 32 h < 20480"
    "ceil_to 16 (h div 2) < 20480"
    using ceil_to_bounds(2) [of pw w] ceil_to_bounds(2) [of 256 "2 * w"] ceil_to_bounds(2) [of ph h]
      ceil_to_bounds(2) [of 32 h] ceil_to_bounds(2) [of 16 "h div 2"] assms by simp_all
  moreover have "ceil_to pp (ceil_to ph h div 2) < 20480"
    using ceil_to_bounds(2) [of pp "ceil_to ph h div 2"] a(3) assms(7,8) by simp
  ultimately show d: "yuv_stride f pw w < 33024" "yuv_scanline f ph h < 20480" "yuv_scanline1 f ph pp h < 20480"
    by (simp_all add: yuv_stride_def yuv_scanline_def yuv_scanline1_def)
  show "yuv_stride f pw w * yuv_scanline f ph h < 2 ^ 30" "yuv_stride f pw w * yuv_scanline1 f ph pp h < 2 ^ 30"
    using mult_le_mono [of "yuv_stride f pw w" 33024 "yuv_scanline f ph h" 20480]
      mult_le_mono [of "yuv_stride f pw w" 33024 "yuv_scanline1 f ph pp h" 20480] d by simp_all
qed

lemma calcOffset_two_planes:
  fixes w h :: nat
  assumes "is_yuv (fformat fmt) \<or> fformat fmt = CAM_FORMAT_P010"
    and "fwidth fmt = of_nat w" and "fheight fmt = of_nat h" and "w \<le> 16384" and "h \<le> 16384"
    and "width_padding pad = of_nat pw" "0 < pw" "pw \<le> 4096" and "height_padding pad = of_nat ph" "0 < ph" "ph \<le> 4096"
    and "plane_padding pad = of_nat pp" "0 < pp" "pp \<le> 4096"
  defines "S \<equiv> yuv_stride (fformat fmt) pw w" and "L \<equiv> yuv_scanline (fformat fmt) ph h"
    and "M \<equiv> yuv_scanline1 (fformat fmt) ph pp h"
  shows "calcOffset fmt (Some pad) (Some b) =
    Inr (MIAS_OK, Some (b\<lparr>num_planes := 2,
      mp := (mp b)[0 := plane (of_nat (ceil_to pp (S * L))) (int S) (int L) (fwidth fmt) (fheight fmt),
                   1 := plane (of_nat (ceil_to pp (S * M))) (int S) (int M) (fwidth fmt) (fheight fmt div 2)],
      frame_len := of_nat (ceil_to 4096 (ceil_to pp (S * L) + ceil_to pp (S * M)))\<rparr>))"
proof -
  note dims = yuv_dims [OF assms(4,5,7,8,10,11,13,14), of "fformat fmt", folded S_def L_def M_def]
  note tp = two_planes_nat [OF dims(4,5) assms(13,14,12)]
  have pw: "PAD_TO_SIZE (of_nat w) (of_nat pw) = Inr (of_nat (ceil_to pw w))"
    and ph: "PAD_TO_SIZE (of_nat h) (of_nat ph) = Inr (of_nat (ceil_to ph h))"
    using PAD_TO_SIZE_nat [of pw w] PAD_TO_SIZE_nat [of ph h] assms by simp_all
  have si: "sint (of_nat S :: u32) = int S" "sint (of_nat L :: u32) = int L" "sint (of_nat M :: u32) = int M"
    using dims(1-3) by (simp_all add: sint_of_nat)
  show ?thesis
  proof (cases "fformat fmt = CAM_FORMAT_P010")
    case True
    then have defs: "S = ceil_to 256 (2 * w)" "L = ceil_to 32 h" "M = ceil_to 16 (h div 2)"
      by (simp_all add: S_def L_def M_def yuv_stride_def yuv_scanline_def yuv_scanline1_def)
    have half: "(of_nat h :: u32) div 2 = of_nat (h div 2)" using word_div_nat [of h 2] assms(5) by simp
    have pads: "PAD_TO_SIZE (of_nat w * 2) 256 = Inr (of_nat S)" "PAD_TO_SIZE (of_nat h) 32 = Inr (of_nat L)"
      "PAD_TO_SIZE (of_nat (h div 2)) 16 = Inr (of_nat M)"
      using PAD_TO_SIZE_nat [of 256 "2 * w"] PAD_TO_SIZE_nat [of 32 h] PAD_TO_SIZE_nat [of 16 "h div 2"] assms(4,5)
      by (simp_all add: defs mult.commute)
    show ?thesis
      using True by (simp add: calcOffset_def assms(2,3,6,9) pw ph Let_def half pads si tp [unfolded assms(2,3) half])
  next
    case False
    then have defs: "S = ceil_to pw w" "L = ceil_to ph h" "M = ceil_to pp (L div 2)"
      by (simp_all add: S_def L_def M_def yuv_stride_def yuv_scanline_def yuv_scanline1_def)
    have p1: "PAD_TO_SIZE (of_nat (L div 2)) (of_nat pp) = Inr (of_nat M)"
      using PAD_TO_SIZE_nat [of pp "L div 2"] dims(2) assms(13,14) by (simp add: defs)
    have "int L sdiv 2 = int (L div 2)" by (cases "L = 0") (simp_all add: signed_divide_int_def zdiv_int)
    then have half: "(word_of_int (int L sdiv 2) :: u32) = of_nat (L div 2)" by simp
    show ?thesis
      using False assms(1)
      by (simp add: calcOffset_def is_yuv_def assms(2,3,6,9,12) pw ph Let_def flip: defs(1,2))
        (simp add: si half p1 assms(2,3) tp [unfolded assms(2,3)])
  qed
qed

definition pad64 :: PaddingInfo where
  "pad64 = \<lparr>width_padding = MI_PAD_TO_64, height_padding = MI_PAD_TO_64, plane_padding = MI_PAD_TO_64\<rparr>"

subsection \<open>\<open>copyFrame\<close>\<close>

text \<open>The plane addresses of a frame, as the memory behind them.\<close>

record MiaFrame =
  frFormat :: FrameInfo
  pAddr :: "u8 list list"

definition memcpy :: "u8 list \<Rightarrow> nat \<Rightarrow> u8 list \<Rightarrow> nat \<Rightarrow> nat \<Rightarrow> u8 list outcome" where
  "memcpy dst doff src soff n =
     (if doff + n \<le> length dst \<and> soff + n \<le> length src
      then Inr (take doff dst @ take n (drop soff src) @ drop (doff + n) dst)
      else Inl BadIndex)"

fun copyRows :: "u32 \<Rightarrow> u32 \<Rightarrow> u32 \<Rightarrow> nat list \<Rightarrow> u8 list \<Rightarrow> u8 list \<Rightarrow> u8 list outcome" where
  "copyRows outS inS n [] src dst = Inr dst"
| "copyRows outS inS n (m # ms) src dst =
     bindE (memcpy dst (unat (outS * of_nat m)) src (unat (inS * of_nat m)) (unat n))
       (copyRows outS inS n ms src)"

definition copyFrame :: "MiaFrame option \<Rightarrow> MiaFrame option \<Rightarrow> (bool \<times> MiaFrame option) outcome" where
  "copyFrame input output =
     (case (input, output) of
        (Some i, Some out) \<Rightarrow>
          let outPlaneStride = planeStride (frFormat out); outHeight = fheight (frFormat out);
              inPlaneStride = planeStride (frFormat i); inHeight = fheight (frFormat i);
              copyPlaneStride = (if outPlaneStride > inPlaneStride then inPlaneStride else outPlaneStride);
              copyHeight = (if outHeight > inHeight then inHeight else outHeight)
          in if fformat (frFormat out) \<in> {CAM_FORMAT_YUV_420_NV21, CAM_FORMAT_YUV_420_NV12,
                                          CAM_FORMAT_IMPLEMENTATION_DEFINED} then
               bindE (vec_get (pAddr out) 0) (\<lambda>o0.
               bindE (vec_get (pAddr i) 0) (\<lambda>i0.
               bindE (copyRows outPlaneStride inPlaneStride copyPlaneStride [0..<unat copyHeight] i0 o0) (\<lambda>o0'.
               bindE (vec_get (pAddr out) 1) (\<lambda>o1.
               bindE (vec_get (pAddr i) 1) (\<lambda>i1.
               bindE (copyRows outPlaneStride inPlaneStride copyPlaneStride
                        [0..<unat (drop_bit 1 copyHeight)] i1 o1) (\<lambda>o1'.
                 Inr (True, Some (out\<lparr>pAddr := (pAddr out)[0 := o0', 1 := o1']\<rparr>))))))))
             else Inr (False, output)
      | _ \<Rightarrow> Inr (False, output))"

text \<open>What the rows of one plane should become.\<close>

definition rows_copied :: "nat \<Rightarrow> nat \<Rightarrow> nat \<Rightarrow> nat \<Rightarrow> u8 list \<Rightarrow> u8 list \<Rightarrow> u8 list \<Rightarrow> bool" where
  "rows_copied rows outS inS n src dst dst' \<longleftrightarrow>
     length dst' = length dst \<and>
     (\<forall>r < rows. \<forall>c < n. dst' ! (outS * r + c) = src ! (inS * r + c)) \<and>
     (\<forall>k < length dst. (\<forall>r < rows. \<not> (outS * r \<le> k \<and> k < outS * r + n)) \<longrightarrow> dst' ! k = dst ! k)"

lemma memcpy_nth:
  assumes "doff + n \<le> length dst" and "soff + n \<le> length src"
  shows "\<exists>dst'. memcpy dst doff src soff n = Inr dst' \<and> length dst' = length dst \<and>
    (\<forall>k < length dst. dst' ! k = (if doff \<le> k \<and> k < doff + n then src ! (soff + (k - doff)) else dst ! k))"
proof (intro exI conjI)
  show "memcpy dst doff src soff n = Inr (take doff dst @ take n (drop soff src) @ drop (doff + n) dst)"
    using assms by (simp add: memcpy_def)
  show "length (take doff dst @ take n (drop soff src) @ drop (doff + n) dst) = length dst"
    using assms by simp
  show "\<forall>k < length dst. (take doff dst @ take n (drop soff src) @ drop (doff + n) dst) ! k =
      (if doff \<le> k \<and> k < doff + n then src ! (soff + (k - doff)) else dst ! k)"
    using assms by (auto simp: nth_append)
qed

lemma copyRows_append:
  "copyRows outS inS n (ms @ ms') src dst = bindE (copyRows outS inS n ms src dst) (copyRows outS inS n ms' src)"
proof (induction ms arbitrary: dst)
  case (Cons m ms)
  show ?case
    by (cases "memcpy dst (unat (outS * of_nat m)) src (unat (inS * of_nat m)) (unat n)") (simp_all add: Cons.IH)
qed simp

lemma unat_stride:
  assumes "unat S * m < 2 ^ 32"
  shows "unat (S * of_nat m :: u32) = unat S * m"
  using assms by (simp add: unat_word_ariths unat_of_nat mod_mult_right_eq)

lemma copyRows_rows:
  assumes "unat n \<le> unat outS" and "unat n \<le> unat inS"
    and "rows * unat outS \<le> length dst" and "rows * unat inS \<le> length src"
    and "length dst < 2 ^ 32" and "length src < 2 ^ 32"
  shows "\<exists>dst'. copyRows outS inS n [0..<rows] src dst = Inr dst' \<and>
    rows_copied rows (unat outS) (unat inS) (unat n) src dst dst'"
  using assms(3,4)
proof (induction rows)
  case 0
  then show ?case by (simp add: rows_copied_def)
next
  case (Suc rows)
  let ?o = "unat outS" and ?i = "unat inS" and ?n = "unat n"
  obtain d where d: "copyRows outS inS n [0..<rows] src dst = Inr d" and rc: "rows_copied rows ?o ?i ?n src dst d"
    using Suc by auto
  have len: "length d = length dst" using rc by (simp add: rows_copied_def)
  have fit: "?o * rows + ?n \<le> length d" "?i * rows + ?n \<le> length src"
    using Suc.prems assms(1,2) len by (simp_all add: algebra_simps)
  then have off: "unat (outS * of_nat rows) = ?o * rows" "unat (inS * of_nat rows) = ?i * rows"
    using assms(5,6) len by (simp_all add: unat_stride)
  obtain d' where d': "memcpy d (?o * rows) src (?i * rows) ?n = Inr d'" and ld: "length d' = length d"
    and nth: "\<And>k. k < length d \<Longrightarrow>
      d' ! k = (if ?o * rows \<le> k \<and> k < ?o * rows + ?n then src ! (?i * rows + (k - ?o * rows)) else d ! k)"
    using memcpy_nth [OF fit] by blast
  have "rows_copied (Suc rows) ?o ?i ?n src dst d'"
    unfolding rows_copied_def
  proof (intro conjI allI impI)
    show "length d' = length dst" using ld len by simp
  next
    fix r c assume r: "r < Suc rows" and c: "c < ?n"
    have "?o * r \<le> ?o * rows" using r by simp
    then have k: "?o * r + c < length d" using c fit(1) by linarith
    show "d' ! (?o * r + c) = src ! (?i * r + c)"
    proof (cases "r = rows")
      case True
      then show ?thesis using nth [OF k] c by simp
    next
      case False
      then have "Suc r \<le> rows" using r by simp
      then have "?o * Suc r \<le> ?o * rows" by (rule mult_le_mono2)
      then have "?o * r + c < ?o * rows" using c assms(1) by simp
      then show ?thesis using nth [OF k] rc r c False by (simp add: rows_copied_def)
    qed
  next
    fix k assume k: "k < length dst" and out: "\<forall>r < Suc rows. \<not> (?o * r \<le> k \<and> k < ?o * r + ?n)"
    then have "\<not> (?o * rows \<le> k \<and> k < ?o * rows + ?n)" by blast
    then have "d' ! k = d ! k" using nth [of k] k len by (simp only: if_False)
    also have "\<dots> = dst ! k" using rc k out by (simp add: rows_copied_def)
    finally show "d' ! k = dst ! k" .
  qed
  then show ?case using d d' off by (auto simp: copyRows_append)
qed

subsection \<open>\<open>floatToHalf\<close> and \<open>vSNPrintF\<close>\<close>

text \<open>The argument is the bit pattern of the float.\<close>

definition floatToHalf :: "u32 \<Rightarrow> 16 word" where
  "floatToHalf hex32 =
     (let sign32 = hex32 AND 0x80000000;
          biasedExponent32 = hex32 AND 0x7F800000;
          mantissa32 = hex32 AND 0x007FFFFF
      in if biasedExponent32 = 0 then 0
         else
           let exponent32 = int (unat (drop_bit 23 hex32)) - 127;
               m1 = drop_bit 1 (drop_bit 12 mantissa32 + 1);
               (m2, e2) = (if m1 AND 0x00000400 \<noteq> 0 then (drop_bit 1 m1, exponent32 + 1) else (m1, exponent32));
               sign16 = ucast (drop_bit 16 sign32) :: 16 word;
               biasedExponent16 = word_of_int ((e2 + 15) * 1024) :: 16 word;
               mantissa16 = ucast m2 :: 16 word
           in sign16 OR biasedExponent16 OR mantissa16)"

text \<open>\<open>vsnprintf\<close> reports the length of the untruncated text, or a negative error.\<close>

definition vSNPrintF :: "int \<Rightarrow> nat \<Rightarrow> int" where
  "vSNPrintF numCharWritten sizeDst =
     (if numCharWritten \<ge> int sizeDst \<and> sizeDst > 0 then - 1 else numCharWritten)"

subsection \<open>\<open>getAvailMemory\<close>\<close>

abbreviation NUL :: char where "NUL \<equiv> CHR 0x00"

definition is_digit :: "char \<Rightarrow> bool" where
  "is_digit c = (CHR ''0'' \<le> c \<and> c \<le> CHR ''9'')"

text \<open>A loop that advances while the character satisfies a test.\<close>

fun skipWhile :: "nat \<Rightarrow> (char \<Rightarrow> bool) \<Rightarrow> char list \<Rightarrow> nat \<Rightarrow> nat outcome" where
  "skipWhile 0 P buf p = Inl NoReturn"
| "skipWhile (Suc fuel) P buf p =
     bindE (vec_get buf p) (\<lambda>c. if P c then skipWhile fuel P buf (Suc p) else Inr p)"

definition atoll_digits :: "char list \<Rightarrow> nat" where
  "atoll_digits ds = foldl (\<lambda>n c. 10 * n + (of_char c - 48)) 0 ds"

text \<open>The body for a label of the given length found at \<open>p\<close>.\<close>

definition takeNumber ::
  "nat \<Rightarrow> char list \<Rightarrow> nat \<Rightarrow> nat \<Rightarrow> (char list \<times> nat \<times> nat) outcome" where
  "takeNumber fuel buf p l =
     bindE (skipWhile fuel (\<lambda>c. c = CHR '' '') buf (p + l)) (\<lambda>num.
     bindE (skipWhile fuel is_digit buf num) (\<lambda>q.
     bindE (vec_get buf q) (\<lambda>c.
     bindE (if c \<noteq> NUL
            then bindE (vec_get buf (Suc q)) (\<lambda>c'. Inr (buf[q := NUL], if c' = NUL then q else Suc q))
            else Inr (buf, q)) (\<lambda>(buf', q').
       if int (atoll_digits (take (q - num) (drop num buf))) < 2 ^ 63
       then Inr (buf', q', atoll_digits (take (q - num) (drop num buf)))
       else Inl SignedOverflow))))"

definition label_at :: "char list \<Rightarrow> nat \<Rightarrow> string \<Rightarrow> bool" where
  "label_at buf p s = (take (length s) (drop p buf) = s)"

fun availLoop :: "nat \<Rightarrow> nat \<Rightarrow> char list \<Rightarrow> nat \<Rightarrow> nat \<Rightarrow> u64 \<Rightarrow> u64 outcome" where
  "availLoop 0 n buf p numFound availMem = Inl NoReturn"
| "availLoop (Suc fuel) n buf p numFound availMem =
     bindE (vec_get buf p) (\<lambda>c.
       if c = NUL \<or> numFound \<ge> 2 then Inr availMem
       else if label_at buf p ''MemFree:'' then
         bindE (takeNumber n buf p 8) (\<lambda>(buf', p', v).
           availLoop fuel n buf' (Suc p') (Suc numFound) (availMem + of_nat v))
       else if label_at buf p ''Cached:'' then
         bindE (takeNumber n buf p 7) (\<lambda>(buf', p', v).
           availLoop fuel n buf' (Suc p') (Suc numFound) (availMem + of_nat v))
       else availLoop fuel n buf (Suc p) numFound availMem)"

text \<open>
  The argument is what reading the file gave, \<open>None\<close> for a failure, and the initial contents
  of the buffer on the stack.
\<close>

definition getAvailMemory :: "char list option \<Rightarrow> char list \<Rightarrow> u64 outcome" where
  "getAvailMemory readResult stack =
     (case readResult of
        None \<Rightarrow> Inr 0
      | Some content \<Rightarrow>
          let got = take 255 content; buffer = got @ NUL # drop (Suc (length got)) stack
          in availLoop (Suc (length buffer)) (Suc (length buffer)) buffer 0 0 0)"

lemma skipWhile_spec:
  assumes "length buf - p < fuel"
  shows "comes_back (skipWhile fuel P buf p)" and "skipWhile fuel P buf p = Inr q \<Longrightarrow> p \<le> q"
proof -
  show "comes_back (skipWhile fuel P buf p)"
    using assms
  proof (induction fuel arbitrary: p)
    case (Suc fuel)
    show ?case using Suc.IH [of "Suc p"] Suc.prems by (auto simp: vec_get_Inr intro!: comes_back_bindE)
  qed simp
  show "skipWhile fuel P buf p = Inr q \<Longrightarrow> p \<le> q"
  proof (induction fuel arbitrary: p)
    case (Suc fuel)
    then show ?case by (auto simp: bindE_eq_Inr split: if_splits dest: Suc.IH)
  qed simp
qed

lemma takeNumber_spec:
  assumes "length buf < fuel"
  shows "comes_back (takeNumber fuel buf p l)"
    and "takeNumber fuel buf p l = Inr (buf', p', v) \<Longrightarrow> p \<le> p' \<and> length buf' = length buf"
proof -
  have sw: "comes_back (skipWhile fuel P buf q)" for P q using skipWhile_spec(1) assms by simp
  show "comes_back (takeNumber fuel buf p l)"
    unfolding takeNumber_def
    by (intro comes_back_bindE sw) (auto simp: comes_back_def bindE_eq_Inl vec_get_def split: if_splits)
  assume "takeNumber fuel buf p l = Inr (buf', p', v)"
  then obtain num q where n: "skipWhile fuel (\<lambda>c. c = CHR '' '') buf (p + l) = Inr num"
    and q: "skipWhile fuel is_digit buf num = Inr q" and b: "length buf' = length buf" "q \<le> p'"
    unfolding takeNumber_def by (auto simp: bindE_eq_Inr split: if_splits)
  show "p \<le> p' \<and> length buf' = length buf"
    using skipWhile_spec(2) [OF _ n] skipWhile_spec(2) [OF _ q] assms b by linarith
qed

lemma availLoop_comes_back:
  assumes "length buf < n" and "length buf - p < fuel"
  shows "comes_back (availLoop fuel n buf p numFound availMem)"
  using assms
proof (induction fuel arbitrary: buf p numFound availMem)
  case (Suc fuel)
  have step: "comes_back (availLoop fuel n buf' (Suc p') k v)"
    if "p < length buf" "p \<le> p'" "length buf' = length buf" for buf' p' k v
    using Suc.IH [of buf' "Suc p'"] Suc.prems that by simp
  have num: "comes_back (bindE (takeNumber n buf p l) (\<lambda>(buf', p', v). availLoop fuel n buf' (Suc p') k (m + of_nat v)))"
    if "p < length buf" for l k m
    using takeNumber_spec [OF Suc.prems(1), of p l] step [OF that] by (auto intro!: comes_back_bindE)
  show ?case
    unfolding availLoop.simps
    by (intro comes_back_bindE) (auto simp: vec_get_Inr intro!: num step)
qed simp

subsection \<open>Properties\<close>

text \<open>C24: for each of the five two-plane formats, at most 16384 by 16384 pixels and paddings of
  1 to 4096, no computation overflows or wraps; both planes have the same stride, which holds a
  row of samples (of two bytes for P010) and is a multiple of the width padding (of 256 for
  P010); the planes have the rows of the image; the length of each plane is its stride times
  its scanlines, rounded up to the plane padding; and the frame length is the sum of the two,
  rounded up to the page size.\<close>

theorem yuv_frame_holds_image:
  fixes w h :: nat
  assumes "is_yuv (fformat fmt) \<or> fformat fmt = CAM_FORMAT_P010"
    and "fwidth fmt = of_nat w" and "fheight fmt = of_nat h" and "w \<le> 16384" and "h \<le> 16384"
    and "width_padding pad = of_nat pw" "0 < pw" "pw \<le> 4096" and "height_padding pad = of_nat ph" "0 < ph" "ph \<le> 4096"
    and "plane_padding pad = of_nat pp" "0 < pp" "pp \<le> 4096" and "length (mp b) = 3"
  shows "\<exists>b' S L M l0 l1. calcOffset fmt (Some pad) (Some b) = Inr (MIAS_OK, Some b') \<and>
    num_planes b' = 2 \<and>
    lstride (mp b' ! 0) = int S \<and> lstride (mp b' ! 1) = int S \<and>
    (if fformat fmt = CAM_FORMAT_P010 then 2 * w \<le> S \<and> 256 dvd S else w \<le> S \<and> pw dvd S) \<and>
    lscanline (mp b' ! 0) = int L \<and> h \<le> L \<and> lscanline (mp b' ! 1) = int M \<and> h div 2 \<le> M \<and>
    unat (llen (mp b' ! 0)) = l0 \<and> S * L \<le> l0 \<and> l0 < S * L + pp \<and> pp dvd l0 \<and>
    unat (llen (mp b' ! 1)) = l1 \<and> S * M \<le> l1 \<and> l1 < S * M + pp \<and> pp dvd l1 \<and>
    l0 + l1 \<le> unat (frame_len b') \<and> unat (frame_len b') < l0 + l1 + 4096 \<and> 4096 dvd unat (frame_len b')"
proof -
  let ?f = "fformat fmt"
  let ?S = "yuv_stride ?f pw w" and ?L = "yuv_scanline ?f ph h" and ?M = "yuv_scanline1 ?f ph pp h"
  let ?l0 = "ceil_to pp (?S * ?L)" and ?l1 = "ceil_to pp (?S * ?M)"
  note dims = yuv_dims [OF assms(4,5,7,8,10,11,13,14), of ?f]
  note p = ceil_to_bounds [OF assms(13)]
  note F = ceil_to_bounds [of 4096 "?l0 + ?l1", simplified]
  have u: "unat (of_nat ?l0 :: u32) = ?l0" "unat (of_nat ?l1 :: u32) = ?l1"
    "unat (of_nat (ceil_to 4096 (?l0 + ?l1)) :: u32) = ceil_to 4096 (?l0 + ?l1)"
    using p(2) [of "?S * ?L"] p(2) [of "?S * ?M"] F(2) dims(4,5) assms(14) by (simp_all add: unat_of_nat del: of_nat_mult of_nat_add)
  have S: "if ?f = CAM_FORMAT_P010 then 2 * w \<le> ?S \<and> 256 dvd ?S else w \<le> ?S \<and> pw dvd ?S"
    using ceil_to_bounds(1) [of 256 "2 * w"] ceil_to_bounds(1) [OF assms(7), of w] by (simp add: yuv_stride_def)
  have L: "h \<le> ?L"
    using ceil_to_bounds(1) [of 32 h] ceil_to_bounds(1) [OF assms(10), of h] by (simp add: yuv_scanline_def)
  have "h div 2 \<le> ceil_to ph h div 2" using ceil_to_bounds(1) [OF assms(10), of h] by (rule div_le_mono)
  then have M: "h div 2 \<le> ?M"
    using ceil_to_bounds(1) [of 16 "h div 2"] p(1) [of "ceil_to ph h div 2"] by (simp add: yuv_scanline1_def)
  show ?thesis
    by (rule exI, rule exI [of _ ?S], rule exI [of _ ?L], rule exI [of _ ?M], rule exI [of _ ?l0], rule exI [of _ ?l1],
        rule conjI, rule calcOffset_two_planes [OF assms(1-14)])
      (use assms(15) u S L M p F in \<open>simp add: plane_def del: of_nat_mult of_nat_add\<close>)
qed

definition blank_plane :: LenOffset where
  "blank_plane = plane 0 0 0 0 0"

definition blank_info :: LenOffsetInfo where
  "blank_info = \<lparr>num_planes = 0, mp = [blank_plane, blank_plane, blank_plane], frame_len = 0\<rparr>"

definition mk_format :: "u32 \<Rightarrow> u32 \<Rightarrow> u32 \<Rightarrow> FrameInfo" where
  "mk_format f w h = \<lparr>fformat = f, fwidth = w, fheight = h, planeStride = w, sliceheight = h, cameraId = 0\<rparr>"

theorem yuv_frame_holds_image_witness:
  "\<exists>b' l0 l1. calcOffset (mk_format CAM_FORMAT_P010 4000 3000) (Some pad64) (Some blank_info) =
      Inr (MIAS_OK, Some b') \<and> num_planes b' = 2 \<and>
    unat (llen (mp b' ! 0)) = l0 \<and> unat (llen (mp b' ! 1)) = l1 \<and> 64 dvd l0 \<and> 64 dvd l1 \<and>
    l0 + l1 \<le> unat (frame_len b') \<and> 4096 dvd unat (frame_len b')"
  using yuv_frame_holds_image [of "mk_format CAM_FORMAT_P010 4000 3000" 4000 3000 pad64 64 64 64 blank_info]
  by (auto simp: mk_format_def blank_info_def pad64_def)

text \<open>For the format Y16 the layout succeeds but leaves the frame length as the caller had it,
  so the length that \<open>allocateIonBuffer\<close> allocates is the uninitialised one.\<close>

theorem y16_frame_len_untouched:
  assumes "fformat fmt = CAM_FORMAT_Y16" and "calcOffset fmt (Some pad) (Some b) = Inr (r, Some b')"
  shows "r = MIAS_OK \<and> frame_len b' = frame_len b"
  using assms by (auto simp: calcOffset_def Let_def bindE_eq_Inr one_plane_def)

theorem y16_frame_len_untouched_witness:
  "\<exists>b'. calcOffset (mk_format CAM_FORMAT_Y16 64 64) (Some pad64) (Some (blank_info\<lparr>frame_len := 7\<rparr>)) =
      Inr (MIAS_OK, Some b') \<and> frame_len b' = 7"
proof -
  let ?b = "blank_info\<lparr>frame_len := 7\<rparr>"
  have "(case calcOffset (mk_format CAM_FORMAT_Y16 64 64) (Some pad64) (Some ?b) of
      Inr (_, Some _) \<Rightarrow> True | _ \<Rightarrow> False)"
    by code_simp
  then obtain r b' where c: "calcOffset (mk_format CAM_FORMAT_Y16 64 64) (Some pad64) (Some ?b) = Inr (r, Some b')"
    by (auto split: sum.splits option.splits)
  from y16_frame_len_untouched [OF _ this] have "r = MIAS_OK \<and> frame_len b' = frame_len ?b"
    by (simp add: mk_format_def)
  then show ?thesis using c by simp
qed

text \<open>A frame copy between two frames whose planes hold their rows succeeds, and in both planes
  every byte of the common rows and columns is the input's while all other bytes of the output
  keep their value.\<close>

theorem copyFrame_copies:
  assumes "fformat (frFormat fo) \<in> {CAM_FORMAT_YUV_420_NV21, CAM_FORMAT_YUV_420_NV12, CAM_FORMAT_IMPLEMENTATION_DEFINED}"
    and "pAddr fi = [i0, i1]" and "pAddr fo = [o0, o1]"
  defines "rows \<equiv> unat (min (fheight (frFormat fi)) (fheight (frFormat fo)))"
    and "cols \<equiv> unat (min (planeStride (frFormat fi)) (planeStride (frFormat fo)))"
    and "is \<equiv> unat (planeStride (frFormat fi))" and "os \<equiv> unat (planeStride (frFormat fo))"
  assumes "rows * is \<le> length i0" and "rows * os \<le> length o0"
    and "rows div 2 * is \<le> length i1" and "rows div 2 * os \<le> length o1"
    and "\<forall>p \<in> {i0, i1, o0, o1}. length p < 2 ^ 32"
  shows "\<exists>o0' o1'. copyFrame (Some fi) (Some fo) = Inr (True, Some (fo\<lparr>pAddr := [o0', o1']\<rparr>)) \<and>
    rows_copied rows os is cols i0 o0 o0' \<and> rows_copied (rows div 2) os is cols i1 o1 o1'"
proof -
  let ?O = "planeStride (frFormat fo)" and ?I = "planeStride (frFormat fi)"
  let ?n = "if ?O > ?I then ?I else ?O"
  let ?h = "if fheight (frFormat fo) > fheight (frFormat fi) then fheight (frFormat fi) else fheight (frFormat fo)"
  have n: "unat ?n = cols" "unat ?n \<le> os" "unat ?n \<le> is"
    unfolding cols_def is_def os_def by (auto simp: min_def word_less_nat_alt word_le_nat_alt)
  have h: "unat ?h = rows" unfolding rows_def by (auto simp: min_def)
  have h2: "unat (drop_bit 1 ?h) = rows div 2" unfolding unat_drop_bit_eq h by (simp add: drop_bit_eq_div)
  obtain o0' where 0: "copyRows ?O ?I ?n [0..<rows] i0 o0 = Inr o0'" "rows_copied rows os is cols i0 o0 o0'"
    using copyRows_rows [of ?n ?O ?I rows o0 i0] n assms(8,9,12) by (auto simp: is_def os_def)
  obtain o1' where 1: "copyRows ?O ?I ?n [0..<rows div 2] i1 o1 = Inr o1'"
      "rows_copied (rows div 2) os is cols i1 o1 o1'"
    using copyRows_rows [of ?n ?O ?I "rows div 2" o1 i1] n assms(10,11,12) by (auto simp: is_def os_def)
  have "copyFrame (Some fi) (Some fo) = Inr (True, Some (fo\<lparr>pAddr := [o0', o1']\<rparr>))"
    using assms(1) 0(1) 1(1) unfolding copyFrame_def Let_def
    by (simp only: option.case prod.case h h2 assms(2,3)) simp
  then show ?thesis using 0(2) 1(2) by blast
qed

definition gray_frame :: "u32 \<Rightarrow> u32 \<Rightarrow> u8 \<Rightarrow> MiaFrame" where
  "gray_frame w h v = \<lparr>frFormat = mk_format CAM_FORMAT_YUV_420_NV12 w h,
     pAddr = [replicate (unat w * unat h) v, replicate (unat w * unat h div 2) v]\<rparr>"

theorem copyFrame_copies_witness:
  "\<exists>o0' o1'. copyFrame (Some (gray_frame 4 2 1)) (Some (gray_frame 6 4 2)) =
      Inr (True, Some ((gray_frame 6 4 2)\<lparr>pAddr := [o0', o1']\<rparr>)) \<and>
    rows_copied 2 6 4 4 (replicate 8 1) (replicate 24 2) o0' \<and>
    rows_copied 1 6 4 4 (replicate 4 1) (replicate 12 2) o1'"
  using copyFrame_copies [where fi = "gray_frame 4 2 1" and fo = "gray_frame 6 4 2" and
    ?i0.0 = "replicate 8 1" and ?i1.0 = "replicate 4 1" and ?o0.0 = "replicate 24 2" and ?o1.0 = "replicate 12 2"]
  by (simp add: gray_frame_def mk_format_def min_def)

text \<open>Reading the memory information comes back for every content of the file and every
  initial content of the stack buffer.\<close>

theorem avail_memory_comes_back: "getAvailMemory content stack \<noteq> Inl NoReturn"
proof (cases content)
  case (Some c)
  then show ?thesis
    using availLoop_comes_back [of "take 255 c @ NUL # drop (Suc (length (take 255 c))) stack" _ 0]
    unfolding getAvailMemory_def Let_def comes_back_def by (auto simp del: availLoop.simps)
qed (simp add: getAvailMemory_def)

text \<open>When the bytes read end in the middle of a number, the parser steps over the terminator
  and goes on in the stale part of its buffer: 12 kB free are reported as 19 kB.\<close>

theorem avail_memory_overruns:
  "getAvailMemory (Some ''MemFree: 12'') (replicate 12 CHR ''x'' @ ''Cached: 7 kB'' @ replicate 232 CHR ''x'') = Inr 19"
  by code_simp

text \<open>A mantissa that rounds up to the next power of two keeps the halved mantissa bits: the
  float just below 2.0 is converted to the half with value 3.0.\<close>

theorem half_rounds_to_wrong_binade: "floatToHalf 0x3FFFFFFF = 0x4200"
  by code_simp

end
