(* ===== verification/BufferManager.thy ===== *)
theory BufferManager
  imports FrameUtil "HOL-Library.Multiset"
begin

text \<open>
  The pool of image buffers (\<^verbatim>\<open>mivifwk/mialgoengine/MiaBufferManager.cpp\<close> and \<^verbatim>\<open>.h\<close>).  Buffer
  descriptors live on a heap of addresses, ion buffers hold a file descriptor and a mapping
  of the process.  What \<open>malloc\<close>, the dma-buf heap, \<open>mmap\<close> and gralloc answer is an argument.
\<close>

datatype buffer_type = GRALLOC_TYPE | ION_TYPE

record IonBufHandle =
  ibuffer :: "int option"
  buffer_len :: u32
  data_fd :: int

record MiaBufferHandle =
  btype :: buffer_type
  nativeSize :: u64
  ionHandle :: IonBufHandle

record kernel =
  openFds :: "int list"
  mappings :: "(int \<times> u32) list"

text \<open>The answers of the three calls of one ion allocation.\<close>

record ion_answers =
  heapFd :: int
  mmapAddr :: "int option"
  syncRet :: int

definition page_round :: "u32 \<Rightarrow> u32" where
  "page_round sz = (sz + 4095) AND NOT 4095"

definition k_close :: "int \<Rightarrow> kernel \<Rightarrow> kernel" where
  "k_close fd k = k\<lparr>openFds := remove1 fd (openFds k)\<rparr>"

definition k_munmap :: "int \<Rightarrow> u32 \<Rightarrow> kernel \<Rightarrow> kernel" where
  "k_munmap a l k = k\<lparr>mappings := remove1 (a, l) (mappings k)\<rparr>"

definition ionMemAlloc :: "ion_answers \<Rightarrow> IonBufHandle \<Rightarrow> u32 \<Rightarrow> kernel \<Rightarrow> int \<times> IonBufHandle \<times> kernel" where
  "ionMemAlloc ans handle sz k =
     (let l = page_round sz; dataFd = heapFd ans
      in if dataFd < 0 then (- 1, handle, k)
         else
           let k1 = k\<lparr>openFds := dataFd # openFds k\<rparr>
           in case mmapAddr ans of
                None \<Rightarrow> (- 1, handle, k_close dataFd k1)
              | Some virtualAddr \<Rightarrow>
                  let k2 = k1\<lparr>mappings := (virtualAddr, l) # mappings k1\<rparr>
                  in if syncRet ans \<noteq> 0
                     then (- 1, handle, k_close dataFd (k_munmap virtualAddr l k2))
                     else (syncRet ans,
                           handle\<lparr>data_fd := dataFd, ibuffer := Some virtualAddr, buffer_len := sz\<rparr>, k2))"

definition ionMemFree :: "IonBufHandle \<Rightarrow> kernel \<Rightarrow> IonBufHandle \<times> kernel" where
  "ionMemFree handle k =
     (let l = page_round (buffer_len handle);
          (h1, k1) = (case ibuffer handle of
                        None \<Rightarrow> (handle, k)
                      | Some a \<Rightarrow> (handle\<lparr>ibuffer := None\<rparr>, k_munmap a l k))
      in if data_fd h1 \<ge> 0 then (h1\<lparr>data_fd := - 1\<rparr>, k_close (data_fd h1) k1) else (h1, k1))"

record MiaBufferManager =
  m_width :: u32
  m_height :: u32
  m_format :: u32
  mBufferList :: "nat list"
  mBufferOutList :: "nat list"
  mNumBuffers :: u32
  mType :: buffer_type
  mTotalIonMem :: u64
  mTotalIonBufferNums :: u64
  bheap :: "nat \<Rightarrow> MiaBufferHandle option"
  bkernel :: kernel

text \<open>The size an allocated buffer is accounted with: gralloc's answer or the ion length.\<close>

definition accounted :: "MiaBufferHandle \<Rightarrow> u64" where
  "accounted b = (case btype b of GRALLOC_TYPE \<Rightarrow> nativeSize b | ION_TYPE \<Rightarrow> ucast (buffer_len (ionHandle b)))"

definition onbuffersAllocated :: "MiaBufferHandle \<Rightarrow> MiaBufferManager \<Rightarrow> MiaBufferManager" where
  "onbuffersAllocated b m =
     m\<lparr>mTotalIonMem := mTotalIonMem m + accounted b, mTotalIonBufferNums := mTotalIonBufferNums m + 1\<rparr>"

definition onbuffersReleased :: "MiaBufferHandle \<Rightarrow> MiaBufferManager \<Rightarrow> MiaBufferManager" where
  "onbuffersReleased b m =
     m\<lparr>mTotalIonMem := mTotalIonMem m - accounted b, mTotalIonBufferNums := mTotalIonBufferNums m - 1\<rparr>"

text \<open>The answers during one round of the allocation loop, and the stack's layout structure.\<close>

record alloc_answers =
  mallocRes :: "nat option"
  grallocSize :: u64
  ionRes :: ion_answers
  stackInfo :: LenOffsetInfo

definition blankIon :: IonBufHandle where
  "blankIon = \<lparr>ibuffer = None, buffer_len = 0, data_fd = 0\<rparr>"

definition allocateIonBuffer ::
  "alloc_answers \<Rightarrow> u32 \<Rightarrow> u32 \<Rightarrow> u32 \<Rightarrow> IonBufHandle \<Rightarrow> kernel \<Rightarrow>
     (CDKResult \<times> IonBufHandle \<times> kernel) outcome" where
  "allocateIonBuffer ans width height format allocatedBuffer k =
     bindE (calcOffset \<lparr>fformat = format, fwidth = width, fheight = height, planeStride = 0, sliceheight = 0,
                        cameraId = 0\<rparr> (Some pad64) (Some (stackInfo ans))) (\<lambda>(rc, info).
       if rc \<noteq> MIAS_OK then Inr (rc, allocatedBuffer, k)
       else (case info of
               None \<Rightarrow> Inl NullDeref
             | Some offsetInfo \<Rightarrow>
                 (case ionMemAlloc (ionRes ans) allocatedBuffer (frame_len offsetInfo) k of
                    (ret, h, k') \<Rightarrow> if ret \<noteq> 0 then Inr (MIAS_NO_MEM, h, k') else Inr (MIAS_OK, h, k'))))"

definition pushBuffer :: "nat \<Rightarrow> MiaBufferHandle \<Rightarrow> MiaBufferManager \<Rightarrow> MiaBufferManager" where
  "pushBuffer a b m =
     (let m1 = onbuffersAllocated b (m\<lparr>bheap := (bheap m)(a \<mapsto> b)\<rparr>)
      in m1\<lparr>mBufferList := mBufferList m1 @ [a], mNumBuffers := mNumBuffers m1 + 1\<rparr>)"

fun allocLoop ::
  "alloc_answers list \<Rightarrow> u32 \<Rightarrow> u32 \<Rightarrow> u32 \<Rightarrow> MiaBufferManager \<times> nat \<Rightarrow> (MiaBufferManager \<times> nat) outcome" where
  "allocLoop [] width height format acc = Inr acc"
| "allocLoop (ans # rest) width height format (m, n) =
     (case mallocRes ans of
        None \<Rightarrow> allocLoop rest width height format (m, n)
      | Some a \<Rightarrow>
          (case mType m of
             GRALLOC_TYPE \<Rightarrow>
               allocLoop rest width height format
                 (pushBuffer a \<lparr>btype = GRALLOC_TYPE, nativeSize = grallocSize ans, ionHandle = blankIon\<rparr> m, Suc n)
           | ION_TYPE \<Rightarrow>
               bindE (allocateIonBuffer ans width height format blankIon (bkernel m)) (\<lambda>(result, h, k).
                 if result = MIAS_OK
                 then allocLoop rest width height format
                        (pushBuffer a \<lparr>btype = ION_TYPE, nativeSize = 0, ionHandle = h\<rparr> (m\<lparr>bkernel := k\<rparr>), Suc n)
                 else allocLoop rest width height format (m\<lparr>bkernel := k\<rparr>, n))))"

text \<open>One list entry per requested buffer.\<close>

definition allocateBuffers ::
  "alloc_answers list \<Rightarrow> u32 \<Rightarrow> u32 \<Rightarrow> u32 \<Rightarrow> MiaBufferManager \<Rightarrow> (CDKResult \<times> MiaBufferManager) outcome" where
  "allocateBuffers answers width height format m =
     bindE (allocLoop answers width height format (m, 0)) (\<lambda>(m', n).
       Inr (if n > 0 then MIAS_OK else MIAS_NO_MEM, m'))"

definition allocateMoreBuffers ::
  "alloc_answers list \<Rightarrow> MiaBufferManager \<Rightarrow> (CDKResult \<times> MiaBufferManager) outcome" where
  "allocateMoreBuffers answers m = allocateBuffers answers (m_width m) (m_height m) (m_format m) m"

record BufferManagerCreateData =
  cd_width :: u32
  cd_height :: u32
  cd_format :: u32
  cd_bufferType :: buffer_type

text \<open>\<open>m\<close> is the fresh object: \<open>new\<close> leaves the heap and the kernel as they are.\<close>

definition initialize ::
  "alloc_answers list \<Rightarrow> BufferManagerCreateData \<Rightarrow> MiaBufferManager \<Rightarrow> (CDKResult \<times> MiaBufferManager) outcome" where
  "initialize answers cd m =
     (let m0 = m\<lparr>mNumBuffers := 0, mBufferList := [], mBufferOutList := [], mType := cd_bufferType cd,
                 mTotalIonMem := 0, mTotalIonBufferNums := 0\<rparr>
      in bindE (allocateBuffers answers (cd_width cd) (cd_height cd) (cd_format cd) m0) (\<lambda>(result, m').
           Inr (result, m'\<lparr>m_width := cd_width cd, m_height := cd_height cd, m_format := cd_format cd\<rparr>)))"

definition freeOneBuffer :: "nat \<Rightarrow> MiaBufferManager \<Rightarrow> MiaBufferManager outcome" where
  "freeOneBuffer a m =
     (case bheap m a of
        None \<Rightarrow> Inl BadFree
      | Some b \<Rightarrow>
          (case btype b of
             GRALLOC_TYPE \<Rightarrow> Inr (onbuffersReleased b m)
           | ION_TYPE \<Rightarrow>
               (case ionMemFree (ionHandle b) (bkernel m) of (h, k) \<Rightarrow>
                  let m1 = onbuffersReleased b m
                  in Inr (m1\<lparr>bheap := (bheap m1)(a \<mapsto> b\<lparr>ionHandle := h\<rparr>), bkernel := k\<rparr>))))"

definition heap_free :: "nat \<Rightarrow> MiaBufferManager \<Rightarrow> MiaBufferManager" where
  "heap_free a m = m\<lparr>bheap := (bheap m)(a := None)\<rparr>"

definition releaseImageBuffer :: "nat option \<Rightarrow> MiaBufferManager \<Rightarrow> MiaBufferManager outcome" where
  "releaseImageBuffer bufferHandle m =
     (case bufferHandle of
        None \<Rightarrow> Inr m
      | Some a \<Rightarrow>
          let m1 = m\<lparr>mBufferOutList := remove1 a (mBufferOutList m)\<rparr>
          in bindE (freeOneBuffer a m1) (\<lambda>m2.
               let m3 = heap_free a m2 in Inr (m3\<lparr>mNumBuffers := mNumBuffers m3 - 1\<rparr>)))"

fun freeList :: "nat list \<Rightarrow> MiaBufferManager \<Rightarrow> MiaBufferManager outcome" where
  "freeList [] m = Inr (m\<lparr>mBufferList := []\<rparr>)"
| "freeList (a # as) m = bindE (freeOneBuffer a m) (\<lambda>m1. freeList as (heap_free a (m1\<lparr>mBufferList := as\<rparr>)))"

definition freeAllBuffers :: "MiaBufferManager \<Rightarrow> MiaBufferManager outcome" where
  "freeAllBuffers m = freeList (mBufferList m) m"

definition bm_destroy :: "MiaBufferManager \<Rightarrow> MiaBufferManager outcome" where
  "bm_destroy m = freeAllBuffers m"

text \<open>The manager if it could be initialised; otherwise it is destroyed and deleted.\<close>

definition bm_create ::
  "alloc_answers list \<Rightarrow> BufferManagerCreateData \<Rightarrow> MiaBufferManager \<Rightarrow>
     (MiaBufferManager option \<times> MiaBufferManager) outcome" where
  "bm_create answers cd m =
     bindE (initialize answers cd m) (\<lambda>(result, m').
       if result \<noteq> MIAS_OK then bindE (bm_destroy m') (\<lambda>m''. Inr (None, m''))
       else Inr (Some m', m'))"

definition getBuffer :: "MiaBufferManager \<Rightarrow> nat option \<times> MiaBufferManager" where
  "getBuffer m =
     (case mBufferList m of
        [] \<Rightarrow> (None, m)
      | b # bs \<Rightarrow> (Some b, m\<lparr>mBufferOutList := mBufferOutList m @ [b], mBufferList := bs\<rparr>))"

definition getCPUAddress :: "mia_env \<Rightarrow> int list option \<Rightarrow> (int \<Rightarrow> int option) \<Rightarrow> int option outcome" where
  "getCPUAddress env bufferHandle mmap_of =
     (case bufferHandle of
        None \<Rightarrow> Inr None
      | Some data \<Rightarrow>
          bindE (vec_get data (if Soc env = QCOM then 0 else 1)) (\<lambda>fd.
            Inr (case mmap_of fd of None \<Rightarrow> None | Some a \<Rightarrow> (if a = 0 then None else Some a))))"

subsection \<open>Allocating and freeing one ion buffer\<close>

lemma ionMemAlloc_failed:
  "ionMemAlloc ans h sz k = (ret, h', k') \<Longrightarrow> ret \<noteq> 0 \<Longrightarrow> h' = h \<and> k' = k"
  by (auto simp: ionMemAlloc_def Let_def k_close_def k_munmap_def split: if_splits option.splits)

lemma ionMemAlloc_ok:
  assumes "ionMemAlloc ans h sz k = (0, h', k')"
  obtains fd a where "0 \<le> fd" "h' = h\<lparr>data_fd := fd, ibuffer := Some a, buffer_len := sz\<rparr>"
    "openFds k' = fd # openFds k" "mappings k' = (a, page_round sz) # mappings k"
  using assms by (auto simp: ionMemAlloc_def Let_def split: if_splits option.splits)

subsection \<open>The invariant of the pool\<close>

definition pool :: "MiaBufferManager \<Rightarrow> nat list" where
  "pool m = mBufferList m @ mBufferOutList m"

definition hget :: "MiaBufferManager \<Rightarrow> nat \<Rightarrow> MiaBufferHandle" where
  "hget m a = the (bheap m a)"

definition fds_of :: "MiaBufferHandle \<Rightarrow> int multiset" where
  "fds_of b = (if btype b = ION_TYPE \<and> data_fd (ionHandle b) \<ge> 0 then {#data_fd (ionHandle b)#} else {#})"

definition maps_of :: "MiaBufferHandle \<Rightarrow> (int \<times> u32) multiset" where
  "maps_of b = (case (btype b, ibuffer (ionHandle b)) of
     (ION_TYPE, Some a) \<Rightarrow> {#(a, page_round (buffer_len (ionHandle b)))#} | _ \<Rightarrow> {#})"

text \<open>
  Counters and totals are those of the pool, every buffer of the pool is alive and in one list
  only, and beyond what the process had before (\<open>base\<close>) exactly the descriptors and mappings
  of the pool's buffers are held.
\<close>

definition bm_ok :: "kernel \<Rightarrow> MiaBufferManager \<Rightarrow> bool" where
  "bm_ok base m \<longleftrightarrow>
     distinct (pool m) \<and> (\<forall>a \<in> set (pool m). bheap m a \<noteq> None) \<and>
     mNumBuffers m = of_nat (length (pool m)) \<and>
     mTotalIonBufferNums m = of_nat (length (pool m)) \<and>
     mTotalIonMem m = sum_list (map (\<lambda>a. accounted (hget m a)) (pool m)) \<and>
     mset (openFds (bkernel m)) = mset (openFds base) + sum_list (map (\<lambda>a. fds_of (hget m a)) (pool m)) \<and>
     mset (mappings (bkernel m)) = mset (mappings base) + sum_list (map (\<lambda>a. maps_of (hget m a)) (pool m))"

lemma bm_ok_getBuffer:
  assumes "bm_ok base m"
  shows "bm_ok base (snd (getBuffer m))"
proof (cases "mBufferList m")
  case (Cons b bs)
  have "pool (snd (getBuffer m)) = bs @ mBufferOutList m @ [b]" "pool m = b # bs @ mBufferOutList m"
    "hget (snd (getBuffer m)) = hget m" "bheap (snd (getBuffer m)) = bheap m"
    "mNumBuffers (snd (getBuffer m)) = mNumBuffers m" "bkernel (snd (getBuffer m)) = bkernel m"
    "mTotalIonMem (snd (getBuffer m)) = mTotalIonMem m" "mTotalIonBufferNums (snd (getBuffer m)) = mTotalIonBufferNums m"
    using Cons by (auto simp: getBuffer_def pool_def hget_def)
  then show ?thesis using assms by (auto simp: bm_ok_def ac_simps)
qed (use assms in \<open>simp add: getBuffer_def\<close>)

lemma pool_map_fresh:
  assumes "\<forall>a \<in> set xs. a \<noteq> c"
  shows "map (\<lambda>a. f (the (((h(c := v)) a)))) xs = map (\<lambda>a. f (the (h a))) xs"
  using assms by auto

lemma bm_ok_push:
  assumes "bm_ok base m" and "bheap m a = None"
    and "mset (openFds k) = mset (openFds (bkernel m)) + fds_of b"
    and "mset (mappings k) = mset (mappings (bkernel m)) + maps_of b"
  shows "bm_ok base (pushBuffer a b (m\<lparr>bkernel := k\<rparr>))"
proof -
  let ?m = "pushBuffer a b (m\<lparr>bkernel := k\<rparr>)"
  have fr: "a \<notin> set (pool m)" using assms(1,2) by (auto simp: bm_ok_def)
  have eqs: "pool ?m = mBufferList m @ [a] @ mBufferOutList m" "bheap ?m = (bheap m)(a \<mapsto> b)"
    "mNumBuffers ?m = mNumBuffers m + 1" "mTotalIonBufferNums ?m = mTotalIonBufferNums m + 1"
    "mTotalIonMem ?m = mTotalIonMem m + accounted b" "bkernel ?m = k"
    by (simp_all add: pushBuffer_def onbuffersAllocated_def pool_def Let_def)
  have new: "\<And>f. map (\<lambda>x. f (hget ?m x)) (mBufferList m) = map (\<lambda>x. f (hget m x)) (mBufferList m)"
    "\<And>f. map (\<lambda>x. f (hget ?m x)) (mBufferOutList m) = map (\<lambda>x. f (hget m x)) (mBufferOutList m)"
    "hget ?m a = b"
    using fr unfolding hget_def eqs by (auto simp: pool_def)
  show ?thesis
    using assms fr unfolding bm_ok_def eqs by (auto simp: pool_def new ac_simps)
qed

definition mallocs :: "alloc_answers list \<Rightarrow> nat list" where
  "mallocs answers = List.map_filter mallocRes answers"

text \<open>What \<open>malloc\<close> guarantees: it never hands out an address that is in use.\<close>

definition malloc_ok :: "alloc_answers list \<Rightarrow> MiaBufferManager \<Rightarrow> bool" where
  "malloc_ok answers m \<longleftrightarrow> distinct (mallocs answers) \<and> (\<forall>a \<in> set (mallocs answers). bheap m a = None)"

lemma mallocs_Cons [simp]:
  "mallocs [] = []" "mallocs (x # xs) = (case mallocRes x of None \<Rightarrow> mallocs xs | Some a \<Rightarrow> a # mallocs xs)"
  by (simp_all add: mallocs_def map_filter_simps split: option.split)

lemma bheap_pushBuffer [simp]: "bheap (pushBuffer a b m) = (bheap m)(a \<mapsto> b)"
  by (simp add: pushBuffer_def onbuffersAllocated_def Let_def)

lemma pushBuffer_lists [simp]:
  "mBufferList (pushBuffer a b m) = mBufferList m @ [a]" "mBufferOutList (pushBuffer a b m) = mBufferOutList m"
  "mType (pushBuffer a b m) = mType m"
  by (simp_all add: pushBuffer_def onbuffersAllocated_def Let_def)

lemma allocateIonBuffer_cases:
  assumes "allocateIonBuffer ans w h f blankIon k = Inr (r, ih, k')"
  obtains "r \<noteq> MIAS_OK" "k' = k"
  | "r = MIAS_OK" "mset (openFds k') = mset (openFds k) + fds_of \<lparr>btype = ION_TYPE, nativeSize = 0, ionHandle = ih\<rparr>"
    "mset (mappings k') = mset (mappings k) + maps_of \<lparr>btype = ION_TYPE, nativeSize = 0, ionHandle = ih\<rparr>"
proof -
  consider "r \<noteq> MIAS_OK" "k' = k" | sz where "r = MIAS_OK" "ionMemAlloc (ionRes ans) blankIon sz k = (0, ih, k')"
    using assms unfolding allocateIonBuffer_def
    by (auto simp: bindE_eq_Inr split: if_splits option.splits prod.splits dest: ionMemAlloc_failed)
  then show ?thesis
  proof cases
    case 1
    then show ?thesis by (rule that(1))
  next
    case 2
    from 2(2) show ?thesis
      by (rule ionMemAlloc_ok) (rule that(2) [OF 2(1)]; simp add: fds_of_def maps_of_def)
  qed
qed

lemma malloc_ok_Cons:
  assumes "malloc_ok (ans # rest) m"
  shows "malloc_ok rest m" and "mallocRes ans = Some a \<Longrightarrow> bheap m a = None"
    and "mallocRes ans = Some a \<Longrightarrow> bheap m' = (bheap m)(a \<mapsto> b) \<Longrightarrow> malloc_ok rest m'"
  using assms by (auto simp: malloc_ok_def split: option.splits)

lemma bm_ok_bkernel: "bm_ok base m \<Longrightarrow> k = bkernel m \<Longrightarrow> bm_ok base (m\<lparr>bkernel := k\<rparr>)"
  by (simp add: bm_ok_def pool_def hget_def)

text \<open>Every round keeps the invariant; the counter is the number of buffers added.\<close>

definition grown :: "nat \<Rightarrow> MiaBufferManager \<Rightarrow> nat \<Rightarrow> MiaBufferManager \<Rightarrow> bool" where
  "grown n m n' m' \<longleftrightarrow> mBufferOutList m' = mBufferOutList m \<and> n \<le> n' \<and>
     length (mBufferList m') = length (mBufferList m) + (n' - n)"

lemma grown_trans: "grown n m n1 m1 \<Longrightarrow> grown n1 m1 n' m' \<Longrightarrow> grown n m n' m'"
  by (auto simp: grown_def)

lemma allocLoop_ok:
  assumes "bm_ok base m" and "malloc_ok answers m" and "allocLoop answers w h f (m, n) = Inr (m', n')"
  shows "bm_ok base m' \<and> grown n m n' m'"
  using assms
proof (induction answers arbitrary: m n)
  case Nil
  then show ?case by (simp add: grown_def)
next
  case (Cons ans rest)
  show ?case
  proof (cases "mallocRes ans")
    case None
    then show ?thesis using Cons malloc_ok_Cons(1) by simp
  next
    case (Some a)
    note mok = malloc_ok_Cons(2,3) [OF Cons.prems(2)]
    have push: "bm_ok base m' \<and> grown n m n' m'"
      if "allocLoop rest w h f (pushBuffer a b (m\<lparr>bkernel := k\<rparr>), Suc n) = Inr (m', n')"
        "mset (openFds k) = mset (openFds (bkernel m)) + fds_of b"
        "mset (mappings k) = mset (mappings (bkernel m)) + maps_of b" for b k
    proof -
      have "bm_ok base (pushBuffer a b (m\<lparr>bkernel := k\<rparr>))" using bm_ok_push Cons.prems(1) mok(1) [OF Some] that by blast
      moreover have "malloc_ok rest (pushBuffer a b (m\<lparr>bkernel := k\<rparr>))" using mok(2) [OF Some] by simp
      ultimately have "bm_ok base m' \<and> grown (Suc n) (pushBuffer a b (m\<lparr>bkernel := k\<rparr>)) n' m'"
        using Cons.IH that(1) by blast
      then show ?thesis by (auto simp: grown_def)
    qed
    show ?thesis
    proof (cases "mType m")
      case GRALLOC_TYPE
      then show ?thesis
        using push [where k = "bkernel m" and b = "\<lparr>btype = GRALLOC_TYPE, nativeSize = grallocSize ans, ionHandle = blankIon\<rparr>"]
          Cons.prems(3) Some by (simp add: fds_of_def maps_of_def)
    next
      case ION_TYPE
      obtain x where x: "allocateIonBuffer ans w h f blankIon (bkernel m) = Inr x"
        using Cons.prems(3) Some ION_TYPE by (cases "allocateIonBuffer ans w h f blankIon (bkernel m)") simp_all
      obtain r ih k where r: "allocateIonBuffer ans w h f blankIon (bkernel m) = Inr (r, ih, k)"
        using x by (cases x) blast
      have c: "(if r = MIAS_OK
           then allocLoop rest w h f (pushBuffer a \<lparr>btype = ION_TYPE, nativeSize = 0, ionHandle = ih\<rparr> (m\<lparr>bkernel := k\<rparr>), Suc n)
           else allocLoop rest w h f (m\<lparr>bkernel := k\<rparr>, n)) = Inr (m', n')"
        using Cons.prems(3) Some ION_TYPE r by simp
      from r show ?thesis
      proof (cases rule: allocateIonBuffer_cases)
        case 1
        have "malloc_ok rest (m\<lparr>bkernel := k\<rparr>)" using malloc_ok_Cons(1) [OF Cons.prems(2)] by (simp add: malloc_ok_def)
        moreover have "bm_ok base (m\<lparr>bkernel := k\<rparr>)" using bm_ok_bkernel [OF Cons.prems(1) 1(2)] .
        ultimately have "bm_ok base m' \<and> grown n (m\<lparr>bkernel := k\<rparr>) n' m'" using Cons.IH c 1(1) by simp
        then show ?thesis by (simp add: grown_def)
      next
        case 2
        then show ?thesis using push c by simp
      qed
    qed
  qed
qed

lemma allocateBuffers_ok:
  assumes "bm_ok base m" and "malloc_ok answers m" and "allocateBuffers answers w h f m = Inr (r, m')"
  shows "bm_ok base m' \<and> mBufferOutList m' = mBufferOutList m \<and>
    length (mBufferList m) \<le> length (mBufferList m') \<and>
    (r = MIAS_OK \<longleftrightarrow> length (mBufferList m) < length (mBufferList m')) \<and> r \<in> {MIAS_OK, MIAS_NO_MEM}"
proof -
  obtain n' where l: "allocLoop answers w h f (m, 0) = Inr (m', n')" and r: "r = (if n' > 0 then MIAS_OK else MIAS_NO_MEM)"
    using assms(3) unfolding allocateBuffers_def by (auto simp: bindE_eq_Inr)
  show ?thesis using allocLoop_ok [OF assms(1,2) l] r by (auto simp: grown_def)
qed

subsection \<open>Giving buffers back\<close>

lemma ionMemFree_eq:
  "mset (openFds k) = S + fds_of \<lparr>btype = ION_TYPE, nativeSize = n, ionHandle = h\<rparr> \<Longrightarrow>
     ionMemFree h k = (h', k') \<Longrightarrow> mset (openFds k') = S"
  "mset (mappings k) = T + maps_of \<lparr>btype = ION_TYPE, nativeSize = n, ionHandle = h\<rparr> \<Longrightarrow>
     ionMemFree h k = (h', k') \<Longrightarrow> mset (mappings k') = T"
  by (auto simp: ionMemFree_def Let_def fds_of_def maps_of_def k_close_def k_munmap_def
      split: option.splits if_splits)

text \<open>Taking one buffer out of the lists and freeing it; \<open>rest\<close> is what remains of the pool.\<close>

lemma freeOneBuffer_pool:
  assumes "bm_ok base m" and "mset (pool m) = add_mset a (mset (pool m1))"
    and "m1 = m\<lparr>mBufferList := xs, mBufferOutList := ys\<rparr>"
  shows "\<exists>m2. freeOneBuffer a m1 = Inr m2 \<and> bm_ok base ((heap_free a m2)\<lparr>mNumBuffers := mNumBuffers m - 1\<rparr>) \<and>
    mBufferList m2 = xs \<and> mBufferOutList m2 = ys \<and> mNumBuffers m2 = mNumBuffers m"
proof -
  let ?f = "\<lambda>g. sum_list (map (\<lambda>x. g (hget m x)) (pool m1))"
  have ina: "a \<in> set (pool m)" and dist: "distinct (pool m)"
    using assms(1,2) by (auto simp: bm_ok_def simp flip: set_mset_mset)
  then obtain b where b: "bheap m a = Some b" using assms(1) unfolding bm_ok_def by blast
  have sums: "sum_list (map g (pool m)) = g a + sum_list (map g (pool m1))" for g :: "nat \<Rightarrow> 'c::comm_monoid_add"
    using assms(2) by (metis (no_types, lifting) image_mset_add_mset mset_map sum_mset.add_mset sum_mset_sum_list)
  have rest: "a \<notin> set (pool m1)" "distinct (pool m1)" "set (pool m1) \<subseteq> set (pool m)"
    "length (pool m) = Suc (length (pool m1))"
    using assms(2) dist by (metis distinct.simps(2) mset.simps(2) mset_eq_imp_distinct_iff,
      metis distinct.simps(2) mset.simps(2) mset_eq_imp_distinct_iff,
      metis mset.simps(2) mset_eq_setD set_subset_Cons,
      metis length_Cons mset.simps(2) mset_eq_length)
  have hg: "hget m a = b" using b by (simp add: hget_def)
  have keep: "map (\<lambda>x. g (the ((h(a := v)) x))) (pool m1) = map (\<lambda>x. g (the (h x))) (pool m1)"
    for g :: "MiaBufferHandle \<Rightarrow> 'c" and h v using rest(1) by auto
  have m1: "bheap m1 = bheap m" "bkernel m1 = bkernel m" "mTotalIonMem m1 = mTotalIonMem m"
    "mTotalIonBufferNums m1 = mTotalIonBufferNums m" "mNumBuffers m1 = mNumBuffers m" "mBufferList m1 = xs" "mBufferOutList m1 = ys"
    by (simp_all add: assms(3))
  have tot: "mTotalIonMem m - accounted b = ?f accounted" "mTotalIonBufferNums m - 1 = of_nat (length (pool m1))"
    "mNumBuffers m - 1 = of_nat (length (pool m1))"
    using assms(1) sums [of "\<lambda>x. accounted (hget m x)"] rest(4) hg by (simp_all add: bm_ok_def)
  have held: "mset (openFds (bkernel m)) = (mset (openFds base) + ?f fds_of) + fds_of b"
    "mset (mappings (bkernel m)) = (mset (mappings base) + ?f maps_of) + maps_of b"
    using assms(1) sums [of "\<lambda>x. fds_of (hget m x)"] sums [of "\<lambda>x. maps_of (hget m x)"] hg
    by (simp_all add: bm_ok_def)
  define fin where "fin m2 = (heap_free a m2)\<lparr>mNumBuffers := mNumBuffers m - 1\<rparr>" for m2
  have fin: "bm_ok base (fin m2)"
    if "mBufferList m2 = xs" "mBufferOutList m2 = ys" "mTotalIonMem m2 = mTotalIonMem m - accounted b"
      "mTotalIonBufferNums m2 = mTotalIonBufferNums m - 1" "(bheap m2)(a := None) = (bheap m)(a := None)"
      "mset (openFds (bkernel m2)) = mset (openFds base) + ?f fds_of"
      "mset (mappings (bkernel m2)) = mset (mappings base) + ?f maps_of" for m2
  proof -
    have eqs: "pool (fin m2) = pool m1" "bheap (fin m2) = (bheap m)(a := None)"
      using that m1 by (simp_all add: fin_def heap_free_def pool_def)
    have maps: "map (\<lambda>x. g (hget (fin m2) x)) (pool m1) = map (\<lambda>x. g (hget m x)) (pool m1)"
      for g :: "MiaBufferHandle \<Rightarrow> 'c" using keep unfolding hget_def eqs .
    have "\<forall>x \<in> set (pool m1). bheap (fin m2) x \<noteq> None"
      using assms(1) rest(1,3) unfolding eqs bm_ok_def by auto
    then show ?thesis
      using that tot rest(2) unfolding bm_ok_def eqs(1) maps by (simp add: fin_def heap_free_def)
  qed
  show ?thesis
  proof (cases "btype b")
    case GRALLOC_TYPE
    then have e: "fds_of b = {#}" "maps_of b = {#}" by (simp_all add: fds_of_def maps_of_def)
    have "freeOneBuffer a m1 = Inr (onbuffersReleased b m1)" using b m1 GRALLOC_TYPE by (simp add: freeOneBuffer_def)
    moreover have "bm_ok base (fin (onbuffersReleased b m1))"
      by (rule fin) (use held e m1 in \<open>simp_all add: onbuffersReleased_def\<close>)
    ultimately show ?thesis using m1 by (auto simp: fin_def onbuffersReleased_def)
  next
    case ION_TYPE
    obtain h' k' where ion: "ionMemFree (ionHandle b) (bkernel m) = (h', k')" by fastforce
    have bb: "\<lparr>btype = ION_TYPE, nativeSize = nativeSize b, ionHandle = ionHandle b\<rparr> = b" using ION_TYPE by (cases b) simp
    note k = ionMemFree_eq [where n = "nativeSize b" and h = "ionHandle b", unfolded bb, OF _ ion]
    let ?m2 = "(onbuffersReleased b m1)\<lparr>bheap := (bheap m)(a \<mapsto> b\<lparr>ionHandle := h'\<rparr>), bkernel := k'\<rparr>"
    have "freeOneBuffer a m1 = Inr ?m2"
      using b m1 ION_TYPE ion by (simp add: freeOneBuffer_def onbuffersReleased_def Let_def)
    moreover have "bm_ok base (fin ?m2)"
      by (rule fin) (use k(1) [OF held(1)] k(2) [OF held(2)] m1 in \<open>simp_all add: onbuffersReleased_def\<close>)
    ultimately show ?thesis using m1 by (auto simp: fin_def onbuffersReleased_def)
  qed
qed

lemma releaseImageBuffer_ok:
  assumes "bm_ok base m" and "a \<in> set (mBufferOutList m)"
  shows "\<exists>m'. releaseImageBuffer (Some a) m = Inr m' \<and> bm_ok base m' \<and>
    mBufferList m' = mBufferList m \<and> mBufferOutList m' = remove1 a (mBufferOutList m)"
proof -
  let ?m1 = "m\<lparr>mBufferOutList := remove1 a (mBufferOutList m)\<rparr>"
  have "mset (pool m) = add_mset a (mset (pool ?m1))" using assms(2) by (simp add: pool_def)
  moreover have "?m1 = m\<lparr>mBufferList := mBufferList m, mBufferOutList := remove1 a (mBufferOutList m)\<rparr>" by simp
  ultimately obtain m2 where "freeOneBuffer a ?m1 = Inr m2"
    "bm_ok base ((heap_free a m2)\<lparr>mNumBuffers := mNumBuffers m - 1\<rparr>)"
    "mBufferList m2 = mBufferList m" "mBufferOutList m2 = remove1 a (mBufferOutList m)" "mNumBuffers m2 = mNumBuffers m"
    using freeOneBuffer_pool [OF assms(1)] by blast
  then show ?thesis by (simp add: releaseImageBuffer_def Let_def heap_free_def)
qed

text \<open>\<open>freeOneBuffer\<close> neither reads nor writes the lists and the counter.\<close>

lemma freeOneBuffer_upd:
  "freeOneBuffer a (m\<lparr>mBufferList := xs\<rparr>) = map_sum id (\<lambda>m. m\<lparr>mBufferList := xs\<rparr>) (freeOneBuffer a m)"
  "freeOneBuffer a (m\<lparr>mNumBuffers := c\<rparr>) = map_sum id (\<lambda>m. m\<lparr>mNumBuffers := c\<rparr>) (freeOneBuffer a m)"
  by (auto simp: freeOneBuffer_def onbuffersReleased_def Let_def split: option.splits buffer_type.splits prod.splits)

definition recount :: "MiaBufferManager \<Rightarrow> MiaBufferManager" where
  "recount m = m\<lparr>mNumBuffers := of_nat (length (pool m))\<rparr>"

lemma freeList_ok:
  assumes "bm_ok base (recount m)"
  shows "\<exists>m'. freeList (mBufferList m) m = Inr m' \<and> bm_ok base (recount m') \<and>
    mBufferList m' = [] \<and> mBufferOutList m' = mBufferOutList m \<and> mNumBuffers m' = mNumBuffers m"
  using assms
proof (induction "mBufferList m" arbitrary: m)
  case Nil
  then have "m\<lparr>mBufferList := []\<rparr> = m" by simp
  then show ?case using Nil by (metis freeList.simps(1))
next
  case (Cons a as)
  let ?r = "recount m" and ?out = "mBufferOutList m"
  let ?r1 = "?r\<lparr>mBufferList := as, mBufferOutList := ?out\<rparr>"
  have lst: "mBufferList m = a # as" using Cons.hyps(2) by simp
  have "mset (pool ?r) = add_mset a (mset (pool ?r1))" using lst by (simp add: pool_def recount_def)
  then obtain r2 where r2: "freeOneBuffer a ?r1 = Inr r2"
    "bm_ok base ((heap_free a r2)\<lparr>mNumBuffers := mNumBuffers ?r - 1\<rparr>)" "mBufferList r2 = as" "mBufferOutList r2 = ?out"
    using freeOneBuffer_pool [OF Cons.prems] by blast
  have "?r1 = m\<lparr>mBufferList := as, mNumBuffers := mNumBuffers ?r\<rparr>" by (simp add: recount_def)
  then obtain m1 where m1: "freeOneBuffer a m = Inr m1" "r2 = m1\<lparr>mBufferList := as, mNumBuffers := mNumBuffers ?r\<rparr>"
    using r2(1) by (cases "freeOneBuffer a m") (auto simp: freeOneBuffer_upd)
  let ?n = "heap_free a (m1\<lparr>mBufferList := as\<rparr>)"
  have fr: "mBufferOutList m1 = ?out" "mNumBuffers m1 = mNumBuffers m"
    using m1(1) by (auto simp: freeOneBuffer_def onbuffersReleased_def Let_def split: option.splits buffer_type.splits prod.splits)
  have "(heap_free a r2)\<lparr>mNumBuffers := mNumBuffers ?r - 1\<rparr> = recount ?n"
    using fr lst by (simp add: m1(2) heap_free_def recount_def pool_def)
  then have "bm_ok base (recount ?n)" using r2(2) by simp
  moreover have "mBufferList ?n = as" by (simp add: heap_free_def)
  ultimately obtain m' where "freeList as ?n = Inr m'" "bm_ok base (recount m')" "mBufferList m' = []"
    "mBufferOutList m' = mBufferOutList ?n" "mNumBuffers m' = mNumBuffers ?n"
    using Cons.hyps(1) [of ?n] by auto
  then show ?case using m1(1) lst fr by (simp add: heap_free_def)
qed

lemma bm_ok_recount: "bm_ok base m \<Longrightarrow> recount m = m"
  by (simp add: bm_ok_def recount_def)

subsection \<open>The interface of a buffer pool\<close>

text \<open>
  What a client of the manager relies on.  \<open>free\<close> and \<open>flight\<close> are the buffers at rest and
  handed out; \<open>give\<close> gives a handed-out buffer to the system.
\<close>

locale buffer_pool =
  fixes free :: "'m \<Rightarrow> 'b list"
    and flight :: "'m \<Rightarrow> 'b list"
    and fetch :: "'m \<Rightarrow> 'b option \<times> 'm"
    and give :: "'b \<Rightarrow> 'm \<Rightarrow> 'm outcome"
    and invar :: "'m \<Rightarrow> bool"
  assumes fetch_empty: "free m = [] \<Longrightarrow> fetch m = (None, m)"
    and fetch_some: "free m = b # bs \<Longrightarrow> \<exists>m'. fetch m = (Some b, m') \<and> free m' = bs \<and> flight m' = flight m @ [b]"
    and fetch_invar: "invar m \<Longrightarrow> invar (snd (fetch m))"
    and give_some: "invar m \<Longrightarrow> b \<in> set (flight m) \<Longrightarrow>
      \<exists>m'. give b m = Inr m' \<and> invar m' \<and> free m' = free m \<and> flight m' = remove1 b (flight m)"
    and disjoint: "invar m \<Longrightarrow> distinct (free m @ flight m)"
begin

primrec fetches :: "nat \<Rightarrow> 'm \<Rightarrow> 'b list \<times> 'm" where
  "fetches 0 m = ([], m)"
| "fetches (Suc n) m = (case fetch m of (None, m') \<Rightarrow> ([], m') | (Some b, m') \<Rightarrow>
     (let (bs, m'') = fetches n m' in (b # bs, m'')))"

primrec gives :: "'b list \<Rightarrow> 'm \<Rightarrow> 'm outcome" where
  "gives [] m = Inr m"
| "gives (b # bs) m = bindE (give b m) (gives bs)"

lemma fetches_spec:
  "invar m \<Longrightarrow> fetches n m = (bs, m') \<Longrightarrow>
     bs = take n (free m) \<and> free m' = drop n (free m) \<and> flight m' = flight m @ bs \<and> invar m'"
proof (induction n arbitrary: m bs)
  case (Suc n)
  show ?case
  proof (cases "free m")
    case Nil
    then show ?thesis using Suc.prems fetch_empty [OF Nil] by simp
  next
    case (Cons b rest)
    obtain m1 where m1: "fetch m = (Some b, m1)" "free m1 = rest" "flight m1 = flight m @ [b]"
      using fetch_some [OF Cons] by blast
    obtain cs where cs: "fetches n m1 = (cs, m')" "bs = b # cs"
      using Suc.prems(2) m1(1) by (auto split: prod.splits)
    have "invar m1" using fetch_invar [OF Suc.prems(1)] m1(1) by simp
    from Suc.IH [OF this cs(1)] show ?thesis using m1 cs Cons by simp
  qed
qed simp

lemma gives_spec:
  assumes "invar m" and "distinct bs" and "set bs \<subseteq> set (flight m)"
  shows "\<exists>m'. gives bs m = Inr m' \<and> invar m' \<and> free m' = free m \<and>
    set (flight m') = set (flight m) - set bs"
  using assms
proof (induction bs arbitrary: m)
  case (Cons b bs)
  then obtain m1 where m1: "give b m = Inr m1" "invar m1" "free m1 = free m" "flight m1 = remove1 b (flight m)"
    using give_some [of m b] by auto
  have "set (flight m1) = set (flight m) - {b}" using disjoint [OF Cons.prems(1)] m1(4) by simp
  then obtain m' where "gives bs m1 = Inr m'" "invar m'" "free m' = free m1" "set (flight m') = set (flight m1) - set bs"
    using Cons.IH [OF m1(2)] Cons.prems(2,3) by auto
  then show ?case using m1 \<open>set (flight m1) = set (flight m) - {b}\<close> by auto
qed simp

text \<open>A client that takes buffers and gives them all back leaves no buffer behind.\<close>

lemma fetches_gives:
  assumes "invar m" and "fetches n m = (bs, m')"
  shows "\<exists>m''. gives bs m' = Inr m'' \<and> invar m'' \<and> free m'' = drop n (free m) \<and>
    set (flight m'') = set (flight m) - set bs"
proof -
  have t: "bs = take n (free m)" "free m' = drop n (free m)" "flight m' = flight m @ bs" "invar m'"
    using fetches_spec [OF assms] by auto
  then have "distinct bs" using disjoint [OF t(4)] by simp
  then show ?thesis using gives_spec [OF t(4), of bs] t by (auto simp: Un_Diff)
qed

end

interpretation bm: buffer_pool mBufferList mBufferOutList getBuffer "\<lambda>a. releaseImageBuffer (Some a)" "bm_ok base"
  for base
proof unfold_locales
  fix m b
  show "mBufferList m = [] \<Longrightarrow> getBuffer m = (None, m)" by (simp add: getBuffer_def)
  show "bm_ok base m \<Longrightarrow> bm_ok base (snd (getBuffer m))" by (rule bm_ok_getBuffer)
  show "bm_ok base m \<Longrightarrow> distinct (mBufferList m @ mBufferOutList m)" by (simp add: bm_ok_def pool_def)
  show "bm_ok base m \<Longrightarrow> b \<in> set (mBufferOutList m) \<Longrightarrow> \<exists>m'. releaseImageBuffer (Some b) m = Inr m' \<and>
      bm_ok base m' \<and> mBufferList m' = mBufferList m \<and> mBufferOutList m' = remove1 b (mBufferOutList m)"
    by (rule releaseImageBuffer_ok)
qed (simp add: getBuffer_def)

subsection \<open>Properties\<close>

lemma initialize_ok:
  assumes "bkernel m = base" and "malloc_ok answers m" and "initialize answers cd m = Inr (r, m')"
  shows "bm_ok base m' \<and> (r = MIAS_OK \<longleftrightarrow> mBufferList m' \<noteq> []) \<and> mBufferOutList m' = []"
proof -
  let ?m0 = "m\<lparr>mNumBuffers := 0, mBufferList := [], mBufferOutList := [], mType := cd_bufferType cd,
    mTotalIonMem := 0, mTotalIonBufferNums := 0\<rparr>"
  obtain m1 where a: "allocateBuffers answers (cd_width cd) (cd_height cd) (cd_format cd) ?m0 = Inr (r, m1)"
    and m': "m' = m1\<lparr>m_width := cd_width cd, m_height := cd_height cd, m_format := cd_format cd\<rparr>"
    using assms(3) by (auto simp: initialize_def Let_def bindE_eq_Inr)
  have "bm_ok base ?m0" "malloc_ok answers ?m0"
    using assms(1,2) by (simp_all add: bm_ok_def pool_def malloc_ok_def)
  from allocateBuffers_ok [OF this a] show ?thesis by (auto simp: m' bm_ok_def pool_def hget_def)
qed

text \<open>The states of a manager in use: a client releases only what it was handed.\<close>

inductive bm_state :: "kernel \<Rightarrow> MiaBufferManager \<Rightarrow> bool" for base where
  create: "bkernel m = base \<Longrightarrow> malloc_ok answers m \<Longrightarrow> bm_create answers cd m = Inr (Some m', m'') \<Longrightarrow> bm_state base m'"
| get: "bm_state base m \<Longrightarrow> getBuffer m = (b, m') \<Longrightarrow> bm_state base m'"
| more: "bm_state base m \<Longrightarrow> malloc_ok answers m \<Longrightarrow> allocateMoreBuffers answers m = Inr (r, m') \<Longrightarrow> bm_state base m'"
| release: "bm_state base m \<Longrightarrow> a \<in> set (mBufferOutList m) \<Longrightarrow> releaseImageBuffer (Some a) m = Inr m' \<Longrightarrow> bm_state base m'"

lemma bm_state_ok: "bm_state base m \<Longrightarrow> bm_ok base m"
proof (induction rule: bm_state.induct)
  case (create m answers cd m' m'')
  then obtain r where "initialize answers cd m = Inr (r, m')"
    by (auto simp: bm_create_def bindE_eq_Inr split: if_splits)
  then show ?case using initialize_ok create by blast
next
  case (get m b m')
  then show ?case using bm_ok_getBuffer [of base m] by simp
next
  case (more m answers r m')
  then show ?case using allocateBuffers_ok unfolding allocateMoreBuffers_def by blast
next
  case (release m a m')
  then show ?case using releaseImageBuffer_ok [of base m a] by auto
qed

lemma destroy_returns_all:
  assumes "bm_ok base m" and "mBufferOutList m = []"
  shows "\<exists>m'. bm_destroy m = Inr m' \<and> mBufferList m' = [] \<and> mTotalIonMem m' = 0 \<and> mTotalIonBufferNums m' = 0 \<and>
    mset (openFds (bkernel m')) = mset (openFds base) \<and> mset (mappings (bkernel m')) = mset (mappings base)"
proof -
  obtain m' where m': "freeList (mBufferList m) m = Inr m'" "bm_ok base (recount m')" "mBufferList m' = []" "mBufferOutList m' = []"
    using freeList_ok [of base m] assms bm_ok_recount [OF assms(1)] by auto
  then have "pool m' = []" by (simp add: pool_def)
  then show ?thesis using m' unfolding bm_destroy_def freeAllBuffers_def
    by (auto simp: bm_ok_def recount_def pool_def)
qed

text \<open>A manager of two small ion buffers, in a process that already has one file open.\<close>

definition sample_answers :: "nat \<Rightarrow> int \<Rightarrow> alloc_answers" where
  "sample_answers a fd = \<lparr>mallocRes = Some a, grallocSize = 0,
     ionRes = \<lparr>heapFd = fd, mmapAddr = Some (100 * int a), syncRet = 0\<rparr>,
     stackInfo = \<lparr>num_planes = 0, mp = [], frame_len = 0\<rparr>\<rparr>"

definition sample_cd :: BufferManagerCreateData where
  "sample_cd = \<lparr>cd_width = 64, cd_height = 64, cd_format = CAM_FORMAT_YUV_420_NV12, cd_bufferType = ION_TYPE\<rparr>"

definition fresh_bm :: MiaBufferManager where
  "fresh_bm = \<lparr>m_width = 0, m_height = 0, m_format = 0, mBufferList = [], mBufferOutList = [], mNumBuffers = 0,
     mType = GRALLOC_TYPE, mTotalIonMem = 0, mTotalIonBufferNums = 0, bheap = (\<lambda>_. None),
     bkernel = \<lparr>openFds = [2], mappings = []\<rparr>\<rparr>"

definition sample_bm :: MiaBufferManager where
  "sample_bm = (case bm_create [sample_answers 1 5, sample_answers 2 6] sample_cd fresh_bm of
     Inr (Some m, _) \<Rightarrow> m | _ \<Rightarrow> fresh_bm)"

lemma sample_bm_state: "bm_state (bkernel fresh_bm) sample_bm"
proof -
  have "case bm_create [sample_answers 1 5, sample_answers 2 6] sample_cd fresh_bm of
      Inr (Some m, _) \<Rightarrow> True | _ \<Rightarrow> False"
    by code_simp
  then obtain m m' where c: "bm_create [sample_answers 1 5, sample_answers 2 6] sample_cd fresh_bm = Inr (Some m, m')"
    by (auto split: sum.splits option.splits)
  have "malloc_ok [sample_answers 1 5, sample_answers 2 6] fresh_bm" by code_simp
  then have "bm_state (bkernel fresh_bm) m" using bm_state.create [OF refl _ c] by blast
  then show ?thesis unfolding sample_bm_def c by simp
qed

text \<open>C21: In every state of a manager in use, both buffer counts and the memory total are those of the
  buffers at rest and in flight, no buffer is in both lists or freed, and beyond those it had before the process holds
  exactly the descriptors and the mappings of these buffers.\<close>

theorem pool_accounting:
  assumes "bm_state base m"
  shows "distinct (mBufferList m @ mBufferOutList m) \<and>
    (\<forall>a \<in> set (mBufferList m @ mBufferOutList m). bheap m a \<noteq> None) \<and>
    mNumBuffers m = of_nat (length (mBufferList m) + length (mBufferOutList m)) \<and>
    mTotalIonBufferNums m = of_nat (length (mBufferList m) + length (mBufferOutList m)) \<and>
    mTotalIonMem m = sum_list (map (\<lambda>a. accounted (hget m a)) (mBufferList m @ mBufferOutList m)) \<and>
    mset (openFds (bkernel m)) = mset (openFds base) +
      sum_list (map (\<lambda>a. fds_of (hget m a)) (mBufferList m @ mBufferOutList m)) \<and>
    mset (mappings (bkernel m)) = mset (mappings base) +
      sum_list (map (\<lambda>a. maps_of (hget m a)) (mBufferList m @ mBufferOutList m))"
  using bm_state_ok [OF assms] by (simp add: bm_ok_def pool_def)

theorem pool_accounting_witness:
  "mBufferList sample_bm = [1, 2] \<and> mNumBuffers sample_bm = 2 \<and> mTotalIonBufferNums sample_bm = 2 \<and>
   mset (openFds (bkernel sample_bm)) = {#2#} + {#5, 6#} \<and> mset (mappings (bkernel sample_bm)) = {#(100, 8192), (200, 8192)#}"
proof -
  have l: "mBufferList sample_bm = [1, 2]" "mBufferOutList sample_bm = []" by code_simp+
  have f: "fds_of (hget sample_bm 1) = {#5#}" "fds_of (hget sample_bm 2) = {#6#}"
    "maps_of (hget sample_bm 1) = {#(100, 8192)#}" "maps_of (hget sample_bm 2) = {#(200, 8192)#}" by code_simp+
  show ?thesis using pool_accounting [OF sample_bm_state] l f by (simp add: fresh_bm_def)
qed

text \<open>Destroying a manager with no buffer in flight, after any use of it, succeeds and leaves the
  process with exactly the file descriptors and mappings it had before the manager was
  created.\<close>

theorem destroy_leaks_nothing:
  assumes "bm_state base m" and "mBufferOutList m = []"
  shows "\<exists>m'. bm_destroy m = Inr m' \<and> mTotalIonMem m' = 0 \<and>
    mset (openFds (bkernel m')) = mset (openFds base) \<and> mset (mappings (bkernel m')) = mset (mappings base)"
  using destroy_returns_all [OF bm_state_ok [OF assms(1)] assms(2)] by blast

theorem destroy_leaks_nothing_witness:
  "\<exists>m'. bm_destroy sample_bm = Inr m' \<and> mTotalIonMem m' = 0 \<and>
    mset (openFds (bkernel m')) = {#2#} \<and> mset (mappings (bkernel m')) = {#}"
proof -
  have "mBufferOutList sample_bm = []" by code_simp
  from destroy_leaks_nothing [OF sample_bm_state this] show ?thesis by (simp add: fresh_bm_def)
qed

text \<open>C23: a creation that fails, because no buffer at all could be allocated, leaves no descriptor and
  no mapping behind.\<close>

theorem failed_create_leaks_nothing:
  assumes "malloc_ok answers m" and "bm_create answers cd m = Inr (None, m')"
  shows "mset (openFds (bkernel m')) = mset (openFds (bkernel m)) \<and>
    mset (mappings (bkernel m')) = mset (mappings (bkernel m))"
proof -
  obtain r m1 where i: "initialize answers cd m = Inr (r, m1)" "bm_destroy m1 = Inr m'"
    using assms(2) by (auto simp: bm_create_def bindE_eq_Inr split: if_splits)
  show ?thesis using initialize_ok [OF refl assms(1) i(1)] destroy_returns_all [of "bkernel m" m1] i(2) by auto
qed

theorem failed_create_leaks_nothing_witness:
  "\<exists>m'. bm_create [sample_answers 1 (- 1)] sample_cd fresh_bm = Inr (None, m') \<and>
     mset (openFds (bkernel m')) = {#2#} \<and> mset (mappings (bkernel m')) = {#}"
proof -
  have "case bm_create [sample_answers 1 (- 1)] sample_cd fresh_bm of Inr (None, m) \<Rightarrow> True | _ \<Rightarrow> False"
    by code_simp
  then obtain m' where c: "bm_create [sample_answers 1 (- 1)] sample_cd fresh_bm = Inr (None, m')"
    by (auto split: sum.splits option.splits)
  have "malloc_ok [sample_answers 1 (- 1)] fresh_bm" by code_simp
  from failed_create_leaks_nothing [OF this c] show ?thesis using c by (simp add: fresh_bm_def)
qed

text \<open>A client that takes \<open>n\<close> buffers gets the first \<open>n\<close> at rest (all of them if there are
  fewer), and giving them all back succeeds and leaves only what was in flight before.\<close>

theorem take_and_give_back:
  assumes "bm_state base m" and "bm.fetches n m = (bs, m')"
  shows "bs = take n (mBufferList m) \<and>
    (\<exists>m''. bm.gives bs m' = Inr m'' \<and> mBufferList m'' = drop n (mBufferList m) \<and>
       set (mBufferOutList m'') = set (mBufferOutList m) - set bs)"
  using bm.fetches_spec [OF bm_state_ok [OF assms(1)] assms(2)] bm.fetches_gives [OF bm_state_ok [OF assms(1)] assms(2)]
  by blast

theorem take_and_give_back_witness:
  "\<exists>m' m''. bm.fetches 1 sample_bm = ([1], m') \<and> bm.gives [1] m' = Inr m'' \<and> mBufferList m'' = [2]"
proof -
  have l: "mBufferList sample_bm = [1, 2]" by code_simp
  obtain bs m' where f: "bm.fetches 1 sample_bm = (bs, m')" by fastforce
  from take_and_give_back [OF sample_bm_state f] show ?thesis using f l by auto
qed

end
