(* ===== verification/Image.thy ===== *)
theory Image
  imports BufferManager
begin

text \<open>
  Images (\<^verbatim>\<open>mivifwk/mialgoengine/MiaImage.cpp\<close> and \<^verbatim>\<open>.h\<close>): an image wraps a buffer of the
  application (source, sink, virtual sink) or of the engine's own pool (internal), and gives
  it back exactly once.  The answers of gralloc, \<open>mmap\<close> and the application's callback are
  arguments; the calls that give something back are recorded as events.  The metadata object
  an image carries is represented by what a reader sees of its logical metadata.
\<close>

datatype MiaImageType = MI_IMG_SOURCE | MI_IMG_INTERNAL | MI_IMG_VIRTUAL_SINK | MI_IMG_SINK

datatype MiaImageState = MI_IMG_STATE_UNINITIALED | MI_IMG_STATE_INITIALED | MI_IMG_STATE_RELEASED

text \<open>A native buffer handle: its identity, its integers, and the size gralloc reports.\<close>

record native_handle =
  hId :: nat
  hData :: "int list"
  hSize :: u64

record MiaImageBuffer =
  bufferSize :: u32
  planes :: int
  fd0 :: int
  fd1 :: int
  pAddr0 :: "int option"
  pAddr1 :: "int option"
  phHandle :: "native_handle option"
  bufferType :: buffer_type

record MiaImage =
  mInternalBufHandle :: "nat option"
  mBuffer :: MiaImageBuffer
  mFrameCb :: bool
  mFrameNum :: u64
  mTimestamp :: int
  mInputNumber :: u32
  mTotalReqNum :: u32
  mPortId :: u32
  mFormat :: FrameInfo
  imType :: MiaImageType
  mState :: MiaImageState
  mImageName :: string
  mUseCount :: u32
  mMetadata :: metadata_ptr

datatype img_event =
    PutCPUAddress "native_handle option" u32 int
  | FrameRelease u64 int bool u32 "native_handle option"

subsection \<open>Construction\<close>

abbreviation MI_PAD_NONE :: u32 where "MI_PAD_NONE \<equiv> 1"
abbreviation MI_PAD_TO_512 :: u32 where "MI_PAD_TO_512 \<equiv> 512"
abbreviation MI_PAD_TO_1K :: u32 where "MI_PAD_TO_1K \<equiv> 1024"

text \<open>The padding the source and internal constructors choose.\<close>

definition padInfoOf :: "mia_env \<Rightarrow> u32 \<Rightarrow> PaddingInfo" where
  "padInfoOf env f =
     (if f = CAM_FORMAT_IMPLEMENTATION_DEFINED
      then \<lparr>width_padding = MI_PAD_TO_512, height_padding = MI_PAD_TO_512, plane_padding = MI_PAD_TO_512\<rparr>
      else if f = CAM_FORMAT_P010
      then \<lparr>width_padding = MI_PAD_TO_256, height_padding = MI_PAD_TO_32, plane_padding = MI_PAD_TO_1K\<rparr>
      else if Soc env = MTK
      then \<lparr>width_padding = MI_PAD_TO_64, height_padding = MI_PAD_NONE, plane_padding = MI_PAD_NONE\<rparr>
      else \<lparr>width_padding = MI_PAD_TO_64, height_padding = MI_PAD_TO_64, plane_padding = MI_PAD_TO_64\<rparr>)"

text \<open>The padding of the sink constructor, which does not look at the platform.\<close>

definition sinkPadInfo :: "u32 \<Rightarrow> PaddingInfo" where
  "sinkPadInfo f =
     (if f = CAM_FORMAT_IMPLEMENTATION_DEFINED
      then \<lparr>width_padding = MI_PAD_TO_512, height_padding = MI_PAD_TO_512, plane_padding = MI_PAD_TO_512\<rparr>
      else if f = CAM_FORMAT_P010
      then \<lparr>width_padding = MI_PAD_TO_256, height_padding = MI_PAD_TO_32, plane_padding = MI_PAD_TO_1K\<rparr>
      else \<lparr>width_padding = MI_PAD_TO_64, height_padding = MI_PAD_TO_64, plane_padding = MI_PAD_TO_64\<rparr>)"

text \<open>\<open>LenOffsetInfo offsetInfo{}\<close>\<close>

definition zeroInfo :: LenOffsetInfo where
  "zeroInfo = \<lparr>num_planes = 0, mp = [blank_plane, blank_plane, blank_plane], frame_len = 0\<rparr>"

definition one_plane_format :: "u32 \<Rightarrow> bool" where
  "one_plane_format f = (f = CAM_FORMAT_Y16 \<or> f = CAM_FORMAT_RAW10 \<or> f = CAM_FORMAT_RAW16)"

definition handle_fd :: "mia_env \<Rightarrow> native_handle \<Rightarrow> int outcome" where
  "handle_fd env h =
     bindE (vec_get (hData h) 0) (\<lambda>d0. if Soc env = MTK then vec_get (hData h) 1 else Inr d0)"

definition offsets :: "FrameInfo \<Rightarrow> PaddingInfo \<Rightarrow> (CDKResult \<times> LenOffsetInfo) outcome" where
  "offsets fmt pad = bindE (calcOffset fmt (Some pad) (Some zeroInfo)) (\<lambda>(rc, i).
     Inr (rc, case i of None \<Rightarrow> zeroInfo | Some x \<Rightarrow> x))"

definition padStrides :: "PaddingInfo \<Rightarrow> u32 \<Rightarrow> FrameInfo \<Rightarrow> FrameInfo outcome" where
  "padStrides pad w fmt =
     bindE (PAD_TO_SIZE w (width_padding pad)) (\<lambda>s.
     bindE (PAD_TO_SIZE (fheight fmt) (height_padding pad)) (\<lambda>l.
       Inr (fmt\<lparr>planeStride := s, sliceheight := l\<rparr>)))"

definition rawStrides :: "LenOffsetInfo \<Rightarrow> FrameInfo \<Rightarrow> FrameInfo" where
  "rawStrides info fmt =
     fmt\<lparr>planeStride := word_of_int (lstride (mp info ! 0)), sliceheight := word_of_int (lscanline (mp info ! 0))\<rparr>"

record frame_in =
  fi_format :: FrameInfo
  fi_buffer :: MiaImageBuffer
  fi_timeStampUs :: int
  fi_callback :: bool
  fi_frameNumber :: u32
  fi_streamId :: u32

text \<open>Bytes 0 to 7 of a metadata entry, and its characters.\<close>

definition read_i64 :: "cmem \<Rightarrow> int" where
  "read_i64 p = sint (ucast (read_u32 p) OR push_bit 32 (ucast (read_u32 (\<lambda>i. p (i + 4)))) :: u64)"

definition getVTagValueCount :: "mia_env \<Rightarrow> metadata_ptr \<Rightarrow> string \<Rightarrow> (cmem \<times> nat) option" where
  "getVTagValueCount env md name =
     (case (md, getTagID env name) of
        (Some m, Inr tagId) \<Rightarrow>
          (if tag_type m tagId = -1 then None
           else (case entry_of m tagId of
                   None \<Rightarrow> None
                 | Some e \<Rightarrow> (if e_count e = 0 then None else Some (e_data e, e_count e))))
      | _ \<Rightarrow> None)"

abbreviation ANDROID_SENSOR_TIMESTAMP :: u32 where "ANDROID_SENSOR_TIMESTAMP \<equiv> 0xE0010"

text \<open>The block that reads the metadata of a new source image.\<close>

definition readMetadata :: "mia_env \<Rightarrow> metadata_ptr \<Rightarrow> MiaImage \<Rightarrow> MiaImage" where
  "readMetadata env md im =
     (case md of
        None \<Rightarrow> im
      | Some _ \<Rightarrow>
          let im1 = (case tag md ANDROID_SENSOR_TIMESTAMP None of
                       None \<Rightarrow> im | Some p \<Rightarrow> im\<lparr>mTimestamp := read_i64 p\<rparr>);
              im2 = (case getVTagValueCount env md ''xiaomi.snapshot.imageName'' of
                       None \<Rightarrow> im1
                     | Some (p, n) \<Rightarrow> im1\<lparr>mImageName := map (\<lambda>i. char_of (unat (p i))) [0..<n]\<rparr>);
              im3 = (case vtag env md ''xiaomi.multiframe.inputNum'' None of
                       None \<Rightarrow> im2 | Some p \<Rightarrow> im2\<lparr>mInputNumber := read_u32 p\<rparr>);
              im4 = (case vtag env md ''xiaomi.burst.mialgoTotalReqNum'' None of
                       None \<Rightarrow> im3 | Some p \<Rightarrow> im3\<lparr>mTotalReqNum := read_u32 p\<rparr>)
          in im4)"

text \<open>\<open>MiaImage(MiaFrame *, MiaImageType)\<close>; \<open>md\<close> is the logical metadata after the copy.\<close>

definition new_external ::
  "mia_env \<Rightarrow> frame_in \<Rightarrow> MiaImageType \<Rightarrow> metadata_ptr \<Rightarrow> (int \<Rightarrow> int option) \<Rightarrow> MiaImage outcome" where
  "new_external env fr ty md mmap_of =
     (let im0 = \<lparr>mInternalBufHandle = None, mBuffer = (fi_buffer fr)\<lparr>bufferType := GRALLOC_TYPE\<rparr>,
                 mFrameCb = fi_callback fr, mFrameNum = ucast (fi_frameNumber fr),
                 mTimestamp = fi_timeStampUs fr, mInputNumber = 1, mTotalReqNum = 0,
                 mPortId = fi_streamId fr, mFormat = fi_format fr, imType = ty,
                 mState = MI_IMG_STATE_INITIALED, mImageName = '''', mUseCount = 1, mMetadata = md\<rparr>;
          fmt = fi_format fr; f = fformat fmt; pad = padInfoOf env f;
          finish = (\<lambda>im info.
            bindE (if Soc env = MTK \<and> f = CAM_FORMAT_P010 then Inr (mFormat im)
                   else padStrides pad (fwidth fmt) (mFormat im)) (\<lambda>fmt1.
            let im1 = im\<lparr>mFormat := fmt1, mBuffer := (mBuffer im)\<lparr>planes := if f = CAM_FORMAT_Y16 then 1 else 2\<rparr>\<rparr>;
                im2 = (if f = CAM_FORMAT_RAW10 \<or> f = CAM_FORMAT_RAW16
                       then im1\<lparr>mFormat := rawStrides info fmt1, mBuffer := (mBuffer im1)\<lparr>planes := 1\<rparr>\<rparr>
                       else im1)
            in Inr (readMetadata env md im2)))
      in case pAddr0 (fi_buffer fr) of
           None \<Rightarrow>
             (case phHandle (fi_buffer fr) of
                None \<Rightarrow> Inr (im0\<lparr>mState := MI_IMG_STATE_UNINITIALED\<rparr>)
              | Some h \<Rightarrow>
                  let im1 = im0\<lparr>mBuffer := (mBuffer im0)\<lparr>bufferSize := ucast (hSize h)\<rparr>\<rparr> in
                  bindE (getCPUAddress env (Some (hData h)) mmap_of) (\<lambda>address.
                    case address of
                      None \<Rightarrow> Inr (im1\<lparr>mState := MI_IMG_STATE_UNINITIALED\<rparr>)
                    | Some frame \<Rightarrow>
                        bindE (offsets fmt pad) (\<lambda>(_, info).
                        bindE (handle_fd env h) (\<lambda>fd.
                        let two = (mBuffer im1)\<lparr>fd0 := fd, fd1 := fd, pAddr0 := Some frame,
                                     pAddr1 := Some (frame + uint (llen (mp info ! 0)))\<rparr>;
                            b = (if one_plane_format f then two\<lparr>fd1 := - 1, pAddr1 := None\<rparr> else two)
                        in finish (im1\<lparr>mBuffer := b\<rparr>) info))))
         | Some a \<Rightarrow>
             bindE (offsets fmt pad) (\<lambda>(_, info).
               finish (im0\<lparr>mBuffer := (mBuffer im0)\<lparr>pAddr1 := Some (a + uint (llen (mp info ! 0)))\<rparr>\<rparr>) info))"

text \<open>\<open>MiaImage(sp<MiaBufferManager>, MiaImageFormat)\<close>; an empty pool is a null dereference.\<close>

definition zeroBuffer :: MiaImageBuffer where
  "zeroBuffer = \<lparr>bufferSize = 0, planes = 0, fd0 = 0, fd1 = 0, pAddr0 = None, pAddr1 = None, phHandle = None,
     bufferType = GRALLOC_TYPE\<rparr>"

definition blankImage :: "MiaImageType \<Rightarrow> FrameInfo \<Rightarrow> u32 \<Rightarrow> MiaImage" where
  "blankImage ty fmt stale =
     \<lparr>mInternalBufHandle = None, mBuffer = zeroBuffer, mFrameCb = False, mFrameNum = 0, mTimestamp = 0,
      mInputNumber = 1, mTotalReqNum = stale, mPortId = 0, mFormat = fmt, imType = ty,
      mState = MI_IMG_STATE_INITIALED, mImageName = '''', mUseCount = 0, mMetadata = None\<rparr>"

definition internalStrides :: "PaddingInfo \<Rightarrow> LenOffsetInfo \<Rightarrow> FrameInfo \<Rightarrow> FrameInfo outcome" where
  "internalStrides pad info fmt =
     (if fformat fmt = CAM_FORMAT_RAW10 \<or> fformat fmt = CAM_FORMAT_RAW16 then Inr (rawStrides info fmt)
      else if fformat fmt = CAM_FORMAT_P010 then padStrides pad (fwidth fmt * 2) fmt
      else padStrides pad (fwidth fmt) fmt)"

text \<open>Ion buffers only: a pool of gralloc buffers would need the contents of its handles.\<close>

definition new_internal ::
  "mia_env \<Rightarrow> u32 \<Rightarrow> FrameInfo \<Rightarrow> MiaBufferManager option \<Rightarrow> (MiaImage \<times> MiaBufferManager option) outcome" where
  "new_internal env stale fmt bm' =
     (let im0 = blankImage MI_IMG_INTERNAL fmt stale; pad = padInfoOf env (fformat fmt)
      in case bm' of
           None \<Rightarrow> Inr (im0, None)
         | Some m \<Rightarrow>
             (case getBuffer m of
                (None, m1) \<Rightarrow> Inl NullDeref
              | (Some a, m1) \<Rightarrow>
                  (case bheap m1 a of
                     None \<Rightarrow> Inl BadFree
                   | Some b \<Rightarrow>
                       let ih = ionHandle b;
                           im1 = im0\<lparr>mInternalBufHandle := Some a,
                             mBuffer := zeroBuffer\<lparr>bufferSize := buffer_len ih, fd0 := data_fd ih, fd1 := data_fd ih,
                                                    bufferType := btype b\<rparr>\<rparr>
                       in case ibuffer ih of
                            None \<Rightarrow> Inr (im1, Some m1)
                          | Some frame \<Rightarrow>
                              bindE (offsets fmt pad) (\<lambda>(rc, info).
                                if rc \<noteq> MIAS_OK then Inr (im1, Some m1)
                                else
                                  let bufp = (mBuffer im1)\<lparr>planes := int (unat (num_planes info))\<rparr>;
                                      bufa = (if num_planes info = 2
                                              then bufp\<lparr>pAddr0 := Some frame,
                                                        pAddr1 := Some (frame + uint (llen (mp info ! 0)))\<rparr>
                                              else if num_planes info = 1 then bufp\<lparr>pAddr0 := Some frame\<rparr>
                                              else bufp)
                                  in bindE (internalStrides pad info fmt) (\<lambda>fmt1.
                                       Inr (im1\<lparr>mBuffer := bufa, mFormat := fmt1\<rparr>, Some m1))))))"

text \<open>
  \<open>MiaImage(MiaImageFormat, int64_t, uint32_t, MiaFrameCb *, MiaImageType)\<close>; \<open>answer\<close> is the
  callback's \<open>getBuffer\<close>, \<open>stale\<close> the members no initialiser sets.
\<close>

definition new_sink ::
  "mia_env \<Rightarrow> u32 \<Rightarrow> FrameInfo \<Rightarrow> int \<Rightarrow> u32 \<Rightarrow> bool \<Rightarrow> MiaImageType \<Rightarrow> int \<times> native_handle option \<Rightarrow>
     (int \<Rightarrow> int option) \<Rightarrow> MiaImage outcome" where
  "new_sink env stale fmt timestamp portId callback ty answer mmap_of =
     (let im0 = (blankImage ty fmt stale)\<lparr>mFrameCb := callback, mTimestamp := timestamp, mPortId := portId,
                                           mUseCount := stale\<rparr>
      in if \<not> callback then Inr im0
         else
           let im1 = im0\<lparr>mUseCount := 1\<rparr>; f = fformat fmt; pad = sinkPadInfo f
           in case answer of
                (ret, Some h) \<Rightarrow>
                  (if ret \<noteq> 0 then Inr (im1\<lparr>mState := MI_IMG_STATE_UNINITIALED\<rparr>)
                   else
                     let im2 = im1\<lparr>mBuffer := (mBuffer im1)\<lparr>bufferType := GRALLOC_TYPE, phHandle := Some h,
                                     bufferSize := ucast (hSize h)\<rparr>\<rparr> in
                     bindE (getCPUAddress env (Some (hData h)) mmap_of) (\<lambda>address.
                       case address of
                         None \<Rightarrow> Inr im2
                       | Some frame \<Rightarrow>
                           bindE (offsets fmt pad) (\<lambda>(_, info).
                           bindE (handle_fd env h) (\<lambda>fd.
                           let two = (mBuffer im2)\<lparr>fd0 := fd, fd1 := fd, pAddr0 := Some frame,
                                        pAddr1 := Some (frame + uint (llen (mp info ! 0)))\<rparr>;
                               b = (if one_plane_format f then two\<lparr>fd1 := - 1, pAddr1 := None\<rparr> else two)
                           in bindE (padStrides pad (fwidth fmt) fmt) (\<lambda>fmt1.
                                let raw = (f = CAM_FORMAT_RAW10 \<or> f = CAM_FORMAT_RAW16)
                                in Inr (im2\<lparr>mBuffer := b\<lparr>planes := if raw then 1 else 2\<rparr>,
                                             mFormat := if raw then rawStrides info fmt1 else fmt1\<rparr>))))))
              | (ret, None) \<Rightarrow> Inr (im1\<lparr>mState := MI_IMG_STATE_UNINITIALED\<rparr>))"

subsection \<open>Giving back, copying and sharing\<close>

definition has_mapping :: "MiaImageBuffer \<Rightarrow> bool" where
  "has_mapping b \<longleftrightarrow> phHandle b \<noteq> None \<and> bufferSize b > 0 \<and> pAddr0 b \<noteq> None"

definition putEvents :: "MiaImageBuffer \<Rightarrow> img_event list" where
  "putEvents b = (case pAddr0 b of
     Some a \<Rightarrow> (if has_mapping b then [PutCPUAddress (phHandle b) (bufferSize b) a] else [])
   | None \<Rightarrow> [])"

definition releaseExternalFrame :: "MiaImage \<Rightarrow> MiaImage \<times> img_event list" where
  "releaseExternalFrame im =
     (if imType im = MI_IMG_INTERNAL \<or> mState im = MI_IMG_STATE_RELEASED then (im, [])
      else
        let released = (\<lambda>input. [FrameRelease (mFrameNum im) (mTimestamp im) input (mPortId im) (phHandle (mBuffer im))]);
            cb = (if mFrameCb im
                  then (if imType im = MI_IMG_SOURCE then released True
                        else if imType im = MI_IMG_SINK \<or> imType im = MI_IMG_VIRTUAL_SINK then released False
                        else [])
                  else [])
        in (im\<lparr>mState := MI_IMG_STATE_RELEASED\<rparr>, putEvents (mBuffer im) @ cb))"

text \<open>The destructor; the manager is absent for an image built without one.\<close>

definition destroyImage ::
  "MiaImage \<Rightarrow> MiaBufferManager option \<Rightarrow> (MiaBufferManager option \<times> img_event list) outcome" where
  "destroyImage im bm' =
     (if imType im \<noteq> MI_IMG_INTERNAL then Inr (bm', [])
      else
        let ev = (if mState im \<noteq> MI_IMG_STATE_RELEASED then putEvents (mBuffer im) else [])
        in case (bm', mInternalBufHandle im) of
             (Some m, Some a) \<Rightarrow> bindE (releaseImageBuffer (Some a) m) (\<lambda>m'. Inr (Some m', ev))
           | _ \<Rightarrow> Inr (bm', ev))"

definition copyParams :: "MiaImage \<Rightarrow> int \<Rightarrow> u32 \<Rightarrow> MiaImage \<Rightarrow> MiaImage" where
  "copyParams src timeStamp mergeNum im =
     (let im1 = im\<lparr>mTimestamp := timeStamp, mFrameNum := mFrameNum src, mImageName := mImageName src,
                   mInputNumber := mergeNum\<rparr>
      in if imType im = MI_IMG_INTERNAL \<or> imType im = MI_IMG_VIRTUAL_SINK
         then im1\<lparr>mMetadata := mMetadata src\<rparr> else im1)"

definition decreaseUseCount :: "MiaImage \<Rightarrow> u32 \<times> MiaImage" where
  "decreaseUseCount im = (mUseCount im - 1, im\<lparr>mUseCount := mUseCount im - 1\<rparr>)"

definition increaseUseCount :: "MiaImage \<Rightarrow> u32 \<times> MiaImage" where
  "increaseUseCount im = (mUseCount im + 1, im\<lparr>mUseCount := mUseCount im + 1\<rparr>)"

fun getImageTypeName :: "MiaImageType \<Rightarrow> string" where
  "getImageTypeName MI_IMG_SOURCE = ''Source''"
| "getImageTypeName MI_IMG_INTERNAL = ''Internal''"
| "getImageTypeName MI_IMG_SINK = ''Sink''"
| "getImageTypeName MI_IMG_VIRTUAL_SINK = ''VirtualSink''"

text \<open>
  \<open>MiaCustomization::reMapSourcePortId\<close> (\<^verbatim>\<open>MiaPipelinePruner.cpp\<close>): the new source port, the
  image with its new input number, and the number written to \<open>xiaomi.multiframe.inputNum\<close> of
  both metadata, if it is written.  \<open>data\<close> keeps the pointer of an earlier lookup when a later
  one fails.
\<close>

abbreviation ANDROID_CONTROL_AE_EXPOSURE_COMPENSATION :: u32 where
  "ANDROID_CONTROL_AE_EXPOSURE_COMPENSATION \<equiv> 0x10001"

definition reMapSourcePortId ::
  "mia_env \<Rightarrow> u32 \<Rightarrow> metadata_ptr \<Rightarrow> string \<Rightarrow> MiaImage \<Rightarrow> u32 \<times> MiaImage \<times> u32 option" where
  "reMapSourcePortId env sourcePort md name im =
     (case md of
        None \<Rightarrow> (sourcePort, im, None)
      | Some _ \<Rightarrow>
          if sourcePort = 0 then
            (if name = ''DualBokehSnapshot'' then
               (let d1 = vtag env md ''xiaomi.bokeh.MDMode'' None;
                    mdmode = (case d1 of None \<Rightarrow> 0 | Some p \<Rightarrow> read_u8 p);
                    d2 = vtag env md ''xiaomi.burst.curReqIndex'' d1;
                    curReqIndex = (case d2 of None \<Rightarrow> 0 | Some p \<Rightarrow> read_u32 p);
                    d3 = vtag env md ''xiaomi.bokeh.superNightEnabled'' d2;
                    d4 = tag md ANDROID_CONTROL_AE_EXPOSURE_COMPENSATION d3;
                    evValue = (case d4 of None \<Rightarrow> 0 | Some p \<Rightarrow> read_i32 p)
                in if curReqIndex \<noteq> mInputNumber im \<and> mdmode \<noteq> 0
                   then (sourcePort, im\<lparr>mInputNumber := mInputNumber im - 1\<rparr>, Some (mInputNumber im - 1))
                   else if evValue = - 24 \<and> mdmode \<noteq> 0 \<and> curReqIndex = mInputNumber im
                   then (2, im\<lparr>mInputNumber := 1\<rparr>, Some 1)
                   else (sourcePort, im, None))
             else (sourcePort, im, None))
          else if sourcePort = 1 then
            (if name = ''SatSnapshot'' \<and>
                (case vtag env md ''xiaomi.capturefusion.isFusionOn'' None of None \<Rightarrow> False | Some p \<Rightarrow> read_u8 p \<noteq> 0)
             then (2, im, None) else (sourcePort, im, None))
          else (sourcePort, im, None))"

definition reMapSourcePortId_MTK ::
  "mia_env \<Rightarrow> u32 \<Rightarrow> metadata_ptr \<Rightarrow> string \<Rightarrow> MiaImage \<Rightarrow> u32 \<times> MiaImage \<times> u32 option" where
  "reMapSourcePortId_MTK env sourcePort md name im = (sourcePort, im, None)"

subsection \<open>Lemmas\<close>

fun release_times :: "nat \<Rightarrow> MiaImage \<Rightarrow> MiaImage \<times> img_event list" where
  "release_times 0 im = (im, [])"
| "release_times (Suc n) im =
     (let (im1, ev) = releaseExternalFrame im; (im2, evs) = release_times n im1 in (im2, ev @ evs))"

lemma releaseExternalFrame_released:
  "mState im = MI_IMG_STATE_RELEASED \<Longrightarrow> releaseExternalFrame im = (im, [])"
  by (simp add: releaseExternalFrame_def)

lemma releaseExternalFrame_state:
  "imType im \<noteq> MI_IMG_INTERNAL \<Longrightarrow> mState (fst (releaseExternalFrame im)) = MI_IMG_STATE_RELEASED"
  by (simp add: releaseExternalFrame_def Let_def)

lemma release_times_released: "mState im = MI_IMG_STATE_RELEASED \<Longrightarrow> release_times n im = (im, [])"
  by (induction n) (simp_all add: releaseExternalFrame_released)

lemma release_times_Suc:
  "imType im \<noteq> MI_IMG_INTERNAL \<Longrightarrow> release_times (Suc n) im = releaseExternalFrame im"
  using releaseExternalFrame_state [of im]
  by (cases "releaseExternalFrame im") (simp add: release_times_released)

lemma new_internal_ok:
  assumes "bm_ok base m" and "new_internal env stale fmt (Some m) = Inr (im, mo)"
  shows "\<exists>a m1. getBuffer m = (Some a, m1) \<and> mo = Some m1 \<and> mInternalBufHandle im = Some a \<and>
    imType im = MI_IMG_INTERNAL \<and> bm_ok base m1"
proof -
  obtain a m1 where g: "getBuffer m = (Some a, m1)"
    using assms(2) by (cases "getBuffer m"; cases "fst (getBuffer m)") (auto simp: new_internal_def Let_def)
  obtain b where b: "bheap m1 a = Some b"
    using assms(2) g by (cases "bheap m1 a") (auto simp: new_internal_def Let_def)
  have "mo = Some m1 \<and> mInternalBufHandle im = Some a \<and> imType im = MI_IMG_INTERNAL"
  proof (cases "ibuffer (ionHandle b)")
    case None
    then show ?thesis using assms(2) g b by (auto simp: new_internal_def Let_def blankImage_def)
  next
    case (Some frame)
    then show ?thesis
      using assms(2) g b
      by (auto simp: new_internal_def Let_def blankImage_def bindE_eq_Inr split: if_splits prod.splits)
  qed
  then show ?thesis using g bm_ok_getBuffer [OF assms(1)] by simp
qed

text \<open>The layout of a 64-padded two-plane image: the second plane follows the padded rows.\<close>

lemma padStrides_yuv:
  fixes w h :: nat
  assumes "width_padding pad = 64" and "height_padding pad = 64" and "fheight fmt = of_nat h" and "w \<le> 16384" and "h \<le> 16384"
  shows "padStrides pad (of_nat w) fmt = Inr (fmt\<lparr>planeStride := of_nat (ceil_to 64 w), sliceheight := of_nat (ceil_to 64 h)\<rparr>)"
  using PAD_TO_SIZE_nat [of 64 w] PAD_TO_SIZE_nat [of 64 h] assms by (simp add: padStrides_def)

lemma offsets_yuv:
  fixes w h :: nat
  assumes "fformat fmt \<in> {CAM_FORMAT_YUV_420_NV12, CAM_FORMAT_YUV_420_NV21}"
    and "fwidth fmt = of_nat w" and "fheight fmt = of_nat h" and "w \<le> 16384" and "h \<le> 16384"
  shows "\<exists>info. offsets fmt pad64 = Inr (MIAS_OK, info) \<and> llen (mp info ! 0) = of_nat (ceil_to 64 w * ceil_to 64 h)"
proof -
  have f: "fformat fmt \<noteq> CAM_FORMAT_P010" "is_yuv (fformat fmt)" using assms(1) by (auto simp: is_yuv_def)
  then show ?thesis
    using calcOffset_two_planes [of fmt w h pad64 64 64 64 zeroInfo] assms(2-5)
    by (simp add: offsets_def pad64_def zeroInfo_def plane_def yuv_stride_def yuv_scanline_def del: of_nat_mult)
qed

subsection \<open>Properties\<close>

text \<open>C26: however often a source, sink or virtual sink image is released (at least once), its mapping
  is undone and the application's callback is called once in total, as an input for a source
  and as an output for a sink; an internal image never reports anything.\<close>

theorem external_frame_released_once:
  "snd (release_times (Suc n) im) =
     (if imType im = MI_IMG_INTERNAL \<or> mState im = MI_IMG_STATE_RELEASED then []
      else putEvents (mBuffer im) @
        (if mFrameCb im
         then [FrameRelease (mFrameNum im) (mTimestamp im) (imType im = MI_IMG_SOURCE) (mPortId im) (phHandle (mBuffer im))]
         else []))"
proof (cases "imType im = MI_IMG_INTERNAL")
  case True
  have "release_times k im = (im, [])" for k
    by (induction k) (simp_all add: releaseExternalFrame_def True)
  then show ?thesis using True by simp
next
  case False
  then show ?thesis unfolding release_times_Suc [OF False]
    by (cases "imType im") (simp_all add: releaseExternalFrame_def Let_def)
qed

text \<open>An internal image takes the first buffer at rest from its manager, and destroying the image
  gives exactly that buffer back: the manager's accounting holds throughout and the buffers in
  flight are those of before.\<close>

theorem internal_image_returns_buffer:
  assumes "bm_state base m" and "new_internal env stale fmt (Some m) = Inr (im, mo)"
  shows "\<exists>a m1 m2 ev. mo = Some m1 \<and> mBufferList m = a # mBufferList m1 \<and> mBufferOutList m1 = mBufferOutList m @ [a] \<and>
    destroyImage im mo = Inr (Some m2, ev) \<and> bm_ok base m2 \<and>
    mBufferList m2 = mBufferList m1 \<and> mBufferOutList m2 = mBufferOutList m"
proof -
  have ok: "bm_ok base m" using assms(1) by (rule bm_state_ok)
  obtain a m1 where g: "getBuffer m = (Some a, m1)" and i: "mo = Some m1" "mInternalBufHandle im = Some a"
    "imType im = MI_IMG_INTERNAL" "bm_ok base m1" using new_internal_ok [OF ok assms(2)] by blast
  have l: "mBufferList m = a # mBufferList m1" "mBufferOutList m1 = mBufferOutList m @ [a]"
    using g by (auto simp: getBuffer_def split: list.splits)
  obtain m2 where m2: "releaseImageBuffer (Some a) m1 = Inr m2" "bm_ok base m2" "mBufferList m2 = mBufferList m1"
    "mBufferOutList m2 = remove1 a (mBufferOutList m1)"
    using releaseImageBuffer_ok [OF i(4), of a] l(2) by auto
  have "a \<notin> set (mBufferOutList m)" using ok l(1) by (simp add: bm_ok_def pool_def)
  then have "mBufferOutList m2 = mBufferOutList m" using m2(4) l(2) by (simp add: remove1_append)
  then show ?thesis using i l m2 by (simp add: destroyImage_def Let_def)
qed

definition nv12_64 :: FrameInfo where
  "nv12_64 = mk_format CAM_FORMAT_YUV_420_NV12 64 64"

definition qcom_env :: mia_env where
  "qcom_env = \<lparr>getTagID = (\<lambda>_. Inl (- 1)), Soc = QCOM, OpenPrunerAbnormalDump = False, sDisableMask = 0\<rparr>"

theorem internal_image_returns_buffer_witness:
  "\<exists>im m1 m2 ev. new_internal qcom_env 0 nv12_64 (Some sample_bm) = Inr (im, Some m1) \<and>
     destroyImage im (Some m1) = Inr (Some m2, ev) \<and> mBufferOutList m2 = mBufferOutList sample_bm"
proof -
  have "case new_internal qcom_env 0 nv12_64 (Some sample_bm) of Inr _ \<Rightarrow> True | _ \<Rightarrow> False" by code_simp
  then obtain im mo where n: "new_internal qcom_env 0 nv12_64 (Some sample_bm) = Inr (im, mo)"
    by (auto split: sum.splits)
  from internal_image_returns_buffer [OF sample_bm_state n] show ?thesis using n by blast
qed

text \<open>For the 8 bit two-plane formats of at most 16384 by 16384 pixels, a sink image that got a
  buffer and a mapping has its second plane exactly \<open>planeStride * sliceheight\<close> bytes after the
  first, and the stride and height it reports cover the image.\<close>

theorem sink_planes_contiguous:
  fixes w h :: nat
  assumes "fformat fmt \<in> {CAM_FORMAT_YUV_420_NV12, CAM_FORMAT_YUV_420_NV21}"
    and "fwidth fmt = of_nat w" and "fheight fmt = of_nat h" and "w \<le> 16384" and "h \<le> 16384"
    and "new_sink env stale fmt ts port True ty (0, Some hnd) mmap_of = Inr im" and "pAddr0 (mBuffer im) = Some a"
  shows "pAddr1 (mBuffer im) = Some (a + uint (planeStride (mFormat im)) * uint (sliceheight (mFormat im))) \<and>
    w \<le> unat (planeStride (mFormat im)) \<and> h \<le> unat (sliceheight (mFormat im)) \<and> planes (mBuffer im) = 2"
proof -
  let ?S = "ceil_to 64 w" and ?L = "ceil_to 64 h"
  have SL: "w \<le> ?S" "h \<le> ?L" "?S \<le> 16448" "?L \<le> 16448"
    using ceil_to_bounds [of 64 w] ceil_to_bounds [of 64 h] assms(4,5) by simp_all
  have "?S * ?L \<le> 16448 * 16448" using SL(3,4) by (metis mult_le_mono)
  then have u: "unat (of_nat (?S * ?L) :: u32) = ?S * ?L" "unat (of_nat ?S :: u32) = ?S" "unat (of_nat ?L :: u32) = ?L"
    using SL by (simp_all add: unat_of_nat del: of_nat_mult)
  then have ui: "uint (of_nat (?S * ?L) :: u32) = int (?S * ?L)" "uint (of_nat ?S :: u32) = int ?S" "uint (of_nat ?L :: u32) = int ?L"
    by (metis of_nat_unat)+
  have pad: "sinkPadInfo (fformat fmt) = pad64" using assms(1) by (auto simp: sinkPadInfo_def pad64_def)
  have one: "\<not> one_plane_format (fformat fmt)" "fformat fmt \<noteq> CAM_FORMAT_RAW10" "fformat fmt \<noteq> CAM_FORMAT_RAW16"
    using assms(1) by (auto simp: one_plane_format_def)
  obtain info where info: "offsets fmt pad64 = Inr (MIAS_OK, info)" "llen (mp info ! 0) = of_nat (?S * ?L)"
    using offsets_yuv [OF assms(1-5)] by blast
  have str: "padStrides pad64 (fwidth fmt) fmt = Inr (fmt\<lparr>planeStride := of_nat ?S, sliceheight := of_nat ?L\<rparr>)"
    using padStrides_yuv [of pad64 fmt h w] assms(2-5) by (simp add: pad64_def)
  obtain addr where ad: "getCPUAddress env (Some (hData hnd)) mmap_of = Inr addr"
    using assms(6) by (auto simp: new_sink_def Let_def bindE_eq_Inr)
  show ?thesis
  proof (cases addr)
    case None
    then show ?thesis using assms(6,7) ad by (auto simp: new_sink_def Let_def blankImage_def zeroBuffer_def)
  next
    case (Some frame)
    obtain fd where "handle_fd env hnd = Inr fd"
      using assms(6) ad Some info(1) pad by (auto simp: new_sink_def Let_def bindE_eq_Inr)
    then have "im = (blankImage ty fmt stale)\<lparr>mFrameCb := True, mTimestamp := ts, mPortId := port, mUseCount := 1,
        mBuffer := zeroBuffer\<lparr>bufferType := GRALLOC_TYPE, phHandle := Some hnd, bufferSize := ucast (hSize hnd),
          fd0 := fd, fd1 := fd, pAddr0 := Some frame, pAddr1 := Some (frame + int (?S * ?L)), planes := 2\<rparr>,
        mFormat := fmt\<lparr>planeStride := of_nat ?S, sliceheight := of_nat ?L\<rparr>\<rparr>"
      using assms(6) ad Some info pad one str ui(1)
      by (simp add: new_sink_def Let_def blankImage_def del: of_nat_mult)
    then show ?thesis using assms(7) u ui SL by (simp add: zeroBuffer_def)
  qed
qed

definition sample_handle :: native_handle where
  "sample_handle = \<lparr>hId = 1, hData = [9], hSize = 8192\<rparr>"

theorem sink_planes_contiguous_witness:
  "\<exists>im. new_sink qcom_env 0 nv12_64 5 0 True MI_IMG_SINK (0, Some sample_handle) (\<lambda>_. Some 4096) = Inr im \<and>
     pAddr1 (mBuffer im) = Some (4096 + uint (planeStride (mFormat im)) * uint (sliceheight (mFormat im)))"
proof -
  have "case new_sink qcom_env 0 nv12_64 5 0 True MI_IMG_SINK (0, Some sample_handle) (\<lambda>_. Some 4096) of
      Inr im \<Rightarrow> pAddr0 (mBuffer im) = Some 4096 | _ \<Rightarrow> False"
    by code_simp
  then obtain im where n: "new_sink qcom_env 0 nv12_64 5 0 True MI_IMG_SINK (0, Some sample_handle) (\<lambda>_. Some 4096) = Inr im"
    and a: "pAddr0 (mBuffer im) = Some 4096"
    by (auto split: sum.splits)
  from sink_planes_contiguous [of nv12_64 64 64, OF _ _ _ _ _ n a] show ?thesis
    using n by (simp add: nv12_64_def mk_format_def)
qed

text \<open>For P010, which has two bytes per sample, a sink image reports half the stride that an
  internal image of the same format reports and that its own plane layout uses.\<close>

theorem p010_sink_stride_halved:
  "let fmt = mk_format CAM_FORMAT_P010 256 64;
       sink = new_sink qcom_env 0 fmt 5 0 True MI_IMG_SINK (0, Some sample_handle) (\<lambda>_. Some 4096);
       int_im = new_internal qcom_env 0 fmt (Some sample_bm)
   in map_sum id (\<lambda>im. planeStride (mFormat im)) sink = Inr 256 \<and>
      map_sum id (\<lambda>im. map_option (\<lambda>a. a - 4096) (pAddr1 (mBuffer im))) sink = Inr (Some (512 * 64)) \<and>
      map_sum id (\<lambda>r. planeStride (mFormat (fst r))) int_im = Inr 512"
  by code_simp

end
