(* ===== verification/SafeQueue.thy ===== *)
theory SafeQueue
  imports MiaPrelude "HOL-Library.Sublist"
begin

text \<open>
  The thread-safe queue (\<^verbatim>\<open>mivifwk/mialgoengine/ThreadSafeQueue.h\<close>).  Every member function
  holds the mutex for its whole body, so an execution is an interleaving of these
  operations; a thread in \<open>wait\<close> is one whose operation is not enabled yet.
\<close>

record 'a tsq =
  mQueue :: "'a list"
  mRelease :: bool

definition tsq_new :: "'a tsq" where
  "tsq_new = \<lparr>mQueue = [], mRelease = False\<rparr>"

definition tsq_push :: "'a \<Rightarrow> 'a tsq \<Rightarrow> bool \<times> 'a tsq" where
  "tsq_push t q = (if \<not> mRelease q then (True, q\<lparr>mQueue := mQueue q @ [t]\<rparr>) else (False, q))"

text \<open>The code after a wait: the front is read without a further test.\<close>

definition popFront :: "'a tsq \<Rightarrow> ('a option \<times> 'a tsq) outcome" where
  "popFront q =
     (if mRelease q \<and> mQueue q = [] then Inr (None, q)
      else (case mQueue q of [] \<Rightarrow> Inl BadIndex | x # xs \<Rightarrow> Inr (Some x, q\<lparr>mQueue := xs\<rparr>)))"

text \<open>\<open>None\<close>: the predicate of the wait is false, the thread sleeps.\<close>

definition waitAndPop :: "'a tsq \<Rightarrow> ('a option \<times> 'a tsq) outcome option" where
  "waitAndPop q = (if mRelease q \<or> mQueue q \<noteq> [] then Some (popFront q) else None)"

definition tryPop :: "'a tsq \<Rightarrow> 'a option \<times> 'a tsq" where
  "tryPop q = (case mQueue q of [] \<Rightarrow> (None, q) | x # xs \<Rightarrow> (Some x, q\<lparr>mQueue := xs\<rparr>))"

definition getFront :: "'a tsq \<Rightarrow> 'a option" where
  "getFront q = (case mQueue q of [] \<Rightarrow> None | x # xs \<Rightarrow> Some x)"

text \<open>The argument says whether the wait ended by a wake-up or by the time limit.\<close>

definition waitTimePop :: "bool \<Rightarrow> 'a tsq \<Rightarrow> ('a option \<times> 'a tsq) outcome" where
  "waitTimePop wakeUp q = (if \<not> wakeUp then Inr (None, q) else popFront q)"

definition tsq_isEmpty :: "'a tsq \<Rightarrow> bool" where
  "tsq_isEmpty q = (mQueue q = [])"

definition clearQueue :: "'a tsq \<Rightarrow> 'a tsq" where
  "clearQueue q = q\<lparr>mQueue := []\<rparr>"

definition releaseQueue :: "'a tsq \<Rightarrow> 'a tsq" where
  "releaseQueue q = q\<lparr>mRelease := True\<rparr>"

definition queueSize :: "'a tsq \<Rightarrow> nat" where
  "queueSize q = length (mQueue q)"

subsection \<open>The interface of a queue with shutdown\<close>

locale closable_queue =
  fixes contents :: "'q \<Rightarrow> 'a list"
    and closed :: "'q \<Rightarrow> bool"
    and put :: "'a \<Rightarrow> 'q \<Rightarrow> bool \<times> 'q"
    and get :: "'q \<Rightarrow> 'a option \<times> 'q"
  assumes put_open: "\<not> closed q \<Longrightarrow> \<exists>q'. put x q = (True, q') \<and> contents q' = contents q @ [x] \<and> \<not> closed q'"
    and put_closed: "closed q \<Longrightarrow> put x q = (False, q)"
    and get_empty: "contents q = [] \<Longrightarrow> get q = (None, q)"
    and get_some: "contents q = x # xs \<Longrightarrow> \<exists>q'. get q = (Some x, q') \<and> contents q' = xs \<and> closed q' = closed q"
begin

primrec puts :: "'a list \<Rightarrow> 'q \<Rightarrow> 'q" where
  "puts [] q = q"
| "puts (x # xs) q = puts xs (snd (put x q))"

primrec drain :: "nat \<Rightarrow> 'q \<Rightarrow> 'a list \<times> 'q" where
  "drain 0 q = ([], q)"
| "drain (Suc n) q = (case get q of (None, q') \<Rightarrow> ([], q') | (Some x, q') \<Rightarrow> (let (xs, q'') = drain n q' in (x # xs, q'')))"

lemma puts_open: "\<not> closed q \<Longrightarrow> contents (puts xs q) = contents q @ xs \<and> \<not> closed (puts xs q)"
proof (induction xs arbitrary: q)
  case (Cons x xs)
  obtain q' where "put x q = (True, q')" "contents q' = contents q @ [x]" "\<not> closed q'"
    using put_open [OF Cons.prems] by blast
  then show ?case using Cons.IH [of q'] by simp
qed simp

lemma drain_spec:
  "drain n q = (xs, q') \<Longrightarrow> xs = take n (contents q) \<and> contents q' = drop n (contents q)"
proof (induction n arbitrary: q xs)
  case (Suc n)
  show ?case
  proof (cases "contents q")
    case Nil
    then show ?thesis using Suc.prems get_empty [OF Nil] by simp
  next
    case (Cons x rest)
    obtain q1 where "get q = (Some x, q1)" "contents q1 = rest" using get_some [OF Cons] by blast
    then show ?thesis using Suc.prems Suc.IH [of q1] Cons by (auto split: prod.splits)
  qed
qed simp

end

interpretation tsq: closable_queue mQueue mRelease tsq_push tryPop
  by unfold_locales (simp_all add: tsq_push_def tryPop_def)

subsection \<open>Interleavings\<close>

text \<open>
  An execution of any threads that use the queue, with the values accepted so far and those
  that have left it as history, each of the latter with what became of it.  Every member
  function that changes the queue is a step; a call that answers without a value
  (\<open>tryPop\<close> on an empty queue, \<open>waitTimePop\<close> at its time limit, a refused \<open>push\<close>) leaves the
  queue as it is.  A \<open>waitTimePop\<close> that is woken at an empty open queue reads outside the
  container (\<open>timed_pop_unchecked\<close> below): that execution has no next state.
\<close>

datatype fate = Delivered | Cleared

inductive tsq_run :: "'a tsq \<Rightarrow> 'a list \<Rightarrow> ('a \<times> fate) list \<Rightarrow> bool" where
  start: "tsq_run tsq_new [] []"
| push: "tsq_run q accepted gone \<Longrightarrow> tsq_push x q = (ok, q') \<Longrightarrow>
    tsq_run q' (if ok then accepted @ [x] else accepted) gone"
| pop: "tsq_run q accepted gone \<Longrightarrow> waitAndPop q = Some (Inr (Some x, q')) \<Longrightarrow>
    tsq_run q' accepted (gone @ [(x, Delivered)])"
| attempt: "tsq_run q accepted gone \<Longrightarrow> tryPop q = (Some x, q') \<Longrightarrow>
    tsq_run q' accepted (gone @ [(x, Delivered)])"
| timed: "tsq_run q accepted gone \<Longrightarrow> waitTimePop wakeUp q = Inr (Some x, q') \<Longrightarrow>
    tsq_run q' accepted (gone @ [(x, Delivered)])"
| clear: "tsq_run q accepted gone \<Longrightarrow>
    tsq_run (clearQueue q) accepted (gone @ map (\<lambda>x. (x, Cleared)) (mQueue q))"
| close: "tsq_run q accepted gone \<Longrightarrow> tsq_run (releaseQueue q) accepted gone"

definition delivered :: "('a \<times> fate) list \<Rightarrow> 'a list" where
  "delivered gone = map fst (filter (\<lambda>g. snd g = Delivered) gone)"

lemma popFront_some: "popFront q = Inr (Some x, q') \<Longrightarrow> mQueue q = x # mQueue q'"
  by (auto simp: popFront_def split: if_splits list.splits)

lemma tsq_run_fifo: "tsq_run q accepted gone \<Longrightarrow> accepted = map fst gone @ mQueue q"
proof (induction rule: tsq_run.induct)
  case (clear q accepted gone)
  then show ?case by (simp add: clearQueue_def comp_def)
qed (auto simp: tsq_new_def tsq_push_def tryPop_def releaseQueue_def waitAndPop_def waitTimePop_def
    dest!: popFront_some split: if_splits list.splits)

lemma delivered_all: "Cleared \<notin> snd ` set gone \<Longrightarrow> delivered gone = map fst gone"
proof (induction gone)
  case (Cons g gone)
  then show ?case by (cases "snd g") (auto simp: delivered_def)
qed (simp add: delivered_def)

lemma delivered_subseq: "subseq (delivered gone) (map fst gone)"
  unfolding delivered_def by (intro subseq_map subseq_filter_left)

lemma waitAndPop_no_fault: "waitAndPop q \<noteq> Some (Inl e)"
  by (simp add: waitAndPop_def popFront_def split: list.splits)

lemma waitAndPop_sleeps: "waitAndPop q = None \<longleftrightarrow> \<not> mRelease q \<and> mQueue q = []"
  by (simp add: waitAndPop_def)

subsection \<open>Properties\<close>

text \<open>C25: in every interleaving of the queue's member functions (pushes, the three kinds of pop,
  clearing, shutdown), the values that have left the queue followed by those still in it are
  the values accepted, in order: none is duplicated or reordered, and one is lost only to
  \<open>clearQueue\<close>.  The values delivered are in the order of their acceptance, and a prefix of the
  values accepted as long as no clearing met a value.\<close>

theorem queue_is_fifo:
  assumes "tsq_run q accepted gone"
  shows "accepted = map fst gone @ mQueue q \<and>
    subseq (delivered gone) accepted \<and>
    (Cleared \<notin> snd ` set gone \<longrightarrow> accepted = delivered gone @ mQueue q)"
  using tsq_run_fifo [OF assms] delivered_subseq [of gone]
  by (auto simp: delivered_all)

text \<open>3 is accepted and cleared, then 4 and 5 are accepted and 4 is delivered.\<close>

theorem queue_is_fifo_witness:
  "\<exists>q gone. tsq_run q [3 :: nat, 4, 5] gone \<and> gone = [(3, Cleared), (4, Delivered)] \<and>
    delivered gone = [4] \<and> [3, 4, 5] = map fst gone @ mQueue q \<and> subseq (delivered gone) [3, 4, 5]"
proof -
  have 1: "tsq_run \<lparr>mQueue = [3], mRelease = False\<rparr> [3 :: nat] []"
    using tsq_run.push [OF tsq_run.start, of 3 True] by (simp add: tsq_push_def tsq_new_def)
  have 2: "tsq_run \<lparr>mQueue = [], mRelease = False\<rparr> [3 :: nat] [(3, Cleared)]"
    using tsq_run.clear [OF 1] by (simp add: clearQueue_def)
  have 3: "tsq_run \<lparr>mQueue = [4], mRelease = False\<rparr> [3 :: nat, 4] [(3, Cleared)]"
    using tsq_run.push [OF 2, of 4 True] by (simp add: tsq_push_def)
  have 4: "tsq_run \<lparr>mQueue = [4, 5], mRelease = False\<rparr> [3 :: nat, 4, 5] [(3, Cleared)]"
    using tsq_run.push [OF 3, of 5 True] by (simp add: tsq_push_def)
  have 5: "tsq_run \<lparr>mQueue = [5], mRelease = False\<rparr> [3 :: nat, 4, 5] [(3, Cleared), (4, Delivered)]"
    using tsq_run.timed [OF 4, of True 4] by (simp add: waitTimePop_def popFront_def)
  have 6: "delivered [(3 :: nat, Cleared), (4, Delivered)] = [4]" by (simp add: delivered_def)
  have 7: "[3 :: nat, 4, 5] = map fst [(3 :: nat, Cleared), (4, Delivered)] @ mQueue \<lparr>mQueue = [5], mRelease = False\<rparr>"
    "subseq (delivered [(3 :: nat, Cleared), (4, Delivered)]) [3, 4, 5]"
    using queue_is_fifo [OF 5] by blast+
  show ?thesis by (rule exI, rule exI, intro conjI, rule 5, rule refl, rule 6, rule 7, rule 7)
qed

text \<open>After shutdown no consumer sleeps: each further \<open>waitAndPop\<close> returns without a fault, the
  values still queued come out in order, then every call reports the end, and every push is
  refused.\<close>

theorem shutdown_drains:
  "(\<exists>r q'. waitAndPop (releaseQueue q) = Some (Inr (r, q')) \<and>
      (case mQueue q of [] \<Rightarrow> r = None \<and> q' = releaseQueue q
       | x # xs \<Rightarrow> r = Some x \<and> q' = releaseQueue (q\<lparr>mQueue := xs\<rparr>))) \<and>
   tsq_push y (releaseQueue q) = (False, releaseQueue q)"
  by (auto simp: waitAndPop_def popFront_def releaseQueue_def tsq_push_def split: list.splits)

text \<open>\<open>waitTimePop\<close> does not repeat the test of its predicate: a wake-up without a value in an
  open queue reads the front of an empty container, and a value that is already there is not
  delivered when the time limit passes.\<close>

theorem timed_pop_unchecked:
  "waitTimePop True (tsq_new :: 'a tsq) = Inl BadIndex \<and>
   waitTimePop False (snd (tsq_push x tsq_new)) = Inr (None, snd (tsq_push x tsq_new))"
  by (simp add: waitTimePop_def popFront_def tsq_new_def tsq_push_def)

end
