(* ===== verification/PipelineRun.thy ===== *)
theory PipelineRun
  imports Pruner Image SafeQueue
begin

text \<open>
  One running request: \<open>Pipeline\<close> (\<^verbatim>\<open>mivifwk/mialgoengine/MiaPipeline.cpp\<close> and \<^verbatim>\<open>.h\<close>).  The
  pipeline owns a queue of images per source port and per node port, dispatches a node when
  all nodes that feed it have finished, and moves images along the links.  Images are
  objects: queues hold references, and each image counts its users.  Every member function
  is one step; a wait that is not satisfied is the fault \<open>WouldBlock\<close>.  The calls to the
  session are recorded as events; what the session answers is an argument.
\<close>

datatype FlushStatus = NoFlush | Expediting | ForcedFlush

datatype NodeProcessInfo = ProcessOK | GetInputError | GetOutputError | FlushTask | NodeProcessError

datatype MiaResultCbType = MIA_META_CALLBACK | MIA_ASD_CALLBACK | MIA_ANCHOR_CALLBACK | MIA_ABNORMAL_CALLBACK

datatype session_call =
    ReleaseBuffer nat bool bool
  | ImageEvents nat "img_event list"
  | OnResultComing MiaResultCbType u32 int
  | MoveToIdleQueue
  | AcquireOutputBuffer FrameInfo int u32 MiaImageType
  | EnqueueTask string
  | NodeQuickFinish string

record bufferSpace =
  inputBuffers :: "(int, nat tsq) std_map"
  outputBuffers :: "(int, nat tsq) std_map"
  usingInputBuffers :: "(int, nat tsq) std_map"

record Pipeline =
  mPipelineInfo :: PipelineInfo
  mSinkBufferFormats :: "FrameInfo list"
  mFirstFrameInputFormat :: u32
  mTimestampUs :: int
  mRunSequence :: "string list"
  mDependenceNum :: "(string, int) std_map"
  mRunningNodeNum :: int
  mHasProcessError :: bool
  mSinkNumToReturn :: u32
  mFlushStatus :: FlushStatus
  mInputLinkMap :: link_map
  mOutputLinkMap :: link_map
  mIsCallExternal :: bool
  mCurrentProcessNodes :: "string list"
  mSourceBufferQueueMap :: "(u32, nat tsq) std_map"
  mBuffers :: "(string, bufferSpace) std_map"
  pimages :: "nat \<Rightarrow> MiaImage"
  pwrappers :: "FrameInfo list"
  pcalls :: "session_call list"

definition new_Pipeline :: "FrameInfo list \<Rightarrow> u32 \<Rightarrow> int \<Rightarrow> u32 list \<Rightarrow> (nat \<Rightarrow> MiaImage) \<Rightarrow>
  FrameInfo list \<Rightarrow> Pipeline" where
  "new_Pipeline outputFormat firstFormat timestampUs sourcePortIdVec ims ws =
     \<lparr>mPipelineInfo = \<lparr>pipelineName = '''', nodes = [], links = []\<rparr>, mSinkBufferFormats = outputFormat,
      mFirstFrameInputFormat = firstFormat, mTimestampUs = timestampUs, mRunSequence = [],
      mDependenceNum = [], mRunningNodeNum = 0, mHasProcessError = False, mSinkNumToReturn = 0,
      mFlushStatus = NoFlush, mInputLinkMap = [], mOutputLinkMap = [], mIsCallExternal = False,
      mCurrentProcessNodes = [],
      mSourceBufferQueueMap = fold (\<lambda>p m. sm_insert p tsq_new m) sourcePortIdVec [],
      mBuffers = [], pimages = ims, pwrappers = ws, pcalls = []\<rparr>"

subsection \<open>Queues and session calls\<close>

datatype qsel = InQ | OutQ | UseQ

fun qmap :: "qsel \<Rightarrow> bufferSpace \<Rightarrow> (int, nat tsq) std_map" where
  "qmap InQ bs = inputBuffers bs"
| "qmap OutQ bs = outputBuffers bs"
| "qmap UseQ bs = usingInputBuffers bs"

fun qmap_set :: "qsel \<Rightarrow> (int, nat tsq) std_map \<Rightarrow> bufferSpace \<Rightarrow> bufferSpace" where
  "qmap_set InQ m bs = bs\<lparr>inputBuffers := m\<rparr>"
| "qmap_set OutQ m bs = bs\<lparr>outputBuffers := m\<rparr>"
| "qmap_set UseQ m bs = bs\<lparr>usingInputBuffers := m\<rparr>"

text \<open>\<open>mBuffers.at(n).inputBuffers.at(port)\<close> and its assignment.\<close>

definition q_at :: "Pipeline \<Rightarrow> string \<Rightarrow> qsel \<Rightarrow> int \<Rightarrow> nat tsq outcome" where
  "q_at st n sel port = bindE (sm_at (mBuffers st) n) (\<lambda>bs. sm_at (qmap sel bs) port)"

definition emptySpace :: bufferSpace where
  "emptySpace = \<lparr>inputBuffers = [], outputBuffers = [], usingInputBuffers = []\<rparr>"

definition q_put :: "string \<Rightarrow> qsel \<Rightarrow> int \<Rightarrow> nat tsq \<Rightarrow> Pipeline \<Rightarrow> Pipeline" where
  "q_put n sel port q st =
     (let bs = sm_index emptySpace (mBuffers st) n
      in st\<lparr>mBuffers := sm_set n (qmap_set sel (sm_set port q (qmap sel bs)) bs) (mBuffers st)\<rparr>)"

definition pushQ :: "string \<Rightarrow> qsel \<Rightarrow> int \<Rightarrow> nat \<Rightarrow> Pipeline \<Rightarrow> Pipeline outcome" where
  "pushQ n sel port i st =
     bindE (q_at st n sel port) (\<lambda>q. Inr (q_put n sel port (snd (tsq_push i q)) st))"

definition popQ :: "string \<Rightarrow> qsel \<Rightarrow> int \<Rightarrow> Pipeline \<Rightarrow> (nat option \<times> Pipeline) outcome" where
  "popQ n sel port st =
     bindE (q_at st n sel port) (\<lambda>q.
       case tryPop q of
         (None, _) \<Rightarrow> Inr (None, st)
       | (Some i, q') \<Rightarrow> Inr (Some i, q_put n sel port q' st))"

text \<open>\<open>while (queue.tryPop(image)) body\<close>; the fuel is one more than the queue's length.\<close>

fun popLoop ::
  "nat \<Rightarrow> string \<Rightarrow> qsel \<Rightarrow> int \<Rightarrow> (nat \<Rightarrow> Pipeline \<Rightarrow> Pipeline outcome) \<Rightarrow> Pipeline \<Rightarrow> Pipeline outcome" where
  "popLoop 0 n sel port body st = Inl NoReturn"
| "popLoop (Suc fuel) n sel port body st =
     bindE (popQ n sel port st) (\<lambda>(r, st1).
       case r of None \<Rightarrow> Inr st1 | Some i \<Rightarrow> bindE (body i st1) (popLoop fuel n sel port body))"

definition popAll ::
  "string \<Rightarrow> qsel \<Rightarrow> int \<Rightarrow> (nat \<Rightarrow> Pipeline \<Rightarrow> Pipeline outcome) \<Rightarrow> Pipeline \<Rightarrow> Pipeline outcome" where
  "popAll n sel port body st =
     bindE (q_at st n sel port) (\<lambda>q. popLoop (Suc (length (mQueue q))) n sel port body st)"

definition popOne ::
  "string \<Rightarrow> qsel \<Rightarrow> int \<Rightarrow> (nat \<Rightarrow> Pipeline \<Rightarrow> Pipeline outcome) \<Rightarrow> Pipeline \<Rightarrow> Pipeline outcome" where
  "popOne n sel port body st =
     bindE (popQ n sel port st) (\<lambda>(r, st1). case r of None \<Rightarrow> Inr st1 | Some i \<Rightarrow> body i st1)"

definition call :: "session_call \<Rightarrow> Pipeline \<Rightarrow> Pipeline" where
  "call c st = st\<lparr>pcalls := pcalls st @ [c]\<rparr>"

text \<open>
  \<open>mSessionCB->releaseBuffer\<close> (\<^verbatim>\<open>MiaOfflineSession.cpp\<close>) gives up one use of the image; with
  the last one an internal buffer goes back to its wrapper's queue (\<open>enqueueBuffer\<close>) and any
  other to the application.  An internal image no wrapper has the format of is only logged.
  \<open>pwrappers\<close> are the formats of the session's buffer queue wrappers.
\<close>

definition isMatchFormat :: "FrameInfo \<Rightarrow> FrameInfo \<Rightarrow> bool" where
  "isMatchFormat w f \<longleftrightarrow> fwidth w = fwidth f \<and> fheight w = fheight f \<and> fformat w = fformat f"

definition wrapped :: "FrameInfo list \<Rightarrow> MiaImage \<Rightarrow> bool" where
  "wrapped ws im = list_ex (\<lambda>w. isMatchFormat w (mFormat im)) ws"

definition releaseBuffer :: "nat \<Rightarrow> bool \<Rightarrow> Pipeline \<Rightarrow> Pipeline" where
  "releaseBuffer i complete st =
     (let (n, im) = decreaseUseCount (pimages st i)
      in if imType (pimages st i) = MI_IMG_INTERNAL then
           (if wrapped (pwrappers st) (pimages st i)
            then call (ReleaseBuffer i complete (n = 0)) (st\<lparr>pimages := (pimages st)(i := im)\<rparr>)
            else call (ReleaseBuffer i complete False) st)
         else if n = 0 then
           (let (im', ev) = releaseExternalFrame im
            in call (ImageEvents i ev)
                 (call (ReleaseBuffer i complete True) (st\<lparr>pimages := (pimages st)(i := im')\<rparr>)))
         else call (ReleaseBuffer i complete False) (st\<lparr>pimages := (pimages st)(i := im)\<rparr>))"

definition useMore :: "nat \<Rightarrow> Pipeline \<Rightarrow> Pipeline" where
  "useMore i st = st\<lparr>pimages := (pimages st)(i := snd (increaseUseCount (pimages st i)))\<rparr>"

text \<open>\<open>operator[]\<close> on the link maps inserts an empty list.\<close>

definition outLinks :: "Pipeline \<Rightarrow> string \<Rightarrow> nat list" where
  "outLinks st n = sm_index [] (mOutputLinkMap st) n"

definition touchOut :: "string \<Rightarrow> Pipeline \<Rightarrow> Pipeline" where
  "touchOut n st = st\<lparr>mOutputLinkMap := sm_insert n [] (mOutputLinkMap st)\<rparr>"

definition touchIn :: "string \<Rightarrow> Pipeline \<Rightarrow> Pipeline" where
  "touchIn n st = st\<lparr>mInputLinkMap := sm_insert n [] (mInputLinkMap st)\<rparr>"

definition plink :: "Pipeline \<Rightarrow> nat \<Rightarrow> LinkItem outcome" where
  "plink st i = vec_get (links (mPipelineInfo st)) i"

definition nodeMaskAt :: "Pipeline \<Rightarrow> string \<Rightarrow> u32 outcome" where
  "nodeMaskAt st n = bindE (sm_at (nodes (mPipelineInfo st)) n) (\<lambda>item. Inr (nodeMask item))"

definition isInplaceNode :: "string \<Rightarrow> u32 \<Rightarrow> Pipeline \<Rightarrow> bool outcome" where
  "isInplaceNode inst mk st =
     (case outLinks st inst of
        [l] \<Rightarrow>
          (if has_mode mk INPLACE_MODE then
             bindE (plink st l) (\<lambda>link.
               if linkType link \<noteq> SinkLink
               then bindE (nodeMaskAt st (dstNodeInstance link)) (\<lambda>cm. Inr (\<not> has_mode cm VIRTUAL_SINKNODE))
               else Inr False)
           else Inr False)
      | _ \<Rightarrow> Inr False)"

subsection \<open>Releasing the buffers of a node\<close>

fun moveToChildren :: "nat list \<Rightarrow> nat \<Rightarrow> Pipeline \<Rightarrow> Pipeline outcome" where
  "moveToChildren [] i st = Inr st"
| "moveToChildren (l # ls) i st =
     bindE (plink st l) (\<lambda>link.
     bindE (pushQ (dstNodeInstance link) InQ (dstNodePortId link) i (useMore i st)) (moveToChildren ls i))"

fun eachPort :: "(int \<Rightarrow> Pipeline \<Rightarrow> Pipeline outcome) \<Rightarrow> int list \<Rightarrow> Pipeline \<Rightarrow> Pipeline outcome" where
  "eachPort f [] st = Inr st"
| "eachPort f (p # ps) st = bindE (f p st) (eachPort f ps)"

definition usePorts :: "Pipeline \<Rightarrow> string \<Rightarrow> int list outcome" where
  "usePorts st n = bindE (sm_at (mBuffers st) n) (\<lambda>bs. Inr (map fst (usingInputBuffers bs)))"

definition releaseInputBuffers :: "string \<Rightarrow> bool \<Rightarrow> Pipeline \<Rightarrow> Pipeline outcome" where
  "releaseInputBuffers inst one st =
     bindE (nodeMaskAt st inst) (\<lambda>mk.
     bindE (isInplaceNode inst mk st) (\<lambda>inplace.
     let st0 = touchOut inst st;
         body = (if inplace \<or> has_mode mk VIRTUAL_MODE
                 then (\<lambda>i s. bindE (moveToChildren (outLinks st0 inst) i s) (\<lambda>s1. Inr (releaseBuffer i False s1)))
                 else (\<lambda>i s. Inr (releaseBuffer i False s)))
     in bindE (usePorts st0 inst) (\<lambda>ports.
          eachPort (\<lambda>p. if one then popOne inst UseQ p body else popAll inst UseQ p body) ports st0)))"

text \<open>The loop over a sink queue: the last image of the pipeline's last sink completes it.\<close>

definition sinkBody :: "string \<Rightarrow> int \<Rightarrow> nat \<Rightarrow> Pipeline \<Rightarrow> Pipeline outcome" where
  "sinkBody inst port i st =
     bindE (q_at st inst OutQ port) (\<lambda>q.
       if mSinkNumToReturn st = 0 \<and> queueSize q = 0
       then Inr (releaseBuffer i True
                   (call (OnResultComing MIA_META_CALLBACK (ucast (mFrameNum (pimages st i))) (mTimestamp (pimages st i))) st))
       else Inr (releaseBuffer i False st))"

definition releaseOutBuffers :: "nat \<Rightarrow> LinkType \<Rightarrow> bool \<Rightarrow> Pipeline \<Rightarrow> Pipeline outcome" where
  "releaseOutBuffers linkIndex lt one st =
     bindE (plink st linkIndex) (\<lambda>link.
     let cur = srcNodeInstance link; port = srcNodePortId link in
     bindE (q_at st cur OutQ port) (\<lambda>_.
       if lt = InternalLink then
         bindE (q_at st (dstNodeInstance link) InQ (dstNodePortId link)) (\<lambda>_.
           let body = pushQ (dstNodeInstance link) InQ (dstNodePortId link)
           in if one then popOne cur OutQ port body st else popAll cur OutQ port body st)
       else
         popAll cur OutQ port (sinkBody cur port) (st\<lparr>mSinkNumToReturn := mSinkNumToReturn st - 1\<rparr>)))"

datatype PluginReleaseBuffer = PluginReleaseInputBuffer | PluginReleaseOutputBuffer

fun repeatM :: "nat \<Rightarrow> (Pipeline \<Rightarrow> Pipeline outcome) \<Rightarrow> Pipeline \<Rightarrow> Pipeline outcome" where
  "repeatM 0 f st = Inr st"
| "repeatM (Suc n) f st = bindE (f st) (repeatM n f)"

fun pluginReleaseOut :: "string \<Rightarrow> int \<Rightarrow> int \<Rightarrow> nat list \<Rightarrow> Pipeline \<Rightarrow> (CDKResult \<times> Pipeline) outcome" where
  "pluginReleaseOut inst pid releaseNumber [] st = Inr (MIAS_OK, st)"
| "pluginReleaseOut inst pid releaseNumber (l # ls) st =
     bindE (plink st l) (\<lambda>link.
       if srcNodePortId link = pid then
         bindE (q_at st inst OutQ pid) (\<lambda>q.
           if int (queueSize q) < releaseNumber then Inr (MIAS_INVALID_PARAM, st)
           else bindE (if linkType link = SinkLink then releaseOutBuffers l SinkLink False st
                       else repeatM (nat releaseNumber) (releaseOutBuffers l InternalLink True) st)
                  (pluginReleaseOut inst pid releaseNumber ls))
       else pluginReleaseOut inst pid releaseNumber ls st)"

definition pluginReleaseUnneedBuffer ::
  "string \<Rightarrow> int \<Rightarrow> int \<Rightarrow> PluginReleaseBuffer \<Rightarrow> Pipeline \<Rightarrow> (CDKResult \<times> Pipeline) outcome" where
  "pluginReleaseUnneedBuffer inst pid releaseNumber mode st =
     (case mode of
        PluginReleaseInputBuffer \<Rightarrow>
          bindE (q_at st inst UseQ pid) (\<lambda>q.
            if int (queueSize q) < releaseNumber then Inr (MIAS_INVALID_PARAM, st)
            else bindE (repeatM (nat releaseNumber)
                          (popOne inst UseQ pid (\<lambda>i s. Inr (releaseBuffer i False s))) st) (\<lambda>st1.
                   Inr (MIAS_OK, st1)))
      | PluginReleaseOutputBuffer \<Rightarrow>
          bindE (sm_at (mOutputLinkMap st) inst) (\<lambda>ls. pluginReleaseOut inst pid releaseNumber ls st))"

subsection \<open>Taking inputs and outputs\<close>

type_synonym image_map = "(u32, nat list) std_map"

definition checkInputFormat :: "mia_env \<Rightarrow> MiaImage \<Rightarrow> LinkItem \<Rightarrow> bool outcome" where
  "checkInputFormat env im link =
     (if OpenPrunerAbnormalDump env then
        (if fformat (mFormat im) \<in> set (dstPortFormat link) then Inr True
         else bindE (vec_get (dstPortFormat link) 0) (\<lambda>f.
                Inr (\<not> (f \<noteq> CAM_FORMAT_UNDEFINED \<and> srcPortFormat link \<noteq> CAM_FORMAT_UNDEFINED))))
      else Inr True)"

definition waitPop :: "nat tsq \<Rightarrow> (nat option \<times> nat tsq) outcome" where
  "waitPop q = (case waitAndPop q of None \<Rightarrow> Inl WouldBlock | Some r \<Rightarrow> r)"

definition getSourceImage :: "u32 \<Rightarrow> Pipeline \<Rightarrow> (nat option \<times> Pipeline) outcome" where
  "getSourceImage srcPortId st =
     (case sm_find (mSourceBufferQueueMap st) srcPortId of
        None \<Rightarrow> Inr (None, st)
      | Some q \<Rightarrow>
          bindE (waitPop q) (\<lambda>(r, q').
            Inr (r, st\<lparr>mSourceBufferQueueMap := sm_set srcPortId q' (mSourceBufferQueueMap st)\<rparr>)))"

text \<open>Push to the node's using queue and to the list handed to the plugin.\<close>

definition takeInput :: "string \<Rightarrow> int \<Rightarrow> nat \<Rightarrow> image_map \<times> Pipeline \<Rightarrow> (image_map \<times> Pipeline) outcome" where
  "takeInput inst port i acc =
     (case acc of (ims, st) \<Rightarrow>
        bindE (pushQ inst UseQ port i st) (\<lambda>st1. Inr (sm_push (word_of_int port) i ims, st1)))"

fun takeSources ::
  "nat \<Rightarrow> u32 \<Rightarrow> string \<Rightarrow> int \<Rightarrow> image_map \<times> Pipeline \<Rightarrow> (CDKResult \<times> image_map \<times> Pipeline) outcome" where
  "takeSources 0 src inst port acc = Inr (MIAS_OK, acc)"
| "takeSources (Suc n) src inst port (ims, st) =
     bindE (getSourceImage src st) (\<lambda>(r, st1).
       case r of
         None \<Rightarrow> Inr (MIAS_NO_MEM, ims, st1)
       | Some i \<Rightarrow> bindE (takeInput inst port i (ims, st1)) (takeSources n src inst port))"

definition inputFromSource ::
  "mia_env \<Rightarrow> string \<Rightarrow> u32 \<Rightarrow> LinkItem \<Rightarrow> image_map \<times> Pipeline \<Rightarrow>
     (CDKResult \<times> image_map \<times> Pipeline) outcome" where
  "inputFromSource env inst mk link acc =
     (case acc of (ims, st) \<Rightarrow>
       let src = word_of_int (srcNodePortId link); port = dstNodePortId link in
       bindE (getSourceImage src st) (\<lambda>(r, st1).
         case r of
           None \<Rightarrow> Inr (MIAS_NO_MEM, ims, st1)
         | Some i \<Rightarrow>
             bindE (takeInput inst port i (ims, st1)) (\<lambda>(ims2, st2).
             bindE (checkInputFormat env (pimages st2 i) link) (\<lambda>ok.
               if \<not> ok then Inr (MIAS_ABNORMAL, ims2, st2)
               else if has_mode mk SIGFRAME_MODE then Inr (MIAS_OK, ims2, st2)
               else takeSources (nat (sint (mInputNumber (pimages st2 i)) - 1)) src inst port (ims2, st2)))))"

fun takeInternals ::
  "nat \<Rightarrow> mia_env \<Rightarrow> string \<Rightarrow> LinkItem \<Rightarrow> image_map \<times> Pipeline \<Rightarrow>
     (CDKResult \<times> image_map \<times> Pipeline) outcome" where
  "takeInternals 0 env inst link acc = Inl NoReturn"
| "takeInternals (Suc fuel) env inst link (ims, st) =
     bindE (popQ inst InQ (dstNodePortId link) st) (\<lambda>(r, st1).
       case r of
         None \<Rightarrow> Inr (MIAS_OK, ims, st1)
       | Some i \<Rightarrow>
           bindE (takeInput inst (dstNodePortId link) i (ims, st1)) (\<lambda>(ims2, st2).
           bindE (checkInputFormat env (pimages st2 i) link) (\<lambda>ok.
             if \<not> ok then Inr (MIAS_ABNORMAL, ims2, st2)
             else takeInternals fuel env inst link (ims2, st2))))"

definition inputFromNode ::
  "mia_env \<Rightarrow> string \<Rightarrow> u32 \<Rightarrow> LinkItem \<Rightarrow> image_map \<times> Pipeline \<Rightarrow>
     (CDKResult \<times> image_map \<times> Pipeline) outcome" where
  "inputFromNode env inst mk link acc =
     (case acc of (ims, st) \<Rightarrow>
       let port = dstNodePortId link in
       bindE (q_at st inst InQ port) (\<lambda>q.
       bindE (q_at st inst UseQ port) (\<lambda>_.
         if has_mode mk SIGFRAME_MODE then
           bindE (waitPop q) (\<lambda>(r, q').
             case r of
               None \<Rightarrow> Inr (MIAS_NO_MEM, ims, st)
             | Some i \<Rightarrow>
                 bindE (takeInput inst port i (ims, q_put inst InQ port q' st)) (\<lambda>(ims2, st2).
                 bindE (checkInputFormat env (pimages st2 i) link) (\<lambda>ok.
                   Inr (if ok then MIAS_OK else MIAS_ABNORMAL, ims2, st2))))
         else takeInternals (Suc (length (mQueue q))) env inst link (ims, st))))"

fun getInputs ::
  "mia_env \<Rightarrow> string \<Rightarrow> u32 \<Rightarrow> nat list \<Rightarrow> image_map \<times> Pipeline \<Rightarrow>
     (CDKResult \<times> image_map \<times> Pipeline) outcome" where
  "getInputs env inst mk [] acc = Inr (MIAS_OK, acc)"
| "getInputs env inst mk (l # ls) (ims, st) =
     bindE (plink st l) (\<lambda>link.
     bindE (case linkType link of
              SourceLink \<Rightarrow> inputFromSource env inst mk link (ims, st)
            | InternalLink \<Rightarrow> inputFromNode env inst mk link (ims, st)
            | SinkLink \<Rightarrow> Inr (MIAS_OK, ims, st)) (\<lambda>(rc, acc').
       if rc \<noteq> MIAS_OK then Inr (rc, acc') else getInputs env inst mk ls acc'))"

definition getInputImage ::
  "mia_env \<Rightarrow> string \<Rightarrow> u32 \<Rightarrow> image_map \<Rightarrow> Pipeline \<Rightarrow> (CDKResult \<times> image_map \<times> Pipeline) outcome" where
  "getInputImage env inst mk ims st =
     getInputs env inst mk (sm_index [] (mInputLinkMap st) inst) (ims, touchIn inst st)"

text \<open>The number of buffers per output port.\<close>

fun inportBufferNum ::
  "image_map \<Rightarrow> nat list \<Rightarrow> Pipeline \<Rightarrow> (int, int) std_map \<Rightarrow> (int, int) std_map outcome" where
  "inportBufferNum ims [] st m = Inr m"
| "inportBufferNum ims (l # ls) st m =
     bindE (plink st l) (\<lambda>link.
     bindE (sm_at ims (word_of_int (dstNodePortId link))) (\<lambda>is.
       case is of
         [] \<Rightarrow> Inl OutOfRange
       | i # _ \<Rightarrow> inportBufferNum ims ls st (sm_set (dstNodePortId link) (sint (mInputNumber (pimages st i))) m)))"

fun outPorts :: "nat list \<Rightarrow> Pipeline \<Rightarrow> int list outcome" where
  "outPorts [] st = Inr []"
| "outPorts (l # ls) st =
     bindE (plink st l) (\<lambda>link. bindE (outPorts ls st) (\<lambda>ps. Inr (srcNodePortId link # ps)))"

definition customOutportBufferNum :: "int list \<Rightarrow> (int, int) std_map \<Rightarrow> (int, int) std_map" where
  "customOutportBufferNum outports m = fold (\<lambda>p. sm_set p 1) outports m"

definition defaultNode :: NodeItem where
  "defaultNode = \<lparr>nodeName = [], nodeInstance = [], nodeMask = 0, outputBufferNeedCheck = False,
     isEnable = False, outputType = OneBuffer\<rparr>"

definition countDynamicOutBufferNum :: "string \<Rightarrow> image_map \<Rightarrow> Pipeline \<Rightarrow> (int, int) std_map outcome" where
  "countDynamicOutBufferNum inst ims st =
     (let ty = outputType (sm_index defaultNode (nodes (mPipelineInfo st)) inst);
          inputLinks = sm_index [] (mInputLinkMap st) inst;
          outputLinks = outLinks st inst
      in bindE (inportBufferNum ims inputLinks st []) (\<lambda>inNum.
         bindE (outPorts outputLinks st) (\<lambda>outports.
           case ty of
             OneBuffer \<Rightarrow> Inr (fold (\<lambda>p. sm_set p 1) outports [])
           | FollowInput \<Rightarrow>
               (if length inputLinks = 1 \<and> length outputLinks = 1
                then (case inNum of [] \<Rightarrow> Inl BadIndex | (k, v) # _ \<Rightarrow> Inr (sm_set k v []))
                else Inr [])
           | Custom \<Rightarrow> Inr (customOutportBufferNum outports [])
           | OtherOutput _ \<Rightarrow> Inr [])))"

text \<open>The type and format of the images of one output link; \<open>i\<close> is the position of the link.\<close>

definition outputKind ::
  "u32 \<Rightarrow> FrameInfo list \<Rightarrow> nat \<Rightarrow> LinkItem \<Rightarrow> Pipeline \<Rightarrow> (MiaImageType \<times> FrameInfo) outcome" where
  "outputKind mk inputFormats i link st =
     (let ty0 = (if linkType link = SinkLink then MI_IMG_SINK else MI_IMG_INTERNAL);
          ty = (case sm_find (nodes (mPipelineInfo st)) (dstNodeInstance link) of
                  None \<Rightarrow> ty0
                | Some item \<Rightarrow> (if has_mode (nodeMask item) VIRTUAL_SINKNODE then MI_IMG_VIRTUAL_SINK else ty0))
      in if ty \<noteq> MI_IMG_INTERNAL then
           (let p = dstNodePortId link
            in if 0 \<le> p \<and> nat p < length (mSinkBufferFormats st)
               then Inr (ty, mSinkBufferFormats st ! nat p) else Inl AssertFail)
         else
           (if inputFormats = [] then Inl OutOfRange
            else
              let f0 = (if i \<ge> length inputFormats then inputFormats ! 0 else inputFormats ! i);
                  f1 = (if srcPortFormat link \<noteq> CAM_FORMAT_UNDEFINED then f0\<lparr>fformat := srcPortFormat link\<rparr> else f0)
              in if has_mode mk SCALE_MODE
                 then (if mSinkBufferFormats st = [] then Inl OutOfRange
                       else Inr (ty, f1\<lparr>fwidth := fwidth (mSinkBufferFormats st ! 0),
                                         fheight := fheight (mSinkBufferFormats st ! 0)\<rparr>))
                 else Inr (ty, f1)))"

text \<open>
  What \<open>acquireOutputBuffer\<close> answers: a reference and its image, with one use counted, or null.
  The loop over the buffers of one output link consumes one answer per round.
\<close>

type_synonym acquire_answers = "(nat \<times> MiaImage) option list"

fun acquireLoop ::
  "nat \<Rightarrow> nat \<Rightarrow> mia_env \<Rightarrow> string \<Rightarrow> u32 \<Rightarrow> image_map \<Rightarrow> LinkItem \<Rightarrow> MiaImageType \<times> FrameInfo \<Rightarrow> u32 \<Rightarrow>
     acquire_answers \<times> nat \<times> image_map \<times> Pipeline \<Rightarrow>
     (CDKResult \<times> acquire_answers \<times> nat \<times> image_map \<times> Pipeline) outcome" where
  "acquireLoop 0 j env inst mk inputs link kind num acc = Inr (MIAS_OK, acc)"
| "acquireLoop (Suc n) j env inst mk inputs link kind num (answers, mainImg, outs, st) =
     bindE (if Soc env = MTK
            then bindE (sm_at (nodes (mPipelineInfo st)) inst) (\<lambda>item.
                   if outputType item = FollowInput
                   then (case inputs of [] \<Rightarrow> Inl BadIndex | (_, is) # _ \<Rightarrow> vec_get is j)
                   else Inr mainImg)
            else Inr mainImg) (\<lambda>mi.
     let port = srcNodePortId link; ts = mTimestamp (pimages st mi);
         st0 = call (AcquireOutputBuffer (snd kind) ts (word_of_int (dstNodePortId link)) (fst kind)) st
     in case answers of
       [] \<Rightarrow> Inl WouldBlock
     | None # rest \<Rightarrow> Inr (MIAS_INVALID_PARAM, rest, mi, outs, st0)
     | Some (i, im) # rest \<Rightarrow>
         let im1 = copyParams (pimages st mi) ts num im;
             st1 = st0\<lparr>pimages := (pimages st)(i := im1)\<rparr>
         in bindE (pushQ inst OutQ port i st1) (\<lambda>st2.
              let acc = (rest, mi, sm_push (word_of_int port) i outs, st2)
              in if has_mode mk SIGGETOUTPUT_MODE then Inr (MIAS_OK, acc)
                 else acquireLoop n (Suc j) env inst mk inputs link kind num acc))"

fun outputLoop ::
  "nat list \<Rightarrow> nat \<Rightarrow> mia_env \<Rightarrow> string \<Rightarrow> u32 \<Rightarrow> image_map \<Rightarrow> FrameInfo list \<Rightarrow> (int, int) std_map \<Rightarrow>
     acquire_answers \<times> nat \<times> image_map \<times> Pipeline \<Rightarrow>
     (CDKResult \<times> acquire_answers \<times> nat \<times> image_map \<times> Pipeline) outcome" where
  "outputLoop [] k env inst mk inputs fmts num acc = Inr (MIAS_OK, acc)"
| "outputLoop (l # ls) k env inst mk inputs fmts num (answers, mainImg, outs, st) =
     bindE (plink st l) (\<lambda>link.
     bindE (outputKind mk fmts k link st) (\<lambda>kind.
     let n = sm_index 0 num (srcNodePortId link) in
     bindE (acquireLoop (nat n) 0 env inst mk inputs link kind (word_of_int n)
              (answers, mainImg, outs, st)) (\<lambda>(rc, acc).
       if rc \<noteq> MIAS_OK then Inr (rc, acc)
       else outputLoop ls (Suc k) env inst mk inputs fmts num acc)))"

definition getOutputImage ::
  "mia_env \<Rightarrow> string \<Rightarrow> u32 \<Rightarrow> image_map \<Rightarrow> (int, FrameInfo) std_map \<Rightarrow> acquire_answers \<Rightarrow> Pipeline \<Rightarrow>
     (CDKResult \<times> image_map \<times> Pipeline) outcome" where
  "getOutputImage env inst mk inputs imageFormats answers st =
     (case inputs of
        (_, mainImg # _) # _ \<Rightarrow>
          let st0 = touchOut inst st;
              mk' = (case sm_find (nodes (mPipelineInfo st)) inst of None \<Rightarrow> mk | Some item \<Rightarrow> nodeMask item)
          in bindE (isInplaceNode inst mk' st0) (\<lambda>inplace.
               if inplace then Inr (MIAS_OK, [], st0)
               else
                 bindE (countDynamicOutBufferNum inst inputs st0) (\<lambda>num.
                 bindE (outputLoop (outLinks st0 inst) 0 env inst mk' inputs (map snd imageFormats) num
                          (answers, mainImg, [], st0)) (\<lambda>(rc, _, _, outs, st1).
                   Inr (rc, outs, st1))))
      | (_, []) # _ \<Rightarrow> Inl OutOfRange
      | [] \<Rightarrow> Inl BadIndex)"

subsection \<open>Sources, shutdown and notification\<close>

definition enqueueSourceImage :: "nat \<Rightarrow> u32 \<Rightarrow> Pipeline \<Rightarrow> bool \<times> Pipeline" where
  "enqueueSourceImage i sourcePortId st =
     (case tsq_push i (sm_index tsq_new (mSourceBufferQueueMap st) sourcePortId) of
        (ok, q) \<Rightarrow> (ok, st\<lparr>mSourceBufferQueueMap := sm_set sourcePortId q (mSourceBufferQueueMap st)\<rparr>))"

fun releaseAll :: "nat list \<Rightarrow> Pipeline \<Rightarrow> Pipeline" where
  "releaseAll [] st = st"
| "releaseAll (i # is) st = releaseAll is (releaseBuffer i False st)"

text \<open>Shut one source queue and give back what is in it.\<close>

definition drainSource :: "u32 \<Rightarrow> Pipeline \<Rightarrow> Pipeline" where
  "drainSource p st =
     (case sm_find (mSourceBufferQueueMap st) p of
        None \<Rightarrow> st
      | Some q \<Rightarrow>
          releaseAll (mQueue q)
            (st\<lparr>mSourceBufferQueueMap := sm_set p (clearQueue (releaseQueue q)) (mSourceBufferQueueMap st)\<rparr>))"

definition releaseBody :: "nat \<Rightarrow> Pipeline \<Rightarrow> Pipeline outcome" where
  "releaseBody i st = Inr (releaseBuffer i False st)"

definition drainNode :: "string \<Rightarrow> Pipeline \<Rightarrow> Pipeline outcome" where
  "drainNode n st =
     bindE (sm_at (mBuffers st) n) (\<lambda>bs.
     bindE (eachPort (\<lambda>p. popAll n InQ p releaseBody) (map fst (inputBuffers bs)) st) (\<lambda>st1.
     bindE (eachPort (\<lambda>p. popAll n UseQ p releaseBody) (map fst (usingInputBuffers bs)) st1) (\<lambda>st2.
       eachPort (\<lambda>p. popAll n OutQ p releaseBody) (map fst (outputBuffers bs)) st2)))"

fun drainNodes :: "string list \<Rightarrow> Pipeline \<Rightarrow> Pipeline outcome" where
  "drainNodes [] st = Inr st"
| "drainNodes (n # ns) st = bindE (drainNode n st) (drainNodes ns)"

definition releaseUnusedBuffer :: "Pipeline \<Rightarrow> Pipeline outcome" where
  "releaseUnusedBuffer st =
     (let st1 = fold drainSource (map fst (mSourceBufferQueueMap st)) st
      in drainNodes (map fst (mBuffers st1)) st1)"

text \<open>\<open>inputBuffers.begin()\<close> of a node without inputs is the end iterator.\<close>

definition quickFinishNode :: "string \<Rightarrow> Pipeline \<Rightarrow> Pipeline outcome" where
  "quickFinishNode n st =
     bindE (sm_at (mBuffers st) n) (\<lambda>bs.
       case inputBuffers bs of
         [] \<Rightarrow> Inl BadIndex
       | (p, q) # _ \<Rightarrow> Inr (call (NodeQuickFinish n) (q_put n InQ p (releaseQueue q) st)))"

fun quickFinishNodes :: "string list \<Rightarrow> Pipeline \<Rightarrow> Pipeline outcome" where
  "quickFinishNodes [] st = Inr st"
| "quickFinishNodes (n # ns) st = bindE (quickFinishNode n st) (quickFinishNodes ns)"

definition pl_quickFinish :: "bool \<Rightarrow> Pipeline \<Rightarrow> Pipeline outcome" where
  "pl_quickFinish needImageResult st =
     (let st1 = st\<lparr>mFlushStatus := if needImageResult then Expediting else ForcedFlush,
                   mSourceBufferQueueMap := map (\<lambda>(p, q). (p, releaseQueue q)) (mSourceBufferQueueMap st)\<rparr>
      in if \<not> needImageResult then quickFinishNodes (mCurrentProcessNodes st1) st1 else Inr st1)"

definition pl_flush :: "bool \<Rightarrow> Pipeline \<Rightarrow> Pipeline outcome" where
  "pl_flush isForced st = pl_quickFinish False st"

text \<open>\<open>!mHasProcessError && --mDependenceNum.at(n) == 0\<close>, and the push that follows.\<close>

definition dependenceDone :: "string \<Rightarrow> Pipeline \<Rightarrow> Pipeline outcome" where
  "dependenceDone n st =
     (if mHasProcessError st then Inr st
      else bindE (sm_at (mDependenceNum st) n) (\<lambda>d.
             let st1 = st\<lparr>mDependenceNum := sm_set n (d - 1) (mDependenceNum st)\<rparr>
             in Inr (if d - 1 = 0 then st1\<lparr>mRunSequence := mRunSequence st1 @ [n]\<rparr> else st1)))"

fun releaseSinkLinks :: "nat list \<Rightarrow> Pipeline \<Rightarrow> Pipeline outcome" where
  "releaseSinkLinks [] st = Inr st"
| "releaseSinkLinks (l # ls) st =
     bindE (plink st l) (\<lambda>link.
     bindE (if linkType link = SinkLink then releaseOutBuffers l SinkLink False st else Inr st)
       (releaseSinkLinks ls))"

fun handOver :: "nat list \<Rightarrow> Pipeline \<Rightarrow> Pipeline outcome" where
  "handOver [] st = Inr st"
| "handOver (l # ls) st =
     bindE (plink st l) (\<lambda>link.
     bindE (if linkType link = SinkLink then releaseOutBuffers l SinkLink False st
            else bindE (releaseOutBuffers l InternalLink False st) (dependenceDone (dstNodeInstance link)))
       (handOver ls))"

definition notifyNextNode :: "string \<Rightarrow> NodeProcessInfo \<Rightarrow> int \<Rightarrow> int \<Rightarrow> Pipeline \<Rightarrow> Pipeline outcome" where
  "notifyNextNode inst info abnormal frame_num st =
     (let st0 = touchOut inst (st\<lparr>mCurrentProcessNodes := remove1 inst (mCurrentProcessNodes st)\<rparr>);
          outputLinks = outLinks st inst
      in if info \<noteq> ProcessOK \<or> abnormal \<noteq> 0 then
           (let st1 = (if \<not> mIsCallExternal st0
                       then call (OnResultComing MIA_ABNORMAL_CALLBACK (word_of_int frame_num) (mTimestampUs st0))
                              (st0\<lparr>mIsCallExternal := True\<rparr>)
                       else st0)
            in bindE (releaseSinkLinks outputLinks st1) (\<lambda>st2.
                 Inr (st2\<lparr>mHasProcessError := True, mRunningNodeNum := mRunningNodeNum st2 - 1\<rparr>)))
         else
           bindE (releaseInputBuffers inst False st0) (\<lambda>st1.
           bindE (handOver outputLinks st1) (\<lambda>st2.
             Inr (st2\<lparr>mRunningNodeNum := mRunningNodeNum st2 - 1\<rparr>))))"

fun tryNotifyChildren :: "nat list \<Rightarrow> Pipeline \<Rightarrow> Pipeline outcome" where
  "tryNotifyChildren [] st = Inr st"
| "tryNotifyChildren (l # ls) st =
     bindE (plink st l) (\<lambda>link.
     bindE (if linkType link \<noteq> SinkLink then
              bindE (nodeMaskAt st (dstNodeInstance link)) (\<lambda>cm.
                if has_mode cm SIGFRAME_MODE then dependenceDone (dstNodeInstance link) st else Inr st)
            else Inr st)
       (tryNotifyChildren ls))"

definition releaseInputAndTryNotifyNextNode :: "string \<Rightarrow> Pipeline \<Rightarrow> Pipeline outcome" where
  "releaseInputAndTryNotifyNextNode inst st =
     bindE (releaseInputBuffers inst True st) (\<lambda>st1.
     bindE (nodeMaskAt st1 inst) (\<lambda>mk.
     bindE (isInplaceNode inst mk st1) (\<lambda>inplace.
       if inplace \<or> has_mode mk VIRTUAL_MODE then tryNotifyChildren (outLinks st1 inst) (touchOut inst st1)
       else Inr st1)))"

definition releaseOutputAndTryNotifyNextNode :: "string \<Rightarrow> Pipeline \<Rightarrow> Pipeline outcome" where
  "releaseOutputAndTryNotifyNextNode inst st =
     bindE (nodeMaskAt st inst) (\<lambda>mk.
     bindE (isInplaceNode inst mk st) (\<lambda>inplace.
       if inplace \<or> has_mode mk VIRTUAL_MODE then Inr st
       else
         let st0 = touchOut inst st in
         bindE (vec_get (outLinks st0 inst) 0) (\<lambda>l.
         bindE (plink st0 l) (\<lambda>link.
           if linkType link = SinkLink then releaseOutBuffers l SinkLink True st0
           else
             bindE (releaseOutBuffers l InternalLink True st0) (\<lambda>st1.
             bindE (nodeMaskAt st1 (dstNodeInstance link)) (\<lambda>cm.
               if has_mode cm SIGFRAME_MODE then dependenceDone (dstNodeInstance link) st1 else Inr st1))))))"

subsection \<open>\<open>postProcTask\<close>\<close>

definition adoptLinks :: "PipelineInfo \<Rightarrow> Pipeline \<Rightarrow> Pipeline" where
  "adoptLinks info st =
     st\<lparr>mPipelineInfo := info,
        mSinkNumToReturn := mSinkNumToReturn st + of_nat (length (filter (\<lambda>l. linkType l = SinkLink) (links info)))\<rparr>"

text \<open>\<open>mBuffers[n].inputBuffers[port].clearQueue()\<close>\<close>

definition q_clear :: "string \<Rightarrow> qsel \<Rightarrow> int \<Rightarrow> Pipeline \<Rightarrow> Pipeline" where
  "q_clear n sel port st =
     q_put n sel port (clearQueue (sm_index tsq_new (qmap sel (sm_index emptySpace (mBuffers st) n)) port)) st"

definition recordLink :: "nat \<Rightarrow> LinkItem \<Rightarrow> string list \<times> Pipeline \<Rightarrow> string list \<times> Pipeline" where
  "recordLink index link acc =
     (case acc of (sourceNodes, st) \<Rightarrow>
       let src = srcNodeInstance link; dst = dstNodeInstance link;
           isSinkBuffer = contains dst ''SinkBuffer'';
           st1 = (if \<not> isSinkBuffer then st\<lparr>mDependenceNum := sm_insert dst 0 (mDependenceNum st)\<rparr> else st)
       in case linkType link of
            SourceLink \<Rightarrow> (List.insert dst sourceNodes,
                           st1\<lparr>mInputLinkMap := sm_push dst index (mInputLinkMap st1)\<rparr>)
          | SinkLink \<Rightarrow> (sourceNodes, st1\<lparr>mOutputLinkMap := sm_push src index (mOutputLinkMap st1)\<rparr>)
          | InternalLink \<Rightarrow>
              (sourceNodes,
               st1\<lparr>mInputLinkMap := sm_push dst index (mInputLinkMap st1),
                   mOutputLinkMap := sm_push src index (mOutputLinkMap st1),
                   mDependenceNum := (if \<not> isSinkBuffer
                      then sm_set dst (sm_index 0 (mDependenceNum st1) dst + 1) (mDependenceNum st1)
                      else mDependenceNum st1)\<rparr>))"

definition prepareLink :: "nat \<Rightarrow> string list \<times> Pipeline \<Rightarrow> string list \<times> Pipeline" where
  "prepareLink index acc =
     (let link = links (mPipelineInfo (snd acc)) ! index; src = srcNodeInstance link; dst = dstNodeInstance link;
          (sourceNodes, st) = recordLink index link acc
      in (sourceNodes,
          q_clear dst UseQ (dstNodePortId link) (q_clear dst InQ (dstNodePortId link)
            (q_clear src OutQ (srcNodePortId link) st))))"

fun topologyOk :: "link_map \<Rightarrow> Pipeline \<Rightarrow> bool outcome" where
  "topologyOk [] st = Inr True"
| "topologyOk ((n, ls) # m) st =
     bindE (nodeMaskAt st n) (\<lambda>mk.
       if has_mode mk SIGFRAME_MODE \<and> length ls > 1 then Inr False else topologyOk m st)"

definition retire :: "Pipeline \<Rightarrow> Pipeline outcome" where
  "retire st = bindE (releaseUnusedBuffer st) (\<lambda>st1. Inr (call MoveToIdleQueue st1))"

definition readyNodes :: "string list \<Rightarrow> Pipeline \<Rightarrow> Pipeline" where
  "readyNodes sourceNodes st =
     (let performNodes = map fst (filter (\<lambda>(n, d). d = 0) (mDependenceNum st))
      in st\<lparr>mDependenceNum := filter (\<lambda>(n, d). d \<noteq> 0) (mDependenceNum st),
            mRunSequence := mRunSequence st @ filter (\<lambda>n. n \<in> set sourceNodes) performNodes\<rparr>)"

text \<open>
  The preparation; \<open>rebuilt\<close> is what \<open>rebuildLinks\<close> of the pruner answered.  The result says
  whether the dispatching loop is entered.
\<close>

definition postProcTask :: "bool \<times> PipelineInfo \<Rightarrow> Pipeline \<Rightarrow> (bool \<times> Pipeline) outcome" where
  "postProcTask rebuilt st =
     (if mFlushStatus st = ForcedFlush then bindE (retire st) (\<lambda>s. Inr (False, s))
      else
        let st1 = adoptLinks (snd rebuilt) st
        in if \<not> fst rebuilt then
             bindE (releaseUnusedBuffer (call (OnResultComing MIA_ABNORMAL_CALLBACK 0 (mTimestampUs st1)) st1)) (\<lambda>s.
               Inr (False, call MoveToIdleQueue s))
           else
             let (sourceNodes, st2) = fold prepareLink [0..<length (links (snd rebuilt))] ([], st1)
             in bindE (topologyOk (mInputLinkMap st2) st2) (\<lambda>ok.
                  if \<not> ok then bindE (retire st2) (\<lambda>s. Inr (False, s))
                  else Inr (True, readyNodes sourceNodes st2)))"

text \<open>
  One round of the dispatching loop is two steps, because the lock is released around
  \<open>postProcess\<close>: taking the next node and handing it over, then counting it.
\<close>

text \<open>\<open>std::set::insert\<close> of a set kept as a sorted list.\<close>

definition set_insert :: "string \<Rightarrow> string list \<Rightarrow> string list" where
  "set_insert n ns = (if n \<in> set ns then ns else insort n ns)"

definition dispatchNode :: "bool \<Rightarrow> Pipeline \<Rightarrow> (string \<times> bool \<times> Pipeline) option" where
  "dispatchNode found st =
     (case mRunSequence st of
        [] \<Rightarrow> None
      | n # ns \<Rightarrow>
          let st1 = st\<lparr>mRunSequence := ns, mCurrentProcessNodes := set_insert n (mCurrentProcessNodes st)\<rparr>
          in Some (n, found, if found then call (EnqueueTask n) st1 else st1))"

definition countDispatched :: "bool \<Rightarrow> Pipeline \<Rightarrow> Pipeline" where
  "countDispatched found st = (if found then st\<lparr>mRunningNodeNum := mRunningNodeNum st + 1\<rparr> else st)"

text \<open>The loop may end only in a state where this holds; otherwise it waits or goes on.\<close>

definition loopDone :: "Pipeline \<Rightarrow> bool" where
  "loopDone st \<longleftrightarrow> mRunSequence st = [] \<and> mRunningNodeNum st = 0"

end
