(* ===== verification/ImageMoves.thy ===== *)
theory ImageMoves
  imports PipelineRun "HOL-Library.Multiset"
begin

text \<open>
  The member functions of \<open>Pipeline\<close> that move images are built from few primitive moves: take
  the front of a queue, append to a queue, count one more use, give one use back.  A predicate
  \<open>B M st\<close>, where the references \<open>M\<close> are held in local variables of the code, that every
  primitive move respects is respected by the member functions.  The locales state that
  contract once; \<open>PipelineFlow\<close> and \<open>Dispatch\<close> interpret them.
\<close>

subsection \<open>The contract of the primitive moves\<close>

locale image_moves =
  fixes B :: "nat multiset \<Rightarrow> Pipeline \<Rightarrow> bool"
    and F :: "acquire_answers \<Rightarrow> nat multiset \<Rightarrow> Pipeline \<Rightarrow> bool"
  assumes pop: "B M st \<Longrightarrow> popQ n sel port st = Inr (r, st') \<Longrightarrow>
      B (case r of None \<Rightarrow> M | Some i \<Rightarrow> add_mset i M) st'"
    and push: "B (add_mset i M) st \<Longrightarrow> pushQ n sel port i st = Inr st' \<Longrightarrow> B M st'"
    and more: "B M st \<Longrightarrow> B (add_mset i M) (useMore i st)"
    and release: "B (add_mset i M) st \<Longrightarrow> B M (releaseBuffer i c st)"
    and source: "B M st \<Longrightarrow> getSourceImage p st = Inr (r, st') \<Longrightarrow>
      B (case r of None \<Rightarrow> M | Some i \<Rightarrow> add_mset i M) st'"
    and call_B: "B M (call cc st) = B M st"
    and touchOut_B: "B M (touchOut n st) = B M st"
    and touchIn_B: "B M (touchIn n st) = B M st"
    and sink_B: "B M (st\<lparr>mSinkNumToReturn := k\<rparr>) = B M st"
    and acquire: "B M st \<Longrightarrow> F (Some (i, im) # rest) M st \<Longrightarrow>
      pushQ inst OutQ port i ((call cc st)\<lparr>pimages := (pimages st)(i := copyParams src ts k' im)\<rparr>) = Inr st' \<Longrightarrow>
      B M st' \<and> F rest M st'"
    and refuse: "F (None # rest) M st \<Longrightarrow> F rest M (call cc st)"
    and touch_F: "F answers M st \<Longrightarrow> F answers M (touchOut n st)"
begin

subsection \<open>Loops keep the balance\<close>

text \<open>A body that consumes the image it is given, whatever else is outstanding.\<close>

definition consumes :: "(nat \<Rightarrow> Pipeline \<Rightarrow> Pipeline outcome) \<Rightarrow> bool" where
  "consumes body \<longleftrightarrow> (\<forall>i M st st'. B (add_mset i M) st \<longrightarrow> body i st = Inr st' \<longrightarrow> B M st')"

definition keeps :: "(Pipeline \<Rightarrow> Pipeline outcome) \<Rightarrow> bool" where
  "keeps f \<longleftrightarrow> (\<forall>M st st'. B M st \<longrightarrow> f st = Inr st' \<longrightarrow> B M st')"

lemma consumesD: "consumes body \<Longrightarrow> B (add_mset i M) st \<Longrightarrow> body i st = Inr st' \<Longrightarrow> B M st'"
  by (auto simp: consumes_def)

lemma keepsD: "keeps f \<Longrightarrow> B M st \<Longrightarrow> f st = Inr st' \<Longrightarrow> B M st'"
  by (auto simp: keeps_def)

lemma keepsI: "(\<And>M st st'. B M st \<Longrightarrow> f st = Inr st' \<Longrightarrow> B M st') \<Longrightarrow> keeps f"
  by (simp add: keeps_def)

lemma consumesI: "(\<And>i M st st'. B (add_mset i M) st \<Longrightarrow> body i st = Inr st' \<Longrightarrow> B M st') \<Longrightarrow> consumes body"
  by (simp add: consumes_def)

lemma keeps_bind:
  assumes "keeps f" and "keeps g"
  shows "keeps (\<lambda>st. bindE (f st) g)"
proof (rule keepsI)
  fix M st st' assume b: "B M st" and "bindE (f st) g = Inr st'"
  then obtain s where "f st = Inr s" "g s = Inr st'" by (auto simp: bindE_eq_Inr)
  then show "B M st'" using keepsD [OF assms(2)] keepsD [OF assms(1) b] by blast
qed

lemma keeps_get:
  assumes "\<And>x. keeps (f x)"
  shows "keeps (\<lambda>st. bindE (g st) (\<lambda>x. f x st))"
proof (rule keepsI)
  fix M st st' assume "B M st" and "bindE (g st) (\<lambda>x. f x st) = Inr st'"
  then obtain x where "f x st = Inr st'" by (cases "g st") simp_all
  then show "B M st'" by (rule keepsD [OF assms \<open>B M st\<close>])
qed

lemma keeps_if:
  assumes "keeps f" and "keeps g"
  shows "keeps (\<lambda>st. if P st then f st else g st)"
proof (rule keepsI)
  fix M st st' assume b: "B M st" and e: "(if P st then f st else g st) = Inr st'"
  show "B M st'"
  proof (cases "P st")
    case True
    then have "f st = Inr st'" using e by simp
    with b show ?thesis by (rule keepsD [OF assms(1)])
  next
    case False
    then have "g st = Inr st'" using e by simp
    with b show ?thesis by (rule keepsD [OF assms(2)])
  qed
qed

lemma keeps_after:
  assumes "keeps f" and "\<And>M st. B M (g st) = B M st"
  shows "keeps (\<lambda>st. f (g st))"
proof (rule keepsI)
  fix M st st' assume b: "B M st" and f: "f (g st) = Inr st'"
  have "B M (g st)" using b assms(2) by simp
  then show "B M st'" using f by (rule keepsD [OF assms(1)])
qed

lemma keeps_Inr [simp]: "keeps (\<lambda>st. Inr st)" "keeps (\<lambda>st. Inl e)" "keeps Inr"
  by (simp_all add: keeps_def)

lemma consumes_bind:
  assumes "consumes body" and "keeps f"
  shows "consumes (\<lambda>i st. bindE (body i st) f)"
proof (rule consumesI)
  fix i M st st' assume b: "B (add_mset i M) st" and "bindE (body i st) f = Inr st'"
  then obtain s where "body i st = Inr s" "f s = Inr st'" by (auto simp: bindE_eq_Inr)
  then show "B M st'" using keepsD [OF assms(2)] consumesD [OF assms(1) b] by blast
qed

lemma consumes_push: "consumes (pushQ n sel port)"
  by (rule consumesI) (rule push)

lemma consumes_release: "consumes (\<lambda>i st. Inr (releaseBuffer i c st))"
  by (rule consumesI) (auto intro: release)

lemma pop_then:
  assumes "consumes g"
  shows "keeps (\<lambda>st. bindE (popQ n sel port st) (\<lambda>(r, st1). case r of None \<Rightarrow> Inr st1 | Some i \<Rightarrow> g i st1))"
proof (rule keepsI)
  fix M st st'
  assume b: "B M st"
    and e: "bindE (popQ n sel port st) (\<lambda>(r, st1). case r of None \<Rightarrow> Inr st1 | Some i \<Rightarrow> g i st1) = Inr st'"
  from e obtain r s where p: "popQ n sel port st = Inr (r, s)" and c: "(case r of None \<Rightarrow> Inr s | Some i \<Rightarrow> g i s) = Inr st'"
    by (auto simp: bindE_eq_Inr)
  from pop [OF b p] c consumesD [OF assms] show "B M st'" by (cases r) auto
qed

lemma popOne_keeps: "consumes body \<Longrightarrow> keeps (popOne n sel port body)"
  unfolding popOne_def by (rule pop_then)

lemma popLoop_keeps: "consumes body \<Longrightarrow> keeps (popLoop fuel n sel port body)"
proof (induction fuel)
  case (Suc fuel)
  from pop_then [OF consumes_bind [OF Suc.prems Suc.IH [OF Suc.prems]]] show ?case by (simp add: keeps_def)
qed (simp add: keeps_def)

lemma popAll_keeps: "consumes body \<Longrightarrow> keeps (popAll n sel port body)"
  unfolding popAll_def by (rule keeps_get) (rule popLoop_keeps)

lemma eachPort_keeps: "(\<And>p. keeps (f p)) \<Longrightarrow> keeps (eachPort f ps)"
proof (induction ps)
  case (Cons p ps)
  from keeps_bind [OF Cons.prems Cons.IH [OF Cons.prems]] show ?case by (simp add: keeps_def)
qed (simp add: keeps_def)

lemma repeatM_keeps: "keeps f \<Longrightarrow> keeps (repeatM k f)"
proof (induction k)
  case (Suc k)
  from keeps_bind [OF Suc.prems Suc.IH [OF Suc.prems]] show ?case by (simp add: keeps_def)
qed (simp add: keeps_def)

lemma moveToChildren_keeps: "keeps (moveToChildren ls i)"
proof (induction ls)
  case (Cons l ls)
  show ?case
  proof (rule keepsI)
    fix M st st' assume b: "B M st" and "moveToChildren (l # ls) i st = Inr st'"
    then obtain link :: LinkItem and s where "pushQ (dstNodeInstance link) InQ (dstNodePortId link) i (useMore i st) = Inr s"
      "moveToChildren ls i s = Inr st'" unfolding moveToChildren.simps bindE_eq_Inr by blast
    then show "B M st'" using push [OF more [OF b]] keepsD [OF Cons] by blast
  qed
qed (simp add: keeps_def)

lemma consumes_move: "consumes (\<lambda>i s. bindE (moveToChildren ls i s) (\<lambda>s1. Inr (releaseBuffer i False s1)))"
proof (rule consumesI)
  fix i M st st'
  assume b: "B (add_mset i M) st" and "bindE (moveToChildren ls i st) (\<lambda>s1. Inr (releaseBuffer i False s1)) = Inr st'"
  then obtain s where "moveToChildren ls i st = Inr s" "st' = releaseBuffer i False s" by (auto simp: bindE_eq_Inr)
  then show "B M st'" using keepsD [OF moveToChildren_keeps b] release by blast
qed

lemma consumes_sink: "consumes (sinkBody inst port)"
proof (rule consumesI)
  fix i M st st' assume b: "B (add_mset i M) st" and r: "sinkBody inst port i st = Inr st'"
  have "B (add_mset i M) (call c st)" for c using b call_B by simp
  then show "B M st'" using b r by (auto simp: sinkBody_def bindE_eq_Inr release split: if_splits)
qed

subsection \<open>Member functions keep the balance\<close>

lemma releaseInputBuffers_keeps: "keeps (releaseInputBuffers inst one)"
proof (rule keepsI)
  fix M st st' assume b: "B M st" and r: "releaseInputBuffers inst one st = Inr st'"
  let ?f = "\<lambda>body p. if one then popOne inst UseQ p body else popAll inst UseQ p body"
  have b0: "B M (touchOut inst st)" using b touchOut_B by simp
  obtain body ports where "consumes body" "eachPort (?f body) ports (touchOut inst st) = Inr st'"
  proof -
    from r obtain mk inplace ports where e: "eachPort (?f (if inplace \<or> has_mode mk VIRTUAL_MODE
        then (\<lambda>i s. bindE (moveToChildren (outLinks (touchOut inst st) inst) i s) (\<lambda>s1. Inr (releaseBuffer i False s1)))
        else (\<lambda>i s. Inr (releaseBuffer i False s)))) ports (touchOut inst st) = Inr st'"
      unfolding releaseInputBuffers_def Let_def bindE_eq_Inr by blast
    show thesis by (rule that [OF _ e]) (simp add: consumes_move consumes_release)
  qed
  moreover from this have "keeps (eachPort (?f body) ports)"
    by (auto intro!: eachPort_keeps popOne_keeps popAll_keeps)
  ultimately show "B M st'" using keepsD b0 by blast
qed

lemma releaseOutBuffers_keeps: "keeps (releaseOutBuffers l lt one)"
proof -
  have "keeps (if one then popOne c OutQ p (pushQ n InQ d) else popAll c OutQ p (pushQ n InQ d))" for c p n d
    by (simp add: popOne_keeps popAll_keeps consumes_push)
  then have internal: "keeps (\<lambda>st. bindE (q_at st n InQ d) (\<lambda>_.
      if one then popOne c OutQ p (pushQ n InQ d) st else popAll c OutQ p (pushQ n InQ d) st))" for c p n d
    by (intro keeps_get keeps_if) (simp_all add: popOne_keeps popAll_keeps consumes_push)
  have sink: "keeps (\<lambda>st. popAll c OutQ p (sinkBody c p) (st\<lparr>mSinkNumToReturn := mSinkNumToReturn st - 1\<rparr>))" for c p
    by (rule keeps_after [OF popAll_keeps [OF consumes_sink]]) (rule sink_B)
  show ?thesis unfolding releaseOutBuffers_def Let_def
    by (intro keeps_get keeps_if internal sink)
qed

lemma releaseSinkLinks_keeps: "keeps (releaseSinkLinks ls)"
proof (induction ls)
  case (Cons l ls)
  have "keeps (\<lambda>st. bindE (plink st l) (\<lambda>link.
      bindE (if linkType link = SinkLink then releaseOutBuffers l SinkLink False st else Inr st) (releaseSinkLinks ls)))"
    by (intro keeps_get keeps_bind keeps_if releaseOutBuffers_keeps Cons keeps_Inr)
  then show ?case by (simp add: keeps_def)
qed (simp add: keeps_def)

subsection \<open>Taking images keeps the balance\<close>

lemma takeInput_keeps:
  "B (add_mset i M) st \<Longrightarrow> takeInput inst port i (ims, st) = Inr (ims', st') \<Longrightarrow> B M st'"
  by (auto simp: takeInput_def bindE_eq_Inr dest: push)

lemma takeSources_keeps:
  "B M st \<Longrightarrow> takeSources n src inst port (ims, st) = Inr (rc, ims', st') \<Longrightarrow> B M st'"
proof (induction n arbitrary: ims st)
  case (Suc n)
  obtain r s where g: "getSourceImage src st = Inr (r, s)" using Suc.prems(2) by (auto simp: bindE_eq_Inr)
  note b = source [OF Suc.prems(1) g]
  show ?case
  proof (cases r)
    case None
    then show ?thesis using b g Suc.prems(2) by simp
  next
    case (Some i)
    then obtain ims1 s1 where t: "takeInput inst port i (ims, s) = Inr (ims1, s1)"
      "takeSources n src inst port (ims1, s1) = Inr (rc, ims', st')"
      using g Suc.prems(2) by (auto simp: bindE_eq_Inr)
    show ?thesis using Suc.IH [OF takeInput_keeps [OF _ t(1)] t(2)] b Some by simp
  qed
qed simp

lemma inputFromSource_keeps:
  assumes "B M st" and "inputFromSource env inst mk link (ims, st) = Inr (rc, ims', st')"
  shows "B M st'"
proof -
  let ?src = "word_of_int (srcNodePortId link)"
  obtain r s where g: "getSourceImage ?src st = Inr (r, s)"
    using assms(2) by (auto simp: inputFromSource_def Let_def bindE_eq_Inr)
  note b = source [OF assms(1) g]
  show ?thesis
  proof (cases r)
    case None
    then show ?thesis using b g assms(2) by (simp add: inputFromSource_def)
  next
    case (Some i)
    then obtain ims1 s1 where t: "takeInput inst (dstNodePortId link) i (ims, s) = Inr (ims1, s1)"
      using g assms(2) by (auto simp: inputFromSource_def Let_def bindE_eq_Inr)
    have "B M s1" using takeInput_keeps [OF _ t] b Some by simp
    then show ?thesis using g t Some assms(2) takeSources_keeps [of M s1]
      by (auto simp: inputFromSource_def Let_def bindE_eq_Inr split: if_splits)
  qed
qed

lemma takeInternals_keeps:
  "B M st \<Longrightarrow> takeInternals fuel env inst link (ims, st) = Inr (rc, ims', st') \<Longrightarrow> B M st'"
proof (induction fuel arbitrary: ims st)
  case (Suc fuel)
  obtain r s where g: "popQ inst InQ (dstNodePortId link) st = Inr (r, s)"
    using Suc.prems(2) by (auto simp: bindE_eq_Inr)
  note b = pop [OF Suc.prems(1) g]
  show ?case
  proof (cases r)
    case None
    then show ?thesis using b g Suc.prems(2) by simp
  next
    case (Some i)
    then obtain ims1 s1 where t: "takeInput inst (dstNodePortId link) i (ims, s) = Inr (ims1, s1)"
      using g Suc.prems(2) by (auto simp: bindE_eq_Inr)
    have "B M s1" using takeInput_keeps [OF _ t] b Some by simp
    then show ?thesis using Suc.IH [of s1 ims1] g t Some Suc.prems(2)
      by (auto simp: bindE_eq_Inr split: if_splits)
  qed
qed simp

lemma inputFromNode_keeps:
  assumes "B M st" and r: "inputFromNode env inst mk link (ims, st) = Inr (rc, ims', st')"
  shows "B M st'"
proof -
  let ?port = "dstNodePortId link"
  obtain q where q: "q_at st inst InQ ?port = Inr q"
    using r by (auto simp: inputFromNode_def Let_def bindE_eq_Inr)
  show ?thesis
  proof (cases "has_mode mk SIGFRAME_MODE \<and> mQueue q \<noteq> []")
    case True
    then obtain i xs where x: "mQueue q = i # xs" by (cases "mQueue q") auto
    have w: "waitPop q = Inr (Some i, q\<lparr>mQueue := xs\<rparr>)" by (simp add: waitPop_def waitAndPop_def popFront_def x)
    have "popQ inst InQ ?port st = Inr (Some i, q_put inst InQ ?port (q\<lparr>mQueue := xs\<rparr>) st)"
      by (simp add: popQ_def q tryPop_def x)
    from pop [OF assms(1) this]
    have "B (add_mset i M) (q_put inst InQ ?port (q\<lparr>mQueue := xs\<rparr>) st)" by simp
    from takeInput_keeps [OF this] show ?thesis using r True q w
      by (auto simp: inputFromNode_def Let_def bindE_eq_Inr)
  next
    case False
    then show ?thesis using r q assms(1) takeInternals_keeps [of M st]
      by (auto simp: inputFromNode_def Let_def bindE_eq_Inr waitPop_def waitAndPop_def popFront_def
          simp del: takeInternals.simps split: if_splits)
  qed
qed

lemma getInputs_keeps:
  "B M st \<Longrightarrow> getInputs env inst mk ls (ims, st) = Inr (rc, ims', st') \<Longrightarrow> B M st'"
proof (induction ls arbitrary: ims st)
  case (Cons l ls)
  obtain link where l: "plink st l = Inr link" using Cons.prems(2) by (auto simp: bindE_eq_Inr)
  let ?m = "case linkType link of SourceLink \<Rightarrow> inputFromSource env inst mk link (ims, st)
    | InternalLink \<Rightarrow> inputFromNode env inst mk link (ims, st) | SinkLink \<Rightarrow> Inr (MIAS_OK, ims, st)"
  obtain c ims1 s where m: "?m = Inr (c, ims1, s)"
    and rest: "(if c \<noteq> MIAS_OK then Inr (c, ims1, s) else getInputs env inst mk ls (ims1, s)) = Inr (rc, ims', st')"
    using Cons.prems(2) l by (auto simp: bindE_eq_Inr)
  have "B M s"
  proof (cases "linkType link")
    case SourceLink
    then show ?thesis using m inputFromSource_keeps [OF Cons.prems(1), of env inst mk link ims c ims1 s] by simp
  next
    case InternalLink
    then show ?thesis using m inputFromNode_keeps [OF Cons.prems(1), of env inst mk link ims c ims1 s] by simp
  qed (use m Cons.prems(1) in simp)
  then show ?case using rest Cons.IH [of s ims1] by (auto split: if_splits)
qed simp

lemma getInputImage_keeps:
  "B M st \<Longrightarrow> getInputImage env inst mk ims st = Inr (rc, ims', st') \<Longrightarrow> B M st'"
  unfolding getInputImage_def using getInputs_keeps [of M "touchIn inst st"] touchIn_B by blast

lemma acquireLoop_keeps:
  "B M st \<Longrightarrow> F answers M st \<Longrightarrow>
   acquireLoop n j env inst mk inputs link kind num (answers, mi, outs, st) = Inr (rc, rest, mi', outs', st') \<Longrightarrow>
   B M st' \<and> F rest M st'"
proof (induction n arbitrary: j answers mi outs st)
  case (Suc n)
  let ?sel = "if Soc env = MTK
            then bindE (sm_at (nodes (mPipelineInfo st)) inst) (\<lambda>item.
                   if outputType item = FollowInput
                   then (case inputs of [] \<Rightarrow> Inl BadIndex | (_, is) # _ \<Rightarrow> vec_get is j)
                   else Inr mi)
            else Inr mi"
  obtain m where m: "?sel = Inr m" using Suc.prems(3) by (cases ?sel) auto
  let ?st0 = "call (AcquireOutputBuffer (snd kind) (mTimestamp (pimages st m)) (word_of_int (dstNodePortId link)) (fst kind)) st"
  show ?case
  proof (cases answers)
    case Nil
    then show ?thesis using Suc.prems(3) m by simp
  next
    case (Cons a as)
    show ?thesis
    proof (cases a)
      case None
      then have e: "st' = ?st0" "rest = as" using Suc.prems(3) m Cons by (auto simp: Let_def)
      have "F (None # as) M st" using Suc.prems(2) Cons None by simp
      then show ?thesis using Suc.prems(1) refuse by (simp add: e call_B)
    next
      case (Some x)
      obtain i im where x: "x = (i, im)" by (cases x)
      let ?st1 = "?st0\<lparr>pimages := (pimages st)(i := copyParams (pimages st m) (mTimestamp (pimages st m)) num im)\<rparr>"
      obtain s where p: "pushQ inst OutQ (srcNodePortId link) i ?st1 = Inr s"
        and c: "(if has_mode mk SIGGETOUTPUT_MODE
            then Inr (MIAS_OK, as, m, sm_push (word_of_int (srcNodePortId link)) i outs, s)
            else acquireLoop n (Suc j) env inst mk inputs link kind num
              (as, m, sm_push (word_of_int (srcNodePortId link)) i outs, s)) = Inr (rc, rest, mi', outs', st')"
        using Suc.prems(3) m Cons Some x by (auto simp: Let_def bindE_eq_Inr)
      have "B M s \<and> F as M s"
        using acquire [OF Suc.prems(1) _ p] Suc.prems(2) Cons Some x by simp
      then show ?thesis using c Suc.IH [of s as] by (auto split: if_splits)
    qed
  qed
qed auto

lemma outputLoop_keeps:
  "B M st \<Longrightarrow> F answers M st \<Longrightarrow>
   outputLoop ls k env inst mk inputs fmts num (answers, mi, outs, st) = Inr (rc, rest, mi', outs', st') \<Longrightarrow>
   B M st' \<and> F rest M st'"
proof (induction ls arbitrary: k answers mi outs st)
  case (Cons l ls)
  obtain link kind where l: "plink st l = Inr link" "outputKind mk fmts k link st = Inr kind"
    using Cons.prems(3) by (auto simp: Let_def bindE_eq_Inr)
  let ?n = "sm_index 0 num (srcNodePortId link)"
  obtain c rest1 m1 outs1 s where a: "acquireLoop (nat ?n) 0 env inst mk inputs link kind (word_of_int ?n)
      (answers, mi, outs, st) = Inr (c, rest1, m1, outs1, s)"
    and r: "(if c \<noteq> MIAS_OK then Inr (c, rest1, m1, outs1, s)
       else outputLoop ls (Suc k) env inst mk inputs fmts num (rest1, m1, outs1, s)) = Inr (rc, rest, mi', outs', st')"
    using Cons.prems(3) l by (auto simp: Let_def bindE_eq_Inr)
  from acquireLoop_keeps [OF Cons.prems(1,2) a] r Cons.IH [of s rest1] show ?case by (auto split: if_splits)
qed auto

lemma getOutputImage_keeps:
  assumes "B M st" and "F answers M st"
    and r: "getOutputImage env inst mk inputs fmts answers st = Inr (rc, outs, st')"
  shows "B M st'"
proof -
  let ?st0 = "touchOut inst st"
  have b: "B M ?st0" using assms(1) touchOut_B by simp
  have f: "F answers M ?st0" using assms(2) by (rule touch_F)
  obtain k m ms ips where i: "inputs = (k, m # ms) # ips"
    using r by (auto simp: getOutputImage_def split: list.splits)
  show ?thesis using r i b outputLoop_keeps [OF b f]
    by (auto simp: getOutputImage_def Let_def bindE_eq_Inr split: if_splits)
qed

lemma pluginReleaseOut_keeps:
  "B M st \<Longrightarrow> pluginReleaseOut inst pid k ls st = Inr (rc, st') \<Longrightarrow> B M st'"
proof (induction ls arbitrary: st)
  case (Cons l ls)
  obtain link where l: "plink st l = Inr link" using Cons.prems(2) by (auto simp: bindE_eq_Inr)
  show ?case
  proof (cases "srcNodePortId link = pid")
    case True
    then obtain q where q: "q_at st inst OutQ pid = Inr q" using Cons.prems(2) l by (auto simp: bindE_eq_Inr)
    show ?thesis
    proof (cases "int (queueSize q) < k")
      case True
      then show ?thesis using Cons.prems l q \<open>srcNodePortId link = pid\<close> by simp
    next
      case False
      then obtain s where s: "(if linkType link = SinkLink then releaseOutBuffers l SinkLink False st
          else repeatM (nat k) (releaseOutBuffers l InternalLink True) st) = Inr s"
        and "pluginReleaseOut inst pid k ls s = Inr (rc, st')"
        using Cons.prems(2) l q \<open>srcNodePortId link = pid\<close> by (auto simp: bindE_eq_Inr)
      moreover have "B M s" using keepsD [OF keeps_if [OF releaseOutBuffers_keeps
          repeatM_keeps [OF releaseOutBuffers_keeps]] Cons.prems(1) s] .
      ultimately show ?thesis using Cons.IH by blast
    qed
  next
    case False
    then show ?thesis using Cons l by simp
  qed
qed simp

lemma pluginRelease_keeps:
  assumes "B M st" and "pluginReleaseUnneedBuffer inst pid k mode st = Inr (rc, st')"
  shows "B M st'"
proof (cases mode)
  case PluginReleaseInputBuffer
  have "keeps (repeatM (nat k) (popOne inst UseQ pid (\<lambda>i s. Inr (releaseBuffer i False s))))"
    by (intro repeatM_keeps popOne_keeps consumes_release)
  from keepsD [OF this assms(1)] show ?thesis using assms PluginReleaseInputBuffer
    by (auto simp: pluginReleaseUnneedBuffer_def bindE_eq_Inr split: if_splits)
next
  case PluginReleaseOutputBuffer
  then show ?thesis using assms(2) pluginReleaseOut_keeps [OF assms(1)]
    by (auto simp: pluginReleaseUnneedBuffer_def bindE_eq_Inr)
qed

end

subsection \<open>Notifying a frame-by-frame node\<close>

text \<open>A node that works frame by frame is started while its producer is still running.\<close>

locale frame_moves = image_moves +
  assumes sigdep: "B M st \<Longrightarrow> nodeMaskAt st n = Inr cm \<Longrightarrow> has_mode cm SIGFRAME_MODE \<Longrightarrow>
    dependenceDone n st = Inr st' \<Longrightarrow> B M st'"
begin

lemma sig_keeps:
  "keeps (\<lambda>st. bindE (nodeMaskAt st n) (\<lambda>cm. if has_mode cm SIGFRAME_MODE then dependenceDone n st else Inr st))"
proof (rule keepsI)
  fix M st st'
  assume b: "B M st"
    and "bindE (nodeMaskAt st n) (\<lambda>cm. if has_mode cm SIGFRAME_MODE then dependenceDone n st else Inr st) = Inr st'"
  then show "B M st'" using sigdep [OF b] by (cases "nodeMaskAt st n") (auto split: if_splits)
qed

lemma tryNotifyChildren_keeps: "keeps (tryNotifyChildren ls)"
proof (induction ls)
  case (Cons l ls)
  have "keeps (\<lambda>st. bindE (plink st l) (\<lambda>link.
      bindE (if linkType link \<noteq> SinkLink then
               bindE (nodeMaskAt st (dstNodeInstance link)) (\<lambda>cm.
                 if has_mode cm SIGFRAME_MODE then dependenceDone (dstNodeInstance link) st else Inr st)
             else Inr st) (tryNotifyChildren ls)))"
    by (rule keeps_get, rule keeps_bind [OF keeps_if [OF sig_keeps keeps_Inr(1)] Cons])
  then show ?case by (simp add: keeps_def)
qed (simp add: keeps_def)

lemma releaseInputAndTryNotifyNextNode_keeps: "keeps (releaseInputAndTryNotifyNextNode inst)"
proof -
  have "keeps (\<lambda>st. tryNotifyChildren (outLinks st inst) (touchOut inst st))"
  proof (rule keepsI)
    fix M st st' assume b: "B M st" and "tryNotifyChildren (outLinks st inst) (touchOut inst st) = Inr st'"
    then show "B M st'" using keepsD [OF tryNotifyChildren_keeps] touchOut_B by blast
  qed
  then show ?thesis unfolding releaseInputAndTryNotifyNextNode_def
    by (intro keeps_bind keeps_get keeps_if releaseInputBuffers_keeps keeps_Inr)
qed

lemma releaseOutputAndTryNotifyNextNode_keeps: "keeps (releaseOutputAndTryNotifyNextNode inst)"
proof -
  have "keeps (\<lambda>st. bindE (vec_get (outLinks st inst) 0) (\<lambda>l.
         bindE (plink st l) (\<lambda>link.
           if linkType link = SinkLink then releaseOutBuffers l SinkLink True st
           else
             bindE (releaseOutBuffers l InternalLink True st) (\<lambda>st1.
             bindE (nodeMaskAt st1 (dstNodeInstance link)) (\<lambda>cm.
               if has_mode cm SIGFRAME_MODE then dependenceDone (dstNodeInstance link) st1 else Inr st1)))))"
    by (rule keeps_get, rule keeps_get, rule keeps_if,
        rule releaseOutBuffers_keeps, rule keeps_bind [OF releaseOutBuffers_keeps sig_keeps])
  from keeps_after [OF this, of "touchOut inst", OF touchOut_B] have "keeps (\<lambda>st. let st0 = touchOut inst st in
     bindE (vec_get (outLinks st0 inst) 0) (\<lambda>l.
     bindE (plink st0 l) (\<lambda>link.
       if linkType link = SinkLink then releaseOutBuffers l SinkLink True st0
       else
         bindE (releaseOutBuffers l InternalLink True st0) (\<lambda>st1.
         bindE (nodeMaskAt st1 (dstNodeInstance link)) (\<lambda>cm.
           if has_mode cm SIGFRAME_MODE then dependenceDone (dstNodeInstance link) st1 else Inr st1)))))"
    unfolding Let_def by simp
  then show ?thesis unfolding releaseOutputAndTryNotifyNextNode_def
    by (rule keeps_get [OF keeps_get [OF keeps_if [OF keeps_Inr(1)]]])
qed

end

subsection \<open>Notifying the next node\<close>

locale notify_moves = image_moves +
  assumes dep: "B M st \<Longrightarrow> dependenceDone n st = Inr st' \<Longrightarrow> B M st'"
begin

lemma dep_keeps: "keeps (dependenceDone n)"
  by (rule keepsI) (rule dep)

lemma handOver_keeps: "keeps (handOver ls)"
proof (induction ls)
  case (Cons l ls)
  have "keeps (\<lambda>st. bindE (plink st l) (\<lambda>link.
      bindE (if linkType link = SinkLink then releaseOutBuffers l SinkLink False st
             else bindE (releaseOutBuffers l InternalLink False st) (dependenceDone (dstNodeInstance link)))
        (handOver ls)))"
    by (intro keeps_get keeps_bind keeps_if releaseOutBuffers_keeps dep_keeps Cons)
  then show ?case by (simp add: keeps_def)
qed (simp add: keeps_def)

end

sublocale notify_moves \<subseteq> frame_moves
  by unfold_locales (rule dep)

subsection \<open>The end of a node\<close>

locale finish_moves = notify_moves +
  assumes running_B: "B M (st\<lparr>mRunningNodeNum := rn\<rparr>) = B M st"
    and failed_B: "B M (st\<lparr>mHasProcessError := b, mRunningNodeNum := rn\<rparr>) = B M st"
    and current_B: "B M (st\<lparr>mCurrentProcessNodes := cs\<rparr>) = B M st"
    and external_B: "B M (st\<lparr>mIsCallExternal := b\<rparr>) = B M st"
begin

lemma notifyNextNode_keeps: "keeps (notifyNextNode inst info abnormal frame_num)"
proof (rule keepsI)
  fix M st st' assume b: "B M st" and r: "notifyNextNode inst info abnormal frame_num st = Inr st'"
  define st0 where "st0 = touchOut inst (st\<lparr>mCurrentProcessNodes := remove1 inst (mCurrentProcessNodes st)\<rparr>)"
  have b0: "B M st0" unfolding st0_def using b by (simp add: touchOut_B current_B)
  show "B M st'"
  proof (cases "info \<noteq> ProcessOK \<or> abnormal \<noteq> 0")
    case True
    define st1 where "st1 = (if \<not> mIsCallExternal st0
       then call (OnResultComing MIA_ABNORMAL_CALLBACK (word_of_int frame_num) (mTimestampUs st0)) (st0\<lparr>mIsCallExternal := True\<rparr>)
       else st0)"
    have "B M st1" unfolding st1_def using b0 by (simp add: call_B external_B)
    moreover obtain s where "releaseSinkLinks (outLinks st inst) st1 = Inr s"
      "st' = s\<lparr>mHasProcessError := True, mRunningNodeNum := mRunningNodeNum s - 1\<rparr>"
      using r True unfolding notifyNextNode_def Let_def st0_def [symmetric] st1_def [symmetric] by (auto simp: bindE_eq_Inr)
    ultimately show ?thesis using keepsD [OF releaseSinkLinks_keeps] by (simp add: failed_B)
  next
    case False
    then obtain s1 s where "releaseInputBuffers inst False st0 = Inr s1" "handOver (outLinks st inst) s1 = Inr s"
      "st' = s\<lparr>mRunningNodeNum := mRunningNodeNum s - 1\<rparr>"
      using r unfolding notifyNextNode_def Let_def st0_def [symmetric] by (auto simp: bindE_eq_Inr)
    then have "B M s" using keepsD [OF releaseInputBuffers_keeps b0] keepsD [OF handOver_keeps] by blast
    then show ?thesis using \<open>st' = _\<close> by (simp add: running_B)
  qed
qed

end

end
