(* ===== verification/PipelineFlow.thy ===== *)
theory PipelineFlow
  imports ImageMoves
begin

text \<open>
  Where the images of a running pipeline are.  Every use an image counts is one reference in a
  source queue or in a queue of a node; the member functions of \<open>Pipeline\<close> move references
  between queues and give uses back, and at the end nothing is left.  \<open>bal M st\<close> is the state
  between two statements of the code: the references \<open>M\<close> are held in local variables.
\<close>

subsection \<open>References and uses\<close>

definition qrefs :: "('k, nat tsq) std_map \<Rightarrow> nat multiset" where
  "qrefs m = (\<Sum>e\<leftarrow>m. mset (mQueue (snd e)))"

definition brefs :: "bufferSpace \<Rightarrow> nat multiset" where
  "brefs bs = qrefs (inputBuffers bs) + qrefs (outputBuffers bs) + qrefs (usingInputBuffers bs)"

definition refs :: "Pipeline \<Rightarrow> nat multiset" where
  "refs st = qrefs (mSourceBufferQueueMap st) + (\<Sum>e\<leftarrow>mBuffers st. brefs (snd e))"

text \<open>Every queue of a node is open, and an internal image has a wrapper to go back to.\<close>

definition open_queues :: "(int, nat tsq) std_map \<Rightarrow> bool" where
  "open_queues m \<longleftrightarrow> sm_wf m \<and> (\<forall>e \<in> set m. \<not> mRelease (snd e))"

definition space_ok :: "bufferSpace \<Rightarrow> bool" where
  "space_ok bs \<longleftrightarrow> open_queues (inputBuffers bs) \<and> open_queues (outputBuffers bs) \<and> open_queues (usingInputBuffers bs)"

definition images_ok :: "Pipeline \<Rightarrow> bool" where
  "images_ok st \<longleftrightarrow> (\<forall>i. imType (pimages st i) = MI_IMG_INTERNAL \<longrightarrow> wrapped (pwrappers st) (pimages st i))"

definition store_ok :: "Pipeline \<Rightarrow> bool" where
  "store_ok st \<longleftrightarrow> sm_wf (mSourceBufferQueueMap st) \<and> sm_wf (mBuffers st) \<and>
     (\<forall>e \<in> set (mBuffers st). space_ok (snd e)) \<and> images_ok st"

definition bal :: "nat multiset \<Rightarrow> Pipeline \<Rightarrow> bool" where
  "bal M st \<longleftrightarrow> store_ok st \<and> (\<forall>i. mUseCount (pimages st i) = of_nat (count (refs st + M) i))"

lemma qrefs_set:
  assumes "sm_wf m" and "sm_find m k = Some q0"
  shows "qrefs (sm_set k q m) + mset (mQueue q0) = qrefs m + mset (mQueue q)"
  using sum_sm_set [OF assms, of "\<lambda>e. mset (mQueue (snd e))" q] by (simp add: qrefs_def)

lemma brefs_set:
  assumes "space_ok bs" and "sm_find (qmap sel bs) port = Some q0"
  shows "brefs (qmap_set sel (sm_set port q (qmap sel bs)) bs) + mset (mQueue q0) = brefs bs + mset (mQueue q)"
proof -
  have "sm_wf (qmap sel bs)" using assms(1) by (cases sel) (auto simp: space_ok_def open_queues_def)
  from qrefs_set [OF this assms(2), of q] show ?thesis
    by (cases sel) (auto simp: brefs_def ac_simps)
qed

lemma q_at_Inr:
  "q_at st n sel port = Inr q \<longleftrightarrow> (\<exists>bs. sm_find (mBuffers st) n = Some bs \<and> sm_find (qmap sel bs) port = Some q)"
  by (auto simp: q_at_def bindE_eq_Inr sm_at_Inr)

lemma store_space: "store_ok st \<Longrightarrow> sm_find (mBuffers st) n = Some bs \<Longrightarrow> space_ok bs"
  unfolding store_ok_def using sm.entries_lookup [of "mBuffers st" n bs] by force

lemma store_open: "store_ok st \<Longrightarrow> q_at st n sel port = Inr q \<Longrightarrow> \<not> mRelease q"
proof -
  assume a: "store_ok st" "q_at st n sel port = Inr q"
  then obtain bs where b: "space_ok bs" "sm_find (qmap sel bs) port = Some q"
    by (auto simp: q_at_Inr dest: store_space)
  then have "open_queues (qmap sel bs)" by (cases sel) (auto simp: space_ok_def)
  with b(2) show ?thesis unfolding open_queues_def using sm.entries_lookup [of "qmap sel bs" port q] by force
qed

lemma refs_q_put:
  assumes "store_ok st" and "q_at st n sel port = Inr q0"
  shows "refs (q_put n sel port q st) + mset (mQueue q0) = refs st + mset (mQueue q)"
proof -
  obtain bs where bs: "sm_find (mBuffers st) n = Some bs" "sm_find (qmap sel bs) port = Some q0"
    using assms(2) by (auto simp: q_at_Inr)
  have ok: "space_ok bs" and wf: "sm_wf (mBuffers st)"
    using assms(1) store_space [OF assms(1) bs(1)] by (simp_all add: store_ok_def)
  have "(\<Sum>e\<leftarrow>mBuffers (q_put n sel port q st). brefs (snd e)) + brefs bs =
      (\<Sum>e\<leftarrow>mBuffers st. brefs (snd e)) + brefs (qmap_set sel (sm_set port q (qmap sel bs)) bs)"
    using sum_sm_set [OF wf bs(1), of "\<lambda>e. brefs (snd e)" "qmap_set sel (sm_set port q (qmap sel bs)) bs"]
    by (simp add: q_put_def sm_index_def bs(1))
  moreover have "mSourceBufferQueueMap (q_put n sel port q st) = mSourceBufferQueueMap st"
    by (simp add: q_put_def Let_def)
  ultimately have "refs (q_put n sel port q st) + brefs bs =
      refs st + brefs (qmap_set sel (sm_set port q (qmap sel bs)) bs)"
    by (simp add: refs_def add.assoc)
  then have "refs (q_put n sel port q st) + mset (mQueue q0) + brefs bs =
      refs st + (brefs (qmap_set sel (sm_set port q (qmap sel bs)) bs) + mset (mQueue q0))"
    by (metis add.assoc add.commute)
  also have "\<dots> = refs st + mset (mQueue q) + brefs bs"
    using brefs_set [OF ok bs(2), of q] by (simp add: ac_simps)
  finally show ?thesis by simp
qed

lemma set_sm_set_subset: "set (sm_set k v m) \<subseteq> insert (k, v) (set m)"
  by (induction k v m rule: sm_set.induct) auto

lemma open_queues_set: "open_queues m \<Longrightarrow> \<not> mRelease q \<Longrightarrow> open_queues (sm_set k q m)"
  unfolding open_queues_def using set_sm_set_subset [of k q m] by (auto simp: sm_wf_set)

lemma space_ok_set:
  "space_ok bs \<Longrightarrow> \<not> mRelease q \<Longrightarrow> space_ok (qmap_set sel (sm_set port q (qmap sel bs)) bs)"
  by (cases sel) (auto simp: space_ok_def open_queues_set)

lemma space_ok_empty [simp]: "space_ok emptySpace"
  by (simp add: space_ok_def emptySpace_def open_queues_def)

lemma store_ok_q_put: "store_ok st \<Longrightarrow> \<not> mRelease q \<Longrightarrow> store_ok (q_put n sel port q st)"
proof -
  assume a: "store_ok st" "\<not> mRelease q"
  define bs where "bs = sm_index emptySpace (mBuffers st) n"
  have "space_ok bs" using store_space [OF a(1)] by (auto simp: bs_def sm_index_def split: option.splits)
  then have "space_ok (qmap_set sel (sm_set port q (qmap sel bs)) bs)" using a(2) by (rule space_ok_set)
  then show ?thesis using a(1) set_sm_set_subset [of n _ "mBuffers st"]
    by (fastforce simp: store_ok_def q_put_def bs_def Let_def images_ok_def sm_wf_set)
qed

lemma q_put_same [simp]:
  "pimages (q_put n sel port q st) = pimages st" "pwrappers (q_put n sel port q st) = pwrappers st"
  "mPipelineInfo (q_put n sel port q st) = mPipelineInfo st"
  "mOutputLinkMap (q_put n sel port q st) = mOutputLinkMap st"
  "mInputLinkMap (q_put n sel port q st) = mInputLinkMap st"
  "mSourceBufferQueueMap (q_put n sel port q st) = mSourceBufferQueueMap st"
  "pcalls (q_put n sel port q st) = pcalls st"
  by (simp_all add: q_put_def Let_def)

subsection \<open>The primitive moves\<close>

lemma bal_popQ:
  assumes "bal M st" and "popQ n sel port st = Inr (r, st')"
  shows "bal (case r of None \<Rightarrow> M | Some i \<Rightarrow> add_mset i M) st'"
proof -
  obtain q where q: "q_at st n sel port = Inr q" using assms(2) by (auto simp: popQ_def bindE_eq_Inr)
  have ok: "store_ok st" using assms(1) by (simp add: bal_def)
  show ?thesis
  proof (cases "mQueue q")
    case Nil
    then have "r = None \<and> st' = st" using assms(2) q by (simp add: popQ_def tryPop_def)
    then show ?thesis using assms(1) by simp
  next
    case (Cons i xs)
    let ?q' = "q\<lparr>mQueue := xs\<rparr>"
    have r: "r = Some i" "st' = q_put n sel port ?q' st"
      using assms(2) q Cons by (auto simp: popQ_def tryPop_def)
    have "refs st' + {#i#} + mset xs = refs st + mset xs"
      using refs_q_put [OF ok q, of ?q'] Cons r(2) by (simp add: ac_simps)
    then have "refs st = add_mset i (refs st')" by simp
    then show ?thesis using assms(1) r store_ok_q_put [OF ok, of ?q'] store_open [OF ok q]
      by (simp add: bal_def)
  qed
qed

lemma bal_pushQ:
  assumes "bal (add_mset i M) st" and "pushQ n sel port i st = Inr st'"
  shows "bal M st'"
proof -
  have ok: "store_ok st" using assms(1) by (simp add: bal_def)
  obtain q where q: "q_at st n sel port = Inr q" and st': "st' = q_put n sel port (snd (tsq_push i q)) st"
    using assms(2) by (auto simp: pushQ_def bindE_eq_Inr)
  have op: "\<not> mRelease q" using store_open [OF ok q] .
  then have "refs st' + mset (mQueue q) = add_mset i (refs st) + mset (mQueue q)"
    using refs_q_put [OF ok q, of "snd (tsq_push i q)"] st' by (simp add: tsq_push_def ac_simps)
  then have "refs st' = add_mset i (refs st)" by simp
  then show ?thesis using assms(1) st' store_ok_q_put [OF ok, of "snd (tsq_push i q)"] op
    by (simp add: bal_def tsq_push_def)
qed

text \<open>Two states with the same queues, images and wrappers are balanced alike.\<close>

definition same_flow :: "Pipeline \<Rightarrow> Pipeline \<Rightarrow> bool" where
  "same_flow s t \<longleftrightarrow> mSourceBufferQueueMap s = mSourceBufferQueueMap t \<and> mBuffers s = mBuffers t \<and>
     pimages s = pimages t \<and> pwrappers s = pwrappers t"

lemma bal_same: "same_flow s t \<Longrightarrow> bal M s = bal M t"
  by (simp add: same_flow_def bal_def store_ok_def refs_def images_ok_def)

lemma same_flow_simps [simp]:
  "same_flow (call c st) st" "same_flow (touchOut n st) st" "same_flow (touchIn n st) st"
  "same_flow (st\<lparr>mSinkNumToReturn := k\<rparr>) st" "same_flow (st\<lparr>mRunSequence := rs\<rparr>) st"
  "same_flow (st\<lparr>mDependenceNum := dn\<rparr>) st" "same_flow (st\<lparr>mRunningNodeNum := rn\<rparr>) st"
  "same_flow (st\<lparr>mHasProcessError := b, mRunningNodeNum := rn\<rparr>) st"
  "same_flow (st\<lparr>mCurrentProcessNodes := c'\<rparr>) st" "same_flow (st\<lparr>mIsCallExternal := b\<rparr>) st"
  "same_flow (st\<lparr>mFlushStatus := fs\<rparr>) st"
  "same_flow (st\<lparr>mRunSequence := rs, mCurrentProcessNodes := c'\<rparr>) st"
  by (simp_all add: same_flow_def call_def touchOut_def touchIn_def)

lemma bal_more: "bal M st \<Longrightarrow> bal (add_mset i M) (useMore i st)"
  by (simp add: bal_def useMore_def increaseUseCount_def store_ok_def refs_def images_ok_def wrapped_def)

lemma releaseBuffer_image:
  "pimages (releaseBuffer i c st) = (if imType (pimages st i) = MI_IMG_INTERNAL \<and> \<not> wrapped (pwrappers st) (pimages st i)
     then pimages st
     else (pimages st)(i := (let im = (pimages st i)\<lparr>mUseCount := mUseCount (pimages st i) - 1\<rparr>
        in if imType im \<noteq> MI_IMG_INTERNAL \<and> mUseCount im = 0 then im\<lparr>mState := MI_IMG_STATE_RELEASED\<rparr> else im)))"
  by (auto simp: releaseBuffer_def decreaseUseCount_def call_def releaseExternalFrame_def Let_def)

lemma releaseBuffer_same [simp]:
  "mSourceBufferQueueMap (releaseBuffer i c st) = mSourceBufferQueueMap st"
  "mBuffers (releaseBuffer i c st) = mBuffers st" "pwrappers (releaseBuffer i c st) = pwrappers st"
  "mPipelineInfo (releaseBuffer i c st) = mPipelineInfo st"
  "mOutputLinkMap (releaseBuffer i c st) = mOutputLinkMap st"
  by (simp_all add: releaseBuffer_def decreaseUseCount_def call_def Let_def split: prod.splits)

lemma bal_release: "bal (add_mset i M) st \<Longrightarrow> bal M (releaseBuffer i c st)"
proof -
  assume b: "bal (add_mset i M) st"
  then have im: "images_ok st" by (simp add: bal_def store_ok_def)
  then have w: "imType (pimages st i) = MI_IMG_INTERNAL \<Longrightarrow> wrapped (pwrappers st) (pimages st i)"
    by (simp add: images_ok_def)
  have "images_ok (releaseBuffer i c st)"
    using im by (auto simp: images_ok_def releaseBuffer_image wrapped_def Let_def)
  moreover have "mUseCount (pimages (releaseBuffer i c st) j) = of_nat (count (refs (releaseBuffer i c st) + M) j)" for j
    using b w by (simp add: bal_def releaseBuffer_image Let_def refs_def)
  ultimately show ?thesis using b by (simp add: bal_def store_ok_def)
qed

lemma bal_getSourceImage:
  assumes "bal M st" and "getSourceImage p st = Inr (r, st')"
  shows "bal (case r of None \<Rightarrow> M | Some i \<Rightarrow> add_mset i M) st'"
proof (cases "sm_find (mSourceBufferQueueMap st) p")
  case None
  then show ?thesis using assms by (simp add: getSourceImage_def)
next
  case (Some q)
  have wf: "sm_wf (mSourceBufferQueueMap st)" using assms(1) by (simp add: bal_def store_ok_def)
  obtain q' where q': "waitPop q = Inr (r, q')" "st' = st\<lparr>mSourceBufferQueueMap := sm_set p q' (mSourceBufferQueueMap st)\<rparr>"
    using assms(2) Some by (auto simp: getSourceImage_def bindE_eq_Inr)
  have m: "mset (mQueue q) = mset (mQueue q') + (case r of None \<Rightarrow> {#} | Some i \<Rightarrow> {#i#})"
    using q'(1) by (auto simp: waitPop_def waitAndPop_def popFront_def split: if_splits list.splits)
  have "qrefs (mSourceBufferQueueMap st') + mset (mQueue q) = qrefs (mSourceBufferQueueMap st) + mset (mQueue q')"
    using qrefs_set [OF wf Some, of q'] q'(2) by simp
  then have "qrefs (mSourceBufferQueueMap st') + (case r of None \<Rightarrow> {#} | Some i \<Rightarrow> {#i#}) = qrefs (mSourceBufferQueueMap st)"
    unfolding m by simp
  then have "refs st = refs st' + (case r of None \<Rightarrow> {#} | Some i \<Rightarrow> {#i#})"
    using q'(2) by (simp add: refs_def ac_simps)
  then show ?thesis using assms(1) q'(2) wf
    by (cases r) (simp_all add: bal_def store_ok_def images_ok_def sm_wf_set)
qed

text \<open>
  What the session may answer: distinct images nobody holds, each with the one use
  \<open>acquireOutputBuffer\<close> has counted, internal ones from a wrapper of the session.
\<close>

definition fresh :: "acquire_answers \<Rightarrow> nat multiset \<Rightarrow> Pipeline \<Rightarrow> bool" where
  "fresh answers M st \<longleftrightarrow>
     distinct (map fst (List.map_filter (\<lambda>a. a) answers)) \<and>
     (\<forall>a \<in> set answers. case a of None \<Rightarrow> True | Some (i, im) \<Rightarrow>
        i \<notin># refs st + M \<and> mUseCount im = 1 \<and>
        (imType im = MI_IMG_INTERNAL \<longrightarrow> wrapped (pwrappers st) im))"

lemma fresh_same: "same_flow s t \<Longrightarrow> fresh answers M s = fresh answers M t"
proof -
  assume "same_flow s t"
  then have "refs s = refs t" "pwrappers s = pwrappers t" by (simp_all add: same_flow_def refs_def)
  then show ?thesis unfolding fresh_def by (simp only:)
qed

lemma map_filter_id_Cons [simp]:
  "List.map_filter (\<lambda>a. a) (None # xs) = List.map_filter (\<lambda>a. a) xs"
  "List.map_filter (\<lambda>a. a) (Some y # xs) = y # List.map_filter (\<lambda>a. a) xs"
  by (simp_all add: List.map_filter_def)

lemma in_map_filter_id: "x \<in> set (List.map_filter (\<lambda>a. a) xs) \<longleftrightarrow> Some x \<in> set xs"
  by (induction xs) (auto simp: List.map_filter_def)

lemma copyParams_same [simp]:
  "mUseCount (copyParams src ts n im) = mUseCount im" "imType (copyParams src ts n im) = imType im"
  "mFormat (copyParams src ts n im) = mFormat im"
  by (simp_all add: copyParams_def Let_def)

lemma bal_acquire:
  assumes b: "bal M st" and f: "fresh (Some (i, im) # rest) M st"
    and p: "pushQ inst sel port i (st0\<lparr>pimages := (pimages st)(i := copyParams src ts n im)\<rparr>) = Inr st'"
    and s: "same_flow st0 st"
  shows "bal M st' \<and> fresh rest M st'"
proof -
  let ?st1 = "st0\<lparr>pimages := (pimages st)(i := copyParams src ts n im)\<rparr>"
  have "bal M st0" using b s bal_same by blast
  have r1: "refs ?st1 = refs st" using s by (simp add: refs_def same_flow_def)
  have w: "imType im = MI_IMG_INTERNAL \<Longrightarrow> wrapped (pwrappers st) im" and "mUseCount im = 1"
    and i: "i \<notin># refs st + M" using f by (auto simp: fresh_def)
  then have "images_ok ?st1" using b s by (auto simp: bal_def store_ok_def images_ok_def wrapped_def same_flow_def)
  then have "store_ok ?st1" using \<open>bal M st0\<close> by (simp add: bal_def store_ok_def)
  moreover have "mUseCount (pimages ?st1 j) = of_nat (count (refs ?st1 + add_mset i M) j)" for j
  proof (cases "j = i")
    case True
    then show ?thesis using i \<open>mUseCount im = 1\<close> by (simp add: r1 not_in_iff)
  next
    case False
    then show ?thesis using b by (simp add: bal_def r1)
  qed
  ultimately have b1: "bal (add_mset i M) ?st1" by (simp add: bal_def)
  from bal_pushQ [OF b1 p] have b2: "bal M st'" .
  obtain q where q: "q_at ?st1 inst sel port = Inr q" and st': "st' = q_put inst sel port (snd (tsq_push i q)) ?st1"
    using p by (auto simp: pushQ_def bindE_eq_Inr)
  have op: "\<not> mRelease q" using store_open [OF \<open>store_ok ?st1\<close> q] .
  have "refs st' + mset (mQueue q) = add_mset i (refs ?st1) + mset (mQueue q)"
    using refs_q_put [OF \<open>store_ok ?st1\<close> q, of "snd (tsq_push i q)"] st' op by (simp add: tsq_push_def ac_simps)
  then have "refs st' = add_mset i (refs st)" by (simp add: r1)
  moreover have "pwrappers st' = pwrappers st" using st' s by (simp add: same_flow_def)
  moreover have "\<forall>im'. Some (i, im') \<notin> set rest" using f
    by (force simp: fresh_def in_map_filter_id)
  ultimately have "fresh rest M st'" using f by (auto simp: fresh_def split: option.splits)
  with b2 show ?thesis by blast
qed

lemma bal_dependenceDone: "bal M st \<Longrightarrow> dependenceDone n st = Inr st' \<Longrightarrow> bal M st'"
proof -
  assume "bal M st" and "dependenceDone n st = Inr st'"
  moreover from this(2) have "same_flow st' st"
    by (auto simp: dependenceDone_def Let_def bindE_eq_Inr same_flow_def split: if_splits)
  ultimately show ?thesis by (simp add: bal_same)
qed

lemma fresh_refuse: "fresh (None # rest) M st \<Longrightarrow> fresh rest M (call c st)"
proof -
  assume "fresh (None # rest) M st"
  then have "fresh rest M st" by (simp add: fresh_def)
  then show ?thesis by (simp add: fresh_same [OF same_flow_simps(1)])
qed

lemma bal_acquired:
  "bal M st \<Longrightarrow> fresh (Some (i, im) # rest) M st \<Longrightarrow>
   pushQ inst sel port i ((call c st)\<lparr>pimages := (pimages st)(i := copyParams src ts n im)\<rparr>) = Inr st' \<Longrightarrow>
   bal M st' \<and> fresh rest M st'"
  by (rule bal_acquire) (assumption | rule same_flow_simps(1))+

lemma fresh_touchOut: "fresh answers M st \<Longrightarrow> fresh answers M (touchOut n st)"
  by (simp add: fresh_same [OF same_flow_simps(2)])

interpretation mv: finish_moves bal fresh
  by unfold_locales
    (rule bal_popQ bal_pushQ bal_more bal_release bal_getSourceImage bal_dependenceDone bal_acquired
        fresh_refuse fresh_touchOut bal_same [OF same_flow_simps(1)] bal_same [OF same_flow_simps(2)]
        bal_same [OF same_flow_simps(3)] bal_same [OF same_flow_simps(4)] bal_same [OF same_flow_simps(7)]
        bal_same [OF same_flow_simps(8)] bal_same [OF same_flow_simps(9)] bal_same [OF same_flow_simps(10)];
     assumption)+

lemma bal_enqueueSourceImage:
  assumes "bal (add_mset i M) st" and "enqueueSourceImage i p st = (ok, st')"
  shows "bal (if ok then M else add_mset i M) st'"
proof -
  let ?m = "mSourceBufferQueueMap st"
  have wf: "sm_wf ?m" using assms(1) by (simp add: bal_def store_ok_def)
  define q where "q = sm_index tsq_new ?m p"
  have st': "st' = st\<lparr>mSourceBufferQueueMap := sm_set p (snd (tsq_push i q)) ?m\<rparr>" and ok: "ok = fst (tsq_push i q)"
    using assms(2) by (auto simp: enqueueSourceImage_def q_def split: prod.splits)
  have "qrefs (sm_set p (snd (tsq_push i q)) ?m) + mset (mQueue q) = qrefs ?m + mset (mQueue (snd (tsq_push i q)))"
  proof (cases "sm_find ?m p")
    case None
    then show ?thesis using sum_sm_new [OF None, of "\<lambda>e. mset (mQueue (snd e))"]
      by (simp add: qrefs_def q_def sm_index_def tsq_new_def)
  next
    case (Some q0)
    then show ?thesis using qrefs_set [OF wf Some] by (simp add: q_def sm_index_def)
  qed
  then have "refs st' = (if ok then {#i#} else {#}) + refs st"
    by (auto simp: st' ok refs_def tsq_push_def ac_simps)
  then show ?thesis using assms(1) wf
    by (auto simp: st' bal_def store_ok_def images_ok_def sm_wf_set)
qed

lemma qrefs_release [simp]: "qrefs (map (\<lambda>(p, q). (p, releaseQueue q)) m) = qrefs m"
  by (induction m) (auto simp: qrefs_def releaseQueue_def)

lemma bal_expedite: "bal M st \<Longrightarrow> pl_quickFinish True st = Inr st' \<Longrightarrow> bal M st'"
proof -
  assume b: "bal M st" and e: "pl_quickFinish True st = Inr st'"
  have "fst \<circ> (\<lambda>(p, q). (p, releaseQueue q)) = (fst :: u32 \<times> nat tsq \<Rightarrow> u32)" by auto
  then have "sm_wf (map (\<lambda>(p, q). (p, releaseQueue q)) (mSourceBufferQueueMap st))"
    using b by (simp add: bal_def store_ok_def sm_wf_def)
  then show ?thesis using b e by (auto simp: pl_quickFinish_def bal_def store_ok_def images_ok_def refs_def)
qed

subsection \<open>Preparing and draining\<close>

text \<open>While the links are prepared every queue of a node is empty.\<close>

definition idle :: "Pipeline \<Rightarrow> bool" where
  "idle st \<longleftrightarrow> (\<forall>n sel port q. q_at st n sel port = Inr q \<longrightarrow> mQueue q = [])"

lemma q_at_q_put:
  "q_at (q_put n sel port q st) n' sel' port' =
     (if n' = n then (if sel' = sel \<and> port' = port then Inr q
        else sm_at (qmap sel' (sm_index emptySpace (mBuffers st) n)) port')
      else q_at st n' sel' port')"
  by (cases sel; cases sel') (auto simp: q_at_def q_put_def Let_def sm_at_def)

lemma sum_list_empty: "(\<Sum>e\<leftarrow>xs. f e) = ({#} :: 'a multiset) \<longleftrightarrow> (\<forall>e \<in> set xs. f e = {#})"
  by (induction xs) auto

lemma node_refs_empty:
  assumes "store_ok st" and "idle st"
  shows "(\<Sum>e\<leftarrow>mBuffers st. brefs (snd e)) = {#}"
proof -
  have "brefs bs = {#}" if m: "(n, bs) \<in> set (mBuffers st)" for n bs
  proof -
    have f: "sm_find (mBuffers st) n = Some bs" using assms(1) m sm.entries_lookup [of "mBuffers st" n bs] by (simp add: store_ok_def)
    then have "open_queues (qmap sel bs)" for sel
      using store_space [OF assms(1) f] by (cases sel) (auto simp: space_ok_def)
    then have w: "sm_wf (qmap sel bs)" for sel by (simp add: open_queues_def)
    have "mQueue q = []" if m: "(p, q) \<in> set (qmap sel bs)" for sel p q
    proof -
      have "q_at st n sel p = Inr q" using f m sm.entries_lookup [OF w, of p q sel] by (simp add: q_at_Inr)
      then show ?thesis using assms(2) unfolding idle_def by blast
    qed
    then have "qrefs (qmap sel bs) = {#}" for sel by (fastforce simp: qrefs_def sum_list_empty)
    from this [of InQ] this [of OutQ] this [of UseQ] show ?thesis by (simp add: brefs_def)
  qed
  then show ?thesis by (fastforce simp: sum_list_empty)
qed

lemma idle_q_clear:
  assumes "store_ok st" and "idle st"
  shows "store_ok (q_clear n sel port st) \<and> idle (q_clear n sel port st)"
proof -
  let ?q = "sm_index tsq_new (qmap sel (sm_index emptySpace (mBuffers st) n)) port"
  have "\<not> mRelease ?q"
  proof (cases "q_at st n sel port")
    case (Inr q)
    then show ?thesis using store_open [OF assms(1) Inr] by (auto simp: q_at_Inr sm_index_def)
  next
    case (Inl e)
    then show ?thesis
      by (cases sel) (auto simp: q_at_def bindE_eq_Inl sm_at_Inl sm_at_Inr sm_index_def tsq_new_def emptySpace_def split: option.splits)
  qed
  then have "store_ok (q_clear n sel port st)"
    using store_ok_q_put [OF assms(1)] by (simp add: q_clear_def clearQueue_def)
  moreover have "idle (q_clear n sel port st)"
    unfolding idle_def
  proof (intro allI impI)
    fix n' sel' port' q assume "q_at (q_clear n sel port st) n' sel' port' = Inr q"
    moreover have "sm_at (qmap sel' (sm_index emptySpace (mBuffers st) n)) port' = Inr q \<Longrightarrow> q_at st n sel' port' = Inr q"
      by (cases sel') (auto simp: q_at_Inr sm_at_Inr sm_index_def emptySpace_def split: option.splits)
    ultimately show "mQueue q = []" using assms(2)
      by (auto simp: q_clear_def q_at_q_put idle_def clearQueue_def split: if_splits)
  qed
  ultimately show ?thesis ..
qed

lemma idle_same: "same_flow s t \<Longrightarrow> idle s = idle t"
  by (simp add: idle_def q_at_def same_flow_def)

lemma bal_idle:
  assumes "bal M st" and "idle st" and "store_ok st'" and "idle st'"
    and "mSourceBufferQueueMap st' = mSourceBufferQueueMap st" and "pimages st' = pimages st"
  shows "bal M st'"
proof -
  have "refs st' = refs st" using assms node_refs_empty [of st] node_refs_empty [of st']
    by (simp add: bal_def refs_def)
  then show ?thesis using assms by (simp add: bal_def)
qed

lemma q_clear_same [simp]:
  "mSourceBufferQueueMap (q_clear n sel p st) = mSourceBufferQueueMap st" "pimages (q_clear n sel p st) = pimages st"
  "mPipelineInfo (q_clear n sel p st) = mPipelineInfo st"
  by (simp_all add: q_clear_def)

lemma recordLink_same: "same_flow (snd (recordLink index link acc)) (snd acc)"
  by (cases acc) (simp add: recordLink_def Let_def same_flow_def split: LinkType.splits)

lemma prepareLink_keeps:
  assumes "bal M st" and "idle st"
  shows "bal M (snd (prepareLink index (sns, st))) \<and> idle (snd (prepareLink index (sns, st)))"
proof -
  let ?link = "links (mPipelineInfo st) ! index"
  let ?s = "snd (recordLink index ?link (sns, st))"
  have e: "snd (prepareLink index (sns, st)) =
      q_clear (dstNodeInstance ?link) UseQ (dstNodePortId ?link) (q_clear (dstNodeInstance ?link) InQ (dstNodePortId ?link)
        (q_clear (srcNodeInstance ?link) OutQ (srcNodePortId ?link) ?s))"
    by (simp add: prepareLink_def Let_def split: prod.splits)
  have s: "same_flow ?s st" using recordLink_same [of index ?link "(sns, st)"] by simp
  then have i: "bal M ?s" "idle ?s" using assms by (simp_all add: bal_same [OF s] idle_same [OF s])
  then have "store_ok ?s" by (simp add: bal_def)
  with i(2) have "store_ok (snd (prepareLink index (sns, st))) \<and> idle (snd (prepareLink index (sns, st)))"
    unfolding e using idle_q_clear by blast
  then show ?thesis using bal_idle [OF i, of "snd (prepareLink index (sns, st))"] by (simp add: e)
qed

lemma prepareLinks_keeps:
  assumes "bal M st" and "idle st"
  shows "bal M (snd (fold prepareLink ixs (sns, st))) \<and> idle (snd (fold prepareLink ixs (sns, st)))"
proof -
  have "bal M (snd acc) \<and> idle (snd acc) \<Longrightarrow>
    bal M (snd (fold prepareLink ixs acc)) \<and> idle (snd (fold prepareLink ixs acc))" for acc
  proof (induction ixs arbitrary: acc)
    case (Cons x ixs)
    then have "bal M (snd (prepareLink x acc)) \<and> idle (snd (prepareLink x acc))"
      using prepareLink_keeps [of M "snd acc" x "fst acc"] by simp
    from Cons.IH [OF this] show ?case by simp
  qed simp
  from this [of "(sns, st)"] assms show ?thesis by simp
qed

text \<open>Only the queue at one place differs.\<close>

definition only_q :: "string \<Rightarrow> qsel \<Rightarrow> int \<Rightarrow> nat tsq \<Rightarrow> Pipeline \<Rightarrow> Pipeline \<Rightarrow> bool" where
  "only_q n sel p v st st' \<longleftrightarrow>
     (\<forall>n' sel' p'. q_at st' n' sel' p' = (if n' = n \<and> sel' = sel \<and> p' = p then Inr v else q_at st n' sel' p')) \<and>
     (\<forall>n'. sm_find (mBuffers st') n' = None \<longleftrightarrow> sm_find (mBuffers st) n' = None) \<and>
     mSourceBufferQueueMap st' = mSourceBufferQueueMap st"

lemma only_q_put:
  "q_at st n sel p = Inr q0 \<Longrightarrow> only_q n sel p q st (q_put n sel p q st)"
proof -
  assume "q_at st n sel p = Inr q0"
  then obtain bs where bs: "sm_find (mBuffers st) n = Some bs" by (auto simp: q_at_Inr)
  then have "q_at st n sel' p' = sm_at (qmap sel' bs) p'" for sel' p'
    by (simp add: q_at_def sm_at_def)
  then have "q_at (q_put n sel p q st) n' sel' p' = (if n' = n \<and> sel' = sel \<and> p' = p then Inr q else q_at st n' sel' p')"
    for n' sel' p' using bs by (simp add: q_at_q_put sm_index_def)
  moreover have "sm_find (mBuffers (q_put n sel p q st)) n' = None \<longleftrightarrow> sm_find (mBuffers st) n' = None" for n'
    using bs by (simp add: q_put_def Let_def)
  ultimately show ?thesis by (simp add: only_q_def)
qed

lemma q_at_releaseBuffer [simp]: "q_at (releaseBuffer i c st) n sel p = q_at st n sel p"
  by (simp add: q_at_def)

text \<open>An image of the application that has no more uses has been given back.\<close>

definition ended :: "nat set \<Rightarrow> Pipeline \<Rightarrow> bool" where
  "ended X st \<longleftrightarrow> (\<forall>i \<in> X. imType (pimages st i) \<noteq> MI_IMG_INTERNAL \<and> mUseCount (pimages st i) = 0 \<longrightarrow>
     mState (pimages st i) = MI_IMG_STATE_RELEASED)"

lemma ended_releaseBuffer: "ended X st \<Longrightarrow> ended X (releaseBuffer i c st)"
  by (auto simp: ended_def releaseBuffer_image Let_def)

lemma ended_q_put [simp]: "ended X (q_put n sel p q st) = ended X st"
  by (simp add: ended_def)

lemma popLoop_drains:
  "q_at st n sel p = Inr q \<Longrightarrow> length (mQueue q) < fuel \<Longrightarrow>
   \<exists>st'. popLoop fuel n sel p releaseBody st = Inr st' \<and> only_q n sel p (q\<lparr>mQueue := []\<rparr>) st st' \<and>
     (ended X st \<longrightarrow> ended X st')"
proof (induction fuel arbitrary: st q)
  case (Suc fuel)
  show ?case
  proof (cases "mQueue q")
    case Nil
    then have "q = q\<lparr>mQueue := []\<rparr>" by simp
    then show ?thesis using Suc.prems(1) Nil by (auto simp: popQ_def tryPop_def only_q_def)
  next
    case (Cons i xs)
    let ?q = "q\<lparr>mQueue := xs\<rparr>"
    let ?s = "releaseBuffer i False (q_put n sel p ?q st)"
    have o: "only_q n sel p ?q st (q_put n sel p ?q st)" by (rule only_q_put [OF Suc.prems(1)])
    then have "q_at ?s n sel p = Inr ?q" by (simp add: only_q_def)
    then obtain st' where l: "popLoop fuel n sel p releaseBody ?s = Inr st'"
      and o': "only_q n sel p (q\<lparr>mQueue := []\<rparr>) ?s st'" and e: "ended X ?s \<longrightarrow> ended X st'"
      using Suc.IH [of ?s ?q] Suc.prems(2) Cons by auto
    have "popLoop (Suc fuel) n sel p releaseBody st = popLoop fuel n sel p releaseBody ?s"
      using Suc.prems(1) Cons by (simp add: popQ_def tryPop_def releaseBody_def)
    moreover have "only_q n sel p (q\<lparr>mQueue := []\<rparr>) st st'" using o o' by (simp add: only_q_def)
    ultimately show ?thesis using l e ended_releaseBuffer [of X "q_put n sel p ?q st" i False] by auto
  qed
qed simp

lemma popAll_drains:
  assumes "q_at st n sel p = Inr q"
  shows "\<exists>st'. popAll n sel p releaseBody st = Inr st' \<and> only_q n sel p (q\<lparr>mQueue := []\<rparr>) st st' \<and>
    (ended X st \<longrightarrow> ended X st')"
  using popLoop_drains [OF assms, of "Suc (length (mQueue q))"] assms by (simp add: popAll_def)

text \<open>Some queues have been emptied.\<close>

definition drains :: "Pipeline \<Rightarrow> Pipeline \<Rightarrow> bool" where
  "drains st st' \<longleftrightarrow>
     (\<forall>n sel p. q_at st' n sel p = q_at st n sel p \<or>
        (\<exists>q. q_at st n sel p = Inr q \<and> q_at st' n sel p = Inr (q\<lparr>mQueue := []\<rparr>))) \<and>
     (\<forall>n. sm_find (mBuffers st') n = None \<longleftrightarrow> sm_find (mBuffers st) n = None) \<and>
     mSourceBufferQueueMap st' = mSourceBufferQueueMap st"

definition empty_at :: "string \<Rightarrow> qsel \<Rightarrow> int \<Rightarrow> Pipeline \<Rightarrow> bool" where
  "empty_at n sel p st \<longleftrightarrow> (\<forall>q. q_at st n sel p = Inr q \<longrightarrow> mQueue q = [])"

lemma drains_refl [simp]: "drains st st"
  by (simp add: drains_def)

lemma drains_trans:
  assumes "drains a b" and "drains b c"
  shows "drains a c"
proof -
  have "q_at c n sel p = q_at a n sel p \<or>
    (\<exists>q. q_at a n sel p = Inr q \<and> q_at c n sel p = Inr (q\<lparr>mQueue := []\<rparr>))" for n sel p
  proof (cases "q_at b n sel p = q_at a n sel p")
    case True
    then show ?thesis using assms(2) unfolding drains_def by metis
  next
    case False
    then obtain q where q: "q_at a n sel p = Inr q" "q_at b n sel p = Inr (q\<lparr>mQueue := []\<rparr>)"
      using assms(1) unfolding drains_def by metis
    have "q_at c n sel p = q_at b n sel p \<or>
      (\<exists>r. q_at b n sel p = Inr r \<and> q_at c n sel p = Inr (r\<lparr>mQueue := []\<rparr>))"
      using assms(2) unfolding drains_def by blast
    then show ?thesis using q by auto
  qed
  then show ?thesis using assms by (simp add: drains_def)
qed

lemma drains_only: "q_at st n sel p = Inr q \<Longrightarrow> only_q n sel p (q\<lparr>mQueue := []\<rparr>) st st' \<Longrightarrow> drains st st'"
  by (auto simp: drains_def only_q_def)

lemma drains_empty:
  assumes "drains st st'" and "empty_at n sel p st"
  shows "empty_at n sel p st'"
proof -
  have "q_at st' n sel p = q_at st n sel p \<or>
    (\<exists>q. q_at st n sel p = Inr q \<and> q_at st' n sel p = Inr (q\<lparr>mQueue := []\<rparr>))"
    using assms(1) unfolding drains_def by blast
  then show ?thesis using assms(2) by (auto simp: empty_at_def)
qed

lemma eachPort_drains:
  assumes "\<forall>p \<in> set ps. is_ok (q_at st n sel p)"
  shows "\<exists>st'. eachPort (\<lambda>p. popAll n sel p releaseBody) ps st = Inr st' \<and> drains st st' \<and>
    (\<forall>p \<in> set ps. empty_at n sel p st') \<and> (ended X st \<longrightarrow> ended X st')"
  using assms
proof (induction ps arbitrary: st)
  case (Cons p ps)
  then obtain q where q: "q_at st n sel p = Inr q" by (auto simp: is_ok_iff)
  obtain s where s: "popAll n sel p releaseBody st = Inr s" "only_q n sel p (q\<lparr>mQueue := []\<rparr>) st s"
    "ended X st \<longrightarrow> ended X s" using popAll_drains [OF q] by blast
  have d: "drains st s" by (rule drains_only [OF q s(2)])
  have e: "empty_at n sel p s" using s(2) by (simp add: only_q_def empty_at_def)
  have "\<forall>p' \<in> set ps. is_ok (q_at s n sel p')" using Cons.prems s(2) by (simp add: only_q_def)
  from Cons.IH [OF this] obtain st' where r: "eachPort (\<lambda>p. popAll n sel p releaseBody) ps s = Inr st'"
    "drains s st'" "\<forall>p \<in> set ps. empty_at n sel p st'" "ended X s \<longrightarrow> ended X st'" by blast
  have "drains st st'" "empty_at n sel p st'"
    using drains_trans [OF d r(2)] drains_empty [OF r(2) e] by blast+
  then show ?case using s(1,3) r by simp
qed simp

lemma drains_ok: "drains st st' \<Longrightarrow> is_ok (q_at st' n sel p) = is_ok (q_at st n sel p)"
  unfolding drains_def by (metis is_ok_simps(2))

lemma port_ok: "sm_find (mBuffers st) n = Some bs \<Longrightarrow> p \<in> fst ` set (qmap sel bs) \<Longrightarrow> is_ok (q_at st n sel p)"
  using sm_find_None_iff [of "qmap sel bs" p] by (auto simp: is_ok_iff q_at_Inr)

lemma port_of: "sm_find (mBuffers st) n = Some bs \<Longrightarrow> is_ok (q_at st n sel p) \<Longrightarrow> p \<in> fst ` set (qmap sel bs)"
  using sm_find_None_iff [of "qmap sel bs" p] by (auto simp: is_ok_iff q_at_Inr)

lemma drainNode_drains:
  assumes "sm_find (mBuffers st) n \<noteq> None"
  shows "\<exists>st'. drainNode n st = Inr st' \<and> drains st st' \<and> (\<forall>sel p. empty_at n sel p st') \<and>
    (ended X st \<longrightarrow> ended X st')"
proof -
  obtain bs where bs: "sm_find (mBuffers st) n = Some bs" using assms by blast
  note ok = port_ok [OF bs]
  obtain s1 where s1: "eachPort (\<lambda>p. popAll n InQ p releaseBody) (map fst (inputBuffers bs)) st = Inr s1"
    "drains st s1" "\<forall>p \<in> fst ` set (inputBuffers bs). empty_at n InQ p s1" "ended X st \<longrightarrow> ended X s1"
    using eachPort_drains [of "map fst (inputBuffers bs)" st n InQ X] ok [of _ InQ] by auto
  obtain s2 where s2: "eachPort (\<lambda>p. popAll n UseQ p releaseBody) (map fst (usingInputBuffers bs)) s1 = Inr s2"
    "drains s1 s2" "\<forall>p \<in> fst ` set (usingInputBuffers bs). empty_at n UseQ p s2" "ended X s1 \<longrightarrow> ended X s2"
    using eachPort_drains [of "map fst (usingInputBuffers bs)" s1 n UseQ X] ok [of _ UseQ] drains_ok [OF s1(2)] by auto
  obtain s3 where s3: "eachPort (\<lambda>p. popAll n OutQ p releaseBody) (map fst (outputBuffers bs)) s2 = Inr s3"
    "drains s2 s3" "\<forall>p \<in> fst ` set (outputBuffers bs). empty_at n OutQ p s3" "ended X s2 \<longrightarrow> ended X s3"
    using eachPort_drains [of "map fst (outputBuffers bs)" s2 n OutQ X] ok [of _ OutQ]
      drains_ok [OF s2(2)] drains_ok [OF s1(2)] by auto
  have d: "drains st s3" using s1(2) s2(2) s3(2) drains_trans by blast
  have "empty_at n sel p s3" for sel p
  proof (cases "p \<in> fst ` set (qmap sel bs)")
    case True
    then show ?thesis using s1(3) s2(2,3) s3(2,3) drains_empty by (cases sel) (auto 0 4)
  next
    case False
    then have "\<not> is_ok (q_at s3 n sel p)" using port_of [OF bs] drains_ok [OF d] by blast
    then show ?thesis by (auto simp: empty_at_def)
  qed
  then show ?thesis using d s1 s2 s3 bs by (auto simp: drainNode_def sm_at_def)
qed

lemma drainNodes_drains:
  assumes "\<forall>n \<in> set ns. sm_find (mBuffers st) n \<noteq> None"
  shows "\<exists>st'. drainNodes ns st = Inr st' \<and> drains st st' \<and> (\<forall>n \<in> set ns. \<forall>sel p. empty_at n sel p st') \<and>
    (ended X st \<longrightarrow> ended X st')"
  using assms
proof (induction ns arbitrary: st)
  case (Cons n ns)
  then obtain s where s: "drainNode n st = Inr s" "drains st s" "\<forall>sel p. empty_at n sel p s" "ended X st \<longrightarrow> ended X s"
    using drainNode_drains [of st n X] by auto
  have "\<forall>n' \<in> set ns. sm_find (mBuffers s) n' \<noteq> None" using Cons.prems s(2) by (simp add: drains_def)
  from Cons.IH [OF this] obtain st' where r: "drainNodes ns s = Inr st'" "drains s st'"
    "\<forall>n \<in> set ns. \<forall>sel p. empty_at n sel p st'" "ended X s \<longrightarrow> ended X st'" by blast
  have "drains st st'" "\<forall>sel p. empty_at n sel p st'"
    using drains_trans [OF s(2) r(2)] drains_empty [OF r(2)] s(3) by blast+
  then show ?case using s(1,4) r by simp
qed simp

lemma releaseAll_same [simp]:
  "mSourceBufferQueueMap (releaseAll is st) = mSourceBufferQueueMap st" "mBuffers (releaseAll is st) = mBuffers st"
  by (induction "is" arbitrary: st) simp_all

lemma bal_releaseAll: "bal (mset is + M) st \<Longrightarrow> bal M (releaseAll is st)"
  by (induction "is" arbitrary: st) (auto dest: bal_release)

lemma ended_releaseAll: "ended X st \<Longrightarrow> ended X (releaseAll is st)"
  by (induction "is" arbitrary: st) (auto dest: ended_releaseBuffer)

lemma drainSource_step:
  assumes "bal M st"
  shows "bal M (drainSource p st) \<and> mBuffers (drainSource p st) = mBuffers st \<and>
    (\<forall>p'. map_option mQueue (sm_find (mSourceBufferQueueMap (drainSource p st)) p') =
       (if p' = p then map_option (\<lambda>_. []) else map_option mQueue) (sm_find (mSourceBufferQueueMap st) p')) \<and>
    (ended X st \<longrightarrow> ended X (drainSource p st))"
proof (cases "sm_find (mSourceBufferQueueMap st) p")
  case None
  then show ?thesis using assms by (simp add: drainSource_def)
next
  case (Some q)
  let ?q = "clearQueue (releaseQueue q)"
  let ?s = "st\<lparr>mSourceBufferQueueMap := sm_set p ?q (mSourceBufferQueueMap st)\<rparr>"
  have wf: "sm_wf (mSourceBufferQueueMap st)" using assms by (simp add: bal_def store_ok_def)
  have "refs ?s + mset (mQueue q) = refs st"
    using qrefs_set [OF wf Some, of ?q] by (simp add: refs_def clearQueue_def ac_simps)
  then have "count (refs st) i = count (refs ?s) i + count (mset (mQueue q)) i" for i by (metis count_union)
  then have "bal (mset (mQueue q) + M) ?s"
    using assms wf by (simp add: bal_def store_ok_def images_ok_def sm_wf_set)
  then have "bal M (releaseAll (mQueue q) ?s)" by (rule bal_releaseAll)
  moreover have "ended X st \<longrightarrow> ended X (releaseAll (mQueue q) ?s)"
    using ended_releaseAll [of X ?s] by (simp add: ended_def)
  ultimately show ?thesis using Some by (simp add: drainSource_def clearQueue_def)
qed

lemma drainSources_step:
  assumes "bal M st"
  shows "bal M (fold drainSource ps st) \<and> mBuffers (fold drainSource ps st) = mBuffers st \<and>
    (\<forall>p'. map_option mQueue (sm_find (mSourceBufferQueueMap (fold drainSource ps st)) p') =
       (if p' \<in> set ps then map_option (\<lambda>_. []) else map_option mQueue) (sm_find (mSourceBufferQueueMap st) p')) \<and>
    (ended X st \<longrightarrow> ended X (fold drainSource ps st))"
  using assms
proof (induction ps arbitrary: st)
  case (Cons p ps)
  note 1 = drainSource_step [OF Cons.prems, of p X]
  then have b: "bal M (drainSource p st)" by blast
  note 2 = Cons.IH [OF b]
  have "map_option mQueue (sm_find (mSourceBufferQueueMap (fold drainSource (p # ps) st)) p') =
     (if p' \<in> set (p # ps) then map_option (\<lambda>_. []) else map_option mQueue) (sm_find (mSourceBufferQueueMap st) p')" for p'
    using 1 2 by (cases "sm_find (mSourceBufferQueueMap st) p'"; cases "sm_find (mSourceBufferQueueMap (drainSource p st)) p'")
      (auto split: if_splits dest!: spec [where x = p'])
  then show ?case using 1 2 by simp
qed simp

lemma drainNode_keeps: "mv.keeps (drainNode n)"
proof -
  have r: "mv.consumes releaseBody" unfolding releaseBody_def by (rule mv.consumes_release)
  have e: "mv.keeps (eachPort (\<lambda>p. popAll n sel p releaseBody) ps)" for sel ps
    by (intro mv.eachPort_keeps mv.popAll_keeps r)
  show ?thesis unfolding drainNode_def
    by (intro mv.keeps_get mv.keeps_bind e)
qed

lemma drainNodes_keeps: "mv.keeps (drainNodes ns)"
proof (induction ns)
  case (Cons n ns)
  from mv.keeps_bind [OF drainNode_keeps Cons] show ?case by (simp add: mv.keeps_def)
qed (simp add: mv.keeps_def)

text \<open>The end of a pipeline: it always returns, and leaves no reference behind.\<close>

lemma releaseUnusedBuffer_total:
  assumes "bal M st"
  shows "\<exists>st'. releaseUnusedBuffer st = Inr st' \<and> bal M st' \<and> refs st' = {#} \<and> (ended X st \<longrightarrow> ended X st')"
proof -
  define s where "s = fold drainSource (map fst (mSourceBufferQueueMap st)) st"
  have s: "bal M s" "mBuffers s = mBuffers st" "ended X st \<longrightarrow> ended X s"
    and q: "\<And>p. map_option mQueue (sm_find (mSourceBufferQueueMap s) p) =
       (if p \<in> fst ` set (mSourceBufferQueueMap st) then map_option (\<lambda>_. []) else map_option mQueue)
         (sm_find (mSourceBufferQueueMap st) p)"
    using drainSources_step [OF assms, of "map fst (mSourceBufferQueueMap st)" X] by (simp_all add: s_def)
  have "mQueue r = []" if "(p, r) \<in> set (mSourceBufferQueueMap s)" for p r
  proof -
    have "sm_find (mSourceBufferQueueMap s) p = Some r"
      using that s(1) sm.entries_lookup [of "mSourceBufferQueueMap s" p r] by (simp add: bal_def store_ok_def)
    then show ?thesis using q [of p] sm_find_None_iff [of "mSourceBufferQueueMap st" p] by (auto split: if_splits)
  qed
  then have src: "qrefs (mSourceBufferQueueMap s) = {#}" by (fastforce simp: qrefs_def sum_list_empty)
  have "\<forall>n \<in> set (map fst (mBuffers s)). sm_find (mBuffers s) n \<noteq> None" by (simp add: sm_find_None_iff)
  from drainNodes_drains [OF this] obtain st' where st': "drainNodes (map fst (mBuffers s)) s = Inr st'"
    and d: "drains s st'" and e: "\<forall>n \<in> set (map fst (mBuffers s)). \<forall>sel p. empty_at n sel p st'"
    and x: "ended X s \<longrightarrow> ended X st'" by blast
  have b: "bal M st'" by (rule mv.keepsD [OF drainNodes_keeps s(1) st'])
  have "idle st'"
    unfolding idle_def
  proof (intro allI impI)
    fix n sel p r assume r: "q_at st' n sel p = Inr r"
    then have "sm_find (mBuffers st') n \<noteq> None" by (auto simp: q_at_Inr)
    then have "sm_find (mBuffers s) n \<noteq> None" using d [unfolded drains_def, THEN conjunct2, THEN conjunct1, THEN spec, of n] by simp
    then have "n \<in> set (map fst (mBuffers s))" by (simp add: sm_find_None_iff)
    then show "mQueue r = []" using e r by (auto simp: empty_at_def)
  qed
  then have "refs st' = {#}" using node_refs_empty [of st'] b d src by (simp add: refs_def bal_def drains_def)
  then show ?thesis using st' b x s by (auto simp: releaseUnusedBuffer_def s_def Let_def)
qed

subsection \<open>Interleavings of the member functions\<close>

text \<open>
  The session's half of a new source frame (\<open>MiaOfflineSession::postProcess\<close>): a frame the
  pipeline no longer accepts is given back at once.
\<close>

definition offerImage :: "nat \<Rightarrow> MiaImage \<Rightarrow> u32 \<Rightarrow> Pipeline \<Rightarrow> Pipeline" where
  "offerImage i im sourcePort st =
     (case enqueueSourceImage i sourcePort (st\<lparr>pimages := (pimages st)(i := im)\<rparr>) of
        (ok, st') \<Rightarrow> (if ok then st' else
          let (n, im') = decreaseUseCount (pimages st' i)
          in if n = 0 then st'\<lparr>pimages := (pimages st')(i := fst (releaseExternalFrame im'))\<rparr>
             else st'\<lparr>pimages := (pimages st')(i := im')\<rparr>))"

text \<open>What the session and the nodes at work do, and the steps of the pipeline itself.\<close>

inductive node_work :: "mia_env \<Rightarrow> Pipeline \<Rightarrow> Pipeline \<Rightarrow> bool" for env where
  offer: "i \<notin># refs st \<Longrightarrow> mUseCount im = 1 \<Longrightarrow> imType im = MI_IMG_SOURCE \<Longrightarrow>
    node_work env st (offerImage i im p st)"
| wrapper: "node_work env st (st\<lparr>pwrappers := pwrappers st @ [w]\<rparr>)"
| inputs: "getInputImage env inst mk ims st = Inr (rc, ims', st') \<Longrightarrow> node_work env st st'"
| outputs: "fresh answers {#} st \<Longrightarrow> getOutputImage env inst mk inputs fmts answers st = Inr (rc, outs, st') \<Longrightarrow>
    node_work env st st'"
| plugin: "pluginReleaseUnneedBuffer inst pid k mode st = Inr (rc, st') \<Longrightarrow> node_work env st st'"
| inDone: "releaseInputAndTryNotifyNextNode inst st = Inr st' \<Longrightarrow> node_work env st st'"
| outDone: "releaseOutputAndTryNotifyNextNode inst st = Inr st' \<Longrightarrow> node_work env st st'"
| expedite: "pl_quickFinish True st = Inr st' \<Longrightarrow> node_work env st st'"

inductive pl_step :: "mia_env \<Rightarrow> Pipeline \<Rightarrow> Pipeline \<Rightarrow> bool" for env where
  work: "node_work env st st' \<Longrightarrow> pl_step env st st'"
| prepare: "mBuffers st = [] \<Longrightarrow> postProcTask rebuilt st = Inr (go, st') \<Longrightarrow> pl_step env st st'"
| dispatch: "dispatchNode found st = Some (n, found', st') \<Longrightarrow> pl_step env st st'"
| counted: "pl_step env st (countDispatched found st)"
| nodeDone: "notifyNextNode inst info abnormal frame_num st = Inr st' \<Longrightarrow> pl_step env st st'"
| finish: "retire st = Inr st' \<Longrightarrow> pl_step env st st'"

text \<open>A new pipeline, whose images are not in use yet.\<close>

definition fresh_pipeline :: "Pipeline \<Rightarrow> bool" where
  "fresh_pipeline st \<longleftrightarrow> (\<exists>fmts f ts ports ims ws. st = new_Pipeline fmts f ts ports ims ws \<and>
     (\<forall>i. mUseCount (ims i) = 0 \<and> (imType (ims i) = MI_IMG_INTERNAL \<longrightarrow> wrapped ws (ims i))))"

lemma new_sources:
  "sm_wf m \<Longrightarrow> qrefs m = {#} \<Longrightarrow> sm_wf (fold (\<lambda>p m. sm_insert p tsq_new m) ports m) \<and>
     qrefs (fold (\<lambda>p m. sm_insert p tsq_new m) ports m) = {#}"
proof (induction ports arbitrary: m)
  case (Cons p ports)
  have "qrefs (sm_insert p tsq_new m) = {#}"
  proof (cases "sm_find m p")
    case None
    then show ?thesis using sum_sm_new [OF None, of "\<lambda>e. mset (mQueue (snd e))" tsq_new] Cons.prems(2)
      by (simp add: sm_insert_def qrefs_def tsq_new_def)
  qed (simp add: sm_insert_def Cons.prems)
  then show ?case using Cons.IH [of "sm_insert p tsq_new m"] Cons.prems by (simp add: sm_wf_insert)
qed simp

lemma fresh_bal: "fresh_pipeline st \<Longrightarrow> bal {#} st"
  using new_sources [of "[] :: (u32, nat tsq) std_map"] by (auto simp: fresh_pipeline_def new_Pipeline_def bal_def store_ok_def images_ok_def
      refs_def qrefs_def)

lemma bal_offer:
  assumes "bal {#} st" and "i \<notin># refs st" and "mUseCount im = 1" and "imType im = MI_IMG_SOURCE"
  shows "bal {#} (offerImage i im p st)"
proof -
  let ?s = "st\<lparr>pimages := (pimages st)(i := im)\<rparr>"
  have "refs ?s = refs st" by (simp add: refs_def)
  then have b: "bal (add_mset i {#}) ?s" using assms
    by (auto simp: bal_def store_ok_def images_ok_def not_in_iff)
  obtain ok st' where e: "enqueueSourceImage i p ?s = (ok, st')" by (cases "enqueueSourceImage i p ?s")
  have b': "bal (if ok then {#} else add_mset i {#}) st'" by (rule bal_enqueueSourceImage [OF b e])
  show ?thesis
  proof (cases ok)
    case True
    then show ?thesis using e b' by (simp add: offerImage_def)
  next
    case False
    have t: "imType (pimages st' i) \<noteq> MI_IMG_INTERNAL"
      using e assms(4) by (auto simp: enqueueSourceImage_def split: prod.splits)
    have "same_flow (offerImage i im p st) (releaseBuffer i False st')"
      using False e t by (auto simp: offerImage_def releaseBuffer_def same_flow_def call_def Let_def decreaseUseCount_def
          split: prod.splits)
    then show ?thesis using bal_release [of i "{#}" st' False] b' False by (simp add: bal_same)
  qed
qed

lemma bal_postProcTask:
  assumes b: "bal M st" and m: "mBuffers st = []" and r: "postProcTask rebuilt st = Inr (go, st')"
  shows "bal M st'"
proof -
  have fin: "bal M s'" if "bal M s" "retire s = Inr s'" for s s' :: Pipeline
  proof -
    obtain u where u: "releaseUnusedBuffer s = Inr u" "bal M u" using releaseUnusedBuffer_total [OF \<open>bal M s\<close>] by blast
    then show ?thesis using \<open>retire s = _\<close> bal_same [OF same_flow_simps(1)] by (auto simp: retire_def)
  qed
  let ?s1 = "adoptLinks (snd rebuilt) st"
  have s1: "same_flow ?s1 st" by (simp add: adoptLinks_def same_flow_def)
  have b1: "bal M ?s1" using b bal_same [OF s1] by simp
  have i1: "idle ?s1" using m by (auto simp: idle_def q_at_Inr adoptLinks_def)
  let ?p = "fold prepareLink [0..<length (links (snd rebuilt))] ([], ?s1)"
  have b2: "bal M (snd ?p)" using prepareLinks_keeps [OF b1 i1] by blast
  have c: "retire s = Inr (call MoveToIdleQueue u)" if "releaseUnusedBuffer s = Inr u" for s u
    using that by (simp add: retire_def)
  show ?thesis
  proof (cases "mFlushStatus st = ForcedFlush \<or> \<not> fst rebuilt")
    case True
    then show ?thesis
    proof
      assume f: "mFlushStatus st = ForcedFlush"
      then obtain s where "retire st = Inr s" "st' = s" using r by (auto simp: postProcTask_def bindE_eq_Inr)
      then show ?thesis using fin [OF b] by simp
    next
      assume nr: "\<not> fst rebuilt"
      let ?c = "call (OnResultComing MIA_ABNORMAL_CALLBACK 0 (mTimestampUs ?s1)) ?s1"
      have bc: "bal M ?c" using b1 bal_same [OF same_flow_simps(1)] by simp
      show ?thesis
      proof (cases "mFlushStatus st = ForcedFlush")
        case True
        then obtain s where "retire st = Inr s" "st' = s" using r by (auto simp: postProcTask_def bindE_eq_Inr)
        then show ?thesis using fin [OF b] by simp
      next
        case False
        then obtain u where "releaseUnusedBuffer ?c = Inr u" "st' = call MoveToIdleQueue u"
          using r nr by (auto simp: postProcTask_def Let_def bindE_eq_Inr)
        then show ?thesis using fin [OF bc] c by blast
      qed
    qed
  next
    case False
    obtain sn s2 where p: "?p = (sn, s2)" by (cases ?p)
    then have "bal M s2" using b2 by simp
    then have "bal M (readyNodes sn s2)" by (simp add: readyNodes_def Let_def bal_def store_ok_def images_ok_def refs_def)
    then show ?thesis using r False p fin [OF \<open>bal M s2\<close>]
      by (auto simp: postProcTask_def Let_def bindE_eq_Inr split: if_splits)
  qed
qed

lemma node_work_bal: "node_work env st st' \<Longrightarrow> bal {#} st \<Longrightarrow> bal {#} st'"
proof (induction rule: node_work.induct)
  case (wrapper st w)
  then show ?case
    by (auto simp: bal_def store_ok_def images_ok_def refs_def wrapped_def)
qed (auto intro: bal_offer mv.getInputImage_keeps mv.getOutputImage_keeps mv.pluginRelease_keeps bal_expedite
      mv.keepsD [OF mv.releaseInputAndTryNotifyNextNode_keeps] mv.keepsD [OF mv.releaseOutputAndTryNotifyNextNode_keeps])

lemma pl_step_bal: "pl_step env st st' \<Longrightarrow> bal {#} st \<Longrightarrow> bal {#} st'"
proof (induction rule: pl_step.induct)
  case (dispatch found s n found' s')
  then have "same_flow s' s" by (auto simp: dispatchNode_def Let_def same_flow_def call_def split: list.splits)
  with dispatch show ?case by (simp add: bal_same)
next
  case (counted s found)
  then show ?case by (simp add: countDispatched_def bal_same [OF same_flow_simps(7)])
next
  case (finish s s')
  then obtain u where "releaseUnusedBuffer s = Inr u" "bal {#} u" using releaseUnusedBuffer_total by blast
  with finish show ?case by (auto simp: retire_def bal_same [OF same_flow_simps(1)])
qed (auto intro: node_work_bal bal_postProcTask mv.keepsD [OF mv.notifyNextNode_keeps])

interpretation flow: invariant_system fresh_pipeline "pl_step env" "bal {#}" for env
  by unfold_locales (auto intro: fresh_bal pl_step_bal)

end
