(* ===== verification/Dispatch.thy ===== *)
theory Dispatch
  imports PipelineFlow
begin

text \<open>
  The dispatching loop of \<open>postProcTask\<close>, interleaved with the nodes it has started.  What a
  history records beside the pipeline: the nodes dispatched so far, the nodes still at work,
  the nodes that have finished without error, and whether the loop is between handing a node
  over and counting it, where it does not hold the lock.
\<close>

record dispatch_state =
  pl :: Pipeline
  dispatched :: "string list"
  working :: "string multiset"
  finished :: "string set"
  pending :: "bool option"

subsection \<open>Frames\<close>

text \<open>The parts of the state that moving images leaves alone.\<close>

definition loop_frame :: "(string, int) std_map \<Rightarrow> string list \<Rightarrow> bool \<Rightarrow> int \<Rightarrow> nat multiset \<Rightarrow> Pipeline \<Rightarrow> bool" where
  "loop_frame d rs e k M st \<longleftrightarrow>
     mDependenceNum st = d \<and> mRunSequence st = rs \<and> mHasProcessError st = e \<and> mRunningNodeNum st = k"

definition static :: "PipelineInfo \<Rightarrow> (string \<Rightarrow> nat list) \<Rightarrow> nat multiset \<Rightarrow> Pipeline \<Rightarrow> bool" where
  "static pi ol M st \<longleftrightarrow> mPipelineInfo st = pi \<and> outLinks st = ol"

definition running_is :: "int \<Rightarrow> nat multiset \<Rightarrow> Pipeline \<Rightarrow> bool" where
  "running_is k M st \<longleftrightarrow> mRunningNodeNum st = k"

abbreviation anything :: "acquire_answers \<Rightarrow> nat multiset \<Rightarrow> Pipeline \<Rightarrow> bool" where
  "anything answers M st \<equiv> True"

lemma q_put_frame [simp]:
  "mDependenceNum (q_put n sel port q st) = mDependenceNum st" "mRunSequence (q_put n sel port q st) = mRunSequence st"
  "mHasProcessError (q_put n sel port q st) = mHasProcessError st" "mRunningNodeNum (q_put n sel port q st) = mRunningNodeNum st"
  "outLinks (q_put n sel port q st) = outLinks st"
  by (simp_all add: q_put_def Let_def outLinks_def fun_eq_iff)

lemma releaseBuffer_frame [simp]:
  "mDependenceNum (releaseBuffer i c st) = mDependenceNum st" "mRunSequence (releaseBuffer i c st) = mRunSequence st"
  "mHasProcessError (releaseBuffer i c st) = mHasProcessError st" "mRunningNodeNum (releaseBuffer i c st) = mRunningNodeNum st"
  "outLinks (releaseBuffer i c st) = outLinks st"
  by (simp_all add: releaseBuffer_def decreaseUseCount_def call_def Let_def outLinks_def fun_eq_iff split: prod.splits)

lemma outLinks_touch [simp]: "outLinks (touchOut n st) = outLinks st" "outLinks (touchIn n st) = outLinks st"
  by (auto simp: outLinks_def touchOut_def touchIn_def sm_index_def fun_eq_iff split: option.splits)

lemma outLinks_update [simp]:
  "outLinks (call c st) = outLinks st" "outLinks (useMore i st) = outLinks st"
  "outLinks (st\<lparr>mSinkNumToReturn := k\<rparr>) = outLinks st" "outLinks (st\<lparr>pimages := im\<rparr>) = outLinks st"
  "outLinks (st\<lparr>mDependenceNum := dn\<rparr>) = outLinks st" "outLinks (st\<lparr>mRunSequence := rs\<rparr>) = outLinks st"
  "outLinks (st\<lparr>mRunningNodeNum := rn\<rparr>) = outLinks st" "outLinks (st\<lparr>mCurrentProcessNodes := cn\<rparr>) = outLinks st"
  "outLinks (st\<lparr>mIsCallExternal := b\<rparr>) = outLinks st" "outLinks (st\<lparr>mSourceBufferQueueMap := sq\<rparr>) = outLinks st"
  "outLinks (st\<lparr>mHasProcessError := b\<rparr>) = outLinks st"
  by (simp_all add: outLinks_def call_def useMore_def fun_eq_iff)

text \<open>Every primitive move replaces one queue, one image or the list of calls.\<close>

lemma popQ_state: "popQ n sel port st = Inr (r, st') \<Longrightarrow> st' = st \<or> (\<exists>q. st' = q_put n sel port q st)"
  by (cases "q_at st n sel port") (auto simp: popQ_def tryPop_def split: list.splits)

lemma pushQ_state: "pushQ n sel port i st = Inr st' \<Longrightarrow> \<exists>q. st' = q_put n sel port q st"
  by (cases "q_at st n sel port") (auto simp: pushQ_def)

lemma getSourceImage_state:
  "getSourceImage p st = Inr (r, st') \<Longrightarrow> st' = st \<or> (\<exists>m. st' = st\<lparr>mSourceBufferQueueMap := m\<rparr>)"
  by (auto simp: getSourceImage_def bindE_eq_Inr split: option.splits)

lemma dependenceDone_state:
  "dependenceDone n st = Inr st' \<Longrightarrow> st' = st \<or> (\<exists>d. st' = st\<lparr>mDependenceNum := d\<rparr>) \<or>
   (\<exists>d rs. st' = st\<lparr>mDependenceNum := d, mRunSequence := rs\<rparr>)"
  by (auto simp: dependenceDone_def Let_def bindE_eq_Inr split: if_splits)

lemmas move_states = popQ_state pushQ_state getSourceImage_state dependenceDone_state

lemmas frame_defs = loop_frame_def running_is_def static_def call_def touchOut_def touchIn_def useMore_def

lemma frame_touch [simp]:
  "mPipelineInfo (touchOut n st) = mPipelineInfo st" "mPipelineInfo (touchIn n st) = mPipelineInfo st"
  "mPipelineInfo (call c st) = mPipelineInfo st" "mPipelineInfo (useMore i st) = mPipelineInfo st"
  by (simp_all add: touchOut_def touchIn_def call_def useMore_def)

interpretation lf: image_moves "loop_frame d rs e k" anything for d rs e k
  by unfold_locales (auto simp: frame_defs dest!: move_states)

interpretation rn: notify_moves "running_is k" anything for k
  by unfold_locales (auto simp: frame_defs dest!: move_states)

interpretation stat: finish_moves "static pi ol" anything for pi ol
  by unfold_locales (auto simp: static_def dest!: move_states)

subsection \<open>What the preparation leaves\<close>

definition internal_in :: "LinkItem list \<Rightarrow> string \<Rightarrow> nat list" where
  "internal_in ls n = filter (\<lambda>i. linkType (ls ! i) = InternalLink \<and> dstNodeInstance (ls ! i) = n) [0..<length ls]"

definition unprepared :: "Pipeline \<Rightarrow> bool" where
  "unprepared st \<longleftrightarrow> mDependenceNum st = [] \<and> mInputLinkMap st = [] \<and> mOutputLinkMap st = [] \<and>
     mRunSequence st = [] \<and> mRunningNodeNum st = 0"

text \<open>The maps after the first \<open>k\<close> links.\<close>

definition prepared_upto :: "LinkItem list \<Rightarrow> nat \<Rightarrow> string list \<times> Pipeline \<Rightarrow> bool" where
  "prepared_upto ls k acc \<longleftrightarrow>
     links (mPipelineInfo (snd acc)) = ls \<and> mRunSequence (snd acc) = [] \<and> mRunningNodeNum (snd acc) = 0 \<and>
     sm_wf (mDependenceNum (snd acc)) \<and>
     (\<forall>n. outLinks (snd acc) n = filter (\<lambda>i. linkType (ls ! i) \<noteq> SourceLink \<and> srcNodeInstance (ls ! i) = n) [0..<k]) \<and>
     (\<forall>n. sm_index [] (mInputLinkMap (snd acc)) n =
        filter (\<lambda>i. linkType (ls ! i) \<noteq> SinkLink \<and> dstNodeInstance (ls ! i) = n) [0..<k]) \<and>
     (\<forall>n. sm_find (mDependenceNum (snd acc)) n =
        (if \<not> contains n ''SinkBuffer'' \<and> (\<exists>i<k. dstNodeInstance (ls ! i) = n)
         then Some (int (length (filter (\<lambda>i. linkType (ls ! i) = InternalLink \<and> dstNodeInstance (ls ! i) = n) [0..<k])))
         else None)) \<and>
     (\<forall>n. n \<in> set (fst acc) \<longleftrightarrow> (\<exists>i<k. linkType (ls ! i) = SourceLink \<and> dstNodeInstance (ls ! i) = n))"

lemma q_clear_frame [simp]:
  "mDependenceNum (q_clear n sel p st) = mDependenceNum st" "mRunSequence (q_clear n sel p st) = mRunSequence st"
  "mRunningNodeNum (q_clear n sel p st) = mRunningNodeNum st" "mInputLinkMap (q_clear n sel p st) = mInputLinkMap st"
  "mOutputLinkMap (q_clear n sel p st) = mOutputLinkMap st" "nodes (mPipelineInfo (q_clear n sel p st)) = nodes (mPipelineInfo st)"
  by (simp_all add: q_clear_def)

lemma sm_index_push [simp]:
  "sm_index [] (sm_push k x m) k' = (if k' = k then sm_index [] m k @ [x] else sm_index [] m k')"
  by (simp add: sm_index_def)

lemma sm_index_insert [simp]: "sm_index d (sm_insert k d m) k' = sm_index d m k'"
  by (simp add: sm_index_def split: option.splits)

lemma prepareLink_exact:
  assumes "prepared_upto ls k acc"
  shows "prepared_upto ls (Suc k) (prepareLink k acc)"
proof -
  obtain sn st where acc: "acc = (sn, st)" by (cases acc)
  note p = assms [unfolded acc prepared_upto_def fst_conv snd_conv]
  show ?thesis
    unfolding acc prepareLink_def recordLink_def prepared_upto_def Let_def
    using p
    by (cases "linkType (ls ! k)") (auto simp: outLinks_def less_Suc_eq sm_wf_insert sm_wf_set sm_index_def)
qed

lemma prepareLinks_exact:
  assumes "prepared_upto ls 0 acc"
  shows "prepared_upto ls k (fold prepareLink [0..<k] acc)"
  by (induction k) (simp_all add: assms prepareLink_exact)

text \<open>Where the dispatching loop starts, when the preparation lets it.\<close>

lemma postProcTask_go:
  assumes "postProcTask rebuilt st = Inr (True, st')"
  obtains sn s2 where "fold prepareLink [0..<length (links (snd rebuilt))] ([], adoptLinks (snd rebuilt) st) = (sn, s2)"
    and "st' = readyNodes sn s2"
proof (cases "fold prepareLink [0..<length (links (snd rebuilt))] ([], adoptLinks (snd rebuilt) st)")
  case (Pair sn s2)
  then show ?thesis using assms that
    by (auto simp: postProcTask_def Let_def bindE_eq_Inr split: if_splits)
qed

lemma sm_find_filter:
  "sm_wf m \<Longrightarrow> sm_find (filter (\<lambda>(k, v). P v) m) k = (case sm_find m k of None \<Rightarrow> None | Some v \<Rightarrow> if P v then Some v else None)"
proof (induction m)
  case (Cons e m)
  obtain a v where e: "e = (a, v)" by (cases e)
  have "k = a \<Longrightarrow> sm_find m k = None" using Cons.prems e by (auto simp: sm_wf_Cons sm_find_None_iff)
  then show ?case using Cons e by (auto simp: sm_wf_Cons split: option.splits)
qed simp

lemma sm_wf_filter: "sm_wf m \<Longrightarrow> sm_wf (filter P m)"
  by (induction m) (auto simp: sm_wf_def)

definition started :: "LinkItem list \<Rightarrow> Pipeline \<Rightarrow> bool" where
  "started ls st \<longleftrightarrow>
     links (mPipelineInfo st) = ls \<and> mRunningNodeNum st = 0 \<and> distinct (mRunSequence st) \<and>
     (\<forall>n. outLinks st n = filter (\<lambda>i. linkType (ls ! i) \<noteq> SourceLink \<and> srcNodeInstance (ls ! i) = n) [0..<length ls]) \<and>
     (\<forall>n. sm_find (mDependenceNum st) n =
        (if \<not> contains n ''SinkBuffer'' \<and> internal_in ls n \<noteq> [] then Some (int (length (internal_in ls n))) else None)) \<and>
     (\<forall>n. n \<in> set (mRunSequence st) \<longleftrightarrow> \<not> contains n ''SinkBuffer'' \<and> internal_in ls n = [] \<and>
        (\<exists>l \<in> set ls. linkType l = SourceLink \<and> dstNodeInstance l = n))"

lemma started_counter:
  "started ls st \<Longrightarrow> sm_find (mDependenceNum st) n = Some d \<Longrightarrow> d = int (length (internal_in ls n)) \<and> d > 0"
  by (auto simp: started_def split: if_splits)

lemma postProcTask_started:
  assumes "unprepared st" and "postProcTask rebuilt st = Inr (True, st')"
  shows "started (links (snd rebuilt)) st'"
proof -
  let ?ls = "links (snd rebuilt)"
  obtain sn s2 where f: "fold prepareLink [0..<length ?ls] ([], adoptLinks (snd rebuilt) st) = (sn, s2)"
    and st': "st' = readyNodes sn s2" by (rule postProcTask_go [OF assms(2)])
  have "prepared_upto ?ls 0 ([], adoptLinks (snd rebuilt) st)"
    using assms(1) by (simp add: prepared_upto_def unprepared_def adoptLinks_def outLinks_def sm_index_def)
  from prepareLinks_exact [OF this, of "length ?ls"] f
  have "prepared_upto ?ls (length ?ls) (sn, s2)" by simp
  note p = this [unfolded prepared_upto_def fst_conv snd_conv, folded internal_in_def]
  have wf: "sm_wf (mDependenceNum s2)" using p by blast
  have d: "sm_find (mDependenceNum s2) n =
      (if \<not> contains n ''SinkBuffer'' \<and> (\<exists>i<length ?ls. dstNodeInstance (?ls ! i) = n)
       then Some (int (length (internal_in ?ls n))) else None)" for n using p by blast
  have zero: "n \<in> set (map fst (filter (\<lambda>(n, d). d = 0) (mDependenceNum s2))) \<longleftrightarrow>
      sm_find (mDependenceNum s2) n = Some 0" for n
    using sm.entries_lookup [OF wf, of n 0] by force
  have run: "mRunSequence st' = filter (\<lambda>n. n \<in> set sn) (map fst (filter (\<lambda>(n, d). d = 0) (mDependenceNum s2)))"
    using p by (simp add: st' readyNodes_def)
  have "distinct (mRunSequence st')"
    unfolding run using sm.distinct_keys [OF sm_wf_filter [OF wf]] by (rule distinct_filter)
  moreover have "n \<in> set (mRunSequence st') \<longleftrightarrow> \<not> contains n ''SinkBuffer'' \<and> internal_in ?ls n = [] \<and>
      (\<exists>l \<in> set ?ls. linkType l = SourceLink \<and> dstNodeInstance l = n)" for n
  proof -
    have "n \<in> set sn \<longleftrightarrow> (\<exists>l \<in> set ?ls. linkType l = SourceLink \<and> dstNodeInstance l = n)"
    proof -
      have "n \<in> set sn \<longleftrightarrow> (\<exists>i<length ?ls. linkType (?ls ! i) = SourceLink \<and> dstNodeInstance (?ls ! i) = n)"
        using p by blast
      then show ?thesis by (auto simp: set_conv_nth)
    qed
    then show ?thesis unfolding run set_filter using zero [of n] d [of n] by (auto simp: in_set_conv_nth)
  qed
  moreover have "sm_find (mDependenceNum st') n =
      (if \<not> contains n ''SinkBuffer'' \<and> internal_in ?ls n \<noteq> [] then Some (int (length (internal_in ?ls n))) else None)" for n
  proof -
    have "internal_in ?ls n \<noteq> [] \<Longrightarrow> \<exists>i<length ?ls. dstNodeInstance (?ls ! i) = n" by (auto simp: internal_in_def filter_empty_conv)
    then show ?thesis using d [of n] by (auto simp: st' readyNodes_def Let_def sm_find_filter [OF wf, of "\<lambda>d. d \<noteq> 0"])
  qed
  ultimately show ?thesis using p by (simp add: started_def st' readyNodes_def Let_def outLinks_def)
qed

subsection \<open>The loop and the nodes at work\<close>

inductive loop_step :: "mia_env \<Rightarrow> dispatch_state \<Rightarrow> dispatch_state \<Rightarrow> bool" for env where
  dispatch: "pending s = None \<Longrightarrow> dispatchNode found (pl s) = Some (n, found', st') \<Longrightarrow>
    loop_step env s (s\<lparr>pl := st', dispatched := dispatched s @ [n],
      working := (if found then add_mset n (working s) else working s), pending := Some found\<rparr>)"
| counted: "pending s = Some found \<Longrightarrow>
    loop_step env s (s\<lparr>pl := countDispatched found (pl s), pending := None\<rparr>)"
| work: "node_work env (pl s) st' \<Longrightarrow> loop_step env s (s\<lparr>pl := st'\<rparr>)"
| completes: "n \<in># working s \<Longrightarrow> notifyNextNode n ProcessOK 0 frame_num (pl s) = Inr st' \<Longrightarrow>
    loop_step env s (s\<lparr>pl := st', working := working s - {#n#}, finished := insert n (finished s)\<rparr>)"
| fails: "n \<in># working s \<Longrightarrow> info \<noteq> ProcessOK \<or> abnormal \<noteq> 0 \<Longrightarrow>
    notifyNextNode n info abnormal frame_num (pl s) = Inr st' \<Longrightarrow>
    loop_step env s (s\<lparr>pl := st', working := working s - {#n#}\<rparr>)"

definition loop_start :: "PipelineInfo \<Rightarrow> dispatch_state \<Rightarrow> bool" where
  "loop_start info s \<longleftrightarrow>
     (\<exists>st0 ok. unprepared st0 \<and> postProcTask (ok, info) st0 = Inr (True, pl s)) \<and>
     dispatched s = [] \<and> working s = {#} \<and> finished s = {} \<and> pending s = None"

definition unfed :: "LinkItem list \<Rightarrow> string set \<Rightarrow> string \<Rightarrow> nat list" where
  "unfed ls fin n = filter (\<lambda>i. srcNodeInstance (ls ! i) \<notin> fin) (internal_in ls n)"

definition counting :: "dispatch_state \<Rightarrow> bool" where
  "counting s \<longleftrightarrow> mRunningNodeNum (pl s) = int (size (working s)) - (if pending s = Some True then 1 else 0)"

text \<open>Every node is in the history at most once; its counter says whether it is.\<close>

definition once_at :: "string list \<Rightarrow> (string, int) std_map \<Rightarrow> string list \<Rightarrow> bool" where
  "once_at H dn rs \<longleftrightarrow> distinct (H @ rs) \<and>
     (\<forall>n d. sm_find dn n = Some d \<longrightarrow> (n \<in> set (H @ rs) \<longleftrightarrow> d \<le> 0))"

definition once :: "string list \<Rightarrow> nat multiset \<Rightarrow> Pipeline \<Rightarrow> bool" where
  "once H M st \<longleftrightarrow> once_at H (mDependenceNum st) (mRunSequence st)"

lemma once_at_step:
  assumes "once_at H dn rs" and "sm_find dn n = Some d"
  shows "once_at H (sm_set n (d - 1) dn) (if d - 1 = 0 then rs @ [n] else rs)"
proof -
  have "n \<in> set (H @ rs) \<longleftrightarrow> d \<le> 0" using assms unfolding once_at_def by blast
  then show ?thesis using assms(1) unfolding once_at_def by auto
qed

lemma dependenceDone_effect:
  assumes "dependenceDone n st = Inr st'"
  shows "mHasProcessError st \<and> st' = st \<or>
    \<not> mHasProcessError st \<and> (\<exists>d. sm_find (mDependenceNum st) n = Some d \<and>
      mDependenceNum st' = sm_set n (d - 1) (mDependenceNum st) \<and>
      mRunSequence st' = (if d - 1 = 0 then mRunSequence st @ [n] else mRunSequence st) \<and>
      mHasProcessError st' = mHasProcessError st \<and> mPipelineInfo st' = mPipelineInfo st)"
proof (cases "sm_find (mDependenceNum st) n")
  case None
  then show ?thesis using assms by (auto simp: dependenceDone_def sm_at_def split: if_splits)
next
  case (Some d)
  then show ?thesis using assms by (cases "d = 1") (auto simp: dependenceDone_def sm_at_def Let_def split: if_splits)
qed

lemma once_dep: "once H M st \<Longrightarrow> dependenceDone n st = Inr st' \<Longrightarrow> once H M st'"
proof -
  assume o: "once H M st" and "dependenceDone n st = Inr st'"
  from dependenceDone_effect [OF this(2)] show ?thesis
  proof
    assume "\<not> mHasProcessError st \<and> (\<exists>d. sm_find (mDependenceNum st) n = Some d \<and>
      mDependenceNum st' = sm_set n (d - 1) (mDependenceNum st) \<and>
      mRunSequence st' = (if d - 1 = 0 then mRunSequence st @ [n] else mRunSequence st) \<and>
      mHasProcessError st' = mHasProcessError st \<and> mPipelineInfo st' = mPipelineInfo st)"
    then show ?thesis using o once_at_step [of H "mDependenceNum st" "mRunSequence st" n] by (auto simp: once_def)
  qed (use o in simp)
qed

interpretation onc: finish_moves "once H" anything for H
proof unfold_locales
  fix M st n st' assume "once H M st" "dependenceDone n st = Inr st'"
  then show "once H M st'" by (rule once_dep)
qed (auto simp: once_def call_def touchOut_def touchIn_def useMore_def dest!: popQ_state pushQ_state getSourceImage_state)

lemma offer_frame:
  "mRunningNodeNum (offerImage i im p st) = mRunningNodeNum st"
  "mDependenceNum (offerImage i im p st) = mDependenceNum st"
  "mRunSequence (offerImage i im p st) = mRunSequence st"
  "mPipelineInfo (offerImage i im p st) = mPipelineInfo st"
  "outLinks (offerImage i im p st) = outLinks st"
  by (auto simp: offerImage_def enqueueSourceImage_def Let_def decreaseUseCount_def split: prod.splits)

lemma node_work_running: "node_work env st st' \<Longrightarrow> mRunningNodeNum st' = mRunningNodeNum st"
proof (induction rule: node_work.induct)
  case (inputs inst mk ims st rc ims' st')
  then show ?case using rn.getInputImage_keeps [of "mRunningNodeNum st" "{#}" st] by (auto simp: running_is_def)
next
  case (outputs answers st inst mk inputs fmts rc outs st')
  then show ?case using rn.getOutputImage_keeps [of "mRunningNodeNum st" "{#}" st] by (auto simp: running_is_def)
next
  case (plugin inst pid k mode st rc st')
  then show ?case using rn.pluginRelease_keeps [of "mRunningNodeNum st" "{#}" st] by (auto simp: running_is_def)
next
  case (inDone inst st st')
  then show ?case using rn.keepsD [OF rn.releaseInputAndTryNotifyNextNode_keeps, of "mRunningNodeNum st" "{#}" st]
    by (auto simp: running_is_def)
next
  case (outDone inst st st')
  then show ?case using rn.keepsD [OF rn.releaseOutputAndTryNotifyNextNode_keeps, of "mRunningNodeNum st" "{#}" st]
    by (auto simp: running_is_def)
qed (auto simp: offer_frame pl_quickFinish_def)

lemma node_work_once: "node_work env st st' \<Longrightarrow> once H M st \<Longrightarrow> once H M st'"
proof (induction rule: node_work.induct)
  case (offer i st im p)
  then show ?case by (simp add: once_def offer_frame)
next
  case (wrapper st w)
  then show ?case by (simp add: once_def)
next
  case (expedite st st')
  then show ?case by (auto simp: once_def pl_quickFinish_def)
qed (auto intro: onc.getInputImage_keeps onc.getOutputImage_keeps onc.pluginRelease_keeps
      onc.keepsD [OF onc.releaseInputAndTryNotifyNextNode_keeps] onc.keepsD [OF onc.releaseOutputAndTryNotifyNextNode_keeps])

lemma node_work_static: "node_work env st st' \<Longrightarrow> static pi ol M st \<Longrightarrow> static pi ol M st'"
proof (induction rule: node_work.induct)
  case (offer i st im p)
  then show ?case by (simp add: static_def offer_frame)
next
  case (wrapper st w)
  then show ?case by (auto simp: static_def outLinks_def fun_eq_iff)
next
  case (expedite st st')
  then show ?case by (auto simp: static_def pl_quickFinish_def outLinks_def fun_eq_iff)
qed (auto intro: stat.getInputImage_keeps stat.getOutputImage_keeps stat.pluginRelease_keeps
      stat.keepsD [OF stat.releaseInputAndTryNotifyNextNode_keeps] stat.keepsD [OF stat.releaseOutputAndTryNotifyNextNode_keeps])

text \<open>\<open>notifyNextNode\<close> takes back one running node, whatever the outcome.\<close>

lemma notify_running:
  assumes "notifyNextNode inst info abnormal frame_num st = Inr st'"
  shows "mRunningNodeNum st' = mRunningNodeNum st - 1"
proof -
  define st0 where "st0 = touchOut inst (st\<lparr>mCurrentProcessNodes := remove1 inst (mCurrentProcessNodes st)\<rparr>)"
  have r0: "running_is (mRunningNodeNum st) {#} st0" by (simp add: running_is_def st0_def touchOut_def)
  show ?thesis
  proof (cases "info \<noteq> ProcessOK \<or> abnormal \<noteq> 0")
    case True
    define st1 where "st1 = (if \<not> mIsCallExternal st0
       then call (OnResultComing MIA_ABNORMAL_CALLBACK (word_of_int frame_num) (mTimestampUs st0)) (st0\<lparr>mIsCallExternal := True\<rparr>)
       else st0)"
    have r1: "running_is (mRunningNodeNum st) {#} st1" using r0 by (simp add: running_is_def st1_def call_def)
    obtain s where s: "releaseSinkLinks (outLinks st inst) st1 = Inr s"
      "st' = s\<lparr>mHasProcessError := True, mRunningNodeNum := mRunningNodeNum s - 1\<rparr>"
      using assms True unfolding notifyNextNode_def Let_def st0_def [symmetric] st1_def [symmetric] by (auto simp: bindE_eq_Inr)
    then show ?thesis using rn.keepsD [OF rn.releaseSinkLinks_keeps r1 s(1)] by (simp add: running_is_def)
  next
    case False
    then obtain s1 s where s: "releaseInputBuffers inst False st0 = Inr s1" "handOver (outLinks st inst) s1 = Inr s"
      "st' = s\<lparr>mRunningNodeNum := mRunningNodeNum s - 1\<rparr>"
      using assms unfolding notifyNextNode_def Let_def st0_def [symmetric] by (auto simp: bindE_eq_Inr)
    then show ?thesis
      using rn.keepsD [OF rn.handOver_keeps rn.keepsD [OF rn.releaseInputBuffers_keeps r0 s(1)] s(2)]
      by (simp add: running_is_def)
  qed
qed

lemma loop_step_counting: "loop_step env s s' \<Longrightarrow> counting s \<Longrightarrow> counting s'"
proof (induction rule: loop_step.induct)
  case (dispatch s found n found' st')
  then have "mRunningNodeNum st' = mRunningNodeNum (pl s)"
    by (auto simp: dispatchNode_def Let_def call_def split: list.splits)
  then show ?case using dispatch by (auto simp: counting_def)
next
  case (counted s found)
  then show ?case by (auto simp: counting_def countDispatched_def)
next
  case (work s st')
  then show ?case using node_work_running [of env "pl s" st'] by (simp add: counting_def)
next
  case (completes n s frame_num st')
  then show ?case using notify_running [OF completes(2)] by (auto simp: counting_def size_Diff_singleton dest: multi_member_split)
next
  case (fails n s info abnormal frame_num st')
  then show ?case using notify_running [OF fails(3)] by (auto simp: counting_def size_Diff_singleton dest: multi_member_split)
qed

subsection \<open>Producers finish first\<close>

text \<open>
  \<open>holds_back info f H R\<close>: the counter of every node that is not frame by frame is at least
  \<open>f\<close>, and a node without a counter is scheduled only if it is in \<open>R\<close>.
\<close>

definition by_frame :: "PipelineInfo \<Rightarrow> string \<Rightarrow> bool" where
  "by_frame info n \<longleftrightarrow> (case sm_find (nodes info) n of None \<Rightarrow> False | Some item \<Rightarrow> has_mode (nodeMask item) SIGFRAME_MODE)"

definition back_at ::
  "(string \<Rightarrow> bool) \<Rightarrow> (string \<Rightarrow> int) \<Rightarrow> string list \<Rightarrow> string set \<Rightarrow> (string, int) std_map \<Rightarrow> string list \<Rightarrow> bool" where
  "back_at sg f H R dn rs \<longleftrightarrow>
     (\<forall>n d. \<not> sg n \<longrightarrow> sm_find dn n = Some d \<longrightarrow> f n \<le> d) \<and>
     (\<forall>n. sm_find dn n = None \<longrightarrow> n \<in> set (H @ rs) \<longrightarrow> n \<in> R)"

definition holds_back ::
  "PipelineInfo \<Rightarrow> (string \<Rightarrow> int) \<Rightarrow> string list \<Rightarrow> string set \<Rightarrow> nat multiset \<Rightarrow> Pipeline \<Rightarrow> bool" where
  "holds_back info f H R M st \<longleftrightarrow>
     mPipelineInfo st = info \<and> back_at (by_frame info) f H R (mDependenceNum st) (mRunSequence st)"

lemma back_at_step:
  assumes "back_at sg f H R dn rs" and "sm_find dn n = Some d"
  shows "back_at sg (f(n := f n - 1)) H R (sm_set n (d - 1) dn) (if d - 1 = 0 then rs @ [n] else rs)"
  using assms unfolding back_at_def by auto

lemma back_at_sig:
  assumes "back_at sg f H R dn rs" and "sm_find dn n = Some d" and "sg n"
  shows "back_at sg f H R (sm_set n (d - 1) dn) (if d - 1 = 0 then rs @ [n] else rs)"
  using assms unfolding back_at_def by auto

lemma back_at_mono: "back_at sg f H R dn rs \<Longrightarrow> (\<And>n. g n \<le> f n) \<Longrightarrow> back_at sg g H R dn rs"
  unfolding back_at_def by (meson order_trans)

lemma holds_back_dep:
  assumes "holds_back info f H R M st" and "dependenceDone n st = Inr st'"
  shows "holds_back info (f(n := f n - 1)) H R M st'"
  using dependenceDone_effect [OF assms(2)]
proof
  assume "mHasProcessError st \<and> st' = st"
  then show ?thesis using assms(1) back_at_mono [of "by_frame info" f H R _ _ "f(n := f n - 1)"]
    by (simp add: holds_back_def)
next
  assume "\<not> mHasProcessError st \<and> (\<exists>d. sm_find (mDependenceNum st) n = Some d \<and>
    mDependenceNum st' = sm_set n (d - 1) (mDependenceNum st) \<and>
    mRunSequence st' = (if d - 1 = 0 then mRunSequence st @ [n] else mRunSequence st) \<and>
    mHasProcessError st' = mHasProcessError st \<and> mPipelineInfo st' = mPipelineInfo st)"
  then show ?thesis using assms(1) back_at_step [of "by_frame info" f H R "mDependenceNum st" "mRunSequence st" n]
    by (auto simp: holds_back_def)
qed

lemma holds_back_sigdep:
  assumes "holds_back info f H R M st" and "nodeMaskAt st n = Inr cm" and "has_mode cm SIGFRAME_MODE"
    and "dependenceDone n st = Inr st'"
  shows "holds_back info f H R M st'"
  using dependenceDone_effect [OF assms(4)]
proof
  assume "\<not> mHasProcessError st \<and> (\<exists>d. sm_find (mDependenceNum st) n = Some d \<and>
    mDependenceNum st' = sm_set n (d - 1) (mDependenceNum st) \<and>
    mRunSequence st' = (if d - 1 = 0 then mRunSequence st @ [n] else mRunSequence st) \<and>
    mHasProcessError st' = mHasProcessError st \<and> mPipelineInfo st' = mPipelineInfo st)"
  moreover have "by_frame info n"
    using assms(1-3) by (auto simp: by_frame_def holds_back_def nodeMaskAt_def bindE_eq_Inr sm_at_Inr)
  ultimately show ?thesis using assms(1) back_at_sig [of "by_frame info" f H R "mDependenceNum st" "mRunSequence st" n]
    by (auto simp: holds_back_def)
qed (use assms(1) in simp)

interpretation hb: frame_moves "holds_back info f H R" anything for info f H R
proof unfold_locales
  fix M st n cm st'
  assume "holds_back info f H R M st" "nodeMaskAt st n = Inr cm" "has_mode cm SIGFRAME_MODE" "dependenceDone n st = Inr st'"
  then show "holds_back info f H R M st'" by (rule holds_back_sigdep)
qed (auto simp: holds_back_def call_def touchOut_def touchIn_def useMore_def dest!: popQ_state pushQ_state getSourceImage_state)

lemma node_work_holds: "node_work env st st' \<Longrightarrow> holds_back info f H R M st \<Longrightarrow> holds_back info f H R M st'"
proof (induction rule: node_work.induct)
  case (offer i st im p)
  then show ?case by (simp add: holds_back_def offer_frame)
next
  case (wrapper st w)
  then show ?case by (simp add: holds_back_def)
next
  case (expedite st st')
  then show ?case by (auto simp: holds_back_def pl_quickFinish_def)
qed (auto intro: hb.getInputImage_keeps hb.getOutputImage_keeps hb.pluginRelease_keeps
      hb.keepsD [OF hb.releaseInputAndTryNotifyNextNode_keeps] hb.keepsD [OF hb.releaseOutputAndTryNotifyNextNode_keeps])

text \<open>The links of a finished node that feed \<open>n\<close>.\<close>

definition feeds :: "PipelineInfo \<Rightarrow> nat list \<Rightarrow> string \<Rightarrow> int" where
  "feeds info ls n = int (length (filter (\<lambda>i. linkType (links info ! i) \<noteq> SinkLink \<and> dstNodeInstance (links info ! i) = n) ls))"

lemma handOver_holds:
  "holds_back info f H R M st \<Longrightarrow> handOver ls st = Inr st' \<Longrightarrow> holds_back info (\<lambda>n. f n - feeds info ls n) H R M st'"
proof (induction ls arbitrary: st f)
  case (Cons l ls)
  obtain link where l: "plink st l = Inr link" using Cons.prems(2) by (cases "plink st l") auto
  have lk: "link = links info ! l" using l Cons.prems(1) by (auto simp: plink_def holds_back_def vec_get_def split: if_splits)
  show ?case
  proof (cases "linkType link = SinkLink")
    case True
    then obtain s where s: "releaseOutBuffers l SinkLink False st = Inr s" "handOver ls s = Inr st'"
      using Cons.prems(2) l by (auto simp: bindE_eq_Inr)
    have "holds_back info f H R M s" by (rule hb.keepsD [OF hb.releaseOutBuffers_keeps Cons.prems(1) s(1)])
    from Cons.IH [OF this s(2)] show ?thesis using True lk by (simp add: feeds_def)
  next
    case False
    then obtain s1 s where s: "releaseOutBuffers l InternalLink False st = Inr s1"
      "dependenceDone (dstNodeInstance link) s1 = Inr s" "handOver ls s = Inr st'"
      using Cons.prems(2) l by (auto simp: bindE_eq_Inr)
    let ?n = "dstNodeInstance link"
    have "holds_back info f H R M s1" by (rule hb.keepsD [OF hb.releaseOutBuffers_keeps Cons.prems(1) s(1)])
    then have "holds_back info (f(?n := f ?n - 1)) H R M s" by (rule holds_back_dep [OF _ s(2)])
    note h = Cons.IH [OF this s(3)]
    have "(\<lambda>n. (f(?n := f ?n - 1)) n - feeds info ls n) = (\<lambda>n. f n - feeds info (l # ls) n)"
      using False lk by (auto simp: feeds_def fun_eq_iff)
    then show ?thesis using h by simp
  qed
qed (simp add: feeds_def)

lemma notify_holds:
  assumes "holds_back info f H R M st" and "notifyNextNode inst ProcessOK 0 frame_num st = Inr st'"
  shows "holds_back info (\<lambda>n. f n - feeds info (outLinks st inst) n) H R M st'"
proof -
  define st0 where "st0 = touchOut inst (st\<lparr>mCurrentProcessNodes := remove1 inst (mCurrentProcessNodes st)\<rparr>)"
  have h0: "holds_back info f H R M st0" using assms(1) by (simp add: holds_back_def st0_def touchOut_def)
  obtain s1 s where s: "releaseInputBuffers inst False st0 = Inr s1" "handOver (outLinks st inst) s1 = Inr s"
    "st' = s\<lparr>mRunningNodeNum := mRunningNodeNum s - 1\<rparr>"
    using assms(2) unfolding notifyNextNode_def Let_def st0_def [symmetric] by (auto simp: bindE_eq_Inr)
  from handOver_holds [OF hb.keepsD [OF hb.releaseInputBuffers_keeps h0 s(1)] s(2)] show ?thesis
    using s(3) by (simp add: holds_back_def)
qed

lemma notify_holds_failed:
  assumes "holds_back info f H R M st" and "notifyNextNode inst pinfo abnormal frame_num st = Inr st'"
    and "pinfo \<noteq> ProcessOK \<or> abnormal \<noteq> 0"
  shows "holds_back info f H R M st'"
proof -
  define st0 where "st0 = touchOut inst (st\<lparr>mCurrentProcessNodes := remove1 inst (mCurrentProcessNodes st)\<rparr>)"
  define st1 where "st1 = (if \<not> mIsCallExternal st0
     then call (OnResultComing MIA_ABNORMAL_CALLBACK (word_of_int frame_num) (mTimestampUs st0)) (st0\<lparr>mIsCallExternal := True\<rparr>)
     else st0)"
  have h1: "holds_back info f H R M st1" using assms(1) by (simp add: holds_back_def st1_def st0_def touchOut_def call_def)
  obtain s where s: "releaseSinkLinks (outLinks st inst) st1 = Inr s"
    "st' = s\<lparr>mHasProcessError := True, mRunningNodeNum := mRunningNodeNum s - 1\<rparr>"
    using assms(2,3) unfolding notifyNextNode_def Let_def st0_def [symmetric] st1_def [symmetric] by (auto simp: bindE_eq_Inr)
  then show ?thesis using hb.keepsD [OF hb.releaseSinkLinks_keeps h1 s(1)] by (simp add: holds_back_def)
qed

definition out_of :: "LinkItem list \<Rightarrow> string \<Rightarrow> nat list" where
  "out_of ls n = filter (\<lambda>i. linkType (ls ! i) \<noteq> SourceLink \<and> srcNodeInstance (ls ! i) = n) [0..<length ls]"

lemma unfed_insert:
  assumes "m \<notin> fin"
  shows "int (length (unfed (links info) fin n)) - feeds info (out_of (links info) m) n =
    int (length (unfed (links info) (insert m fin) n))"
proof -
  let ?ls = "links info"
  let ?P = "\<lambda>i. linkType (?ls ! i) = InternalLink \<and> dstNodeInstance (?ls ! i) = n \<and> srcNodeInstance (?ls ! i) \<notin> fin"
  have "length (filter ?P xs) =
      length (filter (\<lambda>i. ?P i \<and> srcNodeInstance (?ls ! i) \<noteq> m) xs) +
      length (filter (\<lambda>i. linkType (?ls ! i) \<noteq> SinkLink \<and> dstNodeInstance (?ls ! i) = n \<and>
        linkType (?ls ! i) \<noteq> SourceLink \<and> srcNodeInstance (?ls ! i) = m) xs)" for xs
  proof (induction xs)
    case (Cons x xs)
    then show ?case using assms by (cases "linkType (?ls ! x)") auto
  qed simp
  from this [of "[0..<length ?ls]"] show ?thesis
    by (simp add: unfed_def internal_in_def feeds_def out_of_def conj_ac)
qed

text \<open>The invariant of the history.\<close>

definition history :: "PipelineInfo \<Rightarrow> dispatch_state \<Rightarrow> bool" where
  "history info s \<longleftrightarrow>
     counting s \<and> once (dispatched s) {#} (pl s) \<and>
     static info (out_of (links info)) {#} (pl s) \<and>
     holds_back info (\<lambda>n. int (length (unfed (links info) (finished s) n))) (dispatched s)
       {n. internal_in (links info) n = []} {#} (pl s) \<and>
     working s \<subseteq># mset (dispatched s) \<and> finished s \<subseteq> set (dispatched s) \<and>
     (\<forall>n. n \<in># working s \<longrightarrow> n \<notin> finished s)"

lemma loop_start_history: "loop_start info s \<Longrightarrow> history info s"
proof -
  assume a: "loop_start info s"
  then obtain st0 ok where p: "unprepared st0" "postProcTask (ok, info) st0 = Inr (True, pl s)"
    by (auto simp: loop_start_def)
  from postProcTask_started [OF this] have st: "started (links info) (pl s)" by simp
  obtain sn s2 where f: "fold prepareLink [0..<length (links info)] ([], adoptLinks info st0) = (sn, s2)"
    and r: "pl s = readyNodes sn s2" using postProcTask_go [OF p(2)] by auto
  have "mPipelineInfo (snd (fold prepareLink xs acc)) = mPipelineInfo (snd acc)" for xs acc
  proof (induction xs arbitrary: acc)
    case (Cons x xs)
    have "mPipelineInfo (snd (prepareLink x acc)) = mPipelineInfo (snd acc)"
      by (cases acc) (simp add: prepareLink_def recordLink_def Let_def split: prod.splits LinkType.splits)
    then show ?case using Cons by simp
  qed simp
  from this [of "[0..<length (links info)]" "([], adoptLinks info st0)"] f r
  have i: "mPipelineInfo (pl s) = info" by (simp add: adoptLinks_def readyNodes_def Let_def)
  have "n \<notin> set (mRunSequence (pl s)) \<and> \<not> d \<le> 0" if "sm_find (mDependenceNum (pl s)) n = Some d" for n d
  proof -
    have "d = int (length (internal_in (links info) n)) \<and> d > 0" by (rule started_counter [OF st that])
    moreover from this have "internal_in (links info) n \<noteq> []" by auto
    ultimately show ?thesis using st unfolding started_def by auto
  qed
  moreover have "dispatched s = []" "distinct (mRunSequence (pl s))" using a st by (simp_all add: loop_start_def started_def)
  ultimately have "once (dispatched s) {#} (pl s)" unfolding once_def once_at_def by auto
  moreover have "holds_back info (\<lambda>n. int (length (unfed (links info) (finished s) n))) (dispatched s)
      {n. internal_in (links info) n = []} {#} (pl s)"
    using started_counter [OF st] st a i by (auto simp: holds_back_def back_at_def started_def loop_start_def unfed_def split: if_splits)
  moreover have "static info (out_of (links info)) {#} (pl s)"
    using st i by (simp add: static_def started_def out_of_def fun_eq_iff)
  ultimately show ?thesis using st a by (simp add: history_def counting_def started_def loop_start_def)
qed

lemma loop_step_history: "loop_step env s s' \<Longrightarrow> history info s \<Longrightarrow> history info s'"
proof (cases rule: loop_step.cases)
  assume "loop_step env s s'" then show "loop_step env s s'" .
next
  assume step: "loop_step env s s'" and h: "history info s"
  have c: "counting s'" using loop_step_counting [OF step] h by (simp add: history_def)
  {
    fix found n found' st'
    assume d: "dispatchNode found (pl s) = Some (n, found', st')"
      and s': "s' = s\<lparr>pl := st', dispatched := dispatched s @ [n],
        working := (if found then add_mset n (working s) else working s), pending := Some found\<rparr>"
    obtain ns where ns: "mRunSequence (pl s) = n # ns" and st': "mRunSequence st' = ns" "mDependenceNum st' = mDependenceNum (pl s)"
      "mPipelineInfo st' = mPipelineInfo (pl s)" "outLinks st' = outLinks (pl s)"
      using d by (cases "mRunSequence (pl s)") (auto simp: dispatchNode_def Let_def call_def outLinks_def fun_eq_iff)
    have "n \<notin> set (dispatched s)" using h ns by (auto simp: history_def once_def once_at_def)
    then have "n \<notin># working s" "n \<notin> finished s" using h by (auto simp: history_def dest: mset_subset_eqD)
    moreover have "working s \<subseteq># add_mset n (mset (dispatched s))"
      using h subset_mset.order_trans [of "working s" "mset (dispatched s)" "add_mset n (mset (dispatched s))"]
      by (simp add: history_def)
    ultimately show "history info s'" using h c ns st' s'
      by (auto simp: history_def once_def once_at_def static_def holds_back_def back_at_def)
  next
    fix found
    assume "s' = s\<lparr>pl := countDispatched found (pl s), pending := None\<rparr>"
    then show "history info s'" using h c
      by (auto simp: history_def countDispatched_def once_def static_def holds_back_def)
  next
    fix st' assume w: "node_work env (pl s) st'" and s': "s' = s\<lparr>pl := st'\<rparr>"
    show "history info s'" using h c node_work_once [OF w] node_work_static [OF w] node_work_holds [OF w]
      by (simp add: history_def s')
  next
    fix n frame_num st'
    assume n: "n \<in># working s" and r: "notifyNextNode n ProcessOK 0 frame_num (pl s) = Inr st'"
      and s': "s' = s\<lparr>pl := st', working := working s - {#n#}, finished := insert n (finished s)\<rparr>"
    have nf: "n \<notin> finished s" and nd: "n \<in> set (dispatched s)" and ol: "outLinks (pl s) n = out_of (links info) n"
      using h n by (auto simp: history_def static_def dest: mset_subset_eqD)
    have "distinct (dispatched s)" using h by (simp add: history_def once_def once_at_def)
    then have "count (working s) n \<le> 1" using h mset_subset_eq_count [of "working s" "mset (dispatched s)" n]
      by (simp add: history_def distinct_count_atmost_1 split: if_splits)
    then have "n \<notin># working s - {#n#}" by (simp add: not_in_iff)
    moreover have "holds_back info (\<lambda>m. int (length (unfed (links info) (insert n (finished s)) m))) (dispatched s)
        {n. internal_in (links info) n = []} {#} st'"
    proof -
      have "holds_back info (\<lambda>n. int (length (unfed (links info) (finished s) n))) (dispatched s)
        {n. internal_in (links info) n = []} {#} (pl s)" using h unfolding history_def by blast
      from notify_holds [OF this r] show ?thesis by (simp add: ol unfed_insert [OF nf])
    qed
    ultimately show "history info s'" using h c nd onc.keepsD [OF onc.notifyNextNode_keeps _ r] stat.keepsD [OF stat.notifyNextNode_keeps _ r]
      by (auto simp: history_def s' dest: in_diffD intro: subset_mset.order_trans [OF diff_subset_eq_self])
  next
    fix n pinfo abnormal frame_num st'
    assume r: "notifyNextNode n pinfo abnormal frame_num (pl s) = Inr st'" and f: "pinfo \<noteq> ProcessOK \<or> abnormal \<noteq> 0"
      and s': "s' = s\<lparr>pl := st', working := working s - {#n#}\<rparr>"
    show "history info s'" using h c notify_holds_failed [OF _ r f] onc.keepsD [OF onc.notifyNextNode_keeps _ r]
        stat.keepsD [OF stat.notifyNextNode_keeps _ r]
      by (auto simp: history_def s' dest: in_diffD intro: subset_mset.order_trans [OF diff_subset_eq_self])
  }
qed

interpretation hist: invariant_system "loop_start info" "loop_step env" "history info" for info env
  by unfold_locales (auto intro: loop_start_history loop_step_history)

lemma history_parents:
  assumes "history info s" and "n \<in> set (dispatched s)" and "\<not> by_frame info n"
    and "l \<in> set (links info)" and "linkType l = InternalLink" and "dstNodeInstance l = n"
  shows "srcNodeInstance l \<in> finished s"
proof -
  obtain i where i: "i < length (links info)" "links info ! i = l" using assms(4) by (auto simp: in_set_conv_nth)
  then have ii: "i \<in> set (internal_in (links info) n)" using assms(5,6) by (simp add: internal_in_def)
  have "unfed (links info) (finished s) n = []"
  proof (cases "sm_find (mDependenceNum (pl s)) n")
    case None
    then show ?thesis using assms(1,2) ii by (auto simp: history_def holds_back_def back_at_def)
  next
    case (Some d)
    have "d \<le> 0" using assms(1,2) Some by (auto simp: history_def once_def once_at_def)
    moreover have "int (length (unfed (links info) (finished s) n)) \<le> d"
      using assms(1,3) Some by (auto simp: history_def holds_back_def back_at_def)
    ultimately have "length (unfed (links info) (finished s) n) = 0" by linarith
    then show ?thesis by simp
  qed
  then show ?thesis using ii i(2) by (auto simp: unfed_def filter_empty_conv)
qed

end
