(* ===== verification/PipelineCorrect.thy ===== *)
theory PipelineCorrect
  imports Dispatch Samples
begin

text \<open>What the running pipeline guarantees, and the inputs on which it does not do what it means to.\<close>

subsection \<open>A run of two nodes\<close>

definition run_info :: PipelineInfo where
  "run_info =
     \<lparr>pipelineName = ''Run'',
      nodes = [(''A'', mk_node ''a'' ''A'' 0), (''B'', mk_node ''b'' ''B'' 0)],
      links = [mk_link ''SourceBuffer0'' 0 ''A'' 0,
               (mk_link ''A'' 0 ''B'' 0)\<lparr>linkType := InternalLink\<rparr>,
               (mk_link ''B'' 0 ''SinkBuffer0'' 0)\<lparr>linkType := SinkLink\<rparr>]\<rparr>"

definition quiet_image :: MiaImage where
  "quiet_image = (blankImage MI_IMG_SOURCE nv12_64 0)\<lparr>mUseCount := 0\<rparr>"

definition run_new :: Pipeline where
  "run_new = new_Pipeline [nv12_64] 35 7 [0] (\<lambda>_. quiet_image) []"

definition run0 :: Pipeline where "run0 = snd (projr (postProcTask (True, run_info) run_new))"
definition run1 :: Pipeline where "run1 = countDispatched True (snd (snd (the (dispatchNode True run0))))"
definition run2 :: Pipeline where "run2 = projr (notifyNextNode ''A'' ProcessOK 0 1 run1)"
definition run3 :: Pipeline where "run3 = countDispatched True (snd (snd (the (dispatchNode True run2))))"
definition run4 :: Pipeline where "run4 = projr (notifyNextNode ''B'' ProcessOK 0 1 run3)"

lemma run0: "postProcTask (True, run_info) run_new = Inr (True, run0)"
proof -
  have "case postProcTask (True, run_info) run_new of Inr (go, _) \<Rightarrow> go | Inl _ \<Rightarrow> False" by code_simp
  then show ?thesis unfolding run0_def by (auto split: sum.splits prod.splits)
qed

lemma run1: "dispatchNode True run0 = Some (''A'', True, snd (snd (the (dispatchNode True run0))))"
proof -
  have "case dispatchNode True run0 of Some (n, f, _) \<Rightarrow> n = ''A'' \<and> f | None \<Rightarrow> False" by code_simp
  then show ?thesis by (auto split: option.splits prod.splits)
qed

lemma run2: "notifyNextNode ''A'' ProcessOK 0 1 run1 = Inr run2"
proof -
  have "is_ok (notifyNextNode ''A'' ProcessOK 0 1 run1)" by code_simp
  then show ?thesis by (auto simp: run2_def is_ok_iff)
qed

lemma run3: "dispatchNode True run2 = Some (''B'', True, snd (snd (the (dispatchNode True run2))))"
proof -
  have "case dispatchNode True run2 of Some (n, f, _) \<Rightarrow> n = ''B'' \<and> f | None \<Rightarrow> False" by code_simp
  then show ?thesis by (auto split: option.splits prod.splits)
qed

lemma run4: "notifyNextNode ''B'' ProcessOK 0 1 run3 = Inr run4"
proof -
  have "is_ok (notifyNextNode ''B'' ProcessOK 0 1 run3)" by code_simp
  then show ?thesis by (auto simp: run4_def is_ok_iff)
qed

definition run_start :: dispatch_state where
  "run_start = \<lparr>pl = run0, dispatched = [], working = {#}, finished = {}, pending = None\<rparr>"

definition run_mid :: dispatch_state where
  "run_mid = \<lparr>pl = run3, dispatched = [''A'', ''B''], working = {#''B''#}, finished = {''A''}, pending = None\<rparr>"

definition run_end :: dispatch_state where
  "run_end = \<lparr>pl = run4, dispatched = [''A'', ''B''], working = {#}, finished = {''A'', ''B''}, pending = None\<rparr>"

lemma run_start_ok: "loop_start run_info run_start"
proof -
  have "unprepared run_new" by (simp add: unprepared_def run_new_def new_Pipeline_def)
  then show ?thesis using run0 by (auto simp: loop_start_def run_start_def)
qed

lemma run_steps_mid: "(loop_step qcom_env)\<^sup>*\<^sup>* run_start run_mid"
proof -
  let ?d1 = "\<lparr>pl = snd (snd (the (dispatchNode True run0))), dispatched = [''A''], working = {#''A''#}, finished = {}, pending = Some True\<rparr>"
  let ?c1 = "\<lparr>pl = run1, dispatched = [''A''], working = {#''A''#}, finished = {}, pending = None\<rparr>"
  let ?f1 = "\<lparr>pl = run2, dispatched = [''A''], working = {#}, finished = {''A''}, pending = None\<rparr>"
  let ?d2 = "\<lparr>pl = snd (snd (the (dispatchNode True run2))), dispatched = [''A'', ''B''], working = {#''B''#}, finished = {''A''}, pending = Some True\<rparr>"
  have 1: "loop_step qcom_env run_start ?d1"
    using loop_step.dispatch [of run_start True] run1 by (simp add: run_start_def)
  have 2: "loop_step qcom_env ?d1 ?c1"
    using loop_step.counted [of ?d1 True] by (simp add: run1_def)
  have 3: "loop_step qcom_env ?c1 ?f1"
    using loop_step.completes [of "''A''" ?c1] run2 by simp
  have 4: "loop_step qcom_env ?f1 ?d2"
    using loop_step.dispatch [of ?f1 True] run3 by simp
  have 5: "loop_step qcom_env ?d2 run_mid"
    using loop_step.counted [of ?d2 True] by (simp add: run_mid_def run3_def)
  show ?thesis using 1 2 3 4 5 by (meson rtranclp.rtrancl_into_rtrancl rtranclp.rtrancl_refl)
qed

lemma run_steps_end: "(loop_step qcom_env)\<^sup>*\<^sup>* run_start run_end"
proof -
  have "loop_step qcom_env run_mid run_end"
    using loop_step.completes [of "''B''" run_mid] run4 by (simp add: run_mid_def run_end_def insert_commute)
  then show ?thesis using run_steps_mid by simp
qed

lemma run_new_fresh: "fresh_pipeline run_new"
  unfolding fresh_pipeline_def run_new_def
  by (intro exI conjI) (auto simp: quiet_image_def blankImage_def)

definition frame_image :: MiaImage where
  "frame_image = (blankImage MI_IMG_SOURCE nv12_64 0)\<lparr>mUseCount := 1, mState := MI_IMG_STATE_INITIALED\<rparr>"

definition run_offered :: Pipeline where
  "run_offered = offerImage 5 frame_image 0 run_new"

lemma run_offered_step: "(pl_step qcom_env)\<^sup>*\<^sup>* run_new run_offered"
proof -
  have "refs run_new = {#}"
    by (simp add: refs_def run_new_def new_Pipeline_def qrefs_def sm_insert_def tsq_new_def)
  then have "node_work qcom_env run_new run_offered" unfolding run_offered_def
    by (intro node_work.offer) (simp_all add: frame_image_def blankImage_def)
  then show ?thesis by (auto intro: pl_step.work)
qed

lemma run_offered_refs: "refs run_offered = {#5#}"
  by (simp add: refs_def run_offered_def run_new_def new_Pipeline_def qrefs_def sm_insert_def tsq_new_def
      offerImage_def enqueueSourceImage_def sm_index_def tsq_push_def)

subsection \<open>Properties\<close>

text \<open>C5: in every interleaving of the session, the nodes and the dispatching loop that does not force a
  flush, the use count of every image is the number of references to it in the queues of the
  pipeline: no reference is lost, and no use is given back twice.\<close>

theorem uses_are_references:
  assumes "fresh_pipeline st0" and "(pl_step env)\<^sup>*\<^sup>* st0 st"
  shows "mUseCount (pimages st i) = of_nat (count (refs st) i)"
  using flow.reachable_inv [OF assms] by (simp add: bal_def)

theorem uses_are_references_witness:
  "mUseCount (pimages run_offered 5) = of_nat (count (refs run_offered) 5) \<and> count (refs run_offered) 5 = 1"
  using uses_are_references [OF run_new_fresh run_offered_step, of 5] by (simp add: run_offered_refs)

text \<open>C16: In every state that a run without a forced flush has reached, with fewer than \<open>2 ^ 32\<close> references to each
  image, \<open>releaseUnusedBuffer\<close> returns, and then every queue is empty, no image is in use, and every image of the application
  that was still referenced has been given back to it.  (After a forced flush this need not be so: \<open>forced_flush_leaks\<close>.)\<close>

theorem retire_leaves_nothing:
  assumes "fresh_pipeline st0" and "(pl_step env)\<^sup>*\<^sup>* st0 st" and "\<forall>i. count (refs st) i < 2 ^ 32"
  shows "\<exists>st'. releaseUnusedBuffer st = Inr st' \<and> refs st' = {#} \<and> (\<forall>i. mUseCount (pimages st' i) = 0) \<and>
    (\<forall>i. i \<in># refs st \<and> imType (pimages st' i) \<noteq> MI_IMG_INTERNAL \<longrightarrow>
       mState (pimages st' i) = MI_IMG_STATE_RELEASED)"
proof -
  have b: "bal {#} st" by (rule flow.reachable_inv [OF assms(1,2)])
  have "mUseCount (pimages st i) \<noteq> 0" if "i \<in># refs st" for i
  proof -
    have "unat (of_nat (count (refs st) i) :: u32) = count (refs st) i"
      using assms(3) [rule_format, of i] by (simp add: unsigned_of_nat take_bit_nat_eq_self)
    moreover have "0 < count (refs st) i" using that by (simp only: count_greater_zero_iff)
    moreover have "mUseCount (pimages st i) = of_nat (count (refs st) i)" using b by (simp add: bal_def)
    ultimately show ?thesis by (metis less_numeral_extra(3) unat_0)
  qed
  then have "ended (set_mset (refs st)) st" by (simp add: ended_def)
  then obtain st' where s: "releaseUnusedBuffer st = Inr st'" "bal {#} st'" "refs st' = {#}" "ended (set_mset (refs st)) st'"
    using releaseUnusedBuffer_total [OF b, of "set_mset (refs st)"] by blast
  have z: "\<forall>i. mUseCount (pimages st' i) = 0" using s(2,3) by (simp add: bal_def)
  then have "\<forall>i. i \<in># refs st \<and> imType (pimages st' i) \<noteq> MI_IMG_INTERNAL \<longrightarrow> mState (pimages st' i) = MI_IMG_STATE_RELEASED"
    using s(4) by (simp add: ended_def)
  with s z show ?thesis by blast
qed

theorem retire_leaves_nothing_witness:
  "\<exists>st'. releaseUnusedBuffer run_offered = Inr st' \<and> refs st' = {#} \<and> (\<forall>i. mUseCount (pimages st' i) = 0) \<and>
    (\<forall>i. i \<in># refs run_offered \<and> imType (pimages st' i) \<noteq> MI_IMG_INTERNAL \<longrightarrow>
       mState (pimages st' i) = MI_IMG_STATE_RELEASED)"
  by (rule retire_leaves_nothing [OF run_new_fresh run_offered_step]) (simp add: run_offered_refs)

text \<open>C17: the dispatching loop leaves only when no node it has started is still at work, however the
  nodes finish and however their notifications interleave with the loop's own counting.\<close>

theorem loop_ends_idle:
  assumes "loop_start info s0" and "(loop_step env)\<^sup>*\<^sup>* s0 s" and "pending s = None" and "loopDone (pl s)"
  shows "working s = {#}"
proof -
  have "counting s" using hist.reachable_inv [OF assms(1,2)] by (simp add: history_def)
  then show ?thesis using assms(3,4) by (simp add: counting_def loopDone_def)
qed

theorem loop_ends_idle_witness: "loopDone (pl run_end) \<and> working run_end = {#}"
proof -
  have d: "loopDone run4" by code_simp
  then show ?thesis using loop_ends_idle [OF run_start_ok run_steps_end] by (simp add: run_end_def)
qed

text \<open>C7: no node is dispatched twice for one request, and none waits twice in the run sequence, also
  when it is notified by several producers or frame by frame.\<close>

theorem dispatched_once:
  assumes "loop_start info s0" and "(loop_step env)\<^sup>*\<^sup>* s0 s"
  shows "distinct (dispatched s @ mRunSequence (pl s))"
  using hist.reachable_inv [OF assms] by (simp add: history_def once_def once_at_def)

theorem dispatched_once_witness:
  "distinct (dispatched run_end @ mRunSequence (pl run_end)) \<and> dispatched run_end = [''A'', ''B'']"
  using dispatched_once [OF run_start_ok run_steps_end] by (simp add: run_end_def)

text \<open>C6: a node that does not work frame by frame is dispatched only after every node with an internal
  link to it has finished without error.\<close>

theorem producers_finish_first:
  assumes "loop_start info s0" and "(loop_step env)\<^sup>*\<^sup>* s0 s" and "n \<in> set (dispatched s)"
    and "\<not> by_frame info n" and "l \<in> set (links info)" and "linkType l = InternalLink" and "dstNodeInstance l = n"
  shows "srcNodeInstance l \<in> finished s"
  using history_parents [OF hist.reachable_inv [OF assms(1,2)] assms(3-7)] .

theorem producers_finish_first_witness: "''B'' \<in> set (dispatched run_mid) \<and> ''A'' \<in> finished run_mid"
proof -
  have "\<not> by_frame run_info ''B''" by code_simp
  moreover have "(mk_link ''A'' 0 ''B'' 0)\<lparr>linkType := InternalLink\<rparr> \<in> set (links run_info)" by (simp add: run_info_def)
  ultimately show ?thesis
    using producers_finish_first [OF run_start_ok run_steps_mid, of "''B''" "(mk_link ''A'' 0 ''B'' 0)\<lparr>linkType := InternalLink\<rparr>"]
    by (simp add: run_mid_def mk_link_def)
qed

text \<open>C22: When the preparation lets a pipeline start, the run sequence holds exactly the nodes that are
  fed by a source and by no other node, each once; exactly the nodes that other nodes feed have a counter, the
  number of internal links into them; and the output links of a node are its internal and sink
  links in the order of the description.\<close>

theorem preparation_exact:
  assumes "unprepared st" and "postProcTask (ok, info) st = Inr (True, st')"
  shows "distinct (mRunSequence st') \<and>
    (\<forall>n. n \<in> set (mRunSequence st') \<longleftrightarrow> \<not> contains n ''SinkBuffer'' \<and> internal_in (links info) n = [] \<and>
       (\<exists>l \<in> set (links info). linkType l = SourceLink \<and> dstNodeInstance l = n)) \<and>
    (\<forall>n. sm_find (mDependenceNum st') n =
       (if \<not> contains n ''SinkBuffer'' \<and> internal_in (links info) n \<noteq> [] then Some (int (length (internal_in (links info) n))) else None)) \<and>
    (\<forall>n. outLinks st' n = out_of (links info) n)"
  using postProcTask_started [OF assms] by (simp add: started_def out_of_def)

theorem preparation_exact_witness:
  "distinct (mRunSequence run0) \<and> ''A'' \<in> set (mRunSequence run0) \<and> outLinks run0 ''A'' = out_of (links run_info) ''A'' \<and>
   sm_find (mDependenceNum run0) ''A'' = None \<and> sm_find (mDependenceNum run0) ''B'' = Some 1"
proof -
  have u: "unprepared run_new" by (simp add: unprepared_def run_new_def new_Pipeline_def)
  have "\<not> contains ''A'' ''SinkBuffer'' \<and> internal_in (links run_info) ''A'' = [] \<and>
    list_ex (\<lambda>l. linkType l = SourceLink \<and> dstNodeInstance l = ''A'') (links run_info)"
    and "\<not> contains ''B'' ''SinkBuffer'' \<and> length (internal_in (links run_info) ''B'') = 1" by code_simp+
  then show ?thesis using preparation_exact [OF u run0] by (auto simp: list_ex_iff)
qed

subsection \<open>Where the code does not do what it means to\<close>

text \<open>A frame-by-frame consumer at work, whose producer still holds one image.\<close>

definition flush_info :: PipelineInfo where
  "flush_info = run_info\<lparr>nodes := [(''A'', mk_node ''a'' ''A'' SIGFRAME_MODE), (''B'', mk_node ''b'' ''B'' SIGFRAME_MODE)]\<rparr>"

definition flush_state :: Pipeline where
  "flush_state =
     (let st = snd (projr (postProcTask (True, flush_info)
                 (new_Pipeline [nv12_64] 35 7 [0] (\<lambda>_. quiet_image) [nv12_64])))
      in (q_put ''A'' OutQ 0 \<lparr>mQueue = [5], mRelease = False\<rparr> st)
           \<lparr>pimages := (\<lambda>_. quiet_image)(5 := quiet_image\<lparr>imType := MI_IMG_INTERNAL, mUseCount := 1\<rparr>),
            mCurrentProcessNodes := [''A'', ''B'']\<rparr>)"

text \<open>A forced flush closes the input queue of a node at work; an image its producer hands over
  afterwards is refused by the queue, and the answer of \<open>push\<close> is not looked at: after the
  pipeline has retired, the image still counts one use and never goes back to its pool.\<close>

theorem forced_flush_leaks:
  "mUseCount (pimages flush_state 5) = 1 \<and>
   (case bindE (pl_flush True flush_state) (\<lambda>a. bindE (releaseOutBuffers 1 InternalLink True a) releaseUnusedBuffer) of
      Inl _ \<Rightarrow> False
    | Inr st \<Rightarrow> mUseCount (pimages st 5) = 1 \<and> pcalls st = [NodeQuickFinish ''A'', NodeQuickFinish ''B''] \<and>
        list_all (\<lambda>(n, bs). list_all (\<lambda>(p, q). mQueue q = []) (inputBuffers bs @ outputBuffers bs @ usingInputBuffers bs))
          (mBuffers st))"
  by code_simp

definition follow_info :: PipelineInfo where
  "follow_info = run_info\<lparr>nodes := [(''A'', (mk_node ''a'' ''A'' 0)\<lparr>outputType := FollowInput\<rparr>), (''B'', mk_node ''b'' ''B'' 0)],
     links := [mk_link ''SourceBuffer0'' 0 ''A'' 1,
               (mk_link ''A'' 0 ''B'' 0)\<lparr>linkType := InternalLink\<rparr>]\<rparr>"

text \<open>The number of output buffers of a node that follows its input is stored under the number of its
  input port: a node whose input port 1 feeds its output port 0 gets none, and \<open>getOutputImage\<close>
  reports success.\<close>

theorem follow_input_port_mixup:
  "(case postProcTask (True, follow_info) run_new of
      Inr (True, st) \<Rightarrow>
        (case getOutputImage qcom_env ''A'' 0 [(1, [5])] [(1, nv12_64)] [Some (6, frame_image)]
                (st\<lparr>pimages := (\<lambda>_. quiet_image)(5 := frame_image\<lparr>mInputNumber := 2\<rparr>)\<rparr>) of
           Inr (rc, outs, st') \<Rightarrow> rc = MIAS_OK \<and> outs = [] \<and> pcalls st' = pcalls st
         | Inl _ \<Rightarrow> False)
    | _ \<Rightarrow> False)"
  by code_simp

definition virtual_info :: PipelineInfo where
  "virtual_info = run_info\<lparr>nodes := [(''V'', mk_node ''v'' ''V'' VIRTUAL_MODE),
       (''newMemcpyInstance'', mk_node ''com.xiaomi.plugin.memcpy'' ''newMemcpyInstance'' 0)],
     links := [mk_link ''SourceBuffer0'' 0 ''V'' 0,
               (mk_link ''V'' 0 ''SinkBuffer0'' 0)\<lparr>linkType := SinkLink\<rparr>]\<rparr>"

text \<open>The copy node the pruner inserts between a virtual node and a sink gets its input link with the
  type of the link it replaces, a sink link: the running pipeline gives the copy node no input
  link and never schedules it, so nothing is delivered to that sink.\<close>

theorem bridged_copy_never_runs:
  "(case addBridges virtual_info of
      Inr info \<Rightarrow>
        map (\<lambda>l. (srcNodeInstance l, dstNodeInstance l, linkType l)) (links info) =
          [(''SourceBuffer0'', ''V'', SourceLink), (''V'', ''newMemcpyInstance'', SinkLink),
           (''newMemcpyInstance'', ''SinkBuffer0'', SinkLink)] \<and>
        (case bindE (postProcTask (True, info) run_new) (\<lambda>(go, st).
                notifyNextNode ''V'' ProcessOK 0 1 (snd (snd (the (dispatchNode True st))))) of
           Inr st \<Rightarrow> mRunSequence st = [] \<and> sm_find (mDependenceNum st) ''newMemcpyInstance'' = None \<and>
             sm_find (mInputLinkMap st) ''newMemcpyInstance'' = None
         | Inl _ \<Rightarrow> False)
    | Inl _ \<Rightarrow> False)"
  by code_simp

end
