(* ===== verification/JsonConfig.thy ===== *)
theory JsonConfig
  imports PipelineTypes
begin

text \<open>
  Reading the description of a pipeline (\<^verbatim>\<open>mivifwk/mialgoengine/MiaJsonUtils.cpp\<close>).  The text of
  a document is turned into a value by the vendored rapidjson parser, which is a parameter of
  the engine; a parsed value is the datatype \<open>json\<close> below, whose access functions stop with
  \<open>AssertFail\<close> where the assertions of \<^verbatim>\<open>rapidjson/Document.h\<close> do.  The theory shows that reading
  inverts writing, and that whatever is read is a description the pruner can work on.
\<close>

subsection \<open>Values\<close>

datatype json =
    JNull
  | JBool bool
  | JNum int
  | JReal
  | JStr string
  | JArr "json list"
  | JObj "(string \<times> json) list"

fun is_obj :: "json \<Rightarrow> bool" where "is_obj (JObj _) = True" | "is_obj _ = False"
fun is_arr :: "json \<Rightarrow> bool" where "is_arr (JArr _) = True" | "is_arr _ = False"
fun is_str :: "json \<Rightarrow> bool" where "is_str (JStr _) = True" | "is_str _ = False"
fun is_bool :: "json \<Rightarrow> bool" where "is_bool (JBool _) = True" | "is_bool _ = False"

definition in_i32 :: "int \<Rightarrow> bool" where
  "in_i32 n \<longleftrightarrow> - (2 ^ 31) \<le> n \<and> n < 2 ^ 31"

fun is_int :: "json \<Rightarrow> bool" where "is_int (JNum n) = in_i32 n" | "is_int _ = False"

definition find_member :: "string \<Rightarrow> (string \<times> json) list \<Rightarrow> json option" where
  "find_member k ms = map_of ms k"

fun has_member :: "string \<Rightarrow> json \<Rightarrow> bool outcome" where
  "has_member k (JObj ms) = Inr (find_member k ms \<noteq> None)"
| "has_member k _ = Inl AssertFail"

fun member_at :: "string \<Rightarrow> json \<Rightarrow> json outcome" where
  "member_at k (JObj ms) = (case find_member k ms of None \<Rightarrow> Inl AssertFail | Some v \<Rightarrow> Inr v)"
| "member_at k _ = Inl AssertFail"

fun elements :: "json \<Rightarrow> json list outcome" where
  "elements (JArr vs) = Inr vs"
| "elements _ = Inl AssertFail"

fun get_int :: "json \<Rightarrow> int outcome" where
  "get_int (JNum n) = (if in_i32 n then Inr n else Inl AssertFail)"
| "get_int _ = Inl AssertFail"

fun get_bool :: "json \<Rightarrow> bool outcome" where
  "get_bool (JBool b) = Inr b"
| "get_bool _ = Inl AssertFail"

text \<open>\<open>GetString\<close> yields a C string: a \<open>std::string\<close> made of it ends at the first zero byte.\<close>

definition c_string :: "string \<Rightarrow> string" where
  "c_string s = takeWhile (\<lambda>c. c \<noteq> CHR 0x00) s"

fun get_string :: "json \<Rightarrow> string outcome" where
  "get_string (JStr s) = Inr (c_string s)"
| "get_string _ = Inl AssertFail"

text \<open>\<open>v.HasMember(k) && v[k].Is...()\<close>, and the member when it holds.\<close>

definition checked_member :: "(json \<Rightarrow> bool) \<Rightarrow> string \<Rightarrow> json \<Rightarrow> json option outcome" where
  "checked_member is k v =
     bindE (has_member k v) (\<lambda>h.
       if h then bindE (member_at k v) (\<lambda>x. Inr (if is x then Some x else None)) else Inr None)"

fun foldE :: "('a \<Rightarrow> 's \<Rightarrow> 's outcome) \<Rightarrow> 'a list \<Rightarrow> 's \<Rightarrow> 's outcome" where
  "foldE f [] s = Inr s"
| "foldE f (x # xs) s = bindE (f x s) (foldE f xs)"

subsection \<open>The file\<close>

text \<open>
  \<open>None\<close>: the file cannot be opened.  The bytes go through a zero-terminated buffer, so the
  result ends at the first zero byte.
\<close>

definition readFile :: "bool \<Rightarrow> string option \<Rightarrow> string" where
  "readFile ftellOk contents =
     (case contents of None \<Rightarrow> [] | Some bytes \<Rightarrow> if ftellOk then c_string bytes else [])"

subsection \<open>The description\<close>

definition NodeFormat :: "(string \<times> u32) list" where
  "NodeFormat =
     [(''YUV420_NV21'', CAM_FORMAT_YUV_420_NV21), (''RAW16'', CAM_FORMAT_RAW16), (''BLOB'', CAM_FORMAT_BLOB),
      (''IMPLEMENTATION_DEFINED'', CAM_FORMAT_IMPLEMENTATION_DEFINED),
      (''YUV420_NV12'', CAM_FORMAT_YUV_420_NV12), (''RAW_OPAQUE'', CAM_FORMAT_RAW_OPAQUE),
      (''RAW10'', CAM_FORMAT_RAW10), (''RAW12'', CAM_FORMAT_RAW12), (''Y16'', CAM_FORMAT_Y16),
      (''YV12'', CAM_FORMAT_YV12), (''P010'', CAM_FORMAT_P010), (''UNDEFINED'', CAM_FORMAT_UNDEFINED)]"

definition format_at :: "string \<Rightarrow> u32 outcome" where
  "format_at s = (case map_of NodeFormat s of None \<Rightarrow> Inl OutOfRange | Some f \<Rightarrow> Inr f)"

definition cast_OutputType :: "int \<Rightarrow> OutputType" where
  "cast_OutputType n =
     (if n = 0 then OneBuffer else if n = 1 then FollowInput else if n = 2 then Custom else OtherOutput n)"

text \<open>One entry of \<open>NodeProperty\<close>.\<close>

definition parseProperty :: "json \<Rightarrow> NodeItem \<Rightarrow> NodeItem outcome" where
  "parseProperty v node =
     bindE (checked_member is_str ''NodePropertyName'' v) (\<lambda>n.
     bindE (case n of None \<Rightarrow> Inr [] | Some x \<Rightarrow> get_string x) (\<lambda>nodePropertyName.
     bindE (checked_member is_int ''NodePropertyValue'' v) (\<lambda>w.
     bindE (case w of None \<Rightarrow> Inr 0 | Some x \<Rightarrow> get_int x) (\<lambda>nodePropertyValue.
       Inr (if nodePropertyName = ''NodeMask'' then node\<lparr>nodeMask := word_of_int nodePropertyValue\<rparr>
            else if nodePropertyName = ''OutputType'' then node\<lparr>outputType := cast_OutputType nodePropertyValue\<rparr>
            else node)))))"

definition newNode :: NodeItem where
  "newNode = \<lparr>nodeName = [], nodeInstance = [], nodeMask = 0, outputBufferNeedCheck = True, isEnable = True,
     outputType = OneBuffer\<rparr>"

text \<open>A field that is read when the member is there and has the right type.\<close>

definition optionalField ::
  "(json \<Rightarrow> bool) \<Rightarrow> (json \<Rightarrow> 'a outcome) \<Rightarrow> string \<Rightarrow> ('a \<Rightarrow> NodeItem \<Rightarrow> NodeItem) \<Rightarrow> json \<Rightarrow> NodeItem \<Rightarrow> NodeItem outcome" where
  "optionalField is get k upd v node =
     bindE (checked_member is k v) (\<lambda>a.
       case a of None \<Rightarrow> Inr node | Some x \<Rightarrow> bindE (get x) (\<lambda>y. Inr (upd y node)))"

definition parseNode :: "json \<Rightarrow> NodeItem outcome" where
  "parseNode v =
     bindE (optionalField is_str get_string ''NodeName'' (\<lambda>s n. n\<lparr>nodeName := s\<rparr>) v newNode) (\<lambda>node1.
     bindE (optionalField is_str get_string ''NodeInstance'' (\<lambda>s n. n\<lparr>nodeInstance := s\<rparr>) v node1) (\<lambda>node2.
     bindE (optionalField is_bool get_bool ''OutputBufferNeedCheck'' (\<lambda>t n. n\<lparr>outputBufferNeedCheck := t\<rparr>) v node2) (\<lambda>node3.
     bindE (member_at ''NodeProperty'' v) (\<lambda>ps.
     bindE (elements ps) (\<lambda>props. foldE parseProperty props node3)))))"

definition storeNode :: "json \<Rightarrow> PipelineInfo \<Rightarrow> PipelineInfo outcome" where
  "storeNode v p = bindE (parseNode v) (\<lambda>n. Inr (p\<lparr>nodes := sm_set (nodeInstance n) n (nodes p)\<rparr>))"

definition parseFormats :: "json list \<Rightarrow> u32 list outcome" where
  "parseFormats vs = foldE (\<lambda>v fs. bindE (get_string v) (\<lambda>s. bindE (format_at s) (\<lambda>f. Inr (fs @ [f])))) vs []"

definition parseDstFormats :: "json \<Rightarrow> u32 list outcome" where
  "parseDstFormats dst =
     bindE (checked_member is_str ''PortFormat'' dst) (\<lambda>df.
       case df of
         Some x \<Rightarrow> bindE (bindE (get_string x) format_at) (\<lambda>f. Inr [f])
       | None \<Rightarrow>
           bindE (checked_member is_arr ''PortFormats'' dst) (\<lambda>dfs.
             case dfs of
               Some x \<Rightarrow> bindE (elements x) parseFormats
             | None \<Rightarrow> Inr [CAM_FORMAT_UNDEFINED]))"

definition parseSrcFormat :: "json \<Rightarrow> u32 outcome" where
  "parseSrcFormat src =
     bindE (checked_member is_str ''PortFormat'' src) (\<lambda>sf.
       case sf of None \<Rightarrow> Inr CAM_FORMAT_UNDEFINED | Some x \<Rightarrow> bindE (get_string x) format_at)"

text \<open>The type of a link is not initialised here: \<open>ty\<close> is whatever the memory held.\<close>

definition parseLink :: "LinkType \<Rightarrow> json \<Rightarrow> LinkItem outcome" where
  "parseLink ty v =
     bindE (member_at ''SrcPort'' v) (\<lambda>src.
     bindE (bindE (member_at ''PortId'' src) get_int) (\<lambda>srcId.
     bindE (bindE (member_at ''NodeInstance'' src) get_string) (\<lambda>srcInst.
     bindE (parseSrcFormat src) (\<lambda>srcFormat.
     bindE (member_at ''DstPort'' v) (\<lambda>dst.
     bindE (bindE (member_at ''PortId'' dst) get_int) (\<lambda>dstId.
     bindE (bindE (member_at ''NodeInstance'' dst) get_string) (\<lambda>dstInst.
     bindE (parseDstFormats dst) (\<lambda>dstFormats.
       Inr \<lparr>srcNodePortId = srcId, srcNodeInstance = srcInst, srcPortFormat = srcFormat, dstNodePortId = dstId,
            dstNodeInstance = dstInst, dstPortFormat = dstFormats, linkType = ty\<rparr>))))))))"

definition storeLink :: "LinkType \<Rightarrow> json \<Rightarrow> PipelineInfo \<Rightarrow> PipelineInfo outcome" where
  "storeLink ty v p = bindE (parseLink ty v) (\<lambda>l. Inr (p\<lparr>links := links p @ [l]\<rparr>))"

text \<open>
  A section of the document: the object under \<open>k1\<close>, when there is one, must have a non-null
  member \<open>k2\<close>, whose elements are stored one by one.  The boolean says whether reading goes on.
\<close>

definition parseSection ::
  "string \<Rightarrow> string \<Rightarrow> (json \<Rightarrow> PipelineInfo \<Rightarrow> PipelineInfo outcome) \<Rightarrow> json \<Rightarrow> PipelineInfo \<Rightarrow> (bool \<times> PipelineInfo) outcome" where
  "parseSection k1 k2 store doc p =
     bindE (checked_member is_obj k1 doc) (\<lambda>sec.
       case sec of
         None \<Rightarrow> Inr (True, p)
       | Some o1 \<Rightarrow>
           bindE (member_at k2 o1) (\<lambda>v.
             if v = JNull then Inr (False, p)
             else bindE (elements v) (\<lambda>vs. bindE (foldE store vs p) (\<lambda>p'. Inr (True, p')))))"

definition parseJson2Struct :: "LinkType \<Rightarrow> json option \<Rightarrow> PipelineInfo \<Rightarrow> (int \<times> PipelineInfo) outcome" where
  "parseJson2Struct ty parsed p =
     (case parsed of
        None \<Rightarrow> Inr (- 1, p)
      | Some doc \<Rightarrow>
          if \<not> is_obj doc then Inr (- 1, p)
          else
            bindE (has_member ''PipelineName'' doc) (\<lambda>h.
              if \<not> h then Inr (- 1, p)
              else
                bindE (bindE (member_at ''PipelineName'' doc) get_string) (\<lambda>name.
                bindE (parseSection ''NodesList'' ''Node'' storeNode doc (p\<lparr>pipelineName := name\<rparr>)) (\<lambda>(go, p1).
                  if \<not> go then Inr (- 1, p1)
                  else
                    bindE (parseSection ''PortLinkages'' ''Link'' (storeLink ty) doc p1) (\<lambda>(go', p2).
                      Inr (if go' then 0 else - 1, p2))))))"


subsection \<open>Writing a description\<close>

definition format_name :: "u32 \<Rightarrow> string" where
  "format_name f = (case map_of (map (\<lambda>(s, g). (g, s)) NodeFormat) f of None \<Rightarrow> [] | Some s \<Rightarrow> s)"

fun type_number :: "OutputType \<Rightarrow> int" where
  "type_number OneBuffer = 0"
| "type_number FollowInput = 1"
| "type_number Custom = 2"
| "type_number (OtherOutput n) = n"

definition print_property :: "string \<Rightarrow> int \<Rightarrow> json" where
  "print_property k n = JObj [(''NodePropertyName'', JStr k), (''NodePropertyValue'', JNum n)]"

definition print_node :: "NodeItem \<Rightarrow> json" where
  "print_node n = JObj
     [(''NodeName'', JStr (nodeName n)), (''NodeInstance'', JStr (nodeInstance n)),
      (''OutputBufferNeedCheck'', JBool (outputBufferNeedCheck n)),
      (''NodeProperty'', JArr [print_property ''NodeMask'' (sint (nodeMask n)),
                              print_property ''OutputType'' (type_number (outputType n))])]"

definition print_formats :: "u32 list \<Rightarrow> string \<times> json" where
  "print_formats fs =
     (case fs of [f] \<Rightarrow> (''PortFormat'', JStr (format_name f))
               | _ \<Rightarrow> (''PortFormats'', JArr (map (\<lambda>f. JStr (format_name f)) fs)))"

definition print_link :: "LinkItem \<Rightarrow> json" where
  "print_link l = JObj
     [(''SrcPort'', JObj [(''PortId'', JNum (srcNodePortId l)), (''NodeInstance'', JStr (srcNodeInstance l)),
                         (''PortFormat'', JStr (format_name (srcPortFormat l)))]),
      (''DstPort'', JObj [(''PortId'', JNum (dstNodePortId l)), (''NodeInstance'', JStr (dstNodeInstance l)),
                         print_formats (dstPortFormat l)])]"

definition print_pipeline :: "PipelineInfo \<Rightarrow> json" where
  "print_pipeline p = JObj
     [(''PipelineName'', JStr (pipelineName p)),
      (''NodesList'', JObj [(''Node'', JArr (map (\<lambda>(k, n). print_node n) (nodes p)))]),
      (''PortLinkages'', JObj [(''Link'', JArr (map print_link (links p)))])]"

text \<open>
  What a description in memory satisfies: names are C strings, numbers fit an \<open>int\<close>, formats
  are the ones the engine knows, every node is enabled and stored under its own instance name.
\<close>

definition clean :: "string \<Rightarrow> bool" where
  "clean s \<longleftrightarrow> CHR 0x00 \<notin> set s"

definition known_format :: "u32 \<Rightarrow> bool" where
  "known_format f \<longleftrightarrow> f \<in> snd ` set NodeFormat"

definition node_ok :: "NodeItem \<Rightarrow> bool" where
  "node_ok n \<longleftrightarrow> clean (nodeName n) \<and> clean (nodeInstance n) \<and> isEnable n \<and>
     in_i32 (type_number (outputType n)) \<and> cast_OutputType (type_number (outputType n)) = outputType n"

definition link_ok :: "LinkType \<Rightarrow> LinkItem \<Rightarrow> bool" where
  "link_ok ty l \<longleftrightarrow> clean (srcNodeInstance l) \<and> clean (dstNodeInstance l) \<and>
     in_i32 (srcNodePortId l) \<and> in_i32 (dstNodePortId l) \<and>
     known_format (srcPortFormat l) \<and> list_all known_format (dstPortFormat l) \<and> linkType l = ty"

definition description_ok :: "LinkType \<Rightarrow> PipelineInfo \<Rightarrow> bool" where
  "description_ok ty p \<longleftrightarrow> clean (pipelineName p) \<and> sm_wf (nodes p) \<and>
     list_all (\<lambda>(k, n). nodeInstance n = k \<and> node_ok n) (nodes p) \<and> list_all (link_ok ty) (links p)"

definition blank_pipeline :: PipelineInfo where
  "blank_pipeline = \<lparr>pipelineName = [], nodes = [], links = []\<rparr>"

subsection \<open>Reading inverts writing\<close>

lemma c_string_clean [simp]: "clean s \<Longrightarrow> c_string s = s"
  by (auto simp: c_string_def clean_def takeWhile_eq_all_conv)

lemma clean_c_string [simp]: "clean (c_string s)"
  by (auto simp: c_string_def clean_def dest: set_takeWhileD)

lemma format_name_at [simp]: "known_format f \<Longrightarrow> format_at (format_name f) = Inr f"
  by (auto simp: known_format_def NodeFormat_def format_name_def format_at_def)

lemma format_name_clean [simp]: "clean (format_name f)"
  by (simp add: format_name_def NodeFormat_def clean_def)

lemma sint_in_i32 [simp]: "in_i32 (sint (w :: u32))"
  using sint_greater_eq [of w] sint_less [of w] by (simp add: in_i32_def)

lemma foldE_append: "foldE f (xs @ ys) s = bindE (foldE f xs s) (foldE f ys)"
  by (induction xs arbitrary: s) (auto simp: bindE_def split: sum.splits)

lemma checked_member_obj [simp]:
  "checked_member is k (JObj ms) =
     Inr (case find_member k ms of None \<Rightarrow> None | Some x \<Rightarrow> if is x then Some x else None)"
  by (simp add: checked_member_def split: option.splits)

lemma parseProperty_print:
  assumes "in_i32 n" and "clean k"
  shows "parseProperty (print_property k n) node =
    Inr (if k = ''NodeMask'' then node\<lparr>nodeMask := word_of_int n\<rparr>
         else if k = ''OutputType'' then node\<lparr>outputType := cast_OutputType n\<rparr> else node)"
  using assms by (simp add: parseProperty_def print_property_def find_member_def)

lemma parseNode_print: "node_ok n \<Longrightarrow> parseNode (print_node n) = Inr n"
  by (simp add: parseNode_def optionalField_def print_node_def find_member_def newNode_def parseProperty_print
      node_ok_def clean_def)

lemma storeNode_print:
  "node_ok n \<Longrightarrow> storeNode (print_node n) p = Inr (p\<lparr>nodes := sm_set (nodeInstance n) n (nodes p)\<rparr>)"
  by (simp add: storeNode_def parseNode_print)

lemma parseFormats_print:
  "list_all known_format fs \<Longrightarrow> parseFormats (map (\<lambda>f. JStr (format_name f)) fs) = Inr fs"
  by (induction fs rule: rev_induct) (simp_all add: parseFormats_def foldE_append)

lemma parseDstFormats_print:
  assumes "list_all known_format fs" and "find_member ''PortFormat'' ms = None" and "find_member ''PortFormats'' ms = None"
  shows "parseDstFormats (JObj (ms @ [print_formats fs])) = Inr fs"
  using assms parseFormats_print [OF assms(1)] unfolding parseDstFormats_def
  by (cases fs rule: list.exhaust [case_product list.exhaust [of "tl fs"]])
    (auto simp: print_formats_def find_member_def map_of_append map_add_def split: list.splits)

lemma parseLink_print:
  assumes "link_ok ty l"
  shows "parseLink ty (print_link l) = Inr l"
proof -
  have "parseDstFormats (JObj [(''PortId'', JNum (dstNodePortId l)), (''NodeInstance'', JStr (dstNodeInstance l)),
          print_formats (dstPortFormat l)]) = Inr (dstPortFormat l)"
    using parseDstFormats_print
      [of "dstPortFormat l" "[(''PortId'', JNum (dstNodePortId l)), (''NodeInstance'', JStr (dstNodeInstance l))]"] assms
    by (simp add: find_member_def link_ok_def)
  then show ?thesis
    using assms by (simp add: parseLink_def parseSrcFormat_def print_link_def link_ok_def find_member_def)
qed

lemma storeLink_print: "link_ok ty l \<Longrightarrow> storeLink ty (print_link l) p = Inr (p\<lparr>links := links p @ [l]\<rparr>)"
  by (simp add: storeLink_def parseLink_print)

lemma sm_set_last: "(\<forall>x \<in> fst ` set m. x < k) \<Longrightarrow> sm_set k v m = m @ [(k, v)]"
  by (induction k v m rule: sm_set.induct) (auto simp: order.asym)

lemma foldE_storeNode_print:
  assumes "sm_wf (ms @ ns)" and "list_all (\<lambda>(k, n). nodeInstance n = k \<and> node_ok n) ns"
  shows "foldE storeNode (map (\<lambda>(k, n). print_node n) ns) (p\<lparr>nodes := ms\<rparr>) = Inr (p\<lparr>nodes := ms @ ns\<rparr>)"
  using assms
proof (induction ns arbitrary: ms)
  case Nil
  then show ?case by simp
next
  case (Cons e ns)
  obtain k n where e: "e = (k, n)" by (cases e)
  have "sm_set k n ms = ms @ [(k, n)]"
    using Cons.prems(1) e by (intro sm_set_last) (auto simp: sm_wf_def sorted_wrt_append)
  moreover have "foldE storeNode (map (\<lambda>(k, n). print_node n) ns) (p\<lparr>nodes := ms @ [(k, n)]\<rparr>) = Inr (p\<lparr>nodes := ms @ e # ns\<rparr>)"
    using Cons.IH [of "ms @ [(k, n)]"] Cons.prems e by simp
  ultimately show ?case using Cons.prems e by (simp add: storeNode_print)
qed

lemma foldE_storeLink_print:
  "list_all (link_ok ty) ls \<Longrightarrow> foldE (storeLink ty) (map print_link ls) p = Inr (p\<lparr>links := links p @ ls\<rparr>)"
  by (induction ls arbitrary: p) (simp_all add: storeLink_print)

lemma parseSection_hit:
  assumes "find_member k1 ms = Some (JObj [(k2, JArr vs)])"
  shows "parseSection k1 k2 store (JObj ms) p = bindE (foldE store vs p) (\<lambda>p'. Inr (True, p'))"
  using assms by (simp add: parseSection_def find_member_def)

lemma parse_print_pipeline:
  assumes "description_ok ty p"
  shows "parseJson2Struct ty (Some (print_pipeline p)) blank_pipeline = Inr (0, p)"
proof -
  let ?q = "blank_pipeline\<lparr>pipelineName := pipelineName p\<rparr>"
  have "foldE storeNode (map (\<lambda>(k, n). print_node n) (nodes p)) ?q = Inr (?q\<lparr>nodes := nodes p\<rparr>)"
    using foldE_storeNode_print [of "[]" "nodes p" ?q] assms by (simp add: description_ok_def blank_pipeline_def)
  moreover have "foldE (storeLink ty) (map print_link (links p)) (?q\<lparr>nodes := nodes p\<rparr>) = Inr p"
    using foldE_storeLink_print [of ty "links p"] assms by (simp add: description_ok_def blank_pipeline_def)
  ultimately show ?thesis
    using assms
    by (simp add: parseJson2Struct_def print_pipeline_def parseSection_hit find_member_def description_ok_def)
qed

subsection \<open>What is read is a description\<close>

lemma foldE_invariant:
  assumes "foldE f xs s = Inr s'" and "P s" and "\<And>x s s'. P s \<Longrightarrow> f x s = Inr s' \<Longrightarrow> P s'"
  shows "P s'"
  using assms(1,2)
proof (induction xs arbitrary: s)
  case (Cons x xs)
  then show ?case using assms(3) by (auto simp: bindE_eq_Inr)
qed simp

lemma get_string_clean: "get_string v = Inr s \<Longrightarrow> clean s"
  by (cases v) auto

lemma get_int_range: "get_int v = Inr n \<Longrightarrow> in_i32 n"
  by (cases v) (auto split: if_splits)

lemma format_at_known: "format_at s = Inr f \<Longrightarrow> known_format f"
  by (auto simp: format_at_def known_format_def split: option.splits dest!: map_of_SomeD intro: rev_image_eqI)

lemma type_number_cast: "type_number (cast_OutputType n) = n"
  by (simp add: cast_OutputType_def)

lemma parseProperty_ok:
  assumes "node_ok n" and "parseProperty v n = Inr n'"
  shows "node_ok n'"
proof -
  have zero: "in_i32 0" by (simp add: in_i32_def)
  show ?thesis
    using assms unfolding parseProperty_def bindE_eq_Inr
    by (auto simp: node_ok_def type_number_cast zero dest: get_int_range split: if_splits option.splits)
qed

lemma optionalField_ok:
  assumes "optionalField is get k upd v n = Inr n'" and "node_ok n"
    and "\<And>x y n. get x = Inr y \<Longrightarrow> node_ok n \<Longrightarrow> node_ok (upd y n)"
  shows "node_ok n'"
  using assms unfolding optionalField_def bindE_eq_Inr by (auto simp: bindE_eq_Inr split: option.splits)

lemma parseNode_ok:
  assumes "parseNode v = Inr n"
  shows "node_ok n"
proof -
  have new: "node_ok newNode"
    by (simp add: node_ok_def newNode_def clean_def in_i32_def cast_OutputType_def)
  obtain node1 node2 node3 vs where
    1: "optionalField is_str get_string ''NodeName'' (\<lambda>s n. n\<lparr>nodeName := s\<rparr>) v newNode = Inr node1" and
    2: "optionalField is_str get_string ''NodeInstance'' (\<lambda>s n. n\<lparr>nodeInstance := s\<rparr>) v node1 = Inr node2" and
    3: "optionalField is_bool get_bool ''OutputBufferNeedCheck'' (\<lambda>t n. n\<lparr>outputBufferNeedCheck := t\<rparr>) v node2 = Inr node3" and
    4: "foldE parseProperty vs node3 = Inr n"
    using assms unfolding parseNode_def bindE_eq_Inr by blast
  have "node_ok node1"
    by (rule optionalField_ok [OF 1 new]) (auto simp: node_ok_def dest: get_string_clean)
  then have "node_ok node2"
    by (rule optionalField_ok [OF 2]) (auto simp: node_ok_def dest: get_string_clean)
  then have "node_ok node3"
    by (rule optionalField_ok [OF 3]) (auto simp: node_ok_def)
  then show ?thesis using foldE_invariant [OF 4, of node_ok] parseProperty_ok by blast
qed

lemma storeNode_ok:
  assumes "description_ok ty p" and "storeNode v p = Inr p'"
  shows "description_ok ty p'"
proof -
  obtain n where n: "parseNode v = Inr n" "p' = p\<lparr>nodes := sm_set (nodeInstance n) n (nodes p)\<rparr>"
    using assms(2) by (auto simp: storeNode_def bindE_eq_Inr)
  have wf: "sm_wf (nodes p)" using assms(1) by (simp add: description_ok_def)
  then have wf': "sm_wf (nodes p')" using n(2) by (simp add: sm_wf_set)
  have "nodeInstance m = k \<and> node_ok m" if "(k, m) \<in> set (nodes p')" for k m
    using that parseNode_ok [OF n(1)] assms(1) wf wf'
    by (auto simp: sm_entries_find n(2) description_ok_def list_all_iff split: if_splits dest!: sm_entries_find [THEN iffD2, rotated])
  then show ?thesis using assms(1) n(2) wf' by (auto simp: description_ok_def list_all_iff)
qed

lemma parseFormats_known: "parseFormats vs = Inr fs \<Longrightarrow> list_all known_format fs"
  unfolding parseFormats_def
  by (erule foldE_invariant) (auto simp: bindE_eq_Inr dest: format_at_known)

lemma known_UNDEFINED [simp]: "known_format CAM_FORMAT_UNDEFINED"
  by (simp add: known_format_def NodeFormat_def)

lemma parseDstFormats_known: "parseDstFormats v = Inr fs \<Longrightarrow> list_all known_format fs"
  unfolding parseDstFormats_def bindE_eq_Inr
  by (auto simp: bindE_eq_Inr format_at_known split: option.splits intro: parseFormats_known)

lemma parseSrcFormat_known: "parseSrcFormat v = Inr f \<Longrightarrow> known_format f"
  unfolding parseSrcFormat_def bindE_eq_Inr
  by (auto simp: bindE_eq_Inr split: option.splits intro: format_at_known)

lemma parseLink_ok: "parseLink ty v = Inr l \<Longrightarrow> link_ok ty l"
  unfolding parseLink_def bindE_eq_Inr
  by (auto simp: link_ok_def dest: get_string_clean get_int_range parseDstFormats_known parseSrcFormat_known)

lemma storeLink_ok: "description_ok ty p \<Longrightarrow> storeLink ty v p = Inr p' \<Longrightarrow> description_ok ty p'"
  by (auto simp: storeLink_def bindE_eq_Inr description_ok_def dest: parseLink_ok)

lemma parseSection_ok:
  assumes "parseSection k1 k2 store doc p = Inr (go, p')" and "P p"
    and "\<And>v p p'. P p \<Longrightarrow> store v p = Inr p' \<Longrightarrow> P p'"
  shows "P p'"
proof -
  have "p' = p \<or> (\<exists>vs. foldE store vs p = Inr p')"
    using assms(1) unfolding parseSection_def by (auto simp: bindE_eq_Inr split: option.splits if_splits)
  then show ?thesis using assms(2,3) foldE_invariant [where P = P] by blast
qed

lemma parsed_description:
  assumes "parseJson2Struct ty parsed p = Inr (r, p')" and "description_ok ty p"
  shows "description_ok ty p'"
proof (cases parsed)
  case None
  then show ?thesis using assms by (simp add: parseJson2Struct_def)
next
  case (Some doc)
  show ?thesis
  proof (cases "p' = p")
    case True
    then show ?thesis using assms(2) by simp
  next
    case False
    then obtain x name go p1 where
      name: "get_string x = Inr name" and
      sec: "parseSection ''NodesList'' ''Node'' storeNode doc (p\<lparr>pipelineName := name\<rparr>) = Inr (go, p1)" and
      rest: "p' = p1 \<or> (\<exists>go'. parseSection ''PortLinkages'' ''Link'' (storeLink ty) doc p1 = Inr (go', p'))"
      using assms(1) Some unfolding parseJson2Struct_def
      by (simp add: bindE_eq_Inr split: if_splits prod.splits) blast+
    have "description_ok ty (p\<lparr>pipelineName := name\<rparr>)"
      using assms(2) get_string_clean [OF name] by (simp add: description_ok_def)
    then have "description_ok ty p1" using parseSection_ok [OF sec, of "description_ok ty"] storeNode_ok by blast
    then show ?thesis using rest parseSection_ok [where P = "description_ok ty"] storeLink_ok by blast
  qed
qed

lemma blank_ok: "description_ok ty blank_pipeline"
  by (simp add: description_ok_def blank_pipeline_def clean_def)

subsection \<open>Properties\<close>

definition sample_description :: PipelineInfo where
  "sample_description =
     \<lparr>pipelineName = ''Sample'',
      nodes = [(''A'', newNode\<lparr>nodeName := ''a'', nodeInstance := ''A'', nodeMask := 0x80000010\<rparr>),
               (''B'', newNode\<lparr>nodeName := ''b'', nodeInstance := ''B'', outputType := FollowInput\<rparr>)],
      links = [\<lparr>srcNodePortId = 0, srcNodeInstance = ''A'', srcPortFormat = CAM_FORMAT_P010, dstNodePortId = - 1,
                dstNodeInstance = ''B'', dstPortFormat = [CAM_FORMAT_P010, CAM_FORMAT_Y16], linkType = SinkLink\<rparr>]\<rparr>"

lemma sample_description_ok: "description_ok SinkLink sample_description"
  by code_simp

text \<open>C27: reading a document that describes a pipeline yields exactly that pipeline, with result 0: nodes
  under their instance names, masks with all their bits, output types, ports and formats.\<close>

theorem parse_inverts_print:
  assumes "description_ok ty p"
  shows "parseJson2Struct ty (Some (print_pipeline p)) blank_pipeline = Inr (0, p)"
  using assms by (rule parse_print_pipeline)

theorem parse_inverts_print_witness:
  "parseJson2Struct SinkLink (Some (print_pipeline sample_description)) blank_pipeline = Inr (0, sample_description)"
  by (rule parse_inverts_print [OF sample_description_ok])

text \<open>C28: whatever document is read, and whether reading succeeds or gives up half way, the pipeline in
  memory is a description: its nodes are sorted and stored under their own instance names,
  every node is enabled, every format is one of the engine's, and the numbers fit their type.
  Writing such a pipeline and reading it again changes nothing.\<close>

theorem parsed_is_description:
  assumes "parseJson2Struct ty parsed blank_pipeline = Inr (r, p)"
  shows "description_ok ty p \<and> parseJson2Struct ty (Some (print_pipeline p)) blank_pipeline = Inr (0, p)"
  using parsed_description [OF assms blank_ok] by (simp add: parse_print_pipeline)

definition torn_document :: json where
  "torn_document = JObj [(''PipelineName'', JStr ''Torn''), (''NodesList'', JObj [(''Node'', JNull)])]"

lemma torn_document_read: "parseJson2Struct SinkLink (Some torn_document) blank_pipeline = Inr (- 1, blank_pipeline\<lparr>pipelineName := ''Torn''\<rparr>)"
  by code_simp

theorem parsed_is_description_witness:
  "description_ok SinkLink (blank_pipeline\<lparr>pipelineName := ''Torn''\<rparr>)"
  using parsed_is_description [OF torn_document_read] by simp

end
