(* ===== verification/SessionGraph.thy ===== *)
theory SessionGraph
  imports JsonConfig FrameUtil Pruner
begin

text \<open>
  Building a session (\<^verbatim>\<open>mivifwk/mialgoengine/MiaOfflineSession.cpp\<close>, \<open>initialize\<close>, \<open>buildGraph\<close>,
  \<open>initMemReclaim\<close>; the table of \<^verbatim>\<open>MiaMemReclaim.h\<close>): the configuration file of an operation mode
  is chosen and read, a node is created for every entry, and the pruner gets the description.
  The file system, the JSON parser and the registered plugins are parameters.
\<close>

subsection \<open>Modes\<close>

abbreviation StreamConfigModeNormal :: u32 where "StreamConfigModeNormal \<equiv> 0x0000"
abbreviation StreamConfigModeSAT :: u32 where "StreamConfigModeSAT \<equiv> 0x8001"
abbreviation StreamConfigModeBokeh :: u32 where "StreamConfigModeBokeh \<equiv> 0x8002"
abbreviation StreamConfigModeMiuiManual :: u32 where "StreamConfigModeMiuiManual \<equiv> 0x8003"
abbreviation StreamConfigModeMiuiZslFront :: u32 where "StreamConfigModeMiuiZslFront \<equiv> 0x8005"
abbreviation StreamConfigModeMiuiSuperNight :: u32 where "StreamConfigModeMiuiSuperNight \<equiv> 0x800A"
abbreviation StreamConfigModeUltraPixelPhotography :: u32 where "StreamConfigModeUltraPixelPhotography \<equiv> 0x80F3"
abbreviation StreamConfigModeAlgoQcfaMfnr :: u32 where "StreamConfigModeAlgoQcfaMfnr \<equiv> 0x9004"
abbreviation StreamConfigModeAlgoManual :: u32 where "StreamConfigModeAlgoManual \<equiv> 0x9008"
abbreviation StreamConfigModeMiuiCameraJpeg :: u32 where "StreamConfigModeMiuiCameraJpeg \<equiv> 0xEF00"
abbreviation StreamConfigModeMiuiCameraHeic :: u32 where "StreamConfigModeMiuiCameraHeic \<equiv> 0xEF01"
abbreviation StreamConfigModeSATBurst :: u32 where "StreamConfigModeSATBurst \<equiv> 0xEF05"
abbreviation StreamConfigModeTestMemcpy :: u32 where "StreamConfigModeTestMemcpy \<equiv> 0xF101"
abbreviation StreamConfigModeTestCpyJpg :: u32 where "StreamConfigModeTestCpyJpg \<equiv> 0xF102"
abbreviation StreamConfigModeTestReprocess :: u32 where "StreamConfigModeTestReprocess \<equiv> 0xF103"
abbreviation StreamConfigModeTestBokeh :: u32 where "StreamConfigModeTestBokeh \<equiv> 0xF104"
abbreviation StreamConfigModeTestMulti :: u32 where "StreamConfigModeTestMulti \<equiv> 0xF105"
abbreviation StreamConfigModeTestR2Y :: u32 where "StreamConfigModeTestR2Y \<equiv> 0xF106"
abbreviation StreamConfigModeThirdPartyNormal :: u32 where "StreamConfigModeThirdPartyNormal \<equiv> 0xFF0A"
abbreviation StreamConfigModeThirdPartyMFNR :: u32 where "StreamConfigModeThirdPartyMFNR \<equiv> 0xFF0B"
abbreviation StreamConfigModeThirdPartySuperNight :: u32 where "StreamConfigModeThirdPartySuperNight \<equiv> 0xFF0C"
abbreviation StreamConfigModeThirdPartySmartEngine :: u32 where "StreamConfigModeThirdPartySmartEngine \<equiv> 0xFF0E"
abbreviation StreamConfigModeThirdPartyFastMode :: u32 where "StreamConfigModeThirdPartyFastMode \<equiv> 0xFF0F"
abbreviation StreamConfigModeThirdPartyBokeh :: u32 where "StreamConfigModeThirdPartyBokeh \<equiv> 0xFF12"
abbreviation StreamConfigModeThirdPartyBokeh2x :: u32 where "StreamConfigModeThirdPartyBokeh2x \<equiv> 0xFF15"
abbreviation StreamConfigModeThirdPartyAutoExtension :: u32 where "StreamConfigModeThirdPartyAutoExtension \<equiv> 0xFF17"

text \<open>Camera combinations (\<^verbatim>\<open>MiaPluginUtils.h\<close>)\<close>

abbreviation CAM_COMBMODE_REAR_WIDE :: u32 where "CAM_COMBMODE_REAR_WIDE \<equiv> 0x01"
abbreviation CAM_COMBMODE_REAR_TELE :: u32 where "CAM_COMBMODE_REAR_TELE \<equiv> 0x02"
abbreviation CAM_COMBMODE_REAR_ULTRA :: u32 where "CAM_COMBMODE_REAR_ULTRA \<equiv> 0x03"
abbreviation CAM_COMBMODE_REAR_MACRO :: u32 where "CAM_COMBMODE_REAR_MACRO \<equiv> 0x04"
abbreviation CAM_COMBMODE_FRONT :: u32 where "CAM_COMBMODE_FRONT \<equiv> 0x11"
abbreviation CAM_COMBMODE_FRONT_AUX :: u32 where "CAM_COMBMODE_FRONT_AUX \<equiv> 0x12"
abbreviation CAM_COMBMODE_REAR_SAT_WT :: u32 where "CAM_COMBMODE_REAR_SAT_WT \<equiv> 0x201"
abbreviation CAM_COMBMODE_REAR_BOKEH_WT :: u32 where "CAM_COMBMODE_REAR_BOKEH_WT \<equiv> 0x301"
abbreviation CAM_COMBMODE_FRONT_BOKEH :: u32 where "CAM_COMBMODE_FRONT_BOKEH \<equiv> 0x303"

record MiaCreateParams =
  operationMode :: u32
  cameraMode :: u32
  inputFormat :: "FrameInfo list"
  outputFormat :: "FrameInfo list"

record session_graph =
  sgNodes :: "(string, node_plugin) std_map"
  mSourcePortIdVec :: "u32 list"
  mSelectedPipelineName :: string
  mPipelinePruner :: "PipelinePruner option"
  mIsBurstMode :: bool
  mSupportLIFO :: bool
  mDefaultReclaimCnt :: u32
  mBufferThresholdValue :: u32
  mReltime :: int

definition new_session_graph :: "mia_env \<Rightarrow> session_graph" where
  "new_session_graph env =
     \<lparr>sgNodes = [], mSourcePortIdVec = [], mSelectedPipelineName = [], mPipelinePruner = None,
      mIsBurstMode = False, mSupportLIFO = (Soc env = QCOM), mDefaultReclaimCnt = 3,
      mBufferThresholdValue = 3, mReltime = 6000\<rparr>"

subsection \<open>Reclaiming memory\<close>

definition g_MiaMemReclaimParamMappingTable :: "((u32 \<times> u32) \<times> u32 \<times> u32 \<times> int) list" where
  "g_MiaMemReclaimParamMappingTable =
     [((StreamConfigModeBokeh, CAM_COMBMODE_FRONT_BOKEH), 3, 3, 6000),
      ((StreamConfigModeBokeh, CAM_COMBMODE_FRONT), 3, 3, 6000),
      ((StreamConfigModeBokeh, CAM_COMBMODE_REAR_BOKEH_WT), 4, 3, 6000),
      ((StreamConfigModeMiuiSuperNight, CAM_COMBMODE_FRONT), 3, 2, 6000),
      ((StreamConfigModeUltraPixelPhotography, CAM_COMBMODE_REAR_WIDE), 4, 2, 10000),
      ((StreamConfigModeMiuiManual, CAM_COMBMODE_REAR_WIDE), 1, 1, 1000),
      ((StreamConfigModeMiuiManual, CAM_COMBMODE_REAR_TELE), 3, 3, 6000),
      ((StreamConfigModeMiuiManual, CAM_COMBMODE_REAR_ULTRA), 3, 3, 6000),
      ((StreamConfigModeMiuiManual, CAM_COMBMODE_REAR_MACRO), 3, 3, 6000),
      ((StreamConfigModeSAT, CAM_COMBMODE_REAR_SAT_WT), 3, 3, 6000),
      ((StreamConfigModeMiuiZslFront, CAM_COMBMODE_FRONT), 4, 2, 6000),
      ((StreamConfigModeThirdPartyNormal, CAM_COMBMODE_REAR_WIDE), 3, 2, 8000),
      ((StreamConfigModeThirdPartyNormal, CAM_COMBMODE_FRONT), 3, 2, 8000),
      ((StreamConfigModeThirdPartyMFNR, CAM_COMBMODE_REAR_WIDE), 3, 2, 8000),
      ((StreamConfigModeThirdPartyMFNR, CAM_COMBMODE_FRONT), 3, 2, 8000),
      ((StreamConfigModeThirdPartySmartEngine, CAM_COMBMODE_REAR_WIDE), 3, 2, 8000),
      ((StreamConfigModeThirdPartySmartEngine, CAM_COMBMODE_FRONT), 3, 2, 8000),
      ((StreamConfigModeThirdPartyFastMode, CAM_COMBMODE_REAR_WIDE), 3, 2, 8000),
      ((StreamConfigModeThirdPartyFastMode, CAM_COMBMODE_FRONT), 3, 2, 8000),
      ((StreamConfigModeNormal, CAM_COMBMODE_REAR_WIDE), 4, 4, 6000),
      ((StreamConfigModeNormal, CAM_COMBMODE_FRONT), 4, 4, 6000)]"

text \<open>The loop takes the first row of the two modes.\<close>

definition initMemReclaim :: "mia_env \<Rightarrow> MiaCreateParams \<Rightarrow> session_graph \<Rightarrow> session_graph" where
  "initMemReclaim env params s =
     (case map_of g_MiaMemReclaimParamMappingTable (operationMode params, cameraMode params) of
        Some (cnt, thr, rel) \<Rightarrow>
          s\<lparr>mDefaultReclaimCnt := cnt, mBufferThresholdValue := (if Soc env = MTK then thr * 3 else thr), mReltime := rel\<rparr>
      | None \<Rightarrow>
          s\<lparr>mDefaultReclaimCnt := 3, mBufferThresholdValue := (if Soc env = MTK then 12 else 3), mReltime := 6000\<rparr>)"

subsection \<open>The configuration file\<close>

abbreviation HAL_PIXEL_FORMAT_RAW16 :: u32 where "HAL_PIXEL_FORMAT_RAW16 \<equiv> 0x20"
abbreviation HAL_PIXEL_FORMAT_BLOB :: u32 where "HAL_PIXEL_FORMAT_BLOB \<equiv> 0x21"

definition xiaomi_file :: "string \<Rightarrow> string" where
  "xiaomi_file f = ''/odm/etc/camera/xiaomi/'' @ f @ ''.json''"

definition blob_output :: "MiaCreateParams \<Rightarrow> bool outcome" where
  "blob_output params = bindE (vec_get (outputFormat params) 0) (\<lambda>f. Inr (fformat f = HAL_PIXEL_FORMAT_BLOB))"

definition front_camera :: "MiaCreateParams \<Rightarrow> bool" where
  "front_camera params \<longleftrightarrow> cameraMode params = CAM_COMBMODE_FRONT \<or> cameraMode params = CAM_COMBMODE_FRONT_AUX"

text \<open>\<open>None\<close> leaves the flags of the session, \<open>Some (burst, lifo)\<close> sets them.\<close>

type_synonym graph_choice = "string \<times> bool option \<times> bool option"

definition thirdpartySuperNight :: "MiaCreateParams \<Rightarrow> string outcome" where
  "thirdpartySuperNight params =
     (if front_camera params
      then bindE (blob_output params) (\<lambda>b. Inr (if b then ''frontsupernightsnapshotjpeg'' else ''frontsupernightsnapshot''))
      else
        let isRawSupernight = list_ex (\<lambda>f. fformat f = HAL_PIXEL_FORMAT_RAW16) (inputFormat params);
            isBlobSnapshot = list_ex (\<lambda>f. fformat f = HAL_PIXEL_FORMAT_BLOB) (outputFormat params)
        in Inr (if isRawSupernight
                then (if isBlobSnapshot then ''thirdpartyrawsupernightjpeg'' else ''thirdpartyrawsupernightyuv'')
                else (if isBlobSnapshot then ''thirdpartyjpegsnapshot'' else ''thirdpartysnapshot'')))"

definition selectMode :: "bool \<Rightarrow> MiaCreateParams \<Rightarrow> graph_choice outcome" where
  "selectMode forceSEBokehAuxMfsr params =
     (let op = operationMode params; cam = cameraMode params;
          keep = (\<lambda>f. Inr (f, None, None))
      in if op = StreamConfigModeBokeh then
           (if cam = CAM_COMBMODE_FRONT_BOKEH \<or> cam = CAM_COMBMODE_FRONT then keep ''frontbokehsnapshot''
            else if forceSEBokehAuxMfsr then keep ''dualbokehseauxmfsrsnapshot''
            else Inr (''dualbokehsnapshot'', None, Some False))
         else if op = StreamConfigModeThirdPartyBokeh2x \<or> op = StreamConfigModeThirdPartyBokeh then
           bindE (blob_output params) (\<lambda>b.
             if cam = CAM_COMBMODE_FRONT then keep (if b then ''thirdpartyjpegsnapshot'' else ''thirdpartysnapshot'')
             else keep (if b then ''dualbokehjpegsnapshot'' else ''thirdpartydualbokehyuvsnapshot''))
         else if op = StreamConfigModeUltraPixelPhotography \<or> op = StreamConfigModeAlgoQcfaMfnr then keep ''superhdsnapshot''
         else if op = StreamConfigModeMiuiManual \<or> op = StreamConfigModeAlgoManual then
           bindE (vec_get (outputFormat params) 0) (\<lambda>f.
             keep (if fwidth f \<ge> 6016 \<and> fheight f \<ge> 4512 then ''superhdsnapshot'' else ''manualsnapshot''))
         else if op = StreamConfigModeSAT then keep ''satsnapshot''
         else if op = StreamConfigModeThirdPartyAutoExtension then keep ''satsnapshotjpeg''
         else if op = StreamConfigModeMiuiZslFront then keep ''frontsinglesnapshot''
         else if op = StreamConfigModeThirdPartyNormal \<or> op = StreamConfigModeThirdPartyMFNR then
           bindE (blob_output params) (\<lambda>b. keep (if b then ''thirdpartyjpegsnapshot'' else ''thirdpartysnapshot''))
         else if op = StreamConfigModeMiuiSuperNight then
           keep (if front_camera params then ''frontsupernightsnapshot'' else ''rearsupernightsnapshot'')
         else if op = StreamConfigModeThirdPartySuperNight then bindE (thirdpartySuperNight params) keep
         else if op = StreamConfigModeSATBurst then Inr (''satburstsnapshot'', Some True, Some False)
         else if op = StreamConfigModeMiuiCameraJpeg then Inr (''miuicamerayuv2jpeg'', Some True, Some False)
         else if op = StreamConfigModeMiuiCameraHeic then keep ''miuicamerayuv2heic''
         else Inr (''normalsnapshot'', Some True, Some False))"

text \<open>The second chain of tests replaces the file of the test modes.\<close>

definition testFile :: "MiaCreateParams \<Rightarrow> string \<Rightarrow> string" where
  "testFile params f =
     (let op = operationMode params
      in if op = StreamConfigModeTestMemcpy then ''testmemcpy''
         else if op = StreamConfigModeTestCpyJpg then ''testcpyjpg''
         else if op = StreamConfigModeTestReprocess then ''testreprocess''
         else if op = StreamConfigModeTestBokeh then ''testbokeh''
         else if op = StreamConfigModeTestMulti then ''testmulti''
         else if op = StreamConfigModeTestR2Y then ''testraw2yuv''
         else f)"

text \<open>\<open>strcpy\<close> into \<open>char filename[64]\<close>, the terminating zero included.\<close>

definition strcpy64 :: "string \<Rightarrow> string outcome" where
  "strcpy64 f = (if length f < 64 then Inr f else Inl BadIndex)"

definition vendor_dir :: "string \<Rightarrow> string" where
  "vendor_dir f = take 1 f @ ''vendor'' @ drop 4 f"

definition selectFile :: "mia_env \<Rightarrow> bool \<Rightarrow> MiaCreateParams \<Rightarrow> graph_choice outcome" where
  "selectFile env forceSEBokehAuxMfsr params =
     bindE (selectMode forceSEBokehAuxMfsr params) (\<lambda>(f, burst, lifo).
     bindE (strcpy64 (xiaomi_file f)) (\<lambda>_.
     bindE (strcpy64 (xiaomi_file (testFile params f))) (\<lambda>filename.
     bindE (if Soc env = MTK then strcpy64 (vendor_dir filename) else Inr filename) (\<lambda>filename'.
       Inr (filename', burst, lifo)))))"

subsection \<open>Nodes\<close>

text \<open>
  \<open>MiaNode::init\<close>: the plugin is looked up by name; the first formats are read without a
  test for emptiness.
\<close>

definition MiaNode_init ::
  "(string \<Rightarrow> node_plugin) \<Rightarrow> MiaCreateParams \<Rightarrow> NodeItem \<Rightarrow> (CDKResult \<times> node_plugin) outcome" where
  "MiaNode_init plugins params item =
     (case plugins (nodeName item) of
        None \<Rightarrow> Inr (MIAS_INVALID_PARAM, None)
      | Some isEnabled \<Rightarrow>
          bindE (vec_get (inputFormat params) 0) (\<lambda>_.
          bindE (vec_get (outputFormat params) 0) (\<lambda>_. Inr (MIAS_OK, Some isEnabled))))"

fun initNodes ::
  "(string \<Rightarrow> node_plugin) \<Rightarrow> MiaCreateParams \<Rightarrow> (string \<times> NodeItem) list \<Rightarrow> CDKResult \<times> (string, node_plugin) std_map \<Rightarrow>
     (CDKResult \<times> (string, node_plugin) std_map) outcome" where
  "initNodes plugins params [] s = Inr s"
| "initNodes plugins params ((k, item) # rest) (ret, ns) =
     bindE (MiaNode_init plugins params item) (\<lambda>(r, node).
       if r \<noteq> MIAS_OK then Inr (r, ns)
       else initNodes plugins params rest (r, sm_set (nodeInstance item) node ns))"

text \<open>
  \<open>{nodeName, nodeInstance, 0, true, OneBuffer}\<close>: the fifth initialiser lands on \<open>isEnable\<close>,
  as \<open>false\<close>.
\<close>

definition memcpyItem :: NodeItem where
  "memcpyItem = \<lparr>nodeName = ''com.xiaomi.plugin.memcpy'', nodeInstance = newMemcpyInstance, nodeMask = 0,
     outputBufferNeedCheck = True, isEnable = False, outputType = OneBuffer\<rparr>"

definition sourcePorts :: "LinkItem list \<Rightarrow> u32 list" where
  "sourcePorts ls = map (\<lambda>l. word_of_int (srcNodePortId l)) (filter (\<lambda>l. contains (srcNodeInstance l) ''SourceBuffer'') ls)"

record graph_world =
  plugins :: "string \<Rightarrow> node_plugin"
  files :: "string \<Rightarrow> string option"
  ftells :: bool
  parseDoc :: "string \<Rightarrow> json option"
  junkType :: LinkType
  g_forceSEBokehAuxMfsr :: bool

definition buildNodes ::
  "mia_env \<Rightarrow> graph_world \<Rightarrow> MiaCreateParams \<Rightarrow> PipelineInfo \<Rightarrow> session_graph \<Rightarrow> (CDKResult \<times> session_graph) outcome" where
  "buildNodes env w params pipeline s =
     bindE (MiaNode_init (plugins w) params memcpyItem) (\<lambda>(r0, node).
       let ns0 = (if r0 = MIAS_OK then sm_set newMemcpyInstance node (sgNodes s) else sgNodes s)
       in bindE (initNodes (plugins w) params (nodes pipeline) (r0, ns0)) (\<lambda>(ret, ns).
            let pipeline' = pipeline\<lparr>nodes := sm_insert newMemcpyInstance memcpyItem (nodes pipeline)\<rparr>;
                s1 = s\<lparr>sgNodes := ns\<rparr>
            in Inr (ret,
                 if ret \<noteq> MIAS_OK then s1
                 else s1\<lparr>mSourcePortIdVec := mSourcePortIdVec s1 @ sourcePorts (links pipeline'),
                         mSelectedPipelineName := pipelineName pipeline',
                         mPipelinePruner := Some (new_PipelinePruner env ns pipeline')\<rparr>)))"

text \<open>The result of \<open>parseJson2Struct\<close> is not looked at.\<close>

definition buildGraph ::
  "mia_env \<Rightarrow> graph_world \<Rightarrow> MiaCreateParams \<Rightarrow> session_graph \<Rightarrow> (CDKResult \<times> session_graph) outcome" where
  "buildGraph env w params s =
     bindE (selectFile env (g_forceSEBokehAuxMfsr w) params) (\<lambda>(filename, burst, lifo).
       let s1 = s\<lparr>mIsBurstMode := (case burst of None \<Rightarrow> mIsBurstMode s | Some b \<Rightarrow> b),
                  mSupportLIFO := (case lifo of None \<Rightarrow> mSupportLIFO s | Some b \<Rightarrow> b)\<rparr>;
           jsonStr = readFile (ftells w) (files w filename)
       in if jsonStr = [] then Inr (MIAS_INVALID_PARAM, s1)
          else bindE (parseJson2Struct (junkType w) (parseDoc w jsonStr) blank_pipeline) (\<lambda>(_, pipeline).
                 buildNodes env w params pipeline s1))"

definition session_initialize ::
  "mia_env \<Rightarrow> graph_world \<Rightarrow> MiaCreateParams option \<Rightarrow> session_graph \<Rightarrow> (CDKResult \<times> session_graph) outcome" where
  "session_initialize env w params' s =
     (case params' of
        None \<Rightarrow> Inr (MIAS_INVALID_PARAM, s)
      | Some params \<Rightarrow>
          bindE (buildGraph env w params s) (\<lambda>(result, s1).
            if result \<noteq> MIAS_OK then Inr (result, s1)
            else Inr (result, initMemReclaim env params s1)))"

subsection \<open>The name of the file\<close>

lemma selectMode_short:
  assumes "outputFormat params \<noteq> []"
  shows "\<exists>f burst lifo. selectMode force params = Inr (f, burst, lifo) \<and> length f \<le> 30 \<and>
    (burst = Some True \<longrightarrow> lifo = Some False) \<and> burst \<noteq> Some False \<and> lifo \<noteq> Some True"
  using assms by (simp add: selectMode_def blob_output_def thirdpartySuperNight_def Let_def)

lemma selectMode_flags:
  assumes "selectMode force params = Inr (f, burst, lifo)"
  shows "(burst = Some True \<longrightarrow> lifo = Some False) \<and> burst \<noteq> Some False \<and> lifo \<noteq> Some True"
  using assms by (auto simp: selectMode_def bindE_eq_Inr Let_def split: if_splits)

lemma testFile_short: "length f \<le> 30 \<Longrightarrow> length (testFile params f) \<le> 30"
  by (simp add: testFile_def Let_def)

lemma vendor_dir_xiaomi: "vendor_dir (xiaomi_file f) = ''/vendor/etc/camera/xiaomi/'' @ f @ ''.json''"
  by (simp add: vendor_dir_def xiaomi_file_def)

lemma selectFile_ok:
  assumes "outputFormat params \<noteq> []"
  shows "\<exists>f burst lifo. selectFile env force params =
    Inr ((if Soc env = MTK then ''/vendor'' else ''/odm'') @ ''/etc/camera/xiaomi/'' @ f @ ''.json'', burst, lifo) \<and> length f \<le> 30"
proof -
  obtain f burst lifo where f: "selectMode force params = Inr (f, burst, lifo)" "length f \<le> 30"
    using selectMode_short [OF assms] by blast
  have t: "length (testFile params f) \<le> 30" using f(2) by (rule testFile_short)
  have "selectFile env force params =
    Inr ((if Soc env = MTK then ''/vendor'' else ''/odm'') @ ''/etc/camera/xiaomi/'' @ testFile params f @ ''.json'', burst, lifo)"
    using f t by (simp add: selectFile_def strcpy64_def vendor_dir_xiaomi) (simp add: xiaomi_file_def)
  then show ?thesis using t by blast
qed

subsection \<open>The nodes of a graph\<close>

lemma MiaNode_init_ok:
  "MiaNode_init pls params item = Inr (MIAS_OK, node) \<Longrightarrow> node = pls (nodeName item) \<and> node \<noteq> None"
  by (auto simp: MiaNode_init_def bindE_eq_Inr split: option.splits dest: sym)

lemma initNodes_wf: "initNodes pls params items (r, ns) = Inr (r', ns') \<Longrightarrow> sm_wf ns \<Longrightarrow> sm_wf ns'"
  by (induction pls params items "(r, ns)" arbitrary: r ns rule: initNodes.induct)
    (auto simp: bindE_eq_Inr sm_wf_set split: if_splits)

lemma initNodes_ok:
  assumes "initNodes pls params items (r, ns) = Inr (MIAS_OK, ns')"
    and "\<forall>(k, item) \<in> set items. nodeInstance item = k" and "distinct (map fst items)"
  shows "(\<forall>(k, item) \<in> set items. sm_find ns' k = Some (pls (nodeName item)) \<and> pls (nodeName item) \<noteq> None) \<and>
    (\<forall>k. k \<notin> fst ` set items \<longrightarrow> sm_find ns' k = sm_find ns k)"
  using assms
proof (induction items arbitrary: r ns)
  case Nil
  then show ?case by simp
next
  case (Cons e items)
  obtain k item where e: "e = (k, item)" by (cases e)
  from Cons.prems(1) e obtain node where
    n: "MiaNode_init pls params item = Inr (MIAS_OK, node)" and
    rest: "initNodes pls params items (MIAS_OK, sm_set (nodeInstance item) node ns) = Inr (MIAS_OK, ns')"
    by (auto simp: bindE_eq_Inr split: if_splits)
  have k: "nodeInstance item = k" using Cons.prems(2) e by simp
  have IH: "(\<forall>(k, item) \<in> set items. sm_find ns' k = Some (pls (nodeName item)) \<and> pls (nodeName item) \<noteq> None) \<and>
      (\<forall>k'. k' \<notin> fst ` set items \<longrightarrow> sm_find ns' k' = sm_find (sm_set k node ns) k')"
    using Cons.IH [OF rest] Cons.prems(2,3) k by simp
  moreover have "k \<notin> fst ` set items" using Cons.prems(3) e by simp
  ultimately show ?case using MiaNode_init_ok [OF n] e by auto
qed

lemma buildNodes_ready:
  assumes "buildNodes env w params pipeline s = Inr (MIAS_OK, s')" and "description_ok ty pipeline"
  shows "(\<exists>pr. mPipelinePruner s' = Some pr \<and> mNodes pr = sgNodes s' \<and>
            links (mRawPipeline pr) = links pipeline \<and>
            nodes (mRawPipeline pr) = sm_insert newMemcpyInstance memcpyItem (nodes pipeline)) \<and>
    (\<forall>(k, item) \<in> set (nodes pipeline). sm_find (sgNodes s') k = Some (plugins w (nodeName item)) \<and> plugins w (nodeName item) \<noteq> None) \<and>
    mSourcePortIdVec s' = mSourcePortIdVec s @ sourcePorts (links pipeline) \<and>
    mSelectedPipelineName s' = pipelineName pipeline"
proof -
  obtain r0 node where 0: "MiaNode_init (plugins w) params memcpyItem = Inr (r0, node)"
    using assms(1) unfolding buildNodes_def bindE_eq_Inr by auto
  let ?ns0 = "if r0 = MIAS_OK then sm_set newMemcpyInstance node (sgNodes s) else sgNodes s"
  obtain ret ns where i: "initNodes (plugins w) params (nodes pipeline) (r0, ?ns0) = Inr (ret, ns)"
    using assms(1) 0 by (cases "initNodes (plugins w) params (nodes pipeline) (r0, ?ns0)") (auto simp: buildNodes_def Let_def)
  have ret: "ret = MIAS_OK" and
    s': "s' = s\<lparr>sgNodes := ns, mSourcePortIdVec := mSourcePortIdVec s @ sourcePorts (links pipeline),
           mSelectedPipelineName := pipelineName pipeline,
           mPipelinePruner := Some (new_PipelinePruner env ns
             (pipeline\<lparr>nodes := sm_insert newMemcpyInstance memcpyItem (nodes pipeline)\<rparr>))\<rparr>"
    using assms(1) 0 i by (auto simp: buildNodes_def Let_def split: if_splits)
  have "\<forall>(k, item) \<in> set (nodes pipeline). nodeInstance item = k" "distinct (map fst (nodes pipeline))"
    using assms(2) sm.distinct_keys by (auto simp: description_ok_def list_all_iff)
  from initNodes_ok [OF i [unfolded ret] this] show ?thesis by (simp add: s' new_PipelinePruner_def)
qed

subsection \<open>Properties\<close>

definition sample_params :: MiaCreateParams where
  "sample_params = \<lparr>operationMode = StreamConfigModeThirdPartyBokeh, cameraMode = CAM_COMBMODE_REAR_BOKEH_WT,
     inputFormat = [mk_format CAM_FORMAT_YUV_420_NV12 64 64], outputFormat = [mk_format CAM_FORMAT_YUV_420_NV12 64 64]\<rparr>"

definition mtk_env :: mia_env where
  "mtk_env = \<lparr>getTagID = (\<lambda>_. Inl (- 1)), Soc = MTK, OpenPrunerAbnormalDump = False, sDisableMask = 0\<rparr>"

text \<open>For every operation mode, camera and format the name of the configuration file is found and fits
  the 64 bytes of its buffer with the terminating zero, also after the longer directory of the
  MTK platform has been put in; it lies in the directory of the platform.\<close>

theorem file_name_fits:
  assumes "outputFormat params \<noteq> []"
  shows "\<exists>f burst lifo. selectFile env force params = Inr (f, burst, lifo) \<and> length f + 1 \<le> 64 \<and>
    take (if Soc env = MTK then 26 else 23) f =
      (if Soc env = MTK then ''/vendor/etc/camera/xiaomi/'' else ''/odm/etc/camera/xiaomi/'')"
proof -
  obtain f burst lifo where f: "selectFile env force params =
      Inr ((if Soc env = MTK then ''/vendor'' else ''/odm'') @ ''/etc/camera/xiaomi/'' @ f @ ''.json'', burst, lifo)" "length f \<le> 30"
    using selectFile_ok [OF assms] by blast
  show ?thesis by (rule exI, rule exI, rule exI, rule conjI, rule f(1)) (use f(2) in simp)
qed

theorem file_name_fits_witness:
  "\<exists>f burst lifo. selectFile mtk_env False sample_params = Inr (f, burst, lifo) \<and> length f + 1 \<le> 64 \<and>
    take 26 f = ''/vendor/etc/camera/xiaomi/''"
  using file_name_fits [of sample_params mtk_env False] by (simp add: sample_params_def mtk_env_def)

lemma reclaim_rows:
  "\<forall>(k, cnt, thr, rel) \<in> set g_MiaMemReclaimParamMappingTable. 1 \<le> cnt \<and> cnt \<le> 4 \<and> 1 \<le> thr \<and> thr \<le> 4 \<and> 1000 \<le> rel \<and> rel \<le> 10000"
  by (simp add: g_MiaMemReclaimParamMappingTable_def)

definition settings_ok :: "session_graph \<Rightarrow> bool" where
  "settings_ok s \<longleftrightarrow> \<not> (mIsBurstMode s \<and> mSupportLIFO s) \<and> 1 \<le> mDefaultReclaimCnt s \<and> mDefaultReclaimCnt s \<le> 4 \<and>
     1 \<le> mBufferThresholdValue s \<and> mBufferThresholdValue s \<le> 12 \<and> 1000 \<le> mReltime s \<and> mReltime s \<le> 10000"

lemma initMemReclaim_ok:
  assumes "settings_ok s"
  shows "settings_ok (initMemReclaim env params s)"
proof (cases "map_of g_MiaMemReclaimParamMappingTable (operationMode params, cameraMode params)")
  case None
  then show ?thesis using assms by (simp add: initMemReclaim_def settings_ok_def)
next
  case (Some row)
  obtain cnt thr rel where row: "row = (cnt, thr, rel)" by (cases row)
  have "1 \<le> cnt \<and> cnt \<le> 4 \<and> 1 \<le> thr \<and> thr \<le> 4 \<and> 1000 \<le> rel \<and> rel \<le> 10000"
    using reclaim_rows map_of_SomeD [OF Some] row by fastforce
  moreover have "1 \<le> thr * 3 \<and> thr * 3 \<le> 12 \<and> thr \<le> 12" if "1 \<le> thr" "thr \<le> 4"
    using that by (simp add: word_le_nat_alt unat_word_ariths)
  ultimately show ?thesis using assms Some row by (simp add: initMemReclaim_def settings_ok_def)
qed

lemma selectFile_flags:
  assumes "selectFile env force params = Inr (f, burst, lifo)"
  shows "(burst = Some True \<longrightarrow> lifo = Some False) \<and> burst \<noteq> Some False \<and> lifo \<noteq> Some True"
proof -
  obtain f0 where "selectMode force params = Inr (f0, burst, lifo)"
    using assms unfolding selectFile_def by (auto simp: bindE_eq_Inr split: if_splits)
  then show ?thesis by (rule selectMode_flags)
qed

lemma buildNodes_settings:
  assumes "buildNodes env w params pipeline s = Inr (r, s')" and "settings_ok s"
  shows "settings_ok s'"
  using assms unfolding buildNodes_def Let_def settings_ok_def
  by (auto simp: bindE_eq_Inr split: if_splits prod.splits)

lemma buildGraph_settings:
  assumes "buildGraph env w params s = Inr (r, s')" and "settings_ok s" and "\<not> mIsBurstMode s"
  shows "settings_ok s'"
proof -
  obtain f burst lifo where f: "selectFile env (g_forceSEBokehAuxMfsr w) params = Inr (f, burst, lifo)"
    using assms(1) unfolding buildGraph_def bindE_eq_Inr by auto
  let ?s = "s\<lparr>mIsBurstMode := (case burst of None \<Rightarrow> mIsBurstMode s | Some b \<Rightarrow> b),
             mSupportLIFO := (case lifo of None \<Rightarrow> mSupportLIFO s | Some b \<Rightarrow> b)\<rparr>"
  have "settings_ok ?s"
    using assms(2,3) selectFile_flags [OF f] by (auto simp: settings_ok_def split: option.splits)
  moreover have "s' = ?s \<or> (\<exists>pipeline. buildNodes env w params pipeline ?s = Inr (r, s'))"
    using assms(1) f unfolding buildGraph_def Let_def by (auto simp: bindE_eq_Inr split: if_splits)
  ultimately show ?thesis using buildNodes_settings by blast
qed

text \<open>However the initialisation of a session ends, a session in burst mode does not order its
  requests last-in first-out, the number of requests between two memory reclaims is never zero
  (every request takes a remainder by it), and the reclaim threshold and period are in range,
  on both platforms.\<close>

theorem session_settings:
  assumes "session_initialize env w params (new_session_graph env) = Inr (r, s)"
  shows "settings_ok s"
proof -
  have new: "settings_ok (new_session_graph env)" "\<not> mIsBurstMode (new_session_graph env)"
    by (simp_all add: settings_ok_def new_session_graph_def)
  have "s = new_session_graph env \<or> (\<exists>p r1 s1. buildGraph env w p (new_session_graph env) = Inr (r1, s1) \<and>
      (s = s1 \<or> s = initMemReclaim env p s1))"
    using assms unfolding session_initialize_def by (auto simp: bindE_eq_Inr split: option.splits if_splits prod.splits)
  then show ?thesis using new buildGraph_settings [OF _ new] initMemReclaim_ok by blast
qed

definition sample_world :: graph_world where
  "sample_world = \<lparr>plugins = (\<lambda>n. if n = ''gone'' then None else Some (\<lambda>_. True)), files = (\<lambda>_. Some ''text''), ftells = True,
     parseDoc = (\<lambda>_. Some (print_pipeline sample_description)), junkType = SinkLink, g_forceSEBokehAuxMfsr = False\<rparr>"

lemma sample_session_ok: "is_ok (session_initialize mtk_env sample_world (Some sample_params) (new_session_graph mtk_env))"
  by code_simp

theorem session_settings_witness:
  "\<exists>r s. session_initialize mtk_env sample_world (Some sample_params) (new_session_graph mtk_env) = Inr (r, s) \<and> settings_ok s"
  using sample_session_ok session_settings [of mtk_env sample_world "Some sample_params"] by (auto simp: is_ok_iff)

text \<open>When building the graph succeeds, every node of the description the session read has a node object
  with the plugin of its name, the pruner works on exactly that description with the copy node
  added, and the source ports of the session are those of its links, in order.\<close>

theorem graph_ready:
  assumes "buildGraph env w params (new_session_graph env) = Inr (MIAS_OK, s)"
  shows "\<exists>f burst lifo rc p pr. selectFile env (g_forceSEBokehAuxMfsr w) params = Inr (f, burst, lifo) \<and>
    parseJson2Struct (junkType w) (parseDoc w (readFile (ftells w) (files w f))) blank_pipeline = Inr (rc, p) \<and>
    mPipelinePruner s = Some pr \<and> mNodes pr = sgNodes s \<and> links (mRawPipeline pr) = links p \<and>
    nodes (mRawPipeline pr) = sm_insert newMemcpyInstance memcpyItem (nodes p) \<and>
    (\<forall>(k, item) \<in> set (nodes p). \<exists>pl. sm_find (sgNodes s) k = Some (Some pl) \<and> plugins w (nodeName item) = Some pl) \<and>
    mSourcePortIdVec s = sourcePorts (links p) \<and> mSelectedPipelineName s = pipelineName p"
proof -
  obtain f burst lifo where f: "selectFile env (g_forceSEBokehAuxMfsr w) params = Inr (f, burst, lifo)"
    using assms unfolding buildGraph_def bindE_eq_Inr by auto
  obtain rc p s1 where p: "parseJson2Struct (junkType w) (parseDoc w (readFile (ftells w) (files w f))) blank_pipeline = Inr (rc, p)" and
    b: "buildNodes env w params p s1 = Inr (MIAS_OK, s)" and s1: "mSourcePortIdVec s1 = []"
    using assms f unfolding buildGraph_def Let_def
    by (auto simp: bindE_eq_Inr new_session_graph_def split: if_splits)
  have "description_ok (junkType w) p" using parsed_description [OF p blank_ok] .
  from buildNodes_ready [OF b this] s1 p f show ?thesis by fastforce
qed

lemma sample_graph_ok:
  "(case buildGraph mtk_env sample_world sample_params (new_session_graph mtk_env) of Inl _ \<Rightarrow> False | Inr (r, s) \<Rightarrow> r = MIAS_OK)"
  by code_simp

theorem graph_ready_witness:
  "\<exists>s pr. buildGraph mtk_env sample_world sample_params (new_session_graph mtk_env) = Inr (MIAS_OK, s) \<and>
     mPipelinePruner s = Some pr \<and> mNodes pr = sgNodes s"
proof -
  obtain s where "buildGraph mtk_env sample_world sample_params (new_session_graph mtk_env) = Inr (MIAS_OK, s)"
    using sample_graph_ok by (auto split: sum.splits prod.splits)
  then show ?thesis using graph_ready by blast
qed

text \<open>The failure of the copy node is lost when another node comes after it: the graph is built and reports
  success, the description lists the copy node, but there is no node object for it, and a
  request that needs the copy cannot run it.\<close>

theorem lost_bridge_error:
  "(case buildGraph mtk_env (sample_world\<lparr>plugins := (\<lambda>n. if n = ''com.xiaomi.plugin.memcpy'' then None else Some (\<lambda>_. True))\<rparr>)
           sample_params (new_session_graph mtk_env) of
      Inl _ \<Rightarrow> False
    | Inr (r, s) \<Rightarrow> r = MIAS_OK \<and> sm_find (sgNodes s) newMemcpyInstance = None \<and>
        (case mPipelinePruner s of None \<Rightarrow> False
         | Some pr \<Rightarrow> (case sm_find (nodes (mRawPipeline pr)) newMemcpyInstance of None \<Rightarrow> False | Some n \<Rightarrow> \<not> isEnable n)))"
  by code_simp

end
