(* ===== verification/BufferPool.thy ===== *)
theory BufferPool
  imports PipelineRun
begin

text \<open>
  The pool of internal images of one format (\<open>BufferQueueWrapper\<close> of
  \<^verbatim>\<open>mivifwk/mialgoengine/MiaOfflineSession.cpp\<close>): images are created on the buffers of a
  \<open>MiaBufferManager\<close>, wait in a queue while no node uses them, and are destroyed when memory is
  reclaimed.  The theory shows that two images never share a buffer, that the pool stays within
  its bound, and that nothing of it is left when the session ends.
\<close>

abbreviation MINIMUM_BUFFER_QUEUE_DEPTH :: nat where "MINIMUM_BUFFER_QUEUE_DEPTH \<equiv> 1"
abbreviation DEFAULT_BUFFER_QUEUE_DEPTH :: nat where "DEFAULT_BUFFER_QUEUE_DEPTH \<equiv> 2"
abbreviation MAX_BUFFER_QUEUE_DEPTH :: u32 where "MAX_BUFFER_QUEUE_DEPTH \<equiv> 20"

record BufferQueueWrapper =
  mBufferFormat :: FrameInfo
  mPbufferManager :: "MiaBufferManager option"
  mBufferQueue :: "nat tsq"
  mBufferWrapperId :: u32
  mThresholdValue :: int
  wimages :: "nat \<Rightarrow> MiaImage"

text \<open>What the environment answers when images are created: the allocator, and the addresses \<open>new\<close> returns.\<close>

record pool_answers =
  allocs :: "alloc_answers list"
  newIds :: "nat list"
  staleMember :: u32

text \<open>The last reference to an image is dropped: its destructor runs.\<close>

definition dropImage :: "nat \<Rightarrow> BufferQueueWrapper \<Rightarrow> BufferQueueWrapper outcome" where
  "dropImage i w =
     bindE (destroyImage (wimages w i) (mPbufferManager w)) (\<lambda>(bm, _). Inr (w\<lparr>mPbufferManager := bm\<rparr>))"

text \<open>An image the closed queue does not take loses its last reference.\<close>

definition offerToQueue :: "nat \<Rightarrow> BufferQueueWrapper \<Rightarrow> BufferQueueWrapper outcome" where
  "offerToQueue i w =
     (case tsq_push i (mBufferQueue w) of
        (True, q) \<Rightarrow> Inr (w\<lparr>mBufferQueue := q\<rparr>)
      | (False, q) \<Rightarrow> dropImage i w)"

fun newImages :: "mia_env \<Rightarrow> u32 \<Rightarrow> nat list \<Rightarrow> BufferQueueWrapper \<Rightarrow> BufferQueueWrapper outcome" where
  "newImages env stale [] w = Inr w"
| "newImages env stale (i # is) w =
     bindE (new_internal env stale (mBufferFormat w) (mPbufferManager w)) (\<lambda>(im, bm).
     bindE (offerToQueue i (w\<lparr>mPbufferManager := bm, wimages := (wimages w)(i := im)\<rparr>)) (newImages env stale is))"

text \<open>One allocator answer and one address per requested buffer.\<close>

definition increaseImageQueue :: "mia_env \<Rightarrow> pool_answers \<Rightarrow> BufferQueueWrapper \<Rightarrow> (CDKResult \<times> BufferQueueWrapper) outcome" where
  "increaseImageQueue env ans w =
     (case mPbufferManager w of
        None \<Rightarrow> Inr (MIAS_INVALID_PARAM, w)
      | Some m \<Rightarrow>
          if mNumBuffers m \<ge> MAX_BUFFER_QUEUE_DEPTH then Inr (MIAS_NO_MEM, w)
          else bindE (allocateMoreBuffers (allocs ans) m) (\<lambda>(result, m1).
                 let w1 = w\<lparr>mPbufferManager := Some m1\<rparr>
                 in if result \<noteq> MIAS_OK then Inr (MIAS_NO_MEM, w1)
                    else bindE (newImages env (staleMember ans) (newIds ans) w1) (\<lambda>w2. Inr (result, w2))))"

text \<open>
  The wait for an image is \<open>WouldBlock\<close> when no image can come.  The log statement after it
  reads the use count of the image, also of none.
\<close>

definition dequeueBuffer :: "mia_env \<Rightarrow> pool_answers \<Rightarrow> BufferQueueWrapper \<Rightarrow> (nat \<times> BufferQueueWrapper) outcome" where
  "dequeueBuffer env ans w =
     bindE (if tsq_isEmpty (mBufferQueue w)
            then bindE (increaseImageQueue env ans w) (\<lambda>(_, w1). Inr w1)
            else Inr w) (\<lambda>w1.
       case waitAndPop (mBufferQueue w1) of
         None \<Rightarrow> Inl WouldBlock
       | Some r \<Rightarrow>
           bindE r (\<lambda>(img, q).
             case img of
               None \<Rightarrow> Inl NullDeref
             | Some i \<Rightarrow>
                 Inr (i, w1\<lparr>mBufferQueue := q, wimages := (wimages w1)(i := snd (increaseUseCount (wimages w1 i)))\<rparr>)))"

definition enqueueBuffer :: "nat \<Rightarrow> BufferQueueWrapper \<Rightarrow> BufferQueueWrapper outcome" where
  "enqueueBuffer i w =
     (let (c, im) = decreaseUseCount (wimages w i);
          w1 = w\<lparr>wimages := (wimages w)(i := im)\<rparr>
      in if c = 0 then offerToQueue i w1 else Inr w1)"

definition getFreeBufferQueueSize :: "BufferQueueWrapper \<Rightarrow> nat" where
  "getFreeBufferQueueSize w = queueSize (mBufferQueue w)"

definition getTotalBufferSize :: "BufferQueueWrapper \<Rightarrow> int outcome" where
  "getTotalBufferSize w = (case mPbufferManager w of None \<Rightarrow> Inl NullDeref | Some m \<Rightarrow> Inr (sint (mNumBuffers m)))"

text \<open>The loops that shrink the queue to \<open>n\<close> images.\<close>

fun shrink :: "nat \<Rightarrow> nat list \<Rightarrow> BufferQueueWrapper \<Rightarrow> BufferQueueWrapper outcome" where
  "shrink n [] w = Inr w"
| "shrink n (i # is) w =
     (if queueSize (mBufferQueue w) > n
      then bindE (dropImage i (w\<lparr>mBufferQueue := snd (tryPop (mBufferQueue w))\<rparr>)) (shrink n is)
      else Inr w)"

definition clearOutDefaultBuffer :: "BufferQueueWrapper \<Rightarrow> BufferQueueWrapper outcome" where
  "clearOutDefaultBuffer w = shrink DEFAULT_BUFFER_QUEUE_DEPTH (mQueue (mBufferQueue w)) w"

definition clearOutThresholdBuffer :: "BufferQueueWrapper \<Rightarrow> BufferQueueWrapper outcome" where
  "clearOutThresholdBuffer w =
     bindE (getTotalBufferSize w) (\<lambda>total.
       if total > mThresholdValue w then shrink MINIMUM_BUFFER_QUEUE_DEPTH (mQueue (mBufferQueue w)) w else Inr w)"

definition setBufferThresholdValue :: "u32 \<Rightarrow> BufferQueueWrapper \<Rightarrow> BufferQueueWrapper" where
  "setBufferThresholdValue v w = w\<lparr>mThresholdValue := sint v\<rparr>"

definition wrapper_flush :: "BufferQueueWrapper \<Rightarrow> BufferQueueWrapper" where
  "wrapper_flush w = w\<lparr>mBufferQueue := releaseQueue (mBufferQueue w)\<rparr>"

text \<open>Clearing the queue drops its images; the buffers of the manager follow.\<close>

definition wrapper_destroy :: "BufferQueueWrapper \<Rightarrow> BufferQueueWrapper outcome" where
  "wrapper_destroy w =
     bindE (shrink 0 (mQueue (mBufferQueue w)) w) (\<lambda>w1.
       case mPbufferManager w1 of
         None \<Rightarrow> Inr w1
       | Some m \<Rightarrow> bindE (bm_destroy m) (\<lambda>m'. Inr (w1\<lparr>mPbufferManager := Some m'\<rparr>)))"

text \<open>
  \<open>m0\<close> is the memory the manager's \<open>new\<close> returns.  When no manager can be created the wrapper
  is destroyed and deleted; \<open>None\<close> is the null result.
\<close>

definition wrapper_initialize ::
  "mia_env \<Rightarrow> pool_answers \<Rightarrow> FrameInfo \<Rightarrow> u32 \<Rightarrow> MiaBufferManager \<Rightarrow> BufferQueueWrapper \<Rightarrow>
     (CDKResult \<times> BufferQueueWrapper) outcome" where
  "wrapper_initialize env ans format wrapperId m0 w =
     bindE (bm_create (allocs ans)
              \<lparr>cd_width = fwidth format, cd_height = fheight format, cd_format = fformat format, cd_bufferType = ION_TYPE\<rparr> m0) (\<lambda>(bm, _).
       let w1 = w\<lparr>mBufferQueue := clearQueue (mBufferQueue w), mBufferFormat := format, mBufferWrapperId := wrapperId,
                  mPbufferManager := bm\<rparr>
       in case bm of
            None \<Rightarrow> Inr (MIAS_NO_MEM, w1)
          | Some m \<Rightarrow>
              bindE (newImages env (staleMember ans) (take (unat (mNumBuffers m)) (newIds ans)) w1) (\<lambda>w2. Inr (MIAS_OK, w2)))"

definition wrapper_create ::
  "mia_env \<Rightarrow> pool_answers \<Rightarrow> FrameInfo \<Rightarrow> u32 \<Rightarrow> MiaBufferManager \<Rightarrow> BufferQueueWrapper \<Rightarrow> BufferQueueWrapper option outcome" where
  "wrapper_create env ans format wrapperId m0 w =
     bindE (wrapper_initialize env ans format wrapperId m0 w) (\<lambda>(result, w1).
       if result \<noteq> MIAS_OK then bindE (wrapper_destroy w1) (\<lambda>_. Inr None) else Inr (Some w1))"

subsection \<open>The invariant\<close>

text \<open>
  \<open>used\<close> are the images handed out.  Every buffer in flight belongs to exactly one image of the
  pool; waiting images are not in use, the others are; all have the format of the pool.
\<close>

definition handle_of :: "BufferQueueWrapper \<Rightarrow> nat \<Rightarrow> nat option" where
  "handle_of w i = mInternalBufHandle (wimages w i)"

definition image_ok :: "BufferQueueWrapper \<Rightarrow> nat \<Rightarrow> bool" where
  "image_ok w i \<longleftrightarrow> handle_of w i \<noteq> None \<and> imType (wimages w i) = MI_IMG_INTERNAL \<and>
     isMatchFormat (mBufferFormat w) (mFormat (wimages w i))"

definition live :: "nat list \<Rightarrow> BufferQueueWrapper \<Rightarrow> nat list" where
  "live used w = mQueue (mBufferQueue w) @ used"

definition pool_inv :: "kernel \<Rightarrow> nat list \<Rightarrow> MiaBufferManager \<Rightarrow> BufferQueueWrapper \<Rightarrow> bool" where
  "pool_inv base used m w \<longleftrightarrow> mPbufferManager w = Some m \<and> bm_ok base m \<and> \<not> mRelease (mBufferQueue w) \<and>
     distinct (live used w) \<and> (\<forall>i \<in> set (live used w). image_ok w i) \<and>
     mset (map Some (mBufferOutList m)) = mset (map (handle_of w) (live used w)) \<and>
     (\<forall>i \<in> set (mQueue (mBufferQueue w)). mUseCount (wimages w i) = 0) \<and>
     (\<forall>i \<in> set used. mUseCount (wimages w i) \<noteq> 0)"

definition pool_ok :: "kernel \<Rightarrow> nat list \<Rightarrow> BufferQueueWrapper \<Rightarrow> bool" where
  "pool_ok base used w \<longleftrightarrow> (\<exists>m. pool_inv base used m w \<and> mBufferList m = [] \<and> length (live used w) \<le> 20)"

lemma handle_of_frame [simp]:
  "handle_of (w\<lparr>mBufferQueue := q\<rparr>) = handle_of w" "handle_of (w\<lparr>mPbufferManager := bm\<rparr>) = handle_of w"
  "image_ok (w\<lparr>mBufferQueue := q\<rparr>) = image_ok w" "image_ok (w\<lparr>mPbufferManager := bm\<rparr>) = image_ok w"
  "handle_of (w\<lparr>mThresholdValue := t\<rparr>) = handle_of w" "image_ok (w\<lparr>mThresholdValue := t\<rparr>) = image_ok w"
  by (simp_all add: handle_of_def image_ok_def fun_eq_iff)

lemma padStrides_format:
  "padStrides pad wd fmt = Inr fmt' \<Longrightarrow> fwidth fmt' = fwidth fmt \<and> fheight fmt' = fheight fmt \<and> fformat fmt' = fformat fmt"
  by (auto simp: padStrides_def bindE_eq_Inr)

lemma new_internal_format:
  assumes "new_internal env stale fmt (Some m) = Inr (im, mo)"
  shows "isMatchFormat fmt (mFormat im) \<and> mUseCount im = 0"
proof -
  obtain a m1 where g: "getBuffer m = (Some a, m1)"
    using assms by (cases "getBuffer m"; cases "fst (getBuffer m)") (auto simp: new_internal_def Let_def)
  obtain b where b: "bheap m1 a = Some b"
    using assms g by (cases "bheap m1 a") (auto simp: new_internal_def Let_def)
  show ?thesis
  proof (cases "ibuffer (ionHandle b)")
    case None
    then show ?thesis using assms g b by (auto simp: new_internal_def Let_def blankImage_def isMatchFormat_def)
  next
    case (Some frame)
    then show ?thesis
      using assms g b
      by (auto simp: new_internal_def Let_def blankImage_def bindE_eq_Inr isMatchFormat_def internalStrides_def rawStrides_def
          dest!: padStrides_format split: if_splits prod.splits)
  qed
qed

lemma pool_inv_count:
  assumes "pool_inv base used m w" and "mBufferList m = []"
  shows "mNumBuffers m = of_nat (length (live used w))"
proof -
  have "length (mBufferOutList m) = length (live used w)"
    using assms(1) unfolding pool_inv_def by (metis length_map size_mset)
  then show ?thesis using assms by (simp add: pool_inv_def bm_ok_def pool_def)
qed

lemma newImages_inv:
  assumes "pool_inv base used m w" and "newImages env stale is w = Inr w'"
    and "distinct is" and "set is \<inter> set (live used w) = {}"
  shows "\<exists>m'. pool_inv base used m' w' \<and> mBufferList m' = drop (length is) (mBufferList m) \<and>
    length is \<le> length (mBufferList m) \<and> mQueue (mBufferQueue w') = mQueue (mBufferQueue w) @ is \<and>
    mBufferFormat w' = mBufferFormat w \<and> mThresholdValue w' = mThresholdValue w \<and> (\<forall>j. j \<notin> set is \<longrightarrow> wimages w' j = wimages w j)"
  using assms
proof (induction "is" arbitrary: m w)
  case Nil
  then show ?case by auto
next
  case (Cons i rest)
  note inv = Cons.prems(1)
  have w: "mPbufferManager w = Some m" "bm_ok base m" "\<not> mRelease (mBufferQueue w)" using inv by (simp_all add: pool_inv_def)
  obtain im mo where n: "new_internal env stale (mBufferFormat w) (Some m) = Inr (im, mo)"
    using Cons.prems(2) w by (cases "new_internal env stale (mBufferFormat w) (Some m)") auto
  obtain a m1 where g: "getBuffer m = (Some a, m1)" and im: "mo = Some m1" "mInternalBufHandle im = Some a"
    "imType im = MI_IMG_INTERNAL" "bm_ok base m1"
    using new_internal_ok [OF w(2) n] by blast
  have l: "mBufferList m = a # mBufferList m1" "mBufferOutList m1 = mBufferOutList m @ [a]"
    using g by (auto simp: getBuffer_def split: list.splits)
  let ?w1 = "w\<lparr>mPbufferManager := Some m1, wimages := (wimages w)(i := im),
    mBufferQueue := (mBufferQueue w)\<lparr>mQueue := mQueue (mBufferQueue w) @ [i]\<rparr>\<rparr>"
  have rest: "newImages env stale rest ?w1 = Inr w'"
    using Cons.prems(2) w n im by (simp add: offerToQueue_def tsq_push_def)
  have i: "i \<notin> set (live used w)" using Cons.prems(4) by auto
  have "pool_inv base used m1 ?w1"
  proof -
    have h1: "map (handle_of ?w1) (live used w) = map (handle_of w) (live used w)" using i by (auto simp: handle_of_def)
    have "mset (map (handle_of ?w1) (live used ?w1)) = add_mset (handle_of ?w1 i) (mset (map (handle_of ?w1) (live used w)))"
      by (simp add: live_def)
    also have "\<dots> = add_mset (Some a) (mset (map (handle_of w) (live used w)))"
      unfolding h1 by (simp add: handle_of_def im)
    finally show ?thesis
      using inv i im l new_internal_format [OF n] by (auto simp: pool_inv_def image_ok_def live_def handle_of_def)
  qed
  moreover have "set rest \<inter> set (live used ?w1) = {}" "distinct rest"
    using Cons.prems(3,4) by (auto simp: live_def)
  ultimately obtain m' where m': "pool_inv base used m' w'" "mBufferList m' = drop (length rest) (mBufferList m1)"
    "length rest \<le> length (mBufferList m1)" "mQueue (mBufferQueue w') = mQueue (mBufferQueue ?w1) @ rest"
    "mBufferFormat w' = mBufferFormat ?w1" "mThresholdValue w' = mThresholdValue ?w1" "\<forall>j. j \<notin> set rest \<longrightarrow> wimages w' j = wimages ?w1 j"
    using Cons.IH [OF _ rest] by blast
  show ?case using m' l by (intro exI [of _ m']) auto
qed

lemma dropImage_inv:
  assumes "pool_inv base used m w" and "mQueue (mBufferQueue w) = i # is"
  shows "\<exists>m' w'. dropImage i (w\<lparr>mBufferQueue := snd (tryPop (mBufferQueue w))\<rparr>) = Inr w' \<and> pool_inv base used m' w' \<and>
    mBufferList m' = mBufferList m \<and> mQueue (mBufferQueue w') = is \<and> wimages w' = wimages w \<and>
    mBufferFormat w' = mBufferFormat w \<and> mThresholdValue w' = mThresholdValue w"
proof -
  have w: "mPbufferManager w = Some m" "bm_ok base m" using assms(1) by (simp_all add: pool_inv_def)
  have "i \<in> set (live used w)" using assms(2) by (simp add: live_def)
  then obtain a where a: "handle_of w i = Some a" and ty: "imType (wimages w i) = MI_IMG_INTERNAL"
    using assms(1) by (auto simp: pool_inv_def image_ok_def)
  have ms: "image_mset Some (mset (mBufferOutList m)) = add_mset (Some a) (mset (map (handle_of w) (is @ used)))"
    using assms a by (simp add: pool_inv_def live_def)
  then have "Some a \<in># image_mset Some (mset (mBufferOutList m))" by simp
  then have mem: "a \<in> set (mBufferOutList m)" by auto
  obtain m' where m': "releaseImageBuffer (Some a) m = Inr m'" "bm_ok base m'" "mBufferList m' = mBufferList m"
    "mBufferOutList m' = remove1 a (mBufferOutList m)"
    using releaseImageBuffer_ok [OF w(2) mem] by blast
  let ?w' = "w\<lparr>mBufferQueue := (mBufferQueue w)\<lparr>mQueue := is\<rparr>, mPbufferManager := Some m'\<rparr>"
  have d: "dropImage i (w\<lparr>mBufferQueue := snd (tryPop (mBufferQueue w))\<rparr>) = Inr ?w'"
    using assms(2) a ty m'(1) w(1) by (simp add: dropImage_def destroyImage_def handle_of_def tryPop_def Let_def)
  have "mset (map Some (mBufferOutList m')) = mset (map (handle_of w) (is @ used))"
    using ms mem by (simp add: m'(4) image_mset_Diff)
  then have "pool_inv base used m' ?w'"
    using assms m'(2) by (auto simp: pool_inv_def live_def)
  then show ?thesis using d m'(3) by (intro exI [of _ m'] exI [of _ ?w']) simp
qed

lemma shrink_inv:
  assumes "pool_inv base used m w"
  shows "\<exists>m' w'. shrink n (mQueue (mBufferQueue w)) w = Inr w' \<and> pool_inv base used m' w' \<and> mBufferList m' = mBufferList m \<and>
    mQueue (mBufferQueue w') = drop (length (mQueue (mBufferQueue w)) - n) (mQueue (mBufferQueue w))"
  using assms
proof (induction "mQueue (mBufferQueue w)" arbitrary: m w)
  case Nil
  then have "shrink n (mQueue (mBufferQueue w)) w = Inr w" by (metis shrink.simps(1))
  then show ?case using Nil by auto
next
  case (Cons i rest)
  have q: "mQueue (mBufferQueue w) = i # rest" using Cons.hyps(2) by simp
  show ?case
  proof (cases "length (i # rest) > n")
    case False
    then show ?thesis using Cons.prems q by (auto simp: queueSize_def)
  next
    case True
    obtain m1 w1 where d: "dropImage i (w\<lparr>mBufferQueue := snd (tryPop (mBufferQueue w))\<rparr>) = Inr w1" "pool_inv base used m1 w1"
      "mBufferList m1 = mBufferList m" "mQueue (mBufferQueue w1) = rest"
      using dropImage_inv [OF Cons.prems q] by blast
    have "shrink n (mQueue (mBufferQueue w)) w = shrink n (mQueue (mBufferQueue w1)) w1"
      using True q d(1,4) by (simp add: queueSize_def)
    then show ?thesis using Cons.hyps(1) [OF d(4) [symmetric] d(2)] d(3,4) q True by (auto simp: Suc_diff_le)
  qed
qed

text \<open>The environment keeps its word: fresh memory and fresh addresses for a single image.\<close>

definition single_answer :: "nat list \<Rightarrow> BufferQueueWrapper \<Rightarrow> pool_answers \<Rightarrow> bool" where
  "single_answer used w ans \<longleftrightarrow> length (allocs ans) = 1 \<and>
     (\<forall>m. mPbufferManager w = Some m \<longrightarrow> malloc_ok (allocs ans) m) \<and> (\<exists>i. newIds ans = [i] \<and> i \<notin> set (live used w))"

lemma allocateMore_single:
  assumes "bm_ok base m" and "malloc_ok answers m" and "length answers = 1" and "mBufferList m = []"
    and "allocateMoreBuffers answers m = Inr (r, m')"
  shows "bm_ok base m' \<and> mBufferOutList m' = mBufferOutList m \<and> length (mBufferList m') = (if r = MIAS_OK then 1 else 0)"
proof -
  have "length (mBufferList m') \<le> 1"
    using assms(3-5) unfolding allocateMoreBuffers_def allocateBuffers_def
    by (cases answers) (auto simp: bindE_eq_Inr split: option.splits buffer_type.splits if_splits prod.splits)
  then show ?thesis
    using allocateBuffers_ok [OF assms(1,2) assms(5) [unfolded allocateMoreBuffers_def]] assms(4)
    by (cases "mBufferList m'") auto
qed

lemma pool_ok_count:
  assumes "pool_ok base used w" and "mPbufferManager w = Some m"
  shows "unat (mNumBuffers m) = length (live used w) \<and> length (live used w) \<le> 20"
proof -
  have "pool_inv base used m w" "mBufferList m = []" "length (live used w) \<le> 20"
    using assms by (auto simp: pool_ok_def pool_inv_def)
  then show ?thesis using pool_inv_count by (simp add: unsigned_of_nat take_bit_nat_eq_self)
qed

lemma increaseImageQueue_ok:
  assumes "pool_ok base used w" and "single_answer used w ans" and "increaseImageQueue env ans w = Inr (r, w')"
  shows "pool_ok base used w' \<and> mQueue (mBufferQueue w') = mQueue (mBufferQueue w) @ (if r = MIAS_OK then newIds ans else [])"
proof -
  obtain m where inv: "pool_inv base used m w" "mBufferList m = []" "length (live used w) \<le> 20"
    using assms(1) by (auto simp: pool_ok_def)
  then have w: "mPbufferManager w = Some m" "bm_ok base m" by (simp_all add: pool_inv_def)
  show ?thesis
  proof (cases "mNumBuffers m \<ge> MAX_BUFFER_QUEUE_DEPTH")
    case True
    then show ?thesis using assms(1,3) w by (auto simp: increaseImageQueue_def)
  next
    case False
    then have small: "length (live used w) < 20"
      using pool_ok_count [OF assms(1) w(1)] by (simp add: word_le_nat_alt)
    obtain i where i: "newIds ans = [i]" "i \<notin> set (live used w)" "length (allocs ans) = 1" "malloc_ok (allocs ans) m"
      using assms(2) w(1) by (auto simp: single_answer_def)
    obtain r1 m1 where a: "allocateMoreBuffers (allocs ans) m = Inr (r1, m1)"
      using assms(3) w False by (cases "allocateMoreBuffers (allocs ans) m") (auto simp: increaseImageQueue_def)
    have m1: "bm_ok base m1" "mBufferOutList m1 = mBufferOutList m" "length (mBufferList m1) = (if r1 = MIAS_OK then 1 else 0)"
      using allocateMore_single [OF w(2) i(4,3) inv(2) a] by auto
    let ?w1 = "w\<lparr>mPbufferManager := Some m1\<rparr>"
    have inv1: "pool_inv base used m1 ?w1" using inv(1) m1 by (auto simp: pool_inv_def live_def)
    show ?thesis
    proof (cases "r1 = MIAS_OK")
      case False
      then have "w' = ?w1" "r \<noteq> MIAS_OK"
        using assms(3) w a \<open>\<not> mNumBuffers m \<ge> MAX_BUFFER_QUEUE_DEPTH\<close> by (auto simp: increaseImageQueue_def Let_def)
      then show ?thesis using inv1 inv(3) m1(3) False by (auto simp: pool_ok_def live_def)
    next
      case True
      then have n: "newImages env (staleMember ans) [i] ?w1 = Inr w'" "r = MIAS_OK"
        using assms(3) w a i(1) \<open>\<not> mNumBuffers m \<ge> MAX_BUFFER_QUEUE_DEPTH\<close>
        by (auto simp: increaseImageQueue_def Let_def bindE_eq_Inr)
      have "set [i] \<inter> set (live used ?w1) = {}" using i(2) by (simp add: live_def)
      then obtain m' where "pool_inv base used m' w'" "mBufferList m' = drop (length [i]) (mBufferList m1)"
        "mQueue (mBufferQueue w') = mQueue (mBufferQueue ?w1) @ [i]"
        using newImages_inv [OF inv1 n(1)] by auto
      then show ?thesis using m1(3) True n(2) i(1) small by (auto simp: pool_ok_def live_def)
    qed
  qed
qed

lemma pop_ok:
  assumes "pool_ok base used w" and "mQueue (mBufferQueue w) = j # q"
  shows "pool_ok base (used @ [j])
    (w\<lparr>mBufferQueue := (mBufferQueue w)\<lparr>mQueue := q\<rparr>, wimages := (wimages w)(j := snd (increaseUseCount (wimages w j)))\<rparr>)"
    (is "pool_ok base _ ?w'")
proof -
  obtain m where inv: "pool_inv base used m w" "mBufferList m = []" "length (live used w) \<le> 20"
    using assms(1) by (auto simp: pool_ok_def)
  have h: "handle_of ?w' = handle_of w" "image_ok ?w' = image_ok w"
    by (auto simp: handle_of_def image_ok_def fun_eq_iff increaseUseCount_def)
  have "pool_inv base (used @ [j]) m ?w'"
    using inv(1) assms(2) unfolding pool_inv_def h by (auto simp: live_def increaseUseCount_def)
  then show ?thesis using inv(2,3) assms(2) by (auto simp: pool_ok_def live_def)
qed

lemma dequeueBuffer_ok:
  assumes "pool_ok base used w" and "single_answer used w ans" and "dequeueBuffer env ans w = Inr (j, w')"
  shows "pool_ok base (used @ [j]) w'"
proof -
  obtain w1 where w1: "pool_ok base used w1" and
    pop: "(case waitAndPop (mBufferQueue w1) of
         None \<Rightarrow> Inl WouldBlock
       | Some r \<Rightarrow> bindE r (\<lambda>(img, q). case img of None \<Rightarrow> Inl NullDeref
             | Some i \<Rightarrow> Inr (i, w1\<lparr>mBufferQueue := q, wimages := (wimages w1)(i := snd (increaseUseCount (wimages w1 i)))\<rparr>))) = Inr (j, w')"
  proof (cases "tsq_isEmpty (mBufferQueue w)")
    case False
    then show ?thesis using that [OF assms(1)] assms(3) by (simp add: dequeueBuffer_def)
  next
    case True
    then obtain r w1 where i: "increaseImageQueue env ans w = Inr (r, w1)"
      using assms(3) by (cases "increaseImageQueue env ans w") (auto simp: dequeueBuffer_def)
    then show ?thesis using that [of w1] increaseImageQueue_ok [OF assms(1,2) i] assms(3) True by (simp add: dequeueBuffer_def)
  qed
  have nr: "\<not> mRelease (mBufferQueue w1)" using w1 by (auto simp: pool_ok_def pool_inv_def)
  then obtain q where "mQueue (mBufferQueue w1) = j # q" and
    "w' = w1\<lparr>mBufferQueue := (mBufferQueue w1)\<lparr>mQueue := q\<rparr>, wimages := (wimages w1)(j := snd (increaseUseCount (wimages w1 j)))\<rparr>"
    using pop by (cases "mQueue (mBufferQueue w1)") (auto simp: waitAndPop_def popFront_def)
  then show ?thesis using pop_ok [OF w1] by simp
qed

lemma use_ok:
  assumes "pool_ok base used w" and "i \<in> set used" and "c \<noteq> 0"
  shows "pool_ok base used (w\<lparr>wimages := (wimages w)(i := (wimages w i)\<lparr>mUseCount := c\<rparr>)\<rparr>)" (is "pool_ok base used ?w'")
proof -
  obtain m where inv: "pool_inv base used m w" "mBufferList m = []" "length (live used w) \<le> 20"
    using assms(1) by (auto simp: pool_ok_def)
  have h: "handle_of ?w' = handle_of w" "image_ok ?w' = image_ok w" "live used ?w' = live used w"
    by (auto simp: handle_of_def image_ok_def fun_eq_iff live_def)
  have "i \<notin> set (mQueue (mBufferQueue w))" using inv(1) assms(2) by (auto simp: pool_inv_def live_def)
  then have "pool_inv base used m ?w'"
    using inv(1) assms(2,3) unfolding pool_inv_def h by (auto simp: increaseUseCount_def)
  then show ?thesis using inv(2,3) h(3) by (auto simp: pool_ok_def)
qed

lemma enqueueBuffer_ok:
  assumes "pool_ok base used w" and "i \<in> set used"
  shows "\<exists>w'. enqueueBuffer i w = Inr w' \<and>
    pool_ok base (if mUseCount (wimages w i) = 1 then remove1 i used else used) w'"
proof (cases "mUseCount (wimages w i) = 1")
  case False
  then have "mUseCount (wimages w i) - 1 \<noteq> 0" by simp
  then have "enqueueBuffer i w = Inr (w\<lparr>wimages := (wimages w)(i := (wimages w i)\<lparr>mUseCount := mUseCount (wimages w i) - 1\<rparr>)\<rparr>)"
    by (simp add: enqueueBuffer_def decreaseUseCount_def)
  then show ?thesis using use_ok [OF assms(1,2) \<open>mUseCount (wimages w i) - 1 \<noteq> 0\<close>] False by simp
next
  case True
  obtain m where inv: "pool_inv base used m w" "mBufferList m = []" "length (live used w) \<le> 20"
    using assms(1) by (auto simp: pool_ok_def)
  let ?w' = "w\<lparr>wimages := (wimages w)(i := (wimages w i)\<lparr>mUseCount := 0\<rparr>),
    mBufferQueue := (mBufferQueue w)\<lparr>mQueue := mQueue (mBufferQueue w) @ [i]\<rparr>\<rparr>"
  have e: "enqueueBuffer i w = Inr ?w'"
    using True inv(1) by (simp add: enqueueBuffer_def decreaseUseCount_def offerToQueue_def tsq_push_def pool_inv_def)
  have h: "handle_of ?w' = handle_of w" "image_ok ?w' = image_ok w"
    by (auto simp: handle_of_def image_ok_def fun_eq_iff)
  have perm: "mset (live (remove1 i used) ?w') = mset (live used w)"
    using assms(2) by (simp add: live_def)
  have "distinct (live (remove1 i used) ?w')"
    using mset_eq_imp_distinct_iff [OF perm] inv(1) by (simp add: pool_inv_def)
  moreover have "set (live (remove1 i used) ?w') = set (live used w)" by (rule mset_eq_setD [OF perm])
  moreover have "mset (map (handle_of w) (live (remove1 i used) ?w')) = mset (map (handle_of w) (live used w))"
    by (simp only: mset_map perm)
  ultimately have "pool_inv base (remove1 i used) m ?w'"
    using inv(1) unfolding pool_inv_def h by (auto dest: notin_set_remove1) (auto simp: live_def)
  then show ?thesis using e True inv(2,3) mset_eq_length [OF perm] by (auto simp: pool_ok_def)
qed

lemma shrink_ok:
  assumes "pool_ok base used w"
  shows "\<exists>w'. shrink n (mQueue (mBufferQueue w)) w = Inr w' \<and> pool_ok base used w' \<and>
    mQueue (mBufferQueue w') = drop (length (mQueue (mBufferQueue w)) - n) (mQueue (mBufferQueue w))"
proof -
  obtain m where inv: "pool_inv base used m w" "mBufferList m = []" "length (live used w) \<le> 20"
    using assms(1) by (auto simp: pool_ok_def)
  then show ?thesis using shrink_inv [OF inv(1), of n] by (fastforce simp: pool_ok_def live_def)
qed

subsection \<open>Runs of a pool\<close>

lemma allocLoop_le:
  "allocLoop answers wd h f (m, n) = Inr (m', n') \<Longrightarrow> length (mBufferList m') \<le> length (mBufferList m) + length answers"
proof (induction answers arbitrary: m n)
  case (Cons ans rest)
  show ?case
  proof (cases "mallocRes ans")
    case None
    then show ?thesis using Cons by fastforce
  next
    case (Some a)
    then show ?thesis
      using Cons.prems
      by (auto simp: bindE_eq_Inr pushBuffer_def onbuffersAllocated_def Let_def
          split: buffer_type.splits if_splits prod.splits dest!: Cons.IH)
  qed
qed simp

definition start_answer :: "kernel \<Rightarrow> pool_answers \<Rightarrow> MiaBufferManager \<Rightarrow> bool" where
  "start_answer base ans m0 \<longleftrightarrow> bkernel m0 = base \<and> malloc_ok (allocs ans) m0 \<and> distinct (newIds ans) \<and>
     length (allocs ans) \<le> length (newIds ans) \<and> length (allocs ans) \<le> 20"

lemma wrapper_create_ok:
  assumes "start_answer base ans m0" and "\<not> mRelease (mBufferQueue w0)"
    and "wrapper_create env ans format wid m0 w0 = Inr (Some w)"
  shows "pool_ok base [] w"
proof -
  let ?cd = "\<lparr>cd_width = fwidth format, cd_height = fheight format, cd_format = fformat format, cd_bufferType = ION_TYPE\<rparr>"
  have init: "wrapper_initialize env ans format wid m0 w0 = Inr (MIAS_OK, w)"
    using assms(3) by (auto simp: wrapper_create_def bindE_eq_Inr split: if_splits)
  then obtain m m' where c: "bm_create (allocs ans) ?cd m0 = Inr (Some m, m')"
    by (auto simp: wrapper_initialize_def bindE_eq_Inr Let_def split: option.splits)
  let ?w1 = "w0\<lparr>mBufferQueue := clearQueue (mBufferQueue w0), mBufferFormat := format, mBufferWrapperId := wid,
     mPbufferManager := Some m\<rparr>"
  let ?ids = "take (unat (mNumBuffers m)) (newIds ans)"
  have n: "newImages env (staleMember ans) ?ids ?w1 = Inr w"
    using init c by (auto simp: wrapper_initialize_def bindE_eq_Inr Let_def)
  obtain r where i: "initialize (allocs ans) ?cd m0 = Inr (r, m)"
    using c by (auto simp: bm_create_def bindE_eq_Inr split: if_splits)
  have bm: "bm_ok base m" "mBufferOutList m = []"
    using initialize_ok [OF _ _ i] assms(1) by (auto simp: start_answer_def)
  have "length (mBufferList m) \<le> length (allocs ans)"
    using i by (auto simp: initialize_def allocateBuffers_def Let_def bindE_eq_Inr dest!: allocLoop_le)
  then have len: "unat (mNumBuffers m) = length (mBufferList m)" "length (mBufferList m) \<le> 20" "length ?ids = length (mBufferList m)"
    using bm assms(1) by (auto simp: bm_ok_def pool_def start_answer_def unsigned_of_nat take_bit_nat_eq_self)
  have "pool_inv base [] m ?w1" using bm assms(2) by (simp add: pool_inv_def live_def clearQueue_def)
  moreover have "set ?ids \<inter> set (live [] ?w1) = {}" "distinct ?ids"
    using assms(1) by (auto simp: live_def clearQueue_def start_answer_def)
  ultimately obtain m2 where "pool_inv base [] m2 w" "mBufferList m2 = drop (length ?ids) (mBufferList m)"
    "mQueue (mBufferQueue w) = mQueue (mBufferQueue ?w1) @ ?ids"
    using newImages_inv [OF _ n] by blast
  then show ?thesis using len by (auto simp: pool_ok_def live_def clearQueue_def)
qed

text \<open>A pool in use; the state carries the images handed out.\<close>

definition pool_start :: "mia_env \<Rightarrow> kernel \<Rightarrow> nat list \<times> BufferQueueWrapper \<Rightarrow> bool" where
  "pool_start env base s \<longleftrightarrow> (\<exists>ans m0 w0 format wid. start_answer base ans m0 \<and> \<not> mRelease (mBufferQueue w0) \<and>
     fst s = [] \<and> wrapper_create env ans format wid m0 w0 = Inr (Some (snd s)))"

inductive pool_step :: "mia_env \<Rightarrow> nat list \<times> BufferQueueWrapper \<Rightarrow> nat list \<times> BufferQueueWrapper \<Rightarrow> bool" for env where
  dequeue: "single_answer used w ans \<Longrightarrow> dequeueBuffer env ans w = Inr (j, w') \<Longrightarrow> pool_step env (used, w) (used @ [j], w')"
| grow: "single_answer used w ans \<Longrightarrow> increaseImageQueue env ans w = Inr (r, w') \<Longrightarrow> pool_step env (used, w) (used, w')"
| use: "i \<in> set used \<Longrightarrow> mUseCount (wimages w i) + 1 \<noteq> 0 \<Longrightarrow>
    pool_step env (used, w) (used, w\<lparr>wimages := (wimages w)(i := snd (increaseUseCount (wimages w i)))\<rparr>)"
| enqueue: "i \<in> set used \<Longrightarrow> enqueueBuffer i w = Inr w' \<Longrightarrow>
    pool_step env (used, w) (if mUseCount (wimages w i) = 1 then remove1 i used else used, w')"
| reclaim: "clearOutThresholdBuffer w = Inr w' \<Longrightarrow> pool_step env (used, w) (used, w')"
| trim: "clearOutDefaultBuffer w = Inr w' \<Longrightarrow> pool_step env (used, w) (used, w')"
| threshold: "pool_step env (used, w) (used, setBufferThresholdValue v w)"

inductive_cases pool_stepE: "pool_step env (used, w) t"

lemma clearOut_ok:
  assumes "pool_ok base used w"
  shows "\<exists>w'. clearOutThresholdBuffer w = Inr w' \<and> pool_ok base used w' \<and>
    mQueue (mBufferQueue w') =
      (if int (length (live used w)) > mThresholdValue w
       then drop (length (mQueue (mBufferQueue w)) - 1) (mQueue (mBufferQueue w)) else mQueue (mBufferQueue w))"
proof -
  obtain m where m: "mPbufferManager w = Some m" using assms by (auto simp: pool_ok_def pool_inv_def)
  then have "mNumBuffers m = of_nat (length (live used w))" "length (live used w) \<le> 20"
    using assms pool_inv_count by (auto simp: pool_ok_def pool_inv_def)
  then have "sint (mNumBuffers m) = int (length (live used w))"
    by (simp add: signed_of_nat signed_take_bit_int_eq_self)
  then show ?thesis
    using shrink_ok [OF assms, of 1] assms m by (auto simp: clearOutThresholdBuffer_def getTotalBufferSize_def)
qed

lemma pool_step_ok:
  assumes "pool_step env s t" and "pool_ok base (fst s) (snd s)"
  shows "pool_ok base (fst t) (snd t)"
  using assms
proof (cases rule: pool_step.cases)
  case (dequeue used w ans j w')
  then show ?thesis using dequeueBuffer_ok assms(2) by fastforce
next
  case (grow used w ans r w')
  then show ?thesis using increaseImageQueue_ok assms(2) by fastforce
next
  case (use i used w)
  then show ?thesis using use_ok [of base used w i "mUseCount (wimages w i) + 1"] assms(2) by (simp add: increaseUseCount_def)
next
  case (enqueue i used w w')
  then show ?thesis using enqueueBuffer_ok [of base used w i] assms(2) by auto
next
  case (reclaim w w' used)
  then show ?thesis using clearOut_ok [of base used w] assms(2) by auto
next
  case (trim w w' used)
  then show ?thesis using shrink_ok [of base used w DEFAULT_BUFFER_QUEUE_DEPTH] assms(2) by (auto simp: clearOutDefaultBuffer_def)
next
  case (threshold used w v)
  then show ?thesis using assms(2)
    by (auto simp: setBufferThresholdValue_def pool_ok_def pool_inv_def live_def)
qed

interpretation pools: invariant_system "pool_start env base" "pool_step env" "\<lambda>s. pool_ok base (fst s) (snd s)" for env base
proof unfold_locales
  fix s
  assume "pool_start env base s"
  then show "pool_ok base (fst s) (snd s)" unfolding pool_start_def using wrapper_create_ok by metis
next
  fix s t
  assume "pool_ok base (fst s) (snd s)" and "pool_step env s t"
  then show "pool_ok base (fst t) (snd t)" using pool_step_ok by blast
qed

subsection \<open>Properties\<close>

lemma pool_ok_owners:
  assumes "pool_ok base used w" and "mPbufferManager w = Some m"
  shows "distinct (map (handle_of w) (live used w)) \<and> set (map (handle_of w) (live used w)) = Some ` set (mBufferOutList m)"
proof -
  have inv: "mset (map Some (mBufferOutList m)) = mset (map (handle_of w) (live used w))" "bm_ok base m"
    using assms by (auto simp: pool_ok_def pool_inv_def)
  have "distinct (map Some (mBufferOutList m))" using inv(2) by (simp add: bm_ok_def pool_def distinct_map)
  then show ?thesis using mset_eq_imp_distinct_iff [OF inv(1)] mset_eq_setD [OF inv(1)] by simp
qed

lemma wrapper_destroy_clean:
  assumes "pool_ok base [] w"
  shows "\<exists>w' m'. wrapper_destroy w = Inr w' \<and> mPbufferManager w' = Some m' \<and>
    mset (openFds (bkernel m')) = mset (openFds base) \<and> mset (mappings (bkernel m')) = mset (mappings base) \<and> mTotalIonMem m' = 0"
proof -
  obtain w1 where w1: "shrink 0 (mQueue (mBufferQueue w)) w = Inr w1" "pool_ok base [] w1" "mQueue (mBufferQueue w1) = []"
    using shrink_ok [OF assms, of 0] by auto
  then obtain m where m: "mPbufferManager w1 = Some m" "bm_ok base m" "mBufferOutList m = []"
    by (auto simp: pool_ok_def pool_inv_def live_def)
  then obtain m' where "bm_destroy m = Inr m'" "mTotalIonMem m' = 0"
    "mset (openFds (bkernel m')) = mset (openFds base)" "mset (mappings (bkernel m')) = mset (mappings base)"
    using destroy_returns_all by blast
  then show ?thesis using w1(1) m(1) by (simp add: wrapper_destroy_def)
qed

definition pool_env_answers :: pool_answers where
  "pool_env_answers = \<lparr>allocs = [sample_answers 100 10, sample_answers 101 11], newIds = [7, 8], staleMember = 0\<rparr>"

definition blank_wrapper :: BufferQueueWrapper where
  "blank_wrapper = \<lparr>mBufferFormat = nv12_64, mPbufferManager = None, mBufferQueue = tsq_new, mBufferWrapperId = 0,
     mThresholdValue = 0, wimages = (\<lambda>_. blankImage MI_IMG_INTERNAL nv12_64 0)\<rparr>"

definition pool0 :: BufferQueueWrapper where
  "pool0 = the (projr (wrapper_create qcom_env pool_env_answers nv12_64 0 fresh_bm blank_wrapper))"

definition pool1 :: BufferQueueWrapper where
  "pool1 = snd (projr (dequeueBuffer qcom_env (pool_env_answers\<lparr>allocs := [sample_answers 102 12], newIds := [9]\<rparr>) pool0))"

lemma pool0_start: "pool_start qcom_env (bkernel fresh_bm) ([], pool0)"
proof -
  have c: "(case wrapper_create qcom_env pool_env_answers nv12_64 0 fresh_bm blank_wrapper of Inr (Some w) \<Rightarrow> True | _ \<Rightarrow> False)"
    by code_simp
  have "start_answer (bkernel fresh_bm) pool_env_answers fresh_bm"
    by (simp add: start_answer_def pool_env_answers_def malloc_ok_def sample_answers_def fresh_bm_def)
  moreover have "wrapper_create qcom_env pool_env_answers nv12_64 0 fresh_bm blank_wrapper = Inr (Some pool0)"
    using c by (auto simp: pool0_def split: sum.splits option.splits)
  moreover have "\<not> mRelease (mBufferQueue blank_wrapper)" by (simp add: blank_wrapper_def tsq_new_def)
  ultimately show ?thesis unfolding pool_start_def by (metis fst_conv snd_conv)
qed

lemma pool0_queue: "mQueue (mBufferQueue pool0) = [7, 8]" "\<not> mRelease (mBufferQueue pool0)"
  by code_simp+

lemma pool1_step: "pool_step qcom_env ([], pool0) ([7], pool1)"
proof -
  let ?ans = "pool_env_answers\<lparr>allocs := [sample_answers 102 12], newIds := [9]\<rparr>"
  have "malloc_ok (allocs ?ans) (the (mPbufferManager pool0))" by code_simp
  then have "single_answer [] pool0 ?ans"
    using pool0_queue by (auto simp: single_answer_def live_def)
  moreover have "dequeueBuffer qcom_env ?ans pool0 = Inr (7, pool1)"
    using pool0_queue by (simp add: pool1_def dequeueBuffer_def tsq_isEmpty_def waitAndPop_def popFront_def)
  ultimately show ?thesis using pool_step.dequeue [of "[]" pool0 ?ans qcom_env 7 pool1] by simp
qed

lemma pool1_reachable: "(pool_step qcom_env)\<^sup>*\<^sup>* ([], pool0) ([7], pool1)"
  using pool1_step by blast

lemma pool1_queue: "mQueue (mBufferQueue pool1) = [8]"
  by code_simp

text \<open>C20: in every state of a pool in use, the number of buffers is that of the waiting images and the images
  handed out together and never exceeds the maximum of 20; no image is both waiting and in use,
  no two images share a buffer, and every buffer in flight belongs to one of them.\<close>

theorem pool_keeps_images:
  assumes "pool_start env base s0" and "(pool_step env)\<^sup>*\<^sup>* s0 (used, w)"
  shows "\<exists>m. mPbufferManager w = Some m \<and>
    unat (mNumBuffers m) = length (mQueue (mBufferQueue w)) + length used \<and> mNumBuffers m \<le> MAX_BUFFER_QUEUE_DEPTH \<and>
    distinct (mQueue (mBufferQueue w) @ used) \<and> distinct (map (handle_of w) (mQueue (mBufferQueue w) @ used)) \<and>
    set (map (handle_of w) (mQueue (mBufferQueue w) @ used)) = Some ` set (mBufferOutList m) \<and>
    (\<forall>i \<in> set (mQueue (mBufferQueue w) @ used). mUseCount (wimages w i) = 0 \<longleftrightarrow> i \<in> set (mQueue (mBufferQueue w)))"
proof -
  have ok: "pool_ok base used w" using pools.reachable_inv [OF assms] by simp
  obtain m where m: "mPbufferManager w = Some m" "pool_inv base used m w" using ok by (auto simp: pool_ok_def pool_inv_def)
  show ?thesis
    using m pool_ok_count [OF ok m(1)] pool_ok_owners [OF ok m(1)]
    by (intro exI [of _ m]) (auto simp: pool_inv_def live_def word_le_nat_alt)
qed

theorem pool_keeps_images_witness:
  "\<exists>m. mPbufferManager pool1 = Some m \<and> unat (mNumBuffers m) = 2 \<and> handle_of pool1 7 \<noteq> handle_of pool1 8"
  using pool_keeps_images [OF pool0_start pool1_reachable] pool1_queue by auto

text \<open>A node that asks for an image sleeps only when none is waiting and the pool could not grow, because it
  has its maximum of buffers or because no memory was left; in every other state it gets an image
  that nobody else uses.\<close>

theorem dequeue_sleeps_only_when_exhausted:
  assumes "pool_start env base s0" and "(pool_step env)\<^sup>*\<^sup>* s0 (used, w)" and "single_answer used w ans"
    and "is_ok (increaseImageQueue env ans w)"
  shows "if mQueue (mBufferQueue w) = [] \<and> fst (projr (increaseImageQueue env ans w)) \<noteq> MIAS_OK
    then dequeueBuffer env ans w = Inl WouldBlock
    else (\<exists>j w'. dequeueBuffer env ans w = Inr (j, w') \<and> j \<notin> set used \<and> mUseCount (wimages w' j) \<noteq> 0)"
proof -
  have ok: "pool_ok base used w" using pools.reachable_inv [OF assms(1,2)] by simp
  obtain r w1 where i: "increaseImageQueue env ans w = Inr (r, w1)" using assms(4) by (auto simp: is_ok_iff)
  have inc: "pool_ok base used w1" "mQueue (mBufferQueue w1) = mQueue (mBufferQueue w) @ (if r = MIAS_OK then newIds ans else [])"
    using increaseImageQueue_ok [OF ok assms(3) i] by auto
  have nr: "\<not> mRelease (mBufferQueue w)" "\<not> mRelease (mBufferQueue w1)" using ok inc(1) by (auto simp: pool_ok_def pool_inv_def)
  have got: "j \<notin> set used \<and> mUseCount (wimages w' j) \<noteq> 0" if "dequeueBuffer env ans w = Inr (j, w')" for j w'
    using dequeueBuffer_ok [OF ok assms(3) that] by (auto simp: pool_ok_def pool_inv_def live_def)
  show ?thesis
  proof (cases "mQueue (mBufferQueue w)")
    case Nil
    then show ?thesis
      using i nr inc(2) got assms(3)
      by (auto simp: dequeueBuffer_def tsq_isEmpty_def waitAndPop_def popFront_def single_answer_def)
  next
    case (Cons j q)
    then have "\<exists>w'. dequeueBuffer env ans w = Inr (j, w')"
      using nr by (simp add: dequeueBuffer_def tsq_isEmpty_def waitAndPop_def popFront_def)
    then show ?thesis using got Cons by auto
  qed
qed

theorem dequeue_sleeps_only_when_exhausted_witness:
  "\<exists>j w'. dequeueBuffer qcom_env (pool_env_answers\<lparr>allocs := [sample_answers 103 13], newIds := [10]\<rparr>) pool1 = Inr (j, w') \<and>
     j \<noteq> 7 \<and> mUseCount (wimages w' j) \<noteq> 0"
proof -
  let ?ans = "pool_env_answers\<lparr>allocs := [sample_answers 103 13], newIds := [10]\<rparr>"
  have "malloc_ok (allocs ?ans) (the (mPbufferManager pool1))" by code_simp
  then have "single_answer [7] pool1 ?ans" using pool1_queue by (auto simp: single_answer_def live_def)
  moreover have "is_ok (increaseImageQueue qcom_env ?ans pool1)" by code_simp
  ultimately show ?thesis
    using dequeue_sleeps_only_when_exhausted [OF pool0_start pool1_reachable, of ?ans] pool1_queue by auto
qed

text \<open>Reclaiming memory always comes back; images that are in use are untouched; when there are more buffers
  than the threshold allows, exactly one waiting image is kept, the youngest, and the buffers of
  the others are given back; otherwise nothing changes.\<close>

theorem reclaim_exact:
  assumes "pool_start env base s0" and "(pool_step env)\<^sup>*\<^sup>* s0 (used, w)"
  shows "\<exists>w' m'. clearOutThresholdBuffer w = Inr w' \<and> mPbufferManager w' = Some m' \<and>
    mQueue (mBufferQueue w') =
      (if int (length (mQueue (mBufferQueue w)) + length used) > mThresholdValue w \<and> mQueue (mBufferQueue w) \<noteq> []
       then [last (mQueue (mBufferQueue w))] else mQueue (mBufferQueue w)) \<and>
    unat (mNumBuffers m') = length (mQueue (mBufferQueue w')) + length used \<and>
    set (map (handle_of w') (mQueue (mBufferQueue w') @ used)) = Some ` set (mBufferOutList m')"
proof -
  have ok: "pool_ok base used w" using pools.reachable_inv [OF assms] by simp
  obtain w' where w': "clearOutThresholdBuffer w = Inr w'" "pool_ok base used w'"
    and q: "mQueue (mBufferQueue w') =
      (if int (length (live used w)) > mThresholdValue w
       then drop (length (mQueue (mBufferQueue w)) - 1) (mQueue (mBufferQueue w)) else mQueue (mBufferQueue w))"
    using clearOut_ok [OF ok] by blast
  obtain m' where m': "mPbufferManager w' = Some m'" using w'(2) by (auto simp: pool_ok_def pool_inv_def)
  have "drop (length xs - 1) xs = (if xs = [] then [] else [last xs])" for xs :: "nat list"
    by (cases xs rule: rev_cases) auto
  then show ?thesis
    using w' m' q pool_ok_count [OF w'(2) m'] pool_ok_owners [OF w'(2) m'] by (auto simp: live_def)
qed

theorem reclaim_exact_witness:
  "\<exists>w'. clearOutThresholdBuffer pool0 = Inr w' \<and> mQueue (mBufferQueue w') = [8]"
proof -
  have "mThresholdValue pool0 = 0" by code_simp
  then show ?thesis using reclaim_exact [OF pool0_start rtranclp.rtrancl_refl] pool0_queue by auto
qed

text \<open>When no image is in use, destroying a pool, whatever was done with it before, gives the kernel back
  every descriptor and every mapping it took since its creation, and no ion memory is counted any
  more.\<close>

theorem pool_destroy_clean:
  assumes "pool_start env base s0" and "(pool_step env)\<^sup>*\<^sup>* s0 ([], w)"
  shows "\<exists>w' m'. wrapper_destroy w = Inr w' \<and> mPbufferManager w' = Some m' \<and> mTotalIonMem m' = 0 \<and>
    mset (openFds (bkernel m')) = mset (openFds base) \<and> mset (mappings (bkernel m')) = mset (mappings base)"
  using wrapper_destroy_clean pools.reachable_inv [OF assms] by fastforce

theorem pool_destroy_clean_witness:
  "\<exists>w' m'. wrapper_destroy pool0 = Inr w' \<and> mPbufferManager w' = Some m' \<and> mTotalIonMem m' = 0"
  using pool_destroy_clean [OF pool0_start rtranclp.rtrancl_refl] by blast

end
