(* ===== verification/NodeTask.thy ===== *)
theory NodeTask
  imports Dispatch
begin

text \<open>
  Nodes at work (\<^verbatim>\<open>mivifwk/mialgoengine/MiaNode.cpp\<close> and \<^verbatim>\<open>.h\<close>).  A node takes the requests that
  reach it from a priority queue and serves each of them on a thread of the pool: it fetches the
  inputs, acquires the outputs, calls its plugin, and tells the pipeline.  There are four kinds:
  concurrent nodes serve several requests at a time, frame-by-frame nodes call the plugin once
  per frame, virtual nodes have no plugin, and the others call it once per request.  The plugin,
  the detector of broken images and the texts made from clocks and sensors are parameters; image
  dumps, the watchdog and the performance log are left out.
\<close>

abbreviation CONCURRENCY_MODE :: u32 where "CONCURRENCY_MODE \<equiv> 2"
abbreviation SIGRELEASEINPUT_MODE :: u32 where "SIGRELEASEINPUT_MODE \<equiv> 32"
abbreviation SIGRELEASEOUTPUT_MODE :: u32 where "SIGRELEASEOUTPUT_MODE \<equiv> 64"
abbreviation MaxConcurrentNum :: int where "MaxConcurrentNum \<equiv> 5"
abbreviation ADVANCEMOONMODEON :: int where "ADVANCEMOONMODEON \<equiv> 35"

subsection \<open>What a plugin sees\<close>

record ImageParams =
  ip_format :: FrameInfo
  ip_numberOfPlanes :: int
  ip_metadata :: metadata_ptr
  ip_fd :: "int \<times> int"
  ip_pAddr :: "int option \<times> int option"
  ip_bufferType :: buffer_type
  ip_bufferSize :: u32
  ip_pNativeHandle :: "native_handle option"
  ip_portId :: u32

type_synonym params_map = "(u32, ImageParams list) std_map"

record ProcessRequestInfo =
  pr_inputBuffersMap :: params_map
  pr_outputBuffersMap :: params_map
  pr_frameNum :: u32
  pr_timeStamp :: int
  pr_isFirstFrame :: bool
  pr_maxConcurrentNum :: int
  pr_runningTaskNum :: int

text \<open>What a call of the plugin does: its callbacks in order, and whether it succeeds.\<close>

datatype plugin_callback =
    SetResultMetadata u32 int string
  | ReleaseableUnneedBuffer int int PluginReleaseBuffer

record plugin_answer =
  pa_callbacks :: "plugin_callback list"
  pa_success :: bool

record MiAbnormalDetect =
  isAbnormal :: bool
  ad_level :: int
  plane0_value :: int
  plane1_value :: int

text \<open>
  The parameters: \<open>junkTime\<close> and \<open>junkHandle\<close> are what uninitialised members hold, \<open>outAnswers\<close>
  is what the session answers to \<open>acquireOutputBuffer\<close>.
\<close>

record node_env =
  pluginRequest :: "ProcessRequestInfo \<Rightarrow> plugin_answer"
  isAbnormalImage :: "ImageParams \<Rightarrow> MiAbnormalDetect"
  timeText :: string
  abnText :: "MiAbnormalDetect \<Rightarrow> string"
  freqText :: "bool \<Rightarrow> string"
  runningTasks :: int
  outAnswers :: acquire_answers
  junkTime :: int
  junkHandle :: "native_handle option"

record MiaNode =
  mNodeMask :: u32
  mNodeInstance :: string
  mOutputBufferNeedCheck :: bool
  mPluginWraper :: bool
  mInputFrameNum :: int
  mHasProcessThread :: bool
  mPipeline :: "nat option"
  mRequestQueue :: "(int \<times> nat) list"
  mAbnImageCheckForFrameByFrame :: "params_map \<times> u32 \<times> int"
  mIsMiHalBurstMode :: bool
  mInPluginThreadNum :: int

text \<open>
  A node serving a request: the node, the pipeline it serves, what it reported to the session
  and the flushes it sent to the plugin.
\<close>

record node_run =
  nd :: MiaNode
  np :: Pipeline
  nresults :: "(MiaResultCbType \<times> u32 \<times> int \<times> string) list"
  nflushes :: "bool list"

definition report :: "MiaResultCbType \<Rightarrow> u32 \<Rightarrow> int \<Rightarrow> string \<Rightarrow> node_run \<Rightarrow> node_run" where
  "report ty frameNum timeStamp data s = s\<lparr>nresults := nresults s @ [(ty, frameNum, timeStamp, data)]\<rparr>"

definition parseImage :: "node_env \<Rightarrow> u32 \<Rightarrow> MiaImage \<Rightarrow> ImageParams" where
  "parseImage ne port im =
     \<lparr>ip_format = mFormat im, ip_numberOfPlanes = planes (mBuffer im), ip_metadata = mMetadata im,
      ip_fd = (fd0 (mBuffer im), fd1 (mBuffer im)), ip_pAddr = (pAddr0 (mBuffer im), pAddr1 (mBuffer im)),
      ip_bufferType = bufferType (mBuffer im), ip_bufferSize = bufferSize (mBuffer im),
      ip_pNativeHandle = (case phHandle (mBuffer im) of None \<Rightarrow> junkHandle ne | Some h \<Rightarrow> Some h),
      ip_portId = port\<rparr>"

definition buildBufferParams :: "node_env \<Rightarrow> image_map \<Rightarrow> Pipeline \<Rightarrow> params_map" where
  "buildBufferParams ne ims st = map (\<lambda>(port, is). (port, map (\<lambda>i. parseImage ne port (pimages st i)) is)) ims"

text \<open>\<open>m.begin()->second.at(0)\<close>\<close>

definition mainOf :: "(u32, 'a list) std_map \<Rightarrow> 'a outcome" where
  "mainOf m = (case m of [] \<Rightarrow> Inl BadIndex | (_, []) # _ \<Rightarrow> Inl OutOfRange | (_, x # _) # _ \<Rightarrow> Inr x)"

subsection \<open>Callbacks of the plugin\<close>

definition setResultMetadata :: "node_env \<Rightarrow> u32 \<Rightarrow> int \<Rightarrow> string \<Rightarrow> node_run \<Rightarrow> node_run outcome" where
  "setResultMetadata ne frameNum timeStamp result s =
     (if take 9 result = ''quickview'' then
        (case mPipeline (nd s) of
           None \<Rightarrow> Inl NullDeref
         | Some _ \<Rightarrow> Inr (report MIA_ANCHOR_CALLBACK frameNum timeStamp (to_string (mTimestampUs (np s))) s))
      else
        let exifResult = (if result \<noteq> [] \<and> last result = CHR 0x7D
                          then butlast result @ timeText ne @ [CHR 0x7D] else result @ timeText ne)
        in Inr (report MIA_META_CALLBACK frameNum timeStamp exifResult s))"

definition releaseableUnneedBuffer :: "int \<Rightarrow> int \<Rightarrow> PluginReleaseBuffer \<Rightarrow> node_run \<Rightarrow> node_run outcome" where
  "releaseableUnneedBuffer port number mode s =
     (case mPipeline (nd s) of
        None \<Rightarrow> Inl NullDeref
      | Some _ \<Rightarrow>
          bindE (pluginReleaseUnneedBuffer (mNodeInstance (nd s)) port number mode (np s)) (\<lambda>(_, p).
            Inr (s\<lparr>np := p\<rparr>)))"

fun runCallbacks :: "node_env \<Rightarrow> plugin_callback list \<Rightarrow> node_run \<Rightarrow> node_run outcome" where
  "runCallbacks ne [] s = Inr s"
| "runCallbacks ne (SetResultMetadata f t r # cs) s = bindE (setResultMetadata ne f t r s) (runCallbacks ne cs)"
| "runCallbacks ne (ReleaseableUnneedBuffer port k mode # cs) s =
     bindE (releaseableUnneedBuffer port k mode s) (runCallbacks ne cs)"

text \<open>
  The counter of threads in the plugin goes up before the call; afterwards the thread waits
  until the counter is zero, and its wait condition takes its own count away when it is the
  only one.
\<close>

definition quickFinishWait :: "int \<Rightarrow> bool \<times> int" where
  "quickFinishWait n = (let n' = (if n = 1 then n - 1 else n) in (n' = 0, n'))"

definition inPlugin :: "node_env \<Rightarrow> ProcessRequestInfo \<Rightarrow> node_run \<Rightarrow> (bool \<times> node_run) outcome" where
  "inPlugin ne info s =
     bindE (if mPluginWraper (nd s)
            then bindE (runCallbacks ne (pa_callbacks (pluginRequest ne info))
                          (s\<lparr>nd := (nd s)\<lparr>mInPluginThreadNum := mInPluginThreadNum (nd s) + 1\<rparr>\<rparr>)) (\<lambda>s1.
                   Inr (pa_success (pluginRequest ne info), s1))
            else Inr (False, s)) (\<lambda>(success, s1).
       let (passes, n) = quickFinishWait (mInPluginThreadNum (nd s1))
       in if passes then Inr (success, s1\<lparr>nd := (nd s1)\<lparr>mInPluginThreadNum := n\<rparr>\<rparr>) else Inl WouldBlock)"

definition updateAbnImageExifData :: "node_env \<Rightarrow> u32 \<Rightarrow> int \<Rightarrow> MiAbnormalDetect \<Rightarrow> node_run \<Rightarrow> node_run outcome" where
  "updateAbnImageExifData ne frameNum timeStamp d s =
     (if isAbnormal d \<and> mOutputBufferNeedCheck (nd s) then setResultMetadata ne frameNum timeStamp (abnText ne d) s else Inr s)"

definition updateAbnImageExifDataV1 ::
  "mia_env \<Rightarrow> node_env \<Rightarrow> params_map \<Rightarrow> params_map \<Rightarrow> u32 \<Rightarrow> int \<Rightarrow> node_run \<Rightarrow> node_run outcome" where
  "updateAbnImageExifDataV1 env ne inputs outputs frameNum timeStamp s =
     bindE (mainOf outputs) (\<lambda>out.
     bindE (if inputs = [] then Inr (ip_metadata out) else bindE (mainOf inputs) (\<lambda>i. Inr (ip_metadata i))) (\<lambda>md.
       let isMoonMode = (case vtag env md ''xiaomi.ai.asd.sceneApplied'' None of
                           None \<Rightarrow> False | Some p \<Rightarrow> read_i32 p = ADVANCEMOONMODEON);
           d = isAbnormalImage ne out;
           d1 = (if 0x7878 \<le> plane1_value d \<and> plane1_value d \<le> 0x8282 \<and> plane0_value d \<le> 0x20 \<and> isMoonMode
                 then d\<lparr>isAbnormal := False, ad_level := 0\<rparr> else d)
       in updateAbnImageExifData ne frameNum timeStamp d1 s))"

definition updateAbnImageExifDataV2 :: "node_env \<Rightarrow> params_map \<Rightarrow> u32 \<Rightarrow> int \<Rightarrow> node_run \<Rightarrow> node_run outcome" where
  "updateAbnImageExifDataV2 ne inputs frameNum timeStamp s =
     bindE (mainOf inputs) (\<lambda>i. updateAbnImageExifData ne frameNum timeStamp (isAbnormalImage ne i) s)"

definition updateProcFreqExifData :: "node_env \<Rightarrow> nat \<Rightarrow> bool \<Rightarrow> node_run \<Rightarrow> node_run" where
  "updateProcFreqExifData ne i ready s =
     report MIA_META_CALLBACK (ucast (mFrameNum (pimages (np s) i))) (mTimestamp (pimages (np s) i)) (freqText ne ready) s"

subsection \<open>One call of the plugin\<close>

text \<open>The result, the frame number for the abnormal callback (0 when it was not set) and the run.\<close>

definition processRequest ::
  "mia_env \<Rightarrow> node_env \<Rightarrow> image_map \<Rightarrow> image_map \<Rightarrow> node_run \<Rightarrow> (CDKResult \<times> int \<times> node_run) outcome" where
  "processRequest env ne ins outs s =
     (let mk = mNodeMask (nd s); ims = pimages (np s);
          inB = buildBufferParams ne ins (np s); outB = buildBufferParams ne outs (np s);
          outputNum = (case outs of [] \<Rightarrow> 0 | (_, os) # _ \<Rightarrow> length os)
      in bindE (if has_mode mk CONCURRENCY_MODE
                then (case outs of (_, _ # _) # _ \<Rightarrow> Inr () | _ \<Rightarrow> Inl BadIndex) else Inr ()) (\<lambda>_.
         bindE (mainOf ins) (\<lambda>i0.
           if outputNum = 0 \<and> \<not> has_mode mk SIGFRAME_MODE then Inr (MIAS_INVALID_PARAM, 0, s)
           else
             let frameNum = ucast (mFrameNum (ims i0));
                 timeStamp = (case outs of (_, o0 # _) # _ \<Rightarrow> mTimestamp (ims o0) | _ \<Rightarrow> junkTime ne);
                 info = \<lparr>pr_inputBuffersMap = inB, pr_outputBuffersMap = outB, pr_frameNum = frameNum, pr_timeStamp = timeStamp,
                         pr_isFirstFrame = (mInputFrameNum (nd s) = 1), pr_maxConcurrentNum = MaxConcurrentNum,
                         pr_runningTaskNum = runningTasks ne\<rparr>
             in bindE (inPlugin ne info s) (\<lambda>(success, s1).
                bindE (if outputNum > 0 then
                         (if has_mode mk SIGFRAME_MODE
                          then Inr (0, s1\<lparr>nd := (nd s1)\<lparr>mAbnImageCheckForFrameByFrame := (outB, frameNum, timeStamp)\<rparr>\<rparr>)
                          else bindE (updateAbnImageExifDataV1 env ne inB outB frameNum timeStamp s1) (\<lambda>s2.
                                 Inr (uint frameNum, s2)))
                       else Inr (0, s1)) (\<lambda>(frame_num, s2).
                bindE (if has_mode mk SIGFRAME_MODE \<and> mInputNumber (ims i0) = word_of_int (mInputFrameNum (nd s))
                       then (case mAbnImageCheckForFrameByFrame (nd s2) of
                               (abnOut, f, t) \<Rightarrow>
                                 bindE (updateAbnImageExifDataV1 env ne [] abnOut f t s2) (\<lambda>s3. Inr (uint f, s3)))
                       else Inr (frame_num, s2)) (\<lambda>(frame_num', s3).
                  Inr (if success then MIAS_OK else MIAS_INVALID_PARAM, frame_num', s3)))))))"

text \<open>The same for a node that works in place: no outputs, and an early return without a plugin.\<close>

definition processRequestInplace ::
  "node_env \<Rightarrow> image_map \<Rightarrow> node_run \<Rightarrow> (CDKResult \<times> int \<times> node_run) outcome" where
  "processRequestInplace ne ins s =
     (if ins = [] then Inr (MIAS_INVALID_PARAM, 0, s)
      else
        bindE (mainOf ins) (\<lambda>i0.
          let inB = buildBufferParams ne ins (np s);
              frameNum = ucast (mFrameNum (pimages (np s) i0)); timeStamp = mTimestamp (pimages (np s) i0);
              info = \<lparr>pr_inputBuffersMap = inB, pr_outputBuffersMap = [], pr_frameNum = frameNum, pr_timeStamp = timeStamp,
                      pr_isFirstFrame = False, pr_maxConcurrentNum = MaxConcurrentNum, pr_runningTaskNum = runningTasks ne\<rparr>
          in if \<not> mPluginWraper (nd s) then Inr (MIAS_INVALID_PARAM, 0, s)
             else bindE (inPlugin ne info s) (\<lambda>(success, s1).
                  bindE (updateAbnImageExifDataV2 ne inB frameNum timeStamp s1) (\<lambda>s2.
                    Inr (if success then MIAS_OK else MIAS_INVALID_PARAM, uint frameNum, s2)))))"

subsection \<open>Inputs, outputs and effectiveness\<close>

definition getInputBuffer :: "mia_env \<Rightarrow> node_run \<Rightarrow> (CDKResult \<times> image_map \<times> node_run) outcome" where
  "getInputBuffer env s =
     bindE (getInputImage env (mNodeInstance (nd s)) (mNodeMask (nd s)) [] (np s)) (\<lambda>(rc, ins, p). Inr (rc, ins, s\<lparr>np := p\<rparr>))"

fun imageFormats :: "image_map \<Rightarrow> Pipeline \<Rightarrow> (int, FrameInfo) std_map outcome" where
  "imageFormats [] st = Inr []"
| "imageFormats ((port, is) # m) st =
     (case is of
        [] \<Rightarrow> Inl OutOfRange
      | i # _ \<Rightarrow> bindE (imageFormats m st) (\<lambda>fs. Inr (sm_set (sint port) (mFormat (pimages st i)) fs)))"

definition getOutputBuffer :: "mia_env \<Rightarrow> node_env \<Rightarrow> image_map \<Rightarrow> node_run \<Rightarrow> (CDKResult \<times> image_map \<times> node_run) outcome" where
  "getOutputBuffer env ne ins s =
     bindE (imageFormats ins (np s)) (\<lambda>fmts.
     bindE (getOutputImage env (mNodeInstance (nd s)) (mNodeMask (nd s)) ins fmts (outAnswers ne) (np s)) (\<lambda>(rc, outs, p).
       Inr (rc, outs, s\<lparr>np := p\<rparr>)))"

definition checkTaskEffectiveness :: "CDKResult \<Rightarrow> NodeProcessInfo \<Rightarrow> node_run \<Rightarrow> CDKResult \<times> NodeProcessInfo" where
  "checkTaskEffectiveness rc info s = (if mFlushStatus (np s) = ForcedFlush then (MIAS_ABNORMAL, FlushTask) else (rc, info))"

definition node_flush :: "bool \<Rightarrow> node_run \<Rightarrow> node_run" where
  "node_flush isForced s = s\<lparr>nflushes := nflushes s @ [isForced]\<rparr>"

text \<open>The frame-by-frame version; the first component says whether the task is interrupted.\<close>

definition checkTaskEffectivenessSig ::
  "CDKResult \<Rightarrow> NodeProcessInfo \<Rightarrow> node_run \<Rightarrow> bool \<times> CDKResult \<times> NodeProcessInfo \<times> node_run" where
  "checkTaskEffectivenessSig rc info s =
     (let fs = mFlushStatus (np s); begun = mInputFrameNum (nd s) > 0;
          (rc1, info1, s1) = (if fs = ForcedFlush
                              then (MIAS_ABNORMAL, FlushTask, if begun then node_flush True s else s) else (rc, info, s))
      in if rc1 = MIAS_OK then (False, rc1, info1, s1)
         else if fs = Expediting then
           (if begun then (True, MIAS_OK, ProcessOK, node_flush False s1) else (True, rc1, info1, s1))
         else (True, rc1, info1, s1))"

definition needGetOutBufferThisTime :: "MiaNode \<Rightarrow> bool" where
  "needGetOutBufferThisTime n = (if has_mode (mNodeMask n) SIGGETOUTPUT_MODE then True else mInputFrameNum n + 1 = 1)"

definition notify :: "NodeProcessInfo \<Rightarrow> int \<Rightarrow> node_run \<Rightarrow> node_run outcome" where
  "notify info frame_num s =
     bindE (notifyNextNode (mNodeInstance (nd s)) info 0 frame_num (np s)) (\<lambda>p. Inr (s\<lparr>np := p\<rparr>))"

subsection \<open>Rounds\<close>

text \<open>
  The body of \<open>processTask\<close> from fetching the inputs to the call of \<open>notifyNextNode\<close>; \<open>work\<close> is
  what is done with inputs and outputs.  A task that failed is reported with the reason.
\<close>

definition serve ::
  "mia_env \<Rightarrow> node_env \<Rightarrow> (image_map \<Rightarrow> image_map \<Rightarrow> node_run \<Rightarrow> (CDKResult \<times> int \<times> node_run) outcome) \<Rightarrow>
     node_run \<Rightarrow> node_run outcome" where
  "serve env ne work s =
     bindE (getInputBuffer env s) (\<lambda>(rc0, ins, s1).
     let (rc1, info1) = checkTaskEffectiveness rc0 (if rc0 = MIAS_OK then ProcessOK else GetInputError) s1 in
     bindE (if rc1 = MIAS_OK
            then bindE (getOutputBuffer env ne ins s1) (\<lambda>(rc, outs, s2).
                   Inr (rc, if rc = MIAS_OK then info1 else GetOutputError, outs, s2))
            else Inr (rc1, info1, [], s1)) (\<lambda>(rc2, info2, outs, s2).
     bindE (if rc2 = MIAS_OK
            then bindE (work ins outs s2) (\<lambda>(rc, frame_num, s3).
                   Inr (if rc = MIAS_OK then info2 else NodeProcessError, frame_num, s3))
            else Inr (info2, 0, s2)) (\<lambda>(info3, frame_num, s3).
       notify info3 frame_num s3)))"

definition plainOrInplace ::
  "mia_env \<Rightarrow> node_env \<Rightarrow> image_map \<Rightarrow> image_map \<Rightarrow> node_run \<Rightarrow> (CDKResult \<times> int \<times> node_run) outcome" where
  "plainOrInplace env ne ins outs s =
     (if has_mode (mNodeMask (nd s)) INPLACE_MODE \<and> outs = [] then processRequestInplace ne ins s
      else processRequest env ne ins outs s)"

definition withFreq ::
  "node_env \<Rightarrow> bool \<Rightarrow> (image_map \<Rightarrow> image_map \<Rightarrow> node_run \<Rightarrow> (CDKResult \<times> int \<times> node_run) outcome) \<Rightarrow>
     image_map \<Rightarrow> image_map \<Rightarrow> node_run \<Rightarrow> (CDKResult \<times> int \<times> node_run) outcome" where
  "withFreq ne on work ins outs s =
     (if \<not> on then work ins outs s
      else bindE (mainOf ins) (\<lambda>i.
           bindE (work ins outs (updateProcFreqExifData ne i True s)) (\<lambda>(rc, frame_num, s1).
             Inr (rc, frame_num, updateProcFreqExifData ne i False s1))))"

definition concurrencyRound :: "mia_env \<Rightarrow> node_env \<Rightarrow> node_run \<Rightarrow> node_run outcome" where
  "concurrencyRound env ne s = serve env ne (withFreq ne True (processRequest env ne)) s"

definition otherRound :: "mia_env \<Rightarrow> node_env \<Rightarrow> node_run \<Rightarrow> node_run outcome" where
  "otherRound env ne s = serve env ne (withFreq ne (\<not> mIsMiHalBurstMode (nd s)) (plainOrInplace env ne)) s"

text \<open>
  One turn of the loop of a frame-by-frame node.  The result says whether the request is over;
  if it is not, the loop goes on with the next frame of the same request.
\<close>

definition setFrames :: "int \<Rightarrow> node_run \<Rightarrow> node_run" where
  "setFrames k s = s\<lparr>nd := (nd s)\<lparr>mInputFrameNum := k\<rparr>\<rparr>"

definition sigFrame ::
  "mia_env \<Rightarrow> node_env \<Rightarrow> image_map \<Rightarrow> node_run \<Rightarrow> (CDKResult \<times> NodeProcessInfo \<times> int \<times> bool \<times> node_run) outcome" where
  "sigFrame env ne ins s =
     bindE (mainOf ins) (\<lambda>i.
     let mergeInputNum = sint (mInputNumber (pimages (np s) i)) in
     bindE (if needGetOutBufferThisTime (nd s) then getOutputBuffer env ne ins s else Inr (MIAS_OK, [], s)) (\<lambda>(rc1, outs, s1).
     let s2 = setFrames (mInputFrameNum (nd s1) + 1) s1 in
     bindE (if rc1 = MIAS_OK
            then bindE (plainOrInplace env ne ins outs s2) (\<lambda>(rc, frame_num, s3).
                   Inr (rc, if rc = MIAS_OK then ProcessOK else NodeProcessError, frame_num, s3))
            else Inr (rc1, GetOutputError, 0, s2)) (\<lambda>(rc2, info2, frame_num, s3).
       Inr (rc2, info2, frame_num, mInputFrameNum (nd s3) = mergeInputNum, s3))))"

definition sigRelease :: "node_run \<Rightarrow> node_run outcome" where
  "sigRelease s =
     bindE (if has_mode (mNodeMask (nd s)) SIGRELEASEINPUT_MODE
            then releaseInputAndTryNotifyNextNode (mNodeInstance (nd s)) (np s) else Inr (np s)) (\<lambda>p.
     bindE (if has_mode (mNodeMask (nd s)) SIGRELEASEOUTPUT_MODE
            then releaseOutputAndTryNotifyNextNode (mNodeInstance (nd s)) p else Inr p) (\<lambda>p'.
       Inr (s\<lparr>np := p'\<rparr>)))"

definition sigframeRound :: "mia_env \<Rightarrow> node_env \<Rightarrow> node_run \<Rightarrow> (bool \<times> node_run) outcome" where
  "sigframeRound env ne s =
     bindE (getInputBuffer env s) (\<lambda>(rc0, ins, s1).
     let (isInterruptTask, rc1, info1, s2) =
           checkTaskEffectivenessSig rc0 (if rc0 = MIAS_OK then ProcessOK else GetInputError) s1 in
     bindE (if \<not> isInterruptTask \<and> rc1 = MIAS_OK then sigFrame env ne ins s2
            else Inr (rc1, info1, 0, True, s2)) (\<lambda>(rc3, info3, frame_num, thisRequestFinish, s3).
       if rc3 \<noteq> MIAS_OK \<or> thisRequestFinish
       then bindE (notify info3 frame_num s3) (\<lambda>s4. Inr (True, setFrames 0 s4))
       else bindE (sigRelease s3) (\<lambda>s4. Inr (False, s4))))"

text \<open>The loop of a virtual node that works frame by frame.\<close>

fun virtualLoop :: "nat \<Rightarrow> mia_env \<Rightarrow> int \<Rightarrow> node_run \<Rightarrow> (NodeProcessInfo \<times> node_run) outcome" where
  "virtualLoop 0 env processTimes s = Inl NoReturn"
| "virtualLoop (Suc fuel) env processTimes s =
     bindE (getInputBuffer env s) (\<lambda>(rc, ins, s1).
       if rc \<noteq> MIAS_OK then Inr (GetInputError, s1)
       else
         bindE (mainOf ins) (\<lambda>i.
           if processTimes + 1 = sint (mInputNumber (pimages (np s1) i)) then Inr (ProcessOK, s1)
           else
             bindE (if has_mode (mNodeMask (nd s1)) SIGRELEASEINPUT_MODE
                    then bindE (releaseInputAndTryNotifyNextNode (mNodeInstance (nd s1)) (np s1)) (\<lambda>p. Inr (s1\<lparr>np := p\<rparr>))
                    else Inr s1) (virtualLoop fuel env (processTimes + 1))))"

definition virtualRound :: "nat \<Rightarrow> mia_env \<Rightarrow> node_run \<Rightarrow> node_run outcome" where
  "virtualRound fuel env s =
     bindE (if has_mode (mNodeMask (nd s)) SIGFRAME_MODE then virtualLoop fuel env 0 s
            else bindE (getInputBuffer env s) (\<lambda>(_, _, s1). Inr (ProcessOK, s1))) (\<lambda>(info, s1).
       notify info 0 s1)"

datatype node_kind = ConcurrencyNode | SigframeNode | OtherNode | VirtualNode

definition CreateNodeInstance :: "u32 \<Rightarrow> node_kind" where
  "CreateNodeInstance mk =
     (if has_mode mk VIRTUAL_MODE then VirtualNode
      else if has_mode mk CONCURRENCY_MODE then ConcurrencyNode
      else if has_mode mk SIGFRAME_MODE then SigframeNode else OtherNode)"

text \<open>One round of \<open>processTask\<close> of a node of each kind; the result says whether the request is over.\<close>

definition nodeRound :: "nat \<Rightarrow> mia_env \<Rightarrow> node_env \<Rightarrow> node_kind \<Rightarrow> node_run \<Rightarrow> (bool \<times> node_run) outcome" where
  "nodeRound fuel env ne k s =
     (case k of
        ConcurrencyNode \<Rightarrow> bindE (concurrencyRound env ne s) (\<lambda>s1. Inr (True, s1))
      | SigframeNode \<Rightarrow> sigframeRound env ne s
      | OtherNode \<Rightarrow> bindE (otherRound env ne s) (\<lambda>s1. Inr (True, s1))
      | VirtualNode \<Rightarrow> bindE (virtualRound fuel env s) (\<lambda>s1. Inr (True, s1)))"

subsection \<open>What a call of the plugin may change\<close>

text \<open>
  Every result of a computation started in \<open>s\<close> is related to \<open>s\<close>; the selector finds the run in
  the result.
\<close>

definition leads :: "(node_run \<Rightarrow> node_run \<Rightarrow> bool) \<Rightarrow> node_run \<Rightarrow> ('x \<Rightarrow> node_run) \<Rightarrow> 'x outcome \<Rightarrow> bool" where
  "leads R s sel m \<longleftrightarrow> (\<forall>x. m = Inr x \<longrightarrow> R s (sel x))"

lemma leadsD: "leads R s sel m \<Longrightarrow> m = Inr x \<Longrightarrow> R s (sel x)"
  by (simp add: leads_def)

lemma leads_Inr [simp]: "leads R s sel (Inr x) = R s (sel x)"
  by (simp add: leads_def)

lemma leads_Inl [simp]: "leads R s sel (Inl e)"
  by (simp add: leads_def)

lemma leads_skip: "(\<And>x. m = Inr x \<Longrightarrow> leads R s sel (f x)) \<Longrightarrow> leads R s sel (bindE m f)"
  by (cases m) simp_all

lemma leads_if: "(P \<Longrightarrow> leads R s sel m) \<Longrightarrow> (\<not> P \<Longrightarrow> leads R s sel m') \<Longrightarrow> leads R s sel (if P then m else m')"
  by simp

abbreviation third :: "'a \<times> 'b \<times> 'c \<Rightarrow> 'c" where "third x \<equiv> snd (snd x)"

text \<open>
  A relation between the runs before and after that every primitive action of a node at work
  respects is respected by the whole call of the plugin.
\<close>

locale run_relation =
  fixes R :: "node_run \<Rightarrow> node_run \<Rightarrow> bool"
  assumes R_refl: "R s s"
    and R_trans: "R s t \<Longrightarrow> R t u \<Longrightarrow> R s u"
    and R_report: "R s (report ty f ts d s)"
    and R_counter: "R s (s\<lparr>nd := (nd s)\<lparr>mInPluginThreadNum := n\<rparr>\<rparr>)"
    and R_record: "R s (s\<lparr>nd := (nd s)\<lparr>mAbnImageCheckForFrameByFrame := a\<rparr>\<rparr>)"
    and R_plugin: "pluginReleaseUnneedBuffer inst port k mode (np s) = Inr (rc, p) \<Longrightarrow> R s (s\<lparr>np := p\<rparr>)"
begin

lemma leads_bind:
  assumes "leads R s sel m" and "\<And>x. m = Inr x \<Longrightarrow> leads R (sel x) sel' (f x)"
  shows "leads R s sel' (bindE m f)"
  using assms R_trans by (cases m) (fastforce simp: leads_def)+

lemma leads_after: "leads R t sel m \<Longrightarrow> R s t \<Longrightarrow> leads R s sel m"
  using R_trans by (fastforce simp: leads_def)

lemma setResultMetadata_leads: "leads R s id (setResultMetadata ne f t r s)"
  by (simp add: setResultMetadata_def Let_def R_report split: option.splits)

lemma runCallbacks_leads: "leads R s id (runCallbacks ne cs s)"
proof (induction ne cs s rule: runCallbacks.induct)
  case (2 ne f ts r cs s)
  then show ?case by (auto intro: leads_bind [OF setResultMetadata_leads])
next
  case (3 ne port k mode cs s)
  have "leads R s id (releaseableUnneedBuffer port k mode s)"
    by (auto simp: releaseableUnneedBuffer_def leads_def bindE_eq_Inr split: option.splits intro!: R_plugin)
  then show ?case using 3 by (auto intro: leads_bind)
qed (simp add: R_refl)

lemma inPlugin_leads: "leads R s snd (inPlugin ne info s)"
proof -
  have "leads R s snd (if mPluginWraper (nd s)
      then bindE (runCallbacks ne (pa_callbacks (pluginRequest ne info))
             (s\<lparr>nd := (nd s)\<lparr>mInPluginThreadNum := mInPluginThreadNum (nd s) + 1\<rparr>\<rparr>)) (\<lambda>s1.
             Inr (pa_success (pluginRequest ne info), s1))
      else Inr (False, s))"
    by (auto intro!: leads_if leads_bind [OF leads_after [OF runCallbacks_leads R_counter]] simp: R_refl)
  then show ?thesis
    unfolding inPlugin_def by (rule leads_bind) (auto simp: Let_def R_counter intro: leads_if split: prod.splits)
qed

lemma updateAbn_leads:
  "leads R s id (updateAbnImageExifData ne f ts d s)"
  "leads R s id (updateAbnImageExifDataV1 env' ne ins outs f ts s)"
  "leads R s id (updateAbnImageExifDataV2 ne ins f ts s)"
proof -
  show a: "leads R s id (updateAbnImageExifData ne f ts d s)" for d
    by (simp add: updateAbnImageExifData_def setResultMetadata_leads R_refl)
  show "leads R s id (updateAbnImageExifDataV1 env' ne ins outs f ts s)"
    unfolding updateAbnImageExifDataV1_def Let_def by (intro leads_skip a)
  show "leads R s id (updateAbnImageExifDataV2 ne ins f ts s)"
    unfolding updateAbnImageExifDataV2_def by (intro leads_skip a)
qed

lemma updateAbn_pair: "leads R s snd (bindE (updateAbnImageExifDataV1 env' ne ins outs f ts s) (\<lambda>t. Inr (k, t)))"
  by (rule leads_bind [OF updateAbn_leads(2)]) (simp add: R_refl)

lemma processRequestInplace_leads: "leads R s third (processRequestInplace ne ins s)"
  unfolding processRequestInplace_def Let_def case_prod_beta
  apply (rule leads_if)
   apply (simp add: R_refl)
  apply (rule leads_skip)
  apply (rule leads_if)
   apply (simp add: R_refl)
  apply (rule leads_bind [OF inPlugin_leads])
  apply (rule leads_bind [OF updateAbn_leads(3)])
  apply (simp add: R_refl)
  done

lemma processRequest_leads: "leads R s third (processRequest env' ne ins outs s)"
  unfolding processRequest_def Let_def case_prod_beta
  apply (rule leads_skip)
  apply (rule leads_skip)
  apply (rule leads_if)
   apply (simp add: R_refl)
  apply (rule leads_bind [OF inPlugin_leads])
  apply (rule leads_bind [where sel = snd])
   apply (simp add: updateAbn_pair R_record R_refl)
  apply (rule leads_bind [where sel = snd])
   apply (simp add: updateAbn_pair R_refl)
  apply (simp add: R_refl)
  done

lemma plainOrInplace_leads: "leads R s third (plainOrInplace env' ne ins outs s)"
  by (simp add: plainOrInplace_def processRequestInplace_leads processRequest_leads)

lemma R_freq: "R s (updateProcFreqExifData ne i r s)"
  by (simp add: updateProcFreqExifData_def R_report)

lemma withFreq_leads:
  assumes "\<And>ins outs s. leads R s third (work ins outs s)"
  shows "leads R s third (withFreq ne on work ins outs s)"
  unfolding withFreq_def
  apply (rule leads_if)
   apply (rule assms)
  apply (rule leads_skip)
  apply (rule leads_bind [OF leads_after [OF assms R_freq]])
  apply (clarsimp simp: R_freq)
  done

end

subsection \<open>A round is work on the pipeline and one report\<close>

text \<open>Only the pipeline and the counters of the node change, the pipeline by the steps a node may take.\<close>

definition moves :: "mia_env \<Rightarrow> node_run \<Rightarrow> node_run \<Rightarrow> bool" where
  "moves env s t \<longleftrightarrow> (node_work env)\<^sup>*\<^sup>* (np s) (np t) \<and> mNodeInstance (nd t) = mNodeInstance (nd s) \<and>
     mNodeMask (nd t) = mNodeMask (nd s) \<and> mPipeline (nd t) = mPipeline (nd s)"

lemma moves_refl [simp, intro]: "moves env s s"
  by (simp add: moves_def)

lemma moves_trans [trans]: "moves env s t \<Longrightarrow> moves env t u \<Longrightarrow> moves env s u"
  by (auto simp: moves_def)

lemma moves_step: "node_work env (np s) p \<Longrightarrow> moves env s (s\<lparr>np := p\<rparr>)"
  by (auto simp: moves_def)

lemma moves_frame [simp]:
  "moves env s (report ty f t d s)" "moves env s (node_flush b s)" "moves env s (setFrames k s)"
  by (simp_all add: moves_def report_def node_flush_def setFrames_def)

lemma getInputBuffer_moves: "getInputBuffer env s = Inr (rc, ins, t) \<Longrightarrow> moves env s t"
  by (auto simp: getInputBuffer_def bindE_eq_Inr intro!: moves_step node_work.inputs)

lemma getOutputBuffer_moves:
  "fresh (outAnswers ne) {#} (np s) \<Longrightarrow> getOutputBuffer env ne ins s = Inr (rc, outs, t) \<Longrightarrow> moves env s t"
  by (auto simp: getOutputBuffer_def bindE_eq_Inr intro!: moves_step node_work.outputs)

interpretation mv: run_relation "moves env" for env
  by unfold_locales (auto intro: moves_trans moves_step node_work.plugin, simp_all add: moves_def)

lemma getInputBuffer_leads: "leads (moves env) s third (getInputBuffer env s)"
  using getInputBuffer_moves by (auto simp: leads_def)

lemma getOutputBuffer_leads: "fresh (outAnswers ne) {#} (np s) \<Longrightarrow> leads (moves env) s third (getOutputBuffer env ne ins s)"
  using getOutputBuffer_moves by (auto simp: leads_def)

text \<open>The session answers with images nobody holds.\<close>

definition answers_fresh :: "mia_env \<Rightarrow> node_env \<Rightarrow> node_run \<Rightarrow> bool" where
  "answers_fresh env ne s \<longleftrightarrow>
     (\<forall>rc ins t. getInputBuffer env s = Inr (rc, ins, t) \<longrightarrow> fresh (outAnswers ne) {#} (np t))"

text \<open>Work, and then one report if the request is over.\<close>

definition reports :: "mia_env \<Rightarrow> node_run \<Rightarrow> bool \<Rightarrow> node_run \<Rightarrow> bool" where
  "reports env s over t \<longleftrightarrow> mPipeline (nd t) = mPipeline (nd s) \<and>
     (\<exists>p. (node_work env)\<^sup>*\<^sup>* (np s) p \<and>
       (if over then \<exists>info frame_num. notifyNextNode (mNodeInstance (nd s)) info 0 frame_num p = Inr (np t) else np t = p))"

lemma notify_reports: "moves env s t \<Longrightarrow> notify info frame_num t = Inr u \<Longrightarrow> reports env s True u"
  by (auto simp: notify_def bindE_eq_Inr reports_def moves_def) blast

lemma serve_reports:
  assumes "answers_fresh env ne s" and "\<And>ins outs s. leads (moves env) s third (work ins outs s)" and "serve env ne work s = Inr t"
  shows "reports env s True t"
proof -
  obtain rc0 ins s1 where i: "getInputBuffer env s = Inr (rc0, ins, s1)" using assms(3) unfolding serve_def bindE_eq_Inr by auto
  obtain rc1 info1 where c: "checkTaskEffectiveness rc0 (if rc0 = MIAS_OK then ProcessOK else GetInputError) s1 = (rc1, info1)"
    by force
  have f: "fresh (outAnswers ne) {#} (np s1)" using assms(1) i by (auto simp: answers_fresh_def)
  obtain rc2 info2 outs s2 where o: "(if rc1 = MIAS_OK
      then bindE (getOutputBuffer env ne ins s1) (\<lambda>(rc, outs, s2). Inr (rc, if rc = MIAS_OK then info1 else GetOutputError, outs, s2))
      else Inr (rc1, info1, [], s1)) = Inr (rc2, info2, outs, s2)"
    and w: "bindE (if rc2 = MIAS_OK
      then bindE (work ins outs s2) (\<lambda>(rc, frame_num, s3). Inr (if rc = MIAS_OK then info2 else NodeProcessError, frame_num, s3))
      else Inr (info2, 0, s2)) (\<lambda>(info3, frame_num, s3). notify info3 frame_num s3) = Inr t"
    using assms(3) i c unfolding serve_def by (auto simp: bindE_eq_Inr Let_def split del: if_split)
  have "moves env s1 s2"
    using o getOutputBuffer_moves [OF f] by (auto simp: bindE_eq_Inr split: if_splits)
  moreover obtain info3 frame_num s3 where "(if rc2 = MIAS_OK
      then bindE (work ins outs s2) (\<lambda>(rc, frame_num, s3). Inr (if rc = MIAS_OK then info2 else NodeProcessError, frame_num, s3))
      else Inr (info2, 0, s2)) = Inr (info3, frame_num, s3)" and n: "notify info3 frame_num s3 = Inr t"
    using w unfolding bindE_eq_Inr by (auto split del: if_split)
  then have "moves env s2 s3"
    using assms(2) [of s2 ins outs] by (cases "work ins outs s2") (auto simp: leads_def split: if_splits)
  moreover note n
  ultimately show ?thesis
    using getInputBuffer_moves [OF i] notify_reports moves_trans by blast
qed

lemma sigFrame_leads:
  assumes "fresh (outAnswers ne) {#} (np s)"
  shows "leads (moves env) s (\<lambda>x. third (third x)) (sigFrame env ne ins s)"
  unfolding sigFrame_def Let_def case_prod_beta
  apply (rule leads_skip)
  apply (rule mv.leads_bind [where sel = third])
   apply (simp add: getOutputBuffer_leads [OF assms])
  apply (rule mv.leads_after [OF _ moves_frame(3)])
  apply (rule mv.leads_bind [where sel = "\<lambda>x. third (snd x)"])
   apply (rule leads_if)
    apply (rule mv.leads_bind [OF mv.plainOrInplace_leads])
    apply simp
   apply simp
  apply simp
  done

lemma sigRelease_moves:
  assumes "sigRelease s = Inr t"
  shows "moves env s t"
proof -
  let ?n = "mNodeInstance (nd s)"
  obtain p where p: "(if has_mode (mNodeMask (nd s)) SIGRELEASEINPUT_MODE
      then releaseInputAndTryNotifyNextNode ?n (np s) else Inr (np s)) = Inr p"
    and q: "(if has_mode (mNodeMask (nd s)) SIGRELEASEOUTPUT_MODE
      then releaseOutputAndTryNotifyNextNode ?n p else Inr p) = Inr (np t)" and t: "t = s\<lparr>np := np t\<rparr>"
    using assms unfolding sigRelease_def bindE_eq_Inr by (auto split del: if_split)
  have "(node_work env)\<^sup>*\<^sup>* (np s) p" "(node_work env)\<^sup>*\<^sup>* p (np t)"
    using p q by (auto split: if_splits intro: node_work.inDone node_work.outDone)
  moreover have "nd t = nd s" by (subst t) simp
  ultimately show ?thesis by (simp add: moves_def rtranclp_trans [of "node_work env"])
qed

lemma checkSig_moves:
  "checkTaskEffectivenessSig rc info s = (b, rc', info', t) \<Longrightarrow> moves env s t \<and> np t = np s"
  by (auto simp: checkTaskEffectivenessSig_def Let_def node_flush_def moves_def split: if_splits)

lemma sigframeRound_reports:
  assumes "answers_fresh env ne s" and "sigframeRound env ne s = Inr (over, t)"
  shows "reports env s over t"
proof -
  obtain rc0 ins s1 where i: "getInputBuffer env s = Inr (rc0, ins, s1)"
    using assms(2) unfolding sigframeRound_def bindE_eq_Inr by auto
  obtain b rc1 info1 s2 where c: "checkTaskEffectivenessSig rc0 (if rc0 = MIAS_OK then ProcessOK else GetInputError) s1 = (b, rc1, info1, s2)"
    using prod_cases4 by blast
  have f: "fresh (outAnswers ne) {#} (np s2)" using assms(1) i checkSig_moves [OF c] by (auto simp: answers_fresh_def)
  obtain rc3 info3 frame_num fin s3 where w: "(if \<not> b \<and> rc1 = MIAS_OK then sigFrame env ne ins s2
      else Inr (rc1, info1, 0, True, s2)) = Inr (rc3, info3, frame_num, fin, s3)"
    and e: "(if rc3 \<noteq> MIAS_OK \<or> fin then bindE (notify info3 frame_num s3) (\<lambda>s4. Inr (True, setFrames 0 s4))
       else bindE (sigRelease s3) (\<lambda>s4. Inr (False, s4))) = Inr (over, t)"
    using assms(2) i c unfolding sigframeRound_def by (auto simp: bindE_eq_Inr Let_def split del: if_split)
  have "moves env s2 s3" using w leadsD [OF sigFrame_leads [OF f]] by (auto split: if_splits)
  then have m: "moves env s s3" using getInputBuffer_moves [OF i] checkSig_moves [OF c, of env] moves_trans by blast
  show ?thesis
  proof (cases "rc3 \<noteq> MIAS_OK \<or> fin")
    case True
    then obtain s4 where "notify info3 frame_num s3 = Inr s4" "over" "t = setFrames 0 s4" using e by (auto simp: bindE_eq_Inr)
    then show ?thesis using notify_reports [OF m] by (auto simp: reports_def setFrames_def)
  next
    case False
    then have "sigRelease s3 = Inr t" "\<not> over" using e by (auto simp: bindE_eq_Inr)
    then show ?thesis using moves_trans [OF m sigRelease_moves] by (auto simp: reports_def moves_def)
  qed
qed

lemma virtualLoop_moves: "virtualLoop fuel env k s = Inr (info, t) \<Longrightarrow> moves env s t"
proof (induction fuel env k s rule: virtualLoop.induct)
  case (2 fuel env k s)
  obtain rc ins s1 where i: "getInputBuffer env s = Inr (rc, ins, s1)" using 2(2) by (auto simp: bindE_eq_Inr)
  note m = getInputBuffer_moves [OF i]
  show ?case
  proof (cases "rc = MIAS_OK")
    case True
    then obtain j where j: "mainOf ins = Inr j" using 2(2) i by (auto simp: bindE_eq_Inr)
    show ?thesis
    proof (cases "k + 1 = sint (mInputNumber (pimages (np s1) j))")
      case True
      then show ?thesis using 2(2) i j m \<open>rc = MIAS_OK\<close> by simp
    next
      case False
      let ?r = "if has_mode (mNodeMask (nd s1)) SIGRELEASEINPUT_MODE
         then bindE (releaseInputAndTryNotifyNextNode (mNodeInstance (nd s1)) (np s1)) (\<lambda>p. Inr (s1\<lparr>np := p\<rparr>)) else Inr s1"
      obtain s2 where r: "?r = Inr s2" and l: "virtualLoop fuel env (k + 1) s2 = Inr (info, t)"
        using 2(2) i j \<open>rc = MIAS_OK\<close> False unfolding virtualLoop.simps by (cases ?r) simp_all
      have "moves env s1 s2" using r by (auto simp: bindE_eq_Inr split: if_splits intro!: moves_step node_work.inDone)
      moreover have "moves env s2 t" using 2(1) False l by metis
      ultimately show ?thesis using m moves_trans by blast
    qed
  next
    case False
    then show ?thesis using 2(2) i m by simp
  qed
qed simp

lemma virtualRound_reports:
  assumes "virtualRound fuel env s = Inr t"
  shows "reports env s True t"
proof -
  obtain info s1 where m: "(if has_mode (mNodeMask (nd s)) SIGFRAME_MODE then virtualLoop fuel env 0 s
            else bindE (getInputBuffer env s) (\<lambda>(_, _, s1). Inr (ProcessOK, s1))) = Inr (info, s1)" and n: "notify info 0 s1 = Inr t"
    using assms unfolding virtualRound_def bindE_eq_Inr by (auto split del: if_split)
  have "moves env s s1" using m virtualLoop_moves getInputBuffer_moves by (auto simp: bindE_eq_Inr split: if_splits)
  then show ?thesis using n by (rule notify_reports)
qed

lemma nodeRound_reports:
  assumes "answers_fresh env ne s" and "nodeRound fuel env ne k s = Inr (over, t)"
  shows "reports env s over t"
proof (cases k)
  case ConcurrencyNode
  then show ?thesis
    using assms serve_reports [OF assms(1) mv.withFreq_leads [OF mv.processRequest_leads]]
    by (auto simp: nodeRound_def concurrencyRound_def bindE_eq_Inr)
next
  case SigframeNode
  then show ?thesis using assms sigframeRound_reports by (simp add: nodeRound_def)
next
  case OtherNode
  then show ?thesis
    using assms serve_reports [OF assms(1) mv.withFreq_leads [OF mv.plainOrInplace_leads]]
    by (auto simp: nodeRound_def otherRound_def bindE_eq_Inr)
next
  case VirtualNode
  then show ?thesis using assms virtualRound_reports by (auto simp: nodeRound_def bindE_eq_Inr)
qed

subsection \<open>How a round appears to the pipeline\<close>

lemma work_steps: "(node_work env)\<^sup>*\<^sup>* p q \<Longrightarrow> pl s = p \<Longrightarrow> (loop_step env)\<^sup>*\<^sup>* s (s\<lparr>pl := q\<rparr>)"
proof (induction rule: rtranclp_induct)
  case base
  then have "s\<lparr>pl := p\<rparr> = s" by (cases s) simp
  then show ?case by simp
next
  case (step q r)
  have "loop_step env (s\<lparr>pl := q\<rparr>) (s\<lparr>pl := q\<rparr>\<lparr>pl := r\<rparr>)"
    using step by (intro loop_step.work) simp
  then show ?case using step by (auto intro: rtranclp.rtrancl_into_rtrancl)
qed

lemma work_running: "(node_work env)\<^sup>*\<^sup>* p q \<Longrightarrow> mRunningNodeNum q = mRunningNodeNum p"
  by (induction rule: rtranclp_induct) (auto dest: node_work_running)

subsection \<open>Frame by frame\<close>

text \<open>The frame counter is not touched by the work of a frame.\<close>

definition same_frames :: "node_run \<Rightarrow> node_run \<Rightarrow> bool" where
  "same_frames s t \<longleftrightarrow> mInputFrameNum (nd t) = mInputFrameNum (nd s)"

interpretation sf: run_relation same_frames
  by unfold_locales (simp_all add: same_frames_def report_def)

lemma input_frames:
  "getInputBuffer env s = Inr (rc, ins, t) \<Longrightarrow> nd t = nd s" "getOutputBuffer env ne ins s = Inr (rc, outs, t) \<Longrightarrow> nd t = nd s"
  "sigRelease s = Inr t \<Longrightarrow> nd t = nd s" "notify info f s = Inr t \<Longrightarrow> nd t = nd s"
  by (auto simp: getInputBuffer_def getOutputBuffer_def sigRelease_def notify_def bindE_eq_Inr)

lemma sigFrame_frames:
  assumes "sigFrame env ne ins s = Inr (rc, info, f, fin, t)"
  shows "mInputFrameNum (nd t) = mInputFrameNum (nd s) + 1 \<and> (rc = MIAS_OK \<longleftrightarrow> info = ProcessOK) \<and>
    (\<exists>i. mainOf ins = Inr i \<and> fin = (mInputFrameNum (nd s) + 1 = sint (mInputNumber (pimages (np s) i))))"
proof -
  obtain i where i: "mainOf ins = Inr i" using assms unfolding sigFrame_def bindE_eq_Inr by blast
  obtain rc1 outs s1 where o: "(if needGetOutBufferThisTime (nd s) then getOutputBuffer env ne ins s else Inr (MIAS_OK, [], s)) = Inr (rc1, outs, s1)"
    and r: "bindE (if rc1 = MIAS_OK
        then bindE (plainOrInplace env ne ins outs (setFrames (mInputFrameNum (nd s1) + 1) s1)) (\<lambda>(rc, frame_num, s3).
               Inr (rc, if rc = MIAS_OK then ProcessOK else NodeProcessError, frame_num, s3))
        else Inr (rc1, GetOutputError, 0, setFrames (mInputFrameNum (nd s1) + 1) s1)) (\<lambda>(rc2, info2, frame_num, s3).
        Inr (rc2, info2, frame_num, mInputFrameNum (nd s3) = sint (mInputNumber (pimages (np s) i)), s3)) = Inr (rc, info, f, fin, t)"
    using assms i unfolding sigFrame_def by (auto simp: bindE_eq_Inr Let_def split del: if_split)
  have s1: "nd s1 = nd s" using o input_frames(2) by (auto split: if_splits)
  let ?s2 = "setFrames (mInputFrameNum (nd s1) + 1) s1"
  have "same_frames ?s2 t \<and> (rc = MIAS_OK \<longleftrightarrow> info = ProcessOK) \<and> fin = (mInputFrameNum (nd t) = sint (mInputNumber (pimages (np s) i)))"
  proof (cases "rc1 = MIAS_OK")
    case True
    then show ?thesis
      using r leadsD [OF sf.plainOrInplace_leads [of ?s2 env ne ins outs]] by (auto simp: bindE_eq_Inr split: if_splits)
  next
    case False
    then show ?thesis using r by (auto simp: same_frames_def)
  qed
  then show ?thesis using i s1 by (auto simp: same_frames_def setFrames_def)
qed

lemma checkSig_facts:
  "checkTaskEffectivenessSig rc info s = (b, rc', info', t) \<Longrightarrow> mFlushStatus (np s) = NoFlush \<Longrightarrow>
     nd t = nd s \<and> np t = np s \<and> b = (rc \<noteq> MIAS_OK) \<and> rc' = rc \<and> info' = info"
  by (auto simp: checkTaskEffectivenessSig_def Let_def split: if_splits)

lemma checkSig_frames: "checkTaskEffectivenessSig rc info s = (b, rc', info', t) \<Longrightarrow> nd t = nd s"
  by (auto simp: checkTaskEffectivenessSig_def Let_def node_flush_def split: if_splits)

lemma notify_error: "notify info f s = Inr t \<Longrightarrow> info \<noteq> ProcessOK \<Longrightarrow> mHasProcessError (np t)"
  by (auto simp: notify_def notifyNextNode_def Let_def bindE_eq_Inr)

lemma sigframeRound_frames:
  assumes "sigframeRound env ne s = Inr (over, t)"
  shows "mInputFrameNum (nd t) = (if over then 0 else mInputFrameNum (nd s) + 1) \<and>
    (\<exists>rc ins s1. getInputBuffer env s = Inr (rc, ins, s1) \<and>
      (mFlushStatus (np s1) = NoFlush \<and> \<not> (over \<and> mHasProcessError (np t)) \<longrightarrow>
        (\<exists>i. mainOf ins = Inr i \<and> over = (mInputFrameNum (nd s) + 1 = sint (mInputNumber (pimages (np s1) i))))))"
proof -
  obtain rc0 ins s1 where i: "getInputBuffer env s = Inr (rc0, ins, s1)"
    using assms unfolding sigframeRound_def bindE_eq_Inr by auto
  obtain b rc1 info1 s2 where c: "checkTaskEffectivenessSig rc0 (if rc0 = MIAS_OK then ProcessOK else GetInputError) s1 = (b, rc1, info1, s2)"
    using prod_cases4 by blast
  obtain rc3 info3 frame_num fin s3 where w: "(if \<not> b \<and> rc1 = MIAS_OK then sigFrame env ne ins s2
      else Inr (rc1, info1, 0, True, s2)) = Inr (rc3, info3, frame_num, fin, s3)"
    and e: "(if rc3 \<noteq> MIAS_OK \<or> fin then bindE (notify info3 frame_num s3) (\<lambda>s4. Inr (True, setFrames 0 s4))
       else bindE (sigRelease s3) (\<lambda>s4. Inr (False, s4))) = Inr (over, t)"
    using assms i c unfolding sigframeRound_def by (auto simp: bindE_eq_Inr Let_def split del: if_split)
  have nd2: "nd s2 = nd s" using checkSig_frames [OF c] input_frames(1) [OF i] by simp
  have fr: "\<not> over \<Longrightarrow> mInputFrameNum (nd t) = mInputFrameNum (nd s) + 1"
    using e w sigFrame_frames [of env ne ins s2] nd2 input_frames(3) by (auto simp: bindE_eq_Inr split: if_splits)
  have z: "over \<Longrightarrow> mInputFrameNum (nd t) = 0" using e by (auto simp: bindE_eq_Inr setFrames_def split: if_splits)
  have "\<exists>j. mainOf ins = Inr j \<and> over = (mInputFrameNum (nd s) + 1 = sint (mInputNumber (pimages (np s1) j)))"
    if "mFlushStatus (np s1) = NoFlush" "\<not> (over \<and> mHasProcessError (np t))"
  proof -
    have cf: "np s2 = np s1" "b = (rc0 \<noteq> MIAS_OK)" "rc1 = rc0" "info1 = (if rc0 = MIAS_OK then ProcessOK else GetInputError)"
      using checkSig_facts [OF c that(1)] by auto
    have err: "mHasProcessError (np t)" if "info3 \<noteq> ProcessOK" "rc3 \<noteq> MIAS_OK \<or> fin"
      using e that notify_error by (auto simp: bindE_eq_Inr setFrames_def)
    have ok: "rc0 = MIAS_OK"
    proof (rule ccontr)
      assume "rc0 \<noteq> MIAS_OK"
      then have "rc3 \<noteq> MIAS_OK" "info3 \<noteq> ProcessOK" using w cf by auto
      then show False using err e \<open>\<not> (over \<and> _)\<close> by (auto simp: bindE_eq_Inr)
    qed
    then have sg: "sigFrame env ne ins s2 = Inr (rc3, info3, frame_num, fin, s3)" using w cf by simp
    have "rc3 = MIAS_OK"
      using sigFrame_frames [OF sg] err e that(2) by (auto simp: bindE_eq_Inr split: if_splits)
    then have "over = fin" using e by (auto simp: bindE_eq_Inr split: if_splits)
    then show ?thesis using sigFrame_frames [OF sg] nd2 cf(1) by simp
  qed
  then show ?thesis using i fr z by auto
qed

text \<open>\<open>n\<close> rounds of one request, none of which ended it.\<close>

inductive frame_rounds :: "mia_env \<Rightarrow> nat \<Rightarrow> node_run \<Rightarrow> node_run \<Rightarrow> bool" for env where
  none: "frame_rounds env 0 s s"
| more: "frame_rounds env n s t \<Longrightarrow> sigframeRound env ne t = Inr (False, u) \<Longrightarrow> frame_rounds env (Suc n) s u"

lemma frame_rounds_count: "frame_rounds env n s t \<Longrightarrow> mInputFrameNum (nd t) = mInputFrameNum (nd s) + int n"
  by (induction rule: frame_rounds.induct) (use sigframeRound_frames in fastforce)+

end
