(* ===== verification/NodeCorrect.thy ===== *)
theory NodeCorrect
  imports NodeTask PipelineCorrect
begin

text \<open>What nodes at work guarantee to the pipeline, to the session and to each other.\<close>

subsection \<open>Rounds\<close>

text \<open>C8: a round of any kind of node, whatever its plugin answers and calls back, is a sequence of the steps
  under which the pipeline's invariants were shown; the node reports back exactly when it is
  done with the request, exactly once, and only then the pipeline counts it as no longer at work.\<close>

theorem node_round_refines:
  assumes "answers_fresh env ne r" and "nodeRound fuel env ne k r = Inr (over, r')"
    and "pl s = np r" and "mNodeInstance (nd r) \<in># working s"
  shows "(\<exists>s'. (loop_step env)\<^sup>*\<^sup>* s s' \<and> pl s' = np r' \<and> dispatched s' = dispatched s \<and>
      working s' = (if over then working s - {#mNodeInstance (nd r)#} else working s)) \<and>
    mRunningNodeNum (np r') = mRunningNodeNum (np r) - (if over then 1 else 0)"
proof -
  let ?n = "mNodeInstance (nd r)"
  obtain p where p: "(node_work env)\<^sup>*\<^sup>* (np r) p"
    and e: "if over then \<exists>info frame_num. notifyNextNode ?n info 0 frame_num p = Inr (np r') else np r' = p"
    using nodeRound_reports [OF assms(1,2)] by (auto simp: reports_def)
  have w: "(loop_step env)\<^sup>*\<^sup>* s (s\<lparr>pl := p\<rparr>)" by (rule work_steps [OF p assms(3)])
  show ?thesis
  proof (cases over)
    case True
    then obtain info frame_num where n: "notifyNextNode ?n info 0 frame_num p = Inr (np r')" using e by auto
    have "\<exists>s'. loop_step env (s\<lparr>pl := p\<rparr>) s' \<and> pl s' = np r' \<and> dispatched s' = dispatched s \<and> working s' = working s - {#?n#}"
    proof (cases "info = ProcessOK")
      case True
      show ?thesis
        using loop_step.completes [of ?n "s\<lparr>pl := p\<rparr>" frame_num "np r'" env] n True assms(4) by fastforce
    next
      case False
      show ?thesis
        using loop_step.fails [of ?n "s\<lparr>pl := p\<rparr>" info 0 frame_num "np r'" env] n False assms(4) by fastforce
    qed
    then show ?thesis using w True notify_running [OF n] work_running [OF p] by (auto intro: rtranclp.rtrancl_into_rtrancl)
  next
    case False
    then show ?thesis using w e work_running [OF p] by auto
  qed
qed

text \<open>Node \<open>A\<close> of the sample run, with a frame in the source queue and an output image at hand.\<close>

definition pool_image :: MiaImage where
  "pool_image = (blankImage MI_IMG_INTERNAL nv12_64 0)\<lparr>mUseCount := 1\<rparr>"

definition sample_node :: "u32 \<Rightarrow> MiaNode" where
  "sample_node mk =
     \<lparr>mNodeMask = mk, mNodeInstance = ''A'', mOutputBufferNeedCheck = False, mPluginWraper = True, mInputFrameNum = 0,
      mHasProcessThread = True, mPipeline = Some 1, mRequestQueue = [], mAbnImageCheckForFrameByFrame = ([], 0, 0),
      mIsMiHalBurstMode = False, mInPluginThreadNum = 0\<rparr>"

definition sample_node_env :: node_env where
  "sample_node_env =
     \<lparr>pluginRequest = (\<lambda>_. \<lparr>pa_callbacks = [SetResultMetadata 1 7 ''done''], pa_success = True\<rparr>),
      isAbnormalImage = (\<lambda>_. \<lparr>isAbnormal = False, ad_level = 0, plane0_value = 0, plane1_value = 0\<rparr>),
      timeText = '' time:1'', abnText = (\<lambda>_. []), freqText = (\<lambda>_. []), runningTasks = 1,
      outAnswers = [Some (9, pool_image)], junkTime = 0, junkHandle = None\<rparr>"

definition round_start :: node_run where
  "round_start =
     \<lparr>nd = sample_node 0, np = offerImage 5 frame_image 0 (run1\<lparr>pwrappers := [nv12_64]\<rparr>), nresults = [], nflushes = []\<rparr>"

definition round_end :: node_run where
  "round_end = snd (projr (nodeRound 0 qcom_env sample_node_env OtherNode round_start))"

lemma round_ok: "nodeRound 0 qcom_env sample_node_env OtherNode round_start = Inr (True, round_end)"
proof -
  have "case nodeRound 0 qcom_env sample_node_env OtherNode round_start of Inr (over, _) \<Rightarrow> over | Inl _ \<Rightarrow> False"
    by code_simp
  then show ?thesis by (auto simp: round_end_def split: sum.splits prod.splits)
qed

lemma round_fresh: "answers_fresh qcom_env sample_node_env round_start"
proof -
  have "case getInputBuffer qcom_env round_start of Inr (_, _, t) \<Rightarrow> fresh (outAnswers sample_node_env) {#} (np t) | Inl _ \<Rightarrow> True"
    by code_simp
  then show ?thesis by (auto simp: answers_fresh_def split: sum.splits)
qed

theorem node_round_refines_witness:
  "\<exists>s'. (loop_step qcom_env)\<^sup>*\<^sup>* \<lparr>pl = np round_start, dispatched = [''A''], working = {#''A''#}, finished = {}, pending = None\<rparr> s' \<and>
     pl s' = np round_end \<and> working s' = {#}"
  using node_round_refines [OF round_fresh round_ok,
      of "\<lparr>pl = np round_start, dispatched = [''A''], working = {#''A''#}, finished = {}, pending = None\<rparr>"]
  by (auto simp: round_start_def sample_node_def)

text \<open>A frame-by-frame node that starts a request with no frame counted takes exactly as many frames as its
  images say: unless the request is being flushed or failed, the round after \<open>n\<close> rounds ends the
  request exactly when the main image asks for \<open>n + 1\<close> frames, and the counter starts from zero
  again.\<close>

theorem frames_of_request:
  assumes "mInputFrameNum (nd s) = 0" and "frame_rounds env n s t" and "sigframeRound env ne t = Inr (over, u)"
  shows "mInputFrameNum (nd u) = (if over then 0 else int n + 1) \<and>
    (\<exists>rc ins t1. getInputBuffer env t = Inr (rc, ins, t1) \<and>
      (mFlushStatus (np t1) = NoFlush \<and> \<not> (over \<and> mHasProcessError (np u)) \<longrightarrow>
        (\<exists>i. mainOf ins = Inr i \<and> (over \<longleftrightarrow> sint (mInputNumber (pimages (np t1) i)) = int n + 1))))"
  using sigframeRound_frames [OF assms(3)] frame_rounds_count [OF assms(2)] assms(1) by auto

definition sig_frame :: MiaImage where
  "sig_frame = frame_image\<lparr>mInputNumber := 2\<rparr>"

definition sig_start :: node_run where
  "sig_start =
     \<lparr>nd = sample_node SIGFRAME_MODE,
      np = offerImage 6 sig_frame 0 (offerImage 5 sig_frame 0 (snd (projr (postProcTask (True, flush_info) run_new)))),
      nresults = [], nflushes = []\<rparr>"

definition sig_mid :: node_run where
  "sig_mid = snd (projr (sigframeRound qcom_env sample_node_env sig_start))"

definition sig_end :: node_run where
  "sig_end = snd (projr (sigframeRound qcom_env sample_node_env sig_mid))"

lemma sig_rounds:
  "sigframeRound qcom_env sample_node_env sig_start = Inr (False, sig_mid)"
  "sigframeRound qcom_env sample_node_env sig_mid = Inr (True, sig_end)"
proof -
  have "case sigframeRound qcom_env sample_node_env sig_start of Inr (over, _) \<Rightarrow> \<not> over | Inl _ \<Rightarrow> False" by code_simp
  then show "sigframeRound qcom_env sample_node_env sig_start = Inr (False, sig_mid)"
    by (auto simp: sig_mid_def split: sum.splits prod.splits)
  have "case sigframeRound qcom_env sample_node_env sig_mid of Inr (over, _) \<Rightarrow> over | Inl _ \<Rightarrow> False" by code_simp
  then show "sigframeRound qcom_env sample_node_env sig_mid = Inr (True, sig_end)"
    by (auto simp: sig_end_def split: sum.splits prod.splits)
qed

theorem frames_of_request_witness: "mInputFrameNum (nd sig_mid) = 1 \<and> mInputFrameNum (nd sig_end) = 0"
proof -
  have z: "mInputFrameNum (nd sig_start) = 0" by (simp add: sig_start_def sample_node_def)
  have "frame_rounds qcom_env 1 sig_start sig_mid"
    using frame_rounds.more [OF frame_rounds.none sig_rounds(1)] by simp
  then show ?thesis
    using frames_of_request [OF z frame_rounds.none sig_rounds(1)] frames_of_request [OF z _ sig_rounds(2)] by auto
qed

end
