(* ===== verification/NodeSchedule.thy ===== *)
theory NodeSchedule
  imports NodeTask
begin

text \<open>
  How a node turns to requests (\<open>enqueueTask\<close>, the critical sections of \<open>processTask\<close>,
  \<open>processTaskError\<close> and \<open>quickFinish\<close> of \<^verbatim>\<open>mivifwk/mialgoengine/MiaNode.cpp\<close>).  Requests wait in a
  priority queue; a serial node has at most one thread, which goes from request to request and
  gives up when none waits; a concurrent or virtual node hands one task per request to the
  pool.  All of this happens under the node's lock, so an execution interleaves these sections.
\<close>

subsection \<open>The request queue\<close>

text \<open>Pairs are compared by priority, then by the address of the pipeline.\<close>

definition pq_less :: "int \<times> nat \<Rightarrow> int \<times> nat \<Rightarrow> bool" where
  "pq_less a b \<longleftrightarrow> fst a < fst b \<or> (fst a = fst b \<and> snd a < snd b)"

fun pq_top :: "(int \<times> nat) list \<Rightarrow> (int \<times> nat) option" where
  "pq_top [] = None"
| "pq_top (x # xs) = (case pq_top xs of None \<Rightarrow> Some x | Some y \<Rightarrow> if pq_less x y then Some y else Some x)"

text \<open>\<open>top\<close> and \<open>pop\<close>; nothing on an empty queue.\<close>

definition takeRequest :: "MiaNode \<Rightarrow> nat option \<times> MiaNode" where
  "takeRequest n =
     (case pq_top (mRequestQueue n) of
        None \<Rightarrow> (None, n)
      | Some x \<Rightarrow> (Some (snd x), n\<lparr>mRequestQueue := remove1 x (mRequestQueue n)\<rparr>))"

record pipe_info =
  fifoPriority :: int
  lifoPriority :: int
  pipeName :: string

definition taskPriority :: "node_kind \<Rightarrow> bool \<Rightarrow> bool \<Rightarrow> pipe_info \<Rightarrow> int" where
  "taskPriority k openLIFO lifoSupported info =
     (if k = OtherNode \<and> openLIFO \<and> lifoSupported then lifoPriority info else fifoPriority info)"

subsection \<open>Serial nodes\<close>

text \<open>
  \<open>enqueueTask\<close> of frame-by-frame and other nodes; the result says whether a thread is started.
  The log statement names the pipeline being served.
\<close>

definition enqueueTask :: "int \<Rightarrow> nat \<Rightarrow> MiaNode \<Rightarrow> (bool \<times> MiaNode) outcome" where
  "enqueueTask prio p n =
     (let n1 = n\<lparr>mRequestQueue := mRequestQueue n @ [(prio, p)]\<rparr>;
          highestPriorityRequest = (mPipeline n1 = None \<and> map_option snd (pq_top (mRequestQueue n1)) = Some p);
          n2 = (if highestPriorityRequest
                then (case takeRequest n1 of (r, n') \<Rightarrow> n'\<lparr>mPipeline := r\<rparr>) else n1)
      in case mPipeline n2 of
           None \<Rightarrow> Inl NullDeref
         | Some _ \<Rightarrow>
             if \<not> mHasProcessThread n2 \<and> highestPriorityRequest
             then Inr (True, n2\<lparr>mHasProcessThread := True\<rparr>) else Inr (False, n2))"

text \<open>
  The section in which the thread of a serial node, done with a request, turns to the next one or
  gives up (also the one of \<open>processTaskError\<close>).
\<close>

definition nextRequest :: "MiaNode \<Rightarrow> bool \<times> MiaNode" where
  "nextRequest n =
     (if mRequestQueue n \<noteq> [] then (case takeRequest n of (r, n') \<Rightarrow> (True, n'\<lparr>mPipeline := r\<rparr>))
      else (False, n\<lparr>mPipeline := None, mHasProcessThread := False\<rparr>))"

text \<open>The other nodes: every request gets a task of its own.\<close>

definition enqueueTaskConcurrent :: "int \<Rightarrow> nat \<Rightarrow> MiaNode \<Rightarrow> MiaNode" where
  "enqueueTaskConcurrent prio p n = n\<lparr>mRequestQueue := mRequestQueue n @ [(prio, p)]\<rparr>"

subsection \<open>Quick finish\<close>

text \<open>
  \<open>MiaNode::quickFinish\<close>; the result says whether a thread that flushes the plugin is started.
  The name of the pipeline being served is read before the mode of the node.
\<close>

definition node_quickFinish :: "(nat \<Rightarrow> string) \<Rightarrow> string \<Rightarrow> MiaNode \<Rightarrow> (bool \<times> MiaNode) outcome" where
  "node_quickFinish name finished_name n =
     (if mInPluginThreadNum n = 1 then
        (case mPipeline n of
           None \<Rightarrow> Inl NullDeref
         | Some p \<Rightarrow>
             if name p = finished_name \<and> \<not> has_mode (mNodeMask n) CONCURRENCY_MODE
             then Inr (True, n\<lparr>mInPluginThreadNum := mInPluginThreadNum n + 1\<rparr>) else Inr (False, n))
      else Inr (False, n))"

subsection \<open>The top of the queue\<close>

lemma pq_top_None [simp]: "pq_top q = None \<longleftrightarrow> q = []"
  by (cases q) (auto split: option.splits)

lemma pq_top_max:
  "pq_top q = Some x \<Longrightarrow> x \<in> set q \<and> (\<forall>y \<in> set q. \<not> pq_less x y)"
proof (induction q arbitrary: x)
  case (Cons a q)
  show ?case
  proof (cases "pq_top q")
    case None
    then show ?thesis using Cons.prems by (auto simp: pq_less_def)
  next
    case (Some y)
    then have "y \<in> set q" "\<forall>z \<in> set q. \<not> pq_less y z" using Cons.IH by auto
    then show ?thesis using Some Cons.prems by (auto simp: pq_less_def split: if_splits)
  qed
qed simp

lemma takeRequest_spec:
  assumes "mRequestQueue n \<noteq> []"
  shows "\<exists>x. takeRequest n = (Some (snd x), n\<lparr>mRequestQueue := remove1 x (mRequestQueue n)\<rparr>) \<and> x \<in> set (mRequestQueue n) \<and>
    (\<forall>y \<in> set (mRequestQueue n). fst y \<le> fst x)"
proof -
  obtain x where x: "pq_top (mRequestQueue n) = Some x" using assms by (cases "pq_top (mRequestQueue n)") auto
  then show ?thesis using pq_top_max [OF x] by (intro exI [of _ x]) (auto simp: takeRequest_def pq_less_def not_less)
qed

subsection \<open>Executions of a serial node\<close>

text \<open>
  The node, the session's count of threads at work in it, its thread in the loop, threads that
  have left the loop but not yet told the session, and the requests accepted and done so far.
\<close>

record sched =
  sn :: MiaNode
  usingThreads :: int
  loopThreads :: nat
  leavingThreads :: nat
  accepted :: "nat list"
  served :: "nat list"

inductive sched_step :: "sched \<Rightarrow> sched \<Rightarrow> bool" where
  accept: "enqueueTask prio p (sn s) = Inr (new, n') \<Longrightarrow>
    sched_step s (s\<lparr>sn := n', usingThreads := usingThreads s + (if new then 1 else 0),
      loopThreads := loopThreads s + (if new then 1 else 0), accepted := accepted s @ [p]\<rparr>)"
| advance: "0 < loopThreads s \<Longrightarrow> mPipeline (sn s) = Some p \<Longrightarrow> nextRequest (sn s) = (goOn, n') \<Longrightarrow>
    sched_step s (s\<lparr>sn := n', served := served s @ [p],
      loopThreads := loopThreads s - (if goOn then 0 else 1),
      leavingThreads := leavingThreads s + (if goOn then 0 else 1)\<rparr>)"
| leave: "0 < leavingThreads s \<Longrightarrow>
    sched_step s (s\<lparr>leavingThreads := leavingThreads s - 1, usingThreads := usingThreads s - 1\<rparr>)"

definition sched_start :: "sched \<Rightarrow> bool" where
  "sched_start s \<longleftrightarrow> mPipeline (sn s) = None \<and> mRequestQueue (sn s) = [] \<and> \<not> mHasProcessThread (sn s) \<and>
     usingThreads s = 0 \<and> loopThreads s = 0 \<and> leavingThreads s = 0 \<and> accepted s = [] \<and> served s = []"

definition current :: "MiaNode \<Rightarrow> nat multiset" where
  "current n = (case mPipeline n of None \<Rightarrow> {#} | Some p \<Rightarrow> {#p#})"

definition sched_ok :: "sched \<Rightarrow> bool" where
  "sched_ok s \<longleftrightarrow> (mHasProcessThread (sn s) \<longleftrightarrow> mPipeline (sn s) \<noteq> None) \<and>
     loopThreads s = (if mHasProcessThread (sn s) then 1 else 0) \<and>
     (mPipeline (sn s) = None \<longrightarrow> mRequestQueue (sn s) = []) \<and>
     usingThreads s = int (loopThreads s) + int (leavingThreads s) \<and>
     mset (accepted s) = mset (served s) + current (sn s) + mset (map snd (mRequestQueue (sn s)))"

lemma mset_map_remove1: "x \<in> set q \<Longrightarrow> mset (map snd q) = add_mset (snd x) (mset (map snd (remove1 x q)))"
  by (induction q) auto

lemma enqueueTask_ok:
  assumes "sched_ok s"
  shows "\<exists>new n'. enqueueTask prio p (sn s) = Inr (new, n') \<and>
    (new \<longleftrightarrow> mPipeline (sn s) = None) \<and> mHasProcessThread n' \<and>
    (if mPipeline (sn s) = None then mPipeline n' = Some p \<and> mRequestQueue n' = []
     else mPipeline n' = mPipeline (sn s) \<and> mRequestQueue n' = mRequestQueue (sn s) @ [(prio, p)])"
  using assms by (auto simp: sched_ok_def enqueueTask_def takeRequest_def Let_def)

lemma sched_step_ok: "sched_step s t \<Longrightarrow> sched_ok s \<Longrightarrow> sched_ok t"
proof (induction rule: sched_step.induct)
  case (accept prio p s new n')
  then show ?case
    using enqueueTask_ok [OF accept(2), of prio p] by (auto simp: sched_ok_def current_def split: option.splits)
next
  case (advance s p goOn n')
  show ?case
  proof (cases "mRequestQueue (sn s) = []")
    case True
    then show ?thesis using advance by (auto simp: sched_ok_def nextRequest_def current_def)
  next
    case False
    then obtain x where x: "takeRequest (sn s) = (Some (snd x), (sn s)\<lparr>mRequestQueue := remove1 x (mRequestQueue (sn s))\<rparr>)"
      "x \<in> set (mRequestQueue (sn s))"
      using takeRequest_spec by blast
    then show ?thesis
      using advance False mset_map_remove1 [OF x(2)] by (auto simp: sched_ok_def nextRequest_def current_def)
  qed
next
  case (leave s)
  then show ?case by (auto simp: sched_ok_def)
qed

interpretation sched: invariant_system sched_start sched_step sched_ok
proof unfold_locales
  fix s
  assume "sched_start s"
  then show "sched_ok s" by (simp add: sched_start_def sched_ok_def current_def)
next
  fix s t
  assume "sched_ok s" and "sched_step s t"
  then show "sched_ok t" using sched_step_ok by blast
qed

subsection \<open>Executions of a concurrent or virtual node\<close>

text \<open>
  \<open>poolTasks\<close> are the tasks handed to the pool and not begun, \<open>busyWith\<close> the requests of the tasks
  that run.  A task that found no request would return without telling the session.
\<close>

record csched =
  cn :: MiaNode
  cusing :: int
  poolTasks :: nat
  busyWith :: "nat multiset"
  caccepted :: "nat list"
  cserved :: "nat list"

inductive csched_step :: "csched \<Rightarrow> csched \<Rightarrow> bool" where
  accept: "csched_step s (s\<lparr>cn := enqueueTaskConcurrent prio p (cn s), cusing := cusing s + 1, poolTasks := poolTasks s + 1,
      caccepted := caccepted s @ [p]\<rparr>)"
| begins: "0 < poolTasks s \<Longrightarrow> takeRequest (cn s) = (r, n') \<Longrightarrow>
    csched_step s (s\<lparr>cn := n', poolTasks := poolTasks s - 1,
      busyWith := (case r of None \<Rightarrow> busyWith s | Some p \<Rightarrow> add_mset p (busyWith s))\<rparr>)"
| finish: "p \<in># busyWith s \<Longrightarrow>
    csched_step s (s\<lparr>cusing := cusing s - 1, busyWith := busyWith s - {#p#}, cserved := cserved s @ [p]\<rparr>)"

definition csched_start :: "csched \<Rightarrow> bool" where
  "csched_start s \<longleftrightarrow> mRequestQueue (cn s) = [] \<and> cusing s = 0 \<and> poolTasks s = 0 \<and> busyWith s = {#} \<and>
     caccepted s = [] \<and> cserved s = []"

definition csched_ok :: "csched \<Rightarrow> bool" where
  "csched_ok s \<longleftrightarrow> poolTasks s = length (mRequestQueue (cn s)) \<and>
     cusing s = int (poolTasks s) + int (size (busyWith s)) \<and>
     mset (caccepted s) = mset (cserved s) + busyWith s + mset (map snd (mRequestQueue (cn s)))"

lemma length_Suc_remove1: "x \<in> set q \<Longrightarrow> length q = Suc (length (remove1 x q))"
  by (induction q) auto

lemma csched_step_ok: "csched_step s t \<Longrightarrow> csched_ok s \<Longrightarrow> csched_ok t"
proof (induction rule: csched_step.induct)
  case (accept s prio p)
  then show ?case by (simp add: csched_ok_def enqueueTaskConcurrent_def)
next
  case (begins s r n')
  then have "mRequestQueue (cn s) \<noteq> []" by (auto simp: csched_ok_def)
  then obtain x where x: "takeRequest (cn s) = (Some (snd x), (cn s)\<lparr>mRequestQueue := remove1 x (mRequestQueue (cn s))\<rparr>)"
    "x \<in> set (mRequestQueue (cn s))"
    using takeRequest_spec by blast
  note l = length_Suc_remove1 [OF x(2)]
  have "n' = (cn s)\<lparr>mRequestQueue := remove1 x (mRequestQueue (cn s))\<rparr>" "r = Some (snd x)" using begins x(1) by simp_all
  then show ?case
    using l begins(1,3) mset_map_remove1 [OF x(2)] unfolding csched_ok_def by simp
next
  case (finish p s)
  then obtain B where "busyWith s = add_mset p B" by (meson mset_add)
  then show ?case using finish by (simp add: csched_ok_def)
qed

interpretation csched: invariant_system csched_start csched_step csched_ok
proof unfold_locales
  fix s
  assume "csched_start s"
  then show "csched_ok s" by (simp add: csched_start_def csched_ok_def)
next
  fix s t
  assume "csched_ok s" and "csched_step s t"
  then show "csched_ok t" using csched_step_ok by blast
qed

subsection \<open>Threads in the plugin\<close>

text \<open>
  The counter \<open>mInPluginThreadNum\<close>, the threads in \<open>processRequest\<close> of the plugin, those waiting
  behind it, and the threads that flush it.  Only a concurrent node lets a second thread in.
\<close>

record plugin_use =
  pcount :: int
  inside :: nat
  waiting :: nat
  flushing :: nat

inductive plugin_step :: "bool \<Rightarrow> plugin_use \<Rightarrow> plugin_use \<Rightarrow> bool" for concurrent where
  enter: "concurrent \<or> inside s + waiting s = 0 \<Longrightarrow>
    plugin_step concurrent s (s\<lparr>pcount := pcount s + 1, inside := inside s + 1\<rparr>)"
| returns: "0 < inside s \<Longrightarrow> plugin_step concurrent s (s\<lparr>inside := inside s - 1, waiting := waiting s + 1\<rparr>)"
| passes: "0 < waiting s \<Longrightarrow> quickFinishWait (pcount s) = (True, k) \<Longrightarrow>
    plugin_step concurrent s (s\<lparr>pcount := k, waiting := waiting s - 1\<rparr>)"
| quick: "\<not> concurrent \<Longrightarrow> pcount s = 1 \<Longrightarrow> plugin_step concurrent s (s\<lparr>pcount := pcount s + 1, flushing := flushing s + 1\<rparr>)"
| flushed: "0 < flushing s \<Longrightarrow> plugin_step concurrent s (s\<lparr>pcount := pcount s - 1, flushing := flushing s - 1\<rparr>)"

definition plugin_idle :: plugin_use where
  "plugin_idle = \<lparr>pcount = 0, inside = 0, waiting = 0, flushing = 0\<rparr>"

definition serial_use :: "plugin_use \<Rightarrow> bool" where
  "serial_use s \<longleftrightarrow> pcount s = int (inside s + waiting s + flushing s) \<and>
     inside s + waiting s \<le> 1 \<and> flushing s \<le> inside s + waiting s"

lemma quickFinishWait_iff: "quickFinishWait k = (True, k') \<longleftrightarrow> k' = 0 \<and> (k = 0 \<or> k = 1)"
  by (auto simp: quickFinishWait_def Let_def)

lemma serial_step: "plugin_step False s t \<Longrightarrow> serial_use s \<Longrightarrow> serial_use t"
proof (induction rule: plugin_step.induct)
  case (passes s k)
  then have "waiting s = 1 \<and> inside s = 0 \<and> flushing s = 0 \<and> k = 0"
    unfolding serial_use_def quickFinishWait_iff by linarith
  then show ?case by (simp add: serial_use_def)
next
  case (quick s)
  then have "flushing s = 0 \<and> inside s + waiting s = 1" unfolding serial_use_def by linarith
  then show ?case using quick by (simp add: serial_use_def)
next
  case (flushed s)
  then have "flushing s = 1 \<and> inside s + waiting s = 1" unfolding serial_use_def by linarith
  then show ?case using flushed by (simp add: serial_use_def)
qed (auto simp: serial_use_def)

interpretation serial: invariant_system "\<lambda>s. s = plugin_idle" "plugin_step False" serial_use
  by unfold_locales (auto simp: plugin_idle_def serial_use_def dest: serial_step)

text \<open>Two threads waiting behind the plugin of a concurrent node, which has no flushing thread.\<close>

definition stuck_use :: "plugin_use \<Rightarrow> bool" where
  "stuck_use s \<longleftrightarrow> pcount s \<ge> 2 \<and> waiting s \<ge> 2 \<and> flushing s = 0"

lemma stuck_step: "plugin_step True s t \<Longrightarrow> stuck_use s \<Longrightarrow> stuck_use t"
  by (induction rule: plugin_step.induct) (auto simp: stuck_use_def quickFinishWait_iff)

interpretation stuck: invariant_system stuck_use "plugin_step True" stuck_use
  by unfold_locales (auto dest: stuck_step)

subsection \<open>Properties\<close>

text \<open>C10: a serial node has one thread at most; it has one exactly when it holds a request; a request waits only
  while that thread is there to take it, the log statement of \<open>enqueueTask\<close> always finds a
  pipeline, and when no thread is counted any more every accepted request has been served once.\<close>

theorem serial_node_serves_all:
  assumes "sched_start s0" and "sched_step\<^sup>*\<^sup>* s0 s"
  shows "loopThreads s \<le> 1 \<and> (loopThreads s = 1 \<longleftrightarrow> mPipeline (sn s) \<noteq> None) \<and>
    (mRequestQueue (sn s) \<noteq> [] \<longrightarrow> loopThreads s = 1) \<and> is_ok (enqueueTask prio p (sn s)) \<and>
    (usingThreads s = 0 \<longrightarrow> mset (served s) = mset (accepted s))"
proof -
  have ok: "sched_ok s" by (rule sched.reachable_inv [OF assms])
  have "is_ok (enqueueTask prio p (sn s))" using enqueueTask_ok [OF ok, of prio p] by (auto simp: is_ok_iff)
  then show ?thesis using ok by (auto simp: sched_ok_def current_def split: if_splits option.splits)
qed

text \<open>A request is accepted by an idle node and served.\<close>

definition idle_node :: MiaNode where
  "idle_node =
     \<lparr>mNodeMask = 0, mNodeInstance = ''N'', mOutputBufferNeedCheck = False, mPluginWraper = True, mInputFrameNum = 0,
      mHasProcessThread = False, mPipeline = None, mRequestQueue = [], mAbnImageCheckForFrameByFrame = ([], 0, 0),
      mIsMiHalBurstMode = False, mInPluginThreadNum = 0\<rparr>"

definition sched_idle :: sched where
  "sched_idle = \<lparr>sn = idle_node, usingThreads = 0, loopThreads = 0, leavingThreads = 0, accepted = [], served = []\<rparr>"

definition sched_done :: sched where
  "sched_done = sched_idle\<lparr>accepted := [4], served := [4]\<rparr>"

lemma sched_done_reachable: "sched_start sched_idle" "sched_step\<^sup>*\<^sup>* sched_idle sched_done"
proof -
  let ?n1 = "idle_node\<lparr>mHasProcessThread := True, mPipeline := Some 4\<rparr>"
  let ?s1 = "sched_idle\<lparr>sn := ?n1, usingThreads := 1, loopThreads := 1, accepted := [4]\<rparr>"
  let ?s2 = "sched_done\<lparr>usingThreads := 1, leavingThreads := 1\<rparr>"
  have "enqueueTask 0 4 idle_node = Inr (True, ?n1)"
    by (simp add: enqueueTask_def takeRequest_def idle_node_def)
  then have 1: "sched_step sched_idle ?s1"
    using sched_step.accept [of 0 4 sched_idle True ?n1] by (simp add: sched_idle_def)
  have 2: "sched_step ?s1 ?s2"
    using sched_step.advance [of ?s1 4 False idle_node] by (simp add: sched_idle_def sched_done_def nextRequest_def idle_node_def)
  have 3: "sched_step ?s2 sched_done"
    using sched_step.leave [of ?s2] by (simp add: sched_idle_def sched_done_def)
  show "sched_start sched_idle" by (simp add: sched_start_def sched_idle_def idle_node_def)
  show "sched_step\<^sup>*\<^sup>* sched_idle sched_done" using 1 2 3 by (meson rtranclp.rtrancl_into_rtrancl rtranclp.rtrancl_refl)
qed

theorem serial_node_serves_all_witness: "loopThreads sched_done \<le> 1 \<and> mset (served sched_done) = mset (accepted sched_done)"
  using serial_node_serves_all [OF sched_done_reachable] by (simp add: sched_done_def sched_idle_def)

text \<open>Every task a concurrent or virtual node hands to the pool finds a request, so the branch that returns
  without telling the session is never taken; when no thread is counted any more, every accepted
  request has been served once.\<close>

theorem concurrent_tasks_find_requests:
  assumes "csched_start s0" and "csched_step\<^sup>*\<^sup>* s0 s"
  shows "(0 < poolTasks s \<longrightarrow> (\<exists>p n. takeRequest (cn s) = (Some p, n))) \<and>
    (cusing s = 0 \<longrightarrow> mset (cserved s) = mset (caccepted s))"
proof -
  have ok: "csched_ok s" by (rule csched.reachable_inv [OF assms])
  have "\<exists>p n. takeRequest (cn s) = (Some p, n)" if "0 < poolTasks s"
    using takeRequest_spec [of "cn s"] ok that by (auto simp: csched_ok_def)
  moreover have "mset (cserved s) = mset (caccepted s)" if "cusing s = 0"
  proof -
    have "size (busyWith s) = 0 \<and> length (mRequestQueue (cn s)) = 0" using ok that unfolding csched_ok_def by linarith
    then show ?thesis using ok by (simp add: csched_ok_def)
  qed
  ultimately show ?thesis by blast
qed

theorem concurrent_tasks_find_requests_witness:
  "\<exists>p n. takeRequest (enqueueTaskConcurrent 3 8 idle_node) = (Some p, n)"
proof -
  let ?s0 = "\<lparr>cn = idle_node, cusing = 0, poolTasks = 0, busyWith = {#}, caccepted = [], cserved = []\<rparr>"
  have "csched_start ?s0" by (simp add: csched_start_def idle_node_def)
  moreover have "csched_step\<^sup>*\<^sup>* ?s0 (?s0\<lparr>cn := enqueueTaskConcurrent 3 8 (cn ?s0), cusing := cusing ?s0 + 1,
      poolTasks := poolTasks ?s0 + 1, caccepted := caccepted ?s0 @ [8]\<rparr>)"
    by (intro r_into_rtranclp csched_step.accept)
  ultimately show ?thesis using concurrent_tasks_find_requests by fastforce
qed

text \<open>When a node turns to a waiting request, it takes one of the highest priority and leaves the others.\<close>

theorem next_request_is_highest:
  assumes "mRequestQueue n \<noteq> []"
  shows "\<exists>k p n'. nextRequest n = (True, n') \<and> mPipeline n' = Some p \<and> (k, p) \<in> set (mRequestQueue n) \<and>
    (\<forall>(k', p') \<in> set (mRequestQueue n). k' \<le> k) \<and>
    mset (mRequestQueue n') = mset (mRequestQueue n) - {#(k, p)#}"
proof -
  obtain x where "takeRequest n = (Some (snd x), n\<lparr>mRequestQueue := remove1 x (mRequestQueue n)\<rparr>)" "x \<in> set (mRequestQueue n)"
    "\<forall>y \<in> set (mRequestQueue n). fst y \<le> fst x"
    using takeRequest_spec [OF assms] by blast
  then show ?thesis using assms by (intro exI [of _ "fst x"] exI [of _ "snd x"]) (auto simp: nextRequest_def)
qed

theorem next_request_is_highest_witness:
  "\<exists>n'. nextRequest (idle_node\<lparr>mRequestQueue := [(- 2, 7), (- 1, 5)]\<rparr>) = (True, n') \<and> mPipeline n' = Some 5"
  using next_request_is_highest [of "idle_node\<lparr>mRequestQueue := [(- 2, 7), (- 1, 5)]\<rparr>"] by auto

text \<open>In a serial node the counter is the number of threads in or behind the plugin plus the flushing one; a
  quick finish flushes only while a call of the plugin is not over, and as soon as the flush has
  returned the waiting thread passes and leaves the counter at zero.\<close>

theorem serial_wait_ends:
  assumes "(plugin_step False)\<^sup>*\<^sup>* plugin_idle s"
  shows "pcount s = int (inside s + waiting s + flushing s) \<and> (0 < flushing s \<longrightarrow> inside s + waiting s = 1) \<and>
    (0 < waiting s \<and> flushing s = 0 \<longrightarrow> quickFinishWait (pcount s) = (True, 0))"
  using serial.reachable_inv [OF refl assms] by (auto simp: serial_use_def quickFinishWait_iff)

theorem serial_wait_ends_witness: "quickFinishWait 1 = (True, 0)"
proof -
  have "plugin_step False plugin_idle (plugin_idle\<lparr>pcount := 1, inside := 1\<rparr>)"
    using plugin_step.enter [of False plugin_idle] by (simp add: plugin_idle_def)
  moreover have "plugin_step False (plugin_idle\<lparr>pcount := 1, inside := 1\<rparr>) (plugin_idle\<lparr>pcount := 1, waiting := 1\<rparr>)"
    using plugin_step.returns [of "plugin_idle\<lparr>pcount := 1, inside := 1\<rparr>" False] by (simp add: plugin_idle_def)
  ultimately have "(plugin_step False)\<^sup>*\<^sup>* plugin_idle (plugin_idle\<lparr>pcount := 1, waiting := 1\<rparr>)" by simp
  from serial_wait_ends [OF this] show ?thesis by (simp add: plugin_idle_def)
qed

text \<open>In a concurrent node two threads that are in the plugin at the same time both wait behind it for ever:
  each waits for the counter to be one, and only a thread that passes takes its count away.\<close>

theorem concurrent_calls_deadlock:
  "\<exists>s. (plugin_step True)\<^sup>*\<^sup>* plugin_idle s \<and> inside s = 0 \<and> waiting s = 2 \<and>
     (\<forall>t. (plugin_step True)\<^sup>*\<^sup>* s t \<longrightarrow> 2 \<le> waiting t \<and> fst (quickFinishWait (pcount t)) = False)"
proof -
  let ?a = "plugin_idle\<lparr>pcount := 1, inside := 1\<rparr>"
  let ?b = "plugin_idle\<lparr>pcount := 2, inside := 2\<rparr>"
  let ?c = "plugin_idle\<lparr>pcount := 2, inside := 1, waiting := 1\<rparr>"
  let ?d = "plugin_idle\<lparr>pcount := 2, waiting := 2\<rparr>"
  have "plugin_step True plugin_idle ?a" using plugin_step.enter [of True plugin_idle] by (simp add: plugin_idle_def)
  moreover have "plugin_step True ?a ?b" using plugin_step.enter [of True ?a] by (simp add: plugin_idle_def numeral_2_eq_2)
  moreover have "plugin_step True ?b ?c" using plugin_step.returns [of ?b True] by (simp add: plugin_idle_def)
  moreover have "plugin_step True ?c ?d" using plugin_step.returns [of ?c True] by (simp add: plugin_idle_def numeral_2_eq_2)
  ultimately have r: "(plugin_step True)\<^sup>*\<^sup>* plugin_idle ?d" by (meson rtranclp.rtrancl_into_rtrancl rtranclp.rtrancl_refl)
  have st: "stuck_use ?d" by (simp add: stuck_use_def plugin_idle_def)
  have "2 \<le> waiting t \<and> fst (quickFinishWait (pcount t)) = False" if "(plugin_step True)\<^sup>*\<^sup>* ?d t" for t
    using stuck.reachable_inv [OF st that] by (simp add: stuck_use_def quickFinishWait_def Let_def)
  then show ?thesis using r by (intro exI [of _ ?d]) (simp add: plugin_idle_def)
qed

end
