(* ===== verification/Workers.thy ===== *)
theory Workers
  imports StdMap
begin

text \<open>
  The process-wide thread pool (\<^verbatim>\<open>mivifwk/mialgoengine/ThreadPool.cpp\<close> and \<^verbatim>\<open>.h\<close>) on which the
  pipelines and the nodes run.  A worker holds the pool's mutex from its wake-up to the call of
  the task and again from the end of the task to its next wait, so an execution is an
  interleaving of these two steps with \<open>enqueue\<close> and the destructor.
\<close>

text \<open>
  A worker waits for a task, runs one, has returned because the pool stopped, or has returned as
  redundant.
\<close>

datatype 'a worker = Waiting | Running 'a | Left | Removed

record 'a ThreadPool =
  mWorkers :: "(int, 'a worker) std_map"
  mPendingRemoveThreadIds :: "int list"
  mTaskQueue :: "'a list"
  mStop :: bool
  mInitThreadNum :: u32
  mIdleThreads :: u32
  mActiveThreadNum :: u32
  mThreadId :: int

abbreviation mMaxThreadNum :: u32 where "mMaxThreadNum \<equiv> 32"

text \<open>\<open>mThreadId\<close> is an atomic \<open>int\<close>, whose increment wraps.\<close>

definition addThread :: "'a ThreadPool \<Rightarrow> 'a ThreadPool" where
  "addThread p =
     p\<lparr>mThreadId := sint (word_of_int (mThreadId p + 1) :: u32),
       mWorkers := sm_insert (mThreadId p) Waiting (mWorkers p),
       mIdleThreads := mIdleThreads p + 1, mActiveThreadNum := mActiveThreadNum p + 1\<rparr>"

definition emptyPool :: "u32 \<Rightarrow> 'a ThreadPool" where
  "emptyPool n =
     \<lparr>mWorkers = [], mPendingRemoveThreadIds = [], mTaskQueue = [], mStop = False, mInitThreadNum = n,
      mIdleThreads = 0, mActiveThreadNum = 0, mThreadId = 0\<rparr>"

definition new_ThreadPool :: "u32 \<Rightarrow> 'a ThreadPool" where
  "new_ThreadPool threads =
     (let n = (if threads > mMaxThreadNum then mMaxThreadNum else threads)
      in (addThread ^^ unat n) (emptyPool n))"

text \<open>
  The loop of worker \<open>t\<close> from its wait to the call of the task; \<open>None\<close> when it is not waiting or
  the condition of the wait does not hold.
\<close>

definition takeTask :: "int \<Rightarrow> 'a ThreadPool \<Rightarrow> 'a ThreadPool option" where
  "takeTask t p =
     (case sm_find (mWorkers p) t of
        Some Waiting \<Rightarrow>
          (case mTaskQueue p of
             [] \<Rightarrow> (if mStop p then Some (p\<lparr>mWorkers := sm_set t Left (mWorkers p)\<rparr>) else None)
           | x # xs \<Rightarrow>
               Some (p\<lparr>mTaskQueue := xs, mIdleThreads := mIdleThreads p - 1,
                       mWorkers := sm_set t (Running x) (mWorkers p)\<rparr>))
      | _ \<Rightarrow> None)"

text \<open>The loop of worker \<open>t\<close> after its task.\<close>

definition finishTask :: "int \<Rightarrow> 'a ThreadPool \<Rightarrow> 'a ThreadPool option" where
  "finishTask t p =
     (case sm_find (mWorkers p) t of
        Some (Running _) \<Rightarrow>
          (let idle = mIdleThreads p + 1;
               beNeededThreadNum = of_nat (length (mTaskQueue p)) * 2
           in if idle > mInitThreadNum p \<and> idle > beNeededThreadNum
              then Some (p\<lparr>mIdleThreads := idle - 1, mActiveThreadNum := mActiveThreadNum p - 1,
                           mPendingRemoveThreadIds := mPendingRemoveThreadIds p @ [t],
                           mWorkers := sm_set t Removed (mWorkers p)\<rparr>)
              else Some (p\<lparr>mIdleThreads := idle, mWorkers := sm_set t Waiting (mWorkers p)\<rparr>))
      | _ \<Rightarrow> None)"

text \<open>The threads to remove are joined from the back; a join waits for a thread that has not returned.\<close>

fun joinPending :: "int list \<Rightarrow> (int, 'a worker) std_map \<Rightarrow> (int, 'a worker) std_map outcome" where
  "joinPending [] ws = Inr ws"
| "joinPending (t # ts) ws =
     (case sm_find ws t of
        None \<Rightarrow> joinPending ts ws
      | Some w \<Rightarrow> (if w = Left \<or> w = Removed then joinPending ts (sm_erase t ws) else Inl WouldBlock))"

definition enqueue :: "'a \<Rightarrow> 'a ThreadPool \<Rightarrow> (int \<times> 'a ThreadPool) outcome" where
  "enqueue task p =
     (if mStop p then Inr (- 1, p)
      else bindE (joinPending (rev (mPendingRemoveThreadIds p)) (mWorkers p)) (\<lambda>ws.
             let p1 = p\<lparr>mPendingRemoveThreadIds := [], mWorkers := ws, mTaskQueue := mTaskQueue p @ [task]\<rparr>;
                 taskNums = of_nat (length (mTaskQueue p1))
             in Inr (0, if mActiveThreadNum p1 < mMaxThreadNum \<and> taskNums > mIdleThreads p1 then addThread p1 else p1)))"

text \<open>The destructor sets the flag and joins every worker.\<close>

definition stopPool :: "'a ThreadPool \<Rightarrow> 'a ThreadPool" where
  "stopPool p = p\<lparr>mStop := True\<rparr>"

definition allReturned :: "'a ThreadPool \<Rightarrow> bool" where
  "allReturned p = list_all (\<lambda>(_, w). w = Left \<or> w = Removed) (mWorkers p)"

subsection \<open>Executions\<close>

text \<open>A state with the tasks accepted and the tasks started so far.\<close>

type_synonym 'a pool_state = "'a ThreadPool \<times> 'a list \<times> 'a list"

inductive worker_step :: "'a pool_state \<Rightarrow> 'a pool_state \<Rightarrow> bool" where
  submit: "enqueue x p = Inr (r, p') \<Longrightarrow> mThreadId p < 2 ^ 31 - 1 \<Longrightarrow> length (mTaskQueue p) < 2 ^ 31 - 1 \<Longrightarrow>
    worker_step (p, acc, started) (p', if r = 0 then acc @ [x] else acc, started)"
| start: "takeTask t p = Some p' \<Longrightarrow> worker_step (p, acc, started) (p', acc, started @ take 1 (mTaskQueue p))"
| finish: "finishTask t p = Some p' \<Longrightarrow> worker_step (p, acc, started) (p', acc, started)"
| stop: "worker_step (p, acc, started) (stopPool p, acc, started)"

definition worker_start :: "u32 \<Rightarrow> 'a pool_state \<Rightarrow> bool" where
  "worker_start n s \<longleftrightarrow> s = (new_ThreadPool n, [], [])"

subsection \<open>The invariant\<close>

definition tally :: "('a worker \<Rightarrow> bool) \<Rightarrow> 'a ThreadPool \<Rightarrow> nat" where
  "tally P p = (\<Sum>e\<leftarrow>mWorkers p. of_bool (P (snd e)))"

abbreviation isRunning :: "'a worker \<Rightarrow> bool" where
  "isRunning w \<equiv> (case w of Running _ \<Rightarrow> True | _ \<Rightarrow> False)"

abbreviation isIdle :: "'a worker \<Rightarrow> bool" where
  "isIdle w \<equiv> (case w of Waiting \<Rightarrow> True | Left \<Rightarrow> True | _ \<Rightarrow> False)"

text \<open>
  The counters are the numbers of workers; redundant workers are pending; there are enough idle
  workers for the queued tasks unless there are as many workers as are allowed; workers leave
  only when the pool has stopped and no task is left.
\<close>

definition counters_ok :: "u32 \<Rightarrow> 'a ThreadPool \<Rightarrow> bool" where
  "counters_ok n p \<longleftrightarrow> unat (mIdleThreads p) = tally isIdle p \<and>
     unat (mActiveThreadNum p) = tally isIdle p + tally isRunning p \<and>
     mInitThreadNum p = min n mMaxThreadNum \<and>
     unat (mInitThreadNum p) \<le> unat (mActiveThreadNum p) \<and> unat (mActiveThreadNum p) \<le> 32 \<and>
     (length (mTaskQueue p) \<le> unat (mIdleThreads p) \<or> unat (mActiveThreadNum p) = 32)"

definition threads_ok :: "'a ThreadPool \<Rightarrow> bool" where
  "threads_ok p \<longleftrightarrow> sm_wf (mWorkers p) \<and> (\<forall>t. sm_find (mWorkers p) t \<noteq> None \<longrightarrow> t < mThreadId p) \<and>
     0 \<le> mThreadId p \<and> mThreadId p < 2 ^ 31 \<and> length (mTaskQueue p) < 2 ^ 31 \<and>
     distinct (mPendingRemoveThreadIds p) \<and>
     (\<forall>t. t \<in> set (mPendingRemoveThreadIds p) \<longleftrightarrow> sm_find (mWorkers p) t = Some Removed) \<and>
     ((\<exists>t. sm_find (mWorkers p) t = Some Left) \<longrightarrow> mStop p \<and> mTaskQueue p = [])"

fun workers_ok :: "u32 \<Rightarrow> 'a pool_state \<Rightarrow> bool" where
  "workers_ok n (p, acc, started) \<longleftrightarrow> counters_ok n p \<and> threads_ok p \<and> acc = started @ mTaskQueue p"

lemma tally_set:
  assumes "sm_wf (mWorkers p)" and "sm_find (mWorkers p) t = Some v"
  shows "tally P (p\<lparr>mWorkers := sm_set t w (mWorkers p)\<rparr>) + of_bool (P v) = tally P p + of_bool (P w)"
  using sum_sm_set [OF assms, of "\<lambda>e. of_bool (P (snd e))" w] by (simp add: tally_def)

lemma tally_frame [simp]:
  "tally P (p\<lparr>mTaskQueue := q\<rparr>) = tally P p" "tally P (p\<lparr>mIdleThreads := i\<rparr>) = tally P p"
  "tally P (p\<lparr>mActiveThreadNum := i\<rparr>) = tally P p" "tally P (p\<lparr>mPendingRemoveThreadIds := l\<rparr>) = tally P p"
  "tally P (p\<lparr>mStop := b\<rparr>) = tally P p"
  by (simp_all add: tally_def)

lemma joinPending_removed:
  assumes "sm_wf ws" and "distinct ts" and "\<forall>t \<in> set ts. sm_find ws t = Some Removed"
  shows "\<exists>ws'. joinPending ts ws = Inr ws' \<and> sm_wf ws' \<and>
    (\<forall>t. sm_find ws' t = (if t \<in> set ts then None else sm_find ws t)) \<and>
    (\<forall>P. \<not> P Removed \<longrightarrow> (\<Sum>e\<leftarrow>ws'. of_bool (P (snd e)) :: nat) = (\<Sum>e\<leftarrow>ws. of_bool (P (snd e))))"
  using assms
proof (induction ts arbitrary: ws)
  case (Cons t ts)
  have e: "sm_find (sm_erase t ws) u = (if u = t then None else sm_find ws u)" for u
    using sm_find_erase [OF Cons.prems(1)] by simp
  have "(\<Sum>e\<leftarrow>sm_erase t ws. of_bool (P (snd e)) :: nat) = (\<Sum>e\<leftarrow>ws. of_bool (P (snd e)))" if "\<not> P Removed" for P
    using sum_sm_erase [of ws t Removed "\<lambda>e. of_bool (P (snd e)) :: nat"] Cons.prems(3) that by simp
  moreover have "\<exists>ws'. joinPending ts (sm_erase t ws) = Inr ws' \<and> sm_wf ws' \<and>
    (\<forall>u. sm_find ws' u = (if u \<in> set ts then None else sm_find (sm_erase t ws) u)) \<and>
    (\<forall>P. \<not> P Removed \<longrightarrow> (\<Sum>e\<leftarrow>ws'. of_bool (P (snd e)) :: nat) = (\<Sum>e\<leftarrow>sm_erase t ws. of_bool (P (snd e))))"
    using Cons.prems e by (intro Cons.IH) (auto simp: sm_wf_erase)
  ultimately show ?case using Cons.prems(3) e by (auto simp del: sum_list_map_eq_sum_count)
qed auto

lemma addThread_id:
  assumes "threads_ok p"
  shows "sm_find (mWorkers p) (mThreadId p) = None"
    and "mThreadId p < 2 ^ 31 - 1 \<Longrightarrow> sint (word_of_int (mThreadId p) + 1 :: u32) = mThreadId p + 1"
proof -
  show "sm_find (mWorkers p) (mThreadId p) = None" using assms by (force simp: threads_ok_def)
  have "sint (word_of_int k :: u32) = k" if "0 \<le> k" "k < 2 ^ 31" for k
    using that by (simp add: signed_of_int signed_take_bit_int_eq_self)
  from this [of "mThreadId p + 1"] show "sint (word_of_int (mThreadId p) + 1 :: u32) = mThreadId p + 1" if "mThreadId p < 2 ^ 31 - 1"
    using assms that by (simp add: threads_ok_def)
qed

lemma addThread_ok:
  assumes "threads_ok p" and "mThreadId p < 2 ^ 31 - 1" and "\<not> mStop p"
  shows "threads_ok (addThread p)"
  using assms addThread_id [OF assms(1)]
  by (auto simp: threads_ok_def addThread_def sm_wf_insert split: option.splits if_splits)

lemma addThread_tally:
  assumes "threads_ok p"
  shows "tally P (addThread p) = tally P p + of_bool (P Waiting)"
  using sum_sm_new [OF addThread_id(1) [OF assms], of "\<lambda>e. of_bool (P (snd e))" Waiting] addThread_id(1) [OF assms]
  by (simp add: tally_def addThread_def sm_insert_def)

lemma enqueue_ok:
  assumes "workers_ok n (p, acc, started)" and "enqueue x p = Inr (r, p')"
    and "mThreadId p < 2 ^ 31 - 1" and "length (mTaskQueue p) < 2 ^ 31 - 1"
  shows "workers_ok n (p', if r = 0 then acc @ [x] else acc, started)"
proof (cases "mStop p")
  case True
  then show ?thesis using assms by (auto simp: enqueue_def)
next
  case False
  have t: "threads_ok p" and c: "counters_ok n p" using assms(1) by simp_all
  obtain ws where j: "joinPending (rev (mPendingRemoveThreadIds p)) (mWorkers p) = Inr ws"
    and wf: "sm_wf ws" and f: "\<And>t. sm_find ws t = (if t \<in> set (mPendingRemoveThreadIds p) then None else sm_find (mWorkers p) t)"
    and sums: "\<And>P. \<not> P Removed \<Longrightarrow> (\<Sum>e\<leftarrow>ws. of_bool (P (snd e)) :: nat) = (\<Sum>e\<leftarrow>mWorkers p. of_bool (P (snd e)))"
    using joinPending_removed [of "mWorkers p" "rev (mPendingRemoveThreadIds p)"] t by (auto simp: threads_ok_def)
  define p1 where "p1 = p\<lparr>mPendingRemoveThreadIds := [], mWorkers := ws, mTaskQueue := mTaskQueue p @ [x]\<rparr>"
  have t1: "threads_ok p1"
    using t f False assms(4) wf by (auto simp: threads_ok_def p1_def)
  have tl: "tally P p1 = tally P p" if "\<not> P Removed" for P
    using sums [of P] that by (simp add: tally_def p1_def)
  have p': "r = 0" "p' = (if mActiveThreadNum p1 < mMaxThreadNum \<and> of_nat (length (mTaskQueue p1)) > mIdleThreads p1 then addThread p1 else p1)"
    using assms(2) False j by (auto simp: enqueue_def p1_def Let_def)
  have len: "unat (of_nat (length (mTaskQueue p1)) :: u32) = length (mTaskQueue p) + 1"
    using assms(4) by (simp add: p1_def unsigned_of_nat take_bit_nat_eq_self del: of_nat_Suc of_nat_add)
  have fields: "mIdleThreads p1 = mIdleThreads p" "mActiveThreadNum p1 = mActiveThreadNum p" "mInitThreadNum p1 = mInitThreadNum p"
    "mThreadId p1 = mThreadId p" "\<not> mStop p1" "mTaskQueue p1 = mTaskQueue p @ [x]"
    using False by (simp_all add: p1_def)
  show ?thesis
  proof (cases "mActiveThreadNum p1 < mMaxThreadNum \<and> of_nat (length (mTaskQueue p1)) > mIdleThreads p1")
    case True
    have "unat (mActiveThreadNum p) < 32" using True fields by (simp add: word_less_nat_alt)
    then have "unat (mIdleThreads p + 1) = unat (mIdleThreads p) + 1" "unat (mActiveThreadNum p + 1) = unat (mActiveThreadNum p) + 1"
      using c by (auto simp: counters_ok_def unat_word_ariths(1))
    then show ?thesis
      using True p' c t1 assms(1,3) fields len addThread_ok [OF t1] addThread_tally [OF t1, of isIdle] addThread_tally [OF t1, of isRunning] tl [of isIdle] tl [of isRunning]
        \<open>unat (mActiveThreadNum p) < 32\<close>
      by (auto simp: counters_ok_def addThread_def)
  next
    case nadd: False
    then show ?thesis
      using p' c t1 assms(1) fields len tl [of isIdle] tl [of isRunning]
      by (auto simp: counters_ok_def word_less_nat_alt not_less)
  qed
qed

lemma takeTask_ok:
  assumes "workers_ok n (p, acc, started)" and "takeTask t p = Some p'"
  shows "workers_ok n (p', acc, started @ take 1 (mTaskQueue p))"
proof -
  have t: "threads_ok p" and c: "counters_ok n p" using assms(1) by simp_all
  have w: "sm_find (mWorkers p) t = Some Waiting" and wf: "sm_wf (mWorkers p)"
    using assms(2) t by (auto simp: takeTask_def threads_ok_def split: option.splits worker.splits)
  note tl = tally_set [OF wf w, of isIdle] tally_set [OF wf w, of isRunning]
  show ?thesis
  proof (cases "mTaskQueue p")
    case Nil
    then have "mStop p" "p' = p\<lparr>mWorkers := sm_set t Left (mWorkers p)\<rparr>"
      using assms(2) w by (auto simp: takeTask_def split: if_splits)
    then show ?thesis
      using Nil tl [of Left] c t w assms(1) by (auto simp: counters_ok_def threads_ok_def sm_wf_set)
  next
    case (Cons x xs)
    then have p': "p' = p\<lparr>mTaskQueue := xs, mIdleThreads := mIdleThreads p - 1, mWorkers := sm_set t (Running x) (mWorkers p)\<rparr>"
      using assms(2) w by (auto simp: takeTask_def)
    have pos: "0 < tally isIdle p" using tl(1) [of "Running x"] by simp
    then have "mIdleThreads p \<noteq> 0" using c by (auto simp: counters_ok_def)
    then have "unat (mIdleThreads p - 1) = unat (mIdleThreads p) - 1" by (rule unat_minus_one)
    then show ?thesis
      using Cons pos p' tl [of "Running x"] c t w assms(1)
      by (auto simp: counters_ok_def threads_ok_def sm_wf_set tally_def)
  qed
qed

lemma finishTask_ok:
  assumes "workers_ok n (p, acc, started)" and "finishTask t p = Some p'"
  shows "workers_ok n (p', acc, started)"
proof -
  have t: "threads_ok p" and c: "counters_ok n p" using assms(1) by simp_all
  obtain x where w: "sm_find (mWorkers p) t = Some (Running x)" and wf: "sm_wf (mWorkers p)"
    using assms(2) t by (auto simp: finishTask_def threads_ok_def split: option.splits worker.splits)
  note tl = tally_set [OF wf w, of isIdle] tally_set [OF wf w, of isRunning]
  have pos: "0 < tally isRunning p" using tl(2) [of Waiting] by simp
  have le: "unat (mActiveThreadNum p) \<le> 32" "mActiveThreadNum p \<noteq> 0" using c pos by (auto simp: counters_ok_def)
  have idle: "unat (mIdleThreads p + 1) = unat (mIdleThreads p) + 1"
    using c le by (auto simp: counters_ok_def unat_word_ariths(1))
  have active: "unat (mActiveThreadNum p - 1) = unat (mActiveThreadNum p) - 1" by (rule unat_minus_one [OF le(2)])
  have need: "unat (of_nat (length (mTaskQueue p)) * 2 :: u32) = length (mTaskQueue p) * 2"
    using t by (simp add: threads_ok_def unat_word_ariths(2) unsigned_of_nat take_bit_nat_eq_self)
  show ?thesis
  proof (cases "mIdleThreads p + 1 > mInitThreadNum p \<and> mIdleThreads p + 1 > of_nat (length (mTaskQueue p)) * 2")
    case True
    then have "p' = p\<lparr>mIdleThreads := mIdleThreads p, mActiveThreadNum := mActiveThreadNum p - 1,
        mPendingRemoveThreadIds := mPendingRemoveThreadIds p @ [t], mWorkers := sm_set t Removed (mWorkers p)\<rparr>"
      using assms(2) w by (auto simp: finishTask_def Let_def)
    moreover have "unat (mInitThreadNum p) \<le> unat (mIdleThreads p)" "length (mTaskQueue p) \<le> unat (mIdleThreads p)"
      using True idle need by (auto simp: word_less_nat_alt)
    ultimately show ?thesis
      using tl [of Removed] pos active c t w assms(1)
      by (auto simp: counters_ok_def threads_ok_def sm_wf_set tally_def)
  next
    case False
    then have "p' = p\<lparr>mIdleThreads := mIdleThreads p + 1, mWorkers := sm_set t Waiting (mWorkers p)\<rparr>"
      using assms(2) w by (auto simp: finishTask_def Let_def split: if_splits)
    then show ?thesis
      using tl [of Waiting] idle c t w assms(1)
      by (auto simp: counters_ok_def threads_ok_def sm_wf_set tally_def)
  qed
qed

lemma worker_step_ok: "worker_step s s' \<Longrightarrow> workers_ok n s \<Longrightarrow> workers_ok n s'"
proof (induction rule: worker_step.induct)
  case (submit x p r p' acc started)
  then show ?case by (intro enqueue_ok)
next
  case (start t p p' acc started)
  then show ?case using takeTask_ok by blast
next
  case (finish t p p' acc started)
  then show ?case using finishTask_ok by blast
next
  case (stop p acc started)
  then show ?case by (auto simp: stopPool_def counters_ok_def threads_ok_def)
qed

lemma addThreads:
  fixes p :: "'a ThreadPool"
  assumes "p = (addThread ^^ k) (emptyPool n)" and "k \<le> 32"
  shows "threads_ok p \<and> mThreadId p = int k \<and> \<not> mStop p \<and> mTaskQueue p = [] \<and> mInitThreadNum p = n \<and>
     mIdleThreads p = of_nat k \<and> mActiveThreadNum p = of_nat k \<and> tally isIdle p = k \<and> tally isRunning p = 0"
  using assms
proof (induction k arbitrary: p)
  case 0
  then show ?case by (simp add: emptyPool_def threads_ok_def tally_def)
next
  case (Suc k)
  define q where "q = (addThread ^^ k) (emptyPool n :: 'a ThreadPool)"
  have ih: "threads_ok q" "mThreadId q = int k" "\<not> mStop q" "mTaskQueue q = []" "mInitThreadNum q = n"
    "mIdleThreads q = of_nat k" "mActiveThreadNum q = of_nat k" "tally isIdle q = k" "tally isRunning q = 0"
    using Suc.IH [OF q_def] Suc.prems(2) by simp_all
  have k: "mThreadId q < 2 ^ 31 - 1" using ih(2) Suc.prems by simp
  have "p = addThread q" using Suc.prems(1) by (simp add: q_def)
  moreover have "mThreadId (addThread q) = int k + 1"
    using addThread_id(2) [OF ih(1) k] ih(2) by (simp add: addThread_def)
  ultimately show ?case
    using ih addThread_ok [OF ih(1) k ih(3)] addThread_tally [OF ih(1)]
    by (simp add: addThread_def)
qed

lemma new_ThreadPool_ok: "workers_ok n (new_ThreadPool n, [], [])"
proof -
  define k where "k = (if n > mMaxThreadNum then mMaxThreadNum else n)"
  have k: "unat k \<le> 32" "k = min n mMaxThreadNum" by (auto simp: k_def word_less_nat_alt min_def not_less word_le_nat_alt)
  have "new_ThreadPool n = (addThread ^^ unat k) (emptyPool k)"
    by (simp add: new_ThreadPool_def k_def Let_def)
  from addThreads [OF this k(1)] k show ?thesis by (auto simp: counters_ok_def)
qed

interpretation workers: invariant_system "worker_start n" worker_step "workers_ok n" for n
proof unfold_locales
  fix s :: "'a pool_state"
  assume "worker_start n s"
  then show "workers_ok n s" using new_ThreadPool_ok by (simp add: worker_start_def)
next
  fix s t :: "'a pool_state"
  assume "workers_ok n s" and "worker_step s t"
  then show "workers_ok n t" using worker_step_ok by blast
qed

subsection \<open>Properties\<close>

lemma tally_zero: "tally P p = 0 \<longleftrightarrow> (\<forall>e \<in> set (mWorkers p). \<not> P (snd e))"
  by (simp add: tally_def)

lemma tally_pos:
  assumes "0 < tally P p" and "sm_wf (mWorkers p)"
  shows "\<exists>t w. sm_find (mWorkers p) t = Some w \<and> P w"
proof -
  obtain t w where "(t, w) \<in> set (mWorkers p)" "P w" using assms(1) tally_zero [of P p] by auto
  then show ?thesis using sm_entries_find [OF assms(2)] by blast
qed

text \<open>C12: in every execution of the pool before its shutdown, the idle counter is the number of waiting workers, the
  active counter is the number of live workers and lies between the initial number and 32, and
  whenever a task is queued, a worker is waiting that will take it or 32 workers are running.\<close>

theorem queued_task_has_worker:
  assumes "worker_start n s0" and "worker_step\<^sup>*\<^sup>* s0 (p, acc, started)" and "\<not> mStop p"
  shows "unat (mIdleThreads p) = tally (\<lambda>w. w = Waiting) p \<and>
    unat (mActiveThreadNum p) = tally (\<lambda>w. w = Waiting) p + tally isRunning p \<and>
    min n mMaxThreadNum \<le> mActiveThreadNum p \<and> mActiveThreadNum p \<le> mMaxThreadNum \<and>
    (mTaskQueue p \<noteq> [] \<longrightarrow> (\<exists>t. takeTask t p \<noteq> None) \<or> tally isRunning p = 32)"
proof -
  have ok: "counters_ok n p" "threads_ok p" using workers.reachable_inv [OF assms(1,2)] by simp_all
  have nl: "snd e \<noteq> Left" if "e \<in> set (mWorkers p)" for e
    using ok(2) that assms(3) sm_entries_find [of "mWorkers p" "fst e" "snd e"] by (auto simp: threads_ok_def)
  have "isIdle (snd e) \<longleftrightarrow> snd e = Waiting" if "e \<in> set (mWorkers p)" for e
    using nl [OF that] by (auto split: worker.splits)
  then have eq: "tally isIdle p = tally (\<lambda>w. w = Waiting) p"
    unfolding tally_def by (intro arg_cong [of _ _ sum_list] map_cong refl) simp
  have "\<exists>t. takeTask t p \<noteq> None" if "mTaskQueue p \<noteq> []" "tally isRunning p \<noteq> 32"
  proof -
    have "length (mTaskQueue p) > 0" using that(1) by simp
    then have "0 < tally isIdle p" using ok(1) that(2) unfolding counters_ok_def by linarith
    then obtain t where "sm_find (mWorkers p) t = Some Waiting"
      using tally_pos [of "\<lambda>w. w = Waiting" p] ok(2) eq by (auto simp: threads_ok_def)
    then show ?thesis using that(1) by (intro exI [of _ t]) (auto simp: takeTask_def split: list.splits)
  qed
  then show ?thesis using ok(1) eq by (auto simp: counters_ok_def word_le_nat_alt)
qed

theorem queued_task_has_worker_witness:
  "min 2 mMaxThreadNum \<le> mActiveThreadNum (new_ThreadPool 2 :: nat ThreadPool) \<and>
   unat (mIdleThreads (new_ThreadPool 2 :: nat ThreadPool)) = tally (\<lambda>w. w = Waiting) (new_ThreadPool 2 :: nat ThreadPool)"
proof -
  have "\<not> mStop (new_ThreadPool 2 :: nat ThreadPool)" by code_simp
  then show ?thesis
    using queued_task_has_worker [of 2 "(new_ThreadPool 2, [], [])" "new_ThreadPool 2 :: nat ThreadPool" "[]" "[]"]
    by (simp add: worker_start_def)
qed

text \<open>Tasks are started in the order in which they were accepted, none twice and none skipped; and when the
  destructor has joined every worker, every accepted task has been started.\<close>

theorem tasks_start_in_order:
  assumes "worker_start n s0" and "worker_step\<^sup>*\<^sup>* s0 (p, acc, started)"
  shows "acc = started @ mTaskQueue p \<and> (n \<noteq> 0 \<longrightarrow> allReturned p \<longrightarrow> started = acc)"
proof -
  have ok: "counters_ok n p" "threads_ok p" "acc = started @ mTaskQueue p"
    using workers.reachable_inv [OF assms] by simp_all
  have "mTaskQueue p = []" if "n \<noteq> 0" "allReturned p"
  proof -
    have "tally isRunning p = 0" using that(2) by (auto simp: tally_zero allReturned_def list_all_iff split: worker.splits)
    moreover have "min n mMaxThreadNum \<noteq> 0" using that(1) by (simp add: min_def)
    then have "0 < unat (min n mMaxThreadNum)" by (simp add: unat_gt_0)
    ultimately have "0 < tally isIdle p"
      using ok(1) unfolding counters_ok_def by (metis add.right_neutral gr_zeroI le_zero_eq)
    then obtain t w where w: "sm_find (mWorkers p) t = Some w" "isIdle w"
      using tally_pos [of isIdle p] ok(2) by (auto simp: threads_ok_def)
    then have "w = Left"
      using that(2) sm_entries_find [of "mWorkers p" t w] ok(2) by (auto simp: allReturned_def list_all_iff threads_ok_def split: worker.splits)
    then show ?thesis using ok(2) w by (auto simp: threads_ok_def)
  qed
  then show ?thesis using ok(3) by simp
qed

text \<open>One worker runs one task; the pool stops; the worker ends its task and leaves.\<close>

definition pool_after_one :: "nat ThreadPool" where
  "pool_after_one =
     the (takeTask 0 (the (finishTask 0 (stopPool (the (takeTask 0 (snd (projr (enqueue 5 (new_ThreadPool 1))))))))))"

lemma pool_after_one_reachable: "worker_step\<^sup>*\<^sup>* (new_ThreadPool 1, [], []) (pool_after_one, [5], [5])"
proof -
  let ?p0 = "new_ThreadPool 1 :: nat ThreadPool"
  let ?p1 = "snd (projr (enqueue 5 ?p0))"
  let ?p2 = "the (takeTask 0 ?p1)"
  let ?p3 = "the (finishTask 0 (stopPool ?p2))"
  have "is_ok (enqueue 5 ?p0)" "fst (projr (enqueue 5 ?p0)) = 0" "mThreadId ?p0 < 2 ^ 31 - 1" "mTaskQueue ?p0 = []"
    "mTaskQueue ?p1 = [5]" "takeTask 0 ?p1 \<noteq> None" "finishTask 0 (stopPool ?p2) \<noteq> None" "takeTask 0 ?p3 \<noteq> None" "mTaskQueue ?p3 = []"
    by code_simp+
  note f = this
  have "worker_step (?p0, [], []) (?p1, [5], [])"
    using worker_step.submit [of 5 ?p0 0 ?p1 "[]" "[]"] f(1-4) by (auto simp: is_ok_iff)
  moreover have "worker_step (?p1, [5], []) (?p2, [5], [5])"
    using worker_step.start [of 0 ?p1 ?p2 "[5]" "[]"] f(5,6) by auto
  moreover have "worker_step (?p2, [5], [5]) (stopPool ?p2, [5], [5])" by (rule worker_step.stop)
  moreover have "worker_step (stopPool ?p2, [5], [5]) (?p3, [5], [5])"
    using f(7) by (intro worker_step.finish [of 0]) auto
  moreover have "worker_step (?p3, [5], [5]) (pool_after_one, [5], [5])"
    using worker_step.start [of 0 ?p3 pool_after_one "[5]" "[5]"] f(8,9) by (auto simp: pool_after_one_def)
  ultimately show ?thesis by (meson converse_rtranclp_into_rtranclp rtranclp.rtrancl_refl)
qed

theorem tasks_start_in_order_witness: "allReturned pool_after_one \<and> mTaskQueue pool_after_one = []"
proof -
  have "allReturned pool_after_one" by code_simp
  then show ?thesis
    using tasks_start_in_order [of 1 _ pool_after_one, OF _ pool_after_one_reachable] by (simp add: worker_start_def)
qed

lemma enqueue_returns:
  assumes "workers_ok n (p, acc, started)" and "\<not> mStop p"
  shows "\<exists>p'. enqueue x p = Inr (0, p') \<and> mThreadId p' \<in> {mThreadId p, sint (word_of_int (mThreadId p) + 1 :: u32)} \<and>
    mTaskQueue p' = mTaskQueue p @ [x] \<and> \<not> mStop p' \<and> tally isRunning p' = tally isRunning p"
proof -
  have t: "threads_ok p" using assms(1) by simp
  obtain ws where j: "joinPending (rev (mPendingRemoveThreadIds p)) (mWorkers p) = Inr ws" and wf: "sm_wf ws"
    and f: "\<And>t. sm_find ws t = (if t \<in> set (mPendingRemoveThreadIds p) then None else sm_find (mWorkers p) t)"
    and sums: "\<And>P. \<not> P Removed \<Longrightarrow> (\<Sum>e\<leftarrow>ws. of_bool (P (snd e)) :: nat) = (\<Sum>e\<leftarrow>mWorkers p. of_bool (P (snd e)))"
    using joinPending_removed [of "mWorkers p" "rev (mPendingRemoveThreadIds p)"] t by (auto simp: threads_ok_def)
  have "sm_find ws (mThreadId p) = None" using f addThread_id(1) [OF t] by simp
  then show ?thesis
    using assms(2) j sums [of isRunning] sum_sm_new [of ws "mThreadId p" "\<lambda>e. of_bool (isRunning (snd e)) :: nat" Waiting]
    by (auto simp: enqueue_def Let_def addThread_def tally_def sm_insert_def)
qed

text \<open>A pool of twelve threads whose tasks do not end: they are submitted and started one after the other.\<close>

lemma unending_tasks:
  assumes "k \<le> 32"
  shows "\<exists>p. worker_step\<^sup>*\<^sup>* (new_ThreadPool 12, [], []) (p, [0..<k], [0..<k]) \<and> \<not> mStop p \<and>
    tally isRunning p = k \<and> mThreadId p \<le> 12 + int k"
  using assms
proof (induction k)
  case 0
  have "mThreadId (new_ThreadPool 12 :: nat ThreadPool) = 12 \<and> \<not> mStop (new_ThreadPool 12 :: nat ThreadPool) \<and>
      tally isRunning (new_ThreadPool 12 :: nat ThreadPool) = 0"
    using addThreads [of "(addThread ^^ 12) (emptyPool 12) :: nat ThreadPool", OF refl] by (simp add: new_ThreadPool_def)
  then show ?case by auto
next
  case (Suc k)
  have start: "worker_start 12 (new_ThreadPool 12, [], [])" by (simp add: worker_start_def)
  obtain p where p: "worker_step\<^sup>*\<^sup>* (new_ThreadPool 12, [], []) (p, [0..<k], [0..<k])" "\<not> mStop p"
    "tally isRunning p = k" "mThreadId p \<le> 12 + int k"
    using Suc by auto
  have ok: "workers_ok 12 (p, [0..<k], [0..<k])" by (rule workers.reachable_inv [OF start p(1)])
  then have q: "mTaskQueue p = []" and id: "mThreadId p < 2 ^ 31 - 1" using p(4) Suc.prems by auto
  obtain p1 where p1: "enqueue k p = Inr (0, p1)" "mThreadId p1 \<le> 12 + int (Suc k)" "mTaskQueue p1 = [k]" "\<not> mStop p1"
    "tally isRunning p1 = k"
    using enqueue_returns [OF ok p(2), of k] q p addThread_id(2) [of p] ok id by auto
  have "worker_step (p, [0..<k], [0..<k]) (p1, [0..<Suc k], [0..<k])"
    using worker_step.submit [OF p1(1) id, of "[0..<k]" "[0..<k]"] q by simp
  then have r1: "worker_step\<^sup>*\<^sup>* (new_ThreadPool 12, [], []) (p1, [0..<Suc k], [0..<k])"
    using p(1) by (rule rtranclp.rtrancl_into_rtrancl [rotated])
  obtain t p2 where t: "takeTask t p1 = Some p2"
    using queued_task_has_worker [OF start r1 p1(4)] p1(3,5) Suc.prems by auto
  have w: "sm_find (mWorkers p1) t = Some Waiting" "p2 = p1\<lparr>mTaskQueue := [], mIdleThreads := mIdleThreads p1 - 1,
      mWorkers := sm_set t (Running k) (mWorkers p1)\<rparr>"
    using t p1(3) by (auto simp: takeTask_def split: option.splits worker.splits)
  have "sm_wf (mWorkers p1)" using workers.reachable_inv [OF start r1] by (simp add: threads_ok_def)
  then have "tally isRunning p2 = Suc k" using tally_set [OF _ w(1), of isRunning "Running k"] w(2) p1(5) by (simp add: tally_def)
  moreover have "worker_step\<^sup>*\<^sup>* (new_ThreadPool 12, [], []) (p2, [0..<Suc k], [0..<Suc k])"
    using r1 worker_step.start [OF t, of "[0..<Suc k]" "[0..<k]"] p1(3) by (auto intro: rtranclp.rtrancl_into_rtrancl)
  ultimately show ?case using w(2) p1 by auto
qed

text \<open>A task of a pipeline ends only after the tasks of its nodes, which run on the same pool.  With 32
  such tasks running, a further task is queued and no worker can take it: 32 requests at a time
  leave no thread for the nodes they wait for.\<close>

theorem pool_exhausted:
  "\<exists>p. worker_step\<^sup>*\<^sup>* (new_ThreadPool 12, [], []) (p, [0..<33], [0..<32]) \<and> \<not> mStop p \<and>
     tally isRunning p = 32 \<and> mTaskQueue p = [32] \<and> (\<forall>t. takeTask t p = None)"
proof -
  have start: "worker_start 12 (new_ThreadPool 12, [], [])" by (simp add: worker_start_def)
  obtain p where p: "worker_step\<^sup>*\<^sup>* (new_ThreadPool 12, [], []) (p, [0..<32], [0..<32])" "\<not> mStop p"
    "tally isRunning p = 32" "mThreadId p \<le> 12 + 32"
    using unending_tasks [of 32] by auto
  have ok: "workers_ok 12 (p, [0..<32], [0..<32])" by (rule workers.reachable_inv [OF start p(1)])
  obtain p1 where p1: "enqueue 32 p = Inr (0, p1)" "mTaskQueue p1 = [32]" "\<not> mStop p1" "tally isRunning p1 = 32"
    using enqueue_returns [OF ok p(2), of 32] ok p(3) by auto
  have "worker_step (p, [0..<32], [0..<32]) (p1, [0..<32] @ [32], [0..<32])"
    using worker_step.submit [OF p1(1), of "[0..<32]" "[0..<32]"] ok p(4) by simp
  then have "worker_step (p, [0..<32], [0..<32]) (p1, [0..<Suc 32], [0..<32])"
    unfolding upt_Suc_append [OF le0] .
  then have r1: "worker_step\<^sup>*\<^sup>* (new_ThreadPool 12, [], []) (p1, [0..<Suc 32], [0..<32])"
    using p(1) by (rule rtranclp.rtrancl_into_rtrancl [rotated])
  have "tally (\<lambda>w. w = Waiting) p1 = 0"
    using queued_task_has_worker [OF start r1 p1(3)] p1(4) by (auto simp: word_le_nat_alt)
  moreover have "sm_wf (mWorkers p1)" using workers.reachable_inv [OF start r1] by (simp add: threads_ok_def)
  ultimately have "sm_find (mWorkers p1) t \<noteq> Some Waiting" for t
    using sm_entries_find [of "mWorkers p1" t Waiting] by (force simp: tally_zero)
  then have "takeTask t p1 = None" for t by (auto simp: takeTask_def split: option.splits worker.splits)
  then show ?thesis using r1 p1 by auto
qed

end
