(* ===== verification/SessionExif.thy ===== *)
theory SessionExif
  imports Pruner Image
begin

text \<open>
  What the session reads from the metadata of the frames of a request to describe the request
  (\<open>updateFovCropZoomRatio\<close>, \<open>prepareForExifUpdate\<close>, \<open>updateExifInfo\<close>, \<open>getFaceExifInfo\<close> of
  \<^verbatim>\<open>mivifwk/mialgoengine/MiaOfflineSession.cpp\<close>).  Floating point numbers are their bit patterns;
  the operations on them and their printed forms are parameters.
\<close>

record float_ops =
  f_one :: u32
  f_zero :: u32
  f_tolerance :: u32
  f_of_u32 :: "u32 \<Rightarrow> u32"
  f_of_i32 :: "int \<Rightarrow> u32"
  f_to_i32 :: "u32 \<Rightarrow> int"
  f_add :: "u32 \<Rightarrow> u32 \<Rightarrow> u32"
  f_mul :: "u32 \<Rightarrow> u32 \<Rightarrow> u32"
  f_div :: "u32 \<Rightarrow> u32 \<Rightarrow> u32"
  f_less :: "u32 \<Rightarrow> u32 \<Rightarrow> bool"
  f_above_hundredth :: "u32 \<Rightarrow> bool"
  d_add :: "u64 \<Rightarrow> u64 \<Rightarrow> u64"
  ticksToNano :: "u64 \<Rightarrow> u64"
  gyroText :: "u32 \<Rightarrow> u32 \<Rightarrow> u32 \<Rightarrow> string"
  averageText :: "u64 \<Rightarrow> int \<Rightarrow> string"
  millisText :: "u64 \<Rightarrow> string"

text \<open>A double is true when it is neither zero.\<close>

definition d_true :: "u64 \<Rightarrow> bool" where
  "d_true b \<longleftrightarrow> push_bit 1 b \<noteq> 0"

definition read_u64 :: "cmem \<Rightarrow> u64" where
  "read_u64 p = ucast (read_u32 p) OR push_bit 32 (ucast (read_u32 (\<lambda>i. p (i + 4))))"

definition at_offset :: "cmem \<Rightarrow> nat \<Rightarrow> cmem" where
  "at_offset p k = (\<lambda>i. p (i + k))"

text \<open>\<open>snprintf\<close> into a buffer of \<open>n\<close> bytes.\<close>

definition snprintf :: "nat \<Rightarrow> string \<Rightarrow> string" where
  "snprintf n s = take (n - 1) s"

subsection \<open>The zoom ratio of a cropped field of view\<close>

abbreviation ANDROID_CONTROL_ZOOM_RATIO :: u32 where "ANDROID_CONTROL_ZOOM_RATIO \<equiv> 0x1002F"

definition write_u32 :: "u32 \<Rightarrow> cmem \<Rightarrow> cmem" where
  "write_u32 v p = (\<lambda>i. if i < 4 then ucast (drop_bit (8 * i) v) else p i)"

text \<open>
  The lookups share one pointer, which a failing lookup leaves as it is.  The result is the
  logical metadata, whose entry is changed in place; the shift by the camera id is undefined
  beyond the width of an \<open>int\<close>.
\<close>

definition updateFovCropZoomRatio ::
  "mia_env \<Rightarrow> float_ops \<Rightarrow> (int \<Rightarrow> metadata_ptr) \<Rightarrow> metadata_ptr \<Rightarrow> metadata_ptr \<Rightarrow> metadata_ptr outcome" where
  "updateFovCropZoomRatio env fl staticOf md phy =
     (let input = (case phy of None \<Rightarrow> md | Some _ \<Rightarrow> phy);
          d0 = vtag env input ''xiaomi.snapshot.fwkCameraId'' None
      in case d0 of
           None \<Rightarrow> Inr md
         | Some p0 \<Rightarrow>
             let cameraId = sint (read_u32 p0);
                 st = staticOf cameraId;
                 d1 = vtag env st ''xiaomi.fovcrop.cameraIdMask'' d0;
                 fovcropCameraIdMask = (case d1 of None \<Rightarrow> 0 | Some p \<Rightarrow> read_u32 p);
                 d2 = vtag env st ''xiaomi.fovcrop.zoomRatio'' d1;
                 fovcropZoomRatio = (case d2 of None \<Rightarrow> f_one fl | Some p \<Rightarrow> read_u32 p)
             in if cameraId < 0 \<or> cameraId \<ge> 32 then Inl SignedOverflow
                else
                  let enableFovcrop = bit fovcropCameraIdMask (nat cameraId)
                  in case md of
                       None \<Rightarrow> Inr None
                     | Some m \<Rightarrow>
                         (case entry_of m ANDROID_CONTROL_ZOOM_RATIO of
                            None \<Rightarrow> Inr md
                          | Some e \<Rightarrow>
                              if enableFovcrop \<and> f_above_hundredth fl fovcropZoomRatio
                              then Inr (Some (m\<lparr>entry_of := (entry_of m)(ANDROID_CONTROL_ZOOM_RATIO \<mapsto>
                                     e\<lparr>e_data := write_u32 (f_mul fl (read_u32 (e_data e)) fovcropZoomRatio) (e_data e)\<rparr>)\<rparr>))
                              else Inr md))"

subsection \<open>The frames of a request\<close>

record exifInfoOfRequest =
  mLastRequestSourceBufferNum :: int
  mFirstTimestamp :: u64
  mFirstFrameNum :: u32
  mB2YCount :: int
  mB2YCostTotal :: u64
  mShutterLag :: int
  mGetFrameStartTimestamp :: u64
  mGetFrameEndTimestamp :: u64
  mAnchorFrameIndex :: int
  exTimestamp :: "(u32, u64) std_map"

definition new_exifInfo :: exifInfoOfRequest where
  "new_exifInfo =
     \<lparr>mLastRequestSourceBufferNum = 0, mFirstTimestamp = 0, mFirstFrameNum = 0, mB2YCount = 0, mB2YCostTotal = 0,
      mShutterLag = 0, mGetFrameStartTimestamp = 0, mGetFrameEndTimestamp = 0, mAnchorFrameIndex = 0, exTimestamp = []\<rparr>"

text \<open>\<open>MIAS_OK == getVTagValue(...)\<close> and the read that follows.\<close>

definition whenTag :: "mia_env \<Rightarrow> metadata_ptr \<Rightarrow> string \<Rightarrow> (cmem \<Rightarrow> 'a \<Rightarrow> 'a) \<Rightarrow> 'a \<Rightarrow> 'a" where
  "whenTag env md name f x =
     (case getVTagValue env md name None of
        (VOK, Some p) \<Rightarrow> f p x
      | _ \<Rightarrow> x)"

definition startTag :: string where "startTag = ''xiaomi.performanceInfo.halRequestTimestamp''"
definition endTag :: string where "endTag = ''xiaomi.performanceInfo.getFrameEndTimestamp''"

definition prepareForExifUpdate ::
  "mia_env \<Rightarrow> float_ops \<Rightarrow> MiaImage \<Rightarrow> metadata_ptr \<Rightarrow> exifInfoOfRequest \<Rightarrow> exifInfoOfRequest" where
  "prepareForExifUpdate env fl frame md ex =
     (let ex1 = (if mLastRequestSourceBufferNum ex = 1
                 then whenTag env md endTag (\<lambda>p x. x\<lparr>mGetFrameEndTimestamp := read_u64 p\<rparr>)
                        (whenTag env md startTag (\<lambda>p x. x\<lparr>mGetFrameStartTimestamp := read_u64 p\<rparr>)
                           (ex\<lparr>mFirstTimestamp := word_of_int (mTimestamp frame), mFirstFrameNum := ucast (mFrameNum frame)\<rparr>))
                 else ex);
          ex2 = whenTag env md ''xiaomi.performanceInfo.shutterLag'' (\<lambda>p x. x\<lparr>mShutterLag := read_i32 p\<rparr>) ex1;
          ex3 = whenTag env md ''xiaomi.performanceInfo.B2YCost''
                  (\<lambda>p x. x\<lparr>mB2YCount := mB2YCount x + 1, mB2YCostTotal := d_add fl (mB2YCostTotal x) (read_u64 p)\<rparr>) ex2;
          ex4 = whenTag env md startTag
                  (\<lambda>p x. x\<lparr>mGetFrameStartTimestamp :=
                     (if mGetFrameStartTimestamp x > read_u64 p then read_u64 p else mGetFrameStartTimestamp x)\<rparr>) ex3;
          ex5 = whenTag env md endTag
                  (\<lambda>p x. x\<lparr>mGetFrameEndTimestamp :=
                     (if mGetFrameEndTimestamp x > read_u64 p then mGetFrameEndTimestamp x else read_u64 p)\<rparr>) ex4;
          ex6 = whenTag env md ''org.quic.camera.qtimer.timestamp''
                  (\<lambda>p x. x\<lparr>exTimestamp := sm_set (word_of_int (mLastRequestSourceBufferNum x - 1)) (read_u64 p div 1000) (exTimestamp x)\<rparr>) ex5
      in whenTag env md ''xiaomi.superResolution.pickAnchorIndex'' (\<lambda>p x. x\<lparr>mAnchorFrameIndex := read_i32 p\<rparr>) ex6)"

abbreviation MAX_SAMPLES_BUF_SIZE :: nat where "MAX_SAMPLES_BUF_SIZE \<equiv> 200"

text \<open>The first sample not before the anchor frame; samples lie at fixed offsets of the structure.\<close>

definition gyroSample :: "float_ops \<Rightarrow> u64 \<Rightarrow> cmem \<Rightarrow> string" where
  "gyroSample fl anchor g =
     (let count = unat (read_u32 g)
      in if 0 < count \<and> count \<le> MAX_SAMPLES_BUF_SIZE then
           (case find (\<lambda>i. ticksToNano fl (read_u64 (at_offset g (2424 + 8 * i))) div 1000 \<ge> anchor) [0..<count] of
              None \<Rightarrow> []
            | Some i \<Rightarrow> '' gyro:'' @ snprintf 40 (gyroText fl (read_u32 (at_offset g (24 + 4 * i)))
                          (read_u32 (at_offset g (824 + 4 * i))) (read_u32 (at_offset g (1624 + 4 * i)))))
         else [])"

text \<open>The text reported for the request, and the information reset; \<open>operator[]\<close> may insert the anchor.\<close>

definition updateExifInfo :: "mia_env \<Rightarrow> float_ops \<Rightarrow> metadata_ptr \<Rightarrow> exifInfoOfRequest \<Rightarrow> string \<times> exifInfoOfRequest" where
  "updateExifInfo env fl md ex =
     (let anchorIndex = word_of_int (mAnchorFrameIndex ex);
          anchor = sm_index 0 (exTimestamp ex) anchorIndex;
          ex0 = ex\<lparr>exTimestamp := sm_insert anchorIndex 0 (exTimestamp ex)\<rparr>;
          r0 = whenTag env md ''xiaomi.mivi.ellc.gyro'' (\<lambda>p r. r @ gyroSample fl anchor p) [];
          (r1, ex1) = (if d_true (mB2YCostTotal ex0) \<and> mB2YCount ex0 \<noteq> 0
                       then (r0 @ '' b2yAvgCost:'' @ snprintf 16 (averageText fl (mB2YCostTotal ex0) (mB2YCount ex0)),
                             ex0\<lparr>mB2YCount := 0, mB2YCostTotal := 0\<rparr>) else (r0, ex0));
          (r2, ex2) = (if mShutterLag ex1 \<noteq> 0
                       then (r1 @ '' shutterLag:'' @ snprintf 16 (to_string (mShutterLag ex1)), ex1\<lparr>mShutterLag := 0\<rparr>)
                       else (r1, ex1));
          (r3, ex3) = (if mGetFrameStartTimestamp ex2 \<noteq> 0 \<and> mGetFrameEndTimestamp ex2 \<noteq> 0
                       then (r2 @ '' getFrameCost:'' @
                               snprintf 16 (millisText fl (mGetFrameEndTimestamp ex2 - mGetFrameStartTimestamp ex2)),
                             ex2\<lparr>mGetFrameStartTimestamp := 0, mGetFrameEndTimestamp := 0\<rparr>)
                       else (r2, ex2))
      in (r3, ex3))"

subsection \<open>Faces\<close>

abbreviation ANDROID_SCALER_CROP_REGION :: u32 where "ANDROID_SCALER_CROP_REGION \<equiv> 0xD0000"

record MiaRect =
  rleft :: u32
  rtop :: u32
  rwidth :: u32
  rheight :: u32

definition read_MiaRect :: "cmem \<Rightarrow> MiaRect" where
  "read_MiaRect p = \<lparr>rleft = read_u32 p, rtop = read_u32 (at_offset p 4), rwidth = read_u32 (at_offset p 8),
     rheight = read_u32 (at_offset p 12)\<rparr>"

definition whole :: "u32 \<Rightarrow> u32 \<Rightarrow> MiaRect" where
  "whole w h = \<lparr>rleft = 0, rtop = 0, rwidth = w, rheight = h\<rparr>"

text \<open>The crop region and the zoom ratio.\<close>

definition cropAndZoom :: "mia_env \<Rightarrow> float_ops \<Rightarrow> metadata_ptr \<Rightarrow> u32 \<Rightarrow> u32 \<Rightarrow> MiaRect \<times> u32" where
  "cropAndZoom env fl md w h =
     (let crop0 = (case vtag env md ''xiaomi.snapshot.cropRegion'' None of
                     Some p \<Rightarrow> read_MiaRect p
                   | None \<Rightarrow> (case tag md ANDROID_SCALER_CROP_REGION None of Some p \<Rightarrow> read_MiaRect p | None \<Rightarrow> whole w h));
          crop = (if rwidth crop0 = 0 \<or> rheight crop0 = 0 then whole w h else crop0);
          zoom = (if rwidth crop \<noteq> 0 then f_div fl (f_of_u32 fl w) (f_of_u32 fl (rwidth crop)) else f_one fl);
          (scaleWidth, scaleHeight) =
            (if w \<noteq> 0 \<and> h \<noteq> 0
             then (f_div fl (f_of_u32 fl (rwidth crop)) (f_of_u32 fl w), f_div fl (f_of_u32 fl (rheight crop)) (f_of_u32 fl h))
             else (f_zero fl, f_zero fl))
      in if f_less fl (f_add fl scaleWidth (f_tolerance fl)) scaleHeight then
           (let delta = word_of_int (f_to_i32 fl (f_mul fl (f_of_u32 fl h) scaleWidth))
            in (crop\<lparr>rtop := rtop crop + (rheight crop - delta) div 2\<rparr>, zoom))
         else if f_less fl (f_add fl scaleHeight (f_tolerance fl)) scaleWidth then
           (let delta = word_of_int (f_to_i32 fl (f_mul fl (f_of_u32 fl w) scaleHeight))
            in (crop\<lparr>rleft := rleft crop + (rwidth crop - delta) div 2\<rparr>,
                if rheight crop \<noteq> 0 then f_div fl (f_of_u32 fl h) (f_of_u32 fl (rheight crop)) else zoom))
         else (crop, zoom))"

text \<open>One coordinate: moved by the crop, scaled, and cut to the frame.\<close>

definition faceCoord :: "float_ops \<Rightarrow> u32 \<Rightarrow> u32 \<Rightarrow> u32 \<Rightarrow> u32 \<Rightarrow> int" where
  "faceCoord fl zoom base limit v =
     max (min (f_to_i32 fl (f_mul fl (f_of_i32 fl (sint (v - base))) zoom)) (sint limit - 2)) 0"

text \<open>\<open>MiFaceResult\<close>: the count, then ten rectangles; an index past them is not checked.\<close>

definition faceAt :: "cmem \<Rightarrow> nat \<Rightarrow> (u32 \<times> u32 \<times> u32 \<times> u32) outcome" where
  "faceAt p i =
     (if i < 10 then Inr (read_u32 (at_offset p (4 + 16 * i)), read_u32 (at_offset p (8 + 16 * i)),
                          read_u32 (at_offset p (12 + 16 * i)), read_u32 (at_offset p (16 + 16 * i)))
      else Inl BadIndex)"

definition faceText :: "float_ops \<Rightarrow> MiaRect \<Rightarrow> u32 \<Rightarrow> u32 \<Rightarrow> u32 \<Rightarrow> u32 \<times> u32 \<times> u32 \<times> u32 \<Rightarrow> string" where
  "faceText fl crop zoom w h = (\<lambda>(l, t, r, b).
     let xMin = faceCoord fl zoom (rleft crop) w l; xMax = faceCoord fl zoom (rleft crop) w r;
         yMin = faceCoord fl zoom (rtop crop) h b; yMax = faceCoord fl zoom (rtop crop) h t
     in snprintf 40 (''['' @ to_string xMin @ '', '' @ to_string yMin @ '', '' @ to_string xMax @ '', '' @ to_string yMax @ '']''))"

fun faceTexts :: "float_ops \<Rightarrow> MiaRect \<Rightarrow> u32 \<Rightarrow> u32 \<Rightarrow> u32 \<Rightarrow> cmem \<Rightarrow> nat list \<Rightarrow> string outcome" where
  "faceTexts fl crop zoom w h p [] = Inr []"
| "faceTexts fl crop zoom w h p (i # is) =
     bindE (faceAt p i) (\<lambda>f. bindE (faceTexts fl crop zoom w h p is) (\<lambda>r. Inr (faceText fl crop zoom w h f @ r)))"

text \<open>The text reported for the faces of a frame.\<close>

definition getFaceExifInfo :: "mia_env \<Rightarrow> float_ops \<Rightarrow> metadata_ptr \<Rightarrow> u32 \<Rightarrow> u32 \<Rightarrow> string outcome" where
  "getFaceExifInfo env fl md w h =
     (let (crop, zoom) = cropAndZoom env fl md w h
      in case vtag env md ''xiaomi.snapshot.faceRect'' None of
           None \<Rightarrow> Inr []
         | Some p \<Rightarrow>
             let faces = min 16 (read_i32 p)
             in bindE (faceTexts fl crop zoom w h p [0..<nat faces]) (\<lambda>r.
                  Inr (''FaceRoi: size:'' @ snprintf 40 (to_string faces @ '' '') @ r)))"

subsection \<open>The capture window of a request\<close>

text \<open>The frames of a request in their order, as \<open>postProcess\<close> counts them.\<close>

definition exifFrames :: "mia_env \<Rightarrow> float_ops \<Rightarrow> (MiaImage \<times> metadata_ptr) list \<Rightarrow> exifInfoOfRequest \<Rightarrow> exifInfoOfRequest" where
  "exifFrames env fl = fold (\<lambda>(im, md) ex.
     prepareForExifUpdate env fl im md (ex\<lparr>mLastRequestSourceBufferNum := mLastRequestSourceBufferNum ex + 1\<rparr>))"

definition timeOf :: "mia_env \<Rightarrow> string \<Rightarrow> metadata_ptr \<Rightarrow> u64 option" where
  "timeOf env name md = whenTag env md name (\<lambda>p _. Some (read_u64 p)) None"

lemma whenTag_keeps: "(\<And>p y. g (f p y) = g y) \<Longrightarrow> g (whenTag env md name f x) = g x"
  by (auto simp: whenTag_def split: prod.splits verror.splits option.splits)

lemma whenTag_sets:
  assumes "\<And>p y. g (f p y) = h (read_u64 p) (g y)"
  shows "g (whenTag env md name f x) = (case timeOf env name md of None \<Rightarrow> g x | Some t \<Rightarrow> h t (g x))"
  using assms by (auto simp: timeOf_def whenTag_def split: prod.splits verror.splits option.splits)

lemma prepare_count [simp]:
  "mLastRequestSourceBufferNum (prepareForExifUpdate env fl im md ex) = mLastRequestSourceBufferNum ex"
  by (simp add: prepareForExifUpdate_def Let_def whenTag_keeps)

lemma prepare_start:
  "mGetFrameStartTimestamp (prepareForExifUpdate env fl im md ex) =
     (case timeOf env startTag md of
        None \<Rightarrow> mGetFrameStartTimestamp ex
      | Some t \<Rightarrow> if mLastRequestSourceBufferNum ex = 1 then t else min (mGetFrameStartTimestamp ex) t)"
  by (auto simp: prepareForExifUpdate_def Let_def whenTag_keeps
      whenTag_sets [where g = mGetFrameStartTimestamp and h = "\<lambda>t old. if old > t then t else old"]
      whenTag_sets [where g = mGetFrameStartTimestamp and h = "\<lambda>t old. t"] min_def split: option.splits)

lemma prepare_end:
  "mGetFrameEndTimestamp (prepareForExifUpdate env fl im md ex) =
     (case timeOf env endTag md of
        None \<Rightarrow> mGetFrameEndTimestamp ex
      | Some t \<Rightarrow> if mLastRequestSourceBufferNum ex = 1 then t else max (mGetFrameEndTimestamp ex) t)"
  by (auto simp: prepareForExifUpdate_def Let_def whenTag_keeps
      whenTag_sets [where g = mGetFrameEndTimestamp and h = "\<lambda>t old. if old > t then old else t"]
      whenTag_sets [where g = mGetFrameEndTimestamp and h = "\<lambda>t old. t"] max_def not_less not_le split: option.splits)

lemma Min_min: "finite S \<Longrightarrow> Min (insert (min x a) S) = Min (insert x (insert (a :: 'a :: linorder) S))"
  by (cases "S = {}") (simp_all add: min.assoc)

lemma Max_max: "finite S \<Longrightarrow> Max (insert (max x a) S) = Max (insert x (insert (a :: 'a :: linorder) S))"
  by (cases "S = {}") (simp_all add: max.assoc)

lemma exifFrames_later:
  assumes "\<forall>x \<in> set fs. timeOf env startTag (snd x) \<noteq> None \<and> timeOf env endTag (snd x) \<noteq> None"
    and "mLastRequestSourceBufferNum ex \<ge> 1"
  shows "mGetFrameStartTimestamp (exifFrames env fl fs ex) =
      Min (insert (mGetFrameStartTimestamp ex) ((\<lambda>x. the (timeOf env startTag (snd x))) ` set fs)) \<and>
    mGetFrameEndTimestamp (exifFrames env fl fs ex) =
      Max (insert (mGetFrameEndTimestamp ex) ((\<lambda>x. the (timeOf env endTag (snd x))) ` set fs))"
  using assms
proof (induction fs arbitrary: ex)
  case Nil
  then show ?case by (simp add: exifFrames_def)
next
  case (Cons f fs)
  obtain im md where f: "f = (im, md)" by fastforce
  let ?e = "prepareForExifUpdate env fl im md (ex\<lparr>mLastRequestSourceBufferNum := mLastRequestSourceBufferNum ex + 1\<rparr>)"
  obtain a b where ab: "timeOf env startTag md = Some a" "timeOf env endTag md = Some b" using Cons.prems f by auto
  have step: "exifFrames env fl (f # fs) ex = exifFrames env fl fs ?e" by (simp add: exifFrames_def f)
  have "mGetFrameStartTimestamp ?e = min (mGetFrameStartTimestamp ex) a"
    "mGetFrameEndTimestamp ?e = max (mGetFrameEndTimestamp ex) b"
    using Cons.prems(2) by (simp_all add: prepare_start prepare_end ab)
  then show ?case
    using Cons.IH [of ?e] Cons.prems unfolding step by (simp add: f ab Min_min Max_max del: Min_insert Max_insert)
qed

text \<open>When every frame of a request carries both timestamps, the window reported for the request runs from the
  earliest start to the latest end of its frames, and its length does not wrap around when no frame ends before it starts.\<close>

theorem capture_window:
  assumes "fs \<noteq> []" and "\<forall>x \<in> set fs. timeOf env startTag (snd x) \<noteq> None \<and> timeOf env endTag (snd x) \<noteq> None"
    and "\<forall>x \<in> set fs. the (timeOf env startTag (snd x)) \<le> the (timeOf env endTag (snd x))"
  shows "mGetFrameStartTimestamp (exifFrames env fl fs new_exifInfo) = Min ((\<lambda>x. the (timeOf env startTag (snd x))) ` set fs) \<and>
    mGetFrameEndTimestamp (exifFrames env fl fs new_exifInfo) = Max ((\<lambda>x. the (timeOf env endTag (snd x))) ` set fs) \<and>
    mGetFrameStartTimestamp (exifFrames env fl fs new_exifInfo) \<le> mGetFrameEndTimestamp (exifFrames env fl fs new_exifInfo)"
proof -
  obtain f rest where fs: "fs = f # rest" using assms(1) by (cases fs) auto
  obtain im md where f: "f = (im, md)" by fastforce
  let ?e = "prepareForExifUpdate env fl im md (new_exifInfo\<lparr>mLastRequestSourceBufferNum := 1\<rparr>)"
  obtain a b where ab: "timeOf env startTag md = Some a" "timeOf env endTag md = Some b" using assms(2) f fs by auto
  have step: "exifFrames env fl fs new_exifInfo = exifFrames env fl rest ?e"
    by (simp add: exifFrames_def f fs new_exifInfo_def)
  have win: "mGetFrameStartTimestamp (exifFrames env fl fs new_exifInfo) = Min ((\<lambda>x. the (timeOf env startTag (snd x))) ` set fs)"
    "mGetFrameEndTimestamp (exifFrames env fl fs new_exifInfo) = Max ((\<lambda>x. the (timeOf env endTag (snd x))) ` set fs)"
    using exifFrames_later [of rest env ?e fl] assms(2) unfolding step
    by (simp_all add: fs f ab prepare_start prepare_end)
  have "Min ((\<lambda>x. the (timeOf env startTag (snd x))) ` set fs) \<le> the (timeOf env startTag (snd f))"
    by (rule Min_le) (simp_all add: fs)
  also have "\<dots> \<le> the (timeOf env endTag (snd f))" using assms(3) by (simp add: fs)
  also have "\<dots> \<le> Max ((\<lambda>x. the (timeOf env endTag (snd x))) ` set fs)" by (rule Max_ge) (simp_all add: fs)
  finally show ?thesis unfolding win by simp
qed

definition sample_bytes :: "u8 \<Rightarrow> meta_entry" where
  "sample_bytes b = \<lparr>e_count = 1, e_data = (\<lambda>i. if i = 0 then b else 0)\<rparr>"

definition sample_times :: "u8 \<Rightarrow> u8 \<Rightarrow> metadata_ptr" where
  "sample_times a b = Some \<lparr>tag_type = (\<lambda>_. 0), entry_of = (\<lambda>t. if t = 1 then Some (sample_bytes a)
     else if t = 2 then Some (sample_bytes b) else None)\<rparr>"

definition sample_tags :: mia_env where
  "sample_tags = \<lparr>getTagID = (\<lambda>n. Inr (if n = startTag then 1 else if n = endTag then 2 else 3)), Soc = QCOM,
     OpenPrunerAbnormalDump = False, sDisableMask = 0\<rparr>"

lemma ucast_byte: "ucast (ucast (a :: u8) :: u32) = (ucast a :: u64)"
proof (rule bit_word_eqI)
  fix n
  have "bit a n \<Longrightarrow> n < 8" using bit_imp_le_length [of a n] by simp
  then show "bit (ucast (ucast a :: u32) :: u64) n = bit (ucast a :: u64) n" by (auto simp: bit_ucast_iff)
qed

lemma sample_timeOf: "timeOf sample_tags startTag (sample_times a b) = Some (ucast a)"
  "timeOf sample_tags endTag (sample_times a b) = Some (ucast b)"
  by (simp_all add: timeOf_def whenTag_def getVTagValue_def getTagValue_def sample_tags_def sample_times_def sample_bytes_def
      read_u64_def read_u32_def startTag_def endTag_def ucast_byte)

theorem capture_window_witness:
  "\<forall>fl im im'. mGetFrameStartTimestamp (exifFrames sample_tags fl [(im, sample_times 5 9), (im', sample_times 3 7)] new_exifInfo) = 3 \<and>
   mGetFrameEndTimestamp (exifFrames sample_tags fl [(im, sample_times 5 9), (im', sample_times 3 7)] new_exifInfo) = 9"
proof (intro allI)
  fix fl im im'
  show "mGetFrameStartTimestamp (exifFrames sample_tags fl [(im, sample_times 5 9), (im', sample_times 3 7)] new_exifInfo) = 3 \<and>
   mGetFrameEndTimestamp (exifFrames sample_tags fl [(im, sample_times 5 9), (im', sample_times 3 7)] new_exifInfo) = 9"
    using capture_window [of "[(im, sample_times 5 9), (im', sample_times 3 7)]" sample_tags fl] by (simp add: sample_timeOf)
qed

lemma faceTexts_ok: "\<forall>i \<in> set is. i < 10 \<Longrightarrow> is_ok (faceTexts fl crop zoom w h p is)"
proof (induction "is")
  case (Cons i rest)
  then obtain r where "faceTexts fl crop zoom w h p rest = Inr r" by (auto simp: is_ok_iff)
  then show ?case using Cons by (simp add: faceAt_def)
qed simp

lemma faceTexts_overrun: "\<exists>i \<in> set is. 10 \<le> i \<Longrightarrow> faceTexts fl crop zoom w h p is = Inl BadIndex"
proof (induction "is")
  case (Cons i rest)
  show ?case
  proof (cases "i < 10")
    case True
    then have "faceTexts fl crop zoom w h p rest = Inl BadIndex" using Cons by auto
    then show ?thesis using True by (simp add: faceAt_def)
  qed (simp add: faceAt_def)
qed simp

text \<open>The report on the faces of a frame is made when the camera counts at most ten faces, and reads past the ten the
  structure holds when it counts more.\<close>

theorem face_list_overrun:
  assumes "vtag env md ''xiaomi.snapshot.faceRect'' None = Some p"
  shows "(getFaceExifInfo env fl md w h = Inl BadIndex \<longleftrightarrow> 10 < read_i32 p) \<and>
    (is_ok (getFaceExifInfo env fl md w h) \<longleftrightarrow> read_i32 p \<le> 10)"
proof -
  let ?n = "nat (min 16 (read_i32 p))"
  obtain crop zoom where cz: "cropAndZoom env fl md w h = (crop, zoom)" by fastforce
  have over: "getFaceExifInfo env fl md w h = Inl BadIndex" if "10 < read_i32 p"
  proof -
    have "faceTexts fl crop zoom w h p [0..<?n] = Inl BadIndex"
      by (rule faceTexts_overrun) (use that in \<open>auto intro!: bexI [of _ 10]\<close>)
    then show ?thesis by (simp add: getFaceExifInfo_def assms cz)
  qed
  have fine: "is_ok (getFaceExifInfo env fl md w h)" if "read_i32 p \<le> 10"
  proof -
    have "is_ok (faceTexts fl crop zoom w h p [0..<?n])" by (rule faceTexts_ok) (use that in auto)
    then show ?thesis by (auto simp: is_ok_iff getFaceExifInfo_def assms cz)
  qed
  show ?thesis using over fine by (cases "10 < read_i32 p") auto
qed

theorem face_list_overrun_witness:
  "\<forall>fl w h. getFaceExifInfo sample_tags fl (Some \<lparr>tag_type = (\<lambda>_. 0), entry_of = (\<lambda>t. Some (sample_bytes 11))\<rparr>) w h = Inl BadIndex"
proof (intro allI)
  fix fl w h
  show "getFaceExifInfo sample_tags fl (Some \<lparr>tag_type = (\<lambda>_. 0), entry_of = (\<lambda>t. Some (sample_bytes 11))\<rparr>) w h = Inl BadIndex"
    using face_list_overrun [of sample_tags "Some \<lparr>tag_type = (\<lambda>_. 0), entry_of = (\<lambda>t. Some (sample_bytes 11))\<rparr>"
        "e_data (sample_bytes 11)" fl w h]
    by (simp add: getVTagValue_def getTagValue_def sample_tags_def sample_bytes_def read_i32_def read_u32_def)
qed

end
