(* ===== verification/Session.thy ===== *)
theory Session
  imports SessionExif SessionGraph BufferPool NodeSchedule
begin

text \<open>
  A session at work (\<open>MiaOfflineSession\<close>, \<^verbatim>\<open>mivifwk/mialgoengine/MiaOfflineSession.cpp\<close> and \<^verbatim>\<open>.h\<close>):
  it sorts the frames of the application to requests, creates a pipeline for each request, hands
  out and takes back images, collects what the nodes report, and waits for the end of all
  requests.  The pipelines, the pools of internal images and the images they refer to are one
  store; an operation of a pipeline or a pool works on the images of the session.
\<close>

datatype session_event =
    StartPipeline nat
  | SessionCallback MiaResultCbType u32 int "string list"
  | ImageReturned nat "img_event list"
  | NotifyBusy
  | NotifyAllNodes

record requestInfo =
  frameNumNotCome :: u32
  rqPipeline :: "nat option"
  rqExif :: exifInfoOfRequest

record session =
  sgraph :: session_graph
  mCreateParams :: MiaCreateParams
  mInputNotEnoughPipe :: "(string, requestInfo) std_map"
  mBusyPipelines :: "nat list"
  mIdlePipeline :: "nat option"
  mFIFOPipePriority :: u32
  mLIFOPipePriority :: u32
  mSessionRequestCnt :: u32
  mNodeThreadNum :: int
  mSinkImageMap :: "(int \<times> nat) list"
  mAlgoResultInfo :: "(int, string list) std_map"
  mBufferQueueWrapperSet :: "(nat, BufferQueueWrapper) std_map"
  mBufferWraperCount :: u32
  pipes :: "nat \<Rightarrow> Pipeline"
  pinfo :: "nat \<Rightarrow> pipe_info"
  simages :: "nat \<Rightarrow> MiaImage"
  sevents :: "session_event list"

text \<open>Properties, static metadata, mappings, the frame callback if there is one, and the floating point unit.\<close>

record session_env =
  floats :: float_ops
  NeedUpdateFovCropZoomRatio :: bool
  staticMetadata :: "int \<Rightarrow> metadata_ptr"
  mmapOf :: "int \<Rightarrow> int option"
  frameCb :: bool

text \<open>\<open>MiaProcessParams\<close>, with the metadata of the frames.\<close>

record process_params =
  pp_outputNum :: u32
  pp_outputFrame :: "(frame_in \<times> metadata_ptr) option"
  pp_inputFrame :: "(frame_in \<times> metadata_ptr \<times> metadata_ptr) option"

text \<open>The addresses \<open>new\<close> returns for the output image, the input image and the pipeline.\<close>

record fresh_ids =
  sinkId :: nat
  sourceId :: nat
  pipeId :: nat

subsection \<open>Pipelines and pools in the session\<close>

definition event :: "session_event \<Rightarrow> session \<Rightarrow> session" where
  "event e s = s\<lparr>sevents := sevents s @ [e]\<rparr>"

definition formats :: "session \<Rightarrow> FrameInfo list" where
  "formats s = map (\<lambda>(_, w). mBufferFormat w) (mBufferQueueWrapperSet s)"

text \<open>A pipeline as it sees the session, and an operation on it.\<close>

definition pipeView :: "session \<Rightarrow> nat \<Rightarrow> Pipeline" where
  "pipeView s p = (pipes s p)\<lparr>pimages := simages s, pwrappers := formats s\<rparr>"

definition onPipe :: "nat \<Rightarrow> (Pipeline \<Rightarrow> Pipeline outcome) \<Rightarrow> session \<Rightarrow> session outcome" where
  "onPipe p f s = bindE (f (pipeView s p)) (\<lambda>pl. Inr (s\<lparr>pipes := (pipes s)(p := pl), simages := pimages pl\<rparr>))"

definition onPool ::
  "nat \<Rightarrow> (BufferQueueWrapper \<Rightarrow> ('a \<times> BufferQueueWrapper) outcome) \<Rightarrow> session \<Rightarrow> ('a \<times> session) outcome" where
  "onPool a f s =
     bindE (sm_at (mBufferQueueWrapperSet s) a) (\<lambda>w.
     bindE (f (w\<lparr>wimages := simages s\<rparr>)) (\<lambda>(x, w').
       Inr (x, s\<lparr>mBufferQueueWrapperSet := sm_set a w' (mBufferQueueWrapperSet s), simages := wimages w'\<rparr>)))"

definition setImage :: "nat \<Rightarrow> MiaImage \<Rightarrow> session \<Rightarrow> session" where
  "setImage i im s = s\<lparr>simages := (simages s)(i := im)\<rparr>"

fun poolsDo :: "(BufferQueueWrapper \<Rightarrow> BufferQueueWrapper outcome) \<Rightarrow> nat list \<Rightarrow> session \<Rightarrow> session outcome" where
  "poolsDo f [] s = Inr s"
| "poolsDo f (a # as) s = bindE (onPool a (\<lambda>w. bindE (f w) (\<lambda>w'. Inr ((), w'))) s) (\<lambda>(_, s1). poolsDo f as s1)"

definition memoryMonitor :: "session \<Rightarrow> session outcome" where
  "memoryMonitor s = poolsDo clearOutThresholdBuffer (map fst (mBufferQueueWrapperSet s)) s"

subsection \<open>Results of the nodes\<close>

definition onResultComing :: "MiaResultCbType \<Rightarrow> u32 \<Rightarrow> int \<Rightarrow> string \<Rightarrow> session \<Rightarrow> session" where
  "onResultComing ty frameNum timeStamp data s =
     (case ty of
        MIA_ANCHOR_CALLBACK \<Rightarrow> event (SessionCallback MIA_ANCHOR_CALLBACK frameNum timeStamp [data]) s
      | MIA_META_CALLBACK \<Rightarrow>
          if timeStamp \<le> 0 then s
          else s\<lparr>mAlgoResultInfo := sm_push timeStamp data (mAlgoResultInfo s)\<rparr>
      | MIA_ABNORMAL_CALLBACK \<Rightarrow> event (SessionCallback MIA_ABNORMAL_CALLBACK frameNum timeStamp [data]) s
      | MIA_ASD_CALLBACK \<Rightarrow> s)"

subsection \<open>Sorting frames to requests\<close>

text \<open>\<open>std::multimap::insert\<close>: behind the entries of the same key.\<close>

fun mm_insert :: "int \<Rightarrow> 'v \<Rightarrow> (int \<times> 'v) list \<Rightarrow> (int \<times> 'v) list" where
  "mm_insert k v [] = [(k, v)]"
| "mm_insert k v ((k', v') # m) = (if k < k' then (k, v) # (k', v') # m else (k', v') # mm_insert k v m)"

text \<open>The set of busy pipelines is ordered by address.\<close>

definition busy_insert :: "nat \<Rightarrow> nat list \<Rightarrow> nat list" where
  "busy_insert p ps = (if p \<in> set ps then ps else insort p ps)"

text \<open>
  A new request of more than one frame is remembered by its name, with the number of frames
  still to come.
\<close>

definition rememberRequest :: "string \<Rightarrow> u32 \<Rightarrow> session \<Rightarrow> session" where
  "rememberRequest name totalReqNum s =
     (if totalReqNum > 1
      then s\<lparr>mInputNotEnoughPipe := sm_set name \<lparr>frameNumNotCome = totalReqNum - 1, rqPipeline = None, rqExif = new_exifInfo\<rparr>
               (mInputNotEnoughPipe s)\<rparr>
      else s)"

text \<open>A new pipeline; the priorities are atomic counters, read before they move on.\<close>

definition enterPipeline :: "nat \<Rightarrow> frame_in \<Rightarrow> MiaImage \<Rightarrow> session \<Rightarrow> session" where
  "enterPipeline p fr im s =
     (let pl = new_Pipeline (outputFormat (mCreateParams s)) (fformat (fi_format fr)) (mTimestamp im)
                 (mSourcePortIdVec (sgraph s)) (simages s) (formats s)
      in event (StartPipeline p)
           (s\<lparr>pipes := (pipes s)(p := pl), mBusyPipelines := busy_insert p (mBusyPipelines s),
              pinfo := (pinfo s)(p := \<lparr>fifoPriority = sint (mFIFOPipePriority s), lifoPriority = sint (mLIFOPipePriority s),
                                       pipeName = mImageName im\<rparr>),
              mFIFOPipePriority := mFIFOPipePriority s - 1, mLIFOPipePriority := mLIFOPipePriority s + 1\<rparr>))"

definition beginPipeline ::
  "mia_env \<Rightarrow> session_env \<Rightarrow> nat \<Rightarrow> frame_in \<Rightarrow> MiaImage \<Rightarrow> FrameInfo \<Rightarrow> session \<Rightarrow> session outcome" where
  "beginPipeline env se p fr im inputImgFormat s =
     bindE (if Soc env = QCOM
            then bindE (getFaceExifInfo env (floats se) (mMetadata im) (fwidth inputImgFormat) (fheight inputImgFormat)) (\<lambda>text.
                   Inr (onResultComing MIA_META_CALLBACK (ucast (mFrameNum im)) (mTimestamp im) text (enterPipeline p fr im s)))
            else Inr (enterPipeline p fr im s)) (\<lambda>s1. Inr (s1\<lparr>mSessionRequestCnt := mSessionRequestCnt s1 + 1\<rparr>))"

text \<open>The closure \<open>forExif\<close>, after the frame has been counted.\<close>

definition forExif ::
  "mia_env \<Rightarrow> session_env \<Rightarrow> MiaImage \<Rightarrow> exifInfoOfRequest \<Rightarrow> session \<Rightarrow> exifInfoOfRequest \<times> session" where
  "forExif env se im ex s =
     (if mIsBurstMode (sgraph s) then (ex, s)
      else
        let ex1 = prepareForExifUpdate env (floats se) im (mMetadata im) ex
        in if word_of_int (mLastRequestSourceBufferNum ex1) = mInputNumber im then
             (let (text, ex2) = updateExifInfo env (floats se) (mMetadata im) ex1
              in (ex2\<lparr>mFirstTimestamp := 0, mFirstFrameNum := 0\<rparr>,
                  onResultComing MIA_META_CALLBACK (mFirstFrameNum ex2) (sint (mFirstTimestamp ex2)) text s))
           else (ex1, s))"

definition countFrame :: "exifInfoOfRequest \<Rightarrow> exifInfoOfRequest" where
  "countFrame ex = ex\<lparr>mLastRequestSourceBufferNum := mLastRequestSourceBufferNum ex + 1\<rparr>"

text \<open>
  A further frame of a request, or the first of several; the result is the pipeline the frame
  goes to, which is null if none was recorded.
\<close>

definition joinRequest ::
  "mia_env \<Rightarrow> session_env \<Rightarrow> MiaImage \<Rightarrow> nat option \<Rightarrow> session \<Rightarrow> (nat option \<times> session) outcome" where
  "joinRequest env se im begun s =
     (case sm_find (mInputNotEnoughPipe s) (mImageName im) of
        None \<Rightarrow> Inl BadIndex
      | Some r \<Rightarrow>
          let (ex, s1) = forExif env se im (countFrame (rqExif r)) s;
              r1 = r\<lparr>rqExif := ex\<rparr>
          in case begun of
               Some p \<Rightarrow>
                 Inr (Some p, s1\<lparr>mInputNotEnoughPipe := sm_set (mImageName im) (r1\<lparr>rqPipeline := Some p\<rparr>) (mInputNotEnoughPipe s1)\<rparr>)
             | None \<Rightarrow>
                 let n = frameNumNotCome r1 - 1
                 in Inr (rqPipeline r1,
                      s1\<lparr>mInputNotEnoughPipe := (if n = 0 then sm_erase (mImageName im) (mInputNotEnoughPipe s1)
                           else sm_set (mImageName im) (r1\<lparr>frameNumNotCome := n\<rparr>) (mInputNotEnoughPipe s1))\<rparr>))"

text \<open>The request of a frame; \<open>None\<close> is the error of a new request that does not tell its number of frames.\<close>

definition requestOf ::
  "mia_env \<Rightarrow> session_env \<Rightarrow> nat \<Rightarrow> frame_in \<Rightarrow> MiaImage \<Rightarrow> FrameInfo \<Rightarrow> u32 \<Rightarrow> session \<Rightarrow> (nat option option \<times> session) outcome" where
  "requestOf env se newPipe fr im inputImgFormat totalReqNum s =
     (case sm_find (mInputNotEnoughPipe s) (mImageName im) of
        Some _ \<Rightarrow> bindE (joinRequest env se im None s) (\<lambda>(p, s1). Inr (Some p, s1))
      | None \<Rightarrow>
          if totalReqNum = 0 then Inr (None, s)
          else
            bindE (beginPipeline env se newPipe fr im inputImgFormat (rememberRequest (mImageName im) totalReqNum s)) (\<lambda>s1.
              if totalReqNum = 1
              then Inr (Some (Some newPipe), snd (forExif env se im (countFrame new_exifInfo) s1))
              else bindE (joinRequest env se im (Some newPipe) s1) (\<lambda>(p, s2). Inr (Some p, s2))))"

subsection \<open>A frame of the application\<close>

text \<open>An output frame is kept until a node asks for the buffer of its time.\<close>

definition keepOutputFrame :: "mia_env \<Rightarrow> session_env \<Rightarrow> nat \<Rightarrow> process_params \<Rightarrow> session \<Rightarrow> session outcome" where
  "keepOutputFrame env se i params s =
     (case pp_outputFrame params of
        Some (fr, md) \<Rightarrow>
          if pp_outputNum params > 0
          then bindE (new_external env fr MI_IMG_SINK md (mmapOf se)) (\<lambda>im.
                 Inr (setImage i im (s\<lparr>mSinkImageMap := mm_insert (mTimestamp im) i (mSinkImageMap s)\<rparr>)))
          else Inr s
      | None \<Rightarrow> Inr s)"

text \<open>\<open>setVTagValue\<close> of one 32-bit value; the capacity of the buffer is taken to suffice.\<close>

definition setVTagValue :: "mia_env \<Rightarrow> string \<Rightarrow> u32 \<Rightarrow> metadata_ptr \<Rightarrow> metadata_ptr" where
  "setVTagValue env name v md =
     (case (md, getTagID env name) of
        (Some m, Inr t) \<Rightarrow> Some (m\<lparr>entry_of := (entry_of m)(t \<mapsto> \<lparr>e_count = 1, e_data = write_u32 v (\<lambda>_. 0)\<rparr>)\<rparr>)
      | _ \<Rightarrow> md)"

text \<open>The image of an input frame and the source port it goes to.\<close>

definition newSourceImage ::
  "mia_env \<Rightarrow> session_env \<Rightarrow> frame_in \<Rightarrow> metadata_ptr \<Rightarrow> metadata_ptr \<Rightarrow> string \<Rightarrow> (u32 \<times> MiaImage) outcome" where
  "newSourceImage env se fr md phy selected =
     bindE (new_external env fr MI_IMG_SOURCE md (mmapOf se)) (\<lambda>im.
     bindE (if NeedUpdateFovCropZoomRatio se then updateFovCropZoomRatio env (floats se) (staticMetadata se) (mMetadata im) phy
            else Inr (mMetadata im)) (\<lambda>md1.
       case reMapSourcePortId env (fi_streamId fr) md1 selected (im\<lparr>mMetadata := md1\<rparr>) of
         (port, im1, None) \<Rightarrow> Inr (port, im1)
       | (port, im1, Some n) \<Rightarrow> Inr (port, im1\<lparr>mMetadata := setVTagValue env ''xiaomi.multiframe.inputNum'' n (mMetadata im1)\<rparr>)))"

text \<open>
  \<open>postProcess\<close>, with the name, the number of frames and the pipeline of the request the frame
  went to.  A frame the pipeline does not take any more is given back at once.
\<close>

definition serveFrame ::
  "mia_env \<Rightarrow> session_env \<Rightarrow> fresh_ids \<Rightarrow> process_params option \<Rightarrow> session \<Rightarrow>
     (CDKResult \<times> (string \<times> u32 \<times> nat) option \<times> session) outcome" where
  "serveFrame env se ids sessionParams s0 =
     (case sessionParams of
        None \<Rightarrow> Inr (MIAS_INVALID_PARAM, None, s0)
      | Some params \<Rightarrow>
          bindE (keepOutputFrame env se (sinkId ids) params s0) (\<lambda>s.
          case pp_inputFrame params of
            None \<Rightarrow> Inr (MIAS_INVALID_PARAM, None, s)
          | Some (fr, md, phy) \<Rightarrow>
              bindE (newSourceImage env se fr md phy (mSelectedPipelineName (sgraph s))) (\<lambda>(port, im).
              bindE (requestOf env se (pipeId ids) fr im (mFormat im) (mTotalReqNum im) (setImage (sourceId ids) im s)) (\<lambda>(r, s1).
                case r of
                  None \<Rightarrow> Inr (MIAS_INVALID_PARAM, None, s1)
                | Some None \<Rightarrow> Inl NullDeref
                | Some (Some p) \<Rightarrow>
                    bindE (onPipe p (\<lambda>pl. Inr (offerImage (sourceId ids) im port pl)) s1) (\<lambda>s2.
                    let request = Some (mImageName im, mTotalReqNum im, p)
                    in if mDefaultReclaimCnt (sgraph s2) = 0 then Inl DivByZero
                       else if mSessionRequestCnt s2 mod mDefaultReclaimCnt (sgraph s2) = 0
                       then bindE (memoryMonitor s2) (\<lambda>s3. Inr (MIAS_OK, request, s3))
                       else Inr (MIAS_OK, request, s2))))))"

definition postProcess ::
  "mia_env \<Rightarrow> session_env \<Rightarrow> fresh_ids \<Rightarrow> process_params option \<Rightarrow> session \<Rightarrow> (CDKResult \<times> session) outcome" where
  "postProcess env se ids sessionParams s = bindE (serveFrame env se ids sessionParams s) (\<lambda>(result, _, s1). Inr (result, s1))"

subsection \<open>Handing out images\<close>

text \<open>
  What the environment answers to one call: the addresses and allocations of each pool, and for
  a new pool or a new image their memory and address.
\<close>

record acquire_env =
  poolAnswers :: "nat \<Rightarrow> pool_answers"
  newPool :: nat
  newPoolMemory :: BufferQueueWrapper
  newManager :: MiaBufferManager
  newImage :: nat
  junkMember :: u32
  getBufferAnswer :: "int \<times> native_handle option"

text \<open>The first kept output frame of that time and port is taken.\<close>

fun takeSink :: "int \<Rightarrow> u32 \<Rightarrow> (nat \<Rightarrow> MiaImage) \<Rightarrow> (int \<times> nat) list \<Rightarrow> nat option \<times> (int \<times> nat) list" where
  "takeSink ts port ims [] = (None, [])"
| "takeSink ts port ims ((t, i) # m) =
     (if t = ts \<and> mPortId (ims i) = port then (Some i, m)
      else (case takeSink ts port ims m of (r, m') \<Rightarrow> (r, (t, i) # m')))"

definition acquireExternal ::
  "mia_env \<Rightarrow> session_env \<Rightarrow> acquire_env \<Rightarrow> FrameInfo \<Rightarrow> int \<Rightarrow> u32 \<Rightarrow> MiaImageType \<Rightarrow> session \<Rightarrow> (nat option \<times> session) outcome" where
  "acquireExternal env se ae format timestamp sinkPortId ty s =
     (case takeSink timestamp sinkPortId (simages s) (mSinkImageMap s) of
        (Some i, m) \<Rightarrow> Inr (Some i, s\<lparr>mSinkImageMap := m\<rparr>)
      | (None, _) \<Rightarrow>
          bindE (new_sink env (junkMember ae) format timestamp sinkPortId (frameCb se) ty (getBufferAnswer ae) (mmapOf se)) (\<lambda>im.
            Inr (Some (newImage ae), setImage (newImage ae) im s)))"

text \<open>Every pool of the format is asked; the last answer is kept.\<close>

fun askPools :: "mia_env \<Rightarrow> acquire_env \<Rightarrow> FrameInfo \<Rightarrow> nat list \<Rightarrow> nat option \<Rightarrow> session \<Rightarrow> (nat option \<times> session) outcome" where
  "askPools env ae format [] out s = Inr (out, s)"
| "askPools env ae format (a # as) out s =
     bindE (sm_at (mBufferQueueWrapperSet s) a) (\<lambda>w.
       if isMatchFormat (mBufferFormat w) format
       then bindE (onPool a (dequeueBuffer env (poolAnswers ae a)) s) (\<lambda>(i, s1). askPools env ae format as (Some i) s1)
       else askPools env ae format as out s)"

definition acquireInternal ::
  "mia_env \<Rightarrow> acquire_env \<Rightarrow> FrameInfo \<Rightarrow> session \<Rightarrow> (nat option \<times> session) outcome" where
  "acquireInternal env ae format s =
     bindE (askPools env ae format (map fst (mBufferQueueWrapperSet s)) None s) (\<lambda>(out, s1).
       case out of
         Some i \<Rightarrow> Inr (Some i, s1)
       | None \<Rightarrow>
           let a = newPool ae; s2 = s1\<lparr>mBufferWraperCount := mBufferWraperCount s1 + 1\<rparr>
           in bindE (wrapper_create env (poolAnswers ae a) format (mBufferWraperCount s1) (newManager ae)
                       ((newPoolMemory ae)\<lparr>wimages := simages s2\<rparr>)) (\<lambda>r.
                case r of
                  None \<Rightarrow> Inr (None, s2)
                | Some w \<Rightarrow>
                    onPool a (\<lambda>w. bindE (dequeueBuffer env (poolAnswers ae a) w) (\<lambda>(i, w'). Inr (Some i, w')))
                      (s2\<lparr>mBufferQueueWrapperSet := sm_set a (setBufferThresholdValue (mBufferThresholdValue (sgraph s2)) w)
                                                  (mBufferQueueWrapperSet s2), simages := wimages w\<rparr>)))"

definition acquireOutputBuffer ::
  "mia_env \<Rightarrow> session_env \<Rightarrow> acquire_env \<Rightarrow> FrameInfo \<Rightarrow> int \<Rightarrow> u32 \<Rightarrow> MiaImageType \<Rightarrow> session \<Rightarrow> (nat option \<times> session) outcome" where
  "acquireOutputBuffer env se ae format timestamp sinkPortId ty s =
     bindE (if ty \<noteq> MI_IMG_INTERNAL then acquireExternal env se ae format timestamp sinkPortId ty s
            else acquireInternal env ae format s) (\<lambda>(out, s1).
       case out of
         None \<Rightarrow> Inr (None, s1)
       | Some i \<Rightarrow> if mState (simages s1 i) = MI_IMG_STATE_UNINITIALED then Inr (None, s1) else Inr (Some i, s1))"

subsection \<open>Taking images back\<close>

definition giveBack :: "nat \<Rightarrow> session \<Rightarrow> session" where
  "giveBack i s =
     (let (n, im) = decreaseUseCount (simages s i)
      in if n = 0 then
           (let (im', ev) = releaseExternalFrame im in event (ImageReturned i ev) (setImage i im' s))
         else setImage i im s)"

text \<open>The results collected for the time of an image go to the application when its request is complete.\<close>

definition deliverResults :: "nat \<Rightarrow> session \<Rightarrow> session" where
  "deliverResults i s =
     (case sm_find (mAlgoResultInfo s) (mTimestamp (simages s i)) of
        None \<Rightarrow> s
      | Some allResult \<Rightarrow>
          event (SessionCallback MIA_META_CALLBACK (ucast (mFrameNum (simages s i))) (mTimestamp (simages s i)) allResult)
            (s\<lparr>mAlgoResultInfo := sm_erase (mTimestamp (simages s i)) (mAlgoResultInfo s)\<rparr>))"

definition matchingPool :: "FrameInfo \<Rightarrow> session \<Rightarrow> nat option" where
  "matchingPool format s = map_option fst (find (\<lambda>(_, w). isMatchFormat (mBufferFormat w) format) (mBufferQueueWrapperSet s))"

definition session_releaseBuffer :: "nat \<Rightarrow> bool \<Rightarrow> session \<Rightarrow> session outcome" where
  "session_releaseBuffer i requestComplete s =
     (case imType (simages s i) of
        MI_IMG_INTERNAL \<Rightarrow>
          (case matchingPool (mFormat (simages s i)) s of
             None \<Rightarrow> Inr s
           | Some a \<Rightarrow> bindE (onPool a (\<lambda>w. bindE (enqueueBuffer i w) (\<lambda>w'. Inr ((), w'))) s) (\<lambda>(_, s1). Inr s1))
      | MI_IMG_SOURCE \<Rightarrow> Inr (giveBack i s)
      | _ \<Rightarrow> Inr (giveBack i (if requestComplete then deliverResults i s else s)))"

subsection \<open>The end of requests\<close>

definition moveToIdleQueue :: "nat option \<Rightarrow> session \<Rightarrow> session" where
  "moveToIdleQueue pipeline s =
     (case pipeline of
        None \<Rightarrow> s
      | Some p \<Rightarrow>
          let s1 = s\<lparr>mIdlePipeline := Some p, mBusyPipelines := remove1 p (mBusyPipelines s)\<rparr>
          in if mBusyPipelines s1 = [] then event NotifyBusy s1 else s1)"

definition increaseUsingThreadNum :: "int \<Rightarrow> session \<Rightarrow> session" where
  "increaseUsingThreadNum increment s =
     (let s1 = s\<lparr>mNodeThreadNum := mNodeThreadNum s + increment\<rparr>
      in if mNodeThreadNum s1 = 0 then event NotifyAllNodes s1 else s1)"

definition getRunningTaskNum :: "session \<Rightarrow> int" where
  "getRunningTaskNum s = int (length (mBusyPipelines s))"

definition getProcessNode :: "string \<Rightarrow> session \<Rightarrow> node_plugin option" where
  "getProcessNode inst s = sm_find (sgNodes (sgraph s)) inst"

text \<open>
  \<open>flush\<close>: every busy pipeline is flushed under the lock, then the caller waits until no pipeline
  is busy, and after that until no node uses a thread.
\<close>

fun flushPipelines :: "bool \<Rightarrow> nat list \<Rightarrow> session \<Rightarrow> session outcome" where
  "flushPipelines isForced [] s = Inr s"
| "flushPipelines isForced (p # ps) s = bindE (onPipe p (pl_flush isForced) s) (flushPipelines isForced ps)"

definition session_flush :: "bool \<Rightarrow> session \<Rightarrow> session outcome" where
  "session_flush isForced s = flushPipelines isForced (mBusyPipelines s) s"

definition busyWaitOver :: "session \<Rightarrow> bool" where
  "busyWaitOver s \<longleftrightarrow> mBusyPipelines s = []"

definition nodeWaitOver :: "session \<Rightarrow> bool" where
  "nodeWaitOver s \<longleftrightarrow> mNodeThreadNum s = 0"

text \<open>A C string ends at its first zero.\<close>

definition c_str :: "string \<Rightarrow> string" where
  "c_str s = takeWhile (\<lambda>c. c \<noteq> CHR 0x00) s"

datatype QFResult = SessionNotFound | PipelineNotFound | MessageSentFinish

definition sameStart :: "string \<Rightarrow> string \<Rightarrow> bool" where
  "sameStart a b \<longleftrightarrow> (let n = min (length a) (length b) in take n a = take n b)"

definition session_quickFinish :: "string \<Rightarrow> bool \<Rightarrow> session \<Rightarrow> (QFResult \<times> session) outcome" where
  "session_quickFinish fileName needImageResult s =
     (case find (\<lambda>p. sameStart (c_str (pipeName (pinfo s p))) (c_str fileName)) (mBusyPipelines s) of
        None \<Rightarrow> Inr (PipelineNotFound, s)
      | Some p \<Rightarrow> bindE (onPipe p (pl_quickFinish needImageResult) s) (\<lambda>s1. Inr (MessageSentFinish, s1)))"

subsection \<open>Creating and destroying the session\<close>

definition new_session ::
  "mia_env \<Rightarrow> MiaCreateParams \<Rightarrow> (nat \<Rightarrow> Pipeline) \<Rightarrow> (nat \<Rightarrow> pipe_info) \<Rightarrow> (nat \<Rightarrow> MiaImage) \<Rightarrow> session" where
  "new_session env params ps infos ims =
     \<lparr>sgraph = new_session_graph env, mCreateParams = params, mInputNotEnoughPipe = [], mBusyPipelines = [], mIdlePipeline = None,
      mFIFOPipePriority = 0, mLIFOPipePriority = 0, mSessionRequestCnt = 0, mNodeThreadNum = 0, mSinkImageMap = [],
      mAlgoResultInfo = [], mBufferQueueWrapperSet = [], mBufferWraperCount = 0, pipes = ps, pinfo = infos, simages = ims,
      sevents = []\<rparr>"

definition session_destroy :: "session \<Rightarrow> session outcome" where
  "session_destroy s =
     (let s1 = s\<lparr>mIdlePipeline := None, sgraph := (sgraph s)\<lparr>mPipelinePruner := None, sgNodes := []\<rparr>\<rparr>;
          as = map fst (mBufferQueueWrapperSet s)
      in bindE (poolsDo (\<lambda>w. Inr (wrapper_flush w)) as s1) (\<lambda>s2.
           poolsDo wrapper_destroy as (s2\<lparr>mSinkImageMap := [], mBufferWraperCount := 0\<rparr>)))"

text \<open>\<open>MiaOfflineSession::create\<close>; a session that cannot be initialised is destroyed, and the result is null.\<close>

definition session_create ::
  "mia_env \<Rightarrow> graph_world \<Rightarrow> MiaCreateParams option \<Rightarrow> session \<Rightarrow> session option outcome" where
  "session_create env w params s =
     bindE (session_initialize env w params (sgraph s)) (\<lambda>(result, g).
       let s1 = s\<lparr>sgraph := g\<rparr>
       in if result \<noteq> MIAS_OK then bindE (session_destroy s1) (\<lambda>_. Inr None)
          else Inr (Some (case params of None \<Rightarrow> s1 | Some ps \<Rightarrow> s1\<lparr>mCreateParams := ps\<rparr>)))"

end
