(* ===== verification/SessionCorrect.thy ===== *)
theory SessionCorrect
  imports Session
begin

text \<open>
  What the session promises (\<^verbatim>\<open>mivifwk/mialgoengine/MiaOfflineSession.cpp\<close>): the frames of the
  application are sorted to requests exactly as their names and numbers say, priorities follow the
  order of the requests, results reach the application once and in order, and images come from and
  go back to the pool of their format.
\<close>

subsection \<open>Executions\<close>

text \<open>
  The history lists the frames served: the name, the number of frames it announces, the address a
  new pipeline would get, and the pipeline it went to.
\<close>

type_synonym session_log = "(string \<times> u32 \<times> nat \<times> nat) list"

definition newIdsOf :: "session_log \<Rightarrow> nat set" where
  "newIdsOf log = (\<lambda>(_, _, q, _). q) ` set log"

definition begun :: "session_log \<Rightarrow> nat list" where
  "begun log = map (\<lambda>(_, _, q, _). q) (filter (\<lambda>(_, _, q, p). p = q) log)"

inductive session_step :: "mia_env \<Rightarrow> session_env \<Rightarrow> session \<times> session_log \<Rightarrow> session \<times> session_log \<Rightarrow> bool" for env se where
  frame: "pipeId ids \<notin> newIdsOf log \<Longrightarrow> serveFrame env se ids params s = Inr (result, Some (name, announced, p), s') \<Longrightarrow>
    session_step env se (s, log) (s', log @ [(name, announced, pipeId ids, p)])"
| refused: "serveFrame env se ids params s = Inr (result, None, s') \<Longrightarrow> session_step env se (s, log) (s', log)"
| acquire: "acquireOutputBuffer env se ae format timestamp port ty s = Inr (out, s') \<Longrightarrow> session_step env se (s, log) (s', log)"
| release: "session_releaseBuffer i complete s = Inr s' \<Longrightarrow> session_step env se (s, log) (s', log)"
| result: "session_step env se (s, log) (onResultComing resultType frameNum timeStamp data s, log)"
| ended: "session_step env se (s, log) (moveToIdleQueue p s, log)"
| threads: "session_step env se (s, log) (increaseUsingThreadNum n s, log)"
| flush: "session_flush isForced s = Inr s' \<Longrightarrow> session_step env se (s, log) (s', log)"
| quick: "session_quickFinish f needImage s = Inr (r, s') \<Longrightarrow> session_step env se (s, log) (s', log)"
| work: "pl_step env (pipeView s p) pln \<Longrightarrow>
    session_step env se (s, log) (s\<lparr>pipes := (pipes s)(p := pln), simages := pimages pln\<rparr>, log)"

subsection \<open>Views\<close>

text \<open>
  A part of the session that the stores of pipelines, pools and images do not belong to is left
  alone by every operation that only works on these stores.
\<close>

locale session_view =
  fixes view :: "session \<Rightarrow> 'v"
  assumes view_pipe: "view (s\<lparr>pipes := ps, simages := ims\<rparr>) = view s"
    and view_pool: "view (s\<lparr>mBufferQueueWrapperSet := ws, simages := ims\<rparr>) = view s"
    and view_sinks: "view (s\<lparr>mSinkImageMap := m\<rparr>) = view s"
    and view_count: "view (s\<lparr>mBufferWraperCount := c\<rparr>) = view s"
    and view_image: "view (setImage i im s) = view s"
begin

lemma view_onPipe: "onPipe p f s = Inr s' \<Longrightarrow> view s' = view s"
  by (auto simp: onPipe_def bindE_eq_Inr view_pipe)

lemma view_onPool: "onPool a f s = Inr (x, s') \<Longrightarrow> view s' = view s"
  by (auto simp: onPool_def bindE_eq_Inr view_pool)

lemma view_poolsDo: "poolsDo f as s = Inr s' \<Longrightarrow> view s' = view s"
  by (induction f as s rule: poolsDo.induct) (auto simp: bindE_eq_Inr dest: view_onPool)

lemma view_askPools: "askPools env ae fmt as out s = Inr (r, s') \<Longrightarrow> view s' = view s"
proof (induction as arbitrary: out s)
  case (Cons a as)
  then obtain w where w: "sm_at (mBufferQueueWrapperSet s) a = Inr w"
    by (cases "sm_at (mBufferQueueWrapperSet s) a") auto
  show ?case
  proof (cases "isMatchFormat (mBufferFormat w) fmt")
    case True
    then obtain i s1 where "onPool a (dequeueBuffer env (poolAnswers ae a)) s = Inr (i, s1)"
      "askPools env ae fmt as (Some i) s1 = Inr (r, s')"
      using Cons.prems w by (auto simp: bindE_eq_Inr)
    then show ?thesis using Cons.IH view_onPool by metis
  next
    case False
    then show ?thesis using Cons.IH Cons.prems w by simp
  qed
qed simp

lemma view_keepOutputFrame: "keepOutputFrame env se i params s = Inr s' \<Longrightarrow> view s' = view s"
  by (auto simp: keepOutputFrame_def bindE_eq_Inr view_image view_sinks split: option.splits if_splits)

lemma view_external: "acquireExternal env se ae fmt ts port ty s = Inr (out, s') \<Longrightarrow> view s' = view s"
  unfolding acquireExternal_def by (auto simp: bindE_eq_Inr view_image view_sinks split: prod.splits option.splits)

lemma view_internal:
  assumes "acquireInternal env ae fmt s = Inr (out, s')"
  shows "view s' = view s"
proof -
  obtain r s1 where ask: "askPools env ae fmt (map fst (mBufferQueueWrapperSet s)) None s = Inr (r, s1)"
    using assms by (cases "askPools env ae fmt (map fst (mBufferQueueWrapperSet s)) None s") (auto simp: acquireInternal_def)
  note r1 = view_askPools [OF ask]
  show ?thesis
  proof (cases r)
    case (Some i)
    then show ?thesis using assms ask r1 by (simp add: acquireInternal_def)
  next
    case None
    let ?s2 = "s1\<lparr>mBufferWraperCount := mBufferWraperCount s1 + 1\<rparr>"
    obtain w where "wrapper_create env (poolAnswers ae (newPool ae)) fmt (mBufferWraperCount s1) (newManager ae)
        ((newPoolMemory ae)\<lparr>wimages := simages ?s2\<rparr>) = Inr w"
      using assms ask None unfolding acquireInternal_def Let_def
      by (cases "wrapper_create env (poolAnswers ae (newPool ae)) fmt (mBufferWraperCount s1) (newManager ae)
        ((newPoolMemory ae)\<lparr>wimages := simages ?s2\<rparr>)") auto
    then show ?thesis
      using assms ask None r1 view_count unfolding acquireInternal_def Let_def
      by (cases w) (auto dest!: view_onPool simp: view_pool)
  qed
qed

lemma view_acquire: "acquireOutputBuffer env se ae fmt ts port ty s = Inr (out, s') \<Longrightarrow> view s' = view s"
proof -
  assume a: "acquireOutputBuffer env se ae fmt ts port ty s = Inr (out, s')"
  let ?m = "if ty \<noteq> MI_IMG_INTERNAL then acquireExternal env se ae fmt ts port ty s else acquireInternal env ae fmt s"
  obtain r s1 where m: "?m = Inr (r, s1)" using a by (cases ?m) (auto simp: acquireOutputBuffer_def)
  then have "view s1 = view s" by (auto dest: view_external view_internal split: if_splits)
  moreover have "s' = s1" using a m by (auto simp: acquireOutputBuffer_def split: option.splits if_splits)
  ultimately show ?thesis by simp
qed

lemma view_flush: "flushPipelines b ps s = Inr s' \<Longrightarrow> view s' = view s"
  by (induction ps arbitrary: s) (auto simp: bindE_eq_Inr dest: view_onPipe)

lemma view_quick: "session_quickFinish f b s = Inr (r, s') \<Longrightarrow> view s' = view s"
  by (auto simp: session_quickFinish_def bindE_eq_Inr dest: view_onPipe split: option.splits)

end

text \<open>What decides where a frame goes and which priority a request has.\<close>

definition requests :: "session \<Rightarrow> (string, requestInfo) std_map \<times> u32 \<times> u32 \<times> (nat \<Rightarrow> pipe_info)" where
  "requests s = (mInputNotEnoughPipe s, mFIFOPipePriority s, mLIFOPipePriority s, pinfo s)"

lemma requests_update [simp]:
  "requests (event e s) = requests s" "requests (setImage i im s) = requests s"
  "requests (onResultComing ty f t d s) = requests s" "requests (giveBack i s) = requests s"
  "requests (deliverResults i s) = requests s" "requests (moveToIdleQueue p s) = requests s"
  "requests (increaseUsingThreadNum n s) = requests s" "requests (s\<lparr>pipes := ps, simages := ims\<rparr>) = requests s"
  "requests (s\<lparr>mSessionRequestCnt := c\<rparr>) = requests s"
  by (simp_all add: requests_def event_def setImage_def onResultComing_def giveBack_def deliverResults_def moveToIdleQueue_def
      increaseUsingThreadNum_def Let_def split: MiaResultCbType.splits option.splits prod.splits)

interpretation rq: session_view requests
  by unfold_locales (simp_all add: requests_def setImage_def)

lemma requests_release: "session_releaseBuffer i c s = Inr s' \<Longrightarrow> requests s' = requests s"
  by (auto simp: session_releaseBuffer_def bindE_eq_Inr dest: rq.view_onPool split: MiaImageType.splits option.splits)

subsection \<open>Frames of one name\<close>

text \<open>
  The reference: the frames of one name, each with the number of frames it announces and the
  address a new pipeline would get.  The first frame of a request tells how many follow, and all
  of them go to the pipeline of the first.
\<close>

function splitRequests :: "(u32 \<times> nat) list \<Rightarrow> nat list" where
  "splitRequests [] = []"
| "splitRequests ((n, q) # fs) =
     replicate (Suc (min (unat n - 1) (length fs))) q @ splitRequests (drop (unat n - 1) fs)"
  by pat_completeness auto
termination by (relation "measure length") auto

text \<open>The same one frame at a time: what is still to come, and of which pipeline.\<close>

fun sortFrame :: "(nat \<times> nat) option \<Rightarrow> u32 \<times> nat \<Rightarrow> nat \<times> (nat \<times> nat) option" where
  "sortFrame None (n, q) = (q, if unat n \<le> 1 then None else Some (unat n - 1, q))"
| "sortFrame (Some (k, p)) f = (p, if k \<le> 1 then None else Some (k - 1, p))"

fun sortFrames :: "(nat \<times> nat) option \<Rightarrow> (u32 \<times> nat) list \<Rightarrow> nat list" where
  "sortFrames st [] = []"
| "sortFrames st (f # fs) = fst (sortFrame st f) # sortFrames (snd (sortFrame st f)) fs"

definition stillOpen :: "(u32 \<times> nat) list \<Rightarrow> (nat \<times> nat) option" where
  "stillOpen = foldl (\<lambda>st f. snd (sortFrame st f)) None"

lemma sortFrames_rest:
  "0 < k \<Longrightarrow> sortFrames (Some (k, p)) fs = replicate (min k (length fs)) p @ sortFrames None (drop k fs)"
proof (induction fs arbitrary: k)
  case (Cons f fs)
  then show ?case by (cases k rule: nat.exhaust; cases "k = 1") auto
qed simp

lemma sortFrames_split: "sortFrames None fs = splitRequests fs"
proof (induction fs rule: splitRequests.induct)
  case (2 n q fs)
  then show ?case by (cases "unat n \<le> 1") (simp_all add: sortFrames_rest)
qed simp

lemma sortFrames_snoc:
  "sortFrames st (fs @ [f]) = sortFrames st fs @ [fst (sortFrame (foldl (\<lambda>st f. snd (sortFrame st f)) st fs) f)]"
  by (induction fs arbitrary: st) auto

lemma stillOpen_snoc: "stillOpen (fs @ [f]) = snd (sortFrame (stillOpen fs) f)"
  by (simp add: stillOpen_def)

text \<open>The frames of a name in a history, and the pipelines they went to.\<close>

definition framesOf :: "string \<Rightarrow> session_log \<Rightarrow> (u32 \<times> nat) list" where
  "framesOf name log = map (\<lambda>(_, n, q, _). (n, q)) (filter (\<lambda>x. fst x = name) log)"

definition pipesOf :: "string \<Rightarrow> session_log \<Rightarrow> nat list" where
  "pipesOf name log = map (\<lambda>(_, _, _, p). p) (filter (\<lambda>x. fst x = name) log)"

lemma log_snoc [simp]:
  "framesOf name (log @ [(a, n, q, p)]) = framesOf name log @ (if a = name then [(n, q)] else [])"
  "pipesOf name (log @ [(a, n, q, p)]) = pipesOf name log @ (if a = name then [p] else [])"
  "begun (log @ [(a, n, q, p)]) = begun log @ (if p = q then [q] else [])"
  "newIdsOf (log @ [(a, n, q, p)]) = insert q (newIdsOf log)"
  by (auto simp: framesOf_def pipesOf_def begun_def newIdsOf_def)

lemma log_Nil [simp]: "framesOf name [] = []" "pipesOf name [] = []" "begun [] = []" "newIdsOf [] = {}" "stillOpen [] = None"
  by (simp_all add: framesOf_def pipesOf_def begun_def newIdsOf_def stillOpen_def)

lemma begun_new: "set (begun log) \<subseteq> newIdsOf log"
  by (force simp: begun_def newIdsOf_def)

subsection \<open>What a frame does to the requests\<close>

lemma forExif_requests [simp]: "requests (snd (forExif env se im ex s)) = requests s"
  by (simp add: forExif_def Let_def split: prod.splits)

lemma requests_eq:
  assumes "requests t = requests s"
  shows "mInputNotEnoughPipe t = mInputNotEnoughPipe s" "mFIFOPipePriority t = mFIFOPipePriority s"
    "mLIFOPipePriority t = mLIFOPipePriority s" "pinfo t = pinfo s"
  using assms by (simp_all add: requests_def)

lemma joinRequest_known:
  assumes "sm_find (mInputNotEnoughPipe s) (mImageName im) = Some r" and "joinRequest env se im None s = Inr (p, s')"
  shows "\<exists>ex. p = rqPipeline r \<and>
    requests s' = (if frameNumNotCome r = 1 then sm_erase (mImageName im) (mInputNotEnoughPipe s)
        else sm_set (mImageName im) (r\<lparr>rqExif := ex, frameNumNotCome := frameNumNotCome r - 1\<rparr>) (mInputNotEnoughPipe s),
      mFIFOPipePriority s, mLIFOPipePriority s, pinfo s)"
proof -
  obtain ex s1 where e: "forExif env se im (countFrame (rqExif r)) s = (ex, s1)" by fastforce
  then have "requests s1 = requests s" using forExif_requests by (metis snd_conv)
  note r1 = requests_eq [OF this]
  show ?thesis using assms e r1 by (intro exI [of _ ex]) (auto simp: joinRequest_def Let_def requests_def)
qed

lemma joinRequest_first:
  assumes "sm_find (mInputNotEnoughPipe s) (mImageName im) = Some r" and "joinRequest env se im (Some q) s = Inr (p, s')"
  shows "\<exists>ex. p = Some q \<and>
    requests s' = (sm_set (mImageName im) (r\<lparr>rqExif := ex, rqPipeline := Some q\<rparr>) (mInputNotEnoughPipe s),
      mFIFOPipePriority s, mLIFOPipePriority s, pinfo s)"
proof -
  obtain ex s1 where e: "forExif env se im (countFrame (rqExif r)) s = (ex, s1)" by fastforce
  then have "requests s1 = requests s" using forExif_requests by (metis snd_conv)
  note r1 = requests_eq [OF this]
  show ?thesis using assms e r1 by (intro exI [of _ ex]) (auto simp: joinRequest_def Let_def requests_def)
qed

lemma beginPipeline_requests:
  assumes "beginPipeline env se p fr im fmt s = Inr s'"
  shows "requests s' = (mInputNotEnoughPipe s, mFIFOPipePriority s - 1, mLIFOPipePriority s + 1,
    (pinfo s)(p := \<lparr>fifoPriority = sint (mFIFOPipePriority s), lifoPriority = sint (mLIFOPipePriority s), pipeName = mImageName im\<rparr>))"
proof -
  have e: "requests (enterPipeline p fr im s) = (mInputNotEnoughPipe s, mFIFOPipePriority s - 1, mLIFOPipePriority s + 1,
      (pinfo s)(p := \<lparr>fifoPriority = sint (mFIFOPipePriority s), lifoPriority = sint (mLIFOPipePriority s), pipeName = mImageName im\<rparr>))"
    by (simp add: enterPipeline_def Let_def requests_def event_def)
  have "requests s' = requests (enterPipeline p fr im s)"
    using assms unfolding beginPipeline_def by (auto simp: bindE_eq_Inr split: if_splits)
  then show ?thesis using e by simp
qed

text \<open>The three ways a frame can go.\<close>

lemma requestOf_known:
  assumes "sm_find (mInputNotEnoughPipe s) (mImageName im) = Some r" and "requestOf env se q fr im fmt n s = Inr (x, s')"
  shows "\<exists>ex. x = Some (rqPipeline r) \<and>
    requests s' = (if frameNumNotCome r = 1 then sm_erase (mImageName im) (mInputNotEnoughPipe s)
        else sm_set (mImageName im) (r\<lparr>rqExif := ex, frameNumNotCome := frameNumNotCome r - 1\<rparr>) (mInputNotEnoughPipe s),
      mFIFOPipePriority s, mLIFOPipePriority s, pinfo s)"
proof -
  obtain p where "joinRequest env se im None s = Inr (p, s')" and "x = Some p"
    using assms by (auto simp: requestOf_def bindE_eq_Inr)
  then show ?thesis using joinRequest_known [OF assms(1)] by blast
qed

lemma requestOf_new:
  assumes "sm_find (mInputNotEnoughPipe s) (mImageName im) = None" and "n \<noteq> 0" and "requestOf env se q fr im fmt n s = Inr (x, s')"
  shows "\<exists>m. x = Some (Some q) \<and>
    requests s' = (m, mFIFOPipePriority s - 1, mLIFOPipePriority s + 1,
      (pinfo s)(q := \<lparr>fifoPriority = sint (mFIFOPipePriority s), lifoPriority = sint (mLIFOPipePriority s), pipeName = mImageName im\<rparr>)) \<and>
    (if n = 1 then m = mInputNotEnoughPipe s
     else \<exists>ex r. m = sm_set (mImageName im) \<lparr>frameNumNotCome = n - 1, rqPipeline = Some q, rqExif = ex\<rparr>
       (sm_set (mImageName im) r (mInputNotEnoughPipe s)))"
proof -
  let ?s0 = "rememberRequest (mImageName im) n s"
  have s0: "mFIFOPipePriority ?s0 = mFIFOPipePriority s" "mLIFOPipePriority ?s0 = mLIFOPipePriority s" "pinfo ?s0 = pinfo s"
    by (simp_all add: rememberRequest_def)
  obtain s1 where b: "beginPipeline env se q fr im fmt ?s0 = Inr s1"
    and rest: "(if n = 1 then Inr (Some (Some q), snd (forExif env se im (countFrame new_exifInfo) s1))
      else bindE (joinRequest env se im (Some q) s1) (\<lambda>(p, s2). Inr (Some p, s2))) = Inr (x, s')"
    using assms by (auto simp: requestOf_def bindE_eq_Inr)
  note r1 = beginPipeline_requests [OF b, unfolded s0]
  show ?thesis
  proof (cases "n = 1")
    case True
    then show ?thesis using rest r1 by (auto simp: rememberRequest_def)
  next
    case False
    then have "n > 1" using assms(2) by (metis word_neq_0_conv word_less_1 linorder_neqE)
    let ?r = "\<lparr>frameNumNotCome = n - 1, rqPipeline = None, rqExif = new_exifInfo\<rparr>"
    have m1: "mInputNotEnoughPipe s1 = sm_set (mImageName im) ?r (mInputNotEnoughPipe s)"
      using r1 \<open>n > 1\<close> by (simp add: requests_def rememberRequest_def)
    then have f: "sm_find (mInputNotEnoughPipe s1) (mImageName im) = Some ?r" by simp
    obtain p where j: "joinRequest env se im (Some q) s1 = Inr (p, s')" "x = Some p"
      using rest False by (auto simp: bindE_eq_Inr)
    obtain ex where ex: "p = Some q" "requests s' = (sm_set (mImageName im) (?r\<lparr>rqExif := ex, rqPipeline := Some q\<rparr>)
        (mInputNotEnoughPipe s1), mFIFOPipePriority s1, mLIFOPipePriority s1, pinfo s1)"
      using joinRequest_first [OF f j(1)] by blast
    have c: "mFIFOPipePriority s1 = mFIFOPipePriority s - 1" "mLIFOPipePriority s1 = mLIFOPipePriority s + 1"
      "pinfo s1 = (pinfo s)(q := \<lparr>fifoPriority = sint (mFIFOPipePriority s), lifoPriority = sint (mLIFOPipePriority s), pipeName = mImageName im\<rparr>)"
      using r1 by (simp_all add: requests_def)
    show ?thesis unfolding ex(2) m1 c j(2) ex(1) using False by auto
  qed
qed

subsection \<open>Sorting frames and counting requests\<close>

definition pendingAs :: "session \<Rightarrow> session_log \<Rightarrow> string \<Rightarrow> bool" where
  "pendingAs s log name \<longleftrightarrow>
     (case stillOpen (framesOf name log) of
        None \<Rightarrow> sm_find (mInputNotEnoughPipe s) name = None
      | Some (k, p) \<Rightarrow> 0 < k \<and> p \<in> set (begun log) \<and>
          (\<exists>r. sm_find (mInputNotEnoughPipe s) name = Some r \<and> unat (frameNumNotCome r) = k \<and> rqPipeline r = Some p))"

text \<open>The priorities of the \<open>k\<close>th request.\<close>

definition fifoOf :: "nat \<Rightarrow> int" where "fifoOf k = sint (word_of_int (- int k) :: u32)"
definition lifoOf :: "nat \<Rightarrow> int" where "lifoOf k = sint (word_of_int (int k) :: u32)"

definition prioritiesAs :: "session \<Rightarrow> nat list \<Rightarrow> bool" where
  "prioritiesAs s ps \<longleftrightarrow> distinct ps \<and> mFIFOPipePriority s = word_of_int (- int (length ps)) \<and>
     mLIFOPipePriority s = word_of_int (int (length ps)) \<and>
     (\<forall>k < length ps. fifoPriority (pinfo s (ps ! k)) = fifoOf k \<and> lifoPriority (pinfo s (ps ! k)) = lifoOf k)"

fun requests_ok :: "session \<times> session_log \<Rightarrow> bool" where
  "requests_ok (s, log) \<longleftrightarrow> sm_wf (mInputNotEnoughPipe s) \<and> (\<forall>name. pendingAs s log name) \<and>
     (\<forall>name. pipesOf name log = sortFrames None (framesOf name log)) \<and> prioritiesAs s (begun log)"

fun session_start :: "session \<times> session_log \<Rightarrow> bool" where
  "session_start (s, log) \<longleftrightarrow> log = [] \<and> mInputNotEnoughPipe s = [] \<and> mFIFOPipePriority s = 0 \<and> mLIFOPipePriority s = 0"

lemma requests_ok_frame:
  assumes "requests t = requests s" and "requests_ok (s, log)"
  shows "requests_ok (t, log)"
proof -
  note r = requests_eq [OF assms(1)]
  have "pendingAs t log = pendingAs s log" by (rule ext) (simp only: pendingAs_def r)
  then show ?thesis using assms(2) r by (auto simp: prioritiesAs_def)
qed

lemma pendingAs_other:
  assumes "pendingAs s log name" and "name \<noteq> a" and "sm_find (mInputNotEnoughPipe s') name = sm_find (mInputNotEnoughPipe s) name"
  shows "pendingAs s' (log @ [(a, n, q, p)]) name"
  using assms unfolding pendingAs_def by (auto split: option.splits)

lemma pipesOf_snoc:
  assumes "pipesOf name log = sortFrames None (framesOf name log)"
    and "a = name \<Longrightarrow> p = fst (sortFrame (stillOpen (framesOf name log)) (n, q))"
  shows "pipesOf name (log @ [(a, n, q, p)]) = sortFrames None (framesOf name (log @ [(a, n, q, p)]))"
  using assms by (auto simp: sortFrames_snoc stillOpen_def)

lemma requests_ok_known:
  assumes ok: "requests_ok (s, log)" and q: "q \<notin> newIdsOf log" and f: "sm_find (mInputNotEnoughPipe s) name = Some r"
    and p: "rqPipeline r = Some p"
    and s': "requests s' = (if frameNumNotCome r = 1 then sm_erase name (mInputNotEnoughPipe s)
        else sm_set name (r\<lparr>rqExif := ex, frameNumNotCome := frameNumNotCome r - 1\<rparr>) (mInputNotEnoughPipe s),
      mFIFOPipePriority s, mLIFOPipePriority s, pinfo s)"
  shows "requests_ok (s', log @ [(name, n, q, p)])"
proof -
  let ?m = "mInputNotEnoughPipe s" let ?m' = "mInputNotEnoughPipe s'"
  have wf: "sm_wf ?m" and pend: "\<And>name. pendingAs s log name"
    and pipes: "\<And>name. pipesOf name log = sortFrames None (framesOf name log)" and prio: "prioritiesAs s (begun log)"
    using ok by auto
  have eqs: "mFIFOPipePriority s' = mFIFOPipePriority s" "mLIFOPipePriority s' = mLIFOPipePriority s" "pinfo s' = pinfo s"
    and m': "?m' = (if frameNumNotCome r = 1 then sm_erase name ?m
      else sm_set name (r\<lparr>rqExif := ex, frameNumNotCome := frameNumNotCome r - 1\<rparr>) ?m)"
    using s' by (simp_all add: requests_def)
  obtain k where o: "stillOpen (framesOf name log) = Some (k, p)" "0 < k" "p \<in> set (begun log)" "unat (frameNumNotCome r) = k"
    using pend [of name] f p by (auto simp: pendingAs_def split: option.splits)
  have "p \<noteq> q" using o(3) q begun_new by blast
  then have b: "begun (log @ [(name, n, q, p)]) = begun log" by simp
  have one: "frameNumNotCome r = 1 \<longleftrightarrow> k = 1" using o(4) by (simp add: word_unat_eq_iff)
  have less: "unat (frameNumNotCome r - 1) = k - 1" using o(2,4) unat_minus_one [of "frameNumNotCome r"] by fastforce
  have find: "sm_find ?m' a = (if a = name then (if k = 1 then None else Some (r\<lparr>rqExif := ex, frameNumNotCome := frameNumNotCome r - 1\<rparr>))
      else sm_find ?m a)" for a
    using m' one by (simp add: sm_find_erase [OF wf])
  have "pendingAs s' (log @ [(name, n, q, p)]) a" for a
  proof (cases "a = name")
    case True
    then show ?thesis using find [of name] o p less b by (simp add: pendingAs_def stillOpen_snoc)
  next
    case False
    then show ?thesis using pendingAs_other [OF pend] find [of a] by simp
  qed
  moreover have "sm_wf ?m'" using m' wf by (simp add: sm_wf_erase sm_wf_set)
  moreover have "pipesOf a (log @ [(name, n, q, p)]) = sortFrames None (framesOf a (log @ [(name, n, q, p)]))" for a
    by (rule pipesOf_snoc [OF pipes]) (use o(1) in simp)
  ultimately show ?thesis using prio b by (auto simp: prioritiesAs_def eqs)
qed

lemma prioritiesAs_snoc:
  assumes "prioritiesAs s ps" and "q \<notin> set ps" and "mFIFOPipePriority s' = mFIFOPipePriority s - 1"
    and "mLIFOPipePriority s' = mLIFOPipePriority s + 1"
    and "pinfo s' = (pinfo s)(q := \<lparr>fifoPriority = sint (mFIFOPipePriority s), lifoPriority = sint (mLIFOPipePriority s), pipeName = a\<rparr>)"
  shows "prioritiesAs s' (ps @ [q])"
  using assms unfolding prioritiesAs_def fifoOf_def lifoOf_def by (auto simp: nth_append less_Suc_eq)

lemma requests_ok_new:
  assumes ok: "requests_ok (s, log)" and q: "q \<notin> newIdsOf log" and f: "sm_find (mInputNotEnoughPipe s) name = None"
    and n: "n \<noteq> 0"
    and s': "requests s' = (m, mFIFOPipePriority s - 1, mLIFOPipePriority s + 1,
      (pinfo s)(q := \<lparr>fifoPriority = sint (mFIFOPipePriority s), lifoPriority = sint (mLIFOPipePriority s), pipeName = name\<rparr>))"
    and m: "if n = 1 then m = mInputNotEnoughPipe s
     else \<exists>ex r. m = sm_set name \<lparr>frameNumNotCome = n - 1, rqPipeline = Some q, rqExif = ex\<rparr> (sm_set name r (mInputNotEnoughPipe s))"
  shows "requests_ok (s', log @ [(name, n, q, q)])"
proof -
  have wf: "sm_wf (mInputNotEnoughPipe s)" and pend: "\<And>name. pendingAs s log name"
    and pipes: "\<And>name. pipesOf name log = sortFrames None (framesOf name log)" and prio: "prioritiesAs s (begun log)"
    using ok by auto
  have m': "mInputNotEnoughPipe s' = m" using s' by (simp add: requests_def)
  have "prioritiesAs s' (begun log @ [q])"
    by (rule prioritiesAs_snoc [OF prio, where a = name]) (use q begun_new s' in \<open>auto simp: requests_def\<close>)
  then have prio': "prioritiesAs s' (begun (log @ [(name, n, q, q)]))" by simp
  have o: "stillOpen (framesOf name log) = None" using pend [of name] f by (auto simp: pendingAs_def split: option.splits)
  have one: "unat n \<le> 1 \<longleftrightarrow> n = 1" using n by (auto simp: word_unat_eq_iff)
  have less: "unat (n - 1) = unat n - 1" using n unat_minus_one [of n] by auto
  have "pendingAs s' (log @ [(name, n, q, q)]) a" for a
  proof (cases "a = name")
    case True
    then show ?thesis using m n one less o f by (auto simp: pendingAs_def stillOpen_snoc m' split: if_splits)
  next
    case False
    then have "sm_find (mInputNotEnoughPipe s') a = sm_find (mInputNotEnoughPipe s) a"
      using m by (auto simp: m' split: if_splits)
    then show ?thesis using pendingAs_other [OF pend False] by simp
  qed
  moreover have "sm_wf (mInputNotEnoughPipe s')" using m wf by (auto simp: m' sm_wf_set split: if_splits)
  moreover have "pipesOf a (log @ [(name, n, q, q)]) = sortFrames None (framesOf a (log @ [(name, n, q, q)]))" for a
    by (rule pipesOf_snoc [OF pipes]) (use o in simp)
  ultimately show ?thesis using prio' by auto
qed

lemma requests_ok_request:
  assumes ok: "requests_ok (s, log)" and q: "q \<notin> newIdsOf log" and t: "requests t = requests s"
    and r: "requestOf env se q fr im fmt n t = Inr (Some (Some p), t')" and t': "requests t' = requests s'"
  shows "requests_ok (s', log @ [(mImageName im, n, q, p)])"
proof (cases "sm_find (mInputNotEnoughPipe t) (mImageName im)")
  case (Some x)
  then obtain ex where "rqPipeline x = Some p" and "requests t' = (if frameNumNotCome x = 1 then sm_erase (mImageName im) (mInputNotEnoughPipe t)
        else sm_set (mImageName im) (x\<lparr>rqExif := ex, frameNumNotCome := frameNumNotCome x - 1\<rparr>) (mInputNotEnoughPipe t),
      mFIFOPipePriority t, mLIFOPipePriority t, pinfo t)"
    using requestOf_known [OF Some r] by auto
  then show ?thesis using requests_ok_known [OF ok q] Some t' requests_eq [OF t] by metis
next
  case None
  then have n: "n \<noteq> 0" using r by (auto simp: requestOf_def)
  show ?thesis using requestOf_new [OF None n r] requests_ok_new [OF ok q _ n] None t' requests_eq [OF t] by (metis option.inject)
qed

lemma small_priorities: "int k < 2 ^ 31 \<Longrightarrow> fifoOf k = - int k \<and> lifoOf k = int k"
  using sint_small [of "- int k"] sint_small [of "int k"] unfolding fifoOf_def lifoOf_def by linarith

lemma requestOf_None: "requestOf env se q fr im fmt n t = Inr (None, t') \<Longrightarrow> t' = t"
  by (auto simp: requestOf_def bindE_eq_Inr split: option.splits if_splits)

lemma serveFrame_request:
  assumes "serveFrame env se ids params s = Inr (result, x, s')"
  shows "(x = None \<and> requests s' = requests s) \<or>
    (\<exists>fr im fmt t t' p. x = Some (mImageName im, mTotalReqNum im, p) \<and> requests t = requests s \<and> requests t' = requests s' \<and>
       requestOf env se (pipeId ids) fr im fmt (mTotalReqNum im) t = Inr (Some (Some p), t'))"
proof (cases params)
  case None
  then show ?thesis using assms by (simp add: serveFrame_def)
next
  case ps: (Some ps)
  obtain s1 where k: "keepOutputFrame env se (sinkId ids) ps s = Inr s1"
    using assms ps by (cases "keepOutputFrame env se (sinkId ids) ps s") (auto simp: serveFrame_def)
  note rk = rq.view_keepOutputFrame [OF k]
  show ?thesis
  proof (cases "pp_inputFrame ps")
    case None
    then show ?thesis using assms ps k rk by (simp add: serveFrame_def)
  next
    case (Some frame)
    obtain fr md phy where fr: "frame = (fr, md, phy)" by (metis prod_cases3)
    let ?new = "newSourceImage env se fr md phy (mSelectedPipelineName (sgraph s1))"
    obtain port im where n: "?new = Inr (port, im)" using assms ps k Some fr by (cases ?new) (auto simp: serveFrame_def)
    let ?t = "setImage (sourceId ids) im s1"
    let ?req = "requestOf env se (pipeId ids) fr im (mFormat im) (mTotalReqNum im) ?t"
    obtain r t' where r: "?req = Inr (r, t')" using assms ps k Some fr n by (cases ?req) (auto simp: serveFrame_def)
    have t: "requests ?t = requests s" using rk by simp
    show ?thesis
    proof (cases r)
      case none: None
      have "t' = ?t" using requestOf_None r none by metis
      then show ?thesis using assms ps k Some fr n r none t by (simp add: serveFrame_def)
    next
      case so: (Some po)
      obtain p where p: "po = Some p" using assms ps k Some fr n r so by (cases po) (auto simp: serveFrame_def)
      let ?offer = "onPipe p (\<lambda>pl. Inr (offerImage (sourceId ids) im port pl)) t'"
      obtain s2 where o: "?offer = Inr s2" using assms ps k Some fr n r so p by (cases ?offer) (auto simp: serveFrame_def)
      have e: "x = Some (mImageName im, mTotalReqNum im, p) \<and> (s' = s2 \<or> memoryMonitor s2 = Inr s')"
        using assms ps k Some fr n r so p o by (auto simp: serveFrame_def Let_def bindE_eq_Inr split: if_splits)
      then have "requests s' = requests t'" using rq.view_onPipe [OF o] by (auto simp: memoryMonitor_def dest: rq.view_poolsDo)
      then show ?thesis using e t r so p by (intro disjI2 exI conjI) auto
    qed
  qed
qed

lemma session_step_ok: "session_step env se x y \<Longrightarrow> requests_ok x \<Longrightarrow> requests_ok y"
proof (induction rule: session_step.induct)
  case (frame ids log params s result name announced p s')
  then obtain fr im fmt t t' where "Some (name, announced, p) = Some (mImageName im, mTotalReqNum im, p)" "requests t = requests s"
    "requests t' = requests s'" "requestOf env se (pipeId ids) fr im fmt (mTotalReqNum im) t = Inr (Some (Some p), t')"
    using serveFrame_request [OF frame(2)] by auto
  then show ?case using requests_ok_request [OF frame(3,1)] by auto
next
  case (refused ids params s result s' log)
  then show ?case using serveFrame_request [OF refused(1)] requests_ok_frame by blast
next
  case (acquire ae format timestamp port ty s out s' log)
  then show ?case using rq.view_acquire requests_ok_frame by blast
next
  case (release i complete s s' log)
  then show ?case using requests_release requests_ok_frame by blast
next
  case (flush isForced s s' log)
  then show ?case using rq.view_flush requests_ok_frame unfolding session_flush_def by blast
next
  case (quick f needImage s r s' log)
  then show ?case using rq.view_quick requests_ok_frame by blast
qed (erule requests_ok_frame [rotated], simp)+

interpretation requests: invariant_system session_start "session_step env se" requests_ok for env se
proof unfold_locales
  fix x
  assume "session_start x"
  then show "requests_ok x" by (cases x) (auto simp: pendingAs_def prioritiesAs_def)
next
  fix x y
  assume "requests_ok x" and "session_step env se x y"
  then show "requests_ok y" using session_step_ok by blast
qed

subsection \<open>A small session\<close>

text \<open>Three frames: the first of two of request a, the only one of request b, the second of request a.\<close>

definition entry_bytes :: "nat list \<Rightarrow> meta_entry" where
  "entry_bytes bs = \<lparr>e_count = length bs, e_data = (\<lambda>i. if i < length bs then of_nat (bs ! i) else 0)\<rparr>"

definition frame_env :: mia_env where
  "frame_env = \<lparr>getTagID = (\<lambda>n. if n = ''xiaomi.snapshot.imageName'' then Inr 1
     else if n = ''xiaomi.burst.mialgoTotalReqNum'' then Inr 2 else Inl 1), Soc = MTK, OpenPrunerAbnormalDump = False, sDisableMask = 0\<rparr>"

definition frame_metadata :: "nat \<Rightarrow> nat \<Rightarrow> metadata_ptr" where
  "frame_metadata name n = Some \<lparr>tag_type = (\<lambda>_. 0), entry_of = (\<lambda>t. if t = 1 then Some (entry_bytes [name])
     else if t = 2 then Some (entry_bytes [n]) else None)\<rparr>"

definition frame_params :: "nat \<Rightarrow> nat \<Rightarrow> process_params option" where
  "frame_params name n = Some \<lparr>pp_outputNum = 0, pp_outputFrame = None, pp_inputFrame = Some (
     \<lparr>fi_format = \<lparr>fformat = CAM_FORMAT_YUV_420_NV21, fwidth = 64, fheight = 64, planeStride = 64, sliceheight = 64, cameraId = 0\<rparr>,
      fi_buffer = zeroBuffer\<lparr>pAddr0 := Some 4096\<rparr>, fi_timeStampUs = 1, fi_callback = True, fi_frameNumber = 1, fi_streamId = 0\<rparr>,
     frame_metadata name n, None)\<rparr>"

definition quiet_floats :: float_ops where
  "quiet_floats = \<lparr>f_one = 1, f_zero = 0, f_tolerance = 0, f_of_u32 = id, f_of_i32 = (\<lambda>_. 0), f_to_i32 = (\<lambda>_. 0), f_add = (\<lambda>a _. a),
     f_mul = (\<lambda>a _. a), f_div = (\<lambda>a _. a), f_less = (\<lambda>_ _. False), f_above_hundredth = (\<lambda>_. False), d_add = (\<lambda>a _. a),
     ticksToNano = id, gyroText = (\<lambda>_ _ _. []), averageText = (\<lambda>_ _. []), millisText = (\<lambda>_. [])\<rparr>"

definition frame_senv :: session_env where
  "frame_senv = \<lparr>floats = quiet_floats, NeedUpdateFovCropZoomRatio = False, staticMetadata = (\<lambda>_. None), mmapOf = (\<lambda>_. None),
     frameCb = True\<rparr>"

definition quiet_session :: session where
  "quiet_session = (new_session frame_env sample_params (\<lambda>_. new_Pipeline [] 0 0 [] (\<lambda>_. blankImage MI_IMG_SOURCE (mk_format CAM_FORMAT_YUV_420_NV12 64 64) 0) [])
     (\<lambda>_. \<lparr>fifoPriority = 0, lifoPriority = 0, pipeName = []\<rparr>) (\<lambda>_. blankImage MI_IMG_SOURCE (mk_format CAM_FORMAT_YUV_420_NV12 64 64) 0))
     \<lparr>sgraph := (new_session_graph frame_env)\<lparr>mSourcePortIdVec := [0], mIsBurstMode := True\<rparr>\<rparr>"

definition ids_of :: "nat \<Rightarrow> fresh_ids" where
  "ids_of k = \<lparr>sinkId = 100 + k, sourceId = 200 + k, pipeId = k\<rparr>"

definition frame_fi :: frame_in where
  "frame_fi = \<lparr>fi_format = \<lparr>fformat = CAM_FORMAT_YUV_420_NV21, fwidth = 64, fheight = 64, planeStride = 64, sliceheight = 64, cameraId = 0\<rparr>,
      fi_buffer = zeroBuffer\<lparr>pAddr0 := Some 4096\<rparr>, fi_timeStampUs = 1, fi_callback = True, fi_frameNumber = 1, fi_streamId = 0\<rparr>"

lemma frame_layout:
  "is_ok (offsets (fi_format frame_fi) (padInfoOf frame_env CAM_FORMAT_YUV_420_NV21))"
  "is_ok (padStrides (padInfoOf frame_env CAM_FORMAT_YUV_420_NV21) 64 (fi_format frame_fi))"
  by code_simp+

lemma frame_image: "\<exists>im. new_external frame_env frame_fi MI_IMG_SOURCE md (\<lambda>_. None) = Inr (readMetadata frame_env md im) \<and>
    mInputNumber im = 1 \<and> mImageName im = [] \<and> mTotalReqNum im = 0 \<and> mMetadata im = md"
proof -
  obtain x where x: "offsets (fi_format frame_fi) (padInfoOf frame_env CAM_FORMAT_YUV_420_NV21) = Inr x"
    using frame_layout(1) by (auto simp: is_ok_iff)
  obtain f where f: "padStrides (padInfoOf frame_env CAM_FORMAT_YUV_420_NV21) 64 (fi_format frame_fi) = Inr f"
    using frame_layout(2) by (auto simp: is_ok_iff)
  have i: "fformat (fi_format frame_fi) = CAM_FORMAT_YUV_420_NV21" "fwidth (fi_format frame_fi) = 64"
    "pAddr0 (fi_buffer frame_fi) = Some 4096" "Soc frame_env = MTK"
    by (simp_all add: frame_fi_def frame_env_def)
  show ?thesis
    unfolding new_external_def Let_def i option.case x
    by (cases x) (simp add: f, rule exI, rule conjI, rule refl, simp)
qed

lemma frame_read:
  assumes "mImageName im = []"
  shows "mImageName (readMetadata frame_env (frame_metadata 97 2) im) = ''a''" "mTotalReqNum (readMetadata frame_env (frame_metadata 97 2) im) = 2"
    "mImageName (readMetadata frame_env (frame_metadata 98 1) im) = ''b''" "mTotalReqNum (readMetadata frame_env (frame_metadata 98 1) im) = 1"
  using assms by (simp_all add: readMetadata_def frame_metadata_def frame_env_def entry_bytes_def getVTagValueCount_def getVTagValue_def
      getTagValue_def read_u32_def char_of_def bit_0)

definition quiet :: "session \<Rightarrow> bool" where
  "quiet s \<longleftrightarrow> mIsBurstMode (sgraph s) \<and> mDefaultReclaimCnt (sgraph s) = 3 \<and> mBufferQueueWrapperSet s = []"

lemma quiet_forExif [simp]: "quiet s \<Longrightarrow> forExif env se im ex s = (ex, s)"
  by (simp add: quiet_def forExif_def)

lemma quiet_request:
  assumes "quiet s" and "requests_ok (s, log)" and "n \<noteq> 0"
  shows "\<exists>p t. requestOf frame_env frame_senv q fr im fmt n s = Inr (Some (Some p), t) \<and> quiet t"
proof (cases "sm_find (mInputNotEnoughPipe s) (mImageName im)")
  case None
  let ?t = "(enterPipeline q fr im (rememberRequest (mImageName im) n s))\<lparr>mSessionRequestCnt := mSessionRequestCnt s + 1\<rparr>"
  have q: "quiet ?t" and c: "mSessionRequestCnt (enterPipeline q fr im (rememberRequest (mImageName im) n s)) = mSessionRequestCnt s"
    using assms(1) by (simp_all add: quiet_def enterPipeline_def rememberRequest_def event_def Let_def)
  have b: "beginPipeline frame_env frame_senv q fr im fmt (rememberRequest (mImageName im) n s) = Inr ?t"
    by (simp add: beginPipeline_def frame_env_def c)
  have "n \<noteq> 1 \<Longrightarrow> \<exists>r. sm_find (mInputNotEnoughPipe ?t) (mImageName im) = Some r"
    using assms(3) by (auto simp: enterPipeline_def rememberRequest_def event_def Let_def word_less_nat_alt word_unat_eq_iff)
  then show ?thesis
  proof (cases "n = 1")
    case True
    show ?thesis using None q b unfolding True by (auto simp: requestOf_def)
  next
    case False
    then obtain r where "sm_find (mInputNotEnoughPipe ?t) (mImageName im) = Some r"
      using \<open>n \<noteq> 1 \<Longrightarrow> \<exists>r. sm_find (mInputNotEnoughPipe ?t) (mImageName im) = Some r\<close> by blast
    then show ?thesis using None assms(3) q b False by (auto simp: requestOf_def joinRequest_def Let_def quiet_def)
  qed
next
  case (Some r)
  have "pendingAs s log (mImageName im)" using assms(2) by simp
  then obtain p where "rqPipeline r = Some p" using Some by (auto simp: pendingAs_def split: option.splits)
  then show ?thesis using Some assms(1) by (auto simp: requestOf_def joinRequest_def Let_def quiet_def)
qed

definition frame_name :: "nat \<Rightarrow> string" where
  "frame_name c = (if c = 97 then ''a'' else ''b'')"

lemma frame_remap: "reMapSourcePortId frame_env 0 md sel im = (0, im, None)"
proof -
  have ids: "getTagID frame_env ''xiaomi.bokeh.MDMode'' = Inl 1" "getTagID frame_env ''xiaomi.burst.curReqIndex'' = Inl 1"
    by (simp_all add: frame_env_def)
  then have none: "snd (getVTagValue frame_env m ''xiaomi.bokeh.MDMode'' None) = None"
    "snd (getVTagValue frame_env m ''xiaomi.burst.curReqIndex'' None) = None" for m
    by (simp_all add: getVTagValue_def split: option.splits)
  show ?thesis by (simp add: reMapSourcePortId_def none Let_def split: option.splits)
qed

lemma quiet_serve:
  assumes "quiet s" and "requests_ok (s, log)" and "(c, n) \<in> {(97, 2), (98, 1)}"
  shows "\<exists>p s'. serveFrame frame_env frame_senv ids (frame_params c n) s = Inr (MIAS_OK, Some (frame_name c, of_nat n, p), s') \<and> quiet s'"
proof -
  obtain im where im: "new_external frame_env frame_fi MI_IMG_SOURCE (frame_metadata c n) (\<lambda>_. None) = Inr (readMetadata frame_env (frame_metadata c n) im)"
    "mImageName im = []"
    using frame_image [of "frame_metadata c n"] by blast
  let ?im = "readMetadata frame_env (frame_metadata c n) im"
  have names: "mImageName ?im = frame_name c" "mTotalReqNum ?im = of_nat n" "of_nat n \<noteq> (0 :: u32)"
    using assms(3) frame_read [OF im(2)] by (auto simp: frame_name_def)
  have new: "newSourceImage frame_env frame_senv frame_fi (frame_metadata c n) None sel = Inr (0, ?im\<lparr>mMetadata := mMetadata ?im\<rparr>)" for sel
    using im(1) by (simp add: newSourceImage_def frame_senv_def frame_remap frame_fi_def)
  let ?s = "setImage (sourceId ids) ?im s"
  have "quiet ?s" using assms(1) by (simp add: quiet_def setImage_def)
  moreover have "requests_ok (?s, log)" by (rule requests_ok_frame [OF _ assms(2)]) simp
  ultimately obtain p t where r: "requestOf frame_env frame_senv (pipeId ids) frame_fi ?im (mFormat ?im) (of_nat n) ?s = Inr (Some (Some p), t)"
    and t: "quiet t" using quiet_request names(3) by blast
  have "frame_params c n = Some \<lparr>pp_outputNum = 0, pp_outputFrame = None, pp_inputFrame = Some (frame_fi, frame_metadata c n, None)\<rparr>"
    by (simp add: frame_params_def frame_fi_def)
  then show ?thesis
    using new r t names
    by (auto simp: serveFrame_def keepOutputFrame_def onPipe_def quiet_def memoryMonitor_def Let_def)
qed

lemma quiet_start: "session_start (quiet_session, [])" "quiet quiet_session"
  by (simp_all add: quiet_session_def new_session_def quiet_def new_session_graph_def)

lemma quiet_next:
  assumes "quiet s" and "requests_ok (s, log)" and "(c, n) \<in> {(97, 2), (98, 1)}" and "q \<notin> newIdsOf log"
  shows "\<exists>p s'. session_step frame_env frame_senv (s, log) (s', log @ [(frame_name c, of_nat n, q, p)]) \<and> quiet s'"
  using quiet_serve [OF assms(1-3), of "ids_of q"] session_step.frame [of "ids_of q" log] assms(4) by (fastforce simp: ids_of_def)

text \<open>The execution of the three frames.\<close>

lemma three_frames:
  "\<exists>s p1 p2 p3. (session_step frame_env frame_senv)\<^sup>*\<^sup>* (quiet_session, []) (s, [(''a'', 2, 1, p1), (''b'', 1, 2, p2), (''a'', 2, 3, p3)])"
proof -
  obtain s1 p1 where 1: "session_step frame_env frame_senv (quiet_session, []) (s1, [(''a'', 2, 1, p1)])" "quiet s1"
    using quiet_next [OF quiet_start(2) requests.start_inv [OF quiet_start(1)], of 97 2 1] by (auto simp: frame_name_def)
  then have ok1: "requests_ok (s1, [(''a'', 2, 1, p1)])" using requests.step_inv requests.start_inv quiet_start by blast
  obtain s2 p2 where 2: "session_step frame_env frame_senv (s1, [(''a'', 2, 1, p1)]) (s2, [(''a'', 2, 1, p1), (''b'', 1, 2, p2)])" "quiet s2"
    using quiet_next [OF 1(2) ok1, of 98 1 2] by (auto simp: frame_name_def newIdsOf_def)
  then have ok2: "requests_ok (s2, [(''a'', 2, 1, p1), (''b'', 1, 2, p2)])" using requests.step_inv ok1 by blast
  obtain s3 p3 where 3: "session_step frame_env frame_senv (s2, [(''a'', 2, 1, p1), (''b'', 1, 2, p2)])
      (s3, [(''a'', 2, 1, p1), (''b'', 1, 2, p2), (''a'', 2, 3, p3)])"
    using quiet_next [OF 2(2) ok2, of 97 2 3] by (auto simp: frame_name_def newIdsOf_def)
  show ?thesis using 1(1) 2(1) 3 by (meson rtranclp.rtrancl_refl rtranclp.rtrancl_into_rtrancl)
qed

text \<open>C1: In every execution of a session, the frames of one name go to the pipelines the reference says: the frames that follow
  the first frame of a request, as many as it announced, go where the first went, whatever other requests come in between.\<close>

theorem frames_sorted_as_announced:
  assumes "session_start start" and "(session_step env se)\<^sup>*\<^sup>* start (s, log)"
  shows "pipesOf name log = splitRequests (framesOf name log)"
  using requests.reachable_inv [OF assms] by (simp add: sortFrames_split)

text \<open>Among the first two billion requests of a session, an earlier request has the higher FIFO priority and the lower LIFO
  priority.\<close>

theorem priorities_follow_arrival:
  assumes "session_start start" and "(session_step env se)\<^sup>*\<^sup>* start (s, log)"
    and "j < k" and "k < length (begun log)" and "length (begun log) \<le> 2 ^ 31"
  shows "fifoPriority (pinfo s (begun log ! k)) < fifoPriority (pinfo s (begun log ! j)) \<and>
    lifoPriority (pinfo s (begun log ! j)) < lifoPriority (pinfo s (begun log ! k))"
proof -
  have "prioritiesAs s (begun log)" using requests.reachable_inv [OF assms(1,2)] by simp
  then have "fifoPriority (pinfo s (begun log ! k)) = fifoOf k" "fifoPriority (pinfo s (begun log ! j)) = fifoOf j"
    "lifoPriority (pinfo s (begun log ! k)) = lifoOf k" "lifoPriority (pinfo s (begun log ! j)) = lifoOf j"
    using assms(3,4) by (auto simp: prioritiesAs_def)
  then show ?thesis using assms(3-5) by (simp add: small_priorities)
qed

theorem frames_sorted_as_announced_witness:
  "\<exists>s p2. (session_step frame_env frame_senv)\<^sup>*\<^sup>* (quiet_session, []) (s, [(''a'', 2, 1, 1), (''b'', 1, 2, p2), (''a'', 2, 3, 1)])"
proof -
  obtain s p1 p2 p3 where e: "(session_step frame_env frame_senv)\<^sup>*\<^sup>* (quiet_session, [])
      (s, [(''a'', 2, 1, p1), (''b'', 1, 2, p2), (''a'', 2, 3, p3)])"
    using three_frames by blast
  have "p1 = 1 \<and> p3 = 1"
    using frames_sorted_as_announced [OF quiet_start(1) e, of "''a''"] by (simp add: pipesOf_def framesOf_def)
  then show ?thesis using e by blast
qed

lemma three_frames_begun:
  "\<exists>s log. (session_step frame_env frame_senv)\<^sup>*\<^sup>* (quiet_session, []) (s, log) \<and> begun log = [1, 2]"
proof -
  obtain s p1 p2 p3 where e: "(session_step frame_env frame_senv)\<^sup>*\<^sup>* (quiet_session, [])
      (s, [(''a'', 2, 1, p1), (''b'', 1, 2, p2), (''a'', 2, 3, p3)])"
    using three_frames by blast
  have "pipesOf ''a'' [(''a'', 2, 1, p1), (''b'', 1, 2, p2), (''a'', 2, 3, p3)] = [1, 1]"
    "pipesOf ''b'' [(''a'', 2, 1, p1), (''b'', 1, 2, p2), (''a'', 2, 3, p3)] = [2]"
    using requests.reachable_inv [OF quiet_start(1) e] by (simp_all add: framesOf_def)
  then have "begun [(''a'', 2, 1, p1), (''b'', 1, 2, p2), (''a'', 2, 3, p3)] = [1, 2]" by (simp add: pipesOf_def begun_def)
  then show ?thesis using e by blast
qed

theorem priorities_follow_arrival_witness:
  "\<exists>s log. (session_step frame_env frame_senv)\<^sup>*\<^sup>* (quiet_session, []) (s, log) \<and> fifoPriority (pinfo s 2) < fifoPriority (pinfo s 1)"
proof -
  obtain s log where e: "(session_step frame_env frame_senv)\<^sup>*\<^sup>* (quiet_session, []) (s, log)" "begun log = [1, 2]"
    using three_frames_begun by blast
  show ?thesis using priorities_follow_arrival [OF quiet_start(1) e(1), of 0 1] e by auto
qed

text \<open>
  The requests waiting at a serial node, with the priorities their pipelines have in the session.
\<close>

definition waitingAs :: "node_kind \<Rightarrow> bool \<Rightarrow> session \<Rightarrow> nat list \<Rightarrow> MiaNode \<Rightarrow> bool" where
  "waitingAs k openLIFO s ps n \<longleftrightarrow> (\<forall>(prio, p) \<in> set (mRequestQueue n). p \<in> set ps \<and>
     prio = taskPriority k openLIFO (mSupportLIFO (sgraph s)) (pinfo s p))"

lemma priority_of:
  assumes "prioritiesAs s ps" and "length ps \<le> 2 ^ 31" and "i < length ps"
  shows "taskPriority k openLIFO lifo (pinfo s (ps ! i)) = (if k = OtherNode \<and> openLIFO \<and> lifo then int i else - int i)"
  using assms small_priorities [of i] by (simp add: prioritiesAs_def taskPriority_def)

text \<open>C11: A node that turns to its next request takes the one that reached the session first among those waiting or, where last in
  first out is switched on and supported, the one that reached it last.\<close>

theorem arrival_order_served:
  assumes "session_start start" and "(session_step env se)\<^sup>*\<^sup>* start (s, log)" and "length (begun log) \<le> 2 ^ 31"
    and "mRequestQueue n \<noteq> []" and "waitingAs k openLIFO s (begun log) n"
  shows "\<exists>i < length (begun log). mPipeline (snd (nextRequest n)) = Some (begun log ! i) \<and>
    (\<forall>j < length (begun log). begun log ! j \<in> snd ` set (mRequestQueue n) \<longrightarrow>
      (if k = OtherNode \<and> openLIFO \<and> mSupportLIFO (sgraph s) then j \<le> i else i \<le> j))"
proof -
  have prio: "prioritiesAs s (begun log)" using requests.reachable_inv [OF assms(1,2)] by simp
  obtain x where x: "takeRequest n = (Some (snd x), n\<lparr>mRequestQueue := remove1 x (mRequestQueue n)\<rparr>)" "x \<in> set (mRequestQueue n)"
    "\<forall>y \<in> set (mRequestQueue n). fst y \<le> fst x"
    using takeRequest_spec [OF assms(4)] by blast
  have w: "snd y \<in> set (begun log) \<and> fst y = taskPriority k openLIFO (mSupportLIFO (sgraph s)) (pinfo s (snd y))"
    if "y \<in> set (mRequestQueue n)" for y
    using assms(5) that by (cases y) (auto simp: waitingAs_def)
  obtain i where i: "i < length (begun log)" "begun log ! i = snd x" using w [OF x(2)] by (auto simp: in_set_conv_nth)
  have "if k = OtherNode \<and> openLIFO \<and> mSupportLIFO (sgraph s) then j \<le> i else i \<le> j"
    if j: "j < length (begun log)" "begun log ! j \<in> snd ` set (mRequestQueue n)" for j
  proof -
    obtain y where y: "y \<in> set (mRequestQueue n)" "snd y = begun log ! j" using j(2) by force
    have "fst y \<le> fst x" using x(3) y(1) by blast
    then show ?thesis
      using w [OF y(1)] w [OF x(2)] y(2) i priority_of [OF prio assms(3) j(1)] priority_of [OF prio assms(3) i(1)]
      by (auto split: if_splits)
  qed
  then show ?thesis using i x(1) assms(4) by (intro exI [of _ i]) (simp add: nextRequest_def)
qed

theorem arrival_order_served_witness:
  "\<exists>s log. (session_step frame_env frame_senv)\<^sup>*\<^sup>* (quiet_session, []) (s, log) \<and>
    mPipeline (snd (nextRequest (idle_node\<lparr>mRequestQueue := [(- 1, 2), (0, 1)]\<rparr>))) = Some 1"
proof -
  obtain s log where e: "(session_step frame_env frame_senv)\<^sup>*\<^sup>* (quiet_session, []) (s, log)" "begun log = [1, 2]"
    using three_frames_begun by blast
  have "prioritiesAs s (begun log)" using requests.reachable_inv [OF quiet_start(1) e(1)] by simp
  then have "waitingAs SigframeNode False s (begun log) (idle_node\<lparr>mRequestQueue := [(- 1, 2), (0, 1)]\<rparr>)"
    using priority_of [of s "begun log" 0 SigframeNode False] priority_of [of s "begun log" 1 SigframeNode False] e(2)
    by (simp add: waitingAs_def)
  then have "\<exists>i < length (begun log). mPipeline (snd (nextRequest (idle_node\<lparr>mRequestQueue := [(- 1, 2), (0, 1)]\<rparr>))) = Some (begun log ! i) \<and>
      (\<forall>j < length (begun log). begun log ! j \<in> snd ` set (mRequestQueue (idle_node\<lparr>mRequestQueue := [(- 1, 2), (0, 1)]\<rparr>)) \<longrightarrow>
        (if SigframeNode = OtherNode \<and> False \<and> mSupportLIFO (sgraph s) then j \<le> i else i \<le> j))"
    by (intro arrival_order_served [OF quiet_start(1) e(1)]) (simp_all add: e(2))
  then obtain i where i: "i < length (begun log)" "mPipeline (snd (nextRequest (idle_node\<lparr>mRequestQueue := [(- 1, 2), (0, 1)]\<rparr>))) = Some (begun log ! i)"
    "\<forall>j < length (begun log). begun log ! j \<in> {1, 2} \<longrightarrow> i \<le> j"
    by auto
  have "i \<le> 0" using i(3) [rule_format, of 0] e(2) by simp
  then show ?thesis using e i(2) by auto
qed

end
