(* ===== verification/SessionImages.thy ===== *)
theory SessionImages
  imports SessionCorrect
begin

text \<open>
  The images and results of a session (\<^verbatim>\<open>mivifwk/mialgoengine/MiaOfflineSession.cpp\<close>): what nodes
  report reaches the application once and in order, one pool serves each format, giving an image
  back is what the pipelines take it to be, and a flushed request takes no more frames.
\<close>

subsection \<open>Results\<close>

definition resultsView :: "session \<Rightarrow> (int, string list) std_map \<times> session_event list" where
  "resultsView s = (mAlgoResultInfo s, filter (\<lambda>e. case e of SessionCallback _ _ _ _ \<Rightarrow> True | _ \<Rightarrow> False) (sevents s))"

interpretation rv: session_view resultsView
  by unfold_locales (simp_all add: resultsView_def setImage_def)

definition deliveredIn :: "int \<Rightarrow> session_event \<Rightarrow> string list" where
  "deliveredIn t e = (case e of SessionCallback MIA_META_CALLBACK _ t' xs \<Rightarrow> if t' = t then xs else [] | _ \<Rightarrow> [])"

text \<open>The results of a time that the application has got, and those the session still holds.\<close>

definition deliveredFor :: "int \<Rightarrow> session \<Rightarrow> string list" where
  "deliveredFor t s = concat (map (deliveredIn t) (sevents s))"

definition heldFor :: "int \<Rightarrow> session \<Rightarrow> string list" where
  "heldFor t s = sm_index [] (mAlgoResultInfo s) t"

text \<open>The history lists the results reported, with their times.\<close>

inductive results_step :: "mia_env \<Rightarrow> session_env \<Rightarrow> session \<times> (int \<times> string) list \<Rightarrow> session \<times> (int \<times> string) list \<Rightarrow> bool" for env se where
  reported: "results_step env se (s, h) (onResultComing resultType frameNum timeStamp data s,
    if resultType = MIA_META_CALLBACK \<and> timeStamp > 0 then h @ [(timeStamp, data)] else h)"
| released: "session_releaseBuffer i complete s = Inr s' \<Longrightarrow> results_step env se (s, h) (s', h)"
| acquired: "acquireOutputBuffer env se ae format timestamp port ty s = Inr (out, s') \<Longrightarrow> results_step env se (s, h) (s', h)"
| retired: "results_step env se (s, h) (moveToIdleQueue p s, h)"
| counted: "results_step env se (s, h) (increaseUsingThreadNum n s, h)"
| flushed: "session_flush isForced s = Inr s' \<Longrightarrow> results_step env se (s, h) (s', h)"
| worked: "pl_step env (pipeView s p) pln \<Longrightarrow> results_step env se (s, h) (s\<lparr>pipes := (pipes s)(p := pln), simages := pimages pln\<rparr>, h)"

fun results_start :: "session \<times> (int \<times> string) list \<Rightarrow> bool" where
  "results_start (s, h) \<longleftrightarrow> h = [] \<and> mAlgoResultInfo s = [] \<and> sevents s = []"

fun results_ok :: "session \<times> (int \<times> string) list \<Rightarrow> bool" where
  "results_ok (s, h) \<longleftrightarrow> sm_wf (mAlgoResultInfo s) \<and>
     (\<forall>t. deliveredFor t s @ heldFor t s = map snd (filter (\<lambda>x. fst x = t) h))"

lemma deliveredFor_view: "deliveredFor t s = concat (map (deliveredIn t) (snd (resultsView s)))"
proof -
  have "concat (map (deliveredIn t) es) =
      concat (map (deliveredIn t) (filter (\<lambda>e. case e of SessionCallback _ _ _ _ \<Rightarrow> True | _ \<Rightarrow> False) es))" for es
    by (induction es) (auto simp: deliveredIn_def split: session_event.splits)
  then show ?thesis by (simp add: deliveredFor_def resultsView_def)
qed

lemma results_ok_view: "resultsView s' = resultsView s \<Longrightarrow> results_ok (s, h) \<Longrightarrow> results_ok (s', h)"
  by (simp add: deliveredFor_view heldFor_def) (simp add: resultsView_def)

lemma results_report:
  assumes "results_ok (s, h)"
  shows "results_ok (onResultComing ty f t d s, if ty = MIA_META_CALLBACK \<and> t > 0 then h @ [(t, d)] else h)"
proof (cases "ty = MIA_META_CALLBACK \<and> t > 0")
  case True
  then show ?thesis
    using assms by (auto simp: onResultComing_def sm_wf_push deliveredFor_def heldFor_def)
next
  case False
  have "mAlgoResultInfo (onResultComing ty f t d s) = mAlgoResultInfo s"
    "deliveredFor u (onResultComing ty f t d s) = deliveredFor u s" for u
    using False by (auto simp: onResultComing_def event_def deliveredFor_def deliveredIn_def split: MiaResultCbType.splits)
  then show ?thesis using assms False by (auto simp: heldFor_def)
qed

lemma results_deliver:
  assumes "results_ok (s, h)"
  shows "results_ok (deliverResults i s, h) \<and> heldFor (mTimestamp (simages s i)) (deliverResults i s) = []"
proof (cases "sm_find (mAlgoResultInfo s) (mTimestamp (simages s i))")
  case None
  then show ?thesis using assms by (simp add: deliverResults_def heldFor_def sm_index_def)
next
  case (Some xs)
  have wf: "sm_wf (mAlgoResultInfo s)" using assms by simp
  have "deliveredFor u (deliverResults i s) @ heldFor u (deliverResults i s) = deliveredFor u s @ heldFor u s" for u
    using Some by (auto simp: deliverResults_def deliveredFor_def heldFor_def event_def deliveredIn_def sm_index_def sm_find_erase [OF wf])
  moreover have "heldFor (mTimestamp (simages s i)) (deliverResults i s) = []"
    using Some by (simp add: deliverResults_def heldFor_def event_def sm_index_def sm_find_erase [OF wf])
  moreover have "sm_wf (mAlgoResultInfo (deliverResults i s))" using Some wf by (simp add: deliverResults_def event_def sm_wf_erase)
  ultimately show ?thesis using assms by auto
qed

lemma resultsView_update [simp]:
  "resultsView (giveBack i s) = resultsView s" "resultsView (moveToIdleQueue p s) = resultsView s"
  "resultsView (increaseUsingThreadNum n s) = resultsView s"
  by (simp_all add: resultsView_def giveBack_def moveToIdleQueue_def increaseUsingThreadNum_def event_def setImage_def Let_def
      split: prod.splits option.splits)

lemma results_release:
  assumes "results_ok (s, h)" and "session_releaseBuffer i c s = Inr s'"
  shows "results_ok (s', h)"
proof (cases "imType (simages s i)")
  case MI_IMG_INTERNAL
  then have "resultsView s' = resultsView s"
    using assms(2) by (auto simp: session_releaseBuffer_def bindE_eq_Inr dest: rv.view_onPool split: option.splits)
  then show ?thesis using assms(1) results_ok_view by blast
next
  case MI_IMG_SOURCE
  then have "s' = giveBack i s" using assms(2) by (simp add: session_releaseBuffer_def)
  then show ?thesis using results_ok_view [OF resultsView_update(1) assms(1)] by simp
next
  case MI_IMG_VIRTUAL_SINK
  then have "s' = giveBack i (if c then deliverResults i s else s)" using assms(2) by (simp add: session_releaseBuffer_def)
  then show ?thesis using results_ok_view [OF resultsView_update(1)] results_deliver [OF assms(1)] assms(1) by metis
next
  case MI_IMG_SINK
  then have "s' = giveBack i (if c then deliverResults i s else s)" using assms(2) by (simp add: session_releaseBuffer_def)
  then show ?thesis using results_ok_view [OF resultsView_update(1)] results_deliver [OF assms(1)] assms(1) by metis
qed

lemma results_step_ok: "results_step env se x y \<Longrightarrow> results_ok x \<Longrightarrow> results_ok y"
proof (induction rule: results_step.induct)
  case (reported s h resultType frameNum timeStamp data)
  then show ?case by (rule results_report)
next
  case (released i complete s s' h)
  then show ?case using results_release by blast
next
  case (acquired ae format timestamp port ty s out s' h)
  then show ?case using rv.view_acquire results_ok_view by blast
next
  case (flushed isForced s s' h)
  then show ?case using rv.view_flush results_ok_view unfolding session_flush_def by blast
next
  case (worked s p pln h)
  then show ?case using results_ok_view [OF rv.view_pipe] by blast
qed (erule results_ok_view [rotated], simp)+

interpretation results: invariant_system results_start "results_step env se" results_ok for env se
proof unfold_locales
  fix x
  assume "results_start x"
  then show "results_ok x" by (cases x) (simp add: deliveredFor_def heldFor_def sm_index_def)
next
  fix x y
  assume "results_ok x" and "results_step env se x y"
  then show "results_ok y" using results_step_ok by blast
qed

text \<open>C9: Of the results the nodes report for a time, those the application has got and those the session still holds are, in this
  order, all that were reported: none is lost, none is delivered twice, none overtakes another; and when an output image of that
  time is given back for a complete request, the application has got them all.\<close>

theorem results_delivered_once:
  assumes "results_start x" and "(results_step env se)\<^sup>*\<^sup>* x (s, h)"
  shows "deliveredFor t s @ heldFor t s = map snd (filter (\<lambda>y. fst y = t) h) \<and>
    (imType (simages s i) = MI_IMG_SINK \<and> mTimestamp (simages s i) = t \<and> session_releaseBuffer i True s = Inr s' \<longrightarrow>
      deliveredFor t s' = map snd (filter (\<lambda>y. fst y = t) h))"
proof -
  have ok: "results_ok (s, h)" using results.reachable_inv [OF assms] .
  have "deliveredFor t s' = map snd (filter (\<lambda>y. fst y = t) h)"
    if "imType (simages s i) = MI_IMG_SINK" "mTimestamp (simages s i) = t" "session_releaseBuffer i True s = Inr s'"
  proof -
    have s': "s' = giveBack i (deliverResults i s)" using that by (simp add: session_releaseBuffer_def)
    note d = results_deliver [OF ok, of i]
    have "deliveredFor t s' = deliveredFor t (deliverResults i s)" by (simp add: s' deliveredFor_view)
    also have "\<dots> = deliveredFor t (deliverResults i s) @ heldFor t (deliverResults i s)" using d that(2) by simp
    finally show ?thesis using d by simp
  qed
  then show ?thesis using ok by simp
qed

definition sink_session :: session where
  "sink_session = quiet_session\<lparr>simages := (\<lambda>_. (blankImage MI_IMG_SINK (mk_format CAM_FORMAT_YUV_420_NV12 64 64) 0)\<lparr>mTimestamp := 7\<rparr>)\<rparr>"

theorem results_delivered_once_witness:
  "deliveredFor 7 (giveBack 0 (deliverResults 0 (onResultComing MIA_META_CALLBACK 1 7 ''b'' (onResultComing MIA_META_CALLBACK 1 7 ''a'' sink_session))))
     = [''a'', ''b'']"
proof -
  let ?s1 = "onResultComing MIA_META_CALLBACK 1 7 ''a'' sink_session" let ?s2 = "onResultComing MIA_META_CALLBACK 1 7 ''b'' ?s1"
  have start: "results_start (sink_session, [])" by (simp add: sink_session_def quiet_session_def new_session_def)
  have 1: "results_step frame_env frame_senv (sink_session, []) (?s1, [(7, ''a'')])"
    using results_step.reported [of frame_env frame_senv sink_session "[]" MIA_META_CALLBACK 1 7 "''a''"] by simp
  have 2: "results_step frame_env frame_senv (?s1, [(7, ''a'')]) (?s2, [(7, ''a''), (7, ''b'')])"
    using results_step.reported [of frame_env frame_senv ?s1 "[(7, ''a'')]" MIA_META_CALLBACK 1 7 "''b''"] by simp
  have im: "simages ?s2 0 = (blankImage MI_IMG_SINK (mk_format CAM_FORMAT_YUV_420_NV12 64 64) 0)\<lparr>mTimestamp := 7\<rparr>"
    by (simp add: onResultComing_def sink_session_def)
  have "session_releaseBuffer 0 True ?s2 = Inr (giveBack 0 (deliverResults 0 ?s2))"
    by (simp add: session_releaseBuffer_def im blankImage_def)
  then show ?thesis
    using results_delivered_once [OF start, of frame_env frame_senv ?s2 "[(7, ''a''), (7, ''b'')]" 7 0] 1 2
    by (simp add: im blankImage_def converse_rtranclp_into_rtranclp)
qed

subsection \<open>Pools\<close>

definition one_pool :: "session \<Rightarrow> bool" where
  "one_pool s \<longleftrightarrow> sm_wf (mBufferQueueWrapperSet s) \<and>
     (\<forall>a b w v. sm_find (mBufferQueueWrapperSet s) a = Some w \<longrightarrow> sm_find (mBufferQueueWrapperSet s) b = Some v \<longrightarrow>
        isMatchFormat (mBufferFormat w) (mBufferFormat v) \<longrightarrow> a = b)"

lemma bind_pairE:
  assumes "bindE m (\<lambda>(a, b). f a b) = Inr y"
  obtains a b where "m = Inr (a, b)" and "f a b = Inr y"
  using assms by (cases m) auto

text \<open>No operation of a pool changes its format.\<close>

definition keepsFormat :: "(BufferQueueWrapper \<Rightarrow> ('a \<times> BufferQueueWrapper) outcome) \<Rightarrow> bool" where
  "keepsFormat f \<longleftrightarrow> (\<forall>w x w'. f w = Inr (x, w') \<longrightarrow> mBufferFormat w' = mBufferFormat w)"

lemma dropImage_format: "dropImage i w = Inr w' \<Longrightarrow> mBufferFormat w' = mBufferFormat w \<and> wimages w' = wimages w"
  by (auto simp: dropImage_def bindE_eq_Inr)

lemma offerToQueue_format: "offerToQueue i w = Inr w' \<Longrightarrow> mBufferFormat w' = mBufferFormat w \<and> wimages w' = wimages w"
  by (auto simp: offerToQueue_def tsq_push_def dest: dropImage_format split: if_splits)

lemma newImages_format: "newImages env stale is w = Inr w' \<Longrightarrow> mBufferFormat w' = mBufferFormat w"
  by (induction env stale "is" w rule: newImages.induct) (auto simp: bindE_eq_Inr dest: offerToQueue_format)

lemma increaseImageQueue_format: "increaseImageQueue env ans w = Inr (r, w') \<Longrightarrow> mBufferFormat w' = mBufferFormat w"
  by (auto simp: increaseImageQueue_def bindE_eq_Inr Let_def dest: newImages_format split: option.splits if_splits)

lemma dequeueBuffer_format: "keepsFormat (dequeueBuffer env ans)"
proof (unfold keepsFormat_def, intro allI impI)
  fix w x w'
  assume d: "dequeueBuffer env ans w = Inr (x, w')"
  let ?m = "if tsq_isEmpty (mBufferQueue w) then bindE (increaseImageQueue env ans w) (\<lambda>(_, w1). Inr w1) else Inr w"
  obtain w1 where m: "?m = Inr w1" using d unfolding dequeueBuffer_def bindE_eq_Inr by blast
  then have "mBufferFormat w1 = mBufferFormat w" by (auto simp: bindE_eq_Inr dest: increaseImageQueue_format split: if_splits)
  moreover have "mBufferFormat w' = mBufferFormat w1"
    using d unfolding dequeueBuffer_def m bindE_simps
    by (cases "waitAndPop (mBufferQueue w1)") (auto elim!: bind_pairE split: option.splits)
  ultimately show "mBufferFormat w' = mBufferFormat w" by simp
qed

lemma enqueueBuffer_images:
  "enqueueBuffer i w = Inr w' \<Longrightarrow> mBufferFormat w' = mBufferFormat w \<and> wimages w' = (wimages w)(i := snd (decreaseUseCount (wimages w i)))"
  by (auto simp: enqueueBuffer_def Let_def split: prod.splits if_splits dest!: offerToQueue_format)

lemma shrink_format: "shrink n is w = Inr w' \<Longrightarrow> mBufferFormat w' = mBufferFormat w"
  by (induction n "is" w rule: shrink.induct) (auto simp: bindE_eq_Inr dest: dropImage_format split: if_splits)

lemma clearOut_format: "clearOutThresholdBuffer w = Inr w' \<Longrightarrow> mBufferFormat w' = mBufferFormat w"
  by (auto simp: clearOutThresholdBuffer_def bindE_eq_Inr dest: shrink_format split: if_splits)

lemma wrapper_create_format: "wrapper_create env ans fmt k m0 w = Inr (Some w') \<Longrightarrow> mBufferFormat w' = fmt"
  by (auto simp: wrapper_create_def wrapper_initialize_def bindE_eq_Inr Let_def dest!: newImages_format split: option.splits if_splits)

lemma onPool_formats:
  assumes "onPool a f s = Inr (x, s')" and "keepsFormat f"
  shows "map_option mBufferFormat (sm_find (mBufferQueueWrapperSet s') b) = map_option mBufferFormat (sm_find (mBufferQueueWrapperSet s) b)"
  using assms by (auto simp: onPool_def bindE_eq_Inr sm_at_Inr keepsFormat_def)

lemma onPool_one:
  assumes "onPool a f s = Inr (x, s')" and "keepsFormat f" and "one_pool s"
  shows "one_pool s'"
proof -
  have "sm_wf (mBufferQueueWrapperSet s')" using assms(1,3) by (auto simp: onPool_def bindE_eq_Inr one_pool_def sm_wf_set)
  moreover have "\<exists>v. sm_find (mBufferQueueWrapperSet s) b = Some v \<and> mBufferFormat v = mBufferFormat w"
    if "sm_find (mBufferQueueWrapperSet s') b = Some w" for b w
    using onPool_formats [OF assms(1,2), of b] that by (cases "sm_find (mBufferQueueWrapperSet s) b") auto
  ultimately show ?thesis using assms(3) unfolding one_pool_def by metis
qed

lemma poolsDo_one:
  assumes "poolsDo f as s = Inr s'" and "\<And>w w'. f w = Inr w' \<Longrightarrow> mBufferFormat w' = mBufferFormat w" and "one_pool s"
  shows "one_pool s'"
  using assms(1,3)
proof (induction as arbitrary: s)
  case (Cons a as)
  obtain y s1 where x: "onPool a (\<lambda>w. bindE (f w) (\<lambda>w'. Inr ((), w'))) s = Inr (y, s1)" "poolsDo f as s1 = Inr s'"
    using Cons.prems(1) unfolding poolsDo.simps by (rule bind_pairE)
  have "keepsFormat (\<lambda>w. bindE (f w) (\<lambda>w'. Inr ((), w')))" using assms(2) by (auto simp: keepsFormat_def bindE_eq_Inr)
  then show ?case by (rule Cons.IH [OF x(2) onPool_one [OF x(1) _ Cons.prems(2)]])
qed simp

lemma askPools_one:
  assumes "askPools env ae fmt as out s = Inr (r, s')" and "one_pool s"
  shows "one_pool s'"
  using assms
proof (induction as arbitrary: out s)
  case (Cons a as)
  obtain w where w: "sm_at (mBufferQueueWrapperSet s) a = Inr w" using Cons.prems by (cases "sm_at (mBufferQueueWrapperSet s) a") auto
  show ?case
  proof (cases "isMatchFormat (mBufferFormat w) fmt")
    case True
    then have "bindE (onPool a (dequeueBuffer env (poolAnswers ae a)) s) (\<lambda>(i, s1). askPools env ae fmt as (Some i) s1) = Inr (r, s')"
      using Cons.prems(1) w by simp
    then obtain i s1 where x: "onPool a (dequeueBuffer env (poolAnswers ae a)) s = Inr (i, s1)" "askPools env ae fmt as (Some i) s1 = Inr (r, s')"
      by (rule bind_pairE)
    show ?thesis by (rule Cons.IH [OF x(2) onPool_one [OF x(1) dequeueBuffer_format Cons.prems(2)]])
  next
    case False
    then show ?thesis using Cons.IH Cons.prems w by simp
  qed
qed simp

text \<open>Pools of other formats are passed over, and no answer means no pool of the format.\<close>

lemma askPools_skip:
  "(\<And>b. b \<in> set as \<Longrightarrow> \<exists>v. sm_find (mBufferQueueWrapperSet s) b = Some v \<and> \<not> isMatchFormat (mBufferFormat v) fmt) \<Longrightarrow>
     askPools env ae fmt (as @ bs) out s = askPools env ae fmt bs out s"
proof (induction as)
  case (Cons a as)
  obtain v where "sm_find (mBufferQueueWrapperSet s) a = Some v" "\<not> isMatchFormat (mBufferFormat v) fmt" using Cons.prems by auto
  then show ?case using Cons by (simp add: sm_at_def)
qed simp

lemma askPools_Some: "askPools env ae fmt as (Some i) s = Inr (r, s') \<Longrightarrow> r \<noteq> None"
  by (induction as arbitrary: i s) (auto simp: bindE_eq_Inr split: if_splits)

lemma askPools_None:
  "askPools env ae fmt as None s = Inr (None, s') \<Longrightarrow> s' = s \<and>
     (\<forall>a \<in> set as. \<forall>w. sm_find (mBufferQueueWrapperSet s) a = Some w \<longrightarrow> \<not> isMatchFormat (mBufferFormat w) fmt)"
proof (induction as)
  case (Cons a as)
  obtain w where w: "sm_find (mBufferQueueWrapperSet s) a = Some w"
    using Cons.prems by (cases "sm_find (mBufferQueueWrapperSet s) a") (auto simp: sm_at_def)
  have "\<not> isMatchFormat (mBufferFormat w) fmt"
    using Cons.prems w by (auto simp: sm_at_def bindE_eq_Inr dest: askPools_Some)
  then show ?case using Cons w by (simp add: sm_at_def)
qed simp

lemma match_iff: "isMatchFormat w f \<longleftrightarrow> (fwidth w, fheight w, fformat w) = (fwidth f, fheight f, fformat f)"
  by (simp add: isMatchFormat_def)

lemma one_pool_frame: "mBufferQueueWrapperSet t = mBufferQueueWrapperSet s \<Longrightarrow> one_pool t = one_pool s"
  by (simp add: one_pool_def)

lemma one_pool_add:
  assumes "one_pool s" and "\<And>b v. sm_find (mBufferQueueWrapperSet s) b = Some v \<Longrightarrow> \<not> isMatchFormat (mBufferFormat v) (mBufferFormat w)"
    and "mBufferQueueWrapperSet t = sm_set a w (mBufferQueueWrapperSet s)"
  shows "one_pool t"
proof -
  have "\<not> isMatchFormat (mBufferFormat w) (mBufferFormat v)" if "sm_find (mBufferQueueWrapperSet s) b = Some v" for b v
    using assms(2) [OF that] by (auto simp: match_iff)
  then show ?thesis using assms unfolding one_pool_def by (auto simp: sm_wf_set split: if_splits)
qed

lemma acquireInternal_one:
  assumes "acquireInternal env ae fmt s = Inr (out, s')" and "one_pool s"
  shows "one_pool s'"
proof -
  let ?as = "map fst (mBufferQueueWrapperSet s)"
  obtain r s1 where ask: "askPools env ae fmt ?as None s = Inr (r, s1)"
    using assms by (cases "askPools env ae fmt ?as None s") (auto simp: acquireInternal_def)
  have one1: "one_pool s1" by (rule askPools_one [OF ask assms(2)])
  show ?thesis
  proof (cases r)
    case (Some i)
    then show ?thesis using assms(1) ask one1 by (simp add: acquireInternal_def)
  next
    case None
    let ?s2 = "s1\<lparr>mBufferWraperCount := mBufferWraperCount s1 + 1\<rparr>" and ?a = "newPool ae"
    have none: "s1 = s" "\<And>a w. sm_find (mBufferQueueWrapperSet s) a = Some w \<Longrightarrow> \<not> isMatchFormat (mBufferFormat w) fmt"
      using askPools_None [OF ask [unfolded None]] by (simp, metis sm_find_None_iff option.distinct(1) set_map)
    let ?c = "wrapper_create env (poolAnswers ae ?a) fmt (mBufferWraperCount s1) (newManager ae) ((newPoolMemory ae)\<lparr>wimages := simages ?s2\<rparr>)"
    obtain w where c: "?c = Inr w"
      using assms(1) ask None unfolding acquireInternal_def Let_def by (cases ?c) auto
    show ?thesis
    proof (cases w)
      case None
      then have "s' = ?s2" using assms(1) ask \<open>r = None\<close> c unfolding acquireInternal_def Let_def by simp
      then show ?thesis using one1 one_pool_frame [of ?s2 s1] by simp
    next
      case (Some w1)
      let ?w = "setBufferThresholdValue (mBufferThresholdValue (sgraph ?s2)) w1"
      let ?s3 = "?s2\<lparr>mBufferQueueWrapperSet := sm_set ?a ?w (mBufferQueueWrapperSet ?s2), simages := wimages w1\<rparr>"
      have f: "mBufferFormat ?w = fmt" using wrapper_create_format c Some by (simp add: setBufferThresholdValue_def)
      have "onPool ?a (\<lambda>w. bindE (dequeueBuffer env (poolAnswers ae ?a) w) (\<lambda>(i, w'). Inr (Some i, w'))) ?s3 = Inr (out, s')"
        using assms(1) ask \<open>r = None\<close> c Some unfolding acquireInternal_def Let_def by simp
      moreover have "keepsFormat (\<lambda>w. bindE (dequeueBuffer env (poolAnswers ae ?a) w) (\<lambda>(i, w'). Inr (Some i, w')))"
        using dequeueBuffer_format unfolding keepsFormat_def by (auto elim!: bind_pairE)
      moreover have "one_pool ?s3"
        using none f by (intro one_pool_add [OF one1, of ?w _ ?a]) simp_all
      ultimately show ?thesis by (rule onPool_one)
    qed
  qed
qed

lemma acquire_one:
  assumes "acquireOutputBuffer env se ae fmt ts port ty s = Inr (out, s')" and "one_pool s"
  shows "one_pool s'"
proof -
  let ?m = "if ty \<noteq> MI_IMG_INTERNAL then acquireExternal env se ae fmt ts port ty s else acquireInternal env ae fmt s"
  obtain r s1 where m: "?m = Inr (r, s1)" using assms(1) by (cases ?m) (auto simp: acquireOutputBuffer_def)
  have "s' = s1" using assms(1) m by (auto simp: acquireOutputBuffer_def split: option.splits if_splits)
  moreover have "one_pool s1"
  proof (cases "ty = MI_IMG_INTERNAL")
    case True
    then show ?thesis using acquireInternal_one m assms(2) by simp
  next
    case False
    then have "acquireExternal env se ae fmt ts port ty s = Inr (r, s1)" using m by simp
    then have "mBufferQueueWrapperSet s1 = mBufferQueueWrapperSet s"
      unfolding acquireExternal_def by (auto simp: bindE_eq_Inr setImage_def split: prod.splits option.splits)
    then show ?thesis using one_pool_frame assms(2) by blast
  qed
  ultimately show ?thesis by simp
qed

lemma release_one:
  assumes "session_releaseBuffer i c s = Inr s'" and "one_pool s"
  shows "one_pool s'"
proof (cases "imType (simages s i) = MI_IMG_INTERNAL \<and> matchingPool (mFormat (simages s i)) s \<noteq> None")
  case True
  then obtain a where "matchingPool (mFormat (simages s i)) s = Some a" by blast
  then obtain x where "onPool a (\<lambda>w. bindE (enqueueBuffer i w) (\<lambda>w'. Inr ((), w'))) s = Inr (x, s')"
    using assms(1) True by (auto simp: session_releaseBuffer_def elim!: bind_pairE)
  moreover have "keepsFormat (\<lambda>w. bindE (enqueueBuffer i w) (\<lambda>w'. Inr ((), w')))"
    by (auto simp: keepsFormat_def bindE_eq_Inr dest: enqueueBuffer_images)
  ultimately show ?thesis by (rule onPool_one [OF _ _ assms(2)])
next
  case False
  have "mBufferQueueWrapperSet (giveBack i t) = mBufferQueueWrapperSet t" "mBufferQueueWrapperSet (deliverResults i t) = mBufferQueueWrapperSet t" for t
    by (simp_all add: giveBack_def deliverResults_def event_def setImage_def Let_def split: prod.splits option.splits)
  then have "mBufferQueueWrapperSet s' = mBufferQueueWrapperSet s"
    using False assms(1) by (auto simp: session_releaseBuffer_def split: MiaImageType.splits option.splits if_splits)
  then show ?thesis using one_pool_frame assms(2) by blast
qed

text \<open>A frame touches the pools only when memory is reclaimed.\<close>

definition poolsView :: "session \<Rightarrow> (nat, BufferQueueWrapper) std_map" where
  "poolsView s = mBufferQueueWrapperSet s"

lemma poolsView_update [simp]:
  "poolsView (event e s) = poolsView s" "poolsView (setImage i im s) = poolsView s"
  "poolsView (onResultComing ty f t d s) = poolsView s" "poolsView (moveToIdleQueue p s) = poolsView s"
  "poolsView (increaseUsingThreadNum n s) = poolsView s" "poolsView (enterPipeline q fr im s) = poolsView s"
  "poolsView (rememberRequest a k s) = poolsView s" "poolsView (snd (forExif env se im ex s)) = poolsView s"
  by (simp_all add: poolsView_def event_def setImage_def onResultComing_def moveToIdleQueue_def increaseUsingThreadNum_def
      enterPipeline_def rememberRequest_def forExif_def Let_def split: MiaResultCbType.splits option.splits prod.splits)

lemma poolsView_join: "joinRequest env se im b s = Inr (p, s') \<Longrightarrow> poolsView s' = poolsView s"
proof -
  assume j: "joinRequest env se im b s = Inr (p, s')"
  then obtain r where r: "sm_find (mInputNotEnoughPipe s) (mImageName im) = Some r"
    by (cases "sm_find (mInputNotEnoughPipe s) (mImageName im)") (auto simp: joinRequest_def)
  obtain ex s1 where e: "forExif env se im (countFrame (rqExif r)) s = (ex, s1)" by fastforce
  then have "poolsView s1 = poolsView s" using poolsView_update(8) by (metis snd_conv)
  then show ?thesis using j r e by (auto simp: joinRequest_def Let_def poolsView_def split: option.splits)
qed

lemma poolsView_begin: "beginPipeline env se q fr im fmt s = Inr s' \<Longrightarrow> poolsView s' = poolsView s"
proof -
  assume "beginPipeline env se q fr im fmt s = Inr s'"
  then obtain s1 where "bindE (if Soc env = QCOM
      then bindE (getFaceExifInfo env (floats se) (mMetadata im) (fwidth fmt) (fheight fmt)) (\<lambda>text.
             Inr (onResultComing MIA_META_CALLBACK (ucast (mFrameNum im)) (mTimestamp im) text (enterPipeline q fr im s)))
      else Inr (enterPipeline q fr im s)) (\<lambda>s1. Inr s1) = Inr s1" and s': "s' = s1\<lparr>mSessionRequestCnt := mSessionRequestCnt s1 + 1\<rparr>"
    unfolding beginPipeline_def bindE_eq_Inr by blast
  then have "poolsView s1 = poolsView s" by (auto simp: bindE_eq_Inr split: if_splits)
  then show ?thesis using s' by (simp add: poolsView_def)
qed

lemma poolsView_requestOf:
  assumes "requestOf env se q fr im fmt n s = Inr (x, s')"
  shows "poolsView s' = poolsView s"
proof (cases "sm_find (mInputNotEnoughPipe s) (mImageName im)")
  case None
  show ?thesis
  proof (cases "n = 0")
    case True
    then show ?thesis using assms None by (simp add: requestOf_def)
  next
    case False
    let ?b = "beginPipeline env se q fr im fmt (rememberRequest (mImageName im) n s)"
    obtain s1 where b: "?b = Inr s1" using assms None False by (cases ?b) (auto simp: requestOf_def)
    have "poolsView s1 = poolsView s" using poolsView_begin [OF b] by simp
    then show ?thesis
      using assms None False b by (auto simp: requestOf_def dest: poolsView_join elim!: bind_pairE split: if_splits)
  qed
next
  case (Some r)
  then show ?thesis using assms by (auto simp: requestOf_def dest: poolsView_join elim!: bind_pairE)
qed

lemma poolsView_keep: "keepOutputFrame env se i params s = Inr s' \<Longrightarrow> poolsView s' = poolsView s"
  by (auto simp: keepOutputFrame_def bindE_eq_Inr poolsView_def setImage_def split: option.splits if_splits)

lemma poolsView_onPipe: "onPipe p f s = Inr s' \<Longrightarrow> poolsView s' = poolsView s"
  by (auto simp: onPipe_def bindE_eq_Inr poolsView_def)

lemma serveFrame_pools:
  assumes "serveFrame env se ids params s = Inr (result, request, s')"
  shows "\<exists>t. poolsView t = poolsView s \<and> (s' = t \<or> memoryMonitor t = Inr s')"
proof (cases params)
  case None
  then show ?thesis using assms by (auto simp: serveFrame_def)
next
  case (Some ps)
  let ?k = "keepOutputFrame env se (sinkId ids) ps s"
  obtain s0 where k: "?k = Inr s0" using assms Some by (cases ?k) (auto simp: serveFrame_def)
  note v0 = poolsView_keep [OF k]
  show ?thesis
  proof (cases "pp_inputFrame ps")
    case None
    then show ?thesis using assms Some k v0 by (auto simp: serveFrame_def)
  next
    case (Some x)
    obtain fr md phy where x: "x = (fr, md, phy)" by (cases x)
    obtain port im where n: "newSourceImage env se fr md phy (mSelectedPipelineName (sgraph s0)) = Inr (port, im)"
      and rest: "bindE (requestOf env se (pipeId ids) fr im (mFormat im) (mTotalReqNum im) (setImage (sourceId ids) im s0)) (\<lambda>(r, s1).
                case r of
                  None \<Rightarrow> Inr (MIAS_INVALID_PARAM, None, s1)
                | Some None \<Rightarrow> Inl NullDeref
                | Some (Some p) \<Rightarrow>
                    bindE (onPipe p (\<lambda>pl. Inr (offerImage (sourceId ids) im port pl)) s1) (\<lambda>s2.
                    let request = Some (mImageName im, mTotalReqNum im, p)
                    in if mDefaultReclaimCnt (sgraph s2) = 0 then Inl DivByZero
                       else if mSessionRequestCnt s2 mod mDefaultReclaimCnt (sgraph s2) = 0
                       then bindE (memoryMonitor s2) (\<lambda>s3. Inr (MIAS_OK, request, s3))
                       else Inr (MIAS_OK, request, s2))) = Inr (result, request, s')"
      using assms \<open>params = Some ps\<close> k Some x by (auto simp: serveFrame_def elim!: bind_pairE)
    obtain r s1 where q: "requestOf env se (pipeId ids) fr im (mFormat im) (mTotalReqNum im) (setImage (sourceId ids) im s0) = Inr (r, s1)"
      using rest by (rule bind_pairE)
    have v1: "poolsView s1 = poolsView s" using poolsView_requestOf [OF q] v0 by simp
    show ?thesis
    proof (cases r)
      case None
      then show ?thesis using rest q v1 by auto
    next
      case (Some rp)
      then obtain p where p: "r = Some (Some p)" using rest q by (cases rp) auto
      let ?o = "onPipe p (\<lambda>pl. Inr (offerImage (sourceId ids) im port pl)) s1"
      obtain s2 where o: "?o = Inr s2" using rest q p by (cases ?o) auto
      have "poolsView s2 = poolsView s" using poolsView_onPipe [OF o] v1 by simp
      then show ?thesis using rest q p o by (auto simp: Let_def bindE_eq_Inr split: if_splits)
    qed
  qed
qed

lemma memoryMonitor_one: "memoryMonitor s = Inr s' \<Longrightarrow> one_pool s \<Longrightarrow> one_pool s'"
  unfolding memoryMonitor_def by (rule poolsDo_one) (auto dest: clearOut_format)

fun pools_start :: "session \<times> session_log \<Rightarrow> bool" where
  "pools_start (s, log) \<longleftrightarrow> mBufferQueueWrapperSet s = []"

fun pools_ok :: "session \<times> session_log \<Rightarrow> bool" where
  "pools_ok (s, log) \<longleftrightarrow> one_pool s"

lemma poolsView_one: "poolsView t = poolsView s \<Longrightarrow> one_pool s \<Longrightarrow> one_pool t"
  using one_pool_frame [of t s] by (simp add: poolsView_def)

lemma serveFrame_one: "serveFrame env se ids params s = Inr (result, request, s') \<Longrightarrow> one_pool s \<Longrightarrow> one_pool s'"
  using serveFrame_pools memoryMonitor_one poolsView_one by blast

lemma flush_pools: "flushPipelines b ps s = Inr s' \<Longrightarrow> poolsView s' = poolsView s"
  by (induction ps arbitrary: s) (auto simp: bindE_eq_Inr dest: poolsView_onPipe)

lemma quick_pools: "session_quickFinish f b s = Inr (r, s') \<Longrightarrow> poolsView s' = poolsView s"
  by (auto simp: session_quickFinish_def bindE_eq_Inr dest: poolsView_onPipe split: option.splits)

lemma pools_step_ok: "session_step env se x y \<Longrightarrow> pools_ok x \<Longrightarrow> pools_ok y"
proof (induction rule: session_step.induct)
  case (acquire ae format timestamp port ty s out s' log)
  then show ?case using acquire_one by simp
next
  case (release i complete s s' log)
  then show ?case using release_one by simp
next
  case (flush isForced s s' log)
  then show ?case using flush_pools poolsView_one unfolding session_flush_def by fastforce
next
  case (quick f needImage s r s' log)
  then show ?case using quick_pools poolsView_one by fastforce
next
  case (work s p pln log)
  then show ?case using poolsView_one [of "s\<lparr>pipes := (pipes s)(p := pln), simages := pimages pln\<rparr>" s] by (simp add: poolsView_def)
qed (auto dest: serveFrame_one intro: poolsView_one [rotated])

interpretation session_pools: invariant_system pools_start "session_step env se" pools_ok for env se
proof unfold_locales
  fix x
  assume "pools_start x"
  then show "pools_ok x" by (cases x) (simp add: one_pool_def sm_wf_def)
next
  fix x y
  assume "pools_ok x" and "session_step env se x y"
  then show "pools_ok y" using pools_step_ok by blast
qed

lemma matchingPool_None:
  "sm_wf (mBufferQueueWrapperSet s) \<Longrightarrow> matchingPool fmt s = None \<longleftrightarrow>
     (\<forall>a w. sm_find (mBufferQueueWrapperSet s) a = Some w \<longrightarrow> \<not> isMatchFormat (mBufferFormat w) fmt)"
  using sm_entries_find [of "mBufferQueueWrapperSet s"] by (auto simp: matchingPool_def find_None_iff)

lemma matchingPool_Some:
  assumes "sm_wf (mBufferQueueWrapperSet s)" and "matchingPool fmt s = Some a"
  shows "\<exists>w. sm_find (mBufferQueueWrapperSet s) a = Some w \<and> isMatchFormat (mBufferFormat w) fmt"
proof -
  obtain w where "find (\<lambda>(_, w). isMatchFormat (mBufferFormat w) fmt) (mBufferQueueWrapperSet s) = Some (a, w)"
    using assms(2) by (auto simp: matchingPool_def)
  then have "(a, w) \<in> set (mBufferQueueWrapperSet s)" and "isMatchFormat (mBufferFormat w) fmt"
    unfolding find_Some_iff by (auto simp: in_set_conv_nth)
  then show ?thesis using sm_entries_find [OF assms(1)] by blast
qed

lemma sm_find_key: "a \<in> set (map fst m) \<Longrightarrow> \<exists>w. sm_find m a = Some w"
  using sm_find_None_iff [of m a] by (cases "sm_find m a") auto

lemma askPools_single:
  assumes one: "one_pool s" and a: "sm_find (mBufferQueueWrapperSet s) a = Some w" and m: "isMatchFormat (mBufferFormat w) fmt"
  shows "askPools env ae fmt (map fst (mBufferQueueWrapperSet s)) None s =
    bindE (onPool a (dequeueBuffer env (poolAnswers ae a)) s) (\<lambda>(i, s1). Inr (Some i, s1))"
proof -
  let ?m = "mBufferQueueWrapperSet s"
  have "sm_wf ?m" using one by (simp add: one_pool_def)
  then have d: "distinct (map fst ?m)" by (simp add: sm_wf_def strict_sorted_iff)
  have "a \<in> set (map fst ?m)" using a sm_find_None_iff [of ?m a] by (metis option.distinct(1) set_map)
  then obtain as bs where split: "map fst ?m = as @ a # bs" by (meson split_list)
  have others: "\<exists>v. sm_find ?m b = Some v \<and> \<not> isMatchFormat (mBufferFormat v) fmt" if "b \<in> set as \<union> set bs" for b
  proof -
    have "b \<noteq> a" using that d unfolding split by auto
    have "b \<in> set (map fst ?m)" using that unfolding split by auto
    then obtain v where v: "sm_find ?m b = Some v" using sm_find_key [of b ?m] by auto
    have "isMatchFormat (mBufferFormat w) (mBufferFormat v) \<Longrightarrow> a = b" using one a v by (simp add: one_pool_def)
    then show ?thesis using v m \<open>b \<noteq> a\<close> by (auto simp: match_iff)
  qed
  have rest: "askPools env ae fmt bs (Some i) s1 = Inr (Some i, s1)"
    if p: "onPool a (dequeueBuffer env (poolAnswers ae a)) s = Inr (i, s1)" for i s1
  proof -
    have "\<exists>v. sm_find (mBufferQueueWrapperSet s1) b = Some v \<and> \<not> isMatchFormat (mBufferFormat v) fmt" if "b \<in> set bs" for b
      using onPool_formats [OF p dequeueBuffer_format, of b] others [of b] that by (cases "sm_find (mBufferQueueWrapperSet s1) b") auto
    then show ?thesis using askPools_skip [of bs s1 fmt env ae "[]" "Some i"] by simp
  qed
  have "askPools env ae fmt (map fst ?m) None s = askPools env ae fmt (a # bs) None s"
    unfolding split by (rule askPools_skip) (use others in blast)
  also have "\<dots> = bindE (onPool a (dequeueBuffer env (poolAnswers ae a)) s) (\<lambda>(i, s1). askPools env ae fmt bs (Some i) s1)"
    using a m by (simp add: sm_at_def)
  also have "\<dots> = bindE (onPool a (dequeueBuffer env (poolAnswers ae a)) s) (\<lambda>(i, s1). Inr (Some i, s1))"
    using rest by (cases "onPool a (dequeueBuffer env (poolAnswers ae a)) s") (auto split: prod.splits)
  finally show ?thesis .
qed

text \<open>C18: In every execution of a session there is at most one pool of a format, so that asking every pool of the format for an
  image, which would lose all but the last one got, asks exactly the pool the image goes back to later, and none if there is
  none.\<close>

theorem pool_of_format:
  assumes "pools_start start" and "(session_step env se)\<^sup>*\<^sup>* start (s, log)"
  shows "askPools env ae fmt (map fst (mBufferQueueWrapperSet s)) None s =
    (case matchingPool fmt s of
       None \<Rightarrow> Inr (None, s)
     | Some a \<Rightarrow> bindE (onPool a (dequeueBuffer env (poolAnswers ae a)) s) (\<lambda>(i, s1). Inr (Some i, s1)))"
proof -
  have one: "one_pool s" using session_pools.reachable_inv [OF assms] by simp
  then have wf: "sm_wf (mBufferQueueWrapperSet s)" by (simp add: one_pool_def)
  show ?thesis
  proof (cases "matchingPool fmt s")
    case None
    have "\<exists>v. sm_find (mBufferQueueWrapperSet s) b = Some v \<and> \<not> isMatchFormat (mBufferFormat v) fmt"
      if "b \<in> set (map fst (mBufferQueueWrapperSet s))" for b
      using sm_find_key [OF that] None matchingPool_None [OF wf, of fmt] by auto
    then show ?thesis using None askPools_skip [of "map fst (mBufferQueueWrapperSet s)" s fmt env ae "[]" None] by simp
  next
    case (Some a)
    then obtain w where "sm_find (mBufferQueueWrapperSet s) a = Some w" "isMatchFormat (mBufferFormat w) fmt"
      using matchingPool_Some [OF wf] by blast
    from askPools_single [OF one this] show ?thesis using Some by simp
  qed
qed

text \<open>The session has handed out the first image of a new pool.\<close>

definition pool_session :: session where
  "pool_session = quiet_session\<lparr>simages := wimages blank_wrapper\<rparr>"

definition first_ask :: acquire_env where
  "first_ask = \<lparr>poolAnswers = (\<lambda>_. pool_env_answers), newPool = 3, newPoolMemory = blank_wrapper, newManager = fresh_bm, newImage = 0,
     junkMember = 0, getBufferAnswer = (0, None)\<rparr>"

lemma first_acquire:
  "\<exists>out s w. acquireOutputBuffer qcom_env frame_senv first_ask nv12_64 0 0 MI_IMG_INTERNAL pool_session = Inr (out, s) \<and>
     mBufferQueueWrapperSet s = [(3, w)] \<and> isMatchFormat (mBufferFormat w) nv12_64"
proof -
  have c: "wrapper_create qcom_env pool_env_answers nv12_64 0 fresh_bm blank_wrapper = Inr (Some pool0)"
  proof -
    have "(case wrapper_create qcom_env pool_env_answers nv12_64 0 fresh_bm blank_wrapper of Inr (Some w) \<Rightarrow> True | _ \<Rightarrow> False)"
      by code_simp
    then show ?thesis by (auto simp: pool0_def split: sum.splits option.splits)
  qed
  have f: "mBufferFormat pool0 = nv12_64" by (rule wrapper_create_format [OF c])
  have p: "mBufferQueueWrapperSet pool_session = []" "mBufferWraperCount pool_session = 0" "simages pool_session = wimages blank_wrapper"
    by (simp_all add: pool_session_def quiet_session_def new_session_def)
  have "\<exists>out s w. acquireInternal qcom_env first_ask nv12_64 pool_session = Inr (out, s) \<and>
      mBufferQueueWrapperSet s = [(3, w)] \<and> isMatchFormat (mBufferFormat w) nv12_64"
    using pool0_queue c f
    by (simp add: acquireInternal_def p first_ask_def onPool_def sm_at_def setBufferThresholdValue_def dequeueBuffer_def tsq_isEmpty_def
        waitAndPop_def popFront_def isMatchFormat_def)
  then obtain out s w where a: "acquireInternal qcom_env first_ask nv12_64 pool_session = Inr (out, s)"
    "mBufferQueueWrapperSet s = [(3, w)]" "isMatchFormat (mBufferFormat w) nv12_64" by blast
  then show ?thesis by (auto simp: acquireOutputBuffer_def split: option.splits)
qed

theorem pool_of_format_witness:
  "\<exists>s. (session_step qcom_env frame_senv)\<^sup>*\<^sup>* (pool_session, []) (s, []) \<and>
    askPools qcom_env first_ask nv12_64 (map fst (mBufferQueueWrapperSet s)) None s =
      bindE (onPool 3 (dequeueBuffer qcom_env (poolAnswers first_ask 3)) s) (\<lambda>(i, s1). Inr (Some i, s1))"
proof -
  obtain out s w where a: "acquireOutputBuffer qcom_env frame_senv first_ask nv12_64 0 0 MI_IMG_INTERNAL pool_session = Inr (out, s)"
    "mBufferQueueWrapperSet s = [(3, w)]" "isMatchFormat (mBufferFormat w) nv12_64" using first_acquire by blast
  have r: "(session_step qcom_env frame_senv)\<^sup>*\<^sup>* (pool_session, []) (s, [])" using session_step.acquire [OF a(1)] by blast
  have "pools_start (pool_session, [])" by (simp add: pool_session_def quiet_session_def new_session_def)
  moreover have "matchingPool nv12_64 s = Some 3" using a by (simp add: matchingPool_def)
  ultimately show ?thesis using pool_of_format [OF _ r, of first_ask nv12_64] r by auto
qed

subsection \<open>Images given back\<close>

lemma wrapped_pool: "wrapped (formats s) im \<longleftrightarrow> matchingPool (mFormat im) s \<noteq> None"
proof -
  have "wrapped (formats s) im \<longleftrightarrow> (\<exists>x \<in> set (mBufferQueueWrapperSet s). (\<lambda>(_, w). isMatchFormat (mBufferFormat w) (mFormat im)) x)"
    by (auto simp: wrapped_def formats_def list_ex_iff split: prod.splits)
  then show ?thesis by (auto simp: matchingPool_def find_None_iff)
qed

lemma onPool_images:
  assumes "onPool a (\<lambda>w. bindE (enqueueBuffer i w) (\<lambda>w'. Inr ((), w'))) s = Inr (x, s')"
  shows "simages s' = (simages s)(i := snd (decreaseUseCount (simages s i)))"
  using assms by (auto simp: onPool_def bindE_eq_Inr dest!: enqueueBuffer_images)

text \<open>C19: What a pipeline takes \<open>releaseBuffer\<close> of the session to be is what it does to the images: the pipeline's half of the
  contract refines the session's, with the pools, whatever pipeline asks.\<close>

theorem release_refines:
  assumes "session_releaseBuffer i complete s = Inr s'"
  shows "simages s' = pimages (releaseBuffer i complete (pipeView s p))"
proof -
  have give: "simages (giveBack i t) = pimages (releaseBuffer i complete (pipeView s p))"
    if "simages t = simages s" and "imType (simages s i) \<noteq> MI_IMG_INTERNAL" for t
    using that by (auto simp: giveBack_def releaseBuffer_def pipeView_def decreaseUseCount_def call_def event_def setImage_def Let_def
        split: prod.splits)
  have deliver: "simages (deliverResults i s) = simages s" by (simp add: deliverResults_def event_def split: option.splits)
  show ?thesis
  proof (cases "imType (simages s i)")
    case MI_IMG_INTERNAL
    show ?thesis
    proof (cases "matchingPool (mFormat (simages s i)) s")
      case None
      then show ?thesis
        using assms MI_IMG_INTERNAL wrapped_pool [of s "simages s i"]
        by (simp add: session_releaseBuffer_def releaseBuffer_def pipeView_def call_def decreaseUseCount_def Let_def)
    next
      case (Some a)
      then obtain x where "onPool a (\<lambda>w. bindE (enqueueBuffer i w) (\<lambda>w'. Inr ((), w'))) s = Inr (x, s')"
        using assms MI_IMG_INTERNAL by (auto simp: session_releaseBuffer_def elim!: bind_pairE)
      then show ?thesis
        using onPool_images Some MI_IMG_INTERNAL wrapped_pool [of s "simages s i"]
        by (simp add: releaseBuffer_def pipeView_def call_def decreaseUseCount_def Let_def)
    qed
  qed (use assms give deliver in \<open>auto simp: session_releaseBuffer_def\<close>)
qed

theorem release_refines_witness:
  "simages (giveBack 0 sink_session) = pimages (releaseBuffer 0 True (pipeView sink_session 5))"
proof (rule release_refines)
  show "session_releaseBuffer 0 True sink_session = Inr (giveBack 0 sink_session)"
    by (simp add: session_releaseBuffer_def sink_session_def blankImage_def deliverResults_def quiet_session_def new_session_def)
qed

subsection \<open>Flushed requests\<close>

text \<open>A flushed pipeline has shut the queues of its source ports.\<close>

definition shutPipe :: "Pipeline \<Rightarrow> bool" where
  "shutPipe st \<longleftrightarrow> mFlushStatus st = ForcedFlush \<and> (\<forall>(p, q) \<in> set (mSourceBufferQueueMap st). mRelease q)"

definition sourcePorts :: "Pipeline \<Rightarrow> u32 list" where
  "sourcePorts st = map fst (mSourceBufferQueueMap st)"

lemma quickFinishNode_sources:
  assumes "quickFinishNode n st = Inr st'"
  shows "mFlushStatus st' = mFlushStatus st \<and> mSourceBufferQueueMap st' = mSourceBufferQueueMap st"
proof -
  obtain bs where bs: "sm_at (mBuffers st) n = Inr bs" using assms by (auto simp: quickFinishNode_def bindE_eq_Inr)
  then show ?thesis
    using assms by (cases "inputBuffers bs") (auto simp: quickFinishNode_def q_put_def call_def Let_def)
qed

lemma quickFinishNodes_sources:
  "quickFinishNodes ns st = Inr st' \<Longrightarrow>
     mFlushStatus st' = mFlushStatus st \<and> mSourceBufferQueueMap st' = mSourceBufferQueueMap st"
  by (induction ns arbitrary: st) (auto simp: bindE_eq_Inr dest!: quickFinishNode_sources)

lemma quickFinish_shuts:
  assumes "pl_quickFinish False st = Inr st'"
  shows "shutPipe st' \<and> sourcePorts st' = sourcePorts st"
proof -
  let ?st = "st\<lparr>mFlushStatus := ForcedFlush, mSourceBufferQueueMap := map (\<lambda>(p, q). (p, releaseQueue q)) (mSourceBufferQueueMap st)\<rparr>"
  have "quickFinishNodes (mCurrentProcessNodes ?st) ?st = Inr st'" using assms by (simp add: pl_quickFinish_def)
  then show ?thesis
    using quickFinishNodes_sources [of "mCurrentProcessNodes ?st" ?st st']
    by (auto simp: shutPipe_def sourcePorts_def releaseQueue_def comp_def split_def)
qed

lemma onPipe_pipes:
  assumes "onPipe p f s = Inr s'"
  obtains pl' where "f (pipeView s p) = Inr pl'" and "pipes s' = (pipes s)(p := pl')"
  using assms by (auto simp: onPipe_def bindE_eq_Inr)

lemma flushPipelines_shut:
  "flushPipelines isForced ps s = Inr s' \<Longrightarrow>
     (\<forall>p. p \<in> set ps \<or> shutPipe (pipes s p) \<longrightarrow> shutPipe (pipes s' p)) \<and>
     (\<forall>p. sourcePorts (pipes s' p) = sourcePorts (pipes s p))"
proof (induction ps arbitrary: s)
  case (Cons r ps)
  obtain s1 where 1: "onPipe r (pl_flush isForced) s = Inr s1" "flushPipelines isForced ps s1 = Inr s'"
    using Cons.prems by (auto simp: bindE_eq_Inr)
  obtain x where x: "pl_quickFinish False (pipeView s r) = Inr x" "pipes s1 = (pipes s)(r := x)"
    using 1(1) by (auto simp: pl_flush_def elim: onPipe_pipes)
  have "sourcePorts (pipeView s r) = sourcePorts (pipes s r)" by (simp add: sourcePorts_def pipeView_def)
  then show ?case using quickFinish_shuts [OF x(1)] x(2) Cons.IH [OF 1(2)] by auto
qed simp

text \<open>Once a session has been flushed, a late frame for a source port of a request that was under way is not queued any more: the
  queues stay as they are and the image, which nobody else uses, goes back to the application at once.\<close>

theorem flush_refuses_frames:
  assumes "session_flush isForced s = Inr s'" and "p \<in> set (mBusyPipelines s)" and "port \<in> set (sourcePorts (pipes s p))"
    and "mUseCount im = 1" and "onPipe p (\<lambda>pl. Inr (offerImage i im port pl)) s' = Inr s''"
  shows "sm_find (mSourceBufferQueueMap (pipes s'' p)) = sm_find (mSourceBufferQueueMap (pipes s' p)) \<and>
    simages s'' = (simages s')(i := fst (releaseExternalFrame (im\<lparr>mUseCount := 0\<rparr>)))"
proof -
  have shut: "shutPipe (pipes s' p)" "sourcePorts (pipes s' p) = sourcePorts (pipes s p)"
    using flushPipelines_shut [OF assms(1) [unfolded session_flush_def]] assms(2) by blast+
  then obtain q where q: "sm_find (mSourceBufferQueueMap (pipes s' p)) port = Some q"
    using sm_find_key [of port "mSourceBufferQueueMap (pipes s' p)"] assms(3) by (auto simp: sourcePorts_def simp flip: set_map)
  have "(port, q) \<in> set (mSourceBufferQueueMap (pipes s' p))" by (rule sm_find_mem [OF q])
  then have "mRelease q" using shut(1) by (auto simp: shutPipe_def)
  then show ?thesis
    using assms(4,5) q
    by (auto simp: onPipe_def offerImage_def enqueueSourceImage_def sm_index_def tsq_push_def decreaseUseCount_def pipeView_def Let_def
        split: prod.splits if_splits)
qed

text \<open>A session with one request under way.\<close>

definition busy_session :: session where
  "busy_session = quiet_session\<lparr>mBusyPipelines := [4], pipes := (\<lambda>_. new_Pipeline [] 0 0 [0] (simages quiet_session) [])\<rparr>"

definition late_frame :: MiaImage where
  "late_frame = (blankImage MI_IMG_SOURCE nv12_64 0)\<lparr>mUseCount := 1\<rparr>"

theorem flush_refuses_frames_witness:
  "\<exists>s' s''. session_flush True busy_session = Inr s' \<and> onPipe 4 (\<lambda>pl. Inr (offerImage 9 late_frame 0 pl)) s' = Inr s'' \<and>
    mState (simages s'' 9) = MI_IMG_STATE_RELEASED"
proof -
  have "is_ok (session_flush True busy_session)" by code_simp
  then obtain s' where f: "session_flush True busy_session = Inr s'" by (auto simp: is_ok_iff)
  obtain s'' where o: "onPipe 4 (\<lambda>pl. Inr (offerImage 9 late_frame 0 pl)) s' = Inr s''" by (simp add: onPipe_def)
  have "4 \<in> set (mBusyPipelines busy_session)" "0 \<in> set (sourcePorts (pipes busy_session 4))" "mUseCount late_frame = 1"
    by (simp_all add: busy_session_def sourcePorts_def new_Pipeline_def sm_insert_def late_frame_def)
  from flush_refuses_frames [OF f this o]
  have "simages s'' 9 = fst (releaseExternalFrame (late_frame\<lparr>mUseCount := 0\<rparr>))" by simp
  moreover have "mState (fst (releaseExternalFrame (late_frame\<lparr>mUseCount := 0\<rparr>))) = MI_IMG_STATE_RELEASED" by code_simp
  ultimately show ?thesis using f o by metis
qed

end
