(* ===== verification/SessionPre.thy ===== *)
theory SessionPre
  imports Session Samples
begin

text \<open>
  Preparing the nodes before the first frame: \<open>MiaOfflineSession::preProcess\<close> and
  \<open>MiaNode::preProcess\<close> (\<^verbatim>\<open>mivifwk/mialgoengine/MiaOfflineSession.cpp\<close>, \<^verbatim>\<open>MiaNode.cpp\<close>).  From the
  formats of the session and the links of the raw pipeline every node is told the format of each of
  its ports; a task in a thread of the pool hands them to the plugin.
\<close>

type_synonym port_formats = "(u32, FrameInfo) std_map"

record MiaPreProcParams =
  preInputFormats :: port_formats
  preOutputFormats :: port_formats
  preMetadata :: metadata_ptr

record ImageFormat =
  if_format :: u32
  if_width :: u32
  if_height :: u32
  if_cameraId :: u32

record PreProcessInfo =
  pi_inputFormats :: "(u32, ImageFormat) std_map"
  pi_outputFormats :: "(u32, ImageFormat) std_map"
  pi_metadata :: metadata_ptr

text \<open>What plugins say of themselves, and whether statements of the debug level are evaluated.\<close>

record pre_env =
  supportsPre :: "string \<Rightarrow> bool"
  debugLogged :: bool

definition zero_format :: FrameInfo where
  "zero_format = \<lparr>fformat = 0, fwidth = 0, fheight = 0, planeStride = 0, sliceheight = 0, cameraId = 0\<rparr>"

subsection \<open>Ports and formats\<close>

text \<open>The number of ports so far and the formats the links give them; \<open>int\<close> and \<open>uint32_t\<close> are compared unsigned.\<close>

definition recordPort :: "int \<Rightarrow> u32 \<Rightarrow> u32 \<times> (int, u32) std_map \<Rightarrow> u32 \<times> (int, u32) std_map" where
  "recordPort port format = (\<lambda>(n, m). (if n < word_of_int (port + 1) then word_of_int (port + 1) else n, sm_set port format m))"

fun linkPorts ::
  "string \<Rightarrow> LinkItem list \<Rightarrow> (u32 \<times> (int, u32) std_map) \<times> (u32 \<times> (int, u32) std_map) \<Rightarrow>
     ((u32 \<times> (int, u32) std_map) \<times> (u32 \<times> (int, u32) std_map)) outcome" where
  "linkPorts inst [] (ins, outs) = Inr (ins, outs)"
| "linkPorts inst (link # ls) (ins, outs) =
     bindE (if dstNodeInstance link = inst
            then (case dstPortFormat link of [] \<Rightarrow> Inl BadIndex | f # _ \<Rightarrow> Inr (recordPort (dstNodePortId link) f ins))
            else Inr ins) (\<lambda>ins1.
       linkPorts inst ls
         (ins1, if srcNodeInstance link = inst then recordPort (srcNodePortId link) (srcPortFormat link) outs else outs))"

text \<open>
  The format of one port: that of the session for the port if there are enough of them, otherwise
  the first; the pixel format is that of the link.  \<open>operator[]\<close> inserts a key it does not find.
\<close>

definition formatOfPort :: "(int, u32) std_map \<Rightarrow> nat \<Rightarrow> port_formats \<Rightarrow> FrameInfo \<times> port_formats" where
  "formatOfPort ofLinks port given =
     (let key = (if port < length given then of_nat port else 0);
          given1 = sm_insert key zero_format given; f = sm_index zero_format given1 key
      in (case sm_find ofLinks (int port) of None \<Rightarrow> f | Some x \<Rightarrow> f\<lparr>fformat := x\<rparr>, given1))"

fun formatsOfPorts :: "(int, u32) std_map \<Rightarrow> nat list \<Rightarrow> port_formats \<Rightarrow> port_formats \<Rightarrow> port_formats \<times> port_formats" where
  "formatsOfPorts ofLinks [] given acc = (acc, given)"
| "formatsOfPorts ofLinks (port # ports) given acc =
     (case formatOfPort ofLinks port given of (f, given1) \<Rightarrow>
        formatsOfPorts ofLinks ports given1 (sm_set (of_nat port) f acc))"

subsection \<open>A node\<close>

definition toImageFormat :: "FrameInfo \<Rightarrow> ImageFormat" where
  "toImageFormat f = \<lparr>if_format = fformat f, if_width = fwidth f, if_height = fheight f, if_cameraId = cameraId f\<rparr>"

definition imageFormatsOf :: "port_formats \<Rightarrow> (u32, ImageFormat) std_map" where
  "imageFormatsOf m = map (\<lambda>(p, f). (p, toImageFormat f)) m"

text \<open>
  \<open>MiaNode::preProcess\<close>: the task handed to the thread pool, if there is one.  The log statement
  reads the formats of port 0 with \<open>operator[]\<close>.
\<close>

definition MiaNode_preProcess ::
  "pre_env \<Rightarrow> string \<Rightarrow> node_plugin \<Rightarrow> metadata_ptr \<Rightarrow> port_formats \<Rightarrow> port_formats \<Rightarrow> PreProcessInfo option outcome" where
  "MiaNode_preProcess pe inst plugin md inputs outputs =
     (case plugin of
        None \<Rightarrow> Inl NullDeref
      | Some isEnabled \<Rightarrow>
          if supportsPre pe inst \<and> isEnabled md then
            (let ins = (if debugLogged pe then sm_insert 0 zero_format inputs else inputs);
                 outs = (if debugLogged pe then sm_insert 0 zero_format outputs else outputs)
             in Inr (Some \<lparr>pi_inputFormats = imageFormatsOf ins, pi_outputFormats = imageFormatsOf outs, pi_metadata = md\<rparr>))
          else Inr None)"

text \<open>A virtual node overrides it with an empty body.\<close>

definition node_preProcess ::
  "pre_env \<Rightarrow> string \<Rightarrow> node_kind \<Rightarrow> node_plugin \<Rightarrow> metadata_ptr \<Rightarrow> port_formats \<Rightarrow> port_formats \<Rightarrow> PreProcessInfo option outcome" where
  "node_preProcess pe inst kind plugin md inputs outputs =
     (if kind = VirtualNode then Inr None else MiaNode_preProcess pe inst plugin md inputs outputs)"

subsection \<open>The session\<close>

fun preProcessNodes ::
  "pre_env \<Rightarrow> (string, node_plugin) std_map \<Rightarrow> LinkItem list \<Rightarrow> (string \<times> NodeItem) list \<Rightarrow> MiaPreProcParams \<Rightarrow>
     (MiaPreProcParams \<times> (string \<times> PreProcessInfo) list) outcome" where
  "preProcessNodes pe plgs ls [] params = Inr (params, [])"
| "preProcessNodes pe plgs ls ((inst, item) # rest) params =
     bindE (linkPorts inst ls ((0, []), (0, []))) (\<lambda>((inNum, inFormats), (outNum, outFormats)).
       let (ins, given1) = formatsOfPorts inFormats [0..<unat inNum] (preInputFormats params) [];
           (outs, given2) = formatsOfPorts outFormats [0..<unat outNum] (preOutputFormats params) [];
           params1 = params\<lparr>preInputFormats := given1, preOutputFormats := given2\<rparr>
       in case sm_find plgs inst of
            None \<Rightarrow> preProcessNodes pe plgs ls rest params1
          | Some plugin \<Rightarrow>
              bindE (node_preProcess pe inst (CreateNodeInstance (nodeMask item)) plugin (preMetadata params) ins outs) (\<lambda>task.
              bindE (preProcessNodes pe plgs ls rest params1) (\<lambda>(params2, tasks).
                Inr (params2, (case task of None \<Rightarrow> tasks | Some info \<Rightarrow> (inst, info) # tasks)))))"

definition session_preProcess ::
  "pre_env \<Rightarrow> MiaPreProcParams \<Rightarrow> session \<Rightarrow> (CDKResult \<times> MiaPreProcParams \<times> (string \<times> PreProcessInfo) list) outcome" where
  "session_preProcess pe params s =
     (case mPipelinePruner (sgraph s) of
        None \<Rightarrow> Inr (MIAS_INVALID_PARAM, params, [])
      | Some pr \<Rightarrow>
          let rawInfo = mRawPipeline pr
          in if nodes rawInfo = [] \<or> links rawInfo = [] then Inr (MIAS_INVALID_PARAM, params, [])
             else bindE (preProcessNodes pe (sgNodes (sgraph s)) (links rawInfo) (nodes rawInfo) params) (\<lambda>(params1, tasks).
                    Inr (MIAS_OK, params1, tasks)))"

subsection \<open>What the ports of a node are\<close>

fun numPorts :: "(LinkItem \<Rightarrow> string) \<Rightarrow> (LinkItem \<Rightarrow> int) \<Rightarrow> string \<Rightarrow> LinkItem list \<Rightarrow> nat" where
  "numPorts at port inst [] = 0"
| "numPorts at port inst (l # ls) = (if at l = inst then max (nat (port l + 1)) (numPorts at port inst ls) else numPorts at port inst ls)"

fun lastFormat :: "(LinkItem \<Rightarrow> string) \<Rightarrow> (LinkItem \<Rightarrow> int) \<Rightarrow> (LinkItem \<Rightarrow> u32) \<Rightarrow> string \<Rightarrow> LinkItem list \<Rightarrow> int \<Rightarrow> u32 option" where
  "lastFormat at port format inst [] p = None"
| "lastFormat at port format inst (l # ls) p =
     (case lastFormat at port format inst ls p of
        Some f \<Rightarrow> Some f
      | None \<Rightarrow> if at l = inst \<and> port l = p then Some (format l) else None)"

abbreviation inPorts :: "string \<Rightarrow> LinkItem list \<Rightarrow> nat" where
  "inPorts \<equiv> numPorts dstNodeInstance dstNodePortId"

abbreviation outPorts :: "string \<Rightarrow> LinkItem list \<Rightarrow> nat" where
  "outPorts \<equiv> numPorts srcNodeInstance srcNodePortId"

abbreviation inFormat :: "string \<Rightarrow> LinkItem list \<Rightarrow> int \<Rightarrow> u32 option" where
  "inFormat \<equiv> lastFormat dstNodeInstance dstNodePortId (\<lambda>l. hd (dstPortFormat l))"

abbreviation outFormat :: "string \<Rightarrow> LinkItem list \<Rightarrow> int \<Rightarrow> u32 option" where
  "outFormat \<equiv> lastFormat srcNodeInstance srcNodePortId srcPortFormat"

text \<open>Links whose ports are numbered from 0 and whose destination has a format.\<close>

definition proper_links :: "LinkItem list \<Rightarrow> bool" where
  "proper_links ls \<longleftrightarrow> (\<forall>l \<in> set ls. dstPortFormat l \<noteq> [] \<and> dstNodePortId l \<in> {0..<2 ^ 31 - 1} \<and> srcNodePortId l \<in> {0..<2 ^ 31 - 1})"

lemma recordPort_spec:
  assumes "0 \<le> port" and "port < 2 ^ 31 - 1"
  shows "unat (fst (recordPort port f x)) = max (unat (fst x)) (nat (port + 1)) \<and>
    sm_find (snd (recordPort port f x)) p = (if p = port then Some f else sm_find (snd x) p)"
proof -
  have "unat (word_of_int (port + 1) :: u32) = nat (port + 1)"
  proof -
    have "take_bit 32 (port + 1) = port + 1" using assms by (intro take_bit_int_eq_self) simp_all
    then have "uint (word_of_int (port + 1) :: u32) = port + 1" using assms by (simp add: unsigned_of_int del: of_int_add)
    then show ?thesis by (simp only: unat_eq_nat_uint)
  qed
  then show ?thesis by (cases x) (auto simp: recordPort_def word_less_nat_alt)
qed

lemma linkPorts_spec:
  assumes "proper_links ls"
  shows "\<exists>ins' outs'. linkPorts inst ls (ins, outs) = Inr (ins', outs') \<and>
    unat (fst ins') = max (unat (fst ins)) (inPorts inst ls) \<and> unat (fst outs') = max (unat (fst outs)) (outPorts inst ls) \<and>
    (\<forall>p. sm_find (snd ins') p = (case inFormat inst ls p of None \<Rightarrow> sm_find (snd ins) p | Some f \<Rightarrow> Some f)) \<and>
    (\<forall>p. sm_find (snd outs') p = (case outFormat inst ls p of None \<Rightarrow> sm_find (snd outs) p | Some f \<Rightarrow> Some f))"
  using assms
proof (induction ls arbitrary: ins outs)
  case (Cons l ls)
  have l: "dstPortFormat l \<noteq> []" "0 \<le> dstNodePortId l" "dstNodePortId l < 2 ^ 31 - 1" "0 \<le> srcNodePortId l" "srcNodePortId l < 2 ^ 31 - 1"
    and ls: "proper_links ls" using Cons.prems by (auto simp: proper_links_def)
  let ?i = "if dstNodeInstance l = inst then recordPort (dstNodePortId l) (hd (dstPortFormat l)) ins else ins"
  let ?o = "if srcNodeInstance l = inst then recordPort (srcNodePortId l) (srcPortFormat l) outs else outs"
  have step: "linkPorts inst (l # ls) (ins, outs) = linkPorts inst ls (?i, ?o)"
    using l(1) by (cases "dstPortFormat l") auto
  note i = recordPort_spec [OF l(2,3), of "hd (dstPortFormat l)" ins] and o = recordPort_spec [OF l(4,5), of "srcPortFormat l" outs]
  obtain ins' outs' where r: "linkPorts inst ls (?i, ?o) = Inr (ins', outs')"
    "unat (fst ins') = max (unat (fst ?i)) (inPorts inst ls)" "unat (fst outs') = max (unat (fst ?o)) (outPorts inst ls)"
    "\<forall>p. sm_find (snd ins') p = (case inFormat inst ls p of None \<Rightarrow> sm_find (snd ?i) p | Some f \<Rightarrow> Some f)"
    "\<forall>p. sm_find (snd outs') p = (case outFormat inst ls p of None \<Rightarrow> sm_find (snd ?o) p | Some f \<Rightarrow> Some f)"
    using Cons.IH [OF ls] by blast
  have "unat (fst ins') = max (unat (fst ins)) (inPorts inst (l # ls))" using r(2) i by (simp add: max.assoc)
  moreover have "unat (fst outs') = max (unat (fst outs)) (outPorts inst (l # ls))" using r(3) o by (simp add: max.assoc)
  moreover have "\<forall>p. sm_find (snd ins') p = (case inFormat inst (l # ls) p of None \<Rightarrow> sm_find (snd ins) p | Some f \<Rightarrow> Some f)"
    using r(4) i by (auto split: option.splits)
  moreover have "\<forall>p. sm_find (snd outs') p = (case outFormat inst (l # ls) p of None \<Rightarrow> sm_find (snd outs) p | Some f \<Rightarrow> Some f)"
    using r(5) o by (auto split: option.splits)
  ultimately show ?case using r(1) step by auto
qed simp

subsection \<open>What the plugins are told\<close>

text \<open>Formats for the ports from 0 on, at least one.\<close>

definition fullFormats :: "port_formats \<Rightarrow> bool" where
  "fullFormats m \<longleftrightarrow> m \<noteq> [] \<and> (\<forall>p < length m. sm_find m (of_nat p) \<noteq> None)"

definition formatFor :: "(int \<Rightarrow> u32 option) \<Rightarrow> port_formats \<Rightarrow> nat \<Rightarrow> FrameInfo" where
  "formatFor ofLinks given port =
     (let f = the (sm_find given (if port < length given then of_nat port else 0))
      in case ofLinks (int port) of None \<Rightarrow> f | Some x \<Rightarrow> f\<lparr>fformat := x\<rparr>)"

lemma formatOfPort_full:
  assumes "fullFormats given"
  shows "formatOfPort m port given = (formatFor (sm_find m) given port, given)"
proof -
  let ?key = "if port < length given then of_nat port else 0 :: u32"
  have "sm_find given (of_nat 0) \<noteq> None" using assms by (auto simp: fullFormats_def)
  then obtain f where "sm_find given ?key = Some f" using assms by (cases "port < length given") (auto simp: fullFormats_def)
  then show ?thesis by (cases "port < length given"; cases "sm_find m (int port)") (simp_all add: formatOfPort_def formatFor_def sm_insert_def sm_index_def Let_def)
qed

lemma formatsOfPorts_full:
  assumes "fullFormats given" and "\<forall>p \<in> set ports. p < 2 ^ 32"
  shows "\<exists>acc'. formatsOfPorts m ports given acc = (acc', given) \<and>
    (\<forall>q. sm_find acc' q = (if unat q \<in> set ports then Some (formatFor (sm_find m) given (unat q)) else sm_find acc q))"
  using assms(2)
proof (induction ports arbitrary: acc)
  case (Cons p ports)
  obtain acc' where r: "formatsOfPorts m ports given (sm_set (of_nat p) (formatFor (sm_find m) given p) acc) = (acc', given)"
    "\<forall>q. sm_find acc' q = (if unat q \<in> set ports then Some (formatFor (sm_find m) given (unat q))
       else sm_find (sm_set (of_nat p) (formatFor (sm_find m) given p) acc) q)"
    using Cons by force
  have "unat (of_nat p :: u32) = p" using Cons.prems by (simp add: unsigned_of_nat take_bit_nat_eq_self)
  then show ?case using r by (force simp: formatOfPort_full [OF assms(1)])
qed simp

lemma find_imageFormats [simp]: "sm_find (imageFormatsOf m) q = map_option toImageFormat (sm_find m q)"
  by (induction m q rule: sm_find.induct) (auto simp: imageFormatsOf_def)

definition wantsTask :: "pre_env \<Rightarrow> (string, node_plugin) std_map \<Rightarrow> metadata_ptr \<Rightarrow> string \<times> NodeItem \<Rightarrow> bool" where
  "wantsTask pe plgs md = (\<lambda>(inst, item). CreateNodeInstance (nodeMask item) \<noteq> VirtualNode \<and> supportsPre pe inst \<and>
     (case sm_find plgs inst of Some (Some isEnabled) \<Rightarrow> isEnabled md | _ \<Rightarrow> False))"

definition toldFormats :: "LinkItem list \<Rightarrow> MiaPreProcParams \<Rightarrow> string \<times> PreProcessInfo \<Rightarrow> bool" where
  "toldFormats ls params = (\<lambda>(inst, info). pi_metadata info = preMetadata params \<and>
     (\<forall>q. sm_find (pi_inputFormats info) q =
        (if unat q < inPorts inst ls then Some (toImageFormat (formatFor (inFormat inst ls) (preInputFormats params) (unat q))) else None)) \<and>
     (\<forall>q. sm_find (pi_outputFormats info) q =
        (if unat q < outPorts inst ls then Some (toImageFormat (formatFor (outFormat inst ls) (preOutputFormats params) (unat q))) else None)))"

lemma formats_of_node:
  assumes "proper_links ls" and "fullFormats (preInputFormats params)" and "fullFormats (preOutputFormats params)"
  shows "\<exists>n i k j ins outs. linkPorts inst ls ((0, []), (0, [])) = Inr ((n, i), (k, j)) \<and>
    formatsOfPorts i [0..<unat n] (preInputFormats params) [] = (ins, preInputFormats params) \<and>
    formatsOfPorts j [0..<unat k] (preOutputFormats params) [] = (outs, preOutputFormats params) \<and>
    toldFormats ls params (inst, \<lparr>pi_inputFormats = imageFormatsOf ins, pi_outputFormats = imageFormatsOf outs, pi_metadata = preMetadata params\<rparr>)"
proof -
  obtain n i k j where l: "linkPorts inst ls ((0, []), (0, [])) = Inr ((n, i), (k, j))"
    and c: "unat n = inPorts inst ls" "unat k = outPorts inst ls"
    and f: "\<forall>p. sm_find i p = inFormat inst ls p" "\<forall>p. sm_find j p = outFormat inst ls p"
    using linkPorts_spec [OF assms(1), of inst "(0, [])" "(0, [])"] by (force split: option.splits)
  have small: "\<forall>p \<in> set [0..<unat (x :: u32)]. p < 2 ^ 32" for x using unsigned_less [of x, where 'a = nat] by auto
  obtain ins where ins: "formatsOfPorts i [0..<unat n] (preInputFormats params) [] = (ins, preInputFormats params)"
    "\<forall>q. sm_find ins q = (if unat q < unat n then Some (formatFor (sm_find i) (preInputFormats params) (unat q)) else None)"
    using formatsOfPorts_full [OF assms(2) small, of i n "[]"] by auto
  obtain outs where outs: "formatsOfPorts j [0..<unat k] (preOutputFormats params) [] = (outs, preOutputFormats params)"
    "\<forall>q. sm_find outs q = (if unat q < unat k then Some (formatFor (sm_find j) (preOutputFormats params) (unat q)) else None)"
    using formatsOfPorts_full [OF assms(3) small, of j k "[]"] by auto
  have "sm_find i = inFormat inst ls" "sm_find j = outFormat inst ls" using f by auto
  then show ?thesis using l ins outs c by (auto simp: toldFormats_def)
qed

lemma preProcessNodes_spec:
  assumes "proper_links ls" and "fullFormats (preInputFormats params)" and "fullFormats (preOutputFormats params)" and "\<not> debugLogged pe"
    and "\<forall>(inst, item) \<in> set ns. sm_find plgs inst = Some None \<longrightarrow> CreateNodeInstance (nodeMask item) = VirtualNode"
  shows "\<exists>tasks. preProcessNodes pe plgs ls ns params = Inr (params, tasks) \<and>
    map fst tasks = map fst (filter (wantsTask pe plgs (preMetadata params)) ns) \<and> (\<forall>t \<in> set tasks. toldFormats ls params t)"
  using assms(5)
proof (induction ns)
  case (Cons x ns)
  obtain inst item where x: "x = (inst, item)" by fastforce
  obtain n i k j ins outs where f: "linkPorts inst ls ((0, []), (0, [])) = Inr ((n, i), (k, j))"
    "formatsOfPorts i [0..<unat n] (preInputFormats params) [] = (ins, preInputFormats params)"
    "formatsOfPorts j [0..<unat k] (preOutputFormats params) [] = (outs, preOutputFormats params)"
    "toldFormats ls params (inst, \<lparr>pi_inputFormats = imageFormatsOf ins, pi_outputFormats = imageFormatsOf outs, pi_metadata = preMetadata params\<rparr>)"
    using formats_of_node [OF assms(1-3)] by metis
  obtain tasks where r: "preProcessNodes pe plgs ls ns params = Inr (params, tasks)"
    "map fst tasks = map fst (filter (wantsTask pe plgs (preMetadata params)) ns)" "\<forall>t \<in> set tasks. toldFormats ls params t"
    using Cons by auto
  show ?case
  proof (cases "sm_find plgs inst")
    case None
    then show ?thesis using x f r by (auto simp: wantsTask_def)
  next
    case (Some plugin)
    then have "plugin = None \<Longrightarrow> CreateNodeInstance (nodeMask item) = VirtualNode" using Cons.prems x by auto
    then show ?thesis
      using x f r Some assms(4)
      by (cases plugin) (auto simp: node_preProcess_def MiaNode_preProcess_def wantsTask_def)
  qed
qed simp

text \<open>When the application gives the formats of its ports from 0 on, every plugin that wants to prepare itself is told the
  format of each port of its node up to the highest the links name and of no other: the pixel format of the last link of the port,
  in the size the application gives for the port or else for port 0; nodes come in the order of the description, virtual nodes get
  nothing, and the formats of the application are left alone.\<close>

theorem formats_told_exactly:
  assumes "mPipelinePruner (sgraph s) = Some pr" and "nodes (mRawPipeline pr) \<noteq> []" and "links (mRawPipeline pr) \<noteq> []"
    and "proper_links (links (mRawPipeline pr))" and "fullFormats (preInputFormats params)" and "fullFormats (preOutputFormats params)"
    and "\<forall>(inst, item) \<in> set (nodes (mRawPipeline pr)). sm_find (sgNodes (sgraph s)) inst = Some None \<longrightarrow>
      CreateNodeInstance (nodeMask item) = VirtualNode"
    and "\<not> debugLogged pe"
  shows "\<exists>tasks. session_preProcess pe params s = Inr (MIAS_OK, params, tasks) \<and>
    map fst tasks = map fst (filter (wantsTask pe (sgNodes (sgraph s)) (preMetadata params)) (nodes (mRawPipeline pr))) \<and>
    (\<forall>t \<in> set tasks. toldFormats (links (mRawPipeline pr)) params t)"
proof -
  obtain tasks where "preProcessNodes pe (sgNodes (sgraph s)) (links (mRawPipeline pr)) (nodes (mRawPipeline pr)) params = Inr (params, tasks)"
    "map fst tasks = map fst (filter (wantsTask pe (sgNodes (sgraph s)) (preMetadata params)) (nodes (mRawPipeline pr)))"
    "\<forall>t \<in> set tasks. toldFormats (links (mRawPipeline pr)) params t"
    using preProcessNodes_spec [OF assms(4,5,6,8,7)] by blast
  then show ?thesis using assms(1-3) by (simp add: session_preProcess_def)
qed

definition pre_session :: session where
  "pre_session = (new_session qcom_env sample_params (\<lambda>_. new_Pipeline [] 0 0 [] (\<lambda>_. blankImage MI_IMG_SOURCE (mk_format CAM_FORMAT_YUV_420_NV12 64 64) 0) [])
     (\<lambda>_. \<lparr>fifoPriority = 0, lifoPriority = 0, pipeName = []\<rparr>) (\<lambda>_. blankImage MI_IMG_SOURCE (mk_format CAM_FORMAT_YUV_420_NV12 64 64) 0))
     \<lparr>sgraph := (new_session_graph qcom_env)\<lparr>
        mPipelinePruner := Some (new_PipelinePruner qcom_env [] sample_pipeline),
        sgNodes := [(''HDRInstance0'', Some (\<lambda>_. True)), (''SkinInstance0'', Some (\<lambda>_. False))]\<rparr>\<rparr>"

definition pre_sample :: MiaPreProcParams where
  "pre_sample = \<lparr>preInputFormats = [(0, mk_format CAM_FORMAT_YUV_420_NV12 64 48)],
     preOutputFormats = [(0, mk_format CAM_FORMAT_YUV_420_NV12 32 24)], preMetadata = None\<rparr>"

theorem formats_told_exactly_witness:
  "\<exists>info. session_preProcess \<lparr>supportsPre = (\<lambda>_. True), debugLogged = False\<rparr> pre_sample pre_session =
      Inr (MIAS_OK, pre_sample, [(''HDRInstance0'', info)]) \<and>
    sm_find (pi_inputFormats info) 1 = Some \<lparr>if_format = CAM_FORMAT_UNDEFINED, if_width = 64, if_height = 48, if_cameraId = 0\<rparr> \<and>
    sm_find (pi_inputFormats info) 2 = None"
proof -
  let ?pe = "\<lparr>supportsPre = (\<lambda>_. True), debugLogged = False\<rparr>" and ?pr = "new_PipelinePruner qcom_env [] sample_pipeline"
  have "\<exists>tasks. session_preProcess ?pe pre_sample pre_session = Inr (MIAS_OK, pre_sample, tasks) \<and>
      map fst tasks = map fst (filter (wantsTask ?pe (sgNodes (sgraph pre_session)) (preMetadata pre_sample)) (nodes (mRawPipeline ?pr))) \<and>
      (\<forall>t \<in> set tasks. toldFormats (links (mRawPipeline ?pr)) pre_sample t)"
    by (rule formats_told_exactly)
      (simp_all add: pre_session_def pre_sample_def new_PipelinePruner_def sample_pipeline_def sample_links_def mk_link_def
        proper_links_def fullFormats_def)
  moreover have "map fst (filter (wantsTask ?pe (sgNodes (sgraph pre_session)) (preMetadata pre_sample)) (nodes (mRawPipeline ?pr))) = [''HDRInstance0'']"
    by (simp add: wantsTask_def pre_session_def pre_sample_def new_PipelinePruner_def sample_pipeline_def mk_node_def
        CreateNodeInstance_def has_mode_def)
  ultimately obtain info where t: "session_preProcess ?pe pre_sample pre_session = Inr (MIAS_OK, pre_sample, [(''HDRInstance0'', info)])"
    "toldFormats (links (mRawPipeline ?pr)) pre_sample (''HDRInstance0'', info)" by force
  then show ?thesis
    by (auto simp: toldFormats_def new_PipelinePruner_def sample_pipeline_def sample_links_def mk_link_def formatFor_def pre_sample_def
        toImageFormat_def mk_format_def)
qed

text \<open>The log statement of \<open>MiaNode::preProcess\<close> adds a format of zeros for port 0 to a node that has no such port.\<close>

lemma logging_adds_a_port:
  "MiaNode_preProcess \<lparr>supportsPre = (\<lambda>_. True), debugLogged = b\<rparr> inst (Some (\<lambda>_. True)) md [] [] =
     Inr (Some \<lparr>pi_inputFormats = (if b then [(0, toImageFormat zero_format)] else []),
                pi_outputFormats = (if b then [(0, toImageFormat zero_format)] else []), pi_metadata = md\<rparr>)"
  by (simp add: MiaNode_preProcess_def imageFormatsOf_def sm_insert_def)

end
