(* ===== verification/MetaStore.thy ===== *)
theory MetaStore
  imports Metadata StdMap "HOL-Library.Multiset"
begin

text \<open>
  Writing camera metadata and owning it (\<^verbatim>\<open>mivifwk/common/metautils/VendorMetadataParser.cpp\<close>): the
  tag writers, the merge of two buffers, and the wrapper classes that hold the buffers of a frame
  and of the cameras.  The Android camera library that keeps the entries of a buffer is a parameter;
  an entry is named by its tag where the code passes its index.
\<close>

record camera_lib =
  add_entry :: "camera_metadata \<Rightarrow> u32 \<Rightarrow> meta_entry \<Rightarrow> int \<times> camera_metadata"
  update_entry :: "camera_metadata \<Rightarrow> u32 \<Rightarrow> meta_entry \<Rightarrow> int \<times> camera_metadata"
  delete_entry :: "camera_metadata \<Rightarrow> u32 \<Rightarrow> int \<times> camera_metadata"
  tags_in_order :: "camera_metadata \<Rightarrow> u32 list"
  place_empty :: "camera_metadata \<Rightarrow> camera_metadata"

text \<open>A status is an error of this file or what the library returns.\<close>

type_synonym meta_status = "verror + int"

subsection \<open>Single tags\<close>

definition find_and_set :: "camera_lib \<Rightarrow> camera_metadata \<Rightarrow> u32 \<Rightarrow> meta_entry \<Rightarrow> int \<times> camera_metadata" where
  "find_and_set lib m t e = (if entry_of m t = None then add_entry lib m t e else update_entry lib m t e)"

definition setTagValue :: "camera_lib \<Rightarrow> metadata_ptr \<Rightarrow> u32 \<Rightarrow> meta_entry option \<Rightarrow> meta_status \<times> metadata_ptr" where
  "setTagValue lib mdata tagId data =
     (case (mdata, data) of
        (Some m, Some e) \<Rightarrow> (case find_and_set lib m tagId e of (status, m') \<Rightarrow> (Inr status, Some m'))
      | _ \<Rightarrow> (Inl VERROR_INVALID_PARAM, mdata))"

text \<open>\<open>setVTagValue\<close> for any value.\<close>

definition setVTag ::
  "mia_env \<Rightarrow> camera_lib \<Rightarrow> metadata_ptr \<Rightarrow> string option \<Rightarrow> meta_entry option \<Rightarrow> meta_status \<times> metadata_ptr" where
  "setVTag env lib mdata tagName data =
     (case (mdata, tagName, data) of
        (Some _, Some name, Some _) \<Rightarrow>
          (case getTagID env name of
             Inl status \<Rightarrow> (Inl (VERROR_TAG_ID status), mdata)
           | Inr tagId \<Rightarrow> setTagValue lib mdata tagId data)
      | _ \<Rightarrow> (Inl VERROR_INVALID_PARAM, mdata))"

definition eraseVendorTag :: "mia_env \<Rightarrow> camera_lib \<Rightarrow> metadata_ptr \<Rightarrow> string option \<Rightarrow> meta_status \<times> metadata_ptr" where
  "eraseVendorTag env lib mdata tagName =
     (case (mdata, tagName) of
        (Some m, Some name) \<Rightarrow>
          (case getTagID env name of
             Inl status \<Rightarrow> (Inl (VERROR_TAG_ID status), mdata)
           | Inr tagId \<Rightarrow>
               if entry_of m tagId = None then (Inr 0, mdata)
               else (case delete_entry lib m tagId of (status, m') \<Rightarrow> (Inr status, Some m')))
      | _ \<Rightarrow> (Inl VERROR_INVALID_PARAM, mdata))"

text \<open>The count is written first; the status of a tag that is not there is the library's \<open>notFound\<close>.\<close>

definition getTagEntryCount :: "int \<Rightarrow> metadata_ptr \<Rightarrow> u32 \<Rightarrow> meta_status \<times> nat" where
  "getTagEntryCount notFound mdata tagID =
     (case mdata of
        None \<Rightarrow> (Inl VERROR_INVALID_PARAM, 0)
      | Some m \<Rightarrow> (case entry_of m tagID of None \<Rightarrow> (Inr notFound, 0) | Some e \<Rightarrow> (Inr 0, e_count e)))"

text \<open>Both out parameters are written on success only.\<close>

definition getTagValueCount ::
  "metadata_ptr \<Rightarrow> u32 \<Rightarrow> cmem option \<Rightarrow> nat \<Rightarrow> verror \<times> cmem option \<times> nat" where
  "getTagValueCount mdata tagId data cnt =
     (case mdata of
        None \<Rightarrow> (VERROR_INVALID_PARAM, data, cnt)
      | Some m \<Rightarrow>
          if tag_type m tagId = -1 then (VERROR_INVALID_TAG_TYPE, data, cnt)
          else (case entry_of m tagId of
                  None \<Rightarrow> (VERROR_NO_TAG_ENTRY, data, cnt)
                | Some entry \<Rightarrow>
                    if e_count entry = 0 then (VERROR_NO_TAG_ENTRY, data, cnt)
                    else (VOK, Some (e_data entry), e_count entry)))"

text \<open>\<open>getVTagValueCount\<close>, for any out parameters and a name that may be null.\<close>

definition getVTagAndCount ::
  "mia_env \<Rightarrow> metadata_ptr \<Rightarrow> string option \<Rightarrow> cmem option \<Rightarrow> nat \<Rightarrow> verror \<times> cmem option \<times> nat" where
  "getVTagAndCount env mdata tagName data cnt =
     (case (mdata, tagName) of
        (Some _, Some name) \<Rightarrow>
          (case getTagID env name of
             Inl status \<Rightarrow> (VERROR_TAG_ID status, data, cnt)
           | Inr tagId \<Rightarrow> getTagValueCount mdata tagId data cnt)
      | _ \<Rightarrow> (VERROR_INVALID_PARAM, data, cnt))"

text \<open>The two functions \<open>getTag\<close>, by name and by number; the caller may leave the count out.\<close>

definition getNamedTag :: "mia_env \<Rightarrow> metadata_ptr \<Rightarrow> string option \<Rightarrow> cmem option \<times> nat" where
  "getNamedTag env mdata tagName = snd (getVTagAndCount env mdata tagName None 0)"

definition getTag :: "metadata_ptr \<Rightarrow> u32 \<Rightarrow> cmem option \<times> nat" where
  "getTag mdata tagId = snd (getTagValueCount mdata tagId None 0)"

subsection \<open>Merging\<close>

text \<open>Every entry of the source in turn; an entry the library refuses is only logged.\<close>

definition mergeEntries :: "camera_lib \<Rightarrow> camera_metadata \<Rightarrow> camera_metadata \<Rightarrow> camera_metadata" where
  "mergeEntries lib src dst =
     foldl (\<lambda>d t. case entry_of src t of None \<Rightarrow> d | Some e \<Rightarrow> snd (find_and_set lib d t e)) dst (tags_in_order lib src)"

text \<open>
  The wrapper classes own buffers by address; \<open>None\<close> in the heap is freed or never allocated
  memory.
\<close>

type_synonym meta_heap = "nat \<Rightarrow> camera_metadata option"

definition metaAt :: "meta_heap \<Rightarrow> nat \<Rightarrow> camera_metadata outcome" where
  "metaAt h a = (case h a of None \<Rightarrow> Inl BadFree | Some m \<Rightarrow> Inr m)"

definition freeMetadata :: "nat option \<Rightarrow> meta_heap \<Rightarrow> meta_heap outcome" where
  "freeMetadata meta h = (case meta of None \<Rightarrow> Inr h | Some a \<Rightarrow> bindE (metaAt h a) (\<lambda>_. Inr (h(a := None))))"

definition mergeMetadata :: "camera_lib \<Rightarrow> nat option \<Rightarrow> nat option \<Rightarrow> meta_heap \<Rightarrow> (int \<times> meta_heap) outcome" where
  "mergeMetadata lib dstMetadata srcMetadata h =
     (case (dstMetadata, srcMetadata) of
        (Some d, Some s) \<Rightarrow> bindE (metaAt h s) (\<lambda>src. bindE (metaAt h d) (\<lambda>dst. Inr (0, h(d \<mapsto> mergeEntries lib src dst))))
      | _ \<Rightarrow> Inr (- 1, h))"

definition resetMetadata :: "camera_lib \<Rightarrow> nat option \<Rightarrow> meta_heap \<Rightarrow> meta_heap outcome" where
  "resetMetadata lib meta h =
     (case meta of None \<Rightarrow> Inl NullDeref | Some a \<Rightarrow> bindE (metaAt h a) (\<lambda>m. Inr (h(a \<mapsto> place_empty lib m))))"

text \<open>
  \<open>CameraMetadata\<close> is a class of the camera library that owns a buffer and moves its entries to a
  larger one when it has to; \<open>cm_update\<close> answers the status of its \<open>update\<close>, the buffer it
  releases afterwards and the heap.  The type of the entry is cut to 8 bits.
\<close>

type_synonym cm_update = "nat \<Rightarrow> u32 \<Rightarrow> u8 \<Rightarrow> meta_entry \<Rightarrow> meta_heap \<Rightarrow> int \<times> nat option \<times> meta_heap"

definition updateTagValue ::
  "cm_update \<Rightarrow> nat option \<Rightarrow> u32 \<Rightarrow> meta_entry option \<Rightarrow> nat option \<Rightarrow> meta_heap \<Rightarrow> (meta_status \<times> nat option \<times> meta_heap) outcome" where
  "updateTagValue upd mdata tagID data out h =
     (case (mdata, data) of
        (Some a, Some e) \<Rightarrow>
          bindE (metaAt h a) (\<lambda>m.
            let (status, newRaw, h1) = upd a tagID (word_of_int (tag_type m tagID)) e h
            in Inr (Inr status, newRaw, h1))
      | _ \<Rightarrow> Inr (Inl VERROR_INVALID_PARAM, out, h))"

definition updateVTagValue ::
  "mia_env \<Rightarrow> cm_update \<Rightarrow> nat option \<Rightarrow> string option \<Rightarrow> meta_entry option \<Rightarrow> nat option \<Rightarrow> meta_heap \<Rightarrow>
     (meta_status \<times> nat option \<times> meta_heap) outcome" where
  "updateVTagValue env upd mdata tagName data out h =
     (case (mdata, tagName, data) of
        (Some _, Some name, Some _) \<Rightarrow>
          (case getTagID env name of
             Inl status \<Rightarrow> Inr (Inl (VERROR_TAG_ID status), out, h)
           | Inr tagId \<Rightarrow> updateTagValue upd mdata tagId data out h)
      | _ \<Rightarrow> Inr (Inl VERROR_INVALID_PARAM, out, h))"

subsection \<open>The buffers of a frame\<close>

record DynamicMetadataWraper =
  mPresentMetadata :: bool
  mPresentPhyMetadata :: bool
  dmMetadata :: "nat option"
  dmPhyMetadata :: "nat option"

text \<open>\<open>a\<close> and \<open>b\<close> are what the allocator returns for the logical and the physical buffer.\<close>

definition new_wrapper_default :: "nat option \<Rightarrow> nat option \<Rightarrow> DynamicMetadataWraper" where
  "new_wrapper_default a b =
     \<lparr>mPresentMetadata = (a \<noteq> None), mPresentPhyMetadata = (b \<noteq> None), dmMetadata = a, dmPhyMetadata = b\<rparr>"

definition new_wrapper_of :: "nat option \<Rightarrow> nat option \<Rightarrow> DynamicMetadataWraper" where
  "new_wrapper_of metadata phyMetadata =
     \<lparr>mPresentMetadata = (metadata \<noteq> None), mPresentPhyMetadata = (phyMetadata \<noteq> None),
      dmMetadata = metadata, dmPhyMetadata = phyMetadata\<rparr>"

text \<open>Half as much again; the conversion of a larger double is not defined.\<close>

definition enlarged :: "u32 \<Rightarrow> u32 outcome" where
  "enlarged c = (if 3 * unat c div 2 < 2 ^ 32 then Inr (of_nat (3 * unat c div 2)) else Inl SignedOverflow)"

definition new_wrapper_sized ::
  "u32 \<Rightarrow> u32 \<Rightarrow> u32 \<Rightarrow> u32 \<Rightarrow> nat option \<Rightarrow> nat option \<Rightarrow> DynamicMetadataWraper outcome" where
  "new_wrapper_sized logicEntry logicData phyEntry phyData a b =
     bindE (enlarged logicEntry) (\<lambda>le. bindE (enlarged logicData) (\<lambda>ld.
     bindE (enlarged phyEntry) (\<lambda>pe. bindE (enlarged phyData) (\<lambda>pd.
       let m = (if le \<noteq> 0 \<and> ld \<noteq> 0 then a else None); p = (if pe \<noteq> 0 \<and> pd \<noteq> 0 then b else None)
       in Inr \<lparr>mPresentMetadata = (m \<noteq> None), mPresentPhyMetadata = (p \<noteq> None), dmMetadata = m, dmPhyMetadata = p\<rparr>))))"

definition getLogicalMetadata :: "DynamicMetadataWraper \<Rightarrow> nat option" where
  "getLogicalMetadata w = (if mPresentMetadata w then dmMetadata w else None)"

definition getPhysicalMetadata :: "DynamicMetadataWraper \<Rightarrow> nat option" where
  "getPhysicalMetadata w = (if mPresentPhyMetadata w then dmPhyMetadata w else None)"

text \<open>The wrapper that is read from is another one.\<close>

definition updateMetadata ::
  "camera_lib \<Rightarrow> DynamicMetadataWraper option \<Rightarrow> DynamicMetadataWraper \<Rightarrow> meta_heap \<Rightarrow> (DynamicMetadataWraper \<times> meta_heap) outcome" where
  "updateMetadata lib metadata w h =
     (case metadata of
        None \<Rightarrow> Inr (w, h)
      | Some src \<Rightarrow>
          bindE (if mPresentMetadata w then resetMetadata lib (dmMetadata w) h else Inr h) (\<lambda>h1.
          bindE (if mPresentPhyMetadata w then resetMetadata lib (dmPhyMetadata w) h1 else Inr h1) (\<lambda>h2.
          let w0 = w\<lparr>mPresentMetadata := False, mPresentPhyMetadata := False\<rparr> in
          bindE (case getLogicalMetadata src of
                   None \<Rightarrow> Inr (w0, h2)
                 | s \<Rightarrow> bindE (mergeMetadata lib (dmMetadata w0) s h2) (\<lambda>(result, h3).
                          Inr (w0\<lparr>mPresentMetadata := (result \<noteq> - 1)\<rparr>, h3))) (\<lambda>(w1, h3).
            case getPhysicalMetadata src of
              None \<Rightarrow> Inr (w1, h3)
            | s \<Rightarrow> bindE (mergeMetadata lib (dmPhyMetadata w1) s h3) (\<lambda>(result, h4).
                     Inr (w1\<lparr>mPresentPhyMetadata := (result \<noteq> - 1)\<rparr>, h4))))))"

definition destroy_wrapper :: "DynamicMetadataWraper \<Rightarrow> meta_heap \<Rightarrow> (DynamicMetadataWraper \<times> meta_heap) outcome" where
  "destroy_wrapper w h =
     bindE (freeMetadata (dmMetadata w) h) (\<lambda>h1. bindE (freeMetadata (dmPhyMetadata w) h1) (\<lambda>h2.
       Inr (w\<lparr>dmMetadata := None, dmPhyMetadata := None\<rparr>, h2)))"

subsection \<open>The buffers of the cameras\<close>

type_synonym static_infos = "(u32, nat option) std_map"

definition setStaticMetadata :: "nat option \<Rightarrow> u32 \<Rightarrow> static_infos \<times> meta_heap \<Rightarrow> (static_infos \<times> meta_heap) outcome" where
  "setStaticMetadata staticMeta logicalCameraId = (\<lambda>(mStaticInfo, h).
     case sm_find mStaticInfo logicalCameraId of
       Some old \<Rightarrow> bindE (freeMetadata old h) (\<lambda>h1. Inr (sm_set logicalCameraId staticMeta mStaticInfo, h1))
     | None \<Rightarrow> Inr (sm_insert logicalCameraId staticMeta mStaticInfo, h))"

definition getStaticMetadata :: "u32 \<Rightarrow> static_infos \<Rightarrow> nat option" where
  "getStaticMetadata logicalCameraId mStaticInfo = (case sm_find mStaticInfo logicalCameraId of None \<Rightarrow> None | Some meta \<Rightarrow> meta)"

fun destroyStatic :: "static_infos \<Rightarrow> meta_heap \<Rightarrow> meta_heap outcome" where
  "destroyStatic [] h = Inr h"
| "destroyStatic ((camera, meta) # rest) h = bindE (freeMetadata meta h) (destroyStatic rest)"

subsection \<open>What the library promises\<close>

text \<open>
  A status of 0 is success; an operation that fails changes no entry; the types of tags do not
  depend on the entries.  Adding is described for a tag the buffer does not have (the library
  appends a second entry otherwise, and which one a search finds is open), updating and deleting
  for one it has (there is no index otherwise).
\<close>

definition lib_ok :: "camera_lib \<Rightarrow> bool" where
  "lib_ok lib \<longleftrightarrow>
     (\<forall>m t e status m'. entry_of m t = None \<longrightarrow> add_entry lib m t e = (status, m') \<longrightarrow>
        tag_type m' = tag_type m \<and> entry_of m' = (if status = 0 then (entry_of m)(t \<mapsto> e) else entry_of m)) \<and>
     (\<forall>m t e status m'. entry_of m t \<noteq> None \<longrightarrow> update_entry lib m t e = (status, m') \<longrightarrow>
        tag_type m' = tag_type m \<and> entry_of m' = (if status = 0 then (entry_of m)(t \<mapsto> e) else entry_of m)) \<and>
     (\<forall>m t status m'. entry_of m t \<noteq> None \<longrightarrow> delete_entry lib m t = (status, m') \<longrightarrow>
        tag_type m' = tag_type m \<and> entry_of m' = (if status = 0 then (entry_of m)(t := None) else entry_of m)) \<and>
     (\<forall>m. set (tags_in_order lib m) = dom (entry_of m)) \<and>
     (\<forall>m. tag_type (place_empty lib m) = tag_type m \<and> entry_of (place_empty lib m) = Map.empty)"

text \<open>There is room for every entry.\<close>

definition roomy :: "camera_lib \<Rightarrow> bool" where
  "roomy lib \<longleftrightarrow>
     (\<forall>m t e. entry_of m t = None \<longrightarrow> fst (add_entry lib m t e) = 0) \<and>
     (\<forall>m t e. entry_of m t \<noteq> None \<longrightarrow> fst (update_entry lib m t e) = 0)"

text \<open>So the branch of the code meets the condition of the operation it calls.\<close>

lemma find_and_set_spec:
  assumes "lib_ok lib" and "find_and_set lib m t e = (status, m')"
  shows "tag_type m' = tag_type m \<and> entry_of m' = (if status = 0 then (entry_of m)(t \<mapsto> e) else entry_of m)"
proof (cases "entry_of m t = None")
  case True
  then have "add_entry lib m t e = (status, m')" using assms(2) by (simp add: find_and_set_def)
  then show ?thesis using assms(1) True unfolding lib_ok_def by blast
next
  case False
  then have "update_entry lib m t e = (status, m')" using assms(2) by (simp only: find_and_set_def if_False)
  then show ?thesis using assms(1) False unfolding lib_ok_def by blast
qed

lemma delete_spec:
  assumes "lib_ok lib" and "entry_of m t \<noteq> None" and "delete_entry lib m t = (status, m')"
  shows "tag_type m' = tag_type m \<and> entry_of m' = (if status = 0 then (entry_of m)(t := None) else entry_of m)"
  using assms unfolding lib_ok_def by blast

lemma lib_tags: "lib_ok lib \<Longrightarrow> set (tags_in_order lib m) = dom (entry_of m)"
  unfolding lib_ok_def by blast

lemma lib_empty: "lib_ok lib \<Longrightarrow> tag_type (place_empty lib m) = tag_type m \<and> entry_of (place_empty lib m) = Map.empty"
  unfolding lib_ok_def by blast

lemma set_entry:
  assumes "lib_ok lib" and "roomy lib"
  shows "entry_of (snd (find_and_set lib m t e)) = (entry_of m)(t \<mapsto> e)" "tag_type (snd (find_and_set lib m t e)) = tag_type m"
proof -
  have "fst (find_and_set lib m t e) = 0" using assms(2) by (simp add: roomy_def find_and_set_def)
  then show "entry_of (snd (find_and_set lib m t e)) = (entry_of m)(t \<mapsto> e)" "tag_type (snd (find_and_set lib m t e)) = tag_type m"
    using find_and_set_spec [OF assms(1), of m t e] by (metis prod.collapse)+
qed

lemma merge_list:
  assumes "lib_ok lib" and "roomy lib" and "set ts \<subseteq> dom (entry_of src)"
  defines "f \<equiv> \<lambda>d t. case entry_of src t of None \<Rightarrow> d | Some e \<Rightarrow> snd (find_and_set lib d t e)"
  shows "entry_of (foldl f dst ts) u = (if u \<in> set ts then entry_of src u else entry_of dst u) \<and>
    tag_type (foldl f dst ts) = tag_type dst"
  using assms(3)
proof (induction ts arbitrary: dst)
  case (Cons t ts)
  then obtain e where "entry_of src t = Some e" by auto
  then show ?case using Cons by (auto simp: f_def set_entry [OF assms(1,2)])
qed simp

lemma merge_entries:
  assumes "lib_ok lib" and "roomy lib"
  shows "entry_of (mergeEntries lib src dst) = entry_of dst ++ entry_of src" "tag_type (mergeEntries lib src dst) = tag_type dst"
proof -
  have tags: "set (tags_in_order lib src) = dom (entry_of src)" using assms(1) by (rule lib_tags)
  then have "entry_of (mergeEntries lib src dst) u = (entry_of dst ++ entry_of src) u" for u
    using merge_list [OF assms, of "tags_in_order lib src" src dst u]
    by (auto simp: mergeEntries_def map_add_def split: option.splits)
  then show "entry_of (mergeEntries lib src dst) = entry_of dst ++ entry_of src" by blast
  show "tag_type (mergeEntries lib src dst) = tag_type dst"
    using merge_list [OF assms, of "tags_in_order lib src" src dst] tags by (simp add: mergeEntries_def)
qed

lemma merge_into_empty:
  assumes "lib_ok lib" and "roomy lib"
  shows "entry_of (mergeEntries lib src (place_empty lib dst)) = entry_of src"
    "tag_type (mergeEntries lib src (place_empty lib dst)) = tag_type dst"
  using merge_entries [OF assms] lib_empty [OF assms(1)] by simp_all

text \<open>What a reader sees of a buffer whose types of tags are those of the source.\<close>

definition same_reads :: "camera_metadata \<Rightarrow> camera_metadata \<Rightarrow> bool" where
  "same_reads m m' \<longleftrightarrow> (\<forall>t d. getTagValue (Some m) t d = getTagValue (Some m') t d)"

text \<open>A frame that takes over the metadata of another one holds exactly what the other holds, the logical and the physical part
  each in its own buffer; nothing of what it held before stays behind, and the other is left alone.\<close>

theorem update_takes_over:
  assumes "lib_ok lib" and "roomy lib"
    and "mPresentMetadata w" and "dmMetadata w = Some a" and "h a = Some ma" and "mPresentPhyMetadata w" and "dmPhyMetadata w = Some b" and "h b = Some mb"
    and "getLogicalMetadata src = Some s" and "h s = Some ms" and "getPhysicalMetadata src = Some p" and "h p = Some mp"
    and "distinct [a, b, s, p]" and "tag_type ma = tag_type ms" and "tag_type mb = tag_type mp"
  shows "\<exists>w' h' ma' mb'. updateMetadata lib (Some src) w h = Inr (w', h') \<and> getLogicalMetadata w' = Some a \<and> h' a = Some ma' \<and> same_reads ma' ms \<and>
    getPhysicalMetadata w' = Some b \<and> h' b = Some mb' \<and> same_reads mb' mp \<and> (\<forall>c. c \<noteq> a \<and> c \<noteq> b \<longrightarrow> h' c = h c)"
proof -
  let ?ma = "mergeEntries lib ms (place_empty lib ma)" and ?mb = "mergeEntries lib mp (place_empty lib mb)"
  have "updateMetadata lib (Some src) w h =
      Inr (w\<lparr>mPresentMetadata := True, mPresentPhyMetadata := True\<rparr>, h(a := Some (place_empty lib ma), b := Some (place_empty lib mb), a := Some ?ma, b := Some ?mb))"
    using assms(3-13) by (simp add: updateMetadata_def resetMetadata_def mergeMetadata_def metaAt_def Let_def)
  moreover have "same_reads ?ma ms" "same_reads ?mb mp"
    using merge_into_empty [OF assms(1,2)] assms(14,15) by (simp_all add: same_reads_def getTagValue_def)
  ultimately show ?thesis
    using assms(4,7,13) by (auto simp: getLogicalMetadata_def getPhysicalMetadata_def)
qed

text \<open>A library without limits: a second entry of a tag is never found, and without an entry there is nothing to update or
  to delete.\<close>

definition ample_lib :: camera_lib where
  "ample_lib = \<lparr>add_entry = (\<lambda>m t e. (0, if entry_of m t = None then m\<lparr>entry_of := (entry_of m)(t \<mapsto> e)\<rparr> else m)),
     update_entry = (\<lambda>m t e. if entry_of m t = None then (- 1, m) else (0, m\<lparr>entry_of := (entry_of m)(t \<mapsto> e)\<rparr>)),
     delete_entry = (\<lambda>m t. if entry_of m t = None then (- 1, m) else (0, m\<lparr>entry_of := (entry_of m)(t := None)\<rparr>)),
     tags_in_order = (\<lambda>m. sorted_list_of_set (dom (entry_of m))), place_empty = (\<lambda>m. m\<lparr>entry_of := Map.empty\<rparr>)\<rparr>"

lemma ample_ok: "lib_ok ample_lib" "roomy ample_lib"
  by (auto simp: lib_ok_def roomy_def ample_lib_def)

definition one_tag :: "u8 \<Rightarrow> camera_metadata" where
  "one_tag v = \<lparr>tag_type = (\<lambda>_. 0), entry_of = [7 \<mapsto> \<lparr>e_count = 1, e_data = (\<lambda>_. v)\<rparr>]\<rparr>"

theorem update_takes_over_witness:
  "\<exists>w' h' m. updateMetadata ample_lib (Some (new_wrapper_of (Some 3) (Some 4))) (new_wrapper_of (Some 1) (Some 2)) [1 \<mapsto> one_tag 10, 2 \<mapsto> one_tag 20, 3 \<mapsto> one_tag 30, 4 \<mapsto> one_tag 40] = Inr (w', h') \<and>
     h' 1 = Some m \<and> fst (getTagValue (Some m) 7 None) = VOK \<and> map_option (\<lambda>p. p 0) (tag (Some m) 7 None) = Some 30"
proof -
  have "\<exists>w' h' ma' mb'. updateMetadata ample_lib (Some (new_wrapper_of (Some 3) (Some 4))) (new_wrapper_of (Some 1) (Some 2)) [1 \<mapsto> one_tag 10, 2 \<mapsto> one_tag 20, 3 \<mapsto> one_tag 30, 4 \<mapsto> one_tag 40] = Inr (w', h') \<and>
      getLogicalMetadata w' = Some 1 \<and> h' 1 = Some ma' \<and> same_reads ma' (one_tag 30) \<and>
      getPhysicalMetadata w' = Some 2 \<and> h' 2 = Some mb' \<and> same_reads mb' (one_tag 40) \<and>
      (\<forall>c. c \<noteq> 1 \<and> c \<noteq> 2 \<longrightarrow> h' c = [1 \<mapsto> one_tag 10, 2 \<mapsto> one_tag 20, 3 \<mapsto> one_tag 30, 4 \<mapsto> one_tag 40] c)"
    by (rule update_takes_over [OF ample_ok, where s = 3 and p = 4 and ma = "one_tag 10" and mb = "one_tag 20"])
      (simp_all add: new_wrapper_of_def getLogicalMetadata_def getPhysicalMetadata_def one_tag_def)
  then obtain w' h' m where "updateMetadata ample_lib (Some (new_wrapper_of (Some 3) (Some 4))) (new_wrapper_of (Some 1) (Some 2)) [1 \<mapsto> one_tag 10, 2 \<mapsto> one_tag 20, 3 \<mapsto> one_tag 30, 4 \<mapsto> one_tag 40] = Inr (w', h')"
    "h' 1 = Some m" "same_reads m (one_tag 30)" by blast
  moreover have "getTagValue (Some (one_tag 30)) 7 None = (VOK, Some (\<lambda>_. 30))" by (simp add: getTagValue_def one_tag_def)
  ultimately show ?thesis by (auto simp: same_reads_def)
qed

text \<open>C29: A value written under the name of a tag is what every kind of lookup finds afterwards, and no other tag reads differently; erased,
  it is found no more and again no other tag changes.  A write or an erasure the library refuses changes nothing.\<close>

theorem written_tag_is_read:
  assumes "lib_ok lib" and "getTagID env name = Inr t" and "tag_type m t \<noteq> -1" and "e_count e \<noteq> 0"
    and "setVTag env lib (Some m) (Some name) (Some e) = (Inr st, md)" and "eraseVendorTag env lib md (Some name) = (Inr st', md')"
  shows "(if st = 0
      then getVTagValue env md name d = (VOK, Some (e_data e)) \<and> getNamedTag env md (Some name) = (Some (e_data e), e_count e) \<and>
        getTag md t = (Some (e_data e), e_count e) \<and> (\<forall>nf. getTagEntryCount nf md t = (Inr 0, e_count e)) \<and>
        (\<forall>u d. u \<noteq> t \<longrightarrow> getTagValue md u d = getTagValue (Some m) u d)
      else (\<forall>u d. getTagValue md u d = getTagValue (Some m) u d)) \<and>
    (if st' = 0
      then getVTagValue env md' name d = (VERROR_NO_TAG_ENTRY, d) \<and> getNamedTag env md' (Some name) = (None, 0) \<and>
        (\<forall>u d. u \<noteq> t \<longrightarrow> getTagValue md' u d = getTagValue md u d)
      else (\<forall>u d. getTagValue md' u d = getTagValue md u d))"
proof -
  obtain m1 where m1: "md = Some m1" "find_and_set lib m t e = (st, m1)"
    using assms(2,5) by (auto simp: setVTag_def setTagValue_def split: prod.splits)
  then have w: "tag_type m1 = tag_type m" "entry_of m1 = (if st = 0 then (entry_of m)(t \<mapsto> e) else entry_of m)"
    using find_and_set_spec [OF assms(1)] by blast+
  obtain m2 where m2: "md' = Some m2" "tag_type m2 = tag_type m1" "entry_of m2 = (if st' = 0 then (entry_of m1)(t := None) else entry_of m1)"
  proof (cases "entry_of m1 t")
    case None
    then show thesis using that [of m1] assms(2,6) m1(1) by (auto simp: eraseVendorTag_def fun_eq_iff)
  next
    case (Some x)
    then obtain m' where "delete_entry lib m1 t = (st', m')" "md' = Some m'"
      using assms(2,6) m1(1) by (auto simp: eraseVendorTag_def split: prod.splits)
    then show thesis using that [of m'] delete_spec [OF assms(1)] Some by blast
  qed
  note look = getVTagValue_def getTagValue_def getNamedTag_def getVTagAndCount_def getTagValueCount_def getTag_def getTagEntryCount_def
  have "if st = 0
      then getVTagValue env md name d = (VOK, Some (e_data e)) \<and> getNamedTag env md (Some name) = (Some (e_data e), e_count e) \<and>
        getTag md t = (Some (e_data e), e_count e) \<and> (\<forall>nf. getTagEntryCount nf md t = (Inr 0, e_count e)) \<and>
        (\<forall>u d. u \<noteq> t \<longrightarrow> getTagValue md u d = getTagValue (Some m) u d)
      else (\<forall>u d. getTagValue md u d = getTagValue (Some m) u d)"
    using assms(2-4) w by (simp add: look m1(1))
  moreover have "if st' = 0
      then getVTagValue env md' name d = (VERROR_NO_TAG_ENTRY, d) \<and> getNamedTag env md' (Some name) = (None, 0) \<and>
        (\<forall>u d. u \<noteq> t \<longrightarrow> getTagValue md' u d = getTagValue md u d)
      else (\<forall>u d. getTagValue md' u d = getTagValue md u d)"
    using assms(2,3) w(1) m2 by (simp add: look m1(1))
  ultimately show ?thesis by blast
qed

theorem written_tag_is_read_witness:
  "\<exists>md md'. setVTag \<lparr>getTagID = (\<lambda>_. Inr 9), Soc = MTK, OpenPrunerAbnormalDump = False, sDisableMask = 0\<rparr> ample_lib (Some (one_tag 10)) (Some ''a'')
       (Some \<lparr>e_count = 2, e_data = (\<lambda>_. 5)\<rparr>) = (Inr 0, md) \<and>
     eraseVendorTag \<lparr>getTagID = (\<lambda>_. Inr 9), Soc = MTK, OpenPrunerAbnormalDump = False, sDisableMask = 0\<rparr> ample_lib md (Some ''a'') = (Inr 0, md') \<and>
     getTag md 9 = (Some (\<lambda>_. 5), 2) \<and> fst (getTagValue md' 9 None) = VERROR_NO_TAG_ENTRY \<and> fst (getTagValue md' 7 None) = VOK"
proof -
  let ?env = "\<lparr>getTagID = (\<lambda>_. Inr 9), Soc = MTK, OpenPrunerAbnormalDump = False, sDisableMask = 0\<rparr>"
  let ?e = "\<lparr>e_count = 2, e_data = (\<lambda>_. 5 :: u8)\<rparr>" and ?m = "one_tag 10"
  let ?m1 = "?m\<lparr>entry_of := (entry_of ?m)(9 \<mapsto> ?e)\<rparr>"
  let ?m2 = "?m1\<lparr>entry_of := (entry_of ?m1)(9 := None)\<rparr>"
  have set1: "setVTag ?env ample_lib (Some ?m) (Some ''a'') (Some ?e) = (Inr 0, Some ?m1)"
    by (simp add: setVTag_def setTagValue_def find_and_set_def ample_lib_def one_tag_def)
  have era: "eraseVendorTag ?env ample_lib (Some ?m1) (Some ''a'') = (Inr 0, Some ?m2)"
    by (simp add: eraseVendorTag_def ample_lib_def)
  have t: "getTagID ?env ''a'' = Inr 9" "tag_type ?m 9 \<noteq> -1" "e_count ?e \<noteq> 0" by (simp_all add: one_tag_def)
  note w = written_tag_is_read [OF ample_ok(1) t set1 era, of None, unfolded if_P [OF refl]]
  have get: "getTag (Some ?m1) 9 = (Some (\<lambda>_. 5), 2)" using w by simp
  have g9: "getTagValue (Some ?m2) 9 None = (VERROR_NO_TAG_ENTRY, None)" by (simp add: getTagValue_def one_tag_def)
  have g7: "fst (getTagValue (Some ?m2) 7 None) = VOK" by (simp add: getTagValue_def one_tag_def)
  show ?thesis
    by (rule exI [of _ "Some ?m1"], rule exI [of _ "Some ?m2"], intro conjI set1 era get g7) (simp only: g9 fst_conv)
qed

subsection \<open>Ownership of the static metadata\<close>

text \<open>
  The application allocates a buffer and hands it over, each only once while it is alive; what it
  handed over belongs to the table.
\<close>

inductive static_step :: "static_infos \<times> meta_heap \<Rightarrow> static_infos \<times> meta_heap \<Rightarrow> bool" where
  allocate: "h a = None \<Longrightarrow> static_step (infos, h) (infos, h(a \<mapsto> m))"
| hand_over: "h a \<noteq> None \<Longrightarrow> Some a \<notin> snd ` set infos \<Longrightarrow> setStaticMetadata (Some a) camera (infos, h) = Inr st \<Longrightarrow>
    static_step (infos, h) st"

definition ownsAll :: "static_infos \<times> meta_heap \<Rightarrow> bool" where
  "ownsAll = (\<lambda>(infos, h). sm_wf infos \<and> distinct (map snd infos) \<and> (\<forall>meta \<in> snd ` set infos. \<exists>a. meta = Some a \<and> h a \<noteq> None))"

lemma snd_sm_set:
  assumes "sm_wf m"
  shows "sm_find m k = Some old \<Longrightarrow> mset (old # map snd (sm_set k v m)) = mset (v # map snd m)"
    and "sm_find m k = None \<Longrightarrow> mset (map snd (sm_set k v m)) = mset (v # map snd m)"
proof -
  have s: "mset (map snd m') = (\<Sum>e\<leftarrow>m'. {#snd e#})" for m' :: "('a \<times> 'b) list" by (induction m') auto
  show "mset (old # map snd (sm_set k v m)) = mset (v # map snd m)" if "sm_find m k = Some old"
    using sum_sm_set [OF assms that, of "\<lambda>e. {#snd e#}" v] by (simp add: s)
  show "mset (map snd (sm_set k v m)) = mset (v # map snd m)" if "sm_find m k = None"
    using sum_sm_new [OF that, of "\<lambda>e. {#snd e#}" v] by (simp add: s)
qed

lemma static_step_ok:
  assumes "static_step x y" and "ownsAll x"
  shows "ownsAll y"
  using assms
proof (induction rule: static_step.induct)
  case (allocate h a infos m)
  then show ?case by (fastforce simp: ownsAll_def)
next
  case (hand_over h a infos camera st)
  have wf: "sm_wf infos" and d: "distinct (Some a # map snd infos)" and alive: "\<forall>meta \<in> snd ` set infos. \<exists>a. meta = Some a \<and> h a \<noteq> None"
    using hand_over.prems hand_over.hyps(2) by (auto simp: ownsAll_def)
  show ?case
  proof (cases "sm_find infos camera")
    case None
    then have st: "st = (sm_set camera (Some a) infos, h)" using hand_over.hyps(3) by (simp add: setStaticMetadata_def sm_insert_def)
    note m = snd_sm_set(2) [OF wf None, of "Some a"]
    have "distinct (map snd (sm_set camera (Some a) infos))" using mset_eq_imp_distinct_iff [OF m] d by simp
    moreover have "snd ` set (sm_set camera (Some a) infos) = insert (Some a) (snd ` set infos)" using mset_eq_setD [OF m] by simp
    moreover from this have "\<forall>meta \<in> snd ` set (sm_set camera (Some a) infos). \<exists>b. meta = Some b \<and> h b \<noteq> None"
      using alive hand_over.hyps(1) by simp
    ultimately show ?thesis unfolding st ownsAll_def prod.case using sm_wf_set [OF wf] by blast
  next
    case (Some old)
    then have "old \<in> snd ` set infos" using sm_entries_find [OF wf] by force
    then obtain b where b: "old = Some b" "h b \<noteq> None" using alive by blast
    then have st: "st = (sm_set camera (Some a) infos, h(b := None))"
      using hand_over.hyps(3) Some by (auto simp: setStaticMetadata_def freeMetadata_def metaAt_def)
    note m = snd_sm_set(1) [OF wf Some, of "Some a"]
    have "distinct (old # map snd (sm_set camera (Some a) infos))" using mset_eq_imp_distinct_iff [OF m] d by simp
    moreover have "snd ` set (sm_set camera (Some a) infos) \<subseteq> insert (Some a) (snd ` set infos)" using mset_eq_setD [OF m] by auto
    moreover from this have "\<exists>c. meta = Some c \<and> h c \<noteq> None" if "meta \<in> snd ` set (sm_set camera (Some a) infos)" for meta
      using alive hand_over.hyps(1) that by blast
    ultimately have "\<forall>meta \<in> snd ` set (sm_set camera (Some a) infos). \<exists>c. meta = Some c \<and> (h(b := None)) c \<noteq> None"
      using b(1) by (metis distinct.simps(2) fun_upd_other list.set_map)
    with \<open>distinct (old # map snd (sm_set camera (Some a) infos))\<close> show ?thesis
      unfolding st ownsAll_def prod.case using sm_wf_set [OF wf] by simp
  qed
qed

interpretation statics: invariant_system "\<lambda>(infos, h). infos = []" static_step ownsAll
proof unfold_locales
  fix x :: "static_infos \<times> meta_heap"
  assume "(\<lambda>(infos, h). infos = []) x"
  then show "ownsAll x" by (auto simp: ownsAll_def)
next
  fix x y
  assume "ownsAll x" and "static_step x y"
  then show "ownsAll y" using static_step_ok by blast
qed

lemma destroyStatic_owned:
  "distinct (map snd infos) \<Longrightarrow> \<forall>meta \<in> snd ` set infos. \<exists>a. meta = Some a \<and> h a \<noteq> None \<Longrightarrow>
     destroyStatic infos h = Inr (\<lambda>a. if Some a \<in> snd ` set infos then None else h a)"
proof (induction infos arbitrary: h)
  case (Cons x rest)
  obtain c a where x: "x = (c, Some a)" "h a \<noteq> None" using Cons.prems(2) by (cases x) auto
  have "Some a \<notin> snd ` set rest" using Cons.prems(1) x(1) by simp
  then have "\<forall>meta \<in> snd ` set rest. \<exists>b. meta = Some b \<and> (h(a := None)) b \<noteq> None" using Cons.prems(2) x(1) by force
  moreover have "distinct (map snd rest)" using Cons.prems(1) by simp
  ultimately have "destroyStatic rest (h(a := None)) = Inr (\<lambda>b. if Some b \<in> snd ` set rest then None else (h(a := None)) b)"
    by (rule Cons.IH [rotated])
  then show ?case using x by (auto simp: freeMetadata_def metaAt_def fun_eq_iff)
qed simp

text \<open>Whatever buffers the application hands over for its cameras, each buffer in the table is alive and stands there once; a
  lookup never finds a freed one, replacing one frees exactly the one that stood there, and at the end all that stand there are
  freed and no other.\<close>

theorem static_metadata_owned:
  assumes "static_step\<^sup>*\<^sup>* ([], h0) (infos, h)"
  shows "(\<forall>camera a. getStaticMetadata camera infos = Some a \<longrightarrow> h a \<noteq> None) \<and>
    destroyStatic infos h = Inr (\<lambda>a. if Some a \<in> snd ` set infos then None else h a) \<and>
    (\<forall>meta camera. \<exists>infos' h'. setStaticMetadata meta camera (infos, h) = Inr (infos', h') \<and> getStaticMetadata camera infos' = meta \<and>
       (\<forall>a. h' a = (if getStaticMetadata camera infos = Some a then None else h a)))"
proof -
  have o: "ownsAll (infos, h)" using statics.reachable_inv [OF _ assms] by simp
  then have wf: "sm_wf infos" and alive: "\<forall>meta \<in> snd ` set infos. \<exists>a. meta = Some a \<and> h a \<noteq> None" by (auto simp: ownsAll_def)
  have found: "\<exists>a. meta = Some a \<and> h a \<noteq> None" if "sm_find infos camera = Some meta" for camera meta
    using alive sm_entries_find [OF wf] that by force
  have 1: "\<forall>camera a. getStaticMetadata camera infos = Some a \<longrightarrow> h a \<noteq> None"
    using found by (auto simp: getStaticMetadata_def split: option.splits)
  have 2: "destroyStatic infos h = Inr (\<lambda>a. if Some a \<in> snd ` set infos then None else h a)"
    using o by (intro destroyStatic_owned) (auto simp: ownsAll_def)
  have 3: "\<exists>infos' h'. setStaticMetadata meta camera (infos, h) = Inr (infos', h') \<and> getStaticMetadata camera infos' = meta \<and>
      (\<forall>a. h' a = (if getStaticMetadata camera infos = Some a then None else h a))" for meta camera
  proof (cases "sm_find infos camera")
    case None
    then show ?thesis by (simp add: setStaticMetadata_def getStaticMetadata_def sm_insert_def)
  next
    case (Some old)
    then obtain b where "old = Some b" "h b \<noteq> None" using found by blast
    then show ?thesis using Some by (auto simp: setStaticMetadata_def getStaticMetadata_def freeMetadata_def metaAt_def)
  qed
  show ?thesis using 1 2 3 by blast
qed

theorem static_metadata_owned_witness:
  "\<exists>h. static_step\<^sup>*\<^sup>* ([], Map.empty) ([(0, Some 6)], h) \<and> destroyStatic [(0, Some 6)] h = Inr (\<lambda>_. None)"
proof -
  let ?h1 = "[5 \<mapsto> one_tag 1]" and ?h2 = "[5 \<mapsto> one_tag 1, 6 \<mapsto> one_tag 2]"
  have 1: "static_step ([], Map.empty) ([], ?h1)" using static_step.allocate [of Map.empty 5 "[]"] by simp
  have 2: "static_step ([], ?h1) ([(0, Some 5)], ?h1)"
    by (rule static_step.hand_over [where a = 5 and camera = 0]) (simp_all add: setStaticMetadata_def sm_insert_def)
  have 3: "static_step ([(0, Some 5)], ?h1) ([(0, Some 5)], ?h2)" using static_step.allocate [of ?h1 6] by simp
  have 4: "static_step ([(0, Some 5)], ?h2) ([(0, Some 6)], ?h2(5 := None))"
    by (rule static_step.hand_over [where a = 6 and camera = 0]) (simp_all add: setStaticMetadata_def freeMetadata_def metaAt_def)
  have r: "static_step\<^sup>*\<^sup>* ([], Map.empty) ([(0, Some 6)], ?h2(5 := None))"
    using 1 2 3 4 by (meson rtranclp.rtrancl_refl rtranclp.rtrancl_into_rtrancl)
  have "destroyStatic [(0, Some 6)] (?h2(5 := None)) = Inr (\<lambda>a. if Some a \<in> snd ` set [(0 :: u32, Some 6)] then None else (?h2(5 := None)) a)"
    using static_metadata_owned [OF r] by blast
  also have "(\<lambda>a. if Some a \<in> snd ` set [(0 :: u32, Some (6 :: nat))] then None else (?h2(5 := None)) a) = (\<lambda>_. None)" by (auto simp: fun_eq_iff)
  finally show ?thesis using r by blast
qed

text \<open>A buffer that is handed over again for the camera that has it is freed and stays in the table.\<close>

lemma handed_over_again:
  assumes "sm_find infos camera = Some (Some a)" and "h a \<noteq> None"
  shows "\<exists>infos' h'. setStaticMetadata (Some a) camera (infos, h) = Inr (infos', h') \<and> getStaticMetadata camera infos' = Some a \<and> h' a = None"
  using assms by (auto simp: setStaticMetadata_def getStaticMetadata_def freeMetadata_def metaAt_def)

end
