(* ===== verification/SessionHandles.thy ===== *)
theory SessionHandles
  imports SessionPre MetaStore
begin

text \<open>
  The interface of the engine (\<^verbatim>\<open>mivifwk/mialgoengine/MiaPostProcIntf.cpp\<close>): handles are addresses
  of sessions, and a list of them says which ones may still be asked to finish quickly.
\<close>

record session_table =
  allSessions :: "nat list"
  liveSessions :: "nat \<Rightarrow> session option"

text \<open>A member function called through a handle.\<close>

definition onSession :: "nat \<Rightarrow> (session \<Rightarrow> ('a \<times> session) outcome) \<Rightarrow> session_table \<Rightarrow> ('a \<times> session_table) outcome" where
  "onSession a f t =
     (case liveSessions t a of
        None \<Rightarrow> Inl BadFree
      | Some s \<Rightarrow> bindE (f s) (\<lambda>(x, s1). Inr (x, t\<lparr>liveSessions := (liveSessions t)(a \<mapsto> s1)\<rparr>)))"

text \<open>\<open>a\<close> is the address of the new session and \<open>s\<close> what its constructor leaves there.\<close>

definition MiaPostProc_Create ::
  "mia_env \<Rightarrow> graph_world \<Rightarrow> MiaCreateParams option \<Rightarrow> nat \<Rightarrow> session \<Rightarrow> session_table \<Rightarrow> (nat option \<times> session_table) outcome" where
  "MiaPostProc_Create env w params a s t =
     bindE (session_create env w params s) (\<lambda>r.
       case r of
         None \<Rightarrow> Inr (None, t)
       | Some s1 \<Rightarrow> Inr (Some a, t\<lparr>allSessions := allSessions t @ [a], liveSessions := (liveSessions t)(a \<mapsto> s1)\<rparr>))"

text \<open>Preparing with a null handle succeeds, unlike the other calls.\<close>

definition MiaPostProc_PreProcess ::
  "pre_env \<Rightarrow> nat option \<Rightarrow> MiaPreProcParams \<Rightarrow> session_table \<Rightarrow>
     ((CDKResult \<times> MiaPreProcParams \<times> (string \<times> PreProcessInfo) list) \<times> session_table) outcome" where
  "MiaPostProc_PreProcess pe inst params t =
     (case inst of
        None \<Rightarrow> Inr ((MIAS_OK, params, []), t)
      | Some a \<Rightarrow> onSession a (\<lambda>s. bindE (session_preProcess pe params s) (\<lambda>r. Inr (r, s))) t)"

definition MiaPostProc_Process ::
  "mia_env \<Rightarrow> session_env \<Rightarrow> fresh_ids \<Rightarrow> nat option \<Rightarrow> process_params option \<Rightarrow> session_table \<Rightarrow> (CDKResult \<times> session_table) outcome" where
  "MiaPostProc_Process env se ids inst params t =
     (case inst of None \<Rightarrow> Inr (MIAS_INVALID_PARAM, t) | Some a \<Rightarrow> onSession a (postProcess env se ids params) t)"

text \<open>The call goes on when the waits of \<open>flush\<close> are over.\<close>

definition MiaPostProc_Flush :: "nat option \<Rightarrow> bool \<Rightarrow> session_table \<Rightarrow> (CDKResult \<times> session_table) outcome" where
  "MiaPostProc_Flush inst isForced t =
     (case inst of
        None \<Rightarrow> Inr (MIAS_INVALID_PARAM, t)
      | Some a \<Rightarrow> onSession a (\<lambda>s. bindE (session_flush isForced s) (\<lambda>s1. Inr (MIAS_OK, s1))) t)"

text \<open>\<open>MiaPostProc_Destroy\<close>: the handle leaves the list under the lock, then the session is deleted.\<close>

definition unregister :: "nat \<Rightarrow> session_table \<Rightarrow> session_table" where
  "unregister a t = t\<lparr>allSessions := remove1 a (allSessions t)\<rparr>"

definition deleteSession :: "nat \<Rightarrow> session_table \<Rightarrow> session_table outcome" where
  "deleteSession a t =
     (case liveSessions t a of
        None \<Rightarrow> Inl BadFree
      | Some s \<Rightarrow> bindE (session_destroy s) (\<lambda>_. Inr (t\<lparr>liveSessions := (liveSessions t)(a := None)\<rparr>)))"

definition MiaPostProc_Destroy :: "nat option \<Rightarrow> session_table \<Rightarrow> session_table outcome" where
  "MiaPostProc_Destroy inst t = (case inst of None \<Rightarrow> Inr t | Some a \<Rightarrow> deleteSession a (unregister a t))"

text \<open>\<open>MiaPostProc_QuickFinish\<close>: the handle is looked up under the lock, the session is called without it.\<close>

definition isRegistered :: "nat \<Rightarrow> session_table \<Rightarrow> bool" where
  "isRegistered a t \<longleftrightarrow> a \<in> set (allSessions t)"

definition finishCall :: "nat \<Rightarrow> string \<Rightarrow> bool \<Rightarrow> session_table \<Rightarrow> (QFResult \<times> session_table) outcome" where
  "finishCall a fileName needImageResult t = onSession a (session_quickFinish fileName needImageResult) t"

definition MiaPostProc_QuickFinish :: "nat \<Rightarrow> string \<Rightarrow> bool \<Rightarrow> session_table \<Rightarrow> (QFResult \<times> session_table) outcome" where
  "MiaPostProc_QuickFinish a fileName needImageResult t =
     (if \<not> isRegistered a t then Inr (SessionNotFound, t) else finishCall a fileName needImageResult t)"

subsection \<open>Executions\<close>

text \<open>
  \<open>leaving\<close> are the handles whose session is about to be deleted, \<open>asking\<close> the calls of
  \<open>MiaPostProc_QuickFinish\<close> that have found their handle.  Clients destroy a session once and use
  its handle for nothing but \<open>MiaPostProc_QuickFinish\<close> afterwards.
\<close>

record interface =
  itable :: session_table
  leaving :: "nat list"
  asking :: "nat list"

inductive handle_step :: "mia_env \<Rightarrow> session_env \<Rightarrow> interface \<Rightarrow> interface \<Rightarrow> bool" for env se where
  create: "liveSessions (itable i) a = None \<Longrightarrow> MiaPostProc_Create env w params a s (itable i) = Inr (r, t) \<Longrightarrow>
    handle_step env se i (i\<lparr>itable := t\<rparr>)"
| preProcess: "MiaPostProc_PreProcess pe inst params (itable i) = Inr (r, t) \<Longrightarrow> handle_step env se i (i\<lparr>itable := t\<rparr>)"
| process: "MiaPostProc_Process env se ids inst pp (itable i) = Inr (r, t) \<Longrightarrow> handle_step env se i (i\<lparr>itable := t\<rparr>)"
| flush: "MiaPostProc_Flush inst isForced (itable i) = Inr (r, t) \<Longrightarrow> handle_step env se i (i\<lparr>itable := t\<rparr>)"
| work: "onSession a f (itable i) = Inr ((), t) \<Longrightarrow> handle_step env se i (i\<lparr>itable := t\<rparr>)"
| leave: "isRegistered a (itable i) \<Longrightarrow> handle_step env se i (i\<lparr>itable := unregister a (itable i), leaving := a # leaving i\<rparr>)"
| delete: "a \<in> set (leaving i) \<Longrightarrow> deleteSession a (itable i) = Inr t \<Longrightarrow>
    handle_step env se i (i\<lparr>itable := t, leaving := remove1 a (leaving i)\<rparr>)"
| found: "isRegistered a (itable i) \<Longrightarrow> handle_step env se i (i\<lparr>asking := a # asking i\<rparr>)"
| finish: "a \<in> set (asking i) \<Longrightarrow> finishCall a f b (itable i) = Inr (r, t) \<Longrightarrow>
    handle_step env se i (i\<lparr>itable := t, asking := remove1 a (asking i)\<rparr>)"

definition handles_ok :: "interface \<Rightarrow> bool" where
  "handles_ok i \<longleftrightarrow> distinct (allSessions (itable i) @ leaving i) \<and>
     dom (liveSessions (itable i)) = set (allSessions (itable i)) \<union> set (leaving i)"

lemma onSession_table:
  assumes "onSession a f t = Inr (x, t')"
  shows "allSessions t' = allSessions t \<and> dom (liveSessions t') = dom (liveSessions t)"
  using assms by (auto simp: onSession_def bindE_eq_Inr split: option.splits if_splits)

lemma onSession_ok: "onSession a f (itable i) = Inr (x, t) \<Longrightarrow> handles_ok i \<Longrightarrow> handles_ok (i\<lparr>itable := t\<rparr>)"
  using onSession_table [of a f "itable i" x t] by (simp add: handles_ok_def)

lemma handle_step_ok:
  assumes "handle_step env se i j" and "handles_ok i"
  shows "handles_ok j"
  using assms
proof (induction rule: handle_step.induct)
  case (create i a w params s r t)
  then have new: "a \<notin> set (allSessions (itable i)) \<union> set (leaving i)" by (auto simp: handles_ok_def)
  obtain x where x: "session_create env w params s = Inr x"
    using create.hyps(2) by (cases "session_create env w params s") (simp_all add: MiaPostProc_Create_def)
  show ?case
  proof (cases x)
    case None
    then show ?thesis using create.hyps(2) create.prems x by (auto simp: MiaPostProc_Create_def handles_ok_def)
  next
    case (Some s1)
    then have "t = (itable i)\<lparr>allSessions := allSessions (itable i) @ [a], liveSessions := (liveSessions (itable i))(a \<mapsto> s1)\<rparr>"
      using create.hyps(2) x by (simp add: MiaPostProc_Create_def)
    then show ?thesis using new create.prems by (simp add: handles_ok_def)
  qed
next
  case (preProcess pe inst params i r t)
  then show ?case using onSession_ok by (cases inst) (auto simp: MiaPostProc_PreProcess_def)
next
  case (process ids inst pp i r t)
  then show ?case using onSession_ok by (cases inst) (auto simp: MiaPostProc_Process_def)
next
  case (flush inst isForced i r t)
  then show ?case using onSession_ok by (cases inst) (auto simp: MiaPostProc_Flush_def)
next
  case (work a f i t)
  then show ?case by (rule onSession_ok)
next
  case (leave a i)
  then show ?case by (auto simp: handles_ok_def isRegistered_def unregister_def)
next
  case (delete a i t)
  then obtain s where live: "liveSessions (itable i) a = Some s"
      and t: "t = (itable i)\<lparr>liveSessions := (liveSessions (itable i))(a := None)\<rparr>"
    by (auto simp: deleteSession_def bindE_eq_Inr split: option.splits)
  have d: "distinct (allSessions (itable i) @ leaving i)" and
      l: "dom (liveSessions (itable i)) = set (allSessions (itable i)) \<union> set (leaving i)"
    using delete.prems by (simp_all add: handles_ok_def)
  have "set (remove1 a (leaving i)) = set (leaving i) - {a}" using d by (simp add: set_remove1_eq)
  moreover have "a \<notin> set (allSessions (itable i))" using d delete.hyps(1) by auto
  ultimately have "set (allSessions (itable i)) \<union> set (leaving i) - {a} = set (allSessions (itable i)) \<union> set (remove1 a (leaving i))"
    by blast
  moreover have "distinct (allSessions (itable i) @ remove1 a (leaving i))"
    using d set_remove1_subset [of a "leaving i"] by (auto simp: distinct_remove1)
  ultimately show ?case using l t by (simp add: handles_ok_def dom_fun_upd)
next
  case (finish a i f b r t)
  then have "handles_ok (i\<lparr>itable := t\<rparr>)" using onSession_ok by (simp add: finishCall_def)
  then show ?case by (simp add: handles_ok_def)
qed (simp add: handles_ok_def)

definition handles_start :: "interface \<Rightarrow> bool" where
  "handles_start i \<longleftrightarrow> allSessions (itable i) = [] \<and> liveSessions (itable i) = Map.empty \<and> leaving i = []"

interpretation handles: invariant_system handles_start "handle_step env se" handles_ok for env se
proof unfold_locales
  fix i
  assume "handles_start i"
  then show "handles_ok i" by (simp add: handles_start_def handles_ok_def)
next
  fix i j
  assume "handles_ok i" and "handle_step env se i j"
  then show "handles_ok j" using handle_step_ok by blast
qed

text \<open>C30: The list of handles names the sessions that are alive and not about to be deleted, each once; a call of
  \<open>MiaPostProc_QuickFinish\<close> that is not interrupted by the destruction of its session answers \<open>SessionNotFound\<close> for any
  other handle and reaches a living session for these; and a session in the list can be destroyed, after which its handle is
  unknown.\<close>

theorem handles_are_live:
  assumes "handles_start i0" and "(handle_step env se)\<^sup>*\<^sup>* i0 i"
  shows "distinct (allSessions (itable i)) \<and>
    (\<forall>a. isRegistered a (itable i) = (liveSessions (itable i) a \<noteq> None \<and> a \<notin> set (leaving i))) \<and>
    (\<forall>a f b. MiaPostProc_QuickFinish a f b (itable i) =
       (if isRegistered a (itable i) then
          bindE (session_quickFinish f b (the (liveSessions (itable i) a))) (\<lambda>(r, s).
            Inr (r, (itable i)\<lparr>liveSessions := (liveSessions (itable i))(a \<mapsto> s)\<rparr>))
        else Inr (SessionNotFound, itable i))) \<and>
    (\<forall>a t f b. isRegistered a (itable i) \<and> MiaPostProc_Destroy (Some a) (itable i) = Inr t \<longrightarrow>
       MiaPostProc_QuickFinish a f b t = Inr (SessionNotFound, t) \<and> liveSessions t a = None)"
proof -
  have ok: "handles_ok i" by (rule handles.reachable_inv [OF assms])
  then have reg: "isRegistered a (itable i) \<longleftrightarrow> liveSessions (itable i) a \<noteq> None \<and> a \<notin> set (leaving i)" for a
    by (auto simp: handles_ok_def isRegistered_def)
  have quick: "MiaPostProc_QuickFinish a f b (itable i) =
       (if isRegistered a (itable i) then
          bindE (session_quickFinish f b (the (liveSessions (itable i) a))) (\<lambda>(r, s).
            Inr (r, (itable i)\<lparr>liveSessions := (liveSessions (itable i))(a \<mapsto> s)\<rparr>))
        else Inr (SessionNotFound, itable i))" for a f b
    using reg by (auto simp: MiaPostProc_QuickFinish_def finishCall_def onSession_def split: option.splits)
  have d: "distinct (allSessions (itable i))" using ok by (simp add: handles_ok_def)
  have gone: "MiaPostProc_QuickFinish a f b t = Inr (SessionNotFound, t) \<and> liveSessions t a = None"
    if "MiaPostProc_Destroy (Some a) (itable i) = Inr t" for a t f b
    using that d by (auto simp: MiaPostProc_Destroy_def deleteSession_def unregister_def MiaPostProc_QuickFinish_def isRegistered_def
        bindE_eq_Inr split: option.splits)
  show ?thesis using d reg quick gone by blast
qed

text \<open>One session is created.\<close>

definition empty_interface :: interface where
  "empty_interface = \<lparr>itable = \<lparr>allSessions = [], liveSessions = Map.empty\<rparr>, leaving = [], asking = []\<rparr>"

lemma sample_created:
  "\<exists>s. session_create mtk_env sample_world (Some sample_params) (pre_session\<lparr>sgraph := new_session_graph mtk_env\<rparr>) = Inr (Some s)"
proof -
  have "(case session_initialize mtk_env sample_world (Some sample_params) (new_session_graph mtk_env) of Inl _ \<Rightarrow> False | Inr (r, g) \<Rightarrow> r = MIAS_OK)"
    by code_simp
  then show ?thesis by (auto simp: session_create_def split: sum.splits prod.splits)
qed

theorem handles_are_live_witness:
  "\<forall>se. \<exists>i. (handle_step mtk_env se)\<^sup>*\<^sup>* empty_interface i \<and> allSessions (itable i) = [8] \<and> liveSessions (itable i) 8 \<noteq> None \<and>
     MiaPostProc_QuickFinish 9 ''a'' True (itable i) = Inr (SessionNotFound, itable i)"
proof
  fix se
  obtain s where s: "session_create mtk_env sample_world (Some sample_params) (pre_session\<lparr>sgraph := new_session_graph mtk_env\<rparr>) = Inr (Some s)"
    using sample_created by blast
  let ?t = "\<lparr>allSessions = [8], liveSessions = [8 \<mapsto> s]\<rparr>" let ?i = "empty_interface\<lparr>itable := ?t\<rparr>"
  have "handle_step mtk_env se empty_interface ?i"
    by (rule handle_step.create [where a = 8 and r = "Some 8" and w = sample_world and params = "Some sample_params"
          and s = "pre_session\<lparr>sgraph := new_session_graph mtk_env\<rparr>"])
      (simp_all add: empty_interface_def MiaPostProc_Create_def s)
  then have r: "(handle_step mtk_env se)\<^sup>*\<^sup>* empty_interface ?i" by blast
  have start: "handles_start empty_interface" by (simp add: handles_start_def empty_interface_def)
  have "\<not> isRegistered 9 (itable ?i)" by (simp add: isRegistered_def)
  then have "MiaPostProc_QuickFinish 9 ''a'' True (itable ?i) = Inr (SessionNotFound, itable ?i)"
    using conjunct1 [OF conjunct2 [OF conjunct2 [OF handles_are_live [OF start r]]], rule_format, of 9 "''a''" True] by simp
  moreover have "allSessions (itable ?i) = [8] \<and> liveSessions (itable ?i) 8 \<noteq> None" by simp
  ultimately show "\<exists>i. (handle_step mtk_env se)\<^sup>*\<^sup>* empty_interface i \<and> allSessions (itable i) = [8] \<and> liveSessions (itable i) 8 \<noteq> None \<and>
      MiaPostProc_QuickFinish 9 ''a'' True (itable i) = Inr (SessionNotFound, itable i)"
    using r by blast
qed

text \<open>
  The destruction of a session between the look-up and the call of \<open>MiaPostProc_QuickFinish\<close>: the
  call reaches freed memory.
\<close>

lemma finish_after_delete: "deleteSession a t = Inr t' \<Longrightarrow> finishCall a f b t' = Inl BadFree"
  by (auto simp: deleteSession_def finishCall_def onSession_def bindE_eq_Inr split: option.splits)

text \<open>The reading of an image name is the general look-up with cleared out parameters.\<close>

lemma getVTagValueCount_reads:
  "getVTagValueCount env md name =
     (case getVTagAndCount env md (Some name) None 0 of (VOK, Some p, n) \<Rightarrow> Some (p, n) | _ \<Rightarrow> None)"
  by (simp add: getVTagValueCount_def getVTagAndCount_def getTagValueCount_def getVTagValue_def getTagValue_def
      split: option.splits sum.splits)

text \<open>The value a session writes for an input number is what the tag writer of a library with room does.\<close>

lemma setVTagValue_writes:
  assumes "lib_ok lib" and "roomy lib"
  shows "rel_option (\<lambda>m m'. entry_of m = entry_of m' \<and> tag_type m = tag_type m') (setVTagValue env name v md)
    (snd (setVTag env lib md (Some name) (Some \<lparr>e_count = 1, e_data = write_u32 v (\<lambda>_. 0)\<rparr>)))"
proof (cases md)
  case (Some m)
  show ?thesis
  proof (cases "getTagID env name")
    case (Inr t)
    let ?e = "\<lparr>e_count = 1, e_data = write_u32 v (\<lambda>_. 0)\<rparr>"
    obtain st m' where "find_and_set lib m t ?e = (st, m')" by fastforce
    then show ?thesis using set_entry [OF assms, of m t ?e] Some Inr by (simp add: setVTagValue_def setVTag_def setTagValue_def)
  qed (simp add: Some setVTagValue_def setVTag_def)
qed (simp add: setVTagValue_def setVTag_def)

end
