(* ===== verification/DebugData.thy ===== *)
theory DebugData
  imports MiaPrelude
begin

text \<open>
  The buffers for debug data that plugins hand on with their images
  (\<^verbatim>\<open>mivifwk/common/offlineDebugDataUtils/OfflineDebugDataManager.cpp\<close>): fifty slots with a
  reference count, and a thread that gives unused buffers back.  The heap maps the address of a
  block to its bytes.  The allocator is a parameter that is told the heap, the size, and which
  of the calls of a request it answers.  A buffer is handed out as the index of its slot, which
  the caller uses as a pointer.
\<close>

abbreviation MaxNumOfflineDebugData :: nat where "MaxNumOfflineDebugData \<equiv> 50"

record OfflineDebugData =
  ddSize :: nat
  ddData :: "nat option"
  referenceCount :: int

type_synonym byte_heap = "nat \<Rightarrow> u8 list option"
type_synonym allocator = "nat \<Rightarrow> byte_heap \<Rightarrow> nat \<Rightarrow> nat option"

record OfflineDebugDataManager =
  mOfflineDebugDataArr :: "OfflineDebugData list"
  mReclaimThreadActive :: bool
  mIsMihalHasSession :: bool
  mIsVTOpen :: bool
  bytesAt :: byte_heap

definition new_OfflineDebugDataManager :: OfflineDebugDataManager where
  "new_OfflineDebugDataManager =
     \<lparr>mOfflineDebugDataArr = replicate MaxNumOfflineDebugData \<lparr>ddSize = 0, ddData = None, referenceCount = 0\<rparr>,
      mReclaimThreadActive = False, mIsMihalHasSession = False, mIsVTOpen = False, bytesAt = Map.empty\<rparr>"

subsection \<open>The flags\<close>

text \<open>Nothing is noted before the thread runs.\<close>

definition setSessionStatus :: "bool \<Rightarrow> OfflineDebugDataManager \<Rightarrow> OfflineDebugDataManager" where
  "setSessionStatus sessionStatus s = (if \<not> mReclaimThreadActive s then s else s\<lparr>mIsMihalHasSession := sessionStatus\<rparr>)"

definition setVTStatus :: "bool \<Rightarrow> OfflineDebugDataManager \<Rightarrow> OfflineDebugDataManager" where
  "setVTStatus vtStatus s = (if \<not> mReclaimThreadActive s then s else s\<lparr>mIsVTOpen := vtStatus\<rparr>)"

subsection \<open>Taking a buffer\<close>

definition freeBlock :: "nat \<Rightarrow> byte_heap \<Rightarrow> byte_heap outcome" where
  "freeBlock a h = (if h a = None then Inl BadFree else Inr (h(a := None)))"

definition clearBlock :: "nat \<Rightarrow> nat \<Rightarrow> byte_heap \<Rightarrow> byte_heap outcome" where
  "clearBlock a oriSize h =
     (case h a of
        None \<Rightarrow> Inl BadFree
      | Some bs \<Rightarrow> if length bs < oriSize then Inl BadIndex else Inr (h(a \<mapsto> replicate oriSize 0 @ drop oriSize bs)))"

abbreviation setSlot :: "nat \<Rightarrow> OfflineDebugData \<Rightarrow> OfflineDebugDataManager \<Rightarrow> OfflineDebugDataManager" where
  "setSlot i d s \<equiv> s\<lparr>mOfflineDebugDataArr := (mOfflineDebugDataArr s)[i := d]\<rparr>"

text \<open>A new block for slot \<open>i\<close>; a slot that gets none has size 0.\<close>

definition fillSlot :: "allocator \<Rightarrow> nat \<Rightarrow> nat \<Rightarrow> nat \<Rightarrow> OfflineDebugDataManager \<Rightarrow> bool \<times> OfflineDebugDataManager" where
  "fillSlot malloc n oriSize i s =
     (case malloc n (bytesAt s) oriSize of
        Some a \<Rightarrow> (True, setSlot i \<lparr>ddSize = oriSize, ddData = Some a, referenceCount = referenceCount (mOfflineDebugDataArr s ! i) + 1\<rparr>
                       (s\<lparr>bytesAt := (bytesAt s)(a \<mapsto> replicate oriSize 0)\<rparr>))
      | None \<Rightarrow> (False, setSlot i \<lparr>ddSize = 0, ddData = None, referenceCount = referenceCount (mOfflineDebugDataArr s ! i)\<rparr> s))"

text \<open>The first loop takes a free buffer of the size, or an empty slot.\<close>

fun takeFree :: "allocator \<Rightarrow> nat \<Rightarrow> nat list \<Rightarrow> OfflineDebugDataManager \<Rightarrow> (nat option \<times> OfflineDebugDataManager) outcome" where
  "takeFree malloc oriSize [] s = Inr (None, s)"
| "takeFree malloc oriSize (i # rest) s =
     (let d = mOfflineDebugDataArr s ! i in
      case ddData d of
        Some a \<Rightarrow>
          if ddSize d = oriSize \<and> referenceCount d = 0
          then bindE (clearBlock a oriSize (bytesAt s)) (\<lambda>h.
                 Inr (Some i, setSlot i (d\<lparr>referenceCount := referenceCount d + 1\<rparr>) (s\<lparr>bytesAt := h\<rparr>)))
          else takeFree malloc oriSize rest s
      | None \<Rightarrow>
          if referenceCount d = 0
          then (case fillSlot malloc i oriSize i s of
                  (True, s1) \<Rightarrow> Inr (Some i, s1)
                | (False, s1) \<Rightarrow> takeFree malloc oriSize rest s1)
          else takeFree malloc oriSize rest s)"

text \<open>The second one gives an unreferenced block back and allocates another in its place.\<close>

fun takeReclaimed :: "allocator \<Rightarrow> nat \<Rightarrow> nat list \<Rightarrow> OfflineDebugDataManager \<Rightarrow> (nat option \<times> OfflineDebugDataManager) outcome" where
  "takeReclaimed malloc oriSize [] s = Inr (None, s)"
| "takeReclaimed malloc oriSize (i # rest) s =
     (let d = mOfflineDebugDataArr s ! i in
      case ddData d of
        Some a \<Rightarrow>
          if referenceCount d = 0
          then bindE (freeBlock a (bytesAt s)) (\<lambda>h.
                 case fillSlot malloc (MaxNumOfflineDebugData + i) oriSize i (s\<lparr>bytesAt := h\<rparr>) of
                   (True, s1) \<Rightarrow> Inr (Some i, s1)
                 | (False, s1) \<Rightarrow> takeReclaimed malloc oriSize rest s1)
          else takeReclaimed malloc oriSize rest s
      | None \<Rightarrow> takeReclaimed malloc oriSize rest s)"

text \<open>Before the lock on the slots the session is noted; under it the thread is started and a slot is searched.\<close>

definition noteSession :: "OfflineDebugDataManager \<Rightarrow> OfflineDebugDataManager" where
  "noteSession s = (if mIsMihalHasSession s then s else setSessionStatus True s)"

definition takeSlot :: "allocator \<Rightarrow> nat \<Rightarrow> OfflineDebugDataManager \<Rightarrow> (nat option \<times> OfflineDebugDataManager) outcome" where
  "takeSlot malloc oriSize s =
     (let slots = [0..<MaxNumOfflineDebugData]
      in bindE (takeFree malloc oriSize slots (s\<lparr>mReclaimThreadActive := True\<rparr>)) (\<lambda>(found, s1).
           case found of Some i \<Rightarrow> Inr (Some i, s1) | None \<Rightarrow> takeReclaimed malloc oriSize slots s1))"

definition getDebugDataBufferAndAddReference ::
  "allocator \<Rightarrow> nat \<Rightarrow> OfflineDebugDataManager \<Rightarrow> (nat option \<times> OfflineDebugDataManager) outcome" where
  "getDebugDataBufferAndAddReference malloc oriSize s = takeSlot malloc oriSize (noteSession s)"

subsection \<open>Giving it back\<close>

text \<open>
  \<open>pDebugData\<close> is the pointer given, with the data pointer that is read through it; the result is
  whether the call succeeds.
\<close>

definition subDebugDataReference :: "nat option option \<Rightarrow> OfflineDebugDataManager \<Rightarrow> bool \<times> OfflineDebugDataManager" where
  "subDebugDataReference pDebugData s =
     (case pDebugData of
        None \<Rightarrow> (False, s)
      | Some p \<Rightarrow>
          (case List.find (\<lambda>i. ddData (mOfflineDebugDataArr s ! i) = p) [0..<MaxNumOfflineDebugData] of
             None \<Rightarrow> (False, s)
           | Some i \<Rightarrow>
               let d = mOfflineDebugDataArr s ! i
               in if 0 < referenceCount d then (True, setSlot i (d\<lparr>referenceCount := referenceCount d - 1\<rparr>) s)
                  else (False, s)))"

subsection \<open>The thread\<close>

abbreviation emptySlot :: OfflineDebugData where
  "emptySlot \<equiv> \<lparr>ddSize = 0, ddData = None, referenceCount = 0\<rparr>"

text \<open>Whatever the count, the block is given back.\<close>

fun reclaimAll :: "nat list \<Rightarrow> OfflineDebugDataManager \<Rightarrow> OfflineDebugDataManager outcome" where
  "reclaimAll [] s = Inr s"
| "reclaimAll (i # rest) s =
     (case ddData (mOfflineDebugDataArr s ! i) of
        None \<Rightarrow> reclaimAll rest s
      | Some a \<Rightarrow> bindE (freeBlock a (bytesAt s)) (\<lambda>h. reclaimAll rest (setSlot i emptySlot (s\<lparr>bytesAt := h\<rparr>))))"

fun reclaimUnused :: "nat list \<Rightarrow> OfflineDebugDataManager \<Rightarrow> OfflineDebugDataManager outcome" where
  "reclaimUnused [] s = Inr s"
| "reclaimUnused (i # rest) s =
     (let d = mOfflineDebugDataArr s ! i in
      case ddData d of
        Some a \<Rightarrow>
          if referenceCount d = 0
          then bindE (freeBlock a (bytesAt s)) (\<lambda>h.
                 reclaimUnused rest (setSlot i (d\<lparr>ddData := None, ddSize := 0\<rparr>) (s\<lparr>bytesAt := h\<rparr>)))
          else reclaimUnused rest s
      | None \<Rightarrow>
          if 0 < referenceCount d then reclaimUnused rest (setSlot i (d\<lparr>referenceCount := 0, ddSize := 0\<rparr>) s)
          else reclaimUnused rest s)"

text \<open>
  One round of the loop: the test of the flags, \<open>None\<close> when there is nothing to do and otherwise
  whether everything is given back, then the part that locks the slots, with whether the thread ends.
  The lock on the flags is held from the wait to the end of the round, the one on the slots not: the
  two parts are steps of their own in the executions below.
\<close>

definition reclaimTest :: "bool \<Rightarrow> OfflineDebugDataManager \<Rightarrow> bool option" where
  "reclaimTest timeout s =
     (if \<not> mIsMihalHasSession s \<and> \<not> mIsVTOpen s then (if \<not> timeout then None else Some True) else Some False)"

definition reclaimSlots :: "bool \<Rightarrow> OfflineDebugDataManager \<Rightarrow> (bool \<times> OfflineDebugDataManager) outcome" where
  "reclaimSlots everything s =
     (if everything
      then bindE (reclaimAll [0..<MaxNumOfflineDebugData] s) (\<lambda>s1. Inr (True, s1\<lparr>mReclaimThreadActive := False\<rparr>))
      else bindE (reclaimUnused [0..<MaxNumOfflineDebugData] s) (\<lambda>s1. Inr (False, s1)))"

definition offlineDebugDataReclaim :: "bool \<Rightarrow> OfflineDebugDataManager \<Rightarrow> (bool \<times> OfflineDebugDataManager) outcome" where
  "offlineDebugDataReclaim timeout s =
     (case reclaimTest timeout s of None \<Rightarrow> Inr (False, s) | Some everything \<Rightarrow> reclaimSlots everything s)"

subsection \<open>Slots and blocks\<close>

text \<open>Every block belongs to one slot, and what a slot points to is a block.\<close>

definition owns :: "('i \<Rightarrow> nat option) \<Rightarrow> (nat \<Rightarrow> 'b option) \<Rightarrow> bool" where
  "owns D h \<longleftrightarrow> (\<forall>i j a. D i = Some a \<and> D j = Some a \<longrightarrow> i = j) \<and> (\<forall>a. h a \<noteq> None \<longleftrightarrow> (\<exists>i. D i = Some a))"

lemma owns_unique: "owns D h \<Longrightarrow> D i = Some a \<Longrightarrow> D j = Some a \<Longrightarrow> j = i"
  unfolding owns_def by blast

lemma owns_block: "owns D h \<Longrightarrow> D i = Some a \<Longrightarrow> \<exists>b. h a = Some b"
  unfolding owns_def by blast

lemma owns_unused: "owns D h \<Longrightarrow> h a = None \<Longrightarrow> D i \<noteq> Some a"
  unfolding owns_def by blast

lemma owns_free:
  assumes o: "owns D h" and i: "D i = Some a"
  shows "owns (D(i := None)) (h(a := None))"
  unfolding owns_def
proof (intro conjI allI)
  show "(D(i := None)) j = Some c \<and> (D(i := None)) k = Some c \<longrightarrow> j = k" for j k c
    using owns_unique [OF o, of k c j] by (simp split: if_splits)
  show "((h(a := None)) c \<noteq> None) = (\<exists>j. (D(i := None)) j = Some c)" for c
  proof (cases "c = a")
    case True
    then show ?thesis using owns_unique [OF o i] by auto
  next
    case False
    then have "(D(i := None)) j = Some c \<longleftrightarrow> D j = Some c" for j using i by auto
    then show ?thesis using o False by (simp add: owns_def)
  qed
qed

lemma owns_new:
  assumes o: "owns D h" and i: "D i = None" and a: "h a = None"
  shows "owns (D(i \<mapsto> a)) (h(a \<mapsto> b))"
  unfolding owns_def
proof (intro conjI allI)
  show "(D(i \<mapsto> a)) j = Some c \<and> (D(i \<mapsto> a)) k = Some c \<longrightarrow> j = k" for j k c
    using owns_unique [OF o, of k c j] owns_unused [OF o a] by (auto split: if_splits)
  show "((h(a \<mapsto> b)) c \<noteq> None) = (\<exists>j. (D(i \<mapsto> a)) j = Some c)" for c
  proof (cases "c = a")
    case True
    then show ?thesis by auto
  next
    case False
    then have "(D(i \<mapsto> a)) j = Some c \<longleftrightarrow> D j = Some c" for j using i by auto
    then show ?thesis using o False by (simp add: owns_def)
  qed
qed

lemma owns_write: "owns D h \<Longrightarrow> D i = Some a \<Longrightarrow> owns D (h(a \<mapsto> b))"
  unfolding owns_def fun_upd_def by (metis option.distinct(1))

text \<open>\<open>held\<close> are the slots whose buffer has been handed out and not been given back.\<close>

definition slotData :: "OfflineDebugData list \<Rightarrow> nat \<Rightarrow> nat option" where
  "slotData ds i = (if i < length ds then ddData (ds ! i) else None)"

lemma slotData_update: "i < length ds \<Longrightarrow> slotData (ds[i := d]) = (slotData ds)(i := ddData d)"
  by (auto simp: slotData_def fun_eq_iff nth_list_update)

definition slots_ok :: "OfflineDebugData list \<Rightarrow> byte_heap \<Rightarrow> nat set \<Rightarrow> bool" where
  "slots_ok ds h held \<longleftrightarrow>
     length ds = MaxNumOfflineDebugData \<and>
     (\<forall>i < MaxNumOfflineDebugData. referenceCount (ds ! i) = (if i \<in> held then 1 else 0)) \<and>
     (\<forall>i \<in> held. slotData ds i \<noteq> None) \<and>
     (\<forall>i a. slotData ds i = Some a \<longrightarrow> map_option length (h a) = Some (ddSize (ds ! i))) \<and>
     owns (slotData ds) h"

text \<open>The allocator returns addresses that are not in use.\<close>

definition malloc_ok :: "allocator \<Rightarrow> bool" where
  "malloc_ok malloc \<longleftrightarrow> (\<forall>n h oriSize a. malloc n h oriSize = Some a \<longrightarrow> h a = None)"

lemma slots_okD:
  assumes "slots_ok ds h held"
  shows "length ds = MaxNumOfflineDebugData"
    "i < MaxNumOfflineDebugData \<Longrightarrow> referenceCount (ds ! i) = (if i \<in> held then 1 else 0)"
    "i \<in> held \<Longrightarrow> i < MaxNumOfflineDebugData \<and> (\<exists>a. slotData ds i = Some a)"
    "i < MaxNumOfflineDebugData \<Longrightarrow> ddData (ds ! i) = slotData ds i"
    "slotData ds i = Some a \<Longrightarrow> map_option length (h a) = Some (ddSize (ds ! i))"
    "owns (slotData ds) h"
    "slotData ds i = Some a \<Longrightarrow> i < MaxNumOfflineDebugData"
  using assms by (auto simp: slots_ok_def slotData_def split: if_splits)

lemma slots_ok_new: "slots_ok (mOfflineDebugDataArr new_OfflineDebugDataManager) (bytesAt new_OfflineDebugDataManager) {}"
  by (simp add: slots_ok_def new_OfflineDebugDataManager_def owns_def slotData_def)

text \<open>What an operation does to one slot: it loses its block, gets one, is taken, or given back.\<close>

lemma slots_ok_update:
  assumes ok: "slots_ok ds h held" and i: "i < MaxNumOfflineDebugData"
    and o: "owns ((slotData ds)(i := ddData d)) h'"
    and others: "\<And>j a. j \<noteq> i \<Longrightarrow> slotData ds j = Some a \<Longrightarrow> h' a = h a"
    and d: "referenceCount d = (if i \<in> held' then 1 else 0)" "i \<in> held' \<Longrightarrow> ddData d \<noteq> None"
      "\<And>a. ddData d = Some a \<Longrightarrow> map_option length (h' a) = Some (ddSize d)"
    and held: "held' - {i} = held - {i}"
  shows "slots_ok (ds[i := d]) h' held'"
  unfolding slots_ok_def
proof (intro conjI allI impI ballI)
  note D = slots_okD [OF ok]
  have s: "slotData (ds[i := d]) = (slotData ds)(i := ddData d)" using i D(1) by (simp add: slotData_update)
  have same: "j \<in> held' \<longleftrightarrow> j \<in> held" if "j \<noteq> i" for j using held that by blast
  show "length (ds[i := d]) = MaxNumOfflineDebugData" by (simp add: D(1))
  show "referenceCount (ds[i := d] ! j) = (if j \<in> held' then 1 else 0)" if "j < MaxNumOfflineDebugData" for j
    using D(1,2) same d(1) that by (cases "j = i") simp_all
  show "slotData (ds[i := d]) j \<noteq> None" if "j \<in> held'" for j
    using D(3) [of j] same [of j] that d(2) by (cases "j = i") (auto simp: s)
  show "map_option length (h' a) = Some (ddSize (ds[i := d] ! j))" if "slotData (ds[i := d]) j = Some a" for j a
  proof (cases "j = i")
    case True
    then show ?thesis using that d(3) i D(1) by (simp add: s)
  next
    case False
    then show ?thesis using that D(5) [of j a] others [of j a] by (simp add: s)
  qed
  show "owns (slotData (ds[i := d])) h'" using o by (simp only: s)
qed

lemma slot_freed:
  assumes ok: "slots_ok ds h held" and i: "i < MaxNumOfflineDebugData" "i \<notin> held" "slotData ds i = Some a"
  shows "slots_ok (ds[i := \<lparr>ddSize = n, ddData = None, referenceCount = 0\<rparr>]) (h(a := None)) held"
proof (rule slots_ok_update [OF ok i(1)])
  show "owns ((slotData ds)(i := ddData \<lparr>ddSize = n, ddData = None, referenceCount = 0\<rparr>)) (h(a := None))"
    using owns_free [OF slots_okD(6) [OF ok] i(3)] by simp
  show "(h(a := None)) c = h c" if "j \<noteq> i" "slotData ds j = Some c" for j c
    using owns_unique [OF slots_okD(6) [OF ok] i(3)] that by auto
qed (use i(2) in auto)

lemma slot_filled:
  assumes ok: "slots_ok ds h held" and i: "i < MaxNumOfflineDebugData" "slotData ds i = None" and a: "h a = None"
  shows "slots_ok (ds[i := \<lparr>ddSize = length bs, ddData = Some a, referenceCount = 1\<rparr>]) (h(a \<mapsto> bs)) (insert i held)"
proof (rule slots_ok_update [OF ok i(1)])
  show "owns ((slotData ds)(i := ddData \<lparr>ddSize = length bs, ddData = Some a, referenceCount = 1\<rparr>)) (h(a \<mapsto> bs))"
    using owns_new [OF slots_okD(6) [OF ok] i(2) a] by simp
  show "(h(a \<mapsto> bs)) c = h c" if "j \<noteq> i" "slotData ds j = Some c" for j c
    using owns_unused [OF slots_okD(6) [OF ok] a] that by auto
qed auto

lemma slot_taken:
  assumes ok: "slots_ok ds h held" and i: "i < MaxNumOfflineDebugData" "slotData ds i = Some a" and bs: "length bs = ddSize (ds ! i)"
  shows "slots_ok (ds[i := (ds ! i)\<lparr>referenceCount := 1\<rparr>]) (h(a \<mapsto> bs)) (insert i held)"
proof (rule slots_ok_update [OF ok i(1)])
  have d: "ddData (ds ! i) = Some a" using slots_okD(4) [OF ok i(1)] i(2) by simp
  have "(slotData ds)(i := Some a) = slotData ds" by (rule fun_upd_idem) (rule i(2))
  then show "owns ((slotData ds)(i := ddData ((ds ! i)\<lparr>referenceCount := 1\<rparr>))) (h(a \<mapsto> bs))"
    using owns_write [OF slots_okD(6) [OF ok] i(2)] d by simp
  show "(h(a \<mapsto> bs)) c = h c" if "j \<noteq> i" "slotData ds j = Some c" for j c
    using owns_unique [OF slots_okD(6) [OF ok] i(2)] that by auto
  show "ddData ((ds ! i)\<lparr>referenceCount := 1\<rparr>) \<noteq> None" by (simp add: d)
  show "map_option length ((h(a \<mapsto> bs)) c) = Some (ddSize ((ds ! i)\<lparr>referenceCount := 1\<rparr>))" if "ddData ((ds ! i)\<lparr>referenceCount := 1\<rparr>) = Some c" for c
    using that d bs by auto
qed auto

lemma slot_given_back:
  assumes ok: "slots_ok ds h held" and i: "i \<in> held"
  shows "slots_ok (ds[i := (ds ! i)\<lparr>referenceCount := 0\<rparr>]) h (held - {i})"
  using slots_okD(3) [OF ok i] slots_okD(4,5,6) [OF ok]
  by (intro slots_ok_update [OF ok]) (auto simp: fun_upd_idem)

lemma slot_empty:
  assumes ok: "slots_ok ds h held" and i: "i < MaxNumOfflineDebugData" "slotData ds i = None"
  shows "slots_ok (ds[i := \<lparr>ddSize = n, ddData = None, referenceCount = 0\<rparr>]) h held"
  using slots_okD(3) [OF ok, of i] slots_okD(6) [OF ok] i
  by (intro slots_ok_update [OF ok]) (auto simp: fun_upd_idem)

subsection \<open>The operations\<close>

definition good :: "OfflineDebugDataManager \<Rightarrow> nat set \<Rightarrow> bool" where
  "good s held = slots_ok (mOfflineDebugDataArr s) (bytesAt s) held"

text \<open>The buffers handed out before are as they were, and so are the flags.\<close>

definition kept :: "nat set \<Rightarrow> OfflineDebugDataManager \<Rightarrow> OfflineDebugDataManager \<Rightarrow> bool" where
  "kept held s s' \<longleftrightarrow>
     (\<forall>j \<in> held. mOfflineDebugDataArr s' ! j = mOfflineDebugDataArr s ! j \<and>
        (\<forall>a. slotData (mOfflineDebugDataArr s) j = Some a \<longrightarrow> bytesAt s' a = bytesAt s a)) \<and>
     length (mOfflineDebugDataArr s') = length (mOfflineDebugDataArr s) \<and>
     mReclaimThreadActive s' = mReclaimThreadActive s \<and> mIsMihalHasSession s' = mIsMihalHasSession s \<and> mIsVTOpen s' = mIsVTOpen s"

lemma kept_refl [simp]: "kept held s s"
  by (simp add: kept_def)

lemma kept_trans:
  assumes "kept held s t" and "kept held t u"
  shows "kept held s u"
proof -
  have "slotData (mOfflineDebugDataArr t) j = slotData (mOfflineDebugDataArr s) j" if "j \<in> held" for j
    using assms(1) that by (auto simp: kept_def slotData_def)
  then show ?thesis using assms by (auto simp: kept_def)
qed

lemma kept_slot:
  assumes "good s held" and "i \<notin> held" and "\<And>a. slotData (mOfflineDebugDataArr s) i \<noteq> Some a \<Longrightarrow> bytesAt s a \<noteq> None \<Longrightarrow> h a = bytesAt s a"
  shows "kept held s (setSlot i d (s\<lparr>bytesAt := h\<rparr>))"
proof -
  note ok = assms(1) [unfolded good_def]
  have "h a = bytesAt s a" if "j \<in> held" "slotData (mOfflineDebugDataArr s) j = Some a" for j a
    using assms(2,3) that owns_unique [OF slots_okD(6) [OF ok], of j a i] owns_block [OF slots_okD(6) [OF ok] that(2)] by auto
  moreover have "i \<noteq> j" if "j \<in> held" for j using assms(2) that by blast
  ultimately show ?thesis by (simp add: kept_def)
qed

text \<open>What a request that succeeds has done.\<close>

definition handed :: "nat \<Rightarrow> nat set \<Rightarrow> nat \<Rightarrow> OfflineDebugDataManager \<Rightarrow> bool" where
  "handed oriSize held i s' \<longleftrightarrow> i < MaxNumOfflineDebugData \<and> i \<notin> held \<and> good s' (insert i held) \<and>
     (\<exists>a. slotData (mOfflineDebugDataArr s') i = Some a \<and> bytesAt s' a = Some (replicate oriSize 0))"

lemma unheld_empty:
  assumes "good s held" and "i < MaxNumOfflineDebugData"
  shows "referenceCount (mOfflineDebugDataArr s ! i) = 0 \<longleftrightarrow> i \<notin> held"
  using slots_okD(2) [OF assms(1) [unfolded good_def] assms(2)] by simp

lemma fillSlot_ok:
  assumes m: "malloc_ok malloc" and ok: "good s held" and i: "i < MaxNumOfflineDebugData" "slotData (mOfflineDebugDataArr s) i = None"
    and f: "fillSlot malloc n oriSize i s = (b, s')"
  shows "kept held s s' \<and> (if b then handed oriSize held i s' else good s' held) \<and> (b \<longleftrightarrow> malloc n (bytesAt s) oriSize \<noteq> None)"
proof -
  note ok' = ok [unfolded good_def]
  have h: "i \<notin> held" using slots_okD(3) [OF ok', of i] i(2) by auto
  then have rc: "referenceCount (mOfflineDebugDataArr s ! i) = 0" using slots_okD(2) [OF ok' i(1)] by simp
  show ?thesis
  proof (cases "malloc n (bytesAt s) oriSize")
    case None
    then have s': "b = False" "s' = setSlot i \<lparr>ddSize = 0, ddData = None, referenceCount = 0\<rparr> s" using f rc by (simp_all add: fillSlot_def)
    have "i \<noteq> j" if "j \<in> held" for j using h that by blast
    then have "kept held s s'" by (simp add: s' kept_def)
    moreover have "good s' held" using slot_empty [OF ok' i] by (simp add: s' good_def)
    ultimately show ?thesis using None s' by simp
  next
    case (Some a)
    then have a: "bytesAt s a = None" using m by (simp add: malloc_ok_def)
    have s': "b = True" "s' = setSlot i \<lparr>ddSize = oriSize, ddData = Some a, referenceCount = 1\<rparr> (s\<lparr>bytesAt := (bytesAt s)(a \<mapsto> replicate oriSize 0)\<rparr>)"
      using f rc Some by (simp_all add: fillSlot_def)
    have "kept held s s'" using ok h a unfolding s' by (intro kept_slot) auto
    moreover have "good s' (insert i held)" using slot_filled [OF ok' i a, of "replicate oriSize 0"] by (simp add: s' good_def)
    ultimately show ?thesis using Some s' h i(1) slots_okD(1) [OF ok'] by (simp add: handed_def slotData_def)
  qed
qed

lemma slotData_at: "good s held \<Longrightarrow> i < MaxNumOfflineDebugData \<Longrightarrow> ddData (mOfflineDebugDataArr s ! i) = slotData (mOfflineDebugDataArr s) i"
  using slots_okD(4) unfolding good_def .

lemma takeFree_ok:
  assumes "malloc_ok malloc" and "set slots \<subseteq> {..<MaxNumOfflineDebugData}" and "good s held"
  shows "\<exists>r s'. takeFree malloc oriSize slots s = Inr (r, s') \<and> kept held s s' \<and>
    (case r of Some i \<Rightarrow> handed oriSize held i s'
     | None \<Rightarrow> good s' held \<and> ((\<forall>n h. malloc n h oriSize \<noteq> None) \<longrightarrow> s' = s \<and> (\<forall>i \<in> set slots. slotData (mOfflineDebugDataArr s) i \<noteq> None)))"
  using assms(2,3)
proof (induction slots arbitrary: s)
  case (Cons i rest)
  then have i: "i < MaxNumOfflineDebugData" and rest: "set rest \<subseteq> {..<MaxNumOfflineDebugData}" by auto
  note d = slotData_at [OF Cons.prems(2) i] and ok = Cons.prems(2) [unfolded good_def] and rc = unheld_empty [OF Cons.prems(2) i]
  show ?case
  proof (cases "slotData (mOfflineDebugDataArr s) i")
    case None
    then have h: "i \<notin> held" using slots_okD(3) [OF ok, of i] by auto
    obtain b s1 where f: "fillSlot malloc i oriSize i s = (b, s1)" by fastforce
    note F = fillSlot_ok [OF assms(1) Cons.prems(2) i None f]
    show ?thesis
    proof (cases b)
      case True
      then show ?thesis using F f None d h rc by (auto simp: Let_def)
    next
      case False
      then have g1: "good s1 held" and out: "(\<forall>n h. malloc n h oriSize \<noteq> None) = False" using F by auto
      obtain r s' where r: "takeFree malloc oriSize rest s1 = Inr (r, s')" "kept held s1 s'"
        "case r of Some i \<Rightarrow> handed oriSize held i s' | None \<Rightarrow> good s' held" using Cons.IH [OF rest g1] by (auto split: option.splits)
      show ?thesis
      proof (intro exI conjI)
        have "takeFree malloc oriSize (i # rest) s = takeFree malloc oriSize rest s1" using f None d h rc False by (simp add: Let_def)
        then show "takeFree malloc oriSize (i # rest) s = Inr (r, s')" using r(1) by simp
        show "kept held s s'" using kept_trans [of held s s1 s'] F r(2) by blast
      qed (use r(3) in \<open>cases r; simp only: option.case out simp_thms\<close>)
    qed
  next
    case (Some a)
    show ?thesis
    proof (cases "ddSize (mOfflineDebugDataArr s ! i) = oriSize \<and> i \<notin> held")
      case True
      let ?s' = "setSlot i ((mOfflineDebugDataArr s ! i)\<lparr>referenceCount := 1\<rparr>) (s\<lparr>bytesAt := (bytesAt s)(a \<mapsto> replicate oriSize 0)\<rparr>)"
      obtain bs where bs: "bytesAt s a = Some bs" "length bs = oriSize" using slots_okD(5) [OF ok Some] True by auto
      have t: "takeFree malloc oriSize (i # rest) s = Inr (Some i, ?s')"
        using True Some d rc bs by (simp add: Let_def clearBlock_def)
      have k: "kept held s ?s'"
        by (rule kept_slot [OF Cons.prems(2)]) (use True Some in simp_all)
      have "good ?s' (insert i held)" using slot_taken [OF ok i Some, of "replicate oriSize 0"] True by (simp add: good_def)
      moreover have "slotData (mOfflineDebugDataArr ?s') i = Some a"
        using i slots_okD(1) [OF ok] d [unfolded Some] by (simp add: slotData_def)
      moreover have "bytesAt ?s' a = Some (replicate oriSize 0)" by simp
      ultimately have "handed oriSize held i ?s'" unfolding handed_def using True i by blast
      then show ?thesis using t k by (intro exI [of _ "Some i"] exI [of _ ?s']) (simp only: option.case simp_thms)
    next
      case False
      then have "takeFree malloc oriSize (i # rest) s = takeFree malloc oriSize rest s" using Some d rc by (auto simp: Let_def)
      moreover obtain r s' where "takeFree malloc oriSize rest s = Inr (r, s')" "kept held s s'"
        "case r of Some i \<Rightarrow> handed oriSize held i s'
         | None \<Rightarrow> good s' held \<and> ((\<forall>n h. malloc n h oriSize \<noteq> None) \<longrightarrow> s' = s \<and> (\<forall>i \<in> set rest. slotData (mOfflineDebugDataArr s) i \<noteq> None))"
        using Cons.IH [OF rest Cons.prems(2)] by blast
      ultimately show ?thesis using Some by (auto split: option.splits)
    qed
  qed
qed simp

lemma takeReclaimed_ok:
  assumes "malloc_ok malloc" and "set slots \<subseteq> {..<MaxNumOfflineDebugData}" and "good s held"
  shows "\<exists>r s'. takeReclaimed malloc oriSize slots s = Inr (r, s') \<and> kept held s s' \<and>
    (case r of Some i \<Rightarrow> handed oriSize held i s'
     | None \<Rightarrow> good s' held \<and> ((\<forall>n h. malloc n h oriSize \<noteq> None) \<longrightarrow> s' = s \<and> (\<forall>i \<in> set slots. slotData (mOfflineDebugDataArr s) i \<noteq> None \<longrightarrow> i \<in> held)))"
  using assms(2,3)
proof (induction slots arbitrary: s)
  case (Cons i rest)
  then have i: "i < MaxNumOfflineDebugData" and rest: "set rest \<subseteq> {..<MaxNumOfflineDebugData}" by auto
  note d = slotData_at [OF Cons.prems(2) i] and ok = Cons.prems(2) [unfolded good_def] and rc = unheld_empty [OF Cons.prems(2) i]
  show ?case
  proof (cases "i \<in> held \<or> slotData (mOfflineDebugDataArr s) i = None")
    case True
    then have "takeReclaimed malloc oriSize (i # rest) s = takeReclaimed malloc oriSize rest s"
      using d rc by (auto simp: Let_def split: option.splits)
    moreover obtain r s' where "takeReclaimed malloc oriSize rest s = Inr (r, s')" "kept held s s'"
      "case r of Some i \<Rightarrow> handed oriSize held i s'
       | None \<Rightarrow> good s' held \<and> ((\<forall>n h. malloc n h oriSize \<noteq> None) \<longrightarrow> s' = s \<and> (\<forall>i \<in> set rest. slotData (mOfflineDebugDataArr s) i \<noteq> None \<longrightarrow> i \<in> held))"
      using Cons.IH [OF rest Cons.prems(2)] by blast
    ultimately show ?thesis using True by (auto split: option.splits)
  next
    case False
    then obtain a where a: "slotData (mOfflineDebugDataArr s) i = Some a" and h: "i \<notin> held" by blast
    let ?s0 = "s\<lparr>bytesAt := (bytesAt s)(a := None)\<rparr>"
    obtain bs where bs: "bytesAt s a = Some bs" using slots_okD(5) [OF ok a] by auto
    let ?e = "setSlot i \<lparr>ddSize = ddSize (mOfflineDebugDataArr s ! i), ddData = None, referenceCount = 0\<rparr> ?s0"
    have fill: "fillSlot malloc n oriSize i ?s0 = fillSlot malloc n oriSize i ?e" for n
      using slots_okD(1) [OF ok] i h rc
      by (cases "malloc n ((bytesAt s)(a := None)) oriSize") (simp_all add: fillSlot_def)
    have e: "good ?e held" using slot_freed [OF ok i h a] by (simp add: good_def)
    have ke: "kept held s ?e" using Cons.prems(2) h a by (intro kept_slot) auto
    have ne: "slotData (mOfflineDebugDataArr ?e) i = None" using slots_okD(1) [OF ok] i by (simp add: slotData_def)
    obtain b s1 where f: "fillSlot malloc (MaxNumOfflineDebugData + i) oriSize i ?s0 = (b, s1)" by fastforce
    note F = fillSlot_ok [OF assms(1) e i ne f [unfolded fill]]
    then have k1: "kept held s s1" using kept_trans [OF ke] by blast
    have step: "takeReclaimed malloc oriSize (i # rest) s = (if b then Inr (Some i, s1) else takeReclaimed malloc oriSize rest s1)"
      using a d h rc bs f by (simp add: Let_def freeBlock_def)
    show ?thesis
    proof (cases b)
      case True
      then show ?thesis using F k1 step by simp
    next
      case False
      then have g1: "good s1 held" and out: "(\<forall>n h. malloc n h oriSize \<noteq> None) = False" using F by auto
      obtain r s' where r: "takeReclaimed malloc oriSize rest s1 = Inr (r, s')" "kept held s1 s'"
        "case r of Some i \<Rightarrow> handed oriSize held i s' | None \<Rightarrow> good s' held" using Cons.IH [OF rest g1] by (auto split: option.splits)
      show ?thesis
      proof (intro exI conjI)
        have "takeReclaimed malloc oriSize (i # rest) s = takeReclaimed malloc oriSize rest s1" using step False by simp
        then show "takeReclaimed malloc oriSize (i # rest) s = Inr (r, s')" using r(1) by simp
        show "kept held s s'" using kept_trans [OF k1 r(2)] .
      qed (use r(3) in \<open>cases r; simp only: option.case out simp_thms\<close>)
    qed
  qed
qed simp

lemma good_flags [simp]:
  "good (s\<lparr>mReclaimThreadActive := b\<rparr>) held = good s held" "good (s\<lparr>mIsMihalHasSession := b\<rparr>) held = good s held"
  "good (s\<lparr>mIsVTOpen := b\<rparr>) held = good s held" "good (setSessionStatus b s) held = good s held" "good (setVTStatus b s) held = good s held"
  by (simp_all add: good_def setSessionStatus_def setVTStatus_def)

text \<open>A request: what was handed out before is untouched, and only a pool that is all in use refuses when memory is left.\<close>

lemma take_ok:
  assumes m: "malloc_ok malloc" and ok: "good s held"
  shows "\<exists>r s'. takeSlot malloc oriSize s = Inr (r, s') \<and>
    (\<forall>j \<in> held. slotData (mOfflineDebugDataArr s') j = slotData (mOfflineDebugDataArr s) j \<and>
       (\<forall>a. slotData (mOfflineDebugDataArr s) j = Some a \<longrightarrow> bytesAt s' a = bytesAt s a)) \<and>
    mReclaimThreadActive s' \<and> mIsMihalHasSession s' = mIsMihalHasSession s \<and> mIsVTOpen s' = mIsVTOpen s \<and>
    (case r of Some i \<Rightarrow> handed oriSize held i s'
     | None \<Rightarrow> good s' held \<and> ((\<forall>n h. malloc n h oriSize \<noteq> None) \<longrightarrow> held = {..<MaxNumOfflineDebugData}))"
proof -
  let ?s = "s\<lparr>mReclaimThreadActive := True\<rparr>"
  have s: "good ?s held" "mOfflineDebugDataArr ?s = mOfflineDebugDataArr s" "bytesAt ?s = bytesAt s"
    using ok by (simp_all add: good_def)
  have sub: "set [0..<MaxNumOfflineDebugData] \<subseteq> {..<MaxNumOfflineDebugData}" by auto
  obtain r s1 where 1: "takeFree malloc oriSize [0..<MaxNumOfflineDebugData] ?s = Inr (r, s1)" "kept held ?s s1"
    "case r of Some i \<Rightarrow> handed oriSize held i s1
     | None \<Rightarrow> good s1 held \<and> ((\<forall>n h. malloc n h oriSize \<noteq> None) \<longrightarrow> s1 = ?s \<and> (\<forall>i \<in> set [0..<MaxNumOfflineDebugData]. slotData (mOfflineDebugDataArr ?s) i \<noteq> None))"
    using takeFree_ok [OF m sub s(1)] by blast
  have frame: "(\<forall>j \<in> held. slotData (mOfflineDebugDataArr s') j = slotData (mOfflineDebugDataArr s) j \<and>
       (\<forall>a. slotData (mOfflineDebugDataArr s) j = Some a \<longrightarrow> bytesAt s' a = bytesAt s a)) \<and>
    mReclaimThreadActive s' \<and> mIsMihalHasSession s' = mIsMihalHasSession s \<and> mIsVTOpen s' = mIsVTOpen s" if "kept held ?s s'" for s'
    using that unfolding kept_def s(2,3) by (simp add: slotData_def)
  show ?thesis
  proof (cases r)
    case (Some i)
    then have "takeSlot malloc oriSize s = Inr (Some i, s1)" using 1(1) by (simp add: takeSlot_def Let_def)
    then show ?thesis using Some 1(3) frame [OF 1(2)] by auto
  next
    case None
    then have g: "takeSlot malloc oriSize s = takeReclaimed malloc oriSize [0..<MaxNumOfflineDebugData] s1"
      using 1(1) by (simp add: takeSlot_def Let_def)
    have g1: "good s1 held" using 1(3) None by simp
    obtain r2 s2 where 2: "takeReclaimed malloc oriSize [0..<MaxNumOfflineDebugData] s1 = Inr (r2, s2)" "kept held s1 s2"
      "case r2 of Some i \<Rightarrow> handed oriSize held i s2
       | None \<Rightarrow> good s2 held \<and> ((\<forall>n h. malloc n h oriSize \<noteq> None) \<longrightarrow> s2 = s1 \<and> (\<forall>i \<in> set [0..<MaxNumOfflineDebugData]. slotData (mOfflineDebugDataArr s1) i \<noteq> None \<longrightarrow> i \<in> held))"
      using takeReclaimed_ok [OF m sub g1] by blast
    have full: "held = {..<MaxNumOfflineDebugData}" if t: "\<forall>n h. malloc n h oriSize \<noteq> None" and "r2 = None"
    proof
      show "held \<subseteq> {..<MaxNumOfflineDebugData}" using slots_okD(3) [OF g1 [unfolded good_def]] by blast
      have "s1 = ?s \<and> (\<forall>i \<in> set [0..<MaxNumOfflineDebugData]. slotData (mOfflineDebugDataArr ?s) i \<noteq> None)" using 1(3) None t by simp
      moreover have "\<forall>i \<in> set [0..<MaxNumOfflineDebugData]. slotData (mOfflineDebugDataArr s1) i \<noteq> None \<longrightarrow> i \<in> held" using 2(3) that by simp
      ultimately have "\<forall>i \<in> set [0..<MaxNumOfflineDebugData]. i \<in> held" by metis
      then show "{..<MaxNumOfflineDebugData} \<subseteq> held" by auto
    qed
    note k = kept_trans [OF 1(2) 2(2)]
    show ?thesis using 2(1,3) g frame [OF k] full by (cases r2) simp_all
  qed
qed

lemma noteSession_simps [simp]:
  "mOfflineDebugDataArr (noteSession s) = mOfflineDebugDataArr s" "bytesAt (noteSession s) = bytesAt s" "mIsVTOpen (noteSession s) = mIsVTOpen s"
  "mReclaimThreadActive (noteSession s) = mReclaimThreadActive s"
  "mIsMihalHasSession (noteSession s) \<longleftrightarrow> mIsMihalHasSession s \<or> mReclaimThreadActive s" "good (noteSession s) held = good s held"
  by (auto simp: noteSession_def setSessionStatus_def good_def)

lemma get_ok:
  assumes m: "malloc_ok malloc" and ok: "good s held"
  shows "\<exists>r s'. getDebugDataBufferAndAddReference malloc oriSize s = Inr (r, s') \<and>
    (\<forall>j \<in> held. slotData (mOfflineDebugDataArr s') j = slotData (mOfflineDebugDataArr s) j \<and>
       (\<forall>a. slotData (mOfflineDebugDataArr s) j = Some a \<longrightarrow> bytesAt s' a = bytesAt s a)) \<and>
    mReclaimThreadActive s' \<and> (mIsMihalHasSession s' \<longleftrightarrow> mIsMihalHasSession s \<or> mReclaimThreadActive s) \<and> mIsVTOpen s' = mIsVTOpen s \<and>
    (case r of Some i \<Rightarrow> handed oriSize held i s'
     | None \<Rightarrow> good s' held \<and> ((\<forall>n h. malloc n h oriSize \<noteq> None) \<longrightarrow> held = {..<MaxNumOfflineDebugData}))"
  using take_ok [OF m, of "noteSession s" held oriSize] ok by (simp add: getDebugDataBufferAndAddReference_def)

lemma slot_reclaimed:
  assumes ok: "slots_ok ds h held" and i: "i < MaxNumOfflineDebugData" "slotData ds i = Some a"
  shows "slots_ok (ds[i := emptySlot]) (h(a := None)) (held - {i})"
proof (rule slots_ok_update [OF ok i(1)])
  show "owns ((slotData ds)(i := ddData emptySlot)) (h(a := None))" using owns_free [OF slots_okD(6) [OF ok] i(2)] by simp
  show "(h(a := None)) c = h c" if "j \<noteq> i" "slotData ds j = Some c" for j c
    using owns_unique [OF slots_okD(6) [OF ok] i(2)] that by auto
qed auto

lemma sub_ok:
  assumes ok: "good s held" and i: "i \<in> held"
  shows "\<exists>s'. subDebugDataReference (Some (slotData (mOfflineDebugDataArr s) i)) s = (True, s') \<and> good s' (held - {i})"
proof -
  note ok' = ok [unfolded good_def]
  obtain a where a: "i < MaxNumOfflineDebugData" "slotData (mOfflineDebugDataArr s) i = Some a" using slots_okD(3) [OF ok' i] by blast
  have other: "ddData (mOfflineDebugDataArr s ! j) \<noteq> Some a" if "j < i" for j
  proof -
    have "j < MaxNumOfflineDebugData" using that a(1) by simp
    then show ?thesis using owns_unique [OF slots_okD(6) [OF ok'] a(2), of j] slots_okD(4) [OF ok', of j] that by auto
  qed
  have "ddData (mOfflineDebugDataArr s ! i) = Some a" using slots_okD(4) [OF ok' a(1)] a(2) by simp
  then have f: "List.find (\<lambda>j. ddData (mOfflineDebugDataArr s ! j) = Some a) [0..<MaxNumOfflineDebugData] = Some i"
    unfolding find_Some_iff using a(1) other by (intro exI [of _ i]) simp
  have rc: "referenceCount (mOfflineDebugDataArr s ! i) = 1" using slots_okD(2) [OF ok' a(1)] i by simp
  have "subDebugDataReference (Some (slotData (mOfflineDebugDataArr s) i)) s =
      (True, setSlot i ((mOfflineDebugDataArr s ! i)\<lparr>referenceCount := 0\<rparr>) s)"
    using f rc by (simp add: subDebugDataReference_def a(2) Let_def)
  moreover have "good (setSlot i ((mOfflineDebugDataArr s ! i)\<lparr>referenceCount := 0\<rparr>) s) (held - {i})"
    using slot_given_back [OF ok' i] by (simp add: good_def)
  ultimately show ?thesis by blast
qed

lemma reclaimAll_ok:
  assumes "set slots \<subseteq> {..<MaxNumOfflineDebugData}" and "good s held"
  shows "\<exists>s'. reclaimAll slots s = Inr s' \<and> good s' (held - set slots) \<and>
    (\<forall>i. slotData (mOfflineDebugDataArr s') i = (if i \<in> set slots then None else slotData (mOfflineDebugDataArr s) i))"
  using assms
proof (induction slots arbitrary: s held)
  case (Cons i rest)
  then have i: "i < MaxNumOfflineDebugData" and rest: "set rest \<subseteq> {..<MaxNumOfflineDebugData}" by auto
  note d = slotData_at [OF Cons.prems(2) i] and ok = Cons.prems(2) [unfolded good_def]
  show ?case
  proof (cases "slotData (mOfflineDebugDataArr s) i")
    case None
    then have "i \<notin> held" using slots_okD(3) [OF ok, of i] by auto
    then have "held - set (i # rest) = held - set rest" by auto
    then show ?thesis using Cons.IH [OF rest Cons.prems(2)] None d by auto
  next
    case (Some a)
    let ?s1 = "setSlot i emptySlot (s\<lparr>bytesAt := (bytesAt s)(a := None)\<rparr>)"
    have "good ?s1 (held - {i})" using slot_reclaimed [OF ok i Some] by (simp add: good_def)
    from Cons.IH [OF rest this] obtain s' where s': "reclaimAll rest ?s1 = Inr s'" "good s' (held - {i} - set rest)"
      "\<forall>j. slotData (mOfflineDebugDataArr s') j = (if j \<in> set rest then None else slotData (mOfflineDebugDataArr ?s1) j)" by blast
    have "reclaimAll (i # rest) s = Inr s'" using s'(1) Some d owns_block [OF slots_okD(6) [OF ok] Some] by (auto simp: freeBlock_def)
    moreover have "held - {i} - set rest = held - set (i # rest)" by auto
    moreover have "slotData (mOfflineDebugDataArr ?s1) j = (if j = i then None else slotData (mOfflineDebugDataArr s) j)" for j
      using i slots_okD(1) [OF ok] by (simp add: slotData_update)
    ultimately show ?thesis using s'(2,3) by auto
  qed
qed simp

lemma reclaimUnused_ok:
  assumes "set slots \<subseteq> {..<MaxNumOfflineDebugData}" and "good s held"
  shows "\<exists>s'. reclaimUnused slots s = Inr s' \<and> good s' held \<and> kept held s s' \<and>
    (\<forall>i. slotData (mOfflineDebugDataArr s') i = (if i \<in> set slots \<and> i \<notin> held then None else slotData (mOfflineDebugDataArr s) i))"
  using assms
proof (induction slots arbitrary: s)
  case (Cons i rest)
  then have i: "i < MaxNumOfflineDebugData" and rest: "set rest \<subseteq> {..<MaxNumOfflineDebugData}" by auto
  note d = slotData_at [OF Cons.prems(2) i] and ok = Cons.prems(2) [unfolded good_def] and rc = unheld_empty [OF Cons.prems(2) i]
  show ?case
  proof (cases "i \<in> held \<or> slotData (mOfflineDebugDataArr s) i = None")
    case True
    then have "reclaimUnused (i # rest) s = reclaimUnused rest s"
      using d rc slots_okD(2,3) [OF ok, of i] by (auto simp: Let_def split: option.splits)
    then show ?thesis using Cons.IH [OF rest Cons.prems(2)] True by auto
  next
    case False
    then obtain a where a: "slotData (mOfflineDebugDataArr s) i = Some a" and h: "i \<notin> held" by blast
    let ?s1 = "setSlot i ((mOfflineDebugDataArr s ! i)\<lparr>ddData := None, ddSize := 0\<rparr>) (s\<lparr>bytesAt := (bytesAt s)(a := None)\<rparr>)"
    have e: "(mOfflineDebugDataArr s ! i)\<lparr>ddData := None, ddSize := 0\<rparr> = emptySlot" using rc h by simp
    have g: "good ?s1 held" using slot_freed [OF ok i h a, of 0] by (simp add: good_def e)
    have k: "kept held s ?s1" by (rule kept_slot [OF Cons.prems(2) h]) (use a in auto)
    from Cons.IH [OF rest g] obtain s' where s': "reclaimUnused rest ?s1 = Inr s'" "good s' held" "kept held ?s1 s'"
      "\<forall>j. slotData (mOfflineDebugDataArr s') j = (if j \<in> set rest \<and> j \<notin> held then None else slotData (mOfflineDebugDataArr ?s1) j)" by blast
    have "reclaimUnused (i # rest) s = Inr s'"
      using s'(1) a d rc h owns_block [OF slots_okD(6) [OF ok] a] by (auto simp: freeBlock_def Let_def)
    moreover have "slotData (mOfflineDebugDataArr ?s1) j = (if j = i then None else slotData (mOfflineDebugDataArr s) j)" for j
      using i slots_okD(1) [OF ok] by (simp add: slotData_update)
    ultimately show ?thesis using s'(2,4) kept_trans [OF k s'(3)] h by auto
  qed
qed simp

subsection \<open>Executions\<close>

text \<open>
  Clients request buffers and give them back, the session and the video call say when they start and
  end, the thread does its rounds, each in the parts that hold a lock: \<open>requests\<close> counts the requests
  that have noted the session and have not locked the slots yet, \<open>roundDecided\<close> is what a round has
  decided that has not locked the slots yet; the thread then holds the lock on the flags, so nobody
  writes them.  A caller that has found the thread running and gets that lock after the thread's last
  round writes its flag all the same.

  Two things are asked of the rest of the program.  The end of the session or of the video call that
  leaves neither noted comes when no buffer is in use and no request under way.  And the wait of a
  thread that has just been started does not run out before a session or a video call is noted
  (\<open>justStarted\<close>), because the request that starts it cannot note one; \<open>first_buffer_lost\<close> below
  shows what happens otherwise.
\<close>

record debug_run =
  manager :: OfflineDebugDataManager
  heldSlots :: "nat set"
  requests :: nat
  roundDecided :: "bool option"
  justStarted :: bool

definition statusNoted :: "OfflineDebugDataManager \<Rightarrow> bool" where
  "statusNoted s \<longleftrightarrow> mIsMihalHasSession s \<or> mIsVTOpen s"

definition nobodyUses :: "debug_run \<Rightarrow> bool" where
  "nobodyUses r \<longleftrightarrow> heldSlots r = {} \<and> requests r = 0"

inductive debug_step :: "debug_run \<Rightarrow> debug_run \<Rightarrow> bool" where
  note_session: "s = noteSession (manager r) \<or> s = (manager r)\<lparr>mIsMihalHasSession := True\<rparr> \<Longrightarrow> roundDecided r = None \<or> s = manager r \<Longrightarrow>
    debug_step r (r\<lparr>manager := s, requests := Suc (requests r), justStarted := justStarted r \<and> \<not> statusNoted s\<rparr>)"
| take_slot: "0 < requests r \<Longrightarrow> malloc_ok malloc \<Longrightarrow> takeSlot malloc n (manager r) = Inr (found, s) \<Longrightarrow>
    debug_step r (r\<lparr>manager := s, heldSlots := heldSlots r \<union> set_option found, requests := requests r - 1,
      justStarted := (justStarted r \<or> \<not> mReclaimThreadActive (manager r)) \<and> \<not> statusNoted s\<rparr>)"
| give_back: "i \<in> heldSlots r \<Longrightarrow>
    subDebugDataReference (Some (slotData (mOfflineDebugDataArr (manager r)) i)) (manager r) = (ok, s) \<Longrightarrow>
    debug_step r (r\<lparr>manager := s, heldSlots := heldSlots r - {i}\<rparr>)"
| session: "s = setSessionStatus b (manager r) \<or> s = (manager r)\<lparr>mIsMihalHasSession := b\<rparr> \<Longrightarrow> roundDecided r = None \<or> s = manager r \<Longrightarrow>
    (statusNoted (manager r) \<longrightarrow> statusNoted s \<or> nobodyUses r) \<Longrightarrow>
    debug_step r (r\<lparr>manager := s, justStarted := justStarted r \<and> \<not> statusNoted s\<rparr>)"
| video: "s = setVTStatus b (manager r) \<or> s = (manager r)\<lparr>mIsVTOpen := b\<rparr> \<Longrightarrow> roundDecided r = None \<or> s = manager r \<Longrightarrow>
    (statusNoted (manager r) \<longrightarrow> statusNoted s \<or> nobodyUses r) \<Longrightarrow>
    debug_step r (r\<lparr>manager := s, justStarted := justStarted r \<and> \<not> statusNoted s\<rparr>)"
| test: "mReclaimThreadActive (manager r) \<Longrightarrow> roundDecided r = None \<Longrightarrow> (timeout \<longrightarrow> \<not> justStarted r) \<Longrightarrow>
    debug_step r (r\<lparr>roundDecided := reclaimTest timeout (manager r)\<rparr>)"
| reclaim: "roundDecided r = Some everything \<Longrightarrow> reclaimSlots everything (manager r) = Inr (ends, s) \<Longrightarrow>
    debug_step r (r\<lparr>manager := s, roundDecided := None, justStarted := justStarted r \<and> \<not> ends\<rparr>)"

definition debug_start :: "debug_run \<Rightarrow> bool" where
  "debug_start r \<longleftrightarrow> r = \<lparr>manager = new_OfflineDebugDataManager, heldSlots = {}, requests = 0, roundDecided = None, justStarted = False\<rparr>"

definition debug_ok :: "debug_run \<Rightarrow> bool" where
  "debug_ok r \<longleftrightarrow> good (manager r) (heldSlots r) \<and>
     (statusNoted (manager r) \<or> justStarted r \<or> heldSlots r = {} \<and> (requests r = 0 \<or> \<not> mReclaimThreadActive (manager r))) \<and>
     (justStarted r \<longrightarrow> mReclaimThreadActive (manager r)) \<and>
     (roundDecided r \<noteq> None \<longrightarrow> mReclaimThreadActive (manager r)) \<and>
     (roundDecided r = Some True \<longrightarrow> \<not> statusNoted (manager r) \<and> nobodyUses r)"

lemma all_slots: "set [0..<MaxNumOfflineDebugData] \<subseteq> {..<MaxNumOfflineDebugData}"
  by auto

lemma reclaim_section:
  assumes "good s held" and "everything \<Longrightarrow> held = {}"
  shows "\<exists>s'. reclaimSlots everything s = Inr (everything, s') \<and> good s' held \<and>
    (\<forall>i. slotData (mOfflineDebugDataArr s') i = (if i \<in> held then slotData (mOfflineDebugDataArr s) i else None)) \<and>
    (\<forall>i \<in> held. \<forall>a. slotData (mOfflineDebugDataArr s) i = Some a \<longrightarrow> bytesAt s' a = bytesAt s a) \<and>
    (\<not> everything \<longrightarrow> statusNoted s' = statusNoted s \<and> mReclaimThreadActive s' = mReclaimThreadActive s)"
proof (cases everything)
  case True
  obtain s1 where s1: "reclaimAll [0..<MaxNumOfflineDebugData] s = Inr s1" "good s1 (held - set [0..<MaxNumOfflineDebugData])"
    "\<forall>i. slotData (mOfflineDebugDataArr s1) i = (if i \<in> set [0..<MaxNumOfflineDebugData] then None else slotData (mOfflineDebugDataArr s) i)"
    using reclaimAll_ok [OF all_slots assms(1)] by blast
  have "slotData (mOfflineDebugDataArr s1) i = None" for i
    using s1(3) slots_okD(1) [OF assms(1) [unfolded good_def]] by (simp add: slotData_def split: if_splits)
  then show ?thesis using True s1(1,2) assms(2) by (simp add: reclaimSlots_def good_def)
next
  case False
  obtain s2 where s2: "reclaimUnused [0..<MaxNumOfflineDebugData] s = Inr s2" "good s2 held" "kept held s s2"
    "\<forall>i. slotData (mOfflineDebugDataArr s2) i = (if i \<in> set [0..<MaxNumOfflineDebugData] \<and> i \<notin> held then None else slotData (mOfflineDebugDataArr s) i)"
    using reclaimUnused_ok [OF all_slots assms(1)] by blast
  have "slotData (mOfflineDebugDataArr s2) i = (if i \<in> held then slotData (mOfflineDebugDataArr s) i else None)" for i
    using s2(4) slots_okD(1) [OF assms(1) [unfolded good_def]] by (auto simp: slotData_def)
  then show ?thesis using False s2 by (simp add: reclaimSlots_def kept_def statusNoted_def)
qed

lemma good_status [simp]:
  "good (s\<lparr>mIsMihalHasSession := b\<rparr>) held = good s held" "good (s\<lparr>mIsVTOpen := b\<rparr>) held = good s held"
  "good (setSessionStatus b s) held = good s held" "good (setVTStatus b s) held = good s held"
  "mReclaimThreadActive (setSessionStatus b s) = mReclaimThreadActive s" "mReclaimThreadActive (setVTStatus b s) = mReclaimThreadActive s"
  by (simp_all add: good_def setSessionStatus_def setVTStatus_def)

text \<open>Writing a flag.\<close>

lemma debug_ok_flag:
  assumes ok: "debug_ok r" and g: "good s (heldSlots r)" and act: "mReclaimThreadActive s = mReclaimThreadActive (manager r)"
    and free: "roundDecided r = None \<or> s = manager r" and over: "statusNoted (manager r) \<longrightarrow> statusNoted s \<or> nobodyUses r"
  shows "debug_ok (r\<lparr>manager := s, justStarted := justStarted r \<and> \<not> statusNoted s\<rparr>)"
  using assms by (auto simp: debug_ok_def nobodyUses_def)

lemma debug_step_ok:
  assumes "debug_step r t" and "debug_ok r"
  shows "debug_ok t"
  using assms
proof (induction rule: debug_step.induct)
  case (note_session s r)
  have g: "good s (heldSlots r)" and act: "mReclaimThreadActive s = mReclaimThreadActive (manager r)"
    using note_session.hyps(1) note_session.prems by (auto simp: debug_ok_def)
  have noted: "statusNoted s \<or> \<not> mReclaimThreadActive s" "statusNoted (manager r) \<longrightarrow> statusNoted s"
    using note_session.hyps(1) by (auto simp: statusNoted_def)
  then have "roundDecided r \<noteq> Some True" using note_session.hyps(2) note_session.prems act by (auto simp: debug_ok_def)
  then show ?case using note_session.prems g act noted unfolding debug_ok_def by auto
next
  case (take_slot r malloc n found s)
  have g: "good (manager r) (heldSlots r)" and d: "roundDecided r \<noteq> Some True"
    using take_slot.prems take_slot.hyps(1) by (auto simp: debug_ok_def nobodyUses_def)
  have t: "good s (heldSlots r \<union> set_option found)" "mReclaimThreadActive s" "statusNoted s = statusNoted (manager r)"
    using take_ok [OF take_slot.hyps(2) g, of n] take_slot.hyps(3) by (auto simp: handed_def statusNoted_def split: option.splits)
  show ?case using t d take_slot.prems take_slot.hyps(1) unfolding debug_ok_def by auto
next
  case (give_back i r ok s)
  have g: "good (manager r) (heldSlots r)" and d: "roundDecided r \<noteq> Some True"
    using give_back.prems give_back.hyps(1) by (auto simp: debug_ok_def nobodyUses_def)
  have "good s (heldSlots r - {i})" using sub_ok [OF g give_back.hyps(1)] give_back.hyps(2) by auto
  moreover have "statusNoted s = statusNoted (manager r)" "mReclaimThreadActive s = mReclaimThreadActive (manager r)"
    using give_back.hyps(2) by (auto simp: subDebugDataReference_def statusNoted_def Let_def split: option.splits if_splits)
  ultimately show ?case using d give_back.prems by (auto simp: debug_ok_def)
next
  case (session s b r)
  show ?case
    by (rule debug_ok_flag [OF session.prems _ _ session.hyps(2,3)]) (use session.hyps(1) session.prems in \<open>auto simp: debug_ok_def\<close>)
next
  case (video s b r)
  show ?case
    by (rule debug_ok_flag [OF video.prems _ _ video.hyps(2,3)]) (use video.hyps(1) video.prems in \<open>auto simp: debug_ok_def\<close>)
next
  case (test r timeout)
  then show ?case by (auto simp: debug_ok_def nobodyUses_def reclaimTest_def statusNoted_def split: if_splits)
next
  case (reclaim r everything ends s)
  have g: "good (manager r) (heldSlots r)" and n: "everything \<Longrightarrow> nobodyUses r" using reclaim by (simp_all add: debug_ok_def)
  then have h: "everything \<Longrightarrow> heldSlots r = {}" by (simp add: nobodyUses_def)
  obtain s' where s': "reclaimSlots everything (manager r) = Inr (everything, s')" "good s' (heldSlots r)"
    "\<not> everything \<longrightarrow> statusNoted s' = statusNoted (manager r) \<and> mReclaimThreadActive s' = mReclaimThreadActive (manager r)"
    using reclaim_section [OF g h] by blast
  then have "ends = everything" "s = s'" using reclaim.hyps(2) by simp_all
  with s' have s: "ends = everything" "good s (heldSlots r)"
    "\<not> everything \<longrightarrow> statusNoted s = statusNoted (manager r) \<and> mReclaimThreadActive s = mReclaimThreadActive (manager r)" by simp_all
  show ?case
  proof (cases everything)
    case True
    then show ?thesis using s n by (simp add: debug_ok_def nobodyUses_def)
  next
    case False
    then have "statusNoted s = statusNoted (manager r)" "mReclaimThreadActive s = mReclaimThreadActive (manager r)" "\<not> ends" using s by simp_all
    then show ?thesis using s(2) reclaim.prems by (auto simp: debug_ok_def)
  qed
qed

interpretation debug: invariant_system debug_start debug_step debug_ok
proof unfold_locales
  fix r
  assume "debug_start r"
  then show "debug_ok r" using slots_ok_new by (simp add: debug_start_def debug_ok_def good_def)
next
  fix r t
  assume "debug_ok r" and "debug_step r t"
  then show "debug_ok t" using debug_step_ok by blast
qed

text \<open>C31: In every interleaving of the locked parts of requests, returns, status changes and the thread's rounds, as long as the last
  session or video call ends only when no buffer is in use and no request under way, and the first wait of a new thread does not run out
  before one is noted: every buffer handed out is a block of its own, counted once; a request never fails with a fault, hands out a slot
  nobody has with a block of zeros of the size asked, and refuses, while there is memory, only if all fifty slots are in use; giving a
  buffer back succeeds; and a round gives back exactly the blocks nobody has, each once, and leaves the others as they are, also when it
  gives back everything and when others came between its test and its work.\<close>

theorem debug_buffers_safe:
  assumes "debug_start r0" and "debug_step\<^sup>*\<^sup>* r0 r"
  shows "(\<forall>i \<in> heldSlots r. \<exists>a. slotData (mOfflineDebugDataArr (manager r)) i = Some a \<and> bytesAt (manager r) a \<noteq> None \<and>
        referenceCount (mOfflineDebugDataArr (manager r) ! i) = 1 \<and> (\<forall>j. slotData (mOfflineDebugDataArr (manager r)) j = Some a \<longrightarrow> j = i)) \<and>
    (\<forall>request \<in> {getDebugDataBufferAndAddReference, takeSlot}. \<forall>malloc n. malloc_ok malloc \<longrightarrow>
       (\<exists>found s. request malloc n (manager r) = Inr (found, s) \<and>
         (\<forall>i \<in> heldSlots r. slotData (mOfflineDebugDataArr s) i = slotData (mOfflineDebugDataArr (manager r)) i) \<and>
         (case found of
            Some i \<Rightarrow> i \<notin> heldSlots r \<and> (\<exists>a. slotData (mOfflineDebugDataArr s) i = Some a \<and> bytesAt s a = Some (replicate n 0))
          | None \<Rightarrow> (\<forall>k h. malloc k h n \<noteq> None) \<longrightarrow> heldSlots r = {..<MaxNumOfflineDebugData}))) \<and>
    (\<forall>i \<in> heldSlots r. fst (subDebugDataReference (Some (slotData (mOfflineDebugDataArr (manager r)) i)) (manager r))) \<and>
    (\<forall>everything. roundDecided r = Some everything \<longrightarrow> (\<exists>s. reclaimSlots everything (manager r) = Inr (everything, s) \<and>
       (\<forall>i. slotData (mOfflineDebugDataArr s) i = (if i \<in> heldSlots r then slotData (mOfflineDebugDataArr (manager r)) i else None)) \<and>
       (\<forall>i \<in> heldSlots r. \<forall>a. slotData (mOfflineDebugDataArr (manager r)) i = Some a \<longrightarrow> bytesAt s a = bytesAt (manager r) a)))"
proof -
  have inv: "debug_ok r" by (rule debug.reachable_inv [OF assms])
  then have g: "good (manager r) (heldSlots r)" by (simp add: debug_ok_def)
  note ok = g [unfolded good_def]
  have 1: "\<exists>a. slotData (mOfflineDebugDataArr (manager r)) i = Some a \<and> bytesAt (manager r) a \<noteq> None \<and>
      referenceCount (mOfflineDebugDataArr (manager r) ! i) = 1 \<and> (\<forall>j. slotData (mOfflineDebugDataArr (manager r)) j = Some a \<longrightarrow> j = i)"
    if "i \<in> heldSlots r" for i
    using slots_okD(3) [OF ok that] slots_okD(2) [OF ok, of i] that owns_block [OF slots_okD(6) [OF ok]] owns_unique [OF slots_okD(6) [OF ok]]
    by fastforce
  have 2: "\<exists>found s. request malloc n (manager r) = Inr (found, s) \<and>
       (\<forall>i \<in> heldSlots r. slotData (mOfflineDebugDataArr s) i = slotData (mOfflineDebugDataArr (manager r)) i) \<and>
       (case found of
          Some i \<Rightarrow> i \<notin> heldSlots r \<and> (\<exists>a. slotData (mOfflineDebugDataArr s) i = Some a \<and> bytesAt s a = Some (replicate n 0))
        | None \<Rightarrow> (\<forall>k h. malloc k h n \<noteq> None) \<longrightarrow> heldSlots r = {..<MaxNumOfflineDebugData})"
    if q: "request \<in> {getDebugDataBufferAndAddReference, takeSlot}" and m: "malloc_ok malloc" for request malloc n
  proof -
    obtain found s where f: "request malloc n (manager r) = Inr (found, s)"
      "\<forall>i \<in> heldSlots r. slotData (mOfflineDebugDataArr s) i = slotData (mOfflineDebugDataArr (manager r)) i"
      "case found of Some i \<Rightarrow> handed n (heldSlots r) i s
       | None \<Rightarrow> good s (heldSlots r) \<and> ((\<forall>k h. malloc k h n \<noteq> None) \<longrightarrow> heldSlots r = {..<MaxNumOfflineDebugData})"
      using q get_ok [OF m g, of n] take_ok [OF m g, of n] by blast
    show ?thesis using f by (intro exI [of _ found] exI [of _ s]) (cases found, simp_all add: handed_def)
  qed
  have 3: "fst (subDebugDataReference (Some (slotData (mOfflineDebugDataArr (manager r)) i)) (manager r))" if "i \<in> heldSlots r" for i
    using sub_ok [OF g that] by auto
  have 4: "\<exists>s. reclaimSlots everything (manager r) = Inr (everything, s) \<and>
       (\<forall>i. slotData (mOfflineDebugDataArr s) i = (if i \<in> heldSlots r then slotData (mOfflineDebugDataArr (manager r)) i else None)) \<and>
       (\<forall>i \<in> heldSlots r. \<forall>a. slotData (mOfflineDebugDataArr (manager r)) i = Some a \<longrightarrow> bytesAt s a = bytesAt (manager r) a)"
    if "roundDecided r = Some everything" for everything
  proof -
    have "heldSlots r = {}" if everything using inv \<open>roundDecided r = Some everything\<close> that by (simp add: debug_ok_def nobodyUses_def)
    from reclaim_section [OF g this] show ?thesis by blast
  qed
  show ?thesis using 1 2 3 4 by blast
qed

text \<open>An allocator that answers the address of its call if that is free.\<close>

definition call_malloc :: allocator where
  "call_malloc n h oriSize = (if h n = None then Some n else None)"

lemma call_malloc_ok: "malloc_ok call_malloc"
  by (simp add: malloc_ok_def call_malloc_def)

lemma first_taken:
  "getDebugDataBufferAndAddReference call_malloc 3 new_OfflineDebugDataManager =
     Inr (Some 0, new_OfflineDebugDataManager\<lparr>mReclaimThreadActive := True,
       mOfflineDebugDataArr := (mOfflineDebugDataArr new_OfflineDebugDataManager)[0 := \<lparr>ddSize = 3, ddData = Some 0, referenceCount = 1\<rparr>],
       bytesAt := [0 \<mapsto> [0, 0, 0]]\<rparr>)"
proof -
  have u: "[0..<MaxNumOfflineDebugData] = 0 # [1..<MaxNumOfflineDebugData]" by (simp add: upt_rec)
  show ?thesis
    unfolding getDebugDataBufferAndAddReference_def takeSlot_def noteSession_def u Let_def
    by (simp add: setSessionStatus_def new_OfflineDebugDataManager_def fillSlot_def call_malloc_def Let_def numeral_3_eq_3)
qed

text \<open>A first request starts the thread, the session is noted, and a round is about to work while the buffer is in use.\<close>

theorem debug_buffers_safe_witness:
  "\<exists>r s. debug_step\<^sup>*\<^sup>* \<lparr>manager = new_OfflineDebugDataManager, heldSlots = {}, requests = 0, roundDecided = None, justStarted = False\<rparr> r \<and>
     heldSlots r = {0} \<and> roundDecided r = Some False \<and> reclaimSlots False (manager r) = Inr (False, s) \<and>
     slotData (mOfflineDebugDataArr s) 0 = Some 0 \<and> bytesAt s 0 = Some [0, 0, 0]"
proof -
  let ?new = "\<lparr>manager = new_OfflineDebugDataManager, heldSlots = {}, requests = 0, roundDecided = None, justStarted = False\<rparr>"
  let ?n = "new_OfflineDebugDataManager" and ?m = "new_OfflineDebugDataManager\<lparr>mReclaimThreadActive := True,
       mOfflineDebugDataArr := (mOfflineDebugDataArr new_OfflineDebugDataManager)[0 := \<lparr>ddSize = 3, ddData = Some 0, referenceCount = 1\<rparr>],
       bytesAt := [0 \<mapsto> [0, 0, 0]]\<rparr>"
  have same: "noteSession ?n = ?n" by (simp add: noteSession_def setSessionStatus_def new_OfflineDebugDataManager_def)
  have 1: "debug_step ?new (?new\<lparr>requests := 1\<rparr>)"
    using debug_step.note_session [of ?n ?new] same by simp
  have take: "takeSlot call_malloc 3 ?n = Inr (Some 0, ?m)" using first_taken unfolding getDebugDataBufferAndAddReference_def same .
  have off: "\<not> statusNoted ?m" "\<not> mReclaimThreadActive ?n" by (simp_all add: statusNoted_def new_OfflineDebugDataManager_def)
  let ?r2 = "\<lparr>manager = ?m, heldSlots = {0}, requests = 0, roundDecided = None, justStarted = True\<rparr>"
  have 2: "debug_step (?new\<lparr>requests := 1\<rparr>) ?r2"
    using debug_step.take_slot [of "?new\<lparr>requests := 1\<rparr>" call_malloc 3 "Some 0" ?m] call_malloc_ok take off by simp
  let ?s = "?m\<lparr>mIsMihalHasSession := True\<rparr>"
  let ?r3 = "\<lparr>manager = ?s, heldSlots = {0}, requests = 0, roundDecided = None, justStarted = False\<rparr>"
  have 3: "debug_step ?r2 ?r3"
    using debug_step.session [of ?s True ?r2] by (simp add: setSessionStatus_def statusNoted_def)
  let ?r4 = "\<lparr>manager = ?s, heldSlots = {0}, requests = 0, roundDecided = Some False, justStarted = False\<rparr>"
  have 4: "debug_step ?r3 ?r4"
    using debug_step.test [of ?r3 True] by (simp add: reclaimTest_def)
  have run: "debug_step\<^sup>*\<^sup>* ?new ?r4" using 1 2 3 4 by (meson rtranclp.rtrancl_refl rtranclp.rtrancl_into_rtrancl)
  have "debug_start ?new" by (simp add: debug_start_def)
  note S = debug_buffers_safe [OF this run, THEN conjunct2, THEN conjunct2, THEN conjunct2, rule_format, of False]
  have "slotData (mOfflineDebugDataArr ?s) 0 = Some 0" "bytesAt ?s 0 = Some [0, 0, 0]"
    by (simp_all add: slotData_def new_OfflineDebugDataManager_def)
  moreover obtain s where "reclaimSlots False ?s = Inr (False, s)"
    "slotData (mOfflineDebugDataArr s) 0 = slotData (mOfflineDebugDataArr ?s) 0" "\<forall>a. slotData (mOfflineDebugDataArr ?s) 0 = Some a \<longrightarrow> bytesAt s a = bytesAt ?s a"
    using S by auto
  ultimately show ?thesis using run by (intro exI [of _ ?r4] exI [of _ s]) simp
qed

text \<open>A round nobody comes between.\<close>

lemma reclaim_round:
  assumes "good s held"
  shows "if \<not> mIsMihalHasSession s \<and> \<not> mIsVTOpen s
    then if timeout then (\<exists>s'. offlineDebugDataReclaim timeout s = Inr (True, s') \<and> good s' {} \<and> bytesAt s' = Map.empty)
         else offlineDebugDataReclaim timeout s = Inr (False, s)
    else (\<exists>s'. offlineDebugDataReclaim timeout s = Inr (False, s') \<and> good s' held \<and> kept held s s' \<and>
      (\<forall>i. slotData (mOfflineDebugDataArr s') i = (if i \<in> held then slotData (mOfflineDebugDataArr s) i else None)))"
proof -
  obtain s1 where s1: "reclaimAll [0..<MaxNumOfflineDebugData] s = Inr s1" "good s1 (held - set [0..<MaxNumOfflineDebugData])"
    "\<forall>i. slotData (mOfflineDebugDataArr s1) i = (if i \<in> set [0..<MaxNumOfflineDebugData] then None else slotData (mOfflineDebugDataArr s) i)"
    using reclaimAll_ok [OF all_slots assms] by blast
  have h: "i \<in> set [0..<MaxNumOfflineDebugData]" if "i \<in> held" for i using slots_okD(3) [OF assms [unfolded good_def] that] by simp
  then have z: "held - set [0..<MaxNumOfflineDebugData] = {}" by blast
  have g: "good s1 {}" using s1(2) unfolding z .
  have none: "slotData (mOfflineDebugDataArr s1) i = None" for i
    using s1(3) slots_okD(1) [OF assms [unfolded good_def]] by (simp add: slotData_def split: if_splits)
  have "bytesAt s1 a = None" for a
    using slots_okD(6) [OF g [unfolded good_def]] none by (simp add: owns_def)
  then have e: "bytesAt s1 = Map.empty" by blast
  obtain s2 where s2: "reclaimUnused [0..<MaxNumOfflineDebugData] s = Inr s2" "good s2 held" "kept held s s2"
    "\<forall>i. slotData (mOfflineDebugDataArr s2) i = (if i \<in> set [0..<MaxNumOfflineDebugData] \<and> i \<notin> held then None else slotData (mOfflineDebugDataArr s) i)"
    using reclaimUnused_ok [OF all_slots assms] by blast
  have "slotData (mOfflineDebugDataArr s2) i = (if i \<in> held then slotData (mOfflineDebugDataArr s) i else None)" for i
    using s2(4) slots_okD(1) [OF assms [unfolded good_def]] by (auto simp: slotData_def)
  then show ?thesis using s1(1) g e s2(1-3) by (simp add: offlineDebugDataReclaim_def reclaimTest_def reclaimSlots_def)
qed

text \<open>The session is not noted by the first request, because the thread does not run yet: unless something else is requested within
  twenty seconds, the thread gives the buffer back that was handed out, while its reference count is 1.  A second request sets the
  flag and with it the buffer is safe.\<close>

theorem first_buffer_lost:
  assumes "malloc_ok malloc" and "getDebugDataBufferAndAddReference malloc n new_OfflineDebugDataManager = Inr (Some i, s)"
  shows "referenceCount (mOfflineDebugDataArr s ! i) = 1 \<and> \<not> mIsMihalHasSession s \<and>
    (\<exists>s'. offlineDebugDataReclaim True s = Inr (True, s') \<and> bytesAt s' = Map.empty) \<and>
    (\<forall>found s2. getDebugDataBufferAndAddReference malloc n s = Inr (found, s2) \<longrightarrow>
       (\<exists>s'. offlineDebugDataReclaim True s2 = Inr (False, s') \<and> slotData (mOfflineDebugDataArr s') i = slotData (mOfflineDebugDataArr s) i))"
proof -
  have g0: "good new_OfflineDebugDataManager {}" using slots_ok_new by (simp add: good_def)
  have new: "\<not> mIsMihalHasSession new_OfflineDebugDataManager" "\<not> mIsVTOpen new_OfflineDebugDataManager" "\<not> mReclaimThreadActive new_OfflineDebugDataManager"
    by (simp_all add: new_OfflineDebugDataManager_def)
  have h: "handed n {} i s" and f: "\<not> mIsMihalHasSession s" "mReclaimThreadActive s"
    using get_ok [OF assms(1) g0, of n] assms(2) new by auto
  then have g: "good s {i}" and i: "i < MaxNumOfflineDebugData" by (simp_all add: handed_def)
  have "referenceCount (mOfflineDebugDataArr s ! i) = 1" using slots_okD(2) [OF g [unfolded good_def] i] by simp
  moreover have v: "\<not> mIsVTOpen s" using get_ok [OF assms(1) g0, of n] assms(2) new by auto
  moreover have "\<exists>s'. offlineDebugDataReclaim True s = Inr (True, s') \<and> bytesAt s' = Map.empty"
    using reclaim_round [OF g, of True] f(1) v by auto
  moreover have "\<exists>s'. offlineDebugDataReclaim True s2 = Inr (False, s') \<and> slotData (mOfflineDebugDataArr s') i = slotData (mOfflineDebugDataArr s) i"
    if g2: "getDebugDataBufferAndAddReference malloc n s = Inr (found, s2)" for found s2
  proof -
    have s2: "slotData (mOfflineDebugDataArr s2) i = slotData (mOfflineDebugDataArr s) i" "mIsMihalHasSession s2"
      "\<exists>held. i \<in> held \<and> good s2 held"
      using get_ok [OF assms(1) g, of n] g2 f(2) by (auto simp: handed_def split: option.splits)
    then obtain held where held: "i \<in> held" "good s2 held" by blast
    show ?thesis using reclaim_round [OF held(2), of True] s2(1,2) held(1) by auto
  qed
  ultimately show ?thesis using f(1) by blast
qed

theorem first_buffer_lost_witness:
  "\<exists>s s'. getDebugDataBufferAndAddReference call_malloc 3 new_OfflineDebugDataManager = Inr (Some 0, s) \<and>
     referenceCount (mOfflineDebugDataArr s ! 0) = 1 \<and> offlineDebugDataReclaim True s = Inr (True, s') \<and> bytesAt s' = Map.empty"
  using first_buffer_lost [OF call_malloc_ok first_taken] first_taken by blast

end
