(* ===== verification/SnapshotControl.thy ===== *)
theory SnapshotControl
  imports StdMap
begin

text \<open>
  When the application may take the next picture (\<^verbatim>\<open>mivifwk/hal/mihal/AppSnapshotController.cpp\<close>
  and the timer it uses, \<^verbatim>\<open>Timer.cpp\<close>): every part of the camera service that may be too busy
  keeps a record, every change of a record becomes a command, a worker thread turns the commands
  into messages to the application, and a timer wakes the application up that was muted too
  long.
\<close>

subsection \<open>The timer\<close>

text \<open>
  A timer of the event library: \<open>armed\<close> when it waits, \<open>due\<close> the handlers whose wait is over and
  that the thread of the library has not run yet.  Arming again ends the wait before, ending a
  wait does not reach the handlers that are due.
\<close>

record Timer =
  armed :: bool
  due :: nat

definition createTimer :: Timer where
  "createTimer = \<lparr>armed = False, due = 0\<rparr>"

text \<open>\<open>handler\<close> says whether there is one; the result is whether the call succeeds.\<close>

definition runAfter :: "bool \<Rightarrow> Timer \<Rightarrow> bool \<times> Timer" where
  "runAfter handler t = (if \<not> handler then (False, t) else (True, t\<lparr>armed := True\<rparr>))"

definition timer_cancel :: "Timer \<Rightarrow> Timer" where
  "timer_cancel t = t\<lparr>armed := False\<rparr>"

subsection \<open>The controller\<close>

datatype Command = MUTE | CONTINUE

datatype AppStatus = MUTED | ACTIVATED

text \<open>\<open>told\<close> are the messages to the application, the newest last: 0 stop, 1 go on.\<close>

record AppSnapshotController =
  mAppStatus :: AppStatus
  mRecord :: "(nat, bool) std_map"
  mCommands :: "Command list"
  mThreadExit :: bool
  told :: "nat list"

definition new_AppSnapshotController :: AppSnapshotController where
  "new_AppSnapshotController = \<lparr>mAppStatus = ACTIVATED, mRecord = [], mCommands = [], mThreadExit = False, told = []\<rparr>"

fun canAllObjDoNextSnap :: "(nat, bool) std_map \<Rightarrow> bool" where
  "canAllObjDoNextSnap [] = True"
| "canAllObjDoNextSnap ((obj, can) # rest) = (if \<not> can then False else canAllObjDoNextSnap rest)"

definition onRecordChangedLocked :: "AppSnapshotController \<Rightarrow> AppSnapshotController" where
  "onRecordChangedLocked c = c\<lparr>mCommands := mCommands c @ [if canAllObjDoNextSnap (mRecord c) then CONTINUE else MUTE]\<rparr>"

definition onRecordUpdate :: "bool \<Rightarrow> nat \<Rightarrow> AppSnapshotController \<Rightarrow> AppSnapshotController" where
  "onRecordUpdate canDoNextSnapshot obj c = onRecordChangedLocked (c\<lparr>mRecord := sm_set obj canDoNextSnapshot (mRecord c)\<rparr>)"

definition onRecordDelete :: "nat \<Rightarrow> AppSnapshotController \<Rightarrow> AppSnapshotController" where
  "onRecordDelete obj c =
     (case sm_find (mRecord c) obj of
        None \<Rightarrow> c
      | Some _ \<Rightarrow> onRecordChangedLocked (c\<lparr>mRecord := sm_erase obj (mRecord c)\<rparr>))"

definition stopController :: "AppSnapshotController \<Rightarrow> AppSnapshotController" where
  "stopController c = c\<lparr>mThreadExit := True\<rparr>"

subsection \<open>The worker\<close>

text \<open>Where it is between two sections under a lock.\<close>

datatype worker = Waiting | Merging "Command list" | StartTimer | StopTimer | Ended

text \<open>\<open>None\<close> while the worker sleeps.\<close>

definition takeCommands :: "AppSnapshotController \<Rightarrow> (worker \<times> AppSnapshotController) option" where
  "takeCommands c =
     (if mThreadExit c then Some (Ended, c)
      else if mCommands c = [] then None
      else Some (Merging (mCommands c), c\<lparr>mCommands := []\<rparr>))"

definition mergeOne :: "AppStatus \<Rightarrow> Command \<Rightarrow> AppStatus" where
  "mergeOne updated command =
     (if updated = MUTED \<and> command = CONTINUE then ACTIVATED
      else if updated = ACTIVATED \<and> command = MUTE then MUTED
      else updated)"

definition mergeCommands :: "Command list \<Rightarrow> AppStatus \<Rightarrow> AppStatus" where
  "mergeCommands cs status = foldl mergeOne status cs"

definition applyCommands :: "Command list \<Rightarrow> AppSnapshotController \<Rightarrow> worker \<times> AppSnapshotController" where
  "applyCommands cs c =
     (let updated = mergeCommands cs (mAppStatus c)
      in if updated \<noteq> mAppStatus c
         then if updated = MUTED then (StartTimer, c\<lparr>mAppStatus := MUTED, told := told c @ [0]\<rparr>)
              else (StopTimer, c\<lparr>mAppStatus := ACTIVATED, told := told c @ [1]\<rparr>)
         else (Waiting, c))"

definition forceAwake :: "AppSnapshotController \<Rightarrow> AppSnapshotController" where
  "forceAwake c = c\<lparr>mAppStatus := ACTIVATED, told := told c @ [1]\<rparr>"

subsection \<open>Executions\<close>

text \<open>\<open>forced\<close>: the timer has woken the application up since the worker last looked at commands.\<close>

record snapshot_system =
  ctl :: AppSnapshotController
  thread :: worker
  reset :: Timer
  forced :: bool

inductive snapshot_step :: "snapshot_system \<Rightarrow> snapshot_system \<Rightarrow> bool" where
  update: "snapshot_step s (s\<lparr>ctl := onRecordUpdate b obj (ctl s)\<rparr>)"
| delete: "snapshot_step s (s\<lparr>ctl := onRecordDelete obj (ctl s)\<rparr>)"
| stop: "snapshot_step s (s\<lparr>ctl := stopController (ctl s)\<rparr>)"
| take: "thread s = Waiting \<Longrightarrow> takeCommands (ctl s) = Some (w, c) \<Longrightarrow> snapshot_step s (s\<lparr>ctl := c, thread := w\<rparr>)"
| merge: "thread s = Merging cs \<Longrightarrow> applyCommands cs (ctl s) = (w, c) \<Longrightarrow>
    snapshot_step s (s\<lparr>ctl := c, thread := w, forced := False\<rparr>)"
| arm: "thread s = StartTimer \<Longrightarrow> snapshot_step s (s\<lparr>thread := Waiting, reset := snd (runAfter True (reset s))\<rparr>)"
| disarm: "thread s = StopTimer \<Longrightarrow> snapshot_step s (s\<lparr>thread := Waiting, reset := timer_cancel (reset s)\<rparr>)"
| expire: "armed (reset s) \<Longrightarrow> snapshot_step s (s\<lparr>reset := \<lparr>armed = False, due = Suc (due (reset s))\<rparr>\<rparr>)"
| fire: "due (reset s) = Suc n \<Longrightarrow> snapshot_step s (s\<lparr>ctl := forceAwake (ctl s), reset := (reset s)\<lparr>due := n\<rparr>, forced := True\<rparr>)"

definition snapshot_start :: "snapshot_system \<Rightarrow> bool" where
  "snapshot_start s \<longleftrightarrow> ctl s = new_AppSnapshotController \<and> thread s = Waiting \<and> reset s = createTimer \<and> \<not> forced s"

text \<open>What the records ask for, and the commands that have not been looked at.\<close>

definition wanted :: "AppSnapshotController \<Rightarrow> AppStatus" where
  "wanted c = (if \<forall>can \<in> snd ` set (mRecord c). can then ACTIVATED else MUTED)"

definition asked :: "Command \<Rightarrow> AppStatus" where
  "asked command = (case command of MUTE \<Rightarrow> MUTED | CONTINUE \<Rightarrow> ACTIVATED)"

definition pending :: "snapshot_system \<Rightarrow> Command list" where
  "pending s = (case thread s of Merging cs \<Rightarrow> cs | _ \<Rightarrow> []) @ mCommands (ctl s)"

text \<open>What the application believes.\<close>

definition app_view :: "AppSnapshotController \<Rightarrow> AppStatus" where
  "app_view c = (if told c = [] \<or> last (told c) = 1 then ACTIVATED else MUTED)"

text \<open>Of a batch of commands only the last one counts.\<close>

lemma merge_last: "mergeCommands cs status = (if cs = [] then status else asked (last cs))"
proof (induction cs rule: rev_induct)
  case (snoc command cs)
  have "mergeOne st command = asked command" for st
    by (cases st; cases command) (simp_all add: mergeOne_def asked_def)
  then show ?case by (simp add: mergeCommands_def)
qed (simp add: mergeCommands_def)

lemma canAll_iff: "canAllObjDoNextSnap m \<longleftrightarrow> (\<forall>can \<in> snd ` set m. can)"
  by (induction m rule: canAllObjDoNextSnap.induct) auto

lemma onRecordChangedLocked_simps [simp]:
  "mAppStatus (onRecordChangedLocked c) = mAppStatus c" "mRecord (onRecordChangedLocked c) = mRecord c"
  "told (onRecordChangedLocked c) = told c" "mThreadExit (onRecordChangedLocked c) = mThreadExit c"
  "mCommands (onRecordChangedLocked c) = mCommands c @ [if wanted c = ACTIVATED then CONTINUE else MUTE]"
  by (simp_all add: onRecordChangedLocked_def wanted_def canAll_iff)

definition snapshot_ok :: "snapshot_system \<Rightarrow> bool" where
  "snapshot_ok s \<longleftrightarrow>
     (if pending s = [] then forced s \<or> mAppStatus (ctl s) = wanted (ctl s) else asked (last (pending s)) = wanted (ctl s)) \<and>
     app_view (ctl s) = mAppStatus (ctl s) \<and>
     (mAppStatus (ctl s) = MUTED \<longrightarrow> armed (reset s) \<or> due (reset s) > 0 \<or> thread s = StartTimer) \<and>
     (thread s = StopTimer \<longrightarrow> mAppStatus (ctl s) = ACTIVATED) \<and>
     (\<forall>cs. thread s = Merging cs \<longrightarrow> cs \<noteq> [])"

lemma asked_wanted [simp]: "asked (if w = ACTIVATED then CONTINUE else MUTE) = w"
  by (cases w) (simp_all add: asked_def)

lemma changed_ok:
  assumes "snapshot_ok s"
  shows "snapshot_ok (s\<lparr>ctl := onRecordChangedLocked (ctl s\<lparr>mRecord := m\<rparr>)\<rparr>)"
  using assms by (auto simp: snapshot_ok_def pending_def app_view_def wanted_def split: worker.splits)

lemma snapshot_step_ok:
  assumes "snapshot_step s t" and "snapshot_ok s"
  shows "snapshot_ok t"
  using assms
proof (induction rule: snapshot_step.induct)
  case (update s b obj)
  then show ?case using changed_ok by (simp add: onRecordUpdate_def)
next
  case (delete s obj)
  then show ?case using changed_ok by (auto simp: onRecordDelete_def split: option.splits)
next
  case (stop s)
  have "pending (s\<lparr>ctl := stopController (ctl s)\<rparr>) = pending s" by (simp add: pending_def stopController_def)
  moreover have "wanted (stopController (ctl s)) = wanted (ctl s)" "app_view (stopController (ctl s)) = app_view (ctl s)"
    "mAppStatus (stopController (ctl s)) = mAppStatus (ctl s)" by (simp_all add: wanted_def app_view_def stopController_def)
  ultimately show ?case using stop by (simp add: snapshot_ok_def)
next
  case (take s w c)
  show ?case
  proof (cases "mThreadExit (ctl s)")
    case True
    then have "w = Ended" "c = ctl s" using take.hyps(2) by (simp_all add: takeCommands_def)
    moreover from this have "pending (s\<lparr>ctl := c, thread := w\<rparr>) = pending s" using take.hyps(1) by (simp add: pending_def)
    ultimately show ?thesis using take.hyps(1) take.prems by (simp add: snapshot_ok_def)
  next
    case False
    then have "mCommands (ctl s) \<noteq> []" "w = Merging (mCommands (ctl s))" "c = (ctl s)\<lparr>mCommands := []\<rparr>"
      using take.hyps(2) by (simp_all add: takeCommands_def split: if_splits)
    then show ?thesis using take.hyps(1) take.prems by (auto simp: snapshot_ok_def pending_def app_view_def wanted_def)
  qed
next
  case (merge s cs w c)
  have ok: "cs \<noteq> []" "asked (last (cs @ mCommands (ctl s))) = wanted (ctl s)" "app_view (ctl s) = mAppStatus (ctl s)"
    "mAppStatus (ctl s) = MUTED \<longrightarrow> armed (reset s) \<or> due (reset s) > 0"
    using merge.hyps(1) merge.prems by (auto simp: snapshot_ok_def pending_def)
  have wc: "if asked (last cs) = mAppStatus (ctl s) then w = Waiting \<and> c = ctl s
    else w = (if asked (last cs) = MUTED then StartTimer else StopTimer) \<and>
      c = (ctl s)\<lparr>mAppStatus := asked (last cs), told := told (ctl s) @ [if asked (last cs) = MUTED then 0 else 1]\<rparr>"
    using merge.hyps(2) ok(1) by (cases "asked (last cs)") (auto simp: applyCommands_def merge_last Let_def split: if_splits)
  show ?case
  proof (cases "asked (last cs) = mAppStatus (ctl s)")
    case True
    then show ?thesis using wc ok by (auto simp: snapshot_ok_def pending_def split: if_splits)
  next
    case False
    then show ?thesis using wc ok
      by (cases "asked (last cs)"; cases "mCommands (ctl s) = []") (auto simp: snapshot_ok_def pending_def app_view_def wanted_def)
  qed
next
  case (fire s n)
  have "pending (s\<lparr>ctl := forceAwake (ctl s), reset := (reset s)\<lparr>due := n\<rparr>, forced := True\<rparr>) = pending s"
    by (simp add: pending_def forceAwake_def)
  moreover have "wanted (forceAwake (ctl s)) = wanted (ctl s)" "app_view (forceAwake (ctl s)) = ACTIVATED"
    "mAppStatus (forceAwake (ctl s)) = ACTIVATED" by (simp_all add: wanted_def app_view_def forceAwake_def)
  ultimately show ?case using fire by (simp add: snapshot_ok_def)
qed (auto simp: snapshot_ok_def pending_def runAfter_def timer_cancel_def split: if_splits)

interpretation snapshot: invariant_system snapshot_start snapshot_step snapshot_ok
proof unfold_locales
  fix s
  assume "snapshot_start s"
  then show "snapshot_ok s"
    by (simp add: snapshot_start_def snapshot_ok_def pending_def app_view_def wanted_def new_AppSnapshotController_def)
next
  fix s t
  assume "snapshot_ok s" and "snapshot_step s t"
  then show "snapshot_ok t" using snapshot_step_ok by blast
qed

lemma records_wf:
  assumes "snapshot_start s0" and "snapshot_step\<^sup>*\<^sup>* s0 s"
  shows "sm_wf (mRecord (ctl s))"
  using assms(2)
proof (induction rule: rtranclp_induct)
  case base
  then show ?case using assms(1) by (simp add: snapshot_start_def new_AppSnapshotController_def)
next
  case (step t u)
  from step(2,3) show ?case
  proof (induction rule: snapshot_step.induct)
    case (update s b obj)
    then show ?case by (simp add: onRecordUpdate_def sm_wf_set)
  next
    case (delete s obj)
    then show ?case by (simp add: onRecordDelete_def sm_wf_erase split: option.splits)
  next
    case (take s w c)
    then show ?case by (auto simp: takeCommands_def split: if_splits)
  next
    case (merge s cs w c)
    then show ?case by (auto simp: applyCommands_def Let_def split: if_splits)
  qed (simp_all add: stopController_def forceAwake_def)
qed

lemma wanted_muted: "sm_wf (mRecord c) \<Longrightarrow> wanted c = MUTED \<longleftrightarrow> (\<exists>obj. sm_find (mRecord c) obj = Some False)"
proof -
  assume wf: "sm_wf (mRecord c)"
  have "(\<exists>can \<in> snd ` set (mRecord c). \<not> can) \<longleftrightarrow> (\<exists>obj. (obj, False) \<in> set (mRecord c))" by force
  moreover have "wanted c = MUTED \<longleftrightarrow> (\<exists>can \<in> snd ` set (mRecord c). \<not> can)" by (simp add: wanted_def)
  ultimately show ?thesis by (simp only: sm_entries_find [OF wf])
qed

text \<open>The timer leads to an application that is awake, whether it is due, armed or about to be started.\<close>

abbreviation (input) comes_awake where
  "comes_awake s \<equiv> \<exists>t. snapshot_step\<^sup>*\<^sup>* s t \<and> app_view (ctl t) = ACTIVATED \<and> mRecord (ctl t) = mRecord (ctl s) \<and> pending t = pending s"

lemma due_wakes:
  assumes "due (reset s) > 0"
  shows "comes_awake s"
proof -
  obtain n where "due (reset s) = Suc n" using assms gr0_implies_Suc by blast
  then have "snapshot_step s (s\<lparr>ctl := forceAwake (ctl s), reset := (reset s)\<lparr>due := n\<rparr>, forced := True\<rparr>)" by (rule snapshot_step.fire)
  then show ?thesis by (intro exI conjI) (rule r_into_rtranclp, assumption, simp_all add: forceAwake_def app_view_def pending_def)
qed

lemma armed_wakes:
  assumes "armed (reset s)"
  shows "comes_awake s"
proof -
  let ?u = "s\<lparr>reset := \<lparr>armed = False, due = Suc (due (reset s))\<rparr>\<rparr>"
  have "snapshot_step s ?u" by (rule snapshot_step.expire [OF assms])
  moreover obtain t where "snapshot_step\<^sup>*\<^sup>* ?u t" "app_view (ctl t) = ACTIVATED" "mRecord (ctl t) = mRecord (ctl ?u)" "pending t = pending ?u"
    using due_wakes [of ?u] by auto
  ultimately show ?thesis by (intro exI [of _ t]) (auto simp: pending_def intro: converse_rtranclp_into_rtranclp)
qed

lemma muted_wakes:
  assumes ok: "snapshot_ok s" and m: "mAppStatus (ctl s) = MUTED"
  shows "comes_awake s"
proof -
  consider "armed (reset s)" | "due (reset s) > 0" | "thread s = StartTimer" using ok m by (auto simp: snapshot_ok_def)
  then show ?thesis
  proof cases
    case 3
    let ?u = "s\<lparr>thread := Waiting, reset := snd (runAfter True (reset s))\<rparr>"
    have "snapshot_step s ?u" by (rule snapshot_step.arm [OF 3])
    moreover obtain t where "snapshot_step\<^sup>*\<^sup>* ?u t" "app_view (ctl t) = ACTIVATED" "mRecord (ctl t) = mRecord (ctl ?u)" "pending t = pending ?u"
      using armed_wakes [of ?u] by (auto simp: runAfter_def)
    ultimately show ?thesis using 3 by (intro exI [of _ t]) (auto simp: pending_def intro: converse_rtranclp_into_rtranclp)
  qed (use armed_wakes due_wakes in blast)+
qed

text \<open>C32: In every interleaving of the parts that report, the worker and the timer: what the application has last been told is the
  status; when nothing is pending and the timer has not interfered, the application is stopped exactly if some part has reported
  that it is too busy; and an application that is stopped is not stopped for good, for the timer that wakes it up is running, due or
  about to be started, and wakes it without any report being made.\<close>

theorem snapshot_flow_control:
  assumes "snapshot_start s0" and "snapshot_step\<^sup>*\<^sup>* s0 s"
  shows "app_view (ctl s) = mAppStatus (ctl s) \<and>
    (pending s = [] \<and> \<not> forced s \<longrightarrow> (app_view (ctl s) = MUTED \<longleftrightarrow> (\<exists>obj. sm_find (mRecord (ctl s)) obj = Some False))) \<and>
    (app_view (ctl s) = MUTED \<longrightarrow> (\<exists>t. snapshot_step\<^sup>*\<^sup>* s t \<and> app_view (ctl t) = ACTIVATED \<and> mRecord (ctl t) = mRecord (ctl s) \<and>
       pending t = pending s))"
proof -
  have ok: "snapshot_ok s" by (rule snapshot.reachable_inv [OF assms])
  have busy: "wanted (ctl s) = MUTED \<longleftrightarrow> (\<exists>obj. sm_find (mRecord (ctl s)) obj = Some False)" by (rule wanted_muted [OF records_wf [OF assms]])
  have view: "app_view (ctl s) = mAppStatus (ctl s)" using ok by (simp add: snapshot_ok_def)
  moreover have "pending s = [] \<and> \<not> forced s \<Longrightarrow> mAppStatus (ctl s) = wanted (ctl s)" using ok by (simp add: snapshot_ok_def)
  ultimately show ?thesis using busy muted_wakes [OF ok] by metis
qed

theorem snapshot_flow_control_witness:
  "\<exists>s. snapshot_step\<^sup>*\<^sup>* \<lparr>ctl = new_AppSnapshotController, thread = Waiting, reset = createTimer, forced = False\<rparr> s \<and>
     pending s = [] \<and> \<not> forced s \<and> app_view (ctl s) = MUTED"
proof -
  let ?new = "\<lparr>ctl = new_AppSnapshotController, thread = Waiting, reset = createTimer, forced = False\<rparr>"
  let ?b = "?new\<lparr>ctl := onRecordUpdate False 5 (ctl ?new)\<rparr>"
  let ?c = "?b\<lparr>ctl := (ctl ?b)\<lparr>mCommands := []\<rparr>, thread := Merging [MUTE]\<rparr>"
  let ?d = "?c\<lparr>ctl := (ctl ?c)\<lparr>mAppStatus := MUTED, told := [0]\<rparr>, thread := StartTimer, forced := False\<rparr>"
  have 1: "snapshot_step ?new ?b" by (rule snapshot_step.update)
  have "takeCommands (ctl ?b) = Some (Merging [MUTE], (ctl ?b)\<lparr>mCommands := []\<rparr>)"
    by (simp add: takeCommands_def onRecordUpdate_def onRecordChangedLocked_def new_AppSnapshotController_def)
  from snapshot_step.take [OF _ this] have 2: "snapshot_step ?b ?c" by simp
  have "applyCommands [MUTE] (ctl ?c) = (StartTimer, (ctl ?c)\<lparr>mAppStatus := MUTED, told := [0]\<rparr>)"
    by (simp add: applyCommands_def mergeCommands_def mergeOne_def onRecordUpdate_def onRecordChangedLocked_def new_AppSnapshotController_def)
  from snapshot_step.merge [OF _ this] have 3: "snapshot_step ?c ?d" by simp
  have run: "snapshot_step\<^sup>*\<^sup>* ?new ?d" using 1 2 3 by (meson rtranclp.rtrancl_refl rtranclp.rtrancl_into_rtrancl)
  have start: "snapshot_start ?new" by (simp add: snapshot_start_def)
  have p: "pending ?d = []" "\<not> forced ?d" by (simp_all add: pending_def)
  have "sm_find (mRecord (ctl ?d)) 5 = Some False" by (simp add: onRecordUpdate_def)
  then have "app_view (ctl ?d) = MUTED" using snapshot_flow_control [OF start run] p by blast
  then show ?thesis using run p by blast
qed

text \<open>
  A handler that was due when the worker cancelled the timer still runs: it wakes the application
  up although a part has just reported that it is too busy.
\<close>

lemma stale_handler_wakes:
  assumes "due (reset s) = Suc n" and "mAppStatus (ctl s) = MUTED"
  shows "\<exists>t. snapshot_step (s\<lparr>reset := timer_cancel (reset s)\<rparr>) t \<and> app_view (ctl t) = ACTIVATED \<and> mRecord (ctl t) = mRecord (ctl s)"
proof -
  let ?s = "s\<lparr>reset := timer_cancel (reset s)\<rparr>"
  have "snapshot_step ?s (?s\<lparr>ctl := forceAwake (ctl ?s), reset := (reset ?s)\<lparr>due := n\<rparr>, forced := True\<rparr>)"
    by (rule snapshot_step.fire) (simp add: timer_cancel_def assms(1))
  then show ?thesis by (intro exI conjI) (assumption, simp_all add: forceAwake_def app_view_def)
qed

end
