(* ===== verification/TaskMonitor.thy ===== *)
theory TaskMonitor
  imports StdMap
begin

text \<open>
  How busy the algorithm engine is (\<^verbatim>\<open>mivifwk/hal/mihal/MialgoTaskMonitor.cpp\<close>): every session has
  a load, the sum of what its frames in the engine consume; the parts of the service that take
  pictures are stopped when a session is at its capacity, or when there are too many sizes of
  images.  A function returns the messages it sends to the controller of the application and to
  its timer, in their order.
\<close>

datatype monitor_effect = Report bool | CancelTimer | RunTimer

record MialgoTaskMonitor =
  mMialgoTaskStatus :: "(string, int) std_map"
  mMialgoTaskFrame :: "(string, (u32, unit) std_map) std_map"
  mMialgoSessionCapacity :: int
  mTooManyImageCategories :: bool
  mSignatureSet :: "(string, unit) std_map"
  mImageCategories :: "string list"
  mIsLargeRam :: bool

abbreviation MOCKCAMERANUM :: nat where "MOCKCAMERANUM \<equiv> 2"

text \<open>\<open>totalram\<close> is \<open>None\<close> when the kernel does not say.\<close>

definition new_MialgoTaskMonitor :: "int \<Rightarrow> nat option \<Rightarrow> MialgoTaskMonitor" where
  "new_MialgoTaskMonitor capacity totalram =
     \<lparr>mMialgoTaskStatus = [], mMialgoTaskFrame = [], mMialgoSessionCapacity = capacity, mTooManyImageCategories = True,
      mSignatureSet = [], mImageCategories = [],
      mIsLargeRam = (case totalram of None \<Rightarrow> False | Some n \<Rightarrow> 8 * 1024 * 1024 * 1024 < n)\<rparr>"

subsection \<open>Names of sessions\<close>

definition tolower :: "char \<Rightarrow> char" where
  "tolower c = (let n = of_char c :: nat in if 65 \<le> n \<and> n \<le> 90 then char_of (n + 32) else c)"

definition rfind :: "string \<Rightarrow> string \<Rightarrow> nat option" where
  "rfind pat s =
     (case filter (\<lambda>i. take (length pat) (drop i s) = pat) [0..<Suc (length s)] of
        [] \<Rightarrow> None
      | is \<Rightarrow> Some (last is))"

definition looseRestriction :: "bool \<Rightarrow> string \<Rightarrow> int \<Rightarrow> int" where
  "looseRestriction largeRam sessionName taskConsumption =
     (let lower = map tolower sessionName
      in if largeRam \<and> contains lower ''dual'' \<and> contains lower ''bokeh''
         then if taskConsumption - 2 > 0 then taskConsumption - 2 else taskConsumption
         else taskConsumption)"

subsection \<open>The operations\<close>

fun canHandle :: "int \<Rightarrow> (string, int) std_map \<Rightarrow> bool" where
  "canHandle capacity [] = True"
| "canHandle capacity ((sessionName, consumption) # rest) = (if consumption \<ge> capacity then False else canHandle capacity rest)"

definition canMialgoHandleNextSnapshot :: "MialgoTaskMonitor \<Rightarrow> bool" where
  "canMialgoHandleNextSnapshot m = canHandle (mMialgoSessionCapacity m) (mMialgoTaskStatus m)"

text \<open>Is it among the first ones?  The iterator is not compared with the end.\<close>

fun amongFirst :: "nat \<Rightarrow> string \<Rightarrow> string list \<Rightarrow> bool outcome" where
  "amongFirst 0 str cats = Inr False"
| "amongFirst (Suc n) str [] = Inl BadIndex"
| "amongFirst (Suc n) str (c # cats) = (if c = str then Inr True else amongFirst n str cats)"

definition checkImageCategoryCount :: "string \<Rightarrow> MialgoTaskMonitor \<Rightarrow> (MialgoTaskMonitor \<times> monitor_effect list) outcome" where
  "checkImageCategoryCount sessionName m =
     (case rfind ''output'' sessionName of
        None \<Rightarrow> Inr (m, [])
      | Some pos \<Rightarrow>
          let str = drop pos sessionName
          in if sm_find (mSignatureSet m) str \<noteq> None
             then if length (mSignatureSet m) \<le> MOCKCAMERANUM then Inr (m\<lparr>mTooManyImageCategories := False\<rparr>, [])
                  else bindE (amongFirst MOCKCAMERANUM str (mImageCategories m)) (\<lambda>found.
                         if found then Inr (m\<lparr>mTooManyImageCategories := True\<rparr>, [Report False]) else Inr (m, []))
             else Inr (m\<lparr>mSignatureSet := sm_set str () (mSignatureSet m), mImageCategories := mImageCategories m @ [str]\<rparr>, []))"

abbreviation loadOf :: "MialgoTaskMonitor \<Rightarrow> string \<Rightarrow> int" where
  "loadOf m sessionName \<equiv> sm_index 0 (mMialgoTaskStatus m) sessionName"

abbreviation framesOf :: "MialgoTaskMonitor \<Rightarrow> string \<Rightarrow> (u32, unit) std_map" where
  "framesOf m sessionName \<equiv> sm_index [] (mMialgoTaskFrame m) sessionName"

text \<open>The first block under the lock: a session that is not known yet.\<close>

definition meetSession :: "string \<Rightarrow> int \<Rightarrow> MialgoTaskMonitor \<Rightarrow> (MialgoTaskMonitor \<times> monitor_effect list) outcome" where
  "meetSession sessionName taskConsumption m =
     (if sm_find (mMialgoTaskStatus m) sessionName = None
      then let m0 = m\<lparr>mMialgoTaskStatus := sm_set sessionName 0 (mMialgoTaskStatus m)\<rparr>
           in if taskConsumption > 0 then checkImageCategoryCount sessionName m0 else Inr (m0, [])
      else Inr (m, []))"

text \<open>The frames of the session afterwards; \<open>None\<close> when the frame is not one of them and the function returns.\<close>

definition noteFrame :: "bool \<Rightarrow> int \<Rightarrow> u32 \<Rightarrow> (u32, unit) std_map \<Rightarrow> (u32, unit) std_map option" where
  "noteFrame isFromMihalToMialgo taskConsumption fwkFrameNum frames =
     (if isFromMihalToMialgo \<and> taskConsumption \<noteq> 0 then Some (sm_set fwkFrameNum () frames)
      else if sm_find frames fwkFrameNum \<noteq> None then Some (sm_erase fwkFrameNum frames)
      else None)"

definition onMialgoTaskNumChanged ::
  "string \<Rightarrow> int \<Rightarrow> u32 \<Rightarrow> bool \<Rightarrow> MialgoTaskMonitor \<Rightarrow> (MialgoTaskMonitor \<times> monitor_effect list) outcome" where
  "onMialgoTaskNumChanged sessionName consumption fwkFrameNum isFromMihalToMialgo m =
     (let taskConsumption = looseRestriction (mIsLargeRam m) sessionName consumption
      in bindE (meetSession sessionName taskConsumption m) (\<lambda>(m1, es).
         case noteFrame isFromMihalToMialgo taskConsumption fwkFrameNum (framesOf m1 sessionName) of
           None \<Rightarrow> Inr (m1\<lparr>mMialgoTaskFrame := sm_set sessionName (framesOf m1 sessionName) (mMialgoTaskFrame m1)\<rparr>, es)
         | Some frames \<Rightarrow>
             let now = loadOf m1 sessionName + (if isFromMihalToMialgo then taskConsumption else - taskConsumption);
                 m2 = m1\<lparr>mMialgoTaskFrame := sm_set sessionName frames (mMialgoTaskFrame m1),
                         mMialgoTaskStatus := sm_set sessionName (if now < 0 then 0 else now) (mMialgoTaskStatus m1)\<rparr>;
                 newStatus = canMialgoHandleNextSnapshot m2
             in Inr (m2, es @ (if mTooManyImageCategories m2 then [CancelTimer]
                               else [Report newStatus, if newStatus then CancelTimer else RunTimer]))))"

definition deleteMialgoTaskSig :: "string \<Rightarrow> MialgoTaskMonitor \<Rightarrow> MialgoTaskMonitor \<times> monitor_effect list" where
  "deleteMialgoTaskSig sessionName m =
     (let m1 = m\<lparr>mMialgoTaskStatus := sm_erase sessionName (mMialgoTaskStatus m)\<rparr> in
      case rfind ''output'' sessionName of
        None \<Rightarrow> (m1, [])
      | Some pos \<Rightarrow>
          let str = drop pos sessionName;
              m2 = m1\<lparr>mSignatureSet := sm_erase str (mSignatureSet m1), mImageCategories := filter (\<lambda>c. c \<noteq> str) (mImageCategories m1)\<rparr>
          in if length (mImageCategories m2) \<le> MOCKCAMERANUM
             then (m2\<lparr>mTooManyImageCategories := False\<rparr>, if canMialgoHandleNextSnapshot m2 then [Report True] else [])
             else (m2, []))"

text \<open>\<open>mMialgoTimeOutHandler\<close>\<close>

definition onTaskTimeOut :: "MialgoTaskMonitor \<Rightarrow> MialgoTaskMonitor \<times> monitor_effect list" where
  "onTaskTimeOut m =
     (m\<lparr>mMialgoTaskStatus := map (\<lambda>(name, n). (name, if n \<ge> mMialgoSessionCapacity m then 0 else n)) (mMialgoTaskStatus m)\<rparr>, [Report True])"

subsection \<open>Executions\<close>

text \<open>
  \<open>flight\<close> are the frames of a session in the engine with what they count for.  A frame is sent
  once and counts for nothing or more; results may come for any frame, also twice.  \<open>writtenOff\<close> are
  the sessions whose load the timer has reset, or which were deleted, while frames of theirs were in
  the engine; a session is none of them any more once the engine has no frame of it.
\<close>

record monitor_run =
  monitor :: MialgoTaskMonitor
  flight :: "string \<Rightarrow> (u32, int) std_map"
  writtenOff :: "string set"

definition restored :: "string \<Rightarrow> (u32, int) std_map \<Rightarrow> string set \<Rightarrow> string set" where
  "restored name frames off = (if frames = [] then off - {name} else off)"

inductive monitor_step :: "monitor_run \<Rightarrow> monitor_run \<Rightarrow> bool" where
  send: "sm_find (flight r name) f = None \<Longrightarrow> 0 \<le> c \<Longrightarrow> k = looseRestriction (mIsLargeRam (monitor r)) name c \<Longrightarrow>
    onMialgoTaskNumChanged name c f True (monitor r) = Inr (m, es) \<Longrightarrow> fs = (if k = 0 then flight r name else sm_set f k (flight r name)) \<Longrightarrow>
    monitor_step r (r\<lparr>monitor := m, flight := (flight r)(name := fs), writtenOff := restored name fs (writtenOff r)\<rparr>)"
| result: "(\<forall>k. sm_find (flight r name) f = Some k \<longrightarrow> k = looseRestriction (mIsLargeRam (monitor r)) name c) \<Longrightarrow>
    onMialgoTaskNumChanged name c f False (monitor r) = Inr (m, es) \<Longrightarrow> fs = sm_erase f (flight r name) \<Longrightarrow>
    monitor_step r (r\<lparr>monitor := m, flight := (flight r)(name := fs), writtenOff := restored name fs (writtenOff r)\<rparr>)"
| delete: "monitor_step r (r\<lparr>monitor := fst (deleteMialgoTaskSig name (monitor r)),
      writtenOff := writtenOff r \<union> (if loadOf (monitor r) name = 0 then {} else {name})\<rparr>)"
| time_out: "monitor_step r (r\<lparr>monitor := fst (onTaskTimeOut (monitor r)),
      writtenOff := writtenOff r \<union> {name. mMialgoSessionCapacity (monitor r) \<le> loadOf (monitor r) name}\<rparr>)"

definition monitor_start :: "monitor_run \<Rightarrow> bool" where
  "monitor_start r \<longleftrightarrow> (\<exists>capacity ram. monitor r = new_MialgoTaskMonitor capacity ram) \<and> flight r = (\<lambda>_. []) \<and> writtenOff r = {}"

definition sumFlight :: "(u32, int) std_map \<Rightarrow> int" where
  "sumFlight fs = (\<Sum>e\<leftarrow>fs. snd e)"

definition categories_ok :: "MialgoTaskMonitor \<Rightarrow> bool" where
  "categories_ok m \<longleftrightarrow> sm_wf (mSignatureSet m) \<and> distinct (mImageCategories m) \<and>
     fst ` set (mSignatureSet m) = set (mImageCategories m)"

definition load_ok :: "MialgoTaskMonitor \<Rightarrow> (string \<Rightarrow> (u32, int) std_map) \<Rightarrow> string set \<Rightarrow> bool" where
  "load_ok m fl off \<longleftrightarrow> sm_wf (mMialgoTaskStatus m) \<and>
     (\<forall>name. sm_wf (framesOf m name) \<and> sm_wf (fl name) \<and>
        (\<forall>f. sm_find (framesOf m name) f = None \<longleftrightarrow> sm_find (fl name) f = None) \<and>
        (\<forall>f k. sm_find (fl name) f = Some k \<longrightarrow> 0 < k) \<and>
        0 \<le> loadOf m name \<and> loadOf m name \<le> sumFlight (fl name) \<and> (name \<notin> off \<longrightarrow> loadOf m name = sumFlight (fl name)))"

subsection \<open>Lemmas\<close>

lemma canHandle_iff: "canHandle capacity st \<longleftrightarrow> (\<forall>(name, n) \<in> set st. n < capacity)"
  by (induction capacity st rule: canHandle.induct) auto

lemma sm_erase_missing: "sm_find m k = None \<Longrightarrow> sm_erase k m = m"
  by (induction k m rule: sm_erase.induct) (auto split: if_splits)

lemma sumFlight_new: "sm_find fs f = None \<Longrightarrow> sumFlight (sm_set f k fs) = sumFlight fs + k"
  using sum_sm_new [of fs f snd k] by (simp add: sumFlight_def)

lemma sumFlight_erase: "sm_find fs f = Some k \<Longrightarrow> sumFlight (sm_erase f fs) = sumFlight fs - k"
  using sum_sm_erase [of fs f k snd] by (simp add: sumFlight_def)

lemma sumFlight_nonneg:
  assumes "sm_wf fs" and "\<And>f k. sm_find fs f = Some k \<Longrightarrow> 0 < k"
  shows "0 \<le> sumFlight fs" and "sumFlight fs = 0 \<Longrightarrow> fs = []"
proof -
  have pos: "0 < snd e" if "e \<in> set fs" for e
  proof -
    have "(fst e, snd e) \<in> set fs" using that by simp
    then have "sm_find fs (fst e) = Some (snd e)" by (simp only: sm_entries_find [OF assms(1)])
    then show ?thesis by (rule assms(2))
  qed
  then show "0 \<le> sumFlight fs" unfolding sumFlight_def by (intro sum_list_nonneg) (auto intro: less_imp_le)
  show "fs = []" if z: "sumFlight fs = 0"
  proof (rule ccontr)
    assume "fs \<noteq> []"
    then obtain e rest where fs: "fs = e # rest" by (cases fs) auto
    have "0 \<le> (\<Sum>e\<leftarrow>rest. snd e)" using pos fs by (intro sum_list_nonneg) (auto intro: less_imp_le)
    then show False using pos [of e] z fs by (simp add: sumFlight_def)
  qed
qed

lemma loose_nonneg: "0 \<le> c \<Longrightarrow> 0 \<le> looseRestriction ram name c"
  by (simp add: looseRestriction_def Let_def)

lemma amongFirst_ok: "n \<le> length cats \<Longrightarrow> \<exists>b. amongFirst n str cats = Inr b"
  by (induction n str cats rule: amongFirst.induct) auto

lemma length_signatures: "categories_ok m \<Longrightarrow> length (mSignatureSet m) = length (mImageCategories m)"
  using sm.distinct_keys [of "mSignatureSet m"] distinct_card [of "map fst (mSignatureSet m)"] distinct_card [of "mImageCategories m"]
  by (simp add: categories_ok_def)

definition same_load :: "MialgoTaskMonitor \<Rightarrow> MialgoTaskMonitor \<Rightarrow> bool" where
  "same_load m m' \<longleftrightarrow> mMialgoTaskFrame m' = mMialgoTaskFrame m \<and> mMialgoSessionCapacity m' = mMialgoSessionCapacity m \<and>
     mIsLargeRam m' = mIsLargeRam m \<and> (\<forall>name. loadOf m' name = loadOf m name) \<and> (sm_wf (mMialgoTaskStatus m) \<longrightarrow> sm_wf (mMialgoTaskStatus m'))"

lemma check_ok:
  assumes "categories_ok m"
  shows "\<exists>m' es. checkImageCategoryCount name m = Inr (m', es) \<and> categories_ok m' \<and> same_load m m' \<and>
    mMialgoTaskStatus m' = mMialgoTaskStatus m \<and> (\<forall>b. Report b \<in> set es \<longrightarrow> \<not> b \<and> mTooManyImageCategories m')"
proof (cases "rfind ''output'' name")
  case None
  then show ?thesis using assms by (simp add: checkImageCategoryCount_def same_load_def)
next
  case (Some pos)
  let ?str = "drop pos name"
  show ?thesis
  proof (cases "sm_find (mSignatureSet m) ?str")
    case None
    then have "?str \<notin> set (mImageCategories m)" using assms by (simp add: categories_ok_def sm_find_None_iff)
    then have "categories_ok (m\<lparr>mSignatureSet := sm_set ?str () (mSignatureSet m), mImageCategories := mImageCategories m @ [?str]\<rparr>)"
      using assms by (auto simp: categories_ok_def sm_wf_set)
    then show ?thesis using None Some by (simp add: checkImageCategoryCount_def Let_def same_load_def)
  next
    case (Some u)
    show ?thesis
    proof (cases "length (mSignatureSet m) \<le> MOCKCAMERANUM")
      case True
      then show ?thesis using \<open>rfind ''output'' name = Some pos\<close> Some assms
        by (simp add: checkImageCategoryCount_def Let_def same_load_def categories_ok_def)
    next
      case False
      then obtain b where "amongFirst MOCKCAMERANUM ?str (mImageCategories m) = Inr b"
        using amongFirst_ok [of MOCKCAMERANUM "mImageCategories m" ?str] length_signatures [OF assms] by auto
      then show ?thesis using \<open>rfind ''output'' name = Some pos\<close> Some False assms
        by (simp add: checkImageCategoryCount_def Let_def same_load_def categories_ok_def)
    qed
  qed
qed

lemma meet_ok:
  assumes "categories_ok m"
  shows "\<exists>m' es. meetSession name c m = Inr (m', es) \<and> categories_ok m' \<and> same_load m m' \<and>
    (\<forall>b. Report b \<in> set es \<longrightarrow> \<not> b \<and> mTooManyImageCategories m')"
proof (cases "sm_find (mMialgoTaskStatus m) name")
  case None
  let ?m = "m\<lparr>mMialgoTaskStatus := sm_set name 0 (mMialgoTaskStatus m)\<rparr>"
  have ok: "categories_ok ?m" using assms by (simp add: categories_ok_def)
  have same: "same_load m m'" if "same_load ?m m'" for m'
    using that None by (auto simp: same_load_def sm_wf_set sm_index_def)
  have "same_load m ?m" by (rule same) (simp add: same_load_def)
  then show ?thesis using check_ok [OF ok, of name] same None ok by (auto simp: meetSession_def Let_def)
qed (use assms in \<open>simp add: meetSession_def same_load_def\<close>)

lemma same_load_ok:
  assumes "same_load m m'" and "load_ok m fl off"
  shows "load_ok m' fl off"
  using assms by (simp add: same_load_def load_ok_def)

lemma load_okD:
  assumes "load_ok m fl off"
  shows "sm_wf (mMialgoTaskStatus m)" "sm_wf (framesOf m name)" "sm_wf (fl name)"
    "sm_find (framesOf m name) f = None \<longleftrightarrow> sm_find (fl name) f = None" "sm_find (fl name) f = Some k \<Longrightarrow> 0 < k"
    "0 \<le> loadOf m name" "loadOf m name \<le> sumFlight (fl name)" "name \<notin> off \<Longrightarrow> loadOf m name = sumFlight (fl name)"
  using assms unfolding load_ok_def by blast+

lemma load_ok_restored: "load_ok m fl off \<Longrightarrow> load_ok m fl (restored name (fl name) off)"
  unfolding load_ok_def restored_def
proof (elim conjE, intro conjI allI)
  assume all: "\<forall>name. sm_wf (framesOf m name) \<and> sm_wf (fl name) \<and> (\<forall>f. (sm_find (framesOf m name) f = None) = (sm_find (fl name) f = None)) \<and>
    (\<forall>f k. sm_find (fl name) f = Some k \<longrightarrow> 0 < k) \<and> 0 \<le> loadOf m name \<and> loadOf m name \<le> sumFlight (fl name) \<and>
    (name \<notin> off \<longrightarrow> loadOf m name = sumFlight (fl name))"
  show "x \<notin> (if fl name = [] then off - {name} else off) \<longrightarrow> loadOf m x = sumFlight (fl x)" for x
  proof (cases "fl name = [] \<and> x = name")
    case True
    then have "sumFlight (fl x) = 0" by (simp add: sumFlight_def)
    moreover have "0 \<le> loadOf m x" "loadOf m x \<le> sumFlight (fl x)" using all by blast+
    ultimately show ?thesis by simp
  next
    case False
    then show ?thesis using all by auto
  qed
qed blast+

text \<open>One session changes.\<close>

lemma load_ok_update:
  assumes ok: "load_ok m fl off"
    and frames: "sm_wf frames" "sm_wf fs" "\<And>f. sm_find frames f = None \<longleftrightarrow> sm_find fs f = None" "\<And>f k. sm_find fs f = Some k \<Longrightarrow> 0 < k"
    and n: "0 \<le> n" "n \<le> sumFlight fs" "name \<notin> off \<Longrightarrow> n = sumFlight fs"
  shows "load_ok (m\<lparr>mMialgoTaskFrame := sm_set name frames (mMialgoTaskFrame m), mMialgoTaskStatus := sm_set name n (mMialgoTaskStatus m)\<rparr>) (fl(name := fs))
    (restored name fs off)"
proof -
  let ?m = "m\<lparr>mMialgoTaskFrame := sm_set name frames (mMialgoTaskFrame m), mMialgoTaskStatus := sm_set name n (mMialgoTaskStatus m)\<rparr>"
  note D = load_okD [OF ok]
  have "load_ok ?m (fl(name := fs)) off"
    unfolding load_ok_def
  proof (intro conjI allI)
    show "sm_wf (mMialgoTaskStatus ?m)" using D(1) by (simp add: sm_wf_set)
    fix x
    show "sm_wf (framesOf ?m x)" "sm_wf ((fl(name := fs)) x)" using D(2,3) frames by simp_all
    show "(sm_find (framesOf ?m x) f = None) = (sm_find ((fl(name := fs)) x) f = None)" for f using D(4) frames by simp
    show "sm_find ((fl(name := fs)) x) f = Some k \<longrightarrow> 0 < k" for f k using D(5) frames by simp
    show "0 \<le> loadOf ?m x" using D(6) n by simp
    show "loadOf ?m x \<le> sumFlight ((fl(name := fs)) x)" using D(7) n by simp
    show "x \<notin> off \<longrightarrow> loadOf ?m x = sumFlight ((fl(name := fs)) x)" using D(8) n by simp
  qed
  from load_ok_restored [OF this, of name] show ?thesis by simp
qed

text \<open>A report of a frame never fails; a frame that does not count leaves the loads alone.\<close>

lemma change_ok:
  assumes c: "categories_ok m" and ok: "load_ok m fl off" and k: "k = looseRestriction (mIsLargeRam m) name consumption"
    and send: "toMialgo \<Longrightarrow> 0 \<le> k \<and> sm_find (fl name) f = None"
    and came: "\<And>j. \<not> toMialgo \<Longrightarrow> sm_find (fl name) f = Some j \<Longrightarrow> j = k"
  defines "fs \<equiv> if toMialgo then if k = 0 then fl name else sm_set f k (fl name) else sm_erase f (fl name)"
  shows "\<exists>m' es. onMialgoTaskNumChanged name consumption f toMialgo m = Inr (m', es) \<and> categories_ok m' \<and> load_ok m' (fl(name := fs)) (restored name fs off) \<and>
    mMialgoSessionCapacity m' = mMialgoSessionCapacity m \<and> mIsLargeRam m' = mIsLargeRam m \<and>
    (\<forall>b. Report b \<in> set es \<longrightarrow> b = (canMialgoHandleNextSnapshot m' \<and> \<not> mTooManyImageCategories m')) \<and>
    ((if toMialgo then k \<noteq> 0 else sm_find (fl name) f \<noteq> None) \<and> \<not> mTooManyImageCategories m' \<longrightarrow>
       Report (canMialgoHandleNextSnapshot m') \<in> set es)"
proof -
  obtain m1 es where m1: "meetSession name k m = Inr (m1, es)" "categories_ok m1" "same_load m m1"
    "\<forall>b. Report b \<in> set es \<longrightarrow> \<not> b \<and> mTooManyImageCategories m1" using meet_ok [OF c] by blast
  have ok1: "load_ok m1 fl off" by (rule same_load_ok [OF m1(3) ok])
  note D = load_okD [OF ok1]
  have cfg: "mMialgoSessionCapacity m1 = mMialgoSessionCapacity m" "mIsLargeRam m1 = mIsLargeRam m" using m1(3) by (simp_all add: same_load_def)
  have on: "onMialgoTaskNumChanged name consumption f toMialgo m =
      (case noteFrame toMialgo k f (framesOf m1 name) of
           None \<Rightarrow> Inr (m1\<lparr>mMialgoTaskFrame := sm_set name (framesOf m1 name) (mMialgoTaskFrame m1)\<rparr>, es)
         | Some frames \<Rightarrow>
             let now = loadOf m1 name + (if toMialgo then k else - k);
                 m2 = m1\<lparr>mMialgoTaskFrame := sm_set name frames (mMialgoTaskFrame m1),
                         mMialgoTaskStatus := sm_set name (if now < 0 then 0 else now) (mMialgoTaskStatus m1)\<rparr>;
                 newStatus = canMialgoHandleNextSnapshot m2
             in Inr (m2, es @ (if mTooManyImageCategories m2 then [CancelTimer]
                               else [Report newStatus, if newStatus then CancelTimer else RunTimer])))"
    unfolding onMialgoTaskNumChanged_def k [symmetric] Let_def using m1(1) by simp
  show ?thesis
  proof (cases "noteFrame toMialgo k f (framesOf m1 name)")
    case None
    then have out: "sm_find (fl name) f = None" "\<not> (toMialgo \<and> k \<noteq> 0)" using D(4) by (auto simp: noteFrame_def split: if_splits)
    then have fs: "fs = fl name" by (auto simp: fs_def sm_erase_missing)
    let ?m = "m1\<lparr>mMialgoTaskFrame := sm_set name (framesOf m1 name) (mMialgoTaskFrame m1)\<rparr>"
    have "load_ok ?m fl off" using ok1 by (simp add: load_ok_def)
    from load_ok_restored [OF this, of name] have "load_ok ?m (fl(name := fs)) (restored name fs off)" by (simp add: fs)
    moreover have "categories_ok ?m" using m1(2) by (simp add: categories_ok_def)
    ultimately show ?thesis using on None cfg m1(4) out by (intro exI [of _ ?m] exI [of _ es]) auto
  next
    case (Some frames)
    let ?n = "loadOf m1 name + (if toMialgo then k else - k)"
    let ?m = "m1\<lparr>mMialgoTaskFrame := sm_set name frames (mMialgoTaskFrame m1), mMialgoTaskStatus := sm_set name (if ?n < 0 then 0 else ?n) (mMialgoTaskStatus m1)\<rparr>"
    have "load_ok ?m (fl(name := fs)) (restored name fs off)"
    proof (cases toMialgo)
      case True
      then have k0: "0 < k" and new: "sm_find (fl name) f = None" using send Some D(4) by (auto simp: noteFrame_def split: if_splits)
      then have fr: "frames = sm_set f () (framesOf m1 name)" and fs: "fs = sm_set f k (fl name)" using Some True by (simp_all add: noteFrame_def fs_def)
      have "0 \<le> loadOf m1 name + k" using D(6) [of name] k0 by simp
      note nn = this order.trans [OF this add_right_mono [OF D(7) [of name]]]
      have n: "(if loadOf m1 name + (if toMialgo then k else - k) < 0 then 0 else loadOf m1 name + (if toMialgo then k else - k)) = loadOf m1 name + k"
        using nn(1) True by simp
      show ?thesis unfolding n
        by (rule load_ok_update [OF ok1])
          (use nn k0 D(2,3,4,5) D(7,8) [of name] sumFlight_new [OF new, of k] in \<open>auto simp: fr fs sm_wf_set split: if_splits\<close>)
    next
      case False
      then obtain j where "sm_find (fl name) f = Some j" using Some D(4) by (auto simp: noteFrame_def split: if_splits)
      then have j: "sm_find (fl name) f = Some k" using came [OF False] by simp
      have fr: "frames = sm_erase f (framesOf m1 name)" and fs: "fs = sm_erase f (fl name)"
        using Some False by (auto simp: noteFrame_def fs_def split: if_splits)
      have wf: "sm_wf fs" using D(3) by (simp add: fs sm_wf_erase)
      have pos: "\<And>f k. sm_find fs f = Some k \<Longrightarrow> 0 < k" using D(5) sm_find_erase [OF D(3)] by (auto simp: fs split: if_splits)
      have "0 \<le> sumFlight fs" by (rule sumFlight_nonneg(1) [OF wf pos])
      then show ?thesis
        using False D(7,8) [of name] sumFlight_erase [OF j] D(4) pos wf D(2,3)
        by (intro load_ok_update [OF ok1]) (auto simp: fr fs sm_wf_erase sm_find_erase split: if_splits)
    qed
    moreover have "categories_ok ?m" using m1(2) by (simp add: categories_ok_def)
    moreover have "onMialgoTaskNumChanged name consumption f toMialgo m = Inr (?m, es @ (if mTooManyImageCategories ?m then [CancelTimer]
        else [Report (canMialgoHandleNextSnapshot ?m), if canMialgoHandleNextSnapshot ?m then CancelTimer else RunTimer]))"
      unfolding on Some by (simp only: option.case Let_def)
    moreover have "b = (canMialgoHandleNextSnapshot ?m \<and> \<not> mTooManyImageCategories ?m)"
      if "Report b \<in> set (es @ (if mTooManyImageCategories ?m then [CancelTimer]
        else [Report (canMialgoHandleNextSnapshot ?m), if canMialgoHandleNextSnapshot ?m then CancelTimer else RunTimer]))" for b
      using that m1(4) by (auto split: if_splits)
    moreover have "Report (canMialgoHandleNextSnapshot ?m) \<in> set (es @ (if mTooManyImageCategories ?m then [CancelTimer]
        else [Report (canMialgoHandleNextSnapshot ?m), if canMialgoHandleNextSnapshot ?m then CancelTimer else RunTimer]))"
      if "\<not> mTooManyImageCategories ?m"
      using that by simp
    ultimately show ?thesis using cfg by (intro exI conjI allI impI) (assumption, assumption, assumption, simp, simp, blast, blast)
  qed
qed

lemma length_filter_cats: "fst ` set sg = set cats \<Longrightarrow> sm_wf sg \<Longrightarrow> fst ` set (sm_erase str sg) = set (filter (\<lambda>c. c \<noteq> str) cats)"
proof -
  assume keys: "fst ` set sg = set cats" and wf: "sm_wf sg"
  have "x \<notin> fst ` set (sm_erase str sg) \<longleftrightarrow> x \<notin> fst ` set sg \<or> x = str" for x
    unfolding sm_find_None_iff [symmetric] sm_find_erase [OF wf] by simp
  then show ?thesis using keys by (simp only: set_filter) blast
qed

lemma delete_ok:
  assumes c: "categories_ok m" and ok: "load_ok m fl off" and m': "m' = fst (deleteMialgoTaskSig name m)"
  shows "categories_ok m' \<and> load_ok m' fl (off \<union> (if loadOf m name = 0 then {} else {name})) \<and> mMialgoSessionCapacity m' = mMialgoSessionCapacity m \<and>
    (\<forall>b. Report b \<in> set (snd (deleteMialgoTaskSig name m)) \<longrightarrow> b \<and> canMialgoHandleNextSnapshot m')"
proof -
  note D = load_okD [OF ok]
  have st: "mMialgoTaskStatus m' = sm_erase name (mMialgoTaskStatus m)" "mMialgoTaskFrame m' = mMialgoTaskFrame m"
    "mMialgoSessionCapacity m' = mMialgoSessionCapacity m"
    by (simp_all add: m' deleteMialgoTaskSig_def Let_def split: option.splits)
  have load: "loadOf m' x = (if x = name then 0 else loadOf m x)" for x
    using sm_find_erase [OF D(1)] by (simp add: st(1) sm_index_def)
  have sum: "0 \<le> sumFlight (fl x)" for x by (rule sumFlight_nonneg(1) [OF D(3)]) (rule D(5))
  have "load_ok m' fl (off \<union> (if loadOf m name = 0 then {} else {name}))"
    unfolding load_ok_def load unfolding st
    using D sum by (auto simp: sm_wf_erase)
  moreover have "categories_ok m'"
    using c length_filter_cats [of "mSignatureSet m" "mImageCategories m"] unfolding categories_ok_def
    by (auto simp: m' deleteMialgoTaskSig_def Let_def sm_wf_erase split: option.splits)
  moreover have "b \<and> canMialgoHandleNextSnapshot m'" if "Report b \<in> set (snd (deleteMialgoTaskSig name m))" for b
    using that by (auto simp: m' deleteMialgoTaskSig_def Let_def canMialgoHandleNextSnapshot_def split: option.splits if_splits)
  ultimately show ?thesis using st(3) by blast
qed

lemma find_map_values: "sm_find (map (\<lambda>(k, v). (k, g v)) m) x = map_option g (sm_find m x)"
  by (induction m) auto

lemma time_out_ok:
  assumes c: "categories_ok m" and ok: "load_ok m fl off"
  shows "categories_ok (fst (onTaskTimeOut m)) \<and> load_ok (fst (onTaskTimeOut m)) fl (off \<union> {name. mMialgoSessionCapacity m \<le> loadOf m name}) \<and>
    mMialgoSessionCapacity (fst (onTaskTimeOut m)) = mMialgoSessionCapacity m \<and>
    (0 < mMialgoSessionCapacity m \<longrightarrow> canMialgoHandleNextSnapshot (fst (onTaskTimeOut m)))"
proof -
  note D = load_okD [OF ok]
  let ?m = "fst (onTaskTimeOut m)"
  have st: "mMialgoTaskStatus ?m = map (\<lambda>(name, n). (name, if n \<ge> mMialgoSessionCapacity m then 0 else n)) (mMialgoTaskStatus m)"
    "mMialgoTaskFrame ?m = mMialgoTaskFrame m" "mMialgoSessionCapacity ?m = mMialgoSessionCapacity m"
    by (simp_all add: onTaskTimeOut_def)
  have load: "loadOf ?m x = (if loadOf m x \<ge> mMialgoSessionCapacity m then 0 else loadOf m x)" for x
    by (simp add: st(1) sm_index_def find_map_values split: option.splits)
  have wf: "sm_wf (mMialgoTaskStatus ?m)"
    using D(1) by (simp add: st(1) sm_wf_def comp_def case_prod_beta)
  have sum: "0 \<le> sumFlight (fl x)" for x by (rule sumFlight_nonneg(1) [OF D(3)]) (rule D(5))
  have "load_ok ?m fl (off \<union> {name. mMialgoSessionCapacity m \<le> loadOf m name})"
    unfolding load_ok_def
  proof (intro conjI allI impI)
    fix x
    show "0 \<le> loadOf ?m x" using D(6) [of x] by (simp add: load)
    show "loadOf ?m x \<le> sumFlight (fl x)" using D(7) [of x] sum [of x] by (simp add: load)
    show "loadOf ?m x = sumFlight (fl x)" if "x \<notin> off \<union> {name. mMialgoSessionCapacity m \<le> loadOf m name}" using that D(8) [of x] by (simp add: load)
  qed (use D wf st(2) in auto)
  moreover have "categories_ok ?m" using c by (simp add: categories_ok_def onTaskTimeOut_def)
  moreover have "0 < mMialgoSessionCapacity m \<longrightarrow> canMialgoHandleNextSnapshot ?m"
    by (auto simp: canMialgoHandleNextSnapshot_def canHandle_iff st)
  ultimately show ?thesis using st(3) by blast
qed

definition monitor_ok :: "monitor_run \<Rightarrow> bool" where
  "monitor_ok r \<longleftrightarrow> categories_ok (monitor r) \<and> load_ok (monitor r) (flight r) (writtenOff r)"

lemma monitor_step_ok:
  assumes "monitor_step r t" and "monitor_ok r"
  shows "monitor_ok t"
  using assms
proof (induction rule: monitor_step.induct)
  case (send r name f c k m es fs)
  have ok: "categories_ok (monitor r)" "load_ok (monitor r) (flight r) (writtenOff r)" using send.prems by (simp_all add: monitor_ok_def)
  from change_ok [OF ok send.hyps(3), of True f] send.hyps(1,4,5) loose_nonneg [OF send.hyps(2)] send.hyps(3)
  show ?case by (auto simp: monitor_ok_def)
next
  case (result r name f c m es fs)
  have ok: "categories_ok (monitor r)" "load_ok (monitor r) (flight r) (writtenOff r)" using result.prems by (simp_all add: monitor_ok_def)
  from change_ok [OF ok refl, where name = name and consumption = c and toMialgo = False and f = f] result.hyps
  show ?case by (auto simp: monitor_ok_def)
next
  case (delete r name)
  then have ok: "categories_ok (monitor r)" "load_ok (monitor r) (flight r) (writtenOff r)" by (simp_all add: monitor_ok_def)
  show ?case using delete_ok [OF ok refl, of name] by (simp add: monitor_ok_def)
next
  case (time_out r)
  then have ok: "categories_ok (monitor r)" "load_ok (monitor r) (flight r) (writtenOff r)" by (simp_all add: monitor_ok_def)
  show ?case using time_out_ok [OF ok] by (simp add: monitor_ok_def)
qed

interpretation monitor: invariant_system monitor_start monitor_step monitor_ok
proof unfold_locales
  fix r
  assume "monitor_start r"
  then show "monitor_ok r"
    by (auto simp: monitor_start_def monitor_ok_def new_MialgoTaskMonitor_def categories_ok_def load_ok_def sm_index_def sumFlight_def)
next
  fix r t
  assume "monitor_ok r" and "monitor_step r t"
  then show "monitor_ok t" using monitor_step_ok by blast
qed

text \<open>C33: The load of a session is never negative and never above what its frames in the engine count for.  It is exactly that, unless
  the timer has reset it or the session was deleted while it had a load; then again as soon as none of its frames is in the engine.  The
  monitor answers that the next picture may be taken exactly if every load is below the capacity, so that with nothing in the engine it
  always does.  Whatever frame is reported next, it is reported without fault; the message to the controller, if one is sent, says that a
  picture may be taken exactly if the loads allow it and there are not too many sizes of images, and with not too many sizes it is sent
  whenever the frame counts.\<close>

theorem load_is_in_flight:
  assumes "monitor_start r0" and "monitor_step\<^sup>*\<^sup>* r0 r" and "0 < mMialgoSessionCapacity (monitor r)"
  shows "(\<forall>name. 0 \<le> loadOf (monitor r) name \<and> loadOf (monitor r) name \<le> sumFlight (flight r name) \<and>
       (name \<notin> writtenOff r \<longrightarrow> loadOf (monitor r) name = sumFlight (flight r name))) \<and>
    (canMialgoHandleNextSnapshot (monitor r) \<longleftrightarrow> (\<forall>name. loadOf (monitor r) name < mMialgoSessionCapacity (monitor r))) \<and>
    ((\<forall>name. flight r name = []) \<longrightarrow> canMialgoHandleNextSnapshot (monitor r)) \<and>
    (\<forall>name c f send. (if send then 0 \<le> c \<and> sm_find (flight r name) f = None
         else \<forall>k. sm_find (flight r name) f = Some k \<longrightarrow> k = looseRestriction (mIsLargeRam (monitor r)) name c) \<longrightarrow>
       (\<exists>m es. onMialgoTaskNumChanged name c f send (monitor r) = Inr (m, es) \<and>
          (\<forall>b. Report b \<in> set es \<longrightarrow> b = (canMialgoHandleNextSnapshot m \<and> \<not> mTooManyImageCategories m)) \<and>
          ((if send then looseRestriction (mIsLargeRam (monitor r)) name c \<noteq> 0 else sm_find (flight r name) f \<noteq> None) \<and>
             \<not> mTooManyImageCategories m \<longrightarrow> Report (canMialgoHandleNextSnapshot m) \<in> set es)))"
proof -
  have ok: "categories_ok (monitor r)" "load_ok (monitor r) (flight r) (writtenOff r)"
    using monitor.reachable_inv [OF assms(1,2)] by (simp_all add: monitor_ok_def)
  note D = load_okD [OF ok(2)]
  have can: "canMialgoHandleNextSnapshot (monitor r) \<longleftrightarrow> (\<forall>name. loadOf (monitor r) name < mMialgoSessionCapacity (monitor r))"
  proof -
    have "(\<forall>(name, n) \<in> set (mMialgoTaskStatus (monitor r)). n < mMialgoSessionCapacity (monitor r)) \<longleftrightarrow>
        (\<forall>name n. sm_find (mMialgoTaskStatus (monitor r)) name = Some n \<longrightarrow> n < mMialgoSessionCapacity (monitor r))"
      using sm_entries_find [OF D(1)] by blast
    also have "\<dots> \<longleftrightarrow> (\<forall>name. loadOf (monitor r) name < mMialgoSessionCapacity (monitor r))"
      using assms(3) by (auto simp: sm_index_def split: option.splits)
    finally show ?thesis by (simp add: canMialgoHandleNextSnapshot_def canHandle_iff)
  qed
  have idle: "canMialgoHandleNextSnapshot (monitor r)" if "\<forall>name. flight r name = []"
    unfolding can
  proof
    fix name
    show "loadOf (monitor r) name < mMialgoSessionCapacity (monitor r)" using D(7) [of name] that assms(3) by (simp add: sumFlight_def)
  qed
  have change: "\<exists>m es. onMialgoTaskNumChanged name c f b (monitor r) = Inr (m, es) \<and>
      (\<forall>b. Report b \<in> set es \<longrightarrow> b = (canMialgoHandleNextSnapshot m \<and> \<not> mTooManyImageCategories m)) \<and>
      ((if b then looseRestriction (mIsLargeRam (monitor r)) name c \<noteq> 0 else sm_find (flight r name) f \<noteq> None) \<and>
         \<not> mTooManyImageCategories m \<longrightarrow> Report (canMialgoHandleNextSnapshot m) \<in> set es)"
    if "b \<Longrightarrow> 0 \<le> c \<and> sm_find (flight r name) f = None"
      and "\<And>j. \<not> b \<Longrightarrow> sm_find (flight r name) f = Some j \<Longrightarrow> j = looseRestriction (mIsLargeRam (monitor r)) name c" for name c f b
    using change_ok [OF ok refl, where name = name and consumption = c and toMialgo = b and f = f] that loose_nonneg [of c "mIsLargeRam (monitor r)" name] by blast
  show ?thesis
  proof (intro conjI allI impI can)
    fix name c f send
    assume "if send then 0 \<le> c \<and> sm_find (flight r name) f = None
         else \<forall>k. sm_find (flight r name) f = Some k \<longrightarrow> k = looseRestriction (mIsLargeRam (monitor r)) name c"
    then show "\<exists>m es. onMialgoTaskNumChanged name c f send (monitor r) = Inr (m, es) \<and>
          (\<forall>b. Report b \<in> set es \<longrightarrow> b = (canMialgoHandleNextSnapshot m \<and> \<not> mTooManyImageCategories m)) \<and>
          ((if send then looseRestriction (mIsLargeRam (monitor r)) name c \<noteq> 0 else sm_find (flight r name) f \<noteq> None) \<and>
             \<not> mTooManyImageCategories m \<longrightarrow> Report (canMialgoHandleNextSnapshot m) \<in> set es)"
      by (intro change) (auto split: if_splits)
  qed (use D idle in auto)
qed

theorem load_is_in_flight_witness:
  "\<exists>r. monitor_step\<^sup>*\<^sup>* \<lparr>monitor = new_MialgoTaskMonitor 6 None, flight = (\<lambda>_. []), writtenOff = {}\<rparr> r \<and>
     loadOf (monitor r) ''a'' = 6 \<and> \<not> canMialgoHandleNextSnapshot (monitor r)"
proof -
  let ?new = "\<lparr>monitor = new_MialgoTaskMonitor 6 None, flight = (\<lambda>_. []), writtenOff = {}\<rparr>"
  let ?m = "(new_MialgoTaskMonitor 6 None)\<lparr>mMialgoTaskStatus := [(''a'', 6)], mMialgoTaskFrame := [(''a'', [(1, ())])]\<rparr>"
  let ?r = "?new\<lparr>monitor := ?m, flight := (\<lambda>_. [])(''a'' := [(1, 6)])\<rparr>"
  have "rfind ''output'' ''a'' = None" by (simp add: rfind_def)
  then have "onMialgoTaskNumChanged ''a'' 6 1 True (monitor ?new) = Inr (?m, [CancelTimer])"
    by (simp add: onMialgoTaskNumChanged_def looseRestriction_def meetSession_def checkImageCategoryCount_def noteFrame_def sm_index_def
        new_MialgoTaskMonitor_def Let_def)
  from monitor_step.send [OF _ _ _ this refl, of 6] have "monitor_step ?new ?r"
    by (simp add: looseRestriction_def new_MialgoTaskMonitor_def restored_def)
  then have run: "monitor_step\<^sup>*\<^sup>* ?new ?r" by blast
  have start: "monitor_start ?new" by (auto simp: monitor_start_def)
  have cap: "0 < mMialgoSessionCapacity (monitor ?r)" by (simp add: new_MialgoTaskMonitor_def)
  have load: "loadOf (monitor ?r) ''a'' = 6" by (simp add: sm_index_def)
  have "\<not> canMialgoHandleNextSnapshot (monitor ?r)"
    using conjunct1 [OF conjunct2 [OF load_is_in_flight [OF start run cap]]] load by (auto simp: new_MialgoTaskMonitor_def intro: exI [of _ "''a''"])
  then show ?thesis using run load by blast
qed

text \<open>
  The monitor starts as if there were too many sizes of images: until a size is met a second time,
  or a session is deleted, no load makes it report anything.
\<close>

lemma no_report_at_first:
  assumes "onMialgoTaskNumChanged name c f True (new_MialgoTaskMonitor capacity ram) = Inr (m, es)"
  shows "\<forall>b. Report b \<notin> set es"
  using assms
  by (auto simp: onMialgoTaskNumChanged_def meetSession_def checkImageCategoryCount_def new_MialgoTaskMonitor_def noteFrame_def Let_def
      sm_index_def split: if_splits option.splits)

end
