(* ===== verification/StreamBuffers.thy ===== *)
theory StreamBuffers
  imports StdMap
begin

text \<open>
  The buffers of the streams of a capture session (\<^verbatim>\<open>mivifwk/mizone/MiBufferManager.cpp\<close>): for
  every stream of the vendor the buffers in use and the idle ones, kept by an identity that is
  unique; the buffers of the framework are asked from it and given back to it.  Stream identities
  are 32-bit words, read as signed where the code does (the maps list the streams by the unsigned
  value, the same order for the identities of streams, none of which is negative).  What the image library creates and what
  the framework answers are parameters.  The thread of the manager is empty, and the total it
  compares with a threshold is only logged.
\<close>

record image_buffer =
  bufAddress :: nat
  getBufSize :: u64

record StreamBuffer =
  sbStream :: u32
  sbId :: u64
  sbBuffer :: "image_buffer option"

text \<open>The members of a stream that are read.\<close>

record Stream =
  stId :: u32
  stOutput :: bool
  stWidth :: u32
  stHeight :: u32
  stUsage :: u64
  stFormat :: nat
  stBufferSize :: u32

abbreviation NO_STREAM :: u32 where "NO_STREAM \<equiv> - 1"
abbreviation eImgFmt_NV21 :: nat where "eImgFmt_NV21 \<equiv> 17"
abbreviation eBUFFER_USAGE_SW_READ_OFTEN :: u64 where "eBUFFER_USAGE_SW_READ_OFTEN \<equiv> 0x3"
abbreviation eBUFFER_USAGE_SW_WRITE_OFTEN :: u64 where "eBUFFER_USAGE_SW_WRITE_OFTEN \<equiv> 0x30"
abbreviation eBUFFER_USAGE_HW_TEXTURE :: u64 where "eBUFFER_USAGE_HW_TEXTURE \<equiv> 0x100"
abbreviation eBUFFER_USAGE_HW_COMPOSER :: u64 where "eBUFFER_USAGE_HW_COMPOSER \<equiv> 0x800"
abbreviation eBUFFER_USAGE_HW_CAMERA_WRITE :: u64 where "eBUFFER_USAGE_HW_CAMERA_WRITE \<equiv> 0x20000"

abbreviation STREAM_USED_BY_CUSTOM :: u32 where "STREAM_USED_BY_CUSTOM \<equiv> 0x1"
abbreviation STREAM_USED_BY_HAL :: u32 where "STREAM_USED_BY_HAL \<equiv> 0x2"
abbreviation STREAM_OWNED_FRAMEWORK :: u32 where "STREAM_OWNED_FRAMEWORK \<equiv> 0x10000"
abbreviation STREAM_OWNED_VENDOR :: u32 where "STREAM_OWNED_VENDOR \<equiv> 0x20000"
abbreviation STREAM_ID_VENDOR_START :: int where "STREAM_ID_VENDOR_START \<equiv> 20011"

record StreamInfo =
  siStream :: Stream
  siProp :: u32
  siCapacity :: int

text \<open>What \<open>operator[]\<close> creates for a stream that is not there.\<close>

definition default_info :: StreamInfo where
  "default_info =
     \<lparr>siStream = \<lparr>stId = NO_STREAM, stOutput = True, stWidth = 0, stHeight = 0, stUsage = 0, stFormat = 0, stBufferSize = 0\<rparr>,
      siProp = 0, siCapacity = 0\<rparr>"

definition default_item :: StreamBuffer where
  "default_item = \<lparr>sbStream = NO_STREAM, sbId = 0, sbBuffer = None\<rparr>"

type_synonym buffer_pool = "(u32, (u64, StreamBuffer) std_map) std_map"

text \<open>\<open>reported\<close> are the maps given to the status callback, the newest last.\<close>

record MiBufferManager =
  mStreamInfoMap :: "(u32, StreamInfo) std_map"
  mBusyBufferMap :: buffer_pool
  mIdleBufferMap :: buffer_pool
  mSupportAndroidHBM :: bool
  mSupportCoreHBM :: bool
  mHasDeviceCallback :: bool
  mHasStatusCallback :: bool
  mPauseCallback :: bool
  mTotalUsed :: int
  mMemInfo :: "(u32, int) std_map"
  gStreamBufferId :: u64
  reported :: "(u32, int) std_map list"

subsection \<open>Streams\<close>

definition isPreviewStream :: "Stream \<Rightarrow> bool" where
  "isPreviewStream stream \<longleftrightarrow> stOutput stream \<and> stFormat stream = eImgFmt_NV21 \<and>
     (stUsage stream AND eBUFFER_USAGE_HW_TEXTURE \<noteq> 0 \<or> stUsage stream AND eBUFFER_USAGE_HW_COMPOSER \<noteq> 0)"

definition isQuickViewCacheStream :: "Stream \<Rightarrow> bool" where
  "isQuickViewCacheStream stream \<longleftrightarrow> stOutput stream \<and> stFormat stream = eImgFmt_NV21 \<and> stWidth stream = 1440 \<and> stHeight stream = 1080 \<and>
     stUsage stream AND eBUFFER_USAGE_HW_TEXTURE = 0 \<and> stUsage stream AND eBUFFER_USAGE_HW_COMPOSER = 0 \<and>
     stUsage stream XOR (eBUFFER_USAGE_SW_READ_OFTEN OR eBUFFER_USAGE_SW_WRITE_OFTEN OR eBUFFER_USAGE_HW_CAMERA_WRITE) = 0"

definition getStreamProp :: "Stream \<Rightarrow> u32" where
  "getStreamProp stream =
     (if sint (stId stream) \<ge> STREAM_ID_VENDOR_START then STREAM_OWNED_VENDOR OR STREAM_USED_BY_HAL
      else STREAM_OWNED_FRAMEWORK OR (if isPreviewStream stream then STREAM_USED_BY_HAL else STREAM_USED_BY_CUSTOM))"

text \<open>\<open>cap\<close> is the capacity the system property says.\<close>

definition buildStreamInfo :: "int \<Rightarrow> Stream \<Rightarrow> MiBufferManager \<Rightarrow> MiBufferManager" where
  "buildStreamInfo cap stream m =
     m\<lparr>mStreamInfoMap := sm_insert (stId stream)
         \<lparr>siStream = stream, siProp = getStreamProp stream, siCapacity = (if isQuickViewCacheStream stream then 30 else cap)\<rparr>
         (mStreamInfoMap m)\<rparr>"

record BufferMgrCreateInfo =
  fwkStreams :: "Stream list"
  vendorStreams :: "Stream list"
  infoAndroidHBM :: bool
  infoCoreHBM :: bool
  infoHasCallback :: bool
  infoHasDevice :: bool

definition new_MiBufferManager :: "int \<Rightarrow> u64 \<Rightarrow> BufferMgrCreateInfo \<Rightarrow> MiBufferManager" where
  "new_MiBufferManager cap nextId info =
     (let m0 = \<lparr>mStreamInfoMap = [], mBusyBufferMap = [], mIdleBufferMap = [],
                mSupportAndroidHBM = (infoAndroidHBM info \<and> infoHasDevice info), mSupportCoreHBM = (infoCoreHBM info \<and> infoHasDevice info),
                mHasDeviceCallback = infoHasDevice info, mHasStatusCallback = infoHasCallback info, mPauseCallback = False,
                mTotalUsed = 0, mMemInfo = [], gStreamBufferId = nextId, reported = []\<rparr>;
          m1 = fold (\<lambda>stream m. if stOutput stream then buildStreamInfo cap stream m else m) (fwkStreams info) m0;
          m2 = fold (\<lambda>stream m. if sm_find (mStreamInfoMap m) (stId stream) \<noteq> None then m
                                 else if stOutput stream then buildStreamInfo cap stream m else m) (vendorStreams info) m1
      in m2\<lparr>mMemInfo := fold (\<lambda>(k, _). sm_set k 0) (mStreamInfoMap m2) []\<rparr>)"

definition MiBufferManager_create :: "int \<Rightarrow> u64 \<Rightarrow> BufferMgrCreateInfo \<Rightarrow> MiBufferManager option" where
  "MiBufferManager_create cap nextId info =
     (if fwkStreams info = [] \<and> vendorStreams info = [] then None else Some (new_MiBufferManager cap nextId info))"

subsection \<open>Memory\<close>

fun sumSizes :: "(u64, StreamBuffer) std_map \<Rightarrow> u32 \<Rightarrow> u32 outcome" where
  "sumSizes [] n = Inr n"
| "sumSizes ((i, b) # rest) n =
     (case sbBuffer b of
        None \<Rightarrow> Inl NullDeref
      | Some im \<Rightarrow> sumSizes rest (n + ucast (getBufSize im)))"

text \<open>Of the maps of all streams the loop looks into the one of the stream.\<close>

definition getTotalMemoryUsedByStream :: "u32 \<Rightarrow> MiBufferManager \<Rightarrow> u32 outcome" where
  "getTotalMemoryUsedByStream streamId m =
     (case sm_find (mBusyBufferMap m) streamId of None \<Rightarrow> Inr 0 | Some items \<Rightarrow> sumSizes items 0)"

fun memoryLoop :: "u32 list \<Rightarrow> MiBufferManager \<Rightarrow> MiBufferManager outcome" where
  "memoryLoop [] m = Inr m"
| "memoryLoop (k # ks) m =
     (if sm_find (mMemInfo m) k \<noteq> None
      then bindE (getTotalMemoryUsedByStream k m) (\<lambda>used.
             memoryLoop ks (m\<lparr>mMemInfo := sm_set k (sint used) (mMemInfo m), mTotalUsed := mTotalUsed m + sint used\<rparr>))
      else memoryLoop ks m)"

definition onMemoryChanged :: "MiBufferManager \<Rightarrow> MiBufferManager outcome" where
  "onMemoryChanged m =
     bindE (memoryLoop (map fst (mStreamInfoMap m)) (m\<lparr>mTotalUsed := 0\<rparr>)) (\<lambda>m1.
       Inr (if mHasStatusCallback m1 then m1\<lparr>reported := reported m1 @ [mMemInfo m1]\<rparr> else m1))"

definition queryMemoryUsedByStream :: "u32 \<Rightarrow> MiBufferManager \<Rightarrow> u32 outcome" where
  "queryMemoryUsedByStream streamId m =
     bindE (sm_at (mStreamInfoMap m) streamId) (\<lambda>info.
       if siProp info AND STREAM_OWNED_FRAMEWORK \<noteq> 0 then Inr 0 else getTotalMemoryUsedByStream streamId m)"

subsection \<open>The pools\<close>

definition isCapcityExceed :: "u32 \<Rightarrow> MiBufferManager \<Rightarrow> bool outcome" where
  "isCapcityExceed streamId m =
     bindE (sm_at (mStreamInfoMap m) streamId) (\<lambda>info.
       Inr (int (length (sm_index [] (mBusyBufferMap m) streamId)) + int (length (sm_index [] (mIdleBufferMap m) streamId)) > siCapacity info))"

definition poolGet :: "buffer_pool \<Rightarrow> u32 \<Rightarrow> u64 \<Rightarrow> StreamBuffer" where
  "poolGet pool s b = sm_index default_item (sm_index [] pool s) b"

definition poolPut :: "u32 \<Rightarrow> u64 \<Rightarrow> StreamBuffer \<Rightarrow> buffer_pool \<Rightarrow> buffer_pool" where
  "poolPut s b item pool = sm_set s (sm_set b item (sm_index [] pool s)) pool"

definition poolDrop :: "u32 \<Rightarrow> u64 \<Rightarrow> buffer_pool \<Rightarrow> buffer_pool" where
  "poolDrop s b pool = sm_set s (sm_erase b (sm_index [] pool s)) pool"

definition moveToIdle :: "StreamBuffer \<Rightarrow> MiBufferManager \<Rightarrow> MiBufferManager" where
  "moveToIdle sb m =
     (let item = poolGet (mBusyBufferMap m) (sbStream sb) (sbId sb)
      in m\<lparr>mIdleBufferMap := poolPut (sbStream sb) (sbId sb) item (mIdleBufferMap m),
           mBusyBufferMap := poolDrop (sbStream sb) (sbId sb) (mBusyBufferMap m)\<rparr>)"

definition moveToBusy :: "StreamBuffer \<Rightarrow> MiBufferManager \<Rightarrow> MiBufferManager" where
  "moveToBusy sb m =
     (let item = poolGet (mIdleBufferMap m) (sbStream sb) (sbId sb)
      in m\<lparr>mBusyBufferMap := poolPut (sbStream sb) (sbId sb) item (mBusyBufferMap m),
           mIdleBufferMap := poolDrop (sbStream sb) (sbId sb) (mIdleBufferMap m)\<rparr>)"

definition getBufferFromIdle :: "u32 \<Rightarrow> MiBufferManager \<Rightarrow> StreamBuffer option" where
  "getBufferFromIdle streamId m =
     (case sm_find (mIdleBufferMap m) streamId of
        None \<Rightarrow> None
      | Some items \<Rightarrow> (case items of [] \<Rightarrow> None | (i, b) # rest \<Rightarrow> Some b))"

subsection \<open>Allocation\<close>

text \<open>\<open>create\<close> is the image library: what it gives for a stream in the call with this identity.\<close>

type_synonym image_creator = "Stream \<Rightarrow> u64 \<Rightarrow> image_buffer option"

text \<open>Up to the lock the new buffer is known to this call only; then it is entered.\<close>

definition newBuffer :: "image_creator \<Rightarrow> u32 \<Rightarrow> MiBufferManager \<Rightarrow> (StreamBuffer option \<times> MiBufferManager) outcome" where
  "newBuffer create streamId m =
     (case sm_find (mStreamInfoMap m) streamId of
        None \<Rightarrow> Inl BadIndex
      | Some info \<Rightarrow>
          let stream = siStream info; bufferId = gStreamBufferId m
          in Inr (map_option (\<lambda>im. \<lparr>sbStream = stId stream, sbId = bufferId, sbBuffer = Some im\<rparr>) (create stream bufferId),
                  m\<lparr>gStreamBufferId := bufferId + 1\<rparr>))"

definition enterBuffer :: "StreamBuffer \<Rightarrow> MiBufferManager \<Rightarrow> MiBufferManager outcome" where
  "enterBuffer sb m = onMemoryChanged (m\<lparr>mBusyBufferMap := poolPut (sbStream sb) (sbId sb) sb (mBusyBufferMap m)\<rparr>)"

definition allocateVndBuffer :: "image_creator \<Rightarrow> u32 \<Rightarrow> MiBufferManager \<Rightarrow> (StreamBuffer option \<times> MiBufferManager) outcome" where
  "allocateVndBuffer create streamId m =
     bindE (newBuffer create streamId m) (\<lambda>(found, m1).
       case found of
         None \<Rightarrow> Inr (None, m1)
       | Some sb \<Rightarrow> bindE (enterBuffer sb m1) (\<lambda>m2. Inr (Some sb, m2)))"

record MiBufferRequestParam =
  rpStream :: u32
  rpNum :: int

text \<open>One buffer, an idle one if there is any.  The lock is taken by \<open>getBufferFromIdle\<close> and again for \<open>moveToBusy\<close>; here nobody
  comes between (see the executions below for the other case).\<close>

definition takeBuffer :: "image_creator \<Rightarrow> u32 \<Rightarrow> MiBufferManager \<Rightarrow> (StreamBuffer option \<times> MiBufferManager) outcome" where
  "takeBuffer create streamId m =
     (case getBufferFromIdle streamId m of
        Some sb \<Rightarrow> Inr (Some sb, moveToBusy sb m)
      | None \<Rightarrow> allocateVndBuffer create streamId m)"

fun takeBuffers :: "image_creator \<Rightarrow> u32 \<Rightarrow> nat \<Rightarrow> MiBufferManager \<Rightarrow> (StreamBuffer list \<times> MiBufferManager) outcome" where
  "takeBuffers create streamId 0 m = Inr ([], m)"
| "takeBuffers create streamId (Suc n) m =
     bindE (takeBuffer create streamId m) (\<lambda>(found, m1).
     bindE (takeBuffers create streamId n m1) (\<lambda>(sbs, m2).
       Inr ((case found of None \<Rightarrow> sbs | Some sb \<Rightarrow> sb # sbs), m2)))"

type_synonym buffer_answer = "(u32, StreamBuffer list) std_map"

text \<open>What a second request for a stream gets is not put into the answer.\<close>

fun registerVndBuffers ::
  "image_creator \<Rightarrow> MiBufferRequestParam list \<Rightarrow> buffer_answer \<Rightarrow> MiBufferManager \<Rightarrow> (buffer_answer \<times> MiBufferManager) outcome" where
  "registerVndBuffers create [] answer m = Inr (answer, m)"
| "registerVndBuffers create (req # reqs) answer m =
     (if sm_find (mStreamInfoMap m) (rpStream req) = None then registerVndBuffers create reqs answer m
      else bindE (takeBuffers create (rpStream req) (nat (rpNum req)) m) (\<lambda>(sbs, m1).
             registerVndBuffers create reqs (sm_insert (rpStream req) sbs answer) m1))"

subsection \<open>The framework\<close>

datatype BufferRequestStatus = STATUS_OK | FAILED_PARTIAL | FAILED_CONFIGURING | FAILED_ILLEGAL_ARGUMENTS | FAILED_UNKNOWN

datatype StreamBufferRequestError = NO_ERROR | NO_BUFFER_AVAILABLE | MAX_BUFFER_EXCEEDED | STREAM_DISCONNECTED | UNKNOWN_ERROR

record StreamBufferRet =
  brStream :: u32
  brError :: StreamBufferRequestError
  brBuffers :: "StreamBuffer list"

record BufferRequest =
  bqStream :: u32
  bqNum :: u32

text \<open>\<open>resumed\<close>: a new callback is set within half a second.\<close>

definition waitForCallback :: "bool \<Rightarrow> MiBufferManager \<Rightarrow> bool \<times> MiBufferManager" where
  "waitForCallback resumed m =
     (if \<not> mPauseCallback m then (True, m) else if resumed then (True, m\<lparr>mPauseCallback := False\<rparr>) else (False, m))"

definition pauseCallback :: "MiBufferManager \<Rightarrow> MiBufferManager" where
  "pauseCallback m = m\<lparr>mPauseCallback := True\<rparr>"

definition setCallback :: "bool \<Rightarrow> MiBufferManager \<Rightarrow> MiBufferManager" where
  "setCallback hasDevice m = (if \<not> hasDevice then m else m\<lparr>mHasDeviceCallback := True, mPauseCallback := False\<rparr>)"

text \<open>The answers of the framework, in their order, until one is not that it is being configured.\<close>

fun askFramework :: "(BufferRequestStatus \<times> StreamBufferRet list) list \<Rightarrow> (BufferRequestStatus \<times> StreamBufferRet list) outcome" where
  "askFramework [] = Inl WouldBlock"
| "askFramework ((status, rets) # answers) =
     (if status \<noteq> STATUS_OK \<and> status \<noteq> FAILED_PARTIAL \<and> status \<noteq> FAILED_CONFIGURING then Inr (status, rets)
      else if status = FAILED_CONFIGURING then askFramework answers
      else Inr (status, rets))"

record framework =
  fwResumed :: bool
  fwAnswers :: "(BufferRequestStatus \<times> StreamBufferRet list) list"

definition requestFwkStreamBuffers ::
  "framework \<Rightarrow> StreamBufferRet list \<Rightarrow> MiBufferManager \<Rightarrow> ((BufferRequestStatus \<times> StreamBufferRet list) \<times> MiBufferManager) outcome" where
  "requestFwkStreamBuffers fw bufferRets m =
     (case waitForCallback (fwResumed fw) m of
        (False, m1) \<Rightarrow> Inr ((FAILED_CONFIGURING, bufferRets), m1)
      | (True, m1) \<Rightarrow>
          if \<not> mHasDeviceCallback m1 then Inl NullDeref
          else bindE (askFramework (fwAnswers fw)) (\<lambda>(status, rets). Inr ((status, rets), m1)))"

definition appendBuffers :: "StreamBufferRet \<Rightarrow> buffer_answer \<Rightarrow> buffer_answer" where
  "appendBuffers ret answer =
     (if brError ret = NO_ERROR \<and> brBuffers ret \<noteq> [] then sm_set (brStream ret) (sm_index [] answer (brStream ret) @ brBuffers ret) answer
      else answer)"

definition registerFwkBuffers :: "framework \<Rightarrow> MiBufferManager \<Rightarrow> (buffer_answer \<times> MiBufferManager) outcome" where
  "registerFwkBuffers fw m =
     bindE (requestFwkStreamBuffers fw [] m) (\<lambda>((status, rets), m1). Inr (fold appendBuffers rets [], m1))"

subsection \<open>The interface\<close>

text \<open>Which of the requests go to the framework and which to the vendor's pools.\<close>

definition toFramework :: "MiBufferManager \<Rightarrow> MiBufferRequestParam \<Rightarrow> bool" where
  "toFramework m req = (case sm_find (mStreamInfoMap m) (rpStream req) of
     None \<Rightarrow> False | Some info \<Rightarrow> siProp info AND STREAM_OWNED_FRAMEWORK \<noteq> 0 \<and> siProp info AND STREAM_USED_BY_HAL = 0)"

definition toVendor :: "MiBufferManager \<Rightarrow> MiBufferRequestParam \<Rightarrow> bool" where
  "toVendor m req = (case sm_find (mStreamInfoMap m) (rpStream req) of
     None \<Rightarrow> False | Some info \<Rightarrow> siProp info AND STREAM_OWNED_FRAMEWORK = 0)"

definition requestBuffers ::
  "image_creator \<Rightarrow> framework \<Rightarrow> MiBufferRequestParam list \<Rightarrow> MiBufferManager \<Rightarrow> ((bool \<times> buffer_answer) \<times> MiBufferManager) outcome" where
  "requestBuffers create fw params m =
     (let fwkReqs = (if mSupportAndroidHBM m then filter (toFramework m) params else []);
          vndReqs = (if mSupportAndroidHBM m then filter (toVendor m) params else params)
      in bindE (if fwkReqs \<noteq> [] then registerFwkBuffers fw m else Inr ([], m)) (\<lambda>(fwkBufMap, m1).
         bindE (registerVndBuffers create vndReqs [] m1) (\<lambda>(vndBufMap, m2).
           let answer = fold (\<lambda>(k, v). sm_insert k v) vndBufMap fwkBufMap
           in Inr ((answer \<noteq> [], answer), m2))))"

text \<open>\<open>m[k]\<close> for a stream that is not known makes an entry for it.\<close>

definition meetStream :: "u32 \<Rightarrow> MiBufferManager \<Rightarrow> MiBufferManager" where
  "meetStream streamId m = m\<lparr>mStreamInfoMap := sm_insert streamId default_info (mStreamInfoMap m)\<rparr>"

definition ownedByFramework :: "MiBufferManager \<Rightarrow> u32 \<Rightarrow> bool" where
  "ownedByFramework m streamId \<longleftrightarrow> siProp (sm_index default_info (mStreamInfoMap m) streamId) AND STREAM_OWNED_FRAMEWORK \<noteq> 0"

definition releaseOne :: "StreamBuffer \<Rightarrow> MiBufferManager \<Rightarrow> MiBufferManager outcome" where
  "releaseOne sb m =
     (case sm_find (mBusyBufferMap m) (sbStream sb) of
        None \<Rightarrow> Inr m
      | Some items \<Rightarrow>
          if sm_find items (sbId sb) = None then Inr m
          else bindE (isCapcityExceed (sbStream sb) m) (\<lambda>exceeded.
                 onMemoryChanged (if exceeded then m\<lparr>mBusyBufferMap := poolDrop (sbStream sb) (sbId sb) (mBusyBufferMap m)\<rparr>
                                  else moveToIdle sb m)))"

fun releaseEach :: "StreamBuffer list \<Rightarrow> MiBufferManager \<Rightarrow> MiBufferManager outcome" where
  "releaseEach [] m = Inr m"
| "releaseEach (sb # sbs) m = bindE (releaseOne sb m) (releaseEach sbs)"

text \<open>The result are the buffers given back to the framework, \<open>None\<close> when it is not called.\<close>

definition releaseBuffers :: "StreamBuffer list \<Rightarrow> MiBufferManager \<Rightarrow> (StreamBuffer list option \<times> MiBufferManager) outcome" where
  "releaseBuffers streamBuffers m =
     (if mSupportAndroidHBM m
      then let m1 = fold (\<lambda>sb. meetStream (sbStream sb)) streamBuffers m;
               fwkBufs = filter (\<lambda>sb. ownedByFramework m1 (sbStream sb)) streamBuffers;
               vndBufs = filter (\<lambda>sb. \<not> ownedByFramework m1 (sbStream sb)) streamBuffers
           in if fwkBufs \<noteq> [] \<and> \<not> mHasDeviceCallback m1 then Inl NullDeref
              else bindE (releaseEach vndBufs m1) (\<lambda>m2. Inr (if fwkBufs \<noteq> [] then Some fwkBufs else None, m2))
      else bindE (releaseEach streamBuffers m) (\<lambda>m1. Inr (None, m1)))"

definition returnStreamBuffers :: "bool \<Rightarrow> StreamBuffer list \<Rightarrow> MiBufferManager \<Rightarrow> (StreamBuffer list list \<times> MiBufferManager) outcome" where
  "returnStreamBuffers resumed buffers m =
     (if \<not> mHasDeviceCallback m then Inr ([], m)
      else case waitForCallback resumed m of
             (False, m1) \<Rightarrow> Inr ([], m1)
           | (True, m1) \<Rightarrow>
               let m2 = fold (\<lambda>sb. meetStream (sbStream sb)) buffers m1;
                   fwkBuffers = filter (\<lambda>sb. ownedByFramework m2 (sbStream sb)) buffers;
                   vendorBuffers = filter (\<lambda>sb. \<not> ownedByFramework m2 (sbStream sb)) buffers
               in bindE (releaseBuffers vendorBuffers m2) (\<lambda>(called, m3).
                    Inr ((case called of None \<Rightarrow> [] | Some bs \<Rightarrow> [bs]) @ [fwkBuffers], m3)))"

text \<open>
  The result are the calls of the caller's \<open>cb\<close>.  Without support for the framework's buffers the
  function goes on after its first call.
\<close>

definition requestStreamBuffers ::
  "image_creator \<Rightarrow> framework \<Rightarrow> BufferRequest list \<Rightarrow> MiBufferManager \<Rightarrow>
     ((BufferRequestStatus \<times> StreamBufferRet list) list \<times> MiBufferManager) outcome" where
  "requestStreamBuffers create fw bufReqs m =
     (if \<not> mHasDeviceCallback m then Inr ([(STATUS_OK, [])], m)
      else let m1 = fold (\<lambda>req. meetStream (bqStream req)) bufReqs m;
               fwkReqs = filter (\<lambda>req. ownedByFramework m1 (bqStream req)) bufReqs;
               vendorReqs = filter (\<lambda>req. \<not> ownedByFramework m1 (bqStream req)) bufReqs;
               calls = (if \<not> mSupportAndroidHBM m1 \<and> fwkReqs \<noteq> [] then [(FAILED_ILLEGAL_ARGUMENTS, [])] else [])
           in if \<not> mSupportCoreHBM m1 \<and> vendorReqs \<noteq> [] then Inr (calls @ [(FAILED_ILLEGAL_ARGUMENTS, [])], m1)
              else bindE (if vendorReqs \<noteq> []
                          then registerVndBuffers create (map (\<lambda>req. \<lparr>rpStream = bqStream req, rpNum = sint (bqNum req)\<rparr>) vendorReqs) [] m1
                          else Inr ([], m1)) (\<lambda>(streamBufferMap, m2).
                   if vendorReqs \<noteq> [] \<and> streamBufferMap = [] then Inr (calls @ [(FAILED_PARTIAL, [])], m2)
                   else bindE (if fwkReqs \<noteq> [] then requestFwkStreamBuffers fw [] m2
                               else Inr ((STATUS_OK, []), m2)) (\<lambda>((status, rets), m3).
                          Inr (calls @ [(status, rets @ map (\<lambda>(k, v). \<lparr>brStream = k, brError = NO_ERROR, brBuffers = v\<rparr>) streamBufferMap)], m3))))"

definition findOutputBufferByStreamId :: "StreamBuffer list \<Rightarrow> u32 \<Rightarrow> bool \<times> StreamBuffer" where
  "findOutputBufferByStreamId outputBuffers streamId =
     (case List.find (\<lambda>b. sbStream b = streamId) outputBuffers of Some b \<Rightarrow> (True, b) | None \<Rightarrow> (False, default_item))"

subsection \<open>Where a buffer is\<close>

definition poolAt :: "buffer_pool \<Rightarrow> u32 \<Rightarrow> u64 \<Rightarrow> StreamBuffer option" where
  "poolAt pool s b = (case sm_find pool s of None \<Rightarrow> None | Some items \<Rightarrow> sm_find items b)"

definition pool_wf :: "buffer_pool \<Rightarrow> bool" where
  "pool_wf pool \<longleftrightarrow> sm_wf pool \<and> (\<forall>s. sm_wf (sm_index [] pool s))"

lemma poolAt_index: "poolAt pool s b = sm_find (sm_index [] pool s) b"
  by (simp add: poolAt_def sm_index_def split: option.splits)

lemma poolAt_put: "poolAt (poolPut s b item pool) s' b' = (if s' = s \<and> b' = b then Some item else poolAt pool s' b')"
  by (simp add: poolAt_index poolPut_def)

lemma poolAt_drop: "pool_wf pool \<Longrightarrow> poolAt (poolDrop s b pool) s' b' = (if s' = s \<and> b' = b then None else poolAt pool s' b')"
  by (simp add: poolAt_index poolDrop_def pool_wf_def sm_find_erase)

lemma pool_wf_put: "pool_wf pool \<Longrightarrow> pool_wf (poolPut s b item pool)"
  by (simp add: pool_wf_def poolPut_def sm_wf_set)

lemma pool_wf_drop: "pool_wf pool \<Longrightarrow> pool_wf (poolDrop s b pool)"
  by (simp add: pool_wf_def poolDrop_def sm_wf_set sm_wf_erase)

lemma poolGet_at: "poolAt pool s b = Some x \<Longrightarrow> poolGet pool s b = x"
  by (simp add: poolGet_def poolAt_index sm_index_def)

lemma length_sm_set: "length (sm_set k v m) = (if sm_find m k = None then Suc (length m) else length m)" if "sm_wf m"
  using sum_sm_new [of m k "\<lambda>_. 1 :: nat" v] sum_sm_set [OF that, of k _ "\<lambda>_. 1 :: nat" v]
  by (cases "sm_find m k") (simp_all add: sum_list_triv)

lemma length_sm_erase: "sm_find m k = Some v \<Longrightarrow> Suc (length (sm_erase k m)) = length m"
  using sum_sm_erase [of m k v "\<lambda>_. 1 :: nat"] by (simp add: sum_list_triv)

definition poolOf :: "bool \<Rightarrow> MiBufferManager \<Rightarrow> buffer_pool" where
  "poolOf busy m = (if busy then mBusyBufferMap m else mIdleBufferMap m)"

text \<open>
  Every buffer is in one place, under its own stream and identity; identities in use are older than
  the next one; a stream has no more idle buffers than its capacity.
\<close>

definition pools_ok :: "MiBufferManager \<Rightarrow> bool" where
  "pools_ok m \<longleftrightarrow>
     pool_wf (mBusyBufferMap m) \<and> pool_wf (mIdleBufferMap m) \<and> sm_wf (mStreamInfoMap m) \<and>
     (\<forall>p s b x. poolAt (poolOf p m) s b = Some x \<longrightarrow>
        sbStream x = s \<and> sbId x = b \<and> sbBuffer x \<noteq> None \<and> b < gStreamBufferId m \<and> sm_find (mStreamInfoMap m) s \<noteq> None) \<and>
     (\<forall>p q s t b. poolAt (poolOf p m) s b \<noteq> None \<and> poolAt (poolOf q m) t b \<noteq> None \<longrightarrow> p = q \<and> s = t) \<and>
     (\<forall>s i. sm_find (mStreamInfoMap m) s = Some i \<longrightarrow> stId (siStream i) = s \<and>
        int (length (sm_index [] (mIdleBufferMap m) s)) \<le> max 0 (siCapacity i)) \<and>
     (mSupportAndroidHBM m \<longrightarrow> mHasDeviceCallback m)"

lemma pools_okD:
  assumes "pools_ok m"
  shows "pool_wf (mBusyBufferMap m)" "pool_wf (mIdleBufferMap m)" "sm_wf (mStreamInfoMap m)"
    "poolAt (poolOf p m) s b = Some x \<Longrightarrow>
       sbStream x = s \<and> sbId x = b \<and> sbBuffer x \<noteq> None \<and> b < gStreamBufferId m \<and> sm_find (mStreamInfoMap m) s \<noteq> None"
    "poolAt (poolOf p m) s b = Some x \<Longrightarrow> poolAt (poolOf q m) t b = Some y \<Longrightarrow> p = q \<and> s = t"
    "sm_find (mStreamInfoMap m) s = Some i \<Longrightarrow> stId (siStream i) = s"
    "sm_find (mStreamInfoMap m) s = Some i \<Longrightarrow> int (length (sm_index [] (mIdleBufferMap m) s)) \<le> max 0 (siCapacity i)"
    "mSupportAndroidHBM m \<Longrightarrow> mHasDeviceCallback m"
  using assms unfolding pools_ok_def by (simp, simp, simp, blast, fastforce, blast, blast, blast)

lemma pools_okI:
  assumes "pool_wf (mBusyBufferMap m)" and "pool_wf (mIdleBufferMap m)" and "sm_wf (mStreamInfoMap m)"
    and "\<And>p s b x. poolAt (poolOf p m) s b = Some x \<Longrightarrow>
       sbStream x = s \<and> sbId x = b \<and> sbBuffer x \<noteq> None \<and> b < gStreamBufferId m \<and> sm_find (mStreamInfoMap m) s \<noteq> None"
    and "\<And>p q s t b x y. poolAt (poolOf p m) s b = Some x \<Longrightarrow> poolAt (poolOf q m) t b = Some y \<Longrightarrow> p = q \<and> s = t"
    and "\<And>s i. sm_find (mStreamInfoMap m) s = Some i \<Longrightarrow> stId (siStream i) = s"
    and "\<And>s i. sm_find (mStreamInfoMap m) s = Some i \<Longrightarrow> int (length (sm_index [] (mIdleBufferMap m) s)) \<le> max 0 (siCapacity i)"
    and "mSupportAndroidHBM m \<Longrightarrow> mHasDeviceCallback m"
  shows "pools_ok m"
  unfolding pools_ok_def
proof (intro conjI allI impI)
  show "p = q" "s = t" if "poolAt (poolOf p m) s b \<noteq> None \<and> poolAt (poolOf q m) t b \<noteq> None" for p q s t b
    using assms(5) that by blast+
qed (use assms in blast)+

subsection \<open>Memory\<close>

definition usedBytes :: "(u64, StreamBuffer) std_map \<Rightarrow> u32" where
  "usedBytes items = (\<Sum>e\<leftarrow>items. ucast (getBufSize (the (sbBuffer (snd e)))))"

lemma sumSizes_ok: "\<forall>e \<in> set items. sbBuffer (snd e) \<noteq> None \<Longrightarrow> sumSizes items n = Inr (n + usedBytes items)"
  by (induction items n rule: sumSizes.induct) (auto simp: usedBytes_def split: option.splits)

lemma total_ok:
  assumes "pools_ok m"
  shows "getTotalMemoryUsedByStream s m = Inr (usedBytes (sm_index [] (mBusyBufferMap m) s))"
proof (cases "sm_find (mBusyBufferMap m) s")
  case None
  then show ?thesis by (simp add: getTotalMemoryUsedByStream_def sm_index_def usedBytes_def)
next
  case (Some items)
  have wf: "sm_wf items" using pools_okD(1) [OF assms] Some unfolding pool_wf_def by (auto simp: sm_index_def dest: spec [of _ s])
  have "sbBuffer x \<noteq> None" if "(b, x) \<in> set items" for b x
  proof -
    have "sm_find items b = Some x" using that by (simp only: sm_entries_find [OF wf])
    then have "poolAt (poolOf True m) s b = Some x" using Some by (simp add: poolAt_def poolOf_def)
    then show ?thesis using pools_okD(4) [OF assms] by blast
  qed
  then show ?thesis using sumSizes_ok [of items 0] Some by (force simp: getTotalMemoryUsedByStream_def sm_index_def)
qed

text \<open>What bookkeeping of memory leaves alone.\<close>

definition same_pools :: "MiBufferManager \<Rightarrow> MiBufferManager \<Rightarrow> bool" where
  "same_pools m m' \<longleftrightarrow> mStreamInfoMap m' = mStreamInfoMap m \<and> mBusyBufferMap m' = mBusyBufferMap m \<and> mIdleBufferMap m' = mIdleBufferMap m \<and>
     gStreamBufferId m' = gStreamBufferId m \<and> mSupportAndroidHBM m' = mSupportAndroidHBM m \<and> mSupportCoreHBM m' = mSupportCoreHBM m \<and>
     mHasDeviceCallback m' = mHasDeviceCallback m \<and> mHasStatusCallback m' = mHasStatusCallback m"

lemma same_pools_refl [simp]: "same_pools m m"
  by (simp add: same_pools_def)

lemma same_pools_ok:
  assumes s: "same_pools m m'" and ok: "pools_ok m"
  shows "pools_ok m'"
proof -
  have "poolOf p m' = poolOf p m" for p using s by (simp add: same_pools_def poolOf_def)
  then show ?thesis using ok s unfolding pools_ok_def same_pools_def by simp
qed

lemma memoryLoop_ok:
  assumes "pools_ok m" and "distinct ks"
  shows "\<exists>m'. memoryLoop ks m = Inr m' \<and> same_pools m m' \<and>
    (\<forall>k. sm_find (mMemInfo m') k =
       (if k \<in> set ks \<and> sm_find (mMemInfo m) k \<noteq> None then Some (sint (usedBytes (sm_index [] (mBusyBufferMap m) k))) else sm_find (mMemInfo m) k))"
  using assms
proof (induction ks arbitrary: m)
  case (Cons k ks)
  show ?case
  proof (cases "sm_find (mMemInfo m) k")
    case None
    then show ?thesis using Cons.IH [OF Cons.prems(1)] Cons.prems(2) by auto
  next
    case (Some old)
    let ?u = "usedBytes (sm_index [] (mBusyBufferMap m) k)"
    let ?m = "m\<lparr>mMemInfo := sm_set k (sint ?u) (mMemInfo m), mTotalUsed := mTotalUsed m + sint ?u\<rparr>"
    have s: "same_pools m ?m" by (simp add: same_pools_def)
    have "distinct ks" using Cons.prems(2) by simp
    from Cons.IH [OF same_pools_ok [OF s Cons.prems(1)] this] obtain m' where m': "memoryLoop ks ?m = Inr m'" "same_pools ?m m'"
      "\<forall>j. sm_find (mMemInfo m') j = (if j \<in> set ks \<and> sm_find (mMemInfo ?m) j \<noteq> None
         then Some (sint (usedBytes (sm_index [] (mBusyBufferMap ?m) j))) else sm_find (mMemInfo ?m) j)" by blast
    have "memoryLoop (k # ks) m = Inr m'" using Some m'(1) total_ok [OF Cons.prems(1)] by simp
    moreover have "same_pools m m'" using s m'(2) by (simp add: same_pools_def)
    ultimately show ?thesis using m'(3) Some Cons.prems(2) by (intro exI [of _ m']) auto
  qed
qed simp

definition memory_told :: "MiBufferManager \<Rightarrow> bool" where
  "memory_told m \<longleftrightarrow> (\<forall>k n. sm_find (mMemInfo m) k = Some n \<and> sm_find (mStreamInfoMap m) k \<noteq> None \<longrightarrow>
     n = sint (usedBytes (sm_index [] (mBusyBufferMap m) k))) \<and> (mHasStatusCallback m \<longrightarrow> reported m \<noteq> [] \<and> last (reported m) = mMemInfo m)"

lemma memory_ok:
  assumes "pools_ok m"
  shows "\<exists>m'. onMemoryChanged m = Inr m' \<and> same_pools m m' \<and> pools_ok m' \<and> memory_told m'"
proof -
  let ?m = "m\<lparr>mTotalUsed := 0\<rparr>"
  have s: "same_pools m ?m" by (simp add: same_pools_def)
  have d: "distinct (map fst (mStreamInfoMap m))" using sm.distinct_keys [OF pools_okD(3) [OF assms]] .
  obtain m1 where m1: "memoryLoop (map fst (mStreamInfoMap m)) ?m = Inr m1" "same_pools ?m m1"
    "\<forall>k. sm_find (mMemInfo m1) k = (if k \<in> set (map fst (mStreamInfoMap m)) \<and> sm_find (mMemInfo ?m) k \<noteq> None
       then Some (sint (usedBytes (sm_index [] (mBusyBufferMap ?m) k))) else sm_find (mMemInfo ?m) k)"
    using memoryLoop_ok [OF same_pools_ok [OF s assms] d] by blast
  let ?r = "if mHasStatusCallback m1 then m1\<lparr>reported := reported m1 @ [mMemInfo m1]\<rparr> else m1"
  have "onMemoryChanged m = Inr ?r" using m1(1) by (simp add: onMemoryChanged_def)
  moreover have "same_pools m ?r" using m1(2) by (simp add: same_pools_def)
  moreover from this have "pools_ok ?r" using same_pools_ok assms by blast
  moreover have "memory_told ?r"
    unfolding memory_told_def
  proof (intro conjI allI impI)
    fix k n
    assume k: "sm_find (mMemInfo ?r) k = Some n \<and> sm_find (mStreamInfoMap ?r) k \<noteq> None"
    then have "k \<in> set (map fst (mStreamInfoMap m))" using m1(2) by (auto simp: same_pools_def sm_find_None_iff split: if_splits)
    moreover have "sm_find (mMemInfo m1) k = Some n" "mBusyBufferMap ?r = mBusyBufferMap m" using k m1(2) by (auto simp: same_pools_def split: if_splits)
    ultimately show "n = sint (usedBytes (sm_index [] (mBusyBufferMap ?r) k))" using m1(3) by (auto split: if_splits)
  qed (auto split: if_splits)
  ultimately show ?thesis by blast
qed

subsection \<open>Operations on one buffer\<close>

lemma pools_ok_change:
  assumes ok: "pools_ok m"
    and same: "mStreamInfoMap m' = mStreamInfoMap m" "mSupportAndroidHBM m' = mSupportAndroidHBM m" "mHasDeviceCallback m' = mHasDeviceCallback m"
    and older: "gStreamBufferId m \<le> gStreamBufferId m'"
    and wf: "pool_wf (mBusyBufferMap m')" "pool_wf (mIdleBufferMap m')"
    and other: "\<And>p s' b'. b' \<noteq> b \<Longrightarrow> poolAt (poolOf p m') s' b' = poolAt (poolOf p m) s' b'"
    and moved: "\<And>p s' x. poolAt (poolOf p m') s' b = Some x \<Longrightarrow>
      p = dest \<and> s' = s \<and> sbStream x = s \<and> sbId x = b \<and> sbBuffer x \<noteq> None \<and> b < gStreamBufferId m' \<and> sm_find (mStreamInfoMap m) s \<noteq> None"
    and idle: "\<And>s' i. sm_find (mStreamInfoMap m) s' = Some i \<Longrightarrow>
      int (length (sm_index [] (mIdleBufferMap m') s')) \<le> max 0 (siCapacity i)"
  shows "pools_ok m'"
proof -
  note D = pools_okD [OF ok]
  have item: "sbStream x = s' \<and> sbId x = b' \<and> sbBuffer x \<noteq> None \<and> b' < gStreamBufferId m' \<and> sm_find (mStreamInfoMap m) s' \<noteq> None"
    if "poolAt (poolOf p m') s' b' = Some x" for p s' b' x
  proof (cases "b' = b")
    case True
    then show ?thesis using moved [of p s' x] that by blast
  next
    case False
    then have "poolAt (poolOf p m) s' b' = Some x" using other that by simp
    from D(4) [OF this] show ?thesis using older by (blast intro: order.strict_trans2)
  qed
  have unique: "p = q \<and> s' = t" if "poolAt (poolOf p m') s' b' = Some x" "poolAt (poolOf q m') t b' = Some y" for p q s' t b' x y
  proof (cases "b' = b")
    case True
    then have "p = dest \<and> s' = s" "q = dest \<and> t = s" using moved [of p s' x] moved [of q t y] that by simp_all
    then show ?thesis by simp
  next
    case False
    then have "poolAt (poolOf p m) s' b' = Some x" "poolAt (poolOf q m) t b' = Some y" using other that by simp_all
    then show ?thesis by (rule D(5))
  qed
  show ?thesis
    by (rule pools_okI) (use D(3,6,8) wf item unique idle same in simp_all)
qed

lemma poolOf_simps [simp]: "poolOf True m = mBusyBufferMap m" "poolOf False m = mIdleBufferMap m"
  by (simp_all add: poolOf_def)

text \<open>Where every buffer is, as one function.\<close>

definition busyAt :: "MiBufferManager \<Rightarrow> u32 \<Rightarrow> u64 \<Rightarrow> StreamBuffer option" where
  "busyAt m = poolAt (mBusyBufferMap m)"

definition idleAt :: "MiBufferManager \<Rightarrow> u32 \<Rightarrow> u64 \<Rightarrow> StreamBuffer option" where
  "idleAt m = poolAt (mIdleBufferMap m)"

lemma pools_ok_next: "pools_ok m \<Longrightarrow> gStreamBufferId m \<le> n \<Longrightarrow> pools_ok (m\<lparr>gStreamBufferId := n\<rparr>)"
proof -
  assume ok: "pools_ok m" and n: "gStreamBufferId m \<le> n"
  have p: "poolOf p (m\<lparr>gStreamBufferId := n\<rparr>) = poolOf p m" for p by (simp add: poolOf_def)
  note D = pools_okD [OF ok]
  have "sbStream x = s \<and> sbId x = b \<and> sbBuffer x \<noteq> None \<and> b < n \<and> sm_find (mStreamInfoMap m) s \<noteq> None"
    if "poolAt (poolOf p m) s b = Some x" for p s b x
    using D(4) [OF that] n by (blast intro: order.strict_trans2)
  then show ?thesis by (intro pools_okI) (use D p in simp_all)
qed

lemma busy_enter:
  assumes ok: "pools_ok m" and sb: "sbBuffer sb \<noteq> None" "sbId sb < gStreamBufferId m" "sm_find (mStreamInfoMap m) (sbStream sb) \<noteq> None"
    and fresh: "\<And>s. busyAt m s (sbId sb) = None" "\<And>s. idleAt m s (sbId sb) = None"
  shows "pools_ok (m\<lparr>mBusyBufferMap := poolPut (sbStream sb) (sbId sb) sb (mBusyBufferMap m)\<rparr>)"
proof -
  note D = pools_okD [OF ok]
  have none: "poolAt (poolOf p m) s (sbId sb) = None" for p s using fresh by (cases p) (simp_all add: busyAt_def idleAt_def)
  let ?m = "m\<lparr>mBusyBufferMap := poolPut (sbStream sb) (sbId sb) sb (mBusyBufferMap m)\<rparr>"
  have at: "poolAt (poolOf p ?m) s' b' = (if p \<and> s' = sbStream sb \<and> b' = sbId sb then Some sb else poolAt (poolOf p m) s' b')" for p s' b'
    by (cases p) (simp_all add: poolAt_put)
  show ?thesis
    by (rule pools_ok_change [OF ok, where b = "sbId sb" and dest = True and s = "sbStream sb"])
      (use D(1,2,7) sb none in \<open>auto simp: at pool_wf_put split: if_splits\<close>)
qed

lemma enter_ok:
  assumes "pools_ok m" and "sbBuffer sb \<noteq> None" and "sbId sb < gStreamBufferId m" and "sm_find (mStreamInfoMap m) (sbStream sb) \<noteq> None"
    and "\<And>s. busyAt m s (sbId sb) = None" and "\<And>s. idleAt m s (sbId sb) = None"
  shows "\<exists>m'. enterBuffer sb m = Inr m' \<and> pools_ok m' \<and> memory_told m' \<and> mStreamInfoMap m' = mStreamInfoMap m \<and>
    gStreamBufferId m' = gStreamBufferId m \<and> idleAt m' = idleAt m \<and>
    busyAt m' = (\<lambda>s b. if s = sbStream sb \<and> b = sbId sb then Some sb else busyAt m s b)"
proof -
  obtain m' where m': "enterBuffer sb m = Inr m'" "same_pools (m\<lparr>mBusyBufferMap := poolPut (sbStream sb) (sbId sb) sb (mBusyBufferMap m)\<rparr>) m'"
    "pools_ok m'" "memory_told m'"
    using memory_ok [OF busy_enter [OF assms]] unfolding enterBuffer_def by blast
  then show ?thesis by (auto simp: same_pools_def idleAt_def busyAt_def fun_eq_iff poolAt_put)
qed

text \<open>A number that is drawn is in no pool.\<close>

lemma fresh_number:
  assumes "pools_ok m" and "gStreamBufferId m \<le> b"
  shows "busyAt m s b = None" "idleAt m s b = None"
proof -
  have "poolAt (poolOf p m) s b = None" for p
  proof (cases "poolAt (poolOf p m) s b")
    case (Some x)
    then have "b < gStreamBufferId m" using pools_okD(4) [OF assms(1)] by blast
    then show ?thesis using assms(2) by simp
  qed
  from this [of True] this [of False] show "busyAt m s b = None" "idleAt m s b = None" by (simp_all add: busyAt_def idleAt_def)
qed

lemma newBuffer_ok:
  assumes ok: "pools_ok m" and i: "sm_find (mStreamInfoMap m) s = Some i" and room: "unat (gStreamBufferId m) + 1 < 2 ^ 64"
  shows "\<exists>found m'. newBuffer create s m = Inr (found, m') \<and> pools_ok m' \<and> busyAt m' = busyAt m \<and> idleAt m' = idleAt m \<and>
    mStreamInfoMap m' = mStreamInfoMap m \<and> unat (gStreamBufferId m') = unat (gStreamBufferId m) + 1 \<and>
    (\<forall>sb. found = Some sb \<longrightarrow> sbStream sb = s \<and> sbId sb = gStreamBufferId m \<and> sbBuffer sb \<noteq> None)"
proof -
  let ?m = "m\<lparr>gStreamBufferId := gStreamBufferId m + 1\<rparr>"
  have u: "unat (gStreamBufferId m + 1) = unat (gStreamBufferId m) + 1" using room by (simp add: unat_word_ariths)
  then have "gStreamBufferId m \<le> gStreamBufferId m + 1" by (simp add: word_le_nat_alt)
  from pools_ok_next [OF ok this] show ?thesis
    using i u pools_okD(6) [OF ok i] by (auto simp: newBuffer_def Let_def busyAt_def idleAt_def)
qed

lemma moveToBusy_ok:
  assumes ok: "pools_ok m" and x: "idleAt m s b = Some x"
  defines "m' \<equiv> moveToBusy x m"
  shows "pools_ok m' \<and> busyAt m' = (\<lambda>s' b'. if s' = s \<and> b' = b then Some x else busyAt m s' b') \<and>
    idleAt m' = (\<lambda>s' b'. if s' = s \<and> b' = b then None else idleAt m s' b') \<and>
    mStreamInfoMap m' = mStreamInfoMap m \<and> gStreamBufferId m' = gStreamBufferId m \<and> (\<forall>t. busyAt m t b = None) \<and> sbStream x = s \<and> sbId x = b"
proof -
  note D = pools_okD [OF ok]
  have x': "poolAt (poolOf False m) s b = Some x" using x by (simp add: idleAt_def)
  have sb: "sbStream x = s" "sbId x = b" "sbBuffer x \<noteq> None" "b < gStreamBufferId m" "sm_find (mStreamInfoMap m) s \<noteq> None"
    using D(4) [OF x'] by blast+
  have free: "poolAt (mBusyBufferMap m) t b = None" for t
  proof (rule ccontr)
    assume "poolAt (mBusyBufferMap m) t b \<noteq> None"
    then obtain y where "poolAt (poolOf True m) t b = Some y" by auto
    from D(5) [OF x' this] show False by simp
  qed
  have only: "poolAt (mIdleBufferMap m) t b = None" if "t \<noteq> s" for t
  proof (rule ccontr)
    assume "poolAt (mIdleBufferMap m) t b \<noteq> None"
    then obtain y where "poolAt (poolOf False m) t b = Some y" by auto
    from D(5) [OF x' this] show False using that by simp
  qed
  have m': "mBusyBufferMap m' = poolPut s b x (mBusyBufferMap m)" "mIdleBufferMap m' = poolDrop s b (mIdleBufferMap m)"
    "mStreamInfoMap m' = mStreamInfoMap m" "gStreamBufferId m' = gStreamBufferId m"
    "mSupportAndroidHBM m' = mSupportAndroidHBM m" "mHasDeviceCallback m' = mHasDeviceCallback m"
    using sb poolGet_at [of "mIdleBufferMap m" s b x] x' by (simp_all add: m'_def moveToBusy_def Let_def)
  have at: "poolAt (poolOf p m') s' b' = (if s' = s \<and> b' = b then (if p then Some x else None) else poolAt (poolOf p m) s' b')" for p s' b'
    using D(2) by (cases p) (simp_all add: m' poolAt_put poolAt_drop)
  have len: "length (sm_index [] (mIdleBufferMap m') s') \<le> length (sm_index [] (mIdleBufferMap m) s')" for s'
    using length_sm_erase [of "sm_index [] (mIdleBufferMap m) s" b x] x' by (auto simp: m' poolDrop_def poolAt_index)
  have "pools_ok m'"
  proof (rule pools_ok_change [OF ok m'(3,5,6), where b = b and dest = True and s = s])
    show "int (length (sm_index [] (mIdleBufferMap m') s')) \<le> max 0 (siCapacity i)" if "sm_find (mStreamInfoMap m) s' = Some i" for s' i
      using D(7) [OF that] len [of s'] by linarith
    show "p = True \<and> s' = s \<and> sbStream y = s \<and> sbId y = b \<and> sbBuffer y \<noteq> None \<and> b < gStreamBufferId m' \<and> sm_find (mStreamInfoMap m) s \<noteq> None"
      if "poolAt (poolOf p m') s' b = Some y" for p s' y
      using that free only sb unfolding at m'(4) by (cases p; cases "s' = s") auto
  qed (use D(1,2) in \<open>simp_all add: m' at pool_wf_put pool_wf_drop\<close>)
  moreover have "busyAt m' = (\<lambda>s' b'. if s' = s \<and> b' = b then Some x else busyAt m s' b')"
    using at [of True] by (simp add: busyAt_def fun_eq_iff)
  moreover have "idleAt m' = (\<lambda>s' b'. if s' = s \<and> b' = b then None else idleAt m s' b')"
    using at [of False] by (auto simp: idleAt_def fun_eq_iff)
  ultimately show ?thesis using m' sb free by (simp add: busyAt_def)
qed

text \<open>A buffer leaves the busy ones: it is dropped, or it is idle.\<close>

lemma leave_busy:
  assumes ok: "pools_ok m" and x: "busyAt m s b = Some x" and i: "sm_find (mStreamInfoMap m) s = Some i"
    and m': "mBusyBufferMap m' = poolDrop s b (mBusyBufferMap m)"
      "mIdleBufferMap m' = (if keep then poolPut s b x (mIdleBufferMap m) else mIdleBufferMap m)"
      "mStreamInfoMap m' = mStreamInfoMap m" "gStreamBufferId m' = gStreamBufferId m"
      "mSupportAndroidHBM m' = mSupportAndroidHBM m" "mHasDeviceCallback m' = mHasDeviceCallback m"
    and cap: "keep \<Longrightarrow> int (length (sm_index [] (mBusyBufferMap m) s)) + int (length (sm_index [] (mIdleBufferMap m) s)) \<le> siCapacity i"
  shows "pools_ok m' \<and> busyAt m' = (\<lambda>s' b'. if s' = s \<and> b' = b then None else busyAt m s' b') \<and>
    idleAt m' = (\<lambda>s' b'. if keep \<and> s' = s \<and> b' = b then Some x else idleAt m s' b')"
proof -
  note D = pools_okD [OF ok]
  have x': "poolAt (poolOf True m) s b = Some x" using x by (simp add: busyAt_def)
  have sb: "sbStream x = s" "sbId x = b" "sbBuffer x \<noteq> None" "b < gStreamBufferId m" using D(4) [OF x'] by blast+
  have other: "poolAt (poolOf p m) t b = None" if "t \<noteq> s \<or> \<not> p" for t p
  proof (rule ccontr)
    assume "poolAt (poolOf p m) t b \<noteq> None"
    then obtain y where "poolAt (poolOf p m) t b = Some y" by auto
    from D(5) [OF x' this] show False using that by simp
  qed
  have at: "poolAt (poolOf p m') s' b' = (if s' = s \<and> b' = b then (if p then None else if keep then Some x else poolAt (mIdleBufferMap m) s b) else poolAt (poolOf p m) s' b')" for p s' b'
    using D(1) by (cases p) (simp_all add: m' poolAt_put poolAt_drop)
  have one: "length (sm_index [] (mBusyBufferMap m) s) \<ge> 1" using x' by (cases "sm_index [] (mBusyBufferMap m) s") (simp_all add: poolAt_index)
  have "pools_ok m'"
  proof (rule pools_ok_change [OF ok m'(3,5,6), where b = b and dest = False and s = s])
    show "int (length (sm_index [] (mIdleBufferMap m') s')) \<le> max 0 (siCapacity j)" if j: "sm_find (mStreamInfoMap m) s' = Some j" for s' j
    proof (cases "keep \<and> s' = s")
      case True
      have "sm_wf (sm_index [] (mIdleBufferMap m) s)" using D(2) by (simp add: pool_wf_def)
      then have "length (sm_index [] (mIdleBufferMap m') s') \<le> Suc (length (sm_index [] (mIdleBufferMap m) s))"
        using True by (simp add: m' poolPut_def length_sm_set)
      then show ?thesis using cap True one i j by simp
    next
      case False
      then have "sm_index [] (mIdleBufferMap m') s' = sm_index [] (mIdleBufferMap m) s'" by (auto simp: m' poolPut_def)
      then show ?thesis using D(7) [OF j] by simp
    qed
    show "p = False \<and> s' = s \<and> sbStream y = s \<and> sbId y = b \<and> sbBuffer y \<noteq> None \<and> b < gStreamBufferId m' \<and> sm_find (mStreamInfoMap m) s \<noteq> None"
      if "poolAt (poolOf p m') s' b = Some y" for p s' y
      using that other [of s' p] other [of s False] sb i unfolding at m'(4) by (cases p; cases "s' = s") (auto split: if_splits)
  qed (use D(1,2) in \<open>simp_all add: m' at pool_wf_put pool_wf_drop\<close>)
  moreover have "busyAt m' = (\<lambda>s' b'. if s' = s \<and> b' = b then None else busyAt m s' b')"
    using at [of True] by (simp add: busyAt_def fun_eq_iff)
  moreover have "idleAt m' = (\<lambda>s' b'. if keep \<and> s' = s \<and> b' = b then Some x else idleAt m s' b')"
    using at [of False] by (auto simp: idleAt_def fun_eq_iff)
  ultimately show ?thesis by blast
qed

subsection \<open>Requests\<close>

text \<open>What a request leaves: the pools in order, and everything busy before still where it was.\<close>

definition grows :: "nat \<Rightarrow> MiBufferManager \<Rightarrow> MiBufferManager \<Rightarrow> bool" where
  "grows n m m' \<longleftrightarrow> pools_ok m' \<and> mStreamInfoMap m' = mStreamInfoMap m \<and> unat (gStreamBufferId m) \<le> unat (gStreamBufferId m') \<and>
     unat (gStreamBufferId m') \<le> unat (gStreamBufferId m) + n \<and> (\<forall>s b x. busyAt m s b = Some x \<longrightarrow> busyAt m' s b = Some x)"

lemma grows_refl: "pools_ok m \<Longrightarrow> grows n m m"
  by (simp add: grows_def)

lemma grows_trans: "grows k m m1 \<Longrightarrow> grows n m1 m2 \<Longrightarrow> grows (k + n) m m2"
  by (auto simp: grows_def)

text \<open>A buffer that was not busy and now is.\<close>

definition taken :: "MiBufferManager \<Rightarrow> MiBufferManager \<Rightarrow> StreamBuffer \<Rightarrow> bool" where
  "taken m m' sb \<longleftrightarrow> (\<forall>s. busyAt m s (sbId sb) = None) \<and> busyAt m' (sbStream sb) (sbId sb) = Some sb \<and> sbBuffer sb \<noteq> None"

lemma busy_once:
  assumes "pools_ok m" and "busyAt m s b = Some x" and "busyAt m t b = Some y"
  shows "s = t \<and> x = y"
  using pools_okD(5) [OF assms(1), of True s b x True t y] assms(2,3) by (auto simp: busyAt_def)

lemma taken_later: "taken m m1 sb \<Longrightarrow> grows n m1 m2 \<Longrightarrow> taken m m2 sb"
  by (simp add: taken_def grows_def)

lemma taken_earlier:
  assumes "grows n m m1" and "taken m1 m2 sb"
  shows "taken m m2 sb"
proof -
  have "busyAt m s (sbId sb) = None" for s
  proof (cases "busyAt m s (sbId sb)")
    case (Some x)
    then have "busyAt m1 s (sbId sb) = Some x" using assms(1) by (simp add: grows_def)
    then show ?thesis using assms(2) by (simp add: taken_def)
  qed
  then show ?thesis using assms(2) by (simp add: taken_def)
qed

lemma takeBuffer_ok:
  assumes ok: "pools_ok m" and i: "sm_find (mStreamInfoMap m) s = Some i" and room: "unat (gStreamBufferId m) + 1 < 2 ^ 64"
  shows "\<exists>found m'. takeBuffer create s m = Inr (found, m') \<and> grows 1 m m' \<and>
    (\<forall>sb. found = Some sb \<longrightarrow> sbStream sb = s \<and> taken m m' sb)"
proof (cases "getBufferFromIdle s m")
  case (Some sb)
  then obtain items j rest where items: "sm_find (mIdleBufferMap m) s = Some items" "items = (j, sb) # rest"
    by (auto simp: getBufferFromIdle_def split: option.splits list.splits)
  then have at: "idleAt m s j = Some sb" by (simp add: idleAt_def poolAt_def)
  note M = moveToBusy_ok [OF ok at]
  have sb: "sbBuffer sb \<noteq> None" using pools_okD(4) [OF ok, of False s j sb] at by (simp add: idleAt_def)
  have free: "busyAt m t j = None" for t
  proof (cases "busyAt m t j")
    case (Some y)
    then show ?thesis using pools_okD(5) [OF ok, of True t j y False s sb] at by (simp add: idleAt_def busyAt_def)
  qed
  have "takeBuffer create s m = Inr (Some sb, moveToBusy sb m)" using Some by (simp add: takeBuffer_def)
  moreover have "grows 1 m (moveToBusy sb m)" using M free by (auto simp: grows_def)
  moreover have "sbStream sb = s \<and> taken m (moveToBusy sb m) sb" using M sb free by (auto simp: taken_def)
  ultimately show ?thesis by (intro exI [of _ "Some sb"] exI [of _ "moveToBusy sb m"]) simp
next
  case None
  have t: "takeBuffer create s m = allocateVndBuffer create s m" using None by (simp add: takeBuffer_def)
  obtain found m1 where n: "newBuffer create s m = Inr (found, m1)" "pools_ok m1" "busyAt m1 = busyAt m" "idleAt m1 = idleAt m"
    "mStreamInfoMap m1 = mStreamInfoMap m" "unat (gStreamBufferId m1) = unat (gStreamBufferId m) + 1"
    "\<forall>sb. found = Some sb \<longrightarrow> sbStream sb = s \<and> sbId sb = gStreamBufferId m \<and> sbBuffer sb \<noteq> None"
    using newBuffer_ok [OF ok i room] by blast
  show ?thesis
  proof (cases found)
    case None
    then have "takeBuffer create s m = Inr (None, m1)" using n(1) by (simp add: t allocateVndBuffer_def)
    moreover have "grows 1 m m1" using n by (simp add: grows_def)
    ultimately show ?thesis by blast
  next
    case (Some sb)
    then have sb: "sbStream sb = s" "sbId sb = gStreamBufferId m" "sbBuffer sb \<noteq> None" using n(7) by blast+
    have "sbId sb < gStreamBufferId m1" using n(6) by (simp add: sb word_less_nat_alt)
    then obtain m2 where m2: "enterBuffer sb m1 = Inr m2" "pools_ok m2" "mStreamInfoMap m2 = mStreamInfoMap m1"
      "gStreamBufferId m2 = gStreamBufferId m1" "busyAt m2 = (\<lambda>s b. if s = sbStream sb \<and> b = sbId sb then Some sb else busyAt m1 s b)"
      using enter_ok [OF n(2) sb(3)] fresh_number [OF ok order.refl] n(3,4,5) i sb(1,2) by (metis option.distinct(1))
    have "takeBuffer create s m = Inr (Some sb, m2)" using n(1) Some m2(1) by (simp add: t allocateVndBuffer_def)
    moreover have "grows 1 m m2" using m2 n fresh_number(1) [OF ok order.refl] sb by (auto simp: grows_def)
    moreover have "taken m m2 sb" using m2(5) sb n(3) fresh_number(1) [OF ok order.refl] by (simp add: taken_def)
    ultimately show ?thesis using sb(1) by (intro exI [of _ "Some sb"] exI [of _ m2]) simp
  qed
qed

lemma takeBuffers_ok:
  assumes "pools_ok m" and "sm_find (mStreamInfoMap m) s = Some i" and "unat (gStreamBufferId m) + n < 2 ^ 64"
  shows "\<exists>sbs m'. takeBuffers create s n m = Inr (sbs, m') \<and> grows n m m' \<and> length sbs \<le> n \<and> distinct (map sbId sbs) \<and>
    (\<forall>sb \<in> set sbs. sbStream sb = s \<and> taken m m' sb)"
  using assms
proof (induction n arbitrary: m)
  case 0
  then show ?case using grows_refl by simp
next
  case (Suc n)
  have room: "unat (gStreamBufferId m) + 1 < 2 ^ 64" using Suc.prems(3) by simp
  obtain found m1 where 1: "takeBuffer create s m = Inr (found, m1)" "grows 1 m m1" "\<forall>sb. found = Some sb \<longrightarrow> sbStream sb = s \<and> taken m m1 sb"
    using takeBuffer_ok [OF Suc.prems(1,2) room] by blast
  have "pools_ok m1" "sm_find (mStreamInfoMap m1) s = Some i" "unat (gStreamBufferId m1) + n < 2 ^ 64"
    using 1(2) Suc.prems(2,3) by (simp_all add: grows_def)
  from Suc.IH [OF this] obtain sbs m2 where 2: "takeBuffers create s n m1 = Inr (sbs, m2)" "grows n m1 m2" "length sbs \<le> n" "distinct (map sbId sbs)"
    "\<forall>sb \<in> set sbs. sbStream sb = s \<and> taken m1 m2 sb" by blast
  let ?all = "case found of None \<Rightarrow> sbs | Some sb \<Rightarrow> sb # sbs"
  have "takeBuffers create s (Suc n) m = Inr (?all, m2)" using 1(1) 2(1) by simp
  moreover have "grows (Suc n) m m2" using grows_trans [OF 1(2) 2(2)] by simp
  moreover have "sbStream sb = s \<and> taken m m2 sb" if "sb \<in> set ?all" for sb
    using that 1(3) 2(5) taken_later [OF _ 2(2)] taken_earlier [OF 1(2)] by (cases found) auto
  moreover have "distinct (map sbId ?all)"
  proof (cases found)
    case (Some sb)
    then have b: "busyAt m1 s (sbId sb) = Some sb" using 1(3) by (auto simp: taken_def)
    have "sbId sb' \<noteq> sbId sb" if "sb' \<in> set sbs" for sb'
    proof
      assume "sbId sb' = sbId sb"
      then have "busyAt m1 s (sbId sb) = None" using 2(5) that by (auto simp: taken_def)
      then show False using b by simp
    qed
    then have "sbId sb \<notin> sbId ` set sbs" by force
    then show ?thesis using Some 2(4) by simp
  qed (use 2(4) in simp)
  moreover have "length ?all \<le> Suc n" using 2(3) by (cases found) simp_all
  ultimately show ?case by blast
qed

definition wantedBuffers :: "MiBufferRequestParam list \<Rightarrow> nat" where
  "wantedBuffers params = (\<Sum>req\<leftarrow>params. nat (rpNum req))"

text \<open>Every buffer of an answer was not busy, now is, and stands there once.\<close>

definition answer_ok :: "MiBufferManager \<Rightarrow> MiBufferManager \<Rightarrow> buffer_answer \<Rightarrow> bool" where
  "answer_ok m m' answer \<longleftrightarrow> (\<forall>s sbs. sm_find answer s = Some sbs \<longrightarrow> distinct (map sbId sbs) \<and> (\<forall>sb \<in> set sbs. sbStream sb = s \<and> taken m m' sb))"

definition asked_for :: "MiBufferRequestParam list \<Rightarrow> buffer_answer \<Rightarrow> buffer_answer \<Rightarrow> bool" where
  "asked_for reqs answer answer' \<longleftrightarrow> (\<forall>s sbs. sm_find answer' s = Some sbs \<longrightarrow>
     sm_find answer s = Some sbs \<or> (\<exists>req \<in> set reqs. rpStream req = s \<and> length sbs \<le> nat (rpNum req)))"

lemma register_ok:
  assumes "pools_ok m1" and "unat (gStreamBufferId m1) + wantedBuffers reqs < 2 ^ 64" and "answer_ok m m1 answer" and "grows k m m1"
  shows "\<exists>answer' m2. registerVndBuffers create reqs answer m1 = Inr (answer', m2) \<and> grows (wantedBuffers reqs) m1 m2 \<and> answer_ok m m2 answer' \<and>
    asked_for reqs answer answer'"
  using assms
proof (induction reqs arbitrary: m1 answer k)
  case Nil
  then show ?case using grows_refl by (simp add: asked_for_def)
next
  case (Cons req reqs)
  show ?case
  proof (cases "sm_find (mStreamInfoMap m1) (rpStream req)")
    case None
    have "unat (gStreamBufferId m1) + wantedBuffers reqs < 2 ^ 64" using Cons.prems(2) by (simp add: wantedBuffers_def)
    from Cons.IH [OF Cons.prems(1) this Cons.prems(3,4)] obtain answer' m2 where
      r: "registerVndBuffers create reqs answer m1 = Inr (answer', m2)" "grows (wantedBuffers reqs) m1 m2" "answer_ok m m2 answer'" "asked_for reqs answer answer'"
      by blast
    have "grows (wantedBuffers (req # reqs)) m1 m2" using r(2) by (auto simp: grows_def wantedBuffers_def)
    moreover have "asked_for (req # reqs) answer answer'" using r(4) by (auto simp: asked_for_def)
    ultimately show ?thesis using None r(1,3) by (intro exI [of _ answer'] exI [of _ m2]) simp
  next
    case (Some i)
    have room: "unat (gStreamBufferId m1) + nat (rpNum req) < 2 ^ 64" using Cons.prems(2) by (simp add: wantedBuffers_def)
    obtain sbs m3 where t: "takeBuffers create (rpStream req) (nat (rpNum req)) m1 = Inr (sbs, m3)" "grows (nat (rpNum req)) m1 m3"
      "length sbs \<le> nat (rpNum req)" "distinct (map sbId sbs)" "\<forall>sb \<in> set sbs. sbStream sb = rpStream req \<and> taken m1 m3 sb"
      using takeBuffers_ok [OF Cons.prems(1) Some room] by blast
    let ?answer = "sm_insert (rpStream req) sbs answer"
    have find: "sm_find ?answer s = (case sm_find answer s of None \<Rightarrow> if s = rpStream req then Some sbs else None | Some w \<Rightarrow> Some w)" for s
      by simp
    have "answer_ok m m3 ?answer"
      unfolding answer_ok_def
    proof (intro allI impI)
      fix s l
      assume l: "sm_find ?answer s = Some l"
      show "distinct (map sbId l) \<and> (\<forall>sb \<in> set l. sbStream sb = s \<and> taken m m3 sb)"
      proof (cases "sm_find answer s")
        case None
        then have "l = sbs" "s = rpStream req" using l find by (simp_all split: if_splits)
        then show ?thesis using t(4,5) taken_earlier [OF Cons.prems(4)] by blast
      next
        case (Some w)
        then have "w = l" using l find by simp
        then show ?thesis using Some Cons.prems(3) taken_later [OF _ t(2)] unfolding answer_ok_def by blast
      qed
    qed
    moreover have "pools_ok m3" "unat (gStreamBufferId m3) + wantedBuffers reqs < 2 ^ 64"
      using t(2) Cons.prems(2) by (auto simp: grows_def wantedBuffers_def)
    ultimately obtain answer' m2 where
      r: "registerVndBuffers create reqs ?answer m3 = Inr (answer', m2)" "grows (wantedBuffers reqs) m3 m2" "answer_ok m m2 answer'"
      "asked_for reqs ?answer answer'"
      using Cons.IH [of m3 ?answer, OF _ _ _ grows_trans [OF Cons.prems(4) t(2)]] by blast
    have "asked_for (req # reqs) answer answer'"
      unfolding asked_for_def
    proof (intro allI impI)
      fix s l
      assume "sm_find answer' s = Some l"
      then have "sm_find ?answer s = Some l \<or> (\<exists>req \<in> set reqs. rpStream req = s \<and> length l \<le> nat (rpNum req))"
        using r(4) unfolding asked_for_def by blast
      then show "sm_find answer s = Some l \<or> (\<exists>req \<in> set (req # reqs). rpStream req = s \<and> length l \<le> nat (rpNum req))"
        using find [of s] t(3) by (auto split: option.splits if_splits)
    qed
    moreover have "grows (wantedBuffers (req # reqs)) m1 m2" using grows_trans [OF t(2) r(2)] by (simp add: wantedBuffers_def)
    moreover have "registerVndBuffers create (req # reqs) answer m1 = Inr (answer', m2)" using Some t(1) r(1) by simp
    ultimately show ?thesis using r(3) by blast
  qed
qed

subsection \<open>Releases\<close>

definition same_setup :: "MiBufferManager \<Rightarrow> MiBufferManager \<Rightarrow> bool" where
  "same_setup m m' \<longleftrightarrow> mStreamInfoMap m' = mStreamInfoMap m \<and> gStreamBufferId m' = gStreamBufferId m \<and>
     mSupportAndroidHBM m' = mSupportAndroidHBM m \<and> mHasDeviceCallback m' = mHasDeviceCallback m"

lemma same_setup_trans: "same_setup m m1 \<Longrightarrow> same_setup m1 m2 \<Longrightarrow> same_setup m m2"
  by (simp add: same_setup_def)

lemma releaseOne_ok:
  assumes ok: "pools_ok m"
  shows "case busyAt m (sbStream sb) (sbId sb) of
      None \<Rightarrow> releaseOne sb m = Inr m
    | Some x \<Rightarrow> \<exists>m' keep. releaseOne sb m = Inr m' \<and> pools_ok m' \<and> same_setup m m' \<and> memory_told m' \<and>
        (keep \<longleftrightarrow> isCapcityExceed (sbStream sb) m = Inr False) \<and>
        busyAt m' = (\<lambda>s b. if s = sbStream sb \<and> b = sbId sb then None else busyAt m s b) \<and>
        idleAt m' = (\<lambda>s b. if keep \<and> s = sbStream sb \<and> b = sbId sb then Some x else idleAt m s b)"
proof (cases "busyAt m (sbStream sb) (sbId sb)")
  case None
  then show ?thesis by (auto simp: releaseOne_def busyAt_def poolAt_def split: option.splits)
next
  case (Some x)
  let ?s = "sbStream sb" and ?b = "sbId sb"
  have x: "poolAt (poolOf True m) ?s ?b = Some x" using Some by (simp add: busyAt_def)
  obtain items where items: "sm_find (mBusyBufferMap m) ?s = Some items" "sm_find items ?b = Some x"
    using Some by (auto simp: busyAt_def poolAt_def split: option.splits)
  obtain i where i: "sm_find (mStreamInfoMap m) ?s = Some i" using pools_okD(4) [OF ok x] by blast
  let ?n = "int (length (sm_index [] (mBusyBufferMap m) ?s)) + int (length (sm_index [] (mIdleBufferMap m) ?s))"
  let ?keep = "\<not> ?n > siCapacity i"
  let ?m = "if ?keep then moveToIdle sb m else m\<lparr>mBusyBufferMap := poolDrop ?s ?b (mBusyBufferMap m)\<rparr>"
  have exceeded: "isCapcityExceed ?s m = Inr (?n > siCapacity i)" by (simp add: isCapcityExceed_def sm_at_def i)
  have get: "poolGet (mBusyBufferMap m) ?s ?b = x" using Some by (simp add: poolGet_at busyAt_def)
  have L: "pools_ok ?m \<and> busyAt ?m = (\<lambda>s' b'. if s' = ?s \<and> b' = ?b then None else busyAt m s' b') \<and>
    idleAt ?m = (\<lambda>s' b'. if ?keep \<and> s' = ?s \<and> b' = ?b then Some x else idleAt m s' b')"
    by (rule leave_busy [OF ok Some i]) (simp_all add: moveToIdle_def get Let_def)
  obtain m' where m': "onMemoryChanged ?m = Inr m'" "same_pools ?m m'" "pools_ok m'" "memory_told m'" using memory_ok L by blast
  have "releaseOne sb m = onMemoryChanged (if ?n > siCapacity i then m\<lparr>mBusyBufferMap := poolDrop ?s ?b (mBusyBufferMap m)\<rparr> else moveToIdle sb m)"
    using items exceeded by (simp add: releaseOne_def)
  also have "\<dots> = onMemoryChanged ?m" by (cases "?n > siCapacity i") simp_all
  finally have "releaseOne sb m = Inr m'" using m'(1) by (rule trans)
  moreover have "same_setup m m'" using m'(2) by (auto simp: same_setup_def same_pools_def moveToIdle_def Let_def split: if_splits)
  moreover have "busyAt m' = busyAt ?m" "idleAt m' = idleAt ?m" using m'(2) by (simp_all add: same_pools_def busyAt_def idleAt_def)
  ultimately have "releaseOne sb m = Inr m' \<and> pools_ok m' \<and> same_setup m m' \<and> memory_told m' \<and>
      (?keep \<longleftrightarrow> isCapcityExceed ?s m = Inr False) \<and>
      busyAt m' = (\<lambda>s b. if s = ?s \<and> b = ?b then None else busyAt m s b) \<and>
      idleAt m' = (\<lambda>s b. if ?keep \<and> s = ?s \<and> b = ?b then Some x else idleAt m s b)"
    using m'(3,4) L exceeded by (simp only: simp_thms sum.inject)
  then show ?thesis unfolding Some option.case by (intro exI)
qed

text \<open>A number that is not busy is left alone by a release.\<close>

definition untouched :: "MiBufferManager \<Rightarrow> MiBufferManager \<Rightarrow> bool" where
  "untouched m m' \<longleftrightarrow> (\<forall>b. (\<forall>s. busyAt m s b = None) \<longrightarrow> (\<forall>s. busyAt m' s b = None \<and> idleAt m' s b = idleAt m s b))"

lemma untouched_trans: "untouched m m1 \<Longrightarrow> untouched m1 m2 \<Longrightarrow> untouched m m2"
  unfolding untouched_def by metis

lemma releaseOne_untouched:
  assumes "pools_ok m" and "releaseOne sb m = Inr m'"
  shows "untouched m m'"
proof (cases "busyAt m (sbStream sb) (sbId sb)")
  case None
  then show ?thesis using releaseOne_ok [OF assms(1), of sb] assms(2) by (simp add: untouched_def)
next
  case (Some x)
  then obtain keep where b: "busyAt m' = (\<lambda>s b. if s = sbStream sb \<and> b = sbId sb then None else busyAt m s b)"
    and i: "idleAt m' = (\<lambda>s b. if keep \<and> s = sbStream sb \<and> b = sbId sb then Some x else idleAt m s b)"
    using releaseOne_ok [OF assms(1), of sb] assms(2) by auto
  show ?thesis
    unfolding untouched_def
  proof (intro allI impI)
    fix c s
    assume c: "\<forall>s. busyAt m s c = None"
    then have "c \<noteq> sbId sb" using Some by auto
    then show "busyAt m' s c = None \<and> idleAt m' s c = idleAt m s c" using c by (simp add: b i)
  qed
qed

lemma releaseEach_ok:
  assumes "pools_ok m"
  shows "\<exists>m'. releaseEach sbs m = Inr m' \<and> pools_ok m' \<and> same_setup m m' \<and> untouched m m' \<and>
    (\<forall>s b. busyAt m' s b = (if (s, b) \<in> (\<lambda>sb. (sbStream sb, sbId sb)) ` set sbs then None else busyAt m s b))"
  using assms
proof (induction sbs arbitrary: m)
  case Nil
  then show ?case by (simp add: same_setup_def untouched_def)
next
  case (Cons sb sbs)
  have "\<exists>m1. releaseOne sb m = Inr m1 \<and> pools_ok m1 \<and> same_setup m m1 \<and>
      busyAt m1 = (\<lambda>s b. if s = sbStream sb \<and> b = sbId sb then None else busyAt m s b)"
    using releaseOne_ok [OF Cons.prems, of sb] Cons.prems
    by (cases "busyAt m (sbStream sb) (sbId sb)") (auto simp: same_setup_def fun_eq_iff)
  then obtain m1 where m1: "releaseOne sb m = Inr m1" "pools_ok m1" "same_setup m m1"
      "busyAt m1 = (\<lambda>s b. if s = sbStream sb \<and> b = sbId sb then None else busyAt m s b)" by blast
  from Cons.IH [OF m1(2)] obtain m2 where m2: "releaseEach sbs m1 = Inr m2" "pools_ok m2" "same_setup m1 m2" "untouched m1 m2"
    "\<forall>s b. busyAt m2 s b = (if (s, b) \<in> (\<lambda>sb. (sbStream sb, sbId sb)) ` set sbs then None else busyAt m1 s b)" by blast
  then show ?case using m1 same_setup_trans [OF m1(3) m2(3)] untouched_trans [OF releaseOne_untouched [OF Cons.prems m1(1)] m2(4)]
    by (intro exI [of _ m2]) auto
qed

subsection \<open>Executions\<close>

text \<open>
  A call of a client as a whole.  It names streams of the session, and fewer than \<open>2 ^ 64\<close> buffers
  are created.
\<close>

definition known :: "MiBufferManager \<Rightarrow> u32 list \<Rightarrow> bool" where
  "known m ids \<longleftrightarrow> (\<forall>s \<in> set ids. sm_find (mStreamInfoMap m) s \<noteq> None)"

definition asParam :: "BufferRequest \<Rightarrow> MiBufferRequestParam" where
  "asParam req = \<lparr>rpStream = bqStream req, rpNum = sint (bqNum req)\<rparr>"

inductive buffers_call :: "image_creator \<Rightarrow> MiBufferManager \<Rightarrow> MiBufferManager \<Rightarrow> bool" for create where
  request: "unat (gStreamBufferId m) + wantedBuffers params < 2 ^ 64 \<Longrightarrow> requestBuffers create fw params m = Inr (r, m') \<Longrightarrow> buffers_call create m m'"
| release: "known m (map sbStream sbs) \<Longrightarrow> releaseBuffers sbs m = Inr (bs, m') \<Longrightarrow> buffers_call create m m'"
| hbm_request: "known m (map bqStream reqs) \<Longrightarrow> unat (gStreamBufferId m) + wantedBuffers (map asParam reqs) < 2 ^ 64 \<Longrightarrow>
    requestStreamBuffers create fw reqs m = Inr (calls, m') \<Longrightarrow> buffers_call create m m'"
| hbm_return: "known m (map sbStream sbs) \<Longrightarrow> returnStreamBuffers resumed sbs m = Inr (back, m') \<Longrightarrow> buffers_call create m m'"
| pause: "buffers_call create m (pauseCallback m)"
| set_callback: "buffers_call create m (setCallback hasDevice m)"

lemma pools_ok_flags [simp]: "pools_ok (m\<lparr>mPauseCallback := b\<rparr>) = pools_ok m"
proof -
  have "poolOf p (m\<lparr>mPauseCallback := b\<rparr>) = poolOf p m" for p by (simp add: poolOf_def)
  then show ?thesis by (simp add: pools_ok_def)
qed

lemma pools_ok_device:
  assumes "pools_ok m"
  shows "pools_ok (m\<lparr>mHasDeviceCallback := True\<rparr>)"
proof -
  have "poolOf p (m\<lparr>mHasDeviceCallback := True\<rparr>) = poolOf p m" for p by (simp add: poolOf_def)
  then show ?thesis using assms by (simp add: pools_ok_def)
qed

lemma wait_ok: "waitForCallback resumed m = (b, m') \<Longrightarrow> m' = m \<or> m' = m\<lparr>mPauseCallback := False\<rparr>"
  by (auto simp: waitForCallback_def split: if_splits)

lemma fwk_ok:
  assumes "requestFwkStreamBuffers fw rets m = Inr (r, m')" and "pools_ok m"
  shows "pools_ok m' \<and> gStreamBufferId m' = gStreamBufferId m"
proof -
  obtain b m1 where w: "waitForCallback (fwResumed fw) m = (b, m1)" by fastforce
  then have "m' = m1" using assms(1) by (cases b) (auto simp: requestFwkStreamBuffers_def bindE_eq_Inr split: if_splits)
  then show ?thesis using wait_ok [OF w] assms(2) by auto
qed

lemma sm_set_same: "sm_wf m \<Longrightarrow> sm_find m k = Some v \<Longrightarrow> sm_insert k w m = m"
  by (simp add: sm_insert_def)

lemma meet_known:
  assumes "known m (map f xs)"
  shows "fold (\<lambda>x. meetStream (f x)) xs m = m"
  using assms
proof (induction xs)
  case (Cons x xs)
  then have "meetStream (f x) m = m" by (auto simp: known_def meetStream_def sm_insert_def split: option.splits)
  then show ?case using Cons by (simp add: known_def)
qed simp

lemma wanted_filter: "wantedBuffers (filter P params) \<le> wantedBuffers params"
  by (induction params) (auto simp: wantedBuffers_def)

lemma register_from_nothing:
  assumes "pools_ok m" and "unat (gStreamBufferId m) + wantedBuffers reqs < 2 ^ 64"
  shows "\<exists>answer m'. registerVndBuffers create reqs [] m = Inr (answer, m') \<and> grows (wantedBuffers reqs) m m' \<and> answer_ok m m' answer \<and>
    asked_for reqs [] answer"
  using register_ok [OF assms, of m "[]" 0] grows_refl [OF assms(1)] by (simp add: answer_ok_def)

lemma releaseBuffers_ok:
  assumes ok: "pools_ok m" and k: "known m (map sbStream sbs)"
  shows "\<exists>bs m'. releaseBuffers sbs m = Inr (bs, m') \<and> pools_ok m' \<and> same_setup m m'"
proof -
  note D = pools_okD [OF ok]
  show ?thesis
  proof (cases "mSupportAndroidHBM m")
    case True
    then have d: "mHasDeviceCallback m" by (rule D(8))
    let ?v = "filter (\<lambda>sb. \<not> ownedByFramework m (sbStream sb)) sbs"
    obtain m' where "releaseEach ?v m = Inr m'" "pools_ok m'" "same_setup m m'" using releaseEach_ok [OF ok] by blast
    then show ?thesis using True d by (simp add: releaseBuffers_def meet_known [OF k] Let_def)
  next
    case False
    obtain m' where "releaseEach sbs m = Inr m'" "pools_ok m'" "same_setup m m'" using releaseEach_ok [OF ok] by blast
    then show ?thesis using False by (simp add: releaseBuffers_def)
  qed
qed

text \<open>
  The calls run in threads of their own, so an execution is an interleaving of the parts that hold the
  lock (or draw a number): the idle buffer \<open>chosen\<close> by a request that has not yet moved it, the
  buffers \<open>created\<close> and not yet entered.  At most one request at a time is between choosing and
  moving; what happens with two is \<open>two_takers\<close> below.
\<close>

record manager_run =
  streamMgr :: MiBufferManager
  chosen :: "StreamBuffer option"
  created :: "StreamBuffer list"

inductive manager_step :: "image_creator \<Rightarrow> manager_run \<Rightarrow> manager_run \<Rightarrow> bool" for create where
  choose: "chosen r = None \<Longrightarrow> getBufferFromIdle s (streamMgr r) = Some sb \<Longrightarrow> manager_step create r (r\<lparr>chosen := Some sb\<rparr>)"
| move: "chosen r = Some sb \<Longrightarrow> manager_step create r (r\<lparr>streamMgr := moveToBusy sb (streamMgr r), chosen := None\<rparr>)"
| create: "unat (gStreamBufferId (streamMgr r)) + 1 < 2 ^ 64 \<Longrightarrow> newBuffer create s (streamMgr r) = Inr (found, m) \<Longrightarrow>
    manager_step create r (r\<lparr>streamMgr := m, created := (case found of None \<Rightarrow> created r | Some sb \<Rightarrow> sb # created r)\<rparr>)"
| enter: "sb \<in> set (created r) \<Longrightarrow> enterBuffer sb (streamMgr r) = Inr m \<Longrightarrow>
    manager_step create r (r\<lparr>streamMgr := m, created := remove1 sb (created r)\<rparr>)"
| give_back: "releaseEach sbs (streamMgr r) = Inr m \<Longrightarrow> manager_step create r (r\<lparr>streamMgr := m\<rparr>)"
| wait: "waitForCallback resumed (streamMgr r) = (b, m) \<Longrightarrow> manager_step create r (r\<lparr>streamMgr := m\<rparr>)"
| pause: "manager_step create r (r\<lparr>streamMgr := pauseCallback (streamMgr r)\<rparr>)"
| set_callback: "manager_step create r (r\<lparr>streamMgr := setCallback hasDevice (streamMgr r)\<rparr>)"

definition created_ok :: "MiBufferManager \<Rightarrow> StreamBuffer \<Rightarrow> bool" where
  "created_ok m sb \<longleftrightarrow> sbBuffer sb \<noteq> None \<and> sbId sb < gStreamBufferId m \<and> sm_find (mStreamInfoMap m) (sbStream sb) \<noteq> None \<and>
     (\<forall>s. busyAt m s (sbId sb) = None \<and> idleAt m s (sbId sb) = None)"

definition run_ok :: "manager_run \<Rightarrow> bool" where
  "run_ok r \<longleftrightarrow> pools_ok (streamMgr r) \<and> (\<forall>sb. chosen r = Some sb \<longrightarrow> idleAt (streamMgr r) (sbStream sb) (sbId sb) = Some sb) \<and>
     (\<forall>sb \<in> set (created r). created_ok (streamMgr r) sb) \<and> distinct (map sbId (created r))"

lemma idle_first:
  assumes "pools_ok m" and "getBufferFromIdle s m = Some sb"
  shows "idleAt m (sbStream sb) (sbId sb) = Some sb" "sbStream sb = s"
proof -
  obtain items j rest where items: "sm_find (mIdleBufferMap m) s = Some items" "items = (j, sb) # rest"
    using assms(2) by (auto simp: getBufferFromIdle_def split: option.splits list.splits)
  then have at: "poolAt (mIdleBufferMap m) s j = Some sb" by (simp add: poolAt_def)
  then have "poolAt (poolOf False m) s j = Some sb" by simp
  from pools_okD(4) [OF assms(1) this] at show "idleAt m (sbStream sb) (sbId sb) = Some sb" "sbStream sb = s"
    by (simp_all add: idleAt_def)
qed

lemma idle_not_busy:
  assumes "pools_ok m" and "idleAt m s b = Some x"
  shows "busyAt m t b = None"
proof (cases "busyAt m t b")
  case (Some y)
  then show ?thesis using pools_okD(5) [OF assms(1), of True t b y False s x] assms(2) by (simp add: idleAt_def busyAt_def)
qed

text \<open>Steps that keep the streams and the numbers and do not touch what is not busy.\<close>

lemma run_ok_untouched:
  assumes ok: "run_ok r" and m: "pools_ok m" "mStreamInfoMap m = mStreamInfoMap (streamMgr r)" "gStreamBufferId m = gStreamBufferId (streamMgr r)"
    "untouched (streamMgr r) m"
  shows "run_ok (r\<lparr>streamMgr := m\<rparr>)"
  unfolding run_ok_def
proof (intro conjI allI impI ballI)
  have P: "pools_ok (streamMgr r)" using ok by (simp add: run_ok_def)
  show "pools_ok (streamMgr (r\<lparr>streamMgr := m\<rparr>))" using m(1) by simp
  show "idleAt (streamMgr (r\<lparr>streamMgr := m\<rparr>)) (sbStream sb) (sbId sb) = Some sb" if "chosen (r\<lparr>streamMgr := m\<rparr>) = Some sb" for sb
  proof -
    have i: "idleAt (streamMgr r) (sbStream sb) (sbId sb) = Some sb" using ok that by (simp add: run_ok_def)
    then show ?thesis using idle_not_busy [OF P i] m(4) by (simp add: untouched_def)
  qed
  show "created_ok (streamMgr (r\<lparr>streamMgr := m\<rparr>)) sb" if "sb \<in> set (created (r\<lparr>streamMgr := m\<rparr>))" for sb
    using ok that m(2-4) by (simp add: run_ok_def created_ok_def untouched_def)
  show "distinct (map sbId (created (r\<lparr>streamMgr := m\<rparr>)))" using ok by (simp add: run_ok_def)
qed

lemma waiting_keeps:
  assumes "pools_ok m" and "m' = m \<or> (\<exists>b. m' = m\<lparr>mPauseCallback := b\<rparr>) \<or> m' = m\<lparr>mHasDeviceCallback := True, mPauseCallback := False\<rparr>"
  shows "pools_ok m' \<and> mStreamInfoMap m' = mStreamInfoMap m \<and> gStreamBufferId m' = gStreamBufferId m \<and> untouched m m'"
proof -
  have "untouched m m'" using assms(2) by (auto simp: untouched_def busyAt_def idleAt_def)
  then show ?thesis using assms pools_ok_device by auto
qed

lemma manager_step_ok:
  assumes "manager_step create r r'" and "run_ok r"
  shows "run_ok r'"
  using assms
proof (induction rule: manager_step.induct)
  case (choose r s sb)
  then show ?case using idle_first(1) [of "streamMgr r" s sb] by (simp add: run_ok_def)
next
  case (move r sb)
  have x: "idleAt (streamMgr r) (sbStream sb) (sbId sb) = Some sb" and P: "pools_ok (streamMgr r)" using move by (simp_all add: run_ok_def)
  note M = moveToBusy_ok [OF P x]
  have "created_ok (moveToBusy sb (streamMgr r)) c" if "c \<in> set (created r)" for c
  proof -
    have c: "created_ok (streamMgr r) c" using move.prems that by (simp add: run_ok_def)
    then have "sbId c \<noteq> sbId sb" using x by (auto simp: created_ok_def)
    then show ?thesis using c M by (simp add: created_ok_def)
  qed
  then show ?case using move.prems M by (simp add: run_ok_def)
next
  case (create r s found m)
  have P: "pools_ok (streamMgr r)" using create.prems by (simp add: run_ok_def)
  obtain i where i: "sm_find (mStreamInfoMap (streamMgr r)) s = Some i" using create.hyps(2) by (auto simp: newBuffer_def split: option.splits)
  note N = newBuffer_ok [OF P i create.hyps(1), of create]
  have n: "pools_ok m" "busyAt m = busyAt (streamMgr r)" "idleAt m = idleAt (streamMgr r)" "mStreamInfoMap m = mStreamInfoMap (streamMgr r)"
    "unat (gStreamBufferId m) = unat (gStreamBufferId (streamMgr r)) + 1"
    "\<And>sb. found = Some sb \<Longrightarrow> sbStream sb = s \<and> sbId sb = gStreamBufferId (streamMgr r) \<and> sbBuffer sb \<noteq> None"
    using N create.hyps(2) by auto
  have less: "gStreamBufferId (streamMgr r) < gStreamBufferId m" using n(5) by (simp add: word_less_nat_alt)
  have old: "created_ok m c" "sbId c \<noteq> gStreamBufferId (streamMgr r)" if "c \<in> set (created r)" for c
    using create.prems that n(2-4) less by (auto simp: run_ok_def created_ok_def)
  have number: "gStreamBufferId (streamMgr r) \<notin> sbId ` set (created r)" using old(2) by (metis imageE)
  have new: "created_ok m sb" if "found = Some sb" for sb
    using n(6) [OF that] n(2-4) i less fresh_number [OF P order.refl] by (simp add: created_ok_def)
  show ?case
  proof (cases found)
    case None
    then show ?thesis using create.prems n(1,3) old(1) by (simp add: run_ok_def)
  next
    case (Some sb)
    then have "sbId sb \<notin> sbId ` set (created r)" using n(6) number by simp
    then show ?thesis using create.prems n(1,3) old(1) new [OF Some] Some by (simp add: run_ok_def)
  qed
next
  case (enter sb r m)
  have P: "pools_ok (streamMgr r)" and c: "created_ok (streamMgr r) sb" using enter by (simp_all add: run_ok_def)
  have e: "pools_ok m" "mStreamInfoMap m = mStreamInfoMap (streamMgr r)" "gStreamBufferId m = gStreamBufferId (streamMgr r)" "idleAt m = idleAt (streamMgr r)"
    "busyAt m = (\<lambda>s b. if s = sbStream sb \<and> b = sbId sb then Some sb else busyAt (streamMgr r) s b)"
    using enter_ok [OF P, of sb] c enter.hyps(2) by (auto simp: created_ok_def)
  have d: "distinct (map sbId (created r))" using enter.prems by (simp add: run_ok_def)
  have "created_ok m c" if "c \<in> set (remove1 sb (created r))" for c
  proof -
    have "distinct (created r)" using d by (simp add: distinct_map)
    then have "c \<in> set (created r)" "c \<noteq> sb" using that by simp_all
    then have "sbId c \<noteq> sbId sb" using d enter.hyps(1) by (auto simp: distinct_map dest: inj_onD)
    then show ?thesis using enter.prems \<open>c \<in> set (created r)\<close> e by (simp add: run_ok_def created_ok_def)
  qed
  moreover have "distinct (map sbId (remove1 sb (created r)))"
    using d by (simp add: distinct_map inj_on_diff)
  ultimately show ?case using enter.prems e by (simp add: run_ok_def)
next
  case (give_back sbs r m)
  have P: "pools_ok (streamMgr r)" using give_back.prems by (simp add: run_ok_def)
  have "pools_ok m \<and> same_setup (streamMgr r) m \<and> untouched (streamMgr r) m" using releaseEach_ok [OF P, of sbs] give_back.hyps by auto
  then show ?case using run_ok_untouched [OF give_back.prems] by (simp add: same_setup_def)
next
  case (wait resumed r b m)
  have P: "pools_ok (streamMgr r)" using wait.prems by (simp add: run_ok_def)
  have "m = streamMgr r \<or> (\<exists>b. m = (streamMgr r)\<lparr>mPauseCallback := b\<rparr>)" using wait_ok [OF wait.hyps] by blast
  then show ?case using run_ok_untouched [OF wait.prems] waiting_keeps [OF P, of m] by blast
next
  case (pause r)
  have P: "pools_ok (streamMgr r)" using pause by (simp add: run_ok_def)
  have "pauseCallback (streamMgr r) = streamMgr r \<or> (\<exists>b. pauseCallback (streamMgr r) = (streamMgr r)\<lparr>mPauseCallback := b\<rparr>)"
    unfolding pauseCallback_def by blast
  then show ?case using run_ok_untouched [OF pause] waiting_keeps [OF P, of "pauseCallback (streamMgr r)"] by blast
next
  case (set_callback r hasDevice)
  have P: "pools_ok (streamMgr r)" using set_callback by (simp add: run_ok_def)
  have "setCallback hasDevice (streamMgr r) = streamMgr r \<or>
      setCallback hasDevice (streamMgr r) = (streamMgr r)\<lparr>mHasDeviceCallback := True, mPauseCallback := False\<rparr>"
    by (simp add: setCallback_def)
  then show ?case using run_ok_untouched [OF set_callback] waiting_keeps [OF P, of "setCallback hasDevice (streamMgr r)"] by blast
qed

subsection \<open>Whole calls\<close>

text \<open>A call nobody comes between is an execution of its parts.\<close>

definition alone :: "MiBufferManager \<Rightarrow> manager_run" where
  "alone m = \<lparr>streamMgr = m, chosen = None, created = []\<rparr>"

lemma alone_simps [simp]: "streamMgr (alone m) = m" "chosen (alone m) = None" "created (alone m) = []" "(alone m)\<lparr>streamMgr := m'\<rparr> = alone m'"
  by (simp_all add: alone_def)

lemma alone_ok [simp]: "run_ok (alone m) = pools_ok m"
  by (simp add: run_ok_def)

lemma take_parts:
  assumes "pools_ok m" and "unat (gStreamBufferId m) + 1 < 2 ^ 64" and t: "takeBuffer create s m = Inr (found, m')"
  shows "(manager_step create)\<^sup>*\<^sup>* (alone m) (alone m')"
proof (cases "getBufferFromIdle s m")
  case (Some sb)
  then have m': "m' = moveToBusy sb m" using t by (simp add: takeBuffer_def)
  have 1: "manager_step create (alone m) ((alone m)\<lparr>chosen := Some sb\<rparr>)" by (rule manager_step.choose) (use Some in simp_all)
  have 2: "manager_step create ((alone m)\<lparr>chosen := Some sb\<rparr>) (alone m')"
    using manager_step.move [of "(alone m)\<lparr>chosen := Some sb\<rparr>" sb create] by (simp add: m' alone_def)
  show ?thesis using 1 r_into_rtranclp [of "manager_step create", OF 2] by (rule converse_rtranclp_into_rtranclp)
next
  case None
  obtain f m1 where n: "newBuffer create s m = Inr (f, m1)"
    "(case f of None \<Rightarrow> Inr (None, m1) | Some sb \<Rightarrow> bindE (enterBuffer sb m1) (\<lambda>m2. Inr (Some sb, m2))) = Inr (found, m')"
    using None t by (auto simp: takeBuffer_def allocateVndBuffer_def bindE_eq_Inr)
  have 1: "manager_step create (alone m) ((alone m)\<lparr>streamMgr := m1, created := (case f of None \<Rightarrow> created (alone m) | Some sb \<Rightarrow> sb # created (alone m))\<rparr>)"
    by (rule manager_step.create [where s = s]) (use assms(2) n(1) in simp_all)
  show ?thesis
  proof (cases f)
    case None
    then have "manager_step create (alone m) (alone m')" using 1 n(2) by (simp add: alone_def)
    then show ?thesis by (rule r_into_rtranclp)
  next
    case (Some sb)
    then have e: "enterBuffer sb m1 = Inr m'" using n(2) by (auto simp: bindE_eq_Inr)
    let ?r = "\<lparr>streamMgr = m1, chosen = None, created = [sb]\<rparr>"
    have "manager_step create ?r (?r\<lparr>streamMgr := m', created := remove1 sb (created ?r)\<rparr>)"
      by (rule manager_step.enter) (use e in simp_all)
    then have 2: "manager_step create ?r (alone m')" by (simp add: alone_def)
    have "manager_step create (alone m) ?r" using 1 Some by (simp add: alone_def)
    then show ?thesis using r_into_rtranclp [of "manager_step create", OF 2] by (rule converse_rtranclp_into_rtranclp)
  qed
qed

lemma takes_parts:
  assumes "pools_ok m" and "sm_find (mStreamInfoMap m) s = Some i" and "unat (gStreamBufferId m) + n < 2 ^ 64"
    and "takeBuffers create s n m = Inr (sbs, m')"
  shows "(manager_step create)\<^sup>*\<^sup>* (alone m) (alone m')"
  using assms
proof (induction n arbitrary: m sbs)
  case (Suc n)
  have room: "unat (gStreamBufferId m) + 1 < 2 ^ 64" using Suc.prems(3) by simp
  obtain found m1 where 1: "takeBuffer create s m = Inr (found, m1)" "grows 1 m m1"
    using takeBuffer_ok [OF Suc.prems(1,2) room] by blast
  then obtain rest where 2: "takeBuffers create s n m1 = Inr (rest, m')" using Suc.prems(4) by (auto simp: bindE_eq_Inr)
  have "pools_ok m1" "sm_find (mStreamInfoMap m1) s = Some i" "unat (gStreamBufferId m1) + n < 2 ^ 64"
    using 1(2) Suc.prems(2,3) by (simp_all add: grows_def)
  from Suc.IH [OF this 2] take_parts [OF Suc.prems(1) room 1(1)] show ?case by (rule rtranclp_trans [rotated])
qed simp

lemma register_parts:
  assumes "pools_ok m" and "unat (gStreamBufferId m) + wantedBuffers reqs < 2 ^ 64" and "registerVndBuffers create reqs answer m = Inr (answer', m')"
  shows "(manager_step create)\<^sup>*\<^sup>* (alone m) (alone m')"
  using assms
proof (induction reqs arbitrary: m answer)
  case (Cons req reqs)
  show ?case
  proof (cases "sm_find (mStreamInfoMap m) (rpStream req)")
    case None
    then show ?thesis using Cons.IH [of m answer] Cons.prems by (simp add: wantedBuffers_def)
  next
    case (Some i)
    have room: "unat (gStreamBufferId m) + nat (rpNum req) < 2 ^ 64" using Cons.prems(2) by (simp add: wantedBuffers_def)
    obtain sbs m1 where t: "takeBuffers create (rpStream req) (nat (rpNum req)) m = Inr (sbs, m1)" "grows (nat (rpNum req)) m m1"
      using takeBuffers_ok [OF Cons.prems(1) Some room] by blast
    have "pools_ok m1" "unat (gStreamBufferId m1) + wantedBuffers reqs < 2 ^ 64"
      using t(2) Cons.prems(2) by (auto simp: grows_def wantedBuffers_def)
    moreover have "registerVndBuffers create reqs (sm_insert (rpStream req) sbs answer) m1 = Inr (answer', m')"
      using Cons.prems(3) Some t(1) by simp
    ultimately have "(manager_step create)\<^sup>*\<^sup>* (alone m1) (alone m')" by (rule Cons.IH)
    with takes_parts [OF Cons.prems(1) Some room t(1)] show ?thesis by (rule rtranclp_trans)
  qed
qed simp

lemma wait_part: "waitForCallback resumed m = (b, m') \<Longrightarrow> (manager_step create)\<^sup>*\<^sup>* (alone m) (alone m')"
  using manager_step.wait [of resumed "alone m" b m' create] by (simp add: r_into_rtranclp)

lemma fwk_part:
  assumes "requestFwkStreamBuffers fw rets m = Inr (r, m')"
  shows "(manager_step create)\<^sup>*\<^sup>* (alone m) (alone m')"
proof -
  obtain b m1 where w: "waitForCallback (fwResumed fw) m = (b, m1)" by fastforce
  then have "m' = m1" using assms by (cases b) (auto simp: requestFwkStreamBuffers_def bindE_eq_Inr split: if_splits)
  then show ?thesis using wait_part [OF w] by simp
qed

lemma release_part:
  assumes "known m (map sbStream sbs)" and "releaseBuffers sbs m = Inr (bs, m')"
  shows "(manager_step create)\<^sup>*\<^sup>* (alone m) (alone m')"
proof -
  obtain l where "releaseEach l m = Inr m'"
    using assms(2) unfolding releaseBuffers_def meet_known [OF assms(1)] Let_def by (auto simp: bindE_eq_Inr split: if_splits)
  then show ?thesis using manager_step.give_back [of l "alone m" m' create] by (simp add: r_into_rtranclp)
qed

lemma call_parts:
  assumes "buffers_call create m m'" and "pools_ok m"
  shows "(manager_step create)\<^sup>*\<^sup>* (alone m) (alone m')"
  using assms
proof (induction rule: buffers_call.induct)
  case (request m params fw r m')
  let ?f = "if mSupportAndroidHBM m then filter (toFramework m) params else []"
  let ?v = "if mSupportAndroidHBM m then filter (toVendor m) params else params"
  let ?g = "\<lambda>fb (vb, m2). let a = fold (\<lambda>(k, v). sm_insert k v) vb fb in Inr ((a \<noteq> [], a), m2)"
  have "bindE (if ?f \<noteq> [] then registerFwkBuffers fw m else Inr ([], m)) (\<lambda>(fb, m1). bindE (registerVndBuffers create ?v [] m1) (?g fb)) = Inr (r, m')"
    using request.hyps(2) unfolding requestBuffers_def Let_def .
  then obtain x where x: "(if ?f \<noteq> [] then registerFwkBuffers fw m else Inr ([], m)) = Inr x"
      "(\<lambda>(fb, m1). bindE (registerVndBuffers create ?v [] m1) (?g fb)) x = Inr (r, m')"
    unfolding bindE_eq_Inr by blast
  obtain fb m1 where fm: "x = (fb, m1)" by (cases x)
  have f: "(if ?f \<noteq> [] then registerFwkBuffers fw m else Inr ([], m)) = Inr (fb, m1)" using x(1) unfolding fm .
  obtain a where v: "registerVndBuffers create ?v [] m1 = Inr (a, m')" using x(2) unfolding fm by (auto simp: bindE_eq_Inr Let_def)
  have m1: "pools_ok m1 \<and> gStreamBufferId m1 = gStreamBufferId m \<and> (manager_step create)\<^sup>*\<^sup>* (alone m) (alone m1)"
  proof (cases "?f \<noteq> []")
    case True
    then obtain st rets where "requestFwkStreamBuffers fw [] m = Inr ((st, rets), m1)"
      using f by (auto simp: registerFwkBuffers_def bindE_eq_Inr)
    from fwk_ok [OF this request.prems] fwk_part [OF this] show ?thesis by blast
  qed (use f request.prems in simp)
  have "wantedBuffers ?v \<le> wantedBuffers params" using wanted_filter by simp
  moreover have "unat (gStreamBufferId m1) = unat (gStreamBufferId m)" using m1 by simp
  ultimately have "unat (gStreamBufferId m1) + wantedBuffers ?v < 2 ^ 64" using request.hyps(1) by linarith
  from register_parts [OF _ this v] m1 show ?case by (meson rtranclp_trans)
next
  case (release m sbs bs m')
  then show ?case by (intro release_part)
next
  case (hbm_request m reqs fw calls m')
  let ?v = "filter (\<lambda>req. \<not> ownedByFramework m (bqStream req)) reqs"
  have "wantedBuffers (map asParam ?v) \<le> wantedBuffers (map asParam reqs)" by (induction reqs) (auto simp: wantedBuffers_def)
  then have room: "unat (gStreamBufferId m) + wantedBuffers (map asParam ?v) < 2 ^ 64" using hbm_request.hyps(2) by linarith
  have reg: "(manager_step create)\<^sup>*\<^sup>* (alone m) (alone m2)" if "registerVndBuffers create (map asParam ?v) [] m = Inr (a, m2)" for a m2
    by (rule register_parts [OF hbm_request.prems room that])
  have param: "map (\<lambda>req. \<lparr>rpStream = bqStream req, rpNum = sint (bqNum req)\<rparr>) ?v = map asParam ?v" by (simp add: asParam_def)
  have fwk: "(manager_step create)\<^sup>*\<^sup>* (alone m) (alone m3)"
    if "(manager_step create)\<^sup>*\<^sup>* (alone m) (alone m2)" "requestFwkStreamBuffers fw [] m2 = Inr (x, m3)" for m2 m3 x
    using that(1) fwk_part [OF that(2)] by (rule rtranclp_trans)
  show ?case
    using hbm_request.hyps(3) reg
    unfolding requestStreamBuffers_def meet_known [OF hbm_request.hyps(1)] Let_def param
    by (auto simp: bindE_eq_Inr split: if_splits prod.splits intro: fwk fwk_part)
next
  case (hbm_return m sbs resumed rets m')
  show ?case
  proof (cases "mHasDeviceCallback m")
    case True
    obtain b m1 where w: "waitForCallback resumed m = (b, m1)" by fastforce
    have m1: "known m1 (map sbStream sbs)" using wait_ok [OF w] hbm_return.hyps(1) by (auto simp: known_def)
    have k: "known m1 (map sbStream (filter (\<lambda>sb. \<not> ownedByFramework m1 (sbStream sb)) sbs))" using m1 by (auto simp: known_def)
    show ?thesis
    proof (cases b)
      case False
      then show ?thesis using hbm_return.hyps(2) True w wait_part [OF w] by (simp add: returnStreamBuffers_def)
    next
      case b: True
      then obtain bs where "releaseBuffers (filter (\<lambda>sb. \<not> ownedByFramework m1 (sbStream sb)) sbs) m1 = Inr (bs, m')"
        using hbm_return.hyps(2) True w by (auto simp: returnStreamBuffers_def meet_known [OF m1] Let_def bindE_eq_Inr)
      from release_part [OF k this] wait_part [OF w] show ?thesis by (meson rtranclp_trans)
    qed
  qed (use hbm_return in \<open>simp add: returnStreamBuffers_def\<close>)
next
  case (pause m)
  then show ?case using manager_step.pause [of create "alone m"] by (simp add: r_into_rtranclp)
next
  case (set_callback m hasDevice)
  then show ?case using manager_step.set_callback [of create "alone m" hasDevice] by (simp add: r_into_rtranclp)
qed


subsection \<open>The start\<close>

definition infos_ok :: "MiBufferManager \<Rightarrow> bool" where
  "infos_ok m \<longleftrightarrow> sm_wf (mStreamInfoMap m) \<and> (\<forall>s i. sm_find (mStreamInfoMap m) s = Some i \<longrightarrow> stId (siStream i) = s) \<and>
     mBusyBufferMap m = [] \<and> mIdleBufferMap m = [] \<and> (mSupportAndroidHBM m \<longrightarrow> mHasDeviceCallback m)"

lemma infos_ok_build: "infos_ok m \<Longrightarrow> infos_ok (buildStreamInfo cap stream m)"
  by (auto simp: infos_ok_def buildStreamInfo_def sm_wf_insert split: option.splits if_splits)

lemma infos_ok_empty:
  "mStreamInfoMap m = [] \<Longrightarrow> mBusyBufferMap m = [] \<Longrightarrow> mIdleBufferMap m = [] \<Longrightarrow> (mSupportAndroidHBM m \<longrightarrow> mHasDeviceCallback m) \<Longrightarrow> infos_ok m"
  by (simp add: infos_ok_def)

lemma infos_ok_fold: "infos_ok m \<Longrightarrow> (\<And>x m. infos_ok m \<Longrightarrow> infos_ok (f x m)) \<Longrightarrow> infos_ok (fold f xs m)"
  by (induction xs arbitrary: m) auto

lemma infos_ok_new: "infos_ok (new_MiBufferManager cap nextId info)"
proof -
  have flag: "infos_ok (m\<lparr>mMemInfo := x\<rparr>) = infos_ok m" for m x by (simp add: infos_ok_def)
  show ?thesis
    unfolding new_MiBufferManager_def Let_def flag
    by (intro infos_ok_fold) (simp_all add: infos_ok_build infos_ok_empty)
qed

lemma infos_pools:
  assumes "infos_ok m"
  shows "pools_ok m"
proof -
  have "poolAt (poolOf p m) s b = None" for p s b using assms by (simp add: infos_ok_def poolOf_def poolAt_def)
  then show ?thesis by (intro pools_okI) (use assms in \<open>simp_all add: infos_ok_def pool_wf_def sm_index_def\<close>)
qed

definition buffers_start :: "MiBufferManager \<Rightarrow> bool" where
  "buffers_start m \<longleftrightarrow> (\<exists>cap nextId info. MiBufferManager_create cap nextId info = Some m)"

interpretation buffers: invariant_system "\<lambda>r. \<exists>m. buffers_start m \<and> r = alone m" "manager_step create" run_ok for create
proof (unfold_locales)
  show "run_ok r" if "\<exists>m. buffers_start m \<and> r = alone m" for r
    using that infos_pools [OF infos_ok_new] by (auto simp: buffers_start_def MiBufferManager_create_def split: if_splits)
  show "run_ok t" if "run_ok s" "manager_step create s t" for s t
    using manager_step_ok [OF that(2,1)] .
qed

text \<open>C34: In every interleaving of the locked parts of requests, returns and callback changes in which at most one request at a time is
  between finding an idle buffer and moving it (the code releases the lock there; \<open>two_takers\<close> shows the other case): a buffer is never
  in two places, neither busy for two streams nor busy and idle, and it stands under its own stream and identity; a stream keeps no more
  idle buffers than its capacity.  The request that moves the buffer it has found, or enters the one it has created, gets a buffer that
  was busy for nobody, and what was busy stays so.  A request for buffers of the vendor nobody comes between is answered without fault,
  with such buffers only, not more than asked for and each once.  A buffer that is given back leaves the busy ones, becomes idle exactly
  if the stream does not exceed its capacity, moves no other buffer, and what the callback is told then is the memory of the busy
  buffers.\<close>

theorem stream_pools:
  assumes "MiBufferManager_create cap nextId info = Some m0" and "(manager_step create)\<^sup>*\<^sup>* (alone m0) r" and "m = streamMgr r"
  shows "(\<forall>s t b. busyAt m s b \<noteq> None \<longrightarrow> idleAt m t b = None \<and> (busyAt m t b \<noteq> None \<longrightarrow> s = t)) \<and>
    (\<forall>s b x. busyAt m s b = Some x \<or> idleAt m s b = Some x \<longrightarrow> sbStream x = s \<and> sbId x = b \<and> b < gStreamBufferId m) \<and>
    (\<forall>s i. sm_find (mStreamInfoMap m) s = Some i \<longrightarrow> int (length (sm_index [] (mIdleBufferMap m) s)) \<le> max 0 (siCapacity i)) \<and>
    (\<forall>sb. chosen r = Some sb \<longrightarrow> taken m (moveToBusy sb m) sb \<and>
       busyAt (moveToBusy sb m) = (\<lambda>s b. if s = sbStream sb \<and> b = sbId sb then Some sb else busyAt m s b)) \<and>
    (\<forall>sb \<in> set (created r). \<exists>m'. enterBuffer sb m = Inr m' \<and> taken m m' sb \<and> memory_told m' \<and>
       busyAt m' = (\<lambda>s b. if s = sbStream sb \<and> b = sbId sb then Some sb else busyAt m s b)) \<and>
    (\<forall>reqs. unat (gStreamBufferId m) + wantedBuffers reqs < 2 ^ 64 \<longrightarrow>
       (\<exists>answer m'. registerVndBuffers create reqs [] m = Inr (answer, m') \<and> answer_ok m m' answer \<and> asked_for reqs [] answer \<and>
          (\<forall>s b x. busyAt m s b = Some x \<longrightarrow> busyAt m' s b = Some x))) \<and>
    (\<forall>sb x. busyAt m (sbStream sb) (sbId sb) = Some x \<longrightarrow>
       (\<exists>m' keep. releaseOne sb m = Inr m' \<and> memory_told m' \<and> (keep \<longleftrightarrow> isCapcityExceed (sbStream sb) m = Inr False) \<and>
          busyAt m' = (\<lambda>s b. if s = sbStream sb \<and> b = sbId sb then None else busyAt m s b) \<and>
          idleAt m' = (\<lambda>s b. if keep \<and> s = sbStream sb \<and> b = sbId sb then Some x else idleAt m s b)))"
proof -
  have run: "run_ok r" using buffers.reachable_inv [OF _ assms(2)] assms(1) by (auto simp: buffers_start_def)
  then have ok: "pools_ok m" by (simp add: run_ok_def assms(3))
  note D = pools_okD [OF ok]
  have busy: "poolAt (poolOf True m) s b = busyAt m s b" and idle: "poolAt (poolOf False m) s b = idleAt m s b" for s b
    by (simp_all add: busyAt_def idleAt_def)
  show ?thesis
  proof (intro conjI allI impI ballI)
    show "idleAt m t b = None" if "busyAt m s b \<noteq> None" for s t b
      using that D(5) [of True s b _ False t] unfolding busy idle by (cases "idleAt m t b") auto
    show "s = t" if "busyAt m s b \<noteq> None" "busyAt m t b \<noteq> None" for s t b
      using that D(5) [of True s b _ True t] unfolding busy by auto
    show "sbStream x = s" "sbId x = b" "b < gStreamBufferId m" if "busyAt m s b = Some x \<or> idleAt m s b = Some x" for s b x
      using that D(4) [of True s b x] D(4) [of False s b x] unfolding busy idle by blast+
    show "int (length (sm_index [] (mIdleBufferMap m) s)) \<le> max 0 (siCapacity i)" if "sm_find (mStreamInfoMap m) s = Some i" for s i
      using D(7) [OF that] .
    show "taken m (moveToBusy sb m) sb"
      "busyAt (moveToBusy sb m) = (\<lambda>s b. if s = sbStream sb \<and> b = sbId sb then Some sb else busyAt m s b)" if "chosen r = Some sb" for sb
    proof -
      have x: "idleAt m (sbStream sb) (sbId sb) = Some sb" using run that by (simp add: run_ok_def assms(3))
      have "sbBuffer sb \<noteq> None" using D(4) [of False "sbStream sb" "sbId sb" sb] x unfolding idle by blast
      then show "taken m (moveToBusy sb m) sb"
        "busyAt (moveToBusy sb m) = (\<lambda>s b. if s = sbStream sb \<and> b = sbId sb then Some sb else busyAt m s b)"
        using moveToBusy_ok [OF ok x] by (simp_all add: taken_def)
    qed
    show "\<exists>m'. enterBuffer sb m = Inr m' \<and> taken m m' sb \<and> memory_told m' \<and>
       busyAt m' = (\<lambda>s b. if s = sbStream sb \<and> b = sbId sb then Some sb else busyAt m s b)" if "sb \<in> set (created r)" for sb
    proof -
      have "created_ok m sb" using run that by (simp add: run_ok_def assms(3))
      then have c: "sbBuffer sb \<noteq> None" "sbId sb < gStreamBufferId m" "sm_find (mStreamInfoMap m) (sbStream sb) \<noteq> None"
        "\<And>s. busyAt m s (sbId sb) = None" "\<And>s. idleAt m s (sbId sb) = None" by (simp_all add: created_ok_def)
      obtain m' where "enterBuffer sb m = Inr m'" "memory_told m'"
        "busyAt m' = (\<lambda>s b. if s = sbStream sb \<and> b = sbId sb then Some sb else busyAt m s b)" using enter_ok [OF ok c] by blast
      moreover from this have "taken m m' sb" using c by (simp add: taken_def)
      ultimately show ?thesis by blast
    qed
    show "\<exists>answer m'. registerVndBuffers create reqs [] m = Inr (answer, m') \<and> answer_ok m m' answer \<and> asked_for reqs [] answer \<and>
        (\<forall>s b x. busyAt m s b = Some x \<longrightarrow> busyAt m' s b = Some x)"
      if "unat (gStreamBufferId m) + wantedBuffers reqs < 2 ^ 64" for reqs
      using register_from_nothing [OF ok that, of create] unfolding grows_def by blast
    show "\<exists>m' keep. releaseOne sb m = Inr m' \<and> memory_told m' \<and> (keep \<longleftrightarrow> isCapcityExceed (sbStream sb) m = Inr False) \<and>
          busyAt m' = (\<lambda>s b. if s = sbStream sb \<and> b = sbId sb then None else busyAt m s b) \<and>
          idleAt m' = (\<lambda>s b. if keep \<and> s = sbStream sb \<and> b = sbId sb then Some x else idleAt m s b)"
      if x: "busyAt m (sbStream sb) (sbId sb) = Some x" for sb x
      using releaseOne_ok [OF ok, of sb] unfolding x option.case by blast
  qed
qed

definition one_stream :: BufferMgrCreateInfo where
  "one_stream = \<lparr>fwkStreams = [], vendorStreams = [\<lparr>stId = 20011, stOutput = True, stWidth = 8, stHeight = 8, stUsage = 0, stFormat = 17, stBufferSize = 0\<rparr>],
     infoAndroidHBM = False, infoCoreHBM = False, infoHasCallback = True, infoHasDevice = False\<rparr>"

definition one_image :: image_creator where
  "one_image stream i = Some \<lparr>bufAddress = 1, getBufSize = 96\<rparr>"

definition one_taken :: MiBufferManager where
  "one_taken = (case requestBuffers one_image \<lparr>fwResumed = True, fwAnswers = []\<rparr> [\<lparr>rpStream = 20011, rpNum = 1\<rparr>] (new_MiBufferManager 2 7 one_stream) of
     Inr (_, m) \<Rightarrow> m | Inl _ \<Rightarrow> new_MiBufferManager 2 7 one_stream)"

theorem stream_pools_witness:
  "\<exists>m'. MiBufferManager_create 2 7 one_stream = Some (new_MiBufferManager 2 7 one_stream) \<and>
     (manager_step one_image)\<^sup>*\<^sup>* (alone (new_MiBufferManager 2 7 one_stream)) (alone one_taken) \<and>
     releaseOne \<lparr>sbStream = 20011, sbId = 7, sbBuffer = None\<rparr> one_taken = Inr m' \<and>
     busyAt m' 20011 7 = None \<and> idleAt m' 20011 7 \<noteq> None \<and> memory_told m'"
proof -
  let ?m = "new_MiBufferManager 2 7 one_stream"
  let ?sb = "\<lparr>sbStream = 20011, sbId = 7, sbBuffer = None\<rparr> :: StreamBuffer"
  have create: "MiBufferManager_create 2 7 one_stream = Some ?m" by (simp add: MiBufferManager_create_def one_stream_def)
  let ?r = "requestBuffers one_image \<lparr>fwResumed = True, fwAnswers = []\<rparr> [\<lparr>rpStream = 20011, rpNum = 1\<rparr>] ?m"
  have "case ?r of Inr _ \<Rightarrow> True | Inl _ \<Rightarrow> False" by code_simp
  then obtain a where "?r = Inr (a, one_taken)" unfolding one_taken_def by (auto split: sum.splits)
  moreover have "gStreamBufferId ?m = 7" by code_simp
  then have "unat (gStreamBufferId ?m) + wantedBuffers [\<lparr>rpStream = 20011, rpNum = 1\<rparr>] < 2 ^ 64" by (simp add: wantedBuffers_def)
  ultimately have "buffers_call one_image ?m one_taken" by (blast intro: buffers_call.request)
  moreover have "pools_ok ?m" by (rule infos_pools [OF infos_ok_new])
  ultimately have run: "(manager_step one_image)\<^sup>*\<^sup>* (alone ?m) (alone one_taken)" by (rule call_parts)
  have "busyAt one_taken 20011 7 = Some \<lparr>sbStream = 20011, sbId = 7, sbBuffer = Some \<lparr>bufAddress = 1, getBufSize = 96\<rparr>\<rparr>" by code_simp
  moreover have "isCapcityExceed 20011 one_taken = Inr False" by code_simp
  ultimately obtain m' where "releaseOne ?sb one_taken = Inr m'" "memory_told m'" "busyAt m' 20011 7 = None" "idleAt m' 20011 7 \<noteq> None"
    using stream_pools [OF create run, THEN conjunct2, THEN conjunct2, THEN conjunct2, THEN conjunct2, THEN conjunct2, THEN conjunct2,
        OF alone_simps(1) [symmetric], rule_format, of ?sb] by auto
  then show ?thesis using create run by blast
qed

text \<open>
  Between the look at the idle buffers and the move nothing is locked: of two calls that have seen the
  same idle buffer the second puts an empty item in the place of the buffer.
\<close>

lemma two_takers:
  assumes ok: "pools_ok m" and x: "idleAt m s b = Some x"
  shows "busyAt (moveToBusy x (moveToBusy x m)) s b = Some default_item"
proof -
  note M = moveToBusy_ok [OF ok x]
  have x': "sbStream x = s" "sbId x = b" using M by blast+
  have "poolAt (mIdleBufferMap (moveToBusy x m)) s b = None"
    using pools_okD(2) [OF ok] by (simp add: moveToBusy_def Let_def x' poolAt_drop)
  then have "poolGet (mIdleBufferMap (moveToBusy x m)) s b = default_item"
    by (simp add: poolGet_def poolAt_index sm_index_def)
  then show ?thesis by (simp add: busyAt_def moveToBusy_def [of x "moveToBusy x m"] Let_def x' poolAt_put)
qed

end
