(* ===== verification/DeviceQueue.thy ===== *)
theory DeviceQueue
  imports MiaPrelude
begin

text \<open>
  The byte queues of the device library the plugins carry (\<^verbatim>\<open>odm/plugins/qcom/ldc/device/dev_queue.cpp\<close>,
  the same file in every plugin): a ring of bytes in one block, written and read in pieces, by
  value or through pointers into the block, and the table of the queues.  Sizes and indices are
  64-bit and stay far from their ends; the count of unread bytes is an atomic \<open>int\<close> and wraps as
  one.  The answers of the allocator and the variables the clients keep identities in are part of
  the arguments and the state.
\<close>

abbreviation (input) RET_OK :: int where "RET_OK \<equiv> 0"
abbreviation (input) RET_ERR :: int where "RET_ERR \<equiv> - 1"
abbreviation (input) RET_ERR_ARG :: int where "RET_ERR_ARG \<equiv> - 2"
abbreviation (input) RET_CONTINUE :: int where "RET_CONTINUE \<equiv> - 5"
abbreviation MSG_QUEUE_MAX_NUM :: nat where "MSG_QUEUE_MAX_NUM \<equiv> 256"

record Queue_node =
  queueOwner :: "nat option"
  queueData :: "u8 list option"
  queueSize :: int
  atomic_unreadSize :: int
  writeIndex :: int
  activeWriteSize :: int
  readIndex :: int
  activeReadSize :: int

text \<open>\<open>fetch_add\<close> on an atomic \<open>int\<close>.\<close>

definition addUnread :: "int \<Rightarrow> Queue_node \<Rightarrow> Queue_node" where
  "addUnread n q = q\<lparr>atomic_unreadSize := sint (word_of_int (atomic_unreadSize q + n) :: u32)\<rparr>"

text \<open>\<open>memcpy\<close> into and out of the block.\<close>

definition storeBytes :: "int \<Rightarrow> u8 list \<Rightarrow> u8 list \<Rightarrow> u8 list outcome" where
  "storeBytes i bs block =
     (if 0 \<le> i \<and> nat i + length bs \<le> length block then Inr (take (nat i) block @ bs @ drop (nat i + length bs) block) else Inl BadIndex)"

definition loadBytes :: "int \<Rightarrow> int \<Rightarrow> u8 list \<Rightarrow> u8 list outcome" where
  "loadBytes i n block =
     (if 0 \<le> i \<and> 0 \<le> n \<and> nat i + nat n \<le> length block then Inr (take (nat n) (drop (nat i) block)) else Inl BadIndex)"

definition moveWrite :: "int \<Rightarrow> Queue_node \<Rightarrow> Queue_node" where
  "moveWrite n q = (let w = writeIndex q + n in q\<lparr>writeIndex := (if w = queueSize q then 0 else w)\<rparr>)"

definition moveRead :: "int \<Rightarrow> Queue_node \<Rightarrow> Queue_node" where
  "moveRead n q = (let r = readIndex q + n in q\<lparr>readIndex := (if r = queueSize q then 0 else r)\<rparr>)"

subsection \<open>Through pointers\<close>

text \<open>
  The result is what is returned and what is stored through \<open>ptr\<close>: nothing, \<open>NULL\<close> or a place in the
  block.
\<close>

definition getWritePtr :: "bool \<Rightarrow> int \<Rightarrow> Queue_node \<Rightarrow> (int \<times> int option option) \<times> Queue_node" where
  "getWritePtr ptr n q =
     (if \<not> ptr then ((0, None), q)
      else if activeWriteSize q \<noteq> 0 then ((0, None), q)
      else let area = min (queueSize q - writeIndex q) (min (queueSize q - atomic_unreadSize q) n)
           in if queueData q = None then ((0, None), q)
              else if area = 0 then ((0, Some None), q)
              else ((area, Some (Some (writeIndex q))), q\<lparr>activeWriteSize := area\<rparr>))"

definition markWriteDone :: "Queue_node \<Rightarrow> int \<times> Queue_node" where
  "markWriteDone q =
     (if activeWriteSize q = 0 then (RET_CONTINUE, q)
      else (RET_OK, (addUnread (activeWriteSize q) (moveWrite (activeWriteSize q) q))\<lparr>activeWriteSize := 0\<rparr>))"

definition getReadPtr :: "bool \<Rightarrow> int \<Rightarrow> Queue_node \<Rightarrow> (int \<times> int option option) \<times> Queue_node" where
  "getReadPtr ptr n q =
     (if \<not> ptr then ((0, None), q)
      else if activeReadSize q \<noteq> 0 then ((0, None), q)
      else let area = min (queueSize q - readIndex q) (min (atomic_unreadSize q) n)
           in if queueData q = None then ((0, None), q)
              else if area = 0 then ((0, Some None), q)
              else ((area, Some (Some (readIndex q))), q\<lparr>activeReadSize := area\<rparr>))"

definition markReadDone :: "Queue_node \<Rightarrow> int \<times> Queue_node" where
  "markReadDone q =
     (if activeReadSize q = 0 then (RET_CONTINUE, q)
      else (RET_OK, (addUnread (- activeReadSize q) (moveRead (activeReadSize q) q))\<lparr>activeReadSize := 0\<rparr>))"

subsection \<open>By value\<close>

text \<open>The bytes of a value, the low ones first.\<close>

definition valueBytes :: "nat \<Rightarrow> u64 \<Rightarrow> u8 list" where
  "valueBytes k v = map (\<lambda>i. ucast (drop_bit (8 * i) v)) [0..<k]"

fun bytesValue :: "u8 list \<Rightarrow> u64" where
  "bytesValue [] = 0"
| "bytesValue (b # bs) = ucast b OR push_bit 8 (bytesValue bs)"

definition pushNBit :: "u8 list \<Rightarrow> Queue_node \<Rightarrow> (int \<times> Queue_node) outcome" where
  "pushNBit bs q =
     (if queueSize q - atomic_unreadSize q < int (length bs) then Inr (RET_ERR, q)
      else case queueData q of
             None \<Rightarrow> Inl NullDeref
           | Some block \<Rightarrow> bindE (storeBytes (writeIndex q) bs block) (\<lambda>block'.
               Inr (RET_OK, moveWrite (int (length bs)) (addUnread (int (length bs)) (q\<lparr>queueData := Some block'\<rparr>)))))"

definition popNBit :: "nat \<Rightarrow> Queue_node \<Rightarrow> ((int \<times> u8 list option) \<times> Queue_node) outcome" where
  "popNBit k q =
     (if atomic_unreadSize q < int k then Inr ((RET_ERR, None), q)
      else case queueData q of
             None \<Rightarrow> Inl NullDeref
           | Some block \<Rightarrow> bindE (loadBytes (readIndex q) (int k) block) (\<lambda>bs.
               Inr ((RET_OK, Some bs), moveRead (int k) (addUnread (- int k) q))))"

definition writeBytes :: "u8 list \<Rightarrow> Queue_node \<Rightarrow> (int \<times> Queue_node) outcome" where
  "writeBytes bs q =
     (case queueData q of
        None \<Rightarrow> Inr (0, q)
      | Some block \<Rightarrow>
          if queueSize q - atomic_unreadSize q < int (length bs) then Inr (0, q)
          else bindE (storeBytes (writeIndex q) bs block) (\<lambda>block'.
                 Inr (int (length bs), moveWrite (int (length bs)) (addUnread (int (length bs)) (q\<lparr>queueData := Some block'\<rparr>)))))"

definition readBytes :: "int \<Rightarrow> Queue_node \<Rightarrow> ((int \<times> u8 list) \<times> Queue_node) outcome" where
  "readBytes n q =
     (case queueData q of
        None \<Rightarrow> Inr ((0, []), q)
      | Some block \<Rightarrow>
          if atomic_unreadSize q = 0 then Inr ((0, []), q)
          else let readSize = (if atomic_unreadSize q < n then atomic_unreadSize q else n)
               in bindE (loadBytes (readIndex q) readSize block) (\<lambda>bs.
                    Inr ((readSize, bs), moveRead readSize (addUnread (- readSize) q))))"

definition available :: "Queue_node \<Rightarrow> int" where
  "available q = (if queueSize q - atomic_unreadSize q > 0 then queueSize q - atomic_unreadSize q else 0)"

definition contigAvailable :: "Queue_node \<Rightarrow> int" where
  "contigAvailable q =
     (if writeIndex q > readIndex q then max (queueSize q - writeIndex q) (readIndex q)
      else if writeIndex q < readIndex q then readIndex q - writeIndex q
      else queueSize q - atomic_unreadSize q)"

definition cleanQueue :: "Queue_node \<Rightarrow> Queue_node outcome" where
  "cleanQueue q =
     (case queueData q of
        None \<Rightarrow> Inl NullDeref
      | Some block \<Rightarrow>
          if queueSize q < 0 \<or> int (length block) < queueSize q then Inl BadIndex
          else Inr (q\<lparr>atomic_unreadSize := 0, readIndex := 0, writeIndex := 0, activeReadSize := 0, activeWriteSize := 0,
                      queueData := Some (replicate (nat (queueSize q)) 0 @ drop (nat (queueSize q)) block)\<rparr>))"

subsection \<open>The table of the queues\<close>

text \<open>\<open>Freed\<close>: the entry still points to a node that was given back.\<close>

datatype queue_slot = NoQueue | Queue Queue_node | Freed

text \<open>\<open>clientIds\<close> are the variables identities are stored in, by address.\<close>

record DevQueues =
  queueInit :: bool
  m_queue_p_list :: "queue_slot list"
  clientIds :: "nat \<Rightarrow> int"
  m_mutex_locked :: bool

definition onQueue :: "int \<Rightarrow> 'r \<Rightarrow> (Queue_node \<Rightarrow> ('r \<times> Queue_node) outcome) \<Rightarrow> DevQueues \<Rightarrow> ('r \<times> DevQueues) outcome" where
  "onQueue i err f s =
     (if \<not> queueInit s then Inr (err, s)
      else if i < 0 \<or> i \<ge> int (length (m_queue_p_list s)) then Inl BadIndex
      else case m_queue_p_list s ! nat i of
             NoQueue \<Rightarrow> Inr (err, s)
           | Freed \<Rightarrow> Inl BadFree
           | Queue q \<Rightarrow> bindE (f q) (\<lambda>(r, q'). Inr (r, s\<lparr>m_queue_p_list := (m_queue_p_list s)[nat i := Queue q']\<rparr>)))"

definition DevQueue_Empty :: "int \<Rightarrow> DevQueues \<Rightarrow> (bool \<times> DevQueues) outcome" where
  "DevQueue_Empty i = onQueue i True (\<lambda>q. Inr (atomic_unreadSize q = 0, q))"

definition DevQueue_Full :: "int \<Rightarrow> DevQueues \<Rightarrow> (bool \<times> DevQueues) outcome" where
  "DevQueue_Full i = onQueue i True (\<lambda>q. Inr (atomic_unreadSize q = queueSize q, q))"

definition DevQueue_GetWritePtr :: "int \<Rightarrow> bool \<Rightarrow> int \<Rightarrow> DevQueues \<Rightarrow> ((int \<times> int option option) \<times> DevQueues) outcome" where
  "DevQueue_GetWritePtr i ptr n = onQueue i (0, None) (\<lambda>q. Inr (getWritePtr ptr n q))"

definition DevQueue_MarkWriteDone :: "int \<Rightarrow> DevQueues \<Rightarrow> (int \<times> DevQueues) outcome" where
  "DevQueue_MarkWriteDone i = onQueue i RET_ERR (\<lambda>q. Inr (markWriteDone q))"

definition DevQueue_GetReadPtr :: "int \<Rightarrow> bool \<Rightarrow> int \<Rightarrow> DevQueues \<Rightarrow> ((int \<times> int option option) \<times> DevQueues) outcome" where
  "DevQueue_GetReadPtr i ptr n = onQueue i (0, None) (\<lambda>q. Inr (getReadPtr ptr n q))"

definition DevQueue_MarkReadDone :: "int \<Rightarrow> DevQueues \<Rightarrow> (int \<times> DevQueues) outcome" where
  "DevQueue_MarkReadDone i = onQueue i RET_ERR (\<lambda>q. Inr (markReadDone q))"

definition DevQueue_Write8Bit :: "int \<Rightarrow> u8 \<Rightarrow> DevQueues \<Rightarrow> (int \<times> DevQueues) outcome" where
  "DevQueue_Write8Bit i v = onQueue i RET_ERR (pushNBit (valueBytes 1 (ucast v)))"

definition DevQueue_Write16Bit :: "int \<Rightarrow> u16 \<Rightarrow> DevQueues \<Rightarrow> (int \<times> DevQueues) outcome" where
  "DevQueue_Write16Bit i v = onQueue i RET_ERR (pushNBit (valueBytes 2 (ucast v)))"

definition DevQueue_Write32Bit :: "int \<Rightarrow> u32 \<Rightarrow> DevQueues \<Rightarrow> (int \<times> DevQueues) outcome" where
  "DevQueue_Write32Bit i v = onQueue i RET_ERR (pushNBit (valueBytes 4 (ucast v)))"

definition DevQueue_Write64Bit :: "int \<Rightarrow> u64 \<Rightarrow> DevQueues \<Rightarrow> (int \<times> DevQueues) outcome" where
  "DevQueue_Write64Bit i v = onQueue i RET_ERR (pushNBit (valueBytes 8 v))"

definition DevQueue_Write :: "int \<Rightarrow> u8 list option \<Rightarrow> DevQueues \<Rightarrow> (int \<times> DevQueues) outcome" where
  "DevQueue_Write i bytes s =
     (if \<not> queueInit s then Inr (0, s)
      else case bytes of None \<Rightarrow> Inr (RET_ERR_ARG, s) | Some bs \<Rightarrow> onQueue i 0 (writeBytes bs) s)"

text \<open>\<open>out\<close>: there is a place for the value.\<close>

definition readNBit :: "nat \<Rightarrow> int \<Rightarrow> bool \<Rightarrow> DevQueues \<Rightarrow> ((int \<times> u8 list option) \<times> DevQueues) outcome" where
  "readNBit k i out s =
     (if \<not> queueInit s then Inr ((RET_ERR, None), s)
      else if \<not> out then Inr ((RET_ERR_ARG, None), s)
      else onQueue i (RET_ERR, None) (popNBit k) s)"

definition DevQueue_Read8Bit :: "int \<Rightarrow> bool \<Rightarrow> DevQueues \<Rightarrow> ((int \<times> u8 option) \<times> DevQueues) outcome" where
  "DevQueue_Read8Bit i out s = bindE (readNBit 1 i out s) (\<lambda>((r, bs), s'). Inr ((r, map_option (\<lambda>bs. ucast (bytesValue bs)) bs), s'))"

definition DevQueue_Read16Bit :: "int \<Rightarrow> bool \<Rightarrow> DevQueues \<Rightarrow> ((int \<times> u16 option) \<times> DevQueues) outcome" where
  "DevQueue_Read16Bit i out s = bindE (readNBit 2 i out s) (\<lambda>((r, bs), s'). Inr ((r, map_option (\<lambda>bs. ucast (bytesValue bs)) bs), s'))"

definition DevQueue_Read32Bit :: "int \<Rightarrow> bool \<Rightarrow> DevQueues \<Rightarrow> ((int \<times> u32 option) \<times> DevQueues) outcome" where
  "DevQueue_Read32Bit i out s = bindE (readNBit 4 i out s) (\<lambda>((r, bs), s'). Inr ((r, map_option (\<lambda>bs. ucast (bytesValue bs)) bs), s'))"

definition DevQueue_Read64Bit :: "int \<Rightarrow> bool \<Rightarrow> DevQueues \<Rightarrow> ((int \<times> u64 option) \<times> DevQueues) outcome" where
  "DevQueue_Read64Bit i out s = bindE (readNBit 8 i out s) (\<lambda>((r, bs), s'). Inr ((r, map_option bytesValue bs), s'))"

definition DevQueue_Read :: "int \<Rightarrow> bool \<Rightarrow> int \<Rightarrow> DevQueues \<Rightarrow> ((int \<times> u8 list) \<times> DevQueues) outcome" where
  "DevQueue_Read i out n s = (if \<not> queueInit s \<or> \<not> out then Inr ((0, []), s) else onQueue i (0, []) (readBytes n) s)"

definition DevQueue_Count :: "int \<Rightarrow> DevQueues \<Rightarrow> (int \<times> DevQueues) outcome" where
  "DevQueue_Count i = onQueue i 0 (\<lambda>q. Inr (atomic_unreadSize q, q))"

definition DevQueue_Available :: "int \<Rightarrow> DevQueues \<Rightarrow> (int \<times> DevQueues) outcome" where
  "DevQueue_Available i = onQueue i 0 (\<lambda>q. Inr (available q, q))"

definition DevQueue_ContigAvailable :: "int \<Rightarrow> DevQueues \<Rightarrow> (int \<times> DevQueues) outcome" where
  "DevQueue_ContigAvailable i = onQueue i 0 (\<lambda>q. Inr (contigAvailable q, q))"

definition DevQueue_Clean :: "int \<Rightarrow> DevQueues \<Rightarrow> (int \<times> DevQueues) outcome" where
  "DevQueue_Clean i = onQueue i RET_ERR (\<lambda>q. bindE (cleanQueue q) (\<lambda>q'. Inr (RET_OK, q')))"

text \<open>The entry that already belongs to the variable, and the first one without a queue.\<close>

fun ownedBy :: "nat option \<Rightarrow> queue_slot list \<Rightarrow> bool outcome" where
  "ownedBy p [] = Inr False"
| "ownedBy p (NoQueue # rest) = ownedBy p rest"
| "ownedBy p (Freed # rest) = Inl BadFree"
| "ownedBy p (Queue q # rest) =
     (if queueOwner q \<noteq> None \<and> queueOwner q = p \<and> queueData q \<noteq> None then Inr True else ownedBy p rest)"

definition freeSlot :: "queue_slot list \<Rightarrow> nat option" where
  "freeSlot slots = List.find (\<lambda>i. slots ! i = NoQueue) [1..<length slots]"

text \<open>\<open>node\<close>: there is memory for the node, \<open>block\<close>: what the block holds if there is memory for it.\<close>

definition newQueue :: "nat option \<Rightarrow> u8 list option \<Rightarrow> int \<Rightarrow> Queue_node" where
  "newQueue pId block bytes =
     \<lparr>queueOwner = pId, queueData = block, queueSize = bytes, atomic_unreadSize = 0, writeIndex = 0,
      activeWriteSize = 0, readIndex = 0, activeReadSize = 0\<rparr>"

definition DevQueue_Create :: "bool \<Rightarrow> u8 list option \<Rightarrow> nat option \<Rightarrow> int \<Rightarrow> DevQueues \<Rightarrow> (int \<times> DevQueues) outcome" where
  "DevQueue_Create node block pId bytes s =
     (if \<not> queueInit s then Inr (0, s)
      else if m_mutex_locked s then Inl WouldBlock
      else bindE (ownedBy pId (tl (m_queue_p_list s))) (\<lambda>double.
             if double then Inr (RET_ERR, s)
             else case freeSlot (m_queue_p_list s) of
                    None \<Rightarrow> Inr (RET_ERR, s)
                  | Some i \<Rightarrow>
                      if \<not> node \<or> block = None then Inr (RET_ERR, s)
                      else case pId of
                             None \<Rightarrow> Inl NullDeref
                           | Some p \<Rightarrow>
                               Inr (RET_OK, s\<lparr>m_queue_p_list := (m_queue_p_list s)[i := Queue (newQueue pId block bytes)],
                                    clientIds := (clientIds s)(p := int i)\<rparr>)))"

text \<open>
  Destroying the queue with this identity; the result says whether the variable the identity was read
  from is set to 0.  The entry that is emptied is the one the owner's variable names then.
\<close>

definition destroyQueue :: "int \<Rightarrow> DevQueues \<Rightarrow> ((int \<times> bool) \<times> DevQueues) outcome" where
  "destroyQueue v s =
     (if v \<le> 0 \<or> v \<ge> int MSG_QUEUE_MAX_NUM then Inr ((RET_ERR, False), s)
      else if m_mutex_locked s then Inl WouldBlock
      else case m_queue_p_list s ! nat v of
             NoQueue \<Rightarrow> Inr ((RET_ERR, True), s)
           | Freed \<Rightarrow> Inl BadFree
           | Queue q \<Rightarrow>
               (case queueOwner q of
                  None \<Rightarrow> Inr ((RET_ERR, True), s)
                | Some p \<Rightarrow>
                    bindE (cleanQueue q) (\<lambda>q'.
                      let m_id = clientIds s p in
                      if m_id \<le> 0 \<or> m_id \<ge> int MSG_QUEUE_MAX_NUM
                      then Inr ((RET_ERR, False), s\<lparr>m_queue_p_list := (m_queue_p_list s)[nat v := Queue (q'\<lparr>queueSize := 0\<rparr>)],
                                                    m_mutex_locked := True\<rparr>)
                      else Inr ((RET_OK, True), s\<lparr>m_queue_p_list := (m_queue_p_list s)[nat v := Freed, nat m_id := NoQueue]\<rparr>))))"

definition DevQueue_Destroy :: "nat option \<Rightarrow> DevQueues \<Rightarrow> (int \<times> DevQueues) outcome" where
  "DevQueue_Destroy pId s =
     (if \<not> queueInit s then Inr (RET_OK, s)
      else case pId of
             None \<Rightarrow> Inr (RET_ERR, s)
           | Some p \<Rightarrow> bindE (destroyQueue (clientIds s p) s) (\<lambda>((ret, clear), s').
               Inr (ret, if clear then s'\<lparr>clientIds := (clientIds s')(p := 0)\<rparr> else s')))"

definition DevQueue_Init :: "bool \<Rightarrow> DevQueues \<Rightarrow> int \<times> DevQueues" where
  "DevQueue_Init mutex s =
     (if queueInit s then (RET_OK, s)
      else if \<not> mutex then (0, s)
      else (RET_OK, s\<lparr>m_queue_p_list := replicate MSG_QUEUE_MAX_NUM NoQueue, queueInit := True, m_mutex_locked := False\<rparr>))"

text \<open>The report takes the mutex and looks at every entry.\<close>

definition DevQueue_Report :: "DevQueues \<Rightarrow> (int \<times> DevQueues) outcome" where
  "DevQueue_Report s =
     (if \<not> queueInit s then Inr (RET_ERR, s)
      else if m_mutex_locked s then Inl WouldBlock
      else if Freed \<in> set (m_queue_p_list s) then Inl BadFree
      else Inr (RET_OK, s))"

fun destroyAll :: "nat list \<Rightarrow> DevQueues \<Rightarrow> DevQueues outcome" where
  "destroyAll [] s = Inr s"
| "destroyAll (i # rest) s = bindE (destroyQueue (int i) s) (\<lambda>(r, s'). destroyAll rest s')"

definition DevQueue_Deinit :: "DevQueues \<Rightarrow> (int \<times> DevQueues) outcome" where
  "DevQueue_Deinit s =
     (if \<not> queueInit s then Inr (RET_OK, s)
      else if Freed \<in> set (m_queue_p_list s) then Inl BadFree
      else let report = list_ex (\<lambda>slot. case slot of Queue q \<Rightarrow> queueOwner q \<noteq> None \<and> queueData q \<noteq> None | _ \<Rightarrow> False) (m_queue_p_list s)
           in bindE (if report then DevQueue_Report s else Inr (RET_OK, s)) (\<lambda>(_, s0).
              bindE (destroyAll [1..<MSG_QUEUE_MAX_NUM] s0) (\<lambda>s1.
                Inr (RET_OK, s1\<lparr>queueInit := False, m_queue_p_list := replicate MSG_QUEUE_MAX_NUM NoQueue, m_mutex_locked := False\<rparr>))))"


subsection \<open>What a queue holds\<close>

definition blockOf :: "Queue_node \<Rightarrow> u8 list" where
  "blockOf q = the (queueData q)"

text \<open>The unread bytes, the oldest first.\<close>

definition contents :: "Queue_node \<Rightarrow> u8 list" where
  "contents q = take (nat (atomic_unreadSize q)) (rotate (nat (readIndex q)) (blockOf q))"

definition queue_wf :: "Queue_node \<Rightarrow> bool" where
  "queue_wf q \<longleftrightarrow> queueData q \<noteq> None \<and> int (length (blockOf q)) = queueSize q \<and> 0 < queueSize q \<and> queueSize q < 2 ^ 31 \<and>
     0 \<le> atomic_unreadSize q \<and> atomic_unreadSize q \<le> queueSize q \<and> 0 \<le> readIndex q \<and> readIndex q < queueSize q \<and>
     writeIndex q = (readIndex q + atomic_unreadSize q) mod queueSize q \<and>
     0 \<le> activeWriteSize q \<and> activeWriteSize q \<le> queueSize q - atomic_unreadSize q \<and> writeIndex q + activeWriteSize q \<le> queueSize q \<and>
     0 \<le> activeReadSize q \<and> activeReadSize q \<le> atomic_unreadSize q \<and> readIndex q + activeReadSize q \<le> queueSize q"

lemma rotate_window:
  assumes "(r + u) mod length xs + k \<le> length xs" and "u + k \<le> length xs"
  shows "take k (drop u (rotate r xs)) = take k (drop ((r + u) mod length xs) xs)"
proof (rule nth_equalityI)
  show "take k (drop u (rotate r xs)) ! i = take k (drop ((r + u) mod length xs) xs) ! i" if "i < length (take k (drop u (rotate r xs)))" for i
  proof -
    have i: "i < k" "u + i < length xs" using that assms(2) by auto
    have "(r + (u + i)) mod length xs = ((r + u) mod length xs + i) mod length xs" by (simp add: mod_simps add.assoc)
    also have "\<dots> = (r + u) mod length xs + i" using i assms(1) by simp
    finally show ?thesis using i assms by (simp add: nth_rotate)
  qed
qed (use assms in simp)

lemma rotate_again:
  assumes "k \<le> u" and "u \<le> length xs"
  shows "take (u - k) (drop k (rotate r xs)) = take (u - k) (rotate ((r + k) mod length xs) xs)"
proof (rule nth_equalityI)
  show "take (u - k) (drop k (rotate r xs)) ! i = take (u - k) (rotate ((r + k) mod length xs) xs) ! i"
    if "i < length (take (u - k) (drop k (rotate r xs)))" for i
  proof -
    have i: "i < u - k" "k + i < length xs" using that assms by auto
    have "(r + (k + i)) mod length xs = ((r + k) mod length xs + i) mod length xs" by (simp add: mod_simps add.assoc)
    then show ?thesis using i assms by (simp add: nth_rotate)
  qed
qed (use assms in simp)

text \<open>Writing next to the unread bytes leaves them as they are.\<close>

lemma rotate_untouched:
  assumes "(r + u) mod length xs + k \<le> length xs" and "u + k \<le> length xs" and "j + length bs \<le> k" and "r < length xs"
  defines "w \<equiv> (r + u) mod length xs"
  shows "take u (rotate r (take (w + j) xs @ bs @ drop (w + j + length bs) xs)) = take u (rotate r xs)" (is "take u (rotate r ?ys) = _")
proof (rule nth_equalityI)
  have len: "length ?ys = length xs" using assms by simp
  show "take u (rotate r ?ys) ! i = take u (rotate r xs) ! i" if "i < length (take u (rotate r ?ys))" for i
  proof -
    have i: "i < u" "i < length xs" using that len by auto
    let ?m = "(r + i) mod length xs"
    have m: "?m < length xs" using i(2) by (intro mod_less_divisor) linarith
    have "?m < w + j \<or> w + j + length bs \<le> ?m"
    proof (rule ccontr)
      assume "\<not> ?thesis"
      then have t: "?m = w + (?m - w)" "?m - w < k" using assms(3) by linarith+
      define t where "t = ?m - w"
      have "w + t < length xs" using t(1) m unfolding t_def by simp
      then have "(r + u + t) mod length xs = w + t" using mod_add_left_eq [of "r + u" "length xs" t] unfolding w_def by simp
      then have "(r + (u + t)) mod length xs = (r + i) mod length xs" using t(1) by (simp add: t_def add.assoc)
      then have "length xs dvd (r + (u + t)) - (r + i)" using mod_eq_dvd_iff_nat [of "r + i" "r + (u + t)" "length xs"] i(1) by simp
      then have "length xs dvd u + t - i" by simp
      moreover have "0 < u + t - i" "u + t - i < length xs" using i t(2) assms(2) unfolding t_def by linarith+
      ultimately show False by (auto dest: dvd_imp_le)
    qed
    then have "?ys ! ?m = xs ! ?m" using m by (auto simp: nth_append)
    then show ?thesis using i len by (simp add: nth_rotate)
  qed
qed (use assms in simp)


lemma addUnread_small:
  assumes "0 \<le> atomic_unreadSize q + n" and "atomic_unreadSize q + n < 2 ^ 31"
  shows "addUnread n q = q\<lparr>atomic_unreadSize := atomic_unreadSize q + n\<rparr>"
  using sint_small [of "atomic_unreadSize q + n"] assms by (simp add: addUnread_def)

lemma queue_wf_nat:
  assumes "queue_wf q"
  defines "n \<equiv> length (blockOf q)" and "r \<equiv> nat (readIndex q)" and "u \<equiv> nat (atomic_unreadSize q)"
  shows "queueSize q = int n" "readIndex q = int r" "atomic_unreadSize q = int u" "0 < n" "r < n" "u \<le> n" "writeIndex q = int ((r + u) mod n)"
    "nat (writeIndex q) = (r + u) mod n"
proof -
  show *: "queueSize q = int n" "readIndex q = int r" "atomic_unreadSize q = int u" "0 < n" "r < n" "u \<le> n"
    using assms(1) unfolding queue_wf_def n_def r_def u_def by linarith+
  show "writeIndex q = int ((r + u) mod n)" using assms(1) * by (simp add: queue_wf_def of_nat_mod)
  then show "nat (writeIndex q) = (r + u) mod n" by simp
qed

lemma publish_ok:
  assumes wf: "queue_wf q" and k: "0 \<le> k" "k \<le> queueSize q - atomic_unreadSize q" "writeIndex q + k \<le> queueSize q"
  defines "q' \<equiv> (addUnread k (moveWrite k q))\<lparr>activeWriteSize := 0\<rparr>"
  shows "queue_wf q' \<and> contents q' = contents q @ take (nat k) (drop (nat (writeIndex q)) (blockOf q))"
proof -
  note N = queue_wf_nat [OF wf]
  let ?n = "length (blockOf q)" and ?r = "nat (readIndex q)" and ?u = "nat (atomic_unreadSize q)"
  have W: "0 \<le> atomic_unreadSize q" "queueSize q < 2 ^ 31" "0 < queueSize q" using wf by (simp_all add: queue_wf_def)
  have q': "q' = q\<lparr>writeIndex := (if writeIndex q + k = queueSize q then 0 else writeIndex q + k), atomic_unreadSize := atomic_unreadSize q + k,
      activeWriteSize := 0\<rparr>"
    using W k unfolding q'_def by (subst addUnread_small) (simp_all add: moveWrite_def Let_def)
  have "(if writeIndex q + k = queueSize q then 0 else writeIndex q + k) = (readIndex q + (atomic_unreadSize q + k)) mod queueSize q"
  proof -
    have "(readIndex q + (atomic_unreadSize q + k)) mod queueSize q = (writeIndex q + k) mod queueSize q"
      using wf by (simp add: queue_wf_def mod_simps add.assoc)
    moreover have "0 \<le> writeIndex q" using N(7) by simp
    ultimately show ?thesis using k W by simp
  qed
  moreover have "(readIndex q + (atomic_unreadSize q + k)) mod queueSize q \<le> queueSize q" using W by (simp add: less_imp_le)
  ultimately have wf': "queue_wf q'" using wf k unfolding q' by (simp add: queue_wf_def blockOf_def)
  have "contents q' = take (?u + nat k) (rotate ?r (blockOf q))" using W k by (simp add: contents_def q' blockOf_def nat_add_distrib)
  also have "\<dots> = contents q @ take (nat k) (drop ?u (rotate ?r (blockOf q)))" by (simp add: take_add contents_def)
  also have "take (nat k) (drop ?u (rotate ?r (blockOf q))) = take (nat k) (drop ((?r + ?u) mod ?n) (blockOf q))"
    using k N by (intro rotate_window) linarith+
  finally show ?thesis using wf' N(8) by simp
qed

lemma retire_ok:
  assumes wf: "queue_wf q" and k: "0 \<le> k" "k \<le> atomic_unreadSize q" "readIndex q + k \<le> queueSize q"
  defines "q' \<equiv> (addUnread (- k) (moveRead k q))\<lparr>activeReadSize := 0\<rparr>"
  shows "queue_wf q' \<and> contents q = take (nat k) (drop (nat (readIndex q)) (blockOf q)) @ contents q'"
proof -
  note N = queue_wf_nat [OF wf]
  let ?n = "length (blockOf q)" and ?r = "nat (readIndex q)" and ?u = "nat (atomic_unreadSize q)"
  have W: "atomic_unreadSize q \<le> queueSize q" "queueSize q < 2 ^ 31" "0 < queueSize q" using wf by (simp_all add: queue_wf_def)
  let ?r' = "if readIndex q + k = queueSize q then 0 else readIndex q + k"
  have q': "q' = q\<lparr>readIndex := ?r', atomic_unreadSize := atomic_unreadSize q - k, activeReadSize := 0\<rparr>"
    using W k unfolding q'_def by (subst addUnread_small) (simp_all add: moveRead_def Let_def)
  have r': "?r' = (readIndex q + k) mod queueSize q"
  proof (cases "readIndex q + k = queueSize q")
    case False
    then show ?thesis using k wf by (simp add: queue_wf_def mod_pos_pos_trivial)
  qed simp
  have "(?r' + (atomic_unreadSize q - k)) mod queueSize q = writeIndex q" using wf unfolding r' by (simp add: queue_wf_def mod_simps)
  then have wf': "queue_wf q'" using wf k unfolding q' by (auto simp: queue_wf_def blockOf_def)
  have c: "contents q' = take (?u - nat k) (rotate ((?r + nat k) mod ?n) (blockOf q))"
  proof -
    have "0 \<le> readIndex q" using wf by (simp add: queue_wf_def)
    then have "nat ((readIndex q + k) mod queueSize q) = (?r + nat k) mod nat (queueSize q)"
      using k W by (simp only: nat_mod_distrib nat_add_distrib add_nonneg_nonneg)
    then have "nat ?r' = (?r + nat k) mod nat (queueSize q)" unfolding r' .
    then have "nat ?r' = (?r + nat k) mod ?n" unfolding N(1) nat_int .
    then show ?thesis using k by (simp add: contents_def q' blockOf_def nat_diff_distrib')
  qed
  have "contents q = take (nat k) (rotate ?r (blockOf q)) @ take (?u - nat k) (drop (nat k) (rotate ?r (blockOf q)))"
    using take_add [of "nat k" "?u - nat k" "rotate ?r (blockOf q)"] k by (simp add: contents_def)
  also have "take (nat k) (rotate ?r (blockOf q)) = take (nat k) (drop ?r (blockOf q))"
    using rotate_window [of ?r 0 "blockOf q" "nat k"] k N by simp
  also have "take (?u - nat k) (drop (nat k) (rotate ?r (blockOf q))) = take (?u - nat k) (rotate ((?r + nat k) mod ?n) (blockOf q))"
    using k N by (intro rotate_again) linarith+
  finally show ?thesis using wf' c by simp
qed

lemma store_ok:
  assumes wf: "queue_wf q" and k: "writeIndex q + k \<le> queueSize q" "k \<le> queueSize q - atomic_unreadSize q"
    and j: "0 \<le> j" "j + int (length bs) \<le> k"
  shows "\<exists>block. storeBytes (writeIndex q + j) bs (blockOf q) = Inr block \<and> queue_wf (q\<lparr>queueData := Some block\<rparr>) \<and>
    contents (q\<lparr>queueData := Some block\<rparr>) = contents q \<and> take (length bs) (drop (nat (writeIndex q + j)) block) = bs"
proof -
  note N = queue_wf_nat [OF wf]
  let ?n = "length (blockOf q)" and ?r = "nat (readIndex q)" and ?u = "nat (atomic_unreadSize q)"
  let ?w = "(?r + ?u) mod ?n"
  let ?block = "take (?w + nat j) (blockOf q) @ bs @ drop (?w + nat j + length bs) (blockOf q)"
  have i: "nat (writeIndex q + j) = ?w + nat j" using N(7) j by (simp add: nat_add_distrib)
  have fits: "?w + nat j + length bs \<le> ?n" using N k j by linarith
  have "storeBytes (writeIndex q + j) bs (blockOf q) = Inr ?block" using N(7) j fits unfolding storeBytes_def i by simp
  moreover have "queue_wf (q\<lparr>queueData := Some ?block\<rparr>)" using wf fits by (simp add: queue_wf_def blockOf_def)
  moreover have "take ?u (rotate ?r ?block) = take ?u (rotate ?r (blockOf q))"
    using N k j by (intro rotate_untouched [of ?r ?u "blockOf q" "nat k"]) linarith+
  then have "contents (q\<lparr>queueData := Some ?block\<rparr>) = contents q" by (simp add: contents_def blockOf_def)
  moreover have "take (length bs) (drop (nat (writeIndex q + j)) ?block) = bs" using fits unfolding i by simp
  ultimately show ?thesis by blast
qed


lemma writeBytes_ok:
  assumes wf: "queue_wf q" and a: "activeWriteSize q = 0"
  shows "if queueSize q - atomic_unreadSize q < int (length bs) then writeBytes bs q = Inr (0, q) \<and> pushNBit bs q = Inr (RET_ERR, q)
    else if queueSize q < writeIndex q + int (length bs) then writeBytes bs q = Inl BadIndex \<and> pushNBit bs q = Inl BadIndex
    else \<exists>q'. writeBytes bs q = Inr (int (length bs), q') \<and> pushNBit bs q = Inr (RET_OK, q') \<and> queue_wf q' \<and>
      contents q' = contents q @ bs \<and> activeWriteSize q' = 0 \<and> queueSize q' = queueSize q \<and>
      writeIndex q' = (writeIndex q + int (length bs)) mod queueSize q \<and> readIndex q' = readIndex q"
proof -
  obtain block where b: "queueData q = Some block" "blockOf q = block" using wf by (auto simp: queue_wf_def blockOf_def)
  let ?k = "int (length bs)"
  show ?thesis
  proof (cases "queueSize q - atomic_unreadSize q < ?k")
    case True
    then show ?thesis using b by (simp add: writeBytes_def pushNBit_def)
  next
    case room: False
    note N = queue_wf_nat [OF wf]
    show ?thesis
    proof (cases "queueSize q < writeIndex q + ?k")
      case True
      then have "storeBytes (writeIndex q) bs block = Inl BadIndex" using N b(2) by (simp add: storeBytes_def)
      then show ?thesis using room True b by (simp add: writeBytes_def pushNBit_def)
    next
      case False
      obtain block' where s: "storeBytes (writeIndex q) bs block = Inr block'" "queue_wf (q\<lparr>queueData := Some block'\<rparr>)"
        "contents (q\<lparr>queueData := Some block'\<rparr>) = contents q" "take (length bs) (drop (nat (writeIndex q)) block') = bs"
        using store_ok [OF wf, of ?k 0 bs] room False b(2) by auto
      let ?q = "q\<lparr>queueData := Some block'\<rparr>"
      let ?q' = "moveWrite ?k (addUnread ?k ?q)"
      have same: "?q' = (addUnread ?k (moveWrite ?k ?q))\<lparr>activeWriteSize := 0\<rparr>"
        using a by (simp add: moveWrite_def addUnread_def Let_def)
      have p: "queue_wf ?q' \<and> contents ?q' = contents ?q @ take (nat ?k) (drop (nat (writeIndex ?q)) (blockOf ?q))"
        unfolding same by (rule publish_ok [OF s(2)]) (use room False in simp_all)
      have "contents ?q' = contents q @ bs" using p s(3,4) by (simp add: blockOf_def)
      moreover have "writeIndex ?q' = (writeIndex q + ?k) mod queueSize q"
      proof (cases "writeIndex q + ?k = queueSize q")
        case True
        then show ?thesis by (simp add: moveWrite_def addUnread_def Let_def)
      next
        case c: False
        have "0 \<le> writeIndex q" using N(7) by simp
        then have "(writeIndex q + ?k) mod queueSize q = writeIndex q + ?k" using False c by (intro mod_pos_pos_trivial) simp_all
        then show ?thesis using c by (simp add: moveWrite_def addUnread_def Let_def)
      qed
      moreover have "activeWriteSize ?q' = 0" "queueSize ?q' = queueSize q" "readIndex ?q' = readIndex q"
        using a by (simp_all add: moveWrite_def addUnread_def Let_def)
      moreover have "writeBytes bs q = Inr (?k, ?q')" "pushNBit bs q = Inr (RET_OK, ?q')"
        using room s(1) b(1) by (simp_all add: writeBytes_def pushNBit_def)
      ultimately show ?thesis using room False p by simp
    qed
  qed
qed

lemma load_ok:
  assumes wf: "queue_wf q" and a: "activeReadSize q = 0" and k: "0 \<le> k" "k \<le> atomic_unreadSize q"
  shows "if queueSize q < readIndex q + k then loadBytes (readIndex q) k (blockOf q) = Inl BadIndex
    else \<exists>bs. loadBytes (readIndex q) k (blockOf q) = Inr bs \<and> queue_wf (moveRead k (addUnread (- k) q)) \<and> length bs = nat k \<and>
      contents q = bs @ contents (moveRead k (addUnread (- k) q)) \<and> activeReadSize (moveRead k (addUnread (- k) q)) = 0 \<and>
      readIndex (moveRead k (addUnread (- k) q)) = (readIndex q + k) mod queueSize q"
proof (cases "queueSize q < readIndex q + k")
  case True
  then have "\<not> nat (readIndex q) + nat k \<le> length (blockOf q)" using queue_wf_nat(1,2) [OF wf] k by linarith
  then show ?thesis using True by (simp add: loadBytes_def)
next
  case False
  note N = queue_wf_nat [OF wf]
  let ?q' = "moveRead k (addUnread (- k) q)"
  have same: "?q' = (addUnread (- k) (moveRead k q))\<lparr>activeReadSize := 0\<rparr>" using a by (simp add: moveRead_def addUnread_def Let_def)
  have p: "queue_wf ?q' \<and> contents q = take (nat k) (drop (nat (readIndex q)) (blockOf q)) @ contents ?q'"
    unfolding same by (rule retire_ok [OF wf]) (use k False in simp_all)
  have "nat (readIndex q) + nat k \<le> length (blockOf q)" using N k False by linarith
  then have l: "loadBytes (readIndex q) k (blockOf q) = Inr (take (nat k) (drop (nat (readIndex q)) (blockOf q)))"
    "length (take (nat k) (drop (nat (readIndex q)) (blockOf q))) = nat k"
    using wf k by (simp_all add: loadBytes_def queue_wf_def)
  have i: "0 \<le> readIndex q" using wf by (simp add: queue_wf_def)
  have "readIndex ?q' = (readIndex q + k) mod queueSize q"
  proof (cases "readIndex q + k = queueSize q")
    case True
    then show ?thesis by (simp add: moveRead_def addUnread_def Let_def)
  next
    case c: False
    have "(readIndex q + k) mod queueSize q = readIndex q + k" using i False c k by (intro mod_pos_pos_trivial) simp_all
    then show ?thesis using c by (simp add: moveRead_def addUnread_def Let_def)
  qed
  moreover have "activeReadSize ?q' = 0" using a by (simp add: moveRead_def addUnread_def Let_def)
  ultimately show ?thesis using False p l by (simp only: if_False) blast
qed

subsection \<open>One writer, one reader\<close>

text \<open>
  A writer that works by value or through pointers, a reader likewise, in any interleaving; \<open>sent\<close> are
  the bytes whose writing is complete, \<open>got\<close> the ones taken out.  The writer fills its area piece by
  piece.
\<close>

record queue_run =
  runQueue :: Queue_node
  sent :: "u8 list"
  got :: "u8 list"

inductive queue_step :: "queue_run \<Rightarrow> queue_run \<Rightarrow> bool" where
  reserve: "0 < n \<Longrightarrow> getWritePtr True n (runQueue r) = (x, q') \<Longrightarrow> queue_step r (r\<lparr>runQueue := q'\<rparr>)"
| fill: "0 \<le> j \<Longrightarrow> j + int (length bs) \<le> activeWriteSize (runQueue r) \<Longrightarrow>
    storeBytes (writeIndex (runQueue r) + j) bs (blockOf (runQueue r)) = Inr block \<Longrightarrow>
    queue_step r (r\<lparr>runQueue := (runQueue r)\<lparr>queueData := Some block\<rparr>\<rparr>)"
| publish: "markWriteDone (runQueue r) = (ret, q') \<Longrightarrow>
    queue_step r (r\<lparr>runQueue := q', sent := sent r @
      take (nat (activeWriteSize (runQueue r))) (drop (nat (writeIndex (runQueue r))) (blockOf (runQueue r)))\<rparr>)"
| view: "0 < n \<Longrightarrow> getReadPtr True n (runQueue r) = (x, q') \<Longrightarrow> queue_step r (r\<lparr>runQueue := q'\<rparr>)"
| consume: "markReadDone (runQueue r) = (ret, q') \<Longrightarrow>
    queue_step r (r\<lparr>runQueue := q', got := got r @
      take (nat (activeReadSize (runQueue r))) (drop (nat (readIndex (runQueue r))) (blockOf (runQueue r)))\<rparr>)"
| write_in: "activeWriteSize (runQueue r) = 0 \<Longrightarrow> writeBytes bs (runQueue r) = Inr (n, q') \<Longrightarrow>
    queue_step r (r\<lparr>runQueue := q', sent := sent r @ take (nat n) bs\<rparr>)"
| push_in: "activeWriteSize (runQueue r) = 0 \<Longrightarrow> pushNBit bs (runQueue r) = Inr (ret, q') \<Longrightarrow>
    queue_step r (r\<lparr>runQueue := q', sent := sent r @ (if ret = RET_OK then bs else [])\<rparr>)"
| read_out: "activeReadSize (runQueue r) = 0 \<Longrightarrow> 0 \<le> n \<Longrightarrow> readBytes n (runQueue r) = Inr ((c, bs), q') \<Longrightarrow>
    queue_step r (r\<lparr>runQueue := q', got := got r @ bs\<rparr>)"
| pop_out: "activeReadSize (runQueue r) = 0 \<Longrightarrow> popNBit k (runQueue r) = Inr ((ret, out), q') \<Longrightarrow>
    queue_step r (r\<lparr>runQueue := q', got := got r @ (case out of None \<Rightarrow> [] | Some bs \<Rightarrow> bs)\<rparr>)"

definition queue_start :: "queue_run \<Rightarrow> bool" where
  "queue_start r \<longleftrightarrow> (\<exists>p block bytes. 0 < bytes \<and> bytes < 2 ^ 31 \<and> int (length block) = bytes \<and>
     r = \<lparr>runQueue = newQueue p (Some block) bytes, sent = [], got = []\<rparr>)"

definition queue_run_ok :: "queue_run \<Rightarrow> bool" where
  "queue_run_ok r \<longleftrightarrow> queue_wf (runQueue r) \<and> sent r = got r @ contents (runQueue r)"

lemma queue_wf_new:
  assumes "0 < bytes" and "bytes < 2 ^ 31" and "int (length block) = bytes"
  shows "queue_wf (newQueue p (Some block) bytes)" "contents (newQueue p (Some block) bytes) = []"
  using assms by (simp_all add: queue_wf_def newQueue_def blockOf_def contents_def)

lemma reserve_ok:
  assumes "queue_wf q" and "0 < n" and "getWritePtr True n q = (x, q')"
  shows "queue_wf q' \<and> contents q' = contents q \<and> blockOf q' = blockOf q \<and> activeReadSize q' = activeReadSize q"
proof -
  have "writeIndex q < queueSize q" using assms(1) by (simp add: queue_wf_def)
  then show ?thesis
    using assms by (auto simp: getWritePtr_def queue_wf_def contents_def blockOf_def Let_def split: if_splits)
qed

lemma view_ok:
  assumes "queue_wf q" and "0 < n" and "getReadPtr True n q = (x, q')"
  shows "queue_wf q' \<and> contents q' = contents q"
  using assms by (auto simp: getReadPtr_def queue_wf_def contents_def blockOf_def Let_def split: if_splits)

lemma queue_step_ok:
  assumes "queue_step r r'" and "queue_run_ok r"
  shows "queue_run_ok r'"
  using assms
proof (induction rule: queue_step.induct)
  case (reserve n r x q')
  then show ?case using reserve_ok [of "runQueue r" n x q'] by (simp add: queue_run_ok_def)
next
  case (fill j bs r block)
  have wf: "queue_wf (runQueue r)" using fill.prems by (simp add: queue_run_ok_def)
  have "writeIndex (runQueue r) + activeWriteSize (runQueue r) \<le> queueSize (runQueue r)"
    "activeWriteSize (runQueue r) \<le> queueSize (runQueue r) - atomic_unreadSize (runQueue r)" using wf by (simp_all add: queue_wf_def)
  from store_ok [OF wf this fill.hyps(1,2)] fill.hyps(3) fill.prems show ?case by (auto simp: queue_run_ok_def)
next
  case (publish r ret q')
  have wf: "queue_wf (runQueue r)" using publish.prems by (simp add: queue_run_ok_def)
  show ?case
  proof (cases "activeWriteSize (runQueue r) = 0")
    case True
    then show ?thesis using publish by (simp add: markWriteDone_def queue_run_ok_def)
  next
    case False
    have k: "0 \<le> activeWriteSize (runQueue r)" "activeWriteSize (runQueue r) \<le> queueSize (runQueue r) - atomic_unreadSize (runQueue r)"
      "writeIndex (runQueue r) + activeWriteSize (runQueue r) \<le> queueSize (runQueue r)" using wf by (simp_all add: queue_wf_def)
    show ?thesis using publish_ok [OF wf k] publish False by (auto simp: markWriteDone_def queue_run_ok_def)
  qed
next
  case (view n r x q')
  then show ?case using view_ok [of "runQueue r" n x q'] by (simp add: queue_run_ok_def)
next
  case (consume r ret q')
  have wf: "queue_wf (runQueue r)" using consume.prems by (simp add: queue_run_ok_def)
  show ?case
  proof (cases "activeReadSize (runQueue r) = 0")
    case True
    then show ?thesis using consume by (simp add: markReadDone_def queue_run_ok_def)
  next
    case False
    have k: "0 \<le> activeReadSize (runQueue r)" "activeReadSize (runQueue r) \<le> atomic_unreadSize (runQueue r)"
      "readIndex (runQueue r) + activeReadSize (runQueue r) \<le> queueSize (runQueue r)" using wf by (simp_all add: queue_wf_def)
    show ?thesis using retire_ok [OF wf k] consume False by (auto simp: markReadDone_def queue_run_ok_def)
  qed
next
  case (write_in r bs n q')
  have wf: "queue_wf (runQueue r)" using write_in.prems by (simp add: queue_run_ok_def)
  show ?case using writeBytes_ok [OF wf write_in.hyps(1), of bs] write_in.hyps(2) write_in.prems by (auto simp: queue_run_ok_def split: if_splits)
next
  case (push_in r bs ret q')
  have wf: "queue_wf (runQueue r)" using push_in.prems by (simp add: queue_run_ok_def)
  show ?case using writeBytes_ok [OF wf push_in.hyps(1), of bs] push_in.hyps(2) push_in.prems by (auto simp: queue_run_ok_def split: if_splits)
next
  case (read_out r n c bs q')
  have wf: "queue_wf (runQueue r)" using read_out.prems by (simp add: queue_run_ok_def)
  obtain block where b: "queueData (runQueue r) = Some block" "blockOf (runQueue r) = block" using wf by (auto simp: queue_wf_def blockOf_def)
  let ?n = "if atomic_unreadSize (runQueue r) < n then atomic_unreadSize (runQueue r) else n"
  have n: "0 \<le> ?n" "?n \<le> atomic_unreadSize (runQueue r)" using wf read_out.hyps(2) by (simp_all add: queue_wf_def)
  show ?case
    using load_ok [OF wf read_out.hyps(1) n] read_out.hyps(3) read_out.prems b
    by (auto simp: readBytes_def queue_run_ok_def bindE_eq_Inr Let_def split: if_splits)
next
  case (pop_out r k ret out q')
  have wf: "queue_wf (runQueue r)" using pop_out.prems by (simp add: queue_run_ok_def)
  obtain block where b: "queueData (runQueue r) = Some block" "blockOf (runQueue r) = block" using wf by (auto simp: queue_wf_def blockOf_def)
  show ?case
  proof (cases "atomic_unreadSize (runQueue r) < int k")
    case True
    then show ?thesis using pop_out by (simp add: popNBit_def queue_run_ok_def)
  next
    case False
    then show ?thesis using load_ok [OF wf pop_out.hyps(1), of "int k"] pop_out.hyps(2) pop_out.prems b
      by (auto simp: popNBit_def queue_run_ok_def bindE_eq_Inr split: if_splits)
  qed
qed

interpretation device_queue: invariant_system queue_start queue_step queue_run_ok
proof (unfold_locales)
  show "queue_run_ok r" if "queue_start r" for r
    using that queue_wf_new by (auto simp: queue_start_def queue_run_ok_def)
  show "queue_run_ok t" if "queue_run_ok s" "queue_step s t" for s t
    using queue_step_ok that by blast
qed


lemma area_unread:
  assumes wf: "queue_wf q" and a: "a \<le> queueSize q - atomic_unreadSize q" "writeIndex q + a \<le> queueSize q"
    and t: "0 \<le> t" "t < atomic_unreadSize q"
  shows "\<not> (writeIndex q \<le> (readIndex q + t) mod queueSize q \<and> (readIndex q + t) mod queueSize q < writeIndex q + a)"
proof
  assume in_area: "writeIndex q \<le> (readIndex q + t) mod queueSize q \<and> (readIndex q + t) mod queueSize q < writeIndex q + a"
  define d where "d = (readIndex q + t) mod queueSize q - writeIndex q"
  have d: "0 \<le> d" "d < a" using in_area by (simp_all add: d_def)
  have w: "writeIndex q = (readIndex q + atomic_unreadSize q) mod queueSize q" using wf by (simp add: queue_wf_def)
  have "(readIndex q + t) mod queueSize q = (writeIndex q + d) mod queueSize q" by (simp add: d_def)
  also have "\<dots> = (readIndex q + atomic_unreadSize q + d) mod queueSize q" unfolding w by (simp add: mod_simps)
  finally have "queueSize q dvd (readIndex q + atomic_unreadSize q + d) - (readIndex q + t)" by (metis mod_eq_dvd_iff)
  moreover have "(readIndex q + atomic_unreadSize q + d) - (readIndex q + t) = atomic_unreadSize q + d - t" by simp
  ultimately have "queueSize q dvd atomic_unreadSize q + d - t" by (simp only:)
  then have "queueSize q \<le> atomic_unreadSize q + d - t" using t d by (intro zdvd_imp_le) simp_all
  then show False using a(1) d t by linarith
qed

text \<open>What a writer and a reader without an area are given.\<close>

definition writer_served :: "Queue_node \<Rightarrow> bool" where
  "writer_served q \<longleftrightarrow> (\<forall>n > 0.
     if atomic_unreadSize q = queueSize q then getWritePtr True n q = ((0, Some None), q)
     else \<exists>a i q'. getWritePtr True n q = ((a, Some (Some i)), q') \<and> 0 < a \<and> a \<le> n \<and> 0 \<le> i \<and> i + a \<le> int (length (blockOf q)) \<and>
       (\<forall>t. 0 \<le> t \<and> t < atomic_unreadSize q \<longrightarrow> \<not> (i \<le> (readIndex q + t) mod queueSize q \<and> (readIndex q + t) mod queueSize q < i + a)))"

definition reader_served :: "Queue_node \<Rightarrow> bool" where
  "reader_served q \<longleftrightarrow> (\<forall>n > 0.
     if atomic_unreadSize q = 0 then getReadPtr True n q = ((0, Some None), q)
     else \<exists>a i q'. getReadPtr True n q = ((a, Some (Some i)), q') \<and> 0 < a \<and> a \<le> n \<and> 0 \<le> i \<and> i + a \<le> int (length (blockOf q)) \<and>
       take (nat a) (drop (nat i) (blockOf q)) = take (nat a) (contents q))"

lemma queue_wfD:
  assumes "queue_wf q"
  shows "queueData q \<noteq> None" "0 \<le> writeIndex q" "writeIndex q < queueSize q" "0 \<le> readIndex q" "readIndex q < queueSize q"
    "0 \<le> atomic_unreadSize q" "atomic_unreadSize q \<le> queueSize q" "int (length (blockOf q)) = queueSize q"
  using assms by (simp_all add: queue_wf_def)

lemma writer_served_ok:
  assumes wf: "queue_wf q" and a: "activeWriteSize q = 0"
  shows "writer_served q"
  unfolding writer_served_def
proof (intro allI impI)
  fix n :: int
  assume n: "0 < n"
  note W = queue_wfD [OF wf]
  let ?a = "min (queueSize q - writeIndex q) (min (queueSize q - atomic_unreadSize q) n)"
  show "if atomic_unreadSize q = queueSize q then getWritePtr True n q = ((0, Some None), q)
     else \<exists>a i q'. getWritePtr True n q = ((a, Some (Some i)), q') \<and> 0 < a \<and> a \<le> n \<and> 0 \<le> i \<and> i + a \<le> int (length (blockOf q)) \<and>
       (\<forall>t. 0 \<le> t \<and> t < atomic_unreadSize q \<longrightarrow> \<not> (i \<le> (readIndex q + t) mod queueSize q \<and> (readIndex q + t) mod queueSize q < i + a))"
  proof (cases "atomic_unreadSize q = queueSize q")
    case True
    then have "?a = 0" using W n by simp
    then show ?thesis using True a W by (simp add: getWritePtr_def)
  next
    case False
    then have pos: "0 < ?a" using W n by simp
    then have nz: "?a \<noteq> 0" by linarith
    have "getWritePtr True n q = ((?a, Some (Some (writeIndex q))), q\<lparr>activeWriteSize := ?a\<rparr>)"
      using a W nz by (simp add: getWritePtr_def Let_def)
    moreover have "\<forall>t. 0 \<le> t \<and> t < atomic_unreadSize q \<longrightarrow>
        \<not> (writeIndex q \<le> (readIndex q + t) mod queueSize q \<and> (readIndex q + t) mod queueSize q < writeIndex q + ?a)"
      using area_unread [OF wf, of ?a] by simp
    moreover have "writeIndex q + ?a \<le> int (length (blockOf q))" "?a \<le> n" using W by simp_all
    ultimately show ?thesis using False pos W(2) by (simp only: if_False) blast
  qed
qed

lemma reader_served_ok:
  assumes wf: "queue_wf q" and a: "activeReadSize q = 0"
  shows "reader_served q"
  unfolding reader_served_def
proof (intro allI impI)
  fix n :: int
  assume n: "0 < n"
  note W = queue_wfD [OF wf]
  let ?a = "min (queueSize q - readIndex q) (min (atomic_unreadSize q) n)"
  show "if atomic_unreadSize q = 0 then getReadPtr True n q = ((0, Some None), q)
     else \<exists>a i q'. getReadPtr True n q = ((a, Some (Some i)), q') \<and> 0 < a \<and> a \<le> n \<and> 0 \<le> i \<and> i + a \<le> int (length (blockOf q)) \<and>
       take (nat a) (drop (nat i) (blockOf q)) = take (nat a) (contents q)"
  proof (cases "atomic_unreadSize q = 0")
    case True
    then have "?a = 0" using W n by simp
    then show ?thesis using True a W by (simp add: getReadPtr_def)
  next
    case False
    then have pos: "0 < ?a" using W n by simp
    then have nz: "?a \<noteq> 0" by linarith
    have g: "getReadPtr True n q = ((?a, Some (Some (readIndex q))), q\<lparr>activeReadSize := ?a\<rparr>)"
      using a W nz by (simp add: getReadPtr_def Let_def)
    obtain rest where e: "contents q = take (nat ?a) (drop (nat (readIndex q)) (blockOf q)) @ rest"
      using retire_ok [OF wf, of ?a] pos by auto
    have "length (take (nat ?a) (drop (nat (readIndex q)) (blockOf q))) = nat ?a" using W by simp
    then have "take (nat ?a) (drop (nat (readIndex q)) (blockOf q)) = take (nat ?a) (contents q)" unfolding e by simp
    moreover have "readIndex q + ?a \<le> int (length (blockOf q))" "?a \<le> n" using W by simp_all
    ultimately show ?thesis using False pos W(4) g by (simp only: if_False) blast
  qed
qed

text \<open>C35: However a writer and a reader interleave, by value, through pointers or both, as long as nothing faults: the bytes read are the bytes
  written, in order, none lost and none twice, and those in the queue are as many as the count says.  A writer that has no area yet is
  given one exactly if the queue is not full; the area lies in the block and contains no unread byte.  A reader that has none is given one
  exactly if the queue is not empty, and it holds the oldest unread bytes.\<close>

theorem device_queue_fifo:
  assumes "queue_start r0" and "queue_step\<^sup>*\<^sup>* r0 r"
  shows "sent r = got r @ contents (runQueue r) \<and> int (length (contents (runQueue r))) = atomic_unreadSize (runQueue r) \<and>
    atomic_unreadSize (runQueue r) \<le> queueSize (runQueue r) \<and>
    (activeWriteSize (runQueue r) = 0 \<longrightarrow> writer_served (runQueue r)) \<and> (activeReadSize (runQueue r) = 0 \<longrightarrow> reader_served (runQueue r))"
proof -
  have ok: "queue_wf (runQueue r)" "sent r = got r @ contents (runQueue r)"
    using device_queue.reachable_inv [OF assms] by (simp_all add: queue_run_ok_def)
  then show ?thesis
    using queue_wfD [OF ok(1)] writer_served_ok reader_served_ok by (auto simp: contents_def min_def)
qed

definition small_queue :: queue_run where
  "small_queue = \<lparr>runQueue = newQueue (Some 0) (Some [0, 0, 0, 0]) 4, sent = [], got = []\<rparr>"

definition afterStep :: "(int \<times> Queue_node) outcome \<Rightarrow> Queue_node" where
  "afterStep out = (case out of Inr (_, q) \<Rightarrow> q | Inl _ \<Rightarrow> runQueue small_queue)"

definition three_in :: Queue_node where
  "three_in = afterStep (writeBytes [1, 2, 3] (runQueue small_queue))"

definition three_out :: Queue_node where
  "three_out = (case readBytes 3 three_in of Inr (_, q) \<Rightarrow> q | Inl _ \<Rightarrow> three_in)"

lemma small_queue_start: "queue_start small_queue"
  unfolding queue_start_def small_queue_def by (intro exI [of _ "Some 0"] exI [of _ "[0, 0, 0, 0]"] exI [of _ 4]) simp

lemma three_in_run: "queue_step\<^sup>*\<^sup>* small_queue (\<lparr>runQueue = three_in, sent = [1, 2, 3], got = []\<rparr>)"
proof -
  have "writeBytes [1, 2, 3] (runQueue small_queue) = Inr (3, three_in)" "activeWriteSize (runQueue small_queue) = 0"
    by code_simp+
  from queue_step.write_in [OF this(2,1)] show ?thesis by (auto simp: small_queue_def numeral_3_eq_3)
qed

lemma three_out_run: "queue_step\<^sup>*\<^sup>* small_queue (\<lparr>runQueue = three_out, sent = [1, 2, 3], got = [1, 2, 3]\<rparr>)"
proof -
  have "readBytes 3 three_in = Inr ((3, [1, 2, 3]), three_out)" "activeReadSize three_in = 0" by code_simp+
  then have "queue_step (\<lparr>runQueue = three_in, sent = [1, 2, 3], got = []\<rparr>)
      (\<lparr>runQueue = three_out, sent = [1, 2, 3], got = [1, 2, 3]\<rparr>)"
    using queue_step.read_out [of "\<lparr>runQueue = three_in, sent = [1, 2, 3], got = []\<rparr>" 3 3 "[1, 2, 3]" three_out] by simp
  with three_in_run show ?thesis by (rule rtranclp.rtrancl_into_rtrancl)
qed

theorem device_queue_fifo_witness:
  "queue_step\<^sup>*\<^sup>* small_queue (\<lparr>runQueue = three_in, sent = [1, 2, 3], got = []\<rparr>) \<and> contents three_in = [1, 2, 3] \<and>
     (\<exists>a i q'. getWritePtr True 2 three_in = ((a, Some (Some i)), q') \<and> 0 < a \<and> i + a \<le> 4)"
proof -
  note F = device_queue_fifo [OF small_queue_start three_in_run]
  have "activeWriteSize three_in = 0" "atomic_unreadSize three_in \<noteq> queueSize three_in" "length (blockOf three_in) = 4"
    by code_simp+
  then show ?thesis using F three_in_run by (auto simp: writer_served_def dest!: spec [of _ "2 :: int"])
qed


lemma readBytes_ok:
  assumes wf: "queue_wf q" and a: "activeReadSize q = 0" and n: "0 \<le> n"
  shows "is_ok (readBytes n q) \<longleftrightarrow> \<not> queueSize q < readIndex q + min n (atomic_unreadSize q)"
proof -
  have i: "0 \<le> readIndex q" "readIndex q < queueSize q" "0 \<le> atomic_unreadSize q" using queue_wfD [OF wf] by simp_all
  have "0 \<le> min n (atomic_unreadSize q)" "min n (atomic_unreadSize q) \<le> atomic_unreadSize q" using n i by simp_all
  note L = load_ok [OF wf a this]
  show ?thesis
  proof (cases "atomic_unreadSize q = 0")
    case True
    then show ?thesis using i n by (auto simp: readBytes_def is_ok_def min_def split: option.splits)
  next
    case False
    have "(if atomic_unreadSize q < n then atomic_unreadSize q else n) = min n (atomic_unreadSize q)" by simp
    then show ?thesis using L False wf
      by (auto simp: is_ok_def readBytes_def queue_wf_def blockOf_def Let_def split: if_splits)
  qed
qed

text \<open>C36: A transfer by value of a queue in any state it can reach goes past the end of the block exactly if it passes the check of the count
  but not the end: it is not split.  For a write or a push the count is what is free, for a pop what is unread, and a read is cut to what is
  unread first.  None of the four faults for another reason.\<close>

theorem device_queue_overruns:
  assumes "queue_start r0" and "queue_step\<^sup>*\<^sup>* r0 r"
  shows "(activeWriteSize (runQueue r) = 0 \<longrightarrow> (\<forall>bs.
       (is_ok (writeBytes bs (runQueue r)) \<longleftrightarrow> \<not> (int (length bs) \<le> queueSize (runQueue r) - atomic_unreadSize (runQueue r) \<and>
          queueSize (runQueue r) < writeIndex (runQueue r) + int (length bs))) \<and>
       (is_ok (pushNBit bs (runQueue r)) \<longleftrightarrow> is_ok (writeBytes bs (runQueue r))))) \<and>
    (activeReadSize (runQueue r) = 0 \<longrightarrow>
       (\<forall>k. is_ok (popNBit k (runQueue r)) \<longleftrightarrow> \<not> (int k \<le> atomic_unreadSize (runQueue r) \<and> queueSize (runQueue r) < readIndex (runQueue r) + int k)) \<and>
       (\<forall>n. 0 \<le> n \<longrightarrow> (is_ok (readBytes n (runQueue r)) \<longleftrightarrow>
          \<not> queueSize (runQueue r) < readIndex (runQueue r) + min n (atomic_unreadSize (runQueue r)))))"
proof (intro conjI impI allI)
  have wf: "queue_wf (runQueue r)" using device_queue.reachable_inv [OF assms] by (simp add: queue_run_ok_def)
  show "is_ok (writeBytes bs (runQueue r)) \<longleftrightarrow> \<not> (int (length bs) \<le> queueSize (runQueue r) - atomic_unreadSize (runQueue r) \<and>
      queueSize (runQueue r) < writeIndex (runQueue r) + int (length bs))"
    "is_ok (pushNBit bs (runQueue r)) \<longleftrightarrow> is_ok (writeBytes bs (runQueue r))"
    if "activeWriteSize (runQueue r) = 0" for bs
    using writeBytes_ok [OF wf that, of bs] by (auto simp: is_ok_def split: if_splits)
  show "is_ok (popNBit k (runQueue r)) \<longleftrightarrow> \<not> (int k \<le> atomic_unreadSize (runQueue r) \<and> queueSize (runQueue r) < readIndex (runQueue r) + int k)"
    if "activeReadSize (runQueue r) = 0" for k
    using load_ok [OF wf that, of "int k"] wf by (auto simp: is_ok_def popNBit_def queue_wf_def blockOf_def split: if_splits)
  show "is_ok (readBytes n (runQueue r)) \<longleftrightarrow> \<not> queueSize (runQueue r) < readIndex (runQueue r) + min n (atomic_unreadSize (runQueue r))"
    if "activeReadSize (runQueue r) = 0" and "0 \<le> n" for n
    by (rule readBytes_ok [OF wf that])
qed

theorem device_queue_overruns_witness:
  "queue_step\<^sup>*\<^sup>* small_queue \<lparr>runQueue = three_out, sent = [1, 2, 3], got = [1, 2, 3]\<rparr> \<and> available three_out = 4 \<and> \<not> is_ok (writeBytes [7, 8] three_out)"
proof -
  have "activeWriteSize three_out = 0" "queueSize three_out - atomic_unreadSize three_out = 4" "queueSize three_out < writeIndex three_out + 2"
    "available three_out = 4" by code_simp+
  then show ?thesis using device_queue_overruns [OF small_queue_start three_out_run] three_out_run by auto
qed

subsection \<open>Values of one width\<close>

inductive unit_step :: "nat \<Rightarrow> queue_run \<Rightarrow> queue_run \<Rightarrow> bool" for k where
  push_unit: "length bs = k \<Longrightarrow> pushNBit bs (runQueue r) = Inr (ret, q') \<Longrightarrow>
    unit_step k r (r\<lparr>runQueue := q', sent := sent r @ (if ret = RET_OK then bs else [])\<rparr>)"
| pop_unit: "popNBit k (runQueue r) = Inr ((ret, out), q') \<Longrightarrow>
    unit_step k r (r\<lparr>runQueue := q', got := got r @ (case out of None \<Rightarrow> [] | Some bs \<Rightarrow> bs)\<rparr>)"

definition unit_ok :: "nat \<Rightarrow> queue_run \<Rightarrow> bool" where
  "unit_ok k r \<longleftrightarrow> queue_run_ok r \<and> activeWriteSize (runQueue r) = 0 \<and> activeReadSize (runQueue r) = 0 \<and>
     int k dvd queueSize (runQueue r) \<and> int k dvd readIndex (runQueue r) \<and> int k dvd atomic_unreadSize (runQueue r)"

lemma contents_length: "queue_wf q \<Longrightarrow> int (length (contents q)) = atomic_unreadSize q"
  using queue_wfD [of q] by (simp add: contents_def)

lemma unit_fits:
  assumes "int k dvd n" and "int k dvd i" and "0 \<le> i" and "i < n"
  shows "i + int k \<le> n"
proof -
  have "int k dvd n - i" using assms by (simp add: dvd_diff)
  then have "int k \<le> n - i" using assms by (intro zdvd_imp_le) simp_all
  then show ?thesis by simp
qed

lemma pop_frame: "popNBit k q = Inr ((ret, out), q') \<Longrightarrow> queueSize q' = queueSize q \<and> activeWriteSize q' = activeWriteSize q"
  by (auto simp: popNBit_def moveRead_def addUnread_def Let_def bindE_eq_Inr split: if_splits option.splits)

lemma push_frame: "pushNBit bs q = Inr (ret, q') \<Longrightarrow> activeReadSize q' = activeReadSize q"
  by (auto simp: pushNBit_def moveWrite_def addUnread_def Let_def bindE_eq_Inr split: if_splits option.splits)

lemma unit_push:
  assumes ok: "unit_ok k r" and k: "0 < k" "length bs = k"
  shows "if atomic_unreadSize (runQueue r) = queueSize (runQueue r) then pushNBit bs (runQueue r) = Inr (RET_ERR, runQueue r)
    else \<exists>q'. pushNBit bs (runQueue r) = Inr (RET_OK, q') \<and> contents q' = contents (runQueue r) @ bs \<and>
      unit_ok k (r\<lparr>runQueue := q', sent := sent r @ bs\<rparr>)"
proof -
  let ?q = "runQueue r"
  have wf: "queue_wf ?q" and aw: "activeWriteSize ?q = 0" and d: "int k dvd queueSize ?q" "int k dvd readIndex ?q" "int k dvd atomic_unreadSize ?q"
    using ok by (simp_all add: unit_ok_def queue_run_ok_def)
  note W = queue_wfD [OF wf]
  have "int k dvd writeIndex ?q" using wf d by (simp add: queue_wf_def dvd_mod)
  then have fits: "writeIndex ?q + int k \<le> queueSize ?q" using unit_fits [OF d(1)] W by blast
  show ?thesis
  proof (cases "atomic_unreadSize ?q = queueSize ?q")
    case True
    then show ?thesis using writeBytes_ok [OF wf aw, of bs] k by simp
  next
    case False
    then have room: "atomic_unreadSize ?q + int k \<le> queueSize ?q" using unit_fits [OF d(1,3)] W by simp
    then obtain q' where q': "pushNBit bs ?q = Inr (RET_OK, q')" "queue_wf q'" "contents q' = contents ?q @ bs" "activeWriteSize q' = 0"
      "queueSize q' = queueSize ?q" "readIndex q' = readIndex ?q"
      using writeBytes_ok [OF wf aw, of bs] fits k by auto
    have "atomic_unreadSize q' = atomic_unreadSize ?q + int k" using contents_length [OF q'(2)] contents_length [OF wf] q'(3) k by simp
    then have "unit_ok k (r\<lparr>runQueue := q', sent := sent r @ bs\<rparr>)"
      using ok q' d push_frame [OF q'(1)] by (simp add: unit_ok_def queue_run_ok_def)
    then show ?thesis using False q' by simp
  qed
qed

lemma unit_pop:
  assumes ok: "unit_ok k r" and k: "0 < k"
  shows "if atomic_unreadSize (runQueue r) = 0 then popNBit k (runQueue r) = Inr ((RET_ERR, None), runQueue r)
    else \<exists>q' bs. popNBit k (runQueue r) = Inr ((RET_OK, Some bs), q') \<and> length bs = k \<and> contents (runQueue r) = bs @ contents q' \<and>
      unit_ok k (r\<lparr>runQueue := q', got := got r @ bs\<rparr>)"
proof -
  let ?q = "runQueue r"
  have wf: "queue_wf ?q" and ar: "activeReadSize ?q = 0" and d: "int k dvd queueSize ?q" "int k dvd readIndex ?q" "int k dvd atomic_unreadSize ?q"
    using ok by (simp_all add: unit_ok_def queue_run_ok_def)
  note W = queue_wfD [OF wf]
  obtain block where b: "queueData ?q = Some block" "blockOf ?q = block" using W(1) by (auto simp: blockOf_def)
  have fits: "readIndex ?q + int k \<le> queueSize ?q" using unit_fits [OF d(1,2)] W by blast
  show ?thesis
  proof (cases "atomic_unreadSize ?q = 0")
    case True
    then show ?thesis using k by (simp add: popNBit_def)
  next
    case False
    then have room: "int k \<le> atomic_unreadSize ?q" using d(3) W by (intro zdvd_imp_le) simp_all
    let ?q' = "moveRead (int k) (addUnread (- int k) ?q)"
    obtain bs where bs: "loadBytes (readIndex ?q) (int k) block = Inr bs" "queue_wf ?q'" "length bs = k" "contents ?q = bs @ contents ?q'"
      "activeReadSize ?q' = 0" "readIndex ?q' = (readIndex ?q + int k) mod queueSize ?q"
      using load_ok [OF wf ar, of "int k"] room fits b(2) by auto
    have p: "popNBit k ?q = Inr ((RET_OK, Some bs), ?q')" using room bs(1) b(1) by (simp add: popNBit_def)
    have "atomic_unreadSize ?q' = atomic_unreadSize ?q - int k" using contents_length [OF bs(2)] contents_length [OF wf] bs(3,4) by simp
    moreover have "int k dvd readIndex ?q'" unfolding bs(6) using d by (simp add: dvd_mod)
    ultimately have "unit_ok k (r\<lparr>runQueue := ?q', got := got r @ bs\<rparr>)"
      using ok bs d pop_frame [OF p] by (simp add: unit_ok_def queue_run_ok_def)
    then show ?thesis using False p bs by auto
  qed
qed

lemma unit_step_ok:
  assumes "unit_step k r r'" and "0 < k" and "unit_ok k r"
  shows "unit_ok k r'"
  using assms
proof (induction rule: unit_step.induct)
  case (push_unit bs r ret q')
  then show ?case using unit_push [OF push_unit.prems(2,1) push_unit.hyps(1)] by (auto split: if_splits)
next
  case (pop_unit r ret out q')
  then show ?case using unit_pop [OF pop_unit.prems(2,1)] by (auto split: if_splits)
qed

interpretation unit_queue: invariant_system "\<lambda>r. 0 < k \<and> queue_start r \<and> int k dvd queueSize (runQueue r)" "unit_step k" "\<lambda>r. 0 < k \<and> unit_ok k r" for k
proof (unfold_locales)
  show "0 < k \<and> unit_ok k r" if "0 < k \<and> queue_start r \<and> int k dvd queueSize (runQueue r)" for r
    using that queue_wf_new by (auto simp: queue_start_def unit_ok_def queue_run_ok_def newQueue_def)
  show "0 < k \<and> unit_ok k t" if "0 < k \<and> unit_ok k s" "unit_step k s t" for s t
    using unit_step_ok [OF that(2)] that(1) by blast
qed

text \<open>A queue whose size is a multiple of the width of the values, and which is used only with values of this width, never reaches over
  the end of its block: a value is refused exactly if the queue is full, and else added; one is read unless the queue is empty, and it is
  the oldest.\<close>

theorem unit_queue_safe:
  assumes "0 < k" and "queue_start r0" and "int k dvd queueSize (runQueue r0)" and "(unit_step k)\<^sup>*\<^sup>* r0 r"
  shows "sent r = got r @ contents (runQueue r) \<and>
    (\<forall>bs. length bs = k \<longrightarrow>
       (if atomic_unreadSize (runQueue r) = queueSize (runQueue r) then pushNBit bs (runQueue r) = Inr (RET_ERR, runQueue r)
        else \<exists>q'. pushNBit bs (runQueue r) = Inr (RET_OK, q') \<and> contents q' = contents (runQueue r) @ bs)) \<and>
    (if atomic_unreadSize (runQueue r) = 0 then popNBit k (runQueue r) = Inr ((RET_ERR, None), runQueue r)
     else \<exists>q' bs. popNBit k (runQueue r) = Inr ((RET_OK, Some bs), q') \<and> length bs = k \<and> contents (runQueue r) = bs @ contents q')"
proof -
  have ok: "unit_ok k r" using unit_queue.reachable_inv [OF _ assms(4)] assms(1-3) by blast
  show ?thesis
  proof (intro conjI allI impI)
    show "sent r = got r @ contents (runQueue r)" using ok by (simp add: unit_ok_def queue_run_ok_def)
    show "if atomic_unreadSize (runQueue r) = queueSize (runQueue r) then pushNBit bs (runQueue r) = Inr (RET_ERR, runQueue r)
      else \<exists>q'. pushNBit bs (runQueue r) = Inr (RET_OK, q') \<and> contents q' = contents (runQueue r) @ bs" if "length bs = k" for bs
      using unit_push [OF ok assms(1) that] by (cases "atomic_unreadSize (runQueue r) = queueSize (runQueue r)") auto
    show "if atomic_unreadSize (runQueue r) = 0 then popNBit k (runQueue r) = Inr ((RET_ERR, None), runQueue r)
      else \<exists>q' bs. popNBit k (runQueue r) = Inr ((RET_OK, Some bs), q') \<and> length bs = k \<and> contents (runQueue r) = bs @ contents q'"
      using unit_pop [OF ok assms(1)] by (cases "atomic_unreadSize (runQueue r) = 0") auto
  qed
qed

theorem unit_queue_safe_witness:
  "\<exists>q'. pushNBit [5, 6] (runQueue small_queue) = Inr (RET_OK, q') \<and> contents q' = [5, 6]"
proof -
  have "int 2 dvd queueSize (runQueue small_queue)" "atomic_unreadSize (runQueue small_queue) \<noteq> queueSize (runQueue small_queue)"
    "contents (runQueue small_queue) = []" by code_simp+
  then show ?thesis using unit_queue_safe [of 2 small_queue small_queue, OF _ small_queue_start] by auto
qed

text \<open>What is written as a value is read as this value.\<close>

lemma bit_bytesValue: "bit (bytesValue (valueBytes k v)) n \<longleftrightarrow> n < 8 * k \<and> bit v n"
proof (induction k arbitrary: v n)
  case (Suc k)
  have "valueBytes (Suc k) v = ucast v # valueBytes k (drop_bit 8 v)"
    by (simp add: valueBytes_def upt_rec [of 0] map_Suc_upt [symmetric] del: upt_Suc) (simp add: drop_bit_drop_bit add.commute)
  then have "bit (bytesValue (valueBytes (Suc k) v)) n \<longleftrightarrow>
      bit (ucast (ucast v :: u8) :: u64) n \<or> bit (push_bit 8 (bytesValue (valueBytes k (drop_bit 8 v)))) n"
    by (simp add: bit_or_iff)
  also have "\<dots> \<longleftrightarrow> n < 8 \<and> bit v n \<or> 8 \<le> n \<and> n < 64 \<and> n - 8 < 8 * k \<and> bit v n"
    by (auto simp: bit_unsigned_iff bit_push_bit_iff bit_drop_bit_eq Suc.IH dest: bit_imp_le_length)
  also have "\<dots> \<longleftrightarrow> n < 8 * Suc k \<and> bit v n" using bit_imp_le_length [of v n] by auto
  finally show ?case .
qed (simp add: valueBytes_def)

lemma bytes_roundtrip: "bytesValue (valueBytes 8 v) = v"
  by (rule bit_word_eqI) (simp add: bit_bytesValue)


subsection \<open>The table\<close>

text \<open>
  Clients create queues, use them and destroy them; their variables are written by nobody else.  Using
  a queue keeps its block and its owner.
\<close>

definition keepsQueue :: "Queue_node \<Rightarrow> Queue_node \<Rightarrow> bool" where
  "keepsQueue q q' \<longleftrightarrow> queueOwner q' = queueOwner q \<and> queueSize q' = queueSize q \<and>
     map_option length (queueData q') = map_option length (queueData q)"

inductive table_step :: "DevQueues \<Rightarrow> DevQueues \<Rightarrow> bool" where
  init_queues: "table_step s (snd (DevQueue_Init mutex s))"
| create_queue: "(\<And>b. block = Some b \<Longrightarrow> int (length b) = bytes) \<Longrightarrow> DevQueue_Create node block pId bytes s = Inr (ret, s') \<Longrightarrow> table_step s s'"
| use_queue: "queueInit s \<Longrightarrow> i < MSG_QUEUE_MAX_NUM \<Longrightarrow> m_queue_p_list s ! i = Queue q \<Longrightarrow> keepsQueue q q' \<Longrightarrow>
    table_step s (s\<lparr>m_queue_p_list := (m_queue_p_list s)[i := Queue q']\<rparr>)"
| destroy_queue: "DevQueue_Destroy pId s = Inr (ret, s') \<Longrightarrow> table_step s s'"
| deinit_queues: "DevQueue_Deinit s = Inr (ret, s') \<Longrightarrow> table_step s s'"

lemma bindE_keeps:
  "bindE m f = Inr (r, q') \<Longrightarrow> (\<And>x. m = Inr x \<Longrightarrow> f x = Inr (r, q') \<Longrightarrow> keepsQueue q q') \<Longrightarrow> keepsQueue q q'"
  by (auto simp: bindE_eq_Inr)

lemma uses_keep:
  "getWritePtr ptr n q = (x, q') \<Longrightarrow> keepsQueue q q'"
  "markWriteDone q = (ret, q') \<Longrightarrow> keepsQueue q q'"
  "getReadPtr ptr n q = (x, q') \<Longrightarrow> keepsQueue q q'"
  "markReadDone q = (ret, q') \<Longrightarrow> keepsQueue q q'"
  "pushNBit bs q = Inr (ret, q') \<Longrightarrow> keepsQueue q q'"
  "popNBit k q = Inr (y, q') \<Longrightarrow> keepsQueue q q'"
  "writeBytes bs q = Inr (ret, q') \<Longrightarrow> keepsQueue q q'"
  "readBytes n q = Inr (z, q') \<Longrightarrow> keepsQueue q q'"
  "cleanQueue q = Inr q' \<Longrightarrow> keepsQueue q q'"
  by (auto simp: keepsQueue_def getWritePtr_def markWriteDone_def getReadPtr_def markReadDone_def pushNBit_def popNBit_def writeBytes_def readBytes_def
      cleanQueue_def storeBytes_def moveWrite_def moveRead_def addUnread_def Let_def bindE_eq_Inr split: if_splits option.splits)

lemma onQueue_step:
  assumes "onQueue i err f s = Inr (x, s')" and "\<And>q y q'. f q = Inr (y, q') \<Longrightarrow> keepsQueue q q'" and "length (m_queue_p_list s) = MSG_QUEUE_MAX_NUM"
  shows "s' = s \<or> table_step s s'"
  using assms by (auto simp: onQueue_def bindE_eq_Inr split: if_splits queue_slot.splits intro!: table_step.use_queue)

definition slot_ok :: "(nat \<Rightarrow> int) \<Rightarrow> nat \<Rightarrow> queue_slot \<Rightarrow> bool" where
  "slot_ok ids i slot \<longleftrightarrow> (case slot of NoQueue \<Rightarrow> True | Freed \<Rightarrow> False
     | Queue q \<Rightarrow> \<exists>p block. queueOwner q = Some p \<and> ids p = int i \<and> queueData q = Some block \<and> int (length block) = queueSize q)"

definition table_ok :: "DevQueues \<Rightarrow> bool" where
  "table_ok s \<longleftrightarrow> (queueInit s \<longrightarrow> length (m_queue_p_list s) = MSG_QUEUE_MAX_NUM \<and> m_queue_p_list s ! 0 = NoQueue \<and> \<not> m_mutex_locked s \<and>
     (\<forall>i < MSG_QUEUE_MAX_NUM. slot_ok (clientIds s) i (m_queue_p_list s ! i)))"

lemma table_okD:
  assumes "table_ok s" and "queueInit s"
  shows "length (m_queue_p_list s) = MSG_QUEUE_MAX_NUM" "m_queue_p_list s ! 0 = NoQueue" "\<not> m_mutex_locked s"
    "i < MSG_QUEUE_MAX_NUM \<Longrightarrow> slot_ok (clientIds s) i (m_queue_p_list s ! i)"
  using assms by (simp_all add: table_ok_def)

text \<open>The search for a queue of the variable.\<close>

lemma ownedBy_ok:
  assumes "Freed \<notin> set slots"
  shows "ownedBy p slots = Inr (\<exists>q. Queue q \<in> set slots \<and> queueOwner q \<noteq> None \<and> queueOwner q = p \<and> queueData q \<noteq> None)"
  using assms by (induction p slots rule: ownedBy.induct) auto

lemma freeSlot_Some:
  assumes "freeSlot slots = Some i"
  shows "0 < i \<and> i < length slots \<and> slots ! i = NoQueue"
  using assms by (auto simp: freeSlot_def find_Some_iff)

lemma no_freed:
  assumes "table_ok s" and "queueInit s"
  shows "Freed \<notin> set (m_queue_p_list s)"
proof
  assume "Freed \<in> set (m_queue_p_list s)"
  then obtain i where "i < length (m_queue_p_list s)" "m_queue_p_list s ! i = Freed" by (auto simp: in_set_conv_nth)
  then show False using table_okD(1) [OF assms] table_okD(4) [OF assms, of i] by (simp add: slot_ok_def)
qed

lemma queue_at:
  assumes "table_ok s" and "queueInit s" and "i < MSG_QUEUE_MAX_NUM" and "m_queue_p_list s ! i = Queue q"
  shows "0 < i" "\<exists>p. queueOwner q = Some p \<and> clientIds s p = int i" "\<exists>block. queueData q = Some block \<and> int (length block) = queueSize q"
  using table_okD(4) [OF assms(1-3)] table_okD(2) [OF assms(1,2)] assms(4) by (auto simp: slot_ok_def intro: gr0I)

lemma clean_ok:
  assumes "queueData q = Some block" and "int (length block) = queueSize q"
  shows "\<exists>q'. cleanQueue q = Inr q'"
  using assms by (simp add: cleanQueue_def)

text \<open>What destroying does, for a variable with this identity.\<close>

lemma destroyQueue_ok:
  assumes ok: "table_ok s" "queueInit s"
  shows "if v \<le> 0 \<or> v \<ge> int MSG_QUEUE_MAX_NUM then destroyQueue v s = Inr ((RET_ERR, False), s)
    else destroyQueue v s = Inr ((if m_queue_p_list s ! nat v = NoQueue then RET_ERR else RET_OK, True),
      s\<lparr>m_queue_p_list := (m_queue_p_list s)[nat v := NoQueue]\<rparr>)"
proof (cases "v \<le> 0 \<or> v \<ge> int MSG_QUEUE_MAX_NUM")
  case True
  then show ?thesis by (simp add: destroyQueue_def)
next
  case False
  then have v: "nat v < MSG_QUEUE_MAX_NUM" "0 < v" "v < int MSG_QUEUE_MAX_NUM" by (simp_all add: nat_less_iff)
  note T = table_okD [OF ok]
  show ?thesis
  proof (cases "m_queue_p_list s ! nat v")
    case NoQueue
    then have "(m_queue_p_list s)[nat v := NoQueue] = m_queue_p_list s" by (metis list_update_id)
    then show ?thesis using False NoQueue T(3) by (simp add: destroyQueue_def)
  next
    case Freed
    then show ?thesis using T(4) [OF v(1)] by (simp add: slot_ok_def)
  next
    case (Queue q)
    obtain p where p: "queueOwner q = Some p" "clientIds s p = int (nat v)" using queue_at(2) [OF ok v(1) Queue] by blast
    obtain q' where "cleanQueue q = Inr q'" using queue_at(3) [OF ok v(1) Queue] clean_ok by blast
    then show ?thesis using False v Queue T(3) p by (simp add: destroyQueue_def)
  qed
qed

lemma table_ok_drop:
  assumes ok: "table_ok s" and p: "\<And>i q. queueInit s \<Longrightarrow> i < MSG_QUEUE_MAX_NUM \<Longrightarrow> i \<noteq> j \<Longrightarrow> m_queue_p_list s ! i = Queue q \<Longrightarrow>
      (\<exists>p. queueOwner q = Some p \<and> ids p = int i)"
  shows "table_ok (s\<lparr>m_queue_p_list := (m_queue_p_list s)[j := NoQueue], clientIds := ids\<rparr>)"
  unfolding table_ok_def
proof (intro impI conjI allI)
  assume i: "queueInit (s\<lparr>m_queue_p_list := (m_queue_p_list s)[j := NoQueue], clientIds := ids\<rparr>)"
  then have init: "queueInit s" by simp
  note T = table_okD [OF ok init]
  show "slot_ok (clientIds (s\<lparr>m_queue_p_list := (m_queue_p_list s)[j := NoQueue], clientIds := ids\<rparr>)) i
      (m_queue_p_list (s\<lparr>m_queue_p_list := (m_queue_p_list s)[j := NoQueue], clientIds := ids\<rparr>) ! i)" if "i < MSG_QUEUE_MAX_NUM" for i
  proof (cases "i = j")
    case False
    then show ?thesis using T(4) [OF that] p [OF init that False] by (auto simp: slot_ok_def split: queue_slot.splits)
  qed (use that T(1) in \<open>simp add: slot_ok_def\<close>)
  show "m_queue_p_list (s\<lparr>m_queue_p_list := (m_queue_p_list s)[j := NoQueue], clientIds := ids\<rparr>) ! 0 = NoQueue"
    using T(1,2) by (cases "j = 0") simp_all
qed (use table_okD [OF ok] in simp_all)


lemma destroy_ok:
  assumes ok: "table_ok s" "queueInit s"
  shows "\<exists>ret s'. DevQueue_Destroy (Some p) s = Inr (ret, s') \<and> table_ok s' \<and> queueInit s' \<and>
    m_queue_p_list s' = (if 0 < clientIds s p \<and> clientIds s p < int MSG_QUEUE_MAX_NUM
      then (m_queue_p_list s)[nat (clientIds s p) := NoQueue] else m_queue_p_list s)"
proof (cases "clientIds s p \<le> 0 \<or> clientIds s p \<ge> int MSG_QUEUE_MAX_NUM")
  case True
  then show ?thesis using destroyQueue_ok [OF ok, of "clientIds s p"] ok by (auto simp: DevQueue_Destroy_def)
next
  case False
  let ?j = "nat (clientIds s p)"
  let ?s = "s\<lparr>m_queue_p_list := (m_queue_p_list s)[?j := NoQueue], clientIds := (clientIds s)(p := 0)\<rparr>"
  have "table_ok ?s"
  proof (rule table_ok_drop [OF ok(1)])
    fix i q
    assume i: "queueInit s" "i < MSG_QUEUE_MAX_NUM" "i \<noteq> ?j" "m_queue_p_list s ! i = Queue q"
    then obtain p' where "queueOwner q = Some p'" "clientIds s p' = int i" using queue_at(2) [OF ok] by blast
    moreover from this i(3) have "p' \<noteq> p" by auto
    ultimately show "\<exists>p'. queueOwner q = Some p' \<and> ((clientIds s)(p := 0)) p' = int i" by auto
  qed
  moreover have "DevQueue_Destroy (Some p) s = Inr (if m_queue_p_list s ! ?j = NoQueue then RET_ERR else RET_OK, ?s)"
    using destroyQueue_ok [OF ok, of "clientIds s p"] False ok(2) by (simp add: DevQueue_Destroy_def)
  ultimately show ?thesis using False ok(2) by auto
qed

lemma destroyAll_ok:
  assumes "table_ok s" and "queueInit s" and "set is \<subseteq> {1..<MSG_QUEUE_MAX_NUM}"
  shows "\<exists>s'. destroyAll is s = Inr s' \<and> table_ok s' \<and> queueInit s' \<and>
    (\<forall>i < MSG_QUEUE_MAX_NUM. m_queue_p_list s' ! i = (if i \<in> set is then NoQueue else m_queue_p_list s ! i))"
  using assms
proof (induction "is" arbitrary: s)
  case (Cons i "is")
  let ?s = "s\<lparr>m_queue_p_list := (m_queue_p_list s)[i := NoQueue]\<rparr>"
  have i: "0 < i" "i < MSG_QUEUE_MAX_NUM" using Cons.prems(3) by auto
  have "table_ok (s\<lparr>m_queue_p_list := (m_queue_p_list s)[i := NoQueue], clientIds := clientIds s\<rparr>)"
    by (rule table_ok_drop [OF Cons.prems(1)]) (use queue_at(2) [OF Cons.prems(1,2)] in blast)
  then have ok: "table_ok ?s" by simp
  have d: "\<exists>r. destroyQueue (int i) s = Inr (r, ?s)" using destroyQueue_ok [OF Cons.prems(1,2), of "int i"] i by auto
  obtain s' where s': "destroyAll is ?s = Inr s'" "table_ok s'" "queueInit s'"
    "\<forall>j < MSG_QUEUE_MAX_NUM. m_queue_p_list s' ! j = (if j \<in> set is then NoQueue else m_queue_p_list ?s ! j)"
    using Cons.IH [OF ok] Cons.prems(2,3) by auto
  have "destroyAll (i # is) s = Inr s'" using d s'(1) by auto
  moreover have "\<forall>j < MSG_QUEUE_MAX_NUM. m_queue_p_list s' ! j = (if j \<in> set (i # is) then NoQueue else m_queue_p_list s ! j)"
    using s'(4) table_okD(1) [OF Cons.prems(1,2)] by (auto simp: nth_list_update)
  ultimately show ?case using s'(2,3) by blast
qed simp

lemma deinit_ok:
  assumes "table_ok s" and "queueInit s"
  shows "\<exists>s1. destroyAll [1..<MSG_QUEUE_MAX_NUM] s = Inr s1 \<and> set (m_queue_p_list s1) = {NoQueue} \<and>
    DevQueue_Deinit s = Inr (RET_OK, s1\<lparr>queueInit := False, m_queue_p_list := replicate MSG_QUEUE_MAX_NUM NoQueue, m_mutex_locked := False\<rparr>)"
proof -
  obtain s1 where s1: "destroyAll [1..<MSG_QUEUE_MAX_NUM] s = Inr s1" "table_ok s1" "queueInit s1"
    "\<forall>i < MSG_QUEUE_MAX_NUM. m_queue_p_list s1 ! i = (if i \<in> set [1..<MSG_QUEUE_MAX_NUM] then NoQueue else m_queue_p_list s ! i)"
    using destroyAll_ok [OF assms, of "[1..<MSG_QUEUE_MAX_NUM]"] by auto
  have "m_queue_p_list s1 ! i = NoQueue" if "i < length (m_queue_p_list s1)" for i
    using s1(4) that table_okD(1) [OF s1(2,3)] table_okD(2) [OF assms] by (cases "i = 0") auto
  moreover have "m_queue_p_list s1 \<noteq> []" using table_okD(1) [OF s1(2,3)] by auto
  ultimately have "set (m_queue_p_list s1) = {NoQueue}" by (auto simp: in_set_conv_nth) (metis hd_in_set in_set_conv_nth)
  moreover have "DevQueue_Report s = Inr (RET_OK, s)" using assms table_okD(3) [OF assms] no_freed [OF assms] by (simp add: DevQueue_Report_def)
  ultimately show ?thesis using s1(1) assms no_freed [OF assms] by (simp add: DevQueue_Deinit_def Let_def)
qed

lemma create_cases:
  assumes ok: "table_ok s" "queueInit s" and c: "DevQueue_Create node block pId bytes s = Inr (ret, s')" and n: "s' \<noteq> s"
  obtains i p blk where "0 < i" "i < MSG_QUEUE_MAX_NUM" "m_queue_p_list s ! i = NoQueue" "pId = Some p" "block = Some blk"
    "s' = s\<lparr>m_queue_p_list := (m_queue_p_list s)[i := Queue (newQueue pId block bytes)], clientIds := (clientIds s)(p := int i)\<rparr>"
    "\<And>j q. j < MSG_QUEUE_MAX_NUM \<Longrightarrow> m_queue_p_list s ! j = Queue q \<Longrightarrow> queueOwner q \<noteq> Some p"
proof -
  note T = table_okD [OF ok]
  have tl: "Freed \<notin> set (tl (m_queue_p_list s))" using no_freed [OF ok] by (metis list.set_sel(2) list.sel(2))
  have "ret = RET_OK"
    using c ok(2) T(3) n unfolding ownedBy_ok [OF tl] DevQueue_Create_def by (auto split: if_splits option.splits)
  then obtain i p blk where i: "freeSlot (m_queue_p_list s) = Some i" "pId = Some p" "block = Some blk"
    "\<not> (\<exists>q. Queue q \<in> set (tl (m_queue_p_list s)) \<and> queueOwner q \<noteq> None \<and> queueOwner q = pId \<and> queueData q \<noteq> None)"
    "s' = s\<lparr>m_queue_p_list := (m_queue_p_list s)[i := Queue (newQueue pId block bytes)], clientIds := (clientIds s)(p := int i)\<rparr>"
    using c ok(2) T(3) unfolding DevQueue_Create_def by (auto simp: ownedBy_ok [OF tl] split: if_splits option.splits)
  have other: "queueOwner q \<noteq> Some p" if q: "j < MSG_QUEUE_MAX_NUM" "m_queue_p_list s ! j = Queue q" for j q
  proof
    assume o: "queueOwner q = Some p"
    have "0 < j" "queueData q \<noteq> None" using queue_at(1,3) [OF ok q] by auto
    then have "Queue q \<in> set (tl (m_queue_p_list s))" using q T(1)
      by (auto simp: in_set_conv_nth nth_tl intro!: exI [of _ "j - 1"])
    then show False using i(2,4) o \<open>queueData q \<noteq> None\<close> by auto
  qed
  show thesis by (rule that [OF _ _ _ i(2,3,5) other]) (use freeSlot_Some [OF i(1)] T(1) in simp_all)
qed

lemma create_ok:
  assumes ok: "table_ok s" "queueInit s" and c: "DevQueue_Create node block pId bytes s = Inr (ret, s')"
    and b: "\<And>b. block = Some b \<Longrightarrow> int (length b) = bytes"
  shows "table_ok s' \<and> queueInit s'"
proof (cases "s' = s")
  case True
  then show ?thesis using ok by simp
next
  case False
  note T = table_okD [OF ok]
  obtain i p blk where i: "0 < i" "i < MSG_QUEUE_MAX_NUM" "pId = Some p" "block = Some blk"
    "s' = s\<lparr>m_queue_p_list := (m_queue_p_list s)[i := Queue (newQueue pId block bytes)], clientIds := (clientIds s)(p := int i)\<rparr>"
    and other: "\<And>j q. j < MSG_QUEUE_MAX_NUM \<Longrightarrow> m_queue_p_list s ! j = Queue q \<Longrightarrow> queueOwner q \<noteq> Some p"
    using create_cases [OF ok c False] by metis
  have slots: "slot_ok (clientIds s') j (m_queue_p_list s' ! j)" if j: "j < MSG_QUEUE_MAX_NUM" for j
  proof (cases "j = i")
    case True
    then show ?thesis using i(3,4) b j T(1) unfolding i(5) by (simp add: slot_ok_def newQueue_def)
  next
    case False
    then show ?thesis using T(4) [OF j] other [OF j] unfolding i(5) by (auto simp: slot_ok_def split: queue_slot.splits)
  qed
  have "m_queue_p_list s' ! 0 = NoQueue" using i(1) T(2) by (simp add: i(5))
  then show ?thesis using slots T(1,3) ok(2) unfolding table_ok_def by (simp add: i(5))
qed

lemma table_step_ok:
  assumes "table_step s t" and "table_ok s"
  shows "table_ok t"
  using assms
proof (induction rule: table_step.induct)
  case (init_queues s mutex)
  then show ?case by (cases "queueInit s \<or> \<not> mutex") (auto simp: DevQueue_Init_def, simp add: table_ok_def slot_ok_def)
next
  case (create_queue block bytes node pId s ret s')
  show ?case
  proof (cases "queueInit s")
    case True
    then show ?thesis using create_ok [OF create_queue.prems True create_queue.hyps(2,1)] by blast
  next
    case False
    then show ?thesis using create_queue by (simp add: DevQueue_Create_def)
  qed
next
  case (use_queue s i q q')
  note T = table_okD [OF use_queue.prems use_queue.hyps(1)]
  have "slot_ok (clientIds s) i (Queue q')"
    using queue_at(2,3) [OF use_queue.prems use_queue.hyps(1-3)] use_queue.hyps(4) by (auto simp: keepsQueue_def slot_ok_def)
  moreover have "i \<noteq> 0" using queue_at(1) [OF use_queue.prems use_queue.hyps(1-3)] by simp
  ultimately show ?case using T use_queue.hyps(2) unfolding table_ok_def by (auto simp: nth_list_update)
next
  case (destroy_queue pId s ret s')
  show ?case
  proof (cases "queueInit s \<and> pId \<noteq> None")
    case True
    then show ?thesis using destroy_ok [OF destroy_queue.prems, of "the pId"] destroy_queue.hyps by auto
  next
    case False
    then have "s' = s" using destroy_queue.hyps by (auto simp: DevQueue_Destroy_def split: if_splits)
    then show ?thesis using destroy_queue.prems by simp
  qed
next
  case (deinit_queues s ret s')
  show ?case
  proof (cases "queueInit s")
    case True
    obtain s1 where "DevQueue_Deinit s = Inr (RET_OK,
        s1\<lparr>queueInit := False, m_queue_p_list := replicate MSG_QUEUE_MAX_NUM NoQueue, m_mutex_locked := False\<rparr>)"
      using deinit_ok [OF deinit_queues.prems True] by blast
    then have "s' = s1\<lparr>queueInit := False, m_queue_p_list := replicate MSG_QUEUE_MAX_NUM NoQueue, m_mutex_locked := False\<rparr>"
      using deinit_queues.hyps by (simp only: sum.inject prod.inject)
    then show ?thesis by (simp add: table_ok_def)
  next
    case False
    then have "DevQueue_Deinit s = Inr (RET_OK, s)" unfolding DevQueue_Deinit_def by (rule if_P)
    then show ?thesis using deinit_queues by (simp only: sum.inject prod.inject)
  qed
qed

interpretation queue_table: invariant_system "\<lambda>s. \<not> queueInit s" table_step table_ok
proof (unfold_locales)
  show "table_ok s" if "\<not> queueInit s" for s using that by (simp add: table_ok_def)
  show "table_ok t" if "table_ok s" "table_step s t" for s t using table_step_ok [OF that(2,1)] .
qed


definition ownsQueue :: "DevQueues \<Rightarrow> nat \<Rightarrow> bool" where
  "ownsQueue s p \<longleftrightarrow> (\<exists>q. Queue q \<in> set (m_queue_p_list s) \<and> queueOwner q = Some p)"

lemma create_exact:
  assumes ok: "table_ok s" "queueInit s"
  shows "if ownsQueue s p \<or> (\<forall>i. 0 < i \<and> i < MSG_QUEUE_MAX_NUM \<longrightarrow> m_queue_p_list s ! i \<noteq> NoQueue)
    then DevQueue_Create True (Some block) (Some p) bytes s = Inr (RET_ERR, s)
    else \<exists>i. 0 < i \<and> i < MSG_QUEUE_MAX_NUM \<and> m_queue_p_list s ! i = NoQueue \<and>
      DevQueue_Create True (Some block) (Some p) bytes s =
        Inr (RET_OK, s\<lparr>m_queue_p_list := (m_queue_p_list s)[i := Queue (newQueue (Some p) (Some block) bytes)], clientIds := (clientIds s)(p := int i)\<rparr>)"
proof -
  note T = table_okD [OF ok]
  let ?slots = "m_queue_p_list s"
  have tl: "Freed \<notin> set (tl ?slots)" using no_freed [OF ok] by (metis list.set_sel(2) list.sel(2))
  have cons: "?slots = NoQueue # tl ?slots" using T(1,2) by (cases ?slots) simp_all
  have data: "queueData q \<noteq> None" if "Queue q \<in> set ?slots" for q
  proof -
    obtain i where "i < MSG_QUEUE_MAX_NUM" "?slots ! i = Queue q" using \<open>Queue q \<in> set ?slots\<close> T(1) by (auto simp: in_set_conv_nth)
    from queue_at(3) [OF ok this] show ?thesis by auto
  qed
  have "Queue q \<in> set (tl ?slots) \<longleftrightarrow> Queue q \<in> set ?slots" for q by (subst (2) cons) simp
  then have owned: "ownedBy (Some p) (tl ?slots) = Inr (ownsQueue s p)"
    unfolding ownedBy_ok [OF tl] ownsQueue_def using data by auto
  show ?thesis
  proof (cases "ownsQueue s p")
    case True
    then show ?thesis using owned ok(2) T(3) by (simp add: DevQueue_Create_def)
  next
    case False
    show ?thesis
    proof (cases "freeSlot ?slots")
      case None
      then have "\<forall>i. 0 < i \<and> i < MSG_QUEUE_MAX_NUM \<longrightarrow> ?slots ! i \<noteq> NoQueue" using T(1) by (auto simp: freeSlot_def find_None_iff)
      then show ?thesis using None owned ok(2) T(3) False by (simp add: DevQueue_Create_def)
    next
      case (Some i)
      have f: "0 < i" "i < MSG_QUEUE_MAX_NUM" "?slots ! i = NoQueue" using freeSlot_Some [OF Some] T(1) by simp_all
      then have "\<not> (\<forall>i. 0 < i \<and> i < MSG_QUEUE_MAX_NUM \<longrightarrow> ?slots ! i \<noteq> NoQueue)" by blast
      moreover have "DevQueue_Create True (Some block) (Some p) bytes s =
        Inr (RET_OK, s\<lparr>m_queue_p_list := ?slots[i := Queue (newQueue (Some p) (Some block) bytes)], clientIds := (clientIds s)(p := int i)\<rparr>)"
        using owned Some ok(2) T(3) False by (simp add: DevQueue_Create_def)
      ultimately show ?thesis using f False by (simp only: if_False simp_thms) blast
    qed
  qed
qed

text \<open>How long a queue stays in its place.\<close>

definition queueStays :: "nat \<Rightarrow> Queue_node \<Rightarrow> DevQueues \<Rightarrow> bool" where
  "queueStays i q s \<longleftrightarrow> queueInit s \<and>
     (\<exists>q' p. m_queue_p_list s ! i = Queue q' \<and> keepsQueue q q' \<and> queueOwner q = Some p \<and> clientIds s p = int i)"

lemma keepsQueue_refl [simp]: "keepsQueue q q"
  by (simp add: keepsQueue_def)

lemma queue_stays:
  assumes ok: "table_ok s" "queueInit s" and st: "table_step s s'" and i: "i < MSG_QUEUE_MAX_NUM" "m_queue_p_list s ! i = Queue q"
  shows "queueStays i q s' \<or> (\<exists>p. clientIds s p = int i \<and> DevQueue_Destroy (Some p) s = Inr (RET_OK, s')) \<or>
    DevQueue_Deinit s = Inr (RET_OK, s')"
proof -
  obtain p where p: "queueOwner q = Some p" "clientIds s p = int i" using queue_at(2) [OF ok i] by blast
  have pos: "0 < i" by (rule queue_at(1) [OF ok i])
  note T = table_okD [OF ok]
  have same: "queueStays i q s" using ok(2) i(2) p by (auto simp: queueStays_def)
  from st show ?thesis
  proof cases
    case (init_queues mutex)
    then show ?thesis using same ok(2) by (simp add: DevQueue_Init_def)
  next
    case (create_queue block bytes node pId ret)
    show ?thesis
    proof (cases "s' = s")
      case False
      obtain j p' where j: "m_queue_p_list s ! j = NoQueue"
        "s' = s\<lparr>m_queue_p_list := (m_queue_p_list s)[j := Queue (newQueue pId block bytes)], clientIds := (clientIds s)(p' := int j)\<rparr>"
        "queueOwner q \<noteq> Some p'"
        using create_cases [OF ok create_queue(2) False] i by metis
      have "j \<noteq> i" "p' \<noteq> p" using j(1,3) i(2) p(1) by auto
      then have "queueStays i q s'" using ok(2) i(2) p unfolding queueStays_def j(2) by auto
      then show ?thesis ..
    qed (use same in simp)
  next
    case (use_queue j q1 q2)
    then have "queueStays i q s'" using ok(2) i p T(1) by (cases "j = i") (auto simp: queueStays_def)
    then show ?thesis ..
  next
    case (destroy_queue pId ret)
    show ?thesis
    proof (cases pId)
      case None
      then show ?thesis using destroy_queue same ok(2) by (simp add: DevQueue_Destroy_def)
    next
      case (Some p')
      note D = destroyQueue_ok [OF ok, of "clientIds s p'"]
      show ?thesis
      proof (cases "clientIds s p' \<le> 0 \<or> clientIds s p' \<ge> int MSG_QUEUE_MAX_NUM")
        case True
        then have "s' = s" using D destroy_queue ok(2) Some by (simp add: DevQueue_Destroy_def)
        then show ?thesis using same by simp
      next
        case False
        then have d: "DevQueue_Destroy (Some p') s = Inr (if m_queue_p_list s ! nat (clientIds s p') = NoQueue then RET_ERR else RET_OK,
            s\<lparr>m_queue_p_list := (m_queue_p_list s)[nat (clientIds s p') := NoQueue], clientIds := (clientIds s)(p' := 0)\<rparr>)"
          using D ok(2) by (simp add: DevQueue_Destroy_def)
        then have s': "s' = s\<lparr>m_queue_p_list := (m_queue_p_list s)[nat (clientIds s p') := NoQueue], clientIds := (clientIds s)(p' := 0)\<rparr>"
          using destroy_queue Some by simp
        show ?thesis
        proof (cases "clientIds s p' = int i")
          case True
          then have "DevQueue_Destroy (Some p') s = Inr (RET_OK, s')" using d i(2) unfolding s' by simp
          then show ?thesis using True by blast
        next
          case other: False
          then have "nat (clientIds s p') \<noteq> i" "p' \<noteq> p" using False p(2) by auto
          then have "queueStays i q s'" using ok(2) i(2) p unfolding queueStays_def s' by auto
          then show ?thesis ..
        qed
      qed
    qed
  next
    case (deinit_queues ret)
    obtain s1 where "DevQueue_Deinit s = Inr (RET_OK, s1)" using deinit_ok [OF ok] by blast
    then show ?thesis using deinit_queues by simp
  qed
qed

text \<open>C37: As long as nobody but this module writes the variables of the clients: a variable that has no queue gets one, unless all 255 are in
  use, and then a new and empty one under an identity nobody has; one that has a queue gets no second one.  Every queue of the table has
  its block and an owner whose variable names it, and each step keeps it there with block size, owner and identity, unless the step
  destroys the queue of a variable that holds this identity (the owner's or a stale copy in another variable) or ends the module.
  Destroying the queue of its owner's variable succeeds, clears the variable and removes this queue only; ending the module gives every
  queue back, without fault and without waiting.\<close>

theorem queue_table_sound:
  assumes "\<not> queueInit s0" and "table_step\<^sup>*\<^sup>* s0 s" and "queueInit s"
  shows "(\<forall>p block bytes.
      if ownsQueue s p \<or> (\<forall>i. 0 < i \<and> i < MSG_QUEUE_MAX_NUM \<longrightarrow> m_queue_p_list s ! i \<noteq> NoQueue)
      then DevQueue_Create True (Some block) (Some p) bytes s = Inr (RET_ERR, s)
      else \<exists>i. 0 < i \<and> i < MSG_QUEUE_MAX_NUM \<and> m_queue_p_list s ! i = NoQueue \<and>
        DevQueue_Create True (Some block) (Some p) bytes s =
          Inr (RET_OK, s\<lparr>m_queue_p_list := (m_queue_p_list s)[i := Queue (newQueue (Some p) (Some block) bytes)], clientIds := (clientIds s)(p := int i)\<rparr>)) \<and>
    (\<forall>i q. i < MSG_QUEUE_MAX_NUM \<and> m_queue_p_list s ! i = Queue q \<longrightarrow>
      queueStays i q s \<and> queueData q \<noteq> None \<and>
      (\<forall>s'. table_step s s' \<longrightarrow> queueStays i q s' \<or> (\<exists>p. clientIds s p = int i \<and> DevQueue_Destroy (Some p) s = Inr (RET_OK, s')) \<or>
         DevQueue_Deinit s = Inr (RET_OK, s')) \<and>
      (\<exists>p. queueOwner q = Some p \<and> clientIds s p = int i \<and>
        DevQueue_Destroy (Some p) s = Inr (RET_OK, s\<lparr>m_queue_p_list := (m_queue_p_list s)[i := NoQueue], clientIds := (clientIds s)(p := 0)\<rparr>))) \<and>
    (\<exists>s1. destroyAll [1..<MSG_QUEUE_MAX_NUM] s = Inr s1 \<and> set (m_queue_p_list s1) = {NoQueue} \<and>
      DevQueue_Deinit s = Inr (RET_OK, s1\<lparr>queueInit := False, m_queue_p_list := replicate MSG_QUEUE_MAX_NUM NoQueue, m_mutex_locked := False\<rparr>))"
proof (intro conjI allI impI)
  have ok: "table_ok s" by (rule queue_table.reachable_inv [OF assms(1,2)])
  show "if ownsQueue s p \<or> (\<forall>i. 0 < i \<and> i < MSG_QUEUE_MAX_NUM \<longrightarrow> m_queue_p_list s ! i \<noteq> NoQueue)
      then DevQueue_Create True (Some block) (Some p) bytes s = Inr (RET_ERR, s)
      else \<exists>i. 0 < i \<and> i < MSG_QUEUE_MAX_NUM \<and> m_queue_p_list s ! i = NoQueue \<and>
        DevQueue_Create True (Some block) (Some p) bytes s =
          Inr (RET_OK, s\<lparr>m_queue_p_list := (m_queue_p_list s)[i := Queue (newQueue (Some p) (Some block) bytes)], clientIds := (clientIds s)(p := int i)\<rparr>)"
    for p block bytes by (rule create_exact [OF ok assms(3)])
  show "queueStays i q s' \<or> (\<exists>p. clientIds s p = int i \<and> DevQueue_Destroy (Some p) s = Inr (RET_OK, s')) \<or>
      DevQueue_Deinit s = Inr (RET_OK, s')" if "i < MSG_QUEUE_MAX_NUM \<and> m_queue_p_list s ! i = Queue q" and "table_step s s'" for i q s'
    using queue_stays [OF ok assms(3)] that by blast
  show "queueStays i q s" if "i < MSG_QUEUE_MAX_NUM \<and> m_queue_p_list s ! i = Queue q" for i q
    using queue_at(2) [OF ok assms(3), of i q] that assms(3) by (auto simp: queueStays_def)
  show "queueData q \<noteq> None" if "i < MSG_QUEUE_MAX_NUM \<and> m_queue_p_list s ! i = Queue q" for i q
    using queue_at(3) [OF ok assms(3), of i q] that by auto
  show "\<exists>p. queueOwner q = Some p \<and> clientIds s p = int i \<and>
      DevQueue_Destroy (Some p) s = Inr (RET_OK, s\<lparr>m_queue_p_list := (m_queue_p_list s)[i := NoQueue], clientIds := (clientIds s)(p := 0)\<rparr>)"
    if i: "i < MSG_QUEUE_MAX_NUM \<and> m_queue_p_list s ! i = Queue q" for i q
  proof -
    obtain p where p: "queueOwner q = Some p" "clientIds s p = int i" using queue_at(2) [OF ok assms(3)] i by blast
    have "0 < i" using queue_at(1) [OF ok assms(3)] i by blast
    then show ?thesis using destroyQueue_ok [OF ok assms(3), of "int i"] i p assms(3) by (auto simp: DevQueue_Destroy_def)
  qed
  show "\<exists>s1. destroyAll [1..<MSG_QUEUE_MAX_NUM] s = Inr s1 \<and> set (m_queue_p_list s1) = {NoQueue} \<and>
      DevQueue_Deinit s = Inr (RET_OK, s1\<lparr>queueInit := False, m_queue_p_list := replicate MSG_QUEUE_MAX_NUM NoQueue, m_mutex_locked := False\<rparr>)"
    by (rule deinit_ok [OF ok assms(3)])
qed

definition no_queues :: DevQueues where
  "no_queues = \<lparr>queueInit = False, m_queue_p_list = [], clientIds = (\<lambda>_. 0), m_mutex_locked = False\<rparr>"

theorem queue_table_sound_witness:
  "\<exists>i s'. DevQueue_Create True (Some [0, 0]) (Some 7) 2 (snd (DevQueue_Init True no_queues)) = Inr (RET_OK, s') \<and> clientIds s' 7 = int i \<and> 0 < i"
proof -
  let ?s = "snd (DevQueue_Init True no_queues)"
  have s: "queueInit ?s" "m_queue_p_list ?s = replicate MSG_QUEUE_MAX_NUM NoQueue" by (simp_all add: DevQueue_Init_def no_queues_def)
  have start: "\<not> queueInit no_queues" by (simp add: no_queues_def)
  have run: "table_step\<^sup>*\<^sup>* no_queues ?s" by (rule r_into_rtranclp [of table_step]) (rule table_step.init_queues)
  have "\<not> (ownsQueue ?s 7 \<or> (\<forall>i. 0 < i \<and> i < MSG_QUEUE_MAX_NUM \<longrightarrow> m_queue_p_list ?s ! i \<noteq> NoQueue))"
    unfolding ownsQueue_def s(2) by (auto intro!: exI [of _ 1])
  then obtain i where "0 < i" "DevQueue_Create True (Some [0, 0]) (Some 7) 2 ?s = Inr (RET_OK,
      ?s\<lparr>m_queue_p_list := (m_queue_p_list ?s)[i := Queue (newQueue (Some 7) (Some [0, 0]) 2)], clientIds := (clientIds ?s)(7 := int i)\<rparr>)"
    using conjunct1 [OF queue_table_sound [OF start run s(1)], THEN spec, THEN spec, THEN spec, of 7 "[0, 0]" 2] by (simp only: if_False) blast
  then show ?thesis by (intro exI conjI) (assumption | simp)+
qed

text \<open>
  If the owner's variable was overwritten, destroying the queue returns with the mutex taken, and the
  next call that takes it waits for ever.
\<close>

lemma destroy_keeps_lock:
  assumes "queueInit s" and "\<not> m_mutex_locked s" and "clientIds s p = 1" and "m_queue_p_list s ! 1 = Queue q" and "queueOwner q = Some p'"
    and "clientIds s p' = 0" and "cleanQueue q = Inr q'"
  shows "\<exists>s'. DevQueue_Destroy (Some p) s = Inr (RET_ERR, s') \<and> DevQueue_Create node block pId bytes s' = Inl WouldBlock"
  using assms by (simp add: DevQueue_Destroy_def destroyQueue_def DevQueue_Create_def)

end
