(* ===== verification/DeviceMemory.thy ===== *)
theory DeviceMemory
  imports DeviceQueue "HOL-Library.Product_Lexorder"
begin

text \<open>
  The memory pool of the device library the plugins carry
  (\<^verbatim>\<open>odm/plugins/qcom/frontbokeh/device/dev_memoryPool.cpp\<close>, the same file in most plugins): blocks
  in classes of equal size, marked in front and behind, found again by sorted maps of their
  addresses and sizes.  Of the arrays with a count of used entries the model has the used part.  What
  \<open>malloc\<close> answers is an argument; names, places and times kept for the report are left out.
\<close>

abbreviation (input) DEV_MEMORY_POOL_LIST_MAX :: nat where "DEV_MEMORY_POOL_LIST_MAX \<equiv> 128"
abbreviation (input) DEV_MEMORY_POOL_NODE_MAX :: nat where "DEV_MEMORY_POOL_NODE_MAX \<equiv> 512"
abbreviation (input) DEV_MEMORY_MARK_OFFSET :: nat where "DEV_MEMORY_MARK_OFFSET \<equiv> 8"
abbreviation (input) POOL_MAP_MAX :: nat where "POOL_MAP_MAX \<equiv> 16384"

subsection \<open>Halving\<close>

text \<open>
  The loops that search: \<open>up\<close> says whether the search goes on behind the middle; it ends at an entry
  that does not lead to a block, which the last part of the result says.
\<close>

function bound :: "(int \<Rightarrow> bool option) \<Rightarrow> int \<Rightarrow> int \<Rightarrow> int \<times> int \<times> bool" where
  "bound up front rear =
     (if front \<le> rear
      then case up ((front + rear) div 2) of
             None \<Rightarrow> (front, rear, False)
           | Some True \<Rightarrow> bound up ((front + rear) div 2 + 1) rear
           | Some False \<Rightarrow> bound up front ((front + rear) div 2 - 1)
      else (front, rear, True))"
  by auto

termination
  by (relation "measure (\<lambda>(up, front, rear). nat (rear + 1 - front))") auto

declare bound.simps [simp del]

datatype direction = Below | Above | Here

datatype search_end = FoundAt int | NotThere | NullEntry

text \<open>The loops that look for one entry; \<open>front\<close> is where the first half of the range begins at the end.\<close>

function findEqual :: "(int \<Rightarrow> direction option) \<Rightarrow> int \<Rightarrow> int \<Rightarrow> int \<times> search_end" where
  "findEqual dir front rear =
     (if front \<le> rear
      then case dir ((front + rear) div 2) of
             None \<Rightarrow> (front, NullEntry)
           | Some Below \<Rightarrow> findEqual dir front ((front + rear) div 2 - 1)
           | Some Above \<Rightarrow> findEqual dir ((front + rear) div 2 + 1) rear
           | Some Here \<Rightarrow> (front, FoundAt ((front + rear) div 2))
      else (front, NotThere))"
  by auto

termination
  by (relation "measure (\<lambda>(up, front, rear). nat (rear + 1 - front))") auto

declare findEqual.simps [simp del]

lemma bound_ok:
  assumes "\<And>i. f \<le> i \<Longrightarrow> i \<le> r \<Longrightarrow> up i = Some (p i)" and "\<And>i j. f \<le> i \<Longrightarrow> i \<le> j \<Longrightarrow> j \<le> r \<Longrightarrow> p j \<Longrightarrow> p i" and "f \<le> r + 1"
  shows "\<exists>b. bound up f r = (b, b - 1, True) \<and> f \<le> b \<and> b \<le> r + 1 \<and> (\<forall>i. f \<le> i \<and> i < b \<longrightarrow> p i) \<and> (\<forall>i. b \<le> i \<and> i \<le> r \<longrightarrow> \<not> p i)"
  using assms
proof (induction up f r rule: bound.induct)
  case (1 up f r)
  show ?case
  proof (cases "f \<le> r")
    case False
    then have "bound up f r = (f, f - 1, True)" using 1(5) by (simp add: bound.simps)
    then show ?thesis using False 1(5) by (intro exI [of _ f]) auto
  next
    case True
    let ?m = "(f + r) div 2"
    have m: "f \<le> ?m" "?m \<le> r" using True by linarith+
    show ?thesis
    proof (cases "p ?m")
      case t: True
      then have u: "up ?m = Some True" using 1(3) m by simp
      have "\<exists>b. bound up (?m + 1) r = (b, b - 1, True) \<and> ?m + 1 \<le> b \<and> b \<le> r + 1 \<and> (\<forall>i. ?m + 1 \<le> i \<and> i < b \<longrightarrow> p i) \<and>
          (\<forall>i. b \<le> i \<and> i \<le> r \<longrightarrow> \<not> p i)"
        by (rule 1(1) [OF True u refl]) (use 1(3,4) m in auto)
      then obtain b where b: "bound up (?m + 1) r = (b, b - 1, True)" "?m + 1 \<le> b" "b \<le> r + 1" "\<forall>i. ?m + 1 \<le> i \<and> i < b \<longrightarrow> p i"
        "\<forall>i. b \<le> i \<and> i \<le> r \<longrightarrow> \<not> p i" by blast
      have "p i" if "f \<le> i" "i < b" for i
        using that b(4) 1(4) [of i ?m] t m by (cases "i \<le> ?m") auto
      moreover have "bound up f r = (b, b - 1, True)" using True u b(1) by (subst bound.simps) simp
      ultimately show ?thesis using b m by (intro exI [of _ b]) auto
    next
      case t: False
      then have u: "up ?m = Some False" using 1(3) m by simp
      have "\<exists>b. bound up f (?m - 1) = (b, b - 1, True) \<and> f \<le> b \<and> b \<le> ?m - 1 + 1 \<and> (\<forall>i. f \<le> i \<and> i < b \<longrightarrow> p i) \<and>
          (\<forall>i. b \<le> i \<and> i \<le> ?m - 1 \<longrightarrow> \<not> p i)"
        by (rule 1(2) [OF True u refl]) (use 1(3,4) m in auto)
      then obtain b where b: "bound up f (?m - 1) = (b, b - 1, True)" "f \<le> b" "b \<le> ?m" "\<forall>i. f \<le> i \<and> i < b \<longrightarrow> p i"
        "\<forall>i. b \<le> i \<and> i \<le> ?m - 1 \<longrightarrow> \<not> p i" by auto
      have "\<not> p i" if "b \<le> i" "i \<le> r" for i
        using that b(2,5) 1(4) [of ?m i] t m by (cases "i \<le> ?m - 1") auto
      moreover have "bound up f r = (b, b - 1, True)" using True u b(1) by (subst bound.simps) simp
      ultimately show ?thesis using b m by (intro exI [of _ b]) auto
    qed
  qed
qed

text \<open>The comparison of the loops that look for an entry with a key.\<close>

definition compares :: "(int \<Rightarrow> direction option) \<Rightarrow> (int \<Rightarrow> 'a :: linorder) \<Rightarrow> 'a \<Rightarrow> int \<Rightarrow> int \<Rightarrow> bool" where
  "compares dir key k f r \<longleftrightarrow> (\<forall>i. f \<le> i \<and> i \<le> r \<longrightarrow> dir i = Some (if k < key i then Below else if key i < k then Above else Here))"

lemma findEqual_found:
  assumes "compares dir key k f r" and "\<And>i j. f \<le> i \<Longrightarrow> i < j \<Longrightarrow> j \<le> r \<Longrightarrow> key i < key j" and "f \<le> i" "i \<le> r" "key i = k"
  shows "snd (findEqual dir f r) = FoundAt i"
  using assms
proof (induction dir f r rule: findEqual.induct)
  case (1 dir f r)
  let ?m = "(f + r) div 2"
  have m: "f \<le> r" "f \<le> ?m" "?m \<le> r" using 1(5,6) by linarith+
  have dm: "dir ?m = Some (if k < key ?m then Below else if key ?m < k then Above else Here)" using 1(3) m by (simp add: compares_def)
  consider "i < ?m" | "?m < i" | "i = ?m" by (rule linorder_cases)
  then show ?case
  proof cases
    case a: 1
    then have d: "dir ?m = Some Below" using dm 1(4) [of i ?m] 1(5,7) m by simp
    have "snd (findEqual dir f (?m - 1)) = FoundAt i"
      by (rule 1(1) [OF m(1) d refl]) (use 1(3-7) a m in \<open>simp_all add: compares_def\<close>)
    then show ?thesis using m(1) d by (subst findEqual.simps) simp
  next
    case a: 2
    then have "key ?m < k" using 1(4) [of ?m i] 1(6,7) m by simp
    then have d: "dir ?m = Some Above" using dm by auto
    have "snd (findEqual dir (?m + 1) r) = FoundAt i"
      by (rule 1(2) [OF m(1) d refl]) (use 1(3-7) a m in \<open>simp_all add: compares_def\<close>)
    then show ?thesis using m(1) d by (subst findEqual.simps) simp
  next
    case a: 3
    then have "dir ?m = Some Here" using dm 1(7) by simp
    then show ?thesis using m(1) a by (subst findEqual.simps) simp
  qed
qed

lemma findEqual_missing:
  assumes "compares dir key k f r" and "\<And>i. f \<le> i \<Longrightarrow> i \<le> r \<Longrightarrow> key i \<noteq> k"
  shows "snd (findEqual dir f r) = NotThere"
  using assms
proof (induction dir f r rule: findEqual.induct)
  case (1 dir f r)
  show ?case
  proof (cases "f \<le> r")
    case False
    then show ?thesis by (subst findEqual.simps) simp
  next
    case True
    let ?m = "(f + r) div 2"
    have m: "f \<le> ?m" "?m \<le> r" using True by linarith+
    have dm: "dir ?m = Some (if k < key ?m then Below else if key ?m < k then Above else Here)" using 1(3) m by (simp add: compares_def)
    show ?thesis
    proof (cases "k < key ?m")
      case k: True
      then have d: "dir ?m = Some Below" using dm by simp
      have "snd (findEqual dir f (?m - 1)) = NotThere"
        by (rule 1(1) [OF True d refl]) (use 1(3,4) m in \<open>simp_all add: compares_def\<close>)
      then show ?thesis using True d by (subst findEqual.simps) simp
    next
      case k: False
      then have d: "dir ?m = Some Above" using dm 1(4) [OF m] by simp
      have "snd (findEqual dir (?m + 1) r) = NotThere"
        by (rule 1(2) [OF True d refl]) (use 1(3,4) m in \<open>simp_all add: compares_def\<close>)
      then show ?thesis using True d by (subst findEqual.simps) simp
    qed
  qed
qed


subsection \<open>Sizes\<close>

definition m_size_align :: "(u64 \<times> u64) list" where
  "m_size_align =
     [(512, 512), (1024, 1024), (4096, 4096), (8192, 8192), (32768, 32768), (131072, 65536), (524288, 131072), (1048576, 1048576),
      (8388608, 2097152), (16777216, 4194304), (33554432, 8388608), (41943040, 8388608)]"

definition ALIGNSIZE :: "u64 \<Rightarrow> u64 \<Rightarrow> u64" where
  "ALIGNSIZE n align = (n + (align - 1)) AND NOT (align - 1)"

definition GetRealSize :: "u64 \<Rightarrow> u32" where
  "GetRealSize userSize =
     (let front = fst (bound (\<lambda>i. Some (userSize > fst (m_size_align ! nat i))) 0 (int (length m_size_align) - 1));
          i = (if front \<ge> int (length m_size_align) then int (length m_size_align) - 1 else front);
          realSize = ALIGNSIZE userSize (snd (m_size_align ! nat i))
      in ucast (if realSize = userSize then realSize + of_nat (DEV_MEMORY_MARK_OFFSET * 2) else realSize))"

text \<open>The granularity a size is rounded up to.\<close>

definition granularity :: "nat \<Rightarrow> nat" where
  "granularity n =
     (case List.find (\<lambda>(s, _). n \<le> unat s) m_size_align of Some (_, a) \<Rightarrow> unat a | None \<Rightarrow> 8388608)"

definition roundUp :: "nat \<Rightarrow> nat \<Rightarrow> nat" where
  "roundUp n a = (n + (a - 1)) div a * a"

lemma and_not_mask_unat: "unat (x AND NOT (mask k)) = unat x div 2 ^ k * 2 ^ k" if "k < 64" for x :: u64
proof -
  have shift: "x AND NOT (mask k) = push_bit k (drop_bit k x)" by (rule bit_word_eqI) (auto simp: bit_simps)
  have le: "unat x div 2 ^ k * 2 ^ k \<le> unat x" by simp
  have "unat x < 2 ^ LENGTH(64)" by (rule unsigned_less)
  then have "unat x < 2 ^ 64" by simp
  with le have "unat x div 2 ^ k * 2 ^ k < 2 ^ 64" by (rule le_less_trans)
  then have small: "push_bit k (drop_bit k (unat x)) < 2 ^ 64" by (simp add: drop_bit_eq_div push_bit_eq_mult)
  have "unat (push_bit k (drop_bit k x)) = take_bit LENGTH(64) (push_bit k (drop_bit k (take_bit LENGTH(64) (unat x))))"
    by (simp only: unsigned_push_bit_eq unsigned_drop_bit_eq)
  also have "\<dots> = push_bit k (drop_bit k (unat x))" using small \<open>unat x < 2 ^ 64\<close> by (simp add: take_bit_nat_eq_self)
  finally show ?thesis unfolding shift by (simp add: drop_bit_eq_div push_bit_eq_mult)
qed

lemma align_powers: "map snd m_size_align = map (\<lambda>k. 2 ^ k) [9, 10, 12, 13, 15, 16, 17, 20, 21, 22, 23, 23]"
  by (simp add: m_size_align_def)

lemma align_sorted: "sorted (map fst m_size_align)"
  by (simp add: m_size_align_def)

lemma align_small: "a \<in> snd ` set m_size_align \<Longrightarrow> 0 < unat a \<and> unat a \<le> 2 ^ 23"
  by (auto simp: m_size_align_def)

lemma roundUp_small: "0 < a \<Longrightarrow> roundUp n a < n + a"
proof -
  assume "0 < a"
  have "roundUp n a \<le> n + (a - 1)" by (simp add: roundUp_def)
  then show ?thesis using \<open>0 < a\<close> by simp
qed

lemma ALIGNSIZE_exact:
  assumes "unat n < 2 ^ 32" and "a \<in> snd ` set m_size_align"
  shows "unat (ALIGNSIZE n a) = roundUp (unat n) (unat a)"
proof -
  have "a \<in> set (map snd m_size_align)" using assms(2) by simp
  then obtain k where k: "a = 2 ^ k" "k \<in> set [9, 10, 12, 13, 15, 16, 17, 20, 21, 22, 23, 23 :: nat]" unfolding align_powers set_map by blast
  then have k23: "k \<le> 23" by auto
  have a: "a - 1 = mask k" "unat a = 2 ^ k" "unat (a - 1) = unat a - 1" "unat (a - 1) < 2 ^ 23"
    using k by (auto simp: mask_eq_exp_minus_1)
  have "unat (n + (a - 1)) = unat n + unat (a - 1)" using assms(1) a(4) by (simp add: unat_word_ariths)
  then show ?thesis using k23 a and_not_mask_unat [of k "n + (a - 1)"] by (simp add: ALIGNSIZE_def roundUp_def)
qed

lemma size_entry:
  "\<exists>b. bound (\<lambda>i. Some (userSize > fst (m_size_align ! nat i))) 0 (int (length m_size_align) - 1) = (int b, int b - 1, True) \<and> b \<le> length m_size_align \<and>
     (\<forall>i < b. fst (m_size_align ! i) < userSize) \<and> (\<forall>i. b \<le> i \<and> i < length m_size_align \<longrightarrow> userSize \<le> fst (m_size_align ! i))"
proof -
  let ?n = "length m_size_align"
  have mono: "fst (m_size_align ! nat i) \<le> fst (m_size_align ! nat j)" if "0 \<le> i" "i \<le> j" "j \<le> int ?n - 1" for i j
    using sorted_nth_mono [OF align_sorted, of "nat i" "nat j"] that by simp
  obtain b where b: "bound (\<lambda>i. Some (userSize > fst (m_size_align ! nat i))) 0 (int ?n - 1) = (b, b - 1, True)" "0 \<le> b" "b \<le> int ?n"
    "\<forall>i. 0 \<le> i \<and> i < b \<longrightarrow> fst (m_size_align ! nat i) < userSize" "\<forall>i. b \<le> i \<and> i \<le> int ?n - 1 \<longrightarrow> \<not> fst (m_size_align ! nat i) < userSize"
  proof -
    have "\<exists>b. bound (\<lambda>i. Some (userSize > fst (m_size_align ! nat i))) 0 (int ?n - 1) = (b, b - 1, True) \<and> 0 \<le> b \<and> b \<le> int ?n - 1 + 1 \<and>
        (\<forall>i. 0 \<le> i \<and> i < b \<longrightarrow> userSize > fst (m_size_align ! nat i)) \<and> (\<forall>i. b \<le> i \<and> i \<le> int ?n - 1 \<longrightarrow> \<not> userSize > fst (m_size_align ! nat i))"
    proof (rule bound_ok)
      show "userSize > fst (m_size_align ! nat i)" if "0 \<le> i" "i \<le> j" "j \<le> int ?n - 1" "userSize > fst (m_size_align ! nat j)" for i j
        using mono [OF that(1-3)] that(4) by (rule order.strict_trans1)
    qed simp_all
    then show thesis using that by auto
  qed
  have "fst (m_size_align ! i) < userSize" if "i < nat b" for i using b(4) [rule_format, of "int i"] that by simp
  moreover have "userSize \<le> fst (m_size_align ! i)" if "nat b \<le> i" "i < ?n" for i using b(5) [rule_format, of "int i"] that b(2) by (simp add: not_less)
  ultimately show ?thesis using b(1,2,3) by (intro exI [of _ "nat b"]) simp
qed

text \<open>The halving finds the first entry that is large enough, and the block is the size rounded up.\<close>

lemma GetRealSize_exact:
  assumes "unat n < 2 ^ 32"
  defines "r \<equiv> roundUp (unat n) (granularity (unat n))"
  shows "unat (GetRealSize n) = (if r = unat n then r + 16 else r) mod 2 ^ 32"
proof -
  let ?t = m_size_align
  obtain b where b: "bound (\<lambda>i. Some (n > fst (?t ! nat i))) 0 (int (length ?t) - 1) = (int b, int b - 1, True)" "b \<le> length ?t"
    "\<forall>i < b. fst (?t ! i) < n" "\<forall>i. b \<le> i \<and> i < length ?t \<longrightarrow> n \<le> fst (?t ! i)" using size_entry [of n] by blast
  have len: "length ?t = 12" by (simp add: m_size_align_def)
  let ?i = "if b \<ge> 12 then 11 else b"
  let ?a = "snd (?t ! ?i)"
  have g: "granularity (unat n) = unat ?a"
  proof (cases "b \<ge> 12")
    case True
    then have "List.find (\<lambda>(s, _). unat n \<le> unat s) ?t = None"
      using b(2,3) len by (fastforce simp: find_None_iff in_set_conv_nth word_less_nat_alt)
    then show ?thesis using True by (simp add: granularity_def) (simp add: m_size_align_def)
  next
    case False
    have "List.find (\<lambda>(s, _). unat n \<le> unat s) ?t = Some (?t ! b)"
      unfolding find_Some_iff using False b(3,4) len
      by (intro exI [of _ b]) (auto simp: word_le_nat_alt word_less_nat_alt split: prod.splits)
    then show ?thesis using False by (simp add: granularity_def split: prod.splits)
  qed
  have a: "?a \<in> snd ` set ?t" using len by (intro imageI nth_mem) simp
  have A: "unat (ALIGNSIZE n ?a) = r" using ALIGNSIZE_exact [OF assms(1) a] g by (simp add: r_def)
  have small: "r < 2 ^ 33" using roundUp_small [of "unat ?a" "unat n"] align_small [OF a] assms(1) g by (simp add: r_def)
  have real: "GetRealSize n = ucast (if ALIGNSIZE n ?a = n then ALIGNSIZE n ?a + 16 else ALIGNSIZE n ?a)"
    using b(1) len by (auto simp: GetRealSize_def Let_def)
  have "unat (ucast x :: u32) = unat x mod 2 ^ 32" for x :: u64 by (simp add: unsigned_ucast_eq take_bit_eq_mod)
  moreover have "unat (ALIGNSIZE n ?a + 16) = r + 16" using A small by (simp add: unat_word_ariths)
  moreover have "ALIGNSIZE n ?a = n \<longleftrightarrow> r = unat n" using A by (simp add: word_unat_eq_iff)
  ultimately show ?thesis using A unfolding real by simp
qed


subsection \<open>The pool\<close>

record Dev_MemoryPool_node =
  nodeAddr :: "nat option"
  userSzie :: u32
  nodeUsed :: bool

record Dev_MemoryPool_list =
  realSize :: u32
  unallocdNodeIndex :: "nat list"
  AllocdButUnusedNodeIndex :: "nat list"
  p_node :: "Dev_MemoryPool_node option list"

text \<open>\<open>poolHeap\<close> are the blocks of the system.\<close>

record DevMemoryPool =
  poolInit :: bool
  poolLocked :: bool
  AllocdAndusedListIndex :: "nat list"
  AllocdButUnusedListIndex :: "nat list"
  p_list :: "Dev_MemoryPool_list option list"
  m_addr_map :: "(nat \<times> nat) list"
  m_realSize_map :: "(nat \<times> nat) list"
  poolHeap :: "nat \<Rightarrow> u8 list option"

definition allNum :: "Dev_MemoryPool_list \<Rightarrow> nat" where
  "allNum l = DEV_MEMORY_POOL_NODE_MAX - length (unallocdNodeIndex l)"

definition unusedAllocdNum :: "Dev_MemoryPool_list \<Rightarrow> nat" where
  "unusedAllocdNum l = length (AllocdButUnusedNodeIndex l)"

definition nodeAt :: "DevMemoryPool \<Rightarrow> nat \<times> nat \<Rightarrow> (Dev_MemoryPool_list \<times> Dev_MemoryPool_node) option" where
  "nodeAt st x = (case p_list st ! fst x of None \<Rightarrow> None | Some l \<Rightarrow> map_option (Pair l) (p_node l ! snd x))"

definition keyAddr :: "Dev_MemoryPool_node \<Rightarrow> nat" where
  "keyAddr n = (case nodeAddr n of None \<Rightarrow> 0 | Some a \<Rightarrow> a)"

definition updList :: "nat \<Rightarrow> (Dev_MemoryPool_list \<Rightarrow> Dev_MemoryPool_list) \<Rightarrow> DevMemoryPool \<Rightarrow> DevMemoryPool" where
  "updList li f st = st\<lparr>p_list := (p_list st)[li := map_option f (p_list st ! li)]\<rparr>"

definition updNode :: "nat \<times> nat \<Rightarrow> (Dev_MemoryPool_node \<Rightarrow> Dev_MemoryPool_node) \<Rightarrow> DevMemoryPool \<Rightarrow> DevMemoryPool" where
  "updNode x f = updList (fst x) (\<lambda>l. l\<lparr>p_node := (p_node l)[snd x := map_option f (p_node l ! snd x)]\<rparr>)"

definition insertAt :: "nat \<Rightarrow> 'a \<Rightarrow> 'a list \<Rightarrow> 'a list" where
  "insertAt i x xs = take i xs @ x # drop i xs"

definition removeAt :: "nat \<Rightarrow> 'a list \<Rightarrow> 'a list" where
  "removeAt i xs = take i xs @ drop (Suc i) xs"

definition listDir :: "u32 \<Rightarrow> DevMemoryPool \<Rightarrow> int \<Rightarrow> direction option" where
  "listDir bsize st i = map_option (\<lambda>l. if bsize < realSize l then Below else if bsize > realSize l then Above else Here)
     (p_list st ! (AllocdAndusedListIndex st ! nat i))"

definition newList :: "u32 \<Rightarrow> Dev_MemoryPool_list" where
  "newList bsize = \<lparr>realSize = bsize, unallocdNodeIndex = [0..<DEV_MEMORY_POOL_NODE_MAX], AllocdButUnusedNodeIndex = [],
     p_node = replicate DEV_MEMORY_POOL_NODE_MAX None\<rparr>"

text \<open>\<open>memory\<close>: the system has memory for the list.\<close>

definition GetList :: "bool \<Rightarrow> u32 \<Rightarrow> DevMemoryPool \<Rightarrow> nat option \<times> DevMemoryPool" where
  "GetList memory bsize st =
     (let used = AllocdAndusedListIndex st; rear = int (length used) - 1 in
      case snd (findEqual (listDir bsize st) 0 rear) of
        FoundAt i \<Rightarrow> (Some (used ! nat i), st)
      | _ \<Rightarrow>
          if AllocdButUnusedListIndex st = [] then (None, st)
          else let li = last (AllocdButUnusedListIndex st) in
               if p_list st ! li \<noteq> None \<or> \<not> memory then (None, st)
               else let front = fst (bound (\<lambda>i. map_option (\<lambda>l. bsize > realSize l) (p_list st ! (used ! nat i))) 0 rear)
                    in (Some li, st\<lparr>p_list := (p_list st)[li := Some (newList bsize)],
                                    AllocdAndusedListIndex := insertAt (nat front) li used,
                                    AllocdButUnusedListIndex := butlast (AllocdButUnusedListIndex st)\<rparr>))"

text \<open>The entry that is taken out is the one at the beginning of the range in which the search ended.\<close>

definition RemoveList :: "nat \<Rightarrow> DevMemoryPool \<Rightarrow> DevMemoryPool" where
  "RemoveList li st =
     (case p_list st ! li of
        None \<Rightarrow> st
      | Some l \<Rightarrow>
          if allNum l = 0 \<and> unusedAllocdNum l = 0
          then let used = AllocdAndusedListIndex st;
                   front = nat (fst (findEqual (listDir (realSize l) st) 0 (int (length used) - 1)))
               in st\<lparr>AllocdAndusedListIndex := (if front < length used then removeAt front used else butlast used),
                     p_list := (p_list st)[li := None],
                     AllocdButUnusedListIndex := AllocdButUnusedListIndex st @ [li]\<rparr>
          else st)"

definition FRONT_MARK :: u64 where "FRONT_MARK = 0xFA4FFFA5084CB5CF"
definition REAR_MARK :: u64 where "REAR_MARK = 0xFB453A5FC78D3FDF"

text \<open>Where the rear mark is; the sum is one of 32-bit words.\<close>

definition rearPlace :: "Dev_MemoryPool_node \<Rightarrow> int" where
  "rearPlace n = int (unat (userSzie n + of_nat DEV_MEMORY_MARK_OFFSET))"

definition poolCheck :: "Dev_MemoryPool_node \<Rightarrow> DevMemoryPool \<Rightarrow> bool outcome" where
  "poolCheck n st =
     (case nodeAddr n of
        None \<Rightarrow> Inr True
      | Some a \<Rightarrow>
          (case poolHeap st a of
             None \<Rightarrow> Inl BadFree
           | Some block \<Rightarrow>
               bindE (loadBytes 0 8 block) (\<lambda>front.
               bindE (loadBytes (rearPlace n) 8 block) (\<lambda>rear.
                 Inr (front = valueBytes 8 FRONT_MARK \<and> rear = valueBytes 8 REAR_MARK)))))"

definition poolMark :: "Dev_MemoryPool_node \<Rightarrow> DevMemoryPool \<Rightarrow> DevMemoryPool outcome" where
  "poolMark n st =
     (case nodeAddr n of
        None \<Rightarrow> Inr st
      | Some a \<Rightarrow>
          (case poolHeap st a of
             None \<Rightarrow> Inl BadFree
           | Some block \<Rightarrow>
               bindE (storeBytes 0 (valueBytes 8 FRONT_MARK) block) (\<lambda>block1.
               bindE (storeBytes (rearPlace n) (valueBytes 8 REAR_MARK) block1) (\<lambda>block2.
                 Inr (st\<lparr>poolHeap := (poolHeap st)(a \<mapsto> block2)\<rparr>)))))"

text \<open>\<open>memory\<close>: there is memory for the node, \<open>system\<close>: what \<open>malloc\<close> answers for the block.\<close>

definition GetNode :: "bool \<Rightarrow> (nat \<times> u8 list) option \<Rightarrow> nat \<Rightarrow> DevMemoryPool \<Rightarrow> (nat option \<times> DevMemoryPool) outcome" where
  "GetNode memory system li st =
     (case p_list st ! li of
        None \<Rightarrow> Inr (None, st)
      | Some l \<Rightarrow>
          let fresh = (if unallocdNodeIndex l = [] then Inl BadIndex
                       else let ni = last (unallocdNodeIndex l) in
                            if p_node l ! ni \<noteq> None \<or> \<not> memory then Inr (None, st)
                            else Inr (Some ni, (updList li (\<lambda>l. l\<lparr>unallocdNodeIndex := butlast (unallocdNodeIndex l),
                                      p_node := (p_node l)[ni := Some \<lparr>nodeAddr = map_option fst system, userSzie = 0, nodeUsed = False\<rparr>]\<rparr>) st)
                                    \<lparr>poolHeap := (case system of None \<Rightarrow> poolHeap st | Some (a, block) \<Rightarrow> (poolHeap st)(a \<mapsto> block))\<rparr>))
          in if AllocdButUnusedNodeIndex l = [] then fresh
             else let ni = last (AllocdButUnusedNodeIndex l) in
                  case p_node l ! ni of
                    None \<Rightarrow> Inl NullDeref
                  | Some n \<Rightarrow>
                      if nodeUsed n then fresh
                      else bindE (poolCheck n st) (\<lambda>_.
                             Inr (Some ni, updList li (\<lambda>l. l\<lparr>AllocdButUnusedNodeIndex := butlast (AllocdButUnusedNodeIndex l)\<rparr>) st)))"

definition AddAddrMap :: "nat \<Rightarrow> nat \<times> nat \<Rightarrow> DevMemoryPool \<Rightarrow> bool \<times> DevMemoryPool" where
  "AddAddrMap a x st =
     (let m = m_addr_map st in
      if length m \<ge> POOL_MAP_MAX then (False, st)
      else case bound (\<lambda>i. map_option (\<lambda>(l, n). a > keyAddr n) (nodeAt st (m ! nat i))) 0 (int (length m) - 1) of
             (front, rear, True) \<Rightarrow> (True, st\<lparr>m_addr_map := insertAt (nat front) x m\<rparr>)
           | (_, _, False) \<Rightarrow> (False, st))"

definition addrDir :: "nat \<Rightarrow> (nat \<times> nat) list \<Rightarrow> DevMemoryPool \<Rightarrow> int \<Rightarrow> direction option" where
  "addrDir a m st i = map_option (\<lambda>(l, n). if a < keyAddr n then Below else if a > keyAddr n then Above else Here) (nodeAt st (m ! nat i))"

definition RemoveAddrMap :: "nat \<Rightarrow> DevMemoryPool \<Rightarrow> (nat \<times> nat) option \<times> DevMemoryPool" where
  "RemoveAddrMap a st =
     (let m = m_addr_map st in
      if length m \<ge> POOL_MAP_MAX then (None, st)
      else case snd (findEqual (addrDir a m st) 0 (int (length m) - 1)) of
             FoundAt i \<Rightarrow> (Some (m ! nat i), st\<lparr>m_addr_map := removeAt (nat i) m\<rparr>)
           | _ \<Rightarrow> (None, st))"

text \<open>The part of the map whose blocks have this size.\<close>

definition sizeRange :: "u32 \<Rightarrow> DevMemoryPool \<Rightarrow> int \<times> int \<times> bool" where
  "sizeRange bsize st =
     (let m = m_realSize_map st; hind = int (length m) - 1;
          (front, _, ok1) = bound (\<lambda>i. map_option (\<lambda>l. bsize > realSize l) (p_list st ! fst (m ! nat i))) 0 hind;
          (_, rear, ok2) = bound (\<lambda>i. map_option (\<lambda>l. \<not> bsize < realSize l) (p_list st ! fst (m ! nat i))) front hind
      in (front, rear, ok1 \<and> ok2))"

definition AddRealSizeMap :: "nat \<Rightarrow> u32 \<Rightarrow> nat \<times> nat \<Rightarrow> DevMemoryPool \<Rightarrow> bool \<times> DevMemoryPool" where
  "AddRealSizeMap a bsize x st =
     (let m = m_realSize_map st; (front, rear, ok) = sizeRange bsize st in
      if length m \<ge> POOL_MAP_MAX \<or> \<not> ok then (False, st)
      else case bound (\<lambda>i. map_option (\<lambda>(l, n). a > keyAddr n) (nodeAt st (m ! nat i))) front rear of
             (place, _, True) \<Rightarrow> (True, st\<lparr>m_realSize_map := insertAt (nat place) x m\<rparr>)
           | (_, _, False) \<Rightarrow> (False, st))"

definition RemoveRealSizeMap :: "nat \<Rightarrow> u32 \<Rightarrow> DevMemoryPool \<Rightarrow> bool \<times> DevMemoryPool" where
  "RemoveRealSizeMap a bsize st =
     (let m = m_realSize_map st; (front, rear, ok) = sizeRange bsize st in
      if \<not> ok then (False, st)
      else case snd (findEqual (addrDir a m st) front rear) of
             FoundAt i \<Rightarrow> (True, st\<lparr>m_realSize_map := removeAt (nat i) m\<rparr>)
           | _ \<Rightarrow> (False, st))"


definition m_free_threshold :: "(u64 \<times> int) list" where
  "m_free_threshold =
     [(1024, 128), (131072, 64), (262144, 32), (6144, 20), (524288, 10), (655360, 9), (786432, 8), (917504, 7), (1048576, 6), (10485760, 5),
      (20971520, 4), (31457280, 3), (41943040, 2), (52428800, 1), (62914560, 0), (0xFFFFFFFFFFFFFFFF, 0)]"

definition GetRealFree :: "Dev_MemoryPool_list \<Rightarrow> bool" where
  "GetRealFree l =
     (case List.find (\<lambda>(s, _). s \<ge> ucast (realSize l)) m_free_threshold of
        None \<Rightarrow> False
      | Some (_, count) \<Rightarrow> int (unusedAllocdNum l) \<ge> count)"

text \<open>A block is given back to the system or kept for the next request.\<close>

definition RemoveNode :: "nat \<times> nat \<Rightarrow> DevMemoryPool \<Rightarrow> (bool \<times> DevMemoryPool) outcome" where
  "RemoveNode x st =
     (case nodeAt st x of
        None \<Rightarrow> Inr (False, st)
      | Some (l, n) \<Rightarrow>
          if allNum l = 0 then Inr (False, st)
          else if GetRealFree l
          then bindE (case nodeAddr n of
                        None \<Rightarrow> Inr (poolHeap st)
                      | Some a \<Rightarrow> if poolHeap st a = None then Inl BadFree else Inr ((poolHeap st)(a := None))) (\<lambda>heap.
                 Inr (True, (updList (fst x) (\<lambda>l. l\<lparr>p_node := (p_node l)[snd x := None],
                                                     unallocdNodeIndex := unallocdNodeIndex l @ [snd x]\<rparr>) st)\<lparr>poolHeap := heap\<rparr>))
          else Inr (True, updList (fst x) (\<lambda>l. l\<lparr>AllocdButUnusedNodeIndex := AllocdButUnusedNodeIndex l @ [snd x]\<rparr>) st))"

text \<open>The result is the address of the block; the caller's data begins behind the front mark.\<close>

definition DevMemoryPool_Malloc :: "bool \<Rightarrow> bool \<Rightarrow> (nat \<times> u8 list) option \<Rightarrow> u32 \<Rightarrow> DevMemoryPool \<Rightarrow> (nat option \<times> DevMemoryPool) outcome" where
  "DevMemoryPool_Malloc listMemory nodeMemory system bytes st =
     (if \<not> poolInit st then Inr (None, st)
      else if poolLocked st then Inl WouldBlock
      else let bsize = GetRealSize (ucast bytes) in
      case GetList listMemory bsize st of
        (None, st1) \<Rightarrow> Inr (None, st1)
      | (Some li, st1) \<Rightarrow>
          bindE (GetNode nodeMemory system li st1) (\<lambda>(found, st2).
            case found of
              None \<Rightarrow> Inr (None, st2)
            | Some ni \<Rightarrow>
                let st3 = updNode (li, ni) (\<lambda>n. n\<lparr>userSzie := bytes\<rparr>) st2 in
                case nodeAt st3 (li, ni) of
                  None \<Rightarrow> Inl NullDeref
                | Some (l, n) \<Rightarrow>
                    (case nodeAddr n of
                       None \<Rightarrow> Inr (None, st3)
                     | Some a \<Rightarrow>
                         bindE (poolMark n st3) (\<lambda>st4.
                           case AddAddrMap a (li, ni) st4 of
                             (False, st5) \<Rightarrow> Inr (None, st5)
                           | (True, st5) \<Rightarrow>
                               (case AddRealSizeMap a bsize (li, ni) st5 of
                                  (False, st6) \<Rightarrow> Inr (None, st6)
                                | (True, st6) \<Rightarrow>
                                    Inr (Some a, updList li (\<lambda>l. l\<lparr>realSize := bsize\<rparr>)
                                                   (updNode (li, ni) (\<lambda>n. n\<lparr>nodeUsed := True\<rparr>) st6)))))))"

definition DevMemoryPool_Free :: "nat option \<Rightarrow> DevMemoryPool \<Rightarrow> (bool \<times> DevMemoryPool) outcome" where
  "DevMemoryPool_Free addr st =
     (if \<not> poolInit st then Inr (False, st)
      else case addr of
        None \<Rightarrow> Inr (True, st)
      | Some a \<Rightarrow>
          if poolLocked st then Inl WouldBlock
          else case RemoveAddrMap a st of
                 (None, st1) \<Rightarrow> Inr (False, st1)
               | (Some x, st1) \<Rightarrow>
                   (case nodeAt st1 x of
                      None \<Rightarrow> Inr (False, st1\<lparr>poolLocked := True\<rparr>)
                    | Some (l, n) \<Rightarrow>
                        (case RemoveRealSizeMap a (realSize l) st1 of
                           (False, st2) \<Rightarrow> Inr (False, st2)
                         | (True, st2) \<Rightarrow>
                             bindE (poolCheck n st2) (\<lambda>intact.
                               if \<not> intact then Inr (False, st2)
                               else bindE (RemoveNode x (updNode x (\<lambda>n. n\<lparr>nodeUsed := False\<rparr>) st2)) (\<lambda>(removed, st3).
                                      if \<not> removed then Inr (False, st3)
                                      else Inr (True, RemoveList (fst x) st3))))))"

definition DevMemoryPool_Init :: "bool \<Rightarrow> DevMemoryPool \<Rightarrow> bool \<times> DevMemoryPool" where
  "DevMemoryPool_Init mutex st =
     (if poolInit st then (True, st)
      else if \<not> mutex then (False, st)
      else (True, st\<lparr>poolInit := True, poolLocked := False, AllocdAndusedListIndex := [], AllocdButUnusedListIndex := [0..<DEV_MEMORY_POOL_LIST_MAX],
                     p_list := replicate DEV_MEMORY_POOL_LIST_MAX None, m_addr_map := [], m_realSize_map := []\<rparr>))"

fun freeBlocks :: "nat list \<Rightarrow> (nat \<Rightarrow> u8 list option) \<Rightarrow> (nat \<Rightarrow> u8 list option) outcome" where
  "freeBlocks [] heap = Inr heap"
| "freeBlocks (a # as) heap = (if heap a = None then Inl BadFree else freeBlocks as (heap(a := None)))"

definition listBlocks :: "Dev_MemoryPool_list option \<Rightarrow> nat list" where
  "listBlocks slot = (case slot of None \<Rightarrow> [] | Some l \<Rightarrow>
     concat (map (\<lambda>e. case e of None \<Rightarrow> [] | Some n \<Rightarrow> (case nodeAddr n of None \<Rightarrow> [] | Some a \<Rightarrow> [a])) (p_node l)))"

definition DevMemoryPool_Deinit :: "DevMemoryPool \<Rightarrow> (bool \<times> DevMemoryPool) outcome" where
  "DevMemoryPool_Deinit st =
     (if \<not> poolInit st then Inr (True, st)
      else if m_realSize_map st \<noteq> [] \<and> poolLocked st then Inl WouldBlock
      else bindE (freeBlocks (concat (map listBlocks (p_list st))) (poolHeap st)) (\<lambda>heap.
             Inr (True, st\<lparr>poolInit := False, AllocdAndusedListIndex := [], AllocdButUnusedListIndex := [], p_list := replicate DEV_MEMORY_POOL_LIST_MAX None,
                           m_addr_map := [], m_realSize_map := [], poolHeap := heap\<rparr>)))"


subsection \<open>Sorted maps\<close>

lemma sorted_insertAt:
  assumes "sorted_wrt (<) ks" and "b \<le> length ks" and "\<And>i. i < b \<Longrightarrow> ks ! i < k" and "\<And>i. b \<le> i \<Longrightarrow> i < length ks \<Longrightarrow> (k :: 'a :: linorder) < ks ! i"
  shows "sorted_wrt (<) (insertAt b k ks)"
proof -
  have "sorted_wrt (<) (take b ks @ drop b ks)" using assms(1) by simp
  moreover have "\<forall>x \<in> set (take b ks). x < k" using assms(2,3) by (auto simp: in_set_conv_nth)
  moreover have "\<forall>x \<in> set (drop b ks). k < x" using assms(2,4) by (auto simp: in_set_conv_nth)
  ultimately show ?thesis unfolding insertAt_def by (simp only: sorted_wrt_append sorted_wrt.simps list.set) blast
qed

lemma sorted_removeAt: "sorted_wrt P ks \<Longrightarrow> sorted_wrt P (removeAt i ks)"
proof -
  assume s: "sorted_wrt P ks"
  then have "sorted_wrt P (take (Suc i) ks @ drop (Suc i) ks)" by simp
  then have d: "sorted_wrt P (drop (Suc i) ks)" "\<forall>x \<in> set (take (Suc i) ks). \<forall>y \<in> set (drop (Suc i) ks). P x y" unfolding sorted_wrt_append by blast+
  have "sorted_wrt P (take i ks @ drop i ks)" using s by simp
  then have "sorted_wrt P (take i ks)" by (simp only: sorted_wrt_append)
  moreover have "set (take i ks) \<subseteq> set (take (Suc i) ks)" by (rule set_take_subset_set_take) simp
  ultimately show ?thesis using d unfolding removeAt_def sorted_wrt_append by blast
qed

lemma set_insertAt [simp]: "set (insertAt b x xs) = insert x (set xs)"
  unfolding insertAt_def by (metis append_take_drop_id list.simps(15) set_append Un_insert_right)

lemma map_insertAt: "map f (insertAt b x xs) = insertAt b (f x) (map f xs)"
  by (simp add: insertAt_def take_map drop_map)

lemma map_removeAt: "map f (removeAt i xs) = removeAt i (map f xs)"
  by (simp add: removeAt_def take_map drop_map)

lemma set_removeAt:
  assumes "distinct xs" and "i < length xs"
  shows "set (removeAt i xs) = set xs - {xs ! i}"
proof -
  have "xs = take i xs @ xs ! i # drop (Suc i) xs" using assms(2) by (rule id_take_nth_drop)
  with assms(1) show ?thesis unfolding removeAt_def by (metis (no_types, lifting) Diff_insert_absorb Un_insert_right distinct.simps(2) distinct_append list.simps(15) set_append
        disjoint_insert(1) Un_iff)
qed

lemma sorted_distinct: "sorted_wrt (<) (map f xs) \<Longrightarrow> distinct xs" for f :: "'a \<Rightarrow> 'b :: linorder"
  by (metis distinct_map sorted_wrt_map strict_sorted_iff strict_sorted_equal sorted_wrt_iff_nth_less distinct_conv_nth less_irrefl linorder_neqE_nat)

lemma findEqual_here: "snd (findEqual dir f r) = FoundAt i \<Longrightarrow> f \<le> i \<and> i \<le> r \<and> dir i = Some Here"
proof (induction dir f r rule: findEqual.induct)
  case (1 dir f r)
  show ?case
  proof (cases "f \<le> r")
    case True
    let ?m = "(f + r) div 2"
    have m: "f \<le> ?m" "?m \<le> r" using True by linarith+
    show ?thesis
    proof (cases "dir ?m")
      case None
      then show ?thesis using 1(3) True by (subst (asm) findEqual.simps) simp
    next
      case (Some d)
      have "snd (findEqual dir f r) = (case d of Below \<Rightarrow> snd (findEqual dir f (?m - 1)) | Above \<Rightarrow> snd (findEqual dir (?m + 1) r) | Here \<Rightarrow> FoundAt ?m)"
        using True Some by (subst findEqual.simps) (simp split: direction.splits)
      then show ?thesis using 1 True Some m by (cases d) auto
    qed
  qed (use 1(3) in \<open>subst (asm) findEqual.simps, simp\<close>)
qed

subsection \<open>What the pool keeps in order\<close>

definition inRange :: "nat \<times> nat \<Rightarrow> bool" where
  "inRange x \<longleftrightarrow> fst x < DEV_MEMORY_POOL_LIST_MAX \<and> snd x < DEV_MEMORY_POOL_NODE_MAX"

text \<open>The node at a place, with the size of its class.\<close>

definition nodes :: "DevMemoryPool \<Rightarrow> nat \<times> nat \<Rightarrow> (u32 \<times> Dev_MemoryPool_node) option" where
  "nodes st x = (if inRange x then map_option (\<lambda>(l, n). (realSize l, n)) (nodeAt st x) else None)"

definition addrKey :: "(nat \<times> nat \<Rightarrow> (u32 \<times> Dev_MemoryPool_node) option) \<Rightarrow> nat \<times> nat \<Rightarrow> nat" where
  "addrKey N x = (case N x of None \<Rightarrow> 0 | Some (s, n) \<Rightarrow> keyAddr n)"

definition sizeKey :: "(nat \<times> nat \<Rightarrow> (u32 \<times> Dev_MemoryPool_node) option) \<Rightarrow> nat \<times> nat \<Rightarrow> u32 \<times> nat" where
  "sizeKey N x = (case N x of None \<Rightarrow> (0, 0) | Some (s, n) \<Rightarrow> (s, keyAddr n))"

definition holds :: "(nat \<times> nat \<Rightarrow> (u32 \<times> Dev_MemoryPool_node) option) \<Rightarrow> nat \<times> nat \<Rightarrow> bool" where
  "holds N x \<longleftrightarrow> (\<exists>s n a. N x = Some (s, n) \<and> nodeUsed n \<and> nodeAddr n = Some a \<and> unat (userSzie n) + 16 \<le> unat s)"

definition blocks_ok ::
  "(nat \<times> nat \<Rightarrow> (u32 \<times> Dev_MemoryPool_node) option) \<Rightarrow> (nat \<Rightarrow> u8 list option) \<Rightarrow> (nat \<times> nat) list \<Rightarrow> (nat \<times> nat) list \<Rightarrow> bool" where
  "blocks_ok N heap am sm \<longleftrightarrow>
     (\<forall>x s n a. N x = Some (s, n) \<and> nodeAddr n = Some a \<longrightarrow> (\<exists>bs. heap a = Some bs \<and> length bs = unat s)) \<and>
     (\<forall>x y s t n k a. N x = Some (s, n) \<and> N y = Some (t, k) \<and> nodeAddr n = Some a \<and> nodeAddr k = Some a \<longrightarrow> x = y) \<and>
     (\<forall>x \<in> set am. holds N x) \<and> set sm = set am \<and>
     sorted_wrt (<) (map (addrKey N) am) \<and> sorted_wrt (<) (map (sizeKey N) sm)"

lemma blocks_okD:
  assumes "blocks_ok N heap am sm"
  shows "N x = Some (s, n) \<Longrightarrow> nodeAddr n = Some a \<Longrightarrow> \<exists>bs. heap a = Some bs \<and> length bs = unat s"
    "N x = Some (s, n) \<Longrightarrow> N y = Some (t, k) \<Longrightarrow> nodeAddr n = Some a \<Longrightarrow> nodeAddr k = Some a \<Longrightarrow> x = y"
    "x \<in> set am \<Longrightarrow> holds N x" "set sm = set am" "sorted_wrt (<) (map (addrKey N) am)" "sorted_wrt (<) (map (sizeKey N) sm)"
  using assms unfolding blocks_ok_def by (blast, blast, blast, blast, blast, blast)

lemma blocks_okI:
  assumes "\<And>x s n a. N x = Some (s, n) \<Longrightarrow> nodeAddr n = Some a \<Longrightarrow> \<exists>bs. heap a = Some bs \<and> length bs = unat s"
    and "\<And>x y s n t k a. N x = Some (s, n) \<Longrightarrow> N y = Some (t, k) \<Longrightarrow> nodeAddr n = Some a \<Longrightarrow> nodeAddr k = Some a \<Longrightarrow> x = y"
    and "\<And>x. x \<in> set am \<Longrightarrow> holds N x" and "set sm = set am" and "sorted_wrt (<) (map (addrKey N) am)" and "sorted_wrt (<) (map (sizeKey N) sm)"
  shows "blocks_ok N heap am sm"
  unfolding blocks_ok_def
proof (intro conjI allI impI ballI)
  show "\<exists>bs. heap a = Some bs \<and> length bs = unat s" if "N x = Some (s, n) \<and> nodeAddr n = Some a" for x s n a using assms(1) that by blast
  show "x = y" if "N x = Some (s, n) \<and> N y = Some (t, k) \<and> nodeAddr n = Some a \<and> nodeAddr k = Some a" for x y s n t k a
    using assms(2) [of x s n y t k a] that by blast
qed (use assms in blast)+

lemma nodes_at: "nodes st x = Some (s, n) \<Longrightarrow> \<exists>l. nodeAt st x = Some (l, n) \<and> realSize l = s \<and> inRange x"
  by (auto simp: nodes_def split: if_splits)

lemma nth_keys:
  assumes "sorted_wrt (<) (map f m)" and "0 \<le> i" "i < j" "j \<le> int (length m) - 1"
  shows "f (m ! nat i) < f (m ! nat j)"
  using assms sorted_wrt_nth_less [OF assms(1), of "nat i" "nat j"] by (simp add: nat_less_iff nat_less_eq_zless)

text \<open>The search by address.\<close>

definition all_there :: "DevMemoryPool \<Rightarrow> (nat \<times> nat) list \<Rightarrow> bool" where
  "all_there st m \<longleftrightarrow> (\<forall>x \<in> set m. nodes st x \<noteq> None)"

lemma there_at:
  assumes "all_there st m" and "0 \<le> i" and "i \<le> int (length m) - 1"
  shows "\<exists>l n. nodeAt st (m ! nat i) = Some (l, n) \<and> p_list st ! fst (m ! nat i) = Some l \<and>
    addrKey (nodes st) (m ! nat i) = keyAddr n \<and> sizeKey (nodes st) (m ! nat i) = (realSize l, keyAddr n)"
proof -
  have "m ! nat i \<in> set m" using assms(2,3) by simp
  then obtain s n where n: "nodes st (m ! nat i) = Some (s, n)" using assms(1) by (auto simp: all_there_def)
  then obtain l where "nodeAt st (m ! nat i) = Some (l, n)" "realSize l = s" using nodes_at by blast
  then show ?thesis using n by (auto simp: addrKey_def sizeKey_def nodeAt_def split: option.splits)
qed

lemma addr_compares:
  assumes "all_there st m"
  shows "compares (addrDir a m st) (\<lambda>i. addrKey (nodes st) (m ! nat i)) a 0 (int (length m) - 1)"
  unfolding compares_def addrDir_def using there_at [OF assms] by fastforce

lemma RemoveAddrMap_ok:
  assumes there: "all_there st (m_addr_map st)" and sorted: "sorted_wrt (<) (map (addrKey (nodes st)) (m_addr_map st))"
    and room: "length (m_addr_map st) < POOL_MAP_MAX"
  shows "if \<exists>x \<in> set (m_addr_map st). addrKey (nodes st) x = a
    then \<exists>i < length (m_addr_map st). addrKey (nodes st) (m_addr_map st ! i) = a \<and>
      RemoveAddrMap a st = (Some (m_addr_map st ! i), st\<lparr>m_addr_map := removeAt i (m_addr_map st)\<rparr>)
    else RemoveAddrMap a st = (None, st)"
proof -
  let ?m = "m_addr_map st" and ?key = "\<lambda>i. addrKey (nodes st) (m_addr_map st ! nat i)"
  note c = addr_compares [OF there, of a]
  show ?thesis
  proof (cases "\<exists>x \<in> set ?m. addrKey (nodes st) x = a")
    case True
    then obtain i where i: "i < length ?m" "addrKey (nodes st) (?m ! i) = a" by (auto simp: in_set_conv_nth)
    have "snd (findEqual (addrDir a ?m st) 0 (int (length ?m) - 1)) = FoundAt (int i)"
      by (rule findEqual_found [OF c]) (use i nth_keys [OF sorted] in simp_all)
    then have "RemoveAddrMap a st = (Some (?m ! i), st\<lparr>m_addr_map := removeAt i ?m\<rparr>)" using room by (simp add: RemoveAddrMap_def Let_def)
    then show ?thesis using True i by auto
  next
    case False
    have "snd (findEqual (addrDir a ?m st) 0 (int (length ?m) - 1)) = NotThere"
    proof (rule findEqual_missing [OF c])
      show "addrKey (nodes st) (?m ! nat i) \<noteq> a" if "0 \<le> i" "i \<le> int (length ?m) - 1" for i
        using False nth_mem [of "nat i" ?m] that by (metis nat_less_iff zle_diff1_eq)
    qed
    then show ?thesis using False room by (simp add: RemoveAddrMap_def Let_def)
  qed
qed


lemma AddAddrMap_ok:
  assumes there: "all_there st (m_addr_map st)" and sorted: "sorted_wrt (<) (map (addrKey (nodes st)) (m_addr_map st))"
    and new: "\<forall>y \<in> set (m_addr_map st). addrKey (nodes st) y \<noteq> a"
  shows "if length (m_addr_map st) \<ge> POOL_MAP_MAX then AddAddrMap a x st = (False, st)
    else \<exists>b. AddAddrMap a x st = (True, st\<lparr>m_addr_map := insertAt b x (m_addr_map st)\<rparr>) \<and>
      (addrKey (nodes st) x = a \<longrightarrow> sorted_wrt (<) (map (addrKey (nodes st)) (insertAt b x (m_addr_map st))))"
proof -
  let ?m = "m_addr_map st" and ?n = "length (m_addr_map st)"
  let ?up = "\<lambda>i. map_option (\<lambda>(l, n). a > keyAddr n) (nodeAt st (?m ! nat i))" and ?p = "\<lambda>i. a > addrKey (nodes st) (?m ! nat i)"
  have "\<exists>b. bound ?up 0 (int ?n - 1) = (b, b - 1, True) \<and> 0 \<le> b \<and> b \<le> int ?n - 1 + 1 \<and> (\<forall>i. 0 \<le> i \<and> i < b \<longrightarrow> ?p i) \<and> (\<forall>i. b \<le> i \<and> i \<le> int ?n - 1 \<longrightarrow> \<not> ?p i)"
  proof (rule bound_ok)
    show "?up i = Some (?p i)" if "0 \<le> i" "i \<le> int ?n - 1" for i using there_at [OF there that] by auto
    show "?p i" if "0 \<le> i" "i \<le> j" "j \<le> int ?n - 1" "?p j" for i j
      using that nth_keys [OF sorted, of i j] by (cases "i = j") auto
  qed simp
  then obtain b where b: "bound ?up 0 (int ?n - 1) = (b, b - 1, True)" "0 \<le> b" "b \<le> int ?n" "\<forall>i. 0 \<le> i \<and> i < b \<longrightarrow> ?p i" "\<forall>i. b \<le> i \<and> i \<le> int ?n - 1 \<longrightarrow> \<not> ?p i"
    by auto
  have "sorted_wrt (<) (insertAt (nat b) a (map (addrKey (nodes st)) ?m))"
  proof (rule sorted_insertAt [OF sorted])
    show "map (addrKey (nodes st)) ?m ! i < a" if "i < nat b" for i using b(4) [rule_format, of "int i"] b(3) that by simp
    show "a < map (addrKey (nodes st)) ?m ! i" if "nat b \<le> i" "i < length (map (addrKey (nodes st)) ?m)" for i
    proof -
      have "\<not> addrKey (nodes st) (?m ! i) < a" using b(2) b(5) [rule_format, of "int i"] that by simp
      moreover have "addrKey (nodes st) (?m ! i) \<noteq> a" using new that by simp
      ultimately show ?thesis using that by simp
    qed
  qed (use b in simp)
  then have "addrKey (nodes st) x = a \<longrightarrow> sorted_wrt (<) (map (addrKey (nodes st)) (insertAt (nat b) x ?m))" by (simp add: map_insertAt)
  then show ?thesis using b(1) by (auto simp: AddAddrMap_def Let_def)
qed

text \<open>The search by size and address.\<close>

lemma sizeRange_ok:
  assumes there: "all_there st (m_realSize_map st)" and sorted: "sorted_wrt (<) (map (sizeKey (nodes st)) (m_realSize_map st))"
  shows "\<exists>b c. sizeRange bsize st = (b, c - 1, True) \<and> 0 \<le> b \<and> b \<le> c \<and> c \<le> int (length (m_realSize_map st)) \<and>
    (\<forall>i. 0 \<le> i \<and> i < b \<longrightarrow> fst (sizeKey (nodes st) (m_realSize_map st ! nat i)) < bsize) \<and>
    (\<forall>i. b \<le> i \<and> i < c \<longrightarrow> fst (sizeKey (nodes st) (m_realSize_map st ! nat i)) = bsize) \<and>
    (\<forall>i. c \<le> i \<and> i < int (length (m_realSize_map st)) \<longrightarrow> bsize < fst (sizeKey (nodes st) (m_realSize_map st ! nat i)))"
proof -
  let ?m = "m_realSize_map st" and ?n = "length (m_realSize_map st)"
  let ?s = "\<lambda>i. fst (sizeKey (nodes st) (?m ! nat i))"
  have mono: "?s i \<le> ?s j" if "0 \<le> i" "i \<le> j" "j \<le> int ?n - 1" for i j
    using that nth_keys [OF sorted, of i j] by (cases "i = j") (auto simp: less_prod_def')
  have at: "\<exists>l. p_list st ! fst (?m ! nat i) = Some l \<and> realSize l = ?s i" if "0 \<le> i" "i \<le> int ?n - 1" for i
    using there_at [OF there that] by auto
  let ?up = "\<lambda>i. map_option (\<lambda>l. bsize > realSize l) (p_list st ! fst (?m ! nat i))"
  have "\<exists>b. bound ?up 0 (int ?n - 1) = (b, b - 1, True) \<and> 0 \<le> b \<and> b \<le> int ?n - 1 + 1 \<and> (\<forall>i. 0 \<le> i \<and> i < b \<longrightarrow> bsize > ?s i) \<and>
      (\<forall>i. b \<le> i \<and> i \<le> int ?n - 1 \<longrightarrow> \<not> bsize > ?s i)"
  proof (rule bound_ok)
    show "?up i = Some (bsize > ?s i)" if "0 \<le> i" "i \<le> int ?n - 1" for i using at [OF that] by auto
    show "bsize > ?s i" if "0 \<le> i" "i \<le> j" "j \<le> int ?n - 1" "bsize > ?s j" for i j using mono [OF that(1-3)] that(4) by (rule order.strict_trans1)
  qed simp
  then obtain b where b: "bound ?up 0 (int ?n - 1) = (b, b - 1, True)" "0 \<le> b" "b \<le> int ?n" "\<forall>i. 0 \<le> i \<and> i < b \<longrightarrow> bsize > ?s i"
    "\<forall>i. b \<le> i \<and> i \<le> int ?n - 1 \<longrightarrow> \<not> bsize > ?s i" by auto
  let ?down = "\<lambda>i. map_option (\<lambda>l. \<not> bsize < realSize l) (p_list st ! fst (?m ! nat i))"
  have "\<exists>c. bound ?down b (int ?n - 1) = (c, c - 1, True) \<and> b \<le> c \<and> c \<le> int ?n - 1 + 1 \<and> (\<forall>i. b \<le> i \<and> i < c \<longrightarrow> \<not> bsize < ?s i) \<and>
      (\<forall>i. c \<le> i \<and> i \<le> int ?n - 1 \<longrightarrow> \<not> \<not> bsize < ?s i)"
  proof (rule bound_ok)
    show "?down i = Some (\<not> bsize < ?s i)" if "b \<le> i" "i \<le> int ?n - 1" for i using at [of i] that b(2) by auto
    show "\<not> bsize < ?s i" if "b \<le> i" "i \<le> j" "j \<le> int ?n - 1" "\<not> bsize < ?s j" for i j
    proof -
      have "?s i \<le> ?s j" using that b(2) by (intro mono) simp_all
      then show ?thesis using that(4) by (meson less_le_trans)
    qed
  qed (use b in simp)
  then obtain c where c: "bound ?down b (int ?n - 1) = (c, c - 1, True)" "b \<le> c" "c \<le> int ?n" "\<forall>i. b \<le> i \<and> i < c \<longrightarrow> \<not> bsize < ?s i"
    "\<forall>i. c \<le> i \<and> i \<le> int ?n - 1 \<longrightarrow> bsize < ?s i" by auto
  have "sizeRange bsize st = (b, c - 1, True)" using b(1) c(1) by (simp add: sizeRange_def Let_def)
  moreover have "?s i = bsize" if "b \<le> i" "i < c" for i using b(5) c(3,4) that by (meson antisym_conv3 zle_diff1_eq less_le_trans)
  ultimately show ?thesis using b c by (intro exI [of _ b] exI [of _ c]) auto
qed


lemma AddRealSizeMap_ok:
  assumes there: "all_there st (m_realSize_map st)" and sorted: "sorted_wrt (<) (map (sizeKey (nodes st)) (m_realSize_map st))"
    and new: "\<forall>y \<in> set (m_realSize_map st). snd (sizeKey (nodes st) y) \<noteq> a" and room: "length (m_realSize_map st) < POOL_MAP_MAX"
  shows "\<exists>b. AddRealSizeMap a bsize x st = (True, st\<lparr>m_realSize_map := insertAt b x (m_realSize_map st)\<rparr>) \<and>
      (sizeKey (nodes st) x = (bsize, a) \<longrightarrow> sorted_wrt (<) (map (sizeKey (nodes st)) (insertAt b x (m_realSize_map st))))"
proof -
  let ?m = "m_realSize_map st" and ?n = "length (m_realSize_map st)"
  let ?key = "\<lambda>i. sizeKey (nodes st) (?m ! nat i)"
  obtain b c where r: "sizeRange bsize st = (b, c - 1, True)" "0 \<le> b" "b \<le> c" "c \<le> int ?n" "\<forall>i. 0 \<le> i \<and> i < b \<longrightarrow> fst (?key i) < bsize"
    "\<forall>i. b \<le> i \<and> i < c \<longrightarrow> fst (?key i) = bsize" "\<forall>i. c \<le> i \<and> i < int ?n \<longrightarrow> bsize < fst (?key i)"
    using sizeRange_ok [OF there sorted, of bsize] by blast
  let ?up = "\<lambda>i. map_option (\<lambda>(l, n). a > keyAddr n) (nodeAt st (?m ! nat i))" and ?p = "\<lambda>i. a > snd (?key i)"
  have "\<exists>d. bound ?up b (c - 1) = (d, d - 1, True) \<and> b \<le> d \<and> d \<le> c - 1 + 1 \<and> (\<forall>i. b \<le> i \<and> i < d \<longrightarrow> ?p i) \<and> (\<forall>i. d \<le> i \<and> i \<le> c - 1 \<longrightarrow> \<not> ?p i)"
  proof (rule bound_ok)
    show "?up i = Some (?p i)" if "b \<le> i" "i \<le> c - 1" for i using there_at [OF there, of i] that r by auto
    show "?p i" if "b \<le> i" "i \<le> j" "j \<le> c - 1" "?p j" for i j
    proof (cases "i = j")
      case False
      then have "?key i < ?key j" using that r by (intro nth_keys [OF sorted]) simp_all
      moreover have "fst (?key i) = fst (?key j)" using r(6) that by simp
      ultimately have "snd (?key i) < snd (?key j)" by (auto simp: less_prod_def')
      then show ?thesis using that(4) by simp
    qed (use that in simp)
  qed (use r in simp)
  then obtain d where d: "bound ?up b (c - 1) = (d, d - 1, True)" "b \<le> d" "d \<le> c" "\<forall>i. b \<le> i \<and> i < d \<longrightarrow> ?p i" "\<forall>i. d \<le> i \<and> i \<le> c - 1 \<longrightarrow> \<not> ?p i"
    by auto
  have "sorted_wrt (<) (insertAt (nat d) (bsize, a) (map (sizeKey (nodes st)) ?m))"
  proof (rule sorted_insertAt [OF sorted])
    show "map (sizeKey (nodes st)) ?m ! i < (bsize, a)" if "i < nat d" for i
    proof (cases "int i < b")
      case True
      then show ?thesis using r(5) [rule_format, of "int i"] r d that by (auto simp: less_prod_def')
    next
      case False
      then show ?thesis using d(4) [rule_format, of "int i"] r(6) [rule_format, of "int i"] r d that by (auto simp: less_prod_def')
    qed
    show "(bsize, a) < map (sizeKey (nodes st)) ?m ! i" if "nat d \<le> i" "i < length (map (sizeKey (nodes st)) ?m)" for i
    proof (cases "int i < c")
      case True
      have "\<not> snd (?key (int i)) < a" using d(5) [rule_format, of "int i"] True that r d by auto
      moreover have "snd (?key (int i)) \<noteq> a" using new that by simp
      ultimately have "a < snd (?key (int i))" by (meson antisym_conv3)
      then show ?thesis using r(6) [rule_format, of "int i"] True that r d by (auto simp: less_prod_def')
    next
      case False
      then show ?thesis using r(7) [rule_format, of "int i"] that by (auto simp: less_prod_def')
    qed
  qed (use r d in simp)
  then have "sizeKey (nodes st) x = (bsize, a) \<longrightarrow> sorted_wrt (<) (map (sizeKey (nodes st)) (insertAt (nat d) x ?m))" by (simp add: map_insertAt)
  then show ?thesis using r(1) d(1) room by (auto simp: AddRealSizeMap_def Let_def)
qed

lemma RemoveRealSizeMap_ok:
  assumes there: "all_there st (m_realSize_map st)" and sorted: "sorted_wrt (<) (map (sizeKey (nodes st)) (m_realSize_map st))"
    and x: "x \<in> set (m_realSize_map st)" "sizeKey (nodes st) x = (bsize, a)"
  shows "\<exists>i < length (m_realSize_map st). m_realSize_map st ! i = x \<and>
    RemoveRealSizeMap a bsize st = (True, st\<lparr>m_realSize_map := removeAt i (m_realSize_map st)\<rparr>)"
proof -
  let ?m = "m_realSize_map st" and ?n = "length (m_realSize_map st)"
  let ?key = "\<lambda>i. sizeKey (nodes st) (?m ! nat i)"
  obtain b c where r: "sizeRange bsize st = (b, c - 1, True)" "0 \<le> b" "b \<le> c" "c \<le> int ?n" "\<forall>i. 0 \<le> i \<and> i < b \<longrightarrow> fst (?key i) < bsize"
    "\<forall>i. b \<le> i \<and> i < c \<longrightarrow> fst (?key i) = bsize" "\<forall>i. c \<le> i \<and> i < int ?n \<longrightarrow> bsize < fst (?key i)"
    using sizeRange_ok [OF there sorted, of bsize] by blast
  obtain i where i: "i < ?n" "?m ! i = x" using x(1) by (auto simp: in_set_conv_nth)
  have "\<not> int i < b" using r(5) [rule_format, of "int i"] i x(2) by auto
  moreover have "int i < c" using r(7) [rule_format, of "int i"] i x(2) by (cases "int i < c") auto
  moreover have "compares (addrDir a ?m st) (\<lambda>i. snd (?key i)) a b (c - 1)"
    unfolding compares_def
  proof (intro allI impI)
    fix j
    assume "b \<le> j \<and> j \<le> c - 1"
    then obtain l n where "nodeAt st (?m ! nat j) = Some (l, n)" "?key j = (realSize l, keyAddr n)"
      using there_at [OF there, of j] r(2,4) by auto
    then show "addrDir a ?m st j = Some (if a < snd (?key j) then Below else if snd (?key j) < a then Above else Here)" by (simp add: addrDir_def)
  qed
  moreover have "snd (?key i) < snd (?key j)" if "b \<le> i" "i < j" "j \<le> c - 1" for i j
  proof -
    have "?key i < ?key j" using that r by (intro nth_keys [OF sorted]) simp_all
    moreover have "fst (?key i) = fst (?key j)" using r(6) that by simp
    ultimately show ?thesis by (auto simp: less_prod_def')
  qed
  ultimately have "snd (findEqual (addrDir a ?m st) b (c - 1)) = FoundAt (int i)"
    using i x(2) by (intro findEqual_found [where key = "\<lambda>i. snd (?key i)"]) simp_all
  then have "RemoveRealSizeMap a bsize st = (True, st\<lparr>m_realSize_map := removeAt i ?m\<rparr>)" using r(1) by (simp add: RemoveRealSizeMap_def Let_def)
  then show ?thesis using i by blast
qed


subsection \<open>Lists and nodes\<close>

definition list_ok :: "Dev_MemoryPool_list \<Rightarrow> bool" where
  "list_ok l \<longleftrightarrow> length (p_node l) = DEV_MEMORY_POOL_NODE_MAX \<and> distinct (unallocdNodeIndex l) \<and>
     set (unallocdNodeIndex l) = {j. j < DEV_MEMORY_POOL_NODE_MAX \<and> p_node l ! j = None} \<and> distinct (AllocdButUnusedNodeIndex l) \<and>
     (\<forall>j \<in> set (AllocdButUnusedNodeIndex l). j < DEV_MEMORY_POOL_NODE_MAX \<and> (\<exists>n. p_node l ! j = Some n \<and> \<not> nodeUsed n \<and> nodeAddr n \<noteq> None \<and> unat (userSzie n) + 16 \<le> unat (realSize l)))"

definition structure_ok :: "DevMemoryPool \<Rightarrow> bool" where
  "structure_ok st \<longleftrightarrow> length (p_list st) = DEV_MEMORY_POOL_LIST_MAX \<and> distinct (AllocdButUnusedListIndex st) \<and>
     set (AllocdButUnusedListIndex st) = {i. i < DEV_MEMORY_POOL_LIST_MAX \<and> p_list st ! i = None} \<and>
     (\<forall>i \<in> set (AllocdAndusedListIndex st). i < DEV_MEMORY_POOL_LIST_MAX) \<and>
     (\<forall>i < DEV_MEMORY_POOL_LIST_MAX. \<forall>l. p_list st ! i = Some l \<longrightarrow> list_ok l)"

definition pool_ok :: "DevMemoryPool \<Rightarrow> bool" where
  "pool_ok st \<longleftrightarrow> poolInit st \<and> \<not> poolLocked st \<and> structure_ok st \<and> blocks_ok (nodes st) (poolHeap st) (m_addr_map st) (m_realSize_map st)"

lemma nodes_frame [simp]:
  "nodes (st\<lparr>m_addr_map := am\<rparr>) = nodes st" "nodes (st\<lparr>m_realSize_map := sm\<rparr>) = nodes st" "nodes (st\<lparr>poolHeap := h\<rparr>) = nodes st"
  "nodes (st\<lparr>AllocdAndusedListIndex := u\<rparr>) = nodes st" "nodes (st\<lparr>AllocdButUnusedListIndex := v\<rparr>) = nodes st"
  by (simp_all add: nodes_def nodeAt_def fun_eq_iff)

lemma structure_frame [simp]:
  "structure_ok (st\<lparr>m_addr_map := am\<rparr>) = structure_ok st" "structure_ok (st\<lparr>m_realSize_map := sm\<rparr>) = structure_ok st"
  "structure_ok (st\<lparr>poolHeap := h\<rparr>) = structure_ok st"
  by (simp_all add: structure_ok_def)

lemma nodes_list:
  assumes "length (p_list st) = DEV_MEMORY_POOL_LIST_MAX"
  shows "nodes (st\<lparr>p_list := (p_list st)[i := slot]\<rparr>) x =
    (if inRange x \<and> fst x = i then (case slot of None \<Rightarrow> None | Some l \<Rightarrow> map_option (Pair (realSize l)) (p_node l ! snd x)) else nodes st x)"
  using assms by (auto simp: nodes_def nodeAt_def inRange_def nth_list_update option.map_comp comp_def split: option.splits)

lemma structure_list:
  assumes "structure_ok st" and "i < DEV_MEMORY_POOL_LIST_MAX" and "p_list st ! i = Some l" and "list_ok l'"
  shows "structure_ok (st\<lparr>p_list := (p_list st)[i := Some l']\<rparr>)"
proof -
  have "{j. j < DEV_MEMORY_POOL_LIST_MAX \<and> (p_list st)[i := Some l'] ! j = None} = {j. j < DEV_MEMORY_POOL_LIST_MAX \<and> p_list st ! j = None}"
    using assms(1-3) by (auto simp: structure_ok_def nth_list_update split: if_splits)
  then show ?thesis using assms by (auto simp: structure_ok_def nth_list_update)
qed

lemma structureD:
  assumes "structure_ok st"
  shows "length (p_list st) = DEV_MEMORY_POOL_LIST_MAX" "i < DEV_MEMORY_POOL_LIST_MAX \<Longrightarrow> p_list st ! i = Some l \<Longrightarrow> list_ok l"
  using assms by (auto simp: structure_ok_def)

text \<open>A list with other stacks only, and one with another node.\<close>

lemma nodes_stack:
  assumes "structure_ok st" and "p_list st ! i = Some l" and "p_node l' = p_node l" and "realSize l' = realSize l"
  shows "nodes (st\<lparr>p_list := (p_list st)[i := Some l']\<rparr>) = nodes st"
proof
  fix x
  show "nodes (st\<lparr>p_list := (p_list st)[i := Some l']\<rparr>) x = nodes st x"
    unfolding nodes_list [OF structureD(1) [OF assms(1)]] using assms(2-4)
    by (auto simp: nodes_def nodeAt_def option.map_comp comp_def)
qed

lemma nodes_node:
  assumes "structure_ok st" and "inRange x" and "p_list st ! fst x = Some l" and "p_node l' = (p_node l)[snd x := e]" and "realSize l' = realSize l"
  shows "nodes (st\<lparr>p_list := (p_list st)[fst x := Some l']\<rparr>) = (nodes st)(x := map_option (Pair (realSize l)) e)"
proof
  fix y
  have len: "length (p_node l) = DEV_MEMORY_POOL_NODE_MAX"
    using structureD(2) [OF assms(1), of "fst x" l] assms(2,3) by (simp add: inRange_def list_ok_def)
  show "nodes (st\<lparr>p_list := (p_list st)[fst x := Some l']\<rparr>) y = ((nodes st)(x := map_option (Pair (realSize l)) e)) y"
    unfolding nodes_list [OF structureD(1) [OF assms(1)]] using assms(2-5) len
    by (cases y, cases x) (auto simp: nodes_def nodeAt_def inRange_def nth_list_update option.map_comp comp_def)
qed

lemma last_butlast:
  assumes "distinct xs" and "xs \<noteq> []"
  shows "set (butlast xs) = set xs - {last xs}" "last xs \<in> set xs" "distinct (butlast xs)"
proof -
  have e: "xs = butlast xs @ [last xs]" using assms(2) by simp
  have d: "distinct (butlast xs @ [last xs])" using assms by simp
  show "set (butlast xs) = set xs - {last xs}" using d by (subst (2) e) (auto simp del: append_butlast_last_id)
  show "last xs \<in> set xs" "distinct (butlast xs)" using assms by (simp_all add: distinct_butlast)
qed

lemma list_ok_new: "list_ok (newList s)"
  by (auto simp: list_ok_def newList_def)

lemma GetList_ok:
  assumes ok: "structure_ok st" and g: "GetList memory bsize st = (r, st')"
  shows "structure_ok st' \<and> nodes st' = nodes st \<and> poolHeap st' = poolHeap st \<and> m_addr_map st' = m_addr_map st \<and>
    m_realSize_map st' = m_realSize_map st \<and> poolInit st' = poolInit st \<and> poolLocked st' = poolLocked st \<and>
    (\<forall>li. r = Some li \<longrightarrow> li < DEV_MEMORY_POOL_LIST_MAX \<and> (\<exists>l. p_list st' ! li = Some l \<and> realSize l = bsize))"
proof -
  let ?used = "AllocdAndusedListIndex st" and ?unused = "AllocdButUnusedListIndex st"
  let ?found = "snd (findEqual (listDir bsize st) 0 (int (length ?used) - 1))"
  let ?li = "last ?unused"
  show ?thesis
  proof (cases "\<exists>i. ?found = FoundAt i")
    case True
    then obtain i where i: "?found = FoundAt i" by blast
    note h = findEqual_here [OF i]
    have "?used ! nat i \<in> set ?used" using h by (intro nth_mem) linarith
    moreover have "\<exists>l. p_list st ! (?used ! nat i) = Some l \<and> realSize l = bsize" using h by (auto simp: listDir_def split: if_splits)
    ultimately show ?thesis using g i ok by (auto simp: GetList_def Let_def structure_ok_def)
  next
    case False
    have e: "GetList memory bsize st =
      (if ?unused = [] then (None, st)
       else if p_list st ! ?li \<noteq> None \<or> \<not> memory then (None, st)
       else let front = fst (bound (\<lambda>i. map_option (\<lambda>l. bsize > realSize l) (p_list st ! (?used ! nat i))) 0 (int (length ?used) - 1))
            in (Some ?li, st\<lparr>p_list := (p_list st)[?li := Some (newList bsize)], AllocdAndusedListIndex := insertAt (nat front) ?li ?used,
                             AllocdButUnusedListIndex := butlast ?unused\<rparr>))"
      using False by (cases ?found) (simp_all add: GetList_def Let_def)
    show ?thesis
    proof (cases "?unused = [] \<or> p_list st ! ?li \<noteq> None \<or> \<not> memory")
      case True
      then have "r = None \<and> st' = st" using g unfolding e by (auto split: if_splits)
      then show ?thesis using ok by simp
    next
      case new: False
      let ?st = "st\<lparr>p_list := (p_list st)[?li := Some (newList bsize)]\<rparr>"
      obtain front where st': "r = Some ?li" "st' = ?st\<lparr>AllocdAndusedListIndex := insertAt (nat front) ?li ?used, AllocdButUnusedListIndex := butlast ?unused\<rparr>"
        using g new unfolding e by (auto simp: Let_def)
      have S: "length (p_list st) = DEV_MEMORY_POOL_LIST_MAX" "distinct ?unused" "set ?unused = {i. i < DEV_MEMORY_POOL_LIST_MAX \<and> p_list st ! i = None}"
        "\<forall>i \<in> set ?used. i < DEV_MEMORY_POOL_LIST_MAX" "\<forall>i < DEV_MEMORY_POOL_LIST_MAX. \<forall>l. p_list st ! i = Some l \<longrightarrow> list_ok l"
        using ok by (simp_all add: structure_ok_def)
      have li: "?li < DEV_MEMORY_POOL_LIST_MAX" using last_butlast(2) [OF S(2)] new S(3) by auto
      have "nodes ?st x = nodes st x" for x
        unfolding nodes_list [OF S(1)] using new by (auto simp: nodes_def nodeAt_def newList_def inRange_def)
      then have n: "nodes ?st = nodes st" by (rule ext)
      have "{i. i < DEV_MEMORY_POOL_LIST_MAX \<and> p_list ?st ! i = None} = {i. i < DEV_MEMORY_POOL_LIST_MAX \<and> p_list st ! i = None} - {?li}"
        using S(1) li by (auto simp: nth_list_update split: if_splits)
      then have "structure_ok st'" using S li list_ok_new last_butlast [OF S(2)] new unfolding st'(2)
        by (auto simp: structure_ok_def nth_list_update)
      moreover have "nodes st' = nodes st" unfolding st'(2) using n by simp
      ultimately show ?thesis using st' li S(1) by (simp add: newList_def)
    qed
  qed
qed


text \<open>A node that was taken and is not yet used.\<close>

definition pending :: "DevMemoryPool \<Rightarrow> nat \<times> nat \<Rightarrow> u32 \<Rightarrow> Dev_MemoryPool_node \<Rightarrow> bool" where
  "pending st x s n \<longleftrightarrow> nodes st x = Some (s, n) \<and> \<not> nodeUsed n \<and>
     (\<forall>l. p_list st ! fst x = Some l \<longrightarrow> snd x \<notin> set (AllocdButUnusedNodeIndex l))"

text \<open>What is the same in two states of the pool except for lists and blocks.\<close>

definition same_maps :: "DevMemoryPool \<Rightarrow> DevMemoryPool \<Rightarrow> bool" where
  "same_maps st st' \<longleftrightarrow> m_addr_map st' = m_addr_map st \<and> m_realSize_map st' = m_realSize_map st \<and> poolInit st' = poolInit st \<and> poolLocked st' = poolLocked st"

lemma at_list:
  assumes "nodes st x = Some (s, n)"
  shows "\<exists>l. p_list st ! fst x = Some l \<and> p_node l ! snd x = Some n \<and> realSize l = s \<and> inRange x"
  using assms by (auto simp: nodes_def nodeAt_def split: if_splits option.splits)

lemma updNode_ok:
  assumes ok: "structure_ok st" and p: "nodes st x = Some (s, n)"
    and stack: "\<And>l. p_list st ! fst x = Some l \<Longrightarrow> snd x \<notin> set (AllocdButUnusedNodeIndex l)"
  shows "structure_ok (updNode x f st)" "nodes (updNode x f st) = (nodes st)(x \<mapsto> (s, f n))" "same_maps st (updNode x f st)"
    "poolHeap (updNode x f st) = poolHeap st" "map_option AllocdButUnusedNodeIndex (p_list (updNode x f st) ! fst x) = map_option AllocdButUnusedNodeIndex (p_list st ! fst x)"
proof -
  obtain l where l: "p_list st ! fst x = Some l" "p_node l ! snd x = Some n" "realSize l = s" "inRange x" using at_list [OF p] by blast
  let ?l = "l\<lparr>p_node := (p_node l)[snd x := Some (f n)]\<rparr>"
  have e: "updNode x f st = st\<lparr>p_list := (p_list st)[fst x := Some ?l]\<rparr>" using l by (simp add: updNode_def updList_def)
  have i: "fst x < DEV_MEMORY_POOL_LIST_MAX" "snd x < DEV_MEMORY_POOL_NODE_MAX" using l(4) by (simp_all add: inRange_def)
  have lo: "list_ok l" using structureD(2) [OF ok i(1) l(1)] .
  have "list_ok ?l" using lo l(2) i(2) stack [OF l(1)] by (auto simp: list_ok_def nth_list_update)
  then show "structure_ok (updNode x f st)" unfolding e by (rule structure_list [OF ok i(1) l(1)])
  have "nodes (updNode x f st) = (nodes st)(x := map_option (Pair (realSize l)) (Some (f n)))"
    unfolding e by (rule nodes_node [OF ok l(4,1)]) simp_all
  then show "nodes (updNode x f st) = (nodes st)(x \<mapsto> (s, f n))" using l(3) by simp
  show "same_maps st (updNode x f st)" "poolHeap (updNode x f st) = poolHeap st" by (simp_all add: e same_maps_def)
  show "map_option AllocdButUnusedNodeIndex (p_list (updNode x f st) ! fst x) = map_option AllocdButUnusedNodeIndex (p_list st ! fst x)"
    using i(1) structureD(1) [OF ok] l(1) by (simp add: e)
qed

lemma blocks_node:
  assumes ok: "blocks_ok N heap am sm" and x: "x \<notin> set am" "N x = Some (s, n)" "nodeAddr n' = nodeAddr n"
  shows "blocks_ok (N(x \<mapsto> (s, n'))) heap am sm"
proof -
  note D = blocks_okD [OF ok]
  let ?N = "N(x \<mapsto> (s, n'))"
  have x': "x \<notin> set sm" using x(1) D(4) by simp
  have S: "map (sizeKey ?N) sm = map (sizeKey N) sm" using x' by (intro map_cong refl) (auto simp: sizeKey_def)
  have A: "map (addrKey ?N) am = map (addrKey N) am" using x(1) by (intro map_cong refl) (auto simp: addrKey_def)
  have old: "\<exists>m. N y = Some (t, m) \<and> nodeAddr m = nodeAddr k" if "?N y = Some (t, k)" for y t k
    using that x by (cases "y = x") auto
  show ?thesis
  proof (rule blocks_okI)
    show "\<exists>bs. heap a = Some bs \<and> length bs = unat t" if k: "?N y = Some (t, k)" "nodeAddr k = Some a" for y t k a
    proof -
      obtain m where m: "N y = Some (t, m)" "nodeAddr m = Some a" using old [OF k(1)] k(2) by force
      show ?thesis by (rule D(1) [OF m])
    qed
    show "y = z" if k: "?N y = Some (t, k)" "?N z = Some (u, m)" "nodeAddr k = Some a" "nodeAddr m = Some a" for y z t k u m a
    proof -
      obtain k' m' where "N y = Some (t, k')" "nodeAddr k' = Some a" "N z = Some (u, m')" "nodeAddr m' = Some a"
        using old [OF k(1)] old [OF k(2)] k(3,4) by force
      then show ?thesis by (intro D(2))
    qed
    show "holds ?N y" if "y \<in> set am" for y using D(3) [OF that] that x(1) by (auto simp: holds_def)
  qed (simp_all only: S A D(4-6))
qed

lemma blocks_heap:
  assumes "blocks_ok N heap am sm" and "heap a = Some bs" and "length bs' = length bs"
  shows "blocks_ok N (heap(a \<mapsto> bs')) am sm"
proof -
  note D = blocks_okD [OF assms(1)]
  show ?thesis
  proof (rule blocks_okI)
    show "\<exists>bs. (heap(a \<mapsto> bs')) b = Some bs \<and> length bs = unat s" if "N x = Some (s, n)" "nodeAddr n = Some b" for x s n b
      using D(1) [OF that] assms(2,3) by auto
  qed (use D(2-6) in blast)+
qed

end
