(* ===== verification/DevicePool.thy ===== *)
theory DevicePool
  imports DeviceMemory
begin

text \<open>
  What the memory pool of the device library keeps: the state of the pool stays sound, a block given
  out belongs to nobody else, and a block given back is the one found by its address.
\<close>

subsection \<open>Taking a node\<close>

lemma updList_at: "p_list st ! li = Some l \<Longrightarrow> updList li f st = st\<lparr>p_list := (p_list st)[li := Some (f l)]\<rparr>"
  by (simp add: updList_def)

definition marked :: "Dev_MemoryPool_node \<Rightarrow> u8 list \<Rightarrow> bool" where
  "marked n block \<longleftrightarrow> take 8 block = valueBytes 8 FRONT_MARK \<and> take 8 (drop (nat (rearPlace n)) block) = valueBytes 8 REAR_MARK"

lemma rearPlace_nonneg [simp]: "0 \<le> rearPlace n"
  by (simp add: rearPlace_def)

lemma rearPlace_exact:
  assumes "unat (userSzie n) + 16 \<le> unat (s :: u32)"
  shows "rearPlace n = int (unat (userSzie n) + 8)"
proof -
  have "unat s < 2 ^ LENGTH(32)" by (rule unsigned_less)
  then have "unat (userSzie n) + 8 < 2 ^ 32" using assms by simp
  then show ?thesis by (simp add: rearPlace_def unat_word_ariths)
qed

lemma rearPlace_fits:
  assumes "unat (userSzie n) + 16 \<le> unat (s :: u32)"
  shows "8 \<le> rearPlace n" "rearPlace n + 8 \<le> int (unat s)"
proof -
  have "int (unat (userSzie n) + 8) + 8 = int (unat (userSzie n) + 16)" by simp
  then show "rearPlace n + 8 \<le> int (unat s)" using assms unfolding rearPlace_exact [OF assms] by (simp only: of_nat_le_iff)
  show "8 \<le> rearPlace n" unfolding rearPlace_exact [OF assms] by simp
qed

lemma poolCheck_runs:
  assumes "nodeAddr n = Some a" and "poolHeap st a = Some block" and "rearPlace n + 8 \<le> int (length block)"
  shows "poolCheck n st = Inr (marked n block)"
proof -
  have "8 \<le> length block" "nat (rearPlace n) + 8 \<le> length block" using assms(3) rearPlace_nonneg [of n] by linarith+
  then show ?thesis using assms(1,2) by (simp add: poolCheck_def loadBytes_def marked_def)
qed

lemma GetNode_reuse:
  assumes ok: "structure_ok st" and heap: "blocks_ok (nodes st) (poolHeap st) am sm"
    and l: "li < DEV_MEMORY_POOL_LIST_MAX" "p_list st ! li = Some l" "AllocdButUnusedNodeIndex l \<noteq> []"
  shows "\<exists>n st'. GetNode memory system li st = Inr (Some (last (AllocdButUnusedNodeIndex l)), st') \<and> structure_ok st' \<and> same_maps st st' \<and>
    nodes st' = nodes st \<and> poolHeap st' = poolHeap st \<and> pending st' (li, last (AllocdButUnusedNodeIndex l)) (realSize l) n \<and> nodeAddr n \<noteq> None"
proof -
  let ?stack = "AllocdButUnusedNodeIndex l"
  let ?ni = "last ?stack"
  have lo: "list_ok l" using structureD(2) [OF ok l(1,2)] .
  then have d: "distinct ?stack" by (simp add: list_ok_def)
  note b = last_butlast [OF d l(3)]
  obtain n where n: "?ni < DEV_MEMORY_POOL_NODE_MAX" "p_node l ! ?ni = Some n" "\<not> nodeUsed n" "nodeAddr n \<noteq> None" "unat (userSzie n) + 16 \<le> unat (realSize l)"
    using lo b(2) by (auto simp: list_ok_def)
  have N: "nodes st (li, ?ni) = Some (realSize l, n)" using l(1,2) n(1,2) by (simp add: nodes_def nodeAt_def inRange_def)
  obtain a where a: "nodeAddr n = Some a" using n(4) by blast
  obtain bs where "poolHeap st a = Some bs" "length bs = unat (realSize l)" using blocks_okD(1) [OF heap N a] by blast
  then have c: "poolCheck n st = Inr (marked n bs)" using poolCheck_runs [OF a] rearPlace_fits(2) [OF n(5)] by simp
  let ?l = "l\<lparr>AllocdButUnusedNodeIndex := butlast ?stack\<rparr>"
  let ?st = "st\<lparr>p_list := (p_list st)[li := Some ?l]\<rparr>"
  have "GetNode memory system li st = Inr (Some ?ni, ?st)"
    using l(2,3) n(2,3) c by (simp add: GetNode_def Let_def updList_at)
  moreover have "list_ok ?l" using lo b(1,3) by (auto simp: list_ok_def)
  then have "structure_ok ?st" by (rule structure_list [OF ok l(1,2)])
  moreover have e: "nodes ?st = nodes st" by (rule nodes_stack [OF ok l(2)]) simp_all
  moreover have "pending ?st (li, ?ni) (realSize l) n"
    using N n(3) b(1) l(1) structureD(1) [OF ok] unfolding pending_def e by simp
  ultimately show ?thesis using n(4) by (intro exI [of _ n] exI [of _ ?st]) (simp add: same_maps_def)
qed

text \<open>What \<open>malloc\<close> answers: a block of the size asked for at a place where none is.\<close>

definition system_block :: "(nat \<times> u8 list) option \<Rightarrow> u32 \<Rightarrow> DevMemoryPool \<Rightarrow> bool" where
  "system_block system bsize st \<longleftrightarrow> (\<forall>a block. system = Some (a, block) \<longrightarrow> poolHeap st a = None \<and> length block = unat bsize)"

definition withSystem :: "(nat \<times> u8 list) option \<Rightarrow> (nat \<Rightarrow> u8 list option) \<Rightarrow> nat \<Rightarrow> u8 list option" where
  "withSystem system heap = (case system of None \<Rightarrow> heap | Some (a, block) \<Rightarrow> heap(a \<mapsto> block))"

definition freshNode :: "(nat \<times> u8 list) option \<Rightarrow> Dev_MemoryPool_node" where
  "freshNode system = \<lparr>nodeAddr = map_option fst system, userSzie = 0, nodeUsed = False\<rparr>"

lemma GetNode_fresh:
  assumes ok: "structure_ok st"
    and l: "li < DEV_MEMORY_POOL_LIST_MAX" "p_list st ! li = Some l" "AllocdButUnusedNodeIndex l = []" "unallocdNodeIndex l \<noteq> []"
  shows "\<exists>st' ni. GetNode memory system li st = Inr (if memory then (Some ni, st') else (None, st)) \<and> structure_ok st' \<and> same_maps st st' \<and>
    nodes st (li, ni) = None \<and> nodes st' = (nodes st)((li, ni) \<mapsto> (realSize l, freshNode system)) \<and>
    poolHeap st' = withSystem system (poolHeap st) \<and> pending st' (li, ni) (realSize l) (freshNode system)"
proof -
  let ?stack = "unallocdNodeIndex l"
  let ?ni = "last ?stack" and ?l = "l\<lparr>unallocdNodeIndex := butlast (unallocdNodeIndex l), p_node := (p_node l)[last (unallocdNodeIndex l) := Some (freshNode system)]\<rparr>"
  have lo: "list_ok l" using structureD(2) [OF ok l(1,2)] .
  then have d: "distinct ?stack" by (simp add: list_ok_def)
  note b = last_butlast [OF d l(4)]
  have ni: "?ni < DEV_MEMORY_POOL_NODE_MAX" "p_node l ! ?ni = None" using lo b(2) by (auto simp: list_ok_def)
  let ?st1 = "st\<lparr>p_list := (p_list st)[li := Some ?l]\<rparr>"
  let ?st = "?st1\<lparr>poolHeap := withSystem system (poolHeap st)\<rparr>"
  have "GetNode memory system li st = Inr (if memory then (Some ?ni, ?st) else (None, st))"
    using l(2-4) ni(2) by (simp add: GetNode_def Let_def updList_at freshNode_def withSystem_def)
  moreover have "list_ok ?l" using lo b(1,3) ni l(3) by (auto simp: list_ok_def nth_list_update split: if_splits)
  then have "structure_ok ?st1" by (rule structure_list [OF ok l(1,2)])
  moreover have "nodes ?st1 = (nodes st)((li, ?ni) := map_option (Pair (realSize l)) (Some (freshNode system)))"
    using nodes_node [OF ok, of "(li, ?ni)" l ?l "Some (freshNode system)"] l(1,2) ni(1) by (simp add: inRange_def)
  moreover have "nodes st (li, ?ni) = None" using l(1,2) ni by (simp add: nodes_def nodeAt_def)
  moreover have "same_maps st ?st" by (simp add: same_maps_def)
  moreover have "p_list ?st ! li = Some ?l" using l(1) structureD(1) [OF ok] by simp
  ultimately show ?thesis using l(3) by (intro exI [of _ ?st] exI [of _ ?ni]) (simp add: pending_def freshNode_def)
qed

text \<open>Blocks and nodes of blocks in use stay.\<close>

definition keeps :: "DevMemoryPool \<Rightarrow> DevMemoryPool \<Rightarrow> bool" where
  "keeps st st' \<longleftrightarrow> same_maps st st' \<and> structure_ok st' \<and> blocks_ok (nodes st') (poolHeap st') (m_addr_map st) (m_realSize_map st) \<and>
     (\<forall>x \<in> set (m_addr_map st). nodes st' x = nodes st x) \<and> poolHeap st \<subseteq>\<^sub>m poolHeap st'"

lemma blocks_fresh:
  assumes ok: "blocks_ok N heap am sm" and x: "N x = None" and sys: "\<forall>a block. system = Some (a, block) \<longrightarrow> heap a = None \<and> length block = unat s"
  shows "blocks_ok (N(x \<mapsto> (s, freshNode system))) (withSystem system heap) am sm"
proof -
  note D = blocks_okD [OF ok]
  let ?N = "N(x \<mapsto> (s, freshNode system))" and ?h = "withSystem system heap"
  have x': "x \<notin> set am" "x \<notin> set sm" using D(3) [of x] D(4) x by (auto simp: holds_def)
  have K: "map (sizeKey ?N) sm = map (sizeKey N) sm" "map (addrKey ?N) am = map (addrKey N) am"
    using x' by (auto intro!: map_cong simp: sizeKey_def addrKey_def)
  have old: "heap b \<noteq> None" if "N y = Some (t, k)" "nodeAddr k = Some b" for y t k b using D(1) [OF that] by auto
  have h: "?h b = heap b" if "heap b \<noteq> None" for b using that sys by (auto simp: withSystem_def split: option.splits)
  have new: "\<exists>block. system = Some (b, block)" if "nodeAddr (freshNode system) = Some b" for b using that by (auto simp: freshNode_def)
  show ?thesis
  proof (rule blocks_okI)
    show "\<exists>bs. ?h b = Some bs \<and> length bs = unat t" if k: "?N y = Some (t, k)" "nodeAddr k = Some b" for y t k b
    proof (cases "y = x")
      case True
      then show ?thesis using k new [of b] sys by (auto simp: withSystem_def)
    next
      case False
      then show ?thesis using k D(1) [of y t k b] h [of b] old [of y t k b] by simp
    qed
    show "y = z" if k: "?N y = Some (t, k)" "?N z = Some (u, m)" "nodeAddr k = Some b" "nodeAddr m = Some b" for y z t k u m b
    proof -
      have "heap b = None" if "y = x \<or> z = x" using that k new [of b] sys by auto
      then show ?thesis using k D(2) [of y t k z u m b] old [of y t k b] old [of z u m b] by (cases "y = x"; cases "z = x") auto
    qed
    show "holds ?N y" if "y \<in> set am" for y using D(3) [OF that] that x'(1) by (auto simp: holds_def)
  qed (simp_all only: K D(4-6))
qed

lemma GetNode_ok:
  assumes ok: "structure_ok st" and heap: "blocks_ok (nodes st) (poolHeap st) (m_addr_map st) (m_realSize_map st)"
    and l: "li < DEV_MEMORY_POOL_LIST_MAX" "p_list st ! li = Some l" and sys: "system_block system (realSize l) st"
    and room: "AllocdButUnusedNodeIndex l \<noteq> [] \<or> unallocdNodeIndex l \<noteq> []"
  shows "\<exists>r st'. GetNode memory system li st = Inr (r, st') \<and> keeps st st' \<and> (memory \<longrightarrow> r \<noteq> None) \<and>
    (\<forall>ni. r = Some ni \<longrightarrow> (\<exists>n. pending st' (li, ni) (realSize l) n \<and> (system \<noteq> None \<longrightarrow> nodeAddr n \<noteq> None)))"
proof (cases "AllocdButUnusedNodeIndex l = []")
  case False
  then obtain n st' where g: "GetNode memory system li st = Inr (Some (last (AllocdButUnusedNodeIndex l)), st')" "structure_ok st'" "same_maps st st'"
    "nodes st' = nodes st" "poolHeap st' = poolHeap st" "pending st' (li, last (AllocdButUnusedNodeIndex l)) (realSize l) n" "nodeAddr n \<noteq> None"
    using GetNode_reuse [OF ok heap l] by blast
  then have "keeps st st'" using heap by (simp add: keeps_def)
  then show ?thesis using g by (intro exI [of _ "Some (last (AllocdButUnusedNodeIndex l))"] exI [of _ st']) auto
next
  case True
  then have u: "unallocdNodeIndex l \<noteq> []" using room by simp
  obtain st' ni where g: "GetNode memory system li st = Inr (if memory then (Some ni, st') else (None, st))" "structure_ok st'" "same_maps st st'"
    "nodes st (li, ni) = None" "nodes st' = (nodes st)((li, ni) \<mapsto> (realSize l, freshNode system))" "poolHeap st' = withSystem system (poolHeap st)"
    "pending st' (li, ni) (realSize l) (freshNode system)"
    using GetNode_fresh [OF ok l True u] by blast
  have "blocks_ok (nodes st') (poolHeap st') (m_addr_map st) (m_realSize_map st)"
    unfolding g(5,6) by (rule blocks_fresh [OF heap g(4)]) (use sys in \<open>simp add: system_block_def\<close>)
  moreover have "(li, ni) \<notin> set (m_addr_map st)" using blocks_okD(3) [OF heap, of "(li, ni)"] g(4) by (auto simp: holds_def)
  moreover have "poolHeap st \<subseteq>\<^sub>m poolHeap st'" using sys unfolding g(6) by (auto simp: map_le_def withSystem_def system_block_def split: option.splits)
  ultimately have k: "keeps st st'" using g(2,3,5) by (auto simp: keeps_def)
  have "keeps st st" using ok heap by (simp add: keeps_def same_maps_def)
  then show ?thesis using g(1,7) k
    by (intro exI [of _ "if memory then Some ni else None"] exI [of _ "if memory then st' else st"]) (auto simp: freshNode_def)
qed

subsection \<open>The blocks given out\<close>

text \<open>Where a block of the client is, the size asked for and what is in the block: all the client may know of the pool.\<close>

definition given :: "(nat \<times> nat \<Rightarrow> (u32 \<times> Dev_MemoryPool_node) option) \<Rightarrow> (nat \<Rightarrow> u8 list option) \<Rightarrow> (nat \<times> nat) list \<Rightarrow> nat \<Rightarrow> (u32 \<times> u8 list) option" where
  "given N heap am a =
     (case List.find (\<lambda>x. addrKey N x = a) am of
        None \<Rightarrow> None
      | Some x \<Rightarrow> (case N x of None \<Rightarrow> None | Some (_, n) \<Rightarrow> map_option (Pair (userSzie n)) (heap a)))"

definition pool_blocks :: "DevMemoryPool \<Rightarrow> nat \<Rightarrow> (u32 \<times> u8 list) option" where
  "pool_blocks st = given (nodes st) (poolHeap st) (m_addr_map st)"

lemma holds_key: "holds N x \<Longrightarrow> \<exists>s n a. N x = Some (s, n) \<and> nodeAddr n = Some a \<and> addrKey N x = a \<and> sizeKey N x = (s, a)"
  by (auto simp: holds_def addrKey_def sizeKey_def keyAddr_def)

lemma given_iff:
  assumes ok: "blocks_ok N heap am sm"
  shows "given N heap am a = Some (u, b) \<longleftrightarrow> (\<exists>x s n. x \<in> set am \<and> N x = Some (s, n) \<and> nodeAddr n = Some a \<and> userSzie n = u \<and> heap a = Some b)"
proof -
  note D = blocks_okD [OF ok]
  show ?thesis
  proof (cases "List.find (\<lambda>x. addrKey N x = a) am")
    case None
    then have "addrKey N x \<noteq> a" if "x \<in> set am" for x using that unfolding find_None_iff by blast
    moreover have "addrKey N x = a" if "N x = Some (s, n)" "nodeAddr n = Some a" for x s n using that by (simp add: addrKey_def keyAddr_def)
    ultimately have "\<not> (\<exists>x s n. x \<in> set am \<and> N x = Some (s, n) \<and> nodeAddr n = Some a \<and> userSzie n = u \<and> heap a = Some b)" by blast
    moreover have "given N heap am a = None" using None by (simp add: given_def)
    ultimately show ?thesis by simp
  next
    case (Some x)
    then have x: "x \<in> set am" "addrKey N x = a" by (auto simp: find_Some_iff)
    obtain s n where n: "N x = Some (s, n)" "nodeAddr n = Some a" using holds_key [OF D(3) [OF x(1)]] x(2) by auto
    have only: "y = x \<and> m = n" if "N y = Some (t, m)" "nodeAddr m = Some a" for y t m
      using D(2) [OF that(1) n(1) that(2) n(2)] that(1) n(1) by simp
    show ?thesis
    proof
      show "\<exists>x s n. x \<in> set am \<and> N x = Some (s, n) \<and> nodeAddr n = Some a \<and> userSzie n = u \<and> heap a = Some b" if "given N heap am a = Some (u, b)"
        using that Some n x(1) by (intro exI [of _ x] exI [of _ s] exI [of _ n]) (simp add: given_def)
      show "given N heap am a = Some (u, b)"
        if ex: "\<exists>x s n. x \<in> set am \<and> N x = Some (s, n) \<and> nodeAddr n = Some a \<and> userSzie n = u \<and> heap a = Some b"
      proof -
        obtain y t m where "N y = Some (t, m)" "nodeAddr m = Some a" "userSzie m = u" "heap a = Some b" using ex by blast
        then show ?thesis using only [of y t m] Some n(1) by (simp add: given_def)
      qed
    qed
  qed
qed

lemma given_eqI:
  assumes "\<And>a u b. f a = Some (u, b) \<longleftrightarrow> g a = Some (u, b)"
  shows "f = (g :: nat \<Rightarrow> (u32 \<times> u8 list) option)"
proof
  fix a
  show "f a = g a" using assms [of a] by (metis not_None_eq surj_pair)
qed

lemma given_heap:
  assumes "blocks_ok N heap am sm" and "x \<in> set am" and "N x = Some (s, n)" and "nodeAddr n = Some a"
  shows "\<exists>b. heap a = Some b \<and> length b = unat s \<and> given N heap am a = Some (userSzie n, b)"
proof -
  obtain b where "heap a = Some b" "length b = unat s" using blocks_okD(1) [OF assms(1,3,4)] by blast
  then show ?thesis using given_iff [OF assms(1), of a "userSzie n" b] assms(2-4) by blast
qed

lemma given_keeps:
  assumes ok: "blocks_ok N heap am sm" and ok': "blocks_ok N' heap' am sm'" and same: "\<forall>x \<in> set am. N' x = N x"
    and h: "\<And>x s n a. x \<in> set am \<Longrightarrow> N x = Some (s, n) \<Longrightarrow> nodeAddr n = Some a \<Longrightarrow> heap' a = heap a"
  shows "given N' heap' am = given N heap am"
proof (rule given_eqI)
  fix a u b
  have "heap' a = heap a" if "x \<in> set am" "N x = Some (s, n)" "nodeAddr n = Some a" for x s n by (rule h [OF that])
  then show "given N' heap' am a = Some (u, b) \<longleftrightarrow> given N heap am a = Some (u, b)"
    unfolding given_iff [OF ok] given_iff [OF ok'] using same by (metis (no_types, lifting))
qed

lemma blocks_add:
  assumes ok: "blocks_ok N heap am sm" and x: "N x = Some (s, n)" "nodeAddr n = Some a" "unat (userSzie n) + 16 \<le> unat s"
    and am: "sorted_wrt (<) (map (addrKey N) (insertAt b x am))" and sm: "sorted_wrt (<) (map (sizeKey N) (insertAt c x sm))"
  shows "blocks_ok (N(x \<mapsto> (s, n\<lparr>nodeUsed := True\<rparr>))) heap (insertAt b x am) (insertAt c x sm)"
proof -
  note D = blocks_okD [OF ok]
  let ?N = "N(x \<mapsto> (s, n\<lparr>nodeUsed := True\<rparr>))"
  have K: "addrKey ?N = addrKey N" "sizeKey ?N = sizeKey N" using x by (auto simp: addrKey_def sizeKey_def keyAddr_def fun_eq_iff)
  have old: "\<exists>m. N y = Some (t, m) \<and> nodeAddr m = nodeAddr k" if "?N y = Some (t, k)" for y t k
    using that x by (cases "y = x") auto
  show ?thesis
  proof (rule blocks_okI)
    show "\<exists>bs. heap b = Some bs \<and> length bs = unat t" if k: "?N y = Some (t, k)" "nodeAddr k = Some b" for y t k b
    proof -
      obtain m where m: "N y = Some (t, m)" "nodeAddr m = Some b" using old [OF k(1)] k(2) by force
      show ?thesis by (rule D(1) [OF m])
    qed
    show "y = z" if k: "?N y = Some (t, k)" "?N z = Some (u, m)" "nodeAddr k = Some b" "nodeAddr m = Some b" for y z t k u m b
    proof -
      obtain k' m' where "N y = Some (t, k')" "nodeAddr k' = Some b" "N z = Some (u, m')" "nodeAddr m' = Some b"
        using old [OF k(1)] old [OF k(2)] k(3,4) by force
      then show ?thesis by (intro D(2))
    qed
    show "holds ?N y" if "y \<in> set (insertAt b x am)" for y
      using that D(3) [of y] x by (cases "y = x") (auto simp: holds_def)
    show "set (insertAt c x sm) = set (insertAt b x am)" using D(4) by simp
  qed (simp_all only: K am sm)
qed

lemma given_add:
  assumes ok: "blocks_ok N heap am sm" and ok': "blocks_ok (N(x \<mapsto> (s, n))) heap' am' sm'" and x: "x \<notin> set am" "set am' = insert x (set am)"
    and n: "nodeAddr n = Some a" "heap' a = Some block" and other: "\<And>b. b \<noteq> a \<Longrightarrow> heap' b = heap b" and fresh: "\<And>y t k. y \<in> set am \<Longrightarrow> N y = Some (t, k) \<Longrightarrow> nodeAddr k \<noteq> Some a"
  shows "given (N(x \<mapsto> (s, n))) heap' am' = (given N heap am)(a \<mapsto> (userSzie n, block))" "given N heap am a = None"
proof -
  show none: "given N heap am a = None"
  proof (rule ccontr)
    assume "given N heap am a \<noteq> None"
    then obtain u b where "given N heap am a = Some (u, b)" by fastforce
    then show False unfolding given_iff [OF ok] using fresh by blast
  qed
  show "given (N(x \<mapsto> (s, n))) heap' am' = (given N heap am)(a \<mapsto> (userSzie n, block))"
  proof (rule given_eqI)
    fix c u b
    show "given (N(x \<mapsto> (s, n))) heap' am' c = Some (u, b) \<longleftrightarrow> ((given N heap am)(a \<mapsto> (userSzie n, block))) c = Some (u, b)"
    proof (cases "c = a")
      case True
      have "given (N(x \<mapsto> (s, n))) heap' am' a = Some (userSzie n, block)"
        using x(2) n unfolding given_iff [OF ok'] by (intro exI [of _ x]) simp
      then show ?thesis using True by simp
    next
      case False
      then have "((given N heap am)(a \<mapsto> (userSzie n, block))) c = Some (u, b) \<longleftrightarrow>
          (\<exists>y t k. y \<in> set am \<and> N y = Some (t, k) \<and> nodeAddr k = Some c \<and> userSzie k = u \<and> heap' c = Some b)"
        using given_iff [OF ok, of c u b] other [OF False] by simp
      also have "\<dots> \<longleftrightarrow> given (N(x \<mapsto> (s, n))) heap' am' c = Some (u, b)"
      proof -
        have "y \<in> set am \<and> N y = Some (t, k) \<and> nodeAddr k = Some c \<and> userSzie k = u \<and> heap' c = Some b \<longleftrightarrow>
            y \<in> insert x (set am) \<and> (N(x \<mapsto> (s, n))) y = Some (t, k) \<and> nodeAddr k = Some c \<and> userSzie k = u \<and> heap' c = Some b" for y t k
          using x(1) n(1) False by (cases "y = x") auto
        then show ?thesis unfolding given_iff [OF ok'] x(2) by (simp only:)
      qed
      finally show ?thesis by blast
    qed
  qed
qed

subsection \<open>Marks\<close>

lemma length_valueBytes [simp]: "length (valueBytes k v) = k"
  by (simp add: valueBytes_def)

lemma poolMark_ok:
  assumes n: "nodeAddr n = Some a" "poolHeap st a = Some block" and p: "8 \<le> rearPlace n" "rearPlace n + 8 \<le> int (length block)"
  shows "\<exists>block'. poolMark n st = Inr (st\<lparr>poolHeap := (poolHeap st)(a \<mapsto> block')\<rparr>) \<and> length block' = length block \<and> marked n block'"
proof -
  let ?r = "nat (rearPlace n)"
  have r: "8 \<le> ?r" "?r + 8 \<le> length block" using p by linarith+
  define F R where "F = valueBytes 8 FRONT_MARK" and "R = valueBytes 8 REAR_MARK"
  have FR: "length F = 8" "length R = 8" by (simp_all add: F_def R_def)
  let ?b1 = "F @ drop 8 block"
  let ?b2 = "take ?r ?b1 @ R @ drop (?r + 8) ?b1"
  have "storeBytes 0 F block = Inr ?b1" using r FR by (simp add: storeBytes_def)
  moreover have "storeBytes (rearPlace n) R ?b1 = Inr ?b2" using r FR by (simp add: storeBytes_def)
  ultimately have "poolMark n st = Inr (st\<lparr>poolHeap := (poolHeap st)(a \<mapsto> ?b2)\<rparr>)"
    unfolding poolMark_def F_def [symmetric] R_def [symmetric] using n by simp
  moreover have "length ?b2 = length block" using r FR by simp
  moreover have "take 8 ?b2 = F" using r FR by simp
  moreover have "take 8 (drop ?r ?b2) = R" using r FR by simp
  ultimately show ?thesis unfolding marked_def F_def [symmetric] R_def [symmetric] by blast
qed

text \<open>A block that is too small for the rear mark is written past its end.\<close>

lemma poolMark_overruns:
  assumes "nodeAddr n = Some a" and "poolHeap st a = Some block" and "int (length block) < rearPlace n + 8"
  shows "poolMark n st = Inl BadIndex"
proof -
  have "length block < nat (rearPlace n) + 8" using assms(3) by linarith
  then show ?thesis using assms(1,2) by (auto simp: poolMark_def storeBytes_def)
qed

subsection \<open>Malloc\<close>

definition nodes_left :: "u32 \<Rightarrow> DevMemoryPool \<Rightarrow> bool" where
  "nodes_left bsize st \<longleftrightarrow> (\<forall>i < DEV_MEMORY_POOL_LIST_MAX. \<forall>l. p_list st ! i = Some l \<and> realSize l = bsize \<longrightarrow>
     AllocdButUnusedNodeIndex l \<noteq> [] \<or> unallocdNodeIndex l \<noteq> [])"

lemma GetList_class:
  assumes ok: "structure_ok st" and g: "GetList memory bsize st = (Some li, st')" and room: "nodes_left bsize st"
  shows "\<exists>l. p_list st' ! li = Some l \<and> realSize l = bsize \<and> (AllocdButUnusedNodeIndex l \<noteq> [] \<or> unallocdNodeIndex l \<noteq> [])"
proof -
  obtain l where l: "li < DEV_MEMORY_POOL_LIST_MAX" "p_list st' ! li = Some l" "realSize l = bsize" using GetList_ok [OF ok g] by blast
  consider "st' = st" | "p_list st' ! li = Some (newList bsize)"
    using g structureD(1) [OF ok] l(1) by (auto simp: GetList_def Let_def split: search_end.splits if_splits)
  then have "AllocdButUnusedNodeIndex l \<noteq> [] \<or> unallocdNodeIndex l \<noteq> []"
  proof cases
    case 1
    then show ?thesis using l room by (auto simp: nodes_left_def)
  next
    case 2
    then have "unallocdNodeIndex l = [0..<DEV_MEMORY_POOL_NODE_MAX]" using l(2) by (simp add: newList_def)
    moreover have "[0..<DEV_MEMORY_POOL_NODE_MAX] \<noteq> []" by (simp only: upt_eq_Nil_conv) simp
    ultimately show ?thesis by simp
  qed
  then show ?thesis using l by blast
qed

lemma GetList_some:
  assumes ok: "structure_ok st" and "AllocdButUnusedListIndex st \<noteq> []"
  shows "fst (GetList True bsize st) \<noteq> None"
proof -
  have "distinct (AllocdButUnusedListIndex st)" using ok by (simp add: structure_ok_def)
  then have "last (AllocdButUnusedListIndex st) \<in> set (AllocdButUnusedListIndex st)" using assms(2) by simp
  then have "p_list st ! last (AllocdButUnusedListIndex st) = None" using ok by (auto simp: structure_ok_def)
  then show ?thesis using assms(2) by (auto simp: GetList_def Let_def split: search_end.splits)
qed

lemma all_there_ok:
  assumes "blocks_ok N heap am sm" and "N = nodes st"
  shows "all_there st am" "all_there st sm"
proof -
  have "nodes st x \<noteq> None" if "x \<in> set am" for x using holds_key [OF blocks_okD(3) [OF assms(1) that]] assms(2) by auto
  then show "all_there st am" "all_there st sm" using blocks_okD(4) [OF assms(1)] by (simp_all add: all_there_def)
qed

text \<open>A node that was taken gets its mark and its places in the maps.\<close>

lemma enter_maps:
  assumes ok: "structure_ok st" "blocks_ok (nodes st) (poolHeap st) (m_addr_map st) (m_realSize_map st)"
    and x: "nodes st x = Some (s, n)" "nodeAddr n = Some a" "x \<notin> set (m_addr_map st)" "unat (userSzie n) + 16 \<le> unat s"
    and stack: "\<And>l. p_list st ! fst x = Some l \<Longrightarrow> snd x \<notin> set (AllocdButUnusedNodeIndex l)"
    and room: "length (m_addr_map st) < POOL_MAP_MAX"
  shows "\<exists>b c. AddAddrMap a x st = (True, st\<lparr>m_addr_map := insertAt b x (m_addr_map st)\<rparr>) \<and>
    AddRealSizeMap a s x (st\<lparr>m_addr_map := insertAt b x (m_addr_map st)\<rparr>) =
      (True, st\<lparr>m_addr_map := insertAt b x (m_addr_map st), m_realSize_map := insertAt c x (m_realSize_map st)\<rparr>) \<and>
    blocks_ok ((nodes st)(x \<mapsto> (s, n\<lparr>nodeUsed := True\<rparr>))) (poolHeap st) (insertAt b x (m_addr_map st)) (insertAt c x (m_realSize_map st))"
proof -
  note D = blocks_okD [OF ok(2)] and T = all_there_ok [OF ok(2) refl]
  let ?N = "nodes st" and ?am = "m_addr_map st" and ?sm = "m_realSize_map st"
  have k: "addrKey ?N x = a" "sizeKey ?N x = (s, a)" using x by (auto simp: addrKey_def sizeKey_def keyAddr_def)
  have new: "addrKey ?N y \<noteq> a" "snd (sizeKey ?N y) \<noteq> a" if y: "y \<in> set ?am" for y
  proof -
    obtain t m b where m: "?N y = Some (t, m)" "nodeAddr m = Some b" "addrKey ?N y = b" "sizeKey ?N y = (t, b)"
      using holds_key [OF D(3) [OF y]] by blast
    have "b \<noteq> a" using D(2) [OF m(1) x(1), of a] m(2) x(2,3) y by auto
    then show "addrKey ?N y \<noteq> a" "snd (sizeKey ?N y) \<noteq> a" using m by simp_all
  qed
  obtain b where b: "AddAddrMap a x st = (True, st\<lparr>m_addr_map := insertAt b x ?am\<rparr>)" "sorted_wrt (<) (map (addrKey ?N) (insertAt b x ?am))"
    using AddAddrMap_ok [OF T(1) D(5), of a x] new(1) room k(1) by auto
  let ?st = "st\<lparr>m_addr_map := insertAt b x ?am\<rparr>"
  have "length ?sm = length ?am"
    using sorted_distinct [OF D(5)] sorted_distinct [OF D(6)] D(4) by (metis distinct_card)
  then have r: "length (m_realSize_map ?st) < POOL_MAP_MAX" using room by simp
  have t: "all_there ?st (m_realSize_map ?st)" using T(2) by (simp add: all_there_def)
  have "\<exists>c. AddRealSizeMap a s x ?st = (True, ?st\<lparr>m_realSize_map := insertAt c x (m_realSize_map ?st)\<rparr>) \<and>
      (sizeKey (nodes ?st) x = (s, a) \<longrightarrow> sorted_wrt (<) (map (sizeKey (nodes ?st)) (insertAt c x (m_realSize_map ?st))))"
    by (rule AddRealSizeMap_ok [OF t _ _ r]) (use D(4,6) new(2) in simp_all)
  then obtain c where c: "AddRealSizeMap a s x ?st = (True, ?st\<lparr>m_realSize_map := insertAt c x ?sm\<rparr>)" "sorted_wrt (<) (map (sizeKey ?N) (insertAt c x ?sm))"
    using k(2) by auto
  show ?thesis using b(1) c(1) blocks_add [OF ok(2) x(1,2,4) b(2) c(2)] by (intro exI [of _ b] exI [of _ c]) simp
qed

lemma pool_okD:
  assumes "pool_ok st"
  shows "poolInit st" "\<not> poolLocked st" "structure_ok st" "blocks_ok (nodes st) (poolHeap st) (m_addr_map st) (m_realSize_map st)"
  using assms by (simp_all add: pool_ok_def)

lemma keeps_pool:
  assumes ok: "pool_ok st" and k: "keeps st st'"
  shows "pool_ok st'" "pool_blocks st' = pool_blocks st"
proof -
  note P = pool_okD [OF ok]
  have K: "structure_ok st'" "blocks_ok (nodes st') (poolHeap st') (m_addr_map st) (m_realSize_map st)" "\<forall>x \<in> set (m_addr_map st). nodes st' x = nodes st x"
    "poolHeap st \<subseteq>\<^sub>m poolHeap st'" "m_addr_map st' = m_addr_map st" "m_realSize_map st' = m_realSize_map st" "poolInit st' = poolInit st" "poolLocked st' = poolLocked st"
    using k by (simp_all add: keeps_def same_maps_def)
  show "pool_ok st'" using K P(1,2) by (simp add: pool_ok_def)
  have "poolHeap st' a = poolHeap st a" if "x \<in> set (m_addr_map st)" "nodes st x = Some (s, n)" "nodeAddr n = Some a" for x s n a
    using given_heap [OF P(4) that] K(4) by (auto simp: map_le_def dom_def)
  then show "pool_blocks st' = pool_blocks st" unfolding pool_blocks_def K(5) by (intro given_keeps [OF P(4) K(2,3)]) blast
qed

abbreviation (input) markAndEnter :: "nat \<Rightarrow> nat \<Rightarrow> u32 \<Rightarrow> nat \<Rightarrow> Dev_MemoryPool_node \<Rightarrow> DevMemoryPool \<Rightarrow> (nat option \<times> DevMemoryPool) outcome" where
  "markAndEnter li ni bsize a n st \<equiv>
     bindE (poolMark n st) (\<lambda>st4.
       case AddAddrMap a (li, ni) st4 of
         (False, st5) \<Rightarrow> Inr (None, st5)
       | (True, st5) \<Rightarrow>
           (case AddRealSizeMap a bsize (li, ni) st5 of
              (False, st6) \<Rightarrow> Inr (None, st6)
            | (True, st6) \<Rightarrow>
                Inr (Some a, updList li (\<lambda>l. l\<lparr>realSize := bsize\<rparr>) (updNode (li, ni) (\<lambda>n. n\<lparr>nodeUsed := True\<rparr>) st6))))"

text \<open>In the end the node is used; the list has the size it had.\<close>

lemma use_node:
  assumes ok: "structure_ok st" and p: "pending st (li, ni) s n"
  shows "\<exists>st'. updList li (\<lambda>l. l\<lparr>realSize := s\<rparr>) (updNode (li, ni) (\<lambda>n. n\<lparr>nodeUsed := True\<rparr>) st) = st' \<and> structure_ok st' \<and>
    nodes st' = (nodes st)((li, ni) \<mapsto> (s, n\<lparr>nodeUsed := True\<rparr>)) \<and> same_maps st st' \<and> poolHeap st' = poolHeap st"
proof -
  let ?st1 = "updNode (li, ni) (\<lambda>n. n\<lparr>nodeUsed := True\<rparr>) st"
  have P: "nodes st (li, ni) = Some (s, n)" "\<And>l. p_list st ! fst (li, ni) = Some l \<Longrightarrow> snd (li, ni) \<notin> set (AllocdButUnusedNodeIndex l)"
    using p by (simp_all add: pending_def)
  note u = updNode_ok [OF ok P, where f = "\<lambda>n. n\<lparr>nodeUsed := True\<rparr>"]
  have N: "nodes ?st1 (li, ni) = Some (s, n\<lparr>nodeUsed := True\<rparr>)" using u(2) by simp
  obtain l where l: "p_list ?st1 ! li = Some l" "realSize l = s" "li < DEV_MEMORY_POOL_LIST_MAX" using at_list [OF N] by (auto simp: inRange_def)
  have same: "l\<lparr>realSize := s\<rparr> = l" using l(2) by (cases l) simp
  have "updList li (\<lambda>l. l\<lparr>realSize := s\<rparr>) ?st1 = ?st1\<lparr>p_list := (p_list ?st1)[li := p_list ?st1 ! li]\<rparr>" using l(1) same by (simp add: updList_at)
  then have "updList li (\<lambda>l. l\<lparr>realSize := s\<rparr>) ?st1 = ?st1" by simp
  then show ?thesis using u by simp
qed

lemma mark_and_enter:
  assumes ok: "pool_ok st" and p: "pending st (li, ni) s n" and a: "nodeAddr n = Some a" and fits: "unat (userSzie n) + 16 \<le> unat s"
  shows "\<exists>r st'. markAndEnter li ni s a n st = Inr (r, st') \<and> pool_ok st' \<and> (r \<noteq> None \<longleftrightarrow> length (m_addr_map st) < POOL_MAP_MAX) \<and>
    (r = None \<longrightarrow> pool_blocks st' = pool_blocks st) \<and>
    (r \<noteq> None \<longrightarrow> r = Some a \<and> pool_blocks st a = None \<and>
      (\<exists>block. pool_blocks st' = (pool_blocks st)(a \<mapsto> (userSzie n, block)) \<and> length block = unat s \<and> marked n block))"
proof -
  let ?x = "(li, ni)" and ?am = "m_addr_map st" and ?sm = "m_realSize_map st"
  note P = pool_okD [OF ok]
  note D = blocks_okD [OF P(4)]
  have x: "nodes st ?x = Some (s, n)" "\<not> nodeUsed n" using p by (simp_all add: pending_def)
  have out: "?x \<notin> set ?am" using D(3) [of ?x] x by (auto simp: holds_def)
  have fresh: "nodeAddr k \<noteq> Some a" if "y \<in> set ?am" "nodes st y = Some (t, k)" for y t k
    using D(2) [OF that(2) x(1), of a] a out that(1) by auto
  obtain old where old: "poolHeap st a = Some old" "length old = unat s" using D(1) [OF x(1) a] by blast
  obtain block where m: "poolMark n st = Inr (st\<lparr>poolHeap := (poolHeap st)(a \<mapsto> block)\<rparr>)" "length block = unat s" "marked n block"
    using poolMark_ok [OF a old(1)] rearPlace_fits [OF fits] old(2) by auto
  let ?h = "(poolHeap st)(a \<mapsto> block)"
  let ?st4 = "st\<lparr>poolHeap := ?h\<rparr>"
  have B: "blocks_ok (nodes ?st4) (poolHeap ?st4) (m_addr_map ?st4) (m_realSize_map ?st4)" "structure_ok ?st4"
    using blocks_heap [OF P(4) old(1), of block] m(2) old(2) P(3) by simp_all
  show ?thesis
  proof (cases "length ?am < POOL_MAP_MAX")
    case False
    then have "AddAddrMap a ?x ?st4 = (False, ?st4)" by (simp add: AddAddrMap_def Let_def)
    moreover have "pool_ok ?st4" using B P(1,2) by (simp add: pool_ok_def)
    moreover have "given (nodes st) ?h ?am = given (nodes st) (poolHeap st) ?am"
    proof (rule given_keeps [OF P(4)])
      show "?h b = poolHeap st b" if "y \<in> set ?am" "nodes st y = Some (t, k)" "nodeAddr k = Some b" for y t k b
        using fresh [OF that(1,2)] that(3) by auto
    qed (use B(1) in simp_all)
    then have "pool_blocks ?st4 = pool_blocks st" by (simp add: pool_blocks_def)
    ultimately show ?thesis using False m(1) by (intro exI [of _ None] exI [of _ ?st4]) simp
  next
    case True
    have "nodes ?st4 ?x = Some (s, n)" "?x \<notin> set (m_addr_map ?st4)" using x(1) out by simp_all
    moreover have "snd ?x \<notin> set (AllocdButUnusedNodeIndex l)" if "p_list ?st4 ! fst ?x = Some l" for l using p that by (simp add: pending_def)
    ultimately obtain b c where e: "AddAddrMap a ?x ?st4 = (True, ?st4\<lparr>m_addr_map := insertAt b ?x ?am\<rparr>)"
      "AddRealSizeMap a s ?x (?st4\<lparr>m_addr_map := insertAt b ?x ?am\<rparr>) = (True, ?st4\<lparr>m_addr_map := insertAt b ?x ?am, m_realSize_map := insertAt c ?x ?sm\<rparr>)"
      "blocks_ok ((nodes st)(?x \<mapsto> (s, n\<lparr>nodeUsed := True\<rparr>))) ?h (insertAt b ?x ?am) (insertAt c ?x ?sm)"
      using enter_maps [OF B(2,1), of ?x s n a] a fits True by auto
    let ?st6 = "?st4\<lparr>m_addr_map := insertAt b ?x ?am, m_realSize_map := insertAt c ?x ?sm\<rparr>"
    have "structure_ok ?st6" "pending ?st6 (li, ni) s n" using P(3) p by (simp_all add: pending_def)
    from use_node [OF this] obtain st' where u: "updList li (\<lambda>l. l\<lparr>realSize := s\<rparr>) (updNode (li, ni) (\<lambda>n. n\<lparr>nodeUsed := True\<rparr>) ?st6) = st'" "structure_ok st'"
      "nodes st' = (nodes st)(?x \<mapsto> (s, n\<lparr>nodeUsed := True\<rparr>))" "same_maps ?st6 st'" "poolHeap st' = ?h" by auto
    have st': "m_addr_map st' = insertAt b ?x ?am" "m_realSize_map st' = insertAt c ?x ?sm" "poolInit st'" "\<not> poolLocked st'"
      using u(4) P(1,2) by (simp_all add: same_maps_def)
    have "pool_ok st'" using u(2,3,5) st' e(3) by (simp add: pool_ok_def)
    moreover have "given ((nodes st)(?x \<mapsto> (s, n\<lparr>nodeUsed := True\<rparr>))) ?h (insertAt b ?x ?am) = (given (nodes st) (poolHeap st) ?am)(a \<mapsto> (userSzie (n\<lparr>nodeUsed := True\<rparr>), block))"
      "given (nodes st) (poolHeap st) ?am a = None"
      by (rule given_add [OF P(4) e(3) out]; use a fresh in simp)+
    then have "pool_blocks st' = (pool_blocks st)(a \<mapsto> (userSzie n, block))" "pool_blocks st a = None"
      by (simp_all add: pool_blocks_def u(3,5) st'(1))
    moreover have "markAndEnter li ni s a n st = Inr (Some a, st')" using m(1) e(1,2) u(1) by simp
    ultimately show ?thesis using True m(2,3) by (intro exI [of _ "Some a"] exI [of _ st']) auto
  qed
qed

text \<open>The request as a whole.\<close>

lemma writes_size:
  assumes ok: "pool_ok st" and p: "pending st (li, ni) s n"
  shows "\<exists>st' l. updNode (li, ni) (\<lambda>n. n\<lparr>userSzie := bytes\<rparr>) st = st' \<and> pool_ok st' \<and> pool_blocks st' = pool_blocks st \<and>
    pending st' (li, ni) s (n\<lparr>userSzie := bytes\<rparr>) \<and> nodeAt st' (li, ni) = Some (l, n\<lparr>userSzie := bytes\<rparr>) \<and> m_addr_map st' = m_addr_map st"
proof -
  let ?x = "(li, ni)" and ?n = "n\<lparr>userSzie := bytes\<rparr>"
  let ?st = "updNode ?x (\<lambda>n. n\<lparr>userSzie := bytes\<rparr>) st"
  note P = pool_okD [OF ok]
  have N: "nodes st ?x = Some (s, n)" "\<not> nodeUsed n" "\<And>l. p_list st ! fst ?x = Some l \<Longrightarrow> snd ?x \<notin> set (AllocdButUnusedNodeIndex l)"
    using p by (simp_all add: pending_def)
  note u = updNode_ok [OF P(3) N(1,3), where f = "\<lambda>n. n\<lparr>userSzie := bytes\<rparr>"]
  have out: "?x \<notin> set (m_addr_map st)" using blocks_okD(3) [OF P(4), of ?x] N(1,2) by (auto simp: holds_def)
  have B: "blocks_ok (nodes ?st) (poolHeap ?st) (m_addr_map st) (m_realSize_map st)"
    using blocks_node [OF P(4) out N(1), of ?n] u(2,4) by simp
  have k: "keeps st ?st" using u B out by (auto simp: keeps_def)
  have x: "nodes ?st ?x = Some (s, ?n)" using u(2) by simp
  obtain l where l: "nodeAt ?st ?x = Some (l, ?n)" using nodes_at [OF x] by blast
  have "snd ?x \<notin> set (AllocdButUnusedNodeIndex k)" if k: "p_list ?st ! fst ?x = Some k" for k
  proof -
    obtain m where "p_list st ! fst ?x = Some m" "AllocdButUnusedNodeIndex m = AllocdButUnusedNodeIndex k"
      using u(5) k by (cases "p_list st ! fst ?x") auto
    then show ?thesis using N(3) by metis
  qed
  then have "pending ?st ?x s ?n" using x N(2) by (simp add: pending_def)
  then show ?thesis using keeps_pool [OF ok k] l u(3) by (intro exI [of _ ?st] exI [of _ l]) (simp add: same_maps_def)
qed

text \<open>The marks around \<open>bytes\<close> bytes of a client.\<close>

definition marks_around :: "u32 \<Rightarrow> u8 list \<Rightarrow> bool" where
  "marks_around bytes block \<longleftrightarrow> take 8 block = valueBytes 8 FRONT_MARK \<and> take 8 (drop (unat bytes + 8) block) = valueBytes 8 REAR_MARK"

text \<open>A request fails without a trace for the client, or has a node to mark and to enter.\<close>

abbreviation (input) leavesNoTrace :: "bool \<Rightarrow> bool \<Rightarrow> (nat \<times> u8 list) option \<Rightarrow> u32 \<Rightarrow> DevMemoryPool \<Rightarrow> bool" where
  "leavesNoTrace listMemory nodeMemory system bytes st \<equiv>
     \<exists>st'. DevMemoryPool_Malloc listMemory nodeMemory system bytes st = Inr (None, st') \<and> pool_ok st' \<and> pool_blocks st' = pool_blocks st \<and>
       \<not> (listMemory \<and> nodeMemory \<and> system \<noteq> None \<and> AllocdButUnusedListIndex st \<noteq> [])"

abbreviation (input) hasNode :: "bool \<Rightarrow> bool \<Rightarrow> (nat \<times> u8 list) option \<Rightarrow> u32 \<Rightarrow> u32 \<Rightarrow> DevMemoryPool \<Rightarrow> bool" where
  "hasNode listMemory nodeMemory system bytes s st \<equiv>
     \<exists>li ni n a st3. DevMemoryPool_Malloc listMemory nodeMemory system bytes st = markAndEnter li ni s a (n\<lparr>userSzie := bytes\<rparr>) st3 \<and> pool_ok st3 \<and>
       pool_blocks st3 = pool_blocks st \<and> pending st3 (li, ni) s (n\<lparr>userSzie := bytes\<rparr>) \<and> nodeAddr n = Some a \<and> m_addr_map st3 = m_addr_map st"

lemma Malloc_from_list:
  assumes ok: "pool_ok st" and s: "s = GetRealSize (ucast bytes)" and g: "GetList listMemory s st = (Some li, st1)" and k1: "keeps st st1"
    and l: "li < DEV_MEMORY_POOL_LIST_MAX" "p_list st1 ! li = Some l" "realSize l = s" and sys: "system_block system (realSize l) st1"
    and room: "AllocdButUnusedNodeIndex l \<noteq> [] \<or> unallocdNodeIndex l \<noteq> []"
  shows "leavesNoTrace listMemory nodeMemory system bytes st \<or> hasNode listMemory nodeMemory system bytes s st"
proof -
  let ?M = "DevMemoryPool_Malloc listMemory nodeMemory system bytes st"
  note P = pool_okD [OF ok]
  note M = DevMemoryPool_Malloc_def Let_def s [symmetric]
  note K1 = keeps_pool [OF ok k1]
  from GetNode_ok [OF pool_okD(3,4) [OF K1(1)] l(1,2) sys room, of nodeMemory] obtain r2 st2 where n2: "GetNode nodeMemory system li st1 = Inr (r2, st2)"
    "keeps st1 st2" "nodeMemory \<longrightarrow> r2 \<noteq> None" "\<forall>ni. r2 = Some ni \<longrightarrow> (\<exists>n. pending st2 (li, ni) s n \<and> (system \<noteq> None \<longrightarrow> nodeAddr n \<noteq> None))"
    unfolding l(3) by blast
  note K2 = keeps_pool [OF K1(1) n2(2)]
  show ?thesis
  proof (cases r2)
    case None
    then have "?M = Inr (None, st2)" using P(1,2) g n2(1) by (simp add: M)
    then have "leavesNoTrace listMemory nodeMemory system bytes st" using K1 K2 n2(3) None by simp
    then show ?thesis by blast
  next
    case ni: (Some ni)
    obtain n where n: "pending st2 (li, ni) s n" "system \<noteq> None \<longrightarrow> nodeAddr n \<noteq> None" using n2(4) [rule_format, OF ni] by (elim exE conjE)
    obtain st3 k where w: "updNode (li, ni) (\<lambda>n. n\<lparr>userSzie := bytes\<rparr>) st2 = st3" "pool_ok st3" "pool_blocks st3 = pool_blocks st2"
      "pending st3 (li, ni) s (n\<lparr>userSzie := bytes\<rparr>)" "nodeAt st3 (li, ni) = Some (k, n\<lparr>userSzie := bytes\<rparr>)" "m_addr_map st3 = m_addr_map st2"
      using writes_size [OF K2(1) n(1), of bytes] by auto
    have same: "m_addr_map st3 = m_addr_map st" "pool_blocks st3 = pool_blocks st" using w(3,6) k1 n2(2) K1(2) K2(2) by (simp_all add: keeps_def same_maps_def)
    show ?thesis
    proof (cases "nodeAddr n")
      case None
      then have "?M = Inr (None, st3)" using P(1,2) g n2(1) ni w(1,5) by (simp add: M)
      then show ?thesis using w(2) same(2) n(2) None by blast
    next
      case (Some a)
      have "?M = markAndEnter li ni s a (n\<lparr>userSzie := bytes\<rparr>) st3" using P(1,2) g n2(1) ni w(1,5) Some by (simp add: M)
      then show ?thesis using w(2,4) same Some by blast
    qed
  qed
qed

lemma Malloc_takes:
  assumes ok: "pool_ok st" and sys: "system_block system (GetRealSize (ucast bytes)) st"
  defines "s \<equiv> GetRealSize (ucast bytes)"
  shows "leavesNoTrace listMemory nodeMemory system bytes st \<or> hasNode listMemory nodeMemory system bytes s st \<or>
    (DevMemoryPool_Malloc listMemory nodeMemory system bytes st = Inl BadIndex \<and> \<not> nodes_left s st)"
proof -
  let ?M = "DevMemoryPool_Malloc listMemory nodeMemory system bytes st"
  note P = pool_okD [OF ok]
  note M = DevMemoryPool_Malloc_def Let_def s_def [symmetric]
  obtain found st1 where g: "GetList listMemory s st = (found, st1)" by fastforce
  note G = GetList_ok [OF P(3) g]
  have k1: "keeps st st1" using G P(4) by (simp add: keeps_def same_maps_def)
  note K1 = keeps_pool [OF ok k1]
  show ?thesis
  proof (cases found)
    case None
    then have "?M = Inr (None, st1)" using P(1,2) g by (simp add: M)
    moreover have "\<not> (listMemory \<and> AllocdButUnusedListIndex st \<noteq> [])" using GetList_some [OF P(3), of s] g None by (cases listMemory) auto
    ultimately show ?thesis using K1 by blast
  next
    case (Some li)
    obtain l where l: "li < DEV_MEMORY_POOL_LIST_MAX" "p_list st1 ! li = Some l" "realSize l = s" using G Some by blast
    show ?thesis
    proof (cases "AllocdButUnusedNodeIndex l = [] \<and> unallocdNodeIndex l = []")
      case True
      then have "GetNode nodeMemory system li st1 = Inl BadIndex" using l(2) by (simp add: GetNode_def Let_def)
      then have "?M = Inl BadIndex" using P(1,2) g Some by (simp add: M)
      moreover have "\<not> nodes_left s st" using GetList_class [OF P(3), of listMemory s li st1] g Some l(2) True by auto
      ultimately show ?thesis by blast
    next
      case False
      have "system_block system (realSize l) st1" using sys G l(3) by (simp add: system_block_def s_def)
      from Malloc_from_list [OF ok meta_eq_to_obj_eq [OF s_def] g [unfolded Some] k1 l this, of nodeMemory] False show ?thesis by blast
    qed
  qed
qed

text \<open>What a request does to the blocks given out: nothing, or one more, of the size asked for and marked on both sides.\<close>

definition request_served :: "u32 \<Rightarrow> nat option \<Rightarrow> DevMemoryPool \<Rightarrow> DevMemoryPool \<Rightarrow> bool" where
  "request_served bytes r st st' \<longleftrightarrow>
     (case r of
        None \<Rightarrow> pool_blocks st' = pool_blocks st
      | Some a \<Rightarrow> pool_blocks st a = None \<and> (\<exists>block. pool_blocks st' = (pool_blocks st)(a \<mapsto> (bytes, block)) \<and>
                   length block = unat (GetRealSize (ucast bytes)) \<and> marks_around bytes block))"

lemma marked_around: "unat (userSzie n) + 16 \<le> unat (s :: u32) \<Longrightarrow> marked n block \<longleftrightarrow> marks_around (userSzie n) block"
  unfolding marked_def marks_around_def by (simp only: rearPlace_exact nat_int)

lemma Malloc_ok:
  assumes ok: "pool_ok st" and sys: "system_block system (GetRealSize (ucast bytes)) st" and fits: "unat bytes + 16 \<le> unat (GetRealSize (ucast bytes))"
  shows "(\<exists>r st'. DevMemoryPool_Malloc listMemory nodeMemory system bytes st = Inr (r, st') \<and> pool_ok st' \<and> request_served bytes r st st' \<and>
      (listMemory \<and> nodeMemory \<and> system \<noteq> None \<and> AllocdButUnusedListIndex st \<noteq> [] \<and> length (m_addr_map st) < POOL_MAP_MAX \<longrightarrow> r \<noteq> None)) \<or>
    (DevMemoryPool_Malloc listMemory nodeMemory system bytes st = Inl BadIndex \<and> \<not> nodes_left (GetRealSize (ucast bytes)) st)"
  using Malloc_takes [OF ok sys, of listMemory nodeMemory]
proof (elim disjE exE conjE)
  show ?thesis if "DevMemoryPool_Malloc listMemory nodeMemory system bytes st = Inr (None, st')" "pool_ok st'" "pool_blocks st' = pool_blocks st"
    "\<not> (listMemory \<and> nodeMemory \<and> system \<noteq> None \<and> AllocdButUnusedListIndex st \<noteq> [])" for st'
    using that by (intro disjI1 exI [of _ None] exI [of _ st']) (simp add: request_served_def, blast)
next
  fix li ni a st3 and n :: Dev_MemoryPool_node
  let ?n = "n\<lparr>userSzie := bytes\<rparr>"
  assume M: "DevMemoryPool_Malloc listMemory nodeMemory system bytes st = markAndEnter li ni (GetRealSize (ucast bytes)) a ?n st3"
    and st3: "pool_ok st3" "pool_blocks st3 = pool_blocks st" "m_addr_map st3 = m_addr_map st"
    and n: "pending st3 (li, ni) (GetRealSize (ucast bytes)) ?n" "nodeAddr n = Some a"
  have f: "unat (userSzie ?n) + 16 \<le> unat (GetRealSize (ucast bytes))" using fits by simp
  have a: "nodeAddr ?n = Some a" using n(2) by simp
  from mark_and_enter [OF st3(1) n(1) a f] obtain r st' where "DevMemoryPool_Malloc listMemory nodeMemory system bytes st = Inr (r, st')" "pool_ok st'"
    "r \<noteq> None \<longleftrightarrow> length (m_addr_map st) < POOL_MAP_MAX" "r = None \<longrightarrow> pool_blocks st' = pool_blocks st"
    "r \<noteq> None \<longrightarrow> r = Some a \<and> pool_blocks st a = None \<and> (\<exists>block. pool_blocks st' = (pool_blocks st)(a \<mapsto> (userSzie ?n, block)) \<and>
      length block = unat (GetRealSize (ucast bytes)) \<and> marked ?n block)"
    unfolding st3(2,3) M by blast
  then show ?thesis unfolding marked_around [OF f]
    by (intro disjI1 exI [of _ r] exI [of _ st']) (cases r; auto simp: request_served_def)
qed blast

text \<open>A block without room for both marks is never given out: the rear mark goes past its end.\<close>

lemma too_small:
  assumes "\<not> unat bytes + 16 \<le> unat (GetRealSize (ucast bytes))"
  shows "int (unat (GetRealSize (ucast bytes))) < rearPlace (n\<lparr>userSzie := bytes\<rparr>) + 8"
proof (cases "unat bytes + 8 < 2 ^ 32")
  case True
  then have "unat (bytes + 8) = unat bytes + 8" by (simp add: unat_word_ariths)
  then have "rearPlace (n\<lparr>userSzie := bytes\<rparr>) = int (unat bytes + 8)" by (simp add: rearPlace_def)
  then show ?thesis using assms by linarith
next
  case False
  define k where "k = unat bytes"
  have "unat bytes < 2 ^ LENGTH(32)" by (rule unsigned_less)
  then have k: "4294967288 \<le> k" "k < 4294967296" using False by (simp_all add: k_def)
  have n: "unat (ucast bytes :: u64) = k" using k(2) by (simp add: unsigned_ucast_eq k_def [symmetric] take_bit_nat_eq_self)
  have g: "granularity k = 8388608" using k by (simp add: granularity_def m_size_align_def)
  have "(k + 8388607) div 8388608 = 512" using k by linarith
  then have r: "roundUp k 8388608 = 4294967296" by (simp add: roundUp_def)
  have "unat (GetRealSize (ucast bytes)) = 0" using GetRealSize_exact [of "ucast bytes"] k unfolding n g r by simp
  then show ?thesis using rearPlace_nonneg [of "n\<lparr>userSzie := bytes\<rparr>"] by linarith
qed

lemma Malloc_small:
  assumes ok: "pool_ok st" and sys: "system_block system (GetRealSize (ucast bytes)) st" and small: "\<not> unat bytes + 16 \<le> unat (GetRealSize (ucast bytes))"
  shows "DevMemoryPool_Malloc listMemory nodeMemory system bytes st = Inl BadIndex \<or>
    (\<exists>st'. DevMemoryPool_Malloc listMemory nodeMemory system bytes st = Inr (None, st') \<and> pool_ok st' \<and> pool_blocks st' = pool_blocks st)"
proof -
  have "markAndEnter li ni (GetRealSize (ucast bytes)) a (n\<lparr>userSzie := bytes\<rparr>) st3 = Inl BadIndex"
    if h: "pool_ok st3" "pending st3 (li, ni) (GetRealSize (ucast bytes)) (n\<lparr>userSzie := bytes\<rparr>)" "nodeAddr n = Some a" for li ni a st3 and n :: Dev_MemoryPool_node
  proof -
    have n: "nodes st3 (li, ni) = Some (GetRealSize (ucast bytes), n\<lparr>userSzie := bytes\<rparr>)" "nodeAddr (n\<lparr>userSzie := bytes\<rparr>) = Some a"
      using h(2,3) by (simp_all add: pending_def)
    obtain block where b: "poolHeap st3 a = Some block" "length block = unat (GetRealSize (ucast bytes))"
      using blocks_okD(1) [OF pool_okD(4) [OF h(1)] n] by blast
    have "int (length block) < rearPlace (n\<lparr>userSzie := bytes\<rparr>) + 8" unfolding b(2) by (rule too_small [OF small])
    then show ?thesis using poolMark_overruns [OF n(2) b(1)] by simp
  qed
  then show ?thesis using Malloc_takes [OF ok sys, of listMemory nodeMemory] by (elim disjE exE conjE) auto
qed

lemma Malloc_keeps:
  assumes ok: "pool_ok st" and sys: "system_block system (GetRealSize (ucast bytes)) st" and M: "DevMemoryPool_Malloc listMemory nodeMemory system bytes st = Inr (r, st')"
  shows "pool_ok st'"
  using Malloc_ok [OF ok sys, of listMemory nodeMemory] Malloc_small [OF ok sys, of listMemory nodeMemory] M
  by (cases "unat bytes + 16 \<le> unat (GetRealSize (ucast bytes))") auto

subsection \<open>Free\<close>

lemma blocks_remove:
  assumes ok: "blocks_ok N heap am sm" and i: "i < length am" "am ! i = x" and j: "j < length sm" "sm ! j = x"
  shows "blocks_ok N heap (removeAt i am) (removeAt j sm)" "set (removeAt i am) = set am - {x}"
proof -
  note D = blocks_okD [OF ok]
  have am: "set (removeAt i am) = set am - {x}" using set_removeAt [OF sorted_distinct [OF D(5)] i(1)] i(2) by simp
  have sm: "set (removeAt j sm) = set sm - {x}" using set_removeAt [OF sorted_distinct [OF D(6)] j(1)] j(2) by simp
  show "blocks_ok N heap (removeAt i am) (removeAt j sm)"
  proof (rule blocks_okI)
    show "holds N y" if "y \<in> set (removeAt i am)" for y using that D(3) am by simp
    show "sorted_wrt (<) (map (addrKey N) (removeAt i am))" "sorted_wrt (<) (map (sizeKey N) (removeAt j sm))"
      unfolding map_removeAt by (rule sorted_removeAt, rule D)+
    show "set (removeAt j sm) = set (removeAt i am)" unfolding am sm D(4) ..
    show "\<exists>bs. heap a = Some bs \<and> length bs = unat s" if "N y = Some (s, n)" "nodeAddr n = Some a" for y s n a by (rule D(1) [OF that])
    show "y = z" if "N y = Some (s, n)" "N z = Some (t, k)" "nodeAddr n = Some a" "nodeAddr k = Some a" for y z s n t k a by (rule D(2) [OF that])
  qed
  show "set (removeAt i am) = set am - {x}" by (rule am)
qed

lemma given_remove:
  assumes ok: "blocks_ok N heap am sm" and ok': "blocks_ok N heap am' sm'" and x: "set am' = set am - {x}" "N x = Some (s, n)" "nodeAddr n = Some a"
  shows "given N heap am' = (given N heap am)(a := None)"
proof (rule given_eqI)
  fix c u b
  have "y \<in> set am - {x} \<longleftrightarrow> y \<in> set am \<and> c \<noteq> a" if "N y = Some (t, k)" "nodeAddr k = Some c" for y t k
    using blocks_okD(2) [OF ok that(1) x(2) that(2)] x(2,3) that by auto
  then have "given N heap am' c = Some (u, b) \<longleftrightarrow> c \<noteq> a \<and> given N heap am c = Some (u, b)"
    unfolding given_iff [OF ok] given_iff [OF ok'] x(1) by blast
  then show "given N heap am' c = Some (u, b) \<longleftrightarrow> ((given N heap am)(a := None)) c = Some (u, b)" by simp
qed

text \<open>The node goes back to the system or waits for the next request.\<close>

lemma allNum_pos:
  assumes "list_ok l" and "j < DEV_MEMORY_POOL_NODE_MAX" and "p_node l ! j = Some n"
  shows "allNum l \<noteq> 0"
proof -
  have "set (unallocdNodeIndex l) \<subseteq> {..< DEV_MEMORY_POOL_NODE_MAX} - {j}" "distinct (unallocdNodeIndex l)" using assms by (auto simp: list_ok_def)
  then have "length (unallocdNodeIndex l) \<le> card ({..< DEV_MEMORY_POOL_NODE_MAX} - {j})" by (metis card_mono distinct_card finite_Diff finite_lessThan)
  also have "\<dots> < DEV_MEMORY_POOL_NODE_MAX" using assms(2) by simp
  finally show ?thesis by (simp add: allNum_def)
qed

lemma blocks_drop:
  assumes ok: "blocks_ok N heap am sm" and x: "x \<notin> set am" "N x = Some (s, n)" "nodeAddr n = Some a"
  shows "blocks_ok (N(x := None)) (heap(a := None)) am sm"
proof -
  note D = blocks_okD [OF ok]
  let ?N = "N(x := None)"
  have x': "x \<notin> set sm" using x(1) D(4) by simp
  have K: "map (sizeKey ?N) sm = map (sizeKey N) sm" "map (addrKey ?N) am = map (addrKey N) am"
    using x(1) x' by (auto intro!: map_cong simp: sizeKey_def addrKey_def)
  have old: "N y = Some (t, k)" "y \<noteq> x" if "?N y = Some (t, k)" for y t k using that by (simp_all split: if_splits)
  show ?thesis
  proof (rule blocks_okI)
    show "\<exists>bs. (heap(a := None)) b = Some bs \<and> length bs = unat t" if k: "?N y = Some (t, k)" "nodeAddr k = Some b" for y t k b
    proof -
      have "b \<noteq> a" using D(2) [OF old(1) [OF k(1)] x(2), of a] x(3) k(2) old(2) [OF k(1)] by auto
      then show ?thesis using D(1) [OF old(1) [OF k(1)] k(2)] by simp
    qed
    show "y = z" if k: "?N y = Some (t, k)" "?N z = Some (u, m)" "nodeAddr k = Some b" "nodeAddr m = Some b" for y z t k u m b
      using D(2) [OF old(1) [OF k(1)] old(1) [OF k(2)] k(3,4)] .
    show "holds ?N y" if "y \<in> set am" for y using D(3) [OF that] that x(1) by (auto simp: holds_def)
  qed (simp_all only: K D(4-6))
qed

lemma RemoveNode_ok:
  assumes ok: "pool_ok st" and p: "pending st (li, ni) s n" and a: "nodeAddr n = Some a" and fits: "unat (userSzie n) + 16 \<le> unat s"
  shows "\<exists>st'. RemoveNode (li, ni) st = Inr (True, st') \<and> pool_ok st' \<and> pool_blocks st' = pool_blocks st"
proof -
  let ?x = "(li, ni)"
  note P = pool_okD [OF ok]
  have x: "nodes st ?x = Some (s, n)" "\<not> nodeUsed n" using p by (simp_all add: pending_def)
  obtain l where l: "p_list st ! li = Some l" "p_node l ! ni = Some n" "realSize l = s" "li < DEV_MEMORY_POOL_LIST_MAX" "ni < DEV_MEMORY_POOL_NODE_MAX"
    using at_list [OF x(1)] by (auto simp: inRange_def)
  have lo: "list_ok l" using structureD(2) [OF P(3) l(4,1)] .
  have stack: "ni \<notin> set (AllocdButUnusedNodeIndex l)" using p l(1) by (simp add: pending_def)
  have out: "?x \<notin> set (m_addr_map st)" using blocks_okD(3) [OF P(4), of ?x] x by (auto simp: holds_def)
  obtain block where b: "poolHeap st a = Some block" using blocks_okD(1) [OF P(4) x(1) a] by blast
  have at: "nodeAt st ?x = Some (l, n)" using l(1,2) by (simp add: nodeAt_def)
  have all: "allNum l \<noteq> 0" by (rule allNum_pos [OF lo l(5,2)])
  show ?thesis
  proof (cases "GetRealFree l")
    case True
    let ?l = "l\<lparr>p_node := (p_node l)[ni := None], unallocdNodeIndex := unallocdNodeIndex l @ [ni]\<rparr>"
    let ?st1 = "st\<lparr>p_list := (p_list st)[li := Some ?l]\<rparr>" and ?h = "(poolHeap st)(a := None)"
    have r: "RemoveNode ?x st = Inr (True, ?st1\<lparr>poolHeap := ?h\<rparr>)" using at all True a b l(1) by (simp add: RemoveNode_def updList_at)
    have "ni \<notin> set (unallocdNodeIndex l)" using lo l(2) by (auto simp: list_ok_def)
    moreover have "{j. j < DEV_MEMORY_POOL_NODE_MAX \<and> (p_node l)[ni := None] ! j = None} = insert ni {j. j < DEV_MEMORY_POOL_NODE_MAX \<and> p_node l ! j = None}"
      using lo l(5) by (auto simp: list_ok_def nth_list_update split: if_splits)
    moreover have "(p_node l)[ni := None] ! j = p_node l ! j" if "j \<in> set (AllocdButUnusedNodeIndex l)" for j using stack that by (metis nth_list_update_neq)
    ultimately have "list_ok ?l" using lo stack by (simp add: list_ok_def)
    then have s1: "structure_ok ?st1" by (rule structure_list [OF P(3) l(4,1)])
    have n1: "nodes ?st1 = (nodes st)(?x := None)" using nodes_node [OF P(3), of ?x l ?l None] l(1,4,5) by (simp add: inRange_def)
    have B: "blocks_ok ((nodes st)(?x := None)) ?h (m_addr_map st) (m_realSize_map st)" by (rule blocks_drop [OF P(4) out x(1) a])
    have "given ((nodes st)(?x := None)) ?h (m_addr_map st) = given (nodes st) (poolHeap st) (m_addr_map st)"
    proof (rule given_keeps [OF P(4) B])
      show "\<forall>y \<in> set (m_addr_map st). ((nodes st)(?x := None)) y = nodes st y" using out by auto
      show "?h c = poolHeap st c" if "y \<in> set (m_addr_map st)" "nodes st y = Some (t, k)" "nodeAddr k = Some c" for y t k c
        using blocks_okD(2) [OF P(4) that(2) x(1), of a] that a out by auto
    qed
    moreover have "pool_ok (?st1\<lparr>poolHeap := ?h\<rparr>)" using s1 n1 B P(1,2) by (simp add: pool_ok_def)
    ultimately show ?thesis using r n1 by (simp add: pool_blocks_def)
  next
    case False
    let ?l = "l\<lparr>AllocdButUnusedNodeIndex := AllocdButUnusedNodeIndex l @ [ni]\<rparr>"
    let ?st = "st\<lparr>p_list := (p_list st)[li := Some ?l]\<rparr>"
    have r: "RemoveNode ?x st = Inr (True, ?st)" using at all False l(1) by (simp add: RemoveNode_def updList_at)
    have "list_ok ?l" using lo stack l(2,3,5) x(2) a fits by (auto simp: list_ok_def)
    then have "structure_ok ?st" by (rule structure_list [OF P(3) l(4,1)])
    moreover have "nodes ?st = nodes st" by (rule nodes_stack [OF P(3) l(1)]) simp_all
    ultimately have "keeps st ?st" using P(4) by (simp add: keeps_def same_maps_def)
    then show ?thesis using r keeps_pool [OF ok, of ?st] by simp
  qed
qed

lemma RemoveList_ok:
  assumes ok: "pool_ok st" and li: "li < DEV_MEMORY_POOL_LIST_MAX"
  shows "pool_ok (RemoveList li st)" "pool_blocks (RemoveList li st) = pool_blocks st"
proof -
  note P = pool_okD [OF ok]
  have "keeps st (RemoveList li st)"
  proof (cases "\<exists>l. p_list st ! li = Some l \<and> allNum l = 0 \<and> unusedAllocdNum l = 0")
    case False
    then have "RemoveList li st = st" by (auto simp: RemoveList_def split: option.splits)
    then show ?thesis using P by (simp add: keeps_def same_maps_def)
  next
    case True
    then obtain l where l: "p_list st ! li = Some l" "allNum l = 0" "unusedAllocdNum l = 0" by blast
    define front where "front = nat (fst (findEqual (listDir (realSize l) st) 0 (int (length (AllocdAndusedListIndex st)) - 1)))"
    define used where "used = (if front < length (AllocdAndusedListIndex st) then removeAt front (AllocdAndusedListIndex st) else butlast (AllocdAndusedListIndex st))"
    have "RemoveList li st = st\<lparr>AllocdAndusedListIndex := used, p_list := (p_list st)[li := None], AllocdButUnusedListIndex := AllocdButUnusedListIndex st @ [li]\<rparr>"
      using l by (simp add: RemoveList_def Let_def used_def front_def)
    then have r: "RemoveList li st = st\<lparr>p_list := (p_list st)[li := None]\<rparr>\<lparr>AllocdAndusedListIndex := used,
        AllocdButUnusedListIndex := AllocdButUnusedListIndex st @ [li]\<rparr>" by (cases st) simp
    have sub: "set used \<subseteq> set (AllocdAndusedListIndex st)"
      unfolding used_def by (auto simp: removeAt_def dest: in_set_takeD in_set_dropD in_set_butlastD)
    have lo: "list_ok l" using structureD(2) [OF P(3) li l(1)] .
    have u: "set (unallocdNodeIndex l) \<subseteq> {..< DEV_MEMORY_POOL_NODE_MAX}" "distinct (unallocdNodeIndex l)" using lo by (auto simp: list_ok_def)
    have "card {..< DEV_MEMORY_POOL_NODE_MAX} \<le> card (set (unallocdNodeIndex l))" using l(2) u(2) by (simp add: allNum_def distinct_card)
    then have "set (unallocdNodeIndex l) = {..< DEV_MEMORY_POOL_NODE_MAX}" using u(1) by (intro card_seteq) simp_all
    then have none: "p_node l ! j = None" if "j < DEV_MEMORY_POOL_NODE_MAX" for j using lo that by (auto simp: list_ok_def)
    have "nodes (st\<lparr>p_list := (p_list st)[li := None]\<rparr>) y = nodes st y" for y
      unfolding nodes_list [OF structureD(1) [OF P(3)]] using l(1) none by (auto simp: nodes_def nodeAt_def inRange_def)
    then have N: "nodes (RemoveList li st) = nodes st" unfolding r by (simp add: fun_eq_iff)
    have S: "length (p_list st) = DEV_MEMORY_POOL_LIST_MAX" "distinct (AllocdButUnusedListIndex st)"
      "set (AllocdButUnusedListIndex st) = {i. i < DEV_MEMORY_POOL_LIST_MAX \<and> p_list st ! i = None}" "\<forall>i \<in> set (AllocdAndusedListIndex st). i < DEV_MEMORY_POOL_LIST_MAX"
      "\<forall>i < DEV_MEMORY_POOL_LIST_MAX. \<forall>l. p_list st ! i = Some l \<longrightarrow> list_ok l" using P(3) by (simp_all add: structure_ok_def)
    have "{i. i < DEV_MEMORY_POOL_LIST_MAX \<and> (p_list st)[li := None] ! i = None} = insert li {i. i < DEV_MEMORY_POOL_LIST_MAX \<and> p_list st ! i = None}"
      using S(1) li by (auto simp: nth_list_update split: if_splits)
    moreover have "list_ok k" if "i < DEV_MEMORY_POOL_LIST_MAX" "(p_list st)[li := None] ! i = Some k" for i k
      using that S(1,5) by (cases "i = li") auto
    ultimately have "structure_ok (RemoveList li st)" using S(1-4) l(1) sub li unfolding r by (auto simp: structure_ok_def)
    then show ?thesis using N P(4) unfolding keeps_def by (simp add: r same_maps_def)
  qed
  then show "pool_ok (RemoveList li st)" "pool_blocks (RemoveList li st) = pool_blocks st" using keeps_pool [OF ok] by simp_all
qed

text \<open>A block that is out of the maps goes on to the system or to the stack of its class.\<close>

lemma give_back:
  assumes ok: "pool_ok st" and x: "nodes st x = Some (s, n)" "nodeAddr n = Some a" "nodeUsed n" "unat (userSzie n) + 16 \<le> unat s" "x \<notin> set (m_addr_map st)"
  shows "\<exists>st'. bindE (RemoveNode x (updNode x (\<lambda>n. n\<lparr>nodeUsed := False\<rparr>) st))
      (\<lambda>(removed, st3). if \<not> removed then Inr (False, st3) else Inr (True, RemoveList (fst x) st3)) = Inr (True, st') \<and>
    pool_ok st' \<and> pool_blocks st' = pool_blocks st"
proof -
  note P = pool_okD [OF ok]
  let ?n = "n\<lparr>nodeUsed := False\<rparr>"
  obtain l where l: "p_list st ! fst x = Some l" "p_node l ! snd x = Some n" "realSize l = s" "inRange x" using at_list [OF x(1)] by blast
  have lo: "list_ok l" using structureD(2) [OF P(3) _ l(1)] l(4) by (simp add: inRange_def)
  then have stack: "snd x \<notin> set (AllocdButUnusedNodeIndex k)" if "p_list st ! fst x = Some k" for k
    using that l(1,2) x(3) by (auto simp: list_ok_def)
  note u = updNode_ok [OF P(3) x(1) stack, where f = "\<lambda>n. n\<lparr>nodeUsed := False\<rparr>"]
  let ?st = "updNode x (\<lambda>n. n\<lparr>nodeUsed := False\<rparr>) st"
  have "blocks_ok (nodes ?st) (poolHeap ?st) (m_addr_map st) (m_realSize_map st)"
    using blocks_node [OF P(4) x(5,1), of ?n] u(2,4) by simp
  then have k: "keeps st ?st" using u x(5) by (auto simp: keeps_def)
  note K = keeps_pool [OF ok k]
  have "snd x \<notin> set (AllocdButUnusedNodeIndex k)" if k: "p_list ?st ! fst x = Some k" for k
  proof -
    obtain m where "p_list st ! fst x = Some m" "AllocdButUnusedNodeIndex m = AllocdButUnusedNodeIndex k"
      using u(5) k by (cases "p_list st ! fst x") auto
    then show ?thesis using stack by metis
  qed
  then have p: "pending ?st (fst x, snd x) s ?n" using u(2) by (simp add: pending_def)
  have n: "nodeAddr ?n = Some a" "unat (userSzie ?n) + 16 \<le> unat s" using x(2,4) by simp_all
  from RemoveNode_ok [OF K(1) p n] obtain st3 where r: "RemoveNode x ?st = Inr (True, st3)" "pool_ok st3" "pool_blocks st3 = pool_blocks ?st" by auto
  have "fst x < DEV_MEMORY_POOL_LIST_MAX" using l(4) by (simp add: inRange_def)
  from RemoveList_ok [OF r(2) this] show ?thesis using r K(2) by simp
qed

lemma Free_ok:
  assumes ok: "pool_ok st" and room: "length (m_addr_map st) < POOL_MAP_MAX" and g: "pool_blocks st a = Some (u, block)"
  shows "\<exists>st'. DevMemoryPool_Free (Some a) st = Inr (marks_around u block, st') \<and> pool_ok st' \<and> pool_blocks st' = (pool_blocks st)(a := None)"
proof -
  let ?am = "m_addr_map st" and ?sm = "m_realSize_map st" and ?N = "nodes st"
  note P = pool_okD [OF ok]
  note D = blocks_okD [OF P(4)] and T = all_there_ok [OF P(4) refl]
  obtain li ni s n where n: "(li, ni) \<in> set ?am" "?N (li, ni) = Some (s, n)" "nodeAddr n = Some a" "userSzie n = u" "poolHeap st a = Some block"
    using g unfolding pool_blocks_def given_iff [OF P(4)] by (metis surj_pair)
  let ?x = "(li, ni)"
  have h: "nodeUsed n" "unat (userSzie n) + 16 \<le> unat s" using D(3) [OF n(1)] n(2) by (auto simp: holds_def)
  have k: "addrKey ?N ?x = a" "sizeKey ?N ?x = (s, a)" using n by (simp_all add: addrKey_def sizeKey_def keyAddr_def)
  have only: "y = ?x" if "y \<in> set ?am" "addrKey ?N y = a" for y
    using holds_key [OF D(3) [OF that(1)]] that(2) D(2) n(2,3) by metis
  obtain i where i: "i < length ?am" "addrKey ?N (?am ! i) = a" "RemoveAddrMap a st = (Some (?am ! i), st\<lparr>m_addr_map := removeAt i ?am\<rparr>)"
    using RemoveAddrMap_ok [OF T(1) D(5) room, of a] n(1) k(1) by (auto split: if_splits)
  have ix: "?am ! i = ?x" using only i(1,2) by simp
  let ?st1 = "st\<lparr>m_addr_map := removeAt i ?am\<rparr>"
  have "\<exists>j < length (m_realSize_map ?st1). m_realSize_map ?st1 ! j = ?x \<and>
      RemoveRealSizeMap a s ?st1 = (True, ?st1\<lparr>m_realSize_map := removeAt j (m_realSize_map ?st1)\<rparr>)"
    by (rule RemoveRealSizeMap_ok) (use T(2) D(4,6) n(1) k(2) in \<open>simp_all add: all_there_def\<close>)
  then obtain j where j: "j < length ?sm" "?sm ! j = ?x" "RemoveRealSizeMap a s ?st1 = (True, ?st1\<lparr>m_realSize_map := removeAt j ?sm\<rparr>)" by auto
  let ?st2 = "?st1\<lparr>m_realSize_map := removeAt j ?sm\<rparr>"
  note B = blocks_remove [OF P(4) i(1) ix j(1,2)]
  have ok2: "pool_ok ?st2" using B(1) P(1-3) by (simp add: pool_ok_def)
  have g2: "pool_blocks ?st2 = (pool_blocks st)(a := None)" using given_remove [OF P(4) B n(2,3)] by (simp add: pool_blocks_def)
  obtain l where l: "nodeAt ?st1 ?x = Some (l, n)" "realSize l = s" "p_list ?st2 ! li = Some l" "li < DEV_MEMORY_POOL_LIST_MAX"
    using at_list [OF n(2)] by (auto simp: nodeAt_def inRange_def)
  have "length block = unat s" using D(1) [OF n(2,3)] n(5) by auto
  then have c: "poolCheck n ?st2 = Inr (marks_around u block)"
    using poolCheck_runs [OF n(3), of ?st2 block] n(4,5) rearPlace_fits(2) [OF h(2)] marked_around [OF h(2)] by simp
  have F: "DevMemoryPool_Free (Some a) st = (if marks_around u block
      then bindE (RemoveNode ?x (updNode ?x (\<lambda>n. n\<lparr>nodeUsed := False\<rparr>) ?st2)) (\<lambda>(removed, st3). if \<not> removed then Inr (False, st3) else Inr (True, RemoveList (fst ?x) st3))
      else Inr (False, ?st2))"
    using P(1,2) i(3) ix l(1,2) j(3) c by (simp add: DevMemoryPool_Free_def)
  have "\<exists>st'. bindE (RemoveNode ?x (updNode ?x (\<lambda>n. n\<lparr>nodeUsed := False\<rparr>) ?st2)) (\<lambda>(removed, st3). if \<not> removed then Inr (False, st3) else Inr (True, RemoveList (fst ?x) st3)) =
      Inr (True, st') \<and> pool_ok st' \<and> pool_blocks st' = pool_blocks ?st2"
    by (rule give_back [OF ok2]) (use n(2,3) h B(2) in simp_all)
  then show ?thesis using F ok2 g2 by auto
qed

lemma Free_refused:
  assumes ok: "pool_ok st" and room: "length (m_addr_map st) < POOL_MAP_MAX" and g: "pool_blocks st a = None"
  shows "DevMemoryPool_Free (Some a) st = Inr (False, st)"
proof -
  note P = pool_okD [OF ok]
  note D = blocks_okD [OF P(4)] and T = all_there_ok [OF P(4) refl]
  have "addrKey (nodes st) x \<noteq> a" if x: "x \<in> set (m_addr_map st)" for x
  proof
    assume "addrKey (nodes st) x = a"
    then obtain s n where "nodes st x = Some (s, n)" "nodeAddr n = Some a" using holds_key [OF D(3) [OF x]] by auto
    then obtain b where "given (nodes st) (poolHeap st) (m_addr_map st) a = Some (userSzie n, b)" using given_heap [OF P(4) x] by blast
    then show False using g by (simp add: pool_blocks_def)
  qed
  then have "RemoveAddrMap a st = (None, st)" using RemoveAddrMap_ok [OF T(1) D(5) room, of a] by auto
  then show ?thesis using P(1,2) by (simp add: DevMemoryPool_Free_def)
qed

subsection \<open>Every state of the pool\<close>

text \<open>Clients ask for blocks, give blocks back and write into theirs, over the marks too.\<close>

definition pool_start :: "DevMemoryPool \<Rightarrow> bool" where
  "pool_start st \<longleftrightarrow> (\<exists>st0. \<not> poolInit st0 \<and> DevMemoryPool_Init True st0 = (True, st))"

inductive pool_step :: "DevMemoryPool \<Rightarrow> DevMemoryPool \<Rightarrow> bool" where
  request: "system_block system (GetRealSize (ucast bytes)) st \<Longrightarrow> DevMemoryPool_Malloc listMemory nodeMemory system bytes st = Inr (r, st') \<Longrightarrow> pool_step st st'"
| return: "DevMemoryPool_Free addr st = Inr (ok, st') \<Longrightarrow> pool_step st st'"
| write_into: "pool_blocks st a = Some (u, block) \<Longrightarrow> length block' = length block \<Longrightarrow> pool_step st (st\<lparr>poolHeap := (poolHeap st)(a \<mapsto> block')\<rparr>)"

lemma Init_ok: "pool_start st \<Longrightarrow> pool_ok st \<and> pool_blocks st = Map.empty"
proof -
  assume "pool_start st"
  then obtain st0 where st: "st = st0\<lparr>poolInit := True, poolLocked := False, AllocdAndusedListIndex := [], AllocdButUnusedListIndex := [0..<DEV_MEMORY_POOL_LIST_MAX],
      p_list := replicate DEV_MEMORY_POOL_LIST_MAX None, m_addr_map := [], m_realSize_map := []\<rparr>"
    by (auto simp: pool_start_def DevMemoryPool_Init_def)
  have "nodes st x = None" for x using st by (simp add: nodes_def nodeAt_def inRange_def)
  then have N: "nodes st = (\<lambda>_. None)" by blast
  have "structure_ok st" unfolding st by (auto simp: structure_ok_def simp del: upt_rec_numeral)
  moreover have "blocks_ok (nodes st) (poolHeap st) [] []" unfolding N by (simp add: blocks_ok_def)
  ultimately have "pool_ok st" using st by (simp add: pool_ok_def)
  moreover have "pool_blocks st = Map.empty" using st by (simp add: pool_blocks_def given_def fun_eq_iff)
  ultimately show ?thesis ..
qed

lemma Free_keeps:
  assumes ok: "pool_ok st" and F: "DevMemoryPool_Free addr st = Inr (r, st')"
  shows "pool_ok st'"
proof (cases addr)
  case None
  then show ?thesis using F pool_okD(1) [OF ok] ok by (simp add: DevMemoryPool_Free_def)
next
  case (Some a)
  show ?thesis
  proof (cases "length (m_addr_map st) < POOL_MAP_MAX")
    case True
    show ?thesis
    proof (cases "pool_blocks st a")
      case None
      then show ?thesis using Free_refused [OF ok True None] F Some ok by simp
    next
      case g: (Some b)
      then show ?thesis using Free_ok [OF ok True, of a "fst b" "snd b"] F Some by auto
    qed
  next
    case False
    then have "RemoveAddrMap a st = (None, st)" by (simp add: RemoveAddrMap_def Let_def)
    then show ?thesis using F Some pool_okD(1,2) [OF ok] ok by (simp add: DevMemoryPool_Free_def)
  qed
qed

lemma write_keeps:
  assumes ok: "pool_ok st" and g: "pool_blocks st a = Some (u, block)" and len: "length block' = length block"
  shows "pool_ok (st\<lparr>poolHeap := (poolHeap st)(a \<mapsto> block')\<rparr>)"
proof -
  note P = pool_okD [OF ok]
  have "poolHeap st a = Some block" using g unfolding pool_blocks_def given_iff [OF P(4)] by blast
  from blocks_heap [OF P(4) this len] show ?thesis using P(1-3) by (simp add: pool_ok_def)
qed

interpretation device_pool: invariant_system pool_start pool_step pool_ok
proof
  show "pool_ok st'" if "pool_ok st" "pool_step st st'" for st st'
    using that(2,1) by (cases rule: pool_step.cases) (use Malloc_keeps Free_keeps write_keeps in blast)+
qed (use Init_ok in blast)

lemma blocks_count: "pool_ok st \<Longrightarrow> card (dom (pool_blocks st)) = length (m_addr_map st)"
proof -
  assume ok: "pool_ok st"
  note D = blocks_okD [OF pool_okD(4) [OF ok]] and G = given_heap [OF pool_okD(4) [OF ok]]
  have "pool_blocks st a \<noteq> None \<longleftrightarrow> a \<in> addrKey (nodes st) ` set (m_addr_map st)" for a
  proof
    show "a \<in> addrKey (nodes st) ` set (m_addr_map st)" if "pool_blocks st a \<noteq> None"
      using that by (auto simp: pool_blocks_def given_def find_Some_iff split: option.splits)
    show "pool_blocks st a \<noteq> None" if "a \<in> addrKey (nodes st) ` set (m_addr_map st)"
    proof -
      obtain x where x: "x \<in> set (m_addr_map st)" "addrKey (nodes st) x = a" using \<open>a \<in> _\<close> by blast
      obtain s n where "nodes st x = Some (s, n)" "nodeAddr n = Some a" using holds_key [OF D(3) [OF x(1)]] x(2) by auto
      then show ?thesis using G [OF x(1)] unfolding pool_blocks_def by blast
    qed
  qed
  then have "dom (pool_blocks st) = set (map (addrKey (nodes st)) (m_addr_map st))" by (auto simp: dom_def)
  moreover have "distinct (map (addrKey (nodes st)) (m_addr_map st))" using D(5) by (simp add: strict_sorted_iff)
  ultimately show ?thesis by (metis distinct_card length_map)
qed

text \<open>A pool in which one block of 100 bytes is given out.\<close>

definition empty_pool :: DevMemoryPool where
  "empty_pool = snd (DevMemoryPool_Init True \<lparr>poolInit = False, poolLocked = False, AllocdAndusedListIndex = [], AllocdButUnusedListIndex = [], p_list = [],
     m_addr_map = [], m_realSize_map = [], poolHeap = (\<lambda>_. None)\<rparr>)"

definition first_block :: "(nat \<times> u8 list) option" where
  "first_block = Some (64, replicate 512 0)"

lemma empty_pool_start: "pool_start empty_pool"
  unfolding pool_start_def empty_pool_def
  by (intro exI [of _ "\<lparr>poolInit = False, poolLocked = False, AllocdAndusedListIndex = [], AllocdButUnusedListIndex = [], p_list = [],
     m_addr_map = [], m_realSize_map = [], poolHeap = (\<lambda>_. None)\<rparr>"]) (simp add: DevMemoryPool_Init_def)

lemma real_size_100: "GetRealSize (ucast (100 :: u32)) = 512"
proof -
  have n: "unat (100 :: u64) = 100" and g: "granularity 100 = 512" and r: "roundUp 100 512 = 512"
    by (simp_all add: granularity_def m_size_align_def roundUp_def)
  have "unat (GetRealSize 100) = (if roundUp (unat (100 :: u64)) (granularity (unat (100 :: u64))) = unat (100 :: u64)
      then roundUp (unat (100 :: u64)) (granularity (unat (100 :: u64))) + 16 else roundUp (unat (100 :: u64)) (granularity (unat (100 :: u64)))) mod 2 ^ 32"
    by (rule GetRealSize_exact) simp
  also have "\<dots> = 512" unfolding n g r by simp
  finally have "unat (GetRealSize 100) = unat (512 :: u32)" by simp
  then have "GetRealSize 100 = 512" unfolding word_unat_eq_iff .
  then show ?thesis by simp
qed

lemma empty_pool_ready:
  "system_block first_block (GetRealSize (ucast (100 :: u32))) empty_pool" "nodes_left (GetRealSize (ucast (100 :: u32))) empty_pool"
  "AllocdButUnusedListIndex empty_pool \<noteq> []" "pool_blocks empty_pool = Map.empty" "m_addr_map empty_pool = []"
proof -
  show "system_block first_block (GetRealSize (ucast (100 :: u32))) empty_pool"
    by (simp add: real_size_100 [simplified] system_block_def first_block_def empty_pool_def DevMemoryPool_Init_def)
  have "p_list empty_pool ! i = None" if "i < DEV_MEMORY_POOL_LIST_MAX" for i using that by (simp add: empty_pool_def DevMemoryPool_Init_def)
  then show "nodes_left (GetRealSize (ucast (100 :: u32))) empty_pool" by (simp add: nodes_left_def)
  show "AllocdButUnusedListIndex empty_pool \<noteq> []" "m_addr_map empty_pool = []" by (simp_all add: empty_pool_def DevMemoryPool_Init_def)
  show "pool_blocks empty_pool = Map.empty" using Init_ok [OF empty_pool_start] by blast
qed

lemma one_block:
  "\<exists>a st block. DevMemoryPool_Malloc True True first_block 100 empty_pool = Inr (Some a, st) \<and> pool_blocks st = [a \<mapsto> (100, block)] \<and> marks_around 100 block"
proof -
  have ok: "pool_ok empty_pool" using Init_ok [OF empty_pool_start] by blast
  note E = empty_pool_ready
  have fits: "unat (100 :: u32) + 16 \<le> unat (GetRealSize (ucast (100 :: u32)))" unfolding real_size_100 by simp
  show ?thesis using Malloc_ok [OF ok E(1) fits, of True True] E(2-5) by (auto simp: request_served_def first_block_def)
qed

text \<open>C38: In every state of the pool, whatever its clients wrote, a request that returns changes the blocks given out by at most one more: one
  that was not given out, as large as its class, with both marks around the size asked for.  It is given out only if the marks fit, and then
  always unless the system has no memory, all classes are taken or the map of addresses is full.  It faults only where a mark does not fit
  or all nodes of a class are taken.\<close>

theorem pool_hands_out:
  assumes "pool_start s0" and "pool_step\<^sup>*\<^sup>* s0 st" and "system_block system (GetRealSize (ucast bytes)) st"
  shows "case DevMemoryPool_Malloc listMemory nodeMemory system bytes st of
      Inl e \<Rightarrow> e = BadIndex \<and> \<not> (unat bytes + 16 \<le> unat (GetRealSize (ucast bytes)) \<and> nodes_left (GetRealSize (ucast bytes)) st)
    | Inr (r, st') \<Rightarrow> request_served bytes r st st' \<and> (r \<noteq> None \<longrightarrow> unat bytes + 16 \<le> unat (GetRealSize (ucast bytes))) \<and>
        (unat bytes + 16 \<le> unat (GetRealSize (ucast bytes)) \<and> listMemory \<and> nodeMemory \<and> system \<noteq> None \<and> AllocdButUnusedListIndex st \<noteq> [] \<and>
         card (dom (pool_blocks st)) < POOL_MAP_MAX \<longrightarrow> r \<noteq> None)"
proof -
  have ok: "pool_ok st" by (rule device_pool.reachable_inv [OF assms(1,2)])
  show ?thesis
    using Malloc_ok [OF ok assms(3), of listMemory nodeMemory] Malloc_small [OF ok assms(3), of listMemory nodeMemory]
    by (cases "unat bytes + 16 \<le> unat (GetRealSize (ucast bytes))") (auto simp: blocks_count [OF ok] request_served_def)
qed

theorem pool_hands_out_witness:
  "\<exists>a st block. DevMemoryPool_Malloc True True first_block 100 empty_pool = Inr (Some a, st) \<and> pool_blocks st = [a \<mapsto> (100, block)] \<and> length block = 512 \<and>
     marks_around 100 block"
proof -
  note E = empty_pool_ready
  have fits: "unat (100 :: u32) + 16 \<le> unat (GetRealSize (ucast (100 :: u32)))" unfolding real_size_100 by simp
  show ?thesis
    using pool_hands_out [OF empty_pool_start rtranclp.rtrancl_refl E(1), of True True] fits E(2-5)
    by (auto simp: request_served_def real_size_100 [simplified] first_block_def split: sum.splits option.splits)
qed

lemma Free_full: "pool_ok st \<Longrightarrow> \<not> length (m_addr_map st) < POOL_MAP_MAX \<Longrightarrow> DevMemoryPool_Free (Some a) st = Inr (False, st)"
  using pool_okD(1,2) [of st] by (simp add: DevMemoryPool_Free_def RemoveAddrMap_def Let_def)

text \<open>C39: In every state the pool reaches from its start: giving back an address that is not given out, or was given back, is refused and
  changes nothing.  Giving back a block takes out that block and no other and tells whether both marks are still there - as long as the
  map of addresses has a free place; with as many blocks given out as the map has places, every return is refused and changes nothing, also
  that of a block given out.\<close>

theorem pool_takes_back:
  assumes "pool_start s0" and "pool_step\<^sup>*\<^sup>* s0 st"
  shows "case pool_blocks st a of
      None \<Rightarrow> DevMemoryPool_Free (Some a) st = Inr (False, st)
    | Some (u, block) \<Rightarrow>
        if card (dom (pool_blocks st)) < POOL_MAP_MAX
        then \<exists>st'. DevMemoryPool_Free (Some a) st = Inr (marks_around u block, st') \<and> pool_blocks st' = (pool_blocks st)(a := None)
        else DevMemoryPool_Free (Some a) st = Inr (False, st)"
proof -
  have ok: "pool_ok st" by (rule device_pool.reachable_inv [OF assms(1,2)])
  have count: "card (dom (pool_blocks st)) = length (m_addr_map st)" by (rule blocks_count [OF ok])
  show ?thesis
  proof (cases "length (m_addr_map st) < POOL_MAP_MAX")
    case True
    then show ?thesis using Free_refused [OF ok True, of a] Free_ok [OF ok True, of a] count by (auto split: option.splits)
  next
    case False
    then show ?thesis using Free_full [OF ok False, of a] count by (auto split: option.splits)
  qed
qed

theorem pool_takes_back_witness:
  "\<exists>a st st'. DevMemoryPool_Malloc True True first_block 100 empty_pool = Inr (Some a, st) \<and> DevMemoryPool_Free (Some a) st = Inr (True, st') \<and>
     pool_blocks st' = Map.empty \<and> DevMemoryPool_Free (Some (a + 1)) st = Inr (False, st)"
proof -
  obtain a st block where b: "DevMemoryPool_Malloc True True first_block 100 empty_pool = Inr (Some a, st)" "pool_blocks st = [a \<mapsto> (100, block)]"
    "marks_around 100 block" using one_block by blast
  have "pool_step\<^sup>*\<^sup>* empty_pool st" using pool_step.request [OF empty_pool_ready(1) b(1)] by blast
  note F = pool_takes_back [OF empty_pool_start this]
  have "card (dom (pool_blocks st)) < POOL_MAP_MAX" using b(2) by simp
  then show ?thesis using F [of a] F [of "a + 1"] b by auto
qed

text \<open>The granularities divide the range of a block's size.\<close>

lemma granularity_divides: "\<exists>k \<in> {9..23}. granularity n = 2 ^ k"
proof -
  have "granularity n \<in> set (map (\<lambda>p. unat (snd p)) m_size_align)"
  proof (cases "List.find (\<lambda>(s, _). n \<le> unat s) m_size_align")
    case None
    then show ?thesis by (simp add: granularity_def) (simp add: m_size_align_def)
  next
    case (Some p)
    then have "p \<in> set m_size_align" by (auto simp: find_Some_iff in_set_conv_nth)
    moreover have "granularity n = unat (snd p)" using Some by (cases p) (simp add: granularity_def)
    ultimately show ?thesis by simp
  qed
  moreover have "\<exists>k \<in> {9..23}. m = 2 ^ k" if "m \<in> set (map (\<lambda>p. unat (snd p)) m_size_align)" for m
  proof -
    have "map (\<lambda>p. unat (snd p)) m_size_align = map (\<lambda>k. 2 ^ k) [9, 10, 12, 13, 15, 16, 17, 20, 21, 22, 23, 23]"
      by (simp add: m_size_align_def)
    then have "m \<in> (\<lambda>k. 2 ^ k) ` set [9, 10, 12, 13, 15, 16, 17, 20, 21, 22, 23, 23 :: nat]" using that by (metis set_map)
    then obtain k where "m = 2 ^ k" "k \<in> set [9, 10, 12, 13, 15, 16, 17, 20, 21, 22, 23, 23 :: nat]" by (rule imageE)
    moreover from this have "k \<in> {9..23}" by auto
    ultimately show ?thesis by blast
  qed
  ultimately show ?thesis by blast
qed

lemma roundUp_range:
  fixes n :: nat
  assumes "n < 2 ^ 32"
  defines "r \<equiv> roundUp n (granularity n)"
  shows "n \<le> r" "r \<le> 2 ^ 32" "r = n \<Longrightarrow> n + 16 < 2 ^ 32"
proof -
  obtain k where k: "granularity n = 2 ^ k" "9 \<le> k" "k \<le> 23" using granularity_divides [of n] by auto
  let ?g = "2 ^ k :: nat"
  have "(2 :: nat) ^ 9 \<le> ?g" using k(2) by (intro power_increasing) simp_all
  then have g: "512 \<le> ?g" by simp
  have "(2 :: nat) ^ 32 = 2 ^ (32 - k) * ?g" using k(3) by (simp flip: power_add)
  then obtain d where d: "(2 :: nat) ^ 32 = d * ?g" by blast
  have q: "(n + (?g - 1)) div ?g * ?g + (n + (?g - 1)) mod ?g = n + (?g - 1)" by (rule div_mult_mod_eq)
  have "(n + (?g - 1)) mod ?g < ?g" by simp
  then show "n \<le> r" using q g unfolding r_def k(1) roundUp_def by linarith
  have "n < d * ?g" using assms(1) d by simp
  then have "n + (?g - 1) < (d + 1) * ?g" using g by simp
  then have "(n + (?g - 1)) div ?g < d + 1" using less_mult_imp_div_less by blast
  then have "(n + (?g - 1)) div ?g \<le> d" by simp
  then have "(n + (?g - 1)) div ?g * ?g \<le> d * ?g" by (rule mult_le_mono1)
  then show "r \<le> 2 ^ 32" unfolding r_def k(1) roundUp_def d .
  assume "r = n"
  then obtain c where c: "n = c * ?g" unfolding r_def k(1) roundUp_def by metis
  then have "c < d" using \<open>n < d * ?g\<close> by simp
  then have "(c + 1) * ?g \<le> d * ?g" by (intro mult_le_mono1) simp
  then show "n + 16 < 2 ^ 32" using c d g by simp
qed

text \<open>C40: Whatever size is asked for, the block is as large as the size rounded up to its granularity, or 16 bytes larger if rounding up
  leaves the size as it is; the result of rounding that does not fit into 32 bits becomes 0.  So the block has room for its marks
  exactly if rounding up leaves the size as it is or adds at least the marks' 16 bytes and still fits: it has none when 1 to 15 bytes are
  added, and none for the sizes above 0xFF800000.\<close>

theorem pool_marks_fit:
  "unat (GetRealSize (ucast (bytes :: u32))) =
     (let r = roundUp (unat bytes) (granularity (unat bytes)) in if r = unat bytes then r + 16 else if r < 2 ^ 32 then r else 0) \<and>
   (unat bytes + 16 \<le> unat (GetRealSize (ucast bytes)) \<longleftrightarrow>
     (let r = roundUp (unat bytes) (granularity (unat bytes)) in r = unat bytes \<or> unat bytes + 16 \<le> r \<and> r < 2 ^ 32)) \<and>
   (4286578688 < unat bytes \<longrightarrow> GetRealSize (ucast bytes) = 0)"
proof -
  define k where "k = unat bytes"
  define r where "r = roundUp k (granularity k)"
  have k: "k < 2 ^ 32" using unsigned_less [of bytes] by (simp add: k_def)
  have n: "unat (ucast bytes :: u64) = k" using k by (simp add: unsigned_ucast_eq k_def [symmetric] take_bit_nat_eq_self)
  note R = roundUp_range [OF k, folded r_def]
  have G: "unat (GetRealSize (ucast bytes)) = (if r = k then r + 16 else r) mod 2 ^ 32"
    using GetRealSize_exact [of "ucast bytes"] k unfolding n by (simp add: r_def)
  have size: "unat (GetRealSize (ucast bytes)) = (if r = k then r + 16 else if r < 2 ^ 32 then r else 0)"
  proof (cases "r < 2 ^ 32")
    case True
    then show ?thesis using G R(3) by auto
  next
    case False
    then have "r = 2 ^ 32" using R(2) by simp
    then show ?thesis using G k by simp
  qed
  have "GetRealSize (ucast bytes) = 0" if h: "4286578688 < k"
  proof -
    have g: "granularity k = 8388608" using h by (simp add: granularity_def m_size_align_def)
    have "k < 4294967296" using k by simp
    then have "(k + 8388607) div 8388608 = 512" using h by linarith
    then have "r = 2 ^ 32" by (simp add: r_def g roundUp_def)
    then have "unat (GetRealSize (ucast bytes)) = unat (0 :: u32)" using size k by simp
    then show ?thesis unfolding word_unat_eq_iff .
  qed
  then show ?thesis using size R(1) unfolding Let_def k_def [symmetric] r_def [symmetric] by auto
qed

text \<open>One byte more than 0xFF800000 gets a block of no bytes.\<close>

theorem pool_marks_fit_witness:
  "unat (GetRealSize (ucast (0xFF800001 :: u32))) = 0 \<and> unat (GetRealSize (ucast (500 :: u32))) = 512 \<and>
   unat (GetRealSize (ucast (512 :: u32))) = 528"
proof -
  have g: "granularity 500 = 512" "granularity 512 = 512" "roundUp 500 512 = 512" "roundUp 512 512 = 512"
    by (simp_all add: granularity_def m_size_align_def roundUp_def)
  show ?thesis using pool_marks_fit [of 500] pool_marks_fit [of 512] pool_marks_fit [of "0xFF800001"] g by (simp add: Let_def)
qed

end
