(* ===== verification/Spec2Isabelle.thy ===== *)
theory Spec2Isabelle
  imports PrunerCorrect PipelineCorrect SessionGraph BufferPool NodeCorrect NodeSchedule Workers SessionImages SessionPre SessionHandles
    DebugData SnapshotControl TaskMonitor StreamBuffers DeviceQueue DevicePool
begin

text \<open>
  Verification of the camera algorithm engine (\<^verbatim>\<open>src/mivifwk/mialgoengine\<close> and the tag lookup of
  \<^verbatim>\<open>src/mivifwk/common/metautils\<close>) and of the parts of the camera provider around it that keep
  a state of their own (under \<^verbatim>\<open>src/mivifwk\<close>).

  \<^bold>\<open>The program.\<close>  A camera application opens a session for a mode.  The session reads a
  description of a pipeline of algorithm nodes from a file, loads the plugins and waits for
  frames.  Frames of one name belong to one request.  For every request a pipeline object is
  created: the pruner cuts the described graph down to what the request needs, the pipeline moves
  images along the links and dispatches a node when the nodes that feed it have finished; nodes
  run in threads of a pool, take images from the pipeline, call the plugin and report back.
  Images between nodes come from pools that the session keeps by format; images at the ends
  belong to the application and go back to it.  Results of the nodes are collected by the session
  and delivered with the last image of the request.

  \<^bold>\<open>Theories and sources.\<close>
  \<^item> \<open>MiaPrelude\<close>: faults and results, words, the \<open>invariant_system\<close> every step relation is an
    interpretation of.  \<open>StdMap\<close>: \<open>std::map\<close> as a sorted association list, behind a locale.
  \<^item> \<open>Metadata\<close>, \<open>MetaStore\<close> (\<^verbatim>\<open>VendorMetadataParser.cpp\<close>): looking tags up; writing, erasing and merging
    them, and the classes that own the metadata of a frame and of the cameras.
  \<^item> \<open>JsonConfig\<close> (\<^verbatim>\<open>MiaJsonUtils.cpp\<close>), \<open>PipelineTypes\<close> (\<^verbatim>\<open>MiaJsonUtils.h\<close>): the description and its reader.
  \<^item> \<open>PortPrune\<close>, \<open>NodePrune\<close>, \<open>Pruner\<close>, \<open>PrunerCorrect\<close> (\<^verbatim>\<open>MiaPipelinePruner.cpp\<close> and its platform
    variant \<^verbatim>\<open>MiaPipelinePrunerInfoMTK.cpp\<close>): port pruning, node pruning, the cache, customisation and
    the link check; \<open>Samples\<close> holds example graphs.
  \<^item> \<open>FrameUtil\<close> (\<^verbatim>\<open>MiaUtil.cpp\<close>, \<^verbatim>\<open>MiaFmt.h\<close>): frame layouts and copies.
  \<^item> \<open>BufferManager\<close> (\<^verbatim>\<open>MiaBufferManager.cpp\<close>), \<open>BufferPool\<close> (\<open>BufferQueueWrapper\<close> in
    \<^verbatim>\<open>MiaOfflineSession.cpp\<close>): memory and the pools of internal images.
  \<^item> \<open>SafeQueue\<close> (\<^verbatim>\<open>ThreadSafeQueue.h\<close>), \<open>Workers\<close> (\<^verbatim>\<open>ThreadPool.cpp\<close>): queues and threads.
  \<^item> \<open>Image\<close> (\<^verbatim>\<open>MiaImage.cpp\<close>), \<open>PipelineRun\<close>, \<open>ImageMoves\<close>, \<open>PipelineFlow\<close>, \<open>Dispatch\<close>,
    \<open>PipelineCorrect\<close> (\<^verbatim>\<open>MiaPipeline.cpp\<close>): images, their flow through a pipeline, dispatching.
  \<^item> \<open>NodeTask\<close>, \<open>NodeSchedule\<close>, \<open>NodeCorrect\<close> (\<^verbatim>\<open>MiaNode.cpp\<close>): what a node does with a request, and
    which request it turns to.
  \<^item> \<open>SessionGraph\<close>, \<open>SessionExif\<close>, \<open>SessionPre\<close>, \<open>Session\<close>, \<open>SessionCorrect\<close>,
    \<open>SessionImages\<close> (\<^verbatim>\<open>MiaOfflineSession.cpp\<close>): building a session, describing requests, preparing the
    nodes, the session at work.  \<open>SessionHandles\<close> (\<^verbatim>\<open>MiaPostProcIntf.cpp\<close>): the C interface and the
    handles it gives out.
  \<^item> \<open>DebugData\<close> (\<^verbatim>\<open>common/offlineDebugDataUtils\<close>): the buffers of debug data that the
    provider and the engine share, and the thread that reclaims them.
  \<^item> \<open>SnapshotControl\<close> (\<^verbatim>\<open>hal/mihal/AppSnapshotController.cpp\<close>, \<^verbatim>\<open>Timer.cpp\<close>), \<open>TaskMonitor\<close>
    (\<^verbatim>\<open>hal/mihal/MialgoTaskMonitor.cpp\<close>): how the load of the engine mutes and wakes the application.
  \<^item> \<open>StreamBuffers\<close> (\<^verbatim>\<open>mizone/MiBufferManager.cpp\<close>): the buffers of the streams of a capture session.
  \<^item> \<open>DeviceQueue\<close> (\<^verbatim>\<open>odm/plugins/qcom/ldc/device/dev_queue.cpp\<close>), \<open>DeviceMemory\<close>, \<open>DevicePool\<close>
    (\<^verbatim>\<open>odm/plugins/qcom/frontbokeh/device/dev_memoryPool.cpp\<close>): byte queues and memory pool of the device
    library, which most plugins carry a copy of; \<open>DevicePool\<close> holds what the pool keeps.

  \<^bold>\<open>Conventions.\<close>  Definitions carry the names of the source.  A member function is one definition
  from the state before to the state after.  \<open>Inl\<close> is a fault the code has at that point (a null
  dereference, an index or iterator out of range, an abort of the library, a wait that is not
  over); error codes the code returns are values.  Machine integers are words.  Objects that are
  shared by reference (images, pipelines, handles) live in a store indexed by address; the
  addresses \<open>new\<close> returns, the answers of the kernel, of the allocator, of plugins and of the text
  parser, floating point arithmetic and number printing are arguments.  A mutex makes the section
  it covers one step; concurrent executions are the interleavings of these steps, given as
  inductive step relations, and the properties of all executions are invariants of them.  A function
  that locks more than once is taken apart into its sections in \<open>StreamBuffers\<close> (\<open>getBufferFromIdle\<close>
  and \<open>moveToBusy\<close>, \<open>newBuffer\<close> and \<open>enterBuffer\<close>) and \<open>DebugData\<close> (\<open>noteSession\<close> and \<open>takeSlot\<close>,
  \<open>reclaimTest\<close> and \<open>reclaimSlots\<close>).  The member functions of a pipeline are one step each, also those
  that lock only single updates, as \<open>notifyNextNode\<close> does with the counters and the run sequence.

  \<^bold>\<open>What the lemmas show.\<close>
  \<^item> Pruning: the links removed and the nodes disabled are exactly the closures and chains of the
    request; pruning terminates without fault on acyclic descriptions; what is served, fresh or
    cached, has no direct links between ends, and serving repeats itself.
  \<^item> Running: use counts equal references in every interleaving without a forced flush, retiring then
    leaves nothing behind, a value pushed into a queue is delivered in its order or cleared, nodes are dispatched once and after their producers, the loop ends idle.
  \<^item> Nodes: one round of a node is a sequence of the pipeline's steps with one report
    (refinement); requests handed to a node are all served, in the order of their priorities.
  \<^item> Memory: counters, descriptors and mappings agree with the buffers held; destroying and failed
    creation leak nothing; every buffer of a pool belongs to one image.
  \<^item> Session: frames go to the request a reference grouping assigns them to; results reach the
    application once, in order; there is one pool of a format, and giving an image back is for the
    pipeline what the session with its pools does; a flushed request takes no frame any more.
  \<^item> Interface and metadata: a registered handle is that of a living session; a written tag is read
    back, whatever library keeps the entries as its documentation says; a frame that takes metadata over holds exactly it; buffers handed over are freed once.
  \<^item> Around the engine: debug buffers are freed once and not while held, if the rest of the program
    keeps to two conditions (\<open>first_buffer_lost\<close> shows why the second is needed); when the
    worker of the snapshot control waits, the application was told what the records ask for; the load
    of the task monitor is what is in flight, unless the timer or a deletion wrote it off; a buffer of
    a stream is in one place, and what a request gets nobody else holds, as long as no two requests
    are between finding an idle buffer and moving it (\<open>two_takers\<close>).
  \<^item> Device library: the bytes read from a queue are the bytes written, in order, and a transfer that
    goes past the end of the block is characterised exactly; a queue stays in the table until it is
    destroyed through a variable that holds its identity, or with the module; the pool implements a
    finite map from addresses to marked blocks until the map is full, and a block has room for both
    marks exactly when rounding adds nothing or enough for them and does not wrap.
  \<^item> Descriptions: printing and reading are inverse, and what is read is well formed.

  \<^bold>\<open>Fuel.\<close>  \<open>pruneUp\<close> and \<open>pruneDown\<close> work off a list of links that grows, \<open>realLoop\<close> follows fused
  links, \<open>checkLinkInformation\<close> recurses along links that may form a cycle, \<open>skipWhile\<close> and
  \<open>availLoop\<close> scan a text, \<open>popLoop\<close> empties a queue; \<open>prune_total\<close>, \<open>link_check_terminates\<close>,
  \<open>avail_memory_comes_back\<close> and \<open>retire_leaves_nothing\<close> show that the fuel the callers pass is
  enough.  \<open>virtualLoop\<close> takes the frames of one request and may wait for ever, so its theorems
  speak of the rounds that end.  The halving searches of the pool (\<open>bound\<close>, \<open>findEqual\<close>) terminate by the
  length of the range that is left.

  \<^bold>\<open>Not modelled.\<close>  Log statements without effect, dumps, tracing, the watchdog threads around
  plugin calls and initialisation, the timers, the readers of temperature, frequency and pressure
  files, allocating, copying and dumping camera metadata, the loader of plugins and the
  plugins themselves, the rest of their device library (threads, semaphores, messages, images,
  settings: wrappers of the system) and the report of its pool, which only logs.  Of the camera provider the devices, streams and sessions that wrap
  the vendor's interfaces are left out: they are sequences of calls of libraries that are not in the
  repository.  The rest of it (display, touch, audio and memory services) does not take part in the
  engine.
\<close>

end
